(* ===== verification/Prelude.thy ===== *)
theory Prelude
  imports Main "HOL-Library.Word" "HOL-Library.Sublist"
begin

text \<open>
  Shared ground of the development: the machine types of the C sources, the allocator oracle
  that every component calling \<open>malloc\<close> or \<open>kmalloc\<close> threads through its state, the small
  C conversions, and the generic lemmas on lists, words and functions that the component
  theories use. The collections \<open>heap_simps\<close> and \<open>c_simps\<close> gather the unfolding rules a
  component's automation needs.
\<close>

section \<open>Machine types\<close>

type_synonym u8 = "8 word"
type_synonym u16 = "16 word"
type_synonym u32 = "32 word"
type_synonym u64 = "64 word"


text \<open>The error numbers of the kernel interface.\<close>

definition EPERM :: int where "EPERM = 1"
definition ENOENT :: int where "ENOENT = 2"
definition EINTR :: int where "EINTR = 4"
definition EIO :: int where "EIO = 5"
definition EBADF :: int where "EBADF = 9"
definition EAGAIN :: int where "EAGAIN = 11"
definition ENOMEM :: int where "ENOMEM = 12"
definition EFAULT :: int where "EFAULT = 14"
definition EBUSY :: int where "EBUSY = 16"
definition ENODEV :: int where "ENODEV = 19"
definition EINVAL :: int where "EINVAL = 22"
definition ENOSPC :: int where "ENOSPC = 28"

text \<open>Truth values of C conditions: any value other than 0 is true.\<close>

abbreviation c_bool :: "'a::zero \<Rightarrow> bool" where
  "c_bool x \<equiv> x \<noteq> 0"

section \<open>The allocator\<close>

text \<open>
  Whether a call of \<open>malloc\<close> succeeds is up to the environment. The outcomes of the coming
  calls are a list, one entry per call; past its end every call succeeds. A run in which no
  allocation fails is one whose list holds no \<open>False\<close>.
\<close>

type_synonym outcomes = "bool list"

fun alloc_next :: "outcomes \<Rightarrow> bool \<times> outcomes" where
  "alloc_next [] = (True, [])"
| "alloc_next (b # bs) = (b, bs)"

definition never_fails :: "outcomes \<Rightarrow> bool" where
  "never_fails bs \<longleftrightarrow> False \<notin> set bs"

lemma never_fails_Nil [simp]: "never_fails []"
  by (simp add: never_fails_def)

lemma alloc_next_never_fails:
  "never_fails bs \<Longrightarrow> fst (alloc_next bs) \<and> never_fails (snd (alloc_next bs))"
  by (cases bs) (auto simp: never_fails_def)

lemma alloc_next_cases:
  assumes "never_fails bs"
  obtains bs' where "alloc_next bs = (True, bs')" and "never_fails bs'"
  using alloc_next_never_fails [OF assms] by (metis prod.collapse)

section \<open>Lists\<close>

text \<open>The longest suffix of a word that lies in a given set of words.\<close>

fun longest_in :: "('a list \<Rightarrow> bool) \<Rightarrow> 'a list \<Rightarrow> 'a list" where
  "longest_in P [] = []"
| "longest_in P (x # xs) = (if P (x # xs) then x # xs else longest_in P xs)"

lemma longest_in_suffix: "suffix (longest_in P w) w"
  by (induction w) (auto simp: suffix_Cons)

lemma longest_in_holds: "P [] \<Longrightarrow> P (longest_in P w)"
  by (induction w) auto

lemma longest_in_self [simp]: "P w \<Longrightarrow> longest_in P w = w"
  by (cases w) auto

lemma longest_in_greatest:
  assumes "P v" and "suffix v w"
  shows "suffix v (longest_in P w)"
  using assms
proof (induction w)
  case Nil
  then show ?case by simp
next
  case (Cons x xs)
  then show ?case by (auto simp: suffix_Cons)
qed

lemma length_longest_in: "length (longest_in P w) \<le> length w"
  using longest_in_suffix [of P w] by (simp add: suffix_length_le)

text \<open>
  For a set closed under prefixes the longest suffix can be computed letter by letter: this is
  why an automaton whose states are the words of the set can recognise it.
\<close>

lemma longest_in_snoc:
  assumes "P []" and closed: "\<And>v c. P (v @ [c]) \<Longrightarrow> P v"
  shows "longest_in P (w @ [c]) = longest_in P (longest_in P w @ [c])"
proof (induction w)
  case Nil
  then show ?case using assms(1) by simp
next
  case (Cons x xs)
  show ?case
  proof (cases "P (x # xs)")
    case True
    then show ?thesis by simp
  next
    case False
    with closed [of "x # xs" c] have "\<not> P (x # xs @ [c])" by auto
    with False Cons.IH show ?thesis by simp
  qed
qed

text \<open>Position of an element in a list.\<close>

fun index_of :: "'a list \<Rightarrow> 'a \<Rightarrow> nat" where
  "index_of [] x = 0"
| "index_of (y # ys) x = (if x = y then 0 else Suc (index_of ys x))"

lemma index_of_less: "x \<in> set xs \<Longrightarrow> index_of xs x < length xs"
  by (induction xs) auto

lemma nth_index_of [simp]: "x \<in> set xs \<Longrightarrow> xs ! index_of xs x = x"
  by (induction xs) auto

lemma index_of_nth: "distinct xs \<Longrightarrow> i < length xs \<Longrightarrow> index_of xs (xs ! i) = i"
  by (induction xs arbitrary: i) (auto simp: nth_Cons split: nat.splits)

lemma index_of_append [simp]:
  "index_of (xs @ ys) x = (if x \<in> set xs then index_of xs x else length xs + index_of ys x)"
  by (induction xs) auto

lemma index_of_inj:
  "x \<in> set xs \<Longrightarrow> y \<in> set xs \<Longrightarrow> index_of xs x = index_of xs y \<longleftrightarrow> x = y"
  by (metis nth_index_of)

section \<open>Words\<close>

lemma sint_small_nat: "n < 2 ^ 31 \<Longrightarrow> sint (of_nat n :: 32 word) = int n"
  by (simp add: signed_of_nat signed_take_bit_int_eq_self)

text \<open>Every byte is the image of a number below 256.\<close>

lemma bytes_UNIV: "set (map of_nat [0..<256] :: u8 list) = UNIV"
proof -
  have "w \<in> of_nat ` {0..<256}" for w :: u8
  proof (rule image_eqI [of _ _ "unat w"])
    show "unat w \<in> {0..<256}" using unsigned_less [of w, where 'a = nat] by simp
  qed simp
  then show ?thesis by auto
qed

end
