(* ===== verification/AcsmQueue.thy ===== *)
theory AcsmQueue
  imports Prelude
begin

text \<open>
  The intrusive queue of \<open>src/algo/aho_corasick_state_machine/acsm.c\<close>: circular doubly linked
  lists threaded through the \<open>queue\<close> member of \<open>acsm_state_queue_t\<close>. The heap holds one cell per
  queue node; the two list heads \<open>ctx->work_queue\<close> and \<open>ctx->free_queue\<close> are cells of the same
  heap at fixed addresses. The ring predicate relates a head to the list of addresses linked
  behind it; every macro is shown to act on that list as its name says.
\<close>

section \<open>The heap\<close>

text \<open>
  \<open>acsm_queue_t\<close> has the fields \<open>prev\<close> and \<open>next\<close>; \<open>acsm_state_queue_t\<close> adds \<open>state\<close> (here \<open>q_state\<close>). As the
  \<open>queue\<close> member and the structure that holds it have one address up to a constant offset
  (\<open>acsm_queue_data\<close>), both are named by the same number here. \<open>brk\<close> is the next address
  \<open>malloc\<close> hands out, \<open>alive\<close> the addresses that are allocated and not yet freed.
\<close>

record acsm_heap =
  prev :: "nat \<Rightarrow> nat"
  nxt :: "nat \<Rightarrow> nat"
  q_state :: "nat \<Rightarrow> int"
  brk :: nat
  alive :: "nat \<Rightarrow> bool"

definition work_queue :: nat where "work_queue = 0"
definition free_queue :: nat where "free_queue = 1"

abbreviation set_prev :: "nat \<Rightarrow> nat \<Rightarrow> acsm_heap \<Rightarrow> acsm_heap" where
  "set_prev x y h \<equiv> h\<lparr>prev := (prev h)(x := y)\<rparr>"

abbreviation set_nxt :: "nat \<Rightarrow> nat \<Rightarrow> acsm_heap \<Rightarrow> acsm_heap" where
  "set_nxt x y h \<equiv> h\<lparr>nxt := (nxt h)(x := y)\<rparr>"

section \<open>The macros\<close>

definition acsm_queue_init :: "nat \<Rightarrow> acsm_heap \<Rightarrow> acsm_heap" where
  "acsm_queue_init q h = set_nxt q q (set_prev q q h)"

definition acsm_queue_empty :: "nat \<Rightarrow> acsm_heap \<Rightarrow> bool" where
  "acsm_queue_empty q h \<longleftrightarrow> q = prev h q"

definition acsm_queue_insert_head :: "nat \<Rightarrow> nat \<Rightarrow> acsm_heap \<Rightarrow> acsm_heap" where
  "acsm_queue_insert_head q x h =
     (let h = set_nxt x (nxt h q) h;
          h = set_prev (nxt h x) x h;
          h = set_prev x q h
      in set_nxt q x h)"

definition acsm_queue_insert_tail :: "nat \<Rightarrow> nat \<Rightarrow> acsm_heap \<Rightarrow> acsm_heap" where
  "acsm_queue_insert_tail q x h =
     (let h = set_prev x (prev h q) h;
          h = set_nxt (prev h x) x h;
          h = set_nxt x q h
      in set_prev q x h)"

definition acsm_queue_last :: "nat \<Rightarrow> acsm_heap \<Rightarrow> nat" where
  "acsm_queue_last q h = prev h q"

definition acsm_queue_remove :: "nat \<Rightarrow> acsm_heap \<Rightarrow> acsm_heap" where
  "acsm_queue_remove x h =
     (let h = set_prev (nxt h x) (prev h x) h
      in set_nxt (prev h x) (nxt h x) h)"

lemmas queue_macros =
  acsm_queue_init_def acsm_queue_empty_def acsm_queue_insert_head_def
  acsm_queue_insert_tail_def acsm_queue_last_def acsm_queue_remove_def

section \<open>Rings\<close>

text \<open>\<open>links h zs\<close>: each node of \<open>zs\<close> and the one after it point at each other.\<close>

fun links :: "acsm_heap \<Rightarrow> nat list \<Rightarrow> bool" where
  "links h (a # b # zs) \<longleftrightarrow> nxt h a = b \<and> prev h b = a \<and> links h (b # zs)"
| "links h _ \<longleftrightarrow> True"

definition ring :: "acsm_heap \<Rightarrow> nat \<Rightarrow> nat list \<Rightarrow> bool" where
  "ring h q xs \<longleftrightarrow> distinct (q # xs) \<and> links h (q # xs @ [q])"

lemma links_append:
  "links h (xs @ a # ys) \<longleftrightarrow> links h (xs @ [a]) \<and> links h (a # ys)"
proof (induction xs)
  case Nil
  then show ?case by simp
next
  case (Cons x xs)
  then show ?case by (cases xs) auto
qed

lemma links_cong:
  assumes "\<And>x. x \<in> set (butlast zs) \<Longrightarrow> nxt h' x = nxt h x"
    and "\<And>x. x \<in> set (tl zs) \<Longrightarrow> prev h' x = prev h x"
  shows "links h' zs \<longleftrightarrow> links h zs"
  using assms
proof (induction zs rule: induct_list012)
  case (3 a b zs)
  have "links h' (b # zs) \<longleftrightarrow> links h (b # zs)"
    by (rule 3(2)) (use 3(3,4) in \<open>auto dest: in_set_butlastD list.set_sel(2) [rotated] split: if_splits\<close>)
  with 3(3) [of a] 3(4) [of b] show ?case by simp
qed auto

lemma ring_Nil: "ring h q [] \<longleftrightarrow> nxt h q = q \<and> prev h q = q"
  by (simp add: ring_def)

lemma ring_prev: "ring h q xs \<Longrightarrow> prev h q = last (q # xs)"
proof (cases xs rule: rev_cases)
  case (snoc ys y)
  assume "ring h q xs"
  with snoc have "links h ((q # ys) @ y # [q])" by (simp add: ring_def)
  then have "links h (y # [q])" using links_append [of h "q # ys" y "[q]"] by blast
  with snoc show ?thesis by simp
qed (simp add: ring_Nil)

lemma ring_nxt: "ring h q xs \<Longrightarrow> nxt h q = hd (xs @ [q])"
  by (cases xs) (simp_all add: ring_def)

lemma ring_empty: "ring h q xs \<Longrightarrow> acsm_queue_empty q h \<longleftrightarrow> xs = []"
  using ring_prev [of h q xs] unfolding acsm_queue_empty_def ring_def
  by (cases xs rule: rev_cases) auto

lemma ring_last: "ring h q (xs @ [x]) \<Longrightarrow> acsm_queue_last q h = x"
  by (simp add: acsm_queue_last_def ring_prev)

lemma ring_cong:
  assumes "\<And>x. x \<in> set (q # xs) \<Longrightarrow> nxt h' x = nxt h x \<and> prev h' x = prev h x"
  shows "ring h' q xs \<longleftrightarrow> ring h q xs"
proof -
  have "links h' (q # xs @ [q]) \<longleftrightarrow> links h (q # xs @ [q])"
    by (rule links_cong) (use assms in \<open>auto dest!: in_set_butlastD\<close>)
  then show ?thesis by (simp add: ring_def)
qed

lemma snoc_Cons_append: "q # xs = zs @ [a] \<Longrightarrow> zs @ a # ys = q # xs @ ys"
  by (metis append.assoc append_Cons append_Nil)

text \<open>The effect of each macro on the list of its ring, and on the cells it does not touch.\<close>

lemma ring_init: "ring (acsm_queue_init q h) q []"
  by (simp add: ring_Nil acsm_queue_init_def)

lemma nxt_insert_head:
  "nxt (acsm_queue_insert_head q x h) =
     (nxt h)(x := nxt h q, q := x)"
  by (simp add: acsm_queue_insert_head_def Let_def)

lemma prev_insert_head:
  "prev (acsm_queue_insert_head q x h) = (prev h)(nxt h q := x, x := q)"
  by (simp add: acsm_queue_insert_head_def Let_def)

lemma nxt_insert_tail:
  "nxt (acsm_queue_insert_tail q x h) = (nxt h)(prev h q := x, x := q)"
  by (simp add: acsm_queue_insert_tail_def Let_def)

lemma prev_insert_tail:
  "prev (acsm_queue_insert_tail q x h) = (prev h)(x := prev h q, q := x)"
  by (simp add: acsm_queue_insert_tail_def Let_def)

lemma prev_remove: "prev (acsm_queue_remove x h) = (prev h)(nxt h x := prev h x)"
  by (simp add: acsm_queue_remove_def Let_def)

lemma nxt_remove:
  "nxt (acsm_queue_remove x h) =
     (nxt h)(prev h x := nxt h x)"
  by (simp add: acsm_queue_remove_def Let_def)

lemmas queue_links =
  nxt_insert_head prev_insert_head nxt_insert_tail prev_insert_tail prev_remove nxt_remove

lemma ring_insert_head:
  assumes "ring h q xs" and "x \<notin> set (q # xs)"
  shows "ring (acsm_queue_insert_head q x h) q (x # xs)"
proof -
  let ?h = "acsm_queue_insert_head q x h"
  obtain b zs where bz: "xs @ [q] = b # zs" by (cases "xs @ [q]") auto
  from assms have nb: "nxt h q = b" by (simp add: ring_nxt bz)
  have "links ?h (b # zs) \<longleftrightarrow> links h (b # zs)"
  proof (rule links_cong)
    fix y assume "y \<in> set (butlast (b # zs))"
    then have "y \<in> set xs" by (metis bz butlast_snoc)
    with assms show "nxt ?h y = nxt h y" by (auto simp: queue_links ring_def)
  next
    fix y assume y: "y \<in> set (tl (b # zs))"
    have "distinct (b # zs)" using assms(1) by (simp add: ring_def flip: bz)
    with y have "y \<noteq> b" by auto
    moreover from y have "y \<in> set (xs @ [q])" by (simp add: bz)
    ultimately show "prev ?h y = prev h y" using assms nb by (auto simp: queue_links)
  qed
  moreover have "links h (b # zs)"
    using assms(1) by (simp add: ring_def bz)
  moreover have "x \<noteq> b"
    using assms bz by (cases xs) auto
  ultimately have "links ?h (q # x # b # zs)"
    using assms nb by (auto simp: queue_links)
  moreover have "q # (x # xs) @ [q] = q # x # b # zs" using bz by simp
  ultimately show ?thesis using assms by (auto simp: ring_def simp del: links.simps)
qed

lemma ring_insert_tail:
  assumes "ring h q xs" and "x \<notin> set (q # xs)"
  shows "ring (acsm_queue_insert_tail q x h) q (xs @ [x])"
proof -
  let ?h = "acsm_queue_insert_tail q x h"
  obtain zs a where za: "q # xs = zs @ [a]" by (metis append_butlast_last_id list.distinct(1))
  from assms have pa: "prev h q = a" by (metis ring_prev za last_snoc)
  have dist: "distinct (zs @ [a])" using assms(1) by (simp add: ring_def flip: za)
  have "links ?h (zs @ [a]) \<longleftrightarrow> links h (zs @ [a])"
  proof (rule links_cong)
    fix y assume "y \<in> set (butlast (zs @ [a]))"
    then have y: "y \<in> set zs" by simp
    with dist have "y \<noteq> a" by auto
    moreover have "y \<in> set (q # xs)" using y by (simp add: za)
    ultimately show "nxt ?h y = nxt h y" using assms pa by (auto simp: queue_links)
  next
    fix y assume "y \<in> set (tl (zs @ [a]))"
    then have "y \<in> set xs" by (metis list.sel(3) za)
    with assms show "prev ?h y = prev h y" by (auto simp: queue_links ring_def)
  qed
  moreover have "links h (zs @ a # [q])"
    unfolding snoc_Cons_append [OF za] using assms by (simp add: ring_def)
  then have "links h (zs @ [a])" using links_append by blast
  ultimately have "links ?h (zs @ [a])" by blast
  moreover have "x \<noteq> q" and "x \<noteq> a"
    using assms(2) arg_cong [OF za, of set] by auto
  then have "links ?h (a # x # [q])"
    using pa by (simp add: queue_links)
  ultimately have "links ?h (zs @ a # x # [q])" using links_append by blast
  moreover have "zs @ a # x # [q] = q # (xs @ [x]) @ [q]"
    using snoc_Cons_append [OF za] by simp
  ultimately show ?thesis using assms by (auto simp: ring_def simp del: links.simps)
qed

lemma ring_remove_last:
  assumes "ring h q (xs @ [x])"
  shows "ring (acsm_queue_remove x h) q xs"
proof -
  let ?h = "acsm_queue_remove x h"
  obtain zs a where za: "q # xs = zs @ [a]" by (metis append_butlast_last_id list.distinct(1))
  have l: "links h (zs @ a # x # [q])"
    unfolding snoc_Cons_append [OF za] using assms by (simp add: ring_def)
  then have l1: "links h (zs @ [a])" and l2: "links h (a # x # [q])"
    using links_append by blast+
  have dist: "distinct (zs @ [a, x])"
  proof -
    have "distinct ((q # xs) @ [x])" using assms by (auto simp: ring_def)
    then show ?thesis by (simp add: za)
  qed
  have qx: "q \<noteq> x" "x \<notin> set xs" using assms by (auto simp: ring_def)
  have "links ?h (zs @ [a]) \<longleftrightarrow> links h (zs @ [a])"
  proof (rule links_cong)
    fix y assume "y \<in> set (butlast (zs @ [a]))"
    with dist have "y \<noteq> a" by auto
    with l2 show "nxt ?h y = nxt h y" by (auto simp: queue_links)
  next
    fix y assume "y \<in> set (tl (zs @ [a]))"
    then have "y \<in> set xs" by (metis list.sel(3) za)
    with assms l2 show "prev ?h y = prev h y" by (auto simp: queue_links ring_def)
  qed
  with l1 have "links ?h (zs @ [a])" by blast
  moreover have "links ?h (a # [q])" using l2 by (auto simp: queue_links)
  ultimately have "links ?h (zs @ a # [q])" using links_append by blast
  moreover have "zs @ a # [q] = q # xs @ [q]"
    by (rule snoc_Cons_append [OF za])
  ultimately show ?thesis using assms by (simp add: ring_def)
qed

text \<open>Removing a node twice in a row does nothing the second time: its own pointers stay.\<close>

lemma remove_twice:
  assumes "nxt h x \<noteq> x" and "prev h x \<noteq> x"
  shows "acsm_queue_remove x (acsm_queue_remove x h) = acsm_queue_remove x h"
  using assms by (auto simp: acsm_queue_remove_def Let_def fun_upd_twist)

lemma ring_last_pointers:
  assumes "ring h q (xs @ [x])"
  shows "nxt h x = q" and "prev h x = last (q # xs)"
proof -
  obtain zs a where za: "q # xs = zs @ [a]" by (metis append_butlast_last_id list.distinct(1))
  have "links h (zs @ a # x # [q])"
    unfolding snoc_Cons_append [OF za] using assms by (simp add: ring_def)
  then have "links h (a # x # [q])" using links_append by blast
  then show "nxt h x = q" and "prev h x = last (q # xs)" by (simp_all add: za)
qed

text \<open>An operation on one ring leaves a ring of other nodes alone.\<close>

lemma ring_frame_remove_last:
  assumes "ring h q (xs @ [x])" and "ring h p ys" and "set (p # ys) \<inter> set (q # xs) = {}"
    and "x \<notin> set (p # ys)"
  shows "ring (acsm_queue_remove x h) p ys"
proof -
  have "last (q # xs) \<in> set (q # xs)" by (rule last_in_set) simp
  with assms ring_last_pointers [OF assms(1)] show ?thesis
    by (subst ring_cong [of p ys _ h]) (auto simp: queue_links)
qed

lemma ring_frame_insert_head:
  assumes "ring h q xs" and "ring h p ys" and "set (p # ys) \<inter> set (q # xs) = {}"
    and "x \<notin> set (p # ys)"
  shows "ring (acsm_queue_insert_head q x h) p ys"
proof -
  have "hd (xs @ [q]) \<in> set (q # xs)" by (cases xs) auto
  with assms ring_nxt [OF assms(1)] show ?thesis
    by (subst ring_cong [of p ys _ h]) (auto simp: queue_links)
qed

lemma ring_frame_insert_tail:
  assumes "ring h q xs" and "ring h p ys" and "set (p # ys) \<inter> set (q # xs) = {}"
    and "x \<notin> set (p # ys)"
  shows "ring (acsm_queue_insert_tail q x h) p ys"
proof -
  have "last (q # xs) \<in> set (q # xs)" by (rule last_in_set) simp
  with assms ring_prev [OF assms(1)] show ?thesis
    by (subst ring_cong [of p ys _ h]) (auto simp: queue_links)
qed

end
