(* ===== verification/Acsm.thy ===== *)
theory Acsm
  imports AcsmQueue "HOL-Library.Monad_Syntax"
begin

text \<open>
  The multi-pattern matcher \<open>src/algo/aho_corasick_state_machine/acsm.c\<close> with its header
  \<open>acsm.h\<close>: contexts, patterns, the state table, and the operations \<open>acsm_alloc\<close>,
  \<open>acsm_add_pattern\<close>, \<open>acsm_compile\<close>, \<open>acsm_search\<close> and \<open>acsm_free\<close>. \<open>unsigned\<close> members are
  32-bit words, \<open>int\<close> state numbers are integers. The singly linked lists of patterns are
  lists, head first. Loops whose end depends on the data the program built (following fail
  links, draining the queues) are partial functions whose value \<open>None\<close> means that the loop does
  not end; \<open>AcsmProof\<close> shows that they do.
\<close>

section \<open>Data\<close>

definition ACSM_FAIL_STATE :: int where "ACSM_FAIL_STATE = -1"
definition NO_CASE :: u32 where "NO_CASE = 1"

text \<open>
  A pattern. \<open>pat_string\<close> is \<open>None\<close> when the member is never assigned: \<open>acsm_add_pattern\<close> leaves
  it as \<open>malloc\<close> returned it when the length is 0.
\<close>

record acsm_pattern =
  pat_string :: "u8 list option"
  pat_len :: nat

record acsm_state_node =
  next_state :: "u8 \<Rightarrow> int"
  fail_state :: int
  match_list :: "acsm_pattern list"

text \<open>\<open>state_table\<close> is \<open>None\<close> for the null pointer. \<open>mallocs\<close> is the allocator's future.\<close>

record acsm_context =
  max_state :: u32
  num_state :: u32
  patterns :: "acsm_pattern list"
  state_table :: "acsm_state_node list option"
  no_case :: u32
  queues :: acsm_heap
  mallocs :: outcomes

definition node :: "acsm_context \<Rightarrow> int \<Rightarrow> acsm_state_node" where
  "node ctx s = the (state_table ctx) ! nat s"

definition set_node :: "int \<Rightarrow> acsm_state_node \<Rightarrow> acsm_context \<Rightarrow> acsm_context" where
  "set_node s nd ctx = ctx\<lparr>state_table := Some ((the (state_table ctx))[nat s := nd])\<rparr>"

definition set_next_state :: "int \<Rightarrow> u8 \<Rightarrow> int \<Rightarrow> acsm_context \<Rightarrow> acsm_context" where
  "set_next_state s c t ctx =
     set_node s ((node ctx s)\<lparr>next_state := (next_state (node ctx s))(c := t)\<rparr>) ctx"

definition set_fail_state :: "int \<Rightarrow> int \<Rightarrow> acsm_context \<Rightarrow> acsm_context" where
  "set_fail_state s t ctx = set_node s ((node ctx s)\<lparr>fail_state := t\<rparr>) ctx"

definition acsm_malloc :: "acsm_context \<Rightarrow> bool \<times> acsm_context" where
  "acsm_malloc ctx = (case alloc_next (mallocs ctx) of (ok, ms) \<Rightarrow> (ok, ctx\<lparr>mallocs := ms\<rparr>))"

definition acsm_tolower :: "u8 \<Rightarrow> u8" where
  "acsm_tolower c = (if 65 \<le> c \<and> c \<le> 90 then or c 32 else c)"

text \<open>The values \<open>0, \<dots>, ASCIITABLE_SIZE - 1\<close> of the loop variable \<open>j\<close>, as table indices.\<close>

definition ascii_table :: "u8 list" where
  "ascii_table = map of_nat [0..<256]"

section \<open>The work queue of states\<close>

definition acsm_alloc_state_queue :: "acsm_context \<Rightarrow> nat option \<times> acsm_context" where
  "acsm_alloc_state_queue ctx =
     (let h = queues ctx in
      if acsm_queue_empty free_queue h then
        (case acsm_malloc ctx of (ok, ctx) \<Rightarrow>
          if \<not> ok then (None, ctx)
          else
            (Some (brk h),
             ctx\<lparr>queues := h\<lparr>brk := Suc (brk h), alive := (alive h)(brk h := True)\<rparr>\<rparr>))
      else
        (let q = acsm_queue_last free_queue h
         in (Some q, ctx\<lparr>queues := acsm_queue_remove q h\<rparr>)))"

definition acsm_free_state_queue :: "acsm_context \<Rightarrow> nat \<Rightarrow> acsm_context" where
  "acsm_free_state_queue ctx sq =
     (let h = acsm_queue_remove sq (queues ctx);
          h = acsm_queue_insert_tail free_queue sq h
      in ctx\<lparr>queues := h\<lparr>q_state := (q_state h)(sq := ACSM_FAIL_STATE)\<rparr>\<rparr>)"

definition acsm_add_state :: "acsm_context \<Rightarrow> int \<Rightarrow> int \<times> acsm_context" where
  "acsm_add_state ctx s =
     (case acsm_alloc_state_queue ctx of
       (None, ctx) \<Rightarrow> (-1, ctx)
     | (Some sq, ctx) \<Rightarrow>
         (let h = (queues ctx)\<lparr>q_state := (q_state (queues ctx))(sq := s)\<rparr>
          in (0, ctx\<lparr>queues := acsm_queue_insert_head work_queue sq h\<rparr>)))"

definition acsm_next_state :: "acsm_context \<Rightarrow> int \<times> acsm_context" where
  "acsm_next_state ctx =
     (if acsm_queue_empty work_queue (queues ctx) then (ACSM_FAIL_STATE, ctx)
      else
        (let q = acsm_queue_last work_queue (queues ctx);
             ctx = ctx\<lparr>queues := acsm_queue_remove q (queues ctx)\<rparr>;
             s = q_state (queues ctx) q
         in (s, acsm_free_state_queue ctx q)))"

partial_function (option) acsm_free_state :: "acsm_context \<Rightarrow> acsm_context option" where
  "acsm_free_state ctx =
     (let q = acsm_queue_last free_queue (queues ctx) in
      if q = free_queue then Some ctx
      else
        (let h = acsm_queue_remove q (queues ctx)
         in acsm_free_state (ctx\<lparr>queues := h\<lparr>alive := (alive h)(q := False)\<rparr>\<rparr>)))"

declare acsm_free_state.simps [code]

section \<open>Match lists\<close>

definition acsm_state_add_match_pattern ::
    "acsm_context \<Rightarrow> int \<Rightarrow> acsm_pattern \<Rightarrow> int \<times> acsm_context" where
  "acsm_state_add_match_pattern ctx s p =
     (case acsm_malloc ctx of (ok, ctx) \<Rightarrow>
       if \<not> ok then (-1, ctx)
       else
         (0, set_node s ((node ctx s)\<lparr>match_list := p # match_list (node ctx s)\<rparr>) ctx))"

definition acsm_state_union_match_pattern ::
    "acsm_context \<Rightarrow> int \<Rightarrow> int \<Rightarrow> int \<times> acsm_context" where
  "acsm_state_union_match_pattern ctx s f =
     (0, fold (\<lambda>p ctx. snd (acsm_state_add_match_pattern ctx s p))
              (match_list (node ctx f)) ctx)"

section \<open>Contexts and patterns\<close>

definition init_queues :: acsm_heap where
  "init_queues = \<lparr>prev = (\<lambda>_. 0), nxt = (\<lambda>_. 0), q_state = (\<lambda>_. 0), brk = 2, alive = (\<lambda>_. False)\<rparr>"

definition acsm_alloc :: "u32 \<Rightarrow> outcomes \<Rightarrow> acsm_context option" where
  "acsm_alloc flag ms =
     (let no_case = (if c_bool (and flag NO_CASE) then 1 else 0) in
      case alloc_next ms of (ok, ms) \<Rightarrow>
        if \<not> ok then None
        else
          Some \<lparr>max_state = 1, num_state = 0, patterns = [], state_table = None,
                no_case = no_case,
                queues = acsm_queue_init free_queue (acsm_queue_init work_queue init_queues),
                mallocs = ms\<rparr>)"

definition acsm_fold_char :: "acsm_context \<Rightarrow> u8 \<Rightarrow> u8" where
  "acsm_fold_char ctx ch = (if c_bool (no_case ctx) then acsm_tolower ch else ch)"

definition acsm_add_pattern :: "acsm_context \<Rightarrow> u8 list \<Rightarrow> nat \<Rightarrow> int \<times> acsm_context" where
  "acsm_add_pattern ctx str len =
     (case acsm_malloc ctx of (ok, ctx) \<Rightarrow>
       if \<not> ok then (-1, ctx)
       else
         (case (if 0 < len then acsm_malloc ctx else (True, ctx)) of (ok, ctx) \<Rightarrow>
           if \<not> ok then (-1, ctx)
           else
             (let p = \<lparr>pat_string =
                         (if 0 < len
                          then Some (map (\<lambda>i. acsm_fold_char ctx (str ! i)) [0..<len])
                          else None),
                       pat_len = len\<rparr>
              in (0, ctx\<lparr>patterns := p # patterns ctx, max_state := max_state ctx + of_nat len\<rparr>))))"

text \<open>The letters the loops of \<open>acsm_compile\<close> read: \<open>p->string[j]\<close> for \<open>j < p->len\<close>.\<close>

definition pat_chars :: "acsm_pattern \<Rightarrow> u8 list" where
  "pat_chars p = (case pat_string p of Some s \<Rightarrow> take (pat_len p) s | None \<Rightarrow> [])"

section \<open>Compilation\<close>

definition init_node :: acsm_state_node where
  "init_node = \<lparr>next_state = (\<lambda>_. ACSM_FAIL_STATE), fail_state = 0, match_list = []\<rparr>"

definition init_table :: "acsm_context \<Rightarrow> acsm_context" where
  "init_table ctx = ctx\<lparr>state_table := Some (replicate (unat (max_state ctx)) init_node)\<rparr>"

text \<open>
  The goto function: walk down the existing states, stop at the first missing edge, and add a
  chain of new states for the letters that are left.
\<close>

fun goto_walk :: "acsm_context \<Rightarrow> int \<Rightarrow> u8 list \<Rightarrow> int \<times> u8 list" where
  "goto_walk ctx s [] = (s, [])"
| "goto_walk ctx s (ch # cs) =
     (if next_state (node ctx s) ch = ACSM_FAIL_STATE then (s, ch # cs)
      else goto_walk ctx (next_state (node ctx s) ch) cs)"

fun goto_extend :: "acsm_context \<Rightarrow> int \<Rightarrow> u8 list \<Rightarrow> int \<times> acsm_context" where
  "goto_extend ctx s [] = (s, ctx)"
| "goto_extend ctx s (ch # cs) =
     (let ctx = ctx\<lparr>num_state := num_state ctx + 1\<rparr>;
          new_state = sint (num_state ctx)
      in goto_extend (set_next_state s ch new_state ctx) new_state cs)"

definition goto_pattern :: "acsm_pattern \<Rightarrow> acsm_context \<Rightarrow> acsm_context" where
  "goto_pattern p ctx =
     (case goto_walk ctx 0 (pat_chars p) of
       (s, rest) \<Rightarrow>
         (case goto_extend ctx s rest of
           (s, ctx) \<Rightarrow> snd (acsm_state_add_match_pattern ctx s p)))"

definition goto_function :: "acsm_context \<Rightarrow> acsm_context" where
  "goto_function ctx = fold goto_pattern (patterns ctx) ctx"

definition root_edge :: "u8 \<Rightarrow> acsm_context \<Rightarrow> acsm_context" where
  "root_edge j ctx =
     (if next_state (node ctx 0) j = ACSM_FAIL_STATE then set_next_state 0 j 0 ctx else ctx)"

text \<open>The failure function, breadth first from the children of the root.\<close>

fun enqueue_depth1 :: "u8 list \<Rightarrow> acsm_context \<Rightarrow> int \<times> acsm_context" where
  "enqueue_depth1 [] ctx = (0, ctx)"
| "enqueue_depth1 (j # js) ctx =
     (if next_state (node ctx 0) j \<noteq> 0 then
        (let s = next_state (node ctx 0) j in
         case acsm_add_state ctx s of
           (rc, ctx) \<Rightarrow>
             if rc \<noteq> 0 then (-1, ctx)
             else enqueue_depth1 js (set_fail_state s 0 ctx))
      else enqueue_depth1 js ctx)"

text \<open>\<open>while (next_state[state][ch] == ACSM_FAIL_STATE) state = fail_state[state];\<close>\<close>

partial_function (option) follow_fail :: "acsm_context \<Rightarrow> int \<Rightarrow> u8 \<Rightarrow> int option" where
  "follow_fail ctx s ch =
     (if next_state (node ctx s) ch = ACSM_FAIL_STATE
      then follow_fail ctx (fail_state (node ctx s)) ch
      else Some s)"

declare follow_fail.simps [code]

definition visit_edge :: "int \<Rightarrow> u8 \<Rightarrow> acsm_context \<Rightarrow> acsm_context option" where
  "visit_edge r j ctx =
     (if next_state (node ctx r) j \<noteq> ACSM_FAIL_STATE then
        (let s = next_state (node ctx r) j;
             ctx = snd (acsm_add_state ctx s)
         in do {
              st \<leftarrow> follow_fail ctx (fail_state (node ctx r)) j;
              let ctx = set_fail_state s (next_state (node ctx st) j) ctx;
              Some (snd (acsm_state_union_match_pattern ctx s (fail_state (node ctx s))))
            })
      else
        (let st = fail_state (node ctx r)
         in Some (set_next_state r j (next_state (node ctx st) j) ctx)))"

fun visit_edges :: "int \<Rightarrow> u8 list \<Rightarrow> acsm_context \<Rightarrow> acsm_context option" where
  "visit_edges r [] ctx = Some ctx"
| "visit_edges r (j # js) ctx = Option.bind (visit_edge r j ctx) (visit_edges r js)"

partial_function (option) failure_function :: "acsm_context \<Rightarrow> acsm_context option" where
  "failure_function ctx =
     (if acsm_queue_empty work_queue (queues ctx) then Some ctx
      else (case acsm_next_state ctx of
        (r, ctx) \<Rightarrow> Option.bind (visit_edges r ascii_table ctx) failure_function))"

declare failure_function.simps [code]

definition acsm_compile :: "acsm_context \<Rightarrow> (int \<times> acsm_context) option" where
  "acsm_compile ctx =
     (case acsm_malloc ctx of (ok, ctx) \<Rightarrow>
       if \<not> ok then Some (-1, ctx\<lparr>state_table := None\<rparr>)
       else
         (let ctx = goto_function (init_table ctx);
              ctx = fold root_edge ascii_table ctx
          in case enqueue_depth1 ascii_table ctx of
               (rc, ctx) \<Rightarrow>
                 if rc \<noteq> 0 then Some (-1, ctx)
                 else do {
                   ctx \<leftarrow> failure_function ctx;
                   ctx \<leftarrow> acsm_free_state ctx;
                   Some (0, ctx)
                 }))"

section \<open>Search\<close>

fun search_from :: "acsm_context \<Rightarrow> int \<Rightarrow> u8 list \<Rightarrow> int option" where
  "search_from ctx s [] = Some 0"
| "search_from ctx s (c # cs) =
     (let ch = acsm_fold_char ctx c in
      do {
        s \<leftarrow> follow_fail ctx s ch;
        let s = next_state (node ctx s) ch;
        (if match_list (node ctx s) \<noteq> [] then Some 1 else search_from ctx s cs)
      })"

definition acsm_search :: "acsm_context \<Rightarrow> u8 list \<Rightarrow> int option" where
  "acsm_search ctx txt = search_from ctx 0 txt"

section \<open>Release\<close>

text \<open>
  \<open>acsm_free\<close> as the sequence of the blocks it gives to \<open>free\<close>, or the invalid access it makes:
  reading \<open>state_table[0]\<close> through a null pointer, or the \<open>string\<close> member no one assigned.
\<close>

datatype acsm_block =
    MatchCopy nat acsm_pattern
  | PatString "u8 list"
  | PatStruct acsm_pattern
  | StateTable
  | Context

datatype acsm_fault = NullStateTable | UninitString

fun free_patterns :: "acsm_pattern list \<Rightarrow> acsm_fault + acsm_block list" where
  "free_patterns [] = Inr []"
| "free_patterns (p # ps) =
     (case pat_string p of
       None \<Rightarrow> Inl UninitString
     | Some s \<Rightarrow>
         (case free_patterns ps of
           Inl e \<Rightarrow> Inl e
         | Inr bs \<Rightarrow> Inr (PatString s # PatStruct p # bs)))"

definition free_matches :: "acsm_state_node list \<Rightarrow> nat \<Rightarrow> acsm_block list" where
  "free_matches tbl n = concat (map (\<lambda>i. map (MatchCopy i) (match_list (tbl ! i))) [0..<Suc n])"

definition acsm_free :: "acsm_context \<Rightarrow> acsm_fault + acsm_block list" where
  "acsm_free ctx =
     (case state_table ctx of
       None \<Rightarrow> Inl NullStateTable
     | Some tbl \<Rightarrow>
         (case free_patterns (patterns ctx) of
           Inl e \<Rightarrow> Inl e
         | Inr bs \<Rightarrow> Inr (free_matches tbl (unat (num_state ctx)) @ bs @ [StateTable, Context])))"

section \<open>The test program\<close>

text \<open>
  \<open>main\<close> of \<open>acsm.c\<close>: the value is \<open>None\<close> when it does not end, otherwise the fault of
  \<open>acsm_free\<close> or the exit code with the lines printed.
\<close>

definition u_chars :: "string \<Rightarrow> u8 list" where
  "u_chars s = map (\<lambda>c. of_nat (of_char c)) s"

definition test_patterns :: "string list" where
  "test_patterns = [''hers'', ''his'', ''she'', ''he'']"

definition test_text :: string where
  "test_text =
     ''In the beginning God created the heaven and the earth. '' @ [CHR 0x0A] @
     ''And the earth was without form, and void; and darkness was upon the face of the deep. And the Spirit of God moved upon the face of the waters. '' @ [CHR 0x0A] @
     ''And God said, Let there be light: and there was light.'' @ [CHR 0x0A] @
     ''And God saw the light, that it was good: and God divided the light from the darkness.'' @ [CHR 0x0A] @
     ''And God called the light Day, and the darkness he called Night. And the evening and the morning were the first day.'' @ [CHR 0x0A]"

fun main_add :: "acsm_context \<Rightarrow> u8 list list \<Rightarrow> bool \<times> acsm_context" where
  "main_add ctx [] = (True, ctx)"
| "main_add ctx (s # ss) =
     (case acsm_add_pattern ctx s (length s) of
       (rc, ctx) \<Rightarrow> if rc \<noteq> 0 then (False, ctx) else main_add ctx ss)"

definition acsm_main :: "outcomes \<Rightarrow> (acsm_fault + int \<times> string list) option" where
  "acsm_main ms =
     (case acsm_alloc NO_CASE ms of
       None \<Rightarrow> Some (Inr (-1, [''acsm_alloc() error.'']))
     | Some ctx \<Rightarrow>
         (case main_add ctx (map u_chars test_patterns) of
           (added, ctx) \<Rightarrow>
             if \<not> added then Some (Inr (-1, [''acsm_add_pattern() error.'']))
             else do {
               (rc, ctx) \<leftarrow> acsm_compile ctx;
               (if rc \<noteq> 0 then Some (Inr (-1, [''acsm_compile() error.'']))
                else do {
                  found \<leftarrow> acsm_search ctx (u_chars test_text);
                  let line = (if c_bool found then ''match!'' else ''not match!'');
                  Some (case acsm_free ctx of
                          Inl e \<Rightarrow> Inl e
                        | Inr _ \<Rightarrow> Inr (0, [line]))
                })
             }))"

end
