(* ===== verification/AcsmQueueProof.thy ===== *)
theory AcsmQueueProof
  imports Acsm
begin

text \<open>
  The queue functions of \<open>acsm.c\<close> implement a first-in first-out queue of state numbers. The
  interface is a locale: a client that pushes and pops sees a list. Its interpretation on
  \<open>acsm_add_state\<close> and \<open>acsm_next_state\<close> is where the pointer reasoning about the two rings
  is used up; the correctness proof of the matcher only uses the list.
\<close>

section \<open>What the queue functions leave alone\<close>

lemma acsm_malloc_simps [simp]:
  "state_table (snd (acsm_malloc ctx)) = state_table ctx"
  "max_state (snd (acsm_malloc ctx)) = max_state ctx"
  "num_state (snd (acsm_malloc ctx)) = num_state ctx"
  "patterns (snd (acsm_malloc ctx)) = patterns ctx"
  "no_case (snd (acsm_malloc ctx)) = no_case ctx"
  "queues (snd (acsm_malloc ctx)) = queues ctx"
  "node (snd (acsm_malloc ctx)) = node ctx"
  by (simp_all add: acsm_malloc_def node_def fun_eq_iff split: prod.splits)

lemma acsm_malloc_never_fails:
  assumes "never_fails (mallocs ctx)"
  obtains ms where "acsm_malloc ctx = (True, ctx\<lparr>mallocs := ms\<rparr>)" and "never_fails ms"
  by (rule alloc_next_cases [OF assms]) (simp add: acsm_malloc_def that)

lemma acsm_alloc_state_queue_simps:
  "state_table (snd (acsm_alloc_state_queue ctx)) = state_table ctx"
  "max_state (snd (acsm_alloc_state_queue ctx)) = max_state ctx"
  "num_state (snd (acsm_alloc_state_queue ctx)) = num_state ctx"
  "patterns (snd (acsm_alloc_state_queue ctx)) = patterns ctx"
  "no_case (snd (acsm_alloc_state_queue ctx)) = no_case ctx"
  by (simp_all add: acsm_alloc_state_queue_def Let_def case_prod_beta)

lemma acsm_add_state_simps [simp]:
  "state_table (snd (acsm_add_state ctx s)) = state_table ctx"
  "max_state (snd (acsm_add_state ctx s)) = max_state ctx"
  "num_state (snd (acsm_add_state ctx s)) = num_state ctx"
  "patterns (snd (acsm_add_state ctx s)) = patterns ctx"
  "no_case (snd (acsm_add_state ctx s)) = no_case ctx"
  "node (snd (acsm_add_state ctx s)) = node ctx"
  using acsm_alloc_state_queue_simps [of ctx]
  by (simp_all add: acsm_add_state_def Let_def node_def fun_eq_iff case_prod_beta split: option.splits)

lemma acsm_next_state_simps [simp]:
  "state_table (snd (acsm_next_state ctx)) = state_table ctx"
  "max_state (snd (acsm_next_state ctx)) = max_state ctx"
  "num_state (snd (acsm_next_state ctx)) = num_state ctx"
  "patterns (snd (acsm_next_state ctx)) = patterns ctx"
  "no_case (snd (acsm_next_state ctx)) = no_case ctx"
  "mallocs (snd (acsm_next_state ctx)) = mallocs ctx"
  "node (snd (acsm_next_state ctx)) = node ctx"
  by (simp_all add: acsm_next_state_def acsm_free_state_queue_def Let_def node_def fun_eq_iff)

lemma queue_macros_other [simp]:
  "q_state (acsm_queue_init q h) = q_state h"
  "q_state (acsm_queue_insert_head q x h) = q_state h"
  "q_state (acsm_queue_insert_tail q x h) = q_state h"
  "q_state (acsm_queue_remove x h) = q_state h"
  "brk (acsm_queue_init q h) = brk h"
  "brk (acsm_queue_insert_head q x h) = brk h"
  "brk (acsm_queue_insert_tail q x h) = brk h"
  "brk (acsm_queue_remove x h) = brk h"
  "alive (acsm_queue_init q h) = alive h"
  "alive (acsm_queue_insert_head q x h) = alive h"
  "alive (acsm_queue_insert_tail q x h) = alive h"
  "alive (acsm_queue_remove x h) = alive h"
  by (simp_all add: queue_macros Let_def)

section \<open>The two rings of a context\<close>

text \<open>
  \<open>two_rings h ws fs\<close>: the work ring holds the nodes \<open>ws\<close>, the free ring the nodes \<open>fs\<close>, they
  share no node, and they hold exactly the nodes that are allocated.
\<close>

definition two_rings :: "acsm_heap \<Rightarrow> nat list \<Rightarrow> nat list \<Rightarrow> bool" where
  "two_rings h ws fs \<longleftrightarrow>
     ring h work_queue ws \<and> ring h free_queue fs \<and>
     set (work_queue # ws) \<inter> set (free_queue # fs) = {} \<and>
     (\<forall>x. alive h x \<longleftrightarrow> x \<in> set ws \<union> set fs) \<and> (\<forall>x\<in>set ws \<union> set fs. x < brk h) \<and> 2 \<le> brk h"

text \<open>\<open>queue_holds ctx ss\<close>: the states \<open>ss\<close> wait in the work queue, the next one first.\<close>

definition queue_holds :: "acsm_context \<Rightarrow> int list \<Rightarrow> bool" where
  "queue_holds ctx ss \<longleftrightarrow>
     (\<exists>ws fs. two_rings (queues ctx) ws fs \<and> ss = map (q_state (queues ctx)) (rev ws))"

lemma queue_holdsI:
  "two_rings (queues ctx) ws fs \<Longrightarrow> ss = map (q_state (queues ctx)) (rev ws) \<Longrightarrow> queue_holds ctx ss"
  by (auto simp: queue_holds_def)

lemma ring_other_fields [simp]:
  "ring (h\<lparr>q_state := f\<rparr>) q xs \<longleftrightarrow> ring h q xs"
  "ring (h\<lparr>brk := n\<rparr>) q xs \<longleftrightarrow> ring h q xs"
  "ring (h\<lparr>alive := a\<rparr>) q xs \<longleftrightarrow> ring h q xs"
  by (rule ring_cong, simp)+

lemma two_rings_init:
  "two_rings (acsm_queue_init free_queue (acsm_queue_init work_queue init_queues)) [] []"
  by (simp add: two_rings_def ring_Nil acsm_queue_init_def init_queues_def work_queue_def
      free_queue_def)

lemma two_rings_q_state:
  "two_rings (h\<lparr>q_state := f\<rparr>) ws fs \<longleftrightarrow> two_rings h ws fs"
  by (simp add: two_rings_def)

lemma two_rings_distinct:
  assumes "two_rings h ws fs"
  shows "distinct (ws @ fs)" and "x \<in> set ws \<union> set fs \<Longrightarrow> x \<noteq> work_queue \<and> x \<noteq> free_queue"
  using assms by (auto simp: two_rings_def ring_def)

text \<open>A node for a new entry: the last one of the free ring, or a fresh one.\<close>

lemma alloc_from_free:
  assumes "two_rings (queues ctx) ws (fs @ [x])"
  shows "acsm_alloc_state_queue ctx =
      (Some x, ctx\<lparr>queues := acsm_queue_remove x (queues ctx)\<rparr>)"
    and "ring (acsm_queue_remove x (queues ctx)) work_queue ws"
    and "ring (acsm_queue_remove x (queues ctx)) free_queue fs"
proof -
  from assms have rf: "ring (queues ctx) free_queue (fs @ [x])"
    and rw: "ring (queues ctx) work_queue ws"
    and disj: "set (work_queue # ws) \<inter> set (free_queue # fs @ [x]) = {}"
    by (auto simp: two_rings_def)
  show "acsm_alloc_state_queue ctx =
      (Some x, ctx\<lparr>queues := acsm_queue_remove x (queues ctx)\<rparr>)"
    using rf by (simp add: acsm_alloc_state_queue_def ring_empty ring_last Let_def)
  show "ring (acsm_queue_remove x (queues ctx)) free_queue fs"
    using rf by (rule ring_remove_last)
  show "ring (acsm_queue_remove x (queues ctx)) work_queue ws"
    using rf rw by (rule ring_frame_remove_last) (use disj in auto)
qed

lemma two_rings_insert_work:
  assumes "ring h work_queue ws" and "ring h free_queue fs"
    and "set (work_queue # ws) \<inter> set (free_queue # fs) = {}"
    and "x \<notin> set ws \<union> set fs" and "x \<noteq> work_queue" and "x \<noteq> free_queue"
    and "\<forall>y. alive h y \<longleftrightarrow> y \<in> insert x (set ws \<union> set fs)"
    and "\<forall>y\<in>insert x (set ws \<union> set fs). y < brk h" and "2 \<le> brk h"
  shows "two_rings (acsm_queue_insert_head work_queue x h) (x # ws) fs"
proof -
  have "ring (acsm_queue_insert_head work_queue x h) work_queue (x # ws)"
    using assms by (intro ring_insert_head) auto
  moreover have "ring (acsm_queue_insert_head work_queue x h) free_queue fs"
    using assms(1,2) by (rule ring_frame_insert_head) (use assms in auto)
  ultimately show ?thesis using assms by (auto simp: two_rings_def)
qed

lemma acsm_add_state_holds:
  assumes "queue_holds ctx ss" and "never_fails (mallocs ctx)"
  shows "fst (acsm_add_state ctx s) = 0 \<and> queue_holds (snd (acsm_add_state ctx s)) (ss @ [s])
    \<and> never_fails (mallocs (snd (acsm_add_state ctx s)))"
proof -
  from assms(1) obtain ws fs where tr: "two_rings (queues ctx) ws fs"
    and ss: "ss = map (q_state (queues ctx)) (rev ws)"
    by (auto simp: queue_holds_def)
  have push: "queue_holds (ctx'\<lparr>queues := acsm_queue_insert_head work_queue x
        (h\<lparr>q_state := (q_state h)(x := s)\<rparr>)\<rparr>) (ss @ [s])"
    if "two_rings (acsm_queue_insert_head work_queue x (h\<lparr>q_state := (q_state h)(x := s)\<rparr>)) (x # ws) gs"
      and "q_state h = q_state (queues ctx)" for ctx' x h gs
  proof -
    from two_rings_distinct(1) [OF that(1)] have "x \<notin> set ws" by auto
    then have "map ((q_state (queues ctx))(x := s)) (rev (x # ws)) = ss @ [s]"
      using ss by auto
    with that show ?thesis by (intro queue_holdsI [where ws = "x # ws" and fs = gs]) simp_all
  qed
  show ?thesis
  proof (cases fs rule: rev_cases)
    case Nil
    let ?x = "brk (queues ctx)"
    let ?h = "(queues ctx)\<lparr>brk := Suc ?x, alive := (alive (queues ctx))(?x := True)\<rparr>"
    obtain ms where ms: "acsm_malloc ctx = (True, ctx\<lparr>mallocs := ms\<rparr>)" "never_fails ms"
      by (rule acsm_malloc_never_fails [OF assms(2)])
    have "acsm_alloc_state_queue ctx = (Some ?x, ctx\<lparr>mallocs := ms, queues := ?h\<rparr>)"
      using tr Nil ms ring_empty [of "queues ctx" free_queue "[]"]
      by (simp add: acsm_alloc_state_queue_def two_rings_def Let_def)
    moreover have "two_rings (acsm_queue_insert_head work_queue ?x
        (?h\<lparr>q_state := (q_state ?h)(?x := s)\<rparr>)) (?x # ws) []"
      by (rule two_rings_insert_work)
        (use tr Nil in \<open>auto simp: two_rings_def ring_Nil work_queue_def free_queue_def
           less_Suc_eq\<close>)
    ultimately show ?thesis
      using ms push [of ?x ?h "[]" "ctx\<lparr>mallocs := ms, queues := ?h\<rparr>"]
      by (simp add: acsm_add_state_def Let_def)
  next
    case (snoc gs x)
    let ?h = "acsm_queue_remove x (queues ctx)"
    note al = alloc_from_free [OF tr [unfolded snoc]]
    have "two_rings (acsm_queue_insert_head work_queue x (?h\<lparr>q_state := (q_state ?h)(x := s)\<rparr>))
        (x # ws) gs"
      by (rule two_rings_insert_work)
        (use al tr snoc two_rings_distinct [OF tr] in
          \<open>auto simp: two_rings_def\<close>)
    then show ?thesis
      using assms(2) al(1) push [of x ?h gs "ctx\<lparr>queues := ?h\<rparr>"]
      by (simp add: acsm_add_state_def Let_def)
  qed
qed

text \<open>
  Taking the oldest entry: \<open>acsm_next_state\<close> unlinks the last node of the work ring, and
  \<open>acsm_free_state_queue\<close> unlinks it a second time before it joins the free ring; the second
  unlinking does nothing because the neighbours no longer point at the node.
\<close>

lemma two_rings_pop:
  assumes "two_rings h (ws @ [x]) fs"
  shows "two_rings (acsm_queue_insert_tail free_queue x
           (acsm_queue_remove x (acsm_queue_remove x h))) ws (fs @ [x])"
proof -
  let ?h = "acsm_queue_remove x h"
  from assms have rw: "ring h work_queue (ws @ [x])" and rf: "ring h free_queue fs"
    and disj: "set (work_queue # ws @ [x]) \<inter> set (free_queue # fs) = {}"
    by (auto simp: two_rings_def)
  have twice: "acsm_queue_remove x ?h = ?h"
  proof (rule remove_twice)
    show "nxt h x \<noteq> x" using ring_last_pointers(1) [OF rw] rw by (auto simp: ring_def)
    have "last (work_queue # ws) \<in> set (work_queue # ws)" by (rule last_in_set) simp
    moreover have "x \<notin> set (work_queue # ws)" using rw by (auto simp: ring_def)
    ultimately show "prev h x \<noteq> x" using ring_last_pointers(2) [OF rw] by metis
  qed
  have w: "ring ?h work_queue ws" using rw by (rule ring_remove_last)
  have f: "ring ?h free_queue fs"
    using rw rf by (rule ring_frame_remove_last) (use disj in auto)
  have "ring (acsm_queue_insert_tail free_queue x ?h) free_queue (fs @ [x])"
    using f by (rule ring_insert_tail) (use disj in auto)
  moreover have "ring (acsm_queue_insert_tail free_queue x ?h) work_queue ws"
    using f w by (rule ring_frame_insert_tail) (use rw disj in \<open>auto simp: ring_def\<close>)
  moreover have "x \<notin> set ws" and "x \<noteq> work_queue" using rw by (auto simp: ring_def)
  ultimately show ?thesis using assms twice by (auto simp: two_rings_def)
qed

lemma acsm_next_state_holds:
  assumes "queue_holds ctx (s # ss)"
  shows "fst (acsm_next_state ctx) = s \<and> queue_holds (snd (acsm_next_state ctx)) ss"
proof -
  from assms obtain vs fs where tr: "two_rings (queues ctx) vs fs"
    and vs: "map (q_state (queues ctx)) (rev vs) = s # ss"
    by (auto simp: queue_holds_def)
  then obtain ws x where ws: "vs = ws @ [x]" by (cases vs rule: rev_cases) auto
  with vs have sx: "s = q_state (queues ctx) x"
    and ss: "ss = map (q_state (queues ctx)) (rev ws)" by auto
  from tr ws have rw: "ring (queues ctx) work_queue (ws @ [x])" by (simp add: two_rings_def)
  let ?h = "acsm_queue_insert_tail free_queue x
    (acsm_queue_remove x (acsm_queue_remove x (queues ctx)))"
  have step: "acsm_next_state ctx = (s, ctx\<lparr>queues := ?h\<lparr>q_state :=
      (q_state (queues ctx))(x := ACSM_FAIL_STATE)\<rparr>\<rparr>)"
    using rw by (simp add: acsm_next_state_def acsm_free_state_queue_def ring_empty ring_last
        Let_def sx)
  have "two_rings ?h ws (fs @ [x])" using tr ws by (intro two_rings_pop) simp
  moreover have "x \<notin> set ws" using rw by (auto simp: ring_def)
  ultimately show ?thesis
    using step ss by (simp add: queue_holdsI [where ws = ws and fs = "fs @ [x]"] two_rings_q_state)
qed

lemma queue_holds_empty:
  "queue_holds ctx ss \<Longrightarrow> acsm_queue_empty work_queue (queues ctx) \<longleftrightarrow> ss = []"
  by (auto simp: queue_holds_def two_rings_def ring_empty)

lemma queue_holds_same_queues:
  "queues ctx' = queues ctx \<Longrightarrow> queue_holds ctx' ss \<longleftrightarrow> queue_holds ctx ss"
  by (simp add: queue_holds_def)

section \<open>The interface\<close>

text \<open>Popping \<open>n\<close> times.\<close>

fun pops :: "('c \<Rightarrow> 'a \<times> 'c) \<Rightarrow> nat \<Rightarrow> 'c \<Rightarrow> 'a list \<times> 'c" where
  "pops pop 0 c = ([], c)"
| "pops pop (Suc n) c =
     (case pop c of (x, c) \<Rightarrow> (case pops pop n c of (xs, c) \<Rightarrow> (x # xs, c)))"

text \<open>
  A queue with pushes that may fail: \<open>holds c xs\<close> says that \<open>xs\<close> waits in \<open>c\<close>, \<open>ready c\<close> that
  no allocation will fail.
\<close>

locale fifo =
  fixes push :: "'c \<Rightarrow> 'a \<Rightarrow> int \<times> 'c"
    and pop :: "'c \<Rightarrow> 'a \<times> 'c"
    and none_left :: "'c \<Rightarrow> bool"
    and holds :: "'c \<Rightarrow> 'a list \<Rightarrow> bool"
    and ready :: "'c \<Rightarrow> bool"
  assumes push_law: "holds c xs \<Longrightarrow> ready c \<Longrightarrow>
      fst (push c x) = 0 \<and> holds (snd (push c x)) (xs @ [x]) \<and> ready (snd (push c x))"
    and pop_law: "holds c (x # xs) \<Longrightarrow> fst (pop c) = x \<and> holds (snd (pop c)) xs"
    and empty_law: "holds c xs \<Longrightarrow> none_left c \<longleftrightarrow> xs = []"
begin

lemma push_all:
  "holds c xs \<Longrightarrow> ready c \<Longrightarrow>
     holds (fold (\<lambda>x c. snd (push c x)) ys c) (xs @ ys) \<and>
     ready (fold (\<lambda>x c. snd (push c x)) ys c)"
proof (induction ys arbitrary: c xs)
  case (Cons y ys)
  with push_law [of c xs y] show ?case
    using Cons.IH [of "snd (push c y)" "xs @ [y]"] by simp
qed simp

lemma pop_all:
  "holds c (xs @ ys) \<Longrightarrow> fst (pops pop (length xs) c) = xs \<and> holds (snd (pops pop (length xs) c)) ys"
proof (induction xs arbitrary: c)
  case (Cons x xs)
  with pop_law [of c x "xs @ ys"] show ?case
    using Cons.IH [of "snd (pop c)"] by (simp add: case_prod_beta)
qed simp

lemma first_in_first_out:
  fixes xs :: "'a list"
  assumes "holds c []" and "ready c"
  defines "d \<equiv> fold (\<lambda>x c. snd (push c x)) xs c"
  shows "fst (pops pop (length xs) d) = xs \<and> none_left (snd (pops pop (length xs) d))"
proof -
  from push_all [OF assms(1,2), of xs] have "holds d (xs @ [])" by (simp add: d_def)
  then show ?thesis using pop_all empty_law by blast
qed

end

interpretation wq: fifo acsm_add_state acsm_next_state
  "\<lambda>ctx. acsm_queue_empty work_queue (queues ctx)" queue_holds "\<lambda>ctx. never_fails (mallocs ctx)"
  by unfold_locales
    (use acsm_add_state_holds acsm_next_state_holds queue_holds_empty in auto)

section \<open>Releasing the free ring\<close>

lemma acsm_free_state_empties:
  assumes "two_rings (queues ctx) ws fs"
  shows "\<exists>h. acsm_free_state ctx = Some (ctx\<lparr>queues := h\<rparr>) \<and> two_rings h ws []"
  using assms
proof (induction fs arbitrary: ctx rule: rev_induct)
  case Nil
  then have "acsm_queue_last free_queue (queues ctx) = free_queue"
    by (simp add: two_rings_def ring_Nil acsm_queue_last_def)
  then have "acsm_free_state ctx = Some (ctx\<lparr>queues := queues ctx\<rparr>)"
    by (simp add: acsm_free_state.simps [of ctx])
  with Nil show ?case by blast
next
  case (snoc x fs)
  from snoc.prems have rf: "ring (queues ctx) free_queue (fs @ [x])" by (simp add: two_rings_def)
  let ?h = "(acsm_queue_remove x (queues ctx))\<lparr>alive := (alive (queues ctx))(x := False)\<rparr>"
  have "two_rings ?h ws fs"
    using alloc_from_free(2,3) [OF snoc.prems] snoc.prems
      two_rings_distinct(1) [OF snoc.prems] by (auto simp: two_rings_def)
  then obtain h where h: "acsm_free_state (ctx\<lparr>queues := ?h\<rparr>) = Some (ctx\<lparr>queues := h\<rparr>)"
    "two_rings h ws []"
    using snoc.IH [of "ctx\<lparr>queues := ?h\<rparr>"] by auto
  moreover have "x \<noteq> free_queue" using rf by (auto simp: ring_def)
  ultimately show ?case
    using rf by (auto simp: acsm_free_state.simps [of ctx] ring_last Let_def)
qed

end
