(* ===== verification/AcsmGoto.thy ===== *)
theory AcsmGoto
  imports AcsmQueueProof
begin

text \<open>
  The first half of \<open>acsm_compile\<close>: the goto function is the trie of the patterns, with the states
  numbered in the order in which their words are first met (\<open>trie_words\<close>), every state number
  inside the table, and each pattern on the match list of the state its word leads to.
\<close>

section \<open>Reading and writing nodes\<close>

definition table :: "acsm_context \<Rightarrow> acsm_state_node list" where
  "table ctx = the (state_table ctx)"

lemma node_set_node:
  "0 \<le> s \<Longrightarrow> 0 \<le> t \<Longrightarrow> nat s < length (table ctx) \<Longrightarrow>
     node (set_node s nd ctx) t = (if t = s then nd else node ctx t)"
  by (auto simp: node_def set_node_def table_def nth_list_update)

lemma set_node_simps [simp]:
  "length (table (set_node s nd ctx)) = length (table ctx)"
  "max_state (set_node s nd ctx) = max_state ctx"
  "num_state (set_node s nd ctx) = num_state ctx"
  "patterns (set_node s nd ctx) = patterns ctx"
  "no_case (set_node s nd ctx) = no_case ctx"
  "queues (set_node s nd ctx) = queues ctx"
  "mallocs (set_node s nd ctx) = mallocs ctx"
  by (simp_all add: set_node_def table_def)

lemma set_next_state_simps [simp]:
  "length (table (set_next_state s c t ctx)) = length (table ctx)"
  "max_state (set_next_state s c t ctx) = max_state ctx"
  "num_state (set_next_state s c t ctx) = num_state ctx"
  "patterns (set_next_state s c t ctx) = patterns ctx"
  "no_case (set_next_state s c t ctx) = no_case ctx"
  "queues (set_next_state s c t ctx) = queues ctx"
  "mallocs (set_next_state s c t ctx) = mallocs ctx"
  by (simp_all add: set_next_state_def)

lemma set_fail_state_simps [simp]:
  "length (table (set_fail_state s t ctx)) = length (table ctx)"
  "max_state (set_fail_state s t ctx) = max_state ctx"
  "num_state (set_fail_state s t ctx) = num_state ctx"
  "patterns (set_fail_state s t ctx) = patterns ctx"
  "no_case (set_fail_state s t ctx) = no_case ctx"
  "queues (set_fail_state s t ctx) = queues ctx"
  "mallocs (set_fail_state s t ctx) = mallocs ctx"
  by (simp_all add: set_fail_state_def)

lemma table_other [simp]:
  "table (snd (acsm_malloc ctx)) = table ctx"
  "table (snd (acsm_add_state ctx s)) = table ctx"
  "table (snd (acsm_next_state ctx)) = table ctx"
  "table (ctx\<lparr>queues := h\<rparr>) = table ctx"
  "table (ctx\<lparr>num_state := n\<rparr>) = table ctx"
  "table (ctx\<lparr>mallocs := ms\<rparr>) = table ctx"
  "node (ctx\<lparr>queues := h\<rparr>) = node ctx"
  "node (ctx\<lparr>num_state := n\<rparr>) = node ctx"
  "node (ctx\<lparr>mallocs := ms\<rparr>) = node ctx"
  by (simp_all add: table_def node_def fun_eq_iff)

section \<open>The words of the states\<close>

text \<open>
  The reference: state \<open>i\<close> of the compiled table is the \<open>i\<close>-th new prefix met when the patterns
  are read in list order.
\<close>

fun trie_words :: "'a list list \<Rightarrow> 'a list list \<Rightarrow> 'a list list" where
  "trie_words ws [] = ws"
| "trie_words ws (p # ps) = trie_words (ws @ filter (\<lambda>v. v \<notin> set ws) (prefixes p)) ps"

text \<open>A word list that numbers states: the root first, no word twice, closed under prefixes.\<close>

definition good_words :: "'a list list \<Rightarrow> bool" where
  "good_words ws \<longleftrightarrow> distinct ws \<and> ws \<noteq> [] \<and> hd ws = [] \<and>
     (\<forall>v c. v @ [c] \<in> set ws \<longrightarrow> v \<in> set ws)"

abbreviation state_of :: "'a list list \<Rightarrow> 'a list \<Rightarrow> int" where
  "state_of ws v \<equiv> int (index_of ws v)"

lemma good_words_Nil: "good_words ws \<Longrightarrow> [] \<in> set ws"
  by (metis good_words_def hd_in_set)

lemma good_words_append: "good_words ws \<Longrightarrow> v @ u \<in> set ws \<Longrightarrow> v \<in> set ws"
proof (induction u rule: rev_induct)
  case (snoc c u)
  then show ?case by (metis append.assoc good_words_def)
qed simp

lemma good_words_prefix: "good_words ws \<Longrightarrow> w \<in> set ws \<Longrightarrow> prefix v w \<Longrightarrow> v \<in> set ws"
  by (auto simp: prefix_def dest: good_words_append)

lemma state_of_Nil [simp]: "good_words ws \<Longrightarrow> index_of ws [] = 0"
  by (cases ws) (auto simp: good_words_def)

lemma good_words_snoc:
  "good_words ws \<Longrightarrow> v \<in> set ws \<Longrightarrow> v @ [c] \<notin> set ws \<Longrightarrow> good_words (ws @ [v @ [c]])"
  by (auto simp: good_words_def)

lemma good_words_step:
  "good_words ws \<Longrightarrow> longest_in (\<lambda>v. v \<in> set ws) (w @ [c]) =
     longest_in (\<lambda>v. v \<in> set ws) (longest_in (\<lambda>v. v \<in> set ws) w @ [c])"
  by (rule longest_in_snoc) (auto intro: good_words_Nil simp: good_words_def)

lemma prefixes_new:
  assumes "good_words ws" and "u \<in> set ws"
    and "\<forall>v. prefix v (u @ cs) \<and> u \<noteq> v \<and> prefix u v \<longrightarrow> v \<notin> set ws"
  shows "filter (\<lambda>v. v \<notin> set ws) (prefixes (u @ cs)) = map ((@) u) (tl (prefixes cs))"
proof -
  have "filter (\<lambda>v. v \<notin> set ws) (prefixes u) = []"
    using assms(1,2) good_words_prefix by (fastforce simp: filter_empty_conv)
  moreover have "filter (\<lambda>v. v \<notin> set ws) (map ((@) u) (tl (prefixes cs))) = map ((@) u) (tl (prefixes cs))"
  proof (subst filter_id_conv, clarsimp)
    fix v assume "v \<in> set (tl (prefixes cs))" and uv: "u @ v \<in> set ws"
    then have "prefix v cs" and "v \<noteq> []"
      by (cases cs; auto simp: in_set_prefixes [symmetric] simp del: in_set_prefixes)+
    with assms(3) uv show False by (auto simp: prefix_def)
  qed
  ultimately show ?thesis by (simp add: prefixes_append)
qed

section \<open>The goto function\<close>

definition goto_table :: "acsm_context \<Rightarrow> u8 list list \<Rightarrow> bool" where
  "goto_table ctx ws \<longleftrightarrow>
     good_words ws \<and> state_table ctx \<noteq> None \<and> unat (num_state ctx) = length ws - 1 \<and>
     length ws \<le> length (table ctx) \<and> length (table ctx) < 2 ^ 31 \<and>
     (\<forall>v\<in>set ws. \<forall>c. next_state (node ctx (state_of ws v)) c =
        (if v @ [c] \<in> set ws then state_of ws (v @ [c]) else ACSM_FAIL_STATE)) \<and>
     (\<forall>v\<in>set ws. fail_state (node ctx (state_of ws v)) = 0) \<and>
     (\<forall>i. length ws \<le> i \<longrightarrow> i < length (table ctx) \<longrightarrow> node ctx (int i) = init_node)"

definition goto_matches :: "acsm_context \<Rightarrow> u8 list list \<Rightarrow> acsm_pattern list \<Rightarrow> bool" where
  "goto_matches ctx ws ps \<longleftrightarrow>
     (\<forall>p\<in>set ps. pat_chars p \<in> set ws) \<and>
     (\<forall>v\<in>set ws. match_list (node ctx (state_of ws v)) = rev (filter (\<lambda>p. pat_chars p = v) ps))"

text \<open>What the goto construction leaves alone.\<close>

definition goto_frame :: "acsm_context \<Rightarrow> acsm_context \<Rightarrow> bool" where
  "goto_frame ctx ctx' \<longleftrightarrow>
     length (table ctx') = length (table ctx) \<and> patterns ctx' = patterns ctx \<and>
     no_case ctx' = no_case ctx \<and> queues ctx' = queues ctx \<and>
     (never_fails (mallocs ctx) \<longrightarrow> never_fails (mallocs ctx'))"

lemma goto_frame_refl [simp]: "goto_frame ctx ctx"
  by (simp add: goto_frame_def)

lemma goto_frame_trans: "goto_frame a b \<Longrightarrow> goto_frame b c \<Longrightarrow> goto_frame a c"
  by (auto simp: goto_frame_def)

lemma goto_walk_ok:
  assumes "goto_table ctx ws" and "u \<in> set ws"
  shows "\<exists>v rest. goto_walk ctx (state_of ws u) cs = (state_of ws v, rest) \<and> v \<in> set ws \<and>
    v @ rest = u @ cs \<and> (rest \<noteq> [] \<longrightarrow> v @ [hd rest] \<notin> set ws) \<and> prefix u v"
  using assms(2)
proof (induction cs arbitrary: u)
  case Nil
  then show ?case by auto
next
  case (Cons c cs)
  show ?case
  proof (cases "u @ [c] \<in> set ws")
    case True
    then show ?thesis
      using Cons.IH [of "u @ [c]"] Cons.prems assms(1)
      by (fastforce simp: goto_table_def ACSM_FAIL_STATE_def prefix_def)
  next
    case False
    then show ?thesis
      using Cons.prems assms(1) by (auto simp: goto_table_def)
  qed
qed

text \<open>One new state.\<close>

lemma goto_add_ok:
  assumes tbl: "goto_table ctx ws" and mt: "goto_matches ctx ws ps"
    and v: "v \<in> set ws" and new: "v @ [c] \<notin> set ws"
    and room: "length ws < length (table ctx)"
  defines "n \<equiv> num_state ctx + 1"
  defines "ctx' \<equiv> set_next_state (state_of ws v) c (sint n) (ctx\<lparr>num_state := n\<rparr>)"
  shows "sint n = state_of (ws @ [v @ [c]]) (v @ [c])"
    and "goto_table ctx' (ws @ [v @ [c]])" and "goto_matches ctx' (ws @ [v @ [c]]) ps"
    and "goto_frame ctx ctx'"
proof -
  let ?ws = "ws @ [v @ [c]]"
  from tbl have gw: "good_words ws" and num: "unat (num_state ctx) = length ws - 1"
    and small: "length (table ctx) < 2 ^ 31" and ne: "ws \<noteq> []"
    by (auto simp: goto_table_def good_words_def)
  have un: "unat n = length ws"
    using num small room ne by (simp add: n_def unat_word_ariths)
  then have "n = of_nat (length ws)" by (simp flip: un)
  then show sn: "sint n = state_of ?ws (v @ [c])"
    using small room new by (simp add: sint_small_nat)
  have iv: "index_of ws v < length ws" using v by (rule index_of_less)
  have nd: "node ctx' s = (if s = state_of ws v
      then (node ctx s)\<lparr>next_state := (next_state (node ctx s))(c := int (length ws))\<rparr>
      else node ctx s)" if "0 \<le> s" for s
    using that iv room new sn
    by (auto simp: ctx'_def set_next_state_def node_set_node)
  have inj: "index_of ws w = index_of ws v \<longleftrightarrow> w = v" if "w \<in> set ws" for w
    using that v by (rule index_of_inj)
  have init: "node ctx (int (length ws)) = init_node"
    using tbl room by (simp add: goto_table_def)
  have deeper: "v @ [c, d] \<notin> set ws" for d
    using good_words_append [OF gw, of "v @ [c]" "[d]"] new by auto
  show "goto_table ctx' ?ws"
    unfolding goto_table_def
  proof (intro conjI ballI allI impI)
    show "good_words ?ws" using gw v new by (rule good_words_snoc)
    show "state_table ctx' \<noteq> None" by (simp add: ctx'_def set_next_state_def set_node_def)
    show "unat (num_state ctx') = length ?ws - 1" using un by (simp add: ctx'_def)
    show "length ?ws \<le> length (table ctx')" using room by (simp add: ctx'_def)
    show "length (table ctx') < 2 ^ 31" using small by (simp add: ctx'_def)
  next
    fix w d assume "w \<in> set ?ws"
    then consider "w \<in> set ws" | "w = v @ [c]" by auto
    then show "next_state (node ctx' (state_of ?ws w)) d =
        (if w @ [d] \<in> set ?ws then state_of ?ws (w @ [d]) else ACSM_FAIL_STATE)"
    proof cases
      case 1
      then show ?thesis using tbl iv new by (auto simp: nd inj goto_table_def)
    next
      case 2
      then show ?thesis using new iv init deeper by (auto simp: nd init_node_def)
    qed
  next
    fix w assume "w \<in> set ?ws"
    then show "fail_state (node ctx' (state_of ?ws w)) = 0"
      using tbl new iv init by (auto simp: nd goto_table_def init_node_def)
  next
    fix i assume "length ?ws \<le> i" and "i < length (table ctx')"
    moreover have "length (table ctx') = length (table ctx)" by (simp add: ctx'_def)
    ultimately show "node ctx' (int i) = init_node"
      using tbl iv by (simp add: nd goto_table_def)
  qed
  have "filter (\<lambda>p. pat_chars p = v @ [c]) ps = []"
    using mt new by (auto simp: goto_matches_def filter_empty_conv)
  then show "goto_matches ctx' ?ws ps"
    using mt new iv init by (auto simp: goto_matches_def nd init_node_def)
  show "goto_frame ctx ctx'" by (simp add: goto_frame_def ctx'_def)
qed

lemma tl_prefixes_Cons: "tl (prefixes (c # cs)) = [c] # map ((#) c) (tl (prefixes cs))"
  by (cases cs) auto

lemma goto_extend_ok:
  assumes "goto_table ctx ws" and "goto_matches ctx ws ps"
    and "v \<in> set ws" and "rest \<noteq> [] \<longrightarrow> v @ [hd rest] \<notin> set ws"
    and "length ws + length rest \<le> length (table ctx)"
    and "goto_extend ctx (state_of ws v) rest = (s, ctx')"
    and "ws' = ws @ map ((@) v) (tl (prefixes rest))"
  shows "s = state_of ws' (v @ rest) \<and> v @ rest \<in> set ws' \<and> goto_table ctx' ws' \<and>
    goto_matches ctx' ws' ps \<and> goto_frame ctx ctx'"
  using assms
proof (induction rest arbitrary: ctx ws v)
  case Nil
  then show ?case by (cases ws) auto
next
  case (Cons c cs)
  let ?n = "num_state ctx + 1"
  let ?ctx = "set_next_state (state_of ws v) c (sint ?n) (ctx\<lparr>num_state := ?n\<rparr>)"
  let ?ws = "ws @ [v @ [c]]"
  have new: "v @ [c] \<notin> set ws" using Cons.prems by simp
  have room: "length ws < length (table ctx)" using Cons.prems by simp
  note add = goto_add_ok [OF Cons.prems(1,2,3) new room]
  have deeper: "v @ [c, d] \<notin> set ws" for d
    using good_words_append [of ws "v @ [c]" "[d]"] new Cons.prems(1)
    by (auto simp: goto_table_def)
  have "s = state_of ws' ((v @ [c]) @ cs) \<and> (v @ [c]) @ cs \<in> set ws' \<and> goto_table ctx' ws' \<and>
      goto_matches ctx' ws' ps \<and> goto_frame ?ctx ctx'"
  proof (rule Cons.IH [of ?ctx ?ws "v @ [c]"])
    show "goto_table ?ctx ?ws" by (rule add)
    show "goto_matches ?ctx ?ws ps" by (rule add)
    show "v @ [c] \<in> set ?ws" by simp
    show "cs \<noteq> [] \<longrightarrow> (v @ [c]) @ [hd cs] \<notin> set ?ws" using deeper by simp
    show "length ?ws + length cs \<le> length (table ?ctx)" using Cons.prems by simp
    show "goto_extend ?ctx (state_of ?ws (v @ [c])) cs = (s, ctx')"
      using Cons.prems(6) add(1) by (simp add: Let_def del: index_of_append)
    show "ws' = ?ws @ map ((@) (v @ [c])) (tl (prefixes cs))"
      using Cons.prems(7) by (simp add: tl_prefixes_Cons comp_def del: prefixes.simps)
  qed
  with add(4) show ?case by (auto intro: goto_frame_trans)
qed

lemma goto_matches_append:
  assumes mt: "goto_matches ctx ws ps" and tbl: "goto_table ctx ws" and p: "pat_chars p \<in> set ws"
    and s: "s = state_of ws (pat_chars p)"
    and ctx': "ctx' = set_node s ((node ctx s)\<lparr>match_list := p # match_list (node ctx s)\<rparr>) ctx"
  shows "goto_table ctx' ws" and "goto_matches ctx' ws (ps @ [p])"
proof -
  have lt: "index_of ws (pat_chars p) < length ws" using p by (rule index_of_less)
  have nd: "node ctx' t = (if t = s then (node ctx t)\<lparr>match_list :=
      p # match_list (node ctx t)\<rparr> else node ctx t)" if "0 \<le> t" for t
    using that lt tbl s by (simp add: ctx' node_set_node goto_table_def)
  have "state_table ctx' \<noteq> None" by (simp add: ctx' set_node_def)
  then show "goto_table ctx' ws"
    using tbl lt s by (auto simp: goto_table_def nd) (simp_all add: ctx')
  show "goto_matches ctx' ws (ps @ [p])"
    using mt p s by (auto simp: goto_matches_def nd index_of_inj)
qed

lemma goto_extend_mallocs:
  "goto_extend ctx s cs = (t, ctx') \<Longrightarrow> mallocs ctx' = mallocs ctx"
  by (induction ctx s cs rule: goto_extend.induct) (auto simp: Let_def)

text \<open>Walking down the trie and extending it reaches the state of the whole pattern.\<close>

lemma goto_reach_ok:
  assumes tbl: "goto_table ctx ws" and mt: "goto_matches ctx ws ps"
    and room: "length ws + length (pat_chars p) \<le> length (table ctx)"
  defines "ws' \<equiv> ws @ filter (\<lambda>v. v \<notin> set ws) (prefixes (pat_chars p))"
  obtains s ctx1 where
    "goto_pattern p ctx = snd (acsm_state_add_match_pattern ctx1 s p)"
    and "s = state_of ws' (pat_chars p)" and "pat_chars p \<in> set ws'" and "goto_table ctx1 ws'"
    and "goto_matches ctx1 ws' ps" and "goto_frame ctx ctx1" and "mallocs ctx1 = mallocs ctx"
proof -
  let ?cs = "pat_chars p"
  have gw: "good_words ws" using tbl by (simp add: goto_table_def)
  obtain v rest where w: "goto_walk ctx 0 ?cs = (state_of ws v, rest)" and v: "v \<in> set ws"
    and vr: "v @ rest = ?cs" and stop: "rest \<noteq> [] \<longrightarrow> v @ [hd rest] \<notin> set ws"
    using goto_walk_ok [OF tbl good_words_Nil [OF gw], of ?cs] gw by auto
  obtain s ctx1 where e: "goto_extend ctx (state_of ws v) rest = (s, ctx1)" by fastforce
  have ws': "ws' = ws @ map ((@) v) (tl (prefixes rest))"
    unfolding ws'_def vr [symmetric]
  proof (subst prefixes_new [OF gw v])
    show "\<forall>u. prefix u (v @ rest) \<and> v \<noteq> u \<and> prefix v u \<longrightarrow> u \<notin> set ws"
    proof (intro allI impI notI)
      fix u assume u: "prefix u (v @ rest) \<and> v \<noteq> u \<and> prefix v u" and "u \<in> set ws"
      then obtain y where uy: "u = v @ y" by (auto simp: prefix_def)
      with u have y: "u = v @ y" "y \<noteq> []" "prefix y rest" by auto
      then have "u = (v @ [hd rest]) @ tl y" by (cases y; cases rest; auto)
      with \<open>u \<in> set ws\<close> have "v @ [hd rest] \<in> set ws" using good_words_append [OF gw] by metis
      with stop y show False by (cases rest) auto
    qed
  qed simp
  have ext: "s = state_of ws' ?cs \<and> ?cs \<in> set ws' \<and> goto_table ctx1 ws' \<and>
      goto_matches ctx1 ws' ps \<and> goto_frame ctx ctx1"
    using goto_extend_ok [OF tbl mt v stop _ e ws'] room vr by (metis le_add2 length_append nat_add_left_cancel_le order_trans)
  moreover have "goto_pattern p ctx = snd (acsm_state_add_match_pattern ctx1 s p)"
    using w e by (simp add: goto_pattern_def)
  moreover have "mallocs ctx1 = mallocs ctx" by (rule goto_extend_mallocs [OF e])
  ultimately show ?thesis using ext by (intro that [of ctx1 s]) simp_all
qed

lemma goto_pattern_ok:
  assumes tbl: "goto_table ctx ws" and mt: "goto_matches ctx ws ps"
    and nf: "never_fails (mallocs ctx)"
    and room: "length ws + length (pat_chars p) \<le> length (table ctx)"
  defines "ws' \<equiv> ws @ filter (\<lambda>v. v \<notin> set ws) (prefixes (pat_chars p))"
  shows "goto_table (goto_pattern p ctx) ws' \<and> goto_matches (goto_pattern p ctx) ws' (ps @ [p]) \<and>
    goto_frame ctx (goto_pattern p ctx)"
proof -
  obtain s ctx1 where r: "goto_pattern p ctx = snd (acsm_state_add_match_pattern ctx1 s p)"
    "s = state_of ws' (pat_chars p)" "pat_chars p \<in> set ws'" "goto_table ctx1 ws'"
    "goto_matches ctx1 ws' ps" "goto_frame ctx ctx1" "mallocs ctx1 = mallocs ctx"
    unfolding ws'_def by (rule goto_reach_ok [OF tbl mt room])
  with nf have nf1: "never_fails (mallocs ctx1)" by simp
  obtain ms where ms: "acsm_malloc ctx1 = (True, ctx1\<lparr>mallocs := ms\<rparr>)" "never_fails ms"
    by (rule acsm_malloc_never_fails [OF nf1])
  let ?ctx = "set_node s ((node ctx1 s)\<lparr>match_list := p # match_list (node ctx1 s)\<rparr>) ctx1"
  have gp: "goto_pattern p ctx = ?ctx\<lparr>mallocs := ms\<rparr>"
    using r(1) ms by (simp add: acsm_state_add_match_pattern_def set_node_def)
  have "goto_table ?ctx ws' \<and> goto_matches ?ctx ws' (ps @ [p])"
    using goto_matches_append [of ctx1 ws' ps p s ?ctx] r(2-5) by blast
  with r(6) ms(2) show ?thesis
    by (simp add: gp goto_table_def goto_matches_def goto_frame_def)
qed

text \<open>
  When the copy of the pattern cannot be allocated the states are built all the same, and the
  pattern is in no match list.
\<close>

lemma goto_pattern_lost:
  assumes tbl: "goto_table ctx ws" and mt: "goto_matches ctx ws ps"
    and ms: "mallocs ctx = False # ms"
    and room: "length ws + length (pat_chars p) \<le> length (table ctx)"
  defines "ws' \<equiv> ws @ filter (\<lambda>v. v \<notin> set ws) (prefixes (pat_chars p))"
  shows "goto_table (goto_pattern p ctx) ws' \<and> goto_matches (goto_pattern p ctx) ws' ps \<and>
    queues (goto_pattern p ctx) = queues ctx \<and> patterns (goto_pattern p ctx) = patterns ctx \<and>
    mallocs (goto_pattern p ctx) = ms"
proof -
  obtain s ctx1 where r: "goto_pattern p ctx = snd (acsm_state_add_match_pattern ctx1 s p)"
    "s = state_of ws' (pat_chars p)" "pat_chars p \<in> set ws'" "goto_table ctx1 ws'"
    "goto_matches ctx1 ws' ps" "goto_frame ctx ctx1" "mallocs ctx1 = mallocs ctx"
    unfolding ws'_def by (rule goto_reach_ok [OF tbl mt room])
  have gp: "goto_pattern p ctx = ctx1\<lparr>mallocs := ms\<rparr>"
    using r(1,7) ms by (simp add: acsm_state_add_match_pattern_def acsm_malloc_def)
  show ?thesis
    using r(4-6) by (simp add: gp goto_table_def goto_matches_def goto_frame_def)
qed

lemma goto_function_ok:
  assumes "goto_table ctx ws" and "goto_matches ctx ws ps" and "never_fails (mallocs ctx)"
    and "length ws + sum_list (map (length \<circ> pat_chars) qs) \<le> length (table ctx)"
  shows "goto_table (fold goto_pattern qs ctx) (trie_words ws (map pat_chars qs)) \<and>
    goto_matches (fold goto_pattern qs ctx) (trie_words ws (map pat_chars qs)) (ps @ qs) \<and>
    goto_frame ctx (fold goto_pattern qs ctx)"
  using assms
proof (induction qs arbitrary: ctx ws ps)
  case (Cons q qs)
  let ?ws = "ws @ filter (\<lambda>v. v \<notin> set ws) (prefixes (pat_chars q))"
  have 1: "goto_table (goto_pattern q ctx) ?ws \<and> goto_matches (goto_pattern q ctx) ?ws (ps @ [q]) \<and>
      goto_frame ctx (goto_pattern q ctx)"
    by (rule goto_pattern_ok) (use Cons.prems in auto)
  have "length (filter (\<lambda>v. v \<notin> set ws) (prefixes (pat_chars q))) \<le> length (pat_chars q)"
  proof -
    have "[] \<in> set ws" using Cons.prems(1) by (auto simp: goto_table_def intro: good_words_Nil)
    then have "length (filter (\<lambda>v. v \<notin> set ws) (prefixes (pat_chars q))) < length (prefixes (pat_chars q))"
      by (intro length_filter_less [of "[]"]) auto
    then show ?thesis by simp
  qed
  with 1 Cons.prems Cons.IH [of "goto_pattern q ctx" ?ws "ps @ [q]"] show ?case
    by (auto simp: goto_frame_def)
qed simp

section \<open>The root\<close>

abbreviation longest :: "'a list list \<Rightarrow> 'a list \<Rightarrow> 'a list" where
  "longest ws w \<equiv> longest_in (\<lambda>v. v \<in> set ws) w"

lemma longest_in_words: "good_words ws \<Longrightarrow> longest ws w \<in> set ws"
  by (rule longest_in_holds) (rule good_words_Nil)

lemma fold_root_edge:
  assumes "0 < length (table ctx)" and "state_table ctx \<noteq> None"
  shows "length (table (fold root_edge js ctx)) = length (table ctx) \<and>
    state_table (fold root_edge js ctx) \<noteq> None \<and>
    num_state (fold root_edge js ctx) = num_state ctx \<and> goto_frame ctx (fold root_edge js ctx) \<and>
    (\<forall>s\<ge>0. match_list (node (fold root_edge js ctx) s) = match_list (node ctx s) \<and>
      fail_state (node (fold root_edge js ctx) s) = fail_state (node ctx s) \<and>
      (\<forall>c. next_state (node (fold root_edge js ctx) s) c =
        (if s = 0 \<and> c \<in> set js \<and> next_state (node ctx 0) c = ACSM_FAIL_STATE then 0
         else next_state (node ctx s) c)))"
  using assms
proof (induction js arbitrary: ctx)
  case (Cons j js)
  let ?ctx = "root_edge j ctx"
  have nd: "node ?ctx s = (if s = 0 \<and> next_state (node ctx 0) j = ACSM_FAIL_STATE
      then (node ctx s)\<lparr>next_state := (next_state (node ctx s))(j := 0)\<rparr> else node ctx s)"
    if "0 \<le> s" for s
    using that Cons.prems by (auto simp: root_edge_def set_next_state_def node_set_node)
  have fr: "goto_frame ctx ?ctx" and st: "state_table ?ctx \<noteq> None" and "num_state ?ctx = num_state ctx"
    using Cons.prems by (auto simp: root_edge_def goto_frame_def)
      (auto simp: set_next_state_def set_node_def)
  then have "length (table ?ctx) = length (table ctx)" by (simp add: goto_frame_def)
  with Cons.IH [of ?ctx] Cons.prems st fr \<open>num_state ?ctx = num_state ctx\<close> show ?case
    by (auto simp: nd intro: goto_frame_trans)
qed (simp add: goto_frame_def)

end
