(* ===== verification/AcsmCompile.thy ===== *)
theory AcsmCompile
  imports AcsmGoto
begin

text \<open>
  The second half of \<open>acsm_compile\<close>: the breadth-first failure function. The invariant of the
  search relates the queue, the rows of the state table, the fail states and the match lists to
  the words the states stand for; \<open>failure_function_ok\<close> shows that the search ends with every
  state \<open>filled\<close> and \<open>linked\<close>.
\<close>

section \<open>The breadth-first search\<close>

text \<open>
  During the search a state is in one of two conditions. Its row of the table is \<open>raw\<close> (the edges
  of the trie) until the state has been taken from the queue, and \<open>filled\<close> (the transition of the
  automaton) afterwards. Its fail state and match list are \<open>linked\<close> from the moment it enters the
  queue.
\<close>

definition raw :: "acsm_context \<Rightarrow> u8 list list \<Rightarrow> u8 list \<Rightarrow> bool" where
  "raw ctx ws v \<longleftrightarrow> (\<forall>c. next_state (node ctx (state_of ws v)) c =
     (if v @ [c] \<in> set ws then state_of ws (v @ [c]) else ACSM_FAIL_STATE))"

definition filled :: "acsm_context \<Rightarrow> u8 list list \<Rightarrow> u8 list \<Rightarrow> bool" where
  "filled ctx ws v \<longleftrightarrow>
     (\<forall>c. next_state (node ctx (state_of ws v)) c = state_of ws (longest ws (v @ [c])))"

definition linked :: "acsm_context \<Rightarrow> u8 list list \<Rightarrow> acsm_pattern list \<Rightarrow> u8 list \<Rightarrow> bool" where
  "linked ctx ws ps v \<longleftrightarrow>
     fail_state (node ctx (state_of ws v)) = state_of ws (longest ws (tl v)) \<and>
     set (match_list (node ctx (state_of ws v))) = {p \<in> set ps. suffix (pat_chars p) v}"

definition unlinked :: "acsm_context \<Rightarrow> u8 list list \<Rightarrow> acsm_pattern list \<Rightarrow> u8 list \<Rightarrow> bool" where
  "unlinked ctx ws ps v \<longleftrightarrow>
     set (match_list (node ctx (state_of ws v))) = {p \<in> set ps. pat_chars p = v}"

text \<open>What the search never changes.\<close>

definition search_frame :: "acsm_context \<Rightarrow> acsm_context \<Rightarrow> bool" where
  "search_frame ctx ctx' \<longleftrightarrow>
     length (table ctx') = length (table ctx) \<and> (state_table ctx' = None \<longleftrightarrow> state_table ctx = None) \<and>
     num_state ctx' = num_state ctx \<and> patterns ctx' = patterns ctx \<and> no_case ctx' = no_case ctx \<and>
     (never_fails (mallocs ctx) \<longrightarrow> never_fails (mallocs ctx'))"

lemma search_frame_refl [simp]: "search_frame ctx ctx"
  by (simp add: search_frame_def)

lemma search_frame_trans: "search_frame a b \<Longrightarrow> search_frame b c \<Longrightarrow> search_frame a c"
  by (auto simp: search_frame_def)

lemma state_table_set_node [simp]: "state_table (set_node s nd ctx) = Some ((table ctx)[nat s := nd])"
  by (simp add: set_node_def table_def)

text \<open>The pattern copies a union adds.\<close>

lemma union_match_ok:
  assumes "0 \<le> s" and "nat s < length (table ctx)" and "never_fails (mallocs ctx)"
    and "state_table ctx \<noteq> None"
  shows "\<exists>ctx'. fold (\<lambda>p ctx. snd (acsm_state_add_match_pattern ctx s p)) ps ctx = ctx' \<and>
    search_frame ctx ctx' \<and> queues ctx' = queues ctx \<and>
    (\<forall>t\<ge>0. node ctx' t = (if t = s
       then (node ctx t)\<lparr>match_list := rev ps @ match_list (node ctx t)\<rparr> else node ctx t))"
  using assms
proof (induction ps arbitrary: ctx)
  case Nil
  then show ?case by auto
next
  case (Cons p ps)
  obtain ms where ms: "acsm_malloc ctx = (True, ctx\<lparr>mallocs := ms\<rparr>)" "never_fails ms"
    by (rule acsm_malloc_never_fails [OF Cons.prems(3)])
  define ctx1 where "ctx1 = snd (acsm_state_add_match_pattern ctx s p)"
  have ctx1: "ctx1 = (set_node s ((node ctx s)\<lparr>match_list := p # match_list (node ctx s)\<rparr>) ctx)
      \<lparr>mallocs := ms\<rparr>"
    using ms by (simp add: ctx1_def acsm_state_add_match_pattern_def set_node_def)
  have nd: "node ctx1 t = (if t = s then (node ctx t)\<lparr>match_list := p # match_list (node ctx t)\<rparr>
      else node ctx t)" if "0 \<le> t" for t
    using that Cons.prems by (simp add: ctx1 node_set_node)
  have fr: "search_frame ctx ctx1" and q: "queues ctx1 = queues ctx" and st: "state_table ctx1 \<noteq> None"
    using Cons.prems(4) ms(2) state_table_set_node [of s "(node ctx s)\<lparr>match_list :=
        p # match_list (node ctx s)\<rparr>" ctx]
    by (auto simp: ctx1 search_frame_def)
  from fr Cons.prems have "nat s < length (table ctx1)" "never_fails (mallocs ctx1)"
    by (auto simp: search_frame_def)
  from Cons.IH [OF Cons.prems(1) this st] obtain ctx' where
    "fold (\<lambda>p ctx. snd (acsm_state_add_match_pattern ctx s p)) ps ctx1 = ctx'"
    "search_frame ctx1 ctx'" "queues ctx' = queues ctx1"
    "\<forall>t\<ge>0. node ctx' t = (if t = s then (node ctx1 t)\<lparr>match_list :=
        rev ps @ match_list (node ctx1 t)\<rparr> else node ctx1 t)"
    by auto
  with fr q show ?case
    by (auto simp: ctx1_def [symmetric] nd intro: search_frame_trans)
qed

text \<open>
  The state of the search while the edges of \<open>r\<close> are visited: \<open>D\<close> are the words whose states are
  done, \<open>Q\<close> those waiting behind \<open>r\<close>, \<open>js\<close> the letters already visited.
\<close>

definition children :: "u8 list list \<Rightarrow> u8 list \<Rightarrow> u8 list \<Rightarrow> u8 list list" where
  "children ws r js = map (\<lambda>c. r @ [c]) (filter (\<lambda>c. r @ [c] \<in> set ws) js)"

definition visiting ::
    "acsm_context \<Rightarrow> u8 list list \<Rightarrow> acsm_pattern list \<Rightarrow> u8 list set \<Rightarrow> u8 list \<Rightarrow> u8 list list \<Rightarrow>
     u8 list \<Rightarrow> bool" where
  "visiting ctx ws ps D r Q js \<longleftrightarrow>
     state_table ctx \<noteq> None \<and> length ws \<le> length (table ctx) \<and> never_fails (mallocs ctx) \<and>
     queue_holds ctx (map (state_of ws) (Q @ children ws r js)) \<and>
     (\<forall>v\<in>D. filled ctx ws v) \<and>
     (\<forall>c. next_state (node ctx (state_of ws r)) c =
        (if c \<in> set js then state_of ws (longest ws (r @ [c]))
         else if r @ [c] \<in> set ws then state_of ws (r @ [c]) else ACSM_FAIL_STATE)) \<and>
     (\<forall>v\<in>set ws - D - {r}. raw ctx ws v) \<and>
     (\<forall>v\<in>D \<union> {r} \<union> set Q \<union> set (children ws r js). linked ctx ws ps v) \<and>
     (\<forall>v\<in>set ws - (D \<union> {r} \<union> set Q \<union> set (children ws r js)). unlinked ctx ws ps v)"

lemma visiting_filled: "visiting ctx ws ps D r Q js \<Longrightarrow> v \<in> D \<Longrightarrow> filled ctx ws v"
  unfolding visiting_def by blast

lemma visiting_raw:
  "visiting ctx ws ps D r Q js \<Longrightarrow> v \<in> set ws \<Longrightarrow> v \<notin> D \<Longrightarrow> v \<noteq> r \<Longrightarrow> raw ctx ws v"
  unfolding visiting_def by blast

lemma visiting_linked:
  "visiting ctx ws ps D r Q js \<Longrightarrow> v \<in> D \<union> {r} \<union> set Q \<union> set (children ws r js) \<Longrightarrow>
     linked ctx ws ps v"
  unfolding visiting_def by blast

lemma visiting_unlinked:
  "visiting ctx ws ps D r Q js \<Longrightarrow> v \<in> set ws \<Longrightarrow>
     v \<notin> D \<union> {r} \<union> set Q \<union> set (children ws r js) \<Longrightarrow> unlinked ctx ws ps v"
  unfolding visiting_def by blast

lemma visiting_row:
  "visiting ctx ws ps D r Q js \<Longrightarrow> next_state (node ctx (state_of ws r)) c =
     (if c \<in> set js then state_of ws (longest ws (r @ [c]))
      else if r @ [c] \<in> set ws then state_of ws (r @ [c]) else ACSM_FAIL_STATE)"
  unfolding visiting_def by blast

lemma visiting_queue:
  "visiting ctx ws ps D r Q js \<Longrightarrow>
     queue_holds ctx (map (state_of ws) (Q @ children ws r js)) \<and> never_fails (mallocs ctx) \<and>
     state_table ctx \<noteq> None \<and> length ws \<le> length (table ctx)"
  unfolding visiting_def by blast

text \<open>The order in which the search reaches the states.\<close>

definition frontier :: "u8 list list \<Rightarrow> u8 list set \<Rightarrow> u8 list \<Rightarrow> u8 list list \<Rightarrow> bool" where
  "frontier ws D r Q \<longleftrightarrow>
     D \<subseteq> set ws \<and> set (r # Q) \<subseteq> set ws \<and> D \<inter> set (r # Q) = {} \<and> distinct (r # Q) \<and> [] \<in> D \<and>
     (\<forall>v\<in>set ws. v \<noteq> [] \<longrightarrow> (v \<in> D \<union> set (r # Q) \<longleftrightarrow> butlast v \<in> D)) \<and>
     sorted (map length (r # Q)) \<and> (\<forall>q\<in>set Q. length q \<le> Suc (length r))"

lemma frontier_shorter:
  assumes "good_words ws" and "frontier ws D r Q" and "v \<in> set ws" and "length v < length r"
  shows "v \<in> D"
  using assms(3,4)
proof (induction v rule: rev_induct)
  case Nil
  then show ?case using assms(2) by (simp add: frontier_def)
next
  case (snoc c v)
  then have "v \<in> D" using good_words_append [OF assms(1)] by fastforce
  with snoc.prems assms(2) have "v @ [c] \<in> D \<union> set (r # Q)" by (simp add: frontier_def)
  moreover have "length r \<le> length q" if "q \<in> set (r # Q)" for q
    using that assms(2) by (auto simp: frontier_def)
  ultimately show ?case using snoc.prems(2) by (metis UnE leD)
qed

lemma frontier_not_longer:
  assumes "good_words ws" and "frontier ws D r Q" and "v \<in> set ws" and "length v \<le> length r"
  shows "v \<in> D \<union> set (r # Q)"
proof (cases v rule: rev_cases)
  case Nil
  then show ?thesis using assms(2) by (simp add: frontier_def)
next
  case (snoc u c)
  have "u \<in> set ws" using snoc assms(3) by (auto intro: good_words_append [OF assms(1)])
  then have "u \<in> D" using snoc assms(4) by (intro frontier_shorter [OF assms(1,2)]) auto
  with snoc assms(2,3) show ?thesis by (simp add: frontier_def)
qed

lemma follow_filled:
  assumes "filled ctx ws v"
  shows "follow_fail ctx (state_of ws v) c = Some (state_of ws v)"
  using assms by (subst follow_fail.simps) (simp add: filled_def ACSM_FAIL_STATE_def)

lemma suffix_word_step:
  assumes "good_words ws" and "p \<in> set ws" and "v \<noteq> []"
  shows "suffix p v \<longleftrightarrow> p = v \<or> suffix p (longest ws (tl v))"
proof -
  have "suffix p v \<longleftrightarrow> p = v \<or> suffix p (tl v)"
    using assms(3) by (cases v) (auto simp: suffix_Cons)
  moreover have "suffix p (tl v) \<longleftrightarrow> suffix p (longest ws (tl v))"
    using assms(2) longest_in_suffix suffix_order.trans longest_in_greatest
    by (metis (mono_tags, lifting))
  ultimately show ?thesis by blast
qed

text \<open>Facts about the edge from \<open>r\<close> under the letter \<open>j\<close> that the order of the search gives.\<close>

lemma frontier_edge:
  assumes gw: "good_words ws" and fr: "frontier ws D r Q"
  shows "longest ws (tl r) \<in> D" and "longest ws (tl (r @ [j])) = longest ws (longest ws (tl r) @ [j])"
    and "longest ws (tl (r @ [j])) \<in> D \<union> {r} \<union> set Q"
    and "r @ [j] \<notin> D \<union> {r} \<union> set Q" and "r \<in> set ws" and "r \<noteq> []" and "r \<notin> D"
proof -
  show rn: "r \<noteq> []" and rw: "r \<in> set ws" and rD: "r \<notin> D"
    using fr by (auto simp: frontier_def)
  have "length (longest ws (tl r)) < length r"
    using length_longest_in [of "\<lambda>v. v \<in> set ws" "tl r"] rn by (cases r) auto
  then show f: "longest ws (tl r) \<in> D"
    by (rule frontier_shorter [OF gw fr longest_in_words [OF gw]])
  have tl: "tl (r @ [j]) = tl r @ [j]" using rn by (cases r) auto
  show "longest ws (tl (r @ [j])) = longest ws (longest ws (tl r) @ [j])"
    unfolding tl by (rule good_words_step [OF gw])
  have "length (longest ws (tl (r @ [j]))) \<le> length r"
    using length_longest_in [of "\<lambda>v. v \<in> set ws" "tl (r @ [j])"] by simp
  from frontier_not_longer [OF gw fr longest_in_words [OF gw] this]
  show "longest ws (tl (r @ [j])) \<in> D \<union> {r} \<union> set Q" by simp
  show "r @ [j] \<notin> D \<union> {r} \<union> set Q"
  proof (cases "r @ [j] \<in> set ws")
    case True
    then show ?thesis using fr rD by (auto simp: frontier_def)
  next
    case False
    then show ?thesis using fr by (auto simp: frontier_def)
  qed
qed

lemma visit_missing:
  assumes gw: "good_words ws" and fr: "frontier ws D r Q"
    and vis: "visiting ctx ws ps D r Q js" and new: "j \<notin> set js" and miss: "r @ [j] \<notin> set ws"
  shows "\<exists>ctx'. visit_edge (state_of ws r) j ctx = Some ctx' \<and>
    visiting ctx' ws ps D r Q (js @ [j]) \<and> search_frame ctx ctx'"
proof -
  note edge = frontier_edge [OF gw fr]
  note vq = visiting_queue [OF vis]
  let ?f = "longest ws (tl r)" and ?t = "state_of ws (longest ws (r @ [j]))"
  have lr: "index_of ws r < length (table ctx)"
    using index_of_less [OF edge(5)] vq by simp
  have fail: "fail_state (node ctx (state_of ws r)) = state_of ws ?f"
    using visiting_linked [OF vis, of r] by (simp add: linked_def)
  have "longest ws (r @ [j]) = longest ws (tl (r @ [j]))"
    using miss edge(6) by (cases r) auto
  then have ft: "next_state (node ctx (state_of ws ?f)) j = ?t"
    using edge(2) [of j] visiting_filled [OF vis edge(1)] by (simp add: filled_def)
  define ctx' where "ctx' = set_next_state (state_of ws r) j ?t ctx"
  have step: "visit_edge (state_of ws r) j ctx = Some ctx'"
    using miss new fail ft visiting_row [OF vis, of j] by (simp add: visit_edge_def ctx'_def)
  have nd: "node ctx' s = (if s = state_of ws r
      then (node ctx s)\<lparr>next_state := (next_state (node ctx s))(j := ?t)\<rparr> else node ctx s)"
    if "0 \<le> s" for s
    using that lr by (simp add: ctx'_def set_next_state_def node_set_node)
  have same: "node ctx' (state_of ws v) = node ctx (state_of ws v)" if "v \<in> set ws" "v \<noteq> r" for v
    using that index_of_inj [OF that(1) edge(5)] by (simp add: nd)
  have lnk: "linked ctx' ws ps v = linked ctx ws ps v"
    and ulk: "unlinked ctx' ws ps v = unlinked ctx ws ps v" for v
    by (simp_all add: linked_def unlinked_def nd)
  have sf: "search_frame ctx ctx'"
    using vq by (simp add: search_frame_def ctx'_def) (simp add: set_next_state_def)
  have ch: "children ws r (js @ [j]) = children ws r js" using miss by (simp add: children_def)
  have "visiting ctx' ws ps D r Q (js @ [j])"
    unfolding visiting_def ch lnk ulk
  proof (intro conjI)
    show "state_table ctx' \<noteq> None" by (simp add: ctx'_def set_next_state_def)
    show "length ws \<le> length (table ctx')" using vq by (simp add: ctx'_def)
    show "never_fails (mallocs ctx')" using vq by (simp add: ctx'_def)
    show "queue_holds ctx' (map (state_of ws) (Q @ children ws r js))"
      using vq by (subst queue_holds_same_queues [of ctx' ctx]) (simp_all add: ctx'_def)
    have "v \<in> set ws \<and> v \<noteq> r" if "v \<in> D" for v using that fr by (auto simp: frontier_def)
    then show "\<forall>v\<in>D. filled ctx' ws v"
      using visiting_filled [OF vis] by (simp add: filled_def same)
    show "\<forall>c. next_state (node ctx' (state_of ws r)) c =
        (if c \<in> set (js @ [j]) then state_of ws (longest ws (r @ [c]))
         else if r @ [c] \<in> set ws then state_of ws (r @ [c]) else ACSM_FAIL_STATE)"
      using visiting_row [OF vis] by (simp add: nd)
    show "\<forall>v\<in>set ws - D - {r}. raw ctx' ws v"
      using visiting_raw [OF vis] by (simp add: raw_def same)
    show "\<forall>v\<in>D \<union> {r} \<union> set Q \<union> set (children ws r js). linked ctx ws ps v"
      using visiting_linked [OF vis] by blast
    show "\<forall>v\<in>set ws - (D \<union> {r} \<union> set Q \<union> set (children ws r js)). unlinked ctx ws ps v"
      using visiting_unlinked [OF vis] by blast
  qed
  with step sf show ?thesis by blast
qed

lemma visit_child:
  assumes gw: "good_words ws" and fr: "frontier ws D r Q" and ps: "\<forall>p\<in>set ps. pat_chars p \<in> set ws"
    and vis: "visiting ctx ws ps D r Q js" and new: "j \<notin> set js" and child: "r @ [j] \<in> set ws"
  shows "\<exists>ctx'. visit_edge (state_of ws r) j ctx = Some ctx' \<and>
    visiting ctx' ws ps D r Q (js @ [j]) \<and> search_frame ctx ctx'"
proof -
  note edge = frontier_edge [OF gw fr]
  note vq = visiting_queue [OF vis]
  let ?s = "r @ [j]" and ?f = "longest ws (tl r)" and ?g = "longest ws (tl (r @ [j]))"
  have ch: "set (children ws r (js @ [j])) = insert ?s (set (children ws r js))"
    using child by (auto simp: children_def)
  have fresh: "?s \<notin> D \<union> {r} \<union> set Q \<union> set (children ws r js)"
    using edge(4) [of j] new by (auto simp: children_def)
  have ls: "index_of ws ?s < length (table ctx)" using index_of_less [OF child] vq by simp
  have lnk: "linked ctx ws ps r" "linked ctx ws ps ?g"
    using visiting_linked [OF vis] edge(3) [of j] by blast+
  have "?g \<noteq> ?s"
  proof
    assume "?g = ?s"
    with edge(3) [of j] fresh show False by simp
  qed
  then have gs: "index_of ws ?g \<noteq> index_of ws ?s"
    using index_of_inj [OF longest_in_words [OF gw] child] by blast
  define ctx1 where "ctx1 = snd (acsm_add_state ctx (state_of ws ?s))"
  define ctx2 where "ctx2 = set_fail_state (state_of ws ?s) (state_of ws ?g) ctx1"
  define pats where "pats = match_list (node ctx (state_of ws ?g))"
  have q1: "queue_holds ctx1 (map (state_of ws) (Q @ children ws r (js @ [j])))"
    and nf1: "never_fails (mallocs ctx1)"
    using wq.push_law [of ctx "map (state_of ws) (Q @ children ws r js)" "state_of ws ?s"] vq child
    by (simp_all add: ctx1_def children_def)
  have nd1: "node ctx1 = node ctx" and tb1: "table ctx1 = table ctx" by (simp_all add: ctx1_def)
  have nd2: "node ctx2 t = (if t = state_of ws ?s
      then (node ctx t)\<lparr>fail_state := state_of ws ?g\<rparr> else node ctx t)" if "0 \<le> t" for t
    using that ls by (simp add: ctx2_def set_fail_state_def node_set_node nd1 tb1)
  have ff: "follow_fail ctx1 (fail_state (node ctx1 (state_of ws r))) j = Some (state_of ws ?f)"
    and fe: "next_state (node ctx1 (state_of ws ?f)) j = state_of ws ?g"
    using lnk(1) edge(2) [of j] visiting_filled [OF vis edge(1)]
    by (simp_all add: linked_def filled_def nd1 follow_filled)
  have "0 \<le> state_of ws ?s" and "nat (state_of ws ?s) < length (table ctx2)"
    and "never_fails (mallocs ctx2)" and st2: "state_table ctx2 \<noteq> None"
    using ls nf1 by (simp_all add: ctx2_def tb1) (simp add: set_fail_state_def)
  from union_match_ok [OF this, of pats] obtain ctx' where
    un: "fold (\<lambda>p ctx. snd (acsm_state_add_match_pattern ctx (state_of ws ?s) p)) pats ctx2 = ctx'"
    and sf2: "search_frame ctx2 ctx'" and q': "queues ctx' = queues ctx2"
    and nd': "\<forall>t\<ge>0. node ctx' t = (if t = state_of ws ?s
       then (node ctx2 t)\<lparr>match_list := rev pats @ match_list (node ctx2 t)\<rparr> else node ctx2 t)"
    by blast
  have nd: "node ctx' t = (if t = state_of ws ?s then (node ctx t)\<lparr>fail_state := state_of ws ?g,
      match_list := rev pats @ match_list (node ctx t)\<rparr> else node ctx t)" if "0 \<le> t" for t
    using that nd' by (simp add: nd2)
  have rs: "next_state (node ctx (state_of ws r)) j = state_of ws ?s"
    using visiting_row [OF vis] new child by simp
  have step: "visit_edge (state_of ws r) j ctx = Some ctx'"
  proof -
    have "fail_state (node ctx2 (state_of ws ?s)) = state_of ws ?g" by (simp add: nd2)
    moreover have "match_list (node ctx2 (state_of ws ?g)) = pats" using gs by (simp add: nd2 pats_def)
    ultimately show ?thesis
      using rs ff [unfolded nd1] fe [unfolded nd1] un by (simp add: visit_edge_def ACSM_FAIL_STATE_def ctx1_def [symmetric]
          ctx2_def [symmetric] acsm_state_union_match_pattern_def Let_def)
  qed
  have sf: "search_frame ctx ctx'"
    using sf2 nf1 vq st2 by (auto simp: search_frame_def ctx2_def ctx1_def)
  have same: "node ctx' (state_of ws v) = node ctx (state_of ws v)" if "v \<in> set ws" "v \<noteq> ?s" for v
    using that index_of_inj [OF that(1) child] by (simp add: nd)
  have rows: "next_state (node ctx' (state_of ws v)) = next_state (node ctx (state_of ws v))" for v
    by (simp add: nd)
  have inws: "v \<in> set ws" if "v \<in> D \<union> {r} \<union> set Q \<union> set (children ws r js)" for v
    using that fr by (auto simp: frontier_def children_def)
  have new_linked: "linked ctx' ws ps ?s"
  proof -
    have "set (match_list (node ctx (state_of ws ?s))) = {p \<in> set ps. pat_chars p = ?s}"
      using visiting_unlinked [OF vis child fresh] by (simp add: unlinked_def)
    then show ?thesis
      using lnk(2) ps suffix_word_step [OF gw, of _ ?s] by (auto simp: linked_def nd pats_def)
  qed
  have "visiting ctx' ws ps D r Q (js @ [j])"
    unfolding visiting_def rows filled_def raw_def
  proof (intro conjI)
    show "state_table ctx' \<noteq> None" using sf vq by (simp add: search_frame_def)
    show "length ws \<le> length (table ctx')" using sf vq by (simp add: search_frame_def)
    show "never_fails (mallocs ctx')" using sf vq by (simp add: search_frame_def)
    show "queue_holds ctx' (map (state_of ws) (Q @ children ws r (js @ [j])))"
      using q1 by (subst queue_holds_same_queues [of ctx' ctx1]) (simp_all add: q' ctx2_def)
    show "\<forall>v\<in>D. \<forall>c. next_state (node ctx (state_of ws v)) c = state_of ws (longest ws (v @ [c]))"
      using visiting_filled [OF vis] by (simp add: filled_def)
    show "\<forall>c. next_state (node ctx (state_of ws r)) c =
        (if c \<in> set (js @ [j]) then state_of ws (longest ws (r @ [c]))
         else if r @ [c] \<in> set ws then state_of ws (r @ [c]) else ACSM_FAIL_STATE)"
      using visiting_row [OF vis] child by simp
    show "\<forall>v\<in>set ws - D - {r}. \<forall>c. next_state (node ctx (state_of ws v)) c =
        (if v @ [c] \<in> set ws then state_of ws (v @ [c]) else ACSM_FAIL_STATE)"
      using visiting_raw [OF vis] by (simp add: raw_def)
    show "\<forall>v\<in>D \<union> {r} \<union> set Q \<union> set (children ws r (js @ [j])). linked ctx' ws ps v"
    proof
      fix v assume v: "v \<in> D \<union> {r} \<union> set Q \<union> set (children ws r (js @ [j]))"
      show "linked ctx' ws ps v"
      proof (cases "v = ?s")
        case False
        with v have v': "v \<in> D \<union> {r} \<union> set Q \<union> set (children ws r js)" by (simp add: ch)
        with visiting_linked [OF vis v'] inws [OF v'] False show ?thesis
          by (simp add: linked_def same)
      qed (simp add: new_linked)
    qed
    show "\<forall>v\<in>set ws - (D \<union> {r} \<union> set Q \<union> set (children ws r (js @ [j]))). unlinked ctx' ws ps v"
      using visiting_unlinked [OF vis] by (simp add: unlinked_def same ch)
  qed
  with step sf show ?thesis by blast
qed

lemma visit_edges_ok:
  assumes gw: "good_words ws" and fr: "frontier ws D r Q" and ps: "\<forall>p\<in>set ps. pat_chars p \<in> set ws"
    and "visiting ctx ws ps D r Q js" and "distinct (js @ todo)"
  shows "\<exists>ctx'. visit_edges (state_of ws r) todo ctx = Some ctx' \<and>
    visiting ctx' ws ps D r Q (js @ todo) \<and> search_frame ctx ctx'"
  using assms(4,5)
proof (induction todo arbitrary: ctx js)
  case Nil
  then show ?case by simp
next
  case (Cons j todo)
  have "\<exists>ctx'. visit_edge (state_of ws r) j ctx = Some ctx' \<and>
      visiting ctx' ws ps D r Q (js @ [j]) \<and> search_frame ctx ctx'"
    using visit_child [OF gw fr ps Cons.prems(1)] visit_missing [OF gw fr Cons.prems(1)] Cons.prems(2)
    by (cases "r @ [j] \<in> set ws") auto
  then obtain ctx1 where 1: "visit_edge (state_of ws r) j ctx = Some ctx1"
    "visiting ctx1 ws ps D r Q (js @ [j])" "search_frame ctx ctx1" by blast
  from Cons.IH [OF 1(2)] Cons.prems(2) obtain ctx' where
    "visit_edges (state_of ws r) todo ctx1 = Some ctx'"
    "visiting ctx' ws ps D r Q ((js @ [j]) @ todo)" "search_frame ctx1 ctx'" by auto
  with 1 show ?case by (auto intro: search_frame_trans)
qed

text \<open>The state between two rounds of the outer loop.\<close>

definition searching ::
    "acsm_context \<Rightarrow> u8 list list \<Rightarrow> acsm_pattern list \<Rightarrow> u8 list set \<Rightarrow> u8 list list \<Rightarrow> bool" where
  "searching ctx ws ps D Q \<longleftrightarrow>
     state_table ctx \<noteq> None \<and> length ws \<le> length (table ctx) \<and> never_fails (mallocs ctx) \<and>
     queue_holds ctx (map (state_of ws) Q) \<and>
     (\<forall>v\<in>D. filled ctx ws v) \<and> (\<forall>v\<in>set ws - D. raw ctx ws v) \<and>
     (\<forall>v\<in>D \<union> set Q. linked ctx ws ps v) \<and> (\<forall>v\<in>set ws - (D \<union> set Q). unlinked ctx ws ps v)"

lemma searching_pop:
  assumes "searching ctx ws ps D (r # Q)" and "r \<in> set ws" and "r \<notin> D"
  shows "fst (acsm_next_state ctx) = state_of ws r"
    and "visiting (snd (acsm_next_state ctx)) ws ps D r Q []"
proof -
  have pop: "fst (acsm_next_state ctx) = state_of ws r \<and>
      queue_holds (snd (acsm_next_state ctx)) (map (state_of ws) Q)"
    using assms(1) by (intro wq.pop_law) (simp add: searching_def)
  then show "fst (acsm_next_state ctx) = state_of ws r" by blast
  have "raw ctx ws r" using assms by (auto simp: searching_def)
  then show "visiting (snd (acsm_next_state ctx)) ws ps D r Q []"
    using assms(1) pop
    by (auto simp: searching_def visiting_def children_def filled_def raw_def linked_def unlinked_def)
qed

lemma visiting_done:
  assumes "visiting ctx ws ps D r Q ascii_table"
  shows "searching ctx ws ps (insert r D) (Q @ children ws r ascii_table)"
proof -
  have "set ascii_table = UNIV" by (simp add: ascii_table_def bytes_UNIV del: set_map)
  then have "filled ctx ws r" using visiting_row [OF assms] by (simp add: filled_def)
  then show ?thesis
    using visiting_queue [OF assms] visiting_filled [OF assms] visiting_raw [OF assms]
      visiting_linked [OF assms] visiting_unlinked [OF assms]
    unfolding searching_def by auto
qed

lemma distinct_ascii_table: "distinct ascii_table"
proof -
  have "inj_on (of_nat :: nat \<Rightarrow> u8) {0..<256}"
    by (rule inj_on_inverseI [where g = unat]) (simp add: unsigned_of_nat take_bit_nat_eq_self)
  then show ?thesis by (simp add: ascii_table_def distinct_map)
qed

lemma set_children: "set (children ws r ascii_table) = {r @ [c] |c. r @ [c] \<in> set ws}"
proof -
  have "set ascii_table = UNIV" by (simp add: ascii_table_def bytes_UNIV del: set_map)
  then show ?thesis by (auto simp: children_def)
qed

lemma frontier_next:
  assumes gw: "good_words ws" and fr: "frontier ws D r Q" and nxt: "Q @ children ws r ascii_table = r' # Q'"
  shows "frontier ws (insert r D) r' Q'"
  unfolding frontier_def nxt [symmetric]
proof (intro conjI)
  note edge = frontier_edge [OF gw fr]
  show "insert r D \<subseteq> set ws" using fr by (auto simp: frontier_def)
  show "set (Q @ children ws r ascii_table) \<subseteq> set ws"
    using fr by (auto simp: frontier_def children_def)
  show "insert r D \<inter> set (Q @ children ws r ascii_table) = {}"
    using fr edge(4) by (auto simp: frontier_def children_def)
  have "distinct (children ws r ascii_table)"
    using distinct_ascii_table by (auto simp: children_def distinct_map inj_on_def)
  then show "distinct (Q @ children ws r ascii_table)"
    using fr edge(4) by (auto simp: frontier_def children_def)
  show "[] \<in> insert r D" using fr by (simp add: frontier_def)
  show "\<forall>v\<in>set ws. v \<noteq> [] \<longrightarrow>
      (v \<in> insert r D \<union> set (Q @ children ws r ascii_table) \<longleftrightarrow> butlast v \<in> insert r D)"
  proof (intro ballI impI)
    fix v assume v: "v \<in> set ws" "v \<noteq> []"
    then have "v \<in> set (children ws r ascii_table) \<longleftrightarrow> butlast v = r"
      by (cases v rule: rev_cases) (auto simp: set_children)
    moreover have "v \<in> D \<union> set (r # Q) \<longleftrightarrow> butlast v \<in> D" using fr v by (simp add: frontier_def)
    ultimately show "v \<in> insert r D \<union> set (Q @ children ws r ascii_table) \<longleftrightarrow> butlast v \<in> insert r D"
      by auto
  qed
  have len: "length q = Suc (length r)" if "q \<in> set (children ws r ascii_table)" for q
    using that by (auto simp: children_def)
  have "map length (children ws r ascii_table) =
      replicate (length (children ws r ascii_table)) (Suc (length r))"
    by (simp add: children_def comp_def map_replicate_const)
  then show "sorted (map length (Q @ children ws r ascii_table))"
    using fr by (auto simp: frontier_def sorted_append)
  have "r' \<in> set (Q @ children ws r ascii_table)" unfolding nxt by simp
  then have "length r \<le> length r'" using fr len by (fastforce simp: frontier_def)
  moreover have "length q \<le> Suc (length r)" if "q \<in> set (Q @ children ws r ascii_table)" for q
    using that fr len by (auto simp: frontier_def)
  ultimately show "\<forall>q\<in>set Q'. length q \<le> Suc (length r')"
    by (metis Suc_le_mono list.set_intros(2) nxt order_trans)
qed

lemma frontier_end:
  assumes gw: "good_words ws" and fr: "frontier ws D r Q" and none: "Q @ children ws r ascii_table = []"
  shows "insert r D = set ws"
proof
  show "insert r D \<subseteq> set ws" using fr by (auto simp: frontier_def)
  have "v \<in> insert r D" if "v \<in> set ws" for v
    using that
  proof (induction v rule: rev_induct)
    case Nil
    then show ?case using fr by (simp add: frontier_def)
  next
    case (snoc c v)
    then have "v \<in> insert r D" using good_words_append [OF gw] by blast
    moreover have "v @ [c] \<in> set (children ws r ascii_table)" if "v = r"
      using that snoc.prems by (simp add: set_children)
    moreover have "v @ [c] \<in> D \<union> set (r # Q) \<longleftrightarrow> v \<in> D"
      using fr snoc.prems by (auto simp: frontier_def)
    ultimately show ?case using none by auto
  qed
  then show "set ws \<subseteq> insert r D" by blast
qed

fun order_ok :: "u8 list list \<Rightarrow> u8 list set \<Rightarrow> u8 list list \<Rightarrow> bool" where
  "order_ok ws D [] \<longleftrightarrow> D = set ws"
| "order_ok ws D (r # Q) \<longleftrightarrow> frontier ws D r Q"

lemma failure_function_ok:
  assumes "good_words ws" and "\<forall>p\<in>set ps. pat_chars p \<in> set ws"
    and "searching ctx ws ps D Q" and "order_ok ws D Q"
  shows "\<exists>ctx'. failure_function ctx = Some ctx' \<and> searching ctx' ws ps (set ws) [] \<and>
    search_frame ctx ctx'"
  using assms(3,4)
proof (induction "card (set ws - D)" arbitrary: ctx D Q rule: less_induct)
  case less
  show ?case
  proof (cases Q)
    case Nil
    then have "acsm_queue_empty work_queue (queues ctx)"
      using less.prems(1) wq.empty_law by (auto simp: searching_def)
    then show ?thesis
      using Nil less.prems by (subst failure_function.simps) auto
  next
    case (Cons r Q')
    with less.prems have fr: "frontier ws D r Q'" by simp
    note edge = frontier_edge [OF assms(1) fr]
    have "\<not> acsm_queue_empty work_queue (queues ctx)"
      using less.prems(1) Cons wq.empty_law by (fastforce simp: searching_def)
    moreover obtain ctx1 where n: "acsm_next_state ctx = (state_of ws r, ctx1)"
      and vis: "visiting ctx1 ws ps D r Q' []"
      using searching_pop [OF less.prems(1) [unfolded Cons] edge(5,7)] by (metis prod.collapse)
    moreover obtain ctx2 where v: "visit_edges (state_of ws r) ascii_table ctx1 = Some ctx2"
      and vis2: "visiting ctx2 ws ps D r Q' ascii_table" and sf: "search_frame ctx1 ctx2"
      using visit_edges_ok [OF assms(1) fr assms(2) vis, of ascii_table] distinct_ascii_table by auto
    ultimately have step: "failure_function ctx = failure_function ctx2"
      by (subst failure_function.simps) (simp only: if_False prod.case Option.bind.bind_lunit)
    let ?Q = "Q' @ children ws r ascii_table"
    have "order_ok ws (insert r D) ?Q"
      using frontier_next [OF assms(1) fr] frontier_end [OF assms(1) fr]
      by (cases ?Q) auto
    moreover have "card (set ws - insert r D) < card (set ws - D)"
      using edge(5,7) by (intro psubset_card_mono) auto
    ultimately obtain ctx' where "failure_function ctx2 = Some ctx'"
      "searching ctx' ws ps (set ws) []" "search_frame ctx2 ctx'"
      using less.hyps visiting_done [OF vis2] by blast
    moreover have "search_frame ctx ctx1"
      using acsm_next_state_simps [of ctx] table_other(3) [of ctx] by (simp add: search_frame_def n)
    ultimately show ?thesis using step sf by (auto intro: search_frame_trans)
  qed
qed

section \<open>The children of the root\<close>

lemma longest_single:
  "good_words ws \<Longrightarrow> longest ws [c] = (if [c] \<in> set ws then [c] else [])"
  by simp

lemma enqueue_depth1_ok:
  assumes gw: "good_words ws" and ne: "\<forall>p\<in>set ps. pat_chars p \<noteq> []"
    and "searching ctx ws ps {[]} (children ws [] js)" and "distinct (js @ todo)"
  shows "fst (enqueue_depth1 todo ctx) = 0 \<and>
    searching (snd (enqueue_depth1 todo ctx)) ws ps {[]} (children ws [] (js @ todo)) \<and>
    search_frame ctx (snd (enqueue_depth1 todo ctx))"
  using assms(3,4)
proof (induction todo arbitrary: ctx js)
  case Nil
  then show ?case by simp
next
  case (Cons j todo)
  have edge: "next_state (node ctx 0) j = (if [j] \<in> set ws then state_of ws [j] else 0)"
    using Cons.prems(1) gw by (auto simp: searching_def filled_def)
  show ?case
  proof (cases "[j] \<in> set ws")
    case False
    then have "children ws [] (js @ [j]) = children ws [] js" by (simp add: children_def)
    with Cons.IH [of ctx "js @ [j]"] Cons.prems edge False show ?thesis by simp
  next
    case True
    let ?s = "state_of ws [j]"
    have s0: "?s \<noteq> 0" using index_of_inj [OF True good_words_Nil [OF gw]] gw by simp
    have ls: "index_of ws [j] < length (table ctx)"
      using index_of_less [OF True] Cons.prems(1) by (simp add: searching_def)
    define ctx1 where "ctx1 = snd (acsm_add_state ctx ?s)"
    define ctx2 where "ctx2 = set_fail_state ?s 0 ctx1"
    have add: "acsm_add_state ctx ?s = (0, ctx1)"
      and q: "queue_holds ctx1 (map (state_of ws) (children ws [] (js @ [j])))"
      and nf: "never_fails (mallocs ctx1)"
      using wq.push_law [of ctx "map (state_of ws) (children ws [] js)" ?s] Cons.prems(1) True
      by (auto simp: searching_def ctx1_def children_def prod_eq_iff)
    have nd: "node ctx2 t = (if t = ?s then (node ctx t)\<lparr>fail_state := 0\<rparr> else node ctx t)"
      if "0 \<le> t" for t
      using that ls by (simp add: ctx2_def ctx1_def set_fail_state_def node_set_node)
    have ch: "set (children ws [] (js @ [j])) = insert [j] (set (children ws [] js))"
      using True by (auto simp: children_def)
    have fresh: "[j] \<notin> insert [] (set (children ws [] js))"
      using Cons.prems(2) by (auto simp: children_def)
    have same: "node ctx2 (state_of ws v) = node ctx (state_of ws v)" if "v \<in> set ws" "v \<noteq> [j]" for v
      using that index_of_inj [OF that(1) True] by (simp add: nd)
    have rows: "next_state (node ctx2 (state_of ws v)) = next_state (node ctx (state_of ws v))" for v
      by (simp add: nd)
    have inws: "v \<in> set ws" if "v \<in> insert [] (set (children ws [] js))" for v
      using that good_words_Nil [OF gw] by (auto simp: children_def)
    have "unlinked ctx ws ps [j]" using Cons.prems(1) True fresh by (simp add: searching_def)
    then have lj: "linked ctx2 ws ps [j]"
      using ne gw by (auto simp: linked_def unlinked_def nd suffix_Cons)
    have "searching ctx2 ws ps {[]} (children ws [] (js @ [j]))"
      unfolding searching_def
    proof (intro conjI)
      show "state_table ctx2 \<noteq> None" by (simp add: ctx2_def set_fail_state_def)
      show "length ws \<le> length (table ctx2)"
        using Cons.prems(1) by (simp add: searching_def ctx2_def ctx1_def)
      show "never_fails (mallocs ctx2)" using nf by (simp add: ctx2_def)
      show "queue_holds ctx2 (map (state_of ws) (children ws [] (js @ [j])))"
        using q by (subst queue_holds_same_queues [of ctx2 ctx1]) (simp_all add: ctx2_def)
      show "\<forall>v\<in>{[]}. filled ctx2 ws v"
        using Cons.prems(1) by (simp add: searching_def filled_def rows)
      show "\<forall>v\<in>set ws - {[]}. raw ctx2 ws v"
        using Cons.prems(1) by (simp add: searching_def raw_def rows)
      show "\<forall>v\<in>{[]} \<union> set (children ws [] (js @ [j])). linked ctx2 ws ps v"
      proof
        fix v assume v: "v \<in> {[]} \<union> set (children ws [] (js @ [j]))"
        show "linked ctx2 ws ps v"
        proof (cases "v = [j]")
          case False
          with v have v': "v \<in> insert [] (set (children ws [] js))" by (simp add: ch)
          with Cons.prems(1) have "linked ctx ws ps v" by (auto simp: searching_def)
          with False inws [OF v'] show ?thesis by (simp add: linked_def same)
        qed (simp add: lj)
      qed
      show "\<forall>v\<in>set ws - ({[]} \<union> set (children ws [] (js @ [j]))). unlinked ctx2 ws ps v"
        using Cons.prems(1) by (simp add: searching_def unlinked_def same ch)
    qed
    moreover have "search_frame ctx ctx2"
      using nf Cons.prems(1) by (auto simp: search_frame_def ctx2_def ctx1_def searching_def
          set_fail_state_def)
    moreover have "enqueue_depth1 (j # todo) ctx = enqueue_depth1 todo ctx2"
      using edge True s0 add by (simp add: ctx2_def)
    ultimately show ?thesis
      using Cons.IH [of ctx2 "js @ [j]"] Cons.prems(2) by (auto intro: search_frame_trans)
  qed
qed

lemma order_ok_root:
  assumes gw: "good_words ws"
  shows "order_ok ws {[]} (children ws [] ascii_table)"
proof -
  have ch: "set (children ws [] ascii_table) = {[c] |c. [c] \<in> set ws}"
    by (simp add: set_children)
  have dist: "distinct (children ws [] ascii_table)"
    using distinct_ascii_table by (auto simp: children_def distinct_map inj_on_def)
  have len: "length v = 1" if "v \<in> set (children ws [] ascii_table)" for v
    using that by (auto simp: children_def)
  show ?thesis
  proof (cases "children ws [] ascii_table")
    case Nil
    have "v = []" if "v \<in> set ws" for v
    proof (cases v)
      case (Cons c u)
      with that have "[c] \<in> set ws" using good_words_append [OF gw, of "[c]" u] by simp
      with Nil ch show ?thesis by auto
    qed simp
    with Nil good_words_Nil [OF gw] show ?thesis by auto
  next
    case (Cons r Q)
    have 6: "v \<in> {[]} \<union> set (r # Q) \<longleftrightarrow> butlast v \<in> {[]}" if "v \<in> set ws" "v \<noteq> []" for v
    proof -
      have "v \<in> set (r # Q) \<longleftrightarrow> (\<exists>c. v = [c])"
        using that unfolding Cons [symmetric] ch by auto
      then show ?thesis using that(2) by (cases v rule: rev_cases) auto
    qed
    have sub: "set (r # Q) \<subseteq> set ws" unfolding Cons [symmetric] ch by auto
    have one: "length v = 1" if "v \<in> set (r # Q)" for v using that len Cons by metis
    then have "map length (r # Q) = replicate (length (r # Q)) 1"
      by (intro replicate_eqI) auto
    then have "sorted (map length (r # Q))" by (metis sorted_replicate)
    moreover have "{[]} \<inter> set (r # Q) = {}" using one by fastforce
    ultimately have "frontier ws {[]} r Q"
      unfolding frontier_def
      using 6 sub dist [unfolded Cons] good_words_Nil [OF gw] one by auto
    with Cons show ?thesis by simp
  qed
qed

end
