(* ===== verification/AcsmProof.thy ===== *)
theory AcsmProof
  imports AcsmCompile
begin

text \<open>
  What the matcher promises: the table \<open>acsm_compile\<close> leaves behind, the answer of \<open>acsm_search\<close>,
  and the blocks \<open>acsm_free\<close> releases.
\<close>

section \<open>Contexts before compilation\<close>

definition pattern_ok :: "acsm_pattern \<Rightarrow> bool" where
  "pattern_ok p \<longleftrightarrow> (\<exists>s. pat_string p = Some s \<and> length s = pat_len p \<and> s \<noteq> [])"

lemma pat_chars_ok: "pattern_ok p \<Longrightarrow> pat_string p = Some (pat_chars p) \<and>
    length (pat_chars p) = pat_len p \<and> pat_chars p \<noteq> []"
  by (auto simp: pattern_ok_def pat_chars_def)

text \<open>A context that patterns have been added to and that has not been compiled.\<close>

definition collecting :: "acsm_context \<Rightarrow> bool" where
  "collecting ctx \<longleftrightarrow>
     (\<forall>p\<in>set (patterns ctx). pattern_ok p) \<and> num_state ctx = 0 \<and>
     unat (max_state ctx) = 1 + sum_list (map pat_len (patterns ctx)) \<and>
     two_rings (queues ctx) [] [] \<and> never_fails (mallocs ctx)"

definition states :: "acsm_context \<Rightarrow> u8 list list" where
  "states ctx = trie_words [[]] (map pat_chars (patterns ctx))"

text \<open>
  \<open>automaton ctx ws ps\<close>: the table is the matcher of the patterns \<open>ps\<close>, its states numbered by
  \<open>ws\<close>. In a \<open>compiled\<close> context these are the patterns that were added and their prefixes.
\<close>

definition automaton :: "acsm_context \<Rightarrow> u8 list list \<Rightarrow> acsm_pattern list \<Rightarrow> bool" where
  "automaton ctx ws ps \<longleftrightarrow>
     good_words ws \<and> state_table ctx \<noteq> None \<and> length ws \<le> length (table ctx) \<and>
     unat (num_state ctx) = length ws - 1 \<and>
     (\<forall>p\<in>set ps. pat_chars p \<noteq> [] \<and> pat_chars p \<in> set ws) \<and>
     (\<forall>v\<in>set ws. filled ctx ws v \<and> linked ctx ws ps v)"

definition compiled :: "acsm_context \<Rightarrow> bool" where
  "compiled ctx \<longleftrightarrow> automaton ctx (states ctx) (patterns ctx) \<and>
     (\<forall>p\<in>set (patterns ctx). pattern_ok p)"

section \<open>Compilation\<close>

lemma init_table_simps [simp]:
  "patterns (init_table ctx) = patterns ctx" "num_state (init_table ctx) = num_state ctx"
  "queues (init_table ctx) = queues ctx" "mallocs (init_table ctx) = mallocs ctx"
  "no_case (init_table ctx) = no_case ctx"
  "table (init_table ctx) = replicate (unat (max_state ctx)) init_node"
  "state_table (init_table ctx) \<noteq> None"
  by (simp_all add: init_table_def table_def)

lemma init_table_ok:
  assumes "0 < unat (max_state ctx)" and "unat (max_state ctx) < 2 ^ 31" and "num_state ctx = 0"
  shows "goto_table (init_table ctx) [[]]" and "goto_matches (init_table ctx) [[]] []"
proof -
  have nd: "node (init_table ctx) (int i) = init_node" if "i < unat (max_state ctx)" for i
    using that by (simp add: node_def init_table_def)
  from nd [of 0] assms(1) have nd0: "node (init_table ctx) 0 = init_node" by simp
  show "goto_table (init_table ctx) [[]]"
    using assms nd nd0 by (auto simp: goto_table_def good_words_def init_node_def)
  show "goto_matches (init_table ctx) [[]] []"
    using nd0 by (simp add: goto_matches_def init_node_def)
qed

text \<open>The start of the search: the goto table with the missing edges of the root turned back.\<close>

lemma searching_start:
  assumes tbl: "goto_table ctx ws" and mt: "goto_matches ctx ws ps"
    and nf: "never_fails (mallocs ctx)" and q: "queue_holds ctx []"
  defines "ctx' \<equiv> fold root_edge ascii_table ctx"
  shows "searching ctx' ws ps {[]} (children ws [] [])" and "num_state ctx' = num_state ctx"
    and "goto_frame ctx ctx'"
proof -
  have gw: "good_words ws" and st: "state_table ctx \<noteq> None" and ln: "length ws \<le> length (table ctx)"
    using tbl by (auto simp: goto_table_def)
  have "0 < length ws" using gw by (auto simp: good_words_def)
  then have pos: "0 < length (table ctx)" using ln by linarith
  note f = fold_root_edge [OF pos st, of ascii_table, folded ctx'_def]
  show "num_state ctx' = num_state ctx" "goto_frame ctx ctx'" using f by auto
  have all: "c \<in> set ascii_table" for c
    unfolding ascii_table_def bytes_UNIV by simp
  have root: "state_of ws [] = 0" using gw by (cases ws) (auto simp: good_words_def)
  have s0: "state_of ws v = 0 \<longleftrightarrow> v = []" if "v \<in> set ws" for v
    using index_of_inj [OF that good_words_Nil [OF gw]] root by auto
  have row: "next_state (node ctx (state_of ws v)) c =
      (if v @ [c] \<in> set ws then state_of ws (v @ [c]) else ACSM_FAIL_STATE)" if "v \<in> set ws" for v c
    using tbl that unfolding goto_table_def by blast
  have nxt: "next_state (node ctx' (state_of ws v)) c =
     (if v = [] \<and> [c] \<notin> set ws then 0 else next_state (node ctx (state_of ws v)) c)"
    if "v \<in> set ws" for v c
    using f all row [OF good_words_Nil [OF gw], of c] root s0 [OF that]
    by (simp add: ACSM_FAIL_STATE_def)
  have ml: "match_list (node ctx' (state_of ws v)) = rev (filter (\<lambda>p. pat_chars p = v) ps)"
    if "v \<in> set ws" for v
    using f that mt by (simp add: goto_matches_def)
  have fl: "filled ctx' ws []"
    using nxt [OF good_words_Nil [OF gw]] row [OF good_words_Nil [OF gw]] root
    by (simp add: filled_def)
  have rw: "raw ctx' ws v" if "v \<in> set ws" "v \<noteq> []" for v
    using that by (simp add: raw_def nxt row)
  have "fail_state (node ctx' 0) = 0"
    using f tbl good_words_Nil [OF gw] root unfolding goto_table_def by auto
  then have li: "linked ctx' ws ps []"
    using ml [OF good_words_Nil [OF gw]] root by (auto simp: linked_def)
  have un: "unlinked ctx' ws ps v" if "v \<in> set ws" for v
    using ml [OF that] by (auto simp: unlinked_def)
  have q': "queue_holds ctx' []" and nf': "never_fails (mallocs ctx')"
    using f q nf queue_holds_same_queues [of ctx' ctx] by (auto simp: goto_frame_def)
  show "searching ctx' ws ps {[]} (children ws [] [])"
    unfolding searching_def using f fl rw li un q' nf' ln by (simp add: children_def)
qed

lemma search_phase_ok:
  assumes tbl: "goto_table ctx ws" and mt: "goto_matches ctx ws ps"
    and nf: "never_fails (mallocs ctx)" and rings: "two_rings (queues ctx) [] []"
    and ne: "\<forall>p\<in>set ps. pat_chars p \<noteq> []"
  obtains ctx1 ctx2 ctx' where
    "enqueue_depth1 ascii_table (fold root_edge ascii_table ctx) = (0, ctx1)"
    and "failure_function ctx1 = Some ctx2" and "acsm_free_state ctx2 = Some ctx'"
    and "automaton ctx' ws ps" and "two_rings (queues ctx') [] []"
    and "patterns ctx' = patterns ctx" and "no_case ctx' = no_case ctx"
    and "length (table ctx') = length (table ctx)"
proof -
  have gw: "good_words ws" using tbl by (simp add: goto_table_def)
  have inw: "\<forall>p\<in>set ps. pat_chars p \<in> set ws" using mt by (simp add: goto_matches_def)
  have q: "queue_holds ctx []" using rings queue_holdsI [of ctx "[]" "[]" "[]"] by simp
  define ctx0 where "ctx0 = fold root_edge ascii_table ctx"
  have 3: "searching ctx0 ws ps {[]} (children ws [] [])" "num_state ctx0 = num_state ctx"
    "goto_frame ctx ctx0"
    unfolding ctx0_def by (rule searching_start [OF tbl mt nf q])+
  obtain ctx1 where 4: "enqueue_depth1 ascii_table ctx0 = (0, ctx1)"
    "searching ctx1 ws ps {[]} (children ws [] ascii_table)" "search_frame ctx0 ctx1"
    using enqueue_depth1_ok [OF gw ne 3(1), of ascii_table] distinct_ascii_table
    by (cases "enqueue_depth1 ascii_table ctx0") auto
  from failure_function_ok [OF gw inw 4(2) order_ok_root [OF gw]]
  obtain ctx2 where 5: "failure_function ctx1 = Some ctx2" "searching ctx2 ws ps (set ws) []"
    "search_frame ctx1 ctx2" by blast
  from 5(2) obtain fs where "two_rings (queues ctx2) [] fs"
    by (auto simp: searching_def queue_holds_def)
  from acsm_free_state_empties [OF this] obtain h where
    6: "acsm_free_state ctx2 = Some (ctx2\<lparr>queues := h\<rparr>)" "two_rings h [] []" by blast
  have fr: "patterns ctx2 = patterns ctx" "no_case ctx2 = no_case ctx" "num_state ctx2 = num_state ctx"
    "length (table ctx2) = length (table ctx)"
    using 3(2,3) 4(3) 5(3) by (simp_all add: goto_frame_def search_frame_def)
  with 5(2) tbl ne inw gw have "automaton (ctx2\<lparr>queues := h\<rparr>) ws ps"
    by (simp add: automaton_def searching_def goto_table_def filled_def linked_def)
  with 4(1) 5(1) 6 fr show ?thesis
    by (intro that [of ctx1 ctx2 "ctx2\<lparr>queues := h\<rparr>"]) (simp_all add: ctx0_def)
qed

lemma collecting_table:
  assumes col: "collecting ctx" and small: "unat (max_state ctx) < 2 ^ 31" and ms: "never_fails ms"
  defines "ctx' \<equiv> goto_function (init_table (ctx\<lparr>mallocs := ms\<rparr>))"
  shows "goto_table ctx' (states ctx)" and "goto_matches ctx' (states ctx) (patterns ctx)"
    and "goto_frame (init_table (ctx\<lparr>mallocs := ms\<rparr>)) ctx'"
proof -
  let ?ps = "patterns ctx" and ?ctx = "init_table (ctx\<lparr>mallocs := ms\<rparr>)"
  have num: "num_state ctx = 0" and max: "unat (max_state ctx) = 1 + sum_list (map pat_len ?ps)"
    and pok: "\<And>p. p \<in> set ?ps \<Longrightarrow> pattern_ok p"
    using col by (auto simp: collecting_def)
  have 1: "goto_table ?ctx [[]]" "goto_matches ?ctx [[]] []"
    using init_table_ok [of "ctx\<lparr>mallocs := ms\<rparr>"] small num max by auto
  have "sum_list (map (length \<circ> pat_chars) ?ps) = sum_list (map pat_len ?ps)"
    by (intro arg_cong [of _ _ sum_list] map_cong) (use pok pat_chars_ok in auto)
  then have room: "length [[]::u8 list] + sum_list (map (length \<circ> pat_chars) ?ps) \<le> length (table ?ctx)"
    using max by simp
  show "goto_table ctx' (states ctx)" "goto_matches ctx' (states ctx) ?ps" "goto_frame ?ctx ctx'"
    using goto_function_ok [OF 1 _ room] ms by (simp_all add: ctx'_def goto_function_def states_def)
qed

lemma acsm_compile_ok:
  assumes col: "collecting ctx" and small: "unat (max_state ctx) < 2 ^ 31"
  shows "\<exists>ctx'. acsm_compile ctx = Some (0, ctx') \<and> compiled ctx' \<and>
    patterns ctx' = patterns ctx \<and> no_case ctx' = no_case ctx \<and> two_rings (queues ctx') [] [] \<and>
    length (table ctx') = unat (max_state ctx)"
proof -
  have nf: "never_fails (mallocs ctx)" and rings: "two_rings (queues ctx) [] []"
    and pok: "\<forall>p\<in>set (patterns ctx). pattern_ok p"
    using col by (auto simp: collecting_def)
  obtain ms where m: "acsm_malloc ctx = (True, ctx\<lparr>mallocs := ms\<rparr>)" and ms: "never_fails ms"
    by (rule acsm_malloc_never_fails [OF nf])
  define ctx2 where "ctx2 = goto_function (init_table (ctx\<lparr>mallocs := ms\<rparr>))"
  note tbl = collecting_table [OF col small ms, folded ctx2_def]
  have fr: "patterns ctx2 = patterns ctx" "no_case ctx2 = no_case ctx" "never_fails (mallocs ctx2)"
    "two_rings (queues ctx2) [] []" "length (table ctx2) = unat (max_state ctx)"
    using tbl(3) ms rings by (simp_all add: goto_frame_def)
  have ne: "\<forall>p\<in>set (patterns ctx). pat_chars p \<noteq> []" using pok pat_chars_ok by blast
  obtain ctx4 ctx5 ctx' where
    s: "enqueue_depth1 ascii_table (fold root_edge ascii_table ctx2) = (0, ctx4)"
      "failure_function ctx4 = Some ctx5" "acsm_free_state ctx5 = Some ctx'"
      "automaton ctx' (states ctx) (patterns ctx)" "two_rings (queues ctx') [] []"
      "patterns ctx' = patterns ctx2" "no_case ctx' = no_case ctx2"
      "length (table ctx') = length (table ctx2)"
    by (rule search_phase_ok [OF tbl(1,2) fr(3,4) ne])
  then have "acsm_compile ctx = Some (0, ctx')"
    using m by (simp add: acsm_compile_def ctx2_def [symmetric])
  with s fr pok show ?thesis by (auto simp: compiled_def states_def)
qed

section \<open>Search\<close>

lemma automaton_edge:
  assumes "automaton ctx ws ps"
  shows "follow_fail ctx (state_of ws (longest ws u)) c = Some (state_of ws (longest ws u))"
    and "next_state (node ctx (state_of ws (longest ws u))) c = state_of ws (longest ws (u @ [c]))"
proof -
  have gw: "good_words ws" using assms by (simp add: automaton_def)
  have "longest ws u \<in> set ws" by (rule longest_in_words [OF gw])
  then have "filled ctx ws (longest ws u)" using assms by (simp add: automaton_def)
  moreover have "longest ws (u @ [c]) = longest ws (longest ws u @ [c])"
    by (rule longest_in_snoc) (use gw good_words_Nil good_words_def in \<open>blast+\<close>)
  ultimately show *: "next_state (node ctx (state_of ws (longest ws u))) c =
      state_of ws (longest ws (u @ [c]))"
    by (simp add: filled_def)
  show "follow_fail ctx (state_of ws (longest ws u)) c = Some (state_of ws (longest ws u))"
    by (subst follow_fail.simps) (simp add: * ACSM_FAIL_STATE_def)
qed

lemma automaton_match:
  assumes "automaton ctx ws ps"
  shows "match_list (node ctx (state_of ws (longest ws u))) \<noteq> [] \<longleftrightarrow>
    (\<exists>p\<in>set ps. suffix (pat_chars p) u)"
proof -
  let ?v = "longest ws u"
  have gw: "good_words ws" using assms by (simp add: automaton_def)
  have "linked ctx ws ps ?v"
    using assms longest_in_words [OF gw] by (simp add: automaton_def)
  moreover have "suffix (pat_chars p) ?v \<longleftrightarrow> suffix (pat_chars p) u" if "p \<in> set ps" for p
    using assms that longest_in_greatest [of "\<lambda>v. v \<in> set ws" "pat_chars p" u]
      longest_in_suffix [of "\<lambda>v. v \<in> set ws" u] suffix_order.trans
    by (auto simp: automaton_def)
  ultimately have "set (match_list (node ctx (state_of ws ?v))) = {p \<in> set ps. suffix (pat_chars p) u}"
    by (auto simp: linked_def)
  then show ?thesis by (auto simp flip: set_empty)
qed

text \<open>A word of \<open>P\<close> ends inside \<open>cs\<close> when \<open>cs\<close> is read after \<open>u\<close>.\<close>

definition ends_in :: "u8 list set \<Rightarrow> u8 list \<Rightarrow> u8 list \<Rightarrow> bool" where
  "ends_in P u cs \<longleftrightarrow> (\<exists>p\<in>P. \<exists>x y. cs = x @ y \<and> x \<noteq> [] \<and> suffix p (u @ x))"

lemma ends_in_Nil [simp]: "\<not> ends_in P u []"
  by (simp add: ends_in_def)

lemma ends_in_Cons:
  "ends_in P u (c # cs) \<longleftrightarrow> (\<exists>p\<in>P. suffix p (u @ [c])) \<or> ends_in P (u @ [c]) cs" (is "?l \<longleftrightarrow> ?r")
proof
  assume ?l
  then obtain p x y where xy: "p \<in> P" "c # cs = x @ y" "x \<noteq> []" "suffix p (u @ x)"
    unfolding ends_in_def by blast
  then obtain x' where x': "x = c # x'" "cs = x' @ y" by (cases x) auto
  show ?r
  proof (cases "x' = []")
    case False
    with xy x' have "cs = x' @ y \<and> x' \<noteq> [] \<and> suffix p ((u @ [c]) @ x')" by simp
    with xy(1) show ?thesis unfolding ends_in_def by blast
  qed (use xy x' in auto)
next
  assume ?r
  then show ?l
  proof
    assume "\<exists>p\<in>P. suffix p (u @ [c])"
    moreover have "c # cs = [c] @ cs \<and> [c] \<noteq> []" by simp
    ultimately show ?l unfolding ends_in_def by blast
  next
    assume "ends_in P (u @ [c]) cs"
    then obtain p x y where xy: "p \<in> P" "cs = x @ y" "suffix p ((u @ [c]) @ x)"
      unfolding ends_in_def by blast
    then have "c # cs = (c # x) @ y \<and> c # x \<noteq> [] \<and> suffix p (u @ c # x)" by simp
    with xy(1) show ?l unfolding ends_in_def by blast
  qed
qed

lemma ends_in_sublist:
  assumes "[] \<notin> P"
  shows "ends_in P [] cs \<longleftrightarrow> (\<exists>p\<in>P. sublist p cs)"
proof
  assume "ends_in P [] cs"
  then obtain p x y zs where "p \<in> P" "cs = x @ y" "x = zs @ p"
    unfolding ends_in_def suffix_def append_Nil by blast
  then have "p \<in> P \<and> cs = zs @ p @ y" by simp
  then show "\<exists>p\<in>P. sublist p cs" unfolding sublist_def by blast
next
  assume "\<exists>p\<in>P. sublist p cs"
  then obtain p a b where p: "p \<in> P" "cs = a @ p @ b" unfolding sublist_def by blast
  with assms have "p \<noteq> []" by blast
  with p have "cs = (a @ p) @ b \<and> a @ p \<noteq> [] \<and> suffix p ([] @ a @ p)" by (simp add: suffix_def)
  with p(1) show "ends_in P [] cs" unfolding ends_in_def by blast
qed

lemma search_from_ok:
  assumes "automaton ctx ws ps"
  shows "search_from ctx (state_of ws (longest ws u)) cs =
    Some (if ends_in (pat_chars ` set ps) u (map (acsm_fold_char ctx) cs) then 1 else 0)"
proof (induction cs arbitrary: u)
  case (Cons c cs)
  let ?c = "acsm_fold_char ctx c"
  show ?case
    using automaton_edge [OF assms, of u ?c] automaton_match [OF assms, of "u @ [?c]"]
      Cons.IH [of "u @ [?c]"]
    by (simp add: ends_in_Cons Let_def del: suffix_snoc)
qed simp

lemma acsm_search_ok:
  assumes "automaton ctx ws ps"
  shows "acsm_search ctx txt =
    Some (if \<exists>p\<in>set ps. sublist (pat_chars p) (map (acsm_fold_char ctx) txt) then 1 else 0)"
proof -
  have "good_words ws" using assms by (simp add: automaton_def)
  then have "state_of ws (longest ws []) = 0"
    by (cases ws) (auto simp: good_words_def)
  moreover have "[] \<notin> pat_chars ` set ps"
    using assms by (force simp: automaton_def)
  ultimately show ?thesis
    using search_from_ok [OF assms, of "[]" "txt"] by (simp add: acsm_search_def ends_in_sublist)
qed

section \<open>Building a matcher\<close>

text \<open>What a client does: add whole strings.\<close>

definition add_patterns :: "u8 list list \<Rightarrow> acsm_context \<Rightarrow> acsm_context" where
  "add_patterns ss ctx = fold (\<lambda>s ctx. snd (acsm_add_pattern ctx s (length s))) ss ctx"

definition fold_char :: "u32 \<Rightarrow> u8 \<Rightarrow> u8" where
  "fold_char flag c = (if c_bool (and flag NO_CASE) then acsm_tolower c else c)"

lemma acsm_alloc_collecting:
  assumes "acsm_alloc flag ms = Some ctx" and "never_fails ms"
  shows "collecting ctx" and "patterns ctx = []" and "acsm_fold_char ctx = fold_char flag"
    and "max_state ctx = 1"
  using assms two_rings_init alloc_next_never_fails [OF assms(2)]
  by (auto simp: acsm_alloc_def collecting_def acsm_fold_char_def fold_char_def fun_eq_iff
      split: prod.splits if_splits)

lemma acsm_add_pattern_ok:
  assumes col: "collecting ctx" and s: "s \<noteq> []"
    and small: "unat (max_state ctx) + length s < 2 ^ 31"
  obtains ctx' p where "acsm_add_pattern ctx s (length s) = (0, ctx')" and "collecting ctx'"
    and "patterns ctx' = p # patterns ctx" and "pat_chars p = map (acsm_fold_char ctx) s"
    and "unat (max_state ctx') = unat (max_state ctx) + length s" and "no_case ctx' = no_case ctx"
proof -
  have nf: "never_fails (mallocs ctx)" using col by (simp add: collecting_def)
  obtain ms where m: "acsm_malloc ctx = (True, ctx\<lparr>mallocs := ms\<rparr>)" and ms: "never_fails ms"
    by (rule acsm_malloc_never_fails [OF nf])
  from ms have "never_fails (mallocs (ctx\<lparr>mallocs := ms\<rparr>))" by simp
  then obtain ms' where m': "acsm_malloc (ctx\<lparr>mallocs := ms\<rparr>) = (True, ctx\<lparr>mallocs := ms'\<rparr>)"
    and ms': "never_fails ms'"
    by (rule acsm_malloc_never_fails) auto
  have w: "unat (max_state ctx + of_nat (length s)) = unat (max_state ctx) + length s"
    using small by (simp add: unat_word_ariths unat_of_nat)
  have mp: "map (\<lambda>i. acsm_fold_char c (s ! i)) [0..<length s] = map (acsm_fold_char c) s" for c
    by (rule nth_equalityI) auto
  have fc: "acsm_fold_char (ctx\<lparr>mallocs := ms'\<rparr>) = acsm_fold_char ctx"
    by (simp add: acsm_fold_char_def fun_eq_iff)
  let ?p = "\<lparr>pat_string = Some (map (acsm_fold_char ctx) s), pat_len = length s\<rparr>"
  let ?ctx = "ctx\<lparr>mallocs := ms', patterns := ?p # patterns ctx,
    max_state := max_state ctx + of_nat (length s)\<rparr>"
  have "acsm_add_pattern ctx s (length s) = (0, ?ctx)"
    using s m m' by (simp add: acsm_add_pattern_def mp fc)
  moreover have "collecting ?ctx"
    using col s ms' w by (simp add: collecting_def pattern_ok_def)
  ultimately show ?thesis using w by (intro that [of ?ctx ?p]) (simp_all add: pat_chars_def)
qed

lemma add_patterns_ok:
  assumes "collecting ctx" and "[] \<notin> set ss"
    and "unat (max_state ctx) + sum_list (map length ss) < 2 ^ 31"
  shows "collecting (add_patterns ss ctx) \<and> main_add ctx ss = (True, add_patterns ss ctx) \<and>
    map pat_chars (patterns (add_patterns ss ctx)) =
      rev (map (map (acsm_fold_char ctx)) ss) @ map pat_chars (patterns ctx) \<and>
    unat (max_state (add_patterns ss ctx)) = unat (max_state ctx) + sum_list (map length ss) \<and>
    no_case (add_patterns ss ctx) = no_case ctx"
  using assms
proof (induction ss arbitrary: ctx)
  case Nil
  then show ?case by (simp add: add_patterns_def)
next
  case (Cons s ss)
  from Cons.prems have pre: "s \<noteq> []" "unat (max_state ctx) + length s < 2 ^ 31" by auto
  obtain ctx1 p where 1: "acsm_add_pattern ctx s (length s) = (0, ctx1)" "collecting ctx1"
    "patterns ctx1 = p # patterns ctx" "pat_chars p = map (acsm_fold_char ctx) s"
    "unat (max_state ctx1) = unat (max_state ctx) + length s" "no_case ctx1 = no_case ctx"
    by (rule acsm_add_pattern_ok [OF Cons.prems(1) pre])
  have "acsm_fold_char ctx1 = acsm_fold_char ctx" using 1(6) by (simp add: acsm_fold_char_def fun_eq_iff)
  moreover have "add_patterns (s # ss) ctx = add_patterns ss ctx1" using 1 by (simp add: add_patterns_def)
  ultimately show ?case
    using 1 Cons.prems Cons.IH [of ctx1] by (simp add: add.assoc)
qed

lemma matcher_ok:
  assumes "acsm_alloc flag ms = Some ctx0" and "never_fails ms" and "[] \<notin> set ss"
    and "sum_list (map length ss) + 1 < 2 ^ 31"
  obtains ctx where "acsm_compile (add_patterns ss ctx0) = Some (0, ctx)" and "compiled ctx"
    and "acsm_fold_char ctx = fold_char flag" and "two_rings (queues ctx) [] []"
    and "length (table ctx) = sum_list (map length ss) + 1"
    and "map pat_chars (patterns ctx) = rev (map (map (fold_char flag)) ss)"
    and "main_add ctx0 ss = (True, add_patterns ss ctx0)"
proof -
  note al = acsm_alloc_collecting [OF assms(1,2)]
  from add_patterns_ok [OF al(1) assms(3)] al assms(4)
  have ad: "collecting (add_patterns ss ctx0)" "main_add ctx0 ss = (True, add_patterns ss ctx0)"
    "map pat_chars (patterns (add_patterns ss ctx0)) = rev (map (map (fold_char flag)) ss)"
    "unat (max_state (add_patterns ss ctx0)) = sum_list (map length ss) + 1"
    "unat (max_state (add_patterns ss ctx0)) < 2 ^ 31" "no_case (add_patterns ss ctx0) = no_case ctx0"
    by auto
  from acsm_compile_ok [OF ad(1,5)] obtain ctx where
    c: "acsm_compile (add_patterns ss ctx0) = Some (0, ctx)" "compiled ctx"
      "patterns ctx = patterns (add_patterns ss ctx0)"
      "no_case ctx = no_case (add_patterns ss ctx0)" "two_rings (queues ctx) [] []"
      "length (table ctx) = unat (max_state (add_patterns ss ctx0))" by blast
  have "acsm_fold_char ctx = fold_char flag"
    using c(4) ad(6) al(3) by (simp add: acsm_fold_char_def fun_eq_iff)
  with c ad show ?thesis by (intro that [OF c(1,2) _ c(5)]) auto
qed

section \<open>Release\<close>

lemma free_patterns_ok:
  "\<forall>p\<in>set ps. pattern_ok p \<Longrightarrow>
     free_patterns ps = Inr (concat (map (\<lambda>p. [PatString (pat_chars p), PatStruct p]) ps))"
  by (induction ps) (auto dest: pat_chars_ok)

lemma acsm_free_compiled:
  "compiled ctx \<Longrightarrow> acsm_free ctx =
     Inr (concat (map (\<lambda>i. map (MatchCopy i) (match_list (node ctx (int i)))) [0..<length (states ctx)]) @
          concat (map (\<lambda>p. [PatString (pat_chars p), PatStruct p]) (patterns ctx)) @
          [StateTable, Context])"
proof -
  assume c: "compiled ctx"
  then obtain tbl where tbl: "state_table ctx = Some tbl" by (auto simp: compiled_def automaton_def)
  have "Suc (unat (num_state ctx)) = length (states ctx)"
    using c by (cases "states ctx") (auto simp: compiled_def automaton_def good_words_def)
  then show ?thesis
    using c tbl free_patterns_ok [of "patterns ctx"]
    by (simp add: acsm_free_def free_matches_def node_def compiled_def automaton_def del: upt_Suc)
qed

section \<open>Properties\<close>

text \<open>
  C2: After \<open>acsm_alloc\<close>, any number of \<open>acsm_add_pattern\<close> of nonempty strings and
  \<open>acsm_compile\<close>, with no allocation failing, \<open>acsm_search\<close> ends on every text and answers 1
  exactly when one of the patterns occurs in it, both folded to lower case when the context was
  created with \<open>NO_CASE\<close>.
\<close>

theorem acsm_finds_patterns:
  assumes "acsm_alloc flag ms = Some ctx0" and "never_fails ms" and "[] \<notin> set ss"
    and "sum_list (map length ss) + 1 < 2 ^ 31"
  shows "\<exists>ctx. acsm_compile (add_patterns ss ctx0) = Some (0, ctx) \<and>
    (\<forall>txt. acsm_search ctx txt =
      Some (if \<exists>s\<in>set ss. sublist (map (fold_char flag) s) (map (fold_char flag) txt)
            then 1 else 0))"
proof -
  obtain ctx where c: "acsm_compile (add_patterns ss ctx0) = Some (0, ctx)" "compiled ctx"
    "acsm_fold_char ctx = fold_char flag"
    "map pat_chars (patterns ctx) = rev (map (map (fold_char flag)) ss)"
    by (rule matcher_ok [OF assms])
  from arg_cong [OF c(4), of set]
  have "pat_chars ` set (patterns ctx) = map (fold_char flag) ` set ss" by simp
  then have "(\<exists>v\<in>pat_chars ` set (patterns ctx). sublist v t) \<longleftrightarrow>
      (\<exists>v\<in>map (fold_char flag) ` set ss. sublist v t)" for t
    by simp
  then have "(\<exists>p\<in>set (patterns ctx). sublist (pat_chars p) t) \<longleftrightarrow>
      (\<exists>s\<in>set ss. sublist (map (fold_char flag) s) t)" for t
    by (simp only: bex_simps)
  with c acsm_search_ok show ?thesis by (auto simp: compiled_def)
qed

theorem acsm_finds_patterns_witness:
  "\<exists>ctx. acsm_compile (add_patterns [[72, 101], [104, 105, 115]]
      (the (acsm_alloc NO_CASE [True, True]))) = Some (0, ctx) \<and>
    (\<forall>txt. acsm_search ctx txt =
      Some (if \<exists>s\<in>set [[72, 101], [104, 105, 115]].
              sublist (map (fold_char NO_CASE) s) (map (fold_char NO_CASE) txt) then 1 else 0))"
  by (rule acsm_finds_patterns [of _ "[True, True]"]) (simp_all add: acsm_alloc_def never_fails_def)

text \<open>
  C15: The table of a compiled context is the deterministic automaton of its patterns. State \<open>i\<close>
  stands for the \<open>i\<close>-th prefix \<open>ws ! i\<close> of the patterns; the entry for a letter leads to the
  longest suffix of the extended word that is a prefix of a pattern, so every entry is a state of
  the table; the fail state is the longest proper suffix; the match list holds the patterns that
  end there; and the states fit in the \<open>max_state\<close> entries that were allocated.
\<close>

theorem acsm_compile_automaton:
  assumes "acsm_alloc flag ms = Some ctx0" and "never_fails ms" and "[] \<notin> set ss"
    and "sum_list (map length ss) + 1 < 2 ^ 31"
  defines "ws \<equiv> trie_words [[]] (rev (map (map (fold_char flag)) ss))"
  shows "\<exists>ctx. acsm_compile (add_patterns ss ctx0) = Some (0, ctx) \<and>
    unat (num_state ctx) + 1 = length ws \<and> length ws \<le> length (the (state_table ctx)) \<and>
    length (the (state_table ctx)) = sum_list (map length ss) + 1 \<and>
    (\<forall>i<length ws.
      (\<forall>c. next_state (node ctx (int i)) c = int (index_of ws (longest ws (ws ! i @ [c]))) \<and>
           next_state (node ctx (int i)) c < int (length ws)) \<and>
      fail_state (node ctx (int i)) = int (index_of ws (longest ws (tl (ws ! i)))) \<and>
      pat_chars ` set (match_list (node ctx (int i))) =
        {p \<in> map (fold_char flag) ` set ss. suffix p (ws ! i)})"
proof -
  obtain ctx where c: "acsm_compile (add_patterns ss ctx0) = Some (0, ctx)" "compiled ctx"
    "length (table ctx) = sum_list (map length ss) + 1"
    "map pat_chars (patterns ctx) = rev (map (map (fold_char flag)) ss)"
    by (rule matcher_ok [OF assms(1-4)])
  have "states ctx = ws" by (simp add: states_def c(4) ws_def)
  with c(2) have au: "automaton ctx ws (patterns ctx)" by (simp add: compiled_def)
  then have gw: "good_words ws" by (simp add: automaton_def)
  have ps: "pat_chars ` set (patterns ctx) = map (fold_char flag) ` set ss"
    using arg_cong [OF c(4), of set] by simp
  have "0 < length ws" using gw by (auto simp: good_words_def)
  with au have "unat (num_state ctx) + 1 = length ws" by (simp add: automaton_def)
  moreover have "next_state (node ctx (int i)) c = int (index_of ws (longest ws (ws ! i @ [c])))"
    "next_state (node ctx (int i)) c < int (length ws)"
    "fail_state (node ctx (int i)) = int (index_of ws (longest ws (tl (ws ! i))))"
    "pat_chars ` set (match_list (node ctx (int i))) =
      {p \<in> map (fold_char flag) ` set ss. suffix p (ws ! i)}" if "i < length ws" for i c
  proof -
    have i: "ws ! i \<in> set ws" "index_of ws (ws ! i) = i"
      using that gw by (auto simp: index_of_nth good_words_def)
    then have fl: "filled ctx ws (ws ! i)" "linked ctx ws (patterns ctx) (ws ! i)"
      using au by (auto simp: automaton_def)
    then show "next_state (node ctx (int i)) c = int (index_of ws (longest ws (ws ! i @ [c])))"
      and "fail_state (node ctx (int i)) = int (index_of ws (longest ws (tl (ws ! i))))"
      and "pat_chars ` set (match_list (node ctx (int i))) =
        {p \<in> map (fold_char flag) ` set ss. suffix p (ws ! i)}"
      by (auto simp: filled_def linked_def i(2) simp flip: ps)
    with index_of_less [OF longest_in_words [OF gw]]
    show "next_state (node ctx (int i)) c < int (length ws)" by simp
  qed
  ultimately show ?thesis
    using c(1,3) au by (auto simp: automaton_def table_def)
qed

theorem acsm_compile_automaton_witness:
  "\<exists>ctx. acsm_compile (add_patterns [[104, 101]] (the (acsm_alloc 0 []))) = Some (0, ctx) \<and>
    unat (num_state ctx) = 2"
  using acsm_compile_automaton [of 0 "[]" "the (acsm_alloc 0 [])" "[[104, 101]]"]
  by (auto simp: acsm_alloc_def fold_char_def)

text \<open>
  The work queue, two rings of linked nodes with a free list, is a first-in first-out queue:
  after pushing the states \<open>xs\<close> on an empty queue, popping as many returns \<open>xs\<close> in order and
  leaves it empty.
\<close>

theorem acsm_queue_fifo:
  fixes xs :: "int list"
  assumes "queue_holds ctx []" and "never_fails (mallocs ctx)"
  defines "ctx' \<equiv> fold (\<lambda>x ctx. snd (acsm_add_state ctx x)) xs ctx"
  shows "fst (pops acsm_next_state (length xs) ctx') = xs \<and>
    acsm_queue_empty work_queue (queues (snd (pops acsm_next_state (length xs) ctx')))"
  unfolding ctx'_def by (rule wq.first_in_first_out [OF assms(1,2)])

theorem acsm_queue_fifo_witness:
  "fst (pops acsm_next_state (length [5, 7, 6]) (fold (\<lambda>x ctx. snd (acsm_add_state ctx x)) [5, 7, 6]
     (the (acsm_alloc 0 [])))) = [5, 7, 6]"
  using acsm_queue_fifo [of "the (acsm_alloc 0 [])" "[5, 7, 6]"]
    queue_holdsI [of "the (acsm_alloc 0 [])" "[]" "[]" "[]"] two_rings_init
  by (simp add: acsm_alloc_def)

text \<open>When \<open>acsm_compile\<close> returns, every node of the work queue has been given to \<open>free\<close>.\<close>

theorem acsm_compile_frees_queue:
  assumes "acsm_alloc flag ms = Some ctx0" and "never_fails ms" and "[] \<notin> set ss"
    and "sum_list (map length ss) + 1 < 2 ^ 31"
  shows "\<exists>ctx. acsm_compile (add_patterns ss ctx0) = Some (0, ctx) \<and> (\<forall>q. \<not> alive (queues ctx) q)"
  by (rule matcher_ok [OF assms]) (auto simp: two_rings_def)

theorem acsm_compile_frees_queue_witness:
  "\<exists>ctx. acsm_compile (add_patterns [[104, 101]] (the (acsm_alloc 0 []))) = Some (0, ctx) \<and>
    (\<forall>q. \<not> alive (queues ctx) q)"
  by (rule acsm_compile_frees_queue [of 0 "[]"]) (simp_all add: acsm_alloc_def)

text \<open>
  \<open>acsm_free\<close> of a compiled context releases the match copies of every state, the string and
  the structure of every pattern, the state table and the context, and faults nowhere.
\<close>

theorem acsm_free_releases_all:
  assumes "acsm_alloc flag ms = Some ctx0" and "never_fails ms" and "[] \<notin> set ss"
    and "sum_list (map length ss) + 1 < 2 ^ 31"
  shows "\<exists>ctx ws. acsm_compile (add_patterns ss ctx0) = Some (0, ctx) \<and>
    ws = trie_words [[]] (rev (map (map (fold_char flag)) ss)) \<and>
    acsm_free ctx =
      Inr (concat (map (\<lambda>i. map (MatchCopy i) (match_list (node ctx (int i)))) [0..<length ws]) @
           concat (map (\<lambda>p. [PatString (pat_chars p), PatStruct p]) (patterns ctx)) @
           [StateTable, Context])"
proof -
  obtain ctx where c: "acsm_compile (add_patterns ss ctx0) = Some (0, ctx)" "compiled ctx"
    "map pat_chars (patterns ctx) = rev (map (map (fold_char flag)) ss)"
    by (rule matcher_ok [OF assms])
  with acsm_free_compiled [OF c(2)] show ?thesis by (simp add: states_def)
qed

theorem acsm_free_releases_all_witness:
  "\<exists>ctx. acsm_compile (add_patterns [[104, 101]] (the (acsm_alloc 0 []))) = Some (0, ctx) \<and>
    (\<exists>bs. acsm_free ctx = Inr bs)"
  using acsm_free_releases_all [of 0 "[]" "the (acsm_alloc 0 [])" "[[104, 101]]"]
  by (auto simp: acsm_alloc_def)

text \<open>The test program prints \<open>match!\<close> and exits with 0 whenever no allocation fails.\<close>

theorem acsm_main_matches:
  assumes "never_fails ms"
  shows "acsm_main ms = Some (Inr (0, [''match!'']))"
proof -
  let ?ss = "map u_chars test_patterns"
  obtain ctx0 where a: "acsm_alloc NO_CASE ms = Some ctx0"
    using alloc_next_never_fails [OF assms] by (simp add: acsm_alloc_def case_prod_beta)
  have ss: "[] \<notin> set ?ss" "sum_list (map length ?ss) + 1 < 2 ^ 31"
    by (simp_all add: u_chars_def test_patterns_def)
  obtain ctx where c: "acsm_compile (add_patterns ?ss ctx0) = Some (0, ctx)" "compiled ctx"
    "acsm_fold_char ctx = fold_char NO_CASE"
    "map pat_chars (patterns ctx) = rev (map (map (fold_char NO_CASE)) ?ss)"
    "main_add ctx0 ?ss = (True, add_patterns ?ss ctx0)"
    by (rule matcher_ok [OF a assms ss])
  have he: "map (fold_char NO_CASE) (u_chars ''he'') \<in> pat_chars ` set (patterns ctx)"
    using arg_cong [OF c(4), of set] by (simp add: test_patterns_def)
  obtain x y where tt: "test_text = x @ ''he'' @ y"
  proof
    show "test_text = ''In t'' @ ''he'' @ drop 6 test_text" by (simp add: test_text_def)
  qed
  have "map (fold_char NO_CASE) (u_chars test_text) =
      map (fold_char NO_CASE) (u_chars x) @ map (fold_char NO_CASE) (u_chars ''he'') @
      map (fold_char NO_CASE) (u_chars y)"
    by (subst tt) (simp add: u_chars_def)
  then have "sublist (map (fold_char NO_CASE) (u_chars ''he'')) (map (fold_char NO_CASE) (u_chars test_text))"
    unfolding sublist_def by blast
  with he have "\<exists>p\<in>set (patterns ctx).
      sublist (pat_chars p) (map (fold_char NO_CASE) (u_chars test_text))"
    by (auto simp del: sublist_Cons_right)
  moreover have "automaton ctx (states ctx) (patterns ctx)" using c(2) by (simp add: compiled_def)
  ultimately have "acsm_search ctx (u_chars test_text) = Some 1"
    by (simp add: acsm_search_ok c(3))
  with a c acsm_free_compiled [OF c(2)] show ?thesis by (simp add: acsm_main_def)
qed

theorem acsm_main_matches_witness: "acsm_main [True] = Some (Inr (0, [''match!'']))"
  by (rule acsm_main_matches) (simp add: never_fails_def)

text \<open>
  \<open>acsm_free\<close> is only valid after a compilation of nonempty patterns: before it the state
  table is null and \<open>state_table[0]\<close> is read through it, and a pattern added with length 0 makes
  it give an unassigned pointer to \<open>free\<close>, whatever the table is.
\<close>

theorem acsm_free_faults:
  "(state_table ctx = None \<longrightarrow> acsm_free (snd (acsm_add_pattern ctx s n)) = Inl NullStateTable) \<and>
   (state_table ctx \<noteq> None \<longrightarrow> fst (acsm_add_pattern ctx s 0) = 0 \<longrightarrow>
      acsm_free (snd (acsm_add_pattern ctx s 0)) = Inl UninitString)"
  by (auto simp: acsm_add_pattern_def acsm_free_def acsm_malloc_def split: prod.splits if_splits)

theorem acsm_free_faults_witness:
  "acsm_free (snd (acsm_add_pattern (the (acsm_alloc 0 [])) [104] 1)) = Inl NullStateTable \<and>
   acsm_free (snd (acsm_add_pattern (init_table (the (acsm_alloc 0 []))) [] 0)) = Inl UninitString"
  using acsm_free_faults [of "the (acsm_alloc 0 [])" "[104]" 1]
    acsm_free_faults [of "init_table (the (acsm_alloc 0 []))" "[]" 0]
  by (simp add: acsm_alloc_def init_table_def acsm_add_pattern_def acsm_malloc_def)

text \<open>
  \<open>acsm_compile\<close> ignores the return code of \<open>acsm_state_add_match_pattern\<close>. With one
  pattern, when only the allocation of its match copy fails (the fifth of the run), it still
  reports success, and the matcher then finds the pattern in no text, not even in itself.
\<close>

theorem acsm_compile_loses_match:
  assumes "s \<noteq> []" and "length s + 1 < 2 ^ 31"
    and "acsm_alloc flag [True, True, True, True, False] = Some ctx0"
  shows "\<exists>ctx. acsm_compile (snd (acsm_add_pattern ctx0 s (length s))) = Some (0, ctx) \<and>
    (\<forall>txt. acsm_search ctx txt = Some 0)"
proof -
  define f where "f = acsm_fold_char ctx0"
  define p where "p = \<lparr>pat_string = Some (map f s), pat_len = length s\<rparr>"
  have mp: "map (\<lambda>i. f (s ! i)) [0..<length s] = map f s"
    by (rule nth_equalityI) auto
  have fc: "acsm_fold_char (ctx0\<lparr>mallocs := ms\<rparr>) = f" for ms
    by (simp add: f_def acsm_fold_char_def fun_eq_iff)
  have c0: "mallocs ctx0 = [True, True, True, False]" "patterns ctx0 = []" "num_state ctx0 = 0"
    "max_state ctx0 = 1" "two_rings (queues ctx0) [] []"
    using assms(3) two_rings_init by (auto simp: acsm_alloc_def)
  define ctx1 where "ctx1 = ctx0\<lparr>mallocs := [True, False], patterns := [p], max_state := 1 + of_nat (length s)\<rparr>"
  have add: "snd (acsm_add_pattern ctx0 s (length s)) = ctx1"
    using assms(1) c0 by (simp add: acsm_add_pattern_def acsm_malloc_def mp fc ctx1_def p_def)
  have chars: "pat_chars p = map f s" by (simp add: pat_chars_def p_def)
  have max: "unat (max_state ctx1) = 1 + length s"
    using assms(2) by (simp add: ctx1_def unat_word_ariths unat_of_nat)
  define ctx2 where "ctx2 = init_table (ctx1\<lparr>mallocs := [False]\<rparr>)"
  have 2: "goto_table ctx2 [[]]" "goto_matches ctx2 [[]] []" "mallocs ctx2 = [False]"
    "length [[]::u8 list] + length (pat_chars p) \<le> length (table ctx2)"
    unfolding ctx2_def using init_table_ok [of "ctx1\<lparr>mallocs := [False]\<rparr>"] max assms(2) c0 chars
    by (simp_all add: ctx1_def)
  define ctx3 where "ctx3 = goto_function ctx2"
  define ws where "ws = [[]] @ filter (\<lambda>v. v \<notin> set [[]]) (prefixes (pat_chars p))"
  have 3: "goto_table ctx3 ws" "goto_matches ctx3 ws []" "never_fails (mallocs ctx3)"
    "two_rings (queues ctx3) [] []"
    using goto_pattern_lost [OF 2] c0
    by (simp_all add: ws_def ctx3_def goto_function_def ctx2_def ctx1_def)
  obtain ctx4 ctx5 ctx where 4:
    "enqueue_depth1 ascii_table (fold root_edge ascii_table ctx3) = (0, ctx4)"
    "failure_function ctx4 = Some ctx5" "acsm_free_state ctx5 = Some ctx" "automaton ctx ws []"
    by (rule search_phase_ok [OF 3]) auto
  have "acsm_malloc ctx1 = (True, ctx1\<lparr>mallocs := [False]\<rparr>)"
    by (simp add: acsm_malloc_def ctx1_def)
  with 4 have "acsm_compile ctx1 = Some (0, ctx)"
    by (simp add: acsm_compile_def ctx2_def [symmetric] ctx3_def [symmetric])
  moreover have "acsm_search ctx t = Some 0" for t
    using acsm_search_ok [OF 4(4)] by simp
  ultimately show ?thesis using add by simp
qed

theorem acsm_compile_loses_match_witness:
  "\<exists>ctx. acsm_compile (snd (acsm_add_pattern (the (acsm_alloc 0 [True, True, True, True, False]))
     [104, 101] (length [104, 101 :: u8]))) = Some (0, ctx) \<and>
    (\<forall>txt. acsm_search ctx txt = Some 0)"
  by (rule acsm_compile_loses_match [of _ 0]) (simp_all add: acsm_alloc_def)

end
