(* ===== verification/BlockManager.thy ===== *)
theory BlockManager
  imports Prelude "HOL-Library.Tree" "HOL-Library.Monad_Syntax"
begin

text \<open>
  The free-block manager of \<open>src/debugfs/android50/kernel/fs/fat/fatent.c\<close> (everything under
  \<open>FAT_USE_BLOCK_MANAGER_WGZ\<close> before the FAT entry code): a tree of free cluster ranges ordered by
  start, ranges reserved for the file being written, merging of adjacent ranges and splitting of
  the longest one. Nodes live on an explicit heap, so that the pointers the code keeps
  (\<open>last_merged\<close> and the \<open>blocks_mamager_node\<close> of an inode) can dangle as they can in the source.
  Every operation runs under \<open>root_lock\<close>, which makes the operations atomic steps. An operation
  is a function to an option: \<open>None\<close> means that it reads freed memory or hits \<open>BUG_ON\<close>.

  The red-black tree is the library of the kernel and not part of the repository. It is a
  parameter \<open>rb_lib\<close>; what the code relies on is stated by \<open>rb_lib_ok\<close>: rebalancing after an
  insertion keeps the in-order sequence, erasing removes one node of it, and the navigation
  functions step along it. Cluster numbers are below \<open>2 ^ 28\<close>, so \<open>int\<close> arithmetic does not wrap.
\<close>

section \<open>State\<close>

record blocks_mamager =
  bm_start :: int
  bm_length :: int
  bm_inode :: "nat option"

text \<open>
  \<open>inode_node\<close> is the member \<open>blocks_mamager_node\<close> that the manager adds to the inode,
  \<open>inode_regular\<close> is \<open>S_ISREG\<close> of its mode. Inodes and nodes are named by numbers.
\<close>

record bm_state =
  start_root :: "nat tree"
  last_merged :: "nat option"
  rb_count :: int
  bm_heap :: "nat \<Rightarrow> blocks_mamager option"
  bm_brk :: nat
  inode_node :: "nat \<Rightarrow> nat option"
  inode_regular :: "nat \<Rightarrow> bool"
  bm_mallocs :: outcomes

record rb_lib =
  insert_color :: "nat \<Rightarrow> nat tree \<Rightarrow> nat tree"
  erase :: "nat \<Rightarrow> nat tree \<Rightarrow> nat tree"
  lib_next :: "nat \<Rightarrow> nat tree \<Rightarrow> nat option"
  lib_prev :: "nat \<Rightarrow> nat tree \<Rightarrow> nat option"
  lib_first :: "nat tree \<Rightarrow> nat option"

definition rb_lib_ok :: "rb_lib \<Rightarrow> bool" where
  "rb_lib_ok L \<longleftrightarrow>
     (\<forall>n t. inorder (insert_color L n t) = inorder t) \<and>
     (\<forall>n t. distinct (inorder t) \<longrightarrow> inorder (erase L n t) = removeAll n (inorder t)) \<and>
     (\<forall>t xs n ys. inorder t = xs @ n # ys \<longrightarrow> distinct (inorder t) \<longrightarrow>
        lib_next L n t = (if ys = [] then None else Some (hd ys)) \<and>
        lib_prev L n t = (if xs = [] then None else Some (last xs))) \<and>
     (\<forall>t. lib_first L t = (if inorder t = [] then None else Some (hd (inorder t))))"

definition bm_init :: "(nat \<Rightarrow> bool) \<Rightarrow> outcomes \<Rightarrow> bm_state" where
  "bm_init reg ms = \<lparr>start_root = Leaf, last_merged = None, rb_count = 0, bm_heap = (\<lambda>_. None),
     bm_brk = 0, inode_node = (\<lambda>_. None), inode_regular = reg, bm_mallocs = ms\<rparr>"

definition bm_put :: "nat \<Rightarrow> blocks_mamager \<Rightarrow> bm_state \<Rightarrow> bm_state" where
  "bm_put n nd st = st\<lparr>bm_heap := (bm_heap st)(n \<mapsto> nd)\<rparr>"

definition kfree :: "nat \<Rightarrow> bm_state \<Rightarrow> bm_state" where
  "kfree n st = st\<lparr>bm_heap := (bm_heap st)(n := None)\<rparr>"

definition set_inode_node :: "nat \<Rightarrow> nat option \<Rightarrow> bm_state \<Rightarrow> bm_state" where
  "set_inode_node i n st = st\<lparr>inode_node := (inode_node st)(i := n)\<rparr>"

section \<open>Tree operations\<close>

definition blocks_mamager_add_compare :: "bm_state \<Rightarrow> nat \<Rightarrow> nat \<Rightarrow> int option" where
  "blocks_mamager_add_compare st a b = do {
     first \<leftarrow> bm_heap st a;
     second \<leftarrow> bm_heap st b;
     Some (bm_start first - bm_start second)
   }"

text \<open>The descent of \<open>blocks_mamager_rb_add\<close> to the leaf where the node is linked.\<close>

fun rb_link :: "bm_state \<Rightarrow> nat \<Rightarrow> nat tree \<Rightarrow> nat tree option" where
  "rb_link st n Leaf = Some (Node Leaf n Leaf)"
| "rb_link st n (Node l p r) = do {
     c \<leftarrow> blocks_mamager_add_compare st n p;
     (if c < 0 then do { l \<leftarrow> rb_link st n l; Some (Node l p r) }
      else do { r \<leftarrow> rb_link st n r; Some (Node l p r) })
   }"

definition blocks_mamager_rb_add :: "rb_lib \<Rightarrow> nat \<Rightarrow> bm_state \<Rightarrow> bm_state option" where
  "blocks_mamager_rb_add L n st = do {
     t \<leftarrow> rb_link st n (start_root st);
     Some (st\<lparr>start_root := insert_color L n t, rb_count := rb_count st + 1\<rparr>)
   }"

text \<open>\<open>BUG_ON(RB_EMPTY_NODE(node))\<close>: the node must be linked.\<close>

definition blocks_mamager_rb_del :: "rb_lib \<Rightarrow> nat \<Rightarrow> bm_state \<Rightarrow> bm_state option" where
  "blocks_mamager_rb_del L n st =
     (if n \<notin> set_tree (start_root st) then None
      else Some (st\<lparr>start_root := erase L n (start_root st), rb_count := rb_count st - 1\<rparr>))"

definition blocks_mamager_try_merge ::
    "nat \<Rightarrow> int \<Rightarrow> int \<Rightarrow> bm_state \<Rightarrow> (int \<times> bm_state) option" where
  "blocks_mamager_try_merge n block_start count st = do {
     bf \<leftarrow> bm_heap st n;
     (if block_start = bm_start bf + bm_length bf then
        Some (0, bm_put n (bf\<lparr>bm_length := bm_length bf + count\<rparr>) st)
      else if block_start + count = bm_start bf then
        Some (0, bm_put n (bf\<lparr>bm_start := bm_start bf - count, bm_length := bm_length bf + count\<rparr>) st)
      else Some (block_start - bm_start bf, st))
   }"

fun merge_from :: "nat tree \<Rightarrow> int \<Rightarrow> int \<Rightarrow> bm_state \<Rightarrow> (nat option \<times> bm_state) option" where
  "merge_from Leaf start count st = Some (None, st)"
| "merge_from (Node l n r) start count st = do {
     (cr, st) \<leftarrow> blocks_mamager_try_merge n start count st;
     (if cr < 0 then merge_from l start count st
      else if cr > 0 then merge_from r start count st
      else Some (Some n, st))
   }"

definition blocks_mamager_merge :: "int \<Rightarrow> int \<Rightarrow> bm_state \<Rightarrow> (nat option \<times> bm_state) option" where
  "blocks_mamager_merge start count st = merge_from (start_root st) start count st"

section \<open>Merging neighbours\<close>

text \<open>
  \<open>absorb n nx\<close>: the end of \<open>try_back_merge\<close>, in which node \<open>n\<close> takes the blocks of its successor
  \<open>nx\<close> and the successor is freed.
\<close>

definition absorb :: "rb_lib \<Rightarrow> nat \<Rightarrow> nat \<Rightarrow> bm_state \<Rightarrow> (int \<times> bm_state) option" where
  "absorb L n nx st = do {
     current_bf \<leftarrow> bm_heap st n;
     next_bf \<leftarrow> bm_heap st nx;
     let st = bm_put n (current_bf\<lparr>bm_length := bm_length current_bf + bm_length next_bf\<rparr>) st;
     let st = st\<lparr>last_merged := Some n\<rparr>;
     st \<leftarrow> blocks_mamager_rb_del L nx st;
     Some (0, kfree nx st)
   }"

text \<open>
  When the successor is owned by an inode and the node is not, the code redirects the inode to the
  node, clears the owner of the successor, and then copies the cleared owner to the node.
\<close>

definition try_back_merge :: "rb_lib \<Rightarrow> nat option \<Rightarrow> bm_state \<Rightarrow> (int \<times> bm_state) option" where
  "try_back_merge L node st =
     (case node of
       None \<Rightarrow> Some (-1, st)
     | Some n \<Rightarrow>
         (case lib_next L n (start_root st) of
           None \<Rightarrow> Some (-1, st)
         | Some nx \<Rightarrow> do {
             current_bf \<leftarrow> bm_heap st n;
             next_bf \<leftarrow> bm_heap st nx;
             (if bm_start current_bf + bm_length current_bf \<noteq> bm_start next_bf then Some (-1, st)
              else
                (case bm_inode next_bf of
                  None \<Rightarrow> absorb L n nx st
                | Some i \<Rightarrow>
                    if bm_inode current_bf = None then
                      (let st = set_inode_node i (Some n) st;
                           next_bf = next_bf\<lparr>bm_inode := None\<rparr>;
                           st = bm_put nx next_bf st;
                           st = bm_put n (current_bf\<lparr>bm_inode := bm_inode next_bf\<rparr>) st
                       in absorb L n nx st)
                    else Some (-1, st)))
           }))"

definition try_front_merge :: "rb_lib \<Rightarrow> nat \<Rightarrow> bm_state \<Rightarrow> (int \<times> bm_state) option" where
  "try_front_merge L n st =
     (let st = st\<lparr>last_merged := Some n\<rparr> in
      if lib_prev L n (start_root st) = None then Some (-1, st)
      else do {
        (rc, st) \<leftarrow> try_back_merge L (lib_prev L n (start_root st)) st;
        Some (if rc \<noteq> 0 then -1 else 0, st)
      })"

section \<open>Giving blocks back\<close>

text \<open>The node returned is \<open>None\<close> when \<open>kzalloc\<close> fails.\<close>

definition new_blocks_mamager ::
    "rb_lib \<Rightarrow> int \<Rightarrow> int \<Rightarrow> bm_state \<Rightarrow> (nat option \<times> bm_state) option" where
  "new_blocks_mamager L start len st =
     (case alloc_next (bm_mallocs st) of (ok, ms) \<Rightarrow>
       (let st = st\<lparr>bm_mallocs := ms\<rparr> in
        if \<not> ok then Some (None, st)
        else
          (let n = bm_brk st;
               st = bm_put n \<lparr>bm_start = start, bm_length = len, bm_inode = None\<rparr>
                      (st\<lparr>bm_brk := Suc n\<rparr>)
           in do {
             st \<leftarrow> blocks_mamager_rb_add L n st;
             Some (Some n, st)
           })))"

definition blocks_mamager_free_blocks ::
    "rb_lib \<Rightarrow> int \<Rightarrow> int \<Rightarrow> bm_state \<Rightarrow> (nat option \<times> bm_state) option" where
  "blocks_mamager_free_blocks L block_start count st =
     (if count \<le> 0 then Some (None, st)
      else do {
        (merged_node, st) \<leftarrow>
          (case last_merged st of
            None \<Rightarrow> Some (None, st)
          | Some lm \<Rightarrow> do {
              (cr, st) \<leftarrow> blocks_mamager_try_merge lm block_start count st;
              Some (if cr = 0 then Some lm else None, st)
            });
        (merged_node, st) \<leftarrow>
          (if merged_node = None then blocks_mamager_merge block_start count st
           else Some (merged_node, st));
        (case merged_node of
          Some m \<Rightarrow> do {
            bm \<leftarrow> bm_heap st m;
            (_, st) \<leftarrow>
              (if bm_start bm = block_start then try_front_merge L m st
               else try_back_merge L (Some m) st);
            Some (Some m, st)
          }
        | None \<Rightarrow> new_blocks_mamager L block_start count st)
      })"

section \<open>Taking blocks\<close>

text \<open>\<open>BUG_ON(bm->length < count)\<close> is checked before the length is reduced.\<close>

definition blocks_mamager_alloc_blocks_priv ::
    "rb_lib \<Rightarrow> nat \<Rightarrow> nat \<Rightarrow> int \<Rightarrow> bm_state \<Rightarrow> (int \<times> bm_state) option" where
  "blocks_mamager_alloc_blocks_priv L n inode count st = do {
     bm \<leftarrow> bm_heap st n;
     let block_start = bm_start bm;
     (if bm_length bm < count then None
      else
        (let bm' = bm\<lparr>bm_start := bm_start bm + count, bm_length := bm_length bm - count\<rparr>;
             st = bm_put n bm' st
         in if bm_length bm' \<le> 0 then do {
              st \<leftarrow> blocks_mamager_rb_del L n (set_inode_node inode None st);
              Some (block_start, kfree n st)
            }
            else Some (block_start, st)))
   }"

definition blocks_mamager_split :: "rb_lib \<Rightarrow> nat \<Rightarrow> bm_state \<Rightarrow> (nat option \<times> bm_state) option" where
  "blocks_mamager_split L n st = do {
     node \<leftarrow> bm_heap st n;
     (if bm_length node < 2 then Some (None, st)
      else
        (let start = bm_length node div 2 + bm_start node;
             len = bm_length node - bm_length node div 2
         in do {
           (split_node, st) \<leftarrow>
             new_blocks_mamager L start len (bm_put n (node\<lparr>bm_length := bm_length node - len\<rparr>) st);
           Some (split_node, if split_node = None then bm_put n node st else st)
         }))
   }"

text \<open>The search for a free node that is long enough, remembering the longest of the others.\<close>

datatype bm_found = Found nat | Longest "nat option"

partial_function (option) find_blocks ::
    "rb_lib \<Rightarrow> int \<Rightarrow> bm_state \<Rightarrow> nat option \<Rightarrow> nat option \<Rightarrow> int \<Rightarrow> bm_found option" where
  "find_blocks L count st node max_node max_length =
     (case node of
       None \<Rightarrow> Some (Longest max_node)
     | Some n \<Rightarrow> do {
         bm \<leftarrow> bm_heap st n;
         (if bm_inode bm = None \<and> bm_length bm \<ge> count then Some (Found n)
          else if bm_length bm > max_length then
            find_blocks L count st (lib_next L n (start_root st)) (Some n) (bm_length bm)
          else find_blocks L count st (lib_next L n (start_root st)) max_node max_length)
       })"

declare find_blocks.simps [code]

definition reserve :: "nat \<Rightarrow> nat \<Rightarrow> bm_state \<Rightarrow> bm_state option" where
  "reserve inode n st =
     (if inode_regular st inode then do {
        bm \<leftarrow> bm_heap st n;
        Some (bm_put n (bm\<lparr>bm_inode := Some inode\<rparr>) (set_inode_node inode (Some n) st))
      }
      else Some st)"

definition blocks_mamager_alloc_blocks ::
    "rb_lib \<Rightarrow> nat \<Rightarrow> int \<Rightarrow> bm_state \<Rightarrow> (int \<times> bm_state) option" where
  "blocks_mamager_alloc_blocks L inode count st =
     (if inode_node st inode \<noteq> None \<and> inode_regular st inode then
        (let n = the (inode_node st inode) in do {
           bm \<leftarrow> bm_heap st n;
           (if bm_length bm < count then
              Some (-1, set_inode_node inode None (bm_put n (bm\<lparr>bm_inode := None\<rparr>) st))
            else blocks_mamager_alloc_blocks_priv L n inode count st)
         })
      else do {
        found \<leftarrow> find_blocks L count st (lib_first L (start_root st)) None 0;
        (case found of
          Found n \<Rightarrow> do {
            st \<leftarrow> reserve inode n st;
            blocks_mamager_alloc_blocks_priv L n inode count st
          }
        | Longest None \<Rightarrow> Some (-1, st)
        | Longest (Some max_node) \<Rightarrow> do {
            (split_node, st) \<leftarrow> blocks_mamager_split L max_node st;
            (case split_node of
              None \<Rightarrow> Some (-1, st)
            | Some n \<Rightarrow> do {
                bm \<leftarrow> bm_heap st n;
                (if bm_length bm \<ge> count * 2 + 1 then do {
                   st \<leftarrow> reserve inode n st;
                   blocks_mamager_alloc_blocks_priv L n inode count st
                 }
                 else Some (-1, st))
              })
          })
      })"

section \<open>Release\<close>

definition blocks_mamager_on_inode_release :: "rb_lib \<Rightarrow> nat \<Rightarrow> bm_state \<Rightarrow> bm_state option" where
  "blocks_mamager_on_inode_release L inode st =
     (case inode_node st inode of
       None \<Rightarrow> Some st
     | Some n \<Rightarrow>
         if \<not> inode_regular st inode then Some st
         else do {
           bm \<leftarrow> bm_heap st n;
           let st = set_inode_node inode None (bm_put n (bm\<lparr>bm_inode := None\<rparr>) st);
           (_, st) \<leftarrow> try_back_merge L (Some n) st;
           (_, st) \<leftarrow> try_front_merge L n st;
           Some st
         })"

text \<open>
  The hooks of \<open>file.c\<close>: opening a file drops the pointer of its inode to a node and leaves the
  node as it is; releasing it calls the manager.
\<close>

definition fat_file_open :: "nat \<Rightarrow> bm_state \<Rightarrow> bm_state" where
  "fat_file_open inode st =
     (if inode_node st inode \<noteq> None then set_inode_node inode None st else st)"

definition fat_file_release :: "rb_lib \<Rightarrow> nat \<Rightarrow> bm_state \<Rightarrow> bm_state option" where
  "fat_file_release L inode st =
     (if inode_node st inode \<noteq> None then blocks_mamager_on_inode_release L inode st else Some st)"

partial_function (option) blocks_mamager_free_all :: "rb_lib \<Rightarrow> bm_state \<Rightarrow> bm_state option" where
  "blocks_mamager_free_all L st =
     (case lib_first L (start_root st) of
       None \<Rightarrow> Some st
     | Some n \<Rightarrow> do {
         bm \<leftarrow> bm_heap st n;
         let st = (case bm_inode bm of
                     None \<Rightarrow> st
                   | Some i \<Rightarrow> bm_put n (bm\<lparr>bm_inode := None\<rparr>) (set_inode_node i None st));
         st \<leftarrow> blocks_mamager_rb_del L n st;
         blocks_mamager_free_all L (kfree n st)
       })"

declare blocks_mamager_free_all.simps [code]

section \<open>A tree library\<close>

text \<open>A tree without rebalancing satisfies what the code relies on.\<close>

fun next_in :: "nat \<Rightarrow> nat list \<Rightarrow> nat option" where
  "next_in n (x # y # ys) = (if x = n then Some y else next_in n (y # ys))"
| "next_in n _ = None"

fun list_tree :: "nat list \<Rightarrow> nat tree" where
  "list_tree [] = Leaf"
| "list_tree (x # xs) = Node Leaf x (list_tree xs)"

definition plain_rb :: rb_lib where
  "plain_rb = \<lparr>insert_color = (\<lambda>n t. t), erase = (\<lambda>n t. list_tree (removeAll n (inorder t))),
     lib_next = (\<lambda>n t. next_in n (inorder t)), lib_prev = (\<lambda>n t. next_in n (rev (inorder t))),
     lib_first = (\<lambda>t. case inorder t of [] \<Rightarrow> None | x # _ \<Rightarrow> Some x)\<rparr>"

lemma inorder_list_tree [simp]: "inorder (list_tree xs) = xs"
  by (induction xs) auto

lemma next_in_append:
  "n \<notin> set xs \<Longrightarrow> next_in n (xs @ n # ys) = (if ys = [] then None else Some (hd ys))"
proof (induction xs)
  case Nil
  then show ?case by (cases ys) auto
next
  case (Cons x xs)
  then show ?case by (cases xs) auto
qed

lemma plain_rb_ok: "rb_lib_ok plain_rb"
proof -
  have hd_last: "xs \<noteq> [] \<Longrightarrow> hd (rev xs) = last xs" for xs :: "nat list"
    by (cases xs rule: rev_cases) auto
  have "next_in n (rev ys @ n # rev xs) = (if xs = [] then None else Some (last xs))"
    if "n \<notin> set ys" for n ys xs
    using that next_in_append [of n "rev ys" "rev xs"] by (simp add: hd_last)
  then show ?thesis
    by (auto simp: rb_lib_ok_def plain_rb_def next_in_append hd_last split: list.splits)
qed

end
