(* ===== verification/FatEntry.thy ===== *)
theory FatEntry
  imports BlockManager
begin

text \<open>
  Access to the entries of the file allocation table:
  \<open>src/debugfs/android50/kernel/fs/fat/fatent.c\<close> from \<open>fat12_ent_blocknr\<close> to \<open>fat_collect_bhs\<close>,
  with the inline helpers of \<open>fat.h\<close>. The buffer cache is a map from block numbers to the bytes
  of the block, so a \<open>buffer_head\<close> is its block number and a pointer into \<open>b_data\<close> a pair of block
  and offset. Reference counts, readahead and the \<open>WARN_ON\<close> diagnostics are left out. The block
  layer is not part of the repository: \<open>fat_env\<close> says which of its calls succeed.

  The constants below are those of \<open>linux/msdos_fs.h\<close>, fixed by the on-disk format.
\<close>

unbundle bit_operations_syntax

definition FAT_START_ENT :: int where "FAT_START_ENT = 2"
definition FAT_ENT_FREE :: int where "FAT_ENT_FREE = 0"
definition FAT_ENT_EOF :: int where "FAT_ENT_EOF = 0x0FFFFFFF"
definition BAD_FAT12 :: int where "BAD_FAT12 = 0xFF7"
definition BAD_FAT16 :: int where "BAD_FAT16 = 0xFFF7"
definition BAD_FAT32 :: int where "BAD_FAT32 = 0x0FFFFFF7"
definition EOF_FAT12 :: int where "EOF_FAT12 = 0xFFF"
definition EOF_FAT16 :: int where "EOF_FAT16 = 0xFFFF"

section \<open>State\<close>

datatype fat_type = FAT12 | FAT16 | FAT32

record fat_env =
  sb_bread :: "nat \<Rightarrow> bool"
  sb_getblk :: "nat \<Rightarrow> bool"
  sync_dirty_buffer :: "nat \<Rightarrow> int"
  fat_sync_bhs :: "nat list \<Rightarrow> int"

text \<open>
  The superblock with its \<open>msdos_sb_info\<close>, the buffers, and the block manager, which is global.
  \<open>free_clusters\<close> is -1 when undefined, as in the source.
\<close>

record fat_sb =
  s_blocksize_bits :: nat
  fat_start :: nat
  fat_length :: nat
  fats :: nat
  fat_bits :: nat
  fatent_shift :: int
  fatent_ops :: fat_type
  max_cluster :: int
  prev_free :: int
  free_clusters :: int
  free_clus_valid :: bool
  opt_discard :: bool
  ms_synchronous :: bool
  ms_rdonly :: bool
  fsinfo_dirty :: bool
  buffers :: "nat \<Rightarrow> u8 list"
  manager :: bm_state

definition s_blocksize :: "fat_sb \<Rightarrow> nat" where
  "s_blocksize sb = 2 ^ s_blocksize_bits sb"

type_synonym bptr = "nat \<times> nat"

text \<open>The union \<open>u\<close> of \<open>struct fat_entry\<close>; \<open>nr_bhs\<close> is the length of \<open>bhs\<close>.\<close>

datatype ent_ptr = NoPtr | Ent12 bptr bptr | Ent16 bptr | Ent32 bptr

record fat_entry =
  entry :: int
  ent_u :: ent_ptr
  bhs :: "nat list"

definition fatent_init :: fat_entry where
  "fatent_init = \<lparr>entry = 0, ent_u = NoPtr, bhs = []\<rparr>"

definition fatent_set_entry :: "int \<Rightarrow> fat_entry \<Rightarrow> fat_entry" where
  "fatent_set_entry e fe = fe\<lparr>entry := e, ent_u := NoPtr\<rparr>"

definition fatent_brelse :: "fat_entry \<Rightarrow> fat_entry" where
  "fatent_brelse fe = fe\<lparr>ent_u := NoPtr, bhs := []\<rparr>"

section \<open>Bytes\<close>

definition get_byte :: "fat_sb \<Rightarrow> bptr \<Rightarrow> int" where
  "get_byte sb p = uint (buffers sb (fst p) ! snd p)"

definition put_byte :: "bptr \<Rightarrow> int \<Rightarrow> fat_sb \<Rightarrow> fat_sb" where
  "put_byte p v sb = sb\<lparr>buffers := (buffers sb)
     (fst p := (buffers sb (fst p))[snd p := word_of_int v])\<rparr>"

definition ptr_add :: "bptr \<Rightarrow> nat \<Rightarrow> bptr" where
  "ptr_add p n = (fst p, snd p + n)"

text \<open>Little-endian loads and stores of \<open>n\<close> bytes.\<close>

fun get_le :: "nat \<Rightarrow> fat_sb \<Rightarrow> bptr \<Rightarrow> int" where
  "get_le 0 sb p = 0"
| "get_le (Suc n) sb p = get_byte sb p + 256 * get_le n sb (ptr_add p 1)"

fun put_le :: "nat \<Rightarrow> bptr \<Rightarrow> int \<Rightarrow> fat_sb \<Rightarrow> fat_sb" where
  "put_le 0 p v sb = sb"
| "put_le (Suc n) p v sb = put_le n (ptr_add p 1) (v div 256) (put_byte p v sb)"

section \<open>Where an entry is\<close>

definition fat12_ent_blocknr :: "fat_sb \<Rightarrow> int \<Rightarrow> nat \<times> nat" where
  "fat12_ent_blocknr sb e =
     (let bytes = e + drop_bit 1 e in
      (nat (bytes AND (int (s_blocksize sb) - 1)),
       fat_start sb + nat (drop_bit (s_blocksize_bits sb) bytes)))"

text \<open>Only the operations of FAT16 and FAT32 call it, whose shifts are 1 and 2; FAT12 sets the shift to -1.\<close>

definition fat_ent_blocknr :: "fat_sb \<Rightarrow> int \<Rightarrow> nat \<times> nat" where
  "fat_ent_blocknr sb e =
     (let bytes = push_bit (nat (fatent_shift sb)) e in
      (nat (bytes AND (int (s_blocksize sb) - 1)),
       fat_start sb + nat (drop_bit (s_blocksize_bits sb) bytes)))"

definition ent_blocknr :: "fat_sb \<Rightarrow> int \<Rightarrow> nat \<times> nat" where
  "ent_blocknr sb = (if fatent_ops sb = FAT12 then fat12_ent_blocknr sb else fat_ent_blocknr sb)"

definition fat12_ent_set_ptr :: "fat_entry \<Rightarrow> nat \<Rightarrow> fat_entry" where
  "fat12_ent_set_ptr fe offset =
     (if length (bhs fe) = 1 then fe\<lparr>ent_u := Ent12 (bhs fe ! 0, offset) (bhs fe ! 0, offset + 1)\<rparr>
      else fe\<lparr>ent_u := Ent12 (bhs fe ! 0, offset) (bhs fe ! 1, 0)\<rparr>)"

definition fat16_ent_set_ptr :: "fat_entry \<Rightarrow> nat \<Rightarrow> fat_entry" where
  "fat16_ent_set_ptr fe offset = fe\<lparr>ent_u := Ent16 (bhs fe ! 0, offset)\<rparr>"

definition fat32_ent_set_ptr :: "fat_entry \<Rightarrow> nat \<Rightarrow> fat_entry" where
  "fat32_ent_set_ptr fe offset = fe\<lparr>ent_u := Ent32 (bhs fe ! 0, offset)\<rparr>"

definition ent_set_ptr :: "fat_sb \<Rightarrow> fat_entry \<Rightarrow> nat \<Rightarrow> fat_entry" where
  "ent_set_ptr sb = (case fatent_ops sb of
     FAT12 \<Rightarrow> fat12_ent_set_ptr | FAT16 \<Rightarrow> fat16_ent_set_ptr | FAT32 \<Rightarrow> fat32_ent_set_ptr)"

definition fat12_ent_bread ::
    "fat_env \<Rightarrow> fat_sb \<Rightarrow> fat_entry \<Rightarrow> nat \<Rightarrow> nat \<Rightarrow> int \<times> fat_entry" where
  "fat12_ent_bread env sb fe offset blocknr =
     (if \<not> sb_bread env blocknr then (-EIO, fe)
      else if offset + 1 < s_blocksize sb then
        (0, fat12_ent_set_ptr (fe\<lparr>bhs := [blocknr]\<rparr>) offset)
      else if \<not> sb_bread env (blocknr + 1) then (-EIO, fe)
      else (0, fat12_ent_set_ptr (fe\<lparr>bhs := [blocknr, blocknr + 1]\<rparr>) offset))"

definition fat_ent_bread ::
    "fat_env \<Rightarrow> fat_sb \<Rightarrow> fat_entry \<Rightarrow> nat \<Rightarrow> nat \<Rightarrow> int \<times> fat_entry" where
  "fat_ent_bread env sb fe offset blocknr =
     (if \<not> sb_bread env blocknr then (-EIO, fe)
      else (0, ent_set_ptr sb (fe\<lparr>bhs := [blocknr]\<rparr>) offset))"

definition ent_bread :: "fat_env \<Rightarrow> fat_sb \<Rightarrow> fat_entry \<Rightarrow> nat \<Rightarrow> nat \<Rightarrow> int \<times> fat_entry" where
  "ent_bread env sb = (if fatent_ops sb = FAT12 then fat12_ent_bread env sb else fat_ent_bread env sb)"

section \<open>Reading and writing an entry\<close>

definition fat12_ent_get :: "fat_sb \<Rightarrow> fat_entry \<Rightarrow> bptr \<Rightarrow> bptr \<Rightarrow> int" where
  "fat12_ent_get sb fe p0 p1 =
     (let nxt = (if entry fe AND 1 \<noteq> 0
                 then drop_bit 4 (get_byte sb p0) OR push_bit 4 (get_byte sb p1)
                 else push_bit 8 (get_byte sb p1) OR get_byte sb p0);
          nxt = nxt AND 0x0fff
      in if nxt \<ge> BAD_FAT12 then FAT_ENT_EOF else nxt)"

definition fat16_ent_get :: "fat_sb \<Rightarrow> bptr \<Rightarrow> int" where
  "fat16_ent_get sb p = (let nxt = get_le 2 sb p in if nxt \<ge> BAD_FAT16 then FAT_ENT_EOF else nxt)"

definition fat32_ent_get :: "fat_sb \<Rightarrow> bptr \<Rightarrow> int" where
  "fat32_ent_get sb p =
     (let nxt = get_le 4 sb p AND 0x0fffffff in if nxt \<ge> BAD_FAT32 then FAT_ENT_EOF else nxt)"

text \<open>A null pointer in \<open>u\<close> is dereferenced: there is no value, written as 0 and excluded by proof.\<close>

definition ent_get :: "fat_sb \<Rightarrow> fat_entry \<Rightarrow> int" where
  "ent_get sb fe = (case ent_u fe of
     Ent12 p0 p1 \<Rightarrow> fat12_ent_get sb fe p0 p1
   | Ent16 p \<Rightarrow> fat16_ent_get sb p
   | Ent32 p \<Rightarrow> fat32_ent_get sb p
   | NoPtr \<Rightarrow> 0)"

definition fat12_ent_put :: "fat_entry \<Rightarrow> bptr \<Rightarrow> bptr \<Rightarrow> int \<Rightarrow> fat_sb \<Rightarrow> fat_sb" where
  "fat12_ent_put fe p0 p1 new sb =
     (let new = (if new = FAT_ENT_EOF then EOF_FAT12 else new) in
      if entry fe AND 1 \<noteq> 0 then
        (let sb = put_byte p0 (push_bit 4 new OR (get_byte sb p0 AND 0x0f)) sb
         in put_byte p1 (drop_bit 4 new) sb)
      else
        (let sb = put_byte p0 (new AND 0xff) sb
         in put_byte p1 ((get_byte sb p1 AND 0xf0) OR drop_bit 8 new) sb))"

definition fat16_ent_put :: "bptr \<Rightarrow> int \<Rightarrow> fat_sb \<Rightarrow> fat_sb" where
  "fat16_ent_put p new sb = (let new = (if new = FAT_ENT_EOF then EOF_FAT16 else new) in put_le 2 p new sb)"

definition fat32_ent_put :: "bptr \<Rightarrow> int \<Rightarrow> fat_sb \<Rightarrow> fat_sb" where
  "fat32_ent_put p new sb = put_le 4 p (new OR (get_le 4 sb p AND 0xf0000000)) sb"

definition ent_put :: "fat_entry \<Rightarrow> int \<Rightarrow> fat_sb \<Rightarrow> fat_sb" where
  "ent_put fe new sb = (case ent_u fe of
     Ent12 p0 p1 \<Rightarrow> fat12_ent_put fe p0 p1 new sb
   | Ent16 p \<Rightarrow> fat16_ent_put p new sb
   | Ent32 p \<Rightarrow> fat32_ent_put p new sb
   | NoPtr \<Rightarrow> sb)"

section \<open>Stepping to the next entry\<close>

definition fat12_ent_next :: "fat_sb \<Rightarrow> fat_entry \<Rightarrow> bptr \<Rightarrow> bptr \<Rightarrow> int \<times> fat_entry" where
  "fat12_ent_next sb fe p0 p1 =
     (let nextp = ptr_add p1 (1 + nat (entry fe AND 1));
          nextp0 = (fst nextp, snd nextp - 1);
          fe = fe\<lparr>entry := entry fe + 1\<rparr>
      in if length (bhs fe) = 1 then
           (if snd nextp < s_blocksize sb - 1 then (1, fe\<lparr>ent_u := Ent12 nextp0 nextp\<rparr>)
            else (0, fe\<lparr>ent_u := NoPtr\<rparr>))
         else (1, fe\<lparr>ent_u := Ent12 nextp0 nextp, bhs := [bhs fe ! 1]\<rparr>))"

definition fat16_ent_next :: "fat_sb \<Rightarrow> fat_entry \<Rightarrow> bptr \<Rightarrow> int \<times> fat_entry" where
  "fat16_ent_next sb fe p =
     (let fe = fe\<lparr>entry := entry fe + 1\<rparr>
      in if snd p < s_blocksize sb - 2 then (1, fe\<lparr>ent_u := Ent16 (ptr_add p 2)\<rparr>)
         else (0, fe\<lparr>ent_u := NoPtr\<rparr>))"

definition fat32_ent_next :: "fat_sb \<Rightarrow> fat_entry \<Rightarrow> bptr \<Rightarrow> int \<times> fat_entry" where
  "fat32_ent_next sb fe p =
     (let fe = fe\<lparr>entry := entry fe + 1\<rparr>
      in if snd p < s_blocksize sb - 4 then (1, fe\<lparr>ent_u := Ent32 (ptr_add p 4)\<rparr>)
         else (0, fe\<lparr>ent_u := NoPtr\<rparr>))"

definition ent_next :: "fat_sb \<Rightarrow> fat_entry \<Rightarrow> int \<times> fat_entry" where
  "ent_next sb fe = (case ent_u fe of
     Ent12 p0 p1 \<Rightarrow> fat12_ent_next sb fe p0 p1
   | Ent16 p \<Rightarrow> fat16_ent_next sb fe p
   | Ent32 p \<Rightarrow> fat32_ent_next sb fe p
   | NoPtr \<Rightarrow> (0, fe))"

section \<open>The common layer\<close>

text \<open>Any other width leaves the operations as they were.\<close>

definition fat_ent_access_init :: "fat_sb \<Rightarrow> fat_sb" where
  "fat_ent_access_init sb =
     (if fat_bits sb = 32 then sb\<lparr>fatent_shift := 2, fatent_ops := FAT32\<rparr>
      else if fat_bits sb = 16 then sb\<lparr>fatent_shift := 1, fatent_ops := FAT16\<rparr>
      else if fat_bits sb = 12 then sb\<lparr>fatent_shift := - 1, fatent_ops := FAT12\<rparr>
      else sb)"

definition mark_fsinfo_dirty :: "fat_sb \<Rightarrow> fat_sb" where
  "mark_fsinfo_dirty sb =
     (if ms_rdonly sb \<or> fat_bits sb \<noteq> 32 then sb else sb\<lparr>fsinfo_dirty := True\<rparr>)"

definition fat_ent_update_ptr :: "fat_sb \<Rightarrow> fat_entry \<Rightarrow> nat \<Rightarrow> nat \<Rightarrow> bool \<times> fat_entry" where
  "fat_ent_update_ptr sb fe offset blocknr =
     (if bhs fe = [] \<or> bhs fe ! 0 \<noteq> blocknr then (False, fe)
      else if fat_bits sb = 12 then
        (if offset + 1 < s_blocksize sb then
           (let fe = (if length (bhs fe) = 2 then fe\<lparr>bhs := [bhs fe ! 0]\<rparr> else fe)
            in (True, ent_set_ptr sb fe offset))
         else if length (bhs fe) \<noteq> 2 then (False, fe)
         else if bhs fe ! 1 \<noteq> blocknr + 1 then (False, fe)
         else (True, ent_set_ptr sb fe offset))
      else (True, ent_set_ptr sb fe offset))"

definition fat_ent_read :: "fat_env \<Rightarrow> fat_sb \<Rightarrow> fat_entry \<Rightarrow> int \<Rightarrow> int \<times> fat_entry" where
  "fat_ent_read env sb fe e =
     (if e < FAT_START_ENT \<or> max_cluster sb \<le> e then (-EIO, fatent_brelse fe)
      else
        (let fe = fatent_set_entry e fe in
         case ent_blocknr sb e of (offset, blocknr) \<Rightarrow>
         case fat_ent_update_ptr sb fe offset blocknr of (hit, fe) \<Rightarrow>
           if hit then (ent_get sb fe, fe)
           else
             (case ent_bread env sb (fatent_brelse fe) offset blocknr of (err, fe) \<Rightarrow>
               if err \<noteq> 0 then (err, fe) else (ent_get sb fe, fe))))"

text \<open>The backup copies of the blocks \<open>bs\<close>: \<open>todo\<close> lists the pairs of copy and block to write.\<close>

fun mirror_blocks :: "fat_env \<Rightarrow> (nat \<times> nat) list \<Rightarrow> fat_sb \<Rightarrow> int \<times> fat_sb" where
  "mirror_blocks env [] sb = (0, sb)"
| "mirror_blocks env ((copy, b) # todo) sb =
     (let c_bh = fat_length sb * copy + b in
      if \<not> sb_getblk env c_bh then (-ENOMEM, sb)
      else
        (let sb = sb\<lparr>buffers := (buffers sb)(c_bh := buffers sb b)\<rparr>;
             err = (if ms_synchronous sb then sync_dirty_buffer env c_bh else 0)
         in if err \<noteq> 0 then (err, sb) else mirror_blocks env todo sb))"

definition fat_mirror_bhs :: "fat_env \<Rightarrow> nat list \<Rightarrow> fat_sb \<Rightarrow> int \<times> fat_sb" where
  "fat_mirror_bhs env bs sb = mirror_blocks env (List.product [1..<fats sb] bs) sb"

definition fat_ent_write :: "fat_env \<Rightarrow> fat_entry \<Rightarrow> int \<Rightarrow> bool \<Rightarrow> fat_sb \<Rightarrow> int \<times> fat_sb" where
  "fat_ent_write env fe new wait sb =
     (let sb = ent_put fe new sb;
          err = (if wait then fat_sync_bhs env (bhs fe) else 0)
      in if err \<noteq> 0 then (err, sb) else fat_mirror_bhs env (bhs fe) sb)"

definition fat_ent_next :: "fat_sb \<Rightarrow> fat_entry \<Rightarrow> bool \<times> fat_entry" where
  "fat_ent_next sb fe =
     (case ent_next sb fe of (rc, fe) \<Rightarrow> (rc \<noteq> 0 \<and> entry fe < max_cluster sb, fe))"

definition fat_ent_read_block :: "fat_env \<Rightarrow> fat_sb \<Rightarrow> fat_entry \<Rightarrow> int \<times> fat_entry" where
  "fat_ent_read_block env sb fe =
     (let fe = fatent_brelse fe in
      case ent_blocknr sb (entry fe) of (offset, blocknr) \<Rightarrow> ent_bread env sb fe offset blocknr)"

definition fat_collect_bhs :: "nat list \<Rightarrow> fat_entry \<Rightarrow> nat list" where
  "fat_collect_bhs bs fe = fold (\<lambda>b bs. if b \<in> set bs then bs else bs @ [b]) (bhs fe) bs"

end
