(* ===== verification/FatEntryProof.thy ===== *)
theory FatEntryProof
  imports FatEntry
begin

text \<open>
  The file allocation table as a function from entries to values, \<open>fat_at\<close>, and the entry access of
  \<open>FatEntry\<close> in its terms: where an entry lies, that reading finds its value, that stepping arrives
  at the next entry, and that writing changes this entry only, for entries of 12, 16 and 32 bits.
\<close>

unbundle bit_operations_syntax

section \<open>The packing of 12-bit entries\<close>

lemma masks:
  "x AND 0x0f = take_bit 4 x" "x AND 0xff = take_bit 8 x" "x AND 0x0fff = take_bit 12 x"
  "x AND 0x0fffffff = take_bit 28 x" "x AND 0xf0 = push_bit 4 (take_bit 4 (drop_bit 4 x))"
  "x AND 0xf0000000 = push_bit 28 (take_bit 4 (drop_bit 28 x))" for x :: int
proof -
  have m: "(0x0f::int) = mask 4" "(0xff::int) = mask 8" "(0x0fff::int) = mask 12"
    "(0x0fffffff::int) = mask 28" "(0xf0::int) = push_bit 4 (mask 4)" "(0xf0000000::int) = push_bit 28 (mask 4)"
    by (simp_all add: mask_eq_exp_minus_1 push_bit_eq_mult)
  show "x AND 0x0f = take_bit 4 x" "x AND 0xff = take_bit 8 x" "x AND 0x0fff = take_bit 12 x"
    "x AND 0x0fffffff = take_bit 28 x"
    unfolding m by (simp_all add: take_bit_eq_mask)
  show "x AND 0xf0 = push_bit 4 (take_bit 4 (drop_bit 4 x))"
    "x AND 0xf0000000 = push_bit 28 (take_bit 4 (drop_bit 28 x))"
    unfolding m by (rule bit_eqI; auto simp: bit_simps)+
qed

definition dec12 :: "bool \<Rightarrow> int \<Rightarrow> int \<Rightarrow> int" where
  "dec12 hi b0 b1 = take_bit 12 (if hi then drop_bit 4 b0 OR push_bit 4 b1 else push_bit 8 b1 OR b0)"

lemma dec12_high: "dec12 True b0 b1 = dec12 True b0' b1'"
  if "drop_bit 4 b0 = drop_bit 4 b0'" "b1 = b1'"
  using that by (simp add: dec12_def)

lemma dec12_low: "dec12 False b0 b1 = dec12 False b0' b1'"
  if "b0 = b0'" "take_bit 4 b1 = take_bit 4 b1'"
proof -
  have "bit b1 k = bit b1' k" if "k < 4" for k
    using \<open>take_bit 4 b1 = take_bit 4 b1'\<close> that by (metis bit_take_bit_iff)
  then show ?thesis using that by (auto simp: dec12_def bit_eq_iff bit_simps)
qed

lemma small_bits: "0 \<le> v \<Longrightarrow> v < 2 ^ n \<Longrightarrow> bit v k \<Longrightarrow> k < n" for v :: int
  by (metis bit_take_bit_iff take_bit_int_eq_self)

lemma enc12_high:
  assumes "0 \<le> v" and "v < 4096"
  shows "dec12 True (take_bit 8 (push_bit 4 v OR take_bit 4 b0)) (take_bit 8 (drop_bit 4 v)) = v"
    and "take_bit 4 (take_bit 8 (push_bit 4 v OR take_bit 4 b0)) = take_bit 4 b0"
proof -
  have sb: "bit v k \<Longrightarrow> k < 12" for k using small_bits [of v 12 k] assms by simp
  show "dec12 True (take_bit 8 (push_bit 4 v OR take_bit 4 b0)) (take_bit 8 (drop_bit 4 v)) = v"
    by (rule bit_eqI) (auto simp: dec12_def bit_simps dest: sb)
  show "take_bit 4 (take_bit 8 (push_bit 4 v OR take_bit 4 b0)) = take_bit 4 b0"
    by (rule bit_eqI) (auto simp: bit_simps)
qed

lemma enc12_low:
  assumes "0 \<le> v" and "v < 4096"
  shows "dec12 False (take_bit 8 (take_bit 8 v))
      (take_bit 8 (push_bit 4 (take_bit 4 (drop_bit 4 b1)) OR drop_bit 8 v)) = v"
    and "0 \<le> b1 \<Longrightarrow> b1 < 256 \<Longrightarrow>
      drop_bit 4 (take_bit 8 (push_bit 4 (take_bit 4 (drop_bit 4 b1)) OR drop_bit 8 v)) = drop_bit 4 b1"
proof -
  have sb: "bit v k \<Longrightarrow> k < 12" for k using small_bits [of v 12 k] assms by simp
  show "dec12 False (take_bit 8 (take_bit 8 v))
      (take_bit 8 (push_bit 4 (take_bit 4 (drop_bit 4 b1)) OR drop_bit 8 v)) = v"
    by (rule bit_eqI) (auto simp: dec12_def bit_simps dest: sb)
  assume "0 \<le> b1" "b1 < 256"
  then have b: "bit b1 k \<Longrightarrow> k < 8" for k using small_bits [of b1 8 k] by simp
  then show "drop_bit 4 (take_bit 8 (push_bit 4 (take_bit 4 (drop_bit 4 b1)) OR drop_bit 8 v)) = drop_bit 4 b1"
    by (auto simp: bit_eq_iff bit_simps dest: sb b)
qed

section \<open>The table as bytes\<close>

text \<open>Byte \<open>a\<close> of the table, counted from its first block.\<close>

definition faddr :: "fat_sb \<Rightarrow> nat \<Rightarrow> bptr" where
  "faddr sb a = (fat_start sb + a div s_blocksize sb, a mod s_blocksize sb)"

definition mem :: "fat_sb \<Rightarrow> nat \<Rightarrow> int" where
  "mem sb a = get_byte sb (faddr sb a)"

definition sb_ok :: "fat_sb \<Rightarrow> bool" where
  "sb_ok sb \<longleftrightarrow> 2 \<le> s_blocksize_bits sb \<and> (\<forall>b. length (buffers sb b) = s_blocksize sb) \<and>
     (case fatent_ops sb of FAT12 \<Rightarrow> fat_bits sb = 12 | FAT16 \<Rightarrow> fat_bits sb = 16 \<and> fatent_shift sb = 1
      | FAT32 \<Rightarrow> fat_bits sb = 32 \<and> fatent_shift sb = 2)"

lemma sb_ok_blocksize: "sb_ok sb \<Longrightarrow> 4 dvd s_blocksize sb \<and> 4 \<le> s_blocksize sb"
proof -
  assume "sb_ok sb"
  then have "2 \<le> s_blocksize_bits sb" by (simp add: sb_ok_def)
  then have "(2::nat) ^ 2 dvd 2 ^ s_blocksize_bits sb" by (rule le_imp_power_dvd)
  then have "4 dvd s_blocksize sb" by (simp add: s_blocksize_def)
  moreover from this have "4 \<le> s_blocksize sb" by (intro dvd_imp_le) (simp_all add: s_blocksize_def)
  ultimately show ?thesis by simp
qed

lemma mem_bounds: "0 \<le> mem sb a" "mem sb a < 256"
  using uint_lt2p [of "buffers sb (fst (faddr sb a)) ! snd (faddr sb a)"]
  by (simp_all add: mem_def get_byte_def)

lemma faddr_inj: "faddr sb a = faddr sb b \<longleftrightarrow> a = b"
  by (auto simp: faddr_def) (metis div_mult_mod_eq)

lemma faddr_next:
  "Suc (a mod s_blocksize sb) < s_blocksize sb \<Longrightarrow> faddr sb (Suc a) = ptr_add (faddr sb a) 1"
  by (simp add: faddr_def ptr_add_def mod_Suc div_Suc)

lemma faddr_wrap:
  "Suc (a mod s_blocksize sb) = s_blocksize sb \<Longrightarrow> faddr sb (Suc a) = (Suc (fst (faddr sb a)), 0)"
  by (simp add: faddr_def mod_Suc div_Suc)

text \<open>The fields that a write to the buffers leaves alone.\<close>

lemma put_byte_simps [simp]:
  "s_blocksize (put_byte p v sb) = s_blocksize sb" "s_blocksize_bits (put_byte p v sb) = s_blocksize_bits sb"
  "fat_start (put_byte p v sb) = fat_start sb" "fatent_ops (put_byte p v sb) = fatent_ops sb"
  "faddr (put_byte p v sb) = faddr sb" "fat_bits (put_byte p v sb) = fat_bits sb"
  "fatent_shift (put_byte p v sb) = fatent_shift sb" "max_cluster (put_byte p v sb) = max_cluster sb"
  by (simp_all add: put_byte_def s_blocksize_def faddr_def fun_eq_iff)

lemma sb_ok_put_byte [simp]: "sb_ok (put_byte p v sb) \<longleftrightarrow> sb_ok sb"
proof -
  have "length (buffers (put_byte p v sb) b) = length (buffers sb b)" for b
    by (simp add: put_byte_def)
  then show ?thesis by (simp add: sb_ok_def split: fat_type.splits)
qed

lemma mem_put_byte:
  assumes "sb_ok sb"
  shows "mem (put_byte (faddr sb a) v sb) b = (if a = b then take_bit 8 v else mem sb b)"
proof -
  have pos: "0 < s_blocksize sb" using sb_ok_blocksize [OF assms] by simp
  have len: "length (buffers sb k) = s_blocksize sb" for k using assms by (simp add: sb_ok_def)
  show ?thesis
  proof (cases "a = b")
    case True
    with pos len show ?thesis
      by (simp add: mem_def get_byte_def put_byte_def faddr_def unsigned_of_int s_blocksize_def)
  next
    case False
    then have "faddr sb a \<noteq> faddr sb b" by (simp add: faddr_inj)
    then have "get_byte (put_byte (faddr sb a) v sb) (faddr sb b) = get_byte sb (faddr sb b)"
      by (cases "faddr sb a"; cases "faddr sb b") (auto simp: get_byte_def put_byte_def)
    with False show ?thesis by (simp add: mem_def)
  qed
qed

text \<open>The same with the address taken in an earlier state of the same layout.\<close>

lemma mem_put_byte_at:
  "sb_ok sb \<Longrightarrow> faddr sb0 = faddr sb \<Longrightarrow>
     mem (put_byte (faddr sb0 a) v sb) b = (if b = a then take_bit 8 v else mem sb b)"
  using mem_put_byte [of sb a v b] by auto

section \<open>The table as a function\<close>

definition ent_addr :: "fat_sb \<Rightarrow> nat \<Rightarrow> nat" where
  "ent_addr sb e = (case fatent_ops sb of FAT12 \<Rightarrow> e + e div 2 | FAT16 \<Rightarrow> 2 * e | FAT32 \<Rightarrow> 4 * e)"

definition bad_mark :: "fat_sb \<Rightarrow> int" where
  "bad_mark sb = (case fatent_ops sb of FAT12 \<Rightarrow> BAD_FAT12 | FAT16 \<Rightarrow> BAD_FAT16 | FAT32 \<Rightarrow> BAD_FAT32)"

definition fat_at :: "fat_sb \<Rightarrow> nat \<Rightarrow> int" where
  "fat_at sb e =
     (let a = ent_addr sb e;
          v = (case fatent_ops sb of
                 FAT12 \<Rightarrow> dec12 (odd e) (mem sb a) (mem sb (a + 1))
               | FAT16 \<Rightarrow> mem sb a + 256 * mem sb (a + 1)
               | FAT32 \<Rightarrow> take_bit 28 (mem sb a + 256 * (mem sb (a + 1) + 256 * (mem sb (a + 2) +
                   256 * mem sb (a + 3)))))
      in if bad_mark sb \<le> v then FAT_ENT_EOF else v)"

text \<open>The blocks an entry lies in, its place in them, and a \<open>fat_entry\<close> that points to its entry.\<close>

definition ent_blocks :: "fat_sb \<Rightarrow> nat \<Rightarrow> nat list" where
  "ent_blocks sb e =
     (let a = ent_addr sb e; b = fst (faddr sb a) in
      if fatent_ops sb = FAT12 \<and> s_blocksize sb \<le> a mod s_blocksize sb + 1 then [b, b + 1] else [b])"

definition spot :: "fat_sb \<Rightarrow> nat \<Rightarrow> ent_ptr" where
  "spot sb e =
     (let a = ent_addr sb e in
      case fatent_ops sb of
        FAT12 \<Rightarrow> Ent12 (faddr sb a) (faddr sb (a + 1))
      | FAT16 \<Rightarrow> Ent16 (faddr sb a)
      | FAT32 \<Rightarrow> Ent32 (faddr sb a))"

definition placed :: "fat_sb \<Rightarrow> fat_entry \<Rightarrow> bool" where
  "placed sb fe \<longleftrightarrow> 0 \<le> entry fe \<and> ent_u fe = spot sb (nat (entry fe)) \<and>
     bhs fe = ent_blocks sb (nat (entry fe))"

text \<open>The bytes of a 16 or 32-bit entry lie in one block.\<close>

lemma ent_mod:
  assumes "sb_ok sb" and "fatent_ops sb \<noteq> FAT12"
  shows "(if fatent_ops sb = FAT16 then 2 else 4) dvd ent_addr sb e mod s_blocksize sb"
    and "ent_addr sb e mod s_blocksize sb + (if fatent_ops sb = FAT16 then 2 else 4) \<le> s_blocksize sb"
proof -
  let ?k = "if fatent_ops sb = FAT16 then 2 else 4 :: nat"
  have "?k dvd s_blocksize sb" using sb_ok_blocksize [OF assms(1)] by (auto elim: dvd_trans [rotated])
  moreover have "?k dvd ent_addr sb e" using assms(2) by (cases "fatent_ops sb") (auto simp: ent_addr_def)
  ultimately show d: "?k dvd ent_addr sb e mod s_blocksize sb" by (simp add: dvd_mod)
  have pos: "0 < s_blocksize sb" by (simp add: s_blocksize_def)
  from d \<open>?k dvd s_blocksize sb\<close> obtain i j where "ent_addr sb e mod s_blocksize sb = ?k * i"
    "s_blocksize sb = ?k * j" by (auto elim!: dvdE)
  moreover have "ent_addr sb e mod s_blocksize sb < s_blocksize sb" using pos by simp
  ultimately have "?k * i < ?k * j" by simp
  then have "i < j" by simp
  then have "Suc i \<le> j" by simp
  then have "?k * Suc i \<le> ?k * j" by (rule mult_le_mono2)
  then show "ent_addr sb e mod s_blocksize sb + ?k \<le> s_blocksize sb"
    using \<open>ent_addr sb e mod s_blocksize sb = ?k * i\<close> \<open>s_blocksize sb = ?k * j\<close> by simp
qed

lemma faddr_add:
  "a mod s_blocksize sb + k < s_blocksize sb \<Longrightarrow> faddr sb (a + k) = ptr_add (faddr sb a) k"
proof (induction k)
  case (Suc k)
  have "(a + k) mod s_blocksize sb = a mod s_blocksize sb + k"
    using Suc.prems by (metis Suc_lessD add_Suc_right mod_add_left_eq mod_less)
  with Suc faddr_next [of "a + k" sb] show ?case by (simp add: ptr_add_def)
qed (simp add: ptr_add_def)

lemma get_le_16:
  assumes "a mod s_blocksize sb + 2 \<le> s_blocksize sb"
  shows "get_le 2 sb (faddr sb a) = mem sb a + 256 * mem sb (a + 1)"
  using assms faddr_add [of a sb 1] by (simp add: numeral_2_eq_2 mem_def)

lemma get_le_32:
  assumes "a mod s_blocksize sb + 4 \<le> s_blocksize sb"
  shows "get_le 4 sb (faddr sb a) = mem sb a + 256 * (mem sb (a + 1) + 256 * (mem sb (a + 2) +
    256 * mem sb (a + 3)))"
proof -
  have "get_le (Suc (Suc (Suc (Suc 0)))) sb (faddr sb a) = mem sb a + 256 * (mem sb (a + 1) +
      256 * (mem sb (a + 2) + 256 * mem sb (a + 3)))"
    using assms faddr_add [of a sb 1] faddr_add [of a sb 2] faddr_add [of a sb 3]
    by (simp add: mem_def ptr_add_def numeral_3_eq_3)
  then show ?thesis by (simp add: eval_nat_numeral)
qed

lemma nat_odd: "0 \<le> e \<Longrightarrow> (e AND 1 \<noteq> 0) = odd (nat e)" for e :: int
  by (auto simp: and_one_eq even_nat_iff odd_iff_mod_2_eq_one)

lemma ent_get_placed:
  assumes ok: "sb_ok sb" and pl: "placed sb fe"
  shows "ent_get sb fe = fat_at sb (nat (entry fe))"
proof (cases "fatent_ops sb")
  case FAT12
  with pl show ?thesis
    using nat_odd [of "entry fe"]
    by (auto simp: placed_def spot_def ent_get_def fat12_ent_get_def fat_at_def bad_mark_def dec12_def masks
        mem_def Let_def)
next
  case FAT16
  with pl show ?thesis using ent_mod(2) [OF ok, of "nat (entry fe)"]
    by (simp add: placed_def spot_def ent_get_def fat16_ent_get_def fat_at_def bad_mark_def get_le_16 Let_def)
next
  case FAT32
  with pl show ?thesis using ent_mod(2) [OF ok, of "nat (entry fe)"]
    by (simp add: placed_def spot_def ent_get_def fat32_ent_get_def fat_at_def bad_mark_def get_le_32 masks Let_def)
qed

section \<open>Finding an entry\<close>

lemma ent_blocknr_addr:
  assumes ok: "sb_ok sb" and e: "0 \<le> e"
  shows "ent_blocknr sb e = (snd (faddr sb (ent_addr sb (nat e))), fst (faddr sb (ent_addr sb (nat e))))"
proof -
  have split: "(nat (int n AND (int (s_blocksize sb) - 1)), fat_start sb + nat (drop_bit (s_blocksize_bits sb) (int n))) =
      (snd (faddr sb n), fst (faddr sb n))" for n
  proof -
    have "int (s_blocksize sb) - 1 = mask (s_blocksize_bits sb)"
      by (simp add: s_blocksize_def mask_eq_exp_minus_1)
    then have "int n AND (int (s_blocksize sb) - 1) = take_bit (s_blocksize_bits sb) (int n)"
      by (simp only: take_bit_eq_mask)
    then show ?thesis
      by (simp add: faddr_def s_blocksize_def take_bit_eq_mod drop_bit_eq_div nat_mod_distrib
          nat_div_distrib nat_power_eq)
  qed
  obtain n where n: "e = int n" using e nonneg_int_cases by blast
  have h: "e + drop_bit 1 e = int (n + n div 2)" by (simp add: n drop_bit_eq_div zdiv_int)
  have p: "push_bit k e = int (2 ^ k * n)" for k by (simp add: n push_bit_eq_mult)
  show ?thesis
  proof (cases "fatent_ops sb")
    case FAT12
    then show ?thesis
      using split [of "n + n div 2"]
      by (simp only: ent_blocknr_def fat12_ent_blocknr_def if_P h ent_addr_def fat_type.case Let_def)
        (simp add: n)
  next
    case FAT16
    then show ?thesis using ok split [of "2 * n"]
      by (simp add: ent_blocknr_def fat_ent_blocknr_def p ent_addr_def sb_ok_def n Let_def mult.commute
          push_bit_eq_mult)
  next
    case FAT32
    then show ?thesis using ok split [of "4 * n"]
      by (simp add: ent_blocknr_def fat_ent_blocknr_def p ent_addr_def sb_ok_def n Let_def mult.commute
          push_bit_eq_mult)
  qed
qed

text \<open>Reading the block of an entry places the pointer, or fails on a block that cannot be read.\<close>

lemma faddr_succ:
  assumes "0 < s_blocksize sb"
  shows "faddr sb (a + 1) = (if a mod s_blocksize sb + 1 < s_blocksize sb
    then (fst (faddr sb a), snd (faddr sb a) + 1) else (fst (faddr sb a) + 1, 0))"
proof -
  have "a mod s_blocksize sb < s_blocksize sb" using assms by simp
  then show ?thesis using faddr_next [of a sb] faddr_wrap [of a sb] by (auto simp: ptr_add_def)
qed

lemma ent_set_ptr_spot:
  assumes ok: "sb_ok sb" and b: "bhs fe = ent_blocks sb e"
  shows "ent_set_ptr sb fe (snd (faddr sb (ent_addr sb e))) = fe\<lparr>ent_u := spot sb e\<rparr>"
proof (cases "fatent_ops sb")
  case FAT12
  have pos: "0 < s_blocksize sb" using sb_ok_blocksize [OF ok] by simp
  show ?thesis
  proof (cases "ent_addr sb e mod s_blocksize sb + 1 < s_blocksize sb")
    case True
    then have "bhs fe = [fst (faddr sb (ent_addr sb e))]" using b by (simp add: ent_blocks_def Let_def)
    moreover have "faddr sb (ent_addr sb e + 1) =
        (fst (faddr sb (ent_addr sb e)), snd (faddr sb (ent_addr sb e)) + 1)"
      using faddr_succ [OF pos] True by simp
    ultimately show ?thesis using FAT12
      by (simp add: ent_set_ptr_def fat12_ent_set_ptr_def spot_def Let_def)
  next
    case False
    then have "bhs fe = [fst (faddr sb (ent_addr sb e)), fst (faddr sb (ent_addr sb e)) + 1]"
      using b FAT12 by (simp add: ent_blocks_def Let_def)
    moreover have "faddr sb (ent_addr sb e + 1) = (fst (faddr sb (ent_addr sb e)) + 1, 0)"
      using faddr_succ [OF pos] False by simp
    ultimately show ?thesis using FAT12
      by (simp add: ent_set_ptr_def fat12_ent_set_ptr_def spot_def Let_def)
  qed
qed (use b in \<open>simp_all add: ent_set_ptr_def fat16_ent_set_ptr_def fat32_ent_set_ptr_def spot_def
    ent_blocks_def Let_def\<close>)

lemma ent_bread_eq:
  assumes ok: "sb_ok sb"
  shows "ent_bread env sb fe (snd (faddr sb (ent_addr sb e))) (fst (faddr sb (ent_addr sb e))) =
    (if \<forall>b\<in>set (ent_blocks sb e). sb_bread env b
     then (0, fe\<lparr>bhs := ent_blocks sb e, ent_u := spot sb e\<rparr>) else (-EIO, fe))"
proof -
  let ?fe = "fe\<lparr>bhs := ent_blocks sb e\<rparr>"
  have o: "snd (faddr sb (ent_addr sb e)) = ent_addr sb e mod s_blocksize sb" by (simp add: faddr_def)
  have sp: "ent_set_ptr sb ?fe (snd (faddr sb (ent_addr sb e))) = ?fe\<lparr>ent_u := spot sb e\<rparr>"
    by (rule ent_set_ptr_spot [OF ok]) simp
  show ?thesis
  proof (cases "fatent_ops sb = FAT12")
    case True
    then have "fat12_ent_set_ptr ?fe (snd (faddr sb (ent_addr sb e))) = ?fe\<lparr>ent_u := spot sb e\<rparr>"
      using sp by (simp add: ent_set_ptr_def)
    with True show ?thesis
      by (simp add: ent_bread_def fat12_ent_bread_def ent_blocks_def Let_def o split: if_splits)
  next
    case False
    with sp show ?thesis by (simp add: ent_bread_def fat_ent_bread_def ent_blocks_def Let_def)
  qed
qed

lemma fat_ent_read_block_eq:
  assumes ok: "sb_ok sb" and e: "0 \<le> entry fe"
  shows "fat_ent_read_block env sb fe =
    (if \<forall>b\<in>set (ent_blocks sb (nat (entry fe))). sb_bread env b
     then (0, \<lparr>entry = entry fe, ent_u = spot sb (nat (entry fe)), bhs = ent_blocks sb (nat (entry fe))\<rparr>)
     else (-EIO, \<lparr>entry = entry fe, ent_u = NoPtr, bhs = []\<rparr>))"
  by (auto simp: fat_ent_read_block_def ent_blocknr_addr [OF ok e] fatent_brelse_def ent_bread_eq [OF ok]
      Let_def)

lemma placed_canonical:
  "0 \<le> e \<Longrightarrow> placed sb \<lparr>entry = e, ent_u = spot sb (nat e), bhs = ent_blocks sb (nat e)\<rparr>"
  by (simp add: placed_def)

section \<open>Reading\<close>

text \<open>A \<open>fat_entry\<close> in use holds no block, or blocks of one place of the table.\<close>

definition cached :: "fat_sb \<Rightarrow> fat_entry \<Rightarrow> bool" where
  "cached sb fe \<longleftrightarrow> (bhs fe = [] \<or> (\<exists>b. bhs fe = [b]) \<or>
     fatent_ops sb = FAT12 \<and> (\<exists>b. bhs fe = [b, b + 1]))"

lemma placed_cached: "placed sb fe \<Longrightarrow> cached sb fe"
  by (auto simp: placed_def ent_blocks_def cached_def Let_def)

lemma fat_ent_update_ptr_ok:
  assumes ok: "sb_ok sb" and c: "cached sb fe"
    and run: "fat_ent_update_ptr sb fe (snd (faddr sb (ent_addr sb e))) (fst (faddr sb (ent_addr sb e))) = (hit, fe')"
  shows "entry fe' = entry fe" and "hit \<Longrightarrow> fe' = fe\<lparr>bhs := ent_blocks sb e, ent_u := spot sb e\<rparr>"
proof -
  let ?b = "fst (faddr sb (ent_addr sb e))"
  have o: "snd (faddr sb (ent_addr sb e)) = ent_addr sb e mod s_blocksize sb" by (simp add: faddr_def)
  have bits: "fat_bits sb = 12 \<longleftrightarrow> fatent_ops sb = FAT12"
    using ok by (auto simp: sb_ok_def split: fat_type.splits)
  have sp: "ent_set_ptr sb fe2 (ent_addr sb e mod s_blocksize sb) = fe2\<lparr>ent_u := spot sb e\<rparr>"
    if "bhs fe2 = ent_blocks sb e" for fe2
    using ent_set_ptr_spot [OF ok that] by (simp add: o)
  have fe: "fe\<lparr>bhs := bhs fe\<rparr> = fe" by simp
  show "entry fe' = entry fe"
    using run by (auto simp: fat_ent_update_ptr_def ent_set_ptr_def fat12_ent_set_ptr_def fat16_ent_set_ptr_def
        fat32_ent_set_ptr_def Let_def split: if_splits fat_type.splits)
  assume hit: hit
  have "\<exists>fe2. fe' = ent_set_ptr sb fe2 (ent_addr sb e mod s_blocksize sb) \<and>
      fe2 = fe\<lparr>bhs := ent_blocks sb e\<rparr>"
  proof (cases "fatent_ops sb = FAT12 \<and> s_blocksize sb \<le> ent_addr sb e mod s_blocksize sb + 1")
    case True
    then have "bhs fe = [?b, ?b + 1]" "fe' = ent_set_ptr sb fe (ent_addr sb e mod s_blocksize sb)"
      using run hit c by (auto simp: fat_ent_update_ptr_def bits o cached_def split: if_splits)
    moreover have "ent_blocks sb e = [?b, ?b + 1]" using True by (simp add: ent_blocks_def Let_def)
    ultimately show ?thesis using fe by metis
  next
    case False
    then have eb: "ent_blocks sb e = [?b]" by (auto simp: ent_blocks_def Let_def)
    show ?thesis
    proof (cases "length (bhs fe) = 2")
      case two: True
      then have "fatent_ops sb = FAT12" "bhs fe = [?b, ?b + 1]"
        using c run hit by (auto simp: cached_def fat_ent_update_ptr_def split: if_splits)
      then have "fe' = ent_set_ptr sb (fe\<lparr>bhs := [?b]\<rparr>) (ent_addr sb e mod s_blocksize sb)"
        using run hit False by (auto simp: fat_ent_update_ptr_def bits o Let_def split: if_splits)
      with eb show ?thesis by simp
    next
      case one: False
      then have "bhs fe = [?b]" using c run hit by (auto simp: cached_def fat_ent_update_ptr_def split: if_splits)
      moreover from this have "fe' = ent_set_ptr sb fe (ent_addr sb e mod s_blocksize sb)"
        using run hit False by (auto simp: fat_ent_update_ptr_def bits o Let_def split: if_splits)
      ultimately show ?thesis using eb fe by metis
    qed
  qed
  then show "fe' = fe\<lparr>bhs := ent_blocks sb e, ent_u := spot sb e\<rparr>" using sp by auto
qed

lemma fat_ent_read_ok:
  assumes ok: "sb_ok sb" and e: "FAT_START_ENT \<le> e" "e < max_cluster sb" and c: "cached sb fe"
  obtains fe' where "fat_ent_read env sb fe e = (fat_at sb (nat e), fe')" and "placed sb fe'" and "entry fe' = e"
  | b fe' where "fat_ent_read env sb fe e = (-EIO, fe')" and "b \<in> set (ent_blocks sb (nat e))"
      and "\<not> sb_bread env b" and "cached sb fe'"
proof -
  have e0: "0 \<le> e" using e by (simp add: FAT_START_ENT_def)
  let ?a = "ent_addr sb (nat e)"
  have c1: "cached sb (fatent_set_entry e fe)" using c by (simp add: cached_def fatent_set_entry_def)
  obtain hit fe1 where u: "fat_ent_update_ptr sb (fatent_set_entry e fe) (snd (faddr sb ?a)) (fst (faddr sb ?a)) =
      (hit, fe1)" by fastforce
  have e1: "entry fe1 = e" using fat_ent_update_ptr_ok(1) [OF ok c1 u] by (simp add: fatent_set_entry_def)
  note unfold = fat_ent_read_def ent_blocknr_addr [OF ok e0] u
  show ?thesis
  proof (cases hit)
    case True
    then have "placed sb fe1"
      using fat_ent_update_ptr_ok(2) [OF ok c1 u] e0 e1 by (simp add: placed_def)
    moreover have "fat_ent_read env sb fe e = (fat_at sb (nat e), fe1)"
      using True e ent_get_placed [OF ok \<open>placed sb fe1\<close>] e1 by (simp add: unfold)
    ultimately show ?thesis using e1 that(1) by blast
  next
    case False
    show ?thesis
    proof (cases "\<forall>b\<in>set (ent_blocks sb (nat e)). sb_bread env b")
      case True
      let ?fe = "(fatent_brelse fe1)\<lparr>bhs := ent_blocks sb (nat e), ent_u := spot sb (nat e)\<rparr>"
      have pl: "placed sb ?fe" using e0 e1 by (simp add: placed_def fatent_brelse_def)
      then have "fat_ent_read env sb fe e = (fat_at sb (nat e), ?fe)"
        using True False e ent_get_placed [OF ok pl] e1 ent_bread_eq [OF ok, of env "fatent_brelse fe1" "nat e"]
        by (simp add: unfold fatent_brelse_def)
      then show ?thesis using pl e1 that(1) by (simp add: fatent_brelse_def)
    next
      case bad: False
      then obtain b where b: "b \<in> set (ent_blocks sb (nat e))" "\<not> sb_bread env b" by blast
      have "fat_ent_read env sb fe e = (-EIO, fatent_brelse fe1)"
        using False e unfolding unfold by (auto simp: u ent_bread_eq [OF ok] bad EIO_def)
      then show ?thesis using b that(2) by (simp add: cached_def fatent_brelse_def)
    qed
  qed
qed

section \<open>Stepping\<close>

lemma fat_ent_next_ok:
  assumes ok: "sb_ok sb" and pl: "placed sb fe" and run: "fat_ent_next sb fe = (go, fe')"
  shows "entry fe' = entry fe + 1" and "go \<Longrightarrow> placed sb fe' \<and> entry fe' < max_cluster sb"
proof -
  obtain rc where r: "ent_next sb fe = (rc, fe')" "go \<longleftrightarrow> rc \<noteq> 0 \<and> entry fe' < max_cluster sb"
    using run by (auto simp: fat_ent_next_def split: prod.splits)
  have pos: "4 dvd s_blocksize sb" "4 \<le> s_blocksize sb" using sb_ok_blocksize [OF ok] by auto
  have "entry fe' = entry fe + 1 \<and> (rc \<noteq> 0 \<longrightarrow> placed sb fe')"
  proof (cases "fatent_ops sb")
    case FAT16
    let ?a = "ent_addr sb (nat (entry fe))"
    have a': "ent_addr sb (nat (entry fe + 1)) = ?a + 2"
      using FAT16 pl by (simp add: ent_addr_def placed_def nat_add_distrib)
    have "faddr sb (?a + 2) = ptr_add (faddr sb ?a) 2" if "?a mod s_blocksize sb < s_blocksize sb - 2"
      using that by (intro faddr_add) simp
    with FAT16 pl r(1) show ?thesis
      by (auto simp: placed_def spot_def ent_blocks_def ent_next_def fat16_ent_next_def a' Let_def faddr_def [of sb ?a] ptr_add_def
          split: if_splits)
  next
    case FAT32
    let ?a = "ent_addr sb (nat (entry fe))"
    have a': "ent_addr sb (nat (entry fe + 1)) = ?a + 4"
      using FAT32 pl by (simp add: ent_addr_def placed_def nat_add_distrib)
    have "faddr sb (?a + 4) = ptr_add (faddr sb ?a) 4" if "?a mod s_blocksize sb < s_blocksize sb - 4"
      using that by (intro faddr_add) simp
    with FAT32 pl r(1) show ?thesis
      by (auto simp: placed_def spot_def ent_blocks_def ent_next_def fat32_ent_next_def a' Let_def faddr_def [of sb ?a] ptr_add_def
          split: if_splits)
  next
    case FAT12
    let ?n = "nat (entry fe)"
    let ?a = "ent_addr sb ?n" and ?d = "if odd ?n then 2 else 1 :: nat"
    have e0: "0 \<le> entry fe" using pl by (simp add: placed_def)
    have a': "ent_addr sb (nat (entry fe + 1)) = ?a + ?d"
      using FAT12 e0 by (auto simp: ent_addr_def nat_add_distrib elim!: evenE oddE)
    have d: "1 + nat (entry fe AND 1) = ?d"
      using nat_odd [OF e0] by (auto simp: and_one_eq split: if_splits)
    have lt: "?a mod s_blocksize sb < s_blocksize sb" using pos by simp
    show ?thesis
    proof (cases "?a mod s_blocksize sb + 1 < s_blocksize sb")
      case True
      have p1: "faddr sb (?a + 1) = ptr_add (faddr sb ?a) 1" using True by (rule faddr_add)
      have step: "faddr sb (?a + ?d) = ptr_add (faddr sb ?a) ?d \<and>
          faddr sb (?a + ?d + 1) = ptr_add (faddr sb ?a) (?d + 1) \<and>
          (?a + ?d) mod s_blocksize sb = ?a mod s_blocksize sb + ?d"
        if "?a mod s_blocksize sb + 1 + ?d < s_blocksize sb - 1"
        using that faddr_add [of ?a sb ?d] faddr_add [of ?a sb "?d + 1"]
        by (simp add: faddr_def ptr_add_def)
      have u: "ent_u fe = Ent12 (faddr sb ?a) (ptr_add (faddr sb ?a) 1)" "bhs fe = [fst (faddr sb ?a)]"
        using pl FAT12 True p1 by (simp_all add: placed_def spot_def ent_blocks_def Let_def)
      have o: "snd (faddr sb ?a) = ?a mod s_blocksize sb" by (simp add: faddr_def)
      have run: "(rc, fe') = (if ?a mod s_blocksize sb + 1 + ?d < s_blocksize sb - 1
          then (1, fe\<lparr>entry := entry fe + 1, ent_u := Ent12 (ptr_add (faddr sb ?a) ?d)
            (ptr_add (faddr sb ?a) (?d + 1))\<rparr>)
          else (0, fe\<lparr>entry := entry fe + 1, ent_u := NoPtr\<rparr>))"
        unfolding r(1) [symmetric] using u d
        by (cases "odd ?n") (simp_all add: ent_next_def fat12_ent_next_def Let_def ptr_add_def o)
      show ?thesis
      proof (cases "?a mod s_blocksize sb + 1 + ?d < s_blocksize sb - 1")
        case go: True
        note st = step [OF go]
        have "spot sb (nat (entry fe + 1)) = Ent12 (ptr_add (faddr sb ?a) ?d) (ptr_add (faddr sb ?a) (?d + 1))"
          using FAT12 st by (simp add: spot_def a' del: One_nat_def)
        moreover have "ent_blocks sb (nat (entry fe + 1)) = [fst (faddr sb ?a)]"
          using st go by (cases "odd ?n") (auto simp: ent_blocks_def a' ptr_add_def Let_def)
        ultimately show ?thesis using run go u e0 by (simp add: placed_def)
      qed (use run in simp)
    next
      case False
      then have wrap: "Suc (?a mod s_blocksize sb) = s_blocksize sb" using lt by simp
      then have p1: "faddr sb (?a + 1) = (fst (faddr sb ?a) + 1, 0)" "(?a + 1) mod s_blocksize sb = 0"
        using faddr_wrap [of ?a sb] by (simp_all add: mod_Suc)
      have far: "faddr sb (?a + 1 + k) = (fst (faddr sb ?a) + 1, k)" if "k < s_blocksize sb" for k
        using faddr_add [of "?a + 1" sb k] that p1 by (simp add: ptr_add_def)
      have here: "faddr sb (?a + ?d) = (fst (faddr sb ?a) + 1, ?d - 1)"
        "faddr sb (?a + ?d + 1) = (fst (faddr sb ?a) + 1, ?d)"
        using far [of "?d - 1"] far [of ?d] pos by (auto simp: algebra_simps split: if_splits)
      then have "(?a + ?d) mod s_blocksize sb = ?d - 1" by (simp add: faddr_def)
      moreover have "nat (entry fe AND 1) = ?d - 1" using d by simp
      ultimately show ?thesis
        using here FAT12 pl r(1) False e0 p1 pos d
        by (auto simp: placed_def spot_def ent_blocks_def ent_next_def fat12_ent_next_def a' d Let_def ptr_add_def split: if_splits)
    qed
  qed
  with r(2) show "entry fe' = entry fe + 1" "go \<Longrightarrow> placed sb fe' \<and> entry fe' < max_cluster sb" by auto
qed

section \<open>Writing\<close>

definition valid_val :: "fat_sb \<Rightarrow> int \<Rightarrow> bool" where
  "valid_val sb v \<longleftrightarrow> v = FAT_ENT_EOF \<or> 0 \<le> v \<and> v < bad_mark sb"

text \<open>A change of the buffers only.\<close>

definition same_sb :: "fat_sb \<Rightarrow> fat_sb \<Rightarrow> bool" where
  "same_sb sb sb' \<longleftrightarrow> (\<exists>f. sb' = sb\<lparr>buffers := f\<rparr>)"

lemma same_sb_refl [simp]: "same_sb sb sb"
  by (auto simp: same_sb_def intro: exI [of _ "buffers sb"])

lemma same_sb_put_byte: "same_sb sb sb' \<Longrightarrow> same_sb sb (put_byte p v sb')"
  by (auto simp: same_sb_def put_byte_def)

lemma same_sb_fields:
  assumes "same_sb sb sb'"
  shows "s_blocksize sb' = s_blocksize sb" "fatent_ops sb' = fatent_ops sb" "faddr sb' = faddr sb"
    "ent_addr sb' = ent_addr sb" "ent_blocks sb' = ent_blocks sb" "spot sb' = spot sb"
    "placed sb' = placed sb" "max_cluster sb' = max_cluster sb" "bad_mark sb' = bad_mark sb"
    "valid_val sb' = valid_val sb" "cached sb' = cached sb"
proof -
  obtain f where f: "sb' = sb\<lparr>buffers := f\<rparr>" using assms by (auto simp: same_sb_def)
  show 1: "s_blocksize sb' = s_blocksize sb" "fatent_ops sb' = fatent_ops sb" "max_cluster sb' = max_cluster sb"
    by (simp_all add: f s_blocksize_def)
  then show 2: "faddr sb' = faddr sb" "ent_addr sb' = ent_addr sb" "bad_mark sb' = bad_mark sb"
    by (simp_all add: fun_eq_iff faddr_def ent_addr_def bad_mark_def f)
  show 3: "ent_blocks sb' = ent_blocks sb" "spot sb' = spot sb"
    by (rule ext, simp add: ent_blocks_def spot_def 1 2 Let_def split: fat_type.split)+
  show "placed sb' = placed sb" "valid_val sb' = valid_val sb" "cached sb' = cached sb"
    by (rule ext, simp add: placed_def valid_val_def cached_def 1 2 3)+
qed

lemma put_le_16:
  assumes "a mod s_blocksize sb + 2 \<le> s_blocksize sb"
  shows "put_le 2 (faddr sb a) v sb = put_byte (faddr sb (a + 1)) (v div 256) (put_byte (faddr sb a) v sb)"
  using assms faddr_add [of a sb 1] by (simp add: numeral_2_eq_2)

lemma put_le_32:
  assumes "a mod s_blocksize sb + 4 \<le> s_blocksize sb"
  shows "put_le 4 (faddr sb a) v sb = put_byte (faddr sb (a + 3)) (v div 256 div 256 div 256)
    (put_byte (faddr sb (a + 2)) (v div 256 div 256) (put_byte (faddr sb (a + 1)) (v div 256)
      (put_byte (faddr sb a) v sb)))"
proof -
  have "put_le (Suc (Suc (Suc (Suc 0)))) (faddr sb a) v sb = put_byte (faddr sb (a + 3)) (v div 256 div 256 div 256)
    (put_byte (faddr sb (a + 2)) (v div 256 div 256) (put_byte (faddr sb (a + 1)) (v div 256)
      (put_byte (faddr sb a) v sb)))"
    using assms faddr_add [of a sb 1] faddr_add [of a sb 2] faddr_add [of a sb 3]
    by (simp add: ptr_add_def numeral_3_eq_3 numeral_2_eq_2)
  then show ?thesis by (simp add: eval_nat_numeral)
qed

lemma bytes_16: "0 \<le> v \<Longrightarrow> v < 65536 \<Longrightarrow> take_bit 8 v + 256 * take_bit 8 (v div 256) = v" for v :: int
  by (simp add: take_bit_eq_mod)

lemma bytes_32:
  "0 \<le> v \<Longrightarrow> v < 4294967296 \<Longrightarrow> take_bit 8 v + 256 * (take_bit 8 (v div 256) +
     256 * (take_bit 8 (v div 256 div 256) + 256 * take_bit 8 (v div 256 div 256 div 256))) = v" for v :: int
  unfolding take_bit_eq_mod by simp

lemma fat32_merge:
  fixes v w :: int
  assumes "0 \<le> v" and "v < 2 ^ 28" and "0 \<le> w" and "w < 2 ^ 32"
  shows "take_bit 28 (v OR push_bit 28 (take_bit 4 (drop_bit 28 w))) = v"
    and "0 \<le> v OR push_bit 28 (take_bit 4 (drop_bit 28 w))"
    and "v OR push_bit 28 (take_bit 4 (drop_bit 28 w)) < 4294967296"
proof -
  let ?x = "v OR push_bit 28 (take_bit 4 (drop_bit 28 w))"
  have sv: "bit v k \<Longrightarrow> k < 28" for k using small_bits [of v 28 k] assms by simp
  show "take_bit 28 ?x = v" by (rule bit_eqI) (auto simp: bit_simps dest: sv)
  show "0 \<le> ?x" using assms(1) by simp
  have "take_bit 32 ?x = ?x" by (rule bit_eqI) (auto simp: bit_simps dest: sv)
  then show "?x < 4294967296" using take_bit_int_less_exp [of 32 ?x] by simp
qed

lemma ent_addr_12_apart:
  assumes "fatent_ops sb = FAT12" and "e \<noteq> n"
  shows "ent_addr sb e \<noteq> ent_addr sb n" "ent_addr sb e + 1 \<noteq> ent_addr sb n + 1"
    and "ent_addr sb e = ent_addr sb n + 1 \<Longrightarrow> even n \<and> e = n + 1"
    and "ent_addr sb e + 1 = ent_addr sb n \<Longrightarrow> odd n \<and> n = e + 1"
proof -
  have a: "ent_addr sb k = (if even k then 3 * (k div 2) else 3 * (k div 2) + 1)" for k
    using assms(1) by (auto simp: ent_addr_def elim!: evenE oddE)
  show "ent_addr sb e \<noteq> ent_addr sb n" "ent_addr sb e + 1 \<noteq> ent_addr sb n + 1"
    "ent_addr sb e = ent_addr sb n + 1 \<Longrightarrow> even n \<and> e = n + 1"
    "ent_addr sb e + 1 = ent_addr sb n \<Longrightarrow> odd n \<and> n = e + 1"
    using assms(2) unfolding a by (auto elim!: evenE oddE split: if_splits) (presburger+)?
qed

lemma ent_put_placed:
  assumes ok: "sb_ok sb" and pl: "placed sb fe" and v: "valid_val sb v"
  shows "sb_ok (ent_put fe v sb)" and "same_sb sb (ent_put fe v sb)"
    and "fat_at (ent_put fe v sb) e = (if e = nat (entry fe) then v else fat_at sb e)"
proof -
  let ?n = "nat (entry fe)" and ?sb = "ent_put fe v sb"
  let ?a = "ent_addr sb ?n"
  have e0: "0 \<le> entry fe" and u: "ent_u fe = spot sb ?n" using pl by (simp_all add: placed_def)
  have main: "sb_ok ?sb \<and> same_sb sb ?sb \<and> fat_at ?sb e = (if e = ?n then v else fat_at sb e)"
  proof (cases "fatent_ops sb")
    case FAT16
    define w where "w = (if v = FAT_ENT_EOF then EOF_FAT16 else v)"
    have w: "0 \<le> w" "w < 65536" "(if BAD_FAT16 \<le> w then FAT_ENT_EOF else w) = v"
      using v FAT16 by (auto simp: w_def valid_val_def bad_mark_def FAT_ENT_EOF_def EOF_FAT16_def BAD_FAT16_def)
    have in1: "?a mod s_blocksize sb + 2 \<le> s_blocksize sb" using ent_mod(2) [OF ok, of ?n] FAT16 by simp
    have run: "?sb = put_byte (faddr sb (?a + 1)) (w div 256) (put_byte (faddr sb ?a) w sb)"
      using u FAT16 by (simp add: ent_put_def spot_def fat16_ent_put_def put_le_16 [OF in1] w_def Let_def)
    have m: "mem ?sb b = (if b = ?a + 1 then take_bit 8 (w div 256) else if b = ?a then take_bit 8 w else mem sb b)" for b
      unfolding run using ok by (simp add: mem_put_byte_at)
    have same: "same_sb sb ?sb" unfolding run by (intro same_sb_put_byte same_sb_refl)
    have "fat_at ?sb e = (if e = ?n then v else fat_at sb e)"
      using w bytes_16 [OF w(1,2)] FAT16
      by (auto simp: fat_at_def m same_sb_fields [OF same] bad_mark_def ent_addr_def Let_def)
    with same ok show ?thesis by (simp add: run)
  next
    case FAT32
    define old where "old = mem sb ?a + 256 * (mem sb (?a + 1) + 256 * (mem sb (?a + 2) + 256 * mem sb (?a + 3)))"
    define x where "x = v OR push_bit 28 (take_bit 4 (drop_bit 28 old))"
    have in1: "?a mod s_blocksize sb + 4 \<le> s_blocksize sb" using ent_mod(2) [OF ok, of ?n] FAT32 by simp
    have vb: "0 \<le> v" "v < 2 ^ 28" "(if BAD_FAT32 \<le> v then FAT_ENT_EOF else v) = v"
      using v FAT32 by (auto simp: valid_val_def bad_mark_def FAT_ENT_EOF_def BAD_FAT32_def)
    have old: "0 \<le> old" "old < 2 ^ 32"
      using mem_bounds [of sb ?a] mem_bounds [of sb "?a + 1"] mem_bounds [of sb "?a + 2"]
        mem_bounds [of sb "?a + 3"] by (simp_all add: old_def)
    note x = fat32_merge [OF vb(1,2) old, folded x_def]
    have run: "?sb = put_byte (faddr sb (?a + 3)) (x div 256 div 256 div 256)
        (put_byte (faddr sb (?a + 2)) (x div 256 div 256) (put_byte (faddr sb (?a + 1)) (x div 256)
          (put_byte (faddr sb ?a) x sb)))"
      using u FAT32 by (simp add: ent_put_def spot_def fat32_ent_put_def masks get_le_32 [OF in1]
          put_le_32 [OF in1] x_def old_def Let_def)
    have m: "mem ?sb b = (if b = ?a + 3 then take_bit 8 (x div 256 div 256 div 256)
        else if b = ?a + 2 then take_bit 8 (x div 256 div 256)
        else if b = ?a + 1 then take_bit 8 (x div 256) else if b = ?a then take_bit 8 x else mem sb b)" for b
      unfolding run using ok by (simp add: mem_put_byte_at)
    have same: "same_sb sb ?sb" unfolding run by (intro same_sb_put_byte same_sb_refl)
    have "fat_at ?sb e = (if e = ?n then v else fat_at sb e)"
    proof (cases "e = ?n")
      case True
      with FAT32 vb(3) bytes_32 [OF x(2,3)] x(1) show ?thesis
        by (simp add: fat_at_def m same_sb_fields [OF same] bad_mark_def Let_def split: if_splits)
    next
      case False
      have "ent_addr sb e + i \<noteq> ?a + j" if "i < 4" "j < 4" for i j
        using that False FAT32 by (simp add: ent_addr_def)
      from this [of _ 0] this [of _ 1] this [of _ 2] this [of _ 3]
      have keep: "mem ?sb (ent_addr sb e + i) = mem sb (ent_addr sb e + i)" if "i < 4" for i
        using that by (simp add: m)
      have "fat_at ?sb e = fat_at sb e"
        using keep [of 0] keep [of 1] keep [of 2] keep [of 3]
        by (simp add: fat_at_def same_sb_fields [OF same] FAT32)
      with False show ?thesis by simp
    qed
    with same ok show ?thesis by (simp add: run)
  next
    case FAT12
    define w where "w = (if v = FAT_ENT_EOF then EOF_FAT12 else v)"
    have w: "0 \<le> w" "w < 4096" "(if BAD_FAT12 \<le> w then FAT_ENT_EOF else w) = v"
      using v FAT12 by (auto simp: w_def valid_val_def bad_mark_def FAT_ENT_EOF_def EOF_FAT12_def BAD_FAT12_def)
    define b0 where "b0 = (if odd ?n then push_bit 4 w OR take_bit 4 (mem sb ?a) else take_bit 8 w)"
    define b1 where "b1 = (if odd ?n then drop_bit 4 w
      else push_bit 4 (take_bit 4 (drop_bit 4 (mem sb (?a + 1)))) OR drop_bit 8 w)"
    have run: "?sb = put_byte (faddr sb (?a + 1)) b1 (put_byte (faddr sb ?a) b0 sb)"
    proof -
      have "get_byte (put_byte (faddr sb ?a) k sb) (faddr sb (?a + 1)) = mem sb (?a + 1)" for k
        using mem_put_byte_at [of sb sb ?a k "?a + 1"] ok by (simp add: mem_def)
      then show ?thesis
        using u FAT12 nat_odd [OF e0]
        by (auto simp: ent_put_def spot_def fat12_ent_put_def masks b0_def b1_def w_def mem_def Let_def)
    qed
    have m: "mem ?sb b = (if b = ?a + 1 then take_bit 8 b1 else if b = ?a then take_bit 8 b0 else mem sb b)" for b
      unfolding run using ok by (simp add: mem_put_byte_at)
    have same: "same_sb sb ?sb" unfolding run by (intro same_sb_put_byte same_sb_refl)
    have "fat_at ?sb e = (if e = ?n then v else fat_at sb e)"
    proof (cases "e = ?n")
      case True
      have "dec12 (odd ?n) (take_bit 8 b0) (take_bit 8 b1) = w"
        using enc12_high(1) [OF w(1,2)] enc12_low(1) [OF w(1,2)] by (simp add: b0_def b1_def)
      with True FAT12 w(3) show ?thesis
        by (simp add: fat_at_def m same_sb_fields [OF same] bad_mark_def Let_def split: if_splits)
    next
      case False
      note ap = ent_addr_12_apart [OF FAT12 False]
      have "dec12 (odd e) (mem ?sb (ent_addr sb e)) (mem ?sb (ent_addr sb e + 1)) =
          dec12 (odd e) (mem sb (ent_addr sb e)) (mem sb (ent_addr sb e + 1))"
      proof -
        consider "ent_addr sb e = ?a + 1" | "ent_addr sb e + 1 = ?a"
          | "ent_addr sb e \<noteq> ?a + 1" "ent_addr sb e + 1 \<noteq> ?a" by blast
        then show ?thesis
        proof cases
          case 1
          then have n: "even ?n" "e = ?n + 1" using ap(3) by auto
          have "drop_bit 4 (take_bit 8 b1) = drop_bit 4 (mem sb (?a + 1))"
            using enc12_low(2) [OF w(1,2) mem_bounds] n by (simp add: b1_def)
          with n 1 show ?thesis by (simp add: m dec12_high [of "take_bit 8 b1" "mem sb (?a + 1)"])
        next
          case 2
          then have n: "odd ?n" "?n = e + 1" using ap(4) by auto
          have "take_bit 4 (take_bit 8 b0) = take_bit 4 (mem sb ?a)"
            using enc12_high(2) [OF w(1,2)] n by (simp add: b0_def)
          with n 2 ap(1) show ?thesis
            by (simp add: m dec12_low [of "mem sb (ent_addr sb e)" _ "take_bit 8 b0" "mem sb ?a"])
        qed (use ap in \<open>simp add: m\<close>)
      qed
      with False FAT12 show ?thesis
        by (simp add: fat_at_def same_sb_fields [OF same] bad_mark_def Let_def)
    qed
    with same ok show ?thesis by (simp add: run)
  qed
  then show "sb_ok ?sb" "same_sb sb ?sb" "fat_at ?sb e = (if e = ?n then v else fat_at sb e)" by auto
qed

end
