(* ===== verification/FatAlloc.thy ===== *)
theory FatAlloc
  imports FatEntry
begin

text \<open>
  Allocation, release and counting of clusters: \<open>fat_alloc_clusters\<close>, \<open>fat_free_clusters\<close> and
  \<open>fat_count_free_clusters\<close> of \<open>src/debugfs/android50/kernel/fs/fat/fatent.c\<close>, on top of the entry
  access of \<open>FatEntry\<close> and the block manager. They run under \<open>fat_lock\<close>. \<open>None\<close> is \<open>BUG\<close>, a read of
  freed memory inside the manager, or a loop that does not end. Readahead is left out, discard
  requests are collected in a list.
\<close>

section \<open>Allocation\<close>

text \<open>\<open>MAX_BUF_PER_PAGE\<close> of the buffer cache: pages of 4096 bytes, buffers of at least 512.\<close>

definition MAX_BUF_PER_PAGE :: nat where "MAX_BUF_PER_PAGE = 8"

record alloc_st =
  al_sb :: fat_sb
  al_ent :: fat_entry
  al_prev :: fat_entry
  al_bhs :: "nat list"
  al_clusters :: "int list"
  al_count :: int

text \<open>The inner loop over the entries of one block; the answer is whether enough are found.\<close>

partial_function (option) alloc_in_block :: "nat \<Rightarrow> alloc_st \<Rightarrow> (bool \<times> alloc_st) option" where
  "alloc_in_block nr st =
     (if ent_get (al_sb st) (al_ent st) \<noteq> FAT_ENT_FREE then None
      else
        (let fe = al_ent st;
             sb = ent_put fe FAT_ENT_EOF (al_sb st);
             sb = (if bhs (al_prev st) \<noteq> [] then ent_put (al_prev st) (entry fe) sb else sb);
             sb = sb\<lparr>prev_free := entry fe\<rparr>;
             sb = (if free_clusters sb \<noteq> -1 then sb\<lparr>free_clusters := free_clusters sb - 1\<rparr> else sb);
             st = st\<lparr>al_sb := sb, al_bhs := fat_collect_bhs (al_bhs st) fe,
                     al_clusters := al_clusters st @ [entry fe]\<rparr>
         in if length (al_clusters st) = nr then Some (True, st)
            else
              (let st = st\<lparr>al_prev := fe, al_count := al_count st + 1\<rparr>
               in if al_count st = max_cluster sb then Some (False, st)
                  else (case fat_ent_next sb fe of (go, fe) \<Rightarrow>
                    if go then alloc_in_block nr (st\<lparr>al_ent := fe\<rparr>)
                    else Some (False, st\<lparr>al_ent := fe\<rparr>)))))"

declare alloc_in_block.simps [code]

definition no_space :: "fat_sb \<Rightarrow> fat_sb" where
  "no_space sb = sb\<lparr>free_clusters := 0, free_clus_valid := True\<rparr>"

partial_function (option) alloc_blocks_loop :: "fat_env \<Rightarrow> nat \<Rightarrow> alloc_st \<Rightarrow> (int \<times> alloc_st) option" where
  "alloc_blocks_loop env nr st =
     (let sb = al_sb st in
      if \<not> al_count st < max_cluster sb then Some (-ENOSPC, st\<lparr>al_sb := no_space sb\<rparr>)
      else
        (let e = (if entry (al_ent st) \<ge> max_cluster sb then FAT_START_ENT else entry (al_ent st))
         in case fat_ent_read_block env sb (fatent_set_entry e (al_ent st)) of (rc, fe) \<Rightarrow>
              if rc \<noteq> 0 then Some (rc, st\<lparr>al_ent := fe\<rparr>)
              else do {
                (full, st) \<leftarrow> alloc_in_block nr (st\<lparr>al_ent := fe\<rparr>);
                (if full then Some (0, st) else alloc_blocks_loop env nr st)
              }))"

declare alloc_blocks_loop.simps [code]

section \<open>Release\<close>

record free_st =
  fr_sb :: fat_sb
  fr_ent :: fat_entry
  fr_bhs :: "nat list"
  fr_first :: int
  fr_dirty :: bool
  fr_discards :: "(int \<times> int) list"

text \<open>\<open>sb_issue_discard\<close> for the run of clusters from \<open>fr_first\<close> to the entry.\<close>

definition discard_run :: "int \<Rightarrow> free_st \<Rightarrow> free_st" where
  "discard_run cluster st =
     (if opt_discard (fr_sb st) \<and> cluster \<noteq> entry (fr_ent st) + 1 then
        st\<lparr>fr_discards := fr_discards st @ [(fr_first st, entry (fr_ent st) - fr_first st + 1)],
           fr_first := cluster\<rparr>
      else st)"

text \<open>Freeing the entry, and giving its cluster to the manager when the free count is known.\<close>

definition free_entry :: "rb_lib \<Rightarrow> free_st \<Rightarrow> free_st option" where
  "free_entry L st =
     (let sb = ent_put (fr_ent st) FAT_ENT_FREE (fr_sb st) in
      if free_clusters sb \<noteq> -1 then do {
        (_, m) \<leftarrow> blocks_mamager_free_blocks L (entry (fr_ent st)) 1 (manager sb);
        Some (st\<lparr>fr_sb := sb\<lparr>free_clusters := free_clusters sb + 1, manager := m\<rparr>, fr_dirty := True\<rparr>)
      }
      else Some (st\<lparr>fr_sb := sb\<rparr>))"

definition sync_and_mirror :: "fat_env \<Rightarrow> nat list \<Rightarrow> fat_sb \<Rightarrow> int \<times> fat_sb" where
  "sync_and_mirror env bs sb =
     (let err = (if ms_synchronous sb then fat_sync_bhs env bs else 0)
      in if err \<noteq> 0 then (err, sb) else fat_mirror_bhs env bs sb)"

definition flush_full :: "fat_env \<Rightarrow> free_st \<Rightarrow> int \<times> free_st" where
  "flush_full env st =
     (if length (fr_bhs st) + length (bhs (fr_ent st)) > MAX_BUF_PER_PAGE then
        (case sync_and_mirror env (fr_bhs st) (fr_sb st) of (err, sb) \<Rightarrow>
          if err \<noteq> 0 then (err, st\<lparr>fr_sb := sb\<rparr>) else (0, st\<lparr>fr_sb := sb, fr_bhs := []\<rparr>))
      else (0, st))"

partial_function (option) free_chain ::
    "fat_env \<Rightarrow> rb_lib \<Rightarrow> int \<Rightarrow> free_st \<Rightarrow> (int \<times> free_st) option" where
  "free_chain env L cluster st =
     (case fat_ent_read env (fr_sb st) (fr_ent st) cluster of (v, fe) \<Rightarrow>
       (let st = st\<lparr>fr_ent := fe\<rparr> in
        if v < 0 then Some (v, st)
        else if v = FAT_ENT_FREE then Some (-EIO, st)
        else do {
          st \<leftarrow> free_entry L (discard_run v st);
          (case flush_full env st of (err, st) \<Rightarrow>
            if err \<noteq> 0 then Some (err, st)
            else
              (let st = st\<lparr>fr_bhs := fat_collect_bhs (fr_bhs st) (fr_ent st)\<rparr>
               in if v \<noteq> FAT_ENT_EOF then free_chain env L v st
                  else (case sync_and_mirror env (fr_bhs st) (fr_sb st) of (err, sb) \<Rightarrow>
                    Some (err, st\<lparr>fr_sb := sb\<rparr>))))
        }))"

declare free_chain.simps [code]

definition fat_free_clusters ::
    "fat_env \<Rightarrow> rb_lib \<Rightarrow> int \<Rightarrow> fat_sb \<Rightarrow> (int \<times> (int \<times> int) list \<times> fat_sb) option" where
  "fat_free_clusters env L cluster sb = do {
     (err, st) \<leftarrow> free_chain env L cluster
       \<lparr>fr_sb = sb, fr_ent = fatent_init, fr_bhs = [], fr_first = cluster, fr_dirty = False,
        fr_discards = []\<rparr>;
     Some (err, fr_discards st, if fr_dirty st then mark_fsinfo_dirty (fr_sb st) else fr_sb st)
   }"

text \<open>
  \<open>needs_sync\<close> is \<open>inode_needs_sync(inode)\<close>. The answer is the error code, the clusters written to
  the array \<open>cluster\<close>, and the state.
\<close>

definition alloc_out ::
    "fat_env \<Rightarrow> rb_lib \<Rightarrow> bool \<Rightarrow> int \<Rightarrow> nat list \<Rightarrow> int list \<Rightarrow> fat_sb \<Rightarrow>
     (int \<times> int list \<times> fat_sb) option" where
  "alloc_out env L needs_sync err bs cs sb =
     (let sb = mark_fsinfo_dirty sb in
      case (if err \<noteq> 0 then (err, sb)
            else
              (let err = (if needs_sync then fat_sync_bhs env bs else 0)
               in if err \<noteq> 0 then (err, sb) else fat_mirror_bhs env bs sb)) of
        (err, sb) \<Rightarrow>
          if err \<noteq> 0 \<and> cs \<noteq> [] then do {
            (_, _, sb) \<leftarrow> fat_free_clusters env L (hd cs) sb;
            Some (err, cs, sb)
          }
          else Some (err, cs, sb))"

definition fat_alloc_clusters ::
    "fat_env \<Rightarrow> rb_lib \<Rightarrow> nat \<Rightarrow> bool \<Rightarrow> nat \<Rightarrow> fat_sb \<Rightarrow> (int \<times> int list \<times> fat_sb) option" where
  "fat_alloc_clusters env L inode needs_sync nr sb =
     (if nr > MAX_BUF_PER_PAGE div 2 then None
      else if free_clusters sb \<noteq> -1 \<and> free_clus_valid sb \<and> free_clusters sb < int nr then
        Some (-ENOSPC, [], sb)
      else do {
        (saved_cluster, m) \<leftarrow> blocks_mamager_alloc_blocks L inode (int nr) (manager sb);
        let sb = sb\<lparr>manager := m\<rparr>;
        (if saved_cluster = -1 then alloc_out env L needs_sync (-ENOSPC) [] [] (no_space sb)
         else do {
           let sb = sb\<lparr>prev_free := saved_cluster - 1\<rparr>;
           (err, st) \<leftarrow> alloc_blocks_loop env nr
             \<lparr>al_sb = sb, al_ent = fatent_set_entry (prev_free sb + 1) fatent_init,
              al_prev = fatent_init, al_bhs = [], al_clusters = [], al_count = FAT_START_ENT\<rparr>;
           alloc_out env L needs_sync err (al_bhs st) (al_clusters st) (al_sb st)
         })
      })"

section \<open>Counting\<close>

record count_st =
  ct_sb :: fat_sb
  ct_ent :: fat_entry
  ct_free :: int
  ct_start :: int
  ct_count :: int

definition give_run :: "rb_lib \<Rightarrow> count_st \<Rightarrow> count_st option" where
  "give_run L st =
     (if ct_count st \<noteq> 0 then do {
        (_, m) \<leftarrow> blocks_mamager_free_blocks L (ct_start st) (ct_count st) (manager (ct_sb st));
        Some (st\<lparr>ct_sb := (ct_sb st)\<lparr>manager := m\<rparr>\<rparr>)
      }
      else Some st)"

definition count_entry :: "rb_lib \<Rightarrow> count_st \<Rightarrow> count_st option" where
  "count_entry L st =
     (if ent_get (ct_sb st) (ct_ent st) = FAT_ENT_FREE then
        Some (st\<lparr>ct_free := ct_free st + 1,
                 ct_start := (if ct_count st = 0 then entry (ct_ent st) else ct_start st),
                 ct_count := ct_count st + 1\<rparr>)
      else do {
        st \<leftarrow> give_run L st;
        Some (st\<lparr>ct_start := 0, ct_count := 0\<rparr>)
      })"

partial_function (option) count_in_block :: "rb_lib \<Rightarrow> count_st \<Rightarrow> count_st option" where
  "count_in_block L st = do {
     st \<leftarrow> count_entry L st;
     (case fat_ent_next (ct_sb st) (ct_ent st) of (go, fe) \<Rightarrow>
       if go then count_in_block L (st\<lparr>ct_ent := fe\<rparr>) else Some (st\<lparr>ct_ent := fe\<rparr>))
   }"

declare count_in_block.simps [code]

partial_function (option) count_blocks :: "fat_env \<Rightarrow> rb_lib \<Rightarrow> count_st \<Rightarrow> (int \<times> count_st) option" where
  "count_blocks env L st =
     (if \<not> entry (ct_ent st) < max_cluster (ct_sb st) then Some (0, st)
      else
        (case fat_ent_read_block env (ct_sb st) (ct_ent st) of (rc, fe) \<Rightarrow>
          if rc \<noteq> 0 then Some (rc, st\<lparr>ct_ent := fe\<rparr>)
          else do {
            st \<leftarrow> count_in_block L (st\<lparr>ct_ent := fe\<rparr>);
            count_blocks env L st
          }))"

declare count_blocks.simps [code]

definition fat_count_free_clusters :: "fat_env \<Rightarrow> rb_lib \<Rightarrow> fat_sb \<Rightarrow> (int \<times> fat_sb) option" where
  "fat_count_free_clusters env L sb = do {
     m \<leftarrow> blocks_mamager_free_all L (manager sb);
     let sb = sb\<lparr>manager := m\<rparr>;
     (if free_clusters sb \<noteq> -1 \<and> free_clus_valid sb then Some (0, sb)
      else do {
        (err, st) \<leftarrow> count_blocks env L
          \<lparr>ct_sb = sb, ct_ent = fatent_set_entry FAT_START_ENT fatent_init, ct_free = 0,
           ct_start = 0, ct_count = 0\<rparr>;
        (if err \<noteq> 0 then Some (err, ct_sb st)
         else do {
           st \<leftarrow> give_run L st;
           Some (0, mark_fsinfo_dirty
             ((ct_sb st)\<lparr>free_clusters := ct_free st, free_clus_valid := True\<rparr>))
         })
      })
   }"

end
