(* ===== verification/FreeSpace.thy ===== *)
theory FreeSpace
  imports Prelude
begin

text \<open>
  The interface between the FAT code and its supply of free clusters, as two contracts over a set
  \<open>pool s\<close> of free clusters: a source, from which ranges are taken, and a sink, to which ranges are
  given. The block manager provides both (\<open>BlockManagerProof\<close>); \<open>fat_alloc_clusters\<close> is a client of
  the source, \<open>fat_count_free_clusters\<close> and \<open>fat_free_clusters\<close> are clients of the sink.
\<close>

section \<open>Sequences of requests\<close>

fun take_all ::
    "('i \<Rightarrow> int \<Rightarrow> 's \<Rightarrow> (int \<times> 's) option) \<Rightarrow> ('i \<times> int) list \<Rightarrow> 's \<Rightarrow> ((int \<times> int) list \<times> 's) option" where
  "take_all tk [] s = Some ([], s)"
| "take_all tk ((i, c) # rs) s =
     Option.bind (tk i c s) (\<lambda>(b, s). Option.bind (take_all tk rs s) (\<lambda>(gs, s).
       Some (if b = -1 then gs else (b, c) # gs, s)))"

fun give_all :: "(int \<Rightarrow> int \<Rightarrow> 's \<Rightarrow> 's option) \<Rightarrow> (int \<times> int) list \<Rightarrow> 's \<Rightarrow> 's option" where
  "give_all give [] s = Some s"
| "give_all give ((b, c) # rs) s = Option.bind (give b c s) (give_all give rs)"

text \<open>The clusters of a list of ranges, and whether the ranges are nonempty and disjoint.\<close>

fun clusters :: "(int \<times> int) list \<Rightarrow> int set" where
  "clusters [] = {}"
| "clusters ((b, c) # rs) = {b..<b + c} \<union> clusters rs"

fun apart :: "(int \<times> int) list \<Rightarrow> bool" where
  "apart [] \<longleftrightarrow> True"
| "apart ((b, c) # rs) \<longleftrightarrow> 0 < c \<and> {b..<b + c} \<inter> clusters rs = {} \<and> apart rs"

section \<open>The contracts\<close>

locale cluster_source =
  fixes tk :: "'i \<Rightarrow> int \<Rightarrow> 's \<Rightarrow> (int \<times> 's) option"
    and pool :: "'s \<Rightarrow> int set"
    and ok :: "'s \<Rightarrow> bool"
  assumes take_law: "ok s \<Longrightarrow> 0 < c \<Longrightarrow>
      \<exists>b s'. tk i c s = Some (b, s') \<and> ok s' \<and>
        (b = -1 \<and> pool s' = pool s \<or> {b..<b + c} \<subseteq> pool s \<and> pool s' = pool s - {b..<b + c})"
    and pool_law: "ok s \<Longrightarrow> pool s \<subseteq> {0..}"
begin

lemma take_cases:
  assumes "ok s" and "0 < c"
  obtains s' where "tk i c s = Some (-1, s')" "ok s'" "pool s' = pool s"
  | b s' where "tk i c s = Some (b, s')" "ok s'" "0 \<le> b" "{b..<b + c} \<subseteq> pool s"
      "pool s' = pool s - {b..<b + c}"
proof -
  obtain b s' where t: "tk i c s = Some (b, s')" "ok s'"
    "b = -1 \<and> pool s' = pool s \<or> {b..<b + c} \<subseteq> pool s \<and> pool s' = pool s - {b..<b + c}"
    using take_law [OF assms] by blast
  have "0 \<le> b" if "{b..<b + c} \<subseteq> pool s"
    using that pool_law [OF assms(1)] assms(2) by force
  with t that show ?thesis by blast
qed

lemma takes_are_apart:
  "ok s \<Longrightarrow> \<forall>(i, c)\<in>set rs. 0 < c \<Longrightarrow>
     \<exists>gs s'. take_all tk rs s = Some (gs, s') \<and> ok s' \<and> apart gs \<and> clusters gs \<subseteq> pool s \<and>
       pool s' = pool s - clusters gs"
proof (induction rs arbitrary: s)
  case (Cons r rs)
  obtain i c where r: "r = (i, c)" by fastforce
  with Cons.prems have c: "0 < c" by auto
  show ?case
  proof (rule take_cases [OF Cons.prems(1) c, of i])
    fix s' assume "tk i c s = Some (-1, s')" "ok s'" "pool s' = pool s"
    with Cons.IH [of s'] Cons.prems(2) r show ?thesis by auto
  next
    fix b s' assume t: "tk i c s = Some (b, s')" "ok s'" "0 \<le> b" "{b..<b + c} \<subseteq> pool s"
      "pool s' = pool s - {b..<b + c}"
    from Cons.IH [OF t(2)] Cons.prems(2) obtain gs s'' where
      g: "take_all tk rs s' = Some (gs, s'')" "ok s''" "apart gs" "clusters gs \<subseteq> pool s'"
        "pool s'' = pool s' - clusters gs" by auto
    have "take_all tk (r # rs) s = Some ((b, c) # gs, s'')" using r t(1,3) g(1) by simp
    moreover have "apart ((b, c) # gs)" using c g(3,4) t(5) by auto
    moreover have "clusters ((b, c) # gs) \<subseteq> pool s" using g(4) t(4,5) by auto
    moreover have "pool s'' = pool s - clusters ((b, c) # gs)" using g(5) t(5) by auto
    ultimately show ?thesis using g(2) by blast
  qed
qed simp

end

locale cluster_sink =
  fixes give :: "int \<Rightarrow> int \<Rightarrow> 's \<Rightarrow> 's option"
    and pool :: "'s \<Rightarrow> int set"
    and ready :: "'s \<Rightarrow> bool"
  assumes give_law: "ready s \<Longrightarrow> 0 < c \<Longrightarrow> {b..<b + c} \<inter> pool s = {} \<Longrightarrow>
      \<exists>s'. give b c s = Some s' \<and> ready s' \<and> pool s' = pool s \<union> {b..<b + c}"
begin

lemma gives_add_up:
  "ready s \<Longrightarrow> apart rs \<Longrightarrow> clusters rs \<inter> pool s = {} \<Longrightarrow>
     \<exists>s'. give_all give rs s = Some s' \<and> ready s' \<and> pool s' = pool s \<union> clusters rs"
proof (induction rs arbitrary: s)
  case (Cons r rs)
  obtain b c where r: "r = (b, c)" by fastforce
  with Cons.prems have pre: "0 < c" "{b..<b + c} \<inter> pool s = {}" by auto
  from give_law [OF Cons.prems(1) pre] obtain s' where
    s': "give b c s = Some s'" "ready s'" "pool s' = pool s \<union> {b..<b + c}" by blast
  have "clusters rs \<inter> pool s' = {}" using Cons.prems(2,3) r s'(3) by auto
  with Cons.IH [OF s'(2)] Cons.prems(2) r obtain s'' where
    "give_all give rs s' = Some s''" "ready s''" "pool s'' = pool s' \<union> clusters rs" by auto
  with r s' show ?case by auto
qed simp

end

end
