(* ===== verification/BlockManagerProof.thy ===== *)
theory BlockManagerProof
  imports BlockManager FreeSpace
begin

text \<open>
  The block manager against its abstraction, the set of free clusters \<open>free_set\<close>: the nodes of the
  tree are ordered, disjoint and alive, giving a range back adds it to the set, taking one removes
  it. \<open>lm_ok\<close> and \<open>linked\<close> say that the pointers the manager keeps into the heap are valid.
\<close>

section \<open>Ranges on a heap\<close>

definition rlo :: "(nat \<Rightarrow> blocks_mamager option) \<Rightarrow> nat \<Rightarrow> int" where
  "rlo h n = bm_start (the (h n))"

definition rhi :: "(nat \<Rightarrow> blocks_mamager option) \<Rightarrow> nat \<Rightarrow> int" where
  "rhi h n = bm_start (the (h n)) + bm_length (the (h n))"

definition spaced :: "(nat \<Rightarrow> blocks_mamager option) \<Rightarrow> nat list \<Rightarrow> bool" where
  "spaced h xs \<longleftrightarrow> sorted_wrt (\<lambda>a b. rhi h a \<le> rlo h b) xs \<and> (\<forall>a\<in>set xs. h a \<noteq> None \<and> rlo h a < rhi h a)"

definition ranges :: "(nat \<Rightarrow> blocks_mamager option) \<Rightarrow> nat list \<Rightarrow> int set" where
  "ranges h xs = (\<Union>a\<in>set xs. {rlo h a..<rhi h a})"

lemma range_upd [simp]:
  "rlo (h(n := Some nd)) m = (if m = n then bm_start nd else rlo h m)"
  "rhi (h(n := Some nd)) m = (if m = n then bm_start nd + bm_length nd else rhi h m)"
  "m \<noteq> n \<Longrightarrow> rlo (h(n := None)) m = rlo h m"
  "m \<noteq> n \<Longrightarrow> rhi (h(n := None)) m = rhi h m"
  by (simp_all add: rlo_def rhi_def)

lemma spaced_Nil [simp]: "spaced h []"
  by (simp add: spaced_def)

lemma spaced_append: "spaced h (xs @ ys) \<longleftrightarrow>
    spaced h xs \<and> spaced h ys \<and> (\<forall>x\<in>set xs. \<forall>y\<in>set ys. rhi h x \<le> rlo h y)"
  by (auto simp: spaced_def sorted_wrt_append)

lemma spaced_Cons: "spaced h (x # xs) \<longleftrightarrow>
    h x \<noteq> None \<and> rlo h x < rhi h x \<and> spaced h xs \<and> (\<forall>y\<in>set xs. rhi h x \<le> rlo h y)"
  by (auto simp: spaced_def)

lemma ranges_simps [simp]:
  "ranges h [] = {}" "ranges h (x # xs) = {rlo h x..<rhi h x} \<union> ranges h xs"
  "ranges h (xs @ ys) = ranges h xs \<union> ranges h ys"
  by (auto simp: ranges_def)

lemma spaced_upd: "n \<notin> set xs \<Longrightarrow> spaced (h(n := v)) xs = spaced h xs"
  by (induction xs) (auto simp: spaced_Cons rlo_def rhi_def)

lemma ranges_upd: "n \<notin> set xs \<Longrightarrow> ranges (h(n := v)) xs = ranges h xs"
  by (induction xs) (auto simp: rlo_def rhi_def)

lemma spaced_mono_start:
  "spaced h (xs @ n # ys) \<Longrightarrow> x \<in> set xs \<Longrightarrow> rhi h x \<le> rlo h n \<and> rlo h x < rhi h x"
  "spaced h (xs @ n # ys) \<Longrightarrow> y \<in> set ys \<Longrightarrow> rhi h n \<le> rlo h y \<and> rlo h y < rhi h y"
  by (auto simp: spaced_def sorted_wrt_append)

lemma in_ranges: "x \<in> set xs \<Longrightarrow> {rlo h x..<rhi h x} \<subseteq> ranges h xs"
  by (auto simp: ranges_def)

text \<open>A nonempty range that avoids a nonempty range lies on one side of it.\<close>

lemma disjoint_side:
  "{a..<b} \<inter> {c..<d} = {} \<Longrightarrow> a < b \<Longrightarrow> c < d \<Longrightarrow> b \<le> c \<or> d \<le> (a::int)"
proof (rule ccontr)
  assume dj: "{a..<b} \<inter> {c..<d} = {}" and "a < b" "c < d" and "\<not> (b \<le> c \<or> d \<le> a)"
  then have "max a c \<in> {a..<b} \<inter> {c..<d}" by auto
  with dj show False by blast
qed

lemma spaced_extend:
  assumes "spaced h (xs @ n # ys)" and "n \<notin> set xs" and "n \<notin> set ys"
    and "{s..<e} \<inter> ranges h (xs @ ys) = {}"
    and "s \<le> rlo h n" and "rhi h n \<le> e" and "bm_start nd = s" and "bm_start nd + bm_length nd = e"
  shows "spaced (h(n := Some nd)) (xs @ n # ys)"
proof -
  have ne: "s < e" using assms(1,5,6) by (simp add: spaced_append spaced_Cons)
  have l: "rhi h x \<le> s" if "x \<in> set xs" for x
  proof -
    have "{s..<e} \<inter> {rlo h x..<rhi h x} = {}"       using assms(4) in_ranges [of x "xs @ ys" h, unfolded set_append] that by blast
    with spaced_mono_start(1) [OF assms(1) that] ne assms(6) disjoint_side [of s e "rlo h x" "rhi h x"]
    show ?thesis using assms(1) by (auto simp: spaced_append spaced_Cons)
  qed
  have r: "e \<le> rlo h y" if "y \<in> set ys" for y
  proof -
    have "{s..<e} \<inter> {rlo h y..<rhi h y} = {}"       using assms(4) in_ranges [of y "xs @ ys" h, unfolded set_append] that by blast
    with spaced_mono_start(2) [OF assms(1) that] ne assms(5) disjoint_side [of s e "rlo h y" "rhi h y"]
    show ?thesis using assms(1) by (auto simp: spaced_append spaced_Cons)
  qed
  have "x \<noteq> n" if "x \<in> set xs \<union> set ys" for x using that assms(2,3) by blast
  with l r ne assms show ?thesis by (auto simp: spaced_append spaced_Cons spaced_upd)
qed

lemma spaced_insert:
  assumes "spaced h (xs @ ys)" and "h n \<noteq> None" and "rlo h n < rhi h n"
    and "{rlo h n..<rhi h n} \<inter> ranges h (xs @ ys) = {}"
    and "\<forall>x\<in>set xs. rlo h x \<le> rlo h n" and "\<forall>y\<in>set ys. rlo h n < rlo h y"
  shows "spaced h (xs @ n # ys)"
proof -
  have alive: "rlo h x < rhi h x" if "x \<in> set (xs @ ys)" for x
    using assms(1) that by (auto simp: spaced_def)
  have dj: "rhi h n \<le> rlo h x \<or> rhi h x \<le> rlo h n" if "x \<in> set (xs @ ys)" for x
    using disjoint_side [of "rlo h n" "rhi h n" "rlo h x" "rhi h x"] alive [OF that] assms(3,4)
      in_ranges [OF that, of h] by blast
  have "rhi h x \<le> rlo h n" if "x \<in> set xs" for x
    using dj [of x] alive [of x] that assms(5) assms(3) by fastforce
  moreover have "rhi h n \<le> rlo h y" if "y \<in> set ys" for y
    using dj [of y] alive [of y] that assms(6) by fastforce
  ultimately show ?thesis using assms by (simp add: spaced_append spaced_Cons)
qed

section \<open>Invariants\<close>

abbreviation nodes :: "bm_state \<Rightarrow> nat list" where
  "nodes st \<equiv> inorder (start_root st)"

definition bm_wf :: "bm_state \<Rightarrow> bool" where
  "bm_wf st \<longleftrightarrow> distinct (nodes st) \<and> spaced (bm_heap st) (nodes st) \<and>
     (\<forall>n. bm_heap st n \<noteq> None \<longrightarrow> n \<in> set (nodes st)) \<and> (\<forall>n\<in>set (nodes st). n < bm_brk st) \<and>
     rb_count st = int (length (nodes st))"

definition free_set :: "bm_state \<Rightarrow> int set" where
  "free_set st = ranges (bm_heap st) (nodes st)"

definition lm_ok :: "bm_state \<Rightarrow> bool" where
  "lm_ok st \<longleftrightarrow> (case last_merged st of None \<Rightarrow> True | Some n \<Rightarrow> n \<in> set (nodes st))"

definition linked :: "bm_state \<Rightarrow> bool" where
  "linked st \<longleftrightarrow> (\<forall>i n. inode_node st i = Some n \<longrightarrow>
     (\<exists>nd. bm_heap st n = Some nd \<and> bm_inode nd = Some i))"

lemma bm_wf_init: "bm_wf (bm_init reg ms)" "free_set (bm_init reg ms) = {}"
    "lm_ok (bm_init reg ms)" "linked (bm_init reg ms)"
  by (simp_all add: bm_wf_def bm_init_def free_set_def lm_ok_def linked_def)

lemma bm_wf_alive: "bm_wf st \<Longrightarrow> n \<in> set (nodes st) \<Longrightarrow> \<exists>nd. bm_heap st n = Some nd \<and> 0 < bm_length nd"
  by (auto simp: bm_wf_def spaced_def rlo_def rhi_def)

lemma bm_wf_cong:
  "start_root st' = start_root st \<Longrightarrow> rb_count st' = rb_count st \<Longrightarrow> bm_heap st' = bm_heap st \<Longrightarrow>
   bm_brk st' = bm_brk st \<Longrightarrow> bm_wf st' = bm_wf st"
  by (simp add: bm_wf_def)

lemma free_set_cong:
  "start_root st' = start_root st \<Longrightarrow> bm_heap st' = bm_heap st \<Longrightarrow> free_set st' = free_set st"
  by (simp add: free_set_def)

lemma bm_put_simps [simp]:
  "start_root (bm_put n nd st) = start_root st" "rb_count (bm_put n nd st) = rb_count st"
  "last_merged (bm_put n nd st) = last_merged st" "bm_heap (bm_put n nd st) = (bm_heap st)(n \<mapsto> nd)"
  "bm_brk (bm_put n nd st) = bm_brk st" "inode_node (bm_put n nd st) = inode_node st"
  "inode_regular (bm_put n nd st) = inode_regular st" "bm_mallocs (bm_put n nd st) = bm_mallocs st"
  "start_root (set_inode_node i p st) = start_root st" "rb_count (set_inode_node i p st) = rb_count st"
  "last_merged (set_inode_node i p st) = last_merged st" "bm_heap (set_inode_node i p st) = bm_heap st"
  "bm_brk (set_inode_node i p st) = bm_brk st" "bm_mallocs (set_inode_node i p st) = bm_mallocs st"
  "inode_node (set_inode_node i p st) = (inode_node st)(i := p)"
  "inode_regular (set_inode_node i p st) = inode_regular st"
  "start_root (kfree n st) = start_root st" "rb_count (kfree n st) = rb_count st"
  "last_merged (kfree n st) = last_merged st" "bm_heap (kfree n st) = (bm_heap st)(n := None)"
  "bm_brk (kfree n st) = bm_brk st" "inode_node (kfree n st) = inode_node st"
  "inode_regular (kfree n st) = inode_regular st" "bm_mallocs (kfree n st) = bm_mallocs st"
  by (simp_all add: bm_put_def set_inode_node_def kfree_def)

text \<open>Overwriting a node with one of the same range changes nothing the invariant sees.\<close>

lemma bm_put_same_range:
  assumes "bm_heap st n = Some nd" and "bm_start nd' = bm_start nd" and "bm_length nd' = bm_length nd"
  shows "bm_wf (bm_put n nd' st) = bm_wf st" and "free_set (bm_put n nd' st) = free_set st"
proof -
  have "rlo ((bm_heap st)(n \<mapsto> nd')) = rlo (bm_heap st)" "rhi ((bm_heap st)(n \<mapsto> nd')) = rhi (bm_heap st)"
    using assms by (auto simp: rlo_def rhi_def fun_eq_iff)
  then show "bm_wf (bm_put n nd' st) = bm_wf st" "free_set (bm_put n nd' st) = free_set st"
    using assms(1) by (auto simp: bm_wf_def spaced_def free_set_def ranges_def)
qed

lemma bm_put_extend:
  assumes wf: "bm_wf st" and n: "n \<in> set (nodes st)" and nd: "bm_heap st n = Some nd"
    and dj: "{s..<e} \<inter> free_set st = {}" and se: "s < e"
    and ext: "e = bm_start nd \<and> bm_start nd' = s \<and> bm_length nd' = bm_length nd + (e - s) \<or>
      s = bm_start nd + bm_length nd \<and> bm_start nd' = bm_start nd \<and> bm_length nd' = bm_length nd + (e - s)"
  shows "bm_wf (bm_put n nd' st)" and "free_set (bm_put n nd' st) = free_set st \<union> {s..<e}"
proof -
  from split_list [OF n] obtain xs ys where split: "nodes st = xs @ n # ys" by blast
  with wf have out: "n \<notin> set xs" "n \<notin> set ys" and sp: "spaced (bm_heap st) (xs @ n # ys)"
    by (auto simp: bm_wf_def)
  have r: "rlo (bm_heap st) n = bm_start nd" "rhi (bm_heap st) n = bm_start nd + bm_length nd"
    using nd by (auto simp: rlo_def rhi_def)
  have pos: "0 < bm_length nd" using sp r by (auto simp: spaced_append spaced_Cons)
  have fs: "free_set st = ranges (bm_heap st) (xs @ ys) \<union> {bm_start nd..<bm_start nd + bm_length nd}"
    using r by (auto simp: free_set_def split)
  have dj2: "{bm_start nd..<bm_start nd + bm_length nd} \<inter> ranges (bm_heap st) (xs @ ys) = {}"
  proof -
    have "{rlo (bm_heap st) x..<rhi (bm_heap st) x} \<inter> {bm_start nd..<bm_start nd + bm_length nd} = {}"
      if "x \<in> set (xs @ ys)" for x
      using that spaced_mono_start [OF sp, of x] by (auto simp: r)
    then show ?thesis unfolding ranges_def by blast
  qed
  have un: "{bm_start nd'..<bm_start nd' + bm_length nd'} =
      {bm_start nd..<bm_start nd + bm_length nd} \<union> {s..<e}"
    using ext se pos by auto
  have "spaced ((bm_heap st)(n \<mapsto> nd')) (xs @ n # ys)"
  proof (rule spaced_extend [OF sp out _ _ _ refl refl])
    show "{bm_start nd'..<bm_start nd' + bm_length nd'} \<inter> ranges (bm_heap st) (xs @ ys) = {}"
      unfolding un using dj dj2 fs by blast
  qed (use ext r se pos in auto)
  with wf n split show "bm_wf (bm_put n nd' st)" by (auto simp: bm_wf_def)
  show "free_set (bm_put n nd' st) = free_set st \<union> {s..<e}"
    using un out fs by (auto simp: free_set_def split ranges_upd)
qed

section \<open>Tree operations\<close>

lemma rb_link_ok:
  assumes "\<forall>x\<in>set (inorder t). bm_heap st x \<noteq> None" and "bm_heap st n \<noteq> None"
    and "sorted_wrt (\<lambda>a b. rlo (bm_heap st) a < rlo (bm_heap st) b) (inorder t)"
  shows "\<exists>t' xs ys. rb_link st n t = Some t' \<and> inorder t = xs @ ys \<and> inorder t' = xs @ n # ys \<and>
    (\<forall>x\<in>set xs. rlo (bm_heap st) x \<le> rlo (bm_heap st) n) \<and>
    (\<forall>y\<in>set ys. rlo (bm_heap st) n < rlo (bm_heap st) y)"
  using assms
proof (induction t)
  case Leaf
  then show ?case by auto
next
  case (Node l p r)
  let ?b = "rlo (bm_heap st)"
  have c: "blocks_mamager_add_compare st n p = Some (?b n - ?b p)"
    using Node.prems(1,2) by (auto simp: blocks_mamager_add_compare_def rlo_def)
  have so: "\<forall>x\<in>set (inorder l). ?b x < ?b p" "\<forall>y\<in>set (inorder r). ?b p < ?b y"
    using Node.prems(3) by (auto simp: sorted_wrt_append)
  show ?case
  proof (cases "?b n < ?b p")
    case True
    obtain t' xs ys where l: "rb_link st n l = Some t'" "inorder l = xs @ ys" "inorder t' = xs @ n # ys"
      "\<forall>x\<in>set xs. ?b x \<le> ?b n" "\<forall>y\<in>set ys. ?b n < ?b y"
      using Node.IH(1) Node.prems by (auto simp: sorted_wrt_append)
    have "rb_link st n (Node l p r) = Some (Node t' p r)" using c True l(1) by simp
    moreover have "inorder (Node l p r) = xs @ ys @ p # inorder r" using l(2) by simp
    moreover have "inorder (Node t' p r) = xs @ n # ys @ p # inorder r" using l(3) by simp
    moreover have "\<forall>y\<in>set (ys @ p # inorder r). ?b n < ?b y" using l(5) so True by auto
    ultimately show ?thesis using l(4) by blast
  next
    case False
    obtain t' xs ys where l: "rb_link st n r = Some t'" "inorder r = xs @ ys" "inorder t' = xs @ n # ys"
      "\<forall>x\<in>set xs. ?b x \<le> ?b n" "\<forall>y\<in>set ys. ?b n < ?b y"
      using Node.IH(2) Node.prems by (auto simp: sorted_wrt_append)
    have "rb_link st n (Node l p r) = Some (Node l p t')" using c False l(1) by simp
    moreover have "inorder (Node l p r) = (inorder l @ p # xs) @ ys" using l(2) by simp
    moreover have "inorder (Node l p t') = (inorder l @ p # xs) @ n # ys" using l(3) by simp
    moreover have "\<forall>x\<in>set (inorder l @ p # xs). ?b x \<le> ?b n" using l(4) so False by fastforce
    ultimately show ?thesis using l(5) by blast
  qed
qed

lemma spaced_starts:
  "spaced h xs \<Longrightarrow> sorted_wrt (\<lambda>a b. rlo h a < rlo h b) xs"
  by (induction xs) (simp, fastforce simp: spaced_Cons)

text \<open>What the tree operations leave alone.\<close>

definition bm_frame :: "bm_state \<Rightarrow> bm_state \<Rightarrow> bool" where
  "bm_frame st st' \<longleftrightarrow> inode_node st' = inode_node st \<and> inode_regular st' = inode_regular st"

lemma new_blocks_mamager_ok:
  assumes L: "rb_lib_ok L" and wf: "bm_wf st" and dj: "{s..<s + c} \<inter> free_set st = {}" and c: "0 < c"
  obtains r st' where "new_blocks_mamager L s c st = Some (r, st')" and "bm_wf st'"
    and "inode_node st' = inode_node st" and "inode_regular st' = inode_regular st"
    and "last_merged st' = last_merged st"
    and "r = None \<Longrightarrow> bm_heap st' = bm_heap st \<and> start_root st' = start_root st"
    and "r = None \<Longrightarrow> \<not> never_fails (bm_mallocs st)"
    and "never_fails (bm_mallocs st) \<Longrightarrow> never_fails (bm_mallocs st')"
    and "\<And>n. r = Some n \<Longrightarrow> n \<in> set (nodes st') \<and> n \<notin> set (nodes st) \<and>
           set (nodes st) \<subseteq> set (nodes st') \<and> free_set st' = free_set st \<union> {s..<s + c} \<and>
           bm_heap st' = (bm_heap st)(n \<mapsto> \<lparr>bm_start = s, bm_length = c, bm_inode = None\<rparr>)"
proof -
  obtain ok ms where ms: "alloc_next (bm_mallocs st) = (ok, ms)" by fastforce
  have nf: "never_fails (bm_mallocs st) \<Longrightarrow> ok \<and> never_fails ms"
    using alloc_next_never_fails [of "bm_mallocs st"] ms by auto
  show ?thesis
  proof (cases ok)
    case False
    then have "new_blocks_mamager L s c st = Some (None, st\<lparr>bm_mallocs := ms\<rparr>)"
      by (simp add: new_blocks_mamager_def ms)
    moreover have "bm_wf (st\<lparr>bm_mallocs := ms\<rparr>)" using wf by (simp add: bm_wf_def)
    ultimately show ?thesis using False nf
      by (intro that [of None "st\<lparr>bm_mallocs := ms\<rparr>"]) auto
  next
    case True
    define n where "n = bm_brk st"
    define nd where "nd = \<lparr>bm_start = s, bm_length = c, bm_inode = None\<rparr>"
    define st1 where "st1 = bm_put n nd (st\<lparr>bm_mallocs := ms, bm_brk := Suc n\<rparr>)"
    have fresh: "n \<notin> set (nodes st)" using wf by (auto simp: bm_wf_def n_def)
    have n1: "nodes st1 = nodes st" and h1: "bm_heap st1 = (bm_heap st)(n \<mapsto> nd)"
      by (simp_all add: st1_def)
    have sp: "spaced (bm_heap st1) (nodes st)"
      using wf fresh by (simp add: h1 spaced_upd bm_wf_def)
    have "\<forall>x\<in>set (nodes st). bm_heap st1 x \<noteq> None" using sp by (auto simp: spaced_def)
    then obtain t' xs ys where link: "rb_link st1 n (start_root st1) = Some t'" "nodes st = xs @ ys"
      "inorder t' = xs @ n # ys" "\<forall>x\<in>set xs. rlo (bm_heap st1) x \<le> rlo (bm_heap st1) n"
      "\<forall>y\<in>set ys. rlo (bm_heap st1) n < rlo (bm_heap st1) y"
      using rb_link_ok [of "start_root st1" st1 n] spaced_starts [OF sp] n1 h1 by auto
    define st' where "st' = st1\<lparr>start_root := insert_color L n t', rb_count := rb_count st1 + 1\<rparr>"
    have run: "new_blocks_mamager L s c st = Some (Some n, st')"
      using True link(1) by (simp add: new_blocks_mamager_def ms blocks_mamager_rb_add_def
          st'_def st1_def n_def nd_def Let_def)
    have nodes': "nodes st' = xs @ n # ys" using L link(3) by (simp add: st'_def rb_lib_ok_def)
    have b: "rlo (bm_heap st1) n = s" "rhi (bm_heap st1) n = s + c" by (simp_all add: h1 nd_def)
    have "spaced (bm_heap st1) (xs @ n # ys)"
      using sp dj c fresh link by (intro spaced_insert) (auto simp: h1 b nd_def free_set_def ranges_upd)
    then have "bm_wf st'"
      using wf fresh nodes' link(2) by (auto simp: bm_wf_def st'_def st1_def n_def h1 less_Suc_eq)
    moreover have "free_set st' = free_set st \<union> {s..<s + c}"
      using fresh link(2) nodes' by (auto simp: free_set_def st'_def h1 ranges_upd nd_def)
    ultimately show ?thesis
      using run nodes' link(2) fresh nf True
      by (intro that [of "Some n" st']) (auto simp: st'_def st1_def nd_def)
  qed
qed

section \<open>Merging\<close>

text \<open>What a merge attempt may change: the range of one node.\<close>

definition merged :: "bm_state \<Rightarrow> nat \<Rightarrow> int \<Rightarrow> int \<Rightarrow> bm_state \<Rightarrow> bool" where
  "merged st n s c st' \<longleftrightarrow> bm_wf st' \<and> free_set st' = free_set st \<union> {s..<s + c} \<and>
     n \<in> set (nodes st) \<and> start_root st' = start_root st \<and> last_merged st' = last_merged st \<and>
     bm_frame st st' \<and> bm_mallocs st' = bm_mallocs st"

lemma try_merge_ok:
  assumes wf: "bm_wf st" and n: "n \<in> set (nodes st)" and dj: "{s..<s + c} \<inter> free_set st = {}"
    and c: "0 < c"
  obtains cr st' where "blocks_mamager_try_merge n s c st = Some (cr, st')"
    and "cr \<noteq> 0 \<Longrightarrow> st' = st" and "cr = 0 \<Longrightarrow> merged st n s c st'"
proof -
  obtain nd where nd: "bm_heap st n = Some nd" "0 < bm_length nd" using bm_wf_alive [OF wf n] by blast
  have "{bm_start nd..<bm_start nd + bm_length nd} \<subseteq> free_set st"
    using in_ranges [OF n, of "bm_heap st"] nd by (simp add: free_set_def rlo_def rhi_def)
  with dj c nd(2) have ne: "s \<noteq> bm_start nd" by (metis (no_types) IntI atLeastLessThan_iff empty_iff
        less_add_same_cancel1 order_refl subsetD)
  show ?thesis
  proof (cases "s = bm_start nd + bm_length nd \<or> s + c = bm_start nd")
    case True
    define nd' where "nd' = (if s = bm_start nd + bm_length nd then nd\<lparr>bm_length := bm_length nd + c\<rparr>
      else nd\<lparr>bm_start := bm_start nd - c, bm_length := bm_length nd + c\<rparr>)"
    have run: "blocks_mamager_try_merge n s c st = Some (0, bm_put n nd' st)"
      using True nd by (auto simp: blocks_mamager_try_merge_def nd'_def)
    have "bm_wf (bm_put n nd' st) \<and> free_set (bm_put n nd' st) = free_set st \<union> {s..<s + c}"
      using bm_put_extend [OF wf n nd(1) dj, of nd'] c True by (auto simp: nd'_def)
    then have "merged st n s c (bm_put n nd' st)" using n by (simp add: merged_def bm_frame_def)
    with run show ?thesis by (intro that) auto
  next
    case False
    then have "blocks_mamager_try_merge n s c st = Some (s - bm_start nd, st)"
      using nd by (simp add: blocks_mamager_try_merge_def)
    with ne show ?thesis by (intro that) auto
  qed
qed

lemma merge_from_ok:
  assumes wf: "bm_wf st" and dj: "{s..<s + c} \<inter> free_set st = {}" and c: "0 < c"
    and "set_tree t \<subseteq> set (nodes st)"
  shows "\<exists>r st'. merge_from t s c st = Some (r, st') \<and> (r = None \<longrightarrow> st' = st) \<and>
    (\<forall>n. r = Some n \<longrightarrow> merged st n s c st')"
  using assms(4)
proof (induction t)
  case (Node l n r)
  then have n: "n \<in> set (nodes st)" by simp
  obtain cr st' where t: "blocks_mamager_try_merge n s c st = Some (cr, st')"
    "cr \<noteq> 0 \<Longrightarrow> st' = st" "cr = 0 \<Longrightarrow> merged st n s c st'"
    using try_merge_ok [OF wf n dj c] by blast
  consider "cr < 0" | "cr > 0" | "cr = 0" by linarith
  then show ?case
  proof cases
    case 3
    with t show ?thesis by auto
  qed (use t Node in \<open>auto\<close>)
qed simp

lemma absorb_ok:
  assumes L: "rb_lib_ok L" and wf: "bm_wf st" and split: "nodes st = xs @ n # nx # ys"
    and touch: "rhi (bm_heap st) n = rlo (bm_heap st) nx"
  obtains st' where "absorb L n nx st = Some (0, st')" and "bm_wf st'" and "nodes st' = xs @ n # ys"
    and "free_set st' = free_set st" and "last_merged st' = Some n"
    and "inode_node st' = inode_node st" and "inode_regular st' = inode_regular st"
    and "bm_mallocs st' = bm_mallocs st"
proof -
  let ?h = "bm_heap st"
  have out: "n \<notin> set xs" "n \<notin> set ys" "n \<noteq> nx" "nx \<notin> set xs" "nx \<notin> set ys" "distinct xs" "distinct ys"
    "set xs \<inter> set ys = {}"
    using wf split by (auto simp: bm_wf_def)
  have sp: "spaced ?h (xs @ n # nx # ys)" using wf split by (simp add: bm_wf_def)
  obtain nd nd2 where nd: "?h n = Some nd" "?h nx = Some nd2"
    using sp by (auto simp: spaced_append spaced_Cons)
  define nd' where "nd' = nd\<lparr>bm_length := bm_length nd + bm_length nd2\<rparr>"
  define st' where "st' = kfree nx (st\<lparr>bm_heap := ?h(n \<mapsto> nd'), last_merged := Some n,
    start_root := erase L nx (start_root st), rb_count := rb_count st - 1\<rparr>)"
  have run: "absorb L n nx st = Some (0, st')"
    using nd split out by (simp add: absorb_def blocks_mamager_rb_del_def st'_def nd'_def bm_put_def
        flip: set_inorder)
  have nodes': "nodes st' = xs @ n # ys"
    using L split out wf by (simp add: st'_def rb_lib_ok_def bm_wf_def)
  have b: "rlo ?h n = bm_start nd" "rhi ?h n = bm_start nd2" "rhi ?h nx = bm_start nd2 + bm_length nd2"
    using nd touch by (auto simp: rlo_def rhi_def)
  have nb: "bm_start nd' = rlo ?h n" "bm_start nd' + bm_length nd' = rhi ?h nx"
    using nd touch by (auto simp: rlo_def rhi_def nd'_def)
  have h': "bm_heap st' = (?h(n \<mapsto> nd'))(nx := None)" by (simp add: st'_def)
  have lt: "rlo ?h n < rhi ?h n" "rlo ?h nx < rhi ?h nx" using sp by (auto simp: spaced_append spaced_Cons)
  have "spaced (?h(n \<mapsto> nd')) (xs @ n # ys)"
    using sp out lt touch nb by (auto simp: spaced_append spaced_Cons spaced_upd)
  then have "spaced (bm_heap st') (xs @ n # ys)" unfolding h' using out by (subst spaced_upd) auto
  moreover have "rb_count st' = rb_count st - 1" "bm_brk st' = bm_brk st" by (simp_all add: st'_def)
  ultimately have "bm_wf st'"
    using wf split out nodes' by (auto simp: bm_wf_def h')
  moreover have "free_set st' = free_set st"
    using out nodes' split lt touch nb
    by (auto simp: free_set_def h' ranges_upd)
  ultimately show ?thesis using run nodes' by (intro that [of st']) (simp_all add: st'_def)
qed

text \<open>What a merge of two neighbours keeps: everything the abstraction sees, and \<open>lm_ok\<close>.\<close>

definition joined :: "bm_state \<Rightarrow> bm_state \<Rightarrow> bool" where
  "joined st st' \<longleftrightarrow> bm_wf st' \<and> free_set st' = free_set st \<and> (lm_ok st \<longrightarrow> lm_ok st') \<and>
     inode_regular st' = inode_regular st \<and> bm_mallocs st' = bm_mallocs st"

lemma next_prev:
  assumes "rb_lib_ok L" and "bm_wf st" and "nodes st = xs @ n # ys"
  shows "lib_next L n (start_root st) = (if ys = [] then None else Some (hd ys))"
    and "lib_prev L n (start_root st) = (if xs = [] then None else Some (last xs))"
proof -
  have "distinct (nodes st)" using assms(2) by (simp add: bm_wf_def)
  with assms(1,3) show "lib_next L n (start_root st) = (if ys = [] then None else Some (hd ys))"
    "lib_prev L n (start_root st) = (if xs = [] then None else Some (last xs))"
    unfolding rb_lib_ok_def by blast+
qed

lemma try_back_merge_ok:
  assumes L: "rb_lib_ok L" and wf: "bm_wf st" and n: "n \<in> set (nodes st)"
  obtains rc st' where "try_back_merge L (Some n) st = Some (rc, st')" and "joined st st'"
    and "n \<in> set (nodes st')" and "rc \<noteq> 0 \<Longrightarrow> st' = st" and "rc = 0 \<Longrightarrow> lm_ok st'"
proof -
  from split_list [OF n] obtain xs ys where split: "nodes st = xs @ n # ys" by blast
  note nxt = next_prev(1) [OF L wf split]
  note res = that
  have stay: thesis if "try_back_merge L (Some n) st = Some (-1, st)"
    using that by (rule res) (use wf n in \<open>auto simp: joined_def\<close>)
  show ?thesis
  proof (cases ys)
    case Nil
    with nxt show ?thesis by (intro stay) (simp add: try_back_merge_def)
  next
    case (Cons nx zs)
    have in2: "nx \<in> set (nodes st)" using split Cons by simp
    obtain nd nd2 where nd: "bm_heap st n = Some nd" "bm_heap st nx = Some nd2"
      using bm_wf_alive [OF wf n] bm_wf_alive [OF wf in2] by blast
    have ne: "n \<noteq> nx" using wf split Cons by (auto simp: bm_wf_def)
    show ?thesis
    proof (cases "bm_start nd + bm_length nd = bm_start nd2 \<and>
        (bm_inode nd2 = None \<or> bm_inode nd = None)")
      case False
      with nxt nd Cons show ?thesis
        by (intro stay) (auto simp: try_back_merge_def split: option.splits)
    next
      case True
      define st1 where "st1 = (case bm_inode nd2 of None \<Rightarrow> st
        | Some i \<Rightarrow> bm_put n (nd\<lparr>bm_inode := None\<rparr>)
            (bm_put nx (nd2\<lparr>bm_inode := None\<rparr>) (set_inode_node i (Some n) st)))"
      have run: "try_back_merge L (Some n) st = absorb L n nx st1"
        using True nxt nd Cons by (auto simp: try_back_merge_def st1_def split: option.splits)
      have h1: "bm_wf st1" "free_set st1 = free_set st" "nodes st1 = nodes st"
        "inode_regular st1 = inode_regular st" "bm_mallocs st1 = bm_mallocs st"
        using wf nd ne bm_put_same_range [of "bm_put nx (nd2\<lparr>bm_inode := None\<rparr>) s" n nd
            "nd\<lparr>bm_inode := None\<rparr>" for s] bm_put_same_range [of s nx nd2 "nd2\<lparr>bm_inode := None\<rparr>" for s]
          bm_wf_cong [of "set_inode_node i p st" st for i p]
          free_set_cong [of "set_inode_node i p st" st for i p]
        by (auto simp: st1_def split: option.splits)
      have touch: "rhi (bm_heap st1) n = rlo (bm_heap st1) nx"
        using True nd ne by (auto simp: st1_def rhi_def rlo_def split: option.splits)
      have split1: "nodes st1 = xs @ n # nx # zs" using h1(3) split Cons by simp
      obtain st' where a: "absorb L n nx st1 = Some (0, st')" "bm_wf st'" "nodes st' = xs @ n # zs"
        "free_set st' = free_set st1" "last_merged st' = Some n" "inode_node st' = inode_node st1"
        "inode_regular st' = inode_regular st1" "bm_mallocs st' = bm_mallocs st1"
        by (rule absorb_ok [OF L h1(1) split1 touch])
      have lm: "lm_ok st'" using a(3,5) by (simp add: lm_ok_def)
      show ?thesis
        by (rule that [of 0 st']) (use run a h1 lm in \<open>auto simp: joined_def\<close>)
    qed
  qed
qed

lemma try_front_merge_ok:
  assumes L: "rb_lib_ok L" and wf: "bm_wf st" and n: "n \<in> set (nodes st)"
  obtains rc st' where "try_front_merge L n st = Some (rc, st')" and "joined st st'" and "lm_ok st'"
proof -
  let ?st = "st\<lparr>last_merged := Some n\<rparr>"
  from split_list [OF n] obtain xs ys where split: "nodes st = xs @ n # ys" by blast
  have wf1: "bm_wf ?st" and fs1: "free_set ?st = free_set st" and lm1: "lm_ok ?st"
    using wf n by (simp_all add: bm_wf_def free_set_def lm_ok_def)
  note prv = next_prev(2) [OF L wf split]
  show ?thesis
  proof (cases "xs = []")
    case True
    then have "try_front_merge L n st = Some (-1, ?st)" using prv by (simp add: try_front_merge_def)
    with wf1 fs1 lm1 show ?thesis by (intro that [of "-1" ?st]) (auto simp: joined_def)
  next
    case False
    then have p: "last xs \<in> set (nodes ?st)" using split by simp
    obtain rc st' where t: "try_back_merge L (Some (last xs)) ?st = Some (rc, st')" "joined ?st st'"
      by (rule try_back_merge_ok [OF L wf1 p])
    with False prv have "try_front_merge L n st = Some (if rc \<noteq> 0 then -1 else 0, st')"
      by (simp add: try_front_merge_def)
    with t(2) fs1 lm1 show ?thesis
      by (intro that [of "if rc \<noteq> 0 then -1 else 0" st']) (auto simp: joined_def)
  qed
qed

section \<open>Giving blocks back\<close>

text \<open>The two attempts to extend an existing range: the node merged last, then the tree.\<close>

lemma find_merge_ok:
  assumes wf: "bm_wf st" and lm: "lm_ok st" and dj: "{s..<s + c} \<inter> free_set st = {}" and c: "0 < c"
  obtains r st' where
    "Option.bind (case last_merged st of None \<Rightarrow> Some (None, st)
       | Some lm \<Rightarrow> Option.bind (blocks_mamager_try_merge lm s c st)
           (\<lambda>(cr, st). Some (if cr = 0 then Some lm else None, st)))
     (\<lambda>(m, st). if m = None then blocks_mamager_merge s c st else Some (m, st)) = Some (r, st')"
    and "r = None \<Longrightarrow> st' = st" and "\<And>n. r = Some n \<Longrightarrow> merged st n s c st'"
proof -
  have tree: "\<exists>r st'. blocks_mamager_merge s c st = Some (r, st') \<and> (r = None \<longrightarrow> st' = st) \<and>
      (\<forall>n. r = Some n \<longrightarrow> merged st n s c st')"
    unfolding blocks_mamager_merge_def by (rule merge_from_ok [OF wf dj c]) simp
  show ?thesis
  proof (cases "last_merged st")
    case None
    with tree show ?thesis by (auto intro: that)
  next
    case (Some m)
    then have m: "m \<in> set (nodes st)" using lm by (simp add: lm_ok_def)
    obtain cr st1 where t: "blocks_mamager_try_merge m s c st = Some (cr, st1)"
      "cr \<noteq> 0 \<Longrightarrow> st1 = st" "cr = 0 \<Longrightarrow> merged st m s c st1"
      by (rule try_merge_ok [OF wf m dj c]) blast
    show ?thesis
    proof (cases "cr = 0")
      case True
      with Some t show ?thesis by (intro that [of "Some m" st1]) auto
    next
      case False
      with Some t tree show ?thesis by (auto intro: that)
    qed
  qed
qed

lemma blocks_mamager_free_blocks_unfold:
  "0 < c \<Longrightarrow> blocks_mamager_free_blocks L s c st =
     Option.bind (Option.bind (case last_merged st of None \<Rightarrow> Some (None, st)
       | Some lm \<Rightarrow> Option.bind (blocks_mamager_try_merge lm s c st)
           (\<lambda>(cr, st). Some (if cr = 0 then Some lm else None, st)))
     (\<lambda>(m, st). if m = None then blocks_mamager_merge s c st else Some (m, st)))
     (\<lambda>(m, st). case m of
        Some m \<Rightarrow> Option.bind (bm_heap st m) (\<lambda>bm.
          Option.bind (if bm_start bm = s then try_front_merge L m st else try_back_merge L (Some m) st)
            (\<lambda>(_, st). Some (Some m, st)))
      | None \<Rightarrow> new_blocks_mamager L s c st)"
  by (simp add: blocks_mamager_free_blocks_def split_def Option.bind_assoc)

lemma blocks_mamager_free_blocks_ok:
  assumes L: "rb_lib_ok L" and wf: "bm_wf st" and lm: "lm_ok st"
    and dj: "{s..<s + c} \<inter> free_set st = {}" and c: "0 < c"
  obtains r st' where "blocks_mamager_free_blocks L s c st = Some (r, st')" and "bm_wf st'"
    and "lm_ok st'" and "r \<noteq> None \<Longrightarrow> free_set st' = free_set st \<union> {s..<s + c}"
    and "r = None \<Longrightarrow> free_set st' = free_set st \<and> \<not> never_fails (bm_mallocs st)"
    and "never_fails (bm_mallocs st) \<Longrightarrow> never_fails (bm_mallocs st')"
    and "inode_regular st' = inode_regular st"
proof -
  obtain r st1 where m: "Option.bind (case last_merged st of None \<Rightarrow> Some (None, st)
       | Some lm \<Rightarrow> Option.bind (blocks_mamager_try_merge lm s c st)
           (\<lambda>(cr, st). Some (if cr = 0 then Some lm else None, st)))
     (\<lambda>(m, st). if m = None then blocks_mamager_merge s c st else Some (m, st)) = Some (r, st1)"
    "r = None \<Longrightarrow> st1 = st" "\<And>n. r = Some n \<Longrightarrow> merged st n s c st1"
    by (rule find_merge_ok [OF wf lm dj c]) blast
  show ?thesis
  proof (cases r)
    case None
    obtain r' st' where n: "new_blocks_mamager L s c st = Some (r', st')" "bm_wf st'"
      "inode_regular st' = inode_regular st" "last_merged st' = last_merged st"
      "r' = None \<Longrightarrow> bm_heap st' = bm_heap st \<and> start_root st' = start_root st"
      "r' = None \<Longrightarrow> \<not> never_fails (bm_mallocs st)"
      "never_fails (bm_mallocs st) \<Longrightarrow> never_fails (bm_mallocs st')"
      "\<And>n. r' = Some n \<Longrightarrow> set (nodes st) \<subseteq> set (nodes st') \<and> free_set st' = free_set st \<union> {s..<s + c}"
      by (rule new_blocks_mamager_ok [OF L wf dj c]) blast
    have "blocks_mamager_free_blocks L s c st = Some (r', st')"
      using m None n(1) c by (simp add: blocks_mamager_free_blocks_unfold)
    moreover have "lm_ok st'"
      using lm n(4,5,8) by (cases r') (auto simp: lm_ok_def split: option.splits)
    ultimately show ?thesis
      using n by (intro that [of r' st']) (auto simp: free_set_def)
  next
    case (Some k)
    with m(3) have mg: "merged st k s c st1" by simp
    then have wf1: "bm_wf st1" and k: "k \<in> set (nodes st1)" and lm1: "lm_ok st1"
      using lm by (auto simp: merged_def lm_ok_def split: option.splits)
    obtain nd where nd: "bm_heap st1 k = Some nd" using bm_wf_alive [OF wf1 k] by blast
    obtain rc st' where t: "(if bm_start nd = s then try_front_merge L k st1
        else try_back_merge L (Some k) st1) = Some (rc, st')" "joined st1 st'"
      using try_front_merge_ok [OF L wf1 k] try_back_merge_ok [OF L wf1 k] by (metis (full_types))
    have "blocks_mamager_free_blocks L s c st = Some (Some k, st')"
      using m Some t(1) nd c by (simp add: blocks_mamager_free_blocks_unfold)
    with t(2) mg lm1 show ?thesis
      by (intro that [of "Some k" st']) (auto simp: joined_def merged_def bm_frame_def)
  qed
qed

section \<open>Taking blocks\<close>

lemma range_disjoint_rest:
  assumes "spaced h (xs @ n # ys)"
  shows "{rlo h n..<rhi h n} \<inter> ranges h (xs @ ys) = {}"
proof -
  have "{rlo h n..<rhi h n} \<inter> {rlo h x..<rhi h x} = {}" if "x \<in> set (xs @ ys)" for x
    using that spaced_mono_start [OF assms, of x] by auto
  then show ?thesis unfolding ranges_def by blast
qed

lemma bm_put_shrink:
  assumes wf: "bm_wf st" and n: "n \<in> set (nodes st)" and nd: "bm_heap st n = Some nd"
    and sub: "bm_start nd \<le> bm_start nd'" "bm_start nd' + bm_length nd' \<le> bm_start nd + bm_length nd"
    and pos: "0 < bm_length nd'"
  shows "bm_wf (bm_put n nd' st)"
    and "free_set (bm_put n nd' st) = free_set st - ({bm_start nd..<bm_start nd + bm_length nd} -
           {bm_start nd'..<bm_start nd' + bm_length nd'})"
proof -
  from split_list [OF n] obtain xs ys where split: "nodes st = xs @ n # ys" by blast
  with wf have out: "n \<notin> set xs" "n \<notin> set ys" and sp: "spaced (bm_heap st) (xs @ n # ys)"
    by (auto simp: bm_wf_def)
  have r: "rlo (bm_heap st) n = bm_start nd" "rhi (bm_heap st) n = bm_start nd + bm_length nd"
    using nd by (auto simp: rlo_def rhi_def)
  have dj: "{bm_start nd..<bm_start nd + bm_length nd} \<inter> ranges (bm_heap st) (xs @ ys) = {}"
    using range_disjoint_rest [OF sp] by (simp add: r)
  have "spaced ((bm_heap st)(n \<mapsto> nd')) (xs @ n # ys)"
    using sp out sub pos r by (fastforce simp: spaced_append spaced_Cons spaced_upd)
  with wf n split show "bm_wf (bm_put n nd' st)" by (auto simp: bm_wf_def)
  have "free_set st = ranges (bm_heap st) (xs @ ys) \<union> {bm_start nd..<bm_start nd + bm_length nd}"
    by (auto simp: free_set_def split r)
  moreover have "free_set (bm_put n nd' st) = ranges (bm_heap st) (xs @ ys) \<union>
      {bm_start nd'..<bm_start nd' + bm_length nd'}"
    using out by (auto simp: free_set_def split ranges_upd)
  moreover have "{bm_start nd'..<bm_start nd' + bm_length nd'} \<subseteq>
      {bm_start nd..<bm_start nd + bm_length nd}" using sub by auto
  ultimately show "free_set (bm_put n nd' st) = free_set st -
      ({bm_start nd..<bm_start nd + bm_length nd} - {bm_start nd'..<bm_start nd' + bm_length nd'})"
    using dj by blast
qed

text \<open>Unlinking and freeing a node.\<close>

lemma rb_del_ok:
  assumes L: "rb_lib_ok L" and wf: "bm_wf st" and n: "n \<in> set (nodes st)" and nd: "bm_heap st n = Some nd"
    and st1: "nodes st1 = nodes st" "\<And>m. m \<noteq> n \<Longrightarrow> bm_heap st1 m = bm_heap st m"
      "bm_brk st1 = bm_brk st" "rb_count st1 = rb_count st"
  obtains st' where "blocks_mamager_rb_del L n st1 = Some st'" and "bm_wf (kfree n st')"
    and "free_set (kfree n st') = free_set st - {bm_start nd..<bm_start nd + bm_length nd}"
    and "nodes st' = removeAll n (nodes st)"
    and "inode_node st' = inode_node st1" and "bm_heap st' = bm_heap st1"
    and "inode_regular st' = inode_regular st1" and "last_merged st' = last_merged st1"
    and "bm_mallocs st' = bm_mallocs st1"
proof -
  from split_list [OF n] obtain xs ys where split: "nodes st = xs @ n # ys" by blast
  with wf have out: "n \<notin> set xs" "n \<notin> set ys" and sp: "spaced (bm_heap st) (xs @ n # ys)"
    by (auto simp: bm_wf_def)
  have rest: "removeAll n (nodes st) = xs @ ys" using out by (simp add: split)
  define st' where "st' = st1\<lparr>start_root := erase L n (start_root st1), rb_count := rb_count st1 - 1\<rparr>"
  have "n \<in> set_tree (start_root st1)" using n st1(1) by (metis set_inorder)
  then have run: "blocks_mamager_rb_del L n st1 = Some st'"
    by (simp add: blocks_mamager_rb_del_def st'_def)
  have nodes': "nodes st' = removeAll n (nodes st)"
    using L wf st1(1) by (simp add: st'_def rb_lib_ok_def bm_wf_def)
  have h: "bm_heap (kfree n st') = (bm_heap st)(n := None)"
    using st1(2) by (auto simp: st'_def fun_eq_iff)
  have "spaced (bm_heap (kfree n st')) (xs @ ys)"
    unfolding h using sp out by (subst spaced_upd) (auto simp: spaced_append spaced_Cons)
  then have "bm_wf (kfree n st')"
    using wf split out nodes' st1(3,4) by (auto simp: bm_wf_def rest h st'_def st1(2))
  moreover have "free_set (kfree n st') = free_set st - {bm_start nd..<bm_start nd + bm_length nd}"
  proof -
    have "free_set st = ranges (bm_heap st) (xs @ ys) \<union> {bm_start nd..<bm_start nd + bm_length nd}"
      using nd by (auto simp: free_set_def split rlo_def rhi_def)
    moreover have "free_set (kfree n st') = ranges (bm_heap st) (xs @ ys)"
      using out nodes' rest unfolding free_set_def h by (simp add: ranges_upd)
    moreover have "{bm_start nd..<bm_start nd + bm_length nd} \<inter> ranges (bm_heap st) (xs @ ys) = {}"
      using range_disjoint_rest [OF sp] nd by (simp add: rlo_def rhi_def)
    ultimately show ?thesis by blast
  qed
  ultimately show ?thesis using run nodes' by (intro that [of st']) (simp_all add: st'_def)
qed

text \<open>What taking a range does: the answer is \<open>-1\<close>, or a free range that is free no longer.\<close>

definition took :: "bm_state \<Rightarrow> int \<Rightarrow> int \<Rightarrow> bm_state \<Rightarrow> bool" where
  "took st count b st' \<longleftrightarrow> bm_wf st' \<and> linked st' \<and>
     (b = -1 \<and> free_set st' = free_set st \<or>
      {b..<b + count} \<subseteq> free_set st \<and> free_set st' = free_set st - {b..<b + count}) \<and>
     inode_regular st' = inode_regular st"

lemma linked_owner:
  "linked st \<Longrightarrow> bm_heap st n = Some nd \<Longrightarrow> inode_node st i = Some n \<Longrightarrow> bm_inode nd = Some i"
  unfolding linked_def by force

lemma linked_upd:
  "linked st \<Longrightarrow> bm_heap st n = Some nd \<Longrightarrow> bm_inode nd' = bm_inode nd \<Longrightarrow>
   bm_heap st' = (bm_heap st)(n \<mapsto> nd') \<Longrightarrow> inode_node st' = inode_node st \<Longrightarrow> linked st'"
  unfolding linked_def by force

lemma linked_new:
  "linked st \<Longrightarrow> bm_heap st n = None \<Longrightarrow> bm_heap st' = (bm_heap st)(n \<mapsto> nd') \<Longrightarrow>
   inode_node st' = inode_node st \<Longrightarrow> linked st'"
  unfolding linked_def by force

lemma alloc_priv_ok:
  assumes L: "rb_lib_ok L" and wf: "bm_wf st" and lk: "linked st" and n: "n \<in> set (nodes st)"
    and nd: "bm_heap st n = Some nd" and own: "bm_inode nd = None \<or> bm_inode nd = Some inode"
    and c: "0 < count" "count \<le> bm_length nd"
  obtains st' where "blocks_mamager_alloc_blocks_priv L n inode count st = Some (bm_start nd, st')"
    and "took st count (bm_start nd) st'" and "bm_mallocs st' = bm_mallocs st"
    and "{bm_start nd..<bm_start nd + count} \<subseteq> free_set st"
    and "free_set st' = free_set st - {bm_start nd..<bm_start nd + count}"
proof -
  define nd' where "nd' = nd\<lparr>bm_start := bm_start nd + count, bm_length := bm_length nd - count\<rparr>"
  have sub: "{bm_start nd..<bm_start nd + count} \<subseteq> free_set st"
    using in_ranges [OF n, of "bm_heap st"] nd c by (auto simp: free_set_def rlo_def rhi_def)
  show ?thesis
  proof (cases "bm_length nd = count")
    case False
    let ?st = "bm_put n nd' st"
    have "blocks_mamager_alloc_blocks_priv L n inode count st = Some (bm_start nd, ?st)"
      using False c nd by (simp add: blocks_mamager_alloc_blocks_priv_def nd'_def Let_def)
    moreover have "bm_wf ?st" by (rule bm_put_shrink [OF wf n nd]) (use False c in \<open>auto simp: nd'_def\<close>)
    moreover have "free_set ?st = free_set st - {bm_start nd..<bm_start nd + count}"
      by (subst bm_put_shrink(2) [OF wf n nd]) (use False c in \<open>auto simp: nd'_def\<close>)
    moreover have "linked ?st" by (rule linked_upd [OF lk nd, of nd']) (simp_all add: nd'_def)
    ultimately show ?thesis using sub by (intro that [of ?st]) (auto simp: took_def)
  next
    case True
    define st1 where "st1 = set_inode_node inode None (bm_put n nd' st)"
    obtain st2 where d: "blocks_mamager_rb_del L n st1 = Some st2" "bm_wf (kfree n st2)"
      "free_set (kfree n st2) = free_set st - {bm_start nd..<bm_start nd + bm_length nd}"
      "inode_node st2 = inode_node st1" "bm_heap st2 = bm_heap st1"
      "inode_regular st2 = inode_regular st1" "bm_mallocs st2 = bm_mallocs st1"
      by (rule rb_del_ok [OF L wf n nd, of st1]) (auto simp: st1_def)
    have "blocks_mamager_alloc_blocks_priv L n inode count st = Some (bm_start nd, kfree n st2)"
      using True nd d(1) by (simp add: blocks_mamager_alloc_blocks_priv_def nd'_def st1_def Let_def)
    moreover have "linked (kfree n st2)"
      using lk linked_owner [OF lk nd] own by (auto simp: linked_def d(4,5) st1_def)
    ultimately show ?thesis using sub d True
      by (intro that [of "kfree n st2"]) (auto simp: took_def st1_def)
  qed
qed

lemma reserve_ok:
  assumes wf: "bm_wf st" and lk: "linked st" and n: "n \<in> set (nodes st)"
    and nd: "bm_heap st n = Some nd" and own: "bm_inode nd = None"
    and free: "inode_regular st inode \<Longrightarrow> inode_node st inode = None"
  obtains st' nd' where "reserve inode n st = Some st'" and "bm_wf st'" and "linked st'"
    and "nodes st' = nodes st" and "bm_heap st' n = Some nd'" and "bm_start nd' = bm_start nd"
    and "bm_length nd' = bm_length nd" and "bm_inode nd' = None \<or> bm_inode nd' = Some inode"
    and "free_set st' = free_set st" and "inode_regular st' = inode_regular st"
proof (cases "inode_regular st inode")
  case True
  define nd' where "nd' = nd\<lparr>bm_inode := Some inode\<rparr>"
  let ?st = "bm_put n nd' (set_inode_node inode (Some n) st)"
  have wf1: "bm_wf (set_inode_node inode (Some n) st)" and h: "bm_heap (set_inode_node inode (Some n) st) n = Some nd"
    using wf nd by (simp_all add: bm_wf_def)
  have "bm_wf ?st" "free_set ?st = free_set st"
    using bm_put_same_range [OF h, of nd'] wf1 by (simp_all add: nd'_def free_set_def)
  moreover have "linked ?st" using lk linked_owner [OF lk nd] own by (auto simp: linked_def nd'_def)
  moreover have "reserve inode n st = Some ?st" using True nd by (simp add: reserve_def nd'_def)
  ultimately show ?thesis by (intro that [of ?st nd']) (auto simp: nd'_def)
next
  case False
  then have "reserve inode n st = Some st" by (simp add: reserve_def)
  then show ?thesis using wf lk nd own by (intro that) auto
qed

lemma split_ok:
  assumes L: "rb_lib_ok L" and wf: "bm_wf st" and lk: "linked st" and n: "n \<in> set (nodes st)"
  obtains r st' where "blocks_mamager_split L n st = Some (r, st')" and "bm_wf st'" and "linked st'"
    and "free_set st' = free_set st" and "inode_regular st' = inode_regular st"
    and "inode_node st' = inode_node st"
    and "\<And>m. r = Some m \<Longrightarrow> m \<in> set (nodes st') \<and>
           (\<exists>nd. bm_heap st' m = Some nd \<and> bm_inode nd = None)"
proof -
  obtain nd where nd: "bm_heap st n = Some nd" "0 < bm_length nd" using bm_wf_alive [OF wf n] by blast
  show ?thesis
  proof (cases "bm_length nd < 2")
    case True
    with nd have "blocks_mamager_split L n st = Some (None, st)" by (simp add: blocks_mamager_split_def)
    with wf lk show ?thesis by (intro that) auto
  next
    case False
    define half where "half = bm_length nd div 2"
    define len where "len = bm_length nd - half"
    define nd' where "nd' = nd\<lparr>bm_length := bm_length nd - len\<rparr>"
    let ?st = "bm_put n nd' st" and ?tail = "{half + bm_start nd..<half + bm_start nd + len}"
    have pos: "0 < half" "0 < len" using False by (simp_all add: half_def len_def)
    have nd'_len: "bm_length nd' = half" by (simp add: nd'_def len_def)
    have wf1: "bm_wf ?st" by (rule bm_put_shrink [OF wf n nd(1)]) (use pos in \<open>auto simp: nd'_def len_def\<close>)
    have fs1: "free_set ?st = free_set st - ?tail"
      by (subst bm_put_shrink(2) [OF wf n nd(1)]) (use pos in \<open>auto simp: nd'_def len_def\<close>)
    have tail: "?tail \<subseteq> free_set st"
      using in_ranges [OF n, of "bm_heap st"] nd pos by (auto simp: free_set_def rlo_def rhi_def len_def)
    have dj: "?tail \<inter> free_set ?st = {}" using fs1 by blast
    obtain r st1 where new: "new_blocks_mamager L (half + bm_start nd) len ?st = Some (r, st1)" "bm_wf st1"
      "inode_node st1 = inode_node ?st" "inode_regular st1 = inode_regular ?st"
      "r = None \<Longrightarrow> bm_heap st1 = bm_heap ?st \<and> start_root st1 = start_root ?st"
      "\<And>m. r = Some m \<Longrightarrow> m \<in> set (nodes st1) \<and> m \<notin> set (nodes ?st) \<and>
         free_set st1 = free_set ?st \<union> ?tail \<and>
         bm_heap st1 = (bm_heap ?st)(m \<mapsto> \<lparr>bm_start = half + bm_start nd, bm_length = len, bm_inode = None\<rparr>)"
      by (rule new_blocks_mamager_ok [OF L wf1 dj pos(2)]) blast
    have run: "blocks_mamager_split L n st = Some (r, if r = None then bm_put n nd st1 else st1)"
      using False nd new(1) by (simp add: blocks_mamager_split_def Let_def half_def len_def nd'_def)
    show ?thesis
    proof (cases r)
      case None
      then have h: "bm_heap (bm_put n nd st1) = bm_heap st" "start_root st1 = start_root st"
        using new(5) nd by (auto simp: fun_eq_iff)
      have "bm_wf (bm_put n nd st1)"
        using new(2) wf unfolding bm_wf_def h by (simp add: h)
      with None run lk h new(3,4) show ?thesis
        by (intro that [of None "bm_put n nd st1"]) (auto simp: linked_def free_set_def)
    next
      case (Some m)
      then have m: "m \<in> set (nodes st1)" "m \<notin> set (nodes st)" "free_set st1 = free_set st"
        "bm_heap st1 = (bm_heap ?st)(m \<mapsto> \<lparr>bm_start = half + bm_start nd, bm_length = len, bm_inode = None\<rparr>)"
        using new(6) [OF Some] fs1 tail by auto
      have "bm_heap st m = None" using wf m(2) by (auto simp: bm_wf_def)
      moreover have "linked ?st" by (rule linked_upd [OF lk nd(1), of nd']) (simp_all add: nd'_def)
      ultimately have "linked st1"
        using n new(3) m(2,4) by (intro linked_new [of ?st m st1]) auto
      with Some run new m show ?thesis by (intro that [of r st1]) auto
    qed
  qed
qed

lemma find_blocks_ok:
  assumes L: "rb_lib_ok L" and wf: "bm_wf st" and split: "nodes st = xs @ ys"
    and mx: "\<And>m. max_node = Some m \<Longrightarrow> m \<in> set (nodes st)"
  shows "\<exists>r. find_blocks L count st (if ys = [] then None else Some (hd ys)) max_node max_length = Some r \<and>
    (\<forall>n. r = Found n \<longrightarrow> n \<in> set (nodes st) \<and>
       (\<exists>nd. bm_heap st n = Some nd \<and> bm_inode nd = None \<and> count \<le> bm_length nd)) \<and>
    (\<forall>m. r = Longest (Some m) \<longrightarrow> m \<in> set (nodes st)) \<and>
    ((\<exists>m. r = Longest m) \<longrightarrow>
       (\<forall>n\<in>set ys. \<forall>nd. bm_heap st n = Some nd \<longrightarrow> bm_inode nd = None \<longrightarrow> bm_length nd < count))"
  using split mx
proof (induction ys arbitrary: xs max_node max_length)
  case Nil
  then show ?case by (auto simp: find_blocks.simps)
next
  case (Cons n ys)
  have n: "n \<in> set (nodes st)" using Cons.prems(1) by simp
  obtain nd where nd: "bm_heap st n = Some nd" using bm_wf_alive [OF wf n] by blast
  note nxt = next_prev(1) [OF L wf Cons.prems(1)]
  have step: "nodes st = (xs @ [n]) @ ys" using Cons.prems(1) by simp
  show ?case
  proof (cases "bm_inode nd = None \<and> count \<le> bm_length nd")
    case True
    with nd have "find_blocks L count st (Some n) max_node max_length = Some (Found n)"
      by (simp add: find_blocks.simps)
    with True nd n show ?thesis by simp
  next
    case False
    have eq: "find_blocks L count st (Some n) max_node max_length =
        find_blocks L count st (if ys = [] then None else Some (hd ys))
          (if max_length < bm_length nd then Some n else max_node)
          (if max_length < bm_length nd then bm_length nd else max_length)"
      by (subst find_blocks.simps) (use nd nxt False in auto)
    have mx: "\<And>m. (if max_length < bm_length nd then Some n else max_node) = Some m \<Longrightarrow> m \<in> set (nodes st)"
      using Cons.prems(2) n by (auto split: if_splits)
    from Cons.IH [OF step mx] obtain r where
      r: "find_blocks L count st (if ys = [] then None else Some (hd ys))
          (if max_length < bm_length nd then Some n else max_node)
          (if max_length < bm_length nd then bm_length nd else max_length) = Some r \<and>
      (\<forall>n. r = Found n \<longrightarrow> n \<in> set (nodes st) \<and>
         (\<exists>nd. bm_heap st n = Some nd \<and> bm_inode nd = None \<and> count \<le> bm_length nd)) \<and>
      (\<forall>m. r = Longest (Some m) \<longrightarrow> m \<in> set (nodes st)) \<and>
      ((\<exists>m. r = Longest m) \<longrightarrow>
         (\<forall>n\<in>set ys. \<forall>nd. bm_heap st n = Some nd \<longrightarrow> bm_inode nd = None \<longrightarrow> bm_length nd < count))"
      by (rule exE)
    have "\<forall>n'\<in>set (n # ys). \<forall>nd. bm_heap st n' = Some nd \<longrightarrow> bm_inode nd = None \<longrightarrow> bm_length nd < count"
      if "\<exists>m. r = Longest m"
      using r that nd False by auto
    with r eq show ?thesis by simp
  qed
qed

text \<open>A range is granted at once when some unreserved node is long enough.\<close>

definition grantable :: "bm_state \<Rightarrow> nat \<Rightarrow> int \<Rightarrow> bool" where
  "grantable st inode count \<longleftrightarrow>
     (if inode_node st inode \<noteq> None \<and> inode_regular st inode
      then \<exists>nd. bm_heap st (the (inode_node st inode)) = Some nd \<and> count \<le> bm_length nd
      else \<exists>n nd. bm_heap st n = Some nd \<and> bm_inode nd = None \<and> count \<le> bm_length nd)"

lemma took_refl: "bm_wf st \<Longrightarrow> linked st \<Longrightarrow> took st count (-1) st"
  by (simp add: took_def)

lemma alloc_found:
  assumes L: "rb_lib_ok L" and wf: "bm_wf st" and lk: "linked st" and n: "n \<in> set (nodes st)"
    and nd: "bm_heap st n = Some nd" and own: "bm_inode nd = None"
    and free: "inode_regular st inode \<Longrightarrow> inode_node st inode = None"
    and c: "0 < count" "count \<le> bm_length nd"
  obtains b st' where
    "Option.bind (reserve inode n st) (blocks_mamager_alloc_blocks_priv L n inode count) = Some (b, st')"
    and "took st count b st'" and "{b..<b + count} \<subseteq> free_set st"
    and "free_set st' = free_set st - {b..<b + count}"
proof -
  obtain st1 nd1 where r: "reserve inode n st = Some st1" "bm_wf st1" "linked st1"
    "nodes st1 = nodes st" "bm_heap st1 n = Some nd1" "bm_start nd1 = bm_start nd"
    "bm_length nd1 = bm_length nd" "bm_inode nd1 = None \<or> bm_inode nd1 = Some inode"
    "free_set st1 = free_set st" "inode_regular st1 = inode_regular st"
    by (rule reserve_ok [OF wf lk n nd own free])
  have n1: "n \<in> set (nodes st1)" and c1: "count \<le> bm_length nd1" using n c r by auto
  obtain st' where a: "blocks_mamager_alloc_blocks_priv L n inode count st1 = Some (bm_start nd1, st')"
    "took st1 count (bm_start nd1) st'" "{bm_start nd1..<bm_start nd1 + count} \<subseteq> free_set st1"
    "free_set st' = free_set st1 - {bm_start nd1..<bm_start nd1 + count}"
    by (rule alloc_priv_ok [OF L r(2,3) n1 r(5,8) c(1) c1])
  show ?thesis by (rule that [of "bm_start nd1" st']) (use r a in \<open>auto simp: took_def\<close>)
qed

lemma blocks_mamager_alloc_blocks_ok:
  assumes L: "rb_lib_ok L" and wf: "bm_wf st" and lk: "linked st" and c: "0 < count"
  obtains b st' where "blocks_mamager_alloc_blocks L inode count st = Some (b, st')"
    and "took st count b st'"
    and "grantable st inode count \<Longrightarrow> {b..<b + count} \<subseteq> free_set st \<and>
           free_set st' = free_set st - {b..<b + count}"
proof (cases "inode_node st inode \<noteq> None \<and> inode_regular st inode")
  case True
  then obtain n where n: "inode_node st inode = Some n" by blast
  with lk obtain nd where nd: "bm_heap st n = Some nd" "bm_inode nd = Some inode"
    unfolding linked_def by blast
  have nin: "n \<in> set (nodes st)" using wf nd(1) by (auto simp: bm_wf_def)
  show ?thesis
  proof (cases "bm_length nd < count")
    case short: True
    let ?st = "set_inode_node inode None (bm_put n (nd\<lparr>bm_inode := None\<rparr>) st)"
    have run: "blocks_mamager_alloc_blocks L inode count st = Some (-1, ?st)"
      using True n nd short by (simp add: blocks_mamager_alloc_blocks_def)
    have "bm_wf ?st" "free_set ?st = free_set st"
      using bm_put_same_range [OF nd(1), of "nd\<lparr>bm_inode := None\<rparr>"] wf
        bm_wf_cong [of ?st "bm_put n (nd\<lparr>bm_inode := None\<rparr>) st"]
        free_set_cong [of ?st "bm_put n (nd\<lparr>bm_inode := None\<rparr>) st"] by auto
    moreover have "linked ?st" using lk linked_owner [OF lk nd(1)] nd(2) by (auto simp: linked_def)
    ultimately have "took st count (-1) ?st" by (simp add: took_def)
    then show ?thesis by (rule that [OF run]) (use True n nd short in \<open>auto simp: grantable_def\<close>)
  next
    case False
    obtain st' where a: "blocks_mamager_alloc_blocks_priv L n inode count st = Some (bm_start nd, st')"
      "took st count (bm_start nd) st'" "{bm_start nd..<bm_start nd + count} \<subseteq> free_set st"
      "free_set st' = free_set st - {bm_start nd..<bm_start nd + count}"
      by (rule alloc_priv_ok [OF L wf lk nin nd(1), of inode count]) (use False nd c in auto)
    have "blocks_mamager_alloc_blocks L inode count st = Some (bm_start nd, st')"
      using True n nd False a(1) by (simp add: blocks_mamager_alloc_blocks_def)
    with a show ?thesis by (intro that [of "bm_start nd" st']) auto
  qed
next
  case False
  then have free: "inode_regular st inode \<Longrightarrow> inode_node st inode = None" by blast
  have no: "(inode_node st inode \<noteq> None \<and> inode_regular st inode) = False" using False by blast
  note alloc = blocks_mamager_alloc_blocks_def [of L inode count st, unfolded no if_False]
  have first: "lib_first L (start_root st) = (if nodes st = [] then None else Some (hd (nodes st)))"
    using L by (simp add: rb_lib_ok_def)
  obtain r where r: "find_blocks L count st (lib_first L (start_root st)) None 0 = Some r"
    "\<And>n. r = Found n \<Longrightarrow> n \<in> set (nodes st) \<and>
       (\<exists>nd. bm_heap st n = Some nd \<and> bm_inode nd = None \<and> count \<le> bm_length nd)"
    "\<And>m. r = Longest (Some m) \<Longrightarrow> m \<in> set (nodes st)"
    "\<And>m n nd. r = Longest m \<Longrightarrow> n \<in> set (nodes st) \<Longrightarrow> bm_heap st n = Some nd \<Longrightarrow>
       bm_inode nd = None \<Longrightarrow> bm_length nd < count"
    using find_blocks_ok [OF L wf, of "[]" "nodes st" None count 0] unfolding first by auto
  have grant: "\<not> grantable st inode count" if "r = Longest m" for m
  proof
    assume "grantable st inode count"
    with False obtain n nd where n: "bm_heap st n = Some nd" "bm_inode nd = None" "count \<le> bm_length nd"
      by (auto simp: grantable_def split: if_splits)
    moreover from n(1) wf have "n \<in> set (nodes st)" by (simp add: bm_wf_def)
    ultimately show False using r(4) [OF that] by fastforce
  qed
  consider (found) n where "r = Found n" | (none) "r = Longest None" | (longest) m where "r = Longest (Some m)"
    by (metis bm_found.exhaust option.exhaust)
  then show ?thesis
  proof cases
    case found
    with r(2) obtain nd where n: "n \<in> set (nodes st)" "bm_heap st n = Some nd" "bm_inode nd = None"
      "count \<le> bm_length nd" by blast
    obtain b st' where a: "Option.bind (reserve inode n st) (blocks_mamager_alloc_blocks_priv L n inode count) =
        Some (b, st')" "took st count b st'" "{b..<b + count} \<subseteq> free_set st"
      "free_set st' = free_set st - {b..<b + count}"
      by (rule alloc_found [OF L wf lk n(1-3) free c n(4)])
    have "blocks_mamager_alloc_blocks L inode count st = Some (b, st')"
      using r(1) found a(1) by (simp add: alloc)
    with a show ?thesis by (intro that) auto
  next
    case none
    then have "blocks_mamager_alloc_blocks L inode count st = Some (-1, st)"
      using r(1) by (simp add: alloc)
    then show ?thesis using took_refl [OF wf lk] grant [OF none] by (intro that) auto
  next
    case longest
    obtain s st1 where sp: "blocks_mamager_split L m st = Some (s, st1)" "bm_wf st1" "linked st1"
      "free_set st1 = free_set st" "inode_regular st1 = inode_regular st"
      "inode_node st1 = inode_node st"
      "\<And>k. s = Some k \<Longrightarrow> k \<in> set (nodes st1) \<and> (\<exists>nd. bm_heap st1 k = Some nd \<and> bm_inode nd = None)"
      by (rule split_ok [OF L wf lk r(3) [OF longest]]) blast
    have t1: "took st count (-1) st1" using sp by (simp add: took_def)
    show ?thesis
    proof (cases s)
      case None
      then have "blocks_mamager_alloc_blocks L inode count st = Some (-1, st1)"
        using r(1) longest sp(1) by (simp add: alloc)
      then show ?thesis using t1 grant [OF longest] by (intro that) auto
    next
      case (Some k)
      with sp(7) obtain nd where k: "k \<in> set (nodes st1)" "bm_heap st1 k = Some nd" "bm_inode nd = None"
        by blast
      show ?thesis
      proof (cases "count * 2 + 1 \<le> bm_length nd")
        case False
        then have "blocks_mamager_alloc_blocks L inode count st = Some (-1, st1)"
          using r(1) longest sp(1) Some k(2) by (simp add: alloc)
        then show ?thesis using t1 grant [OF longest] by (intro that) auto
      next
        case True
        with c have len: "count \<le> bm_length nd" by simp
        have free1: "inode_regular st1 inode \<Longrightarrow> inode_node st1 inode = None" using free sp(5,6) by simp
        obtain b st' where a: "Option.bind (reserve inode k st1)
            (blocks_mamager_alloc_blocks_priv L k inode count) = Some (b, st')" "took st1 count b st'"
          by (rule alloc_found [OF L sp(2,3) k free1 c len])
        have "blocks_mamager_alloc_blocks L inode count st = Some (b, st')"
          using r(1) longest sp(1) Some k(2) True a(1) by (simp add: alloc)
        moreover have "took st count b st'" using a(2) sp(4,5) by (simp add: took_def)
        ultimately show ?thesis using grant [OF longest] by (intro that) auto
      qed
    qed
  qed
qed

section \<open>Release\<close>

lemma blocks_mamager_on_inode_release_ok:
  assumes L: "rb_lib_ok L" and wf: "bm_wf st" and lk: "linked st" and lm: "lm_ok st"
  shows "\<exists>st'. blocks_mamager_on_inode_release L inode st = Some st' \<and> joined st st'"
proof (cases "inode_node st inode = None \<or> \<not> inode_regular st inode")
  case True
  then have "blocks_mamager_on_inode_release L inode st = Some st"
    by (auto simp: blocks_mamager_on_inode_release_def split: option.splits)
  with wf lm show ?thesis by (auto simp: joined_def)
next
  case False
  then obtain n where n: "inode_node st inode = Some n" by auto
  with lk obtain nd where nd: "bm_heap st n = Some nd" unfolding linked_def by blast
  have nin: "n \<in> set (nodes st)" using wf nd by (auto simp: bm_wf_def)
  define st1 where "st1 = set_inode_node inode None (bm_put n (nd\<lparr>bm_inode := None\<rparr>) st)"
  have 1: "bm_wf st1" "free_set st1 = free_set st" "nodes st1 = nodes st"
    using bm_put_same_range [OF nd, of "nd\<lparr>bm_inode := None\<rparr>"] wf
      bm_wf_cong [of st1 "bm_put n (nd\<lparr>bm_inode := None\<rparr>) st"]
      free_set_cong [of st1 "bm_put n (nd\<lparr>bm_inode := None\<rparr>) st"] by (auto simp: st1_def)
  have n1: "n \<in> set (nodes st1)" using nin 1(3) by simp
  obtain rc st2 where 2: "try_back_merge L (Some n) st1 = Some (rc, st2)" "joined st1 st2"
    "n \<in> set (nodes st2)" by (rule try_back_merge_ok [OF L 1(1) n1])
  then have wf2: "bm_wf st2" by (simp add: joined_def)
  obtain rc' st3 where 3: "try_front_merge L n st2 = Some (rc', st3)" "joined st2 st3" "lm_ok st3"
    by (rule try_front_merge_ok [OF L wf2 2(3)])
  have "blocks_mamager_on_inode_release L inode st = Some st3"
    using False n nd 2(1) 3(1) by (simp add: blocks_mamager_on_inode_release_def st1_def Let_def)
  with 1 2(2) 3(2,3) show ?thesis by (auto simp: joined_def st1_def)
qed

lemma blocks_mamager_free_all_ok:
  assumes L: "rb_lib_ok L" and wf: "bm_wf st" and lk: "linked st"
  shows "\<exists>st'. blocks_mamager_free_all L st = Some st' \<and> nodes st' = [] \<and> bm_wf st' \<and> linked st' \<and>
    free_set st' = {} \<and> (\<forall>n. bm_heap st' n = None) \<and> (\<forall>i. inode_node st' i = None) \<and>
    last_merged st' = last_merged st \<and> bm_mallocs st' = bm_mallocs st"
  using wf lk
proof (induction "length (nodes st)" arbitrary: st)
  case 0
  then have none: "nodes st = []" by simp
  with 0 have h: "bm_heap st n = None" for n by (auto simp: bm_wf_def)
  then have "inode_node st i = None" for i using 0(3) unfolding linked_def by (metis option.distinct(1) option.exhaust)
  moreover have "blocks_mamager_free_all L st = Some st"
    by (subst blocks_mamager_free_all.simps) (use L none in \<open>simp add: rb_lib_ok_def\<close>)
  ultimately show ?case using none h 0 by (auto simp: free_set_def)
next
  case (Suc k)
  define n where "n = hd (nodes st)"
  have ne: "nodes st \<noteq> []" using Suc(2) by auto
  then have n: "n \<in> set (nodes st)" unfolding n_def by (rule hd_in_set)
  obtain nd where nd: "bm_heap st n = Some nd" using bm_wf_alive [OF Suc.prems(1) n] by blast
  define st1 where "st1 = (case bm_inode nd of None \<Rightarrow> st
      | Some i \<Rightarrow> bm_put n (nd\<lparr>bm_inode := None\<rparr>) (set_inode_node i None st))"
  have s1: "nodes st1 = nodes st" "\<And>m. m \<noteq> n \<Longrightarrow> bm_heap st1 m = bm_heap st m"
    "bm_brk st1 = bm_brk st" "rb_count st1 = rb_count st" "last_merged st1 = last_merged st"
    "bm_mallocs st1 = bm_mallocs st"
    by (auto simp: st1_def split: option.splits)
  obtain st2 where d: "blocks_mamager_rb_del L n st1 = Some st2" "bm_wf (kfree n st2)"
    "nodes st2 = removeAll n (nodes st)" "inode_node st2 = inode_node st1" "bm_heap st2 = bm_heap st1"
    "last_merged st2 = last_merged st1" "bm_mallocs st2 = bm_mallocs st1"
    by (rule rb_del_ok [OF L Suc.prems(1) n nd s1(1-4)]) auto
  have run: "blocks_mamager_free_all L st = blocks_mamager_free_all L (kfree n st2)"
    by (subst blocks_mamager_free_all.simps)
      (use L ne nd d(1) in \<open>simp add: rb_lib_ok_def n_def [symmetric] st1_def Let_def\<close>)
  have "inode_node st1 i \<noteq> Some n" for i
    using linked_owner [OF Suc.prems(2) nd, of i] by (auto simp: st1_def split: option.splits)
  moreover have "linked st1 \<or> (\<exists>i. inode_node st1 = (inode_node st)(i := None))"
    using Suc.prems(2) by (auto simp: st1_def split: option.splits)
  ultimately have "linked (kfree n st2)"
    using Suc.prems(2) s1(2) unfolding linked_def
    by (auto simp: d(4,5) st1_def split: option.splits if_splits)
  moreover have "k = length (nodes (kfree n st2))"
    using Suc(2) d(3) Suc.prems(1) ne by (cases "nodes st") (auto simp: n_def bm_wf_def)
  ultimately show ?case
    using Suc.hyps(1) [of "kfree n st2"] d s1 run by auto
qed

section \<open>The contracts of the FAT code\<close>

definition source_ok :: "rb_lib \<Rightarrow> bm_state \<Rightarrow> bool" where
  "source_ok L st \<longleftrightarrow> rb_lib_ok L \<and> bm_wf st \<and> linked st \<and> free_set st \<subseteq> {0..}"

definition sink_ready :: "rb_lib \<Rightarrow> bm_state \<Rightarrow> bool" where
  "sink_ready L st \<longleftrightarrow> rb_lib_ok L \<and> bm_wf st \<and> lm_ok st \<and> never_fails (bm_mallocs st)"

definition bm_give :: "rb_lib \<Rightarrow> int \<Rightarrow> int \<Rightarrow> bm_state \<Rightarrow> bm_state option" where
  "bm_give L b c st = map_option snd (blocks_mamager_free_blocks L b c st)"

interpretation bm_source: cluster_source "blocks_mamager_alloc_blocks L" free_set "source_ok L" for L
proof
  fix st inode count assume ok: "source_ok L st" and c: "0 < (count::int)"
  then have pre: "rb_lib_ok L" "bm_wf st" "linked st" by (simp_all add: source_ok_def)
  obtain b st' where "blocks_mamager_alloc_blocks L inode count st = Some (b, st')" "took st count b st'"
    by (rule blocks_mamager_alloc_blocks_ok [OF pre c])
  then show "\<exists>b st'. blocks_mamager_alloc_blocks L inode count st = Some (b, st') \<and> source_ok L st' \<and>
      (b = -1 \<and> free_set st' = free_set st \<or>
       {b..<b + count} \<subseteq> free_set st \<and> free_set st' = free_set st - {b..<b + count})"
    using ok by (auto simp: source_ok_def took_def)
qed (simp add: source_ok_def)

interpretation bm_sink: cluster_sink "bm_give L" free_set "sink_ready L" for L
proof
  fix st b c assume ok: "sink_ready L st" and c: "0 < (c::int)" and dj: "{b..<b + c} \<inter> free_set st = {}"
  then have pre: "rb_lib_ok L" "bm_wf st" "lm_ok st" by (simp_all add: sink_ready_def)
  obtain r st' where f: "blocks_mamager_free_blocks L b c st = Some (r, st')" "bm_wf st'" "lm_ok st'"
    "r \<noteq> None \<Longrightarrow> free_set st' = free_set st \<union> {b..<b + c}"
    "r = None \<Longrightarrow> free_set st' = free_set st \<and> \<not> never_fails (bm_mallocs st)"
    "never_fails (bm_mallocs st) \<Longrightarrow> never_fails (bm_mallocs st')"
    by (rule blocks_mamager_free_blocks_ok [OF pre dj c]) blast
  then show "\<exists>st'. bm_give L b c st = Some st' \<and> sink_ready L st' \<and> free_set st' = free_set st \<union> {b..<b + c}"
    using ok by (auto simp: bm_give_def sink_ready_def)
qed

lemma bm_init_ready:
  "rb_lib_ok L \<Longrightarrow> never_fails ms \<Longrightarrow> sink_ready L (bm_init reg ms)"
  "rb_lib_ok L \<Longrightarrow> source_ok L (bm_init reg ms)"
  by (simp_all add: sink_ready_def source_ok_def bm_wf_init) (simp add: bm_init_def)

text \<open>A pointer to freed memory is read by the next operation.\<close>

lemma free_blocks_dangling:
  "last_merged st = Some n \<Longrightarrow> bm_heap st n = None \<Longrightarrow> 0 < c \<Longrightarrow>
     blocks_mamager_free_blocks L s c st = None"
  by (simp add: blocks_mamager_free_blocks_def blocks_mamager_try_merge_def)

section \<open>Properties\<close>

text \<open>
  C20: Giving a range back. In a well-formed manager whose \<open>last_merged\<close> is valid, freeing a range
  of clusters that are not free reads no freed memory, keeps both conditions, and adds exactly
  that range to the free clusters; only when no node can be extended and \<open>kzalloc\<close> fails is
  the range lost, and then the result is \<open>None\<close>.
\<close>

theorem blocks_free_adds_range:
  assumes "rb_lib_ok L" and "bm_wf st" and "lm_ok st" and "{s..<s + c} \<inter> free_set st = {}" and "0 < c"
  shows "\<exists>r st'. blocks_mamager_free_blocks L s c st = Some (r, st') \<and> bm_wf st' \<and> lm_ok st' \<and>
    (if r = None then free_set st' = free_set st \<and> \<not> never_fails (bm_mallocs st)
     else free_set st' = free_set st \<union> {s..<s + c})"
  by (rule blocks_mamager_free_blocks_ok [OF assms]) auto

theorem blocks_free_adds_range_witness:
  "\<exists>r st'. blocks_mamager_free_blocks plain_rb 10 2 (bm_init (\<lambda>_. True) []) = Some (r, st') \<and> bm_wf st' \<and>
    lm_ok st' \<and> free_set st' = {10..<12}"
proof -
  let ?st = "bm_init (\<lambda>_. True) []"
  have "\<exists>r st'. blocks_mamager_free_blocks plain_rb 10 2 ?st = Some (r, st') \<and> bm_wf st' \<and> lm_ok st' \<and>
    (if r = None then free_set st' = free_set ?st \<and> \<not> never_fails (bm_mallocs ?st)
     else free_set st' = free_set ?st \<union> {10..<10 + 2})"
    by (rule blocks_free_adds_range) (simp_all add: plain_rb_ok bm_wf_init)
  moreover have "never_fails (bm_mallocs ?st)" by (simp add: bm_init_def)
  ultimately show ?thesis by (auto simp: bm_wf_init split: if_splits)
qed

text \<open>
  C19: Taking a range. In a well-formed manager whose inodes point to their own nodes the request
  of an inode returns either -1, with the same free clusters, or the start of a range that was
  entirely free and is not free any more; it reads no freed memory and keeps the invariant. It
  succeeds whenever the node of the inode, or for an inode without one some unreserved node, is long
  enough.
\<close>

theorem blocks_alloc_takes_range:
  assumes "rb_lib_ok L" and "bm_wf st" and "linked st" and "0 < count"
  shows "\<exists>b st'. blocks_mamager_alloc_blocks L inode count st = Some (b, st') \<and> bm_wf st' \<and> linked st' \<and>
    (b = -1 \<and> free_set st' = free_set st \<or>
     {b..<b + count} \<subseteq> free_set st \<and> free_set st' = free_set st - {b..<b + count}) \<and>
    (grantable st inode count \<longrightarrow> {b..<b + count} \<subseteq> free_set st)"
  by (rule blocks_mamager_alloc_blocks_ok [OF assms, of inode]) (auto simp: took_def)

theorem blocks_alloc_takes_range_witness:
  "\<exists>b st'. blocks_mamager_alloc_blocks plain_rb 3 1 (bm_init (\<lambda>_. True) []) = Some (b, st') \<and> b = -1"
proof -
  have "\<exists>b st'. blocks_mamager_alloc_blocks plain_rb 3 1 (bm_init (\<lambda>_. True) []) = Some (b, st') \<and>
    bm_wf st' \<and> linked st' \<and>
    (b = -1 \<and> free_set st' = free_set (bm_init (\<lambda>_. True) []) \<or>
     {b..<b + 1} \<subseteq> free_set (bm_init (\<lambda>_. True) []) \<and>
     free_set st' = free_set (bm_init (\<lambda>_. True) []) - {b..<b + 1}) \<and>
    (grantable (bm_init (\<lambda>_. True) []) 3 1 \<longrightarrow> {b..<b + 1} \<subseteq> free_set (bm_init (\<lambda>_. True) []))"
    by (rule blocks_alloc_takes_range) (simp_all add: plain_rb_ok bm_wf_init)
  then show ?thesis by (auto simp: bm_wf_init)
qed

text \<open>
  Whatever sequence of requests by whatever inodes is made, the ranges granted are pairwise
  disjoint, they come from the clusters that were free, and exactly those are free no longer: no
  cluster is handed out twice.
\<close>

theorem blocks_alloc_disjoint:
  assumes "rb_lib_ok L" and "bm_wf st" and "linked st" and "free_set st \<subseteq> {0..}"
    and "\<forall>(i, c)\<in>set rs. 0 < c"
  shows "\<exists>gs st'. take_all (blocks_mamager_alloc_blocks L) rs st = Some (gs, st') \<and> apart gs \<and>
    clusters gs \<subseteq> free_set st \<and> free_set st' = free_set st - clusters gs"
  using bm_source.takes_are_apart [of L st rs] assms by (auto simp: source_ok_def)

theorem blocks_alloc_disjoint_witness:
  "\<exists>gs st'. take_all (blocks_mamager_alloc_blocks plain_rb) [(0, 2), (1, 1)] (bm_init (\<lambda>_. True) []) =
    Some (gs, st') \<and> apart gs \<and> clusters gs = {}"
  using blocks_alloc_disjoint [of plain_rb "bm_init (\<lambda>_. True) []" "[(0, 2), (1, 1)]"]
  by (auto simp: plain_rb_ok bm_wf_init)

text \<open>
  Rebuilding the manager, as \<open>fat_count_free_clusters\<close> does on mount: giving any list of
  nonempty disjoint ranges to an empty manager ends without a fault, and the free clusters are
  exactly those of the ranges, however the neighbours are merged.
\<close>

theorem blocks_rebuild:
  assumes "rb_lib_ok L" and "never_fails ms" and "apart rs"
  shows "\<exists>st'. give_all (bm_give L) rs (bm_init reg ms) = Some st' \<and> bm_wf st' \<and>
    free_set st' = clusters rs"
  using bm_sink.gives_add_up [of L "bm_init reg ms" rs] bm_init_ready(1) [OF assms(1,2)] assms(3)
  by (auto simp: bm_wf_init sink_ready_def)

theorem blocks_rebuild_witness:
  "\<exists>st'. give_all (bm_give plain_rb) [(10, 2), (20, 4), (12, 8)] (bm_init (\<lambda>_. True) []) = Some st' \<and>
    bm_wf st' \<and> free_set st' = clusters [(10, 2), (20, 4), (12, 8)]"
  by (rule blocks_rebuild) (auto simp: plain_rb_ok)

text \<open>
  Unmounting. \<open>blocks_mamager_free_all\<close> ends, frees every node and clears the node pointer of
  every inode.
\<close>

theorem blocks_free_all_empties:
  assumes "rb_lib_ok L" and "bm_wf st" and "linked st"
  shows "\<exists>st'. blocks_mamager_free_all L st = Some st' \<and> free_set st' = {} \<and>
    (\<forall>n. bm_heap st' n = None) \<and> (\<forall>i. inode_node st' i = None)"
  using blocks_mamager_free_all_ok [OF assms] by blast

theorem blocks_free_all_empties_witness:
  "\<exists>st'. blocks_mamager_free_all plain_rb (bm_init (\<lambda>_. True) []) = Some st' \<and> free_set st' = {}"
  using blocks_free_all_empties [of plain_rb "bm_init (\<lambda>_. True) []"] by (auto simp: plain_rb_ok bm_wf_init)

text \<open>
  \<open>blocks_mamager_free_all\<close> leaves \<open>last_merged\<close> as it was. When any ranges had been merged
  before, the first range given back afterwards (the next mount) reads the freed node.
\<close>

theorem blocks_free_all_dangles:
  assumes "rb_lib_ok L" and "bm_wf st" and "linked st" and "last_merged st = Some n" and "0 < c"
  shows "\<exists>st'. blocks_mamager_free_all L st = Some st' \<and> blocks_mamager_free_blocks L s c st' = None"
proof -
  obtain st' where st': "blocks_mamager_free_all L st = Some st'" "\<forall>n. bm_heap st' n = None"
    "last_merged st' = last_merged st"
    using blocks_mamager_free_all_ok [OF assms(1-3)] by blast
  with assms(4,5) have "blocks_mamager_free_blocks L s c st' = None"
    by (intro free_blocks_dangling [of _ n]) auto
  with st'(1) show ?thesis by blast
qed

text \<open>A manager holding the range \<open>a\<close>, \<open>\<dots>\<close>, \<open>a + l - 1\<close>, last merged into its node.\<close>

definition one_range :: "int \<Rightarrow> int \<Rightarrow> bm_state" where
  "one_range a l = (bm_init (\<lambda>_. True) [])\<lparr>start_root := Node Leaf 0 Leaf, last_merged := Some 0,
     rb_count := 1, bm_brk := 1, bm_heap := [0 \<mapsto> \<lparr>bm_start = a, bm_length = l, bm_inode = None\<rparr>]\<rparr>"

lemma one_range_ok:
  "0 < l \<Longrightarrow> bm_wf (one_range a l)" "linked (one_range a l)" "lm_ok (one_range a l)"
  "free_set (one_range a l) = {a..<a + l}" "last_merged (one_range a l) = Some 0"
  by (auto simp: one_range_def bm_init_def bm_wf_def spaced_def rlo_def rhi_def linked_def lm_ok_def
      free_set_def ranges_def split: if_splits)

theorem blocks_free_all_dangles_witness:
  "\<exists>st'. blocks_mamager_free_all plain_rb (one_range 9 3) = Some st' \<and>
    blocks_mamager_free_blocks plain_rb 30 1 st' = None"
  by (rule blocks_free_all_dangles [of _ _ 0]) (simp_all add: plain_rb_ok one_range_ok)

text \<open>
  The run of two frees that merge, an allocation that uses the merged range up, and a free:
  the allocation frees the node \<open>last_merged\<close> points to and the last step reads it.
\<close>

definition bm_run :: "(bm_state \<Rightarrow> bm_state option) list \<Rightarrow> bm_state option" where
  "bm_run steps = fold (\<lambda>f s. Option.bind s f) steps (Some (bm_init (\<lambda>_. True) []))"

definition bm_take :: "rb_lib \<Rightarrow> nat \<Rightarrow> int \<Rightarrow> bm_state \<Rightarrow> bm_state option" where
  "bm_take L inode count st = map_option snd (blocks_mamager_alloc_blocks L inode count st)"

theorem blocks_use_after_free:
  "bm_run [bm_give plain_rb 10 2, bm_give plain_rb 9 1, bm_take plain_rb 0 3] \<noteq> None \<and>
   bm_run [bm_give plain_rb 10 2, bm_give plain_rb 9 1, bm_take plain_rb 0 3, bm_give plain_rb 30 1] = None"
  by code_simp

text \<open>
  Merging a node with a successor reserved by an inode loses the reservation: inode 1 keeps
  pointing to the merged node, the node has no owner, inode 2 is given the same node, and when
  inode 2 has used it up the next request of inode 1 reads the freed node.
\<close>

theorem blocks_shared_node:
  "map_option (\<lambda>st. (inode_node st 1, inode_node st 2))
     (bm_run [bm_give plain_rb 20 4, bm_take plain_rb 1 1, bm_give plain_rb 10 2, bm_give plain_rb 12 9,
        bm_take plain_rb 2 1]) = Some (Some 1, Some 1) \<and>
   bm_run [bm_give plain_rb 20 4, bm_take plain_rb 1 1, bm_give plain_rb 10 2, bm_give plain_rb 12 9,
     bm_take plain_rb 2 1, bm_take plain_rb 2 13] \<noteq> None \<and>
   bm_run [bm_give plain_rb 20 4, bm_take plain_rb 1 1, bm_give plain_rb 10 2, bm_give plain_rb 12 9,
     bm_take plain_rb 2 1, bm_take plain_rb 2 13, bm_take plain_rb 1 1] = None"
  by code_simp

text \<open>
  A request longer than what is left of the node reserved for its inode returns -1 without
  looking at the other nodes, however long they are.
\<close>

theorem blocks_alloc_short_reserve:
  assumes "inode_node st inode = Some n" and "inode_regular st inode"
    and "bm_heap st n = Some nd" and "bm_length nd < count"
  shows "map_option fst (blocks_mamager_alloc_blocks L inode count st) = Some (-1)"
  using assms by (simp add: blocks_mamager_alloc_blocks_def)

theorem blocks_alloc_short_reserve_witness:
  "map_option fst (Option.bind (bm_run [bm_give plain_rb 10 4, bm_give plain_rb 20 900, bm_take plain_rb 0 2])
     (blocks_mamager_alloc_blocks plain_rb 0 3)) = Some (-1)"
proof -
  define st where "st = the (bm_run [bm_give plain_rb 10 4, bm_give plain_rb 20 900, bm_take plain_rb 0 2])"
  have "bm_run [bm_give plain_rb 10 4, bm_give plain_rb 20 900, bm_take plain_rb 0 2] \<noteq> None"
    by code_simp
  then have run: "bm_run [bm_give plain_rb 10 4, bm_give plain_rb 20 900, bm_take plain_rb 0 2] = Some st"
    by (auto simp: st_def)
  have "inode_node st 0 = Some 0" "inode_regular st 0"
    "bm_heap st 0 = Some \<lparr>bm_start = 12, bm_length = 2, bm_inode = Some 0\<rparr>"
    unfolding st_def by code_simp+
  from blocks_alloc_short_reserve [OF this, of 3 plain_rb] show ?thesis by (simp add: run)
qed

end
