(* ===== verification/FatAllocProof.thy ===== *)
theory FatAllocProof
  imports FatEntryProof FatAlloc BlockManagerProof
begin

text \<open>
  Allocation of clusters: what \<open>fat_alloc_clusters\<close> does to the table, to its copies, to the free
  count and to the block manager, seen through \<open>fat_at\<close>. The manager is used as a
  \<open>cluster_source\<close>, through its interpretation \<open>bm_source\<close>.
\<close>

section \<open>Layout\<close>

text \<open>The fields that say where the table is; everything but the contents depends on them only.\<close>

definition layout :: "fat_sb \<Rightarrow> nat \<times> nat \<times> nat \<times> nat \<times> nat \<times> int \<times> fat_type \<times> int" where
  "layout sb = (s_blocksize_bits sb, fat_start sb, fat_length sb, fats sb, fat_bits sb, fatent_shift sb,
     fatent_ops sb, max_cluster sb)"

lemma layout_upd [simp]:
  "layout (sb\<lparr>prev_free := i\<rparr>) = layout sb" "layout (sb\<lparr>free_clusters := i\<rparr>) = layout sb"
  "layout (sb\<lparr>free_clus_valid := v\<rparr>) = layout sb" "layout (sb\<lparr>fsinfo_dirty := v\<rparr>) = layout sb"
  "layout (sb\<lparr>buffers := f\<rparr>) = layout sb" "layout (sb\<lparr>manager := m\<rparr>) = layout sb"
  "layout (mark_fsinfo_dirty sb) = layout sb" "layout (no_space sb) = layout sb"
  by (simp_all add: layout_def mark_fsinfo_dirty_def no_space_def)

lemma layout_fields:
  assumes "layout sb' = layout sb"
  shows "s_blocksize sb' = s_blocksize sb" "fatent_ops sb' = fatent_ops sb" "faddr sb' = faddr sb"
    "ent_addr sb' = ent_addr sb" "ent_blocks sb' = ent_blocks sb" "spot sb' = spot sb"
    "placed sb' = placed sb" "max_cluster sb' = max_cluster sb" "bad_mark sb' = bad_mark sb"
    "valid_val sb' = valid_val sb" "cached sb' = cached sb" "fat_start sb' = fat_start sb"
    "fat_length sb' = fat_length sb" "fats sb' = fats sb"
proof -
  note l = assms [unfolded layout_def]
  show 1: "s_blocksize sb' = s_blocksize sb" "fatent_ops sb' = fatent_ops sb" "max_cluster sb' = max_cluster sb"
    "fat_start sb' = fat_start sb" "fat_length sb' = fat_length sb" "fats sb' = fats sb"
    using l by (simp_all add: s_blocksize_def)
  show 2: "faddr sb' = faddr sb" "ent_addr sb' = ent_addr sb" "bad_mark sb' = bad_mark sb"
    by (rule ext | simp add: faddr_def ent_addr_def bad_mark_def 1)+
  show 3: "ent_blocks sb' = ent_blocks sb" "spot sb' = spot sb"
    by (rule ext, simp add: ent_blocks_def spot_def 1 2 Let_def split: fat_type.split)+
  show "placed sb' = placed sb" "valid_val sb' = valid_val sb" "cached sb' = cached sb"
    by (rule ext, simp add: placed_def valid_val_def cached_def 1 2 3)+
qed

lemma layout_next:
  assumes l: "layout sb' = layout sb"
  shows "fat_ent_next sb' = fat_ent_next sb"
  by (rule ext, unfold fat_ent_next_def ent_next_def fat12_ent_next_def fat16_ent_next_def
      fat32_ent_next_def layout_fields [OF l]) (rule refl)

lemma layout_same_sb: "same_sb sb sb' \<Longrightarrow> layout sb' = layout sb"
  by (auto simp: same_sb_def)

lemma sb_ok_layout:
  "layout sb' = layout sb \<Longrightarrow> (\<forall>b. length (buffers sb' b) = length (buffers sb b)) \<Longrightarrow> sb_ok sb' = sb_ok sb"
  by (auto simp: sb_ok_def layout_def s_blocksize_def split: fat_type.splits)

lemma ent_addr_block:
  assumes ok: "sb_ok sb" and i: "i < (case fatent_ops sb of FAT12 \<Rightarrow> 2 | FAT16 \<Rightarrow> 2 | FAT32 \<Rightarrow> 4)"
  shows "fst (faddr sb (ent_addr sb e + i)) \<in> set (ent_blocks sb e)"
proof (cases "fatent_ops sb = FAT12")
  case True
  have pos: "0 < s_blocksize sb" using sb_ok_blocksize [OF ok] by simp
  from True i have "i = 0 \<or> i = 1" by auto
  then show ?thesis using True faddr_succ [OF pos, of "ent_addr sb e"]
    by (auto simp: ent_blocks_def Let_def)
next
  case False
  then have "ent_addr sb e mod s_blocksize sb + i < s_blocksize sb"
    using ent_mod(2) [OF ok False, of e] i by (cases "fatent_ops sb") auto
  then show ?thesis using faddr_add [of "ent_addr sb e" sb i] False
    by (simp add: ent_blocks_def ptr_add_def Let_def)
qed

text \<open>An entry is determined by the bytes of its blocks.\<close>

lemma fat_at_blocks:
  assumes ok: "sb_ok sb" and l: "layout sb' = layout sb"
    and b: "\<forall>b\<in>set (ent_blocks sb e). buffers sb' b = buffers sb b"
  shows "fat_at sb' e = fat_at sb e"
proof -
  have m: "mem sb' (ent_addr sb e + i) = mem sb (ent_addr sb e + i)"
    if "i < (case fatent_ops sb of FAT12 \<Rightarrow> 2 | FAT16 \<Rightarrow> 2 | FAT32 \<Rightarrow> 4)" for i
    using ent_addr_block [OF ok that, of e] b layout_fields(3) [OF l]
    by (simp add: mem_def get_byte_def)
  show ?thesis
    using m [of 0] m [of 1] m [of 2] m [of 3]
    by (cases "fatent_ops sb") (simp_all add: fat_at_def layout_fields [OF l] Let_def)
qed

lemma fat_at_same_buffers:
  assumes l: "layout sb' = layout sb" and b: "buffers sb' = buffers sb"
  shows "fat_at sb' = fat_at sb"
proof -
  have m: "mem sb' = mem sb" by (rule ext) (simp add: mem_def get_byte_def b layout_fields [OF l])
  show ?thesis by (rule ext, unfold fat_at_def layout_fields [OF l] m) (rule refl)
qed

section \<open>File systems\<close>

text \<open>
  A file system whose table lies in the \<open>fat_length\<close> blocks from \<open>fat_start\<close>, with cluster numbers
  that are valid values of an entry.
\<close>

definition fs_ok :: "fat_sb \<Rightarrow> bool" where
  "fs_ok sb \<longleftrightarrow> sb_ok sb \<and> FAT_START_ENT < max_cluster sb \<and> max_cluster sb \<le> bad_mark sb \<and>
     (\<forall>e<nat (max_cluster sb). \<forall>b\<in>set (ent_blocks sb e). fat_start sb \<le> b \<and> b < fat_start sb + fat_length sb)"

definition io_ok :: "fat_env \<Rightarrow> bool" where
  "io_ok env \<longleftrightarrow> (\<forall>b. sb_bread env b) \<and> (\<forall>b. sb_getblk env b) \<and> (\<forall>b. sync_dirty_buffer env b = 0) \<and>
     (\<forall>xs. fat_sync_bhs env xs = 0)"

definition in_table :: "fat_sb \<Rightarrow> nat list \<Rightarrow> bool" where
  "in_table sb xs \<longleftrightarrow> (\<forall>b\<in>set xs. fat_start sb \<le> b \<and> b < fat_start sb + fat_length sb)"

definition free_entries :: "fat_sb \<Rightarrow> int set" where
  "free_entries sb = {e. FAT_START_ENT \<le> e \<and> e < max_cluster sb \<and> fat_at sb (nat e) = FAT_ENT_FREE}"

lemma fs_ok_layout:
  assumes l: "layout sb' = layout sb" and b: "\<forall>b. length (buffers sb' b) = length (buffers sb b)"
  shows "fs_ok sb' = fs_ok sb"
  unfolding fs_ok_def sb_ok_layout [OF l b] layout_fields [OF l] ..

lemma valid_cluster: "fs_ok sb \<Longrightarrow> 0 \<le> e \<Longrightarrow> e < max_cluster sb \<Longrightarrow> valid_val sb e"
  by (auto simp: fs_ok_def valid_val_def)

section \<open>Mirroring\<close>

lemma copy_unique:
  assumes "n * c + b = n * c' + b'" and "a \<le> b" "b < a + n" "a \<le> b'" "b' < a + n"
  shows "c = c' \<and> b = (b'::nat)"
proof -
  have "n * c + (b - a) = n * c' + (b' - a)" using assms by simp
  then have "(n * c + (b - a)) div n = (n * c' + (b' - a)) div n" by simp
  moreover have "(b - a) div n = 0" "(b' - a) div n = 0" "n \<noteq> 0" using assms by auto
  ultimately have "c = c'" by simp
  with assms show ?thesis by simp
qed

lemma mirror_blocks_ok:
  assumes io: "io_ok env"
    and reg: "\<forall>(c, b)\<in>set todo. 1 \<le> c \<and> fat_start sb \<le> b \<and> b < fat_start sb + fat_length sb"
  shows "\<exists>f. mirror_blocks env todo sb = (0, sb\<lparr>buffers := f\<rparr>) \<and>
    (\<forall>(c, b)\<in>set todo. f (fat_length sb * c + b) = buffers sb b) \<and>
    (\<forall>x. (\<forall>(c, b)\<in>set todo. x \<noteq> fat_length sb * c + b) \<longrightarrow> f x = buffers sb x)"
  using reg
proof (induction todo arbitrary: sb)
  case Nil
  have "sb = sb\<lparr>buffers := buffers sb\<rparr>" by simp
  then have "mirror_blocks env [] sb = (0, sb\<lparr>buffers := buffers sb\<rparr>)" by simp
  then show ?case by (intro exI [of _ "buffers sb"] conjI) simp_all
next
  case (Cons t todo)
  obtain c b where t: "t = (c, b)" by fastforce
  with Cons.prems have cb: "1 \<le> c" "fat_start sb \<le> b" "b < fat_start sb + fat_length sb" by auto
  let ?l = "fat_length sb"
  let ?sb = "sb\<lparr>buffers := (buffers sb)(?l * c + b := buffers sb b)\<rparr>"
  have run: "mirror_blocks env (t # todo) sb = mirror_blocks env todo ?sb"
    using io t by (simp add: io_ok_def Let_def)
  have far: "x \<noteq> ?l * c + b" if "x < fat_start sb + ?l" for x
  proof -
    have "?l * 1 \<le> ?l * c" using cb(1) by (rule mult_le_mono2)
    then have "?l \<le> ?l * c" by simp
    with cb(2) that show ?thesis by linarith
  qed
  have "\<forall>(c, b)\<in>set todo. 1 \<le> c \<and> fat_start ?sb \<le> b \<and> b < fat_start ?sb + fat_length ?sb"
    using Cons.prems by auto
  from Cons.IH [OF this] obtain f where f: "mirror_blocks env todo ?sb = (0, ?sb\<lparr>buffers := f\<rparr>)"
    "\<And>c b. (c, b) \<in> set todo \<Longrightarrow> f (?l * c + b) = buffers ?sb b"
    "\<And>x. \<forall>(c, b)\<in>set todo. x \<noteq> ?l * c + b \<Longrightarrow> f x = buffers ?sb x"
    by auto
  have "f (?l * c' + b') = buffers sb b'" if "(c', b') \<in> set (t # todo)" for c' b'
  proof (cases "(c', b') \<in> set todo")
    case True
    with Cons.prems have "b' < fat_start sb + ?l" by auto
    with f(2) [OF True] far show ?thesis by simp
  next
    case False
    with that t have eq: "c' = c" "b' = b" by auto
    show ?thesis
    proof (cases "\<forall>(k, d)\<in>set todo. ?l * c + b \<noteq> ?l * k + d")
      case True
      with f(3) eq show ?thesis by simp
    next
      case False
      then obtain k d where kd: "(k, d) \<in> set todo" "?l * c + b = ?l * k + d" by auto
      with Cons.prems have "fat_start sb \<le> d" "d < fat_start sb + ?l" by auto
      with copy_unique [OF kd(2) cb(2,3)] kd(1) eq f(2) [OF kd(1)] far show ?thesis by auto
    qed
  qed
  moreover have "f x = buffers sb x" if "\<forall>(c, b)\<in>set (t # todo). x \<noteq> ?l * c + b" for x
    using that f(3) [of x] t by auto
  ultimately show ?case using run f(1) by auto
qed

lemma fat_mirror_bhs_ok:
  assumes io: "io_ok env" and reg: "in_table sb xs"
  obtains f where "fat_mirror_bhs env xs sb = (0, sb\<lparr>buffers := f\<rparr>)"
    and "\<And>b. fat_start sb \<le> b \<Longrightarrow> b < fat_start sb + fat_length sb \<Longrightarrow> f b = buffers sb b"
    and "\<And>c b. 1 \<le> c \<Longrightarrow> c < fats sb \<Longrightarrow> b \<in> set xs \<Longrightarrow> f (fat_length sb * c + b) = buffers sb b"
    and "\<And>c b. fat_start sb \<le> b \<Longrightarrow> b < fat_start sb + fat_length sb \<Longrightarrow> b \<notin> set xs \<Longrightarrow>
      f (fat_length sb * c + b) = buffers sb (fat_length sb * c + b)"
    and "\<And>x. \<exists>y. f x = buffers sb y"
proof -
  let ?todo = "List.product [1..<fats sb] xs"
  have r: "\<forall>(c, b)\<in>set ?todo. 1 \<le> c \<and> fat_start sb \<le> b \<and> b < fat_start sb + fat_length sb"
    using reg by (auto simp: in_table_def)
  obtain f where f: "fat_mirror_bhs env xs sb = (0, sb\<lparr>buffers := f\<rparr>)"
    "\<And>c b. (c, b) \<in> set ?todo \<Longrightarrow> f (fat_length sb * c + b) = buffers sb b"
    "\<And>x. \<forall>(c, b)\<in>set ?todo. x \<noteq> fat_length sb * c + b \<Longrightarrow> f x = buffers sb x"
    using mirror_blocks_ok [OF io r] by (auto simp: fat_mirror_bhs_def)
  have prim: "f b = buffers sb b" if "fat_start sb \<le> b" "b < fat_start sb + fat_length sb" for b
  proof (rule f(3), safe)
    fix c d assume cd: "(c, d) \<in> set ?todo" and b: "b = fat_length sb * c + d"
    then have "1 \<le> c" "fat_start sb \<le> d" using r by auto
    then have "fat_length sb * 1 + fat_start sb \<le> fat_length sb * c + d"
      by (intro add_mono mult_le_mono2)
    with b that show False by simp
  qed
  have any: "\<exists>y. f x = buffers sb y" for x
  proof (cases "\<forall>(c, b)\<in>set ?todo. x \<noteq> fat_length sb * c + b")
    case True
    then show ?thesis using f(3) by blast
  next
    case False
    then obtain c b where "(c, b) \<in> set ?todo" "x = fat_length sb * c + b" by blast
    then show ?thesis using f(2) by blast
  qed
  have copy: "f (fat_length sb * c + b) = buffers sb b" if "1 \<le> c" "c < fats sb" "b \<in> set xs" for c b
    using that by (intro f(2)) simp
  have rest: "f (fat_length sb * c + b) = buffers sb (fat_length sb * c + b)"
    if b: "fat_start sb \<le> b" "b < fat_start sb + fat_length sb" "b \<notin> set xs" for c b
  proof (rule f(3), safe)
    fix c' b' assume cb: "(c', b') \<in> set ?todo" and eq: "fat_length sb * c + b = fat_length sb * c' + b'"
    then have "b' \<in> set xs" "fat_start sb \<le> b'" "b' < fat_start sb + fat_length sb" using r by auto
    with copy_unique [OF eq b(1,2)] b(3) show False by auto
  qed
  show ?thesis using that [OF f(1) prim copy rest any] by blast
qed

text \<open>Mirroring changes no entry of the table.\<close>

lemma mirror_keeps_table:
  assumes fs: "fs_ok sb" and f: "\<And>b. fat_start sb \<le> b \<Longrightarrow> b < fat_start sb + fat_length sb \<Longrightarrow> f b = buffers sb b"
    and len: "\<And>x. \<exists>y. f x = buffers sb y"
  shows "fs_ok (sb\<lparr>buffers := f\<rparr>)" and "int e < max_cluster sb \<Longrightarrow> fat_at (sb\<lparr>buffers := f\<rparr>) e = fat_at sb e"
    and "free_entries (sb\<lparr>buffers := f\<rparr>) = free_entries sb"
proof -
  have ok: "sb_ok sb" using fs by (simp add: fs_ok_def)
  have "length (f b) = length (buffers sb b)" for b
    using len [of b] ok by (auto simp: sb_ok_def)
  then show fs': "fs_ok (sb\<lparr>buffers := f\<rparr>)" using fs fs_ok_layout [of "sb\<lparr>buffers := f\<rparr>" sb] by simp
  show at: "fat_at (sb\<lparr>buffers := f\<rparr>) e = fat_at sb e" if "int e < max_cluster sb" for e
  proof (rule fat_at_blocks [OF ok])
    have "e < nat (max_cluster sb)" using that by simp
    with fs have "\<forall>b\<in>set (ent_blocks sb e). fat_start sb \<le> b \<and> b < fat_start sb + fat_length sb"
      unfolding fs_ok_def by blast
    with f show "\<forall>b\<in>set (ent_blocks sb e). buffers (sb\<lparr>buffers := f\<rparr>) b = buffers sb b" by simp
  qed simp
  show "free_entries (sb\<lparr>buffers := f\<rparr>) = free_entries sb"
    by (rule set_eqI) (use at [of "nat _"] in \<open>auto simp: free_entries_def FAT_START_ENT_def\<close>)
qed


section \<open>The chain written by an allocation\<close>

text \<open>After \<open>k\<close> clusters from \<open>s\<close>: a chain of them that ends, and nothing else changed.\<close>

definition chain_at :: "fat_sb \<Rightarrow> nat \<Rightarrow> nat \<Rightarrow> nat \<Rightarrow> int" where
  "chain_at sb s k e = (if s \<le> e \<and> e < s + k then (if e + 1 = s + k then FAT_ENT_EOF else int e + 1)
     else fat_at sb e)"

definition filled :: "fat_sb \<Rightarrow> nat \<Rightarrow> nat \<Rightarrow> alloc_st \<Rightarrow> bool" where
  "filled sb s k st \<longleftrightarrow> sb_ok (al_sb st) \<and>
     (\<exists>f. al_sb st = sb\<lparr>buffers := f, prev_free := int (s + k) - 1,
        free_clusters := (if free_clusters sb = -1 then -1 else free_clusters sb - int k)\<rparr>) \<and>
     fat_at (al_sb st) = chain_at sb s k \<and>
     al_clusters st = map int [s..<s + k] \<and>
     set (al_bhs st) = (\<Union>e\<in>{s..<s + k}. set (ent_blocks sb e))"

definition filling :: "fat_sb \<Rightarrow> nat \<Rightarrow> nat \<Rightarrow> alloc_st \<Rightarrow> bool" where
  "filling sb s k st \<longleftrightarrow> filled sb s k st \<and> entry (al_ent st) = int (s + k) \<and>
     al_count st = FAT_START_ENT + int k \<and>
     (if k = 0 then bhs (al_prev st) = [] else placed sb (al_prev st) \<and> entry (al_prev st) = int (s + k) - 1)"

lemma filled_layout: "filled sb s k st \<Longrightarrow> layout (al_sb st) = layout sb"
  by (auto simp: filled_def)

lemma placed_bhs: "placed sb fe \<Longrightarrow> bhs fe \<noteq> []"
  by (auto simp: placed_def ent_blocks_def Let_def)

lemma set_collect: "set (fat_collect_bhs xs fe) = set xs \<union> set (bhs fe)"
proof -
  have "set (fold (\<lambda>b bs. if b \<in> set bs then bs else bs @ [b]) ys xs) = set xs \<union> set ys" for ys
    by (induction ys arbitrary: xs) auto
  then show ?thesis by (simp add: fat_collect_bhs_def)
qed

text \<open>One turn of the inner loop up to the test for the end.\<close>

lemma fill_one:
  assumes fs: "fs_ok sb" and st: "filling sb s k st" and pl: "placed sb (al_ent st)"
    and fr: "fat_at sb (s + k) = FAT_ENT_FREE" and mx: "int (s + k) < max_cluster sb"
    and cl: "free_clusters sb = -1 \<or> int k < free_clusters sb"
  defines "sb1 \<equiv> ent_put (al_ent st) FAT_ENT_EOF (al_sb st)"
  defines "sb2 \<equiv> (if bhs (al_prev st) \<noteq> [] then ent_put (al_prev st) (entry (al_ent st)) sb1 else sb1)"
  defines "sb3 \<equiv> sb2\<lparr>prev_free := entry (al_ent st)\<rparr>"
  defines "sb4 \<equiv> (if free_clusters sb3 \<noteq> -1 then sb3\<lparr>free_clusters := free_clusters sb3 - 1\<rparr> else sb3)"
  shows "ent_get (al_sb st) (al_ent st) = FAT_ENT_FREE"
    and "filled sb s (Suc k) (st\<lparr>al_sb := sb4, al_bhs := fat_collect_bhs (al_bhs st) (al_ent st),
      al_clusters := al_clusters st @ [entry (al_ent st)]\<rparr>)"
proof -
  have fd: "filled sb s k st" and en: "entry (al_ent st) = int (s + k)" using st by (simp_all add: filling_def)
  then have ne: "nat (entry (al_ent st)) = s + k" by simp
  note l = filled_layout [OF fd]
  have ok: "sb_ok (al_sb st)" and at: "fat_at (al_sb st) = chain_at sb s k" using fd by (simp_all add: filled_def)
  have pl': "placed (al_sb st) (al_ent st)" using pl by (simp add: layout_fields [OF l])
  show "ent_get (al_sb st) (al_ent st) = FAT_ENT_FREE"
    using ent_get_placed [OF ok pl', unfolded at] fr ne by (simp add: chain_at_def)
  have v1: "valid_val (al_sb st) FAT_ENT_EOF" by (simp add: valid_val_def)
  note p1 = ent_put_placed [OF ok pl' v1, folded sb1_def]
  note l1 = layout_same_sb [OF p1(2)]
  have sb2: "sb_ok sb2 \<and> same_sb sb1 sb2 \<and> fat_at sb2 e = chain_at sb s (Suc k) e" for e
  proof (cases "k = 0")
    case True
    then have "sb2 = sb1" using st by (simp add: filling_def sb2_def)
    with True p1 show ?thesis by (simp add: at en chain_at_def)
  next
    case False
    then have pv: "placed sb (al_prev st)" "entry (al_prev st) = int (s + k) - 1"
      using st by (simp_all add: filling_def)
    have pv1: "placed sb1 (al_prev st)" using pv(1) l l1 by (simp add: layout_fields(7) [of sb1 sb])
    have v: "valid_val sb1 (int (s + k))"
      using valid_cluster [OF fs, of "int (s + k)"] mx l l1 by (simp add: layout_fields(10) [of sb1 sb])
    have n: "nat (entry (al_prev st)) = s + k - 1" using pv(2) False by simp
    have "sb2 = ent_put (al_prev st) (int (s + k)) sb1"
      using placed_bhs [OF pv(1)] by (simp add: sb2_def en)
    note p2 = ent_put_placed [OF p1(1) pv1 v, folded this]
    have "fat_at sb2 e = chain_at sb s (Suc k) e"
      unfolding p2(3) p1(3) n ne at chain_at_def using False by auto
    with p2(1,2) show ?thesis by simp
  qed
  from sb2 p1(2) have "same_sb (al_sb st) sb2" by (auto simp: same_sb_def)
  then obtain g where g: "sb2 = (al_sb st)\<lparr>buffers := g\<rparr>" by (auto simp: same_sb_def)
  have l4: "layout sb4 = layout sb2" "buffers sb4 = buffers sb2" by (simp_all add: sb4_def sb3_def)
  have "sb_ok sb4" using sb2 sb_ok_layout [OF l4(1)] by (simp add: l4(2))
  moreover have "fat_at sb4 = chain_at sb s (Suc k)" using sb2 fat_at_same_buffers [OF l4] by auto
  moreover have "\<exists>f. sb4 = sb\<lparr>buffers := f, prev_free := int (s + Suc k) - 1,
      free_clusters := (if free_clusters sb = -1 then -1 else free_clusters sb - int (Suc k))\<rparr>"
  proof -
    obtain f where f: "al_sb st = sb\<lparr>buffers := f, prev_free := int (s + k) - 1,
        free_clusters := (if free_clusters sb = -1 then -1 else free_clusters sb - int k)\<rparr>"
      using fd unfolding filled_def by blast
    have "sb4 = sb\<lparr>buffers := g, prev_free := int (s + Suc k) - 1,
        free_clusters := (if free_clusters sb = -1 then -1 else free_clusters sb - int (Suc k))\<rparr>"
      using cl by (auto simp: sb4_def sb3_def g f en)
    then show ?thesis by blast
  qed
  moreover have "set (fat_collect_bhs (al_bhs st) (al_ent st)) = (\<Union>e\<in>{s..<s + Suc k}. set (ent_blocks sb e))"
  proof -
    have "bhs (al_ent st) = ent_blocks sb (s + k)" using pl by (simp add: placed_def ne)
    moreover have "{s..<s + Suc k} = insert (s + k) {s..<s + k}" by auto
    moreover have "set (al_bhs st) = (\<Union>e\<in>{s..<s + k}. set (ent_blocks sb e))" using fd by (simp add: filled_def)
    ultimately show ?thesis by (simp add: set_collect Un_commute)
  qed
  ultimately show "filled sb s (Suc k) (st\<lparr>al_sb := sb4, al_bhs := fat_collect_bhs (al_bhs st) (al_ent st),
      al_clusters := al_clusters st @ [entry (al_ent st)]\<rparr>)"
    using fd by (simp add: filled_def en)
qed


lemma alloc_in_block_ok:
  assumes fs: "fs_ok sb" and st: "filling sb s k st" and pl: "placed sb (al_ent st)" and k: "k < nr"
    and fr: "\<forall>e. s \<le> e \<and> e < s + nr \<longrightarrow> fat_at sb e = FAT_ENT_FREE"
    and mx: "int (s + nr) \<le> max_cluster sb" and s: "2 \<le> s"
    and cl: "free_clusters sb = -1 \<or> int nr \<le> free_clusters sb"
  shows "(\<exists>st'. alloc_in_block nr st = Some (True, st') \<and> filled sb s nr st') \<or>
    (\<exists>k' st'. alloc_in_block nr st = Some (False, st') \<and> k < k' \<and> k' < nr \<and> filling sb s k' st')"
  using st pl k
proof (induction "nr - k" arbitrary: k st)
  case (Suc d)
  define sb1 where "sb1 = ent_put (al_ent st) FAT_ENT_EOF (al_sb st)"
  define sb2 where "sb2 = (if bhs (al_prev st) \<noteq> [] then ent_put (al_prev st) (entry (al_ent st)) sb1 else sb1)"
  define sb3 where "sb3 = sb2\<lparr>prev_free := entry (al_ent st)\<rparr>"
  define sb4 where "sb4 = (if free_clusters sb3 \<noteq> -1 then sb3\<lparr>free_clusters := free_clusters sb3 - 1\<rparr> else sb3)"
  let ?st = "st\<lparr>al_sb := sb4, al_bhs := fat_collect_bhs (al_bhs st) (al_ent st),
      al_clusters := al_clusters st @ [entry (al_ent st)]\<rparr>"
  have "fat_at sb (s + k) = FAT_ENT_FREE" "int (s + k) < max_cluster sb"
    "free_clusters sb = -1 \<or> int k < free_clusters sb"
    using fr Suc.prems(3) mx cl by auto
  note one = fill_one [OF fs Suc.prems(1,2) this, folded sb1_def, folded sb2_def, folded sb3_def, folded sb4_def]
  have len: "length (al_clusters ?st) = Suc k" using one(2) by (simp add: filled_def)
  have en: "entry (al_ent st) = int (s + k)" and cnt: "al_count st = FAT_START_ENT + int k"
    using Suc.prems(1) by (simp_all add: filling_def)
  have m4: "max_cluster sb4 = max_cluster sb" using filled_layout [OF one(2)] by (simp add: layout_def)
  have nxt: "fat_ent_next sb4 = fat_ent_next sb" using filled_layout [OF one(2)] by (intro layout_next) simp
  obtain go fe where nx: "fat_ent_next sb (al_ent st) = (go, fe)" by fastforce
  note nx_ok = fat_ent_next_ok [OF _ Suc.prems(2) nx]
  have ok: "sb_ok sb" using fs by (simp add: fs_ok_def)
  let ?st1 = "?st\<lparr>al_prev := al_ent st, al_count := al_count ?st + 1\<rparr>"
  have "alloc_in_block nr st = (if ent_get (al_sb st) (al_ent st) \<noteq> FAT_ENT_FREE then None
      else if length (al_clusters ?st) = nr then Some (True, ?st)
      else if al_count ?st1 = max_cluster sb4 then Some (False, ?st1)
      else (case fat_ent_next sb4 (al_ent st) of (go, fe) \<Rightarrow>
        if go then alloc_in_block nr (?st1\<lparr>al_ent := fe\<rparr>) else Some (False, ?st1\<lparr>al_ent := fe\<rparr>)))"
    by (subst alloc_in_block.simps, unfold Let_def sb4_def sb3_def sb2_def sb1_def, rule refl)
  then have run: "alloc_in_block nr st = (if Suc k = nr then Some (True, ?st)
      else if al_count ?st1 = max_cluster sb then Some (False, ?st1)
      else if go then alloc_in_block nr (?st1\<lparr>al_ent := fe\<rparr>) else Some (False, ?st1\<lparr>al_ent := fe\<rparr>))"
    unfolding one(1) len m4 nxt nx by simp
  show ?case
  proof (cases "Suc k = nr")
    case True
    then show ?thesis using one(2) run by auto
  next
    case False
    let ?st2 = "?st1\<lparr>al_ent := fe\<rparr>"
    have more: "al_count st + 1 \<noteq> max_cluster sb"
      using cnt mx s Suc.prems(3) False by (simp add: FAT_START_ENT_def)
    have fl: "filling sb s (Suc k) ?st2"
      using one(2) nx_ok(1) [OF ok] en cnt Suc.prems(2) by (simp add: filling_def filled_def)
    show ?thesis
    proof (cases go)
      case True
      have "d = nr - Suc k" "Suc k < nr" "placed sb (al_ent ?st2)"
        using Suc(2) Suc.prems(3) False nx_ok(2) [OF ok True] by auto
      note ih = Suc.hyps(1) [OF this(1) fl this(3,2)]
      have "alloc_in_block nr st = alloc_in_block nr ?st2" using run False more True by simp
      with ih show ?thesis by (metis Suc_lessD)
    next
      case no: False
      then have "alloc_in_block nr st = Some (False, ?st2)" using run False more by simp
      moreover have "k < Suc k" "Suc k < nr" using Suc.prems(3) False by auto
      ultimately show ?thesis using fl by blast
    qed
  qed
qed simp

lemma alloc_blocks_loop_ok:
  assumes fs: "fs_ok sb" and io: "io_ok env" and st: "filling sb s k st" and k: "k < nr"
    and fr: "\<forall>e. s \<le> e \<and> e < s + nr \<longrightarrow> fat_at sb e = FAT_ENT_FREE"
    and mx: "int (s + nr) \<le> max_cluster sb" and s: "2 \<le> s"
    and cl: "free_clusters sb = -1 \<or> int nr \<le> free_clusters sb"
  shows "\<exists>st'. alloc_blocks_loop env nr st = Some (0, st') \<and> filled sb s nr st'"
  using st k
proof (induction "nr - k" arbitrary: k st rule: less_induct)
  case less
  have fd: "filled sb s k st" and en: "entry (al_ent st) = int (s + k)" and cnt: "al_count st = FAT_START_ENT + int k"
    using less.prems(1) by (simp_all add: filling_def)
  note l = filled_layout [OF fd]
  have ok: "sb_ok (al_sb st)" using fd by (simp add: filled_def)
  let ?fe = "\<lparr>entry = int (s + k), ent_u = spot sb (s + k), bhs = ent_blocks sb (s + k)\<rparr>"
  let ?st = "st\<lparr>al_ent := ?fe\<rparr>"
  have "fat_ent_read_block env (al_sb st) (fatent_set_entry (int (s + k)) (al_ent st)) = (0, ?fe)"
    using fat_ent_read_block_eq [OF ok, of "fatent_set_entry (int (s + k)) (al_ent st)" env] io
    by (simp add: fatent_set_entry_def io_ok_def layout_fields [OF l] nat_add_distrib)
  then have run: "alloc_blocks_loop env nr st = Option.bind (alloc_in_block nr ?st)
      (\<lambda>(full, st). if full then Some (0, st) else alloc_blocks_loop env nr st)"
    by (subst alloc_blocks_loop.simps)
      (use en cnt mx s less.prems(2) in \<open>simp add: layout_fields [OF l] FAT_START_ENT_def Let_def\<close>)
  have "filling sb s k ?st" using less.prems(1) by (simp add: filling_def filled_def)
  moreover have "placed sb (al_ent ?st)" by (simp add: placed_def nat_add_distrib)
  ultimately have "(\<exists>st'. alloc_in_block nr ?st = Some (True, st') \<and> filled sb s nr st') \<or>
      (\<exists>k' st'. alloc_in_block nr ?st = Some (False, st') \<and> k < k' \<and> k' < nr \<and> filling sb s k' st')"
    by (rule alloc_in_block_ok [OF fs _ _ less.prems(2) fr mx s cl])
  then show ?case
  proof (elim disjE exE conjE)
    fix k' st' assume "alloc_in_block nr ?st = Some (False, st')" "k < k'" "k' < nr" "filling sb s k' st'"
    then show ?thesis using less.hyps [of k' st'] run by simp
  qed (use run in simp)
qed


section \<open>The result of an allocation\<close>

definition copies_agree :: "fat_sb \<Rightarrow> nat \<Rightarrow> bool" where
  "copies_agree sb e \<longleftrightarrow> (\<forall>c\<in>{1..<fats sb}. \<forall>b\<in>set (ent_blocks sb e).
     buffers sb (fat_length sb * c + b) = buffers sb b)"

lemma free_entries_chain:
  assumes s: "2 \<le> s"
    and at: "\<forall>e. int e < max_cluster sb \<longrightarrow> fat_at sb' e = chain_at sb s k e"
    and m: "max_cluster sb' = max_cluster sb"
  shows "free_entries sb' = free_entries sb - {int s..<int s + int k}"
proof (rule set_eqI)
  fix e
  show "e \<in> free_entries sb' \<longleftrightarrow> e \<in> free_entries sb - {int s..<int s + int k}"
  proof (cases "FAT_START_ENT \<le> e \<and> e < max_cluster sb")
    case True
    then obtain n where n: "e = int n" using nonneg_int_cases [of e] by (auto simp: FAT_START_ENT_def)
    with True at have "fat_at sb' n = chain_at sb s k n" by blast
    with True n m s show ?thesis
      by (auto simp: free_entries_def chain_at_def FAT_ENT_EOF_def FAT_ENT_FREE_def)
  qed (use m in \<open>auto simp: free_entries_def\<close>)
qed

lemma alloc_out_ok:
  assumes fs: "fs_ok sb" and io: "io_ok env" and fd: "filled sb s nr st" and mx: "int (s + nr) \<le> max_cluster sb"
    and s: "2 \<le> s"
  shows "\<exists>sb'. alloc_out env L ns 0 (al_bhs st) (al_clusters st) (al_sb st) =
      Some (0, map int [s..<s + nr], sb') \<and> fs_ok sb' \<and> layout sb' = layout sb \<and> manager sb' = manager sb \<and>
    (\<forall>e. int e < max_cluster sb \<longrightarrow> fat_at sb' e = chain_at sb s nr e) \<and>
    free_clusters sb' = (if free_clusters sb = -1 then -1 else free_clusters sb - int nr) \<and>
    (\<forall>e\<in>{s..<s + nr}. copies_agree sb' e)"
proof -
  let ?sb = "mark_fsinfo_dirty (al_sb st)"
  have l: "layout ?sb = layout sb" using filled_layout [OF fd] by simp
  have b: "buffers ?sb = buffers (al_sb st)" "manager ?sb = manager (al_sb st)"
    "free_clusters ?sb = free_clusters (al_sb st)"
    by (simp_all add: mark_fsinfo_dirty_def)
  have ok: "sb_ok (al_sb st)" using fd by (simp add: filled_def)
  then have "sb_ok ?sb" using sb_ok_layout [of ?sb "al_sb st"] by (simp add: b)
  with fs have fs1: "fs_ok ?sb" unfolding fs_ok_def by (simp add: layout_fields [OF l])
  have at: "fat_at ?sb = chain_at sb s nr"
    using fat_at_same_buffers [of ?sb "al_sb st"] fd b(1) by (simp add: filled_def)
  have tab: "in_table ?sb (al_bhs st)"
    unfolding in_table_def
  proof
    fix x assume "x \<in> set (al_bhs st)"
    then obtain e where e: "e \<in> {s..<s + nr}" "x \<in> set (ent_blocks sb e)" using fd by (auto simp: filled_def)
    then have "e < nat (max_cluster sb)" using mx by auto
    with e fs show "fat_start ?sb \<le> x \<and> x < fat_start ?sb + fat_length ?sb"
      unfolding fs_ok_def by (simp add: layout_fields [OF l])
  qed
  obtain f where f: "fat_mirror_bhs env (al_bhs st) ?sb = (0, ?sb\<lparr>buffers := f\<rparr>)"
    "\<And>b. fat_start ?sb \<le> b \<Longrightarrow> b < fat_start ?sb + fat_length ?sb \<Longrightarrow> f b = buffers ?sb b"
    "\<And>c b. 1 \<le> c \<Longrightarrow> c < fats ?sb \<Longrightarrow> b \<in> set (al_bhs st) \<Longrightarrow> f (fat_length ?sb * c + b) = buffers ?sb b"
    "\<And>x. \<exists>y. f x = buffers ?sb y"
    by (rule fat_mirror_bhs_ok [OF io tab]) blast
  let ?sb' = "?sb\<lparr>buffers := f\<rparr>"
  note keep = mirror_keeps_table [OF fs1 f(2,4)]
  have l': "layout ?sb' = layout sb" using l by simp
  have "alloc_out env L ns 0 (al_bhs st) (al_clusters st) (al_sb st) = Some (0, map int [s..<s + nr], ?sb')"
    using f(1) io fd by (auto simp: alloc_out_def io_ok_def filled_def Let_def)
  moreover have "\<forall>e. int e < max_cluster sb \<longrightarrow> fat_at ?sb' e = chain_at sb s nr e"
    using keep(2) at by (simp add: layout_fields [OF l])
  moreover have "copies_agree ?sb' e" if e: "e \<in> {s..<s + nr}" for e
    unfolding copies_agree_def layout_fields [OF l']
  proof (intro ballI)
    fix c x assume c: "c \<in> {1..<fats sb}" and x: "x \<in> set (ent_blocks sb e)"
    then have xs: "x \<in> set (al_bhs st)" using e fd by (auto simp: filled_def)
    then have "f x = buffers ?sb x" using tab by (intro f(2)) (simp_all add: in_table_def)
    moreover have "f (fat_length sb * c + x) = buffers ?sb x"
      using f(3) [of c x] c xs by (simp add: layout_fields [OF l])
    ultimately show "buffers ?sb' (fat_length sb * c + x) = buffers ?sb' x" by simp
  qed
  moreover have "manager ?sb' = manager sb" "free_clusters ?sb' =
      (if free_clusters sb = -1 then -1 else free_clusters sb - int nr)"
    using fd b by (auto simp: filled_def)
  ultimately show ?thesis using keep(1) l' by blast
qed


lemma fat_alloc_clusters_ok:
  assumes fs: "fs_ok sb" and io: "io_ok env" and src: "source_ok L (manager sb)"
    and sub: "free_set (manager sb) \<subseteq> free_entries sb" and nr: "0 < nr" "nr \<le> MAX_BUF_PER_PAGE div 2"
    and cl: "free_clusters sb = -1 \<or> int nr \<le> free_clusters sb"
  obtains (granted) s sb' where
      "fat_alloc_clusters env L inode ns nr sb = Some (0, map int [s..<s + nr], sb')"
      and "fs_ok sb'" and "max_cluster sb' = max_cluster sb" and "source_ok L (manager sb')"
      and "{int s..<int s + int nr} \<subseteq> free_set (manager sb)"
      and "free_set (manager sb') = free_set (manager sb) - {int s..<int s + int nr}"
      and "free_entries sb' = free_entries sb - {int s..<int s + int nr}"
      and "\<forall>e. int e < max_cluster sb \<longrightarrow> fat_at sb' e = chain_at sb s nr e"
      and "free_clusters sb' = (if free_clusters sb = -1 then -1 else free_clusters sb - int nr)"
      and "\<forall>e\<in>{s..<s + nr}. copies_agree sb' e"
  | (full) sb' where "fat_alloc_clusters env L inode ns nr sb = Some (-ENOSPC, [], sb')"
      and "fs_ok sb'" and "source_ok L (manager sb')"
      and "free_set (manager sb') = free_set (manager sb)" and "fat_at sb' = fat_at sb"
      and "free_entries sb' = free_entries sb" and "free_clusters sb' = 0"
proof -
  have c: "0 < int nr" using nr by simp
  have ok: "sb_ok sb" using fs by (simp add: fs_ok_def)
  have big: "(MAX_BUF_PER_PAGE div 2 < nr) = False"
    "(free_clusters sb \<noteq> -1 \<and> free_clus_valid sb \<and> free_clusters sb < int nr) = False"
    using nr cl by auto
  note unfold = fat_alloc_clusters_def big if_False Let_def
  show ?thesis
  proof (rule bm_source.take_cases [OF src c, of inode])
    fix m assume m: "blocks_mamager_alloc_blocks L inode (int nr) (manager sb) = Some (-1, m)" "source_ok L m"
      "free_set m = free_set (manager sb)"
    let ?sb' = "mark_fsinfo_dirty (no_space (sb\<lparr>manager := m\<rparr>))"
    have same: "layout ?sb' = layout sb" "buffers ?sb' = buffers sb" "manager ?sb' = m" "free_clusters ?sb' = 0"
      by (simp_all add: mark_fsinfo_dirty_def no_space_def)
    have at: "fat_at ?sb' = fat_at sb" by (rule fat_at_same_buffers [OF same(1,2)])
    have "fat_alloc_clusters env L inode ns nr sb = Some (-ENOSPC, [], ?sb')"
      unfolding unfold by (simp add: m alloc_out_def ENOSPC_def)
    moreover have "fs_ok ?sb'" using fs fs_ok_layout [OF same(1)] by (simp add: same(2))
    moreover have "free_entries ?sb' = free_entries sb"
      unfolding free_entries_def at layout_fields [OF same(1)] ..
    ultimately show ?thesis using full [of ?sb'] m same at by simp
  next
    fix b m assume m: "blocks_mamager_alloc_blocks L inode (int nr) (manager sb) = Some (b, m)" "source_ok L m"
      "0 \<le> b" "{b..<b + int nr} \<subseteq> free_set (manager sb)"
      "free_set m = free_set (manager sb) - {b..<b + int nr}"
    define s where "s = nat b"
    have b: "b = int s" using m(3) by (simp add: s_def)
    have fr: "int e \<in> free_entries sb" if "s \<le> e" "e < s + nr" for e
    proof -
      have "int e \<in> {b..<b + int nr}" using that b by simp
      then show ?thesis using m(4) sub by blast
    qed
    have free: "\<forall>e. s \<le> e \<and> e < s + nr \<longrightarrow> fat_at sb e = FAT_ENT_FREE"
    proof (intro allI impI)
      fix e assume "s \<le> e \<and> e < s + nr"
      then have "int e \<in> free_entries sb" using fr by blast
      then show "fat_at sb e = FAT_ENT_FREE" by (simp add: free_entries_def)
    qed
    have s: "2 \<le> s" using fr [of s] nr by (simp add: free_entries_def FAT_START_ENT_def)
    have "int (s + nr - 1) \<in> free_entries sb" using nr by (intro fr) auto
    then have mx: "int (s + nr) \<le> max_cluster sb" using nr by (simp add: free_entries_def of_nat_diff)
    let ?sb = "sb\<lparr>manager := m\<rparr>"
    let ?st = "\<lparr>al_sb = ?sb\<lparr>prev_free := b - 1\<rparr>, al_ent = fatent_set_entry b fatent_init,
      al_prev = fatent_init, al_bhs = [], al_clusters = [], al_count = FAT_START_ENT\<rparr>"
    have lm: "layout ?sb = layout sb" "buffers ?sb = buffers sb" by simp_all
    have fs1: "fs_ok ?sb" using fs fs_ok_layout [OF lm(1)] by simp
    have at1: "fat_at ?sb = fat_at sb" by (rule fat_at_same_buffers [OF lm])
    have lp: "layout (?sb\<lparr>prev_free := b - 1\<rparr>) = layout sb" "buffers (?sb\<lparr>prev_free := b - 1\<rparr>) = buffers sb"
      by simp_all
    have "filled ?sb s 0 ?st"
    proof -
      have "sb_ok (al_sb ?st)" using ok sb_ok_layout [OF lp(1)] by simp
      moreover have "fat_at (al_sb ?st) = chain_at ?sb s 0"
        using fat_at_same_buffers [OF lp] at1 by (simp add: chain_at_def fun_eq_iff)
      moreover have "al_sb ?st = ?sb\<lparr>buffers := buffers ?sb, prev_free := int (s + 0) - 1, free_clusters :=
          (if free_clusters ?sb = -1 then -1 else free_clusters ?sb - int 0)\<rparr>"
        by (simp add: b)
      ultimately show ?thesis unfolding filled_def
        by (intro conjI exI [of _ "buffers ?sb"]) (assumption | simp)+
    qed
    then have "filling ?sb s 0 ?st" by (simp add: filling_def fatent_set_entry_def fatent_init_def b)
    from alloc_blocks_loop_ok [OF fs1 io this nr(1)] free at1 mx s cl
    obtain st where st: "alloc_blocks_loop env nr ?st = Some (0, st)" "filled ?sb s nr st" by auto
    obtain sb' where sb': "alloc_out env L ns 0 (al_bhs st) (al_clusters st) (al_sb st) =
        Some (0, map int [s..<s + nr], sb')" "fs_ok sb'" "layout sb' = layout ?sb" "manager sb' = m"
      "\<forall>e. int e < max_cluster ?sb \<longrightarrow> fat_at sb' e = chain_at ?sb s nr e"
      "free_clusters sb' = (if free_clusters ?sb = -1 then -1 else free_clusters ?sb - int nr)"
      "\<forall>e\<in>{s..<s + nr}. copies_agree sb' e"
      using alloc_out_ok [OF fs1 io st(2) _ s, of L ns] mx by auto
    have "b \<noteq> -1" using m(3) by simp
    then have run: "fat_alloc_clusters env L inode ns nr sb = Some (0, map int [s..<s + nr], sb')"
      unfolding unfold using st(1) sb'(1) by (simp add: m(1))
    have at: "\<forall>e. int e < max_cluster sb \<longrightarrow> fat_at sb' e = chain_at sb s nr e"
      using sb'(5) unfolding chain_at_def at1 by simp
    have mxx: "max_cluster sb' = max_cluster sb" using sb'(3) by (simp add: layout_def)
    show ?thesis
      by (rule granted [OF run sb'(2) mxx _ _ _ free_entries_chain [OF s at mxx] at _ sb'(7)])
        (use m b sb'(4,6) in simp_all)
  qed
qed


end
