(* ===== verification/FatFreeProof.thy ===== *)
theory FatFreeProof
  imports FatAllocProof
begin

text \<open>
  Release and counting of clusters: \<open>fat_free_clusters\<close> along the chain of a file and
  \<open>fat_count_free_clusters\<close> over the whole table. Both give clusters to the block manager, used as
  a \<open>cluster_sink\<close> through its interpretation \<open>bm_sink\<close>. The last section states the properties of
  the FAT code.
\<close>

section \<open>Copies of the table\<close>

definition in_tab :: "fat_sb \<Rightarrow> nat \<Rightarrow> bool" where
  "in_tab sb b \<longleftrightarrow> fat_start sb \<le> b \<and> b < fat_start sb + fat_length sb"

text \<open>Every backup copy agrees with the table, but for the blocks \<open>xs\<close>.\<close>

definition mirrored_but :: "nat list \<Rightarrow> fat_sb \<Rightarrow> bool" where
  "mirrored_but xs sb \<longleftrightarrow> (\<forall>c b. 1 \<le> c \<and> c < fats sb \<and> in_tab sb b \<and> b \<notin> set xs \<longrightarrow>
     buffers sb (fat_length sb * c + b) = buffers sb b)"

lemma put_le_other: "fst p \<noteq> b \<Longrightarrow> buffers (put_le n p v sb) b = buffers sb b"
  by (induction n arbitrary: p v sb) (simp_all add: ptr_add_def put_byte_def)

lemma ent_put_other:
  assumes "placed sb fe" and "b \<notin> set (bhs fe)" and ok: "sb_ok sb"
  shows "buffers (ent_put fe v sb') b = buffers sb' b"
proof -
  have pos: "0 < s_blocksize sb" by (simp add: s_blocksize_def)
  let ?a = "ent_addr sb (nat (entry fe))"
  have u: "ent_u fe = spot sb (nat (entry fe))" "b \<notin> set (ent_blocks sb (nat (entry fe)))"
    using assms by (simp_all add: placed_def)
  have o: "buffers (put_byte p v s) b = buffers s b" if "fst p \<noteq> b" for p v s
    using that by (simp add: put_byte_def)
  show ?thesis
  proof (cases "fatent_ops sb")
    case FAT12
    have "fst (faddr sb ?a) \<noteq> b" "fst (faddr sb (?a + 1)) \<noteq> b"
      using u(2) FAT12 faddr_succ [OF pos, of ?a] by (auto simp: ent_blocks_def Let_def split: if_splits)
    then show ?thesis using u(1) FAT12 by (simp add: ent_put_def spot_def fat12_ent_put_def o Let_def)
  qed (use u in \<open>auto simp: ent_put_def spot_def fat16_ent_put_def fat32_ent_put_def ent_blocks_def
      put_le_other Let_def split: if_splits\<close>)
qed

lemma fat_mirror_keeps:
  assumes fs: "fs_ok sb" and io: "io_ok env" and tab: "in_table sb xs"
  obtains f where "fat_mirror_bhs env xs sb = (0, sb\<lparr>buffers := f\<rparr>)" and "fs_ok (sb\<lparr>buffers := f\<rparr>)"
    and "\<forall>e. int e < max_cluster sb \<longrightarrow> fat_at (sb\<lparr>buffers := f\<rparr>) e = fat_at sb e"
    and "\<And>ys. mirrored_but (xs @ ys) sb \<Longrightarrow> mirrored_but ys (sb\<lparr>buffers := f\<rparr>)"
proof (rule fat_mirror_bhs_ok [OF io tab])
  fix f assume f: "fat_mirror_bhs env xs sb = (0, sb\<lparr>buffers := f\<rparr>)"
    "\<And>b. fat_start sb \<le> b \<Longrightarrow> b < fat_start sb + fat_length sb \<Longrightarrow> f b = buffers sb b"
    "\<And>c b. 1 \<le> c \<Longrightarrow> c < fats sb \<Longrightarrow> b \<in> set xs \<Longrightarrow> f (fat_length sb * c + b) = buffers sb b"
    "\<And>c b. fat_start sb \<le> b \<Longrightarrow> b < fat_start sb + fat_length sb \<Longrightarrow> b \<notin> set xs \<Longrightarrow>
      f (fat_length sb * c + b) = buffers sb (fat_length sb * c + b)"
    "\<And>x. \<exists>y. f x = buffers sb y"
  note keep = mirror_keeps_table [OF fs f(2,5)]
  note f(1)
  moreover have "mirrored_but ys (sb\<lparr>buffers := f\<rparr>)" if "mirrored_but (xs @ ys) sb" for ys
    unfolding mirrored_but_def
  proof (intro allI impI)
    fix c b assume a: "1 \<le> c \<and> c < fats (sb\<lparr>buffers := f\<rparr>) \<and> in_tab (sb\<lparr>buffers := f\<rparr>) b \<and> b \<notin> set ys"
    then have b: "1 \<le> c" "c < fats sb" "in_tab sb b" "b \<notin> set ys" by (simp_all add: in_tab_def)
    then have "f b = buffers sb b" using f(2) by (simp add: in_tab_def)
    moreover have "f (fat_length sb * c + b) = buffers sb b"
    proof (cases "b \<in> set xs")
      case True
      then show ?thesis using f(3) b by simp
    next
      case False
      then show ?thesis using f(4) b that unfolding mirrored_but_def by (simp add: in_tab_def)
    qed
    ultimately show "buffers (sb\<lparr>buffers := f\<rparr>) (fat_length (sb\<lparr>buffers := f\<rparr>) * c + b) =
        buffers (sb\<lparr>buffers := f\<rparr>) b" by simp
  qed
  ultimately show ?thesis using that [of f] keep(1,2) by blast
qed

lemma sync_and_mirror_eq: "io_ok env \<Longrightarrow> sync_and_mirror env xs sb = fat_mirror_bhs env xs sb"
  by (simp add: sync_and_mirror_def io_ok_def)

section \<open>The chain of a file\<close>

text \<open>The clusters of a file: from \<open>c\<close> along the table to the end mark.\<close>

fun file_chain :: "(nat \<Rightarrow> int) \<Rightarrow> int \<Rightarrow> int \<Rightarrow> int list \<Rightarrow> bool" where
  "file_chain t mx c [] \<longleftrightarrow> False"
| "file_chain t mx c (d # cs) \<longleftrightarrow> c = d \<and> FAT_START_ENT \<le> c \<and> c < mx \<and> t (nat c) \<noteq> FAT_ENT_FREE \<and>
     (if cs = [] then t (nat c) = FAT_ENT_EOF
      else t (nat c) \<noteq> FAT_ENT_EOF \<and> file_chain t mx (t (nat c)) cs)"

lemma file_chain_unique: "file_chain t mx c cs \<Longrightarrow> file_chain t mx c ds \<Longrightarrow> cs = ds"
proof (induction cs arbitrary: c ds)
  case (Cons x cs)
  then show ?case by (cases ds) (auto split: if_splits)
qed simp

lemma file_chain_suffix: "file_chain t mx c cs \<Longrightarrow> d \<in> set cs \<Longrightarrow> \<exists>ds. file_chain t mx d ds \<and> length ds \<le> length cs"
proof (induction cs arbitrary: c)
  case (Cons x cs)
  show ?case
  proof (cases "d = x")
    case True
    then show ?thesis using Cons.prems(1) by (auto intro!: exI [of _ "x # cs"])
  next
    case False
    then have d: "d \<in> set cs" "cs \<noteq> []" using Cons.prems(2) by auto
    with Cons.prems(1) have "file_chain t mx (t (nat c)) cs" by auto
    from Cons.IH [OF this d(1)] show ?thesis by auto
  qed
qed simp

lemma file_chain_distinct: "file_chain t mx c cs \<Longrightarrow> distinct cs"
proof (induction cs arbitrary: c)
  case (Cons x cs)
  show ?case
  proof (cases "cs = []")
    case False
    with Cons.prems have tail: "file_chain t mx (t (nat x)) cs" by auto
    have "x \<notin> set cs"
    proof
      assume "x \<in> set cs"
      from file_chain_suffix [OF tail this] obtain ds where "file_chain t mx x ds" "length ds \<le> length cs" by blast
      moreover have "file_chain t mx x (x # cs)" using Cons.prems by (auto split: if_splits)
      ultimately have "x # cs = ds" using file_chain_unique by blast
      with \<open>length ds \<le> length cs\<close> show False by auto
    qed
    with Cons.IH [OF tail] show ?thesis by simp
  qed simp
qed simp

lemma file_chain_entry: "file_chain t mx c cs \<Longrightarrow> e \<in> set cs \<Longrightarrow> FAT_START_ENT \<le> e \<and> e < mx \<and> t (nat e) \<noteq> FAT_ENT_FREE"
  by (induction cs arbitrary: c) (auto split: if_splits)

lemma file_chain_head: "file_chain t mx c cs \<Longrightarrow> cs \<noteq> [] \<and> hd cs = c"
  by (cases cs) auto

lemma file_chain_cong:
  "file_chain t mx c cs \<Longrightarrow> \<forall>e\<in>set cs. t' (nat e) = t (nat e) \<Longrightarrow> file_chain t' mx c cs"
  by (induction cs arbitrary: c) (auto split: if_splits)

lemma fat_at_nonneg: "0 \<le> fat_at sb e"
proof -
  have "0 \<le> mem sb a" for a by (rule mem_bounds)
  then show ?thesis
    by (auto simp: fat_at_def dec12_def FAT_ENT_EOF_def Let_def split: fat_type.splits)
qed


section \<open>Releasing the chain\<close>

definition run_of :: "int \<times> int \<Rightarrow> int list" where
  "run_of r = [fst r..fst r + snd r - 1]"

text \<open>The state after the clusters \<open>ds\<close> of the chain, about to release \<open>c\<close>.\<close>

definition releasing :: "rb_lib \<Rightarrow> fat_sb \<Rightarrow> int list \<Rightarrow> int \<Rightarrow> nat list \<Rightarrow> free_st \<Rightarrow> bool" where
  "releasing L sb ds c zs st \<longleftrightarrow> fs_ok (fr_sb st) \<and>
     (\<exists>f n m. fr_sb st = sb\<lparr>buffers := f, free_clusters := n, manager := m\<rparr>) \<and>
     (\<forall>e. int e < max_cluster sb \<longrightarrow> fat_at (fr_sb st) e = (if int e \<in> set ds then FAT_ENT_FREE else fat_at sb e)) \<and>
     free_clusters (fr_sb st) = (if free_clusters sb = -1 then -1 else free_clusters sb + int (length ds)) \<and>
     sink_ready L (manager (fr_sb st)) \<and>
     free_set (manager (fr_sb st)) = free_set (manager sb) \<union> (if free_clusters sb = -1 then {} else set ds) \<and>
     (mirrored_but [] sb \<longrightarrow> mirrored_but zs (fr_sb st)) \<and>
     (opt_discard sb \<longrightarrow> concat (map run_of (fr_discards st)) @ [fr_first st..c - 1] = ds \<and> fr_first st \<le> c)"

lemma releasing_layout: "releasing L sb ds c zs st \<Longrightarrow> layout (fr_sb st) = layout sb"
  by (auto simp: releasing_def layout_def)

lemma discard_run_fields [simp]:
  "fr_sb (discard_run v st) = fr_sb st" "fr_ent (discard_run v st) = fr_ent st"
  "fr_bhs (discard_run v st) = fr_bhs st"
  by (simp_all add: discard_run_def)

lemma discard_run_ok:
  assumes d: "opt_discard (fr_sb st)" and e: "concat (map run_of (fr_discards st)) @ [fr_first st..c - 1] = ds"
    and le: "fr_first st \<le> c" and c: "entry (fr_ent st) = c"
  shows "concat (map run_of (fr_discards (discard_run v st))) @ [fr_first (discard_run v st)..v - 1] = ds @ [c] \<and>
    fr_first (discard_run v st) \<le> v"
proof -
  have "[fr_first st..c] = [fr_first st..c - 1] @ [c]" using le by (rule upto_rec2)
  with e have "concat (map run_of (fr_discards st)) @ [fr_first st..c] = ds @ [c]" by auto
  then show ?thesis using d c le by (auto simp: discard_run_def run_of_def)
qed

lemma placed_in_tab:
  assumes fs: "fs_ok sb" and pl: "placed sb fe" and m: "entry fe < max_cluster sb"
  shows "\<forall>b\<in>set (bhs fe). in_tab sb b"
proof -
  have "nat (entry fe) < nat (max_cluster sb)" "bhs fe = ent_blocks sb (nat (entry fe))"
    using pl m by (auto simp: placed_def)
  with fs show ?thesis unfolding fs_ok_def in_tab_def by metis
qed

lemma ent_put_mirrored:
  assumes fs: "fs_ok sb" and pl: "placed sb fe" and m: "entry fe < max_cluster sb"
    and mi: "mirrored_but xs sb" and l: "layout (ent_put fe v sb) = layout sb"
  shows "mirrored_but (xs @ bhs fe) (ent_put fe v sb)"
  unfolding mirrored_but_def in_tab_def layout_fields [OF l]
proof (intro allI impI)
  fix c b
  assume a: "1 \<le> c \<and> c < fats sb \<and> (fat_start sb \<le> b \<and> b < fat_start sb + fat_length sb) \<and> b \<notin> set (xs @ bhs fe)"
  have ok: "sb_ok sb" using fs by (simp add: fs_ok_def)
  have "fat_length sb * 1 \<le> fat_length sb * c" using a by (intro mult_le_mono2) simp
  then have "fat_length sb \<le> fat_length sb * c" by simp
  then have "\<not> in_tab sb (fat_length sb * c + b)" using a unfolding in_tab_def by linarith
  then have "fat_length sb * c + b \<notin> set (bhs fe)" using placed_in_tab [OF fs pl m] by blast
  moreover have "buffers sb (fat_length sb * c + b) = buffers sb b"
    using mi a unfolding mirrored_but_def in_tab_def by auto
  ultimately show "buffers (ent_put fe v sb) (fat_length sb * c + b) = buffers (ent_put fe v sb) b"
    using a ent_put_other [OF pl _ ok] by simp
qed

lemma free_one:
  assumes st: "releasing L sb ds c (fr_bhs st) st" and pl: "placed sb (fr_ent st)" and en: "entry (fr_ent st) = c"
    and c: "FAT_START_ENT \<le> c" "c < max_cluster sb" "c \<notin> free_set (manager sb)" "c \<notin> set ds"
    and cl: "-1 \<le> free_clusters sb"
  obtains st' where "free_entry L (discard_run v st) = Some st'"
    and "fr_ent st' = fr_ent st" and "fr_bhs st' = fr_bhs st"
    and "releasing L sb (ds @ [c]) v (fr_bhs st @ bhs (fr_ent st)) st'"
proof -
  note l = releasing_layout [OF st]
  let ?st = "discard_run v st" and ?sb = "ent_put (fr_ent st) FAT_ENT_FREE (fr_sb st)"
  have fs: "fs_ok (fr_sb st)" using st by (simp add: releasing_def)
  then have ok: "sb_ok (fr_sb st)" by (simp add: fs_ok_def)
  have v: "valid_val (fr_sb st) FAT_ENT_FREE"
    by (auto simp: valid_val_def FAT_ENT_FREE_def bad_mark_def BAD_FAT12_def BAD_FAT16_def BAD_FAT32_def
        split: fat_type.splits)
  have pl': "placed (fr_sb st) (fr_ent st)" using pl by (simp add: layout_fields [OF l])
  note put = ent_put_placed [OF ok pl' v]
  obtain g where g: "?sb = (fr_sb st)\<lparr>buffers := g\<rparr>" using put(2) by (auto simp: same_sb_def)
  have l1: "layout ?sb = layout (fr_sb st)" by (simp add: g)
  have fs1: "fs_ok ?sb" using fs put(1) unfolding fs_ok_def layout_fields [OF l1] by simp
  have mx: "entry (fr_ent st) < max_cluster (fr_sb st)" using en c by (simp add: layout_fields [OF l])
  have mi: "mirrored_but (fr_bhs st @ bhs (fr_ent st)) ?sb" if "mirrored_but [] sb"
    using ent_put_mirrored [OF fs pl' mx _ l1] st that by (simp add: releasing_def)
  obtain f n m where old: "fr_sb st = sb\<lparr>buffers := f, free_clusters := n, manager := m\<rparr>"
    using st unfolding releasing_def by blast
  have at: "fat_at ?sb e = (if int e \<in> set (ds @ [c]) then FAT_ENT_FREE else fat_at sb e)"
    if "int e < max_cluster sb" for e
    using st that c(1) unfolding put(3) releasing_def by (auto simp: en FAT_START_ENT_def)
  have dis: "opt_discard sb \<longrightarrow> concat (map run_of (fr_discards ?st)) @ [fr_first ?st..v - 1] = ds @ [c] \<and> fr_first ?st \<le> v"
    using discard_run_ok [OF _ _ _ en, of ds v] st old unfolding releasing_def by simp
  show ?thesis
  proof (cases "free_clusters sb = -1")
    case True
    let ?st' = "?st\<lparr>fr_sb := ?sb\<rparr>"
    have "free_clusters (fr_sb st) = -1" using st True by (simp add: releasing_def)
    then have run: "free_entry L ?st = Some ?st'" by (simp add: free_entry_def g)
    have "?sb = sb\<lparr>buffers := g, free_clusters := n, manager := m\<rparr>" unfolding g by (simp add: old)
    then have "\<exists>f n m. ?sb = sb\<lparr>buffers := f, free_clusters := n, manager := m\<rparr>" by blast
    moreover have "sink_ready L (manager ?sb)" "free_clusters ?sb = -1" "free_set (manager ?sb) = free_set (manager sb)"
      using st True unfolding g releasing_def by simp_all
    ultimately have "releasing L sb (ds @ [c]) v (fr_bhs st @ bhs (fr_ent st)) ?st'"
      using fs1 at mi dis True by (simp add: releasing_def)
    then show ?thesis using that [OF run] by simp
  next
    case False
    then have n: "free_clusters (fr_sb st) = free_clusters sb + int (length ds)"
      using st by (simp add: releasing_def)
    have "{c..<c + 1} \<inter> free_set (manager (fr_sb st)) = {}" using st c False by (auto simp: releasing_def)
    moreover have "sink_ready L (manager (fr_sb st))" using st by (simp add: releasing_def)
    ultimately obtain m' where m': "bm_give L c 1 (manager (fr_sb st)) = Some m'" "sink_ready L m'"
      "free_set m' = free_set (manager (fr_sb st)) \<union> {c..<c + 1}"
      using bm_sink.give_law [of L "manager (fr_sb st)" 1 c] by auto
    let ?sb' = "?sb\<lparr>free_clusters := free_clusters ?sb + 1, manager := m'\<rparr>"
    let ?st' = "?st\<lparr>fr_sb := ?sb', fr_dirty := True\<rparr>"
    have run: "free_entry L ?st = Some ?st'"
      using m'(1) n False cl en by (auto simp: free_entry_def g bm_give_def split: prod.splits)
    have l2: "layout ?sb' = layout ?sb" "buffers ?sb' = buffers ?sb" by simp_all
    have "fs_ok ?sb'" using fs1 fs_ok_layout [OF l2(1)] by simp
    moreover have "fat_at ?sb' = fat_at ?sb" by (rule fat_at_same_buffers [OF l2])
    moreover have "mirrored_but xs ?sb' = mirrored_but xs ?sb" for xs by (simp add: mirrored_but_def in_tab_def)
    moreover have "free_set m' = free_set (manager sb) \<union> set (ds @ [c])"
      using m'(3) st False by (auto simp: releasing_def)
    moreover have "\<exists>f n m. ?sb' = sb\<lparr>buffers := f, free_clusters := n, manager := m\<rparr>"
    proof -
      have "?sb' = sb\<lparr>buffers := g, free_clusters := free_clusters ?sb + 1, manager := m'\<rparr>"
        unfolding g by (simp add: old)
      then show ?thesis by blast
    qed
    moreover have "free_clusters ?sb' = free_clusters sb + int (length (ds @ [c]))" using n by (simp add: g)
    ultimately have "releasing L sb (ds @ [c]) v (fr_bhs st @ bhs (fr_ent st)) ?st'"
      using at mi dis False m'(2) by (simp add: releasing_def)
    then show ?thesis using that [OF run] by simp
  qed
qed


text \<open>A flush changes copies only.\<close>

lemma releasing_buffers:
  assumes st: "releasing L sb ds c zs st" and fs: "fs_ok (fr_sb st\<lparr>buffers := f\<rparr>)"
    and at: "\<forall>e. int e < max_cluster (fr_sb st) \<longrightarrow> fat_at (fr_sb st\<lparr>buffers := f\<rparr>) e = fat_at (fr_sb st) e"
    and mi: "mirrored_but zs (fr_sb st) \<Longrightarrow> mirrored_but ys (fr_sb st\<lparr>buffers := f\<rparr>)"
  shows "releasing L sb ds c ys (st\<lparr>fr_sb := fr_sb st\<lparr>buffers := f\<rparr>\<rparr>)"
proof -
  obtain f' n m where "fr_sb st = sb\<lparr>buffers := f', free_clusters := n, manager := m\<rparr>"
    using st unfolding releasing_def by blast
  then have "fr_sb st\<lparr>buffers := f\<rparr> = sb\<lparr>buffers := f, free_clusters := n, manager := m\<rparr>" by simp
  then have "\<exists>f' n m. fr_sb st\<lparr>buffers := f\<rparr> = sb\<lparr>buffers := f', free_clusters := n, manager := m\<rparr>" by blast
  moreover have "\<forall>e. int e < max_cluster sb \<longrightarrow>
      fat_at (fr_sb st\<lparr>buffers := f\<rparr>) e = (if int e \<in> set ds then FAT_ENT_FREE else fat_at sb e)"
    using at st unfolding layout_fields [OF releasing_layout [OF st]] releasing_def by simp
  ultimately show ?thesis using st fs mi by (simp add: releasing_def)
qed

lemma flush_full_ok:
  assumes io: "io_ok env" and st: "releasing L sb ds c (fr_bhs st @ zs) st" and tab: "in_table sb (fr_bhs st)"
  obtains st' where "flush_full env st = (0, st')" and "fr_ent st' = fr_ent st" and "in_table sb (fr_bhs st')"
    and "releasing L sb ds c (fr_bhs st' @ zs) st'"
proof (cases "MAX_BUF_PER_PAGE < length (fr_bhs st) + length (bhs (fr_ent st))")
  case True
  note l = releasing_layout [OF st]
  have fs: "fs_ok (fr_sb st)" using st by (simp add: releasing_def)
  have tab': "in_table (fr_sb st) (fr_bhs st)" using tab unfolding in_table_def layout_fields [OF l] .
  show ?thesis
  proof (rule fat_mirror_keeps [OF fs io tab', folded sync_and_mirror_eq [OF io]])
    fix f
    let ?sb = "fr_sb st\<lparr>buffers := f\<rparr>"
    let ?st = "st\<lparr>fr_sb := ?sb, fr_bhs := []\<rparr>"
    assume s: "sync_and_mirror env (fr_bhs st) (fr_sb st) = (0, ?sb)" "fs_ok ?sb"
      "\<forall>e. int e < max_cluster (fr_sb st) \<longrightarrow> fat_at ?sb e = fat_at (fr_sb st) e"
      "\<And>ys. mirrored_but (fr_bhs st @ ys) (fr_sb st) \<Longrightarrow> mirrored_but ys ?sb"
    have run: "flush_full env st = (0, ?st)" using True s(1) by (simp add: flush_full_def)
    have "releasing L sb ds c (fr_bhs ?st @ zs) ?st"
      using releasing_buffers [OF st s(2,3,4)] by (simp add: releasing_def)
    then show ?thesis using that [OF run] by (simp add: in_table_def)
  qed
next
  case False
  then show ?thesis using that [of st] st tab by (simp add: flush_full_def)
qed

lemma mirrored_but_set: "set xs = set ys \<Longrightarrow> mirrored_but xs sb = mirrored_but ys sb"
  by (simp add: mirrored_but_def)

text \<open>The rest of the chain is released, whatever was released before.\<close>

lemma free_chain_ok:
  assumes fs: "fs_ok sb" and io: "io_ok env" and cl: "-1 \<le> free_clusters sb"
    and sub: "free_set (manager sb) \<subseteq> free_entries sb"
  shows "releasing L sb ds c (fr_bhs st) st \<Longrightarrow> cached sb (fr_ent st) \<Longrightarrow> in_table sb (fr_bhs st) \<Longrightarrow>
    file_chain (fat_at sb) (max_cluster sb) c cs \<Longrightarrow> distinct (ds @ cs) \<Longrightarrow>
    \<exists>st'. free_chain env L c st = Some (0, st') \<and> releasing L sb (ds @ cs) FAT_ENT_EOF [] st'"
proof (induction cs arbitrary: ds c st)
  case (Cons d cs)
  note l = releasing_layout [OF Cons.prems(1)]
  have c: "c = d" "FAT_START_ENT \<le> c" "c < max_cluster sb" "fat_at sb (nat c) \<noteq> FAT_ENT_FREE" "c \<notin> set ds"
    using Cons.prems(4,5) by auto
  define v where "v = fat_at sb (nat c)"
  have ok: "sb_ok (fr_sb st)" using Cons.prems(1) by (simp add: releasing_def fs_ok_def)
  have c0: "0 \<le> c" using c(2) by (simp add: FAT_START_ENT_def)
  have v: "fat_at (fr_sb st) (nat c) = v"
    using Cons.prems(1) c c0 unfolding releasing_def v_def by auto
  obtain fe where fe: "fat_ent_read env (fr_sb st) (fr_ent st) c = (v, fe)" "placed sb fe" "entry fe = c"
  proof (rule fat_ent_read_ok [OF ok, of c "fr_ent st" env])
    show "FAT_START_ENT \<le> c" "c < max_cluster (fr_sb st)" "cached (fr_sb st) (fr_ent st)"
      using c Cons.prems(2) by (simp_all add: layout_fields [OF l])
    fix fe' assume "fat_ent_read env (fr_sb st) (fr_ent st) c = (fat_at (fr_sb st) (nat c), fe')"
      "placed (fr_sb st) fe'" "entry fe' = c"
    then show ?thesis using that [of fe'] by (simp add: v layout_fields [OF l])
  next
    fix b fe' assume "\<not> sb_bread env b"
    then show ?thesis using io by (simp add: io_ok_def)
  qed
  let ?st = "st\<lparr>fr_ent := fe\<rparr>"
  have rel: "releasing L sb ds c (fr_bhs ?st) ?st" using Cons.prems(1) by (simp add: releasing_def)
  have nf: "c \<notin> free_set (manager sb)" using sub c(4) by (auto simp: free_entries_def)
  have pl: "placed sb (fr_ent ?st)" "entry (fr_ent ?st) = c" using fe by simp_all
  obtain st1 where st1: "free_entry L (discard_run v ?st) = Some st1" "fr_ent st1 = fe" "fr_bhs st1 = fr_bhs st"
    "releasing L sb (ds @ [c]) v (fr_bhs st @ bhs fe) st1"
    using free_one [OF rel pl c(2,3) nf c(5) cl, of v] by auto
  have tab1: "in_table sb (fr_bhs st1)" "releasing L sb (ds @ [c]) v (fr_bhs st1 @ bhs fe) st1"
    using Cons.prems(3) st1(3,4) by simp_all
  obtain st2 where st2: "flush_full env st1 = (0, st2)" "fr_ent st2 = fe" "in_table sb (fr_bhs st2)"
    "releasing L sb (ds @ [c]) v (fr_bhs st2 @ bhs fe) st2"
    using flush_full_ok [OF io tab1(2,1)] st1(2) by metis
  let ?st3 = "st2\<lparr>fr_bhs := fat_collect_bhs (fr_bhs st2) fe\<rparr>"
  have "set (fr_bhs st2 @ bhs fe) = set (fr_bhs ?st3)" by (simp add: set_collect)
  note same = mirrored_but_set [OF this]
  have rel3: "releasing L sb (ds @ [c]) v (fr_bhs ?st3) ?st3"
    using st2(4) unfolding releasing_def same by simp
  have tab3: "in_table sb (fr_bhs ?st3)"
    using st2(3) placed_in_tab [OF fs fe(2)] fe(3) c(3) by (auto simp: in_table_def in_tab_def set_collect)
  have v0: "\<not> v < 0" using fat_at_nonneg [of sb "nat c"] by (simp add: v_def)
  have "v \<noteq> FAT_ENT_FREE" using c(4) by (simp add: v_def)
  then have run: "free_chain env L c st = (if v \<noteq> FAT_ENT_EOF then free_chain env L v ?st3
      else (case sync_and_mirror env (fr_bhs ?st3) (fr_sb ?st3) of (err, sb) \<Rightarrow> Some (err, ?st3\<lparr>fr_sb := sb\<rparr>)))"
    by (subst free_chain.simps) (use v0 st1(1) st2(1,2) in \<open>simp add: fe(1) Let_def\<close>)
  show ?case
  proof (cases "cs = []")
    case False
    then have tail: "v \<noteq> FAT_ENT_EOF" "file_chain (fat_at sb) (max_cluster sb) v cs"
      using Cons.prems(4) by (auto simp: v_def)
    have ca: "cached sb (fr_ent ?st3)" using placed_cached [OF fe(2)] st2(2) by simp
    have "distinct ((ds @ [c]) @ cs)" using Cons.prems(5) c(1) by simp
    from Cons.IH [OF rel3 ca tab3 tail(2) this] tail(1) run c(1) show ?thesis by simp
  next
    case True
    then have eof: "v = FAT_ENT_EOF" using Cons.prems(4) by (auto simp: v_def)
    let ?zs = "fr_bhs ?st3"
    have "releasing L sb (ds @ [c]) v (?zs @ []) ?st3" using rel3 by simp
    note l3 = releasing_layout [OF rel3]
    have fs3: "fs_ok (fr_sb ?st3)" using rel3 by (simp add: releasing_def)
    have tab3': "in_table (fr_sb ?st3) ?zs" using tab3 unfolding in_table_def layout_fields [OF l3] .
    show ?thesis
    proof (rule fat_mirror_keeps [OF fs3 io tab3', folded sync_and_mirror_eq [OF io]])
      fix f
      let ?sb = "fr_sb ?st3\<lparr>buffers := f\<rparr>"
      assume s: "sync_and_mirror env ?zs (fr_sb ?st3) = (0, ?sb)" "fs_ok ?sb"
        "\<forall>e. int e < max_cluster (fr_sb ?st3) \<longrightarrow> fat_at ?sb e = fat_at (fr_sb ?st3) e"
        "\<And>ys. mirrored_but (?zs @ ys) (fr_sb ?st3) \<Longrightarrow> mirrored_but ys ?sb"
      have "releasing L sb (ds @ [c]) v [] (?st3\<lparr>fr_sb := ?sb\<rparr>)"
        using releasing_buffers [OF rel3 s(2) s(3) s(4) [of "[]"]] by simp
      then show ?thesis using run eof s(1) True c(1) by simp
    qed
  qed
qed simp


lemma fat_free_clusters_ok:
  assumes fs: "fs_ok sb" and io: "io_ok env" and cl: "-1 \<le> free_clusters sb" and sk: "sink_ready L (manager sb)"
    and sub: "free_set (manager sb) \<subseteq> free_entries sb" and ch: "file_chain (fat_at sb) (max_cluster sb) c cs"
  obtains ds sb' where "fat_free_clusters env L c sb = Some (0, ds, sb')" and "fs_ok sb'"
    and "layout sb' = layout sb"
    and "\<forall>e. int e < max_cluster sb \<longrightarrow> fat_at sb' e = (if int e \<in> set cs then FAT_ENT_FREE else fat_at sb e)"
    and "free_clusters sb' = (if free_clusters sb = -1 then -1 else free_clusters sb + int (length cs))"
    and "sink_ready L (manager sb')"
    and "free_set (manager sb') = free_set (manager sb) \<union> (if free_clusters sb = -1 then {} else set cs)"
    and "mirrored_but [] sb \<longrightarrow> mirrored_but [] sb'"
    and "opt_discard sb \<longrightarrow> concat (map run_of ds) = cs"
proof -
  let ?st = "\<lparr>fr_sb = sb, fr_ent = fatent_init, fr_bhs = [], fr_first = c, fr_dirty = False, fr_discards = []\<rparr>"
  have "\<exists>f n m. sb = sb\<lparr>buffers := f, free_clusters := n, manager := m\<rparr>"
    by (intro exI [of _ "buffers sb"] exI [of _ "free_clusters sb"] exI [of _ "manager sb"]) simp
  then have "releasing L sb [] c (fr_bhs ?st) ?st" using fs sk by (simp add: releasing_def)
  from free_chain_ok [OF fs io cl sub this _ _ ch] file_chain_distinct [OF ch]
  obtain st where st: "free_chain env L c ?st = Some (0, st)" "releasing L sb cs FAT_ENT_EOF [] st"
    by (auto simp: cached_def fatent_init_def in_table_def)
  define sb' where "sb' = (if fr_dirty st then mark_fsinfo_dirty (fr_sb st) else fr_sb st)"
  have same: "layout sb' = layout (fr_sb st)" "buffers sb' = buffers (fr_sb st)" "manager sb' = manager (fr_sb st)"
    "free_clusters sb' = free_clusters (fr_sb st)" by (simp_all add: sb'_def mark_fsinfo_dirty_def)
  have at: "fat_at sb' = fat_at (fr_sb st)" by (rule fat_at_same_buffers [OF same(1,2)])
  have run: "fat_free_clusters env L c sb = Some (0, fr_discards st, sb')"
    by (simp add: fat_free_clusters_def st(1) sb'_def)
  have fs': "fs_ok sb'" using st(2) fs_ok_layout [OF same(1)] same(2) by (simp add: releasing_def)
  have mi: "mirrored_but [] sb \<longrightarrow> mirrored_but [] sb'"
    using st(2) unfolding releasing_def mirrored_but_def in_tab_def layout_fields [OF same(1)] same(2) by blast
  have dis: "opt_discard sb \<longrightarrow> concat (map run_of (fr_discards st)) = cs"
  proof
    assume "opt_discard sb"
    then have e: "concat (map run_of (fr_discards st)) @ [fr_first st..FAT_ENT_EOF - 1] = cs"
      using st(2) by (simp add: releasing_def)
    have "FAT_ENT_EOF - 1 \<notin> set cs"
    proof
      assume "FAT_ENT_EOF - 1 \<in> set cs"
      then have "FAT_ENT_EOF - 1 < bad_mark sb" using file_chain_entry [OF ch] fs by (force simp: fs_ok_def)
      then show False
        by (auto simp: bad_mark_def BAD_FAT12_def BAD_FAT16_def BAD_FAT32_def FAT_ENT_EOF_def split: fat_type.splits)
    qed
    then have "FAT_ENT_EOF - 1 \<notin> set [fr_first st..FAT_ENT_EOF - 1]" using e by (metis Un_iff set_append)
    then have "[fr_first st..FAT_ENT_EOF - 1] = []" by simp
    with e show "concat (map run_of (fr_discards st)) = cs" by simp
  qed
  show ?thesis
    by (rule that [OF run fs' _ _ _ _ _ mi dis])
      (use st(2) releasing_layout [OF st(2)] in \<open>simp_all add: same at releasing_def\<close>)
qed

section \<open>Counting the free clusters\<close>

text \<open>
  The state of the count before entry \<open>e\<close>: the free entries below are counted, and they are in the
  manager but for the run that ends here.
\<close>

definition counting :: "rb_lib \<Rightarrow> fat_sb \<Rightarrow> int \<Rightarrow> count_st \<Rightarrow> bool" where
  "counting L sb e st \<longleftrightarrow> (\<exists>m. ct_sb st = sb\<lparr>manager := m\<rparr>) \<and> sink_ready L (manager (ct_sb st)) \<and>
     ct_free st = int (card (free_entries sb \<inter> {..<e})) \<and> 0 \<le> ct_count st \<and>
     (ct_count st \<noteq> 0 \<longrightarrow> ct_start st + ct_count st = e \<and> {ct_start st..<e} \<subseteq> free_entries sb) \<and>
     free_set (manager (ct_sb st)) = free_entries sb \<inter> {..<e - ct_count st}"

lemma give_run_ok:
  assumes st: "counting L sb e st"
  obtains st' where "give_run L st = Some st'" and "\<exists>m. ct_sb st' = sb\<lparr>manager := m\<rparr>"
    and "sink_ready L (manager (ct_sb st'))" and "free_set (manager (ct_sb st')) = free_entries sb \<inter> {..<e}"
    and "ct_free st' = ct_free st" and "ct_ent st' = ct_ent st"
proof (cases "ct_count st = 0")
  case True
  then show ?thesis using that [of st] st by (simp add: give_run_def counting_def)
next
  case False
  let ?m = "manager (ct_sb st)"
  have pre: "0 < ct_count st" "sink_ready L ?m" "ct_start st + ct_count st = e" "{ct_start st..<e} \<subseteq> free_entries sb"
    "free_set ?m = free_entries sb \<inter> {..<ct_start st}"
    using st False by (auto simp: counting_def)
  then have "{ct_start st..<ct_start st + ct_count st} \<inter> free_set ?m = {}" by auto
  from bm_sink.give_law [OF pre(2,1) this] obtain m' where m': "bm_give L (ct_start st) (ct_count st) ?m = Some m'"
    "sink_ready L m'" "free_set m' = free_set ?m \<union> {ct_start st..<ct_start st + ct_count st}" by blast
  obtain m where m: "ct_sb st = sb\<lparr>manager := m\<rparr>" using st by (auto simp: counting_def)
  let ?st = "st\<lparr>ct_sb := (ct_sb st)\<lparr>manager := m'\<rparr>\<rparr>"
  have run: "give_run L st = Some ?st" using m'(1) False by (auto simp: give_run_def bm_give_def split: prod.splits)
  have "ct_sb ?st = sb\<lparr>manager := m'\<rparr>" by (simp add: m)
  then have ex: "\<exists>m. ct_sb ?st = sb\<lparr>manager := m\<rparr>" by blast
  have "free_set m' = free_entries sb \<inter> {..<e}" using m'(3) pre by auto
  with m'(2) show ?thesis by (intro that [OF run ex]) simp_all
qed

lemma count_entry_ok:
  assumes ok: "sb_ok sb" and st: "counting L sb e st" and pl: "placed sb (ct_ent st)" and en: "entry (ct_ent st) = e"
    and e: "FAT_START_ENT \<le> e" "e < max_cluster sb"
  obtains st' where "count_entry L st = Some st'" and "counting L sb (e + 1) st'" and "ct_ent st' = ct_ent st"
proof -
  obtain m where m: "ct_sb st = sb\<lparr>manager := m\<rparr>" using st by (auto simp: counting_def)
  have l: "layout (ct_sb st) = layout sb" "buffers (ct_sb st) = buffers sb" by (simp_all add: m)
  have ok': "sb_ok (ct_sb st)" using ok sb_ok_layout [OF l(1)] by (simp add: l(2))
  have pl': "placed (ct_sb st) (ct_ent st)" using pl by (simp add: layout_fields [OF l(1)])
  have get: "ent_get (ct_sb st) (ct_ent st) = fat_at sb (nat e)"
    using ent_get_placed [OF ok' pl'] fat_at_same_buffers [OF l] en by simp
  have fr: "e \<in> free_entries sb \<longleftrightarrow> fat_at sb (nat e) = FAT_ENT_FREE" using e by (simp add: free_entries_def)
  have below: "{..<e + 1} = insert e {..<e}" by auto
  show ?thesis
  proof (cases "e \<in> free_entries sb")
    case True
    let ?st = "st\<lparr>ct_free := ct_free st + 1, ct_start := (if ct_count st = 0 then entry (ct_ent st) else ct_start st),
      ct_count := ct_count st + 1\<rparr>"
    have run: "count_entry L st = Some ?st" using True fr get by (simp add: count_entry_def)
    have fin: "finite (free_entries sb \<inter> {..<e})"
      by (rule finite_subset [of _ "{FAT_START_ENT..<e}"]) (auto simp: free_entries_def)
    have "free_entries sb \<inter> {..<e + 1} = insert e (free_entries sb \<inter> {..<e})" using True below by auto
    then have card: "card (free_entries sb \<inter> {..<e + 1}) = Suc (card (free_entries sb \<inter> {..<e}))" using fin by simp
    have "{ct_start ?st..<e + 1} \<subseteq> free_entries sb"
    proof
      fix x assume x: "x \<in> {ct_start ?st..<e + 1}"
      show "x \<in> free_entries sb"
      proof (cases "x = e")
        case False
        with x have "x \<in> {ct_start st..<e}" "ct_count st \<noteq> 0" using en by (auto split: if_splits)
        with st show ?thesis unfolding counting_def by blast
      qed (use True in simp)
    qed
    then have "counting L sb (e + 1) ?st" using st en card m unfolding counting_def by simp
    then show ?thesis using that [OF run] by simp
  next
    case False
    then have eq: "free_entries sb \<inter> {..<e + 1} = free_entries sb \<inter> {..<e}" using below by auto
    show ?thesis
    proof (rule give_run_ok [OF st])
      fix st' assume g: "give_run L st = Some st'" "\<exists>m. ct_sb st' = sb\<lparr>manager := m\<rparr>"
        "sink_ready L (manager (ct_sb st'))" "free_set (manager (ct_sb st')) = free_entries sb \<inter> {..<e}"
        "ct_free st' = ct_free st" "ct_ent st' = ct_ent st"
      have run: "count_entry L st = Some (st'\<lparr>ct_start := 0, ct_count := 0\<rparr>)"
        using False fr get g(1) by (simp add: count_entry_def)
      have "counting L sb (e + 1) (st'\<lparr>ct_start := 0, ct_count := 0\<rparr>)"
        using g st unfolding counting_def by (simp add: eq)
      then show ?thesis using that [OF run] g(6) by simp
    qed
  qed
qed

lemma count_in_block_ok:
  assumes ok: "sb_ok sb"
  shows "counting L sb e st \<Longrightarrow> placed sb (ct_ent st) \<Longrightarrow> entry (ct_ent st) = e \<Longrightarrow> FAT_START_ENT \<le> e \<Longrightarrow>
    e < max_cluster sb \<Longrightarrow> \<exists>st' e'. count_in_block L st = Some st' \<and> e < e' \<and> e' \<le> max_cluster sb \<and>
      counting L sb e' st' \<and> entry (ct_ent st') = e'"
proof (induction "nat (max_cluster sb - e)" arbitrary: e st rule: less_induct)
  case less
  obtain st1 where st1: "count_entry L st = Some st1" "counting L sb (e + 1) st1" "ct_ent st1 = ct_ent st"
    by (rule count_entry_ok [OF ok less.prems])
  obtain m where m: "ct_sb st1 = sb\<lparr>manager := m\<rparr>" using st1(2) by (auto simp: counting_def)
  have nx: "fat_ent_next (ct_sb st1) = fat_ent_next sb" by (rule layout_next) (simp add: m)
  obtain go fe where n: "fat_ent_next sb (ct_ent st) = (go, fe)" by fastforce
  note fe = fat_ent_next_ok [OF ok less.prems(2) n]
  let ?st = "st1\<lparr>ct_ent := fe\<rparr>"
  have run: "count_in_block L st = (if go then count_in_block L ?st else Some ?st)"
    by (subst count_in_block.simps) (simp add: st1(1,3) nx n)
  have c: "counting L sb (e + 1) ?st" "entry (ct_ent ?st) = e + 1"
    using st1(2) fe(1) less.prems(3) by (simp_all add: counting_def)
  show ?case
  proof (cases go)
    case True
    with fe(2) c(2) less.prems(4,5) have "nat (max_cluster sb - (e + 1)) < nat (max_cluster sb - e)"
      "placed sb (ct_ent ?st)" "FAT_START_ENT \<le> e + 1" "e + 1 < max_cluster sb" by auto
    from less.hyps [OF this(1) c(1) this(2) c(2) this(3,4)] obtain st' e' where
      "count_in_block L ?st = Some st'" "e + 1 < e'" "e' \<le> max_cluster sb" "counting L sb e' st'"
      "entry (ct_ent st') = e'" by blast
    then show ?thesis using run True by (intro exI [of _ st'] exI [of _ e']) simp
  next
    case False
    then show ?thesis using run c less.prems(5) by (intro exI [of _ ?st] exI [of _ "e + 1"]) simp
  qed
qed

lemma count_blocks_ok:
  assumes ok: "sb_ok sb" and io: "io_ok env"
  shows "counting L sb e st \<Longrightarrow> entry (ct_ent st) = e \<Longrightarrow> FAT_START_ENT \<le> e \<Longrightarrow> e \<le> max_cluster sb \<Longrightarrow>
    \<exists>st'. count_blocks env L st = Some (0, st') \<and> counting L sb (max_cluster sb) st'"
proof (induction "nat (max_cluster sb - e)" arbitrary: e st rule: less_induct)
  case less
  obtain m where m: "ct_sb st = sb\<lparr>manager := m\<rparr>" using less.prems(1) by (auto simp: counting_def)
  have l: "layout (ct_sb st) = layout sb" "buffers (ct_sb st) = buffers sb" by (simp_all add: m)
  have ok': "sb_ok (ct_sb st)" using ok sb_ok_layout [OF l(1)] by (simp add: l(2))
  show ?case
  proof (cases "e < max_cluster sb")
    case False
    then have "e = max_cluster sb" using less.prems(4) by simp
    with less.prems show ?thesis by (subst count_blocks.simps) (simp add: layout_fields [OF l(1)])
  next
    case True
    have e0: "0 \<le> e" using less.prems(3) by (simp add: FAT_START_ENT_def)
    let ?fe = "\<lparr>entry = e, ent_u = spot sb (nat e), bhs = ent_blocks sb (nat e)\<rparr>"
    let ?st = "st\<lparr>ct_ent := ?fe\<rparr>"
    have "fat_ent_read_block env (ct_sb st) (ct_ent st) = (0, ?fe)"
      using fat_ent_read_block_eq [OF ok', of "ct_ent st" env] e0 io less.prems(2)
      by (simp add: io_ok_def layout_fields [OF l(1)])
    then have run: "count_blocks env L st = Option.bind (count_in_block L ?st) (count_blocks env L)"
      by (subst count_blocks.simps) (use True less.prems(2) in \<open>simp add: layout_fields [OF l(1)]\<close>)
    have "counting L sb e ?st" "placed sb (ct_ent ?st)" "entry (ct_ent ?st) = e"
      using less.prems(1) placed_canonical [OF e0] by (simp_all add: counting_def)
    from count_in_block_ok [OF ok this less.prems(3) True] obtain st' e' where st':
      "count_in_block L ?st = Some st'" "e < e'" "e' \<le> max_cluster sb" "counting L sb e' st'"
      "entry (ct_ent st') = e'" by blast
    have "nat (max_cluster sb - e') < nat (max_cluster sb - e)" "FAT_START_ENT \<le> e'"
      using st'(2,3) True less.prems(3) by auto
    from less.hyps [OF this(1) st'(4,5) this(2) st'(3)] run st'(1) show ?thesis by simp
  qed
qed


lemma fat_count_free_clusters_ok:
  assumes fs: "fs_ok sb" and io: "io_ok env" and L: "rb_lib_ok L" and m: "bm_wf (manager sb)" "linked (manager sb)"
    and lm: "last_merged (manager sb) = None" and nf: "never_fails (bm_mallocs (manager sb))"
    and no: "free_clusters sb = -1 \<or> \<not> free_clus_valid sb"
  obtains sb' where "fat_count_free_clusters env L sb = Some (0, sb')" and "layout sb' = layout sb"
    and "buffers sb' = buffers sb" and "free_clusters sb' = int (card (free_entries sb))" and "free_clus_valid sb'"
    and "sink_ready L (manager sb')" and "free_set (manager sb') = free_entries sb"
proof -
  obtain m0 where m0: "blocks_mamager_free_all L (manager sb) = Some m0" "bm_wf m0" "free_set m0 = {}"
    "last_merged m0 = None" "bm_mallocs m0 = bm_mallocs (manager sb)"
    using blocks_mamager_free_all_ok [OF L m] lm by metis
  let ?st = "\<lparr>ct_sb = sb\<lparr>manager := m0\<rparr>, ct_ent = fatent_set_entry FAT_START_ENT fatent_init, ct_free = 0,
    ct_start = 0, ct_count = 0\<rparr>"
  have below: "free_entries sb \<inter> {..<FAT_START_ENT} = {}" and all: "free_entries sb \<inter> {..<max_cluster sb} = free_entries sb"
    by (auto simp: free_entries_def)
  have ok: "sb_ok sb" and mx: "FAT_START_ENT \<le> max_cluster sb" using fs by (simp_all add: fs_ok_def)
  have "sink_ready L m0" using L m0 nf by (simp add: sink_ready_def lm_ok_def)
  then have c: "counting L sb FAT_START_ENT ?st" using m0(3) below by (auto simp: counting_def)
  have e: "entry (ct_ent ?st) = FAT_START_ENT" by (simp add: fatent_set_entry_def)
  obtain st where st: "count_blocks env L ?st = Some (0, st)" "counting L sb (max_cluster sb) st"
    using count_blocks_ok [OF ok io c e order_refl mx] by blast
  show ?thesis
  proof (rule give_run_ok [OF st(2)])
    fix st' assume g: "give_run L st = Some st'" "\<exists>m. ct_sb st' = sb\<lparr>manager := m\<rparr>"
      "sink_ready L (manager (ct_sb st'))" "free_set (manager (ct_sb st')) = free_entries sb \<inter> {..<max_cluster sb}"
      "ct_free st' = ct_free st"
    let ?sb = "mark_fsinfo_dirty ((ct_sb st')\<lparr>free_clusters := ct_free st', free_clus_valid := True\<rparr>)"
    have "fat_count_free_clusters env L sb = Some (0, ?sb)"
      using no by (auto simp: fat_count_free_clusters_def m0(1) st(1) g(1) Let_def)
    moreover have "ct_free st' = int (card (free_entries sb))" using st(2) g(5) all by (simp add: counting_def)
    moreover obtain m' where "ct_sb st' = sb\<lparr>manager := m'\<rparr>" using g(2) by blast
    moreover have "free_clusters ?sb = ct_free st'" "free_clus_valid ?sb" "manager ?sb = manager (ct_sb st')"
      "buffers ?sb = buffers (ct_sb st')" by (simp_all add: mark_fsinfo_dirty_def)
    ultimately show ?thesis using that [of ?sb] g(3,4) all by simp
  qed
qed

section \<open>An example\<close>

text \<open>
  A FAT16 table of ten entries in blocks of 16 bytes, with one copy: a file in the clusters 2 and
  3, the others free.
\<close>

definition demo_sb :: "int \<Rightarrow> bool \<Rightarrow> bm_state \<Rightarrow> fat_sb" where
  "demo_sb n v m = \<lparr>s_blocksize_bits = 4, fat_start = 1, fat_length = 2, fats = 2, fat_bits = 16,
     fatent_shift = 1, fatent_ops = FAT16, max_cluster = 10, prev_free = 2, free_clusters = n,
     free_clus_valid = v, opt_discard = True, ms_synchronous = False, ms_rdonly = False,
     fsinfo_dirty = False,
     buffers = (\<lambda>b. if b = 1 \<or> b = 3 then [0xF8, 0xFF, 0xFF, 0xFF, 3, 0, 0xFF, 0xFF, 0, 0, 0, 0, 0, 0, 0, 0]
       else replicate 16 0), manager = m\<rparr>"

definition demo_env :: fat_env where
  "demo_env = \<lparr>sb_bread = (\<lambda>_. True), sb_getblk = (\<lambda>_. True), sync_dirty_buffer = (\<lambda>_. 0), fat_sync_bhs = (\<lambda>_. 0)\<rparr>"

lemma demo_io: "io_ok demo_env"
  by (simp add: io_ok_def demo_env_def)

lemma demo_table: "map (fat_at (demo_sb n v m)) [0..<10] = [FAT_ENT_EOF, FAT_ENT_EOF, 3, FAT_ENT_EOF, 0, 0, 0, 0, 0, 0]"
proof -
  have "map (fat_at (demo_sb 0 True (bm_init (\<lambda>_. True) []))) [0..<10] =
      [FAT_ENT_EOF, FAT_ENT_EOF, 3, FAT_ENT_EOF, 0, 0, 0, 0, 0, 0]" by code_simp
  moreover have "fat_at (demo_sb n v m) = fat_at (demo_sb 0 True (bm_init (\<lambda>_. True) []))"
    by (rule fat_at_same_buffers) (simp_all add: demo_sb_def layout_def)
  ultimately show ?thesis by simp
qed

lemma demo_at: "e < 10 \<Longrightarrow> fat_at (demo_sb n v m) e = [FAT_ENT_EOF, FAT_ENT_EOF, 3, FAT_ENT_EOF, 0, 0, 0, 0, 0, 0] ! e"
  using arg_cong [OF demo_table, of "\<lambda>xs. xs ! e", of n v m] by simp

lemma demo_blocks: "ent_blocks (demo_sb n v m) e = [1 + 2 * e div 16]"
  by (simp add: ent_blocks_def ent_addr_def faddr_def s_blocksize_def demo_sb_def)

lemma demo_fs: "fs_ok (demo_sb n v m)"
proof -
  have "1 \<le> b \<and> b < 1 + 2" if "e < nat 10" "b \<in> set (ent_blocks (demo_sb n v m) e)" for e b
  proof -
    have "2 * e < 2 * 16" using that(1) by simp
    then have "2 * e div 16 < 2" by (rule less_mult_imp_div_less)
    then show ?thesis using that(2) by (simp add: demo_blocks)
  qed
  then have "\<forall>e<nat 10. \<forall>b\<in>set (ent_blocks (demo_sb n v m) e). 1 \<le> b \<and> b < 1 + 2" by blast
  moreover have "sb_ok (demo_sb n v m)" by (simp add: sb_ok_def demo_sb_def s_blocksize_def)
  moreover have "10 \<le> bad_mark (demo_sb n v m)" by (simp add: bad_mark_def BAD_FAT16_def demo_sb_def)
  moreover have "max_cluster (demo_sb n v m) = 10" "fat_start (demo_sb n v m) = 1" "fat_length (demo_sb n v m) = 2"
    by (simp_all add: demo_sb_def)
  ultimately show ?thesis by (simp add: fs_ok_def FAT_START_ENT_def)
qed

lemma demo_free: "free_entries (demo_sb n v m) = {4..<10}"
proof (rule set_eqI)
  fix e :: int
  show "e \<in> free_entries (demo_sb n v m) \<longleftrightarrow> e \<in> {4..<10}"
  proof (cases "0 \<le> e \<and> e < 10")
    case True
    then have "e = 0 \<or> e = 1 \<or> e = 2 \<or> e = 3 \<or> e = 4 \<or> e = 5 \<or> e = 6 \<or> e = 7 \<or> e = 8 \<or> e = 9" by presburger
    then show ?thesis
      by (auto simp: free_entries_def demo_at FAT_START_ENT_def FAT_ENT_FREE_def FAT_ENT_EOF_def)
        (simp_all add: demo_sb_def)
  qed (auto simp: free_entries_def FAT_START_ENT_def demo_sb_def)
qed

lemma demo_max: "max_cluster (demo_sb n v m) = 10" "manager (demo_sb n v m) = m" "free_clusters (demo_sb n v m) = n"
  "free_clus_valid (demo_sb n v m) = v" "opt_discard (demo_sb n v m)"
  by (simp_all add: demo_sb_def)


section \<open>Properties\<close>

text \<open>
  C18: Reading an entry, writing a value to it with \<open>fat_ent_write\<close> and reading again: the entry has
  the new value, every other entry the value it had (also the neighbour that shares a byte in a
  FAT12 table), whatever blocks the reader holds, and copies that agreed with the table still do.
\<close>

theorem fat_entry_write_read:
  assumes fs: "fs_ok sb" and io: "io_ok env" and e: "FAT_START_ENT \<le> e" "e < max_cluster sb"
    and v: "valid_val sb v"
  shows "\<exists>fe sb'. fat_ent_read env sb fatent_init e = (fat_at sb (nat e), fe) \<and>
    fat_ent_write env fe v wait sb = (0, sb') \<and> fs_ok sb' \<and>
    (mirrored_but [] sb \<longrightarrow> mirrored_but [] sb') \<and>
    (\<forall>d hold. FAT_START_ENT \<le> d \<and> d < max_cluster sb \<and> cached sb hold \<longrightarrow>
       fst (fat_ent_read env sb' hold d) = (if d = e then v else fst (fat_ent_read env sb hold d)))"
proof -
  have read: "fst (fat_ent_read env s hold d) = fat_at s (nat d)"
    if "sb_ok s" "FAT_START_ENT \<le> d" "d < max_cluster s" "cached s hold" for s d hold
    by (rule fat_ent_read_ok [OF that, of env]) (use io in \<open>simp_all add: io_ok_def\<close>)
  have ok: "sb_ok sb" using fs by (simp add: fs_ok_def)
  have c: "cached sb fatent_init" by (simp add: cached_def fatent_init_def)
  obtain fe where fe: "fat_ent_read env sb fatent_init e = (fat_at sb (nat e), fe)" "placed sb fe" "entry fe = e"
    by (rule fat_ent_read_ok [OF ok e c, of env]) (use io in \<open>auto simp: io_ok_def\<close>)
  let ?sb = "ent_put fe v sb"
  note put = ent_put_placed [OF ok fe(2) v]
  note l = layout_same_sb [OF put(2)]
  have fs1: "fs_ok ?sb" using fs put(1) unfolding fs_ok_def layout_fields [OF l] by simp
  have mi: "mirrored_but (bhs fe @ []) ?sb" if "mirrored_but [] sb"
    using ent_put_mirrored [OF fs fe(2) _ that l] fe(3) e(2) by simp
  have tab: "in_table ?sb (bhs fe)"
    using placed_in_tab [OF fs fe(2)] fe(3) e(2) unfolding in_table_def in_tab_def layout_fields [OF l] by simp
  show ?thesis
  proof (rule fat_mirror_keeps [OF fs1 io tab])
    fix f
    let ?sb' = "?sb\<lparr>buffers := f\<rparr>"
    assume f: "fat_mirror_bhs env (bhs fe) ?sb = (0, ?sb')" "fs_ok ?sb'"
      "\<forall>e. int e < max_cluster ?sb \<longrightarrow> fat_at ?sb' e = fat_at ?sb e"
      "\<And>ys. mirrored_but (bhs fe @ ys) ?sb \<Longrightarrow> mirrored_but ys ?sb'"
    have l': "layout ?sb' = layout sb" using l by simp
    have w: "fat_ent_write env fe v wait sb = (0, ?sb')" using f(1) io by (simp add: fat_ent_write_def io_ok_def)
    have "fst (fat_ent_read env ?sb' hold d) = (if d = e then v else fst (fat_ent_read env sb hold d))"
      if d: "FAT_START_ENT \<le> d" "d < max_cluster sb" "cached sb hold" for d hold
    proof -
      have "fst (fat_ent_read env ?sb' hold d) = fat_at ?sb' (nat d)"
        using d f(2) by (intro read) (simp_all add: fs_ok_def layout_fields [OF l'])
      also have "\<dots> = fat_at ?sb (nat d)" using f(3) d by (simp add: layout_fields [OF l] FAT_START_ENT_def)
      also have "\<dots> = (if d = e then v else fat_at sb (nat d))"
        using put(3) [of "nat d"] fe(3) d(1) e(1) by (auto simp: FAT_START_ENT_def)
      finally show ?thesis using read [OF ok d] by simp
    qed
    then show ?thesis using fe(1) w f(2) f(4) [of "[]"] mi by blast
  qed
qed

theorem fat_entry_write_read_witness:
  "\<exists>fe sb'. fat_ent_read demo_env (demo_sb 6 True (bm_init (\<lambda>_. True) [])) fatent_init 3 = (FAT_ENT_EOF, fe) \<and>
    fat_ent_write demo_env fe 7 True (demo_sb 6 True (bm_init (\<lambda>_. True) [])) = (0, sb') \<and>
    fst (fat_ent_read demo_env sb' fatent_init 3) = 7"
proof -
  let ?sb = "demo_sb 6 True (bm_init (\<lambda>_. True) [])"
  have "valid_val ?sb 7" by (simp add: valid_val_def bad_mark_def demo_sb_def BAD_FAT16_def)
  moreover have "cached ?sb fatent_init" by (simp add: cached_def fatent_init_def)
  ultimately show ?thesis
    using fat_entry_write_read [OF demo_fs demo_io, of 3 6 True "bm_init (\<lambda>_. True) []" 7 True]
    by (auto simp: FAT_START_ENT_def demo_max demo_at)
qed

text \<open>
  The checks of \<open>fat_ent_read\<close>. A cluster number outside the table gives \<open>-EIO\<close> and drops the
  held blocks; inside the table the answer is the nonnegative value of the entry unless one of its
  blocks cannot be read, and then it is \<open>-EIO\<close> again. The code of every caller that tests for a
  negative answer rests on this.
\<close>

theorem fat_ent_read_checks:
  assumes "sb_ok sb" and "cached sb fe"
  shows "if FAT_START_ENT \<le> e \<and> e < max_cluster sb then
      fst (fat_ent_read env sb fe e) = fat_at sb (nat e) \<and> 0 \<le> fst (fat_ent_read env sb fe e) \<or>
      fst (fat_ent_read env sb fe e) = -EIO \<and> (\<exists>b\<in>set (ent_blocks sb (nat e)). \<not> sb_bread env b)
    else fat_ent_read env sb fe e = (-EIO, fatent_brelse fe)"
proof (cases "FAT_START_ENT \<le> e \<and> e < max_cluster sb")
  case True
  then have e: "FAT_START_ENT \<le> e" "e < max_cluster sb" by simp_all
  show ?thesis
    by (rule fat_ent_read_ok [OF assms(1) e assms(2), of env]) (use True fat_at_nonneg in auto)
qed (auto simp: fat_ent_read_def)

theorem fat_ent_read_checks_witness:
  "fat_ent_read demo_env (demo_sb 6 True (bm_init (\<lambda>_. True) [])) fatent_init 10 = (-EIO, fatent_brelse fatent_init)"
  using fat_ent_read_checks [of "demo_sb 6 True (bm_init (\<lambda>_. True) [])" fatent_init 10 demo_env]
    demo_fs [of 6 True "bm_init (\<lambda>_. True) []"]
  by (simp add: demo_max cached_def fatent_init_def fs_ok_def)

text \<open>
  C3: Allocation. When the ranges of the block manager are free in the table and the free count is
  unknown or large enough, \<open>fat_alloc_clusters\<close> (of at most four clusters) ends in one of two ways.
  Either it returns the numbers of consecutive clusters that were free, which are now a chain in the
  table ended by the end mark, with every other entry as it was, the backup copies of the written
  blocks equal to them, the free count smaller by the number of clusters, and the clusters gone from
  the manager; or the manager has no range, the answer is \<open>-ENOSPC\<close>, the table and the manager keep
  their free clusters and the free count becomes 0. The manager stays within the free entries.
\<close>

theorem fat_alloc_makes_chain:
  assumes "fs_ok sb" and "io_ok env" and "source_ok L (manager sb)"
    and "free_set (manager sb) \<subseteq> free_entries sb" and "0 < nr" and "nr \<le> MAX_BUF_PER_PAGE div 2"
    and "free_clusters sb = -1 \<or> int nr \<le> free_clusters sb"
  shows "\<exists>err cs sb'. fat_alloc_clusters env L inode ns nr sb = Some (err, cs, sb') \<and> fs_ok sb' \<and>
    source_ok L (manager sb') \<and> free_set (manager sb') \<subseteq> free_entries sb' \<and>
    free_entries sb' = free_entries sb - set cs \<and> free_set (manager sb') = free_set (manager sb) - set cs \<and>
    (if err = 0 then
       \<exists>s. cs = map int [s..<s + nr] \<and> set cs \<subseteq> free_entries sb \<and>
         (\<forall>e. int e < max_cluster sb \<longrightarrow> fat_at sb' e =
            (if s \<le> e \<and> e < s + nr then if e + 1 = s + nr then FAT_ENT_EOF else int e + 1 else fat_at sb e)) \<and>
         free_clusters sb' = (if free_clusters sb = -1 then -1 else free_clusters sb - int nr) \<and>
         (\<forall>e\<in>{s..<s + nr}. copies_agree sb' e)
     else err = -ENOSPC \<and> cs = [] \<and> fat_at sb' = fat_at sb \<and> free_clusters sb' = 0)"
proof (rule fat_alloc_clusters_ok [OF assms, of inode ns])
  fix s sb'
  assume a: "fat_alloc_clusters env L inode ns nr sb = Some (0, map int [s..<s + nr], sb')" "fs_ok sb'"
    "source_ok L (manager sb')" "{int s..<int s + int nr} \<subseteq> free_set (manager sb)"
    "free_set (manager sb') = free_set (manager sb) - {int s..<int s + int nr}"
    "free_entries sb' = free_entries sb - {int s..<int s + int nr}"
    "\<forall>e. int e < max_cluster sb \<longrightarrow> fat_at sb' e = chain_at sb s nr e"
    "free_clusters sb' = (if free_clusters sb = -1 then -1 else free_clusters sb - int nr)"
    "\<forall>e\<in>{s..<s + nr}. copies_agree sb' e"
  have cs: "set (map int [s..<s + nr]) = {int s..<int s + int nr}" by (auto simp: image_int_atLeastLessThan)
  then have sub: "set (map int [s..<s + nr]) \<subseteq> free_entries sb" using a(4) assms(4) by blast
  have "free_set (manager sb') \<subseteq> free_entries sb'" using a(5,6) assms(4) by blast
  moreover have "\<exists>s'. map int [s..<s + nr] = map int [s'..<s' + nr] \<and> set (map int [s..<s + nr]) \<subseteq> free_entries sb \<and>
      (\<forall>e. int e < max_cluster sb \<longrightarrow> fat_at sb' e =
        (if s' \<le> e \<and> e < s' + nr then if e + 1 = s' + nr then FAT_ENT_EOF else int e + 1 else fat_at sb e)) \<and>
      free_clusters sb' = (if free_clusters sb = -1 then -1 else free_clusters sb - int nr) \<and>
      (\<forall>e\<in>{s'..<s' + nr}. copies_agree sb' e)"
    using a(7-9) sub unfolding chain_at_def by (intro exI [of _ s] conjI) (rule refl | assumption)+
  ultimately show ?thesis using a(1-3,5,6) unfolding cs [symmetric]
    by (intro exI [of _ 0] exI [of _ "map int [s..<s + nr]"] exI [of _ sb'] conjI) (assumption | simp only: if_True simp_thms)+
next
  fix sb'
  assume "fat_alloc_clusters env L inode ns nr sb = Some (-ENOSPC, [], sb')" "fs_ok sb'" "source_ok L (manager sb')"
    "free_set (manager sb') = free_set (manager sb)" "fat_at sb' = fat_at sb"
    "free_entries sb' = free_entries sb" "free_clusters sb' = 0"
  then show ?thesis using assms(4) by (intro exI [of _ "-ENOSPC"] exI [of _ "[]"] exI [of _ sb']) (simp add: ENOSPC_def)
qed


theorem fat_alloc_makes_chain_witness:
  "\<exists>err cs sb'. fat_alloc_clusters demo_env plain_rb 0 False 3 (demo_sb 6 True (one_range 4 6)) = Some (err, cs, sb') \<and>
    fs_ok sb' \<and> free_entries sb' = {4..<10} - set cs"
proof -
  have "source_ok plain_rb (one_range 4 6)" by (auto simp: source_ok_def plain_rb_ok one_range_ok)
  then show ?thesis
    using fat_alloc_makes_chain [OF demo_fs demo_io, of plain_rb 6 True "one_range 4 6" 3 0 False]
    by (auto simp: demo_max demo_free one_range_ok MAX_BUF_PER_PAGE_def)
qed

text \<open>
  C5: Release. \<open>fat_free_clusters\<close> of a file whose chain \<open>cs\<close> ends with the end mark returns 0 and
  frees the entries of exactly these clusters, in the table and in its copies, adds their number to
  a known free count, and gives them to the block manager; it issues discard requests for exactly
  these clusters, in order. But when the free count is unknown the clusters are not given to the
  manager.
\<close>

theorem fat_free_releases_chain:
  assumes "fs_ok sb" and "io_ok env" and "-1 \<le> free_clusters sb" and "sink_ready L (manager sb)"
    and "free_set (manager sb) \<subseteq> free_entries sb" and "file_chain (fat_at sb) (max_cluster sb) c cs"
  shows "\<exists>ds sb'. fat_free_clusters env L c sb = Some (0, ds, sb') \<and> fs_ok sb' \<and>
    (\<forall>e. int e < max_cluster sb \<longrightarrow> fat_at sb' e = (if int e \<in> set cs then FAT_ENT_FREE else fat_at sb e)) \<and>
    free_clusters sb' = (if free_clusters sb = -1 then -1 else free_clusters sb + int (length cs)) \<and>
    sink_ready L (manager sb') \<and>
    free_set (manager sb') = free_set (manager sb) \<union> (if free_clusters sb = -1 then {} else set cs) \<and>
    (mirrored_but [] sb \<longrightarrow> mirrored_but [] sb') \<and>
    (opt_discard sb \<longrightarrow> concat (map run_of ds) = cs)"
  by (rule fat_free_clusters_ok [OF assms]) blast

theorem fat_free_releases_chain_witness:
  "\<exists>ds sb'. fat_free_clusters demo_env plain_rb 2 (demo_sb 6 True (one_range 4 6)) = Some (0, ds, sb') \<and>
    concat (map run_of ds) = [2, 3] \<and> free_set (manager sb') = {2..<10} \<and> free_clusters sb' = 8"
proof -
  let ?sb = "demo_sb 6 True (one_range 4 6)"
  have "sink_ready plain_rb (one_range 4 6)"
    by (simp add: sink_ready_def plain_rb_ok one_range_ok) (simp add: one_range_def bm_init_def)
  moreover have "file_chain (fat_at ?sb) 10 2 [2, 3]"
    by (simp add: demo_at FAT_START_ENT_def FAT_ENT_FREE_def FAT_ENT_EOF_def)
  moreover have "{4..<10} \<union> {2, 3} = {2..<10::int}" by auto
  ultimately show ?thesis
    using fat_free_releases_chain [OF demo_fs demo_io, of 6 True "one_range 4 6" plain_rb 2 "[2, 3]"]
    by (auto simp: demo_max demo_free one_range_ok)
qed

text \<open>
  Counting, on mount. With an unknown free count and a manager that never merged a node (so that
  \<open>last_merged\<close> does not dangle), \<open>fat_count_free_clusters\<close> returns 0, the free count is the number
  of free entries, the table is untouched, and the manager holds exactly the free clusters.
\<close>

theorem fat_count_rebuilds:
  assumes "fs_ok sb" and "io_ok env" and "rb_lib_ok L" and "bm_wf (manager sb)" and "linked (manager sb)"
    and "last_merged (manager sb) = None" and "never_fails (bm_mallocs (manager sb))"
    and "free_clusters sb = -1 \<or> \<not> free_clus_valid sb"
  shows "\<exists>sb'. fat_count_free_clusters env L sb = Some (0, sb') \<and> buffers sb' = buffers sb \<and>
    free_clusters sb' = int (card (free_entries sb)) \<and> free_clus_valid sb' \<and>
    bm_wf (manager sb') \<and> free_set (manager sb') = free_entries sb"
  by (rule fat_count_free_clusters_ok [OF assms]) (auto simp: sink_ready_def)

theorem fat_count_rebuilds_witness:
  "\<exists>sb'. fat_count_free_clusters demo_env plain_rb (demo_sb (-1) False (bm_init (\<lambda>_. True) [])) = Some (0, sb') \<and>
    free_clusters sb' = 6 \<and> free_set (manager sb') = {4..<10}"
proof -
  have m: "last_merged (bm_init (\<lambda>_. True) []) = None" "never_fails (bm_mallocs (bm_init (\<lambda>_. True) []))"
    by (simp_all add: bm_init_def)
  show ?thesis
    using fat_count_rebuilds [OF demo_fs demo_io plain_rb_ok, of "-1" False "bm_init (\<lambda>_. True) []"]
    by (auto simp: demo_max demo_free bm_wf_init m)
qed

text \<open>
  A mount whose free count is already known (the mount option \<open>usefree\<close>, or the FSINFO sector):
  \<open>fat_count_free_clusters\<close> empties the manager and returns at once, without rebuilding it. Every
  allocation after it is answered by \<open>-ENOSPC\<close> and sets the free count to 0, whatever is free in the
  table.
\<close>

theorem fat_count_usefree_empties:
  assumes "rb_lib_ok L" and "bm_wf (manager sb)" and "linked (manager sb)"
    and "free_clusters sb \<noteq> -1" and "free_clus_valid sb" and "0 < nr" and "nr \<le> MAX_BUF_PER_PAGE div 2"
    and "int nr \<le> free_clusters sb"
  shows "\<exists>sb'. fat_count_free_clusters env L sb = Some (0, sb') \<and> buffers sb' = buffers sb \<and>
    free_clusters sb' = free_clusters sb \<and>
    (\<exists>sb''. fat_alloc_clusters env L inode ns nr sb' = Some (-ENOSPC, [], sb'') \<and> free_clusters sb'' = 0)"
proof -
  obtain m where m: "blocks_mamager_free_all L (manager sb) = Some m" "bm_wf m" "linked m" "free_set m = {}"
    using blocks_mamager_free_all_ok [OF assms(1-3)] by metis
  then have src: "source_ok L m" using assms(1) by (simp add: source_ok_def)
  have c: "0 < int nr" using assms(6) by simp
  obtain m' where m': "blocks_mamager_alloc_blocks L inode (int nr) m = Some (-1, m')"
    by (rule bm_source.take_cases [OF src c, of inode]) (use m(4) assms(6) in auto)
  have run: "fat_count_free_clusters env L sb = Some (0, sb\<lparr>manager := m\<rparr>)"
    using assms(4,5) by (simp add: fat_count_free_clusters_def m(1))
  have "fat_alloc_clusters env L inode ns nr (sb\<lparr>manager := m\<rparr>) =
      Some (-ENOSPC, [], mark_fsinfo_dirty (no_space (sb\<lparr>manager := m'\<rparr>)))"
    using assms(7,8) by (simp add: fat_alloc_clusters_def m' alloc_out_def ENOSPC_def)
  then show ?thesis using run by (simp add: no_space_def mark_fsinfo_dirty_def)
qed

theorem fat_count_usefree_empties_witness:
  "\<exists>sb'. fat_count_free_clusters demo_env plain_rb (demo_sb 6 True (one_range 4 6)) = Some (0, sb') \<and>
    free_clusters sb' = 6 \<and>
    (\<exists>sb''. fat_alloc_clusters demo_env plain_rb 0 False 1 sb' = Some (-ENOSPC, [], sb'') \<and> free_clusters sb'' = 0)"
  using fat_count_usefree_empties [of plain_rb "demo_sb 6 True (one_range 4 6)" 1 demo_env 0 False]
  by (auto simp: plain_rb_ok one_range_ok demo_max MAX_BUF_PER_PAGE_def)

end
