(* ===== verification/Logger.thy ===== *)
theory Logger
  imports Prelude "HOL-Library.Monad_Syntax"
begin

text \<open>
  The Android logger driver, \<open>src/debugfs/android50/kernel/drivers/staging/android/logger.c\<close>: logs
  kept in ring buffers of bytes, readers that are pulled forward when a writer laps them, and the
  file operations on them. Each operation runs under the mutex of its log, so an operation (for
  \<open>logger_read\<close> each of its two critical sections) is one step.

  The header \<open>logger.h\<close> is not part of the repository. Its constants and the layout of its two
  entry structures are the parameter \<open>logger_abi\<close>; \<open>abi_ok\<close> says what the code relies on. Copies
  from and to user space are the parameter \<open>logger_env\<close>. Sizes and offsets are \<open>nat\<close>: the code
  subtracts only smaller values, and the offsets stay below twice the size of the log. The loops
  over the entries of a log end only when the entries are well-formed, so they are options.
\<close>

unbundle bit_operations_syntax

section \<open>Parameters\<close>

text \<open>The fields of \<open>struct logger_entry\<close>; \<open>hdr_size\<close> is always its size.\<close>

record logger_entry =
  le_len :: nat
  le_hdr_size :: nat
  le_pid :: int
  le_tid :: int
  le_sec :: int
  le_nsec :: int
  le_euid :: nat

record compat_entry =
  v1_len :: nat
  v1_pad :: nat
  v1_pid :: int
  v1_tid :: int
  v1_sec :: int
  v1_nsec :: int

record logger_abi =
  entry_size :: nat
  compat_size :: nat
  max_payload :: nat
  enc_entry :: "logger_entry \<Rightarrow> u8 list"
  dec_entry :: "u8 list \<Rightarrow> logger_entry"
  enc_compat :: "compat_entry \<Rightarrow> u8 list"

definition abi_ok :: "logger_abi \<Rightarrow> bool" where
  "abi_ok A \<longleftrightarrow> 0 < entry_size A \<and> (\<forall>h. length (enc_entry A h) = entry_size A) \<and>
     (\<forall>v. length (enc_compat A v) = compat_size A) \<and>
     (\<forall>h. le_len h \<le> max_payload A \<and> le_euid h < 2 ^ 32 \<longrightarrow>
        le_len (dec_entry A (enc_entry A h)) = le_len h \<and> le_euid (dec_entry A (enc_entry A h)) = le_euid h)"

text \<open>
  \<open>ctu a n\<close>: whether \<open>copy_to_user\<close> of \<open>n\<close> bytes to \<open>a\<close> succeeds. \<open>cfu a n\<close>: whether
  \<open>copy_from_user\<close> of \<open>n\<close> bytes from \<open>a\<close> succeeds, and what the destination holds after it.
  \<open>fresh n\<close>: the contents of \<open>n\<close> bytes from \<open>vmalloc\<close>.
\<close>

record logger_env =
  ctu :: "nat \<Rightarrow> nat \<Rightarrow> bool"
  cfu :: "nat \<Rightarrow> nat \<Rightarrow> bool \<times> u8 list"
  fresh :: "nat \<Rightarrow> u8 list"

definition env_ok :: "logger_env \<Rightarrow> bool" where
  "env_ok E \<longleftrightarrow> (\<forall>a n. length (snd (cfu E a n)) = n) \<and> (\<forall>n. length (fresh E n) = n)"

text \<open>\<open>current\<close>, and whether it is in the group of the device or has \<open>CAP_SYSLOG\<close>.\<close>

record logger_task =
  t_tgid :: int
  t_pid :: int
  t_euid :: nat
  t_sec :: int
  t_nsec :: int
  t_syslog :: bool

section \<open>State\<close>

text \<open>A reader is kept in the list of its log, under the number that stands for its address.\<close>

record logger_reader =
  r_off :: nat
  r_all :: bool
  r_ver :: int

record logger_log =
  l_buffer :: "u8 list"
  l_minor :: int
  l_readers :: "(nat \<times> logger_reader) list"
  w_off :: nat
  l_head :: nat
  l_size :: nat

definition logger_offset :: "logger_log \<Rightarrow> nat \<Rightarrow> nat" where
  "logger_offset log n = n AND (l_size log - 1)"

definition set_reader :: "nat \<Rightarrow> logger_reader \<Rightarrow> logger_log \<Rightarrow> logger_log" where
  "set_reader rid r log =
     log\<lparr>l_readers := map (\<lambda>(i, q). if i = rid then (i, r) else (i, q)) (l_readers log)\<rparr>"

section \<open>Reading entries\<close>

definition get_entry_header :: "logger_abi \<Rightarrow> logger_log \<Rightarrow> nat \<Rightarrow> u8 list" where
  "get_entry_header A log off =
     (let len = min (entry_size A) (l_size log - off) in
      if len \<noteq> entry_size A then List.take len (drop off (l_buffer log)) @ List.take (entry_size A - len) (l_buffer log)
      else List.take (entry_size A) (drop off (l_buffer log)))"

definition get_entry_msg_len :: "logger_abi \<Rightarrow> logger_log \<Rightarrow> nat \<Rightarrow> nat" where
  "get_entry_msg_len A log off = le_len (dec_entry A (get_entry_header A log off))"

definition get_user_hdr_len :: "logger_abi \<Rightarrow> int \<Rightarrow> nat" where
  "get_user_hdr_len A ver = (if ver < 2 then compat_size A else entry_size A)"

text \<open>The header as the user sees it.\<close>

definition user_header :: "logger_abi \<Rightarrow> int \<Rightarrow> u8 list \<Rightarrow> u8 list" where
  "user_header A ver bytes =
     (let e = dec_entry A bytes in
      if ver < 2 then enc_compat A \<lparr>v1_len = le_len e, v1_pad = 0, v1_pid = le_pid e, v1_tid = le_tid e,
        v1_sec = le_sec e, v1_nsec = le_nsec e\<rparr>
      else bytes)"

definition copy_header_to_user ::
    "logger_abi \<Rightarrow> logger_env \<Rightarrow> int \<Rightarrow> u8 list \<Rightarrow> nat \<Rightarrow> bool \<times> u8 list" where
  "copy_header_to_user A E ver bytes buf = (ctu E buf (get_user_hdr_len A ver), user_header A ver bytes)"

text \<open>The answer, the bytes that reached the user, and the reader.\<close>

definition do_read_log_to_user ::
    "logger_abi \<Rightarrow> logger_env \<Rightarrow> logger_log \<Rightarrow> logger_reader \<Rightarrow> nat \<Rightarrow> nat \<Rightarrow> int \<times> u8 list \<times> logger_reader" where
  "do_read_log_to_user A E log r buf count =
     (case copy_header_to_user A E (r_ver r) (get_entry_header A log (r_off r)) buf of (ok, hdr) \<Rightarrow>
       if \<not> ok then (-EFAULT, [], r)
       else
         (let count = count - get_user_hdr_len A (r_ver r);
              buf = buf + get_user_hdr_len A (r_ver r);
              msg_start = logger_offset log (r_off r + entry_size A);
              len = min count (l_size log - msg_start);
              out = hdr @ List.take len (drop msg_start (l_buffer log))
          in if \<not> ctu E buf len then (-EFAULT, hdr, r)
             else if count \<noteq> len \<and> \<not> ctu E (buf + len) (count - len) then (-EFAULT, out, r)
             else (int (count + get_user_hdr_len A (r_ver r)),
                   out @ (if count \<noteq> len then List.take (count - len) (l_buffer log) else []),
                   r\<lparr>r_off := logger_offset log (r_off r + entry_size A + count)\<rparr>)))"

partial_function (option) get_next_entry_by_uid ::
    "logger_abi \<Rightarrow> logger_log \<Rightarrow> nat \<Rightarrow> nat \<Rightarrow> nat option" where
  "get_next_entry_by_uid A log off euid =
     (if off = w_off log then Some off
      else
        (let e = dec_entry A (get_entry_header A log off) in
         if le_euid e = euid then Some off
         else get_next_entry_by_uid A log (logger_offset log (off + (entry_size A + le_len e))) euid))"

declare get_next_entry_by_uid.simps [code]

text \<open>Moving a reader that may not see everything to its next entry.\<close>

definition skip_unreadable :: "logger_abi \<Rightarrow> logger_task \<Rightarrow> logger_log \<Rightarrow> logger_reader \<Rightarrow> logger_reader option" where
  "skip_unreadable A t log r =
     (if \<not> r_all r then map_option (\<lambda>off. r\<lparr>r_off := off\<rparr>) (get_next_entry_by_uid A log (r_off r) (t_euid t))
      else Some r)"

text \<open>
  The second critical section of \<open>logger_read\<close>: \<open>None\<close> as the answer is \<open>goto start\<close>.
\<close>

definition read_section ::
    "logger_abi \<Rightarrow> logger_env \<Rightarrow> logger_task \<Rightarrow> nat \<Rightarrow> nat \<Rightarrow> nat \<Rightarrow> logger_log \<Rightarrow>
     ((int \<times> u8 list) option \<times> logger_log) option" where
  "read_section A E t rid buf count log =
     (case map_of (l_readers log) rid of
        None \<Rightarrow> None
      | Some r \<Rightarrow> do {
          r \<leftarrow> skip_unreadable A t log r;
          (if w_off log = r_off r then Some (None, set_reader rid r log)
           else
             (let ret = get_user_hdr_len A (r_ver r) + get_entry_msg_len A log (r_off r) in
              if count < ret then Some (Some (-EINVAL, []), set_reader rid r log)
              else
                (case do_read_log_to_user A E log r buf ret of (ret, out, r) \<Rightarrow>
                  Some (Some (ret, out), set_reader rid r log))))
        })"

text \<open>
  \<open>logger_read\<close> against an interference: each element of the list is one turn of the waiting loop,
  with what the other tasks do to the log before the reader runs again and whether a signal is
  pending. \<open>None\<close>: the list is used up while the reader still waits, or a loop does not end.
\<close>

fun logger_read ::
    "logger_abi \<Rightarrow> logger_env \<Rightarrow> logger_task \<Rightarrow> nat \<Rightarrow> bool \<Rightarrow> nat \<Rightarrow> nat \<Rightarrow>
     ((logger_log \<Rightarrow> logger_log) \<times> bool) list \<Rightarrow> logger_log \<Rightarrow> (int \<times> u8 list \<times> logger_log) option" where
  "logger_read A E t rid nonblock buf count [] log = None"
| "logger_read A E t rid nonblock buf count ((others, signal) # turns) log =
     (case map_of (l_readers log) rid of
        None \<Rightarrow> None
      | Some r \<Rightarrow>
          if w_off log = r_off r then
            if nonblock then Some (-EAGAIN, [], log)
            else if signal then Some (-EINTR, [], log)
            else logger_read A E t rid nonblock buf count turns (others log)
          else
            (case read_section A E t rid buf count (others log) of
               None \<Rightarrow> None
             | Some (None, log) \<Rightarrow> logger_read A E t rid nonblock buf count turns log
             | Some (Some (ret, out), log) \<Rightarrow> Some (ret, out, log)))"

section \<open>Writing\<close>

partial_function (option) next_entry_loop :: "logger_abi \<Rightarrow> logger_log \<Rightarrow> nat \<Rightarrow> nat \<Rightarrow> nat \<Rightarrow> nat option" where
  "next_entry_loop A log off count len =
     (let nr = entry_size A + get_entry_msg_len A log off;
          off = logger_offset log (off + nr);
          count = count + nr
      in if count < len then next_entry_loop A log off count len else Some off)"

declare next_entry_loop.simps [code]

definition get_next_entry :: "logger_abi \<Rightarrow> logger_log \<Rightarrow> nat \<Rightarrow> nat \<Rightarrow> nat option" where
  "get_next_entry A log off len = next_entry_loop A log off 0 len"

definition is_between :: "nat \<Rightarrow> nat \<Rightarrow> nat \<Rightarrow> bool" where
  "is_between a b c = (if a < b then a < c \<and> c \<le> b else c \<le> b \<or> a < c)"

fun pull_readers ::
    "logger_abi \<Rightarrow> logger_log \<Rightarrow> nat \<Rightarrow> nat \<Rightarrow> nat \<Rightarrow> (nat \<times> logger_reader) list \<Rightarrow>
     (nat \<times> logger_reader) list option" where
  "pull_readers A log old new len [] = Some []"
| "pull_readers A log old new len ((i, r) # rs) =
     do {
       r \<leftarrow> (if is_between old new (r_off r)
             then map_option (\<lambda>off. r\<lparr>r_off := off\<rparr>) (get_next_entry A log (r_off r) len)
             else Some r);
       rs \<leftarrow> pull_readers A log old new len rs;
       Some ((i, r) # rs)
     }"

definition fix_up_readers :: "logger_abi \<Rightarrow> nat \<Rightarrow> logger_log \<Rightarrow> logger_log option" where
  "fix_up_readers A len log =
     (let old = w_off log; new = logger_offset log (old + len) in do {
        h \<leftarrow> (if is_between old new (l_head log) then get_next_entry A log (l_head log) len
              else Some (l_head log));
        let log = log\<lparr>l_head := h\<rparr>;
        rs \<leftarrow> pull_readers A log old new len (l_readers log);
        Some (log\<lparr>l_readers := rs\<rparr>)
      })"

definition store :: "nat \<Rightarrow> u8 list \<Rightarrow> logger_log \<Rightarrow> logger_log" where
  "store off d log = log\<lparr>l_buffer := List.take off (l_buffer log) @ d @ drop (off + length d) (l_buffer log)\<rparr>"

definition do_write_log :: "u8 list \<Rightarrow> logger_log \<Rightarrow> logger_log" where
  "do_write_log d log =
     (let count = length d;
          len = min count (l_size log - w_off log);
          log = store (w_off log) (List.take len d) log;
          log = (if count \<noteq> len then store 0 (drop len d) log else log)
      in log\<lparr>w_off := logger_offset log (w_off log + count)\<rparr>)"

definition do_write_log_from_user :: "logger_env \<Rightarrow> nat \<Rightarrow> nat \<Rightarrow> logger_log \<Rightarrow> int \<times> logger_log" where
  "do_write_log_from_user E buf count log =
     (let len = min count (l_size log - w_off log);
          log1 = (if len \<noteq> 0 then store (w_off log) (snd (cfu E buf len)) log else log)
      in if len \<noteq> 0 \<and> \<not> fst (cfu E buf len) then (-EFAULT, log1)
         else
           (let log2 = (if count \<noteq> len then store 0 (snd (cfu E (buf + len) (count - len))) log1 else log1)
            in if count \<noteq> len \<and> \<not> fst (cfu E (buf + len) (count - len)) then (-EFAULT, log2)
               else (int count, log2\<lparr>w_off := logger_offset log2 (w_off log2 + count)\<rparr>)))"

fun write_segs :: "logger_env \<Rightarrow> nat \<Rightarrow> (nat \<times> nat) list \<Rightarrow> nat \<Rightarrow> logger_log \<Rightarrow> int \<times> logger_log" where
  "write_segs E hlen [] ret log = (int ret, log)"
| "write_segs E hlen ((base, iov_len) # iov) ret log =
     (let len = min iov_len (hlen - ret) in
      case do_write_log_from_user E base len log of (nr, log) \<Rightarrow>
        if nr < 0 then (nr, log) else write_segs E hlen iov (ret + nat nr) log)"

definition logger_header :: "logger_abi \<Rightarrow> logger_task \<Rightarrow> nat \<Rightarrow> logger_entry" where
  "logger_header A t ki_left = \<lparr>le_len = min ki_left (max_payload A), le_hdr_size = entry_size A, le_pid = t_tgid t,
     le_tid = t_pid t, le_sec = t_sec t, le_nsec = t_nsec t, le_euid = t_euid t\<rparr>"

text \<open>The segments are pairs of base and length, \<open>ki_left\<close> their total as the caller has it.\<close>

definition logger_aio_write ::
    "logger_abi \<Rightarrow> logger_env \<Rightarrow> logger_task \<Rightarrow> (nat \<times> nat) list \<Rightarrow> nat \<Rightarrow> logger_log \<Rightarrow> (int \<times> logger_log) option" where
  "logger_aio_write A E t iov ki_left log =
     (let header = logger_header A t ki_left in
      if le_len header = 0 then Some (0, log)
      else do {
        log1 \<leftarrow> fix_up_readers A (entry_size A + le_len header) log;
        (case write_segs E (le_len header) iov 0 (do_write_log (enc_entry A header) log1) of (ret, log2) \<Rightarrow>
          if ret < 0 then Some (ret, log2\<lparr>w_off := w_off log\<rparr>) else Some (ret, log2))
      })"

section \<open>The device\<close>

text \<open>The logs by address, the list \<open>log_list\<close> of their addresses, and the allocator.\<close>

record logger_dev =
  log_list :: "nat list"
  log_mem :: "nat \<Rightarrow> logger_log option"
  dev_brk :: nat
  dev_allocs :: outcomes

text \<open>
  What \<open>file->private_data\<close> points to: a reader (given with its \<open>reader->log\<close>) when the file was opened
  for reading, the log itself otherwise.
\<close>

datatype file_priv = ReaderOf nat nat | LogOf nat

record logger_file =
  fm_read :: bool
  fm_write :: bool
  f_nonblock :: bool
  private_data :: file_priv

definition file_get_log :: "logger_file \<Rightarrow> nat" where
  "file_get_log f = (case private_data f of ReaderOf l r \<Rightarrow> l | LogOf l \<Rightarrow> l)"

definition set_log :: "nat \<Rightarrow> logger_log \<Rightarrow> logger_dev \<Rightarrow> logger_dev" where
  "set_log l log dev = dev\<lparr>log_mem := (log_mem dev)(l \<mapsto> log)\<rparr>"

text \<open>\<open>None\<close>: the walk reads a log that was freed.\<close>

fun get_log_from_minor :: "int \<Rightarrow> (nat \<Rightarrow> logger_log option) \<Rightarrow> nat list \<Rightarrow> nat option option" where
  "get_log_from_minor minor mem [] = Some None"
| "get_log_from_minor minor mem (l # ls) =
     (case mem l of
        None \<Rightarrow> None
      | Some log \<Rightarrow> if l_minor log = minor then Some (Some l) else get_log_from_minor minor mem ls)"

text \<open>\<open>ns\<close> is the answer of \<open>nonseekable_open\<close>.\<close>

definition logger_open ::
    "logger_task \<Rightarrow> int \<Rightarrow> int \<Rightarrow> bool \<Rightarrow> bool \<Rightarrow> bool \<Rightarrow> logger_dev \<Rightarrow> (int \<times> logger_file option \<times> logger_dev) option" where
  "logger_open t ns minor rd wr nb dev =
     (if ns \<noteq> 0 then Some (ns, None, dev)
      else
        (case get_log_from_minor minor (log_mem dev) (log_list dev) of
           None \<Rightarrow> None
         | Some None \<Rightarrow> Some (-ENODEV, None, dev)
         | Some (Some l) \<Rightarrow>
             if rd then
               (case alloc_next (dev_allocs dev) of (ok, allocs) \<Rightarrow>
                 (let dev = dev\<lparr>dev_allocs := allocs\<rparr> in
                  if \<not> ok then Some (-ENOMEM, None, dev)
                  else do {
                    log \<leftarrow> log_mem dev l;
                    let rid = dev_brk dev;
                    let r = \<lparr>r_off = l_head log, r_all = t_syslog t, r_ver = 1\<rparr>;
                    let log = log\<lparr>l_readers := l_readers log @ [(rid, r)]\<rparr>;
                    Some (0, Some \<lparr>fm_read = rd, fm_write = wr, f_nonblock = nb, private_data = ReaderOf l rid\<rparr>,
                      (set_log l log dev)\<lparr>dev_brk := rid + 1\<rparr>)
                  }))
             else Some (0, Some \<lparr>fm_read = rd, fm_write = wr, f_nonblock = nb, private_data = LogOf l\<rparr>, dev)))"

definition logger_release :: "logger_file \<Rightarrow> logger_dev \<Rightarrow> (int \<times> logger_dev) option" where
  "logger_release f dev =
     (case private_data f of
        ReaderOf l rid \<Rightarrow>
          if fm_read f then do {
            log \<leftarrow> log_mem dev l;
            Some (0, set_log l (log\<lparr>l_readers := filter (\<lambda>(i, r). i \<noteq> rid) (l_readers log)\<rparr>) dev)
          }
          else Some (0, dev)
      | LogOf l \<Rightarrow> Some (0, dev))"

text \<open>Whether \<open>POLLIN\<close> is set; \<open>POLLOUT\<close> always is.\<close>

definition poll_section :: "logger_abi \<Rightarrow> logger_task \<Rightarrow> nat \<Rightarrow> logger_log \<Rightarrow> (bool \<times> logger_log) option" where
  "poll_section A t rid log =
     (case map_of (l_readers log) rid of
        None \<Rightarrow> None
      | Some r \<Rightarrow> do {
          r \<leftarrow> skip_unreadable A t log r;
          Some (w_off log \<noteq> r_off r, set_reader rid r log)
        })"

definition logger_poll :: "logger_abi \<Rightarrow> logger_task \<Rightarrow> logger_file \<Rightarrow> logger_log \<Rightarrow> (bool \<times> logger_log) option" where
  "logger_poll A t f log =
     (if \<not> fm_read f then Some (False, log)
      else (case private_data f of ReaderOf l rid \<Rightarrow> poll_section A t rid log | LogOf l \<Rightarrow> None))"

text \<open>\<open>arg\<close> is the integer at the user address, \<open>None\<close> when it cannot be read.\<close>

definition logger_set_version :: "logger_reader \<Rightarrow> int option \<Rightarrow> int \<times> logger_reader" where
  "logger_set_version r arg =
     (case arg of
        None \<Rightarrow> (-EFAULT, r)
      | Some version \<Rightarrow> if version < 1 \<or> version > 2 then (-EINVAL, r) else (0, r\<lparr>r_ver := version\<rparr>))"

datatype logger_cmd = LOGGER_GET_LOG_BUF_SIZE | LOGGER_GET_LOG_LEN | LOGGER_GET_NEXT_ENTRY_LEN | LOGGER_FLUSH_LOG
  | LOGGER_GET_VERSION | LOGGER_SET_VERSION | LOGGER_OTHER

definition flush_log :: "logger_log \<Rightarrow> logger_log" where
  "flush_log log = log\<lparr>l_readers := map (\<lambda>(i, r). (i, r\<lparr>r_off := w_off log\<rparr>)) (l_readers log), l_head := w_off log\<rparr>"

definition ioctl_reader ::
    "logger_abi \<Rightarrow> logger_task \<Rightarrow> nat \<Rightarrow> logger_cmd \<Rightarrow> int option \<Rightarrow> logger_log \<Rightarrow> (int \<times> logger_log) option" where
  "ioctl_reader A t rid cmd arg log =
     (case map_of (l_readers log) rid of
        None \<Rightarrow> None
      | Some r \<Rightarrow>
          (case cmd of
             LOGGER_GET_LOG_LEN \<Rightarrow>
               Some (if w_off log \<ge> r_off r then int (w_off log - r_off r)
                     else int (l_size log - r_off r + w_off log), log)
           | LOGGER_GET_NEXT_ENTRY_LEN \<Rightarrow> do {
               r \<leftarrow> skip_unreadable A t log r;
               Some (if w_off log \<noteq> r_off r
                     then int (get_user_hdr_len A (r_ver r) + get_entry_msg_len A log (r_off r)) else 0,
                     set_reader rid r log)
             }
           | LOGGER_GET_VERSION \<Rightarrow> Some (r_ver r, log)
           | LOGGER_SET_VERSION \<Rightarrow>
               (case logger_set_version r arg of (ret, r) \<Rightarrow> Some (ret, set_reader rid r log))
           | _ \<Rightarrow> Some (-EINVAL, log)))"

definition logger_ioctl ::
    "logger_abi \<Rightarrow> logger_task \<Rightarrow> logger_file \<Rightarrow> logger_cmd \<Rightarrow> int option \<Rightarrow> logger_log \<Rightarrow> (int \<times> logger_log) option" where
  "logger_ioctl A t f cmd arg log =
     (case cmd of
        LOGGER_GET_LOG_BUF_SIZE \<Rightarrow> Some (int (l_size log), log)
      | LOGGER_FLUSH_LOG \<Rightarrow>
          if \<not> fm_write f then Some (-EBADF, log)
          else if \<not> t_syslog t then Some (-EPERM, log)
          else Some (0, flush_log log)
      | LOGGER_OTHER \<Rightarrow> Some (-EINVAL, log)
      | _ \<Rightarrow>
          if \<not> fm_read f then Some (-EBADF, log)
          else (case private_data f of ReaderOf l rid \<Rightarrow> ioctl_reader A t rid cmd arg log | LogOf l \<Rightarrow> None))"

section \<open>Creating and removing logs\<close>

text \<open>\<open>reg\<close> is the answer of \<open>misc_register\<close> and the minor number it gives to the device.\<close>

definition MISC_DYNAMIC_MINOR :: int where "MISC_DYNAMIC_MINOR = 255"

definition create_log :: "logger_env \<Rightarrow> nat \<Rightarrow> int \<times> int \<Rightarrow> logger_dev \<Rightarrow> int \<times> logger_dev" where
  "create_log E sz reg dev =
     (case alloc_next (dev_allocs dev) of (ok1, a1) \<Rightarrow>
        if \<not> ok1 then (-ENOMEM, dev\<lparr>dev_allocs := a1\<rparr>)
        else case alloc_next a1 of (ok2, a2) \<Rightarrow>
          if \<not> ok2 then (-ENOMEM, dev\<lparr>dev_allocs := a2\<rparr>)
          else case alloc_next a2 of (ok3, a3) \<Rightarrow>
            if \<not> ok3 then (-ENOMEM, dev\<lparr>dev_allocs := a3\<rparr>)
            else
              (let l = dev_brk dev;
                   log = \<lparr>l_buffer = fresh E sz, l_minor = MISC_DYNAMIC_MINOR, l_readers = [], w_off = 0,
                     l_head = 0, l_size = sz\<rparr>;
                   dev = (set_log l log dev)\<lparr>log_list := log_list dev @ [l], dev_brk := l + 1, dev_allocs := a3\<rparr>
               in if fst reg \<noteq> 0 then (fst reg, dev\<lparr>log_mem := (log_mem dev)(l := None)\<rparr>)
                  else (0, set_log l (log\<lparr>l_minor := snd reg\<rparr>) dev)))"

text \<open>\<open>CONFIG_LOGCAT_SIZE * 1024\<close>.\<close>

definition LOG_BYTES :: nat where "LOG_BYTES = 2048 * 1024"

fun create_logs :: "logger_env \<Rightarrow> (int \<times> int) list \<Rightarrow> logger_dev \<Rightarrow> int \<times> logger_dev" where
  "create_logs E [] dev = (0, dev)"
| "create_logs E (reg # regs) dev =
     (case create_log E LOG_BYTES reg dev of (ret, dev) \<Rightarrow>
        if ret \<noteq> 0 then (ret, dev) else create_logs E regs dev)"

text \<open>The logs are main, events, radio and system.\<close>

definition logger_init ::
    "logger_env \<Rightarrow> int \<times> int \<Rightarrow> int \<times> int \<Rightarrow> int \<times> int \<Rightarrow> int \<times> int \<Rightarrow> logger_dev \<Rightarrow> int \<times> logger_dev" where
  "logger_init E main events radio system dev = create_logs E [main, events, radio, system] dev"

fun logger_exit_loop :: "nat list \<Rightarrow> logger_dev \<Rightarrow> logger_dev option" where
  "logger_exit_loop [] dev = Some dev"
| "logger_exit_loop (l # ls) dev =
     (case log_mem dev l of
        None \<Rightarrow> None
      | Some log \<Rightarrow> logger_exit_loop ls
          (dev\<lparr>log_list := removeAll l (log_list dev), log_mem := (log_mem dev)(l := None)\<rparr>))"

definition logger_exit :: "logger_dev \<Rightarrow> logger_dev option" where
  "logger_exit dev = logger_exit_loop (log_list dev) dev"

end
