(* ===== verification/LoggerRing.thy ===== *)
theory LoggerRing
  imports Logger
begin

text \<open>
  The logger as a set of pointers into a sequence of entries. \<open>holds A log p es\<close> says that from offset
  \<open>p\<close> to the write offset the ring holds exactly the entries \<open>es\<close>; the invariant \<open>log_ok\<close> says this of
  the head and of every reader. The last section shows that a pointer that a writer would lap is
  pulled to a later entry, with room for the write behind it.
\<close>

unbundle bit_operations_syntax

section \<open>The ring\<close>

definition ring :: "logger_log \<Rightarrow> nat \<Rightarrow> nat \<Rightarrow> u8 list" where
  "ring log p n = map (\<lambda>i. l_buffer log ! ((p + i) mod l_size log)) [0..<n]"

definition dist :: "logger_log \<Rightarrow> nat \<Rightarrow> nat" where
  "dist log p = (w_off log + l_size log - p) mod l_size log"

definition shape :: "logger_abi \<Rightarrow> logger_log \<Rightarrow> bool" where
  "shape A log \<longleftrightarrow> (\<exists>k. l_size log = 2 ^ k) \<and> length (l_buffer log) = l_size log \<and> w_off log < l_size log \<and>
     2 * (entry_size A + max_payload A) \<le> l_size log"

lemma offset_mod: "\<exists>k. l_size log = 2 ^ k \<Longrightarrow> logger_offset log n = n mod l_size log"
proof -
  assume "\<exists>k. l_size log = 2 ^ k"
  then obtain k where k: "l_size log = 2 ^ k" by blast
  then have "l_size log - 1 = mask k" by (simp add: mask_eq_exp_minus_1)
  then have "n AND (l_size log - 1) = take_bit k n" by (simp only: take_bit_eq_mask)
  then show ?thesis by (simp add: logger_offset_def k take_bit_eq_mod)
qed

lemma shape_offset: "shape A log \<Longrightarrow> logger_offset log n = n mod l_size log"
  by (simp add: offset_mod shape_def)

lemma length_ring [simp]: "length (ring log p n) = n"
  by (simp add: ring_def)

lemma ring_0 [simp]: "ring log p 0 = []"
  by (simp add: ring_def)

lemma ring_add: "ring log p (m + n) = ring log p m @ ring log ((p + m) mod l_size log) n"
proof (rule nth_equalityI)
  fix i assume "i < length (ring log p (m + n))"
  then have i: "i < m + n" by simp
  show "ring log p (m + n) ! i = (ring log p m @ ring log ((p + m) mod l_size log) n) ! i"
  proof (cases "i < m")
    case False
    then obtain j where "i = m + j" using le_Suc_ex by (metis not_less)
    with i show ?thesis by (simp add: ring_def nth_append mod_add_left_eq add.assoc)
  qed (use i in \<open>simp add: ring_def nth_append\<close>)
qed simp

lemma ring_chunks:
  assumes l: "length (l_buffer log) = l_size log" and p: "p < l_size log" and n: "n \<le> l_size log"
    and len: "len = min n (l_size log - p)"
  shows "List.take len (drop p (l_buffer log)) @ (if n \<noteq> len then List.take (n - len) (l_buffer log) else []) = ring log p n"
proof (rule nth_equalityI)
  show "length (List.take len (drop p (l_buffer log)) @ (if n \<noteq> len then List.take (n - len) (l_buffer log) else [])) =
      length (ring log p n)" using l p n len by auto
  fix i
  assume "i < length (List.take len (drop p (l_buffer log)) @ (if n \<noteq> len then List.take (n - len) (l_buffer log) else []))"
  then have i: "i < n" using l p n len by (auto split: if_splits)
  show "(List.take len (drop p (l_buffer log)) @ (if n \<noteq> len then List.take (n - len) (l_buffer log) else [])) ! i =
      ring log p n ! i"
  proof (cases "i < len")
    case True
    then have "p + i < l_size log" using len p by linarith
    then have "(p + i) mod l_size log = p + i" by simp
    with True i l p len show ?thesis by (simp add: ring_def nth_append)
  next
    case False
    then have b: "l_size log \<le> p + i" "p + i < 2 * l_size log" "len = l_size log - p" using len i n p by auto
    then have "(p + i) mod l_size log = p + i - l_size log" by (simp add: le_mod_geq)
    with False i l p b show ?thesis by (auto simp: ring_def nth_append add.commute [of i p])
  qed
qed

lemma header_ring:
  assumes "length (l_buffer log) = l_size log" and "p < l_size log" and "entry_size A \<le> l_size log"
  shows "get_entry_header A log p = ring log p (entry_size A)"
  using ring_chunks [OF assms refl] by (auto simp: get_entry_header_def Let_def min_def)

lemma dist_less: "0 < l_size log \<Longrightarrow> dist log p < l_size log"
  by (simp add: dist_def)

lemma dist_cases:
  assumes "p < l_size log" and "w_off log < l_size log"
  shows "dist log p = (if p \<le> w_off log then w_off log - p else w_off log + l_size log - p)"
  using assms by (auto simp: dist_def le_mod_geq)

lemma dist_0: "p < l_size log \<Longrightarrow> w_off log < l_size log \<Longrightarrow> dist log p = 0 \<longleftrightarrow> p = w_off log"
  by (auto simp: dist_cases)

lemma dist_end: "p < l_size log \<Longrightarrow> w_off log < l_size log \<Longrightarrow> (p + dist log p) mod l_size log = w_off log"
  by (auto simp: dist_cases)

lemma dist_step:
  assumes "p < l_size log" and "w_off log < l_size log" and "n \<le> dist log p"
  shows "dist log ((p + n) mod l_size log) = dist log p - n"
proof -
  let ?q = "(p + n) mod l_size log"
  have q: "?q < l_size log" using assms by simp
  show ?thesis
  proof (cases "p + n < l_size log")
    case True
    then show ?thesis using assms dist_cases [OF q assms(2)] by (auto simp: dist_cases split: if_splits)
  next
    case False
    then have "?q = p + n - l_size log" using assms dist_less [of log p] by (simp add: le_mod_geq)
    then show ?thesis using assms False dist_cases [OF q assms(2)] by (auto simp: dist_cases split: if_splits)
  qed
qed

section \<open>Entries\<close>

definition entry_ok :: "logger_abi \<Rightarrow> logger_entry \<times> u8 list \<Rightarrow> bool" where
  "entry_ok A e \<longleftrightarrow> length (snd e) = le_len (fst e) \<and> le_len (fst e) \<le> max_payload A \<and> le_euid (fst e) < 2 ^ 32"

definition entry_bytes :: "logger_abi \<Rightarrow> logger_entry \<times> u8 list \<Rightarrow> u8 list" where
  "entry_bytes A e = enc_entry A (fst e) @ snd e"

definition holds :: "logger_abi \<Rightarrow> logger_log \<Rightarrow> nat \<Rightarrow> (logger_entry \<times> u8 list) list \<Rightarrow> bool" where
  "holds A log p es \<longleftrightarrow> p < l_size log \<and> (\<forall>e\<in>set es. entry_ok A e) \<and>
     ring log p (dist log p) = concat (map (entry_bytes A) es)"

definition pointers :: "logger_log \<Rightarrow> nat set" where
  "pointers log = insert (l_head log) ((\<lambda>x. r_off (snd x)) ` set (l_readers log))"

definition log_ok :: "logger_abi \<Rightarrow> logger_log \<Rightarrow> bool" where
  "log_ok A log \<longleftrightarrow> shape A log \<and> (\<forall>p\<in>pointers log. \<exists>es. holds A log p es)"

lemma holds_less: "holds A log p es \<Longrightarrow> p < l_size log"
  by (simp add: holds_def)

lemma holds_Nil_iff:
  assumes "abi_ok A" and "shape A log" and "holds A log p es"
  shows "es = [] \<longleftrightarrow> p = w_off log"
proof -
  have p: "p < l_size log" "w_off log < l_size log" using assms by (simp_all add: holds_def shape_def)
  have "es = [] \<longleftrightarrow> concat (map (entry_bytes A) es) = []"
    using assms(1) by (cases es) (auto simp: entry_bytes_def abi_ok_def dest!: arg_cong [of _ "[]" length])
  also have "\<dots> \<longleftrightarrow> dist log p = 0"
    using assms(3) by (metis holds_def length_0_conv length_ring)
  finally show ?thesis using dist_0 [OF p] by simp
qed

text \<open>What the code sees at the front of a sequence of entries, and the step to the next entry.\<close>

lemma holds_Cons:
  assumes A: "abi_ok A" and sh: "shape A log" and h: "holds A log p (e # es)"
  shows "get_entry_header A log p = enc_entry A (fst e)"
    and "get_entry_msg_len A log p = length (snd e)"
    and "le_euid (dec_entry A (get_entry_header A log p)) = le_euid (fst e)"
    and "ring log ((p + entry_size A) mod l_size log) (length (snd e)) = snd e"
    and "holds A log ((p + (entry_size A + length (snd e))) mod l_size log) es"
    and "entry_size A + length (snd e) \<le> dist log p"
    and "dist log ((p + (entry_size A + length (snd e))) mod l_size log) = dist log p - (entry_size A + length (snd e))"
proof -
  have p: "p < l_size log" "w_off log < l_size log" "length (l_buffer log) = l_size log"
    and sz: "entry_size A \<le> l_size log" using sh h by (simp_all add: holds_def shape_def)
  have e: "entry_ok A e" and len: "length (enc_entry A (fst e)) = entry_size A"
    using h A by (simp_all add: holds_def abi_ok_def)
  let ?n = "entry_size A + length (snd e)"
  let ?rest = "concat (map (entry_bytes A) es)"
  have bytes: "ring log p (dist log p) = enc_entry A (fst e) @ snd e @ ?rest"
    using h by (simp add: holds_def entry_bytes_def)
  then have "length (ring log p (dist log p)) = ?n + length ?rest" using len by simp
  then have d: "dist log p = ?n + length ?rest" by simp
  then show n: "?n \<le> dist log p" by simp
  show step: "dist log ((p + ?n) mod l_size log) = dist log p - ?n" by (rule dist_step [OF p(1,2) n])
  have "ring log p (dist log p) = ring log p (entry_size A) @ ring log ((p + entry_size A) mod l_size log) (length (snd e)) @
      ring log ((p + ?n) mod l_size log) (length ?rest)"
    unfolding d ring_add [of log p ?n] ring_add [of log p "entry_size A"] by simp
  with bytes len have eq: "ring log p (entry_size A) = enc_entry A (fst e)"
    "ring log ((p + entry_size A) mod l_size log) (length (snd e)) = snd e"
    "ring log ((p + ?n) mod l_size log) (length ?rest) = ?rest"
    by (simp_all add: append_eq_append_conv)
  show hd: "get_entry_header A log p = enc_entry A (fst e)" using header_ring [OF p(3,1) sz] eq(1) by simp
  have "le_len (fst e) \<le> max_payload A" "le_euid (fst e) < 2 ^ 32" "length (snd e) = le_len (fst e)"
    using e by (simp_all add: entry_ok_def)
  then show "get_entry_msg_len A log p = length (snd e)"
    "le_euid (dec_entry A (get_entry_header A log p)) = le_euid (fst e)"
    using A by (simp_all add: get_entry_msg_len_def hd abi_ok_def)
  show "ring log ((p + entry_size A) mod l_size log) (length (snd e)) = snd e" by (rule eq(2))
  have "dist log ((p + ?n) mod l_size log) = length ?rest" using step d by simp
  then show "holds A log ((p + ?n) mod l_size log) es"
    using h p eq(3) by (simp add: holds_def)
qed

section \<open>Pulling pointers forward\<close>

lemma is_between_dist:
  assumes old: "old < s" and c: "c < s" and n: "0 < n" "n < s"
  shows "is_between old ((old + n) mod s) c \<longleftrightarrow> c \<noteq> old \<and> (c + s - old) mod s \<le> n"
proof (cases "old + n < s")
  case True
  then show ?thesis using assms by (auto simp: is_between_def le_mod_geq mod_if)
next
  case False
  then have "(old + n) mod s = old + n - s" using assms by (simp add: le_mod_geq)
  then show ?thesis using assms False by (auto simp: is_between_def le_mod_geq mod_if)
qed

text \<open>A pointer is passed by a writer of \<open>n\<close> bytes unless what it has to read leaves room for them.\<close>

lemma dist_other_way:
  assumes "p < l_size log" and "w_off log < l_size log" and "p \<noteq> w_off log"
  shows "dist log p + (p + l_size log - w_off log) mod l_size log = l_size log"
  using assms by (auto simp: dist_cases mod_if)

lemma is_between_room:
  assumes "p < l_size log" and "w_off log < l_size log" and "0 < n" and "n < l_size log"
  shows "is_between (w_off log) ((w_off log + n) mod l_size log) p \<longleftrightarrow> l_size log \<le> dist log p + n"
proof (cases "p = w_off log")
  case True
  then show ?thesis using assms dist_0 [OF assms(1,2)] is_between_dist [OF assms(2,1,3,4)] by simp
next
  case False
  then show ?thesis
    using dist_other_way [OF assms(1,2)] is_between_dist [OF assms(2,1,3,4)] by auto
qed

lemma next_entry_loop_ok:
  assumes A: "abi_ok A" and sh: "shape A log"
  shows "holds A log p es \<Longrightarrow> c < n \<Longrightarrow> n - c \<le> dist log p \<Longrightarrow>
    \<exists>k q. next_entry_loop A log p c n = Some q \<and> holds A log q (drop k es) \<and> dist log q + (n - c) \<le> dist log p"
proof (induction es arbitrary: p c)
  case Nil
  then have "p = w_off log" using holds_Nil_iff [OF A sh Nil(1)] by simp
  then have "dist log p = 0" using dist_0 [of p log] sh Nil(1) by (simp add: shape_def holds_def)
  with Nil show ?case by simp
next
  case (Cons e es)
  note h = holds_Cons [OF A sh Cons.prems(1)]
  let ?n = "entry_size A + length (snd e)"
  let ?q = "(p + ?n) mod l_size log"
  have run: "next_entry_loop A log p c n =
      (if c + ?n < n then next_entry_loop A log ?q (c + ?n) n else Some ?q)"
    by (subst next_entry_loop.simps) (simp add: h(2) shape_offset [OF sh] Let_def)
  show ?case
  proof (cases "c + ?n < n")
    case True
    have "n - (c + ?n) \<le> dist log ?q" using Cons.prems(3) h(7) True by simp
    from Cons.IH [OF h(5) True this] obtain k q where q: "next_entry_loop A log ?q (c + ?n) n = Some q"
      "holds A log q (drop k es)" "dist log q + (n - (c + ?n)) \<le> dist log ?q" by blast
    have "dist log q + (n - c) \<le> dist log p" using q(3) h(6,7) True by linarith
    then show ?thesis using run True q(1,2) by (intro exI [of _ "Suc k"] exI [of _ q]) simp
  next
    case False
    have "dist log ?q + (n - c) \<le> dist log p" using h(6,7) False by linarith
    then show ?thesis using run False h(5) by (intro exI [of _ 1] exI [of _ ?q]) simp
  qed
qed

text \<open>After the pull every pointer has room for the write behind it, and it lost entries from the front only.\<close>

definition pulled :: "logger_abi \<Rightarrow> logger_log \<Rightarrow> nat \<Rightarrow> nat \<Rightarrow> nat \<Rightarrow> bool" where
  "pulled A log n p q \<longleftrightarrow> q < l_size log \<and> dist log q + n < l_size log \<and>
     (\<forall>es. holds A log p es \<longrightarrow> (\<exists>k. holds A log q (drop k es))) \<and> (dist log p + n < l_size log \<longrightarrow> q = p)"

lemma pull_one:
  assumes A: "abi_ok A" and sh: "shape A log" and h: "\<exists>es. holds A log p es"
    and n: "0 < n" "2 * n \<le> l_size log"
  shows "\<exists>q. (if is_between (w_off log) (logger_offset log (w_off log + n)) p then get_next_entry A log p n else Some p) = Some q \<and>
    pulled A log n p q"
proof -
  have p: "p < l_size log" "w_off log < l_size log" using h sh by (auto simp: holds_def shape_def)
  have n': "n < l_size log" using n by linarith
  note bt = is_between_room [OF p n(1) n', folded shape_offset [OF sh]]
  show ?thesis
  proof (cases "l_size log \<le> dist log p + n")
    case True
    then have room: "n - 0 \<le> dist log p" using n by linarith
    have one: "\<exists>q. get_next_entry A log p n = Some q \<and> (\<exists>k. holds A log q (drop k es)) \<and> dist log q + n \<le> dist log p"
      if "holds A log p es" for es
      using next_entry_loop_ok [OF A sh that n(1) room] by (auto simp: get_next_entry_def)
    from h obtain es where es: "holds A log p es" by blast
    from one [OF es] obtain q where q: "get_next_entry A log p n = Some q" "\<exists>k. holds A log q (drop k es)"
      "dist log q + n \<le> dist log p" by blast
    have "dist log q + n < l_size log" using q(3) dist_less [of log p] n' by linarith
    moreover have "\<exists>k. holds A log q (drop k ds)" if "holds A log p ds" for ds
      using one [OF that] q(1) by auto
    moreover have "q < l_size log" using q(2) by (auto simp: holds_def)
    ultimately show ?thesis using True bt q(1) by (auto simp: pulled_def)
  next
    case False
    then have "pulled A log n p p" using p by (auto simp: pulled_def intro: exI [of _ 0])
    with False bt show ?thesis by simp
  qed
qed

end
