(* ===== verification/LoggerWrite.thy ===== *)
theory LoggerWrite
  imports LoggerRing
begin

text \<open>
  Writing: the two stores of a chunk that wraps around the end of the buffer, the segments of a
  vectored write one after the other, and the whole operation, which appends an entry to every
  pointer's sequence and drops entries from the front of those it laps.
\<close>

section \<open>Writing\<close>

text \<open>\<open>d\<close> is in the ring behind the write offset of \<open>log\<close>, which moved past it; the rest is as before.\<close>

definition scribbled :: "logger_log \<Rightarrow> nat \<Rightarrow> logger_log \<Rightarrow> bool" where
  "scribbled log n log' \<longleftrightarrow> length (l_buffer log') = l_size log \<and> l_size log' = l_size log \<and>
     l_head log' = l_head log \<and> l_readers log' = l_readers log \<and> l_minor log' = l_minor log \<and>
     (\<forall>i. n \<le> i \<and> i < l_size log \<longrightarrow>
        l_buffer log' ! ((w_off log + i) mod l_size log) = l_buffer log ! ((w_off log + i) mod l_size log))"

definition written :: "logger_log \<Rightarrow> u8 list \<Rightarrow> logger_log \<Rightarrow> bool" where
  "written log d log' \<longleftrightarrow> scribbled log (length d) log' \<and>
     w_off log' = (w_off log + length d) mod l_size log \<and> ring log' (w_off log) (length d) = d"

lemma scribbled_mono: "scribbled log m log' \<Longrightarrow> m \<le> n \<Longrightarrow> scribbled log n log'"
  by (auto simp: scribbled_def)

lemma written_Nil: "length (l_buffer log) = l_size log \<Longrightarrow> w_off log < l_size log \<Longrightarrow> written log [] log"
  by (simp add: written_def scribbled_def)

text \<open>Two stores that together write \<open>d\<close> around the end of the buffer.\<close>

lemma store_fields [simp]:
  "l_size (store a d log) = l_size log" "w_off (store a d log) = w_off log" "l_head (store a d log) = l_head log"
  "l_readers (store a d log) = l_readers log" "l_minor (store a d log) = l_minor log"
  by (simp_all add: store_def)

lemma length_store: "a + length d \<le> length (l_buffer log) \<Longrightarrow> length (l_buffer (store a d log)) = length (l_buffer log)"
  by (simp add: store_def)

lemma nth_store:
  "a + length d \<le> length (l_buffer log) \<Longrightarrow> i < length (l_buffer log) \<Longrightarrow>
     l_buffer (store a d log) ! i = (if a \<le> i \<and> i < a + length d then d ! (i - a) else l_buffer log ! i)"
  by (auto simp: store_def nth_append min_def not_less)

lemma wrap_index:
  assumes "w < s" and "i < (s::nat)"
  shows "(w + i) mod s = (if i < s - w then w + i else i - (s - w))"
proof (cases "i < s - w")
  case True
  then have "w + i < s" using assms by linarith
  with True show ?thesis by simp
next
  case False
  then have "s \<le> w + i" "w + i - s < s" using assms by linarith+
  then have "(w + i) mod s = w + i - s" by (simp add: le_mod_geq)
  with False assms show ?thesis by simp
qed

lemma first_store:
  assumes l: "length (l_buffer log) = l_size log" and w: "w_off log < l_size log" and n: "length d \<le> l_size log"
    and len: "len = min (length d) (l_size log - w_off log)"
  shows "scribbled log len (store (w_off log) (List.take len d) log)"
proof -
  have d: "length (List.take len d) = len" "w_off log + len \<le> length (l_buffer log)" using l w len by auto
  have "l_buffer (store (w_off log) (List.take len d) log) ! ((w_off log + i) mod l_size log) =
      l_buffer log ! ((w_off log + i) mod l_size log)" if "len \<le> i" "i < l_size log" for i
    using nth_store [of "w_off log" "List.take len d" log "(w_off log + i) mod l_size log"] d l w that n len
    by (auto simp: wrap_index [OF w that(2)])
  then show ?thesis using length_store [of "w_off log" "List.take len d" log] d l by (simp add: scribbled_def)
qed

lemma both_stores:
  assumes l: "length (l_buffer log) = l_size log" and w: "w_off log < l_size log" and n: "length d \<le> l_size log"
    and len: "len = min (length d) (l_size log - w_off log)"
    and log1: "log1 = store (w_off log) (List.take len d) log"
    and log2: "log2 = (if length d \<noteq> len then store 0 (drop len d) log1 else log1)"
  shows "scribbled log (length d) log2" and "ring log2 (w_off log) (length d) = d"
proof -
  have d1: "length (List.take len d) = len" "w_off log + len \<le> length (l_buffer log)" using l w len by auto
  have l1: "length (l_buffer log1) = l_size log" using length_store [of "w_off log" "List.take len d" log] d1 l log1 by simp
  have b: "l_buffer log2 ! ((w_off log + i) mod l_size log) =
      (if i < length d then d ! i else l_buffer log ! ((w_off log + i) mod l_size log))" if i: "i < l_size log" for i
  proof -
    let ?j = "(w_off log + i) mod l_size log"
    have j: "?j < l_size log" using i by simp
    note idx = wrap_index [OF w i]
    have s1: "l_buffer log1 ! ?j = (if w_off log \<le> ?j \<and> ?j < w_off log + len then d ! (?j - w_off log) else l_buffer log ! ?j)"
      using nth_store [of "w_off log" "List.take len d" log ?j] d1 j l by (auto simp: log1)
    show ?thesis
    proof (cases "length d = len")
      case True
      then have eq: "log2 = log1" "length d \<le> l_size log - w_off log" using len by (auto simp: log2)
      show ?thesis
      proof (cases "i < l_size log - w_off log")
        case in1: True
        then have "?j = w_off log + i" using idx by simp
        with s1 eq(1) True show ?thesis by simp
      next
        case out: False
        then have "?j < w_off log" "\<not> i < length d" using idx i w eq(2) by auto
        with s1 eq(1) show ?thesis by simp
      qed
    next
      case False
      then have ln: "len = l_size log - w_off log" "len < length d" using len by auto
      have "l_buffer log2 ! ?j = (if ?j < length d - len then d ! (len + ?j) else l_buffer log1 ! ?j)"
        using nth_store [of 0 "drop len d" log1 ?j] False j l1 n by (auto simp: log2)
      note s2 = this
      show ?thesis
      proof (cases "i < len")
        case in1: True
        then have j: "?j = w_off log + i" using idx ln by simp
        have c: "\<not> w_off log + i < length d - len" "w_off log + i < w_off log + len" "i < length d"
          using in1 ln n w by linarith+
        with s1 s2 show ?thesis unfolding j by simp
      next
        case out: False
        then have j: "?j = i - len" "?j < w_off log" using idx ln i w by auto
        then have "len + ?j = i" "?j < length d - len \<longleftrightarrow> i < length d" using out by auto
        with s1 s2 j(2) show ?thesis by simp
      qed
    qed
  qed
  have sz: "l_size log2 = l_size log" "length (l_buffer log2) = l_size log"
    using l1 n length_store [of 0 "drop len d" log1] by (auto simp: log1 log2)
  show "scribbled log (length d) log2"
    using b sz by (auto simp: scribbled_def log1 log2)
  show "ring log2 (w_off log) (length d) = d"
    using b n sz by (intro nth_equalityI) (simp_all add: ring_def)
qed

lemma do_write_log_ok:
  assumes sh: "shape A log" and n: "length d \<le> l_size log"
  shows "written log d (do_write_log d log)"
proof -
  have w: "length (l_buffer log) = l_size log" "w_off log < l_size log" using sh by (simp_all add: shape_def)
  define len where "len = min (length d) (l_size log - w_off log)"
  define log1 where "log1 = store (w_off log) (List.take len d) log"
  define log2 where "log2 = (if length d \<noteq> len then store 0 (drop len d) log1 else log1)"
  have run: "do_write_log d log = log2\<lparr>w_off := logger_offset log2 (w_off log2 + length d)\<rparr>"
    by (simp add: do_write_log_def len_def log1_def log2_def Let_def)
  note b = both_stores [OF w n len_def log1_def log2_def]
  have "w_off log2 = w_off log" "l_size log2 = l_size log" by (simp_all add: log2_def log1_def)
  moreover from this have "logger_offset log2 m = m mod l_size log" for m
    using shape_offset [OF sh, of m] by (simp add: logger_offset_def)
  ultimately show ?thesis using b unfolding run by (simp add: written_def scribbled_def ring_def)
qed

text \<open>What \<open>copy_from_user\<close> delivers for a segment that is split at the end of the buffer.\<close>

definition arrives :: "logger_env \<Rightarrow> logger_log \<Rightarrow> nat \<Rightarrow> nat \<Rightarrow> u8 list" where
  "arrives E log a n = (let len = min n (l_size log - w_off log) in
     (if len \<noteq> 0 then snd (cfu E a len) else []) @ (if n \<noteq> len then snd (cfu E (a + len) (n - len)) else []))"

text \<open>User memory that can be read and holds \<open>mem\<close>; what the segments hold.\<close>

definition reads_mem :: "logger_env \<Rightarrow> (nat \<Rightarrow> u8) \<Rightarrow> bool" where
  "reads_mem E mem \<longleftrightarrow> (\<forall>a n. cfu E a n = (True, map mem [a..<a + n]))"

definition gather :: "(nat \<Rightarrow> u8) \<Rightarrow> (nat \<times> nat) list \<Rightarrow> u8 list" where
  "gather mem iov = concat (map (\<lambda>(a, n). map mem [a..<a + n]) iov)"

lemma arrives_mem: "reads_mem E mem \<Longrightarrow> arrives E log a n = map mem [a..<a + n]"
proof -
  assume m: "reads_mem E mem"
  define len where "len = min n (l_size log - w_off log)"
  have "[a..<a + n] = [a..<a + len] @ [a + len..<a + len + (n - len)]"
    using upt_add_eq_append [of a "a + len" "n - len"] by (simp add: len_def)
  then show ?thesis using m by (auto simp: arrives_def reads_mem_def len_def [symmetric] Let_def)
qed

lemma do_write_log_from_user_ok:
  assumes E: "env_ok E" and sh: "shape A log" and n: "n \<le> l_size log"
    and run: "do_write_log_from_user E a n log = (ret, log')"
  shows "ret = int n \<and> written log (arrives E log a n) log' \<and> length (arrives E log a n) = n \<or>
    ret = -EFAULT \<and> scribbled log n log'"
    and "\<forall>a n. fst (cfu E a n) \<Longrightarrow> ret = int n"
proof -
  have w: "length (l_buffer log) = l_size log" "w_off log < l_size log" using sh by (simp_all add: shape_def)
  let ?d = "arrives E log a n"
  have d: "length ?d = n" using E by (auto simp: arrives_def env_ok_def Let_def)
  define len where "len = min (length ?d) (l_size log - w_off log)"
  define log1 where "log1 = store (w_off log) (List.take len ?d) log"
  define log2 where "log2 = (if length ?d \<noteq> len then store 0 (drop len ?d) log1 else log1)"
  have len: "len = min n (l_size log - w_off log)" by (simp add: len_def d)
  have n': "length ?d \<le> l_size log" using d n by simp
  have ln: "length (snd (cfu E b k)) = k" for b k using E by (simp add: env_ok_def)
  have tk: "List.take len ?d = (if len \<noteq> 0 then snd (cfu E a len) else [])" "drop len ?d = (if n \<noteq> len then snd (cfu E (a + len) (n - len)) else [])"
    using ln by (auto simp: arrives_def len Let_def)
  have s0: "store (w_off log) [] log = log" by (simp add: store_def)
  have l1: "(if len \<noteq> 0 then store (w_off log) (snd (cfu E a len)) log else log) = log1"
    using tk(1) s0 by (simp add: log1_def)
  have l2: "(if n \<noteq> len then store 0 (snd (cfu E (a + len) (n - len))) log1 else log1) = log2"
    using tk(2) by (simp add: log2_def d)
  have run': "(ret, log') = (if len \<noteq> 0 \<and> \<not> fst (cfu E a len) then (-EFAULT, log1)
      else if n \<noteq> len \<and> \<not> fst (cfu E (a + len) (n - len)) then (-EFAULT, log2)
      else (int n, log2\<lparr>w_off := logger_offset log2 (w_off log2 + n)\<rparr>))"
    unfolding run [symmetric] do_write_log_from_user_def Let_def len [symmetric] l1 l2 by simp
  note b = both_stores [OF w n' len_def log1_def log2_def]
  have "scribbled log n log1"
    using scribbled_mono [OF first_store [OF w n' len_def]] len unfolding log1_def by simp
  moreover have "scribbled log n log2" using b(1) d by simp
  moreover have "written log ?d (log2\<lparr>w_off := logger_offset log2 (w_off log2 + n)\<rparr>)"
  proof -
    have "w_off log2 = w_off log" "l_size log2 = l_size log" by (simp_all add: log2_def log1_def)
    moreover from this have "logger_offset log2 m = m mod l_size log" for m
      using shape_offset [OF sh, of m] by (simp add: logger_offset_def)
    ultimately show ?thesis using b d by (simp add: written_def scribbled_def ring_def)
  qed
  ultimately show "ret = int n \<and> written log ?d log' \<and> length ?d = n \<or> ret = -EFAULT \<and> scribbled log n log'"
    using run' d by (auto split: if_splits)
  show "ret = int n" if "\<forall>a n. fst (cfu E a n)" using run' that by (auto split: if_splits)
qed

text \<open>Writes one after the other.\<close>

lemma scribbled_shape: "shape A log \<Longrightarrow> scribbled log n log' \<Longrightarrow> w_off log' < l_size log \<Longrightarrow> shape A log'"
  by (simp add: shape_def scribbled_def)

lemma written_shape: "shape A log \<Longrightarrow> written log d log' \<Longrightarrow> shape A log'"
  by (auto simp: written_def shape_def scribbled_def)

lemma scribbled_trans:
  assumes "written log d log1" and "scribbled log1 n log2" and "length d + n \<le> l_size log" and w: "w_off log < l_size log"
  shows "scribbled log (length d + n) log2"
proof -
  have "l_buffer log2 ! ((w_off log + i) mod l_size log) = l_buffer log ! ((w_off log + i) mod l_size log)"
    if i: "length d + n \<le> i" "i < l_size log" for i
  proof -
    have w1: "w_off log1 = (w_off log + length d) mod l_size log" using assms(1) by (simp add: written_def)
    have "w_off log + length d + (i - length d) = w_off log + i" using i by simp
    then have e: "(w_off log1 + (i - length d)) mod l_size log = (w_off log + i) mod l_size log"
      unfolding w1 mod_add_left_eq by simp
    have "n \<le> i - length d" "i - length d < l_size log" using i by auto
    then have "l_buffer log2 ! ((w_off log1 + (i - length d)) mod l_size log) =
        l_buffer log1 ! ((w_off log1 + (i - length d)) mod l_size log)"
      using assms(1,2) by (simp add: scribbled_def written_def)
    then have "l_buffer log2 ! ((w_off log + i) mod l_size log) = l_buffer log1 ! ((w_off log + i) mod l_size log)"
      by (simp only: e)
    also have "\<dots> = l_buffer log ! ((w_off log + i) mod l_size log)"
      using assms(1) i by (simp add: scribbled_def written_def)
    finally show ?thesis .
  qed
  then show ?thesis using assms(1,2) by (simp add: scribbled_def written_def)
qed

lemma written_trans:
  assumes "written log d log1" and "written log1 e log2" and n: "length d + length e \<le> l_size log" and w: "w_off log < l_size log"
  shows "written log (d @ e) log2"
proof -
  have s: "scribbled log (length d + length e) log2"
    using scribbled_trans [OF assms(1) _ n w] assms(2) by (simp add: written_def)
  have sz: "l_size log1 = l_size log" "l_size log2 = l_size log" "w_off log1 = (w_off log + length d) mod l_size log"
    using assms(1,2) by (simp_all add: written_def scribbled_def)
  have "ring log2 (w_off log) (length d) = d"
  proof (rule nth_equalityI)
    fix i assume "i < length (ring log2 (w_off log) (length d))"
    then have i: "i < length d" by simp
    define j where "j = l_size log - length d + i"
    have j: "length e \<le> j" "j < l_size log" using i n by (auto simp: j_def)
    have "(w_off log1 + j) mod l_size log = (w_off log + length d + j) mod l_size log"
      unfolding sz(3) by (rule mod_add_left_eq)
    also have "w_off log + length d + j = w_off log + i + l_size log" using n by (simp add: j_def)
    also have "\<dots> mod l_size log = (w_off log + i) mod l_size log" by simp
    finally have e: "(w_off log1 + j) mod l_size log = (w_off log + i) mod l_size log" .
    have "l_buffer log2 ! ((w_off log1 + j) mod l_size log) = l_buffer log1 ! ((w_off log1 + j) mod l_size log)"
      using assms(2) j sz by (simp add: written_def scribbled_def)
    then have "l_buffer log2 ! ((w_off log + i) mod l_size log) = l_buffer log1 ! ((w_off log + i) mod l_size log)"
      unfolding e .
    then have "ring log2 (w_off log) (length d) ! i = ring log1 (w_off log) (length d) ! i"
      using i by (simp add: ring_def sz)
    then show "ring log2 (w_off log) (length d) ! i = d ! i" using assms(1) by (simp add: written_def)
  qed simp
  moreover have "ring log2 ((w_off log + length d) mod l_size log) (length e) = e"
    using assms(2) sz by (simp add: written_def)
  ultimately have "ring log2 (w_off log) (length (d @ e)) = d @ e"
    using ring_add [of log2 "w_off log" "length d" "length e"] sz by simp
  moreover have "w_off log2 = (w_off log + length (d @ e)) mod l_size log"
    using assms(2) sz by (simp add: written_def mod_add_left_eq add.assoc)
  ultimately show ?thesis using s by (simp add: written_def)
qed

text \<open>The payload of the segments as it arrives, and the whole loop.\<close>

lemma min_seg: "min l (h - r) + min (h - (r + min l (h - r))) s = min (h - r) (l + s)" for l h r s :: nat
  by (auto simp: min_def)

lemma write_segs_ok:
  assumes E: "env_ok E" and A: "abi_ok A"
  shows "shape A log \<Longrightarrow> hlen \<le> max_payload A \<Longrightarrow> ret \<le> hlen \<Longrightarrow> write_segs E hlen iov ret log = (r, log') \<Longrightarrow>
    (\<exists>m. r = int (ret + length m) \<and> length m = min (hlen - ret) (sum_list (map snd iov)) \<and> written log m log' \<and>
      (\<forall>mem. reads_mem E mem \<longrightarrow> m = List.take (hlen - ret) (gather mem iov))) \<or>
    r = -EFAULT \<and> scribbled log (hlen - ret) log' \<and> \<not> (\<forall>a n. fst (cfu E a n))"
proof (induction iov arbitrary: ret log)
  case Nil
  then show ?case using written_Nil [of log] by (auto simp: shape_def gather_def)
next
  case (Cons s iov)
  obtain base l where s: "s = (base, l)" by fastforce
  let ?n = "min l (hlen - ret)"
  obtain nr log1 where one: "do_write_log_from_user E base ?n log = (nr, log1)" by fastforce
  have fit: "?n \<le> l_size log" "hlen - ret \<le> l_size log" using Cons.prems(1,2) by (auto simp: shape_def)
  have w: "w_off log < l_size log" using Cons.prems(1) by (simp add: shape_def)
  from do_write_log_from_user_ok(1) [OF E Cons.prems(1) fit(1) one] show ?case
  proof (elim disjE conjE)
    assume bad: "nr = -EFAULT" "scribbled log ?n log1"
    then have "r = -EFAULT" "log' = log1" using Cons.prems(4) by (simp_all add: s one EFAULT_def)
    moreover have "\<not> (\<forall>a n. fst (cfu E a n))"
      using do_write_log_from_user_ok(2) [OF E Cons.prems(1) fit(1) one] bad(1) by (auto simp: EFAULT_def)
    ultimately show ?thesis using scribbled_mono [OF bad(2)] by auto
  next
    let ?m = "arrives E log base ?n"
    assume ok: "nr = int ?n" "written log ?m log1" "length ?m = ?n"
    have run: "write_segs E hlen iov (ret + ?n) log1 = (r, log')" using Cons.prems(4) ok(1) by (simp add: s one)
    have sh1: "shape A log1" by (rule written_shape [OF Cons.prems(1) ok(2)])
    have le: "ret + ?n \<le> hlen" using Cons.prems(3) by simp
    from Cons.IH [OF sh1 Cons.prems(2) le run] show ?thesis
    proof (elim disjE exE conjE)
      fix m assume m: "r = int (ret + ?n + length m)" "length m = min (hlen - (ret + ?n)) (sum_list (map snd iov))"
        "written log1 m log'" "\<forall>mem. reads_mem E mem \<longrightarrow> m = List.take (hlen - (ret + ?n)) (gather mem iov)"
      have "length ?m + length m \<le> l_size log" using ok(3) m(2) fit(2) by linarith
      note t = written_trans [OF ok(2) m(3) this w]
      have "length ?m + length m = min (hlen - ret) (l + sum_list (map snd iov))"  unfolding m(2) ok(3) by (rule min_seg)
      then have "r = int (ret + length (?m @ m))" "length (?m @ m) = min (hlen - ret) (sum_list (map snd (s # iov)))"
        using m(1) ok(3) by (simp_all add: s)
      moreover have "?m @ m = List.take (hlen - ret) (gather mem (s # iov))" if mem: "reads_mem E mem" for mem
      proof -
        have g: "gather mem (s # iov) = map mem [base..<base + l] @ gather mem iov" by (simp add: gather_def s)
        have "?m = List.take (hlen - ret) (map mem [base..<base + l])"
          using arrives_mem [OF mem] by (simp add: take_map min_def take_upt)
        moreover have "m = List.take (hlen - ret - l) (gather mem iov)" using m(4) mem by (auto simp: min_def)
        ultimately show ?thesis unfolding g by simp
      qed
      ultimately show ?thesis using t by blast
    next
      assume bad: "r = -EFAULT" "scribbled log1 (hlen - (ret + ?n)) log'" "\<not> (\<forall>a n. fst (cfu E a n))"
      have "?n + (hlen - (ret + ?n)) = hlen - ret" by simp
      then have eq: "length ?m + (hlen - (ret + ?n)) = hlen - ret" using ok(3) by simp
      then have "length ?m + (hlen - (ret + ?n)) \<le> l_size log" using fit(2) by simp
      from scribbled_trans [OF ok(2) bad(2) this w] have "scribbled log (hlen - ret) log'" unfolding eq .
      with bad(1,3) show ?thesis by simp
    qed
  qed
qed

section \<open>Pointers after a write\<close>

lemma scribbled_ring:
  assumes s: "scribbled log n log'" and p: "p < l_size log" "w_off log < l_size log" and room: "dist log p + n \<le> l_size log"
  shows "ring log' p (dist log p) = ring log p (dist log p)"
proof (rule nth_equalityI)
  fix i assume "i < length (ring log' p (dist log p))"
  then have i: "i < dist log p" by simp
  define j where "j = l_size log - dist log p + i"
  have j: "n \<le> j" "j < l_size log" using i room dist_less [of log p] p by (auto simp: j_def)
  have "(w_off log + j) mod l_size log = ((p + dist log p) mod l_size log + j) mod l_size log"
    by (simp add: dist_end [OF p])
  also have "\<dots> = (p + dist log p + j) mod l_size log" by (rule mod_add_left_eq)
  also have "p + dist log p + j = p + i + l_size log" using room by (simp add: j_def)
  also have "\<dots> mod l_size log = (p + i) mod l_size log" by simp
  finally have e: "(w_off log + j) mod l_size log = (p + i) mod l_size log" .
  have "l_buffer log' ! ((w_off log + j) mod l_size log) = l_buffer log ! ((w_off log + j) mod l_size log)"
    using s j by (simp add: scribbled_def)
  then show "ring log' p (dist log p) ! i = ring log p (dist log p) ! i"
    unfolding e using i s by (simp add: ring_def scribbled_def)
qed simp

lemma written_holds:
  assumes w: "written log d log'" and sh: "shape A log" and room: "dist log p + length d < l_size log"
    and h: "holds A log p es" and e: "entry_ok A e" and d: "d = entry_bytes A e"
  shows "holds A log' p (es @ [e])"
proof -
  have sz: "l_size log' = l_size log" "w_off log' = (w_off log + length d) mod l_size log"
    using w by (simp_all add: written_def scribbled_def)
  have p: "p < l_size log" "w_off log < l_size log" using h sh by (simp_all add: holds_def shape_def)
  have keep: "ring log' p (dist log p) = concat (map (entry_bytes A) es)"
    using scribbled_ring [OF _ p, of "length d" log'] w room h by (simp add: written_def holds_def)
  have "dist log' p = ((w_off log + length d) mod l_size log + (l_size log - p)) mod l_size log"
    using p by (simp add: dist_def sz)
  also have "\<dots> = (w_off log + length d + (l_size log - p)) mod l_size log" by (rule mod_add_left_eq)
  also have "\<dots> = ((p + dist log p) mod l_size log + (length d + (l_size log - p))) mod l_size log"
    by (simp add: dist_end [OF p] add.assoc)
  also have "\<dots> = (p + dist log p + (length d + (l_size log - p))) mod l_size log" by (rule mod_add_left_eq)
  also have "p + dist log p + (length d + (l_size log - p)) = dist log p + length d + l_size log" using p by simp
  finally have dd: "dist log' p = dist log p + length d" using room by simp
  have "ring log' ((p + dist log p) mod l_size log') (length d) = d"
    using w by (simp add: sz dist_end [OF p] written_def)
  then have "ring log' p (dist log' p) = concat (map (entry_bytes A) (es @ [e]))"
    unfolding dd ring_add using keep by (simp add: d)
  then show ?thesis using h e p by (auto simp: holds_def sz)
qed

lemma scribbled_holds:
  assumes s: "scribbled log n log'" and sh: "shape A log" and room: "dist log p + n < l_size log"
    and h: "holds A log p es"
  shows "holds A (log'\<lparr>w_off := w_off log\<rparr>) p es"
proof -
  let ?l = "log'\<lparr>w_off := w_off log\<rparr>"
  have p: "p < l_size log" "w_off log < l_size log" using h sh by (simp_all add: holds_def shape_def)
  have sz: "l_size ?l = l_size log" using s by (simp add: scribbled_def)
  then have "dist ?l p = dist log p" by (simp add: dist_def)
  moreover have "ring ?l q m = ring log' q m" for q m by (simp add: ring_def)
  ultimately show ?thesis
    using scribbled_ring [OF s p] room h sz by (simp add: holds_def)
qed

section \<open>The write operation\<close>

definition same_reader :: "nat \<times> logger_reader \<Rightarrow> nat \<times> logger_reader \<Rightarrow> bool" where
  "same_reader x y \<longleftrightarrow> fst x = fst y \<and> r_all (snd x) = r_all (snd y) \<and> r_ver (snd x) = r_ver (snd y)"

lemma pull_readers_ok:
  assumes A: "abi_ok A" and sh: "shape A log" and n: "0 < n" "2 * n \<le> l_size log"
  shows "\<forall>x\<in>set rs. \<exists>es. holds A log (r_off (snd x)) es \<Longrightarrow>
    \<exists>rs'. pull_readers A log (w_off log) (logger_offset log (w_off log + n)) n rs = Some rs' \<and>
      list_all2 (\<lambda>x y. same_reader x y \<and> pulled A log n (r_off (snd x)) (r_off (snd y))) rs rs'"
proof (induction rs)
  case (Cons x rs)
  obtain i r where x: "x = (i, r)" by fastforce
  have "\<exists>es. holds A log (r_off r) es" using Cons.prems x by auto
  from pull_one [OF A sh this n] obtain q where
    q: "(if is_between (w_off log) (logger_offset log (w_off log + n)) (r_off r) then get_next_entry A log (r_off r) n
      else Some (r_off r)) = Some q" "pulled A log n (r_off r) q" by blast
  have step: "(if is_between (w_off log) (logger_offset log (w_off log + n)) (r_off r)
      then map_option (\<lambda>off. r\<lparr>r_off := off\<rparr>) (get_next_entry A log (r_off r) n) else Some r) = Some (r\<lparr>r_off := q\<rparr>)"
    using q(1) by (auto split: if_splits)
  from Cons.IH Cons.prems obtain rs' where
    rs': "pull_readers A log (w_off log) (logger_offset log (w_off log + n)) n rs = Some rs'"
      "list_all2 (\<lambda>x y. same_reader x y \<and> pulled A log n (r_off (snd x)) (r_off (snd y))) rs rs'" by auto
  show ?case
    using rs' q(2) by (simp add: x step) (simp add: same_reader_def)
qed simp

text \<open>What depends on the buffer and the write offset only.\<close>

lemma frame:
  assumes "l_buffer log' = l_buffer log" and "w_off log' = w_off log" and "l_size log' = l_size log"
  shows "shape A log' = shape A log" and "dist log' = dist log" and "ring log' = ring log"
    and "holds A log' = holds A log" and "pulled A log' = pulled A log" and "logger_offset log' = logger_offset log"
proof -
  show 1: "shape A log' = shape A log" "dist log' = dist log" "ring log' = ring log"
    "logger_offset log' = logger_offset log"
    by (simp_all add: shape_def dist_def ring_def logger_offset_def fun_eq_iff assms)
  show 2: "holds A log' = holds A log" by (simp add: holds_def 1 assms fun_eq_iff)
  show "pulled A log' = pulled A log" by (simp add: pulled_def 1 2 assms fun_eq_iff)
qed

lemma fix_up_readers_ok:
  assumes A: "abi_ok A" and ok: "log_ok A log" and n: "0 < n" "2 * n \<le> l_size log"
  obtains h rs where "fix_up_readers A n log = Some (log\<lparr>l_head := h, l_readers := rs\<rparr>)"
    and "pulled A log n (l_head log) h"
    and "list_all2 (\<lambda>x y. same_reader x y \<and> pulled A log n (r_off (snd x)) (r_off (snd y))) (l_readers log) rs"
proof -
  have sh: "shape A log" using ok by (simp add: log_ok_def)
  have "\<exists>es. holds A log (l_head log) es" using ok by (simp add: log_ok_def pointers_def)
  from pull_one [OF A sh this n] obtain h where
    h: "(if is_between (w_off log) (logger_offset log (w_off log + n)) (l_head log) then get_next_entry A log (l_head log) n
      else Some (l_head log)) = Some h" "pulled A log n (l_head log) h" by blast
  let ?l = "log\<lparr>l_head := h\<rparr>"
  have fr: "l_buffer ?l = l_buffer log" "w_off ?l = w_off log" "l_size ?l = l_size log" by simp_all
  note fr = frame [OF fr]
  have "\<forall>x\<in>set (l_readers log). \<exists>es. holds A ?l (r_off (snd x)) es"
    using ok unfolding fr(4) by (simp add: log_ok_def pointers_def)
  moreover have "shape A ?l" "2 * n \<le> l_size ?l" using sh n fr(1) by simp_all
  ultimately obtain rs where rs: "pull_readers A ?l (w_off log) (logger_offset log (w_off log + n)) n (l_readers log) = Some rs"
      "list_all2 (\<lambda>x y. same_reader x y \<and> pulled A log n (r_off (snd x)) (r_off (snd y))) (l_readers log) rs"
    using pull_readers_ok [OF A _ n(1), of ?l "l_readers log"] unfolding fr(5,6) by auto
  have "fix_up_readers A n log = Some (log\<lparr>l_head := h, l_readers := rs\<rparr>)"
    unfolding fix_up_readers_def Let_def h(1) by (simp add: rs(1))
  then show ?thesis using that h(2) rs(2) by blast
qed

text \<open>
  A write that succeeds: the pointer \<open>q\<close> that was \<open>p\<close> sees the entries of \<open>p\<close>, without some from the
  front, and the new entry; it is \<open>p\<close>, with all entries, when there was room. A write that fails keeps
  the entries that are left.
\<close>

definition appended :: "logger_abi \<Rightarrow> logger_log \<Rightarrow> logger_log \<Rightarrow> logger_entry \<times> u8 list \<Rightarrow> nat \<Rightarrow> nat \<Rightarrow> bool" where
  "appended A log log' e p q \<longleftrightarrow> (\<forall>es. holds A log p es \<longrightarrow>
     (\<exists>k. holds A log' q (drop k es @ [e]) \<and> (dist log p + length (entry_bytes A e) < l_size log \<longrightarrow> q = p \<and> k = 0)))"

definition trimmed :: "logger_abi \<Rightarrow> logger_log \<Rightarrow> logger_log \<Rightarrow> nat \<Rightarrow> nat \<Rightarrow> bool" where
  "trimmed A log log' p q \<longleftrightarrow> (\<forall>es. holds A log p es \<longrightarrow> (\<exists>k. holds A log' q (drop k es)))"

lemma pulled_appended:
  assumes A: "abi_ok A" and sh: "shape A log" and pq: "pulled A log n p q"
    and fr: "l_buffer log1 = l_buffer log" "w_off log1 = w_off log" "l_size log1 = l_size log"
    and w: "written log1 (entry_bytes A e) log'" and e: "entry_ok A e" and n: "n = length (entry_bytes A e)"
  shows "appended A log log' e p q"
  unfolding appended_def
proof (intro allI impI)
  fix es assume h: "holds A log p es"
  note f = frame [OF fr]
  have room: "dist log1 q + length (entry_bytes A e) < l_size log1" using pq n fr(3) by (simp add: pulled_def f)
  have sh1: "shape A log1" using sh by (simp add: f)
  have go: "holds A log' q (ds @ [e])" if "holds A log q ds" for ds
    using written_holds [OF w sh1 room _ e refl] that by (simp add: f)
  from pq h obtain k where k: "holds A log q (drop k es)" by (auto simp: pulled_def)
  show "\<exists>k. holds A log' q (drop k es @ [e]) \<and> (dist log p + length (entry_bytes A e) < l_size log \<longrightarrow> q = p \<and> k = 0)"
  proof (cases "dist log p + length (entry_bytes A e) < l_size log")
    case True
    then have "q = p" using pq n by (simp add: pulled_def)
    with go [of es] h show ?thesis by (intro exI [of _ 0]) simp
  next
    case False
    with go [OF k] show ?thesis by blast
  qed
qed

lemma pulled_trimmed:
  assumes sh: "shape A log" and pq: "pulled A log n p q"
    and fr: "l_buffer log1 = l_buffer log" "w_off log1 = w_off log" "l_size log1 = l_size log"
    and s: "scribbled log1 n log2"
  shows "trimmed A log (log2\<lparr>w_off := w_off log\<rparr>) p q"
  unfolding trimmed_def
proof (intro allI impI)
  fix es assume h: "holds A log p es"
  note f = frame [OF fr]
  from pq h obtain k where k: "holds A log q (drop k es)" by (auto simp: pulled_def)
  have room: "dist log1 q + n < l_size log1" using pq fr(3) by (simp add: pulled_def f)
  have sh1: "shape A log1" using sh by (simp add: f)
  have "holds A (log2\<lparr>w_off := w_off log1\<rparr>) q (drop k es)"
    using scribbled_holds [OF s sh1 room] k by (simp add: f)
  then show "\<exists>k. holds A (log2\<lparr>w_off := w_off log\<rparr>) q (drop k es)" using fr(2) by auto
qed

lemma log_ok_step:
  assumes ok: "log_ok A log" and sh: "shape A log'" and hd: "P (l_head log) (l_head log')"
    and rd: "list_all2 (\<lambda>x y. same_reader x y \<and> P (r_off (snd x)) (r_off (snd y))) (l_readers log) (l_readers log')"
    and P: "\<And>p q es. P p q \<Longrightarrow> holds A log p es \<Longrightarrow> \<exists>ds. holds A log' q ds"
  shows "log_ok A log'"
  unfolding log_ok_def
proof (intro conjI ballI)
  show "shape A log'" by (rule sh)
  fix q assume "q \<in> pointers log'"
  then consider "q = l_head log'" | y where "y \<in> set (l_readers log')" "q = r_off (snd y)"
    by (auto simp: pointers_def)
  then show "\<exists>es. holds A log' q es"
  proof cases
    case 1
    have "\<exists>es. holds A log (l_head log) es" using ok by (simp add: log_ok_def pointers_def)
    then show ?thesis using P hd 1 by blast
  next
    case 2
    then obtain i where i: "i < length (l_readers log')" "y = l_readers log' ! i" by (metis in_set_conv_nth)
    then have x: "l_readers log ! i \<in> set (l_readers log)" "P (r_off (snd (l_readers log ! i))) q"
      using rd 2(2) by (auto dest: list_all2_lengthD list_all2_nthD2)
    then have "r_off (snd (l_readers log ! i)) \<in> pointers log" by (simp add: pointers_def)
    then show ?thesis using ok x(2) P unfolding log_ok_def by blast
  qed
qed

lemma logger_aio_write_ok:
  assumes A: "abi_ok A" and E: "env_ok E" and ok: "log_ok A log" and uid: "t_euid t < 2 ^ 32"
    and ki: "sum_list (map snd iov) = ki_left" and pos: "0 < min ki_left (max_payload A)"
  obtains ret log' where "logger_aio_write A E t iov ki_left log = Some (ret, log')" and "log_ok A log'"
    and "(\<exists>m. ret = int (length m) \<and> entry_ok A (logger_header A t ki_left, m) \<and>
        (\<forall>mem. reads_mem E mem \<longrightarrow> m = List.take (max_payload A) (gather mem iov)) \<and>
        appended A log log' (logger_header A t ki_left, m) (l_head log) (l_head log') \<and>
        list_all2 (\<lambda>x y. same_reader x y \<and> appended A log log' (logger_header A t ki_left, m) (r_off (snd x)) (r_off (snd y)))
          (l_readers log) (l_readers log')) \<or>
      ret = -EFAULT \<and> \<not> (\<forall>a n. fst (cfu E a n)) \<and> w_off log' = w_off log \<and> trimmed A log log' (l_head log) (l_head log') \<and>
        list_all2 (\<lambda>x y. same_reader x y \<and> trimmed A log log' (r_off (snd x)) (r_off (snd y))) (l_readers log) (l_readers log')"
proof -
  let ?h = "logger_header A t ki_left"
  have sh: "shape A log" using ok by (simp add: log_ok_def)
  have hl: "le_len ?h = min ki_left (max_payload A)" "le_euid ?h = t_euid t" by (simp_all add: logger_header_def)
  define n where "n = entry_size A + le_len ?h"
  have n: "0 < n" "2 * n \<le> l_size log" using pos sh by (auto simp: n_def hl shape_def)
  obtain h rs where fx: "fix_up_readers A n log = Some (log\<lparr>l_head := h, l_readers := rs\<rparr>)" "pulled A log n (l_head log) h"
    "list_all2 (\<lambda>x y. same_reader x y \<and> pulled A log n (r_off (snd x)) (r_off (snd y))) (l_readers log) rs"
    by (rule fix_up_readers_ok [OF A ok n])
  let ?l1 = "log\<lparr>l_head := h, l_readers := rs\<rparr>"
  have fr: "l_buffer ?l1 = l_buffer log" "w_off ?l1 = w_off log" "l_size ?l1 = l_size log" by simp_all
  have sh1: "shape A ?l1" using sh frame(1) [OF fr] by simp
  have w1: "w_off ?l1 < l_size ?l1" using sh1 by (simp add: shape_def)
  let ?l2 = "do_write_log (enc_entry A ?h) ?l1"
  have enc: "length (enc_entry A ?h) = entry_size A" using A by (simp add: abi_ok_def)
  have "length (enc_entry A ?h) \<le> l_size ?l1" using enc sh1 by (auto simp: shape_def)
  note wr = do_write_log_ok [OF sh1 this]
  have sh2: "shape A ?l2" by (rule written_shape [OF sh1 wr])
  obtain r l3 where segs: "write_segs E (le_len ?h) iov 0 ?l2 = (r, l3)" by fastforce
  have le: "le_len ?h \<le> max_payload A" by (simp add: hl)
  have mn: "min (le_len ?h) ki_left = le_len ?h" by (simp add: hl)
  have fit: "entry_size A + le_len ?h \<le> l_size ?l1" using n by (simp add: n_def)
  have nz: "le_len ?h \<noteq> 0" using pos hl(1) by simp
  have run: "logger_aio_write A E t iov ki_left log =
      (if r < 0 then Some (r, l3\<lparr>w_off := w_off log\<rparr>) else Some (r, l3))"
    using nz fx(1) by (simp add: logger_aio_write_def Let_def segs n_def)
  from write_segs_ok [OF E A sh2 le le0 segs, unfolded ki] show ?thesis
  proof (elim disjE exE conjE)
    fix m assume m: "r = int (0 + length m)" "length m = min (le_len ?h - 0) ki_left" "written ?l2 m l3"
      "\<forall>mem. reads_mem E mem \<longrightarrow> m = List.take (le_len ?h - 0) (gather mem iov)"
    have mm: "m = List.take (max_payload A) (gather mem iov)" if "reads_mem E mem" for mem
    proof -
      have "length (gather mem iov) = ki_left" unfolding ki [symmetric] gather_def by (induction iov) auto
      with m(4) that show ?thesis by (auto simp: hl min_def)
    qed
    have lm: "length m = le_len ?h" using m(2) mn by simp
    let ?e = "(?h, m)"
    have e: "entry_ok A ?e" using lm le uid by (simp add: entry_ok_def hl)
    have "written ?l1 (entry_bytes A ?e) l3"
      using written_trans [OF wr m(3) _ w1] lm enc fit by (simp add: entry_bytes_def)
    note w = this
    have nb: "n = length (entry_bytes A ?e)" by (simp add: n_def entry_bytes_def enc lm)
    have ap: "appended A log l3 ?e p q" if "pulled A log n p q" for p q
      by (rule pulled_appended [OF A sh that fr w e nb])
    have hd: "l_head l3 = h" "l_readers l3 = rs" using w by (simp_all add: written_def scribbled_def)
    have l2: "list_all2 (\<lambda>x y. same_reader x y \<and> appended A log l3 ?e (r_off (snd x)) (r_off (snd y))) (l_readers log) (l_readers l3)"
      using fx(3) unfolding hd by (rule list_all2_mono) (use ap in blast)
    have "log_ok A l3"
      by (rule log_ok_step [OF ok written_shape [OF sh1 w] ap [OF fx(2), folded hd(1)] l2])
        (auto simp: appended_def)
    moreover have "logger_aio_write A E t iov ki_left log = Some (int (length m), l3)" using run m(1) by simp
    ultimately show ?thesis using e ap [OF fx(2)] l2 hd(1) mm by (intro that [of "int (length m)" l3]) auto
  next
    assume bad: "r = -EFAULT" "scribbled ?l2 (le_len ?h - 0) l3" "\<not> (\<forall>a n. fst (cfu E a n))"
    let ?l4 = "l3\<lparr>w_off := w_off log\<rparr>"
    have s: "scribbled ?l1 n l3" using scribbled_trans [OF wr _ _ w1] bad(2) fit enc by (simp add: n_def)
    have tr: "trimmed A log ?l4 p q" if "pulled A log n p q" for p q by (rule pulled_trimmed [OF sh that fr s])
    have hd: "l_head ?l4 = h" "l_readers ?l4 = rs" using s by (simp_all add: scribbled_def)
    have l2: "list_all2 (\<lambda>x y. same_reader x y \<and> trimmed A log ?l4 (r_off (snd x)) (r_off (snd y))) (l_readers log) (l_readers ?l4)"
      using fx(3) unfolding hd by (rule list_all2_mono) (use tr in blast)
    have sh4: "shape A ?l4" using s sh1 by (simp add: shape_def scribbled_def)
    have "log_ok A ?l4"
      by (rule log_ok_step [OF ok sh4 tr [OF fx(2), folded hd(1)] l2]) (auto simp: trimmed_def)
    moreover have "logger_aio_write A E t iov ki_left log = Some (-EFAULT, ?l4)"
      using run bad(1) by (simp add: EFAULT_def)
    ultimately show ?thesis using tr [OF fx(2)] l2 hd(1) bad(3) by (intro that [of "-EFAULT" ?l4]) auto
  qed
qed

end
