(* ===== verification/LoggerProof.thy ===== *)
theory LoggerProof
  imports LoggerWrite
begin

text \<open>
  Reading, polling and control of a log, the device as a state machine over all its operations, and
  the properties of the logger.
\<close>

section \<open>The read operation\<close>

text \<open>The entries a task may read, from the first one that is its own on.\<close>

definition visible :: "logger_task \<Rightarrow> logger_reader \<Rightarrow> (logger_entry \<times> u8 list) list \<Rightarrow> (logger_entry \<times> u8 list) list" where
  "visible t r es = (if r_all r then es else dropWhile (\<lambda>e. le_euid (fst e) \<noteq> t_euid t) es)"

lemma get_next_entry_by_uid_ok:
  assumes A: "abi_ok A" and sh: "shape A log"
  shows "holds A log p es \<Longrightarrow>
    \<exists>q. get_next_entry_by_uid A log p u = Some q \<and> holds A log q (dropWhile (\<lambda>e. le_euid (fst e) \<noteq> u) es)"
proof (induction es arbitrary: p)
  case Nil
  then have "p = w_off log" using holds_Nil_iff [OF A sh Nil] by simp
  with Nil show ?case by (subst get_next_entry_by_uid.simps) simp
next
  case (Cons e es)
  note h = holds_Cons [OF A sh Cons.prems]
  let ?q = "(p + (entry_size A + length (snd e))) mod l_size log"
  have ne: "p \<noteq> w_off log" using holds_Nil_iff [OF A sh Cons.prems] by simp
  have len: "le_len (dec_entry A (get_entry_header A log p)) = length (snd e)"
    using h(2) by (simp add: get_entry_msg_len_def)
  have run: "get_next_entry_by_uid A log p u =
      (if le_euid (fst e) = u then Some p else get_next_entry_by_uid A log ?q u)"
    by (subst get_next_entry_by_uid.simps) (simp add: ne h(3) len shape_offset [OF sh] Let_def)
  show ?case
  proof (cases "le_euid (fst e) = u")
    case True
    then show ?thesis using run Cons.prems by simp
  next
    case False
    then show ?thesis using run Cons.IH [OF h(5)] by simp
  qed
qed

lemma skip_unreadable_ok:
  assumes A: "abi_ok A" and sh: "shape A log" and h: "holds A log (r_off r) es"
  obtains q where "skip_unreadable A t log r = Some (r\<lparr>r_off := q\<rparr>)" and "holds A log q (visible t r es)"
proof (cases "r_all r")
  case True
  then show ?thesis using that [of "r_off r"] h by (simp add: skip_unreadable_def visible_def)
next
  case False
  then show ?thesis
    using that get_next_entry_by_uid_ok [OF A sh h, of "t_euid t"] by (auto simp: skip_unreadable_def visible_def)
qed

definition user_bytes :: "logger_abi \<Rightarrow> logger_reader \<Rightarrow> logger_entry \<times> u8 list \<Rightarrow> u8 list" where
  "user_bytes A r e = user_header A (r_ver r) (enc_entry A (fst e)) @ snd e"

definition user_len :: "logger_abi \<Rightarrow> logger_reader \<Rightarrow> logger_entry \<times> u8 list \<Rightarrow> nat" where
  "user_len A r e = get_user_hdr_len A (r_ver r) + length (snd e)"

lemma do_read_log_to_user_ok:
  assumes A: "abi_ok A" and sh: "shape A log" and h: "holds A log (r_off r) (e # es)"
    and run: "do_read_log_to_user A E log r buf (user_len A r e) = (ret, out, r')"
  shows "ret = -EFAULT \<and> r' = r \<or>
      ret = int (user_len A r e) \<and> out = user_bytes A r e \<and> (\<exists>q. r' = r\<lparr>r_off := q\<rparr> \<and> holds A log q es)"
    and "\<forall>a n. ctu E a n \<Longrightarrow> ret = int (user_len A r e)"
proof -
  note hc = holds_Cons [OF A sh h]
  have sz: "length (l_buffer log) = l_size log" using sh by (simp add: shape_def)
  define ms where "ms = (r_off r + entry_size A) mod l_size log"
  have ms: "ms < l_size log" using holds_less [OF h] by (simp add: ms_def)
  define n where "n = length (snd e)"
  have "entry_ok A e" using h by (simp add: holds_def)
  then have n: "n \<le> l_size log" using sh by (auto simp: n_def entry_ok_def shape_def)
  define len where "len = min n (l_size log - ms)"
  have chunks: "List.take len (drop ms (l_buffer log)) @ (if n \<noteq> len then List.take (n - len) (l_buffer log) else []) = snd e"
    using ring_chunks [OF sz ms n len_def] hc(4) by (simp add: ms_def n_def)
  let ?hl = "get_user_hdr_len A (r_ver r)" and ?hd = "user_header A (r_ver r) (enc_entry A (fst e))"
  have cnt: "user_len A r e - ?hl = n" "n + ?hl = user_len A r e" by (simp_all add: user_len_def n_def)
  have eq: "(ret, out, r') = (if \<not> ctu E buf ?hl then (-EFAULT, [], r)
      else if \<not> ctu E (buf + ?hl) len then (-EFAULT, ?hd, r)
      else if n \<noteq> len \<and> \<not> ctu E (buf + ?hl + len) (n - len) then (-EFAULT, ?hd @ List.take len (drop ms (l_buffer log)), r)
      else (int (user_len A r e), ?hd @ snd e, r\<lparr>r_off := (r_off r + entry_size A + n) mod l_size log\<rparr>))"
    unfolding run [symmetric] do_read_log_to_user_def copy_header_to_user_def Let_def prod.case hc(1) cnt
      shape_offset [OF sh] ms_def [symmetric] len_def [symmetric]
    by (simp add: chunks [symmetric])
  show "ret = -EFAULT \<and> r' = r \<or>
      ret = int (user_len A r e) \<and> out = user_bytes A r e \<and> (\<exists>q. r' = r\<lparr>r_off := q\<rparr> \<and> holds A log q es)"
    using eq hc(5) by (auto simp: user_bytes_def n_def add.assoc split: if_splits)
  show "ret = int (user_len A r e)" if "\<forall>a n. ctu E a n" using eq that by (auto split: if_splits)
qed

lemma set_reader_simps [simp]:
  "l_buffer (set_reader i r log) = l_buffer log" "w_off (set_reader i r log) = w_off log"
  "l_size (set_reader i r log) = l_size log" "l_head (set_reader i r log) = l_head log"
  by (simp_all add: set_reader_def)

lemma set_reader_pointers: "pointers (set_reader i r log) \<subseteq> insert (r_off r) (pointers log)"
  by (fastforce simp: pointers_def set_reader_def image_iff)

lemma map_of_pointer: "map_of (l_readers log) i = Some r \<Longrightarrow> r_off r \<in> pointers log"
  by (auto simp: pointers_def dest!: map_of_SomeD intro!: image_eqI [of _ _ "(i, r)"])

lemma set_reader_ok:
  assumes ok: "log_ok A log" and h: "holds A log (r_off r) es"
  shows "log_ok A (set_reader i r log)"
proof -
  have fr: "l_buffer (set_reader i r log) = l_buffer log" "w_off (set_reader i r log) = w_off log"
    "l_size (set_reader i r log) = l_size log" by simp_all
  show ?thesis
    using ok h set_reader_pointers [of i r log] unfolding log_ok_def frame(1,4) [OF fr] by blast
qed

lemma read_section_ok:
  assumes A: "abi_ok A" and ok: "log_ok A log" and r: "map_of (l_readers log) rid = Some r"
    and h: "holds A log (r_off r) es"
  obtains (none_left) q where "visible t r es = []" and "holds A log q []"
      and "read_section A E t rid buf count log = Some (None, set_reader rid (r\<lparr>r_off := q\<rparr>) log)"
  | (small) q e rest where "visible t r es = e # rest" and "holds A log q (e # rest)" and "count < user_len A r e"
      and "read_section A E t rid buf count log = Some (Some (-EINVAL, []), set_reader rid (r\<lparr>r_off := q\<rparr>) log)"
  | (fault) q e rest out where "visible t r es = e # rest" and "holds A log q (e # rest)" and "\<not> (\<forall>a n. ctu E a n)"
      and "read_section A E t rid buf count log = Some (Some (-EFAULT, out), set_reader rid (r\<lparr>r_off := q\<rparr>) log)"
  | (entry) q e rest where "visible t r es = e # rest" and "holds A log q rest" and "user_len A r e \<le> count"
      and "read_section A E t rid buf count log =
        Some (Some (int (user_len A r e), user_bytes A r e), set_reader rid (r\<lparr>r_off := q\<rparr>) log)"
proof -
  have sh: "shape A log" using ok by (simp add: log_ok_def)
  obtain q where q: "skip_unreadable A t log r = Some (r\<lparr>r_off := q\<rparr>)" "holds A log q (visible t r es)"
    by (rule skip_unreadable_ok [OF A sh h])
  note run = read_section_def r option.case q(1) Option.bind.simps
  show ?thesis
  proof (cases "visible t r es")
    case Nil
    then have "q = w_off log" using holds_Nil_iff [OF A sh q(2)] by simp
    then have "read_section A E t rid buf count log = Some (None, set_reader rid (r\<lparr>r_off := q\<rparr>) log)"
      unfolding run by simp
    with Nil q(2) none_left [of q] show ?thesis by simp
  next
    case (Cons e rest)
    let ?r = "r\<lparr>r_off := q\<rparr>"
    have hq: "holds A log (r_off ?r) (e # rest)" using q(2) Cons by simp
    have ne: "w_off log \<noteq> q" using holds_Nil_iff [OF A sh q(2)] Cons by auto
    have need: "get_user_hdr_len A (r_ver ?r) + get_entry_msg_len A log (r_off ?r) = user_len A ?r e"
      using holds_Cons(2) [OF A sh hq] by (simp add: user_len_def)
    have ul: "user_len A ?r = user_len A r" "user_bytes A ?r = user_bytes A r"
      by (rule ext, simp add: user_len_def user_bytes_def)+
    obtain ret out r' where d: "do_read_log_to_user A E log ?r buf (user_len A ?r e) = (ret, out, r')"
      by (metis prod_cases3)
    have run': "read_section A E t rid buf count log =
        (if count < user_len A r e then Some (Some (-EINVAL, []), set_reader rid ?r log)
         else Some (Some (ret, out), set_reader rid r' log))"
      unfolding run using ne need d by (simp add: ul)
    show ?thesis
    proof (cases "count < user_len A r e")
      case True
      then show ?thesis using run' small [of e rest q] Cons hq by simp
    next
      case False
      from do_read_log_to_user_ok(1) [OF A sh hq d] show ?thesis
      proof (elim disjE conjE exE)
        assume "ret = -EFAULT" "r' = ?r"
        moreover from this have "\<not> (\<forall>a n. ctu E a n)"
          using do_read_log_to_user_ok(2) [OF A sh hq d] by (auto simp: EFAULT_def)
        ultimately show ?thesis using run' False fault [of e rest q out] Cons hq by simp
      next
        fix q' assume "ret = int (user_len A ?r e)" "out = user_bytes A ?r e" "r' = ?r\<lparr>r_off := q'\<rparr>" "holds A log q' rest"
        then show ?thesis using run' False entry [of e rest q'] Cons by (simp add: ul)
      qed
    qed
  qed
qed

lemma read_section_keeps:
  assumes "abi_ok A" and "log_ok A log" and "map_of (l_readers log) rid = Some r"
  obtains res log' where "read_section A E t rid buf count log = Some (res, log')" and "log_ok A log'"
proof -
  obtain es where h: "holds A log (r_off r) es"
    using assms(2) map_of_pointer [OF assms(3)] by (auto simp: log_ok_def)
  have keep: "log_ok A (set_reader rid (r\<lparr>r_off := q\<rparr>) log)" if "holds A log q ds" for q ds
    using set_reader_ok [OF assms(2), of "r\<lparr>r_off := q\<rparr>"] that by simp
  show ?thesis by (rule read_section_ok [OF assms h, of t E buf count]) (use that keep in blast)+
qed

section \<open>Polling and control\<close>

lemma poll_section_ok:
  assumes "abi_ok A" and "log_ok A log" and "map_of (l_readers log) rid = Some r" and "holds A log (r_off r) es"
  obtains q where "poll_section A t rid log = Some (visible t r es \<noteq> [], set_reader rid (r\<lparr>r_off := q\<rparr>) log)"
    and "holds A log q (visible t r es)"
proof -
  have sh: "shape A log" using assms(2) by (simp add: log_ok_def)
  obtain q where q: "skip_unreadable A t log r = Some (r\<lparr>r_off := q\<rparr>)" "holds A log q (visible t r es)"
    by (rule skip_unreadable_ok [OF assms(1) sh assms(4)])
  show ?thesis
    by (rule that [OF _ q(2)]) (use holds_Nil_iff [OF assms(1) sh q(2)] in \<open>auto simp: poll_section_def assms(3) q(1)\<close>)
qed

lemma logger_poll_keeps:
  assumes A: "abi_ok A" and ok: "log_ok A log" and run: "logger_poll A t f log = Some (b, log')"
  shows "log_ok A log'"
proof (cases "fm_read f")
  case True
  then obtain rid where p: "poll_section A t rid log = Some (b, log')"
    using run by (auto simp: logger_poll_def split: file_priv.splits)
  then obtain r where r: "map_of (l_readers log) rid = Some r" by (auto simp: poll_section_def split: option.splits)
  then obtain es where es: "holds A log (r_off r) es" using ok map_of_pointer [OF r] by (auto simp: log_ok_def)
  obtain q where q: "poll_section A t rid log = Some (visible t r es \<noteq> [], set_reader rid (r\<lparr>r_off := q\<rparr>) log)"
    "holds A log q (visible t r es)" by (rule poll_section_ok [OF A ok r es])
  then show ?thesis using set_reader_ok [OF ok, of "r\<lparr>r_off := q\<rparr>"] p by simp
qed (use run ok in \<open>simp add: logger_poll_def\<close>)

lemma flush_log_ok:
  assumes "log_ok A log"
  shows "log_ok A (flush_log log)" and "p \<in> pointers (flush_log log) \<Longrightarrow> holds A (flush_log log) p []"
proof -
  have fr: "l_buffer (flush_log log) = l_buffer log" "w_off (flush_log log) = w_off log"
    "l_size (flush_log log) = l_size log" by (simp_all add: flush_log_def)
  have sh: "shape A log" using assms by (simp add: log_ok_def)
  have w: "holds A log (w_off log) []" using sh dist_0 [of "w_off log" log] by (simp add: shape_def holds_def)
  have p: "pointers (flush_log log) \<subseteq> {w_off log}" by (auto simp: pointers_def flush_log_def)
  then show e: "holds A (flush_log log) p []" if "p \<in> pointers (flush_log log)" for p
    using w that by (auto simp: frame [OF fr])
  show "log_ok A (flush_log log)" using sh e by (auto simp: log_ok_def frame [OF fr])
qed

lemma ioctl_reader_ok:
  assumes A: "abi_ok A" and ok: "log_ok A log" and r: "map_of (l_readers log) rid = Some r"
  obtains ret log' where "ioctl_reader A t rid cmd arg log = Some (ret, log')" and "log_ok A log'"
proof -
  have sh: "shape A log" using ok by (simp add: log_ok_def)
  obtain es where h: "holds A log (r_off r) es" using ok map_of_pointer [OF r] by (auto simp: log_ok_def)
  obtain q where q: "skip_unreadable A t log r = Some (r\<lparr>r_off := q\<rparr>)" "holds A log q (visible t r es)"
    by (rule skip_unreadable_ok [OF A sh h])
  have keep: "log_ok A (set_reader rid (r\<lparr>r_off := q\<rparr>) log)"
    using set_reader_ok [OF ok, of "r\<lparr>r_off := q\<rparr>"] q(2) by simp
  obtain ret r' where v: "logger_set_version r arg = (ret, r')" by fastforce
  have "r_off r' = r_off r" using v by (auto simp: logger_set_version_def split: option.splits if_splits)
  then have "log_ok A (set_reader rid r' log)" using set_reader_ok [OF ok, of r' es] h by simp
  then show ?thesis using that keep ok by (cases cmd) (auto simp: ioctl_reader_def r q(1) v)
qed

lemma logger_ioctl_ok:
  assumes A: "abi_ok A" and ok: "log_ok A log"
    and f: "fm_read f \<Longrightarrow> \<exists>l rid r. private_data f = ReaderOf l rid \<and> map_of (l_readers log) rid = Some r"
  obtains ret log' where "logger_ioctl A t f cmd arg log = Some (ret, log')" and "log_ok A log'"
proof -
  have rd: "\<exists>ret log'. (case private_data f of ReaderOf l rid \<Rightarrow> ioctl_reader A t rid c arg log | LogOf l \<Rightarrow> None) =
      Some (ret, log') \<and> log_ok A log'" if read: "fm_read f" for c
  proof -
    obtain l rid r where p: "private_data f = ReaderOf l rid" "map_of (l_readers log) rid = Some r" using f read by blast
    show ?thesis by (rule ioctl_reader_ok [OF A ok p(2), of t c arg]) (use p(1) in auto)
  qed
  have "\<exists>ret log'. logger_ioctl A t f cmd arg log = Some (ret, log') \<and> log_ok A log'"
    using ok rd flush_log_ok(1) [OF ok] by (cases cmd) (simp_all add: logger_ioctl_def)
  then show ?thesis using that by blast
qed

lemma logger_ioctl_keeps:
  assumes A: "abi_ok A" and ok: "log_ok A log" and run: "logger_ioctl A t f cmd arg log = Some (ret, log')"
  shows "log_ok A log'"
proof -
  have one: "log_ok A log'" if run1: "ioctl_reader A t rid cmd arg log = Some (ret, log')" for rid
  proof -
    obtain r where "map_of (l_readers log) rid = Some r"
      using run1 by (auto simp: ioctl_reader_def split: option.splits)
    from ioctl_reader_ok [OF A ok this, of t cmd arg] run1 show ?thesis by (metis option.inject prod.inject)
  qed
  show ?thesis
    using run ok flush_log_ok(1) [OF ok] one
    by (cases cmd) (auto simp: logger_ioctl_def split: if_splits file_priv.splits)
qed

section \<open>The device as a state machine\<close>

inductive dev_step :: "logger_abi \<Rightarrow> logger_env \<Rightarrow> logger_dev \<Rightarrow> logger_dev \<Rightarrow> bool" for A E where
  step_init: "logger_init E m e r s dev = (ret, dev') \<Longrightarrow> dev_step A E dev dev'"
| step_exit: "logger_exit dev = Some dev' \<Longrightarrow> dev_step A E dev dev'"
| step_open: "logger_open t ns minor rd wr nb dev = Some (ret, f, dev') \<Longrightarrow> dev_step A E dev dev'"
| step_release: "logger_release f dev = Some (ret, dev') \<Longrightarrow> dev_step A E dev dev'"
| step_write: "log_mem dev l = Some log \<Longrightarrow> sum_list (map snd iov) = ki_left \<Longrightarrow> t_euid t < 2 ^ 32 \<Longrightarrow>
    logger_aio_write A E t iov ki_left log = Some (ret, log') \<Longrightarrow> dev_step A E dev (set_log l log' dev)"
| step_read: "log_mem dev l = Some log \<Longrightarrow> read_section A E t rid buf count log = Some (res, log') \<Longrightarrow>
    dev_step A E dev (set_log l log' dev)"
| step_poll: "log_mem dev l = Some log \<Longrightarrow> logger_poll A t f log = Some (b, log') \<Longrightarrow>
    dev_step A E dev (set_log l log' dev)"
| step_ioctl: "log_mem dev l = Some log \<Longrightarrow> logger_ioctl A t f cmd arg log = Some (ret, log') \<Longrightarrow>
    dev_step A E dev (set_log l log' dev)"

inductive dev_reach :: "logger_abi \<Rightarrow> logger_env \<Rightarrow> logger_dev \<Rightarrow> bool" for A E where
  reach_start: "log_mem dev = (\<lambda>_. None) \<Longrightarrow> log_list dev = [] \<Longrightarrow> dev_reach A E dev"
| reach_step: "dev_reach A E dev \<Longrightarrow> dev_step A E dev dev' \<Longrightarrow> dev_reach A E dev'"

definition dev_ok :: "logger_abi \<Rightarrow> logger_dev \<Rightarrow> bool" where
  "dev_ok A dev \<longleftrightarrow> (\<forall>l log. log_mem dev l = Some log \<longrightarrow> log_ok A log)"

lemma dev_ok_set: "dev_ok A dev \<Longrightarrow> log_ok A log \<Longrightarrow> dev_ok A (set_log l log dev)"
  by (simp add: dev_ok_def set_log_def)

lemma same_frame_ok:
  assumes "log_ok A log" and "l_buffer log' = l_buffer log" "w_off log' = w_off log" "l_size log' = l_size log"
    and "pointers log' \<subseteq> pointers log"
  shows "log_ok A log'"
  using assms(1,5) frame(1,4) [OF assms(2-4)] by (auto simp: log_ok_def)

lemma create_log_ok:
  assumes E: "env_ok E" and sz: "2 * (entry_size A + max_payload A) \<le> LOG_BYTES" and ok: "dev_ok A dev"
    and run: "create_log E LOG_BYTES reg dev = (ret, dev')"
  shows "dev_ok A dev'"
proof -
  have new: "log_ok A \<lparr>l_buffer = fresh E LOG_BYTES, l_minor = m, l_readers = [], w_off = 0, l_head = 0, l_size = LOG_BYTES\<rparr>"
    (is "log_ok A ?log") for m
  proof -
    have "\<exists>k. LOG_BYTES = 2 ^ k" "0 < LOG_BYTES" by (rule exI [of _ 21]) (simp_all add: LOG_BYTES_def)
    then have "shape A ?log" using sz E by (auto simp: shape_def env_ok_def)
    moreover have "holds A ?log 0 []" by (simp add: holds_def dist_def LOG_BYTES_def)
    ultimately show ?thesis by (auto simp: log_ok_def pointers_def)
  qed
  show ?thesis
    using run ok new by (auto simp: create_log_def dev_ok_def set_log_def Let_def split: prod.splits if_splits)
qed

lemma create_logs_ok:
  assumes E: "env_ok E" and sz: "2 * (entry_size A + max_payload A) \<le> LOG_BYTES"
  shows "dev_ok A dev \<Longrightarrow> create_logs E regs dev = (ret, dev') \<Longrightarrow> dev_ok A dev'"
proof (induction regs arbitrary: dev)
  case (Cons reg regs)
  obtain r1 dev1 where one: "create_log E LOG_BYTES reg dev = (r1, dev1)" by fastforce
  note ok1 = create_log_ok [OF E sz Cons.prems(1) one]
  show ?case using Cons.prems(2) Cons.IH [OF ok1] ok1 by (auto simp: one split: if_splits)
qed simp

lemma logger_exit_loop_ok: "dev_ok A dev \<Longrightarrow> logger_exit_loop ls dev = Some dev' \<Longrightarrow> dev_ok A dev'"
proof (induction ls arbitrary: dev)
  case (Cons l ls)
  have "dev_ok A (dev\<lparr>log_list := removeAll l (log_list dev), log_mem := (log_mem dev)(l := None)\<rparr>)"
    using Cons.prems(1) by (simp add: dev_ok_def)
  from Cons.IH [OF this] Cons.prems(2) show ?case by (simp split: option.splits)
qed simp

lemma logger_open_ok:
  assumes "dev_ok A dev" and "logger_open t ns minor rd wr nb dev = Some (ret, f, dev')"
  shows "dev_ok A dev'"
proof -
  have add: "log_ok A (log\<lparr>l_readers := l_readers log @ [(rid, \<lparr>r_off = l_head log, r_all = a, r_ver = 1\<rparr>)]\<rparr>)"
    if "log_mem dev l = Some log" for l log rid a
    by (rule same_frame_ok [of A log]) (use assms(1) that in \<open>auto simp: dev_ok_def pointers_def\<close>)
  show ?thesis
    using assms add
    by (auto simp: logger_open_def dev_ok_def set_log_def Let_def split: if_splits option.splits prod.splits bind_splits)
qed

lemma logger_release_ok:
  assumes "dev_ok A dev" and "logger_release f dev = Some (ret, dev')"
  shows "dev_ok A dev'"
proof -
  have del: "log_ok A (log\<lparr>l_readers := filter P (l_readers log)\<rparr>)" if "log_mem dev l = Some log" for l log P
    by (rule same_frame_ok [of A log]) (use assms(1) that in \<open>auto simp: dev_ok_def pointers_def\<close>)
  show ?thesis
    using assms del by (auto simp: logger_release_def dev_ok_def set_log_def split: file_priv.splits if_splits bind_splits)
qed

lemma dev_step_ok:
  assumes A: "abi_ok A" and E: "env_ok E" and sz: "2 * (entry_size A + max_payload A) \<le> LOG_BYTES"
  shows "dev_step A E dev dev' \<Longrightarrow> dev_ok A dev \<Longrightarrow> dev_ok A dev'"
proof (induction rule: dev_step.induct)
  case (step_init m e r s dev ret dev')
  then show ?case unfolding logger_init_def by (intro create_logs_ok [OF E sz step_init(2)])
next
  case (step_exit dev dev')
  then show ?case using logger_exit_loop_ok by (simp add: logger_exit_def)
next
  case (step_open t ns minor rd wr nb dev ret f dev')
  then show ?case using logger_open_ok by blast
next
  case (step_release f dev ret dev')
  then show ?case using logger_release_ok by blast
next
  case (step_write dev l log iov ki_left t ret log')
  then have ok: "log_ok A log" by (auto simp: dev_ok_def)
  have "log_ok A log'"
  proof (cases "0 < min ki_left (max_payload A)")
    case True
    from logger_aio_write_ok [OF A E ok step_write(3,2) True] step_write(4) show ?thesis by (metis option.inject prod.inject)
  next
    case False
    then show ?thesis using step_write(4) ok by (auto simp: logger_aio_write_def logger_header_def)
  qed
  with step_write show ?case by (simp add: dev_ok_set)
next
  case (step_read dev l log t rid buf count res log')
  then have ok: "log_ok A log" by (auto simp: dev_ok_def)
  obtain r where r: "map_of (l_readers log) rid = Some r"
    using step_read(2) by (auto simp: read_section_def split: option.splits)
  from read_section_keeps [OF A ok r, of E t buf count] step_read(2) have "log_ok A log'"
    by (metis option.inject prod.inject)
  with step_read show ?case by (simp add: dev_ok_set)
next
  case (step_poll dev l log t f b log')
  then have ok: "log_ok A log" by (auto simp: dev_ok_def)
  have "log_ok A log'" by (rule logger_poll_keeps [OF A ok step_poll(2)])
  with step_poll show ?case by (simp add: dev_ok_set)
next
  case (step_ioctl dev l log t f cmd arg ret log')
  then have ok: "log_ok A log" by (auto simp: dev_ok_def)
  with step_ioctl show ?case using logger_ioctl_keeps [OF A ok] by (simp add: dev_ok_set)
qed

lemma dev_reach_ok:
  assumes "abi_ok A" and "env_ok E" and "2 * (entry_size A + max_payload A) \<le> LOG_BYTES"
  shows "dev_reach A E dev \<Longrightarrow> dev_ok A dev"
proof (induction rule: dev_reach.induct)
  case (reach_step dev dev')
  then show ?case using dev_step_ok [OF assms] by blast
qed (simp add: dev_ok_def)

section \<open>Lookups across a write\<close>

lemma map_of_related:
  "list_all2 (\<lambda>x y. same_reader x y \<and> P (r_off (snd x)) (r_off (snd y))) rs rs' \<Longrightarrow> map_of rs i = Some r \<Longrightarrow>
     \<exists>r'. map_of rs' i = Some r' \<and> r_all r' = r_all r \<and> r_ver r' = r_ver r \<and> P (r_off r) (r_off r')"
proof (induction rule: list_all2_induct)
  case (Cons x xs y ys)
  then show ?case by (cases x; cases y) (auto simp: same_reader_def split: if_splits)
qed simp

lemma map_of_set_reader:
  "map_of (l_readers log) i = Some r \<Longrightarrow> map_of (l_readers (set_reader i r' log)) i = Some r'"
proof -
  have "map_of rs i = Some r \<Longrightarrow> map_of (map (\<lambda>(j, q). if j = i then (j, r') else (j, q)) rs) i = Some r'" for rs
    by (induction rs) (auto split: if_splits)
  then show "map_of (l_readers log) i = Some r \<Longrightarrow> map_of (l_readers (set_reader i r' log)) i = Some r'"
    by (simp add: set_reader_def)
qed

lemma caught_up: "abi_ok A \<Longrightarrow> shape A log \<Longrightarrow> holds A log p [] \<Longrightarrow> p = w_off log"
  using holds_Nil_iff by blast

lemma holds_w_off: "shape A log \<Longrightarrow> holds A log (w_off log) []"
  using dist_0 [of "w_off log" log] by (simp add: shape_def holds_def)

section \<open>An instance\<close>

definition demo_abi :: logger_abi where
  "demo_abi = \<lparr>entry_size = 5, compat_size = 1, max_payload = 10,
     enc_entry = (\<lambda>h. [of_nat (le_len h), of_nat (le_euid h), of_nat (le_euid h div 256), of_nat (le_euid h div 256 ^ 2),
       of_nat (le_euid h div 256 ^ 3)]),
     dec_entry = (\<lambda>bs. \<lparr>le_len = unat (bs ! 0), le_hdr_size = 5, le_pid = 0, le_tid = 0, le_sec = 0, le_nsec = 0,
       le_euid = unat (bs ! 1) + 256 * (unat (bs ! 2) + 256 * (unat (bs ! 3) + 256 * unat (bs ! 4)))\<rparr>),
     enc_compat = (\<lambda>v. [of_nat (v1_len v)])\<rparr>"

definition demo_io :: logger_env where
  "demo_io = \<lparr>ctu = (\<lambda>a n. True), cfu = (\<lambda>a n. (True, map (\<lambda>i. of_nat i) [a..<a + n])), fresh = (\<lambda>n. replicate n 0)\<rparr>"

definition demo_task :: logger_task where
  "demo_task = \<lparr>t_tgid = 1, t_pid = 1, t_euid = 3, t_sec = 0, t_nsec = 0, t_syslog = True\<rparr>"

definition demo_reader :: logger_reader where
  "demo_reader = \<lparr>r_off = 0, r_all = True, r_ver = 1\<rparr>"

definition demo_log :: "nat \<Rightarrow> logger_log" where
  "demo_log sz = \<lparr>l_buffer = replicate sz 0, l_minor = 0, l_readers = [(7, demo_reader)], w_off = 0, l_head = 0, l_size = sz\<rparr>"

lemma bytes4:
  assumes "n < 2 ^ 32"
  shows "n mod 256 + 256 * (n div 256 mod 256 + 256 * (n div 256 ^ 2 mod 256 + 256 * (n div 256 ^ 3 mod 256))) = (n :: nat)"
proof -
  have "n div 256 ^ 3 < 256" using assms by (simp add: less_mult_imp_div_less)
  then have "n div 256 ^ 3 mod 256 = n div 256 ^ 3" by simp
  moreover have "n div 256 ^ 3 = n div 256 ^ 2 div 256" "n div 256 ^ 2 = n div 256 div 256"
    by (simp_all add: div_mult2_eq [symmetric])
  ultimately show ?thesis by (simp only: mod_mult_div_eq)
qed

lemma demo_abi_ok: "abi_ok demo_abi"
  using bytes4 by (auto simp: abi_ok_def demo_abi_def unat_of_nat)

lemma demo_io_ok: "env_ok demo_io" "reads_mem demo_io of_nat" "ctu demo_io a n"
  by (simp_all add: env_ok_def reads_mem_def demo_io_def)

lemma demo_log_ok: "log_ok demo_abi (demo_log 32)"
proof -
  have "\<exists>k. (32::nat) = 2 ^ k" by (rule exI [of _ 5]) simp
  then have sh: "shape demo_abi (demo_log 32)" by (simp add: shape_def demo_log_def demo_abi_def)
  have p: "pointers (demo_log 32) = {w_off (demo_log 32)}" by (auto simp: pointers_def demo_log_def demo_reader_def)
  show ?thesis unfolding log_ok_def p using sh holds_w_off [OF sh] by blast
qed

lemma write_nothing: "min ki_left (max_payload A) = 0 \<Longrightarrow> logger_aio_write A E t iov ki_left log = Some (0, log)"
  by (simp add: logger_aio_write_def logger_header_def)

section \<open>Properties\<close>

text \<open>
  C16: in every state the logger can reach, from any sequence of initialisations, opens, writes, reads,
  polls, control calls, releases and exits on any logs, each live log is well-formed: from the head and
  from the offset of every reader the ring holds whole entries up to the write offset. So no write
  loops for ever or reads outside the buffer while it pulls readers, and no read does while it looks
  for an entry.
\<close>

theorem logger_reach_safe:
  assumes A: "abi_ok A" and E: "env_ok E" and sz: "2 * (entry_size A + max_payload A) \<le> LOG_BYTES"
    and reach: "dev_reach A E dev" and log: "log_mem dev l = Some log"
  shows "log_ok A log \<and>
    (\<forall>t iov. t_euid t < 2 ^ 32 \<longrightarrow> logger_aio_write A E t iov (sum_list (map snd iov)) log \<noteq> None) \<and>
    (\<forall>t rid buf count. map_of (l_readers log) rid \<noteq> None \<longrightarrow> read_section A E t rid buf count log \<noteq> None)"
proof (intro conjI allI impI)
  show ok: "log_ok A log" using dev_reach_ok [OF A E sz reach] log by (auto simp: dev_ok_def)
  fix t rid buf count assume "map_of (l_readers log) rid \<noteq> None"
  then obtain r where "map_of (l_readers log) rid = Some r" by blast
  from read_section_keeps [OF A ok this, of E t buf count]
  show "read_section A E t rid buf count log \<noteq> None" by blast
next
  have ok: "log_ok A log" using dev_reach_ok [OF A E sz reach] log by (auto simp: dev_ok_def)
  fix t :: logger_task and iov :: "(nat \<times> nat) list" assume uid: "t_euid t < 2 ^ 32"
  show "logger_aio_write A E t iov (sum_list (map snd iov)) log \<noteq> None"
  proof (cases "0 < min (sum_list (map snd iov)) (max_payload A)")
    case True
    from logger_aio_write_ok [OF A E ok uid refl True] show ?thesis by blast
  next
    case False
    then have "min (sum_list (map snd iov)) (max_payload A) = 0" by linarith
    from write_nothing [OF this] show ?thesis by simp
  qed
qed

definition demo_dev :: logger_dev where
  "demo_dev = \<lparr>log_list = [], log_mem = (\<lambda>_. None), dev_brk = 0, dev_allocs = []\<rparr>"

definition demo_dev1 :: logger_dev where
  "demo_dev1 = snd (logger_init demo_io (0, 60) (0, 61) (0, 62) (0, 63) demo_dev)"

definition demo_main :: logger_log where
  "demo_main = \<lparr>l_buffer = fresh demo_io LOG_BYTES, l_minor = 60, l_readers = [], w_off = 0, l_head = 0, l_size = LOG_BYTES\<rparr>"

lemma demo_dev1_main: "log_mem demo_dev1 0 = Some demo_main"
  by (simp add: demo_dev1_def logger_init_def create_log_def Let_def demo_dev_def set_log_def demo_main_def)

lemma demo_dev1_reach: "dev_reach demo_abi demo_io demo_dev1"
proof (rule reach_step)
  show "dev_reach demo_abi demo_io demo_dev" by (rule reach_start) (simp_all add: demo_dev_def)
  show "dev_step demo_abi demo_io demo_dev demo_dev1"
    by (rule step_init [where ret = "fst (logger_init demo_io (0, 60) (0, 61) (0, 62) (0, 63) demo_dev)"])
      (simp add: demo_dev1_def)
qed

theorem logger_reach_safe_witness:
  "log_ok demo_abi demo_main \<and> logger_aio_write demo_abi demo_io demo_task [(40, 2), (50, 3)] 5 demo_main \<noteq> None"
proof -
  have "2 * (entry_size demo_abi + max_payload demo_abi) \<le> LOG_BYTES" by (simp add: demo_abi_def LOG_BYTES_def)
  from logger_reach_safe [OF demo_abi_ok demo_io_ok(1) this demo_dev1_reach demo_dev1_main]
  have ok: "log_ok demo_abi demo_main"
    and w: "t_euid demo_task < 2 ^ 32 \<longrightarrow>
      logger_aio_write demo_abi demo_io demo_task [(40, 2), (50, 3)] (sum_list (map snd [(40 :: nat, 2), (50, 3)])) demo_main \<noteq> None"
    by blast+
  have "sum_list (map snd [(40 :: nat, 2), (50, 3)]) = (5 :: nat)" "t_euid demo_task < 2 ^ 32" by (simp_all add: demo_task_def)
  with w ok show ?thesis by metis
qed

text \<open>
  C6: a write to a well-formed log either appends one entry, made of the header for the task and the
  first \<open>max_payload\<close> bytes of the segments, to what the head and every reader have to read, dropping
  only old entries from the front and none where the log has room; or it fails with \<open>-EFAULT\<close>, which
  needs user memory that cannot be read, and appends nothing.
\<close>

theorem logger_write_appends:
  assumes A: "abi_ok A" and E: "env_ok E" and ok: "log_ok A log" and uid: "t_euid t < 2 ^ 32"
    and ki: "sum_list (map snd iov) = ki_left" and pos: "0 < min ki_left (max_payload A)"
    and rd: "map_of (l_readers log) rid = Some r" and h: "holds A log (r_off r) es"
  shows "\<exists>ret log' r' k. logger_aio_write A E t iov ki_left log = Some (ret, log') \<and> log_ok A log' \<and>
    map_of (l_readers log') rid = Some r' \<and> r_all r' = r_all r \<and> r_ver r' = r_ver r \<and>
    ((\<exists>m. ret = int (length m) \<and> length m = min ki_left (max_payload A) \<and>
        (\<forall>mem. reads_mem E mem \<longrightarrow> m = List.take (max_payload A) (gather mem iov)) \<and>
        holds A log' (r_off r') (drop k es @ [(logger_header A t ki_left, m)]) \<and>
        (dist log (r_off r) + entry_size A + length m < l_size log \<longrightarrow> k = 0)) \<or>
     ret = -EFAULT \<and> \<not> (\<forall>a n. fst (cfu E a n)) \<and> holds A log' (r_off r') (drop k es))"
proof -
  obtain ret log' where w: "logger_aio_write A E t iov ki_left log = Some (ret, log')" "log_ok A log'"
    and c: "(\<exists>m. ret = int (length m) \<and> entry_ok A (logger_header A t ki_left, m) \<and>
        (\<forall>mem. reads_mem E mem \<longrightarrow> m = List.take (max_payload A) (gather mem iov)) \<and>
        appended A log log' (logger_header A t ki_left, m) (l_head log) (l_head log') \<and>
        list_all2 (\<lambda>x y. same_reader x y \<and> appended A log log' (logger_header A t ki_left, m) (r_off (snd x)) (r_off (snd y)))
          (l_readers log) (l_readers log')) \<or>
      ret = -EFAULT \<and> \<not> (\<forall>a n. fst (cfu E a n)) \<and> w_off log' = w_off log \<and> trimmed A log log' (l_head log) (l_head log') \<and>
        list_all2 (\<lambda>x y. same_reader x y \<and> trimmed A log log' (r_off (snd x)) (r_off (snd y))) (l_readers log) (l_readers log')"
    by (rule logger_aio_write_ok [OF A E ok uid ki pos])
  from c show ?thesis
  proof (elim disjE exE conjE)
    fix m
    assume m: "ret = int (length m)" "entry_ok A (logger_header A t ki_left, m)"
      "\<forall>mem. reads_mem E mem \<longrightarrow> m = List.take (max_payload A) (gather mem iov)"
      "list_all2 (\<lambda>x y. same_reader x y \<and> appended A log log' (logger_header A t ki_left, m) (r_off (snd x)) (r_off (snd y)))
          (l_readers log) (l_readers log')"
    from map_of_related [OF m(4) rd] obtain r' where r': "map_of (l_readers log') rid = Some r'" "r_all r' = r_all r"
      "r_ver r' = r_ver r" "appended A log log' (logger_header A t ki_left, m) (r_off r) (r_off r')" by blast
    have len: "length m = min ki_left (max_payload A)" using m(2) by (simp add: entry_ok_def logger_header_def)
    have "length (entry_bytes A (logger_header A t ki_left, m)) = entry_size A + length m"
      using A by (simp add: entry_bytes_def abi_ok_def)
    with r'(4) h obtain k where "holds A log' (r_off r') (drop k es @ [(logger_header A t ki_left, m)])"
      "dist log (r_off r) + entry_size A + length m < l_size log \<longrightarrow> k = 0" by (auto simp: appended_def add.assoc)
    with w r' m(1,3) len show ?thesis by blast
  next
    assume f: "ret = -EFAULT" "\<not> (\<forall>a n. fst (cfu E a n))"
      "list_all2 (\<lambda>x y. same_reader x y \<and> trimmed A log log' (r_off (snd x)) (r_off (snd y))) (l_readers log) (l_readers log')"
    from map_of_related [OF f(3) rd] obtain r' where r': "map_of (l_readers log') rid = Some r'" "r_all r' = r_all r"
      "r_ver r' = r_ver r" "trimmed A log log' (r_off r) (r_off r')" by blast
    from r'(4) h obtain k where "holds A log' (r_off r') (drop k es)" by (auto simp: trimmed_def)
    with w r' f show ?thesis by blast
  qed
qed

lemma demo_log_reader: "map_of (l_readers (demo_log 32)) 7 = Some demo_reader" "holds demo_abi (demo_log 32) (r_off demo_reader) []"
proof -
  have "shape demo_abi (demo_log 32)" using demo_log_ok by (simp add: log_ok_def)
  from holds_w_off [OF this] show "holds demo_abi (demo_log 32) (r_off demo_reader) []"
    by (simp add: demo_log_def demo_reader_def)
qed (simp add: demo_log_def)

theorem logger_write_appends_witness:
  "\<exists>ret log' r' k. logger_aio_write demo_abi demo_io demo_task [(40, 2), (50, 3)] 5 (demo_log 32) = Some (ret, log') \<and>
    log_ok demo_abi log' \<and> map_of (l_readers log') 7 = Some r' \<and> r_all r' = r_all demo_reader \<and> r_ver r' = r_ver demo_reader \<and>
    ((\<exists>m. ret = int (length m) \<and> length m = min 5 (max_payload demo_abi) \<and>
        (\<forall>mem. reads_mem demo_io mem \<longrightarrow> m = List.take (max_payload demo_abi) (gather mem [(40, 2), (50, 3)])) \<and>
        holds demo_abi log' (r_off r') (drop k [] @ [(logger_header demo_abi demo_task 5, m)]) \<and>
        (dist (demo_log 32) (r_off demo_reader) + entry_size demo_abi + length m < l_size (demo_log 32) \<longrightarrow> k = 0)) \<or>
     ret = -EFAULT \<and> \<not> (\<forall>a n. fst (cfu demo_io a n)) \<and> holds demo_abi log' (r_off r') (drop k []))"
  by (rule logger_write_appends [OF demo_abi_ok demo_io_ok(1) demo_log_ok _ _ _ demo_log_reader])
    (simp_all add: demo_task_def demo_abi_def)

text \<open>
  C23: what is written is what is read. When a reader has read everything, then after a write any read
  with a large enough buffer, by a task that may read the entry, returns the header of the writer in
  the reader's version followed by the bytes of the segments, cut at the maximal payload, and the
  reader has read everything again.
\<close>

theorem logger_write_then_read:
  assumes A: "abi_ok A" and E: "env_ok E" and mem: "reads_mem E mem" "\<forall>a n. ctu E a n" and ok: "log_ok A log"
    and uid: "t_euid t < 2 ^ 32" and ki: "sum_list (map snd iov) = ki_left" and pos: "0 < min ki_left (max_payload A)"
    and rd: "map_of (l_readers log) rid = Some r" "r_off r = w_off log"
    and own: "r_all r \<or> t_euid t' = t_euid t"
    and payload: "payload = List.take (max_payload A) (gather mem iov)"
    and header: "header = logger_header A t ki_left"
    and count: "get_user_hdr_len A (r_ver r) + length payload \<le> count"
  shows "\<exists>log1 log2 r2. logger_aio_write A E t iov ki_left log = Some (int (length payload), log1) \<and>
    logger_read A E t' rid nonblock buf count [(\<lambda>l. l, signal)] log1 =
      Some (int (get_user_hdr_len A (r_ver r) + length payload), user_header A (r_ver r) (enc_entry A header) @ payload, log2) \<and>
    map_of (l_readers log2) rid = Some r2 \<and> r_off r2 = w_off log2 \<and> log_ok A log2"
proof -
  have sh: "shape A log" using ok by (simp add: log_ok_def)
  have h: "holds A log (r_off r) []" using holds_w_off [OF sh] rd(2) by simp
  have cf: "\<forall>a n. fst (cfu E a n)" using mem(1) by (simp add: reads_mem_def)
  obtain ret log1 where w: "logger_aio_write A E t iov ki_left log = Some (ret, log1)" "log_ok A log1"
    and c: "(\<exists>m. ret = int (length m) \<and> entry_ok A (header, m) \<and> (\<forall>mem. reads_mem E mem \<longrightarrow> m = List.take (max_payload A) (gather mem iov)) \<and>
        appended A log log1 (header, m) (l_head log) (l_head log1) \<and>
        list_all2 (\<lambda>x y. same_reader x y \<and> appended A log log1 (header, m) (r_off (snd x)) (r_off (snd y)))
          (l_readers log) (l_readers log1)) \<or> \<not> (\<forall>a n. fst (cfu E a n))"
    by (rule logger_aio_write_ok [OF A E ok uid ki pos, folded header]) blast
  from c mem(1) cf obtain p: "ret = int (length payload)" "entry_ok A (header, payload)"
    "list_all2 (\<lambda>x y. same_reader x y \<and> appended A log log1 (header, payload) (r_off (snd x)) (r_off (snd y)))
          (l_readers log) (l_readers log1)" unfolding payload by blast
  from map_of_related [OF p(3) rd(1)] obtain r1 where r1: "map_of (l_readers log1) rid = Some r1" "r_all r1 = r_all r"
    "r_ver r1 = r_ver r" "appended A log log1 (header, payload) (r_off r) (r_off r1)" by blast
  from r1(4) h have h1: "holds A log1 (r_off r1) [(header, payload)]" by (auto simp: appended_def)
  have sh1: "shape A log1" using w(2) by (simp add: log_ok_def)
  have ne: "w_off log1 \<noteq> r_off r1" using holds_Nil_iff [OF A sh1 h1] by auto
  have vis: "visible t' r1 [(header, payload)] = [(header, payload)]"
    using own by (auto simp: visible_def r1(2) header logger_header_def)
  have ul: "user_len A r1 (header, payload) = get_user_hdr_len A (r_ver r) + length payload"
    "user_bytes A r1 (header, payload) = user_header A (r_ver r) (enc_entry A header) @ payload"
    by (simp_all add: user_len_def user_bytes_def r1(3))
  have "\<exists>q. holds A log1 q [] \<and> read_section A E t' rid buf count log1 =
      Some (Some (int (user_len A r1 (header, payload)), user_bytes A r1 (header, payload)), set_reader rid (r1\<lparr>r_off := q\<rparr>) log1)"
  proof (rule read_section_ok [OF A w(2) r1(1) h1, of t' E buf count])
    fix q e rest
    assume "visible t' r1 [(header, payload)] = e # rest" and "holds A log1 q rest" and
      "read_section A E t' rid buf count log1 = Some (Some (int (user_len A r1 e), user_bytes A r1 e),
        set_reader rid (r1\<lparr>r_off := q\<rparr>) log1)"
    then show ?thesis using vis by auto
  next
    fix q e rest
    assume "visible t' r1 [(header, payload)] = e # rest" "count < user_len A r1 e"
    then show ?thesis using vis count ul(1) by auto
  qed (use vis mem(2) in auto)
  then obtain q where q: "holds A log1 q []" "read_section A E t' rid buf count log1 =
      Some (Some (int (user_len A r1 (header, payload)), user_bytes A r1 (header, payload)), set_reader rid (r1\<lparr>r_off := q\<rparr>) log1)"
    by blast
  let ?log2 = "set_reader rid (r1\<lparr>r_off := q\<rparr>) log1"
  have "logger_read A E t' rid nonblock buf count [(\<lambda>l. l, signal)] log1 =
      Some (int (get_user_hdr_len A (r_ver r) + length payload), user_header A (r_ver r) (enc_entry A header) @ payload, ?log2)"
    using ne r1(1) by (simp add: q(2) ul)
  moreover have "map_of (l_readers ?log2) rid = Some (r1\<lparr>r_off := q\<rparr>)" by (rule map_of_set_reader [OF r1(1)])
  moreover have "q = w_off ?log2" using caught_up [OF A sh1 q(1)] by simp
  moreover have "log_ok A ?log2" by (rule set_reader_ok [OF w(2)]) (use q(1) in simp)
  ultimately show ?thesis using w(1) p(1) by (intro exI [of _ log1] exI [of _ ?log2] exI [of _ "r1\<lparr>r_off := q\<rparr>"]) simp
qed

theorem logger_write_then_read_witness:
  "\<exists>log1 log2 r2. logger_aio_write demo_abi demo_io demo_task [(40, 2), (50, 1)] 3 (demo_log 32) =
      Some (int (length ([40, 41, 50] :: u8 list)), log1) \<and>
    logger_read demo_abi demo_io demo_task 7 True 0 9 [(\<lambda>l. l, False)] log1 =
      Some (int (get_user_hdr_len demo_abi (r_ver demo_reader) + length ([40, 41, 50] :: u8 list)),
        user_header demo_abi (r_ver demo_reader) (enc_entry demo_abi (logger_header demo_abi demo_task 3)) @ [40, 41, 50], log2) \<and>
    map_of (l_readers log2) 7 = Some r2 \<and> r_off r2 = w_off log2 \<and> log_ok demo_abi log2"
  by (rule logger_write_then_read [OF demo_abi_ok demo_io_ok(1) demo_io_ok(2) _ demo_log_ok _ _ _ demo_log_reader(1)])
    (simp_all add: demo_io_ok(3) demo_task_def demo_abi_def demo_log_def demo_reader_def gather_def get_user_hdr_len_def
      upt_conv_Cons)

lemma length_user_bytes: "abi_ok A \<Longrightarrow> length (user_bytes A r e) = user_len A r e"
  by (simp add: user_bytes_def user_len_def user_header_def get_user_hdr_len_def abi_ok_def Let_def)

lemma visible_visible: "visible t (r\<lparr>r_off := q\<rparr>) (visible t r es) = visible t r es"
proof -
  have "dropWhile P (dropWhile P xs) = dropWhile P xs" for P and xs :: "(logger_entry \<times> u8 list) list"
    by (induction xs) auto
  then show ?thesis by (simp add: visible_def)
qed

lemma holds_set_reader [simp]: "holds A (set_reader i r log) = holds A log"
  by (rule frame) simp_all

lemma user_len_off [simp]: "user_len A (r\<lparr>r_off := q\<rparr>) = user_len A r"
  by (rule ext) (simp add: user_len_def)

text \<open>
  The length of the next entry. After \<open>LOGGER_GET_NEXT_ENTRY_LEN\<close> answers \<open>n\<close>, a read by the same
  task waits when \<open>n\<close> is 0; otherwise it fails with \<open>-EINVAL\<close> for every buffer shorter than \<open>n\<close> and
  returns exactly \<open>n\<close> bytes for every other, when user memory can be written.
\<close>

theorem logger_next_len_exact:
  assumes A: "abi_ok A" "0 < compat_size A" and ok: "log_ok A log" and ctu: "\<forall>a n. ctu E a n"
    and f: "fm_read f" "private_data f = ReaderOf l rid" and rd: "map_of (l_readers log) rid = Some r"
  shows "\<exists>n log1. logger_ioctl A t f LOGGER_GET_NEXT_ENTRY_LEN arg log = Some (int n, log1) \<and>
    (\<forall>buf count. \<exists>log2 out. read_section A E t rid buf count log1 =
        Some (if n = 0 then None else if count < n then Some (-EINVAL, []) else Some (int n, out), log2) \<and>
      (n \<noteq> 0 \<and> n \<le> count \<longrightarrow> length out = n))"
proof -
  have sh: "shape A log" using ok by (simp add: log_ok_def)
  obtain es where h: "holds A log (r_off r) es" using ok map_of_pointer [OF rd] by (auto simp: log_ok_def)
  obtain q where q: "skip_unreadable A t log r = Some (r\<lparr>r_off := q\<rparr>)" "holds A log q (visible t r es)"
    by (rule skip_unreadable_ok [OF A(1) sh h])
  let ?r = "r\<lparr>r_off := q\<rparr>"
  let ?log1 = "set_reader rid ?r log"
  define n where "n = (case visible t r es of [] \<Rightarrow> 0 | e # rest \<Rightarrow> user_len A r e)"
  have pos: "0 < user_len A r e" for e using A by (simp add: user_len_def get_user_hdr_len_def abi_ok_def)
  have run: "logger_ioctl A t f LOGGER_GET_NEXT_ENTRY_LEN arg log = Some (int n, ?log1)"
  proof (cases "visible t r es")
    case Nil
    then have "q = w_off log" using caught_up [OF A(1) sh] q(2) by simp
    then show ?thesis using Nil by (simp add: logger_ioctl_def f ioctl_reader_def rd q(1) n_def)
  next
    case (Cons e rest)
    then have "q \<noteq> w_off log" using holds_Nil_iff [OF A(1) sh q(2)] by simp
    moreover have "get_entry_msg_len A log q = length (snd e)" using holds_Cons(2) [OF A(1) sh, of q e rest] q(2) Cons by simp
    ultimately show ?thesis using Cons
      by (simp add: logger_ioctl_def f ioctl_reader_def rd q(1) n_def user_len_def)
  qed
  have ok1: "log_ok A ?log1" using set_reader_ok [OF ok, of ?r] q(2) by simp
  note rd1 = map_of_set_reader [OF rd, of ?r]
  have h1: "holds A ?log1 (r_off ?r) (visible t r es)" using q(2) by simp
  have "\<exists>log2 out. read_section A E t rid buf count ?log1 =
        Some (if n = 0 then None else if count < n then Some (-EINVAL, []) else Some (int n, out), log2) \<and>
      (n \<noteq> 0 \<and> n \<le> count \<longrightarrow> length out = n)" for buf count
  proof (rule read_section_ok [OF A(1) ok1 rd1 h1, of t E buf count, unfolded visible_visible user_len_off])
    fix q' assume "visible t r es = []"
      and "read_section A E t rid buf count ?log1 = Some (None, set_reader rid (?r\<lparr>r_off := q'\<rparr>) ?log1)"
    then show ?thesis by (simp add: n_def)
  next
    fix q' e rest assume "visible t r es = e # rest" "count < user_len A r e"
      and "read_section A E t rid buf count ?log1 = Some (Some (-EINVAL, []), set_reader rid (?r\<lparr>r_off := q'\<rparr>) ?log1)"
    then show ?thesis using pos [of e] by (simp add: n_def)
  next
    fix q' e rest out assume "\<not> (\<forall>a n. ctu E a n)"
    then show ?thesis using ctu by blast
  next
    fix q' e rest assume "visible t r es = e # rest" "user_len A r e \<le> count"
      and "read_section A E t rid buf count ?log1 = Some (Some (int (user_len A r e), user_bytes A ?r e),
        set_reader rid (?r\<lparr>r_off := q'\<rparr>) ?log1)"
    then show ?thesis using pos [of e] length_user_bytes [OF A(1), of ?r e] by (simp add: n_def)
  qed
  then show ?thesis using run by blast
qed

theorem logger_next_len_exact_witness:
  "\<exists>n log1. logger_ioctl demo_abi demo_task \<lparr>fm_read = True, fm_write = False, f_nonblock = True, private_data = ReaderOf 0 7\<rparr>
      LOGGER_GET_NEXT_ENTRY_LEN None (demo_log 32) = Some (int n, log1) \<and>
    (\<forall>buf count. \<exists>log2 out. read_section demo_abi demo_io demo_task 7 buf count log1 =
        Some (if n = 0 then None else if count < n then Some (-EINVAL, []) else Some (int n, out), log2) \<and>
      (n \<noteq> 0 \<and> n \<le> count \<longrightarrow> length out = n))"
  by (rule logger_next_len_exact [OF demo_abi_ok _ demo_log_ok _ _ _ demo_log_reader(1)])
    (simp_all add: demo_abi_def demo_io_ok(3))

lemma exit_hits_freed: "l \<in> set ls \<Longrightarrow> log_mem dev l = None \<Longrightarrow> logger_exit_loop ls dev = None"
  by (induction ls arbitrary: dev) (auto split: option.split)

lemma minor_hits_freed:
  "l \<in> set ls \<Longrightarrow> mem l = None \<Longrightarrow> \<forall>l'\<in>set ls. \<forall>log. mem l' = Some log \<longrightarrow> l_minor log \<noteq> minor \<Longrightarrow>
    get_log_from_minor minor mem ls = None"
  by (induction ls) (auto split: option.split)

text \<open>
  When \<open>misc_register\<close> fails, \<open>create_log\<close> answers its error and frees the log but leaves it on
  \<open>log_list\<close>: a later \<open>logger_exit\<close>, and an open whose minor number no live log has, read freed memory.
\<close>

theorem logger_failed_create:
  assumes mem: "never_fails (dev_allocs dev)" and reg: "fst reg \<noteq> 0"
    and minor: "\<forall>l log. log_mem dev l = Some log \<longrightarrow> l_minor log \<noteq> minor"
  shows "\<exists>dev'. create_log E sz reg dev = (fst reg, dev') \<and> log_mem dev' (dev_brk dev) = None \<and>
    log_list dev' = log_list dev @ [dev_brk dev] \<and> logger_exit dev' = None \<and> logger_open t 0 minor rd wr nb dev' = None"
proof -
  obtain a1 where a1: "alloc_next (dev_allocs dev) = (True, a1)" "never_fails a1" by (rule alloc_next_cases [OF mem])
  obtain a2 where a2: "alloc_next a1 = (True, a2)" "never_fails a2" by (rule alloc_next_cases [OF a1(2)])
  obtain a3 where a3: "alloc_next a2 = (True, a3)" by (rule alloc_next_cases [OF a2(2)])
  obtain dev' where run: "create_log E sz reg dev = (fst reg, dev')" "log_list dev' = log_list dev @ [dev_brk dev]"
    "log_mem dev' = (log_mem dev)(dev_brk dev := None)"
    using reg by (auto simp: create_log_def a1 a2 a3 Let_def set_log_def)
  have "logger_exit dev' = None" using exit_hits_freed [of "dev_brk dev"] run by (simp add: logger_exit_def)
  moreover have "get_log_from_minor minor (log_mem dev') (log_list dev') = None"
    by (rule minor_hits_freed [of "dev_brk dev"]) (use run minor in auto)
  then have "logger_open t 0 minor rd wr nb dev' = None" by (simp add: logger_open_def)
  ultimately show ?thesis using run by simp
qed

theorem logger_failed_create_witness:
  "\<exists>dev'. create_log demo_io 32 (-EBUSY, 0) demo_dev = (fst (-EBUSY, 0 :: int), dev') \<and> log_mem dev' (dev_brk demo_dev) = None \<and>
    log_list dev' = log_list demo_dev @ [dev_brk demo_dev] \<and> logger_exit dev' = None \<and>
    logger_open demo_task 0 61 True False False dev' = None"
  by (rule logger_failed_create) (simp_all add: demo_dev_def EBUSY_def)

section \<open>A log that is too small\<close>

definition small_log :: "u8 list \<Rightarrow> nat \<Rightarrow> nat \<Rightarrow> nat \<Rightarrow> logger_log" where
  "small_log b w h r = \<lparr>l_buffer = b, l_minor = 0, l_readers = [(7, \<lparr>r_off = r, r_all = True, r_ver = 1\<rparr>)], w_off = w, l_head = h, l_size = 16\<rparr>"

lemma demo_fields [simp]: "entry_size demo_abi = 5" "max_payload demo_abi = 10" "compat_size demo_abi = 1"
  by (simp_all add: demo_abi_def)

lemma small_offset: "logger_offset (small_log b w h r) n = n mod 16"
  by (subst offset_mod) (auto simp: small_log_def intro: exI [of _ 4])

lemma small_fields [simp]: "l_size (small_log b w h r) = 16" "l_buffer (small_log b w h r) = b" "w_off (small_log b w h r) = w"
  "l_head (small_log b w h r) = h" "l_readers (small_log b w h r) = [(7, \<lparr>r_off = r, r_all = True, r_ver = 1\<rparr>)]"
  by (simp_all add: small_log_def)

lemma small_update [simp]: "small_log b w h r\<lparr>l_buffer := b'\<rparr> = small_log b' w h r" "small_log b w h r\<lparr>w_off := w'\<rparr> = small_log b w' h r"
  "small_log b w h r\<lparr>l_head := h'\<rparr> = small_log b w h' r"
  "small_log b w h r\<lparr>l_readers := [(7, \<lparr>r_off = r', r_all = True, r_ver = 1\<rparr>)]\<rparr> = small_log b w h r'"
  by (simp_all add: small_log_def)

lemma small_hdr: "enc_entry demo_abi (logger_header demo_abi demo_task n) = [of_nat (min n 10), 3, 0, 0, 0]"
  by (simp add: demo_abi_def demo_task_def logger_header_def)

lemma small_len: "off < 16 \<Longrightarrow> length b = 16 \<Longrightarrow> get_entry_msg_len demo_abi (small_log b w h r) off = unat (b ! off)"
  by (auto simp: get_entry_msg_len_def get_entry_header_def demo_abi_def Let_def min_def nth_append)

lemma small_write:
  assumes "n \<in> {1..10}" "k = int n" and "fix_up_readers demo_abi (5 + n) (small_log b w h r) = Some (small_log b w h' r')"
    and "do_write_log_from_user demo_io a n (do_write_log [of_nat n, 3, 0, 0, 0] (small_log b w h' r')) = (k, l2)"
  shows "logger_aio_write demo_abi demo_io demo_task [(a, n)] n (small_log b w h r) = Some (k, l2)"
  unfolding logger_aio_write_def small_hdr Let_def using assms by (simp add: logger_header_def)

lemmas small_eval = fix_up_readers_def small_offset is_between_def Let_def do_write_log_def do_write_log_from_user_def
  store_def demo_io_def

lemma overrun: "get_next_entry demo_abi (small_log [1,3,0,0,0,40,1,3,0,0,0,41,0,0,0,0] 12 h r) 0 15 = Some 1"
  unfolding get_next_entry_def
  by (subst next_entry_loop.simps, simp add: small_len small_offset Let_def)+

text \<open>
  The size of a log. The comment at \<open>create_log\<close> asks for a power of two greater than the size of
  the largest entry. With such a log, of 16 bytes for entries of at most 15, two small writes and a large one
  leave the head and the reader inside the new entry, where the next length that is read is a byte of
  the payload, larger than any entry. \<open>logger_reach_safe\<close> shows that twice the size of the largest
  entry is enough.
\<close>

theorem logger_log_too_small:
  "logger_aio_write demo_abi demo_io demo_task [(40, 1)] 1 (small_log [0,0,0,0,0,0,0,0,0,0,0,0,0,0,0,0] 0 0 0) =
     Some (1, small_log [1,3,0,0,0,40,0,0,0,0,0,0,0,0,0,0] 6 0 0) \<and>
   logger_aio_write demo_abi demo_io demo_task [(41, 1)] 1 (small_log [1,3,0,0,0,40,0,0,0,0,0,0,0,0,0,0] 6 0 0) =
     Some (1, small_log [1,3,0,0,0,40,1,3,0,0,0,41,0,0,0,0] 12 0 0) \<and>
   logger_aio_write demo_abi demo_io demo_task [(60, 10)] 10 (small_log [1,3,0,0,0,40,1,3,0,0,0,41,0,0,0,0] 12 0 0) =
     Some (10, small_log [0,60,61,62,63,64,65,66,67,68,69,41,10,3,0,0] 11 1 1) \<and>
   max_payload demo_abi + entry_size demo_abi < 16 \<and>
   get_entry_msg_len demo_abi (small_log [0,60,61,62,63,64,65,66,67,68,69,41,10,3,0,0] 11 1 1) 1 = 60"
proof (intro conjI)
  show "logger_aio_write demo_abi demo_io demo_task [(40, 1)] 1 (small_log [0,0,0,0,0,0,0,0,0,0,0,0,0,0,0,0] 0 0 0) =
     Some (1, small_log [1,3,0,0,0,40,0,0,0,0,0,0,0,0,0,0] 6 0 0)"
    by (rule small_write [where h' = 0 and r' = 0]) (simp_all add: small_eval)
  show "logger_aio_write demo_abi demo_io demo_task [(41, 1)] 1 (small_log [1,3,0,0,0,40,0,0,0,0,0,0,0,0,0,0] 6 0 0) =
     Some (1, small_log [1,3,0,0,0,40,1,3,0,0,0,41,0,0,0,0] 12 0 0)"
    by (rule small_write [where h' = 0 and r' = 0]) (simp_all add: small_eval)
  show "logger_aio_write demo_abi demo_io demo_task [(60, 10)] 10 (small_log [1,3,0,0,0,40,1,3,0,0,0,41,0,0,0,0] 12 0 0) =
     Some (10, small_log [0,60,61,62,63,64,65,66,67,68,69,41,10,3,0,0] 11 1 1)"
    by (rule small_write [where h' = 1 and r' = 1]) (simp_all add: small_eval overrun)
qed (simp_all add: small_len)

end
