(* ===== verification/HwBp.thy ===== *)
theory HwBp
  imports Prelude "HOL-Library.Monad_Syntax"
begin

text \<open>
  Slots of the hardware breakpoints, \<open>src/debugfs/android50/kernel/kernel/events/hw_breakpoint.c\<close>: the
  constraint table that says how many breakpoints are pinned on each cpu by the cpu itself and by
  its tasks, the operations of the breakpoint PMU on it, and the breakpoints that cover all cpus.

  Events are a store from addresses to records. \<open>None\<close> is an access to memory that is not there: a
  freed event, or an index outside a counter array. The perf core and the architecture's part are
  not under this file: they are the parameters \<open>perf_core\<close> and \<open>bp_arch\<close>. The counters are
  \<open>unsigned int\<close> and wrap.
\<close>

section \<open>Events\<close>

text \<open>The bits of \<open>bp_type\<close>; no bit is \<open>HW_BREAKPOINT_EMPTY\<close>, all bits are \<open>HW_BREAKPOINT_INVALID\<close>.\<close>

datatype bp_flag = HW_BREAKPOINT_R | HW_BREAKPOINT_W | HW_BREAKPOINT_X

definition HW_BREAKPOINT_EMPTY :: "bp_flag set" where "HW_BREAKPOINT_EMPTY = {}"
definition HW_BREAKPOINT_RW :: "bp_flag set" where "HW_BREAKPOINT_RW = {HW_BREAKPOINT_R, HW_BREAKPOINT_W}"
definition HW_BREAKPOINT_INVALID :: "bp_flag set" where
  "HW_BREAKPOINT_INVALID = {HW_BREAKPOINT_R, HW_BREAKPOINT_W, HW_BREAKPOINT_X}"

text \<open>\<open>bp_len\<close> is \<open>n\<close> for \<open>HW_BREAKPOINT_LEN_n\<close>; \<open>at_breakpoint\<close> says that the type is \<open>PERF_TYPE_BREAKPOINT\<close>.\<close>

record perf_attr =
  at_breakpoint :: bool
  at_branch_stack :: bool
  bp_addr :: u64
  bp_len :: nat
  bp_type :: "bp_flag set"
  at_disabled :: bool
  exclude_kernel :: bool

text \<open>\<open>pe_info\<close> is the architecture's \<open>struct arch_hw_breakpoint\<close>; \<open>pe_cpu\<close> is -1 for all cpus.\<close>

record 'i perf_event =
  pe_attr :: perf_attr
  pe_cpu :: int
  pe_target :: "nat option"
  pe_stopped :: bool
  pe_destroy :: bool
  pe_info :: 'i

datatype bp_type_idx = TYPE_INST | TYPE_DATA

record 'i bp_table =
  nr_slots :: "bp_type_idx \<Rightarrow> int"
  nr_cpu_bp_pinned :: "nat \<Rightarrow> bp_type_idx \<Rightarrow> u32"
  nr_task_bp_pinned :: "nat \<Rightarrow> bp_type_idx \<Rightarrow> u32 list option"
  nr_bp_flexible :: "nat \<Rightarrow> bp_type_idx \<Rightarrow> u32"
  bp_task_head :: "nat list"
  constraints_initialized :: bool
  possible_cpus :: "nat list"
  online_cpus :: "nat list"
  bp_events :: "nat \<Rightarrow> 'i perf_event option"

definition hw_breakpoint_weight :: "'i perf_event \<Rightarrow> nat" where
  "hw_breakpoint_weight bp = 1"

definition find_slot_idx :: "'i perf_event \<Rightarrow> bp_type_idx" where
  "find_slot_idx bp = (if bp_type (pe_attr bp) \<inter> HW_BREAKPOINT_RW \<noteq> {} then TYPE_DATA else TYPE_INST)"

section \<open>The constraint table\<close>

fun max_pinned_loop :: "u32 list \<Rightarrow> nat \<Rightarrow> nat" where
  "max_pinned_loop tsk_pinned 0 = 0"
| "max_pinned_loop tsk_pinned (Suc i) =
     (if tsk_pinned ! i > 0 then i + 1 else max_pinned_loop tsk_pinned i)"

definition max_task_bp_pinned :: "nat \<Rightarrow> bp_type_idx \<Rightarrow> 'i bp_table \<Rightarrow> nat option" where
  "max_task_bp_pinned cpu type S =
     map_option (\<lambda>tsk_pinned. max_pinned_loop tsk_pinned (nat (nr_slots S type))) (nr_task_bp_pinned S cpu type)"

fun task_pinned_loop ::
    "nat \<Rightarrow> nat option \<Rightarrow> bp_type_idx \<Rightarrow> (nat \<Rightarrow> 'i perf_event option) \<Rightarrow> nat \<Rightarrow> nat list \<Rightarrow> nat option" where
  "task_pinned_loop cpu tsk type evs count [] = Some count"
| "task_pinned_loop cpu tsk type evs count (i # is) =
     do {
       iter \<leftarrow> evs i;
       task_pinned_loop cpu tsk type evs
         (if pe_target iter = tsk \<and> find_slot_idx iter = type \<and> (pe_cpu iter < 0 \<or> int cpu = pe_cpu iter)
          then count + hw_breakpoint_weight iter else count) is
     }"

definition task_bp_pinned :: "nat \<Rightarrow> 'i perf_event \<Rightarrow> bp_type_idx \<Rightarrow> 'i bp_table \<Rightarrow> nat option" where
  "task_bp_pinned cpu bp type S = task_pinned_loop cpu (pe_target bp) type (bp_events S) 0 (bp_task_head S)"

text \<open>The number of pinned breakpoints that count for \<open>bp\<close> on one cpu.\<close>

definition pinned_on :: "nat \<Rightarrow> 'i perf_event \<Rightarrow> bp_type_idx \<Rightarrow> 'i bp_table \<Rightarrow> u32 option" where
  "pinned_on cpu bp type S =
     map_option (\<lambda>n. nr_cpu_bp_pinned S cpu type + of_nat n)
       (if pe_target bp = None then max_task_bp_pinned cpu type S else task_bp_pinned cpu bp type S)"

fun fetch_all_cpus ::
    "'i perf_event \<Rightarrow> bp_type_idx \<Rightarrow> 'i bp_table \<Rightarrow> nat list \<Rightarrow> u32 \<times> u32 \<Rightarrow> (u32 \<times> u32) option" where
  "fetch_all_cpus bp type S [] slots = Some slots"
| "fetch_all_cpus bp type S (cpu # cpus) (pinned, flexible) =
     do {
       nr \<leftarrow> pinned_on cpu bp type S;
       fetch_all_cpus bp type S cpus
         (if nr > pinned then nr else pinned,
          if nr_bp_flexible S cpu type > flexible then nr_bp_flexible S cpu type else flexible)
     }"

definition fetch_bp_busy_slots :: "'i perf_event \<Rightarrow> bp_type_idx \<Rightarrow> 'i bp_table \<Rightarrow> (u32 \<times> u32) option" where
  "fetch_bp_busy_slots bp type S =
     (if pe_cpu bp \<ge> 0 then
        map_option (\<lambda>nr. (nr, nr_bp_flexible S (nat (pe_cpu bp)) type)) (pinned_on (nat (pe_cpu bp)) bp type S)
      else fetch_all_cpus bp type S (possible_cpus S) (0, 0))"

definition fetch_this_slot :: "nat \<Rightarrow> u32 \<times> u32 \<Rightarrow> u32 \<times> u32" where
  "fetch_this_slot weight slots = (fst slots + of_nat weight, snd slots)"

text \<open>One element of a counter array changed by \<open>d\<close>.\<close>

definition bump :: "u32 \<Rightarrow> int \<Rightarrow> u32 list \<Rightarrow> u32 list option" where
  "bump d i a = (if 0 \<le> i \<and> i < int (length a) then Some (a[nat i := a ! nat i + d]) else None)"

definition toggle_bp_task_slot ::
    "'i perf_event \<Rightarrow> bool \<Rightarrow> bp_type_idx \<Rightarrow> nat \<Rightarrow> nat \<Rightarrow> 'i bp_table \<Rightarrow> 'i bp_table option" where
  "toggle_bp_task_slot bp enable type weight cpu S =
     do {
       old_count \<leftarrow> task_bp_pinned cpu bp type S;
       let old_idx = int old_count - 1;
       let idx = old_idx + int weight;
       tsk_pinned \<leftarrow> nr_task_bp_pinned S cpu type;
       tsk_pinned \<leftarrow> bump (if enable then 1 else -1) idx tsk_pinned;
       tsk_pinned \<leftarrow> (if old_count > 0 then bump (if enable then -1 else 1) old_idx tsk_pinned else Some tsk_pinned);
       Some (S\<lparr>nr_task_bp_pinned := (nr_task_bp_pinned S)(cpu := (nr_task_bp_pinned S cpu)(type := Some tsk_pinned))\<rparr>)
     }"

fun toggle_cpus ::
    "'i perf_event \<Rightarrow> bool \<Rightarrow> bp_type_idx \<Rightarrow> nat \<Rightarrow> nat list \<Rightarrow> 'i bp_table \<Rightarrow> 'i bp_table option" where
  "toggle_cpus bp enable type weight [] S = Some S"
| "toggle_cpus bp enable type weight (cpu # cpus) S =
     Option.bind (toggle_bp_task_slot bp enable type weight cpu S) (toggle_cpus bp enable type weight cpus)"

text \<open>\<open>i\<close> is the address of \<open>bp\<close>.\<close>

definition toggle_bp_slot ::
    "nat \<Rightarrow> 'i perf_event \<Rightarrow> bool \<Rightarrow> bp_type_idx \<Rightarrow> nat \<Rightarrow> 'i bp_table \<Rightarrow> 'i bp_table option" where
  "toggle_bp_slot i bp enable type weight S =
     (if pe_target bp = None then
        if pe_cpu bp < 0 then None
        else
          (let cpu = nat (pe_cpu bp);
               n = (if enable then nr_cpu_bp_pinned S cpu type + of_nat weight
                    else nr_cpu_bp_pinned S cpu type - of_nat weight)
           in Some (S\<lparr>nr_cpu_bp_pinned := (nr_cpu_bp_pinned S)(cpu := (nr_cpu_bp_pinned S cpu)(type := n))\<rparr>))
      else
        do {
          S \<leftarrow> (if \<not> enable then
                  if i \<in> set (bp_task_head S) then Some (S\<lparr>bp_task_head := remove1 i (bp_task_head S)\<rparr>) else None
                else Some S);
          S \<leftarrow> toggle_cpus bp enable type weight (if pe_cpu bp \<ge> 0 then [nat (pe_cpu bp)] else possible_cpus S) S;
          Some (if enable then S\<lparr>bp_task_head := bp_task_head S @ [i]\<rparr> else S)
        })"

section \<open>Reserving and releasing\<close>

text \<open>\<open>__reserve_bp_slot\<close> and \<open>__release_bp_slot\<close>.\<close>

definition do_reserve_bp_slot :: "nat \<Rightarrow> 'i bp_table \<Rightarrow> (int \<times> 'i bp_table) option" where
  "do_reserve_bp_slot i S =
     do {
       bp \<leftarrow> bp_events S i;
       (if \<not> constraints_initialized S then Some (-ENOMEM, S)
        else if bp_type (pe_attr bp) = HW_BREAKPOINT_EMPTY \<or> bp_type (pe_attr bp) = HW_BREAKPOINT_INVALID
        then Some (-EINVAL, S)
        else do {
          slots \<leftarrow> fetch_bp_busy_slots bp (find_slot_idx bp) S;
          let slots = fetch_this_slot (hw_breakpoint_weight bp) slots;
          (if fst slots + (if snd slots \<noteq> 0 then 1 else 0) > of_int (nr_slots S (find_slot_idx bp)) then Some (-ENOSPC, S)
           else do {
             S \<leftarrow> toggle_bp_slot i bp True (find_slot_idx bp) (hw_breakpoint_weight bp) S;
             Some (0, S)
           })
        })
     }"

definition do_release_bp_slot :: "nat \<Rightarrow> 'i bp_table \<Rightarrow> 'i bp_table option" where
  "do_release_bp_slot i S =
     do {
       bp \<leftarrow> bp_events S i;
       toggle_bp_slot i bp False (find_slot_idx bp) (hw_breakpoint_weight bp) S
     }"

text \<open>Under \<open>nr_bp_mutex\<close>, and the debugger's variants, which only look whether it is held.\<close>

definition reserve_bp_slot :: "nat \<Rightarrow> 'i bp_table \<Rightarrow> (int \<times> 'i bp_table) option" where
  "reserve_bp_slot i S = do_reserve_bp_slot i S"

definition release_bp_slot :: "nat \<Rightarrow> 'i bp_table \<Rightarrow> 'i bp_table option" where
  "release_bp_slot i S = do_release_bp_slot i S"

definition dbg_reserve_bp_slot :: "bool \<Rightarrow> nat \<Rightarrow> 'i bp_table \<Rightarrow> (int \<times> 'i bp_table) option" where
  "dbg_reserve_bp_slot locked i S = (if locked then Some (-1, S) else do_reserve_bp_slot i S)"

definition dbg_release_bp_slot :: "bool \<Rightarrow> nat \<Rightarrow> 'i bp_table \<Rightarrow> (int \<times> 'i bp_table) option" where
  "dbg_release_bp_slot locked i S =
     (if locked then Some (-1, S) else map_option (\<lambda>S. (0, S)) (do_release_bp_slot i S))"

section \<open>Registering\<close>

text \<open>
  What the file calls of the architecture: \<open>arch_validate_hwbkpt_settings\<close>, which fills \<open>pe_info\<close>, and
  \<open>arch_check_bp_in_kernelspace\<close>.
\<close>

record 'i bp_arch =
  arch_validate :: "'i perf_event \<Rightarrow> int \<times> 'i"
  arch_in_kernelspace :: "'i perf_event \<Rightarrow> bool"

definition set_event :: "nat \<Rightarrow> 'i perf_event \<Rightarrow> 'i bp_table \<Rightarrow> 'i bp_table" where
  "set_event i bp S = S\<lparr>bp_events := (bp_events S)(i \<mapsto> bp)\<rparr>"

text \<open>\<open>admin\<close> is \<open>capable(CAP_SYS_ADMIN)\<close>.\<close>

definition validate_hw_breakpoint ::
    "'i bp_arch \<Rightarrow> bool \<Rightarrow> nat \<Rightarrow> 'i bp_table \<Rightarrow> (int \<times> 'i bp_table) option" where
  "validate_hw_breakpoint R admin i S =
     do {
       bp \<leftarrow> bp_events S i;
       let (ret, info) = arch_validate R bp;
       let bp = bp\<lparr>pe_info := info\<rparr>;
       let S = set_event i bp S;
       Some (if ret \<noteq> 0 then (ret, S)
             else if arch_in_kernelspace R bp \<and> exclude_kernel (pe_attr bp) then (-EINVAL, S)
             else if arch_in_kernelspace R bp \<and> \<not> admin then (-EPERM, S)
             else (0, S))
     }"

definition register_perf_hw_breakpoint ::
    "'i bp_arch \<Rightarrow> bool \<Rightarrow> nat \<Rightarrow> 'i bp_table \<Rightarrow> (int \<times> 'i bp_table) option" where
  "register_perf_hw_breakpoint R admin i S =
     do {
       (ret, S) \<leftarrow> reserve_bp_slot i S;
       (if ret \<noteq> 0 then Some (ret, S)
        else do {
          (ret, S) \<leftarrow> validate_hw_breakpoint R admin i S;
          (if ret \<noteq> 0 then map_option (\<lambda>S. (ret, S)) (release_bp_slot i S) else Some (ret, S))
        })
     }"

definition EOPNOTSUPP :: int where "EOPNOTSUPP = 95"

definition hw_breakpoint_event_init ::
    "'i bp_arch \<Rightarrow> bool \<Rightarrow> nat \<Rightarrow> 'i bp_table \<Rightarrow> (int \<times> 'i bp_table) option" where
  "hw_breakpoint_event_init R admin i S =
     do {
       bp \<leftarrow> bp_events S i;
       (if \<not> at_breakpoint (pe_attr bp) then Some (-ENOENT, S)
        else if at_branch_stack (pe_attr bp) then Some (-EOPNOTSUPP, S)
        else do {
          (err, S) \<leftarrow> register_perf_hw_breakpoint R admin i S;
          (if err \<noteq> 0 then Some (err, S)
           else do {
             bp \<leftarrow> bp_events S i;
             Some (0, set_event i (bp\<lparr>pe_destroy := True\<rparr>) S)
           })
        })
     }"

definition bp_perf_event_destroy :: "nat \<Rightarrow> 'i bp_table \<Rightarrow> 'i bp_table option" where
  "bp_perf_event_destroy i S = release_bp_slot i S"

text \<open>
  \<open>attr\<close> replaces the address, type and length of the event at \<open>i\<close>. \<open>disable\<close> and \<open>enable\<close> are
  \<open>perf_event_disable\<close> (with interrupts off \<open>__perf_event_disable\<close>) and \<open>perf_event_enable\<close>.
\<close>

definition modify_user_hw_breakpoint ::
    "'i bp_arch \<Rightarrow> bool \<Rightarrow> (nat \<Rightarrow> 'i bp_table \<Rightarrow> 'i bp_table) \<Rightarrow> (nat \<Rightarrow> 'i bp_table \<Rightarrow> 'i bp_table) \<Rightarrow> nat \<Rightarrow>
     perf_attr \<Rightarrow> 'i bp_table \<Rightarrow> (int \<times> 'i bp_table) option" where
  "modify_user_hw_breakpoint R admin disable enable i attr S =
     do {
       bp0 \<leftarrow> bp_events S i;
       let old = pe_attr bp0;
       let S = disable i S;
       bp \<leftarrow> bp_events S i;
       let S = set_event i (bp\<lparr>pe_attr := (pe_attr bp)
         \<lparr>bp_addr := bp_addr attr, bp_type := bp_type attr, bp_len := bp_len attr\<rparr>\<rparr>) S;
       let finish = (\<lambda>S. do {
         bp \<leftarrow> bp_events S i;
         Some (0, set_event i (bp\<lparr>pe_attr := (pe_attr bp)\<lparr>at_disabled := at_disabled attr\<rparr>\<rparr>) S) });
       (if at_disabled attr then finish S
        else do {
          (err, S) \<leftarrow> validate_hw_breakpoint R admin i S;
          (if err = 0 then finish (enable i S)
           else do {
             bp \<leftarrow> bp_events S i;
             let S = set_event i (bp\<lparr>pe_attr := (pe_attr bp)
               \<lparr>bp_addr := bp_addr old, bp_type := bp_type old, bp_len := bp_len old\<rparr>\<rparr>) S;
             Some (err, if \<not> at_disabled (pe_attr bp) then enable i S else S)
           })
        })
     }"

text \<open>Starting, stopping and installing; \<open>install\<close> is \<open>arch_install_hw_breakpoint\<close>.\<close>

definition hw_breakpoint_add ::
    "(nat \<Rightarrow> 'i bp_table \<Rightarrow> int \<times> 'i bp_table) \<Rightarrow> nat \<Rightarrow> bool \<Rightarrow> 'i bp_table \<Rightarrow> (int \<times> 'i bp_table) option" where
  "hw_breakpoint_add install i ef_start S =
     do {
       bp \<leftarrow> bp_events S i;
       Some (install i (if \<not> ef_start then set_event i (bp\<lparr>pe_stopped := True\<rparr>) S else S))
     }"

definition hw_breakpoint_del :: "(nat \<Rightarrow> 'i bp_table \<Rightarrow> 'i bp_table) \<Rightarrow> nat \<Rightarrow> 'i bp_table \<Rightarrow> 'i bp_table" where
  "hw_breakpoint_del uninstall i S = uninstall i S"

definition hw_breakpoint_start :: "nat \<Rightarrow> 'i bp_table \<Rightarrow> 'i bp_table option" where
  "hw_breakpoint_start i S = do { bp \<leftarrow> bp_events S i; Some (set_event i (bp\<lparr>pe_stopped := False\<rparr>) S) }"

definition hw_breakpoint_stop :: "nat \<Rightarrow> 'i bp_table \<Rightarrow> 'i bp_table option" where
  "hw_breakpoint_stop i S = do { bp \<leftarrow> bp_events S i; Some (set_event i (bp\<lparr>pe_stopped := True\<rparr>) S) }"

section \<open>All cpus\<close>

text \<open>
  \<open>perf_event_create_kernel_counter\<close> for an attribute, a cpu and no task, which answers an error number
  or the address of the event, and \<open>perf_event_release_kernel\<close>. \<open>'s\<close> is the state of the kernel.
\<close>

record 's perf_core =
  pc_create :: "perf_attr \<Rightarrow> int \<Rightarrow> nat option \<Rightarrow> 's \<Rightarrow> (int + nat) \<times> 's"
  pc_release :: "nat \<Rightarrow> 's \<Rightarrow> 's"

definition register_user_hw_breakpoint ::
    "'s perf_core \<Rightarrow> perf_attr \<Rightarrow> nat \<Rightarrow> 's \<Rightarrow> (int + nat) \<times> 's" where
  "register_user_hw_breakpoint P attr tsk s = pc_create P attr (-1) (Some tsk) s"

definition unregister_hw_breakpoint :: "'s perf_core \<Rightarrow> nat option \<Rightarrow> 's \<Rightarrow> 's" where
  "unregister_hw_breakpoint P bp s = (case bp of None \<Rightarrow> s | Some i \<Rightarrow> pc_release P i s)"

text \<open>
  The per-cpu pointers: \<open>None\<close> is \<open>NULL\<close>, \<open>Inl\<close> an error pointer. A caller only gets a set without error
  pointers.
\<close>

type_synonym cpu_pointers = "nat \<Rightarrow> (int + nat) option"
type_synonym cpu_events = "nat \<Rightarrow> nat option"

definition valid_events :: "cpu_pointers \<Rightarrow> cpu_events" where
  "valid_events evs cpu = (case evs cpu of Some (Inr bp) \<Rightarrow> Some bp | _ \<Rightarrow> None)"

fun register_cpus ::
    "'s perf_core \<Rightarrow> perf_attr \<Rightarrow> nat list \<Rightarrow> cpu_pointers \<Rightarrow> 's \<Rightarrow> int option \<times> cpu_pointers \<times> 's" where
  "register_cpus P attr [] evs s = (None, evs, s)"
| "register_cpus P attr (cpu # cpus) evs s =
     (case pc_create P attr (int cpu) None s of
        (Inl err, s) \<Rightarrow> (Some err, evs(cpu \<mapsto> Inl err), s)
      | (Inr bp, s) \<Rightarrow> register_cpus P attr cpus (evs(cpu \<mapsto> Inr bp)) s)"

fun undo_cpus :: "'s perf_core \<Rightarrow> nat list \<Rightarrow> cpu_pointers \<Rightarrow> 's \<Rightarrow> 's" where
  "undo_cpus P [] evs s = s"
| "undo_cpus P (cpu # cpus) evs s =
     (case evs cpu of
        Some (Inl err) \<Rightarrow> s
      | Some (Inr bp) \<Rightarrow> undo_cpus P cpus evs (unregister_hw_breakpoint P (Some bp) s)
      | None \<Rightarrow> undo_cpus P cpus evs (unregister_hw_breakpoint P None s))"

text \<open>\<open>mem\<close>: whether \<open>alloc_percpu\<close> succeeds.\<close>

definition register_wide_hw_breakpoint ::
    "'s perf_core \<Rightarrow> nat list \<Rightarrow> bool \<Rightarrow> perf_attr \<Rightarrow> 's \<Rightarrow> (int + cpu_events) \<times> 's" where
  "register_wide_hw_breakpoint P online mem attr s =
     (if \<not> mem then (Inl (-ENOMEM), s)
      else case register_cpus P attr online (\<lambda>_. None) s of
        (None, evs, s) \<Rightarrow> (Inr (valid_events evs), s)
      | (Some err, evs, s) \<Rightarrow> (Inl err, undo_cpus P online evs s))"

fun unregister_wide_hw_breakpoint :: "'s perf_core \<Rightarrow> nat list \<Rightarrow> cpu_events \<Rightarrow> 's \<Rightarrow> 's" where
  "unregister_wide_hw_breakpoint P [] evs s = s"
| "unregister_wide_hw_breakpoint P (cpu # cpus) evs s =
     unregister_wide_hw_breakpoint P cpus evs
       (unregister_hw_breakpoint P (evs cpu) s)"

section \<open>Initialisation\<close>

fun alloc_counters ::
    "(nat \<times> bp_type_idx) list \<Rightarrow> outcomes \<Rightarrow> 'i bp_table \<Rightarrow> (nat option \<times> outcomes \<times> 'i bp_table)" where
  "alloc_counters [] allocs S = (None, allocs, S)"
| "alloc_counters ((cpu, t) # rest) allocs S =
     (case alloc_next allocs of (ok, allocs) \<Rightarrow>
        let a = (if ok then Some (replicate (nat (nr_slots S t)) 0) else None);
            S = S\<lparr>nr_task_bp_pinned := (nr_task_bp_pinned S)(cpu := (nr_task_bp_pinned S cpu)(t := a))\<rparr>
        in if ok then alloc_counters rest allocs S else (Some cpu, allocs, S))"

fun free_counters :: "nat \<Rightarrow> nat list \<Rightarrow> 'i bp_table \<Rightarrow> 'i bp_table" where
  "free_counters cpu [] S = S"
| "free_counters cpu (err_cpu # cpus) S =
     (let S = S\<lparr>nr_task_bp_pinned := (nr_task_bp_pinned S)(err_cpu := (\<lambda>_. None))\<rparr>
      in if err_cpu = cpu then S else free_counters cpu cpus S)"

text \<open>\<open>slots\<close> is the architecture's \<open>hw_breakpoint_slots\<close>, \<open>die\<close> the answer of \<open>register_die_notifier\<close>.\<close>

definition init_hw_breakpoint ::
    "(bp_type_idx \<Rightarrow> int) \<Rightarrow> int \<Rightarrow> outcomes \<Rightarrow> 'i bp_table \<Rightarrow> int \<times> outcomes \<times> 'i bp_table" where
  "init_hw_breakpoint slots die allocs S =
     (let S = S\<lparr>nr_slots := slots\<rparr> in
      case alloc_counters (List.product (possible_cpus S) [TYPE_INST, TYPE_DATA]) allocs S of
        (None, allocs, S) \<Rightarrow> (die, allocs, S\<lparr>constraints_initialized := True\<rparr>)
      | (Some cpu, allocs, S) \<Rightarrow> (-ENOMEM, allocs, free_counters cpu (possible_cpus S) S))"

end
