(* ===== verification/BpDevice.thy ===== *)
theory BpDevice
  imports HwBp
begin

text \<open>
  The breakpoint device, \<open>src/debugfs/android50/kernel/drivers/misc/breakpoint/breakpoint.c\<close>, through which a
  process sets breakpoints on all cpus, and the library that uses it,
  \<open>src/debugfs/android50/system/core/watchpoint/watchpoint.c\<close>. \<open>'s\<close> is the state of the kernel's events,
  which the device changes only by \<open>register_wide_hw_breakpoint\<close> and \<open>unregister_wide_hw_breakpoint\<close>.
\<close>

section \<open>The device\<close>

record bp_list =
  bl_bp :: cpu_events
  bl_attr :: perf_attr

text \<open>The machine: the cpus, and what \<open>ptrace_breakpoint_init\<close> puts into an attribute.\<close>

record bp_machine =
  bm_possible :: "nat list"
  bm_online :: "nat list"
  bm_init :: perf_attr

text \<open>\<open>private_data\<close> of a file: its breakpoints, the newest first; \<open>None\<close> is \<open>NULL\<close>.\<close>

type_synonym bp_file = "bp_list list option"

definition bp_dev_open :: "bool \<Rightarrow> bp_file \<Rightarrow> int \<times> bp_file" where
  "bp_dev_open mem file = (if \<not> mem then (-ENOMEM, file) else (0, Some []))"

fun release_list :: "'s perf_core \<Rightarrow> bp_machine \<Rightarrow> bp_list list \<Rightarrow> 's \<Rightarrow> 's" where
  "release_list P M [] s = s"
| "release_list P M (bp_l # list) s =
     release_list P M list (unregister_wide_hw_breakpoint P (bm_possible M) (bl_bp bp_l) s)"

definition bp_dev_release :: "'s perf_core \<Rightarrow> bp_machine \<Rightarrow> bp_list list \<Rightarrow> 's \<Rightarrow> int \<times> bp_file \<times> 's" where
  "bp_dev_release P M list s = (0, None, release_list P M list s)"

text \<open>\<open>mem1\<close> and \<open>mem2\<close>: whether \<open>alloc_percpu\<close> and \<open>kmalloc\<close> succeed.\<close>

definition create_bp ::
    "'s perf_core \<Rightarrow> bp_machine \<Rightarrow> bool \<Rightarrow> bool \<Rightarrow> perf_attr \<Rightarrow> bp_list list \<Rightarrow> 's \<Rightarrow> int \<times> bp_list list \<times> 's" where
  "create_bp P M mem1 mem2 user_attr list s =
     (let attr = (bm_init M)\<lparr>bp_addr := bp_addr user_attr, bp_len := bp_len user_attr, bp_type := bp_type user_attr,
        at_disabled := False\<rparr> in
      case register_wide_hw_breakpoint P (bm_online M) mem1 attr s of
        (Inl err, s) \<Rightarrow> (-1, list, s)
      | (Inr bp, s) \<Rightarrow>
          if \<not> mem2 then (-ENOMEM, list, unregister_wide_hw_breakpoint P (bm_possible M) bp s)
          else (0, \<lparr>bl_bp = bp, bl_attr = attr\<rparr> # list, s))"

fun del_bp :: "'s perf_core \<Rightarrow> bp_machine \<Rightarrow> perf_attr \<Rightarrow> bp_list list \<Rightarrow> 's \<Rightarrow> bp_list list \<times> 's" where
  "del_bp P M user_attr [] s = ([], s)"
| "del_bp P M user_attr (bp_l # list) s =
     (if bp_addr (bl_attr bp_l) = bp_addr user_attr
      then (list, unregister_wide_hw_breakpoint P (bm_possible M) (bl_bp bp_l) s)
      else (case del_bp P M user_attr list s of (list, s) \<Rightarrow> (bp_l # list, s)))"

definition BP_CREATE :: nat where "BP_CREATE = 1"
definition BP_DEL :: nat where "BP_DEL = 2"

text \<open>\<open>arg\<close> is the attribute at the user address, \<open>None\<close> when it cannot be read.\<close>

definition bp_dev_ioctl ::
    "'s perf_core \<Rightarrow> bp_machine \<Rightarrow> bool \<Rightarrow> bool \<Rightarrow> nat \<Rightarrow> perf_attr option \<Rightarrow> bp_list list \<Rightarrow> 's \<Rightarrow> int \<times> bp_list list \<times> 's" where
  "bp_dev_ioctl P M mem1 mem2 cmd arg list s =
     (case arg of
        None \<Rightarrow> (-EFAULT, list, s)
      | Some bp_attr \<Rightarrow>
          if cmd = BP_CREATE then create_bp P M mem1 mem2 bp_attr list s
          else if cmd = BP_DEL then (case del_bp P M bp_attr list s of (list, s) \<Rightarrow> (0, list, s))
          else (0, list, s))"

text \<open>\<open>err\<close> is the answer of \<open>misc_register\<close>.\<close>

definition breakpoint_init :: "int \<Rightarrow> int" where
  "breakpoint_init err = (if err \<noteq> 0 then -1 else err)"

section \<open>The library\<close>

text \<open>\<open>struct WatchPoint\<close>, whether the signal handler is installed, the open files of the process and the kernel.\<close>

record 's watch =
  m_fd :: int
  wp_addr :: u64
  handler_set :: bool
  wp_files :: "int \<Rightarrow> bp_list list option"
  wp_kernel :: 's

text \<open>
  The answers of the calls the library makes: the descriptor of \<open>open\<close> (negative when it fails; the
  device is opened when it succeeds), whether \<open>sigaction\<close> succeeds, and the device's memory.
\<close>

record watch_env =
  we_fd :: int
  we_sigaction :: bool
  we_mem1 :: bool
  we_mem2 :: bool

text \<open>The attribute as the library fills it; the other fields come from uninitialised memory.\<close>

definition watch_attr :: "perf_attr \<Rightarrow> u64 \<Rightarrow> perf_attr" where
  "watch_attr junk addr = junk\<lparr>bp_addr := addr, bp_len := 4, bp_type := {HW_BREAKPOINT_W}\<rparr>"

definition wp_close :: "'s perf_core \<Rightarrow> bp_machine \<Rightarrow> 's watch \<Rightarrow> 's watch" where
  "wp_close P M w =
     (case wp_files w (m_fd w) of
        None \<Rightarrow> w
      | Some list \<Rightarrow> w\<lparr>wp_files := (wp_files w)(m_fd w := None), wp_kernel := snd (snd (bp_dev_release P M list (wp_kernel w)))\<rparr>)"

definition wp_ioctl ::
    "'s perf_core \<Rightarrow> bp_machine \<Rightarrow> watch_env \<Rightarrow> nat \<Rightarrow> perf_attr \<Rightarrow> 's watch \<Rightarrow> int \<times> 's watch" where
  "wp_ioctl P M V cmd attr w =
     (case wp_files w (m_fd w) of
        None \<Rightarrow> (-EBADF, w)
      | Some list \<Rightarrow>
          (case bp_dev_ioctl P M (we_mem1 V) (we_mem2 V) cmd (Some attr) list (wp_kernel w) of
             (rc, list, s) \<Rightarrow> (rc, w\<lparr>wp_files := (wp_files w)(m_fd w \<mapsto> list), wp_kernel := s\<rparr>)))"

definition watchpoint_init :: "'s perf_core \<Rightarrow> bp_machine \<Rightarrow> watch_env \<Rightarrow> 's watch \<Rightarrow> int \<times> 's watch" where
  "watchpoint_init P M V w =
     (let w = w\<lparr>m_fd := we_fd V\<rparr> in
      if we_fd V < 0 then (-1, w)
      else
        (let w = w\<lparr>wp_files := (wp_files w)(we_fd V \<mapsto> [])\<rparr> in
         if \<not> we_sigaction V then (-1, (wp_close P M w)\<lparr>m_fd := 0\<rparr>)
         else (0, w\<lparr>handler_set := True\<rparr>)))"

definition add_watchpoint ::
    "'s perf_core \<Rightarrow> bp_machine \<Rightarrow> watch_env \<Rightarrow> perf_attr \<Rightarrow> u64 \<Rightarrow> 's watch \<Rightarrow> int \<times> 's watch" where
  "add_watchpoint P M V junk addr w =
     (case wp_ioctl P M V BP_CREATE (watch_attr junk addr) w of (rc, w) \<Rightarrow>
        if rc < 0 then (-1, w) else (0, w\<lparr>wp_addr := addr\<rparr>))"

definition del_watchpoint :: "'s perf_core \<Rightarrow> bp_machine \<Rightarrow> watch_env \<Rightarrow> perf_attr \<Rightarrow> 's watch \<Rightarrow> int \<times> 's watch" where
  "del_watchpoint P M V junk w =
     (case wp_ioctl P M V BP_DEL (watch_attr junk (wp_addr w)) w of (rc, w) \<Rightarrow> if rc < 0 then (-1, w) else (0, w))"

definition start_monitor ::
    "'s perf_core \<Rightarrow> bp_machine \<Rightarrow> watch_env \<Rightarrow> perf_attr \<Rightarrow> u64 \<Rightarrow> 's watch \<Rightarrow> int \<times> 's watch" where
  "start_monitor P M V junk addr w =
     (case watchpoint_init P M V w of (rc, w) \<Rightarrow>
        if rc < 0 then (-1, w)
        else (case add_watchpoint P M V junk addr w of (rc, w) \<Rightarrow> if rc < 0 then (-1, w) else (0, w)))"

definition stop_monitor :: "'s perf_core \<Rightarrow> bp_machine \<Rightarrow> watch_env \<Rightarrow> perf_attr \<Rightarrow> 's watch \<Rightarrow> int \<times> 's watch" where
  "stop_monitor P M V junk w = (case del_watchpoint P M V junk w of (rc, w) \<Rightarrow> (0, wp_close P M w))"

end
