(* ===== verification/HwBpProof.thy ===== *)
theory HwBpProof
  imports HwBp "HOL-Library.Multiset"
begin

text \<open>
  The constraint table counts what it says, and never admits more breakpoints than there are
  registers. \<open>tbl_ok S held\<close> states this for the events \<open>held\<close> that have a slot.
\<close>

section \<open>Arrays of counts\<close>

definition counts :: "u32 list \<Rightarrow> (nat \<Rightarrow> nat) \<Rightarrow> bool" where
  "counts a f \<longleftrightarrow> (\<forall>n<length a. a ! n = of_nat (card {x. f x = Suc n}))"

lemma card_bump:
  fixes f :: "nat \<Rightarrow> nat"
  assumes fin: "finite {x. f x \<noteq> 0}"
  shows "card {x. (f(k := Suc (f k))) x = Suc n} =
    (if n = f k then Suc (card {x. f x = Suc n}) else if Suc n = f k then card {x. f x = Suc n} - 1 else card {x. f x = Suc n})"
proof -
  have fn: "finite {x. f x = Suc n}" by (rule finite_subset [OF _ fin]) auto
  consider "n = f k" | "Suc n = f k" | "n \<noteq> f k" "Suc n \<noteq> f k" by blast
  then show ?thesis
  proof cases
    case 1
    then have "{x. (f(k := Suc (f k))) x = Suc n} = insert k {x. f x = Suc n}" "k \<notin> {x. f x = Suc n}" by auto
    with fn 1 show ?thesis by simp
  next
    case 2
    then have "{x. (f(k := Suc (f k))) x = Suc n} = {x. f x = Suc n} - {k}" "k \<in> {x. f x = Suc n}" by auto
    with fn 2 show ?thesis by simp
  next
    case 3
    then have "{x. (f(k := Suc (f k))) x = Suc n} = {x. f x = Suc n}" by auto
    with 3 show ?thesis by simp
  qed
qed

lemma card_pos:
  fixes f :: "nat \<Rightarrow> nat"
  assumes "finite {x. f x \<noteq> 0}" "f k = Suc n"
  shows "0 < card {x. f x = Suc n}"
proof -
  have "finite {x. f x = Suc n}" by (rule finite_subset [OF _ assms(1)]) auto
  then show ?thesis using assms(2) by (auto simp: card_gt_0_iff)
qed

text \<open>The two changes of an array when task \<open>k\<close> gets one more breakpoint, or has one less.\<close>

definition shift :: "u32 \<Rightarrow> nat \<Rightarrow> u32 list \<Rightarrow> u32 list option" where
  "shift d m a = Option.bind (bump d (int m) a) (\<lambda>a. if m > 0 then bump (- d) (int m - 1) a else Some a)"

lemma shift_value:
  assumes "m < length a"
  obtains a' where "shift d m a = Some a'" and "length a' = length a"
    and "\<And>n. n < length a \<Longrightarrow> a' ! n = (if n = m then a ! n + d else if Suc n = m then a ! n - d else a ! n)"
proof -
  let ?b = "a[m := a ! m + d]"
  show ?thesis
  proof (cases m)
    case 0
    then show ?thesis using assms that [of ?b] by (simp add: shift_def bump_def nth_list_update)
  next
    case (Suc j)
    have n: "nat (1 + int j) = Suc j" by simp
    show ?thesis using assms Suc
      by (intro that [of "?b[j := ?b ! j - d]"]) (auto simp: shift_def bump_def nth_list_update n)
  qed
qed

lemma shift_up:
  assumes c: "counts a f" and fin: "finite {x. f x \<noteq> 0}" and k: "f k < length a"
  obtains a' where "shift 1 (f k) a = Some a'" and "length a' = length a" and "counts a' (f(k := Suc (f k)))"
proof (rule shift_value [OF k, of 1])
  fix a' assume a': "shift 1 (f k) a = Some a'" "length a' = length a"
    "\<And>n. n < length a \<Longrightarrow> a' ! n = (if n = f k then a ! n + 1 else if Suc n = f k then a ! n - 1 else a ! n)"
  have "a' ! n = of_nat (card {x. (f(k := Suc (f k))) x = Suc n})" if n: "n < length a" for n
  proof (cases "Suc n = f k")
    case True
    with card_pos [OF fin, of k n] c n show ?thesis
      unfolding card_bump [OF fin] a'(3) [OF n] by (simp add: counts_def of_nat_diff)
  next
    case False
    with c n show ?thesis unfolding card_bump [OF fin] a'(3) [OF n] by (simp add: counts_def)
  qed
  with a' that show ?thesis by (simp add: counts_def)
qed

lemma shift_down:
  assumes c: "counts a (f(k := Suc (f k)))" and fin: "finite {x. f x \<noteq> 0}" and k: "f k < length a"
  obtains a' where "shift (-1) (f k) a = Some a'" and "length a' = length a" and "counts a' f"
proof (rule shift_value [OF k, of "-1"])
  fix a' assume a': "shift (-1) (f k) a = Some a'" "length a' = length a"
    "\<And>n. n < length a \<Longrightarrow> a' ! n = (if n = f k then a ! n + -1 else if Suc n = f k then a ! n - -1 else a ! n)"
  have "a' ! n = of_nat (card {x. f x = Suc n})" if n: "n < length a" for n
  proof -
    have an: "a ! n = of_nat (card {x. (f(k := Suc (f k))) x = Suc n})" using c n by (simp add: counts_def)
    show ?thesis
    proof (cases "Suc n = f k")
      case True
      with card_pos [OF fin, of k n] show ?thesis
        unfolding a'(3) [OF n] an card_bump [OF fin] by (simp add: of_nat_diff)
    next
      case False
      then show ?thesis unfolding a'(3) [OF n] an card_bump [OF fin] by simp
    qed
  qed
  with a' that show ?thesis by (simp add: counts_def)
qed

text \<open>The largest count of an array.\<close>

lemma max_pinned_loop_ok:
  assumes c: "counts a f" and fin: "finite {x. f x \<noteq> 0}" and big: "card {x. f x \<noteq> 0} < 2 ^ 32"
  shows "n \<le> length a \<Longrightarrow> f k \<le> n \<Longrightarrow> f k \<le> max_pinned_loop a n"
    and "n \<le> length a \<Longrightarrow> max_pinned_loop a n \<noteq> 0 \<Longrightarrow> \<exists>k. f k = max_pinned_loop a n"
    and "max_pinned_loop a n \<le> n"
proof -
  have nz: "a ! m > 0 \<longleftrightarrow> (\<exists>k. f k = Suc m)" if "m < length a" for m
  proof -
    have s: "{x. f x = Suc m} \<subseteq> {x. f x \<noteq> 0}" by auto
    then have "card {x. f x = Suc m} < 2 ^ 32" using card_mono [OF fin s] big by linarith
    then have "unat (of_nat (card {x. f x = Suc m}) :: u32) = card {x. f x = Suc m}" by (simp add: unat_of_nat)
    then have "a ! m > 0 \<longleftrightarrow> card {x. f x = Suc m} \<noteq> 0"
      using c that by (simp add: counts_def word_less_nat_alt)
    then show ?thesis using finite_subset [OF s fin] by auto
  qed
  show "n \<le> length a \<Longrightarrow> f k \<le> n \<Longrightarrow> f k \<le> max_pinned_loop a n"
  proof (induction n)
    case (Suc n)
    show ?case
    proof (cases "f k = Suc n")
      case True
      then have "a ! n > 0" using nz [of n] Suc.prems(1) by auto
      with True show ?thesis by simp
    next
      case False
      then show ?thesis using Suc by auto
    qed
  qed simp
  show "n \<le> length a \<Longrightarrow> max_pinned_loop a n \<noteq> 0 \<Longrightarrow> \<exists>k. f k = max_pinned_loop a n"
  proof (induction n)
    case (Suc n)
    then show ?case using nz [of n] by (auto split: if_splits)
  qed simp
  show "max_pinned_loop a n \<le> n" by (induction n) auto
qed

section \<open>What the table counts\<close>

definition evt :: "'i bp_table \<Rightarrow> nat \<Rightarrow> 'i perf_event" where
  "evt S i = the (bp_events S i)"

definition on_cpu :: "'i perf_event \<Rightarrow> nat \<Rightarrow> bool" where
  "on_cpu bp c \<longleftrightarrow> pe_cpu bp < 0 \<or> int c = pe_cpu bp"

definition task_n :: "'i bp_table \<Rightarrow> nat list \<Rightarrow> nat \<Rightarrow> bp_type_idx \<Rightarrow> nat \<Rightarrow> nat" where
  "task_n S L c t k = length (filter
     (\<lambda>i. pe_target (evt S i) = Some k \<and> find_slot_idx (evt S i) = t \<and> on_cpu (evt S i) c) L)"

definition cpu_n :: "'i bp_table \<Rightarrow> nat list \<Rightarrow> nat \<Rightarrow> bp_type_idx \<Rightarrow> nat" where
  "cpu_n S L c t = length (filter
     (\<lambda>i. pe_target (evt S i) = None \<and> find_slot_idx (evt S i) = t \<and> on_cpu (evt S i) c) L)"

definition good :: "'i bp_table \<Rightarrow> nat \<Rightarrow> bp_type_idx \<Rightarrow> (nat \<Rightarrow> nat) \<Rightarrow> bool" where
  "good S c t f \<longleftrightarrow> (\<exists>a. nr_task_bp_pinned S c t = Some a \<and> length a = nat (nr_slots S t) \<and> counts a f)"

text \<open>An event the perf core would create: a cpu or a task, and a cpu of the machine.\<close>

definition event_ok :: "'i bp_table \<Rightarrow> 'i perf_event \<Rightarrow> bool" where
  "event_ok S bp \<longleftrightarrow> (pe_target bp = None \<longrightarrow> 0 \<le> pe_cpu bp) \<and>
     (0 \<le> pe_cpu bp \<longrightarrow> nat (pe_cpu bp) \<in> set (possible_cpus S))"

definition tbl_ok :: "'i bp_table \<Rightarrow> nat list \<Rightarrow> bool" where
  "tbl_ok S held \<longleftrightarrow> constraints_initialized S \<and> distinct (possible_cpus S) \<and> possible_cpus S \<noteq> [] \<and>
     (\<forall>t. 0 \<le> nr_slots S t \<and> nr_slots S t < 2 ^ 30) \<and>
     distinct held \<and> length held < 2 ^ 32 \<and>
     (\<forall>i\<in>set held. bp_events S i \<noteq> None \<and> event_ok S (evt S i)) \<and>
     distinct (bp_task_head S) \<and> set (bp_task_head S) = {i \<in> set held. pe_target (evt S i) \<noteq> None} \<and>
     (\<forall>c\<in>set (possible_cpus S). \<forall>t. nr_bp_flexible S c t = 0 \<and>
        nr_cpu_bp_pinned S c t = of_nat (cpu_n S held c t) \<and> good S c t (task_n S (bp_task_head S) c t) \<and>
        (\<forall>k. cpu_n S held c t + task_n S (bp_task_head S) c t k \<le> nat (nr_slots S t)))"

lemma task_pinned_loop_ok:
  "\<forall>i\<in>set L. bp_events S i \<noteq> None \<Longrightarrow>
     task_pinned_loop c (Some k) t (bp_events S) n L = Some (n + task_n S L c t k)"
proof (induction L arbitrary: n)
  case (Cons i L)
  then obtain bp where bp: "bp_events S i = Some bp" by auto
  then have "evt S i = bp" by (simp add: evt_def)
  with Cons bp show ?case by (simp add: task_n_def on_cpu_def hw_breakpoint_weight_def)
qed (simp add: task_n_def)

lemma task_n_support: "{k. task_n S L c t k \<noteq> 0} \<subseteq> (\<lambda>i. the (pe_target (evt S i))) ` set L"
proof
  fix k assume "k \<in> {k. task_n S L c t k \<noteq> 0}"
  then obtain i where "i \<in> set L" "pe_target (evt S i) = Some k" by (auto simp: task_n_def filter_empty_conv)
  then show "k \<in> (\<lambda>i. the (pe_target (evt S i))) ` set L" by (intro image_eqI [of _ _ i]) simp_all
qed

lemma finite_task_n: "finite {k. task_n S L c t k \<noteq> 0}"
  by (rule finite_subset [OF task_n_support]) simp

lemma card_task_n: "card {k. task_n S L c t k \<noteq> 0} \<le> length L"
proof -
  have "card {k. task_n S L c t k \<noteq> 0} \<le> card ((\<lambda>i. the (pe_target (evt S i))) ` set L)"
    using task_n_support by (intro card_mono) simp_all
  also have "\<dots> \<le> card (set L)" by (rule card_image_le) simp
  also have "\<dots> \<le> length L" by (rule card_length)
  finally show ?thesis .
qed

lemma task_n_same: "bp_events S' = bp_events S \<Longrightarrow> task_n S' = task_n S"
  by (simp add: fun_eq_iff task_n_def evt_def)

lemma cpu_n_same: "bp_events S' = bp_events S \<Longrightarrow> cpu_n S' = cpu_n S"
  by (simp add: fun_eq_iff cpu_n_def evt_def)

lemma task_n_snoc:
  "task_n S (L @ [i]) c t = (if pe_target (evt S i) \<noteq> None \<and> find_slot_idx (evt S i) = t \<and> on_cpu (evt S i) c
     then (task_n S L c t)(the (pe_target (evt S i)) := Suc (task_n S L c t (the (pe_target (evt S i)))))
     else task_n S L c t)"
  by (auto simp: fun_eq_iff task_n_def)

lemma task_n_remove1:
  assumes "i \<in> set L" and "distinct L"
  shows "task_n S L c t = (if pe_target (evt S i) \<noteq> None \<and> find_slot_idx (evt S i) = t \<and> on_cpu (evt S i) c
     then (task_n S (remove1 i L) c t)(the (pe_target (evt S i)) := Suc (task_n S (remove1 i L) c t (the (pe_target (evt S i)))))
     else task_n S (remove1 i L) c t)"
proof -
  have "task_n S L c t k = task_n S (remove1 i L @ [i]) c t k" for k
  proof -
    have "mset L = mset (remove1 i L @ [i])" using assms(1) by simp
    then have "size (filter_mset P (mset L)) = size (filter_mset P (mset (remove1 i L @ [i])))" for P by simp
    then show ?thesis unfolding task_n_def mset_filter [symmetric] size_mset [symmetric] by simp
  qed
  then show ?thesis by (simp add: task_n_snoc fun_eq_iff)
qed

section \<open>Toggling\<close>

lemma toggle_task_slot_shift:
  "toggle_bp_task_slot bp enable t 1 c S = do {
     old \<leftarrow> task_bp_pinned c bp t S;
     a \<leftarrow> nr_task_bp_pinned S c t;
     a \<leftarrow> shift (if enable then 1 else -1) old a;
     Some (S\<lparr>nr_task_bp_pinned := (nr_task_bp_pinned S)(c := (nr_task_bp_pinned S c)(t := Some a))\<rparr>)
   }"
  by (auto simp: toggle_bp_task_slot_def shift_def Let_def split: option.split bind_splits)

text \<open>\<open>F c\<close> counts the tasks' breakpoints of the type on \<open>c\<close> without the event that is toggled.\<close>

lemma toggle_task_slot_ok:
  assumes ev: "\<forall>i\<in>set (bp_task_head S). bp_events S i \<noteq> None" and bp: "pe_target bp = Some k"
    and f: "f = task_n S (bp_task_head S) c t" and room: "f k < nat (nr_slots S t)"
    and g: "good S c t (if enable then f else f(k := Suc (f k)))"
  obtains m where "toggle_bp_task_slot bp enable t 1 c S = Some (S\<lparr>nr_task_bp_pinned := m\<rparr>)"
    and "\<forall>c' t'. (c', t') \<noteq> (c, t) \<longrightarrow> m c' t' = nr_task_bp_pinned S c' t'"
    and "good (S\<lparr>nr_task_bp_pinned := m\<rparr>) c t (if enable then f(k := Suc (f k)) else f)"
proof -
  have old: "task_bp_pinned c bp t S = Some (f k)"
    using task_pinned_loop_ok [OF ev, where n = 0] by (simp add: task_bp_pinned_def bp f)
  have fin: "finite {x. f x \<noteq> 0}" unfolding f by (rule finite_task_n)
  obtain a where a: "nr_task_bp_pinned S c t = Some a" "length a = nat (nr_slots S t)"
    "counts a (if enable then f else f(k := Suc (f k)))" using g by (auto simp: good_def)
  have k: "f k < length a" using room a(2) by simp
  have "\<exists>a'. shift (if enable then 1 else -1) (f k) a = Some a' \<and> length a' = length a \<and>
      counts a' (if enable then f(k := Suc (f k)) else f)"
  proof (cases enable)
    case True
    then have "counts a f" using a(3) by simp
    show ?thesis by (rule shift_up [OF \<open>counts a f\<close> fin k]) (use True in auto)
  next
    case False
    then have "counts a (f(k := Suc (f k)))" using a(3) by simp
    show ?thesis by (rule shift_down [OF \<open>counts a (f(k := Suc (f k)))\<close> fin k]) (use False in auto)
  qed
  then obtain a' where a': "shift (if enable then 1 else -1) (f k) a = Some a'" "length a' = length a"
    "counts a' (if enable then f(k := Suc (f k)) else f)" by blast
  have "toggle_bp_task_slot bp enable t 1 c S =
      Some (S\<lparr>nr_task_bp_pinned := (nr_task_bp_pinned S)(c := (nr_task_bp_pinned S c)(t := Some a'))\<rparr>)"
    unfolding toggle_task_slot_shift old a(1) by (simp add: a'(1))
  then show ?thesis by (rule that) (use a' a(2) in \<open>auto simp: good_def\<close>)
qed

lemma toggle_cpus_ok:
  assumes bp: "pe_target bp = Some k"
  shows "\<forall>i\<in>set (bp_task_head S). bp_events S i \<noteq> None \<Longrightarrow> distinct cs \<Longrightarrow>
    \<forall>c\<in>set cs. task_n S (bp_task_head S) c t k < nat (nr_slots S t) \<and>
      good S c t (if enable then task_n S (bp_task_head S) c t
        else (task_n S (bp_task_head S) c t)(k := Suc (task_n S (bp_task_head S) c t k))) \<Longrightarrow>
    \<exists>m. toggle_cpus bp enable t 1 cs S = Some (S\<lparr>nr_task_bp_pinned := m\<rparr>) \<and>
      (\<forall>c t'. c \<notin> set cs \<or> t' \<noteq> t \<longrightarrow> m c t' = nr_task_bp_pinned S c t') \<and>
      (\<forall>c\<in>set cs. good (S\<lparr>nr_task_bp_pinned := m\<rparr>) c t
        (if enable then (task_n S (bp_task_head S) c t)(k := Suc (task_n S (bp_task_head S) c t k))
         else task_n S (bp_task_head S) c t))"
proof (induction cs arbitrary: S)
  case Nil
  then show ?case by (intro exI [of _ "nr_task_bp_pinned S"]) simp
next
  case (Cons c cs)
  have c: "task_n S (bp_task_head S) c t k < nat (nr_slots S t)"
    "good S c t (if enable then task_n S (bp_task_head S) c t
        else (task_n S (bp_task_head S) c t)(k := Suc (task_n S (bp_task_head S) c t k)))" using Cons.prems(3) by auto
  obtain m where m: "toggle_bp_task_slot bp enable t 1 c S = Some (S\<lparr>nr_task_bp_pinned := m\<rparr>)"
    "\<forall>c' t'. (c', t') \<noteq> (c, t) \<longrightarrow> m c' t' = nr_task_bp_pinned S c' t'"
    "good (S\<lparr>nr_task_bp_pinned := m\<rparr>) c t (if enable then (task_n S (bp_task_head S) c t)(k := Suc (task_n S (bp_task_head S) c t k))
       else task_n S (bp_task_head S) c t)"
    by (rule toggle_task_slot_ok [OF Cons.prems(1) bp refl c])
  let ?S = "S\<lparr>nr_task_bp_pinned := m\<rparr>"
  have tn: "task_n ?S = task_n S" by (rule task_n_same) simp
  have gs: "good ?S c' t f = good S c' t f" if "c' \<noteq> c" for c' f using m(2) that by (simp add: good_def)
  have "\<forall>c\<in>set cs. task_n ?S (bp_task_head ?S) c t k < nat (nr_slots ?S t) \<and>
      good ?S c t (if enable then task_n ?S (bp_task_head ?S) c t
        else (task_n ?S (bp_task_head ?S) c t)(k := Suc (task_n ?S (bp_task_head ?S) c t k)))"
  proof
    fix c' assume "c' \<in> set cs"
    moreover then have "c' \<noteq> c" using Cons.prems(2) by auto
    ultimately show "task_n ?S (bp_task_head ?S) c' t k < nat (nr_slots ?S t) \<and>
      good ?S c' t (if enable then task_n ?S (bp_task_head ?S) c' t
        else (task_n ?S (bp_task_head ?S) c' t)(k := Suc (task_n ?S (bp_task_head ?S) c' t k)))"
      using Cons.prems(3) unfolding tn gs [OF \<open>c' \<noteq> c\<close>] by auto
  qed
  moreover have "\<forall>i\<in>set (bp_task_head ?S). bp_events ?S i \<noteq> None" "distinct cs" using Cons.prems by simp_all
  ultimately obtain m' where m': "toggle_cpus bp enable t 1 cs ?S = Some (?S\<lparr>nr_task_bp_pinned := m'\<rparr>)"
    "\<forall>c t'. c \<notin> set cs \<or> t' \<noteq> t \<longrightarrow> m' c t' = nr_task_bp_pinned ?S c t'"
    "\<forall>c\<in>set cs. good (?S\<lparr>nr_task_bp_pinned := m'\<rparr>) c t
        (if enable then (task_n ?S (bp_task_head ?S) c t)(k := Suc (task_n ?S (bp_task_head ?S) c t k))
         else task_n ?S (bp_task_head ?S) c t)" using Cons.IH by blast
  have "m' c t = m c t" using m'(2) Cons.prems(2) by auto
  then have "good (S\<lparr>nr_task_bp_pinned := m'\<rparr>) c t f = good ?S c t f" for f by (simp add: good_def)
  then show ?case using m m' unfolding tn by (intro exI [of _ m']) auto
qed

section \<open>Looking for room\<close>

definition room_on :: "'i bp_table \<Rightarrow> nat list \<Rightarrow> 'i perf_event \<Rightarrow> nat \<Rightarrow> bool" where
  "room_on S held bp c \<longleftrightarrow> (\<forall>k. pe_target bp = None \<or> pe_target bp = Some k \<longrightarrow>
     cpu_n S held c (find_slot_idx bp) + task_n S (bp_task_head S) c (find_slot_idx bp) k + 1 \<le> nat (nr_slots S (find_slot_idx bp)))"

definition room :: "'i bp_table \<Rightarrow> nat list \<Rightarrow> 'i perf_event \<Rightarrow> bool" where
  "room S held bp \<longleftrightarrow> (\<forall>c\<in>set (possible_cpus S). on_cpu bp c \<longrightarrow> room_on S held bp c)"

lemma tbl_okD:
  assumes "tbl_ok S held"
  shows "distinct (possible_cpus S)" and "possible_cpus S \<noteq> []" and "nat (nr_slots S t) < 2 ^ 30" and "0 \<le> nr_slots S t"
    and "distinct held" and "length held < 2 ^ 32" and "distinct (bp_task_head S)" and "constraints_initialized S"
    and "i \<in> set held \<Longrightarrow> bp_events S i = Some (evt S i)" and "i \<in> set held \<Longrightarrow> event_ok S (evt S i)"
    and "set (bp_task_head S) = {i \<in> set held. pe_target (evt S i) \<noteq> None}"
proof -
  show "nat (nr_slots S t) < 2 ^ 30" "0 \<le> nr_slots S t"
    using assms by (auto simp: tbl_ok_def nat_less_iff)
  show "i \<in> set held \<Longrightarrow> bp_events S i = Some (evt S i)" using assms by (auto simp: tbl_ok_def evt_def)
qed (use assms in \<open>auto simp: tbl_ok_def\<close>)

lemma tbl_ok_cpu:
  assumes "tbl_ok S held" and "c \<in> set (possible_cpus S)"
  shows "nr_bp_flexible S c t = 0" and "nr_cpu_bp_pinned S c t = of_nat (cpu_n S held c t)"
    and "good S c t (task_n S (bp_task_head S) c t)"
    and "cpu_n S held c t + task_n S (bp_task_head S) c t k \<le> nat (nr_slots S t)"
  using assms by (auto simp: tbl_ok_def)

lemma tbl_ok_small: "tbl_ok S held \<Longrightarrow> card {k. task_n S (bp_task_head S) c t k \<noteq> 0} < 2 ^ 32"
proof -
  assume ok: "tbl_ok S held"
  have "length (bp_task_head S) = card (set (bp_task_head S))" using tbl_okD(7) [OF ok] by (simp add: distinct_card)
  also have "\<dots> \<le> card (set held)" using tbl_okD(11) [OF ok] by (intro card_mono) auto
  also have "\<dots> \<le> length held" by (rule card_length)
  finally show ?thesis using card_task_n [of S "bp_task_head S" c t] tbl_okD(6) [OF ok] by linarith
qed

lemma pinned_on_ok:
  assumes ok: "tbl_ok S held" and c: "c \<in> set (possible_cpus S)"
  obtains p where "pinned_on c bp (find_slot_idx bp) S = Some (of_nat p)" and "p < 2 ^ 31"
    and "p + 1 \<le> nat (nr_slots S (find_slot_idx bp)) \<longleftrightarrow> room_on S held bp c"
proof -
  let ?t = "find_slot_idx bp"
  let ?f = "task_n S (bp_task_head S) c ?t"
  let ?N = "nat (nr_slots S ?t)"
  note cap = tbl_ok_cpu(4) [OF ok c]
  show ?thesis
  proof (cases "pe_target bp")
    case None
    obtain a where a: "nr_task_bp_pinned S c ?t = Some a" "length a = ?N" "counts a ?f"
      using tbl_ok_cpu(3) [OF ok c, of ?t] by (auto simp: good_def)
    define m where "m = max_pinned_loop a ?N"
    note mx = max_pinned_loop_ok [OF a(3) finite_task_n tbl_ok_small [OF ok]]
    have m: "?f k \<le> m" for k using mx(1) [of ?N k] a(2) cap [of ?t k] by (simp add: m_def)
    have mN: "m \<le> ?N" unfolding m_def by (rule mx(3))
    have e: "m \<noteq> 0 \<Longrightarrow> \<exists>k. ?f k = m" using mx(2) [of ?N] a(2) by (simp add: m_def)
    have "pinned_on c bp ?t S = Some (of_nat (cpu_n S held c ?t + m))"
      using None a(1) tbl_ok_cpu(2) [OF ok c] by (simp add: pinned_on_def max_task_bp_pinned_def m_def)
    moreover have "cpu_n S held c ?t + m < 2 ^ 31" using cap [of ?t 0] mN tbl_okD(3) [OF ok, of ?t] by simp
    moreover have "cpu_n S held c ?t + m + 1 \<le> ?N \<longleftrightarrow> room_on S held bp c"
    proof
      assume le: "cpu_n S held c ?t + m + 1 \<le> ?N"
      have "cpu_n S held c ?t + ?f k + 1 \<le> ?N" for k using m [of k] le by linarith
      then show "room_on S held bp c" by (simp add: room_on_def)
    next
      assume r: "room_on S held bp c"
      then have r: "cpu_n S held c ?t + ?f k + 1 \<le> ?N" for k using None by (simp add: room_on_def)
      show "cpu_n S held c ?t + m + 1 \<le> ?N"
      proof (cases "m = 0")
        case True
        then show ?thesis using r [of 0] by linarith
      next
        case False
        with e obtain k where "?f k = m" by blast
        then show ?thesis using r [of k] by simp
      qed
    qed
    ultimately show ?thesis using that by blast
  next
    case (Some k)
    have ev: "\<forall>i\<in>set (bp_task_head S). bp_events S i \<noteq> None" using tbl_okD(9,11) [OF ok] by auto
    have "pinned_on c bp ?t S = Some (of_nat (cpu_n S held c ?t + ?f k))"
      using Some task_pinned_loop_ok [OF ev] tbl_ok_cpu(2) [OF ok c] by (simp add: pinned_on_def task_bp_pinned_def)
    moreover have "cpu_n S held c ?t + ?f k < 2 ^ 31" using cap [of ?t k] tbl_okD(3) [OF ok, of ?t] by simp
    moreover have "cpu_n S held c ?t + ?f k + 1 \<le> ?N \<longleftrightarrow> room_on S held bp c" using Some by (simp add: room_on_def)
    ultimately show ?thesis using that by blast
  qed
qed

lemma word_gt: "a < 2 ^ 31 \<Longrightarrow> b < 2 ^ 31 \<Longrightarrow> (of_nat a :: u32) > of_nat b \<longleftrightarrow> b < a"
  by (simp add: word_less_nat_alt unat_of_nat)

lemma fetch_all_cpus_ok:
  assumes ok: "tbl_ok S held"
  shows "set cs \<subseteq> set (possible_cpus S) \<Longrightarrow> x < 2 ^ 31 \<Longrightarrow>
    \<exists>p. fetch_all_cpus bp (find_slot_idx bp) S cs (of_nat x, 0) = Some (of_nat p, 0) \<and> p < 2 ^ 31 \<and>
      (p + 1 \<le> nat (nr_slots S (find_slot_idx bp)) \<longleftrightarrow>
        x + 1 \<le> nat (nr_slots S (find_slot_idx bp)) \<and> (\<forall>c\<in>set cs. room_on S held bp c))"
proof (induction cs arbitrary: x)
  case (Cons c cs)
  let ?t = "find_slot_idx bp"
  have c: "c \<in> set (possible_cpus S)" using Cons.prems(1) by simp
  obtain p where p: "pinned_on c bp ?t S = Some (of_nat p)" "p < 2 ^ 31"
    "p + 1 \<le> nat (nr_slots S ?t) \<longleftrightarrow> room_on S held bp c" by (rule pinned_on_ok [OF ok c])
  define y where "y = max p x"
  have "(if (of_nat p :: u32) > of_nat x then of_nat p else of_nat x) = (of_nat y :: u32)"
    using word_gt [OF p(2) Cons.prems(2)] by (simp add: y_def max_def)
  then have run: "fetch_all_cpus bp ?t S (c # cs) (of_nat x, 0) = fetch_all_cpus bp ?t S cs (of_nat y, 0)"
    using p(1) tbl_ok_cpu(1) [OF ok c] by simp
  have y: "y < 2 ^ 31" using p(2) Cons.prems(2) by (simp add: y_def)
  have "set cs \<subseteq> set (possible_cpus S)" using Cons.prems(1) by simp
  from Cons.IH [OF this y] obtain q where q: "fetch_all_cpus bp ?t S cs (of_nat y, 0) = Some (of_nat q, 0)" "q < 2 ^ 31"
    "q + 1 \<le> nat (nr_slots S ?t) \<longleftrightarrow> y + 1 \<le> nat (nr_slots S ?t) \<and> (\<forall>c\<in>set cs. room_on S held bp c)" by blast
  have "y + 1 \<le> nat (nr_slots S ?t) \<longleftrightarrow> x + 1 \<le> nat (nr_slots S ?t) \<and> room_on S held bp c"
    unfolding p(3) [symmetric] by (auto simp: y_def)
  then show ?case using run q by auto
qed auto

lemma fetch_bp_busy_slots_ok:
  assumes ok: "tbl_ok S held" and bp: "event_ok S bp"
  obtains p where "fetch_bp_busy_slots bp (find_slot_idx bp) S = Some (of_nat p, 0)" and "p < 2 ^ 31"
    and "p + 1 \<le> nat (nr_slots S (find_slot_idx bp)) \<longleftrightarrow> room S held bp"
proof (cases "0 \<le> pe_cpu bp")
  case True
  then have c: "nat (pe_cpu bp) \<in> set (possible_cpus S)" using bp by (simp add: event_ok_def)
  have "on_cpu bp c \<longleftrightarrow> c = nat (pe_cpu bp)" for c using True by (auto simp: on_cpu_def)
  then have r: "room S held bp \<longleftrightarrow> room_on S held bp (nat (pe_cpu bp))" using c by (auto simp: room_def)
  obtain p where p: "pinned_on (nat (pe_cpu bp)) bp (find_slot_idx bp) S = Some (of_nat p)" "p < 2 ^ 31"
    "p + 1 \<le> nat (nr_slots S (find_slot_idx bp)) \<longleftrightarrow> room_on S held bp (nat (pe_cpu bp))" by (rule pinned_on_ok [OF ok c])
  show ?thesis by (rule that [of p]) (use p r True tbl_ok_cpu(1) [OF ok c] in \<open>simp_all add: fetch_bp_busy_slots_def\<close>)
next
  case False
  from fetch_all_cpus_ok [OF ok order_refl, of 0 bp] obtain p where
    p: "fetch_all_cpus bp (find_slot_idx bp) S (possible_cpus S) (0, 0) = Some (of_nat p, 0)" "p < 2 ^ 31"
    "p + 1 \<le> nat (nr_slots S (find_slot_idx bp)) \<longleftrightarrow>
      1 \<le> nat (nr_slots S (find_slot_idx bp)) \<and> (\<forall>c\<in>set (possible_cpus S). room_on S held bp c)" by auto
  obtain c where c: "c \<in> set (possible_cpus S)" using tbl_okD(2) [OF ok] by (meson hd_in_set)
  have "room_on S held bp c \<Longrightarrow> 1 \<le> nat (nr_slots S (find_slot_idx bp))"
    using bp False by (cases "pe_target bp") (auto simp: room_on_def event_ok_def)
  then have "p + 1 \<le> nat (nr_slots S (find_slot_idx bp)) \<longleftrightarrow> room S held bp"
    using p(3) c False by (auto simp: room_def on_cpu_def)
  then show ?thesis using that p(1,2) False by (simp add: fetch_bp_busy_slots_def)
qed

lemma slots_compare:
  assumes "p < 2 ^ 31" and "0 \<le> n" and "nat n < 2 ^ 30"
  shows "of_nat p + 1 > (of_int n :: u32) \<longleftrightarrow> \<not> p + 1 \<le> nat n"
proof -
  have n: "(of_int n :: u32) = of_nat (nat n)" using assms(2) by simp
  have "unat (of_nat (p + 1) :: u32) = p + 1" "unat (of_nat (nat n) :: u32) = nat n"
    using assms by (simp_all only: unat_of_nat) simp_all
  moreover have "(of_nat p + 1 :: u32) = of_nat (p + 1)" by simp
  ultimately show ?thesis unfolding n word_less_nat_alt by (simp add: add.commute not_le)
qed

section \<open>Reserving and releasing\<close>

text \<open>The cpus whose counters an event changes.\<close>

definition touched :: "'i bp_table \<Rightarrow> 'i perf_event \<Rightarrow> nat list" where
  "touched S bp = (if pe_cpu bp \<ge> 0 then [nat (pe_cpu bp)] else possible_cpus S)"

lemma touched_iff: "event_ok S bp \<Longrightarrow> c \<in> set (touched S bp) \<longleftrightarrow> c \<in> set (possible_cpus S) \<and> on_cpu bp c"
  by (auto simp: touched_def on_cpu_def event_ok_def)

lemma cpu_n_Cons:
  "cpu_n S (i # L) c t = (if pe_target (evt S i) = None \<and> find_slot_idx (evt S i) = t \<and> on_cpu (evt S i) c
     then Suc (cpu_n S L c t) else cpu_n S L c t)"
  by (simp add: cpu_n_def)

lemma cpu_n_remove1: "i \<in> set L \<Longrightarrow> cpu_n S L c t = cpu_n S (i # remove1 i L) c t"
proof -
  assume i: "i \<in> set L"
  then have "mset L = mset (i # remove1 i L)" by simp
  then have "size (filter_mset P (mset L)) = size (filter_mset P (mset (i # remove1 i L)))" for P by simp
  then show ?thesis unfolding cpu_n_def mset_filter [symmetric] size_mset [symmetric] by simp
qed

lemma tbl_ok_change:
  assumes ok: "tbl_ok S held" and same: "constraints_initialized S' = constraints_initialized S"
      "possible_cpus S' = possible_cpus S" "nr_slots S' = nr_slots S" "bp_events S' = bp_events S" "nr_bp_flexible S' = nr_bp_flexible S"
    and held: "distinct held'" "length held' < 2 ^ 32" "\<forall>i\<in>set held'. bp_events S i \<noteq> None \<and> event_ok S (evt S i)"
    and head: "distinct (bp_task_head S')" "set (bp_task_head S') = {i \<in> set held'. pe_target (evt S i) \<noteq> None}"
    and cpu: "\<And>c t. c \<in> set (possible_cpus S) \<Longrightarrow> nr_cpu_bp_pinned S' c t = of_nat (cpu_n S held' c t)"
      "\<And>c t. c \<in> set (possible_cpus S) \<Longrightarrow> good S' c t (task_n S (bp_task_head S') c t)"
      "\<And>c t k. c \<in> set (possible_cpus S) \<Longrightarrow> cpu_n S held' c t + task_n S (bp_task_head S') c t k \<le> nat (nr_slots S t)"
  shows "tbl_ok S' held'"
proof -
  have n: "task_n S' = task_n S" "cpu_n S' = cpu_n S" by (rule task_n_same [OF same(4)], rule cpu_n_same [OF same(4)])
  have e: "evt S' = evt S" "event_ok S' = event_ok S" by (simp_all add: fun_eq_iff evt_def event_ok_def same(2,4))
  have slots: "\<forall>t. 0 \<le> nr_slots S t \<and> nr_slots S t < 2 ^ 30" using ok by (simp add: tbl_ok_def)
  have cpus: "\<forall>c\<in>set (possible_cpus S). \<forall>t. nr_bp_flexible S c t = 0 \<and>
        nr_cpu_bp_pinned S' c t = of_nat (cpu_n S held' c t) \<and> good S' c t (task_n S (bp_task_head S') c t) \<and>
        (\<forall>k. cpu_n S held' c t + task_n S (bp_task_head S') c t k \<le> nat (nr_slots S t))"
    using tbl_ok_cpu(1) [OF ok] cpu by blast
  show ?thesis
    unfolding tbl_ok_def n e same
    by (intro conjI) (fact tbl_okD(1) [OF ok] tbl_okD(2) [OF ok] tbl_okD(8) [OF ok] slots held head cpus)+
qed

text \<open>What changes when an event gets a slot or gives it back.\<close>

lemma toggle_on:
  assumes ok: "tbl_ok S held" and i: "i \<notin> set held" "bp_events S i = Some bp" and bp: "event_ok S bp"
    and room: "room S held bp" and len: "length held + 1 < 2 ^ 32"
  obtains S' where "toggle_bp_slot i bp True (find_slot_idx bp) 1 S = Some S'" and "tbl_ok S' (i # held)"
    and "bp_events S' = bp_events S" and "possible_cpus S' = possible_cpus S" and "nr_slots S' = nr_slots S"
proof -
  let ?t = "find_slot_idx bp"
  have evt: "evt S i = bp" using i(2) by (simp add: evt_def)
  have evs: "\<forall>j\<in>set (i # held). bp_events S j \<noteq> None \<and> event_ok S (evt S j)"
    using tbl_okD(9,10) [OF ok] i(2) bp evt by auto
  show ?thesis
  proof (cases "pe_target bp")
    case None
    define c0 where "c0 = nat (pe_cpu bp)"
    have c0: "0 \<le> pe_cpu bp" "c0 \<in> set (possible_cpus S)" using bp None by (auto simp: event_ok_def c0_def)
    have on: "on_cpu bp c \<longleftrightarrow> c = c0" for c using c0 by (auto simp: on_cpu_def c0_def)
    let ?S = "S\<lparr>nr_cpu_bp_pinned := (nr_cpu_bp_pinned S)(c0 := (nr_cpu_bp_pinned S c0)(?t := nr_cpu_bp_pinned S c0 ?t + 1))\<rparr>"
    have run: "toggle_bp_slot i bp True ?t 1 S = Some ?S"
      using c0 None by (simp add: toggle_bp_slot_def c0_def Let_def)
    have g: "good ?S = good S" by (simp add: fun_eq_iff good_def)
    have cap: "cpu_n S (i # held) c t + task_n S (bp_task_head S) c t k \<le> nat (nr_slots S t)"
      if c: "c \<in> set (possible_cpus S)" for c t k
    proof (cases "c = c0 \<and> t = ?t")
      case True
      then have "room_on S held bp c" using room c on by (simp add: room_def)
      then have "cpu_n S held c t + task_n S (bp_task_head S) c t k + 1 \<le> nat (nr_slots S t)"
        using None True by (simp add: room_on_def)
      then show ?thesis using evt by (simp add: cpu_n_Cons)
    next
      case False
      then show ?thesis using tbl_ok_cpu(4) [OF ok c, of t k] evt on by (auto simp: cpu_n_Cons)
    qed
    have cn: "nr_cpu_bp_pinned ?S c t = of_nat (cpu_n S (i # held) c t)" if c: "c \<in> set (possible_cpus S)" for c t
      using tbl_ok_cpu(2) [OF ok c, of t] evt on None by (auto simp: cpu_n_Cons)
    have hd: "set (bp_task_head S) = {j \<in> set (i # held). pe_target (evt S j) \<noteq> None}"
      using tbl_okD(11) [OF ok] evt None by auto
    have "tbl_ok ?S (i # held)"
    proof (rule tbl_ok_change [OF ok])
      show "good ?S c t (task_n S (bp_task_head ?S) c t)" if "c \<in> set (possible_cpus S)" for c t
        using tbl_ok_cpu(3) [OF ok that] unfolding g by simp
    qed (use i len evs cap cn hd tbl_okD(5,7) [OF ok] in auto)
    then show ?thesis using that run by simp
  next
    case (Some k)
    have ev: "\<forall>j\<in>set (bp_task_head S). bp_events S j \<noteq> None" using tbl_okD(9,11) [OF ok] by auto
    have sub: "\<forall>c\<in>set (touched S bp). task_n S (bp_task_head S) c ?t k < nat (nr_slots S ?t) \<and>
        good S c ?t (if True then task_n S (bp_task_head S) c ?t else F c)" for F
    proof
      fix c assume "c \<in> set (touched S bp)"
      then have c: "c \<in> set (possible_cpus S)" "on_cpu bp c" using touched_iff [OF bp] by auto
      then have "room_on S held bp c" using room by (simp add: room_def)
      then show "task_n S (bp_task_head S) c ?t k < nat (nr_slots S ?t) \<and>
        good S c ?t (if True then task_n S (bp_task_head S) c ?t else F c)"
        using tbl_ok_cpu(3) [OF ok c(1)] Some by (simp add: room_on_def)
    qed
    have dt: "distinct (touched S bp)" using tbl_okD(1) [OF ok] by (simp add: touched_def)
    from toggle_cpus_ok [OF Some ev dt sub] obtain m where
      m: "toggle_cpus bp True ?t 1 (touched S bp) S = Some (S\<lparr>nr_task_bp_pinned := m\<rparr>)"
      "\<forall>c t'. c \<notin> set (touched S bp) \<or> t' \<noteq> ?t \<longrightarrow> m c t' = nr_task_bp_pinned S c t'"
      "\<forall>c\<in>set (touched S bp). good (S\<lparr>nr_task_bp_pinned := m\<rparr>) c ?t
        ((task_n S (bp_task_head S) c ?t)(k := Suc (task_n S (bp_task_head S) c ?t k)))" by auto
    let ?S = "S\<lparr>nr_task_bp_pinned := m, bp_task_head := bp_task_head S @ [i]\<rparr>"
    have run: "toggle_bp_slot i bp True ?t 1 S = Some ?S"
      using Some m(1) by (simp add: toggle_bp_slot_def touched_def [symmetric])
    have tn: "task_n S (bp_task_head S @ [i]) c t = (if ?t = t \<and> on_cpu bp c
       then (task_n S (bp_task_head S) c t)(k := Suc (task_n S (bp_task_head S) c t k)) else task_n S (bp_task_head S) c t)"
      for c t using task_n_snoc [of S "bp_task_head S" i c t] evt Some by simp
    have cn: "cpu_n S (i # held) c t = cpu_n S held c t" for c t using evt Some by (simp add: cpu_n_Cons)
    have good: "good ?S c t (task_n S (bp_task_head S @ [i]) c t)" if c: "c \<in> set (possible_cpus S)" for c t
    proof (cases "t = ?t \<and> on_cpu bp c")
      case True
      then have "c \<in> set (touched S bp)" using c touched_iff [OF bp] by simp
      then show ?thesis using m(3) True by (auto simp: tn good_def)
    next
      case False
      then have "m c t = nr_task_bp_pinned S c t" using c touched_iff [OF bp, of c] m(2) by auto
      then show ?thesis using tbl_ok_cpu(3) [OF ok c, of t] False by (auto simp: tn good_def)
    qed
    have cap: "cpu_n S held c t + task_n S (bp_task_head S @ [i]) c t k' \<le> nat (nr_slots S t)"
      if c: "c \<in> set (possible_cpus S)" for c t k'
    proof (cases "t = ?t \<and> on_cpu bp c \<and> k' = k")
      case True
      then have "room_on S held bp c" using room c by (simp add: room_def)
      then have "cpu_n S held c t + task_n S (bp_task_head S) c t k + 1 \<le> nat (nr_slots S t)"
        using Some True by (simp add: room_on_def)
      then show ?thesis using True by (simp add: tn)
    next
      case False
      then show ?thesis using tbl_ok_cpu(4) [OF ok c, of t k'] by (auto simp: tn)
    qed
    have hd: "distinct (bp_task_head S @ [i])" "set (bp_task_head S @ [i]) = {j \<in> set (i # held). pe_target (evt S j) \<noteq> None}"
      using tbl_okD(7,11) [OF ok] evt Some i(1) by auto
    have "tbl_ok ?S (i # held)"
      by (rule tbl_ok_change [OF ok])
        (use i len evs hd good cap tbl_ok_cpu(2) [OF ok] tbl_okD(5) [OF ok] in \<open>simp_all add: cn\<close>)
    then show ?thesis using that run by simp
  qed
qed

lemma toggle_off:
  assumes ok: "tbl_ok S held" and i: "i \<in> set held" and bp: "bp = evt S i"
  obtains S' where "toggle_bp_slot i bp False (find_slot_idx bp) 1 S = Some S'" and "tbl_ok S' (remove1 i held)"
    and "bp_events S' = bp_events S" and "possible_cpus S' = possible_cpus S" and "nr_slots S' = nr_slots S"
proof -
  let ?t = "find_slot_idx bp"
  let ?held = "remove1 i held"
  have bpo: "event_ok S bp" using tbl_okD(10) [OF ok i] bp by simp
  have evs: "\<forall>j\<in>set ?held. bp_events S j \<noteq> None \<and> event_ok S (evt S j)"
    using tbl_okD(9,10) [OF ok] set_remove1_subset [of i held] by auto
  have held: "distinct ?held" "length ?held < 2 ^ 32" "set ?held = set held - {i}"
    using tbl_okD(5,6) [OF ok] by (auto simp: length_remove1)
  note cn = cpu_n_remove1 [OF i, of S, unfolded cpu_n_Cons, folded bp]
  show ?thesis
  proof (cases "pe_target bp")
    case None
    define c0 where "c0 = nat (pe_cpu bp)"
    have c0: "0 \<le> pe_cpu bp" "c0 \<in> set (possible_cpus S)" using bpo None by (auto simp: event_ok_def c0_def)
    have on: "on_cpu bp c \<longleftrightarrow> c = c0" for c using c0 by (auto simp: on_cpu_def c0_def)
    let ?S = "S\<lparr>nr_cpu_bp_pinned := (nr_cpu_bp_pinned S)(c0 := (nr_cpu_bp_pinned S c0)(?t := nr_cpu_bp_pinned S c0 ?t - 1))\<rparr>"
    have run: "toggle_bp_slot i bp False ?t 1 S = Some ?S"
      using c0 None by (simp add: toggle_bp_slot_def c0_def Let_def)
    have g: "good ?S = good S" by (simp add: fun_eq_iff good_def)
    have "tbl_ok ?S ?held"
    proof (rule tbl_ok_change [OF ok])
      fix c t k assume c: "c \<in> set (possible_cpus S)"
      show "nr_cpu_bp_pinned ?S c t = of_nat (cpu_n S ?held c t)"
        using tbl_ok_cpu(2) [OF ok c, of t] cn [of c t] None on [of c] by auto
      show "good ?S c t (task_n S (bp_task_head ?S) c t)" using tbl_ok_cpu(3) [OF ok c] unfolding g by simp
      show "cpu_n S ?held c t + task_n S (bp_task_head ?S) c t k \<le> nat (nr_slots S t)"
        using tbl_ok_cpu(4) [OF ok c, of t k] cn [of c t] by (simp split: if_splits)
    next
      show "set (bp_task_head ?S) = {j \<in> set ?held. pe_target (evt S j) \<noteq> None}"
        using tbl_okD(11) [OF ok] bp None held(3) by auto
    qed (use held evs tbl_okD(7) [OF ok] in simp_all)
    then show ?thesis using that run by simp
  next
    case (Some k)
    have ih: "i \<in> set (bp_task_head S)" using tbl_okD(11) [OF ok] i bp Some by simp
    let ?L = "remove1 i (bp_task_head S)"
    let ?S1 = "S\<lparr>bp_task_head := ?L\<rparr>"
    have n1: "task_n ?S1 = task_n S" by (rule task_n_same) simp
    have ev: "\<forall>j\<in>set (bp_task_head ?S1). bp_events ?S1 j \<noteq> None"
      using tbl_okD(9,11) [OF ok] set_remove1_subset [of i "bp_task_head S"] by auto
    have tn: "task_n S (bp_task_head S) c t = (if ?t = t \<and> on_cpu bp c
       then (task_n S ?L c t)(k := Suc (task_n S ?L c t k)) else task_n S ?L c t)" for c t
      using task_n_remove1 [OF ih tbl_okD(7) [OF ok], of S c t] bp Some by simp
    have sub: "\<forall>c\<in>set (touched S bp). task_n ?S1 (bp_task_head ?S1) c ?t k < nat (nr_slots ?S1 ?t) \<and>
        good ?S1 c ?t (if False then task_n ?S1 (bp_task_head ?S1) c ?t
          else (task_n ?S1 (bp_task_head ?S1) c ?t)(k := Suc (task_n ?S1 (bp_task_head ?S1) c ?t k)))"
    proof
      fix c assume "c \<in> set (touched S bp)"
      then have c: "c \<in> set (possible_cpus S)" "on_cpu bp c" using touched_iff [OF bpo] by auto
      show "task_n ?S1 (bp_task_head ?S1) c ?t k < nat (nr_slots ?S1 ?t) \<and>
        good ?S1 c ?t (if False then task_n ?S1 (bp_task_head ?S1) c ?t
          else (task_n ?S1 (bp_task_head ?S1) c ?t)(k := Suc (task_n ?S1 (bp_task_head ?S1) c ?t k)))"
        unfolding n1 using tbl_ok_cpu(3) [OF ok c(1), of ?t] tbl_ok_cpu(4) [OF ok c(1), of ?t k] c(2)
        by (simp add: tn good_def)
    qed
    have dt: "distinct (touched S bp)" using tbl_okD(1) [OF ok] by (simp add: touched_def)
    from toggle_cpus_ok [OF Some ev dt sub] obtain m where
      m: "toggle_cpus bp False ?t 1 (touched S bp) ?S1 = Some (?S1\<lparr>nr_task_bp_pinned := m\<rparr>)"
      "\<forall>c t'. c \<notin> set (touched S bp) \<or> t' \<noteq> ?t \<longrightarrow> m c t' = nr_task_bp_pinned S c t'"
      "\<forall>c\<in>set (touched S bp). good (?S1\<lparr>nr_task_bp_pinned := m\<rparr>) c ?t (task_n S ?L c ?t)" unfolding n1 by auto
    let ?S = "S\<lparr>bp_task_head := ?L, nr_task_bp_pinned := m\<rparr>"
    have "touched ?S1 bp = touched S bp" by (simp add: touched_def)
    then have run: "toggle_bp_slot i bp False ?t 1 S = Some ?S"
      using Some m(1) ih by (simp add: toggle_bp_slot_def touched_def [symmetric])
    have "tbl_ok ?S ?held"
    proof (rule tbl_ok_change [OF ok])
      fix c t k' assume c: "c \<in> set (possible_cpus S)"
      show "nr_cpu_bp_pinned ?S c t = of_nat (cpu_n S ?held c t)"
        using tbl_ok_cpu(2) [OF ok c, of t] cn [of c t] Some by simp
      show "good ?S c t (task_n S (bp_task_head ?S) c t)"
      proof (cases "t = ?t \<and> on_cpu bp c")
        case True
        then have "c \<in> set (touched S bp)" using c touched_iff [OF bpo] by simp
        then show ?thesis using m(3) True by (auto simp: good_def)
      next
        case False
        then have "m c t = nr_task_bp_pinned S c t" using c touched_iff [OF bpo, of c] m(2) by auto
        then show ?thesis using tbl_ok_cpu(3) [OF ok c, of t] tn [of c t] False by (auto simp: good_def)
      qed
      show "cpu_n S ?held c t + task_n S (bp_task_head ?S) c t k' \<le> nat (nr_slots S t)"
        using tbl_ok_cpu(4) [OF ok c, of t k'] cn [of c t] Some tn [of c t] by (auto split: if_splits)
    next
      show "set (bp_task_head ?S) = {j \<in> set ?held. pe_target (evt S j) \<noteq> None}"
        using tbl_okD(7,11) [OF ok] held(3) by auto
      show "distinct (bp_task_head ?S)" using tbl_okD(7) [OF ok] by simp
    qed (use held evs in simp_all)
    then show ?thesis using that run by simp
  qed
qed

lemma do_reserve_ok:
  assumes ok: "tbl_ok S held" and i: "i \<notin> set held" "bp_events S i = Some bp" and bp: "event_ok S bp"
    and type: "bp_type (pe_attr bp) \<noteq> HW_BREAKPOINT_EMPTY" "bp_type (pe_attr bp) \<noteq> HW_BREAKPOINT_INVALID"
    and len: "length held + 1 < 2 ^ 32"
  shows "room S held bp \<Longrightarrow> \<exists>S'. do_reserve_bp_slot i S = Some (0, S') \<and> tbl_ok S' (i # held) \<and>
      bp_events S' = bp_events S \<and> possible_cpus S' = possible_cpus S \<and> nr_slots S' = nr_slots S"
    and "\<not> room S held bp \<Longrightarrow> do_reserve_bp_slot i S = Some (-ENOSPC, S)"
proof -
  obtain p where p: "fetch_bp_busy_slots bp (find_slot_idx bp) S = Some (of_nat p, 0)" "p < 2 ^ 31"
    "p + 1 \<le> nat (nr_slots S (find_slot_idx bp)) \<longleftrightarrow> room S held bp" by (rule fetch_bp_busy_slots_ok [OF ok bp])
  have cmp: "of_nat p + 1 > (of_int (nr_slots S (find_slot_idx bp)) :: u32) \<longleftrightarrow> \<not> room S held bp"
    using slots_compare [OF p(2) tbl_okD(4,3) [OF ok]] p(3) by simp
  have run: "do_reserve_bp_slot i S = (if \<not> room S held bp then Some (-ENOSPC, S)
      else map_option (\<lambda>S. (0, S)) (toggle_bp_slot i bp True (find_slot_idx bp) 1 S))"
    unfolding cmp [symmetric]
    using type tbl_okD(8) [OF ok]
    by (simp add: do_reserve_bp_slot_def i p(1) fetch_this_slot_def hw_breakpoint_weight_def map_option_case
        Let_def split: option.split)
  show "\<not> room S held bp \<Longrightarrow> do_reserve_bp_slot i S = Some (-ENOSPC, S)" using run by simp
  assume room: "room S held bp"
  show "\<exists>S'. do_reserve_bp_slot i S = Some (0, S') \<and> tbl_ok S' (i # held) \<and>
      bp_events S' = bp_events S \<and> possible_cpus S' = possible_cpus S \<and> nr_slots S' = nr_slots S"
    by (rule toggle_on [OF ok i bp room len]) (use run room in simp)
qed

lemma do_release_ok:
  assumes ok: "tbl_ok S held" and i: "i \<in> set held"
  obtains S' where "do_release_bp_slot i S = Some S'" and "tbl_ok S' (remove1 i held)"
    and "bp_events S' = bp_events S" and "possible_cpus S' = possible_cpus S" and "nr_slots S' = nr_slots S"
  by (rule toggle_off [OF ok i refl])
    (use that tbl_okD(9) [OF ok i] in \<open>simp add: do_release_bp_slot_def hw_breakpoint_weight_def\<close>)

section \<open>Changing what is not counted\<close>

definition same_key :: "'i perf_event \<Rightarrow> 'i perf_event \<Rightarrow> bool" where
  "same_key bp bp' \<longleftrightarrow> find_slot_idx bp' = find_slot_idx bp \<and> pe_cpu bp' = pe_cpu bp \<and> pe_target bp' = pe_target bp"

lemma find_slot_idx_upd [simp]:
  "find_slot_idx (bp\<lparr>pe_stopped := b\<rparr>) = find_slot_idx bp" "find_slot_idx (bp\<lparr>pe_info := x\<rparr>) = find_slot_idx bp"
  "find_slot_idx (bp\<lparr>pe_destroy := b\<rparr>) = find_slot_idx bp"
  by (simp_all add: find_slot_idx_def)

lemma tbl_ok_key:
  assumes ok: "tbl_ok S held" and E: "\<And>i. i \<in> set held \<Longrightarrow> \<exists>bp'. E i = Some bp' \<and> same_key (evt S i) bp'"
  shows "tbl_ok (S\<lparr>bp_events := E\<rparr>) held"
proof -
  let ?S = "S\<lparr>bp_events := E\<rparr>"
  have key: "pe_target (evt ?S i) = pe_target (evt S i)" "find_slot_idx (evt ?S i) = find_slot_idx (evt S i)"
    "on_cpu (evt ?S i) = on_cpu (evt S i)" "event_ok ?S (evt ?S i) = event_ok S (evt S i)" if "i \<in> set held" for i
    using E [OF that] by (auto simp: same_key_def evt_def on_cpu_def event_ok_def fun_eq_iff)
  have hd: "set (bp_task_head S) \<subseteq> set held" using tbl_okD(11) [OF ok] by auto
  have cong: "filter P L = filter Q L" if "\<And>i. i \<in> set L \<Longrightarrow> P i = Q i" for P Q :: "nat \<Rightarrow> bool" and L
    using that by (rule filter_cong [OF refl])
  have tn: "task_n ?S (bp_task_head S) c t = task_n S (bp_task_head S) c t" for c t
    unfolding task_n_def by (rule ext, rule arg_cong [where f = length], rule cong) (use key hd in auto)
  have cn: "cpu_n ?S held c t = cpu_n S held c t" for c t
    unfolding cpu_n_def by (rule arg_cong [where f = length], rule cong) (use key in auto)
  have g: "good ?S = good S" by (simp add: fun_eq_iff good_def)
  have "set (bp_task_head S) = {i \<in> set held. pe_target (evt ?S i) \<noteq> None}" using tbl_okD(11) [OF ok] key(1) by auto
  moreover have "\<forall>i\<in>set held. E i \<noteq> None \<and> event_ok ?S (evt ?S i)"
  proof
    fix i assume i: "i \<in> set held"
    show "E i \<noteq> None \<and> event_ok ?S (evt ?S i)" using E [OF i] key(4) [OF i] tbl_okD(10) [OF ok i] by auto
  qed
  ultimately show ?thesis
    using ok unfolding tbl_ok_def g by (simp add: tn cn)
qed

lemma tbl_ok_set_event:
  "tbl_ok S held \<Longrightarrow> i \<notin> set held \<or> same_key (evt S i) bp \<Longrightarrow> tbl_ok (set_event i bp S) held"
  unfolding set_event_def by (rule tbl_ok_key) (auto simp: tbl_okD(9) same_key_def)

lemma set_event_fields [simp]:
  "possible_cpus (set_event i bp S) = possible_cpus S" "nr_slots (set_event i bp S) = nr_slots S"
  "bp_events (set_event i bp S) = (bp_events S)(i \<mapsto> bp)" "evt (set_event i bp S) i = bp"
  by (simp_all add: set_event_def evt_def)

text \<open>Validation changes the architecture's part of the event only.\<close>

lemma validate_cases:
  assumes "validate_hw_breakpoint R admin i S = Some (ret, S')" and "bp_events S i = Some bp"
  obtains info where "S' = set_event i (bp\<lparr>pe_info := info\<rparr>) S"
  using assms by (auto simp: validate_hw_breakpoint_def Let_def split: prod.splits if_splits)

lemma validate_total: "bp_events S i = Some bp \<Longrightarrow> validate_hw_breakpoint R admin i S \<noteq> None"
  by (auto simp: validate_hw_breakpoint_def Let_def split: prod.splits)

lemma event_init_ok:
  assumes ok: "tbl_ok S held" and i: "i \<notin> set held" "bp_events S i = Some bp" and bp: "event_ok S bp"
    and len: "length held + 1 < 2 ^ 32"
  obtains err S' where "hw_breakpoint_event_init R admin i S = Some (err, S')"
    and "tbl_ok S' (if err = 0 then i # held else held)" and "possible_cpus S' = possible_cpus S" and "nr_slots S' = nr_slots S"
proof -
  note defs = hw_breakpoint_event_init_def register_perf_hw_breakpoint_def reserve_bp_slot_def release_bp_slot_def
  have res: "do_reserve_bp_slot i S = Some (- EINVAL, S)" if "bp_type (pe_attr bp) = HW_BREAKPOINT_EMPTY \<or> bp_type (pe_attr bp) = HW_BREAKPOINT_INVALID"
    using that i(2) tbl_okD(8) [OF ok] by (auto simp: do_reserve_bp_slot_def)
  have nz: "- EINVAL \<noteq> 0" "- ENOSPC \<noteq> 0" "- ENOENT \<noteq> 0" "- EOPNOTSUPP \<noteq> 0"
    by (simp_all add: EINVAL_def ENOSPC_def ENOENT_def EOPNOTSUPP_def)
  consider (early) "\<not> at_breakpoint (pe_attr bp) \<or> at_branch_stack (pe_attr bp)"
    | (type) "at_breakpoint (pe_attr bp)" "\<not> at_branch_stack (pe_attr bp)"
        "bp_type (pe_attr bp) = HW_BREAKPOINT_EMPTY \<or> bp_type (pe_attr bp) = HW_BREAKPOINT_INVALID"
    | (full) "at_breakpoint (pe_attr bp)" "\<not> at_branch_stack (pe_attr bp)" "do_reserve_bp_slot i S = Some (-ENOSPC, S)"
    | (got) S1 where "at_breakpoint (pe_attr bp)" "\<not> at_branch_stack (pe_attr bp)" "do_reserve_bp_slot i S = Some (0, S1)"
        "tbl_ok S1 (i # held)" "bp_events S1 = bp_events S" "possible_cpus S1 = possible_cpus S" "nr_slots S1 = nr_slots S"
    using do_reserve_ok [OF ok i bp _ _ len] by blast
  then show ?thesis
  proof cases
    case early
    then show ?thesis using that [of "if at_breakpoint (pe_attr bp) then -EOPNOTSUPP else -ENOENT" S] ok nz i(2)
      by (auto simp: defs)
  next
    case type
    then show ?thesis using that [of "-EINVAL" S] ok nz i(2) res by (auto simp: defs)
  next
    case full
    then show ?thesis using that [of "-ENOSPC" S] ok nz i(2) by (auto simp: defs)
  next
    case got
    have i1: "bp_events S1 i = Some bp" "evt S1 i = bp" using got(5) i(2) by (simp_all add: evt_def)
    obtain ret S2 where v: "validate_hw_breakpoint R admin i S1 = Some (ret, S2)"
      using validate_total [OF i1(1), of R admin] by auto
    obtain info where S2: "S2 = set_event i (bp\<lparr>pe_info := info\<rparr>) S1" by (rule validate_cases [OF v i1(1)])
    have ok2: "tbl_ok S2 (i # held)" unfolding S2 by (rule tbl_ok_set_event [OF got(4)]) (simp add: i1(2) same_key_def)
    show ?thesis
    proof (cases "ret = 0")
      case True
      let ?S = "set_event i (bp\<lparr>pe_info := info, pe_destroy := True\<rparr>) S2"
      have "tbl_ok ?S (i # held)"
        by (rule tbl_ok_set_event [OF ok2]) (simp add: S2 same_key_def)
      moreover have "hw_breakpoint_event_init R admin i S = Some (0, ?S)"
        using got(1,2,3) v True i(2) S2 by (simp add: defs)
      ultimately show ?thesis using that [of 0 ?S] got(6,7) S2 by simp
    next
      case False
      obtain S3 where S3: "do_release_bp_slot i S2 = Some S3" "tbl_ok S3 (remove1 i (i # held))"
        "possible_cpus S3 = possible_cpus S2" "nr_slots S3 = nr_slots S2"
        by (rule do_release_ok [OF ok2, of i]) simp_all
      have "hw_breakpoint_event_init R admin i S = Some (ret, S3)"
        using got(1,2,3) v False i(2) S3(1) by (simp add: defs)
      then show ?thesis using that [of ret S3] S3 False got(6,7) S2 by simp
    qed
  qed
qed

section \<open>The table as a state machine\<close>

text \<open>\<open>changes S S'\<close>: no event is lost, and none moves to another cpu, task or kind of register.\<close>

definition changes :: "'i bp_table \<Rightarrow> 'i bp_table \<Rightarrow> bool" where
  "changes S S' \<longleftrightarrow> (\<exists>E. S' = S\<lparr>bp_events := E\<rparr> \<and> (\<forall>j bp. bp_events S j = Some bp \<longrightarrow> (\<exists>bp'. E j = Some bp' \<and> same_key bp bp')))"

lemma changes_refl [simp]: "changes S S"
  unfolding changes_def by (rule exI [of _ "bp_events S"]) (simp add: same_key_def)

lemma changes_trans: "changes S T \<Longrightarrow> changes T U \<Longrightarrow> changes S U"
  by (fastforce simp: changes_def same_key_def)

lemma changes_set_event: "bp_events S i = Some bp \<Longrightarrow> same_key bp bp' \<Longrightarrow> changes S (set_event i bp' S)"
  unfolding changes_def set_event_def by (rule exI [of _ "(bp_events S)(i \<mapsto> bp')"]) (simp add: same_key_def)

lemma changes_event: "changes S T \<Longrightarrow> bp_events S i = Some bp \<Longrightarrow> \<exists>bp'. bp_events T i = Some bp' \<and> same_key bp bp'"
  by (auto simp: changes_def)

lemma changes_ok: "changes S S' \<Longrightarrow> tbl_ok S held \<Longrightarrow> tbl_ok S' held"
proof -
  assume c: "changes S S'" and ok: "tbl_ok S held"
  from c obtain E where E: "S' = S\<lparr>bp_events := E\<rparr>" "\<forall>j bp. bp_events S j = Some bp \<longrightarrow> (\<exists>bp'. E j = Some bp' \<and> same_key bp bp')"
    unfolding changes_def by blast
  have "\<exists>bp'. E i = Some bp' \<and> same_key (evt S i) bp'" if "i \<in> set held" for i
    using tbl_okD(9) [OF ok that] E(2) by (auto simp: evt_def)
  then show "tbl_ok S' held" unfolding E(1) by (rule tbl_ok_key [OF ok])
qed

text \<open>The kind of register that a type asks for; \<open>modify_user_hw_breakpoint\<close> is used within one kind.\<close>

definition kind :: "perf_attr \<Rightarrow> bool" where
  "kind attr \<longleftrightarrow> bp_type attr \<inter> HW_BREAKPOINT_RW \<noteq> {}"

lemma same_kind: "kind attr = kind (pe_attr bp) \<Longrightarrow> same_key bp (bp\<lparr>pe_attr := attr\<rparr>)"
  by (simp add: same_key_def find_slot_idx_def kind_def)

lemma key_kind: "same_key bp bp' \<Longrightarrow> kind (pe_attr bp') = kind (pe_attr bp)"
  by (auto simp: same_key_def find_slot_idx_def kind_def split: if_splits)

lemma validate_changes: "validate_hw_breakpoint R admin i S = Some (ret, S') \<Longrightarrow> changes S S'"
proof -
  assume v: "validate_hw_breakpoint R admin i S = Some (ret, S')"
  then obtain bp where bp: "bp_events S i = Some bp" by (cases "bp_events S i") (simp_all add: validate_hw_breakpoint_def)
  obtain info where S': "S' = set_event i (bp\<lparr>pe_info := info\<rparr>) S" by (rule validate_cases [OF v bp])
  show ?thesis unfolding S' by (rule changes_set_event [OF bp]) (simp add: same_key_def)
qed

text \<open>
  The steps of the perf core, the PMU and the debugger on a table and the events that have a slot: a new event,
  \<open>event_init\<close>, \<open>start\<close>, \<open>stop\<close>, \<open>add\<close> and \<open>del\<close>, a modification that keeps the kind of register, \<open>destroy\<close>, the
  slots of the debugger, and the end of an event that has no slot. What the architecture and the perf core
  do to events in \<open>add\<close>, \<open>del\<close> and a modification does not change what is counted. Fewer than \<open>2 ^ 32\<close> events
  fit into memory.
\<close>

inductive bp_step :: "'i bp_table \<times> nat list \<Rightarrow> 'i bp_table \<times> nat list \<Rightarrow> bool" where
  step_new: "bp_events S i = None \<Longrightarrow> event_ok S bp \<Longrightarrow> bp_step (S, held) (set_event i bp S, held)"
| step_init: "bp_events S i = Some bp \<Longrightarrow> event_ok S bp \<Longrightarrow> i \<notin> set held \<Longrightarrow> length held + 1 < 2 ^ 32 \<Longrightarrow>
    hw_breakpoint_event_init R admin i S = Some (err, S') \<Longrightarrow>
    bp_step (S, held) (S', if err = 0 then i # held else held)"
| step_start: "hw_breakpoint_start i S = Some S' \<Longrightarrow> bp_step (S, held) (S', held)"
| step_stop: "hw_breakpoint_stop i S = Some S' \<Longrightarrow> bp_step (S, held) (S', held)"
| step_add: "hw_breakpoint_add install i b S = Some (r, S') \<Longrightarrow> (\<And>j T. changes T (snd (install j T))) \<Longrightarrow> bp_step (S, held) (S', held)"
| step_del: "hw_breakpoint_del uninstall i S = S' \<Longrightarrow> (\<And>j T. changes T (uninstall j T)) \<Longrightarrow> bp_step (S, held) (S', held)"
| step_modify: "bp_events S i = Some bp \<Longrightarrow> kind attr = kind (pe_attr bp) \<Longrightarrow> (\<And>j T. changes T (disable j T)) \<Longrightarrow> (\<And>j T. changes T (enable j T)) \<Longrightarrow>
    modify_user_hw_breakpoint R admin disable enable i attr S = Some (err, S') \<Longrightarrow> bp_step (S, held) (S', held)"
| step_dbg_reserve: "bp_events S i = Some bp \<Longrightarrow> event_ok S bp \<Longrightarrow> i \<notin> set held \<Longrightarrow> length held + 1 < 2 ^ 32 \<Longrightarrow>
    dbg_reserve_bp_slot locked i S = Some (err, S') \<Longrightarrow> bp_step (S, held) (S', if err = 0 then i # held else held)"
| step_dbg_release: "i \<in> set held \<Longrightarrow> dbg_release_bp_slot locked i S = Some (err, S') \<Longrightarrow>
    bp_step (S, held) (S', if err = 0 then remove1 i held else held)"
| step_destroy: "i \<in> set held \<Longrightarrow> bp_perf_event_destroy i S = Some S' \<Longrightarrow> bp_step (S, held) (S', remove1 i held)"
| step_free: "i \<notin> set held \<Longrightarrow> bp_step (S, held) (S\<lparr>bp_events := (bp_events S)(i := None)\<rparr>, held)"

inductive bp_reach :: "'i bp_table \<times> nat list \<Rightarrow> bool" where
  reach_boot: "distinct (possible_cpus S0) \<Longrightarrow> possible_cpus S0 \<noteq> [] \<Longrightarrow> bp_task_head S0 = [] \<Longrightarrow>
    nr_cpu_bp_pinned S0 = (\<lambda>_ _. 0) \<Longrightarrow> nr_bp_flexible S0 = (\<lambda>_ _. 0) \<Longrightarrow> (\<And>t. 0 \<le> slots t \<and> slots t < 2 ^ 30) \<Longrightarrow>
    never_fails allocs \<Longrightarrow> init_hw_breakpoint slots die allocs S0 = (die, allocs', S) \<Longrightarrow> bp_reach (S, [])"
| reach_next: "bp_reach x \<Longrightarrow> bp_step x y \<Longrightarrow> bp_reach y"

lemma alloc_counters_ok:
  "never_fails allocs \<Longrightarrow> \<exists>allocs' m. alloc_counters cts allocs S = (None, allocs', S\<lparr>nr_task_bp_pinned := m\<rparr>) \<and>
    (\<forall>c t. m c t = (if (c, t) \<in> set cts then Some (replicate (nat (nr_slots S t)) 0) else nr_task_bp_pinned S c t))"
proof (induction cts arbitrary: allocs S)
  case Nil
  then show ?case by (auto intro!: exI [of _ "nr_task_bp_pinned S"])
next
  case (Cons x cts)
  obtain cpu t where x: "x = (cpu, t)" by fastforce
  obtain a1 where a1: "alloc_next allocs = (True, a1)" "never_fails a1" by (rule alloc_next_cases [OF Cons.prems])
  let ?S = "S\<lparr>nr_task_bp_pinned := (nr_task_bp_pinned S)(cpu := (nr_task_bp_pinned S cpu)
    (t := Some (replicate (nat (nr_slots S t)) 0)))\<rparr>"
  from Cons.IH [OF a1(2), of ?S] obtain a' m where m: "alloc_counters cts a1 ?S = (None, a', ?S\<lparr>nr_task_bp_pinned := m\<rparr>)"
    "\<forall>c t. m c t = (if (c, t) \<in> set cts then Some (replicate (nat (nr_slots ?S t)) 0) else nr_task_bp_pinned ?S c t)" by blast
  have "alloc_counters (x # cts) allocs S = (None, a', S\<lparr>nr_task_bp_pinned := m\<rparr>)" by (simp add: x a1(1) m(1) Let_def)
  moreover have "m c t' = (if (c, t') \<in> set (x # cts) then Some (replicate (nat (nr_slots S t')) 0) else nr_task_bp_pinned S c t')"
    for c t' using m(2) [rule_format, of c t'] by (auto simp: x)
  ultimately show ?case by blast
qed

lemma init_hw_breakpoint_ok:
  assumes cpus: "distinct (possible_cpus S0)" "possible_cpus S0 \<noteq> []" and zero: "bp_task_head S0 = []"
      "nr_cpu_bp_pinned S0 = (\<lambda>_ _. 0)" "nr_bp_flexible S0 = (\<lambda>_ _. 0)"
    and slots: "\<And>t. 0 \<le> slots t \<and> slots t < 2 ^ 30" and mem: "never_fails allocs"
    and run: "init_hw_breakpoint slots die allocs S0 = (die, allocs', S)"
  shows "tbl_ok S []"
proof -
  let ?cts = "List.product (possible_cpus S0) [TYPE_INST, TYPE_DATA]"
  let ?S1 = "S0\<lparr>nr_slots := slots\<rparr>"
  from alloc_counters_ok [OF mem, of ?cts ?S1] obtain a' m where
    m: "alloc_counters ?cts allocs ?S1 = (None, a', ?S1\<lparr>nr_task_bp_pinned := m\<rparr>)" and
    mv: "\<forall>c t. m c t = (if (c, t) \<in> set ?cts then Some (replicate (nat (nr_slots ?S1 t)) 0) else nr_task_bp_pinned ?S1 c t)"
    by blast
  have S: "S = S0\<lparr>nr_slots := slots, nr_task_bp_pinned := m, constraints_initialized := True\<rparr>"
    using run m by (simp add: init_hw_breakpoint_def Let_def)
  have t: "t \<in> {TYPE_INST, TYPE_DATA}" for t by (cases t) simp_all
  have n: "task_n S [] c t = (\<lambda>_. 0)" "cpu_n S [] c t = 0" for c t by (simp_all add: fun_eq_iff task_n_def cpu_n_def)
  have "counts (replicate k 0) (\<lambda>_. 0)" for k by (simp add: counts_def)
  then have "good S c t (task_n S [] c t)" if "c \<in> set (possible_cpus S0)" for c t
    using mv [rule_format, of c t] that t [of t] by (simp add: good_def S n [unfolded S])
  then show ?thesis using cpus zero slots n unfolding tbl_ok_def by (simp add: S)
qed

lemma start_stop_ok:
  assumes "tbl_ok S held" and "hw_breakpoint_start i S = Some S' \<or> hw_breakpoint_stop i S = Some S'"
  shows "tbl_ok S' held"
proof -
  obtain bp b where bp: "bp_events S i = Some bp" "S' = set_event i (bp\<lparr>pe_stopped := b\<rparr>) S"
    using assms(2) by (auto simp: hw_breakpoint_start_def hw_breakpoint_stop_def split: bind_splits)
  then have "same_key (evt S i) (bp\<lparr>pe_stopped := b\<rparr>)" by (simp add: same_key_def evt_def)
  then show ?thesis using tbl_ok_set_event [OF assms(1), of i "bp\<lparr>pe_stopped := b\<rparr>"] bp(2) by simp
qed

lemma modify_changes:
  assumes i: "bp_events S i = Some bp" and k: "kind attr = kind (pe_attr bp)"
    and f: "\<And>j T. changes T (disable j T)" "\<And>j T. changes T (enable j T)"
    and m: "modify_user_hw_breakpoint R admin disable enable i attr S = Some (err, S')"
  shows "changes S S'"
proof -
  let ?S1 = "disable i S"
  obtain b1 where b1: "bp_events ?S1 i = Some b1" "same_key bp b1" using changes_event [OF f(1) i] by blast
  let ?b2 = "b1\<lparr>pe_attr := (pe_attr b1)\<lparr>bp_addr := bp_addr attr, bp_type := bp_type attr, bp_len := bp_len attr\<rparr>\<rparr>"
  let ?S2 = "set_event i ?b2 ?S1"
  have "same_key b1 ?b2" using key_kind [OF b1(2)] k by (intro same_kind) (simp add: kind_def)
  then have c2: "changes S ?S2" using changes_trans [OF f(1) changes_set_event [OF b1(1)]] by blast
  have fin: "changes S T'" if "changes S T" "Option.bind (bp_events T i) (\<lambda>bp. Some (0 :: int, set_event i
      (bp\<lparr>pe_attr := (pe_attr bp)\<lparr>at_disabled := at_disabled attr\<rparr>\<rparr>) T)) = Some (e, T')" for T e T'
  proof -
    from that(2) obtain b where b: "bp_events T i = Some b"
      "T' = set_event i (b\<lparr>pe_attr := (pe_attr b)\<lparr>at_disabled := at_disabled attr\<rparr>\<rparr>) T" by (auto simp: bind_eq_Some_conv)
    have "same_key b (b\<lparr>pe_attr := (pe_attr b)\<lparr>at_disabled := at_disabled attr\<rparr>\<rparr>)" by (rule same_kind) (simp add: kind_def)
    then show ?thesis unfolding b(2) by (rule changes_trans [OF that(1) changes_set_event [OF b(1)]])
  qed
  show ?thesis
  proof (cases "at_disabled attr")
    case True
    then show ?thesis using m i b1(1) by (intro fin [OF c2, of err]) (simp add: modify_user_hw_breakpoint_def Let_def)
  next
    case False
    obtain e S3 where v: "validate_hw_breakpoint R admin i ?S2 = Some (e, S3)" using validate_total [of ?S2 i ?b2 R admin] by (auto simp: set_event_def)
    have c3: "changes S S3" by (rule changes_trans [OF c2 validate_changes [OF v]])
    show ?thesis
    proof (cases "e = 0")
      case True
      then show ?thesis using m i b1(1) v False
        by (intro fin [OF changes_trans [OF c3 f(2) [of S3 i]], of err]) (simp add: modify_user_hw_breakpoint_def Let_def)
    next
      case ne: False
      obtain b3 where b3: "bp_events S3 i = Some b3" "same_key bp b3" using changes_event [OF c3 i] by blast
      let ?S4 = "set_event i (b3\<lparr>pe_attr := (pe_attr b3)\<lparr>bp_addr := bp_addr (pe_attr bp), bp_type := bp_type (pe_attr bp), bp_len := bp_len (pe_attr bp)\<rparr>\<rparr>) S3"
      have "same_key b3 (b3\<lparr>pe_attr := (pe_attr b3)\<lparr>bp_addr := bp_addr (pe_attr bp), bp_type := bp_type (pe_attr bp), bp_len := bp_len (pe_attr bp)\<rparr>\<rparr>)"
        using key_kind [OF b3(2)] by (intro same_kind) (simp add: kind_def)
      then have c4: "changes S ?S4" by (rule changes_trans [OF c3 changes_set_event [OF b3(1)]])
      then have "changes S (enable i ?S4)" using changes_trans f(2) by blast
      moreover have "S' = (if \<not> at_disabled (pe_attr b3) then enable i ?S4 else ?S4)"
        using m i b1(1) v False ne b3(1) by (simp add: modify_user_hw_breakpoint_def Let_def)
      ultimately show ?thesis using c4 by simp
    qed
  qed
qed

lemma dbg_reserve_ok:
  assumes ok: "tbl_ok S held" and i: "i \<notin> set held" "bp_events S i = Some bp" and bp: "event_ok S bp" and len: "length held + 1 < 2 ^ 32"
    and run: "dbg_reserve_bp_slot locked i S = Some (err, S')"
  shows "tbl_ok S' (if err = 0 then i # held else held)"
proof (cases locked)
  case False
  then have r: "do_reserve_bp_slot i S = Some (err, S')" using run by (simp add: dbg_reserve_bp_slot_def)
  show ?thesis
  proof (cases "bp_type (pe_attr bp) = HW_BREAKPOINT_EMPTY \<or> bp_type (pe_attr bp) = HW_BREAKPOINT_INVALID")
    case True
    then show ?thesis using r i(2) tbl_okD(8) [OF ok] ok by (auto simp: do_reserve_bp_slot_def EINVAL_def)
  next
    case False
    then show ?thesis using do_reserve_ok [OF ok i bp _ _ len] r ok by (cases "room S held bp") (auto simp: ENOSPC_def)
  qed
qed (use run ok in \<open>simp add: dbg_reserve_bp_slot_def\<close>)

lemma dbg_release_ok:
  assumes ok: "tbl_ok S held" and i: "i \<in> set held" and run: "dbg_release_bp_slot locked i S = Some (err, S')"
  shows "tbl_ok S' (if err = 0 then remove1 i held else held)"
  by (rule do_release_ok [OF ok i]) (use run ok in \<open>auto simp: dbg_release_bp_slot_def split: if_splits\<close>)

lemma add_changes: "hw_breakpoint_add install i b S = Some (r, S') \<Longrightarrow> (\<And>j T. changes T (snd (install j T))) \<Longrightarrow> changes S S'"
proof -
  assume a: "hw_breakpoint_add install i b S = Some (r, S')" and f: "\<And>j T. changes T (snd (install j T))"
  then obtain bp where bp: "bp_events S i = Some bp" and S': "S' = snd (install i (if \<not> b then set_event i (bp\<lparr>pe_stopped := True\<rparr>) S else S))"
    by (auto simp: hw_breakpoint_add_def bind_eq_Some_conv)
  have "changes S (set_event i (bp\<lparr>pe_stopped := True\<rparr>) S)" by (rule changes_set_event [OF bp]) (simp add: same_key_def)
  then have "changes S (if \<not> b then set_event i (bp\<lparr>pe_stopped := True\<rparr>) S else S)" by simp
  then show ?thesis unfolding S' by (rule changes_trans [OF _ f])
qed

lemma bp_step_ok: "bp_step x y \<Longrightarrow> tbl_ok (fst x) (snd x) \<Longrightarrow> tbl_ok (fst y) (snd y)"
proof (induction rule: bp_step.induct)
  case (step_new S i bp held)
  have "i \<notin> set held"
  proof
    assume "i \<in> set held"
    then show False using tbl_okD(9) [of S held i] step_new by simp
  qed
  then show ?case using step_new tbl_ok_set_event [of S held i bp] by simp
next
  case (step_init S i bp held R admin err S')
  then have ok: "tbl_ok S held" by simp
  show ?case
    by (rule event_init_ok [OF ok step_init(3,1,2,4), of R admin]) (use step_init(5) in auto)
next
  case (step_start i S S' held)
  then show ?case using start_stop_ok [of S held i S'] by simp
next
  case (step_stop i S S' held)
  then show ?case using start_stop_ok [of S held i S'] by simp
next
  case (step_add install i b S r S' held)
  then show ?case using changes_ok [OF add_changes [OF step_add(1)]] by simp
next
  case (step_del uninstall i S S' held)
  from step_del(2) [of S i] have "changes S S'" using step_del(1) by (simp add: hw_breakpoint_del_def)
  then show ?case using changes_ok step_del(3) by simp
next
  case (step_modify S i bp attr disable enable R admin err S' held)
  then show ?case using changes_ok [OF modify_changes [OF step_modify(1-5)]] by simp
next
  case (step_dbg_reserve S i bp held locked err S')
  then show ?case using dbg_reserve_ok [OF _ step_dbg_reserve(3,1,2,4,5)] by simp
next
  case (step_dbg_release i held locked S err S')
  then show ?case using dbg_release_ok [OF _ step_dbg_release(1,2)] by simp
next
  case (step_destroy i held S S')
  then have ok: "tbl_ok S held" by simp
  show ?case
    by (rule do_release_ok [OF ok step_destroy(1)])
      (use step_destroy(2) in \<open>simp add: bp_perf_event_destroy_def release_bp_slot_def\<close>)
next
  case (step_free i held S)
  then have "tbl_ok S held" "i \<notin> set held" by simp_all
  then have "tbl_ok (S\<lparr>bp_events := (bp_events S)(i := None)\<rparr>) held"
    by (intro tbl_ok_key) (auto simp: tbl_okD(9) same_key_def)
  then show ?case by simp
qed

lemma bp_reach_ok: "bp_reach x \<Longrightarrow> tbl_ok (fst x) (snd x)"
proof (induction rule: bp_reach.induct)
  case (reach_boot S0 slots allocs die allocs' S)
  then show ?case using init_hw_breakpoint_ok [of S0 slots allocs die allocs' S] by simp
next
  case (reach_next x y)
  then show ?case using bp_step_ok by blast
qed

section \<open>Properties\<close>

lemma length_filter_head:
  assumes ok: "tbl_ok S held"
  shows "length (filter (\<lambda>i. find_slot_idx (evt S i) = t \<and> on_cpu (evt S i) c \<and>
      (pe_target (evt S i) = None \<or> pe_target (evt S i) = Some k)) held) =
    cpu_n S held c t + task_n S (bp_task_head S) c t k"
proof -
  have lc: "length (filter P L) = card {i \<in> set L. P i}" if "distinct L" for P :: "nat \<Rightarrow> bool" and L
    using that by (metis distinct_card distinct_filter set_filter)
  let ?P = "\<lambda>i. find_slot_idx (evt S i) = t \<and> on_cpu (evt S i) c"
  have "{i \<in> set held. ?P i \<and> (pe_target (evt S i) = None \<or> pe_target (evt S i) = Some k)} =
      {i \<in> set held. pe_target (evt S i) = None \<and> ?P i} \<union> {i \<in> set (bp_task_head S). pe_target (evt S i) = Some k \<and> ?P i}"
    using tbl_okD(11) [OF ok] by auto
  moreover have "card (\<dots>) = card {i \<in> set held. pe_target (evt S i) = None \<and> ?P i} +
      card {i \<in> set (bp_task_head S). pe_target (evt S i) = Some k \<and> ?P i}"
    by (rule card_Un_disjoint) auto
  ultimately show ?thesis
    using lc [OF tbl_okD(5) [OF ok]] lc [OF tbl_okD(7) [OF ok]] by (simp add: cpu_n_def task_n_def conj_assoc)
qed

text \<open>
  C11: whatever sequence of events is created, initialised, added, started, stopped, removed, modified and
  destroyed after boot, with or without a debugger that reserves slots, the breakpoints that can be active at
  once on a cpu, those of the cpu and those of any one task, never outnumber the registers of their type; and
  every event that has a slot can give it back. One thing is excluded: that \<open>modify_user_hw_breakpoint\<close> changes
  a breakpoint on data into one on instructions or back, which breaks the counters (\<open>modify_type_drifts\<close>).
\<close>

theorem breakpoints_fit:
  assumes reach: "bp_reach (S, held)" and c: "c \<in> set (possible_cpus S)"
  shows "length (filter (\<lambda>i. find_slot_idx (evt S i) = t \<and> on_cpu (evt S i) c \<and>
      (pe_target (evt S i) = None \<or> pe_target (evt S i) = Some k)) held) \<le> nat (nr_slots S t) \<and>
    (\<forall>i\<in>set held. bp_perf_event_destroy i S \<noteq> None)"
proof
  have ok: "tbl_ok S held" using bp_reach_ok [OF reach] by simp
  show "length (filter (\<lambda>i. find_slot_idx (evt S i) = t \<and> on_cpu (evt S i) c \<and>
      (pe_target (evt S i) = None \<or> pe_target (evt S i) = Some k)) held) \<le> nat (nr_slots S t)"
    unfolding length_filter_head [OF ok] by (rule tbl_ok_cpu(4) [OF ok c])
  show "\<forall>i\<in>set held. bp_perf_event_destroy i S \<noteq> None"
  proof
    fix i assume "i \<in> set held"
    from do_release_ok [OF ok this] show "bp_perf_event_destroy i S \<noteq> None"
      by (auto simp: bp_perf_event_destroy_def release_bp_slot_def)
  qed
qed

definition demo_attr :: "bp_flag set \<Rightarrow> perf_attr" where
  "demo_attr ty = \<lparr>at_breakpoint = True, at_branch_stack = False, bp_addr = 0x1000, bp_len = 4, bp_type = ty,
     at_disabled = False, exclude_kernel = False\<rparr>"

definition demo_event :: "bp_flag set \<Rightarrow> int \<Rightarrow> nat option \<Rightarrow> unit perf_event" where
  "demo_event ty cpu tsk = \<lparr>pe_attr = demo_attr ty, pe_cpu = cpu, pe_target = tsk, pe_stopped = False, pe_destroy = False, pe_info = ()\<rparr>"

definition demo_arch :: "unit bp_arch" where
  "demo_arch = \<lparr>arch_validate = (\<lambda>bp. (0, ())), arch_in_kernelspace = (\<lambda>bp. False)\<rparr>"

definition demo_boot :: "unit bp_table" where
  "demo_boot = \<lparr>nr_slots = (\<lambda>_. 0), nr_cpu_bp_pinned = (\<lambda>_ _. 0), nr_task_bp_pinned = (\<lambda>_ _. None), nr_bp_flexible = (\<lambda>_ _. 0),
     bp_task_head = [], constraints_initialized = False, possible_cpus = [0, 1], online_cpus = [0], bp_events = (\<lambda>_. None)\<rparr>"

text \<open>Two cpus with \<open>n\<close> registers of each type after boot.\<close>

definition demo_tbl :: "int \<Rightarrow> unit bp_table" where
  "demo_tbl n = snd (snd (init_hw_breakpoint (\<lambda>_. n) 0 [] demo_boot))"

lemma demo_tbl_reach: "0 \<le> n \<Longrightarrow> n < 2 ^ 30 \<Longrightarrow> bp_reach (demo_tbl n, [])"
  by (rule reach_boot [where ?S0.0 = demo_boot and slots = "\<lambda>_. n" and allocs = "[]" and die = 0 and allocs' = "[]"])
    (simp_all add: demo_boot_def demo_tbl_def init_hw_breakpoint_def Let_def)

lemma demo_tbl_fields [simp]:
  "bp_events (demo_tbl n) = (\<lambda>_. None)" "possible_cpus (demo_tbl n) = [0, 1]" "nr_slots (demo_tbl n) = (\<lambda>_. n)"
  "bp_task_head (demo_tbl n) = []" "constraints_initialized (demo_tbl n)"
  "nr_bp_flexible (demo_tbl n) = (\<lambda>_ _. 0)" "nr_cpu_bp_pinned (demo_tbl n) = (\<lambda>_ _. 0)"
  by (simp_all add: demo_tbl_def init_hw_breakpoint_def demo_boot_def Let_def)

definition demo_tbl1 :: "unit bp_table" where
  "demo_tbl1 = set_event 7 (demo_event {HW_BREAKPOINT_W} (-1) (Some 3)) (demo_tbl 4)"

definition demo_init :: "int \<times> unit bp_table" where
  "demo_init = the (hw_breakpoint_event_init demo_arch True 7 demo_tbl1)"

lemma demo_tbl1_reach: "bp_reach (demo_tbl1, [])"
  unfolding demo_tbl1_def
  by (rule reach_next [OF demo_tbl_reach [of 4] step_new]) (simp_all add: event_ok_def demo_event_def)

lemma demo_tbl_tasks [simp]: "c \<in> {0, 1} \<Longrightarrow> nr_task_bp_pinned (demo_tbl n) c t = Some (replicate (nat n) 0)"
  by (cases t) (auto simp: demo_tbl_def init_hw_breakpoint_def demo_boot_def Let_def)

lemma HW_values: "HW_BREAKPOINT_EMPTY \<noteq> {x}" "{x} \<noteq> HW_BREAKPOINT_INVALID" "{} \<noteq> HW_BREAKPOINT_INVALID"
  by (auto simp: HW_BREAKPOINT_EMPTY_def HW_BREAKPOINT_INVALID_def)

lemma demo_idx: "find_slot_idx (demo_event {HW_BREAKPOINT_W} c tsk) = TYPE_DATA" "find_slot_idx (demo_event {HW_BREAKPOINT_X} c tsk) = TYPE_INST"
  by (simp_all add: find_slot_idx_def demo_event_def demo_attr_def HW_BREAKPOINT_RW_def)

lemma demo_reserve: "fst (the (do_reserve_bp_slot 7 demo_tbl1)) = 0 \<and> do_reserve_bp_slot 7 demo_tbl1 \<noteq> None"
proof -
  have ok: "tbl_ok demo_tbl1 []" using bp_reach_ok [OF demo_tbl1_reach] by simp
  let ?bp = "demo_event {HW_BREAKPOINT_W} (-1) (Some 3)"
  have "room demo_tbl1 [] ?bp"
    by (simp add: room_def room_on_def demo_idx task_n_def cpu_n_def demo_tbl1_def set_event_def)
  moreover have "bp_events demo_tbl1 7 = Some ?bp" "event_ok demo_tbl1 ?bp"
    by (simp_all add: demo_tbl1_def event_ok_def demo_event_def)
  moreover have "bp_type (pe_attr ?bp) \<noteq> HW_BREAKPOINT_EMPTY" "bp_type (pe_attr ?bp) \<noteq> HW_BREAKPOINT_INVALID"
    using HW_values by (simp_all add: demo_event_def demo_attr_def HW_BREAKPOINT_EMPTY_def)
  ultimately show ?thesis using do_reserve_ok(1) [OF ok, of 7 ?bp] by auto
qed

lemma demo_held: "\<exists>S. hw_breakpoint_event_init demo_arch True 7 demo_tbl1 = Some (0, S) \<and> possible_cpus S = [0, 1] \<and> bp_reach (S, [7])"
proof -
  have ok: "tbl_ok demo_tbl1 []" using bp_reach_ok [OF demo_tbl1_reach] by simp
  let ?bp = "demo_event {HW_BREAKPOINT_W} (-1) (Some 3)"
  have i: "7 \<notin> set ([] :: nat list)" "bp_events demo_tbl1 7 = Some ?bp" and bp: "event_ok demo_tbl1 ?bp"
    by (simp_all add: demo_tbl1_def event_ok_def demo_event_def)
  have len: "length ([] :: nat list) + 1 < 2 ^ 32" by simp
  obtain err S where run: "hw_breakpoint_event_init demo_arch True 7 demo_tbl1 = Some (err, S)"
    "possible_cpus S = possible_cpus demo_tbl1" by (rule event_init_ok [OF ok i bp len])
  obtain S1 where r: "do_reserve_bp_slot 7 demo_tbl1 = Some (0, S1)" using demo_reserve by auto
  have "bp_events S1 7 = Some ?bp"
    using r i(2) do_reserve_ok [OF ok i bp _ _ len] HW_values
    by (cases "room demo_tbl1 [] ?bp") (auto simp: demo_event_def demo_attr_def HW_BREAKPOINT_EMPTY_def ENOSPC_def)
  then have "err = 0" using run(1) r i(2)
    by (auto simp: hw_breakpoint_event_init_def register_perf_hw_breakpoint_def reserve_bp_slot_def validate_hw_breakpoint_def
      demo_arch_def demo_event_def demo_attr_def Let_def)
  moreover from this have "bp_reach (S, if (0::int) = 0 then [7] else [])"
    using run(1) by (intro reach_next [OF demo_tbl1_reach step_init [OF i(2) bp i(1) len]]) simp
  ultimately show ?thesis using run by (simp add: demo_tbl1_def)
qed

theorem breakpoints_fit_witness:
  "\<exists>S :: unit bp_table. bp_reach (S, [7]) \<and> length (filter (\<lambda>i. find_slot_idx (evt S i) = TYPE_DATA \<and> on_cpu (evt S i) 0 \<and>
      (pe_target (evt S i) = None \<or> pe_target (evt S i) = Some 3)) [7]) \<le> nat (nr_slots S TYPE_DATA) \<and>
    (\<forall>i\<in>set [7]. bp_perf_event_destroy i S \<noteq> None)"
proof -
  obtain S :: "unit bp_table" where S: "possible_cpus S = [0, 1]" "bp_reach (S, [7])" using demo_held by blast
  then have "0 \<in> set (possible_cpus S)" by simp
  from breakpoints_fit [OF S(2) this, of TYPE_DATA 3] S(2) show ?thesis by blast
qed

text \<open>
  C17: a reservation is exact. For an event of a valid type it answers \<open>-ENOSPC\<close> and changes nothing
  when, on some cpu it covers, the breakpoints of its type that the cpu and its task (for a cpu's
  event, some task) already have fill the registers; otherwise it answers 0, and releasing the slot
  gives a table that counts the same events as before.
\<close>

theorem reserve_bp_slot_exact:
  assumes reach: "bp_reach (S, held)" and i: "bp_events S i = Some bp" "i \<notin> set held" and bp: "event_ok S bp"
    and type: "bp_type (pe_attr bp) \<noteq> HW_BREAKPOINT_EMPTY" "bp_type (pe_attr bp) \<noteq> HW_BREAKPOINT_INVALID"
    and len: "length held + 1 < 2 ^ 32"
    and used: "\<And>c k. used c k = length (filter (\<lambda>j. find_slot_idx (evt S j) = find_slot_idx bp \<and> on_cpu (evt S j) c \<and>
      (pe_target (evt S j) = None \<or> pe_target (evt S j) = Some k)) held)"
  shows "if \<exists>c\<in>set (possible_cpus S). on_cpu bp c \<and>
      (\<exists>k. (pe_target bp = None \<or> pe_target bp = Some k) \<and> nat (nr_slots S (find_slot_idx bp)) \<le> used c k)
    then reserve_bp_slot i S = Some (-ENOSPC, S)
    else \<exists>S' S''. reserve_bp_slot i S = Some (0, S') \<and> tbl_ok S' (i # held) \<and>
      release_bp_slot i S' = Some S'' \<and> tbl_ok S'' held"
proof -
  have ok: "tbl_ok S held" using bp_reach_ok [OF reach] by simp
  have r: "room S held bp \<longleftrightarrow> \<not> (\<exists>c\<in>set (possible_cpus S). on_cpu bp c \<and>
      (\<exists>k. (pe_target bp = None \<or> pe_target bp = Some k) \<and> nat (nr_slots S (find_slot_idx bp)) \<le> used c k))"
    unfolding room_def room_on_def used length_filter_head [OF ok] by (auto simp: not_le Suc_le_eq)
  show ?thesis
  proof (cases "room S held bp")
    case True
    from do_reserve_ok(1) [OF ok i(2,1) bp type len True] obtain S' where
      S': "do_reserve_bp_slot i S = Some (0, S')" "tbl_ok S' (i # held)" by blast
    obtain S'' where S'': "do_release_bp_slot i S' = Some S''" "tbl_ok S'' (remove1 i (i # held))"
      by (rule do_release_ok [OF S'(2), of i]) simp_all
    then show ?thesis using True S' unfolding r by (auto simp: reserve_bp_slot_def release_bp_slot_def)
  next
    case False
    then show ?thesis using do_reserve_ok(2) [OF ok i(2,1) bp type len False] unfolding r
      by (simp add: reserve_bp_slot_def)
  qed
qed

theorem reserve_bp_slot_exact_witness:
  "if \<exists>c\<in>set (possible_cpus demo_tbl1). on_cpu (demo_event {HW_BREAKPOINT_W} (-1) (Some 3)) c \<and>
      (\<exists>k. (pe_target (demo_event {HW_BREAKPOINT_W} (-1) (Some 3)) = None \<or>
          pe_target (demo_event {HW_BREAKPOINT_W} (-1) (Some 3)) = Some k) \<and>
        nat (nr_slots demo_tbl1 (find_slot_idx (demo_event {HW_BREAKPOINT_W} (-1) (Some 3)))) \<le> 0)
    then reserve_bp_slot 7 demo_tbl1 = Some (-ENOSPC, demo_tbl1)
    else \<exists>S' S''. reserve_bp_slot 7 demo_tbl1 = Some (0, S') \<and> tbl_ok S' [7] \<and>
      release_bp_slot 7 S' = Some S'' \<and> tbl_ok S'' []"
  by (rule reserve_bp_slot_exact [OF demo_tbl1_reach, where used = "\<lambda>_ _. 0"])
    (use HW_values in \<open>simp_all add: demo_tbl1_def event_ok_def demo_event_def demo_attr_def HW_BREAKPOINT_EMPTY_def\<close>)

section \<open>Changing the type of a breakpoint that has a slot\<close>

text \<open>One cpu with one register of each type; event 7 watches writes of task 3 on all cpus.\<close>

definition drift_tbl :: "unit bp_table" where
  "drift_tbl = \<lparr>nr_slots = (\<lambda>_. 1), nr_cpu_bp_pinned = (\<lambda>_ _. 0), nr_task_bp_pinned = (\<lambda>_ _. Some [0]), nr_bp_flexible = (\<lambda>_ _. 0),
     bp_task_head = [], constraints_initialized = True, possible_cpus = [0], online_cpus = [0],
     bp_events = [7 \<mapsto> demo_event {HW_BREAKPOINT_W} (-1) (Some 3), 8 \<mapsto> demo_event {HW_BREAKPOINT_X} 0 None,
       9 \<mapsto> demo_event {HW_BREAKPOINT_W} 0 None]\<rparr>"

definition drift_end :: "unit bp_table option" where
  "drift_end = do {
     (err, S) \<leftarrow> hw_breakpoint_event_init demo_arch True 7 drift_tbl;
     (err, S) \<leftarrow> modify_user_hw_breakpoint demo_arch True (\<lambda>_ S. S) (\<lambda>_ S. S) 7 (demo_attr {HW_BREAKPOINT_X}) S;
     bp_perf_event_destroy 7 S
   }"

lemmas drift_defs = drift_tbl_def hw_breakpoint_event_init_def register_perf_hw_breakpoint_def
  reserve_bp_slot_def do_reserve_bp_slot_def fetch_bp_busy_slots_def pinned_on_def task_bp_pinned_def max_task_bp_pinned_def
  fetch_this_slot_def toggle_bp_slot_def toggle_bp_task_slot_def bump_def validate_hw_breakpoint_def modify_user_hw_breakpoint_def
  bp_perf_event_destroy_def release_bp_slot_def do_release_bp_slot_def find_slot_idx_def hw_breakpoint_weight_def
  demo_event_def demo_attr_def demo_arch_def HW_BREAKPOINT_EMPTY_def HW_BREAKPOINT_INVALID_def HW_BREAKPOINT_RW_def set_event_def Let_def

text \<open>
  \<open>modify_user_hw_breakpoint\<close> lets the type change between data and instruction without moving the
  slot. When a write watchpoint becomes an execute breakpoint and is then destroyed, the counter of
  the instruction type wraps to \<open>2 ^ 32 - 1\<close> and the data slot stays taken: with nothing registered any
  more, both registers, free at the start, are refused for ever.
\<close>

theorem modify_type_drifts:
  "map_option fst (reserve_bp_slot 8 drift_tbl) = Some 0 \<and> map_option fst (reserve_bp_slot 9 drift_tbl) = Some 0 \<and>
   map_option (\<lambda>S. (nr_task_bp_pinned S 0 TYPE_INST, nr_task_bp_pinned S 0 TYPE_DATA, bp_task_head S)) drift_end =
     Some (Some [-1], Some [1], []) \<and>
   map_option fst (Option.bind drift_end (reserve_bp_slot 8)) = Some (-ENOSPC) \<and>
   map_option fst (Option.bind drift_end (reserve_bp_slot 9)) = Some (-ENOSPC)"
  by (simp add: drift_end_def drift_defs word_gt_0)

end
