(* ===== verification/BpDeviceProof.thy ===== *)
theory BpDeviceProof
  imports BpDevice HwBpProof
begin

text \<open>
  Breakpoints on all cpus, the device and the library as an accounting of live events. \<open>perf_ok P live\<close>
  is the contract of the perf core: creating an event adds a new one or, on an error, none, and
  releasing it removes it. A set of breakpoints is created entirely or not at all; a file of the
  device owns exactly the events it created, and gives all of them back when it is closed.
\<close>

definition perf_ok :: "'s perf_core \<Rightarrow> ('s \<Rightarrow> nat set) \<Rightarrow> bool" where
  "perf_ok P live \<longleftrightarrow>
     (\<forall>attr cpu tgt s. case pc_create P attr cpu tgt s of
        (Inl err, s') \<Rightarrow> live s' = live s
      | (Inr i, s') \<Rightarrow> i \<notin> live s \<and> live s' = insert i (live s)) \<and>
     (\<forall>i s. live (pc_release P i s) = live s - {i})"

section \<open>All cpus\<close>

lemma perf_ok_create:
  assumes "perf_ok P live" and "pc_create P attr cpu tgt s = (r, s')"
  shows "case r of Inl err \<Rightarrow> live s' = live s | Inr i \<Rightarrow> i \<notin> live s \<and> live s' = insert i (live s)"
proof -
  note all = assms(1) [unfolded perf_ok_def, THEN conjunct1, rule_format, where attr = attr and cpu = cpu and tgt = tgt and s = s]
  show ?thesis using all unfolding assms(2) by (simp split: sum.splits)
qed

lemma live_release: "perf_ok P live \<Longrightarrow> live (pc_release P i s) = live s - {i}"
  by (simp add: perf_ok_def)

text \<open>The events of some cpus.\<close>

definition created :: "cpu_pointers \<Rightarrow> nat list \<Rightarrow> nat set" where
  "created evs cpus = {i. \<exists>c\<in>set cpus. evs c = Some (Inr i)}"

lemma created_Cons:
  "created evs (c # cpus) = (case evs c of Some (Inr i) \<Rightarrow> insert i (created evs cpus) | _ \<Rightarrow> created evs cpus)"
  by (auto simp: created_def split: option.split sum.split)

lemma register_cpus_ok:
  assumes P: "perf_ok P live"
  shows "distinct cpus \<Longrightarrow> register_cpus P attr cpus evs s = (r, evs', s') \<Longrightarrow>
    (\<forall>c. c \<notin> set cpus \<longrightarrow> evs' c = evs c) \<and>
    (case r of
       None \<Rightarrow> (\<forall>c\<in>set cpus. \<exists>i. evs' c = Some (Inr i)) \<and> live s' = live s \<union> created evs' cpus \<and>
         created evs' cpus \<inter> live s = {} \<and> card (created evs' cpus) = length cpus
     | Some err \<Rightarrow> (\<exists>pre c post. cpus = pre @ c # post \<and> (\<forall>d\<in>set pre. \<exists>i. evs' d = Some (Inr i)) \<and>
         evs' c = Some (Inl err) \<and> live s' = live s \<union> created evs' pre \<and> created evs' pre \<inter> live s = {}))"
proof (induction cpus arbitrary: evs s)
  case Nil
  then show ?case by (auto simp: created_def)
next
  case (Cons c cpus)
  obtain x s1 where one: "pc_create P attr (int c) None s = (x, s1)" by fastforce
  note cr = perf_ok_create [OF P one]
  show ?case
  proof (cases x)
    case (Inl err)
    then have "r = Some err" "evs' = evs(c \<mapsto> Inl err)" "s' = s1" using Cons.prems(2) one by simp_all
    then show ?thesis using cr Inl by (auto simp: created_def intro!: exI [of _ "[]"])
  next
    case (Inr i)
    have run: "register_cpus P attr cpus (evs(c \<mapsto> Inr i)) s1 = (r, evs', s')" using Cons.prems(2) one Inr by simp
    have d: "distinct cpus" "c \<notin> set cpus" using Cons.prems(1) by simp_all
    note ih = Cons.IH [OF d(1) run]
    have c: "evs' c = Some (Inr i)" using ih d(2) by auto
    have i: "i \<notin> live s" "live s1 = insert i (live s)" using cr Inr by simp_all
    have frame: "\<forall>e. e \<notin> set (c # cpus) \<longrightarrow> evs' e = evs e" using ih by auto
    show ?thesis
    proof (cases r)
      case None
      then have n: "\<forall>c\<in>set cpus. \<exists>i. evs' c = Some (Inr i)" "live s' = live s1 \<union> created evs' cpus"
        "created evs' cpus \<inter> live s1 = {}" "card (created evs' cpus) = length cpus" using ih by simp_all
      have "i \<notin> created evs' cpus" using n(3) i(2) by auto
      moreover have "finite (created evs' cpus)"
      proof (rule finite_subset)
        show "created evs' cpus \<subseteq> (\<lambda>d. projr (the (evs' d))) ` set cpus" by (auto simp: created_def image_iff) (metis option.sel sum.sel(2))
      qed simp
      ultimately have "card (created evs' (c # cpus)) = length (c # cpus)" using n(4) c by (simp add: created_Cons)
      then show ?thesis using None n i c frame by (auto simp: created_Cons)
    next
      case (Some err)
      then obtain pre d post where p: "cpus = pre @ d # post" "\<forall>d\<in>set pre. \<exists>i. evs' d = Some (Inr i)"
        "evs' d = Some (Inl err)" "live s' = live s1 \<union> created evs' pre" "created evs' pre \<inter> live s1 = {}" using ih by auto
      have "c # cpus = (c # pre) @ d # post \<and> (\<forall>d\<in>set (c # pre). \<exists>i. evs' d = Some (Inr i)) \<and>
         evs' d = Some (Inl err) \<and> live s' = live s \<union> created evs' (c # pre) \<and> created evs' (c # pre) \<inter> live s = {}"
        using p i c by (auto simp: created_Cons)
      then show ?thesis unfolding Some option.case using frame by blast
    qed
  qed
qed

lemma undo_cpus_ok:
  assumes P: "perf_ok P live"
  shows "\<forall>d\<in>set pre. \<exists>i. evs d = Some (Inr i) \<Longrightarrow> evs c = Some (Inl err) \<Longrightarrow>
    live (undo_cpus P (pre @ c # post) evs s) = live s - created evs pre"
proof (induction pre arbitrary: s)
  case Nil
  then show ?case by (simp add: created_def)
next
  case (Cons d pre)
  then obtain i where "evs d = Some (Inr i)" by auto
  then show ?case using Cons live_release [OF P]
    by (auto simp: created_Cons unregister_hw_breakpoint_def)
qed

lemma unregister_wide_ok:
  assumes P: "perf_ok P live"
  shows "live (unregister_wide_hw_breakpoint P cpus evs s) = live s - {i. \<exists>c\<in>set cpus. evs c = Some i}"
proof (induction cpus arbitrary: s)
  case (Cons c cpus)
  then show ?case using live_release [OF P] by (cases "evs c") (auto simp: unregister_hw_breakpoint_def)
qed simp

lemma register_wide_ok:
  assumes P: "perf_ok P live" and on: "distinct online" "set online \<subseteq> set possible"
    and run: "register_wide_hw_breakpoint P online mem attr s = (r, s')"
  shows "case r of
      Inl err \<Rightarrow> live s' = live s
    | Inr evs \<Rightarrow> dom evs = set online \<and> live s' = live s \<union> ran evs \<and> ran evs \<inter> live s = {} \<and> card (ran evs) = length online \<and>
        (\<forall>s. live (unregister_wide_hw_breakpoint P possible evs s) = live s - ran evs)"
proof (cases mem)
  case False
  then show ?thesis using run by (auto simp: register_wide_hw_breakpoint_def)
next
  case True
  obtain e evs s1 where reg: "register_cpus P attr online (\<lambda>_. None) s = (e, evs, s1)" by (metis prod_cases3)
  note ok = register_cpus_ok [OF P on(1) reg]
  show ?thesis
  proof (cases e)
    case (Some err)
    then obtain pre c post where p: "online = pre @ c # post" "\<forall>d\<in>set pre. \<exists>i. evs d = Some (Inr i)"
      "evs c = Some (Inl err)" "live s1 = live s \<union> created evs pre" "created evs pre \<inter> live s = {}" using ok by auto
    have "r = Inl err" "s' = undo_cpus P online evs s1" using run True reg Some by (simp_all add: register_wide_hw_breakpoint_def)
    then show ?thesis using undo_cpus_ok [OF P p(2,3), of post s1] p by auto
  next
    case None
    then have n: "\<forall>c. c \<notin> set online \<longrightarrow> evs c = None" "\<forall>c\<in>set online. \<exists>i. evs c = Some (Inr i)"
      "live s1 = live s \<union> created evs online" "created evs online \<inter> live s = {}" "card (created evs online) = length online"
      using ok by simp_all
    have r: "r = Inr (valid_events evs)" "s' = s1" using run True reg None by (simp_all add: register_wide_hw_breakpoint_def)
    have ve: "valid_events evs c = Some i \<longleftrightarrow> evs c = Some (Inr i)" for c i
      by (simp add: valid_events_def split: option.split sum.split)
    have ran: "ran (valid_events evs) = created evs online"
      using n(1) by (auto simp: ran_def ve created_def)
    have dom: "dom (valid_events evs) = set online" using n(1,2) by (auto simp: dom_def ve)
    have "{i. \<exists>c\<in>set possible. valid_events evs c = Some i} = ran (valid_events evs)"
      using dom on(2) by (auto simp: ran_def dom_def) 
    then show ?thesis using r n ran dom unregister_wide_ok [OF P] by simp
  qed
qed

section \<open>The device\<close>

text \<open>The events of a file, and a file whose sets are of this machine, apart from each other and from \<open>base\<close>.\<close>

definition owned :: "bp_list list \<Rightarrow> nat set" where
  "owned list = (\<Union>b\<in>set list. ran (bl_bp b))"

fun apart :: "bp_machine \<Rightarrow> nat set \<Rightarrow> bp_list list \<Rightarrow> bool" where
  "apart M base [] \<longleftrightarrow> True"
| "apart M base (b # list) \<longleftrightarrow> apart M base list \<and> dom (bl_bp b) = set (bm_online M) \<and>
     ran (bl_bp b) \<inter> (base \<union> owned list) = {}"

definition machine_ok :: "bp_machine \<Rightarrow> bool" where
  "machine_ok M \<longleftrightarrow> distinct (bm_online M) \<and> set (bm_online M) \<subseteq> set (bm_possible M)"

definition file_ok :: "bp_machine \<Rightarrow> ('s \<Rightarrow> nat set) \<Rightarrow> nat set \<Rightarrow> bp_list list \<Rightarrow> 's \<Rightarrow> bool" where
  "file_ok M live base list s \<longleftrightarrow> apart M base list \<and> live s = base \<union> owned list"

lemma owned_simps [simp]: "owned [] = {}" "owned (b # list) = ran (bl_bp b) \<union> owned list"
  by (simp_all add: owned_def)

lemma unregister_set:
  assumes "perf_ok P live" and "machine_ok M" and "dom evs = set (bm_online M)"
  shows "live (unregister_wide_hw_breakpoint P (bm_possible M) evs s) = live s - ran evs"
proof -
  have "{i. \<exists>c\<in>set (bm_possible M). evs c = Some i} = ran evs"
    using assms(2,3) by (auto simp: machine_ok_def ran_def dom_def)
  then show ?thesis using unregister_wide_ok [OF assms(1)] by simp
qed

lemma release_list_ok:
  assumes "perf_ok P live" and "machine_ok M"
  shows "apart M base list \<Longrightarrow> live (release_list P M list s) = live s - owned list"
proof (induction list arbitrary: s)
  case (Cons b list)
  then show ?case using unregister_set [OF assms, of "bl_bp b"] by auto
qed simp

lemma create_bp_ok:
  assumes P: "perf_ok P live" and M: "machine_ok M" and f: "file_ok M live base list s"
    and run: "create_bp P M mem1 mem2 user_attr list s = (rc, list', s')"
  shows "file_ok M live base list' s'"
    and "rc = 0 \<and> (\<exists>b. list' = b # list \<and> card (ran (bl_bp b)) = length (bm_online M) \<and>
        bp_addr (bl_attr b) = bp_addr user_attr \<and> bp_len (bl_attr b) = bp_len user_attr \<and> bp_type (bl_attr b) = bp_type user_attr) \<or>
      rc < 0 \<and> list' = list \<and> live s' = live s"
proof -
  let ?attr = "(bm_init M)\<lparr>bp_addr := bp_addr user_attr, bp_len := bp_len user_attr, bp_type := bp_type user_attr, at_disabled := False\<rparr>"
  obtain r s1 where reg: "register_wide_hw_breakpoint P (bm_online M) mem1 ?attr s = (r, s1)" by fastforce
  have on: "distinct (bm_online M)" "set (bm_online M) \<subseteq> set (bm_possible M)" using M by (simp_all add: machine_ok_def)
  note ok = register_wide_ok [OF P on reg]
  have "file_ok M live base list' s' \<and> (rc = 0 \<and> (\<exists>b. list' = b # list \<and> card (ran (bl_bp b)) = length (bm_online M) \<and>
        bp_addr (bl_attr b) = bp_addr user_attr \<and> bp_len (bl_attr b) = bp_len user_attr \<and> bp_type (bl_attr b) = bp_type user_attr) \<or>
      rc < 0 \<and> list' = list \<and> live s' = live s)"
  proof (cases r)
    case (Inl err)
    then show ?thesis using run ok f by (auto simp: create_bp_def reg file_ok_def Let_def)
  next
    case (Inr evs)
    then have e: "dom evs = set (bm_online M)" "live s1 = live s \<union> ran evs" "ran evs \<inter> live s = {}"
      "card (ran evs) = length (bm_online M)" "live (unregister_wide_hw_breakpoint P (bm_possible M) evs s1) = live s1 - ran evs"
      using ok by simp_all
    show ?thesis
    proof (cases mem2)
      case True
      then have r: "rc = 0" "list' = \<lparr>bl_bp = evs, bl_attr = ?attr\<rparr> # list" "s' = s1"
        using run Inr by (simp_all add: create_bp_def reg Let_def)
      have "file_ok M live base list' s'" using f e unfolding r file_ok_def by auto
      then show ?thesis using e(4) r by simp
    next
      case False
      then have r: "rc = -ENOMEM" "list' = list" "s' = unregister_wide_hw_breakpoint P (bm_possible M) evs s1"
        using run Inr by (simp_all add: create_bp_def reg Let_def)
      then have "live s' = live s" using e by auto
      then show ?thesis using r f by (simp add: file_ok_def ENOMEM_def)
    qed
  qed
  then show "file_ok M live base list' s'" and "rc = 0 \<and> (\<exists>b. list' = b # list \<and> card (ran (bl_bp b)) = length (bm_online M) \<and>
        bp_addr (bl_attr b) = bp_addr user_attr \<and> bp_len (bl_attr b) = bp_len user_attr \<and> bp_type (bl_attr b) = bp_type user_attr) \<or>
      rc < 0 \<and> list' = list \<and> live s' = live s" by simp_all
qed

lemma del_bp_ok:
  assumes P: "perf_ok P live" and M: "machine_ok M"
  shows "apart M base list \<Longrightarrow> del_bp P M user_attr list s = (list', s') \<Longrightarrow>
    apart M base list' \<and> owned list' \<subseteq> owned list \<and> live s' = live s - (owned list - owned list')"
proof (induction list arbitrary: list' s')
  case (Cons b list)
  show ?case
  proof (cases "bp_addr (bl_attr b) = bp_addr user_attr")
    case True
    have "dom (bl_bp b) = set (bm_online M)" using Cons.prems(1) by simp
    then show ?thesis using True Cons.prems unregister_set [OF P M, of "bl_bp b" s] by auto
  next
    case False
    obtain l1 s1 where d: "del_bp P M user_attr list s = (l1, s1)" by fastforce
    then have r: "list' = b # l1" "s' = s1" using Cons.prems(2) False by simp_all
    have ih: "apart M base l1 \<and> owned l1 \<subseteq> owned list \<and> live s1 = live s - (owned list - owned l1)"
      using Cons.IH [OF _ d] Cons.prems(1) by simp
    show ?thesis using ih Cons.prems(1) unfolding r by auto
  qed
qed simp

lemma ioctl_ok:
  assumes P: "perf_ok P live" and M: "machine_ok M" and f: "file_ok M live base list s"
    and run: "bp_dev_ioctl P M mem1 mem2 cmd arg list s = (rc, list', s')"
  shows "file_ok M live base list' s'"
proof -
  consider "arg = None" | a where "arg = Some a" "cmd = BP_CREATE" | a where "arg = Some a" "cmd = BP_DEL" "cmd \<noteq> BP_CREATE"
    | a where "arg = Some a" "cmd \<noteq> BP_CREATE" "cmd \<noteq> BP_DEL" by blast
  then show ?thesis
  proof cases
    case (2 a)
    then show ?thesis using run create_bp_ok(1) [OF P M f] by (simp add: bp_dev_ioctl_def)
  next
    case (3 a)
    obtain l1 s1 where d: "del_bp P M a list s = (l1, s1)" by fastforce
    have ap: "apart M base list" "live s = base \<union> owned list" using f by (simp_all add: file_ok_def)
    have b: "base \<inter> owned list = {}" using ap(1) by (induction list) auto
    have "apart M base l1 \<and> owned l1 \<subseteq> owned list \<and> live s1 = live s - (owned list - owned l1)"
      by (rule del_bp_ok [OF P M ap(1) d])
    then show ?thesis using run 3 d ap(2) b by (auto simp: bp_dev_ioctl_def file_ok_def)
  qed (use run f in \<open>simp_all add: bp_dev_ioctl_def\<close>)
qed

text \<open>A sequence of calls on one file.\<close>

fun run_ioctls ::
    "'s perf_core \<Rightarrow> bp_machine \<Rightarrow> (bool \<times> bool \<times> nat \<times> perf_attr option) list \<Rightarrow> bp_list list \<Rightarrow> 's \<Rightarrow> bp_list list \<times> 's" where
  "run_ioctls P M [] list s = (list, s)"
| "run_ioctls P M ((mem1, mem2, cmd, arg) # calls) list s =
     (case bp_dev_ioctl P M mem1 mem2 cmd arg list s of (rc, list, s) \<Rightarrow> run_ioctls P M calls list s)"

lemma run_ioctls_ok:
  assumes P: "perf_ok P live" and M: "machine_ok M"
  shows "file_ok M live base list s \<Longrightarrow> run_ioctls P M calls list s = (list', s') \<Longrightarrow> file_ok M live base list' s'"
proof (induction calls arbitrary: list s)
  case (Cons c calls)
  obtain mem1 mem2 cmd arg where c: "c = (mem1, mem2, cmd, arg)" by (metis prod_cases4)
  obtain rc l1 s1 where r: "bp_dev_ioctl P M mem1 mem2 cmd arg list s = (rc, l1, s1)" by (metis prod_cases3)
  show ?case using Cons.IH [OF ioctl_ok [OF P M Cons.prems(1) r]] Cons.prems(2) by (simp add: c r)
qed simp

section \<open>An instance\<close>

text \<open>
  The breakpoint PMU behind the contract: a table, the next address and the events that exist. An
  event is created at the next address and kept when \<open>hw_breakpoint_event_init\<close> accepts it; a release
  destroys it.
\<close>

definition pmu_core :: "'i bp_arch \<Rightarrow> 'i \<Rightarrow> ('i bp_table \<times> nat \<times> nat list) perf_core" where
  "pmu_core R info = \<lparr>
     pc_create = (\<lambda>attr cpu tgt (S, n, evs).
       case hw_breakpoint_event_init R True n (set_event n \<lparr>pe_attr = attr, pe_cpu = cpu, pe_target = tgt, pe_stopped = False,
           pe_destroy = False, pe_info = info\<rparr> S) of
         Some (err, S') \<Rightarrow> if err = 0 then (Inr n, (S', n + 1, n # evs)) else (Inl err, (S, n, evs))
       | None \<Rightarrow> (Inl (-EINVAL), (S, n, evs))),
     pc_release = (\<lambda>i (S, n, evs).
       case bp_perf_event_destroy i S of Some S' \<Rightarrow> (S', n, removeAll i evs) | None \<Rightarrow> (S, n, removeAll i evs))\<rparr>"

definition pmu_live :: "'i bp_table \<times> nat \<times> nat list \<Rightarrow> nat set" where
  "pmu_live s = {i \<in> set (snd (snd s)). i < fst (snd s)}"

lemma pmu_core_ok: "perf_ok (pmu_core R info) pmu_live"
  by (auto simp: perf_ok_def pmu_core_def pmu_live_def split: option.split prod.split)

definition demo_machine :: bp_machine where
  "demo_machine = \<lparr>bm_possible = [0, 1], bm_online = [0, 1], bm_init = demo_attr {}\<rparr>"

lemma demo_machine_ok: "machine_ok demo_machine"
  by (simp add: machine_ok_def demo_machine_def)

section \<open>Properties\<close>

text \<open>
  C21: a breakpoint on all cpus is all or nothing. When creating the event of some online cpu fails,
  the events created for the cpus before it are released and no event is left; otherwise every
  online cpu has an event of its own, and unregistering the set leaves the events there were before.
\<close>

theorem wide_breakpoint_all_or_nothing:
  assumes P: "perf_ok P live" and on: "distinct online" "set online \<subseteq> set possible"
    and run: "register_wide_hw_breakpoint P online mem attr s = (r, s')"
  shows "case r of
      Inl err \<Rightarrow> live s' = live s
    | Inr evs \<Rightarrow> dom evs = set online \<and> card (ran evs) = length online \<and> ran evs \<inter> live s = {} \<and>
        live s' = live s \<union> ran evs \<and> live (unregister_wide_hw_breakpoint P possible evs s') = live s"
  using register_wide_ok [OF P on run] by (auto split: sum.splits)

theorem wide_breakpoint_all_or_nothing_witness:
  "case fst (register_wide_hw_breakpoint (pmu_core demo_arch ()) [0, 1] True (demo_attr {HW_BREAKPOINT_W}) (demo_tbl 4, 0, [])) of
      Inl err \<Rightarrow> pmu_live (snd (register_wide_hw_breakpoint (pmu_core demo_arch ()) [0, 1] True (demo_attr {HW_BREAKPOINT_W}) (demo_tbl 4, 0, []))) =
        pmu_live (demo_tbl 4, 0, [])
    | Inr evs \<Rightarrow> dom evs = set [0, 1] \<and> card (ran evs) = length [0::nat, 1] \<and> ran evs \<inter> pmu_live (demo_tbl 4, 0, []) = {} \<and>
        pmu_live (snd (register_wide_hw_breakpoint (pmu_core demo_arch ()) [0, 1] True (demo_attr {HW_BREAKPOINT_W}) (demo_tbl 4, 0, []))) =
          pmu_live (demo_tbl 4, 0, []) \<union> ran evs \<and>
        pmu_live (unregister_wide_hw_breakpoint (pmu_core demo_arch ()) [0, 1] evs
          (snd (register_wide_hw_breakpoint (pmu_core demo_arch ()) [0, 1] True (demo_attr {HW_BREAKPOINT_W}) (demo_tbl 4, 0, [])))) =
          pmu_live (demo_tbl 4, 0, [])"
  by (rule wide_breakpoint_all_or_nothing [OF pmu_core_ok]) simp_all

text \<open>
  C24: closing the device gives back everything. After any sequence of ioctls on a file, also ones that
  fail half-way or name addresses that are not watched, releasing the file leaves exactly the events
  that existed when it was opened.
\<close>

theorem device_gives_back:
  assumes P: "perf_ok P live" and M: "machine_ok M"
    and run: "run_ioctls P M calls [] s = (list, s1)"
  shows "\<exists>s2. bp_dev_release P M list s1 = (0, None, s2) \<and> live s2 = live s"
proof -
  have "file_ok M live (live s) [] s" by (simp add: file_ok_def)
  from run_ioctls_ok [OF P M this run] have f: "apart M (live s) list" "live s1 = live s \<union> owned list"
    by (simp_all add: file_ok_def)
  have "live s \<inter> owned list = {}" using f(1) by (induction list) auto
  then have "live (release_list P M list s1) = live s" using release_list_ok [OF P M f(1)] f(2) by auto
  then show ?thesis by (simp add: bp_dev_release_def)
qed

theorem device_gives_back_witness:
  "\<exists>s2. bp_dev_release (pmu_core demo_arch ()) demo_machine
      (fst (run_ioctls (pmu_core demo_arch ()) demo_machine [(True, True, BP_CREATE, Some (demo_attr {HW_BREAKPOINT_W})),
        (True, False, BP_CREATE, Some (demo_attr {HW_BREAKPOINT_W})), (True, True, BP_DEL, None)] [] (demo_tbl 4, 0, [])))
      (snd (run_ioctls (pmu_core demo_arch ()) demo_machine [(True, True, BP_CREATE, Some (demo_attr {HW_BREAKPOINT_W})),
        (True, False, BP_CREATE, Some (demo_attr {HW_BREAKPOINT_W})), (True, True, BP_DEL, None)] [] (demo_tbl 4, 0, []))) =
      (0, None, s2) \<and> pmu_live s2 = pmu_live (demo_tbl 4, 0, [])"
  by (rule device_gives_back [OF pmu_core_ok demo_machine_ok prod.collapse [symmetric]])

text \<open>
  Watching a variable. When \<open>start_monitor\<close> succeeds, each online cpu has one more event, in a set
  that watches writes of 4 bytes at the address, and \<open>stop_monitor\<close> closes the device and leaves no
  event behind. When it fails no event is left either; but if it is the device that refuses the
  watchpoint, the descriptor stays open.
\<close>

theorem monitor_start_stop:
  assumes P: "perf_ok P live" and M: "machine_ok M" and w: "wp_files w (we_fd V) = None"
    and run: "start_monitor P M V junk addr w = (rc, w1)"
  shows "(rc = 0 \<and>
      (\<exists>b. wp_files w1 (m_fd w1) = Some [b] \<and> card (ran (bl_bp b)) = length (bm_online M) \<and>
        live (wp_kernel w1) = live (wp_kernel w) \<union> ran (bl_bp b) \<and>
        bp_addr (bl_attr b) = addr \<and> bp_len (bl_attr b) = 4 \<and> bp_type (bl_attr b) = {HW_BREAKPOINT_W}) \<and>
      (\<exists>w2. stop_monitor P M V junk w1 = (0, w2) \<and> wp_files w2 = wp_files w \<and> live (wp_kernel w2) = live (wp_kernel w))) \<or>
    (rc = -1 \<and> live (wp_kernel w1) = live (wp_kernel w) \<and>
      wp_files w1 = (if 0 \<le> we_fd V \<and> we_sigaction V then (wp_files w)(we_fd V \<mapsto> []) else wp_files w))"
proof (cases "0 \<le> we_fd V \<and> we_sigaction V")
  case False
  have upd: "(wp_files w)(we_fd V := None) = wp_files w" using w by auto
  have "start_monitor P M V junk addr w = (-1, if we_fd V < 0 then w\<lparr>m_fd := we_fd V\<rparr> else w\<lparr>m_fd := 0\<rparr>)"
  proof (cases "we_fd V < 0")
    case True
    then show ?thesis by (simp add: start_monitor_def watchpoint_init_def Let_def)
  next
    case neg: False
    with False have "watchpoint_init P M V w = (-1, w\<lparr>m_fd := 0\<rparr>)"
      by (simp add: watchpoint_init_def wp_close_def bp_dev_release_def Let_def upd)
    with neg show ?thesis by (simp add: start_monitor_def)
  qed
  then have "rc = -1" "wp_files w1 = wp_files w" "wp_kernel w1 = wp_kernel w" using run by auto
  with False show ?thesis by auto
next
  case True
  let ?attr = "watch_attr junk addr"
  obtain r list s where cr: "create_bp P M (we_mem1 V) (we_mem2 V) ?attr [] (wp_kernel w) = (r, list, s)" by (metis prod_cases3)
  have f0: "file_ok M live (live (wp_kernel w)) [] (wp_kernel w)" by (simp add: file_ok_def)
  note f1 = create_bp_ok [OF P M f0 cr]
  have io: "wp_ioctl P M V BP_CREATE ?attr (w\<lparr>m_fd := we_fd V, wp_files := (wp_files w)(we_fd V \<mapsto> []), handler_set := True\<rparr>) =
      (r, w\<lparr>m_fd := we_fd V, handler_set := True, wp_files := (wp_files w)(we_fd V \<mapsto> list), wp_kernel := s\<rparr>)"
    by (simp add: wp_ioctl_def bp_dev_ioctl_def cr)
  have start: "start_monitor P M V junk addr w = (if r < 0
      then (-1, w\<lparr>m_fd := we_fd V, handler_set := True, wp_files := (wp_files w)(we_fd V \<mapsto> list), wp_kernel := s\<rparr>)
      else (0, w\<lparr>m_fd := we_fd V, handler_set := True, wp_files := (wp_files w)(we_fd V \<mapsto> list), wp_kernel := s, wp_addr := addr\<rparr>))"
    using True io by (simp add: start_monitor_def watchpoint_init_def add_watchpoint_def Let_def)
  have upd: "(wp_files w)(we_fd V := None) = wp_files w" using w by auto
  from f1(2) show ?thesis
  proof (elim disjE conjE exE)
    fix b
    assume b: "r = 0" "list = [b]" "card (ran (bl_bp b)) = length (bm_online M)" "bp_addr (bl_attr b) = bp_addr ?attr"
      "bp_len (bl_attr b) = bp_len ?attr" "bp_type (bl_attr b) = bp_type ?attr"
    have a: "bp_addr (bl_attr b) = addr" "bp_len (bl_attr b) = 4" "bp_type (bl_attr b) = {HW_BREAKPOINT_W}"
      using b(4-6) by (simp_all add: watch_attr_def)
    have ap: "dom (bl_bp b) = set (bm_online M)" "ran (bl_bp b) \<inter> live (wp_kernel w) = {}"
      "live s = live (wp_kernel w) \<union> ran (bl_bp b)" using f1(1) b(2) by (auto simp: file_ok_def)
    have w1: "rc = 0" "w1 = w\<lparr>m_fd := we_fd V, handler_set := True, wp_files := (wp_files w)(we_fd V \<mapsto> [b]), wp_kernel := s, wp_addr := addr\<rparr>"
      using run start b(1,2) by simp_all
    have "live (unregister_wide_hw_breakpoint P (bm_possible M) (bl_bp b) s) = live (wp_kernel w)"
      using unregister_set [OF P M ap(1)] ap(2,3) by auto
    then show ?thesis unfolding w1 using a ap b(3)
      by (simp add: stop_monitor_def del_watchpoint_def wp_ioctl_def bp_dev_ioctl_def BP_CREATE_def BP_DEL_def
        watch_attr_def wp_close_def bp_dev_release_def upd)
  next
    assume r: "r < 0" "list = []" "live s = live (wp_kernel w)"
    then have "rc = -1" "w1 = w\<lparr>m_fd := we_fd V, handler_set := True, wp_files := (wp_files w)(we_fd V \<mapsto> []), wp_kernel := s\<rparr>"
      using run start by simp_all
    then show ?thesis using r True by simp
  qed
qed

theorem monitor_start_stop_witness:
  "\<exists>rc w1. start_monitor (pmu_core demo_arch ()) demo_machine \<lparr>we_fd = 3, we_sigaction = True, we_mem1 = True, we_mem2 = True\<rparr>
      (demo_attr {}) 0x1000 \<lparr>m_fd = 0, wp_addr = 0, handler_set = False, wp_files = (\<lambda>_. None), wp_kernel = (demo_tbl 4, 0, [])\<rparr> = (rc, w1) \<and>
    ((rc = 0 \<and>
      (\<exists>b. wp_files w1 (m_fd w1) = Some [b] \<and> card (ran (bl_bp b)) = length (bm_online demo_machine) \<and>
        pmu_live (wp_kernel w1) = pmu_live (demo_tbl 4, 0, []) \<union> ran (bl_bp b) \<and>
        bp_addr (bl_attr b) = 0x1000 \<and> bp_len (bl_attr b) = 4 \<and> bp_type (bl_attr b) = {HW_BREAKPOINT_W}) \<and>
      (\<exists>w2. stop_monitor (pmu_core demo_arch ()) demo_machine \<lparr>we_fd = 3, we_sigaction = True, we_mem1 = True, we_mem2 = True\<rparr>
          (demo_attr {}) w1 = (0, w2) \<and> wp_files w2 = (\<lambda>_. None) \<and> pmu_live (wp_kernel w2) = pmu_live (demo_tbl 4, 0, []))) \<or>
     (rc = -1 \<and> pmu_live (wp_kernel w1) = pmu_live (demo_tbl 4, 0, []) \<and> wp_files w1 = (\<lambda>_. None)(3 \<mapsto> [])))"
proof -
  let ?V = "\<lparr>we_fd = 3, we_sigaction = True, we_mem1 = True, we_mem2 = True\<rparr>"
  let ?w = "\<lparr>m_fd = 0, wp_addr = 0, handler_set = False, wp_files = (\<lambda>_. None), wp_kernel = (demo_tbl 4, 0, [])\<rparr>"
  obtain rc w1 where run: "start_monitor (pmu_core demo_arch ()) demo_machine ?V (demo_attr {}) 0x1000 ?w = (rc, w1)" by fastforce
  have "wp_files ?w (we_fd ?V) = None" by simp
  from monitor_start_stop [OF pmu_core_ok demo_machine_ok this run] run show ?thesis by simp
qed

end
