(* ===== verification/Arm64Debug.thy ===== *)
theory Arm64Debug
  imports HwBp
begin

text \<open>
  The debug registers of one arm64 cpu, \<open>src/debugfs/android50/kernel/arch/arm64/kernel/hw_breakpoint.c\<close>:
  which event is on which register, the encoding of an event for the registers, and the handlers of
  breakpoint, watchpoint and single-step exceptions.

  The headers of arm64 are not in the repository. The masks of the lengths are those of the 32-bit
  header \<open>arch/arm/include/asm/hw_breakpoint.h\<close>; the layout of a control register, \<open>TASK_SIZE\<close>, the
  removal of address tags and which tasks are 32-bit are the parameter \<open>arm_env\<close>. The calls that
  leave the file are seen by what they do to the state: \<open>perf_bp_event\<close> and \<open>force_sig_info\<close> append to
  \<open>hits\<close> and \<open>signals\<close>, the debug monitors count their users, and single-stepping is a flag. Events are
  valid while they are on a register.
\<close>

unbundle bit_operations_syntax

section \<open>State\<close>

datatype arm_bp_type = ARM_BREAKPOINT_EXECUTE | ARM_BREAKPOINT_LOAD | ARM_BREAKPOINT_STORE | ARM_BREAKPOINT_LOAD_STORE

datatype arm_privilege = AARCH64_BREAKPOINT_EL0 | AARCH64_BREAKPOINT_EL1 | PRIVILEGE_OTHER

datatype dbg_active_el = DBG_ACTIVE_EL0 | DBG_ACTIVE_EL1 | DBG_ACTIVE_INVALID

definition ARM_BREAKPOINT_LEN :: "nat \<Rightarrow> u8" where "ARM_BREAKPOINT_LEN n = mask n"

record arch_ctrl =
  ac_len :: u8
  ac_type :: arm_bp_type
  ac_privilege :: arm_privilege
  ac_enabled :: bool

record arch_hw_breakpoint =
  hi_address :: u64
  hi_trigger :: u64
  hi_ctrl :: arch_ctrl

type_synonym arm_event = "arch_hw_breakpoint perf_event"

record arm_env =
  encode_ctrl_reg :: "arch_ctrl \<Rightarrow> u32"
  decode_ctrl_reg :: "u32 \<Rightarrow> arch_ctrl"
  TASK_SIZE :: u64
  untagged_addr :: "u64 \<Rightarrow> u64"
  compat_task :: "nat \<Rightarrow> bool"
  default_handler :: "nat \<Rightarrow> bool"

datatype dbg_reg = AARCH64_DBG_REG_BVR | AARCH64_DBG_REG_BCR | AARCH64_DBG_REG_WVR | AARCH64_DBG_REG_WCR

datatype kernel_step = ARM_KERNEL_STEP_NONE | ARM_KERNEL_STEP_ACTIVE | ARM_KERNEL_STEP_SUSPEND

text \<open>\<open>struct debug_info\<close> of a thread and its \<open>TIF_SINGLESTEP\<close>.\<close>

record debug_info =
  bps_disabled :: bool
  wps_disabled :: bool
  suspended_step :: bool
  tif_singlestep :: bool

text \<open>\<open>current\<close> is the debug state of the running thread; \<open>monitors\<close> counts the users per level.\<close>

record arm_cpu =
  wb_regs :: "dbg_reg \<Rightarrow> nat \<Rightarrow> u64"
  bp_on_reg :: "nat option list"
  wp_on_reg :: "nat option list"
  stepping_kernel_bp :: kernel_step
  core_num_brps :: nat
  core_num_wrps :: nat
  arm_events :: "nat \<Rightarrow> arm_event"
  cur :: debug_info
  kernel_ss :: bool
  monitors :: "dbg_active_el \<Rightarrow> int"
  hits :: "(nat \<times> u64) list"
  signals :: "u64 list"

definition arm_info :: "arm_cpu \<Rightarrow> nat \<Rightarrow> arch_hw_breakpoint" where
  "arm_info S i = pe_info (arm_events S i)"

section \<open>Registers and slots\<close>

definition hw_breakpoint_slots :: "nat \<Rightarrow> nat \<Rightarrow> bp_type_idx \<Rightarrow> nat" where
  "hw_breakpoint_slots num_brps num_wrps type = (case type of TYPE_INST \<Rightarrow> num_brps | TYPE_DATA \<Rightarrow> num_wrps)"

text \<open>There are 16 registers of each kind; others read as 0 and writes to them have no effect.\<close>

definition read_wb_reg :: "dbg_reg \<Rightarrow> nat \<Rightarrow> arm_cpu \<Rightarrow> u64" where
  "read_wb_reg reg n S = (if n < 16 then wb_regs S reg n else 0)"

definition write_wb_reg :: "dbg_reg \<Rightarrow> nat \<Rightarrow> u64 \<Rightarrow> arm_cpu \<Rightarrow> arm_cpu" where
  "write_wb_reg reg n val S =
     (if n < 16 then S\<lparr>wb_regs := (wb_regs S)(reg := (wb_regs S reg)(n := val))\<rparr> else S)"

definition debug_exception_level :: "arm_privilege \<Rightarrow> dbg_active_el" where
  "debug_exception_level privilege =
     (case privilege of AARCH64_BREAKPOINT_EL0 \<Rightarrow> DBG_ACTIVE_EL0 | AARCH64_BREAKPOINT_EL1 \<Rightarrow> DBG_ACTIVE_EL1
      | PRIVILEGE_OTHER \<Rightarrow> DBG_ACTIVE_INVALID)"

datatype hw_breakpoint_ops = HW_BREAKPOINT_INSTALL | HW_BREAKPOINT_UNINSTALL | HW_BREAKPOINT_RESTORE

definition is_compat_bp :: "arm_env \<Rightarrow> arm_event \<Rightarrow> bool" where
  "is_compat_bp V bp = (case pe_target bp of None \<Rightarrow> False | Some tsk \<Rightarrow> compat_task V tsk)"

text \<open>The slot, \<open>None\<close> for \<open>-ENOSPC\<close>, and the slots after it.\<close>

fun slot_setup :: "nat \<Rightarrow> hw_breakpoint_ops \<Rightarrow> nat \<Rightarrow> nat \<Rightarrow> nat option list \<Rightarrow> nat option \<times> nat option list" where
  "slot_setup bp ops i 0 slots = (None, slots)"
| "slot_setup bp ops i (Suc n) slots =
     (case ops of
        HW_BREAKPOINT_INSTALL \<Rightarrow>
          if slots ! i = None then (Some i, slots[i := Some bp]) else slot_setup bp ops (i + 1) n slots
      | HW_BREAKPOINT_UNINSTALL \<Rightarrow>
          if slots ! i = Some bp then (Some i, slots[i := None]) else slot_setup bp ops (i + 1) n slots
      | HW_BREAKPOINT_RESTORE \<Rightarrow>
          if slots ! i = Some bp then (Some i, slots) else slot_setup bp ops (i + 1) n slots)"

definition hw_breakpoint_slot_setup ::
    "nat option list \<Rightarrow> nat \<Rightarrow> nat \<Rightarrow> hw_breakpoint_ops \<Rightarrow> nat option \<times> nat option list" where
  "hw_breakpoint_slot_setup slots max_slots bp ops = slot_setup bp ops 0 max_slots slots"

definition hw_breakpoint_control ::
    "arm_env \<Rightarrow> nat \<Rightarrow> hw_breakpoint_ops \<Rightarrow> arm_cpu \<Rightarrow> int \<times> arm_cpu" where
  "hw_breakpoint_control V bp ops S =
     (let info = arm_info S bp;
          dbg_el = debug_exception_level (ac_privilege (hi_ctrl info));
          exec = (ac_type (hi_ctrl info) = ARM_BREAKPOINT_EXECUTE);
          ctrl_reg = (if exec then AARCH64_DBG_REG_BCR else AARCH64_DBG_REG_WCR);
          val_reg = (if exec then AARCH64_DBG_REG_BVR else AARCH64_DBG_REG_WVR);
          slots = (if exec then bp_on_reg S else wp_on_reg S);
          max_slots = (if exec then core_num_brps S else core_num_wrps S);
          reg_enable = (if exec then \<not> bps_disabled (cur S) else \<not> wps_disabled (cur S))
      in case hw_breakpoint_slot_setup slots max_slots bp ops of
           (None, slots) \<Rightarrow> (-ENOSPC, S)
         | (Some i, slots) \<Rightarrow>
             (let S = (if exec then S\<lparr>bp_on_reg := slots\<rparr> else S\<lparr>wp_on_reg := slots\<rparr>);
                  S = (if ops = HW_BREAKPOINT_INSTALL
                       then S\<lparr>monitors := (monitors S)(dbg_el := monitors S dbg_el + 1)\<rparr> else S);
                  ctrl = encode_ctrl_reg V (hi_ctrl info)
              in if ops = HW_BREAKPOINT_UNINSTALL then
                   (0, (write_wb_reg ctrl_reg i 0 S)\<lparr>monitors := (monitors S)(dbg_el := monitors S dbg_el - 1)\<rparr>)
                 else
                   (0, write_wb_reg ctrl_reg i (ucast (if reg_enable then ctrl OR 1 else ctrl AND NOT 1))
                         (write_wb_reg val_reg i (hi_address info) S))))"

definition arch_install_hw_breakpoint :: "arm_env \<Rightarrow> nat \<Rightarrow> arm_cpu \<Rightarrow> int \<times> arm_cpu" where
  "arch_install_hw_breakpoint V bp S = hw_breakpoint_control V bp HW_BREAKPOINT_INSTALL S"

definition arch_uninstall_hw_breakpoint :: "arm_env \<Rightarrow> nat \<Rightarrow> arm_cpu \<Rightarrow> arm_cpu" where
  "arch_uninstall_hw_breakpoint V bp S = snd (hw_breakpoint_control V bp HW_BREAKPOINT_UNINSTALL S)"

section \<open>Encoding an event\<close>

definition get_hbp_len :: "u8 \<Rightarrow> nat" where
  "get_hbp_len hbp_len =
     (case find (\<lambda>n. hbp_len = ARM_BREAKPOINT_LEN n) [1, 2, 3, 4, 5, 6, 7, 8] of Some n \<Rightarrow> n | None \<Rightarrow> 0)"

definition in_kernelspace :: "arm_env \<Rightarrow> arch_hw_breakpoint \<Rightarrow> bool" where
  "in_kernelspace V info =
     (let va = hi_address info; len = of_nat (get_hbp_len (ac_len (hi_ctrl info)))
      in va \<ge> TASK_SIZE V \<and> va + len - 1 \<ge> TASK_SIZE V)"

definition arch_check_bp_in_kernelspace :: "arm_env \<Rightarrow> arm_event \<Rightarrow> bool" where
  "arch_check_bp_in_kernelspace V bp = in_kernelspace V (pe_info bp)"

definition ffs8 :: "u8 \<Rightarrow> nat" where
  "ffs8 w = (case find (bit w) [0, 1, 2, 3, 4, 5, 6, 7] of Some i \<Rightarrow> i | None \<Rightarrow> 0)"

definition fls8 :: "u8 \<Rightarrow> nat" where
  "fls8 w = (case find (bit w) [7, 6, 5, 4, 3, 2, 1, 0] of Some i \<Rightarrow> i | None \<Rightarrow> 0)"

text \<open>The generic length, type and offset, or an error.\<close>

definition arch_bp_generic_fields :: "arch_ctrl \<Rightarrow> int + nat \<times> bp_flag set \<times> nat" where
  "arch_bp_generic_fields ctrl =
     (let gen_type = (case ac_type ctrl of ARM_BREAKPOINT_EXECUTE \<Rightarrow> {HW_BREAKPOINT_X} | ARM_BREAKPOINT_LOAD \<Rightarrow> {HW_BREAKPOINT_R}
            | ARM_BREAKPOINT_STORE \<Rightarrow> {HW_BREAKPOINT_W} | ARM_BREAKPOINT_LOAD_STORE \<Rightarrow> HW_BREAKPOINT_RW)
      in if ac_len ctrl = 0 then Inl (-EINVAL)
         else
           (let offset = ffs8 (ac_len ctrl); gen_len = get_hbp_len (drop_bit offset (ac_len ctrl))
            in if gen_len = 0 then Inl (-EINVAL) else Inr (gen_len, gen_type, offset)))"

definition arch_build_bp_info :: "arm_env \<Rightarrow> arm_event \<Rightarrow> int \<times> arch_hw_breakpoint" where
  "arch_build_bp_info V bp =
     (let info = pe_info bp; attr = pe_attr bp;
          type = (if bp_type attr = {HW_BREAKPOINT_X} then Some ARM_BREAKPOINT_EXECUTE
                  else if bp_type attr = {HW_BREAKPOINT_R} then Some ARM_BREAKPOINT_LOAD
                  else if bp_type attr = {HW_BREAKPOINT_W} then Some ARM_BREAKPOINT_STORE
                  else if bp_type attr = HW_BREAKPOINT_RW then Some ARM_BREAKPOINT_LOAD_STORE else None)
      in case type of
           None \<Rightarrow> (-EINVAL, info)
         | Some ty \<Rightarrow>
             (let info = info\<lparr>hi_ctrl := (hi_ctrl info)\<lparr>ac_type := ty\<rparr>\<rparr> in
              if bp_len attr < 1 \<or> 8 < bp_len attr then (-EINVAL, info)
              else
                (let len = ARM_BREAKPOINT_LEN (bp_len attr);
                     info = info\<lparr>hi_ctrl := (hi_ctrl info)\<lparr>ac_len := len\<rparr>\<rparr>
                 in if ty = ARM_BREAKPOINT_EXECUTE \<and> is_compat_bp V bp \<and>
                       len \<noteq> ARM_BREAKPOINT_LEN 2 \<and> len \<noteq> ARM_BREAKPOINT_LEN 4 then (-EINVAL, info)
                    else
                      (let len = (if ty = ARM_BREAKPOINT_EXECUTE \<and> \<not> is_compat_bp V bp then ARM_BREAKPOINT_LEN 4 else len);
                           info = info\<lparr>hi_ctrl := (hi_ctrl info)\<lparr>ac_len := len\<rparr>, hi_address := bp_addr attr\<rparr>;
                           priv = (if in_kernelspace V info then AARCH64_BREAKPOINT_EL1 else AARCH64_BREAKPOINT_EL0)
                       in (0, info\<lparr>hi_ctrl := (hi_ctrl info)\<lparr>ac_privilege := priv, ac_enabled := \<not> at_disabled attr\<rparr>\<rparr>)))))"

definition arch_validate_hwbkpt_settings :: "arm_env \<Rightarrow> arm_event \<Rightarrow> int \<times> arch_hw_breakpoint" where
  "arch_validate_hwbkpt_settings V bp =
     (case arch_build_bp_info V bp of (ret, info) \<Rightarrow>
        if ret \<noteq> 0 then (ret, info)
        else
          (let ctrl = hi_ctrl info;
               alignment_mask = (if is_compat_bp V bp then (if ac_len ctrl = ARM_BREAKPOINT_LEN 8 then 7 else 3)
                                 else (if ac_type ctrl = ARM_BREAKPOINT_EXECUTE then 3 else 7));
               offset = hi_address info AND alignment_mask
           in if is_compat_bp V bp \<and>
                 \<not> (offset = 0 \<or> offset = 1 \<and> ac_len ctrl = ARM_BREAKPOINT_LEN 1 \<or>
                    (offset = 1 \<or> offset = 2) \<and> ac_len ctrl = ARM_BREAKPOINT_LEN 2)
              then (-EINVAL, info)
              else
                (let info = info\<lparr>hi_address := hi_address info AND NOT alignment_mask,
                                  hi_ctrl := ctrl\<lparr>ac_len := push_bit (unat offset) (ac_len ctrl)\<rparr>\<rparr>
                 in if ac_privilege ctrl = AARCH64_BREAKPOINT_EL1 \<and> pe_target bp \<noteq> None then (-EINVAL, info)
                    else (0, info))))"

section \<open>Toggling all registers of a level\<close>

fun toggle_regs :: "dbg_reg \<Rightarrow> dbg_active_el \<Rightarrow> bool \<Rightarrow> nat option list \<Rightarrow> nat list \<Rightarrow> arm_cpu \<Rightarrow> arm_cpu" where
  "toggle_regs reg el enable slots [] S = S"
| "toggle_regs reg el enable slots (i # is) S =
     toggle_regs reg el enable slots is
       (case slots ! i of
          None \<Rightarrow> S
        | Some bp \<Rightarrow>
            if debug_exception_level (ac_privilege (hi_ctrl (arm_info S bp))) \<noteq> el then S
            else
              (let ctrl = (ucast (read_wb_reg reg i S) :: u32)
               in write_wb_reg reg i (ucast (if enable then ctrl OR 1 else ctrl AND NOT 1)) S))"

definition toggle_bp_registers :: "dbg_reg \<Rightarrow> dbg_active_el \<Rightarrow> bool \<Rightarrow> arm_cpu \<Rightarrow> arm_cpu" where
  "toggle_bp_registers reg el enable S =
     (case reg of
        AARCH64_DBG_REG_BCR \<Rightarrow> toggle_regs reg el enable (bp_on_reg S) [0..<core_num_brps S] S
      | AARCH64_DBG_REG_WCR \<Rightarrow> toggle_regs reg el enable (wp_on_reg S) [0..<core_num_wrps S] S
      | _ \<Rightarrow> S)"

section \<open>Exceptions\<close>

text \<open>The event on a register is hit: its trigger is set and \<open>perf_bp_event\<close> is called.\<close>

definition bp_hit :: "nat \<Rightarrow> u64 \<Rightarrow> arm_cpu \<Rightarrow> arm_cpu" where
  "bp_hit bp addr S =
     S\<lparr>arm_events := (arm_events S)(bp := (arm_events S bp)\<lparr>pe_info := (pe_info (arm_events S bp))\<lparr>hi_trigger := addr\<rparr>\<rparr>),
       hits := hits S @ [(bp, addr)]\<rparr>"

fun bp_scan :: "arm_env \<Rightarrow> u64 \<Rightarrow> nat list \<Rightarrow> bool \<Rightarrow> arm_cpu \<Rightarrow> bool \<times> arm_cpu" where
  "bp_scan V addr [] step S = (step, S)"
| "bp_scan V addr (i # is) step S =
     (case bp_on_reg S ! i of
        None \<Rightarrow> bp_scan V addr is step S
      | Some bp \<Rightarrow>
          if read_wb_reg AARCH64_DBG_REG_BVR i S \<noteq> addr AND NOT 3 then bp_scan V addr is step S
          else if \<not> bit (ac_len (decode_ctrl_reg V (ucast (read_wb_reg AARCH64_DBG_REG_BCR i S)))) (unat (addr AND 3))
          then bp_scan V addr is step S
          else bp_scan V addr is (step \<or> default_handler V bp) (bp_hit bp addr S))"

text \<open>Stepping over the instruction of the kernel that was hit.\<close>

definition step_kernel :: "arm_cpu \<Rightarrow> arm_cpu" where
  "step_kernel S =
     (if stepping_kernel_bp S \<noteq> ARM_KERNEL_STEP_NONE then S
      else if kernel_ss S then S\<lparr>stepping_kernel_bp := ARM_KERNEL_STEP_SUSPEND\<rparr>
      else S\<lparr>stepping_kernel_bp := ARM_KERNEL_STEP_ACTIVE, kernel_ss := True\<rparr>)"

text \<open>The same for the thread.\<close>

definition step_user :: "arm_cpu \<Rightarrow> arm_cpu" where
  "step_user S =
     (if tif_singlestep (cur S) then S\<lparr>cur := (cur S)\<lparr>suspended_step := True\<rparr>\<rparr>
      else S\<lparr>cur := (cur S)\<lparr>tif_singlestep := True\<rparr>\<rparr>)"

definition breakpoint_handler :: "arm_env \<Rightarrow> bool \<Rightarrow> u64 \<Rightarrow> arm_cpu \<Rightarrow> int \<times> arm_cpu" where
  "breakpoint_handler V user_mode pc S =
     (case bp_scan V pc [0..<core_num_brps S] False S of (step, S) \<Rightarrow>
        if \<not> step then (0, S)
        else if user_mode then
          (let S = S\<lparr>cur := (cur S)\<lparr>bps_disabled := True\<rparr>\<rparr>;
               S = toggle_bp_registers AARCH64_DBG_REG_BCR DBG_ACTIVE_EL0 False S
           in if wps_disabled (cur S) then (0, S) else (0, step_user S))
        else (0, step_kernel (toggle_bp_registers AARCH64_DBG_REG_BCR DBG_ACTIVE_EL1 False S)))"

definition get_distance_from_watchpoint :: "arm_env \<Rightarrow> u64 \<Rightarrow> u64 \<Rightarrow> arch_ctrl \<Rightarrow> u64" where
  "get_distance_from_watchpoint V addr val ctrl =
     (let addr = untagged_addr V addr;
          wp_low = val + of_nat (ffs8 (ac_len ctrl));
          wp_high = val + of_nat (fls8 (ac_len ctrl))
      in if addr < wp_low then wp_low - addr else if addr > wp_high then addr - wp_high else 0)"

text \<open>\<open>write\<close>: whether the access was a store. The state of the scan is \<open>(min_dist, closest_match, step)\<close>.\<close>

fun wp_scan ::
    "arm_env \<Rightarrow> bool \<Rightarrow> u64 \<Rightarrow> nat list \<Rightarrow> u64 \<times> nat \<times> bool \<Rightarrow> arm_cpu \<Rightarrow> (u64 \<times> nat \<times> bool) \<times> arm_cpu" where
  "wp_scan V write addr [] acc S = (acc, S)"
| "wp_scan V write addr (i # is) (min_dist, closest, step) S =
     (case wp_on_reg S ! i of
        None \<Rightarrow> wp_scan V write addr is (min_dist, closest, step) S
      | Some wp \<Rightarrow>
          if (if write then HW_BREAKPOINT_W else HW_BREAKPOINT_R) \<notin> bp_type (pe_attr (arm_events S wp))
          then wp_scan V write addr is (min_dist, closest, step) S
          else
            (let dist = get_distance_from_watchpoint V addr (read_wb_reg AARCH64_DBG_REG_WVR i S)
                   (decode_ctrl_reg V (ucast (read_wb_reg AARCH64_DBG_REG_WCR i S)));
                 closest = (if dist < min_dist then i else closest);
                 min_dist = (if dist < min_dist then dist else min_dist)
             in if dist \<noteq> 0 then wp_scan V write addr is (min_dist, closest, step) S
                else wp_scan V write addr is (min_dist, closest, step \<or> default_handler V wp) (bp_hit wp addr S)))"

text \<open>
  After the scan and, without an exact match, the report to the closest watchpoint, the handler goes
  on whether or not stepping is needed: the \<open>return\<close> of \<open>if (!step)\<close> is commented out.
\<close>

definition watchpoint_handler :: "arm_env \<Rightarrow> bool \<Rightarrow> bool \<Rightarrow> u64 \<Rightarrow> arm_cpu \<Rightarrow> int \<times> arm_cpu" where
  "watchpoint_handler V user_mode write addr S =
     (case wp_scan V write addr [0..<core_num_wrps S] (-1, 0, False) S of ((min_dist, closest, step), S) \<Rightarrow>
        (let S = (if min_dist > 0 \<and> min_dist \<noteq> -1 then
                    (case wp_on_reg S ! closest of None \<Rightarrow> S | Some wp \<Rightarrow> bp_hit wp addr S)
                  else S);
             S = toggle_bp_registers AARCH64_DBG_REG_WCR DBG_ACTIVE_EL0 False S
         in if user_mode then
              (let S = S\<lparr>cur := (cur S)\<lparr>wps_disabled := True\<rparr>\<rparr>
               in if bps_disabled (cur S) then (0, S) else (0, step_user S))
            else (0, step_kernel (toggle_bp_registers AARCH64_DBG_REG_WCR DBG_ACTIVE_EL1 False S))))"

text \<open>\<open>SIGUSR1\<close> with the address of the instruction before \<open>pc\<close>.\<close>

definition send_userdefine_signal :: "u64 \<Rightarrow> arm_cpu \<Rightarrow> arm_cpu" where
  "send_userdefine_signal pc S = S\<lparr>signals := signals S @ [pc - 4]\<rparr>"

definition reinstall_suspended_bps :: "bool \<Rightarrow> u64 \<Rightarrow> arm_cpu \<Rightarrow> bool \<times> arm_cpu" where
  "reinstall_suspended_bps user_mode pc S =
     (if user_mode then
        (let h1 = bps_disabled (cur S);
             S = (if h1 then toggle_bp_registers AARCH64_DBG_REG_BCR DBG_ACTIVE_EL0 True
                    (S\<lparr>cur := (cur S)\<lparr>bps_disabled := False\<rparr>\<rparr>) else S);
             h2 = wps_disabled (cur S);
             S = (if h2 then toggle_bp_registers AARCH64_DBG_REG_WCR DBG_ACTIVE_EL0 True
                    ((send_userdefine_signal pc S)\<lparr>cur := (cur S)\<lparr>wps_disabled := False\<rparr>\<rparr>) else S)
         in if h1 \<or> h2 then
              if suspended_step (cur S) then (True, S\<lparr>cur := (cur S)\<lparr>suspended_step := False\<rparr>\<rparr>)
              else (False, S\<lparr>cur := (cur S)\<lparr>tif_singlestep := False\<rparr>\<rparr>)
            else (True, S))
      else if stepping_kernel_bp S \<noteq> ARM_KERNEL_STEP_NONE then
        (let S = toggle_bp_registers AARCH64_DBG_REG_WCR DBG_ACTIVE_EL1 True
               (toggle_bp_registers AARCH64_DBG_REG_BCR DBG_ACTIVE_EL1 True S);
             S = (if \<not> wps_disabled (cur S) then toggle_bp_registers AARCH64_DBG_REG_WCR DBG_ACTIVE_EL0 True S else S)
         in if stepping_kernel_bp S \<noteq> ARM_KERNEL_STEP_SUSPEND
            then (False, S\<lparr>kernel_ss := False, stepping_kernel_bp := ARM_KERNEL_STEP_NONE\<rparr>)
            else (True, S\<lparr>stepping_kernel_bp := ARM_KERNEL_STEP_NONE\<rparr>))
      else (True, S))"

section \<open>Switching threads and resetting\<close>

definition hw_breakpoint_thread_switch :: "debug_info \<Rightarrow> arm_cpu \<Rightarrow> arm_cpu" where
  "hw_breakpoint_thread_switch nxt S =
     (let S = (if bps_disabled (cur S) \<noteq> bps_disabled nxt
               then toggle_bp_registers AARCH64_DBG_REG_BCR DBG_ACTIVE_EL0 (\<not> bps_disabled nxt) S else S)
      in if wps_disabled (cur S) \<noteq> wps_disabled nxt
         then toggle_bp_registers AARCH64_DBG_REG_WCR DBG_ACTIVE_EL0 (\<not> wps_disabled nxt) S else S)"

fun reset_slots :: "arm_env \<Rightarrow> bool \<Rightarrow> nat list \<Rightarrow> arm_cpu \<Rightarrow> arm_cpu" where
  "reset_slots V exec [] S = S"
| "reset_slots V exec (i # is) S =
     reset_slots V exec is
       (case (if exec then bp_on_reg S else wp_on_reg S) ! i of
          Some bp \<Rightarrow> snd (hw_breakpoint_control V bp HW_BREAKPOINT_RESTORE S)
        | None \<Rightarrow>
            write_wb_reg (if exec then AARCH64_DBG_REG_BVR else AARCH64_DBG_REG_WVR) i 0
              (write_wb_reg (if exec then AARCH64_DBG_REG_BCR else AARCH64_DBG_REG_WCR) i 0 S))"

definition hw_breakpoint_reset :: "arm_env \<Rightarrow> arm_cpu \<Rightarrow> int \<times> arm_cpu" where
  "hw_breakpoint_reset V S =
     (let S = reset_slots V True [0..<core_num_brps S] S in (0, reset_slots V False [0..<core_num_wrps S] S))"

text \<open>
  \<open>cpuhp\<close> is the answer of \<open>cpuhp_setup_state\<close>, which runs \<open>hw_breakpoint_reset\<close> on the cpu. Registering the
  handlers with the fault code and the suspend code has no other effect on the state.
\<close>

definition arch_hw_breakpoint_init :: "arm_env \<Rightarrow> nat \<Rightarrow> nat \<Rightarrow> int \<Rightarrow> arm_cpu \<Rightarrow> int \<times> arm_cpu" where
  "arch_hw_breakpoint_init V num_brps num_wrps cpuhp S =
     (let S = S\<lparr>core_num_brps := num_brps, core_num_wrps := num_wrps\<rparr>
      in (cpuhp, if cpuhp = 0 then snd (hw_breakpoint_reset V S) else S))"

end
