(* ===== verification/Arm64DebugProof.thy ===== *)
theory Arm64DebugProof
  imports Arm64Debug
begin

text \<open>
  The debug registers of arm64: slots are found and given back, an event watches the bytes it asks
  for within one aligned word, a watchpoint exception is reported to the events it belongs to, and
  stepping over it leaves the registers as they were.
\<close>

unbundle bit_operations_syntax

section \<open>Slots\<close>

lemma slot_setup_install:
  "i + n \<le> length slots \<Longrightarrow>
     (case slot_setup bp HW_BREAKPOINT_INSTALL i n slots of
        (None, slots') \<Rightarrow> slots' = slots \<and> (\<forall>j. i \<le> j \<and> j < i + n \<longrightarrow> slots ! j \<noteq> None)
      | (Some k, slots') \<Rightarrow> i \<le> k \<and> k < i + n \<and> slots ! k = None \<and> (\<forall>j. i \<le> j \<and> j < k \<longrightarrow> slots ! j \<noteq> None) \<and>
          slots' = slots[k := Some bp])"
proof (induction n arbitrary: i)
  case (Suc n)
  show ?case
  proof (cases "slots ! i = None")
    case False
    have len: "i + 1 + n \<le> length slots" using Suc.prems by simp
    obtain r s where r: "slot_setup bp HW_BREAKPOINT_INSTALL (i + 1) n slots = (r, s)" by fastforce
    have split: "i \<le> j \<longleftrightarrow> j = i \<or> i + 1 \<le> j" for j by auto
    from Suc.IH [OF len] r False show ?thesis by (cases r) (auto simp: split)
  qed auto
qed auto

lemma slot_setup_uninstall:
  "k < i + n \<Longrightarrow> i \<le> k \<Longrightarrow> slots ! k = Some bp \<Longrightarrow> (\<And>j. i \<le> j \<Longrightarrow> j < k \<Longrightarrow> slots ! j \<noteq> Some bp) \<Longrightarrow>
    slot_setup bp HW_BREAKPOINT_UNINSTALL i n slots = (Some k, slots[k := None])"
proof (induction n arbitrary: i)
  case (Suc n)
  show ?case
  proof (cases "i = k")
    case False
    then have "slots ! i \<noteq> Some bp" using Suc.prems by simp
    moreover have "slot_setup bp HW_BREAKPOINT_UNINSTALL (i + 1) n slots = (Some k, slots[k := None])"
      using Suc.prems False by (intro Suc.IH) auto
    ultimately show ?thesis by simp
  qed (use Suc.prems in simp)
qed simp

definition slots_of :: "arm_event \<Rightarrow> arm_cpu \<Rightarrow> nat option list" where
  "slots_of bp S = (if ac_type (hi_ctrl (pe_info bp)) = ARM_BREAKPOINT_EXECUTE then bp_on_reg S else wp_on_reg S)"

definition max_slots_of :: "arm_event \<Rightarrow> arm_cpu \<Rightarrow> nat" where
  "max_slots_of bp S = (if ac_type (hi_ctrl (pe_info bp)) = ARM_BREAKPOINT_EXECUTE then core_num_brps S else core_num_wrps S)"

definition val_reg :: "arm_event \<Rightarrow> dbg_reg" where
  "val_reg bp = (if ac_type (hi_ctrl (pe_info bp)) = ARM_BREAKPOINT_EXECUTE then AARCH64_DBG_REG_BVR else AARCH64_DBG_REG_WVR)"

definition ctrl_reg :: "arm_event \<Rightarrow> dbg_reg" where
  "ctrl_reg bp = (if ac_type (hi_ctrl (pe_info bp)) = ARM_BREAKPOINT_EXECUTE then AARCH64_DBG_REG_BCR else AARCH64_DBG_REG_WCR)"

text \<open>The arrays have 16 elements, of which the cpu uses some.\<close>

definition cpu_ok :: "arm_cpu \<Rightarrow> bool" where
  "cpu_ok S \<longleftrightarrow> length (bp_on_reg S) = 16 \<and> length (wp_on_reg S) = 16 \<and> core_num_brps S \<le> 16 \<and> core_num_wrps S \<le> 16"

text \<open>
  Installing takes the first free register of the kind and writes the address and the control
  value, enabled unless the thread has its breakpoints suspended; with no free register it answers
  \<open>-ENOSPC\<close> and changes nothing. Uninstalling undoes it, up to the address register, and clears the
  control register.
\<close>

theorem arm_install_uninstall:
  assumes ok: "cpu_ok S" and new: "Some i \<notin> set (slots_of (arm_events S i) S)"
    and off: "off = (if ac_type (hi_ctrl (arm_info S i)) = ARM_BREAKPOINT_EXECUTE then bps_disabled (cur S) else wps_disabled (cur S))"
    and ctrl: "ctrl = encode_ctrl_reg V (hi_ctrl (arm_info S i))"
  shows "if \<forall>k<max_slots_of (arm_events S i) S. slots_of (arm_events S i) S ! k \<noteq> None
    then arch_install_hw_breakpoint V i S = (-ENOSPC, S)
    else \<exists>k S1. k < max_slots_of (arm_events S i) S \<and> slots_of (arm_events S i) S ! k = None \<and>
      (\<forall>j<k. slots_of (arm_events S i) S ! j \<noteq> None) \<and> arch_install_hw_breakpoint V i S = (0, S1) \<and>
      slots_of (arm_events S i) S1 = (slots_of (arm_events S i) S)[k := Some i] \<and>
      wb_regs S1 (val_reg (arm_events S i)) k = hi_address (arm_info S i) \<and>
      wb_regs S1 (ctrl_reg (arm_events S i)) k = ucast (if off then ctrl AND NOT 1 else ctrl OR 1) \<and>
      arch_uninstall_hw_breakpoint V i S1 = S\<lparr>wb_regs := (wb_regs S)
        (val_reg (arm_events S i) := (wb_regs S (val_reg (arm_events S i)))(k := hi_address (arm_info S i)),
         ctrl_reg (arm_events S i) := (wb_regs S (ctrl_reg (arm_events S i)))(k := 0))\<rparr>"
proof -
  let ?bp = "arm_events S i"
  let ?exec = "ac_type (hi_ctrl (arm_info S i)) = ARM_BREAKPOINT_EXECUTE"
  have len: "0 + max_slots_of ?bp S \<le> length (slots_of ?bp S)" using ok by (simp add: cpu_ok_def max_slots_of_def slots_of_def)
  have ex: "slots_of ?bp S = (if ?exec then bp_on_reg S else wp_on_reg S)"
    "max_slots_of ?bp S = (if ?exec then core_num_brps S else core_num_wrps S)" by (simp_all add: slots_of_def max_slots_of_def arm_info_def)
  note found = slot_setup_install [OF len, where bp = i]
  show ?thesis
  proof (cases "hw_breakpoint_slot_setup (slots_of ?bp S) (max_slots_of ?bp S) i HW_BREAKPOINT_INSTALL")
    case (Pair r s)
    show ?thesis
    proof (cases r)
      case None
      then have "\<forall>k<max_slots_of ?bp S. slots_of ?bp S ! k \<noteq> None" using found Pair by (simp add: hw_breakpoint_slot_setup_def)
      moreover have "arch_install_hw_breakpoint V i S = (-ENOSPC, S)"
        using Pair None by (simp add: arch_install_hw_breakpoint_def hw_breakpoint_control_def Let_def ex)
      ultimately show ?thesis by simp
    next
      case (Some k)
      then have k: "k < max_slots_of ?bp S" "slots_of ?bp S ! k = None" "\<forall>j<k. slots_of ?bp S ! j \<noteq> None"
        "s = (slots_of ?bp S)[k := Some i]" using found Pair by (simp_all add: hw_breakpoint_slot_setup_def)
      have k16: "k < 16" using k(1) ok by (auto simp: cpu_ok_def max_slots_of_def split: if_splits)
      let ?c = "ucast (if off then ctrl AND NOT 1 else ctrl OR 1) :: u64"
      let ?w = "(wb_regs S)(val_reg ?bp := (wb_regs S (val_reg ?bp))(k := hi_address (arm_info S i)),
        ctrl_reg ?bp := (wb_regs S (ctrl_reg ?bp))(k := ?c))"
      let ?el = "debug_exception_level (ac_privilege (hi_ctrl (arm_info S i)))"
      let ?m = "(monitors S)(?el := monitors S ?el + 1)"
      have inst: "arch_install_hw_breakpoint V i S = (0, if ?exec then S\<lparr>bp_on_reg := s, monitors := ?m, wb_regs := ?w\<rparr>
          else S\<lparr>wp_on_reg := s, monitors := ?m, wb_regs := ?w\<rparr>)"
        using Pair Some k16 unfolding ex
        by (simp add: arch_install_hw_breakpoint_def hw_breakpoint_control_def Let_def write_wb_reg_def val_reg_def ctrl_reg_def
            ctrl off arm_info_def fun_upd_twist)
      have k': "\<not> (\<forall>k<max_slots_of ?bp S. slots_of ?bp S ! k \<noteq> None)" using k(1,2) by blast
      have undo: "(slots_of ?bp S)[k := Some i, k := None] = slots_of ?bp S" by (metis k(2) list_update_id list_update_overwrite)
      have un: "slot_setup i HW_BREAKPOINT_UNINSTALL 0 (max_slots_of ?bp S) s = (Some k, slots_of ?bp S)"
      proof -
        have "slot_setup i HW_BREAKPOINT_UNINSTALL 0 (max_slots_of ?bp S) s = (Some k, s[k := None])"
        proof (rule slot_setup_uninstall)
          have "k < length (slots_of ?bp S)" using len k(1) by simp
          then show "s ! k = Some i" using k(4) by simp
          show "s ! j \<noteq> Some i" if "j < k" for j
          proof -
            have "j < length (slots_of ?bp S)" using that len k(1) by simp
            then have "slots_of ?bp S ! j \<noteq> Some i" using new nth_mem by metis
            then show ?thesis using that k(4) by simp
          qed
        qed (use k(1) in simp_all)
        then show ?thesis using undo k(4) by simp
      qed
      let ?S1 = "if ?exec then S\<lparr>bp_on_reg := s, monitors := ?m, wb_regs := ?w\<rparr> else S\<lparr>wp_on_reg := s, monitors := ?m, wb_regs := ?w\<rparr>"
      have m: "?m(?el := ?m ?el - 1) = monitors S" by auto
      have uninst: "arch_uninstall_hw_breakpoint V i ?S1 = S\<lparr>wb_regs := (wb_regs S)
          (val_reg ?bp := (wb_regs S (val_reg ?bp))(k := hi_address (arm_info S i)), ctrl_reg ?bp := (wb_regs S (ctrl_reg ?bp))(k := 0))\<rparr>"
      proof (cases ?exec)
        case True
        then show ?thesis using un k16 m unfolding ex
          by (simp add: arch_uninstall_hw_breakpoint_def hw_breakpoint_control_def hw_breakpoint_slot_setup_def Let_def
              write_wb_reg_def val_reg_def ctrl_reg_def arm_info_def)
      next
        case False
        then show ?thesis using un k16 m unfolding ex
          by (simp add: arch_uninstall_hw_breakpoint_def hw_breakpoint_control_def hw_breakpoint_slot_setup_def Let_def
              write_wb_reg_def val_reg_def ctrl_reg_def arm_info_def)
      qed
      have regs: "wb_regs ?S1 (val_reg ?bp) k = hi_address (arm_info S i)" "wb_regs ?S1 (ctrl_reg ?bp) k = ?c"
        "slots_of ?bp ?S1 = s" by (auto simp: val_reg_def ctrl_reg_def slots_of_def arm_info_def)
      show ?thesis unfolding if_not_P [OF k']
        by (intro exI [of _ k] exI [of _ ?S1] conjI) (use k inst uninst regs in simp_all)
    qed
  qed
qed

section \<open>Toggling registers\<close>

definition set_enable :: "bool \<Rightarrow> u64 \<Rightarrow> u64" where
  "set_enable en v = ucast (if en then (ucast v :: u32) OR 1 else ucast v AND NOT 1)"

definition at_level :: "dbg_active_el \<Rightarrow> nat option list \<Rightarrow> arm_cpu \<Rightarrow> nat \<Rightarrow> bool" where
  "at_level el slots S i \<longleftrightarrow> (\<exists>bp. slots ! i = Some bp \<and> debug_exception_level (ac_privilege (hi_ctrl (arm_info S bp))) = el)"

lemma at_level_regs [simp]: "at_level el slots (S\<lparr>wb_regs := w\<rparr>) = at_level el slots S"
  by (simp add: fun_eq_iff at_level_def arm_info_def)

lemma toggle_regs_value:
  "\<forall>i\<in>set is. i < 16 \<Longrightarrow> distinct is \<Longrightarrow>
     toggle_regs reg el en slots is S = S\<lparr>wb_regs := (wb_regs S)(reg := (\<lambda>i. if i \<in> set is \<and> at_level el slots S i
       then set_enable en (wb_regs S reg i) else wb_regs S reg i))\<rparr>"
proof (induction "is" arbitrary: S)
  case (Cons i "is")
  let ?S = "if at_level el slots S i then S\<lparr>wb_regs := (wb_regs S)(reg := (wb_regs S reg)(i := set_enable en (wb_regs S reg i)))\<rparr> else S"
  have step: "toggle_regs reg el en slots (i # is) S = toggle_regs reg el en slots is ?S"
    using Cons.prems(1) by (auto simp: at_level_def set_enable_def read_wb_reg_def write_wb_reg_def Let_def split: option.split)
  have al: "at_level el slots ?S = at_level el slots S" by simp
  have ih: "toggle_regs reg el en slots is ?S = ?S\<lparr>wb_regs := (wb_regs ?S)(reg := (\<lambda>j. if j \<in> set is \<and> at_level el slots S j
       then set_enable en (wb_regs ?S reg j) else wb_regs ?S reg j))\<rparr>"
    by (rule Cons.IH [of ?S, unfolded al]) (use Cons.prems in auto)
  have w: "(wb_regs ?S)(reg := (\<lambda>j. if j \<in> set is \<and> at_level el slots S j then set_enable en (wb_regs ?S reg j) else wb_regs ?S reg j)) =
      (wb_regs S)(reg := (\<lambda>j. if j \<in> set (i # is) \<and> at_level el slots S j then set_enable en (wb_regs S reg j) else wb_regs S reg j))"
    using Cons.prems(2) by (auto simp: fun_eq_iff)
  have "?S\<lparr>wb_regs := x\<rparr> = S\<lparr>wb_regs := x\<rparr>" for x by simp
  then show ?case unfolding step ih w by (simp add: fun_upd_def)
qed simp

text \<open>The effect of \<open>toggle_bp_registers\<close> on a register.\<close>

definition toggled :: "dbg_reg \<Rightarrow> dbg_active_el \<Rightarrow> bool \<Rightarrow> arm_cpu \<Rightarrow> dbg_reg \<Rightarrow> nat \<Rightarrow> u64" where
  "toggled reg el en S = (wb_regs S)(reg := (\<lambda>i. if i < (if reg = AARCH64_DBG_REG_BCR then core_num_brps S else core_num_wrps S) \<and>
     at_level el (if reg = AARCH64_DBG_REG_BCR then bp_on_reg S else wp_on_reg S) S i
     then set_enable en (wb_regs S reg i) else wb_regs S reg i))"

lemma toggle_bp_registers_value:
  assumes "cpu_ok S" and "reg = AARCH64_DBG_REG_BCR \<or> reg = AARCH64_DBG_REG_WCR"
  shows "toggle_bp_registers reg el en S = S\<lparr>wb_regs := toggled reg el en S\<rparr>"
  using assms
  by (elim disjE) (simp_all add: toggle_bp_registers_def toggle_regs_value cpu_ok_def toggled_def)

lemma cpu_ok_regs [simp]: "cpu_ok (S\<lparr>wb_regs := w\<rparr>) = cpu_ok S" "cpu_ok (S\<lparr>cur := d\<rparr>) = cpu_ok S"
  by (simp_all add: cpu_ok_def)

lemma set_enable_bit: "bit (set_enable en v) 0 \<longleftrightarrow> en"
  by (auto simp: set_enable_def bit_simps)

lemma set_enable_back:
  assumes "v < 2 ^ 32" and "bit v 0 = en"
  shows "set_enable en (set_enable en' v) = v"
proof (rule bit_word_eqI)
  fix n :: nat assume n: "n < LENGTH(64)"
  have "bit v n \<Longrightarrow> n < 32"
  proof -
    assume b: "bit v n"
    have "v AND mask 32 = v" using assms(1) by (rule less_mask_eq)
    with b have "bit (v AND mask 32) n" by simp
    then show "n < 32" by (simp add: bit_simps)
  qed
  then show "bit (set_enable en (set_enable en' v)) n = bit v n"
    using assms(2) n by (cases n) (auto simp: set_enable_def bit_simps)
qed

section \<open>What a hit changes\<close>

definition only_hits :: "arm_cpu \<Rightarrow> arm_cpu \<Rightarrow> bool" where
  "only_hits S S' \<longleftrightarrow> S' = S\<lparr>arm_events := arm_events S', hits := hits S'\<rparr> \<and>
     (\<forall>i. pe_attr (arm_events S' i) = pe_attr (arm_events S i) \<and> hi_ctrl (arm_info S' i) = hi_ctrl (arm_info S i))"

lemma only_hits_refl: "only_hits S S"
  by (simp add: only_hits_def)

lemma only_hits_step: "only_hits S S' \<Longrightarrow> only_hits S (bp_hit bp addr S')"
  unfolding only_hits_def bp_hit_def arm_info_def by (cases S') auto

lemma only_hits_fields:
  assumes "only_hits S S'"
  shows "wb_regs S' = wb_regs S" "bp_on_reg S' = bp_on_reg S" "wp_on_reg S' = wp_on_reg S" "cur S' = cur S"
    "core_num_brps S' = core_num_brps S" "core_num_wrps S' = core_num_wrps S" "signals S' = signals S"
    "at_level el slots S' = at_level el slots S" "cpu_ok S' = cpu_ok S"
proof -
  have e: "S' = S\<lparr>arm_events := arm_events S', hits := hits S'\<rparr>"
    "\<And>i. hi_ctrl (arm_info S' i) = hi_ctrl (arm_info S i)" using assms by (simp_all add: only_hits_def)
  show "at_level el slots S' = at_level el slots S" by (simp add: fun_eq_iff at_level_def e(2))
  show "wb_regs S' = wb_regs S" "bp_on_reg S' = bp_on_reg S" "wp_on_reg S' = wp_on_reg S" "cur S' = cur S"
    "core_num_brps S' = core_num_brps S" "core_num_wrps S' = core_num_wrps S" "signals S' = signals S"
    by (subst e(1), simp)+
  then show "cpu_ok S' = cpu_ok S" by (simp add: cpu_ok_def)
qed

text \<open>The watchpoints an access concerns, and how far it is from each.\<close>

definition wp_dist :: "arm_env \<Rightarrow> u64 \<Rightarrow> arm_cpu \<Rightarrow> nat \<Rightarrow> u64" where
  "wp_dist V addr S i = get_distance_from_watchpoint V addr (read_wb_reg AARCH64_DBG_REG_WVR i S)
     (decode_ctrl_reg V (ucast (read_wb_reg AARCH64_DBG_REG_WCR i S)))"

definition concerns :: "bool \<Rightarrow> arm_cpu \<Rightarrow> nat \<Rightarrow> bool" where
  "concerns write S i \<longleftrightarrow> (\<exists>wp. wp_on_reg S ! i = Some wp \<and>
     (if write then HW_BREAKPOINT_W else HW_BREAKPOINT_R) \<in> bp_type (pe_attr (arm_events S wp)))"

text \<open>The first watchpoint closer than \<open>m\<close> and closest of all, and its distance.\<close>

fun closest_of :: "(nat \<Rightarrow> u64) \<Rightarrow> nat list \<Rightarrow> u64 \<times> nat \<Rightarrow> u64 \<times> nat" where
  "closest_of d [] mc = mc"
| "closest_of d (i # is) mc = closest_of d is (if d i < fst mc then (d i, i) else mc)"

lemma wp_scan_value:
  "only_hits S0 S \<Longrightarrow> \<exists>step' S'. wp_scan V write addr is (m, c, step) S =
     ((fst (closest_of (wp_dist V addr S0) (filter (concerns write S0) is) (m, c)),
       snd (closest_of (wp_dist V addr S0) (filter (concerns write S0) is) (m, c)), step'), S') \<and>
     only_hits S0 S' \<and>
     hits S' = hits S @ map (\<lambda>i. (the (wp_on_reg S0 ! i), addr)) (filter (\<lambda>i. concerns write S0 i \<and> wp_dist V addr S0 i = 0) is)"
proof (induction "is" arbitrary: m c step S)
  case (Cons i "is")
  note f = only_hits_fields [OF Cons.prems]
  have attr: "pe_attr (arm_events S j) = pe_attr (arm_events S0 j)" for j using Cons.prems by (simp add: only_hits_def)
  have dist: "get_distance_from_watchpoint V addr (read_wb_reg AARCH64_DBG_REG_WVR i S)
     (decode_ctrl_reg V (ucast (read_wb_reg AARCH64_DBG_REG_WCR i S))) = wp_dist V addr S0 i"
    by (simp add: wp_dist_def read_wb_reg_def f)
  show ?case
  proof (cases "concerns write S0 i")
    case False
    have "wp_scan V write addr (i # is) (m, c, step) S = wp_scan V write addr is (m, c, step) S"
      using False by (auto simp: f(3) attr concerns_def split: option.split)
    then show ?thesis using Cons.IH [OF Cons.prems, of m c step] False by simp
  next
    case True
    then obtain wp where wp: "wp_on_reg S0 ! i = Some wp"
      "(if write then HW_BREAKPOINT_W else HW_BREAKPOINT_R) \<in> bp_type (pe_attr (arm_events S0 wp))" by (auto simp: concerns_def)
    let ?d = "wp_dist V addr S0 i"
    let ?m = "if ?d < m then ?d else m" and ?c = "if ?d < m then i else c"
    have run: "wp_scan V write addr (i # is) (m, c, step) S =
        (if ?d \<noteq> 0 then wp_scan V write addr is (?m, ?c, step) S
         else wp_scan V write addr is (?m, ?c, step \<or> default_handler V wp) (bp_hit wp addr S))"
      using wp by (simp add: f(3) attr dist Let_def)
    have mc: "(if ?d < m then (?d, i) else (m, c)) = (?m, ?c)" by simp
    show ?thesis
    proof (cases "?d = 0")
      case False
      then show ?thesis using Cons.IH [OF Cons.prems, of ?m ?c step] True unfolding run by (simp split: if_splits)
    next
      case hit: True
      have h: "hits (bp_hit wp addr S) = hits S @ [(wp, addr)]" by (simp add: bp_hit_def)
      show ?thesis using Cons.IH [OF only_hits_step [OF Cons.prems], of ?m ?c "step \<or> default_handler V wp" wp addr] True hit wp(1)
        unfolding run h by (simp split: if_splits)
    qed
  qed
qed simp

lemma closest_of_ok:
  "closest_of d is (m, c) = (m', c') \<Longrightarrow> distinct is \<Longrightarrow>
     (m' = m \<and> c' = c \<and> (\<forall>i\<in>set is. m \<le> d i)) \<or>
     (c' \<in> set is \<and> m' = d c' \<and> m' < m \<and> (\<forall>i\<in>set is. m' \<le> d i))"
proof (induction "is" arbitrary: m c)
  case (Cons i "is")
  show ?case
  proof (cases "d i < m")
    case True
    then have "closest_of d is (d i, i) = (m', c')" "distinct is" using Cons.prems by simp_all
    from Cons.IH [OF this] True show ?thesis by (auto dest: less_trans intro: less_imp_le)
  next
    case False
    then have "closest_of d is (m, c) = (m', c')" "distinct is" using Cons.prems by simp_all
    from Cons.IH [OF this] False show ?thesis by (auto dest: less_le_trans simp: not_less intro: order_trans less_imp_le)
  qed
qed simp

section \<open>Reports of watchpoints\<close>

lemma step_user_fields [simp]: "hits (step_user S) = hits S" "wb_regs (step_user S) = wb_regs S"
  by (simp_all add: step_user_def)

lemma step_kernel_hits [simp]: "hits (step_kernel S) = hits S"
  by (simp add: step_kernel_def)

lemma toggle_regs_hits [simp]: "hits (toggle_regs reg el en slots is S) = hits S"
  by (induction "is" arbitrary: S) (auto simp: write_wb_reg_def Let_def split: option.split)

lemma toggle_hits [simp]: "hits (toggle_bp_registers reg el en S) = hits S"
  by (simp add: toggle_bp_registers_def split: dbg_reg.split)

text \<open>The reports, in terms of the distances that the handler computes.\<close>

lemma watchpoint_reports_dist:
  shows "\<exists>S'. watchpoint_handler V user write addr S = (0, S') \<and>
    (let exact = filter (\<lambda>i. concerns write S i \<and> wp_dist V addr S i = 0) [0..<core_num_wrps S];
         near = filter (\<lambda>i. concerns write S i \<and> wp_dist V addr S i \<noteq> -1) [0..<core_num_wrps S]
     in if exact \<noteq> [] then hits S' = hits S @ map (\<lambda>i. (the (wp_on_reg S ! i), addr)) exact
        else if near = [] then hits S' = hits S
        else (\<exists>c\<in>set near. hits S' = hits S @ [(the (wp_on_reg S ! c), addr)] \<and>
          (\<forall>i\<in>set near. wp_dist V addr S c \<le> wp_dist V addr S i)))"
proof -
  let ?I = "[0..<core_num_wrps S]" and ?d = "wp_dist V addr S"
  let ?ex = "filter (\<lambda>i. concerns write S i \<and> ?d i = 0) ?I"
  let ?cs = "filter (concerns write S) ?I"
  obtain m c where mc: "closest_of ?d ?cs (-1, 0) = (m, c)" by fastforce
  obtain step S1 where scan: "wp_scan V write addr ?I (-1, 0, False) S = ((m, c, step), S1)" "only_hits S S1"
    "hits S1 = hits S @ map (\<lambda>i. (the (wp_on_reg S ! i), addr)) ?ex"
    using wp_scan_value [OF only_hits_refl, of V "write" addr ?I "-1" 0 False S] mc by auto
  define S2 where "S2 = (if m > 0 \<and> m \<noteq> -1 then (case wp_on_reg S1 ! c of None \<Rightarrow> S1 | Some wp \<Rightarrow> bp_hit wp addr S1) else S1)"
  have "fst (watchpoint_handler V user write addr S) = 0 \<and> hits (snd (watchpoint_handler V user write addr S)) = hits S2"
    unfolding watchpoint_handler_def scan(1) prod.case S2_def [symmetric] Let_def by simp
  then obtain S' where run: "watchpoint_handler V user write addr S = (0, S')" "hits S' = hits S2" by (metis prod.collapse)
  have cl: "(m = -1 \<and> (\<forall>i\<in>set ?cs. -1 \<le> ?d i)) \<or> (c \<in> set ?cs \<and> m = ?d c \<and> m < -1 \<and> (\<forall>i\<in>set ?cs. m \<le> ?d i))"
    using closest_of_ok [OF mc] by auto
  have top: "x = -1" if "-1 \<le> x" for x :: u64 using that by (metis word_order.extremum_uniqueI)
  have S1: "wp_on_reg S1 = wp_on_reg S" using only_hits_fields [OF scan(2)] by simp
  show ?thesis
  proof (cases "?ex = []")
    case False
    then obtain i where "i \<in> set ?ex" by (meson list.set_sel(1))
    then have "i \<in> set ?cs" "?d i = 0" by auto
    then have "m = 0" using cl top [of 0] by auto
    then have "hits S' = hits S @ map (\<lambda>i. (the (wp_on_reg S ! i), addr)) ?ex" using run(2) scan(3) by (simp add: S2_def)
    then show ?thesis using run(1) False by (simp add: Let_def)
  next
    case none: True
    let ?near = "filter (\<lambda>i. concerns write S i \<and> ?d i \<noteq> -1) ?I"
    show ?thesis
    proof (cases "?near = []")
      case True
      then have "?d i = -1" if "i \<in> set ?cs" for i using that by (auto simp: filter_empty_conv)
      then have "m = -1" using cl by auto
      then have "hits S' = hits S" using run(2) scan(3) none by (simp add: S2_def)
      then show ?thesis using run(1) none True by (simp add: Let_def)
    next
      case False
      then obtain i where i: "i \<in> set ?cs" "?d i \<noteq> -1" by (auto simp: filter_empty_conv)
      have c: "c \<in> set ?cs" "m = ?d c" "m < -1" "\<forall>i\<in>set ?cs. m \<le> ?d i" using cl top [of "?d i"] i by auto
      then have "?d c \<noteq> 0" using none by (auto simp: filter_empty_conv)
      moreover obtain wp where wp: "wp_on_reg S ! c = Some wp" using c(1) by (auto simp: concerns_def)
      ultimately have "S2 = bp_hit wp addr S1" using c(2,3) by (simp add: S2_def S1 word_gt_0)
      then have "hits S' = hits S @ [(the (wp_on_reg S ! c), addr)]" using run(2) scan(3) none wp by (simp add: bp_hit_def)
      moreover have "c \<in> set ?near" using c by auto
      moreover have "\<forall>i\<in>set ?near. ?d c \<le> ?d i" using c by auto
      ultimately show ?thesis using run(1) none False by (auto simp: Let_def)
    qed
  qed
qed

text \<open>The bytes that a watchpoint watches: those of its byte-select field, from its address on.\<close>

definition wp_val :: "arm_cpu \<Rightarrow> nat \<Rightarrow> nat" where
  "wp_val S i = unat (read_wb_reg AARCH64_DBG_REG_WVR i S)"

definition wp_mask :: "arm_env \<Rightarrow> arm_cpu \<Rightarrow> nat \<Rightarrow> u8" where
  "wp_mask V S i = ac_len (decode_ctrl_reg V (ucast (read_wb_reg AARCH64_DBG_REG_WCR i S)))"

definition watched :: "arm_env \<Rightarrow> arm_cpu \<Rightarrow> nat \<Rightarrow> nat set" where
  "watched V S i = {wp_val S i + k | k. bit (wp_mask V S i) k}"

text \<open>A byte-select field is one block of bits, as \<open>arch_validate_hwbkpt_settings\<close> makes it.\<close>

definition one_block :: "u8 \<Rightarrow> bool" where
  "one_block m \<longleftrightarrow> (\<exists>lo hi. lo \<le> hi \<and> hi < 8 \<and> (\<forall>k. bit m k \<longleftrightarrow> lo \<le> k \<and> k \<le> hi))"

text \<open>How far an address is from the nearest watched byte.\<close>

definition gap :: "nat \<Rightarrow> nat \<Rightarrow> nat" where
  "gap a b = (if b \<le> a then a - b else b - a)"

definition wp_gap :: "arm_env \<Rightarrow> u64 \<Rightarrow> arm_cpu \<Rightarrow> nat \<Rightarrow> nat" where
  "wp_gap V addr S i = Min (gap (unat (untagged_addr V addr)) ` watched V S i)"

lemma ffs_fls_block:
  assumes "lo \<le> hi" and "hi < 8" and "\<forall>k. bit (m :: u8) k \<longleftrightarrow> lo \<le> k \<and> k \<le> hi"
  shows "ffs8 m = lo" and "fls8 m = hi"
proof -
  have "lo \<in> {0, 1, 2, 3, 4, 5, 6, 7}" "hi \<in> {0, 1, 2, 3, 4, 5, 6, 7}" using assms(1,2) by auto
  then show "ffs8 m = lo" "fls8 m = hi" using assms unfolding ffs8_def fls8_def by auto
qed

lemma Min_gap: "lo \<le> hi \<Longrightarrow> Min (gap a ` {lo..hi}) = (if a < lo then lo - a else if hi < a then a - hi else 0)"
proof (rule Min_eqI)
  assume le: "lo \<le> hi"
  show "finite (gap a ` {lo..hi})" by simp
  show "(if a < lo then lo - a else if hi < a then a - hi else 0) \<in> gap a ` {lo..hi}"
    using le by (intro image_eqI [of _ _ "if a < lo then lo else if hi < a then hi else a"]) (auto simp: gap_def)
qed (auto simp: gap_def)

lemma wp_dist_gap:
  assumes "one_block (wp_mask V S i)" and "wp_val S i + 8 \<le> 2 ^ 64"
  shows "unat (wp_dist V addr S i) = wp_gap V addr S i"
    and "wp_gap V addr S i = 0 \<longleftrightarrow> unat (untagged_addr V addr) \<in> watched V S i"
proof -
  obtain lo hi where b: "lo \<le> hi" "hi < 8" "\<forall>k. bit (wp_mask V S i) k \<longleftrightarrow> lo \<le> k \<and> k \<le> hi" using assms(1) unfolding one_block_def by blast
  let ?v = "read_wb_reg AARCH64_DBG_REG_WVR i S" and ?a = "untagged_addr V addr"
  have w: "watched V S i = {wp_val S i + lo..wp_val S i + hi}"
  proof (intro set_eqI iffI)
    fix x assume x: "x \<in> {wp_val S i + lo..wp_val S i + hi}"
    then have "wp_val S i \<le> x" by simp
    then obtain k where k: "x = wp_val S i + k" using le_Suc_ex by blast
    then have "lo \<le> k \<and> k \<le> hi" using x by simp
    then show "x \<in> watched V S i" using b(3) k unfolding watched_def by blast
  next
    fix x assume "x \<in> watched V S i"
    then obtain k where k: "x = wp_val S i + k" "bit (wp_mask V S i) k" unfolding watched_def by blast
    have "lo \<le> k \<and> k \<le> hi" using spec [OF b(3), of k] k(2) by simp
    then show "x \<in> {wp_val S i + lo..wp_val S i + hi}" by (simp add: k(1))
  qed
  then have g: "wp_gap V addr S i = (if unat ?a < wp_val S i + lo then wp_val S i + lo - unat ?a else if wp_val S i + hi < unat ?a then unat ?a - (wp_val S i + hi) else 0)"
    using Min_gap [of "wp_val S i + lo" "wp_val S i + hi"] b(1) by (simp add: wp_gap_def)
  have k: "unat (?v + of_nat n) = wp_val S i + n" if "n < 8" for n
    using that assms(2) by (simp add: wp_val_def unat_word_ariths unat_of_nat take_bit_eq_mod)
  have "wp_dist V addr S i = (if ?a < ?v + of_nat lo then ?v + of_nat lo - ?a else if ?a > ?v + of_nat hi then ?a - (?v + of_nat hi) else 0)"
    using ffs_fls_block [OF b] by (simp add: wp_dist_def get_distance_from_watchpoint_def wp_mask_def Let_def)
  then show "unat (wp_dist V addr S i) = wp_gap V addr S i"
    using g k [of lo] k [of hi] b(1,2) by (auto simp: word_less_nat_alt unat_sub word_le_nat_alt split: if_splits)
  show "wp_gap V addr S i = 0 \<longleftrightarrow> unat ?a \<in> watched V S i" using g w by auto
qed

text \<open>
  C12: a watchpoint exception is reported, in the order of the registers, to every watchpoint for this
  kind of access that watches the byte at the address. When there is none, it is reported to exactly one,
  a watchpoint for this kind of access with a watched byte that is at least as near as those of all others; when no
  watchpoint is for this kind of access, to none (one at a distance of \<open>2 ^ 64 - 1\<close>, the whole address space,
  does not count). Byte-select fields are blocks of bits, as \<open>arch_validate_hwbkpt_settings\<close> makes them
  (\<open>validated_block\<close>), within the address space.
\<close>

theorem watchpoint_reports:
  assumes ok: "\<forall>i<core_num_wrps S. concerns write S i \<longrightarrow> one_block (wp_mask V S i) \<and> wp_val S i + 8 \<le> 2 ^ 64"
  shows "\<exists>S'. watchpoint_handler V user write addr S = (0, S') \<and>
    (let exact = filter (\<lambda>i. concerns write S i \<and> unat (untagged_addr V addr) \<in> watched V S i) [0..<core_num_wrps S];
         near = filter (\<lambda>i. concerns write S i \<and> wp_gap V addr S i \<noteq> 2 ^ 64 - 1) [0..<core_num_wrps S]
     in if exact \<noteq> [] then hits S' = hits S @ map (\<lambda>i. (the (wp_on_reg S ! i), addr)) exact
        else if near = [] then hits S' = hits S
        else (\<exists>c\<in>set near. hits S' = hits S @ [(the (wp_on_reg S ! c), addr)] \<and>
          (\<forall>i\<in>set near. wp_gap V addr S c \<le> wp_gap V addr S i)))"
proof -
  let ?I = "[0..<core_num_wrps S]"
  have d: "unat (wp_dist V addr S i) = wp_gap V addr S i" "wp_gap V addr S i = 0 \<longleftrightarrow> unat (untagged_addr V addr) \<in> watched V S i"
    if "i \<in> set ?I" "concerns write S i" for i
    using wp_dist_gap [of V S i] ok that by auto
  have top: "unat (-1 :: u64) = 2 ^ 64 - 1" by (simp add: unsigned_minus_1_eq_mask mask_eq_exp_minus_1)
  have ex: "filter (\<lambda>i. concerns write S i \<and> wp_dist V addr S i = 0) ?I =
      filter (\<lambda>i. concerns write S i \<and> unat (untagged_addr V addr) \<in> watched V S i) ?I"
    by (rule filter_cong [OF refl]) (use d in \<open>auto simp flip: unat_eq_0\<close>)
  have nr: "filter (\<lambda>i. concerns write S i \<and> wp_dist V addr S i \<noteq> -1) ?I = filter (\<lambda>i. concerns write S i \<and> wp_gap V addr S i \<noteq> 2 ^ 64 - 1) ?I"
  proof (rule filter_cong [OF refl])
    fix i assume i: "i \<in> set ?I"
    have "wp_dist V addr S i = -1 \<longleftrightarrow> wp_gap V addr S i = 2 ^ 64 - 1" if "concerns write S i"
      unfolding word_unat_eq_iff top d(1) [OF i that] by simp
    then show "(concerns write S i \<and> wp_dist V addr S i \<noteq> -1) = (concerns write S i \<and> wp_gap V addr S i \<noteq> 2 ^ 64 - 1)" by blast
  qed
  let ?near = "filter (\<lambda>i. concerns write S i \<and> wp_gap V addr S i \<noteq> 2 ^ 64 - 1) ?I"
  have le: "wp_dist V addr S c \<le> wp_dist V addr S i \<longleftrightarrow> wp_gap V addr S c \<le> wp_gap V addr S i" if "c \<in> set ?near" "i \<in> set ?near" for c i
    using d(1) that by (simp add: word_le_nat_alt)
  have "(\<exists>c\<in>set ?near. H c \<and> (\<forall>i\<in>set ?near. wp_dist V addr S c \<le> wp_dist V addr S i)) \<longleftrightarrow>
      (\<exists>c\<in>set ?near. H c \<and> (\<forall>i\<in>set ?near. wp_gap V addr S c \<le> wp_gap V addr S i))" for H :: "nat \<Rightarrow> bool"
    using le by blast
  with watchpoint_reports_dist [of V user "write" addr S] show ?thesis unfolding ex nr Let_def by (simp only:)
qed

section \<open>Stepping over a watchpoint\<close>

lemma at_level_fields [simp]:
  "at_level el slots (S\<lparr>cur := d\<rparr>) = at_level el slots S" "at_level el slots (S\<lparr>signals := g\<rparr>) = at_level el slots S"
  by (simp_all add: fun_eq_iff at_level_def arm_info_def)

lemma toggled_fields [simp]:
  "toggled reg el en (S\<lparr>cur := d\<rparr>) = toggled reg el en S" "toggled reg el en (S\<lparr>signals := g\<rparr>) = toggled reg el en S"
  by (simp_all add: toggled_def cong: if_cong)

lemma cpu_ok_signals [simp]: "cpu_ok (S\<lparr>signals := g\<rparr>) = cpu_ok S"
  by (simp add: cpu_ok_def)

lemma toggled_back:
  assumes "reg = AARCH64_DBG_REG_WCR"
    and "\<forall>i<core_num_wrps S. at_level el (wp_on_reg S) S i \<longrightarrow> wb_regs S reg i < 2 ^ 32 \<and> bit (wb_regs S reg i) 0 = en"
  shows "toggled reg el en (S\<lparr>wb_regs := toggled reg el en' S\<rparr>) = wb_regs S"
  using assms by (simp add: toggled_def fun_eq_iff set_enable_back)

lemma toggled_only_hits:
  assumes "only_hits S S'"
  shows "toggled reg el en S' = toggled reg el en S"
  using only_hits_fields [OF assms] by (simp add: toggled_def cong: if_cong)

lemma watchpoint_handler_user:
  assumes "cpu_ok S" and "\<not> bps_disabled (cur S)"
  shows "\<exists>S'. only_hits S S' \<and> watchpoint_handler V True write addr S =
     (0, step_user (S'\<lparr>wb_regs := toggled AARCH64_DBG_REG_WCR DBG_ACTIVE_EL0 False S', cur := (cur S)\<lparr>wps_disabled := True\<rparr>\<rparr>))"
proof -
  obtain m c st S1 where scan: "wp_scan V write addr [0..<core_num_wrps S] (-1, 0, False) S = ((m, c, st), S1)" "only_hits S S1"
    using wp_scan_value [OF only_hits_refl, of V "write" addr "[0..<core_num_wrps S]" "-1" 0 False S] by auto
  define S' where "S' = (if m > 0 \<and> m \<noteq> -1 then (case wp_on_reg S1 ! c of None \<Rightarrow> S1 | Some wp \<Rightarrow> bp_hit wp addr S1) else S1)"
  have S': "only_hits S S'" using scan(2) only_hits_step by (simp add: S'_def split: option.split)
  note f = only_hits_fields [OF S']
  have "toggle_bp_registers AARCH64_DBG_REG_WCR DBG_ACTIVE_EL0 False S' = S'\<lparr>wb_regs := toggled AARCH64_DBG_REG_WCR DBG_ACTIVE_EL0 False S'\<rparr>"
    using assms f by (intro toggle_bp_registers_value) simp_all
  then have "watchpoint_handler V True write addr S =
     (0, step_user (S'\<lparr>wb_regs := toggled AARCH64_DBG_REG_WCR DBG_ACTIVE_EL0 False S', cur := (cur S)\<lparr>wps_disabled := True\<rparr>\<rparr>))"
    unfolding watchpoint_handler_def scan(1) prod.case S'_def [symmetric] using assms f by (simp add: Let_def)
  with S' show ?thesis by blast
qed

text \<open>
  C22: a watchpoint hit in user mode is stepped over, whatever its handler is: the EL0 watchpoints are
  off and the thread single-steps until the step exception, which turns them on again, leaves all
  registers and the debug state of the thread as they were before the hit, asks for a further step
  only if the thread was being stepped by a debugger, and sends the thread the signal with \<open>pc - 4\<close>.
\<close>

theorem watchpoint_step_over:
  assumes ok: "cpu_ok S" and idle: "\<not> bps_disabled (cur S)" "\<not> wps_disabled (cur S)" "\<not> suspended_step (cur S)"
    and on: "\<forall>i<core_num_wrps S. at_level DBG_ACTIVE_EL0 (wp_on_reg S) S i \<longrightarrow>
      wb_regs S AARCH64_DBG_REG_WCR i < 2 ^ 32 \<and> bit (wb_regs S AARCH64_DBG_REG_WCR i) 0"
    and hit: "watchpoint_handler V True write addr S = (ret, S1)"
    and again: "reinstall_suspended_bps True pc S1 = (pass, S2)"
  shows "ret = 0 \<and> tif_singlestep (cur S1) \<and>
    (\<forall>i<core_num_wrps S. at_level DBG_ACTIVE_EL0 (wp_on_reg S) S i \<longrightarrow> \<not> bit (wb_regs S1 AARCH64_DBG_REG_WCR i) 0) \<and>
    wb_regs S2 = wb_regs S \<and> cur S2 = cur S \<and> pass = tif_singlestep (cur S) \<and> signals S2 = signals S @ [pc - 4]"
proof -
  let ?W = AARCH64_DBG_REG_WCR and ?E = DBG_ACTIVE_EL0
  obtain S' where S': "only_hits S S'" "watchpoint_handler V True write addr S =
     (0, step_user (S'\<lparr>wb_regs := toggled ?W ?E False S', cur := (cur S)\<lparr>wps_disabled := True\<rparr>\<rparr>))"
    using watchpoint_handler_user [OF ok idle(1)] by blast
  note f = only_hits_fields [OF S'(1)]
  define d where "d = (if tif_singlestep (cur S) then (cur S)\<lparr>wps_disabled := True, suspended_step := True\<rparr>
     else (cur S)\<lparr>wps_disabled := True, tif_singlestep := True\<rparr>)"
  have S1: "ret = 0" "S1 = S'\<lparr>wb_regs := toggled ?W ?E False S', cur := d\<rparr>"
    using hit S'(2) by (auto simp: step_user_def d_def)
  let ?d = "d\<lparr>wps_disabled := False\<rparr>"
  have d: "\<not> bps_disabled d" "wps_disabled d" "suspended_step d = tif_singlestep (cur S)" "tif_singlestep d"
    "(if tif_singlestep (cur S) then ?d\<lparr>suspended_step := False\<rparr> else ?d\<lparr>tif_singlestep := False\<rparr>) = cur S"
    using idle by (simp_all add: d_def)
  have "toggled ?W ?E True (S'\<lparr>wb_regs := toggled ?W ?E False S'\<rparr>) = wb_regs S"
    using toggled_back [of ?W S' ?E True False] on f by simp
  then have t: "toggled ?W ?E True (S'\<lparr>wb_regs := toggled ?W ?E False S'\<rparr>\<lparr>cur := ?d\<rparr>\<lparr>signals := signals S @ [pc - 4]\<rparr>) = wb_regs S"
    unfolding toggled_fields .
  have X: "(send_userdefine_signal pc S1)\<lparr>cur := ?d\<rparr> =
      S'\<lparr>wb_regs := toggled ?W ?E False S'\<rparr>\<lparr>cur := ?d\<rparr>\<lparr>signals := signals S @ [pc - 4]\<rparr>"
    using f by (simp add: send_userdefine_signal_def S1(2))
  have "cpu_ok ((send_userdefine_signal pc S1)\<lparr>cur := ?d\<rparr>)" unfolding X using ok f by simp
  then have "toggle_bp_registers ?W ?E True ((send_userdefine_signal pc S1)\<lparr>cur := ?d\<rparr>) =
      ((send_userdefine_signal pc S1)\<lparr>cur := ?d\<rparr>)\<lparr>wb_regs := wb_regs S\<rparr>"
    using t unfolding X by (simp only: toggle_bp_registers_value simp_thms)
  then have tog: "toggle_bp_registers ?W ?E True ((send_userdefine_signal pc S1)\<lparr>cur := ?d\<rparr>) =
      S'\<lparr>wb_regs := wb_regs S, cur := ?d, signals := signals S @ [pc - 4]\<rparr>"
    unfolding X by simp
  have "reinstall_suspended_bps True pc S1 =
      (tif_singlestep (cur S), S'\<lparr>wb_regs := wb_regs S, cur := cur S, signals := signals S @ [pc - 4]\<rparr>)"
    using tog d unfolding reinstall_suspended_bps_def by (simp add: Let_def S1(2) split: if_splits)
  then have "pass = tif_singlestep (cur S)" "S2 = S'\<lparr>wb_regs := wb_regs S, cur := cur S, signals := signals S @ [pc - 4]\<rparr>"
    using again by simp_all
  moreover have "\<forall>i<core_num_wrps S. at_level ?E (wp_on_reg S) S i \<longrightarrow> \<not> bit (wb_regs S1 ?W i) 0"
    by (simp add: S1(2) toggled_def f set_enable_bit)
  ultimately show ?thesis using S1 d(4) by simp
qed

section \<open>Switching threads\<close>

text \<open>The EL0 registers are on exactly when the thread does not have them suspended.\<close>

definition regs_follow :: "arm_cpu \<Rightarrow> debug_info \<Rightarrow> bool" where
  "regs_follow S d \<longleftrightarrow>
     (\<forall>i<core_num_brps S. at_level DBG_ACTIVE_EL0 (bp_on_reg S) S i \<longrightarrow> bit (wb_regs S AARCH64_DBG_REG_BCR i) 0 = (\<not> bps_disabled d)) \<and>
     (\<forall>i<core_num_wrps S. at_level DBG_ACTIVE_EL0 (wp_on_reg S) S i \<longrightarrow> bit (wb_regs S AARCH64_DBG_REG_WCR i) 0 = (\<not> wps_disabled d))"

text \<open>
  C35: switching threads keeps the invariant that the EL0 breakpoint and watchpoint registers are
  enabled exactly when the running thread does not have them suspended, so a thread that is stepping
  over a hit and is switched out neither leaves the others without breakpoints nor gets its own back.
  Registers of the kernel's level are not touched.
\<close>

theorem thread_switch_follows:
  assumes "cpu_ok S" and "regs_follow S (cur S)"
  shows "regs_follow (hw_breakpoint_thread_switch nxt S) nxt \<and>
    (\<forall>i. \<not> at_level DBG_ACTIVE_EL0 (wp_on_reg S) S i \<longrightarrow>
       wb_regs (hw_breakpoint_thread_switch nxt S) AARCH64_DBG_REG_WCR i = wb_regs S AARCH64_DBG_REG_WCR i) \<and>
    (\<forall>i. \<not> at_level DBG_ACTIVE_EL0 (bp_on_reg S) S i \<longrightarrow>
       wb_regs (hw_breakpoint_thread_switch nxt S) AARCH64_DBG_REG_BCR i = wb_regs S AARCH64_DBG_REG_BCR i)"
  using assms
  by (auto simp: hw_breakpoint_thread_switch_def toggle_bp_registers_value regs_follow_def toggled_def set_enable_bit Let_def)

section \<open>Watched bytes\<close>

lemma split_address: "((a :: u64) AND NOT m) + (a AND m) = a"
proof -
  have "(a AND NOT m) + (a AND m) = (a AND NOT m) OR (a AND m)"
    by (rule disjunctive_add_eq_or) (simp add: bit_eq_iff bit_simps)
  also have "\<dots> = a" by (rule bit_word_eqI) (auto simp: bit_simps)
  finally show ?thesis .
qed

lemma watched_bytes:
  fixes m :: u64
  shows "{(a AND NOT m) + of_nat j | j. bit (push_bit (unat (a AND m)) (ARM_BREAKPOINT_LEN n)) j} =
    {a + of_nat j | j. j < n \<and> unat (a AND m) + j < 8}" (is "?L = ?R")
proof -
  let ?o = "unat (a AND m)"
  have b: "bit (push_bit ?o (ARM_BREAKPOINT_LEN n)) j \<longleftrightarrow> (\<exists>k. j = ?o + k \<and> k < n \<and> ?o + k < 8)" for j
    by (auto simp: ARM_BREAKPOINT_LEN_def bit_simps le_iff_add)
  have "(a AND NOT m) + of_nat (?o + k) = a + of_nat k" for k
    using split_address [of a m] by (simp add: add.assoc [symmetric])
  moreover have "?L = {(a AND NOT m) + of_nat (?o + k) | k. k < n \<and> ?o + k < 8}" unfolding b by blast
  ultimately show ?thesis by (simp only:)
qed

lemma build_data:
  assumes "bp_type (pe_attr bp) \<noteq> {HW_BREAKPOINT_X}" and "arch_build_bp_info V bp = (0, info)"
  shows "hi_address info = bp_addr (pe_attr bp) \<and> ac_len (hi_ctrl info) = ARM_BREAKPOINT_LEN (bp_len (pe_attr bp)) \<and>
    ac_type (hi_ctrl info) \<noteq> ARM_BREAKPOINT_EXECUTE \<and> 1 \<le> bp_len (pe_attr bp) \<and> bp_len (pe_attr bp) \<le> 8"
proof -
  let ?at = "pe_attr bp"
  define ty where "ty = (if bp_type ?at = {HW_BREAKPOINT_R} then Some ARM_BREAKPOINT_LOAD
    else if bp_type ?at = {HW_BREAKPOINT_W} then Some ARM_BREAKPOINT_STORE
    else if bp_type ?at = HW_BREAKPOINT_RW then Some ARM_BREAKPOINT_LOAD_STORE else None)"
  have ty: "ty \<noteq> Some ARM_BREAKPOINT_EXECUTE" by (simp add: ty_def)
  have run: "arch_build_bp_info V bp = (0, info)" by (rule assms(2))
  obtain t where t: "ty = Some t" using run assms(1) unfolding arch_build_bp_info_def
    by (cases ty) (simp_all add: ty_def [symmetric] Let_def EINVAL_def)
  show ?thesis
    using run assms(1) t ty unfolding arch_build_bp_info_def
    by (simp add: ty_def [symmetric] Let_def EINVAL_def split: if_splits) auto
qed

lemma arm_len_inj: "n \<le> 8 \<Longrightarrow> m \<le> 8 \<Longrightarrow> ARM_BREAKPOINT_LEN n = ARM_BREAKPOINT_LEN m \<Longrightarrow> n = m"
proof (rule ccontr)
  assume n: "n \<le> 8" "m \<le> 8" "ARM_BREAKPOINT_LEN n = ARM_BREAKPOINT_LEN m" "n \<noteq> m"
  from n(3) have "bit (ARM_BREAKPOINT_LEN n) (min n m) = bit (ARM_BREAKPOINT_LEN m) (min n m)" by simp
  then show False using n(1,2,4) by (auto simp: ARM_BREAKPOINT_LEN_def bit_simps min_def split: if_splits)
qed

text \<open>
  The bytes an accepted watchpoint selects, the set bits of its byte-select field from its
  address on, are the bytes that were asked for: all of them for a 32-bit task, and for the others
  those in the aligned 8-byte word of the first. Bytes past that word are dropped without an error.
\<close>

theorem watched_bytes_of_event:
  assumes data: "bp_type (pe_attr bp) \<noteq> {HW_BREAKPOINT_X}" and ok: "arch_validate_hwbkpt_settings V bp = (0, info)"
  shows "{hi_address info + of_nat j | j. bit (ac_len (hi_ctrl info)) j} =
    {bp_addr (pe_attr bp) + of_nat j | j. j < bp_len (pe_attr bp) \<and> (is_compat_bp V bp \<or> unat (bp_addr (pe_attr bp) AND 7) + j < 8)}"
proof -
  let ?a = "bp_addr (pe_attr bp)" and ?n = "bp_len (pe_attr bp)"
  obtain ret i0 where b: "arch_build_bp_info V bp = (ret, i0)" by fastforce
  then have "ret = 0" using ok by (auto simp: arch_validate_hwbkpt_settings_def split: if_splits)
  note i0 = build_data [OF data b [unfolded this]]
  define m :: u64 where "m = (if is_compat_bp V bp \<and> ac_len (hi_ctrl i0) \<noteq> ARM_BREAKPOINT_LEN 8 then 3 else 7)"
  have info: "hi_address info = ?a AND NOT m" "ac_len (hi_ctrl info) = push_bit (unat (?a AND m)) (ARM_BREAKPOINT_LEN ?n)"
    and compat: "is_compat_bp V bp \<Longrightarrow> ?a AND m = 0 \<or> ?a AND m = 1 \<and> ac_len (hi_ctrl i0) = ARM_BREAKPOINT_LEN 1 \<or>
      (?a AND m = 1 \<or> ?a AND m = 2) \<and> ac_len (hi_ctrl i0) = ARM_BREAKPOINT_LEN 2"
    using ok \<open>ret = 0\<close> i0 by (auto simp: arch_validate_hwbkpt_settings_def b Let_def m_def EINVAL_def split: if_splits)
  have small: "is_compat_bp V bp \<Longrightarrow> unat (?a AND m) + ?n \<le> 8"
    using compat i0 arm_len_inj [of ?n 1] arm_len_inj [of ?n 2] by auto
  have "{hi_address info + of_nat j | j. bit (ac_len (hi_ctrl info)) j} = {?a + of_nat j | j. j < ?n \<and> unat (?a AND m) + j < 8}"
    unfolding info by (rule watched_bytes)
  also have "\<dots> = {?a + of_nat j | j. j < ?n \<and> (is_compat_bp V bp \<or> unat (?a AND 7) + j < 8)}"
  proof (cases "is_compat_bp V bp")
    case True
    then have "j < ?n \<Longrightarrow> unat (?a AND m) + j < 8" for j using small by fastforce
    then show ?thesis using True by auto
  qed (simp add: m_def)
  finally show ?thesis .
qed

text \<open>What \<open>arch_validate_hwbkpt_settings\<close> accepts as a watchpoint has a byte-select field that is one block.\<close>

lemma validated_block:
  assumes data: "bp_type (pe_attr bp) \<noteq> {HW_BREAKPOINT_X}" and ok: "arch_validate_hwbkpt_settings V bp = (0, info)"
  shows "one_block (ac_len (hi_ctrl info))"
proof -
  let ?a = "bp_addr (pe_attr bp)" and ?n = "bp_len (pe_attr bp)"
  obtain ret i0 where b: "arch_build_bp_info V bp = (ret, i0)" by fastforce
  then have "ret = 0" using ok by (auto simp: arch_validate_hwbkpt_settings_def split: if_splits)
  note i0 = build_data [OF data b [unfolded this]]
  define m :: u64 where "m = (if is_compat_bp V bp \<and> ac_len (hi_ctrl i0) \<noteq> ARM_BREAKPOINT_LEN 8 then 3 else 7)"
  have info: "ac_len (hi_ctrl info) = push_bit (unat (?a AND m)) (ARM_BREAKPOINT_LEN ?n)"
    using ok \<open>ret = 0\<close> i0 by (auto simp: arch_validate_hwbkpt_settings_def b Let_def m_def EINVAL_def split: if_splits)
  have "unat (?a AND m) \<le> unat m" by (simp add: word_and_le1 flip: word_le_nat_alt)
  then have o: "unat (?a AND m) < 8" by (auto simp: m_def split: if_splits)
  have n: "1 \<le> ?n" "?n \<le> 8" using i0 by simp_all
  have "bit (ac_len (hi_ctrl info)) k \<longleftrightarrow> unat (?a AND m) \<le> k \<and> k \<le> min 7 (unat (?a AND m) + ?n - 1)" for k
    unfolding info using n o by (auto simp: ARM_BREAKPOINT_LEN_def bit_simps min_def)
  moreover have "unat (?a AND m) \<le> min 7 (unat (?a AND m) + ?n - 1)" "min 7 (unat (?a AND m) + ?n - 1) < 8" using n o by simp_all
  ultimately show ?thesis unfolding one_block_def by blast
qed

section \<open>Instances\<close>

text \<open>A control register as the headers of arm64 lay it out, and a cpu with one watchpoint.\<close>

definition demo_arm :: arm_env where
  "demo_arm = \<lparr>encode_ctrl_reg = (\<lambda>c. push_bit 5 (ucast (ac_len c)) OR
       push_bit 3 (case ac_type c of ARM_BREAKPOINT_EXECUTE \<Rightarrow> 0 | ARM_BREAKPOINT_LOAD \<Rightarrow> 1 | ARM_BREAKPOINT_STORE \<Rightarrow> 2 | ARM_BREAKPOINT_LOAD_STORE \<Rightarrow> 3) OR
       push_bit 1 (case ac_privilege c of AARCH64_BREAKPOINT_EL1 \<Rightarrow> 1 | AARCH64_BREAKPOINT_EL0 \<Rightarrow> 2 | PRIVILEGE_OTHER \<Rightarrow> 0) OR
       (if ac_enabled c then 1 else 0)),
     decode_ctrl_reg = (\<lambda>r. \<lparr>ac_len = ucast (drop_bit 5 r),
       ac_type = [ARM_BREAKPOINT_EXECUTE, ARM_BREAKPOINT_LOAD, ARM_BREAKPOINT_STORE, ARM_BREAKPOINT_LOAD_STORE] ! unat (drop_bit 3 r AND 3),
       ac_privilege = [PRIVILEGE_OTHER, AARCH64_BREAKPOINT_EL1, AARCH64_BREAKPOINT_EL0, PRIVILEGE_OTHER] ! unat (drop_bit 1 r AND 3),
       ac_enabled = bit r 0\<rparr>),
     TASK_SIZE = 0x8000000000, untagged_addr = (\<lambda>a. a), compat_task = (\<lambda>_. False), default_handler = (\<lambda>_. False)\<rparr>"

definition demo_wp :: arm_event where
  "demo_wp = \<lparr>pe_attr = \<lparr>at_breakpoint = True, at_branch_stack = False, bp_addr = 0x1002, bp_len = 4, bp_type = {HW_BREAKPOINT_W},
       at_disabled = False, exclude_kernel = True\<rparr>,
     pe_cpu = -1, pe_target = Some 3, pe_stopped = False, pe_destroy = True,
     pe_info = \<lparr>hi_address = 0x1000, hi_trigger = 0,
       hi_ctrl = \<lparr>ac_len = 0x3C, ac_type = ARM_BREAKPOINT_STORE, ac_privilege = AARCH64_BREAKPOINT_EL0, ac_enabled = True\<rparr>\<rparr>\<rparr>"

definition demo_cpu :: "nat option \<Rightarrow> arm_cpu" where
  "demo_cpu w = \<lparr>wb_regs = (\<lambda>r n. if w = None \<or> n \<noteq> 0 then 0 else if r = AARCH64_DBG_REG_WVR then 0x1000
       else if r = AARCH64_DBG_REG_WCR then 0x795 else 0),
     bp_on_reg = replicate 16 None, wp_on_reg = w # replicate 15 None, stepping_kernel_bp = ARM_KERNEL_STEP_NONE,
     core_num_brps = 1, core_num_wrps = 1, arm_events = (\<lambda>_. demo_wp),
     cur = \<lparr>bps_disabled = False, wps_disabled = False, suspended_step = False, tif_singlestep = False\<rparr>,
     kernel_ss = False, monitors = (\<lambda>_. 0), hits = [], signals = []\<rparr>"

lemma demo_cpu_fields [simp]:
  "cpu_ok (demo_cpu w)" "core_num_wrps (demo_cpu w) = 1" "core_num_brps (demo_cpu w) = 1" "wp_on_reg (demo_cpu w) = w # replicate 15 None"
  "bp_on_reg (demo_cpu w) = replicate 16 None"
  "arm_events (demo_cpu w) = (\<lambda>_. demo_wp)" "hits (demo_cpu w) = []" "signals (demo_cpu w) = []"
  "\<not> bps_disabled (cur (demo_cpu w))" "\<not> wps_disabled (cur (demo_cpu w))" "\<not> suspended_step (cur (demo_cpu w))" "\<not> tif_singlestep (cur (demo_cpu w))"
  by (simp_all add: demo_cpu_def cpu_ok_def)

lemma HW_types: "{HW_BREAKPOINT_W} \<noteq> {HW_BREAKPOINT_X}" "{HW_BREAKPOINT_W} \<noteq> {HW_BREAKPOINT_R}"
  by simp_all

lemma demo_bits: "ac_len (decode_ctrl_reg demo_arm (ucast (0x795 :: u64))) = 0x3C" "ffs8 0x3C = 2" "fls8 0x3C = 5"
  by (simp_all add: demo_arm_def ffs8_def fls8_def)

lemma demo_dist: "wp_dist demo_arm 0x1003 (demo_cpu (Some 7)) 0 = 0" "untagged_addr demo_arm = (\<lambda>a. a)"
proof -
  have r: "read_wb_reg AARCH64_DBG_REG_WVR 0 (demo_cpu (Some 7)) = 0x1000" "read_wb_reg AARCH64_DBG_REG_WCR 0 (demo_cpu (Some 7)) = 0x795"
    by (simp_all add: read_wb_reg_def demo_cpu_def)
  show "untagged_addr demo_arm = (\<lambda>a. a)" by (simp add: demo_arm_def)
  then show "wp_dist demo_arm 0x1003 (demo_cpu (Some 7)) 0 = 0"
    unfolding wp_dist_def get_distance_from_watchpoint_def r demo_bits Let_def by simp
qed

theorem arm_install_uninstall_witness:
  "\<exists>k S1. k < 1 \<and> arch_install_hw_breakpoint demo_arm 7 (demo_cpu None) = (0, S1) \<and>
     wb_regs S1 AARCH64_DBG_REG_WVR k = 0x1000"
proof -
  let ?S = "demo_cpu None" and ?bp = "arm_events (demo_cpu None) 7"
  have v: "slots_of ?bp ?S = None # replicate 15 None" "max_slots_of ?bp ?S = 1" "val_reg ?bp = AARCH64_DBG_REG_WVR" "hi_address (arm_info ?S 7) = 0x1000"
    by (simp_all add: slots_of_def max_slots_of_def val_reg_def arm_info_def demo_wp_def)
  have e: "\<not> (\<forall>k<1. (None # replicate 15 (None :: nat option)) ! k \<noteq> None)" by simp
  from arm_install_uninstall [where S = ?S and i = 7 and V = demo_arm, OF demo_cpu_fields(1) _ refl refl] show ?thesis
    unfolding v if_not_P [OF e] by auto
qed

theorem watchpoint_reports_witness:
  "\<exists>S'. watchpoint_handler demo_arm True True 0x1003 (demo_cpu (Some 7)) = (0, S') \<and> hits S' = [(7, 0x1003)]"
proof -
  have m: "wp_mask demo_arm (demo_cpu (Some 7)) 0 = 0x3C" "wp_val (demo_cpu (Some 7)) 0 = 0x1000"
    by (simp_all add: wp_mask_def wp_val_def read_wb_reg_def demo_cpu_def demo_arm_def)
  have b: "bit (0x3C :: u8) k \<longleftrightarrow> 2 \<le> k \<and> k \<le> 5" for k
  proof (cases "k < 8")
    case True
    then have "k \<in> {0, 1, 2, 3, 4, 5, 6, 7}" by auto
    then show ?thesis by auto
  next
    case False
    then show ?thesis using bit_imp_le_length [of "0x3C :: u8" k] by auto
  qed
  have "one_block 0x3C" unfolding one_block_def b by (intro exI [of _ 2] exI [of _ 5]) simp
  then have ok: "\<forall>i<core_num_wrps (demo_cpu (Some 7)). concerns True (demo_cpu (Some 7)) i \<longrightarrow>
      one_block (wp_mask demo_arm (demo_cpu (Some 7)) i) \<and> wp_val (demo_cpu (Some 7)) i + 8 \<le> 2 ^ 64" by (simp add: m)
  have "0x1003 \<in> watched demo_arm (demo_cpu (Some 7)) 0" unfolding watched_def m b by (intro CollectI exI [of _ 3]) simp
  then have ex: "filter (\<lambda>i. concerns True (demo_cpu (Some 7)) i \<and> unat (untagged_addr demo_arm 0x1003) \<in> watched demo_arm (demo_cpu (Some 7)) i)
      [0..<core_num_wrps (demo_cpu (Some 7))] = [0]"
    using HW_types by (simp add: concerns_def) (simp add: demo_arm_def demo_wp_def)
  from watchpoint_reports [OF ok, of True "0x1003"] show ?thesis unfolding Let_def ex by simp
qed

theorem watchpoint_step_over_witness:
  "\<exists>S1 S2. watchpoint_handler demo_arm True True 0x1003 (demo_cpu (Some 7)) = (0, S1) \<and>
     reinstall_suspended_bps True 0x404 S1 = (False, S2) \<and> cur S2 = cur (demo_cpu (Some 7)) \<and> signals S2 = [0x400]"
proof -
  let ?S = "demo_cpu (Some 7)"
  obtain r S1 where S1: "watchpoint_handler demo_arm True True 0x1003 ?S = (r, S1)" by fastforce
  obtain p S2 where S2: "reinstall_suspended_bps True 0x404 S1 = (p, S2)" by fastforce
  have "\<forall>i<core_num_wrps ?S. at_level DBG_ACTIVE_EL0 (wp_on_reg ?S) ?S i \<longrightarrow>
      wb_regs ?S AARCH64_DBG_REG_WCR i < 2 ^ 32 \<and> bit (wb_regs ?S AARCH64_DBG_REG_WCR i) 0"
    by (simp add: demo_cpu_def)
  from watchpoint_step_over [OF demo_cpu_fields(1) demo_cpu_fields(9) demo_cpu_fields(10) demo_cpu_fields(11) this S1 S2] S1 S2
  show ?thesis by simp
qed

theorem thread_switch_follows_witness:
  "regs_follow (demo_cpu (Some 7)) (cur (demo_cpu (Some 7))) \<and>
   regs_follow (hw_breakpoint_thread_switch ((cur (demo_cpu (Some 7)))\<lparr>wps_disabled := True\<rparr>) (demo_cpu (Some 7)))
     ((cur (demo_cpu (Some 7)))\<lparr>wps_disabled := True\<rparr>)"
proof -
  have "regs_follow (demo_cpu (Some 7)) (cur (demo_cpu (Some 7)))"
    by (simp add: regs_follow_def at_level_def) (simp add: demo_cpu_def)
  with thread_switch_follows [OF demo_cpu_fields(1) this] show ?thesis by blast
qed

theorem watched_bytes_of_event_witness:
  "{hi_address (snd (arch_validate_hwbkpt_settings demo_arm demo_wp)) + of_nat j | j.
      bit (ac_len (hi_ctrl (snd (arch_validate_hwbkpt_settings demo_arm demo_wp)))) j} =
   {0x1002 + of_nat j | j. j < 4 \<and> (is_compat_bp demo_arm demo_wp \<or> unat ((0x1002 :: u64) AND 7) + j < 8)}"
proof -
  have at: "bp_type (pe_attr demo_wp) = {HW_BREAKPOINT_W}" "bp_addr (pe_attr demo_wp) = 0x1002" "bp_len (pe_attr demo_wp) = 4"
    "pe_target demo_wp = Some 3" "at_disabled (pe_attr demo_wp) = False"
    by (simp_all add: demo_wp_def)
  have "fst (arch_build_bp_info demo_arm demo_wp) = 0 \<and>
      ac_privilege (hi_ctrl (snd (arch_build_bp_info demo_arm demo_wp))) = AARCH64_BREAKPOINT_EL0"
    by (simp add: arch_build_bp_info_def at Let_def HW_types in_kernelspace_def demo_arm_def get_hbp_len_def ARM_BREAKPOINT_LEN_def)
  then have "fst (arch_validate_hwbkpt_settings demo_arm demo_wp) = 0"
    by (cases "arch_build_bp_info demo_arm demo_wp")
      (simp add: arch_validate_hwbkpt_settings_def is_compat_bp_def at demo_arm_def Let_def)
  then have "arch_validate_hwbkpt_settings demo_arm demo_wp = (0, snd (arch_validate_hwbkpt_settings demo_arm demo_wp))"
    by (simp add: prod_eq_iff)
  from watched_bytes_of_event [OF _ this] show ?thesis unfolding at by simp
qed

end
