(* ===== verification/PthreadMutex.thy ===== *)
theory PthreadMutex
  imports Prelude
begin

text \<open>
  The mutexes of the C library, \<open>src/debugfs/android50/bionic/libc/bionic/pthread_mutex.cpp\<close>: a 32-bit word
  with the lock state, a counter, the type and the owner, on which the threads of a process work with
  atomic operations and sleep on a futex.

  A call of a thread is a program counter of type \<open>mutex_pc\<close> with the locals that are still used. One
  step is one access to the word, or one futex call; what lies between touches only locals, and the
  look at the clock in a timed lock is part of the step before it. \<open>Got\<close> and \<open>Gave\<close> mark the steps
  at which the thread takes or gives back one level of the lock. The interleavings of the steps of all
  threads are the runs of \<open>mutex_next\<close>. The memory is sequentially consistent; the barriers of the code
  are not seen.
\<close>

unbundle bit_operations_syntax

section \<open>The word\<close>

definition FIELD_MASK :: "nat \<Rightarrow> nat \<Rightarrow> u32" where
  "FIELD_MASK shift bits = push_bit shift (mask bits)"

definition FIELD_TO_BITS :: "u32 \<Rightarrow> nat \<Rightarrow> nat \<Rightarrow> u32" where
  "FIELD_TO_BITS val shift bits = push_bit shift (val AND mask bits)"

definition FIELD_FROM_BITS :: "u32 \<Rightarrow> nat \<Rightarrow> nat \<Rightarrow> u32" where
  "FIELD_FROM_BITS val shift bits = drop_bit shift val AND mask bits"

definition MUTEX_STATE_MASK :: u32 where "MUTEX_STATE_MASK = FIELD_MASK 0 2"
definition MUTEX_STATE_BITS_UNLOCKED :: u32 where "MUTEX_STATE_BITS_UNLOCKED = FIELD_TO_BITS 0 0 2"
definition MUTEX_STATE_BITS_LOCKED_UNCONTENDED :: u32 where "MUTEX_STATE_BITS_LOCKED_UNCONTENDED = FIELD_TO_BITS 1 0 2"
definition MUTEX_STATE_BITS_LOCKED_CONTENDED :: u32 where "MUTEX_STATE_BITS_LOCKED_CONTENDED = FIELD_TO_BITS 2 0 2"

definition MUTEX_STATE_BITS_IS_LOCKED_UNCONTENDED :: "u32 \<Rightarrow> bool" where
  "MUTEX_STATE_BITS_IS_LOCKED_UNCONTENDED v \<longleftrightarrow> v AND MUTEX_STATE_MASK = MUTEX_STATE_BITS_LOCKED_UNCONTENDED"

definition MUTEX_STATE_BITS_IS_LOCKED_CONTENDED :: "u32 \<Rightarrow> bool" where
  "MUTEX_STATE_BITS_IS_LOCKED_CONTENDED v \<longleftrightarrow> v AND MUTEX_STATE_MASK = MUTEX_STATE_BITS_LOCKED_CONTENDED"

definition MUTEX_STATE_BITS_FLIP_CONTENTION :: "u32 \<Rightarrow> u32" where
  "MUTEX_STATE_BITS_FLIP_CONTENTION v = v XOR (MUTEX_STATE_BITS_LOCKED_CONTENDED XOR MUTEX_STATE_BITS_LOCKED_UNCONTENDED)"

definition MUTEX_COUNTER_MASK :: u32 where "MUTEX_COUNTER_MASK = FIELD_MASK 2 11"
definition MUTEX_COUNTER_BITS_ONE :: u32 where "MUTEX_COUNTER_BITS_ONE = FIELD_TO_BITS 1 2 11"

definition MUTEX_COUNTER_BITS_WILL_OVERFLOW :: "u32 \<Rightarrow> bool" where
  "MUTEX_COUNTER_BITS_WILL_OVERFLOW v \<longleftrightarrow> v AND MUTEX_COUNTER_MASK = MUTEX_COUNTER_MASK"

definition MUTEX_COUNTER_BITS_IS_ZERO :: "u32 \<Rightarrow> bool" where
  "MUTEX_COUNTER_BITS_IS_ZERO v \<longleftrightarrow> v AND MUTEX_COUNTER_MASK = 0"

definition MUTEX_SHARED_MASK :: u32 where "MUTEX_SHARED_MASK = FIELD_MASK 13 1"
definition MUTEX_TYPE_MASK :: u32 where "MUTEX_TYPE_MASK = FIELD_MASK 14 2"
definition MUTEX_TYPE_BITS_NORMAL :: u32 where "MUTEX_TYPE_BITS_NORMAL = FIELD_TO_BITS 0 14 2"
definition MUTEX_TYPE_BITS_RECURSIVE :: u32 where "MUTEX_TYPE_BITS_RECURSIVE = FIELD_TO_BITS 1 14 2"
definition MUTEX_TYPE_BITS_ERRORCHECK :: u32 where "MUTEX_TYPE_BITS_ERRORCHECK = FIELD_TO_BITS 2 14 2"

definition MUTEX_OWNER_FROM_BITS :: "u32 \<Rightarrow> nat" where
  "MUTEX_OWNER_FROM_BITS v = unat (FIELD_FROM_BITS v 16 16)"

definition MUTEX_OWNER_TO_BITS :: "nat \<Rightarrow> u32" where
  "MUTEX_OWNER_TO_BITS tid = FIELD_TO_BITS (of_nat tid) 16 16"

section \<open>Attributes and initialisation\<close>

definition EDEADLK :: int where "EDEADLK = 35"
definition ETIMEDOUT :: int where "ETIMEDOUT = 110"

text \<open>The constants of \<open>pthread.h\<close>.\<close>

definition PTHREAD_MUTEX_NORMAL :: u32 where "PTHREAD_MUTEX_NORMAL = 0"
definition PTHREAD_MUTEX_RECURSIVE :: u32 where "PTHREAD_MUTEX_RECURSIVE = 1"
definition PTHREAD_MUTEX_ERRORCHECK :: u32 where "PTHREAD_MUTEX_ERRORCHECK = 2"
definition PTHREAD_PROCESS_PRIVATE :: int where "PTHREAD_PROCESS_PRIVATE = 0"
definition PTHREAD_PROCESS_SHARED :: int where "PTHREAD_PROCESS_SHARED = 1"

definition MUTEXATTR_TYPE_MASK :: u32 where "MUTEXATTR_TYPE_MASK = 0x000f"
definition MUTEXATTR_SHARED_MASK :: u32 where "MUTEXATTR_SHARED_MASK = 0x0010"

text \<open>An attribute is a word. An operation answers an error, or the new attribute or what it read.\<close>

definition pthread_mutexattr_init :: u32 where "pthread_mutexattr_init = PTHREAD_MUTEX_NORMAL"

definition pthread_mutexattr_destroy :: u32 where "pthread_mutexattr_destroy = -1"

definition pthread_mutexattr_gettype :: "u32 \<Rightarrow> int + u32" where
  "pthread_mutexattr_gettype attr =
     (let type = attr AND MUTEXATTR_TYPE_MASK in if type > PTHREAD_MUTEX_ERRORCHECK then Inl EINVAL else Inr type)"

definition pthread_mutexattr_settype :: "u32 \<Rightarrow> int \<Rightarrow> int + u32" where
  "pthread_mutexattr_settype attr type =
     (if type < uint PTHREAD_MUTEX_NORMAL \<or> type > uint PTHREAD_MUTEX_ERRORCHECK then Inl EINVAL
      else Inr ((attr AND NOT MUTEXATTR_TYPE_MASK) OR of_int type))"

definition pthread_mutexattr_setpshared :: "u32 \<Rightarrow> int \<Rightarrow> int + u32" where
  "pthread_mutexattr_setpshared attr pshared =
     (if pshared = PTHREAD_PROCESS_PRIVATE then Inr (attr AND NOT MUTEXATTR_SHARED_MASK)
      else if pshared = PTHREAD_PROCESS_SHARED then Inr (attr OR MUTEXATTR_SHARED_MASK)
      else Inl EINVAL)"

definition pthread_mutexattr_getpshared :: "u32 \<Rightarrow> int" where
  "pthread_mutexattr_getpshared attr =
     (if attr AND MUTEXATTR_SHARED_MASK \<noteq> 0 then PTHREAD_PROCESS_SHARED else PTHREAD_PROCESS_PRIVATE)"

text \<open>The value a new mutex gets; \<open>None\<close> is a null attribute.\<close>

definition pthread_mutex_init :: "u32 option \<Rightarrow> int + u32" where
  "pthread_mutex_init attr =
     (case attr of
        None \<Rightarrow> Inr MUTEX_TYPE_BITS_NORMAL
      | Some attr \<Rightarrow>
          (let value = (if attr AND MUTEXATTR_SHARED_MASK \<noteq> 0 then MUTEX_SHARED_MASK else 0);
               type = attr AND MUTEXATTR_TYPE_MASK
           in if type = PTHREAD_MUTEX_NORMAL then Inr (value OR MUTEX_TYPE_BITS_NORMAL)
              else if type = PTHREAD_MUTEX_RECURSIVE then Inr (value OR MUTEX_TYPE_BITS_RECURSIVE)
              else if type = PTHREAD_MUTEX_ERRORCHECK then Inr (value OR MUTEX_TYPE_BITS_ERRORCHECK)
              else Inl EINVAL))"

section \<open>Calls\<close>

datatype normal_lock_pc = NL_try | NL_swap | NL_wait | NL_asleep | NL_debug
datatype normal_unlock_pc = NU_debug | NU_dec | NU_store | NU_wake
datatype increment_pc = Incr_try u32 | Incr_reload
datatype lock_pc = Lock_load | Lock_quick u32 | Lock_reload u32 | Lock_loop u32 u32 | Lock_wait u32 u32 | Lock_asleep u32
datatype unlock_pc = Unlock_load | Unlock_dec u32 | Unlock_dec_reload | Unlock_swap u32 | Unlock_wake
datatype try_pc = Try_load | Try_normal u32 | Try_quick u32
datatype timed_pc = Timed_load | Timed_normal_try u32 | Timed_normal_swap u32 | Timed_normal_wait u32 | Timed_normal_asleep u32
  | Timed_quick u32 | Timed_reload u32 | Timed_loop u32 u32 | Timed_flip_reload u32 | Timed_wait u32 u32 | Timed_asleep u32

text \<open>The flag of \<open>Increment\<close> and \<open>TryLock\<close> says that the call is the first part of a \<open>pthread_mutex_destroy\<close>.\<close>

datatype mutex_pc =
    Returned int
  | NormalLock normal_lock_pc u32
  | NormalUnlock normal_unlock_pc u32
  | Increment bool increment_pc
  | Lock lock_pc
  | Unlock unlock_pc
  | TryLock bool try_pc
  | TimedLock timed_pc
  | Destroy_store
  | Destroy_debug

datatype effect = Quiet | Got | Gave | Sleep | Wake_one | Lock_debug | Unlock_debug | Destroy_debugged

type_synonym mutex_result = "mutex_pc \<times> u32 \<times> effect"

text \<open>The futex call: sleep unless the word has changed.\<close>

definition futex_wait :: "u32 \<Rightarrow> mutex_pc \<Rightarrow> mutex_pc \<Rightarrow> u32 \<Rightarrow> mutex_result" where
  "futex_wait expected asleep changed v = (if v = expected then (asleep, v, Sleep) else (changed, v, Quiet))"

fun normal_lock_step :: "normal_lock_pc \<Rightarrow> u32 \<Rightarrow> u32 \<Rightarrow> mutex_result" where
  "normal_lock_step NL_try shared v =
     (if v = shared OR MUTEX_STATE_BITS_UNLOCKED
      then (NormalLock NL_debug shared, shared OR MUTEX_STATE_BITS_LOCKED_UNCONTENDED, Got)
      else (NormalLock NL_swap shared, v, Quiet))"
| "normal_lock_step NL_swap shared v =
     (if v = shared OR MUTEX_STATE_BITS_UNLOCKED
      then (NormalLock NL_debug shared, shared OR MUTEX_STATE_BITS_LOCKED_CONTENDED, Got)
      else (NormalLock NL_wait shared, shared OR MUTEX_STATE_BITS_LOCKED_CONTENDED, Quiet))"
| "normal_lock_step NL_wait shared v =
     futex_wait (shared OR MUTEX_STATE_BITS_LOCKED_CONTENDED) (NormalLock NL_asleep shared) (NormalLock NL_swap shared) v"
| "normal_lock_step NL_asleep shared v = (NormalLock NL_asleep shared, v, Quiet)"
| "normal_lock_step NL_debug shared v = (Returned 0, v, Lock_debug)"

fun normal_unlock_step :: "normal_unlock_pc \<Rightarrow> u32 \<Rightarrow> u32 \<Rightarrow> mutex_result" where
  "normal_unlock_step NU_debug shared v = (NormalUnlock NU_dec shared, v, Unlock_debug)"
| "normal_unlock_step NU_dec shared v =
     (if v \<noteq> shared OR MUTEX_STATE_BITS_LOCKED_UNCONTENDED then (NormalUnlock NU_store shared, v - 1, Quiet)
      else (Returned 0, v - 1, Gave))"
| "normal_unlock_step NU_store shared v = (NormalUnlock NU_wake shared, shared, Gave)"
| "normal_unlock_step NU_wake shared v = (Returned 0, v, Wake_one)"

text \<open>The end of a \<open>trylock\<close>: within a destroy a success goes on with the destruction.\<close>

definition try_end :: "bool \<Rightarrow> int \<Rightarrow> mutex_pc" where
  "try_end destroy error = (if destroy \<and> error = 0 then Destroy_store else Returned error)"

definition recursive_increment :: "bool \<Rightarrow> u32 \<Rightarrow> u32 \<Rightarrow> mutex_pc" where
  "recursive_increment destroy mvalue mtype =
     (if mtype = MUTEX_TYPE_BITS_ERRORCHECK then try_end destroy EDEADLK
      else if MUTEX_COUNTER_BITS_WILL_OVERFLOW mvalue then try_end destroy EAGAIN
      else Increment destroy (Incr_try mvalue))"

fun increment_step :: "bool \<Rightarrow> increment_pc \<Rightarrow> u32 \<Rightarrow> mutex_result" where
  "increment_step destroy (Incr_try mvalue) v =
     (if v = mvalue then (try_end destroy 0, mvalue + MUTEX_COUNTER_BITS_ONE, Got)
      else (Increment destroy Incr_reload, v, Quiet))"
| "increment_step destroy Incr_reload v = (Increment destroy (Incr_try v), v, Quiet)"

text \<open>\<open>mtype\<close> of the loop contains the shared flag.\<close>

fun lock_step :: "nat \<Rightarrow> lock_pc \<Rightarrow> u32 \<Rightarrow> mutex_result" where
  "lock_step tid Lock_load v =
     (let mtype = v AND MUTEX_TYPE_MASK; shared = v AND MUTEX_SHARED_MASK
      in (if mtype = MUTEX_TYPE_BITS_NORMAL then NormalLock NL_try shared
          else if tid = MUTEX_OWNER_FROM_BITS v then recursive_increment False v mtype
          else if v = mtype OR shared then Lock (Lock_quick (mtype OR shared))
          else Lock (Lock_loop v (mtype OR shared)), v, Quiet))"
| "lock_step tid (Lock_quick mtype) v =
     (if v = mtype then (Returned 0, MUTEX_OWNER_TO_BITS tid OR mtype OR MUTEX_STATE_BITS_LOCKED_UNCONTENDED, Got)
      else (Lock (Lock_reload mtype), v, Quiet))"
| "lock_step tid (Lock_reload mtype) v = (Lock (Lock_loop v mtype), v, Quiet)"
| "lock_step tid (Lock_loop mvalue mtype) v =
     (if mvalue = mtype then
        if v = mvalue then (Returned 0, MUTEX_OWNER_TO_BITS tid OR mtype OR MUTEX_STATE_BITS_LOCKED_CONTENDED, Got)
        else (Lock (Lock_reload mtype), v, Quiet)
      else if MUTEX_STATE_BITS_IS_LOCKED_UNCONTENDED mvalue then
        if v = mvalue then
          (Lock (Lock_wait (MUTEX_STATE_BITS_FLIP_CONTENTION mvalue) mtype), MUTEX_STATE_BITS_FLIP_CONTENTION mvalue, Quiet)
        else (Lock (Lock_reload mtype), v, Quiet)
      else futex_wait mvalue (Lock (Lock_asleep mtype)) (Lock (Lock_reload mtype)) v)"
| "lock_step tid (Lock_wait mvalue mtype) v = futex_wait mvalue (Lock (Lock_asleep mtype)) (Lock (Lock_reload mtype)) v"
| "lock_step tid (Lock_asleep mtype) v = (Lock (Lock_asleep mtype), v, Quiet)"

fun unlock_step :: "nat \<Rightarrow> unlock_pc \<Rightarrow> u32 \<Rightarrow> mutex_result" where
  "unlock_step tid Unlock_load v =
     (let mtype = v AND MUTEX_TYPE_MASK; shared = v AND MUTEX_SHARED_MASK
      in (if mtype = MUTEX_TYPE_BITS_NORMAL then NormalUnlock NU_debug shared
          else if tid \<noteq> MUTEX_OWNER_FROM_BITS v then Returned EPERM
          else if \<not> MUTEX_COUNTER_BITS_IS_ZERO v then Unlock (Unlock_dec v)
          else Unlock (Unlock_swap (mtype OR shared OR MUTEX_STATE_BITS_UNLOCKED)), v, Quiet))"
| "unlock_step tid (Unlock_dec mvalue) v =
     (if v = mvalue then (Returned 0, mvalue - MUTEX_COUNTER_BITS_ONE, Gave) else (Unlock Unlock_dec_reload, v, Quiet))"
| "unlock_step tid Unlock_dec_reload v = (Unlock (Unlock_dec v), v, Quiet)"
| "unlock_step tid (Unlock_swap unlocked) v =
     (if MUTEX_STATE_BITS_IS_LOCKED_CONTENDED v then Unlock Unlock_wake else Returned 0, unlocked, Gave)"
| "unlock_step tid Unlock_wake v = (Returned 0, v, Wake_one)"

fun try_step :: "nat \<Rightarrow> bool \<Rightarrow> try_pc \<Rightarrow> u32 \<Rightarrow> mutex_result" where
  "try_step tid destroy Try_load v =
     (let mtype = v AND MUTEX_TYPE_MASK; shared = v AND MUTEX_SHARED_MASK
      in (if mtype = MUTEX_TYPE_BITS_NORMAL then TryLock destroy (Try_normal shared)
          else if tid = MUTEX_OWNER_FROM_BITS v then recursive_increment destroy v mtype
          else TryLock destroy (Try_quick (mtype OR shared OR MUTEX_STATE_BITS_UNLOCKED)), v, Quiet))"
| "try_step tid destroy (Try_normal shared) v =
     (if v = shared OR MUTEX_STATE_BITS_UNLOCKED
      then (try_end destroy 0, shared OR MUTEX_STATE_BITS_LOCKED_UNCONTENDED, Got)
      else (try_end destroy EBUSY, v, Quiet))"
| "try_step tid destroy (Try_quick mtype) v =
     (if v = mtype
      then (try_end destroy 0, MUTEX_OWNER_TO_BITS tid OR mtype OR MUTEX_STATE_BITS_LOCKED_UNCONTENDED, Got)
      else (try_end destroy EBUSY, v, Quiet))"

text \<open>\<open>late\<close>: the deadline has passed when the code looks at the clock.\<close>

fun timed_step :: "bool \<Rightarrow> nat \<Rightarrow> timed_pc \<Rightarrow> u32 \<Rightarrow> mutex_result" where
  "timed_step late tid Timed_load v =
     (let mtype = v AND MUTEX_TYPE_MASK; shared = v AND MUTEX_SHARED_MASK
      in (if mtype = MUTEX_TYPE_BITS_NORMAL then TimedLock (Timed_normal_try shared)
          else if tid = MUTEX_OWNER_FROM_BITS v then recursive_increment False v mtype
          else if v = mtype OR shared then TimedLock (Timed_quick (mtype OR shared))
          else TimedLock (Timed_loop v (mtype OR shared)), v, Quiet))"
| "timed_step late tid (Timed_normal_try shared) v =
     (if v = shared OR MUTEX_STATE_BITS_UNLOCKED then (Returned 0, shared OR MUTEX_STATE_BITS_LOCKED_UNCONTENDED, Got)
      else (TimedLock (Timed_normal_swap shared), v, Quiet))"
| "timed_step late tid (Timed_normal_swap shared) v =
     (if v = shared OR MUTEX_STATE_BITS_UNLOCKED then (Returned 0, shared OR MUTEX_STATE_BITS_LOCKED_CONTENDED, Got)
      else (if late then Returned ETIMEDOUT else TimedLock (Timed_normal_wait shared), shared OR MUTEX_STATE_BITS_LOCKED_CONTENDED, Quiet))"
| "timed_step late tid (Timed_normal_wait shared) v =
     futex_wait (shared OR MUTEX_STATE_BITS_LOCKED_CONTENDED) (TimedLock (Timed_normal_asleep shared)) (TimedLock (Timed_normal_swap shared)) v"
| "timed_step late tid (Timed_normal_asleep shared) v = (TimedLock (Timed_normal_asleep shared), v, Quiet)"
| "timed_step late tid (Timed_quick mtype) v =
     (if v = mtype then (Returned 0, MUTEX_OWNER_TO_BITS tid OR mtype OR MUTEX_STATE_BITS_LOCKED_UNCONTENDED, Got)
      else (TimedLock (Timed_reload mtype), v, Quiet))"
| "timed_step late tid (Timed_reload mtype) v = (TimedLock (Timed_loop v mtype), v, Quiet)"
| "timed_step late tid (Timed_loop mvalue mtype) v =
     (if mvalue = mtype then
        if v = mtype then (Returned 0, MUTEX_OWNER_TO_BITS tid OR mtype OR MUTEX_STATE_BITS_LOCKED_CONTENDED, Got)
        else (if late then Returned ETIMEDOUT else TimedLock (Timed_reload mtype), v, Quiet)
      else if MUTEX_STATE_BITS_IS_LOCKED_UNCONTENDED mvalue then
        if v = mvalue then
          (if late then Returned ETIMEDOUT else TimedLock (Timed_wait (MUTEX_STATE_BITS_FLIP_CONTENTION mvalue) mtype),
           MUTEX_STATE_BITS_FLIP_CONTENTION mvalue, Quiet)
        else (TimedLock (Timed_flip_reload mtype), v, Quiet)
      else if late then (Returned ETIMEDOUT, v, Quiet)
      else if MUTEX_STATE_BITS_IS_LOCKED_CONTENDED mvalue then
        futex_wait mvalue (TimedLock (Timed_asleep mtype)) (TimedLock (Timed_reload mtype)) v
      else (TimedLock (Timed_loop mvalue mtype), v, Quiet))"
| "timed_step late tid (Timed_flip_reload mtype) v =
     (if late then Returned ETIMEDOUT
      else if MUTEX_STATE_BITS_IS_LOCKED_CONTENDED v then TimedLock (Timed_wait v mtype)
      else TimedLock (Timed_loop v mtype), v, Quiet)"
| "timed_step late tid (Timed_wait mvalue mtype) v =
     futex_wait mvalue (TimedLock (Timed_asleep mtype)) (TimedLock (Timed_reload mtype)) v"
| "timed_step late tid (Timed_asleep mtype) v = (TimedLock (Timed_asleep mtype), v, Quiet)"

text \<open>The deadline and the answer of \<open>pthread_mutex_lock_timeout_np\<close>, on seconds and nanoseconds.\<close>

definition timeout_np_deadline :: "int \<times> int \<Rightarrow> nat \<Rightarrow> int \<times> int" where
  "timeout_np_deadline now ms =
     (let sec = fst now + int (ms div 1000); nsec = snd now + int (ms mod 1000) * 1000000
      in if nsec \<ge> 1000000000 then (sec + 1, nsec - 1000000000) else (sec, nsec))"

definition timeout_np_answer :: "int \<Rightarrow> int" where
  "timeout_np_answer error = (if error = ETIMEDOUT then EBUSY else error)"

definition mutex_step :: "bool \<Rightarrow> nat \<Rightarrow> mutex_pc \<Rightarrow> u32 \<Rightarrow> mutex_result" where
  "mutex_step late tid pc v =
     (case pc of
        Returned error \<Rightarrow> (Returned error, v, Quiet)
      | NormalLock p shared \<Rightarrow> normal_lock_step p shared v
      | NormalUnlock p shared \<Rightarrow> normal_unlock_step p shared v
      | Increment destroy p \<Rightarrow> increment_step destroy p v
      | Lock p \<Rightarrow> lock_step tid p v
      | Unlock p \<Rightarrow> unlock_step tid p v
      | TryLock destroy p \<Rightarrow> try_step tid destroy p v
      | TimedLock p \<Rightarrow> timed_step late tid p v
      | Destroy_store \<Rightarrow> (Destroy_debug, 0xdead10cc, Quiet)
      | Destroy_debug \<Rightarrow> (Returned 0, v, Destroy_debugged))"

section \<open>Threads\<close>

datatype mutex_call = Call_lock | Call_unlock | Call_trylock | Call_timedlock | Call_destroy

fun call_entry :: "mutex_call \<Rightarrow> mutex_pc" where
  "call_entry Call_lock = Lock Lock_load"
| "call_entry Call_unlock = Unlock Unlock_load"
| "call_entry Call_trylock = TryLock False Try_load"
| "call_entry Call_timedlock = TimedLock Timed_load"
| "call_entry Call_destroy = TryLock True Try_load"

text \<open>Where a thread goes on that the futex has woken, and one whose futex call has timed out.\<close>

fun woken :: "mutex_pc \<Rightarrow> mutex_pc option" where
  "woken (NormalLock NL_asleep shared) = Some (NormalLock NL_swap shared)"
| "woken (Lock (Lock_asleep mtype)) = Some (Lock (Lock_reload mtype))"
| "woken (TimedLock (Timed_normal_asleep shared)) = Some (TimedLock (Timed_normal_swap shared))"
| "woken (TimedLock (Timed_asleep mtype)) = Some (TimedLock (Timed_reload mtype))"
| "woken pc = None"

fun expired :: "mutex_pc \<Rightarrow> mutex_pc option" where
  "expired (TimedLock (Timed_normal_asleep shared)) = Some (TimedLock (Timed_normal_swap shared))"
| "expired (TimedLock (Timed_asleep mtype)) = Some (Returned ETIMEDOUT)"
| "expired pc = None"

text \<open>The word, the call and the levels of the lock of each thread, and the threads asleep on the futex.\<close>

record mutex_state =
  m_value :: u32
  m_pc :: "nat \<Rightarrow> mutex_pc"
  m_depth :: "nat \<Rightarrow> nat"
  m_asleep :: "nat list"

definition leave_futex :: "nat \<Rightarrow> mutex_pc \<Rightarrow> mutex_state \<Rightarrow> mutex_state" where
  "leave_futex t pc S = S\<lparr>m_pc := (m_pc S)(t := pc), m_asleep := remove1 t (m_asleep S)\<rparr>"

text \<open>\<open>w\<close> is the thread that a wake-up wakes, any of the sleepers, and \<open>None\<close> when there is none.\<close>

definition apply_effect :: "nat \<Rightarrow> effect \<Rightarrow> nat option \<Rightarrow> mutex_state \<Rightarrow> mutex_state option" where
  "apply_effect t e w S =
     (case e of
        Got \<Rightarrow> Some (S\<lparr>m_depth := (m_depth S)(t := m_depth S t + 1)\<rparr>)
      | Gave \<Rightarrow> Some (S\<lparr>m_depth := (m_depth S)(t := m_depth S t - 1)\<rparr>)
      | Sleep \<Rightarrow> Some (S\<lparr>m_asleep := m_asleep S @ [t]\<rparr>)
      | Wake_one \<Rightarrow>
          (case w of
             None \<Rightarrow> if m_asleep S = [] then Some S else None
           | Some u \<Rightarrow> if u \<in> set (m_asleep S) then map_option (\<lambda>pc. leave_futex u pc S) (woken (m_pc S u)) else None)
      | _ \<Rightarrow> Some S)"

text \<open>
  What can happen: a thread that is in no call calls, a thread that is not asleep does its next step,
  a sleeper is interrupted, or its time is up.
\<close>

datatype mutex_event = Enter nat mutex_call | Run nat bool "nat option" | Interrupt nat | Expire nat

fun mutex_next :: "mutex_event \<Rightarrow> mutex_state \<Rightarrow> mutex_state option" where
  "mutex_next (Enter t c) S =
     (case m_pc S t of Returned error \<Rightarrow> Some (S\<lparr>m_pc := (m_pc S)(t := call_entry c)\<rparr>) | _ \<Rightarrow> None)"
| "mutex_next (Run t late w) S =
     (if (case m_pc S t of Returned error \<Rightarrow> True | _ \<Rightarrow> False) \<or> t \<in> set (m_asleep S) then None
      else (case mutex_step late t (m_pc S t) (m_value S) of (pc, v, e) \<Rightarrow>
        apply_effect t e w (S\<lparr>m_value := v, m_pc := (m_pc S)(t := pc)\<rparr>)))"
| "mutex_next (Interrupt t) S =
     (if t \<in> set (m_asleep S) then map_option (\<lambda>pc. leave_futex t pc S) (woken (m_pc S t)) else None)"
| "mutex_next (Expire t) S =
     (if t \<in> set (m_asleep S) then map_option (\<lambda>pc. leave_futex t pc S) (expired (m_pc S t)) else None)"

fun mutex_run :: "mutex_event list \<Rightarrow> mutex_state \<Rightarrow> mutex_state option" where
  "mutex_run [] S = Some S"
| "mutex_run (ev # evs) S = Option.bind (mutex_next ev S) (mutex_run evs)"

definition mutex_start :: "u32 \<Rightarrow> mutex_state" where
  "mutex_start v = \<lparr>m_value = v, m_pc = (\<lambda>_. Returned 0), m_depth = (\<lambda>_. 0), m_asleep = []\<rparr>"

text \<open>
  How threads may use a mutex that was initialised with the value \<open>init\<close>: they make only calls of
  \<open>calls\<close>, thread numbers are 16-bit and not 0, a normal mutex is unlocked only by a thread that has it.
\<close>

fun client_ok :: "u32 \<Rightarrow> mutex_call set \<Rightarrow> mutex_event \<Rightarrow> mutex_state \<Rightarrow> bool" where
  "client_ok init calls (Enter t c) S \<longleftrightarrow>
     0 < t \<and> t < 2 ^ 16 \<and> c \<in> calls \<and>
     (c = Call_unlock \<and> init AND MUTEX_TYPE_MASK = MUTEX_TYPE_BITS_NORMAL \<longrightarrow> 0 < m_depth S t)"
| "client_ok init calls _ S \<longleftrightarrow> True"

inductive mutex_reach :: "u32 \<Rightarrow> mutex_call set \<Rightarrow> mutex_state \<Rightarrow> bool" for init calls where
  reach_start: "pthread_mutex_init attr = Inr init \<Longrightarrow> mutex_reach init calls (mutex_start init)"
| reach_step: "mutex_reach init calls S \<Longrightarrow> client_ok init calls ev S \<Longrightarrow> mutex_next ev S = Some S' \<Longrightarrow> mutex_reach init calls S'"

end
