(* ===== verification/PthreadMutexProof.thy ===== *)
theory PthreadMutexProof
  imports PthreadMutex
begin

text \<open>
  The mutex word as four fields, and the invariant of all interleavings: the word says whether, by whom
  and how often the mutex is held, and each thread knows of it what its point of the call needs.
\<close>

unbundle bit_operations_syntax

section \<open>Fields of the word\<close>

definition mutex_word :: "nat \<Rightarrow> u32 \<Rightarrow> nat \<Rightarrow> nat \<Rightarrow> u32" where
  "mutex_word tid init c s = of_nat tid * 65536 + init + of_nat c * 4 + of_nat s"

text \<open>The values of new mutexes have only bits of the type and the shared flag.\<close>

definition init_ok :: "u32 \<Rightarrow> bool" where
  "init_ok init \<longleftrightarrow> (\<forall>n. bit init n \<longrightarrow> 13 \<le> n \<and> n < 16)"

lemma nat_bit_less: "bit (n :: nat) i \<Longrightarrow> n < 2 ^ m \<Longrightarrow> i < m"
  by (metis bit_take_bit_iff take_bit_nat_eq_self)

lemma mutex_word_or:
  assumes "tid < 2 ^ 16" "c < 2 ^ 11" "s < 2 ^ 2" "init_ok init"
  shows "mutex_word tid init c s = push_bit 16 (of_nat tid) OR init OR push_bit 2 (of_nat c) OR of_nat s"
proof -
  note lt = nat_bit_less [OF _ assms(1)] nat_bit_less [OF _ assms(2)] nat_bit_less [OF _ assms(3)]
  have i: "bit init n \<Longrightarrow> 13 \<le> n \<and> n < 16" for n using assms(4) by (simp add: init_ok_def)
  have ci: "bit c (n - 2) \<Longrightarrow> n < 13" for n using lt(2) [of "n - 2"] by linarith
  have ic: "bit init n \<Longrightarrow> bit c (n - 2) \<Longrightarrow> False" for n using i [of n] ci [of n] by linarith
  have tc: "16 \<le> n \<Longrightarrow> bit c (n - 2) \<Longrightarrow> False" for n using ci [of n] by linarith
  have si: "bit s n \<Longrightarrow> bit init n \<Longrightarrow> False" "bit s n \<Longrightarrow> 16 \<le> n \<Longrightarrow> False" "bit s n \<Longrightarrow> 2 \<le> n \<Longrightarrow> False" for n
    using lt(3) [of n] i [of n] by linarith+
  have a: "push_bit 16 (of_nat tid) + init = push_bit 16 (of_nat tid :: u32) OR init"
    by (rule disjunctive_add_eq_or) (auto simp: bit_eq_iff bit_simps dest: i)
  have b: "(push_bit 16 (of_nat tid) OR init) + push_bit 2 (of_nat c :: u32) = (push_bit 16 (of_nat tid) OR init) OR push_bit 2 (of_nat c)"
    by (rule disjunctive_add_eq_or) (auto simp: bit_eq_iff bit_simps dest: ic tc)
  have c: "((push_bit 16 (of_nat tid) OR init) OR push_bit 2 (of_nat c :: u32)) + of_nat s =
      ((push_bit 16 (of_nat tid) OR init) OR push_bit 2 (of_nat c)) OR of_nat s"
    by (rule disjunctive_add_eq_or) (auto simp: bit_eq_iff bit_simps dest: si)
  have "mutex_word tid init c s = push_bit 16 (of_nat tid) + init + push_bit 2 (of_nat c) + of_nat s"
    by (simp add: mutex_word_def push_bit_eq_mult)
  then show ?thesis unfolding a b c by (simp add: or.assoc)
qed

lemma mutex_word_bit:
  assumes "tid < 2 ^ 16" "c < 2 ^ 11" "s < 2 ^ 2" "init_ok init"
  shows "bit (mutex_word tid init c s) n \<longleftrightarrow>
    (if n < 2 then bit s n else if n < 13 then bit c (n - 2) else if n < 16 then bit init n else n < 32 \<and> bit tid (n - 16))"
proof -
  note lt = nat_bit_less [OF _ assms(1)] nat_bit_less [OF _ assms(2)] nat_bit_less [OF _ assms(3)]
  have i: "bit init n \<Longrightarrow> 13 \<le> n \<and> n < 16" for n using assms(4) by (simp add: init_ok_def)
  show ?thesis unfolding mutex_word_or [OF assms]
    by (auto simp: bit_simps dest: i lt)
qed

text \<open>The constants of the code as numbers.\<close>

lemma field_consts:
  "MUTEX_STATE_BITS_UNLOCKED = 0" "MUTEX_STATE_BITS_LOCKED_UNCONTENDED = 1" "MUTEX_STATE_BITS_LOCKED_CONTENDED = 2"
  "MUTEX_COUNTER_BITS_ONE = 4" "MUTEX_TYPE_BITS_NORMAL = 0" "MUTEX_TYPE_BITS_RECURSIVE = 0x4000" "MUTEX_TYPE_BITS_ERRORCHECK = 0x8000"
  "MUTEX_SHARED_MASK = 0x2000" "MUTEX_TYPE_MASK = 0xC000" "MUTEX_STATE_MASK = 3" "MUTEX_COUNTER_MASK = 0x1FFC"
  by (simp_all add: MUTEX_STATE_BITS_UNLOCKED_def MUTEX_STATE_BITS_LOCKED_UNCONTENDED_def MUTEX_STATE_BITS_LOCKED_CONTENDED_def
      MUTEX_COUNTER_BITS_ONE_def MUTEX_TYPE_BITS_NORMAL_def MUTEX_TYPE_BITS_RECURSIVE_def MUTEX_TYPE_BITS_ERRORCHECK_def
      MUTEX_SHARED_MASK_def MUTEX_TYPE_MASK_def MUTEX_STATE_MASK_def MUTEX_COUNTER_MASK_def FIELD_MASK_def FIELD_TO_BITS_def mask_eq_exp_minus_1)

lemma mask_bits:
  "bit (3 :: u32) n \<longleftrightarrow> n < 2" "bit (0x1FFC :: u32) n \<longleftrightarrow> 2 \<le> n \<and> n < 13" "bit (0xC000 :: u32) n \<longleftrightarrow> n = 14 \<or> n = 15"
  "bit (0x2000 :: u32) n \<longleftrightarrow> n = 13"
proof -
  have m: "(3 :: u32) = mask 2" "(0x1FFC :: u32) = push_bit 2 (mask 11)" "(0xC000 :: u32) = push_bit 14 (mask 2)" "(0x2000 :: u32) = push_bit 13 1"
    by (simp_all add: mask_eq_exp_minus_1)
  show "bit (3 :: u32) n \<longleftrightarrow> n < 2" unfolding m(1) by (auto simp: bit_mask_iff)
  show "bit (0x1FFC :: u32) n \<longleftrightarrow> 2 \<le> n \<and> n < 13" unfolding m(2) by (auto simp: bit_simps)
  show "bit (0xC000 :: u32) n \<longleftrightarrow> n = 14 \<or> n = 15" unfolding m(3) by (auto simp: bit_simps)
  show "bit (0x2000 :: u32) n \<longleftrightarrow> n = 13" unfolding m(4) bit_push_bit_iff bit_1_iff by auto
qed

text \<open>What the code reads from and writes to the word.\<close>

lemma word_state:
  assumes "tid < 2 ^ 16" "c < 2 ^ 11" "s < 2 ^ 2" "init_ok init"
  shows "mutex_word tid init c s AND 3 = of_nat s"
proof (rule bit_word_eqI)
  show "bit (mutex_word tid init c s AND 3) n = bit (of_nat s :: u32) n" if "n < LENGTH(32)" for n
    using that nat_bit_less [OF _ assms(3), of n] by (auto simp: bit_and_iff mask_bits mutex_word_bit [OF assms] bit_of_nat_iff simp del: bit_numeral_word_iff)
qed

lemma word_counter:
  assumes "tid < 2 ^ 16" "c < 2 ^ 11" "s < 2 ^ 2" "init_ok init"
  shows "mutex_word tid init c s AND 0x1FFC = of_nat c * 4"
proof -
  have "mutex_word tid init c s AND 0x1FFC = push_bit 2 (of_nat c)"
  proof (rule bit_word_eqI)
    show "bit (mutex_word tid init c s AND 0x1FFC) n = bit (push_bit 2 (of_nat c) :: u32) n" if "n < LENGTH(32)" for n
      using that nat_bit_less [OF _ assms(2), of "n - 2"]
      by (auto simp: bit_and_iff mask_bits mutex_word_bit [OF assms] bit_push_bit_iff bit_of_nat_iff simp del: bit_numeral_word_iff)
  qed
  then show ?thesis by (simp add: push_bit_eq_mult)
qed

lemma word_type:
  assumes "tid < 2 ^ 16" "c < 2 ^ 11" "s < 2 ^ 2" "init_ok init"
  shows "mutex_word tid init c s AND 0xC000 = init AND 0xC000" "mutex_word tid init c s AND 0x2000 = init AND 0x2000"
  by (rule bit_word_eqI, auto simp: bit_and_iff mask_bits mutex_word_bit [OF assms] simp del: bit_numeral_word_iff)+

lemma word_owner:
  assumes "tid < 2 ^ 16" "c < 2 ^ 11" "s < 2 ^ 2" "init_ok init"
  shows "MUTEX_OWNER_FROM_BITS (mutex_word tid init c s) = tid"
proof -
  have "FIELD_FROM_BITS (mutex_word tid init c s) 16 16 = of_nat tid"
  proof (rule bit_word_eqI)
    show "bit (FIELD_FROM_BITS (mutex_word tid init c s) 16 16) n = bit (of_nat tid :: u32) n" if "n < LENGTH(32)" for n
      using that nat_bit_less [OF _ assms(1), of n] by (auto simp: FIELD_FROM_BITS_def bit_simps mutex_word_bit [OF assms])
  qed
  then show ?thesis using assms(1) by (simp add: MUTEX_OWNER_FROM_BITS_def unat_of_nat)
qed

lemma init_type_shared: "init_ok init \<Longrightarrow> (init AND 0xC000) OR (init AND 0x2000) = init"
proof (rule bit_word_eqI)
  fix n assume "init_ok init"
  then have "bit init n \<longrightarrow> n = 13 \<or> n = 14 \<or> n = 15" by (auto simp: init_ok_def)
  then show "bit ((init AND 0xC000) OR (init AND 0x2000)) n = bit init n" by (auto simp: bit_and_iff bit_or_iff mask_bits simp del: bit_numeral_word_iff)
qed

lemma word_make:
  assumes "tid < 2 ^ 16" "s < 2 ^ 2" "init_ok init"
  shows "MUTEX_OWNER_TO_BITS tid OR init OR of_nat s = mutex_word tid init 0 s"
proof -
  have "MUTEX_OWNER_TO_BITS tid = push_bit 16 (of_nat tid)"
    unfolding MUTEX_OWNER_TO_BITS_def FIELD_TO_BITS_def
    by (rule bit_word_eqI) (use nat_bit_less [OF _ assms(1)] in \<open>auto simp: bit_simps\<close>)
  then show ?thesis using mutex_word_or [OF assms(1) _ assms(2,3), of 0] by (simp add: or.assoc)
qed

lemma word_flip:
  assumes "tid < 2 ^ 16" "c < 2 ^ 11" "init_ok init"
  shows "mutex_word tid init c 1 XOR 3 = mutex_word tid init c 2"
proof (rule bit_word_eqI)
  have two: "bit (2 :: nat) n \<longleftrightarrow> n = 1" and one: "bit (1 :: nat) n \<longleftrightarrow> n = 0" for n
    using bit_exp_iff [of 1 n, where 'a = nat] by (simp_all add: bit_1_iff del: One_nat_def)
  show "bit (mutex_word tid init c 1 XOR 3) n = bit (mutex_word tid init c 2) n" for n
    using mutex_word_bit [OF assms(1,2) _ assms(3), of 1 n] mutex_word_bit [OF assms(1,2) _ assms(3), of 2 n]
    by (auto simp: bit_xor_iff mask_bits one two simp del: bit_numeral_word_iff One_nat_def)
qed

lemma of_nat_u32_inject: "(of_nat m :: u32) = of_nat n \<longleftrightarrow> m = n" if "m < 2 ^ 32" "n < 2 ^ 32"
  using that by (simp add: word_of_nat_eq_iff take_bit_nat_eq_self)

lemma word_inject:
  assumes "tid < 2 ^ 16" "c < 2 ^ 11" "s < 2 ^ 2" "init_ok init" "tid' < 2 ^ 16" "c' < 2 ^ 11" "s' < 2 ^ 2"
  shows "mutex_word tid init c s = mutex_word tid' init c' s' \<longleftrightarrow> tid = tid' \<and> c = c' \<and> s = s'"
proof
  assume e: "mutex_word tid init c s = mutex_word tid' init c' s'"
  have "tid = tid'" using word_owner [OF assms(1-4)] word_owner [OF assms(5-7) assms(4)] e by simp
  moreover have "of_nat s = (of_nat s' :: u32)" using word_state [OF assms(1-4)] word_state [OF assms(5-7) assms(4)] e by simp
  then have "s = s'" using assms(3,7) by (simp add: of_nat_u32_inject)
  moreover have "of_nat (c * 4) = (of_nat (c' * 4) :: u32)"
    using word_counter [OF assms(1-4)] word_counter [OF assms(5-7) assms(4)] e by simp
  then have "c * 4 = c' * 4" by (subst (asm) of_nat_u32_inject) (use assms in simp_all)
  ultimately show "tid = tid' \<and> c = c' \<and> s = s'" by simp
qed simp

lemma word_plus: "mutex_word tid init c s + 4 = mutex_word tid init (c + 1) s"
  by (simp add: mutex_word_def algebra_simps)

lemma word_minus: "0 < c \<Longrightarrow> mutex_word tid init c s - 4 = mutex_word tid init (c - 1) s"
  by (cases c) (simp_all add: mutex_word_def algebra_simps)

section \<open>The invariant\<close>

text \<open>The constants with numbers in place of the field macros.\<close>

lemmas mutex_codes = field_consts MUTEX_STATE_BITS_IS_LOCKED_UNCONTENDED_def MUTEX_STATE_BITS_IS_LOCKED_CONTENDED_def
  MUTEX_STATE_BITS_FLIP_CONTENTION_def MUTEX_COUNTER_BITS_WILL_OVERFLOW_def MUTEX_COUNTER_BITS_IS_ZERO_def

definition is_normal :: "u32 \<Rightarrow> bool" where
  "is_normal init \<longleftrightarrow> init AND MUTEX_TYPE_MASK = MUTEX_TYPE_BITS_NORMAL"

definition is_recursive :: "u32 \<Rightarrow> bool" where
  "is_recursive init \<longleftrightarrow> init AND MUTEX_TYPE_MASK = MUTEX_TYPE_BITS_RECURSIVE"

definition tid_ok :: "nat \<Rightarrow> bool" where
  "tid_ok t \<longleftrightarrow> 0 < t \<and> t < 2 ^ 16"

text \<open>A word of a held mutex: for a normal mutex only the state is used.\<close>

definition held_word :: "u32 \<Rightarrow> nat \<Rightarrow> nat \<Rightarrow> nat \<Rightarrow> u32" where
  "held_word init t d s = (if is_normal init then mutex_word 0 init 0 s else mutex_word t init (d - 1) s)"

text \<open>The word says whether and by whom the mutex is held, and how often.\<close>

definition held_by :: "u32 \<Rightarrow> (nat \<Rightarrow> nat) \<Rightarrow> u32 \<Rightarrow> nat \<Rightarrow> bool" where
  "held_by init D v t \<longleftrightarrow> tid_ok t \<and> 0 < D t \<and> (\<forall>u. u \<noteq> t \<longrightarrow> D u = 0) \<and> D t \<le> (if is_recursive init then 2048 else 1) \<and>
     (\<exists>s. (s = 1 \<or> s = 2) \<and> v = held_word init t (D t) s)"

definition lock_word :: "u32 \<Rightarrow> (nat \<Rightarrow> nat) \<Rightarrow> u32 \<Rightarrow> bool" where
  "lock_word init D v \<longleftrightarrow> (v = init \<and> (\<forall>u. D u = 0)) \<or> (\<exists>t. held_by init D v t)"

text \<open>A word that was read earlier, with state 1 or 2 if the mutex was held then.\<close>

definition seen_word :: "u32 \<Rightarrow> nat set \<Rightarrow> u32 \<Rightarrow> bool" where
  "seen_word init states m \<longleftrightarrow> (\<exists>t c s. t < 2 ^ 16 \<and> c < 2 ^ 11 \<and> s \<in> states \<and> m = mutex_word t init c s)"

definition own_word :: "u32 \<Rightarrow> nat \<Rightarrow> nat \<Rightarrow> u32 \<Rightarrow> bool" where
  "own_word init t d m \<longleftrightarrow> (\<exists>s. (s = 1 \<or> s = 2) \<and> m = mutex_word t init (d - 1) s)"

fun lock_pc_ok :: "u32 \<Rightarrow> nat \<Rightarrow> lock_pc \<Rightarrow> bool" where
  "lock_pc_ok init d Lock_load \<longleftrightarrow> True"
| "lock_pc_ok init d (Lock_quick b) \<longleftrightarrow> b = init \<and> \<not> is_normal init \<and> d = 0"
| "lock_pc_ok init d (Lock_reload b) \<longleftrightarrow> b = init \<and> \<not> is_normal init \<and> d = 0"
| "lock_pc_ok init d (Lock_loop m b) \<longleftrightarrow> b = init \<and> \<not> is_normal init \<and> d = 0 \<and> (m = init \<or> seen_word init {1, 2} m)"
| "lock_pc_ok init d (Lock_wait m b) \<longleftrightarrow> b = init \<and> \<not> is_normal init \<and> d = 0 \<and> seen_word init {2} m"
| "lock_pc_ok init d (Lock_asleep b) \<longleftrightarrow> b = init \<and> \<not> is_normal init \<and> d = 0"

fun unlock_pc_ok :: "u32 \<Rightarrow> nat \<Rightarrow> nat \<Rightarrow> unlock_pc \<Rightarrow> bool" where
  "unlock_pc_ok init t d Unlock_load \<longleftrightarrow> (is_normal init \<longrightarrow> 0 < d)"
| "unlock_pc_ok init t d (Unlock_dec m) \<longleftrightarrow> is_recursive init \<and> 1 < d \<and> own_word init t d m"
| "unlock_pc_ok init t d Unlock_dec_reload \<longleftrightarrow> is_recursive init \<and> 1 < d"
| "unlock_pc_ok init t d (Unlock_swap b) \<longleftrightarrow> b = init \<and> \<not> is_normal init \<and> d = 1"
| "unlock_pc_ok init t d Unlock_wake \<longleftrightarrow> \<not> is_normal init"

fun timed_pc_ok :: "u32 \<Rightarrow> nat \<Rightarrow> timed_pc \<Rightarrow> bool" where
  "timed_pc_ok init d Timed_load \<longleftrightarrow> True"
| "timed_pc_ok init d (Timed_normal_try sh) \<longleftrightarrow> is_normal init \<and> sh = init"
| "timed_pc_ok init d (Timed_normal_swap sh) \<longleftrightarrow> is_normal init \<and> sh = init"
| "timed_pc_ok init d (Timed_normal_wait sh) \<longleftrightarrow> is_normal init \<and> sh = init"
| "timed_pc_ok init d (Timed_normal_asleep sh) \<longleftrightarrow> is_normal init \<and> sh = init"
| "timed_pc_ok init d (Timed_quick b) \<longleftrightarrow> b = init \<and> \<not> is_normal init \<and> d = 0"
| "timed_pc_ok init d (Timed_reload b) \<longleftrightarrow> b = init \<and> \<not> is_normal init \<and> d = 0"
| "timed_pc_ok init d (Timed_loop m b) \<longleftrightarrow> b = init \<and> \<not> is_normal init \<and> d = 0 \<and> (m = init \<or> seen_word init {1, 2} m)"
| "timed_pc_ok init d (Timed_flip_reload b) \<longleftrightarrow> b = init \<and> \<not> is_normal init \<and> d = 0"
| "timed_pc_ok init d (Timed_wait m b) \<longleftrightarrow> b = init \<and> \<not> is_normal init \<and> d = 0 \<and> seen_word init {2} m"
| "timed_pc_ok init d (Timed_asleep b) \<longleftrightarrow> b = init \<and> \<not> is_normal init \<and> d = 0"

text \<open>What is known at each point of a call of thread \<open>t\<close>, which has \<open>d\<close> levels of the lock.\<close>

fun pc_ok :: "u32 \<Rightarrow> nat \<Rightarrow> nat \<Rightarrow> mutex_pc \<Rightarrow> bool" where
  "pc_ok init t d (Returned e) \<longleftrightarrow> True"
| "pc_ok init t d (NormalLock p sh) \<longleftrightarrow> tid_ok t \<and> is_normal init \<and> sh = init"
| "pc_ok init t d (NormalUnlock p sh) \<longleftrightarrow> tid_ok t \<and> is_normal init \<and> sh = init \<and> (p \<noteq> NU_wake \<longrightarrow> 0 < d)"
| "pc_ok init t d (Increment destroy p) \<longleftrightarrow> tid_ok t \<and> \<not> destroy \<and> is_recursive init \<and> 0 < d \<and> d < 2048 \<and>
     (case p of Incr_try m \<Rightarrow> own_word init t d m | Incr_reload \<Rightarrow> True)"
| "pc_ok init t d (Lock p) \<longleftrightarrow> tid_ok t \<and> lock_pc_ok init d p"
| "pc_ok init t d (Unlock p) \<longleftrightarrow> tid_ok t \<and> unlock_pc_ok init t d p"
| "pc_ok init t d (TryLock destroy p) \<longleftrightarrow> tid_ok t \<and> \<not> destroy \<and>
     (case p of Try_load \<Rightarrow> True | Try_normal sh \<Rightarrow> is_normal init \<and> sh = init
      | Try_quick b \<Rightarrow> b = init \<and> \<not> is_normal init \<and> d = 0)"
| "pc_ok init t d (TimedLock p) \<longleftrightarrow> tid_ok t \<and> timed_pc_ok init d p"
| "pc_ok init t d Destroy_store \<longleftrightarrow> False"
| "pc_ok init t d Destroy_debug \<longleftrightarrow> False"

definition depth_after :: "effect \<Rightarrow> nat \<Rightarrow> (nat \<Rightarrow> nat) \<Rightarrow> nat \<Rightarrow> nat" where
  "depth_after e t D = (case e of Got \<Rightarrow> D(t := D t + 1) | Gave \<Rightarrow> D(t := D t - 1) | _ \<Rightarrow> D)"

definition mutex_inv :: "u32 \<Rightarrow> mutex_state \<Rightarrow> bool" where
  "mutex_inv init S \<longleftrightarrow> lock_word init (m_depth S) (m_value S) \<and> (\<forall>t. pc_ok init t (m_depth S t) (m_pc S t)) \<and>
     distinct (m_asleep S) \<and> (\<forall>t. t \<in> set (m_asleep S) \<longleftrightarrow> woken (m_pc S t) \<noteq> None)"

section \<open>Steps of one call\<close>

text \<open>A step of one thread keeps what is known of the word and of the thread, and sleeps as it says.\<close>

definition step_keeps :: "u32 \<Rightarrow> nat \<Rightarrow> (nat \<Rightarrow> nat) \<Rightarrow> mutex_result \<Rightarrow> bool" where
  "step_keeps init t D r \<longleftrightarrow> (case r of (pc, v, e) \<Rightarrow>
     lock_word init (depth_after e t D) v \<and> pc_ok init t (depth_after e t D t) pc \<and> (woken pc \<noteq> None \<longleftrightarrow> e = Sleep))"

text \<open>The values of new mutexes.\<close>

definition init_val :: "u32 \<Rightarrow> bool" where
  "init_val init \<longleftrightarrow> (\<exists>attr. pthread_mutex_init attr = Inr init)"

lemma init_cases:
  assumes "init_val init"
  shows "init \<in> {0, 0x2000, 0x4000, 0x6000, 0x8000, 0xA000}"
  using assms
  by (auto simp: init_val_def pthread_mutex_init_def field_consts Let_def split: option.splits if_splits)

lemma init_val_ok:
  assumes "init_val init"
  shows "init_ok init" "is_normal init \<Longrightarrow> init AND 0x2000 = init" "is_normal init \<or> is_recursive init \<or> init AND 0xC000 = 0x8000"
    "is_recursive init \<Longrightarrow> \<not> is_normal init"
proof -
  have "init AND 0xE000 = init" using init_cases [OF assms] by auto
  then have "bit init n \<Longrightarrow> bit (0xE000 :: u32) n" for n by (metis bit_and_iff)
  moreover have "bit (0xE000 :: u32) n \<longleftrightarrow> 13 \<le> n \<and> n < 16" for n
  proof -
    have m: "(0xE000 :: u32) = push_bit 13 (mask 3)" by (simp add: mask_eq_exp_minus_1)
    show ?thesis unfolding m by (auto simp: bit_simps)
  qed
  ultimately show "init_ok init" by (simp add: init_ok_def)
  show "is_normal init \<Longrightarrow> init AND 0x2000 = init" "is_normal init \<or> is_recursive init \<or> init AND 0xC000 = 0x8000"
    "is_recursive init \<Longrightarrow> \<not> is_normal init"
    using init_cases [OF assms] by (auto simp: is_normal_def is_recursive_def field_consts)
qed

text \<open>Normal mutexes: three values of the word.\<close>

lemma normal_facts:
  assumes "init_val init" and "is_normal init"
  shows "held_word init t d (Suc 0) = init OR 1" "held_word init t d 2 = init OR 2" "init OR 1 \<noteq> init" "init OR 2 \<noteq> init"
    "init OR 1 \<noteq> init OR 2" "(init OR 1) - 1 = init" "(init OR 2) - 1 = init OR 1"
  using init_cases [OF assms(1)] assms(2)
  by (auto simp: is_normal_def field_consts held_word_def mutex_word_def)

lemma normal_lock_word:
  assumes "init_val init" and "is_normal init"
  shows "lock_word init D v \<longleftrightarrow> (v = init \<and> (\<forall>u. D u = 0)) \<or>
    (\<exists>t. tid_ok t \<and> D t = 1 \<and> (\<forall>u. u \<noteq> t \<longrightarrow> D u = 0) \<and> (v = init OR 1 \<or> v = init OR 2))"
proof -
  have two: "(\<exists>s. (s = 1 \<or> s = 2) \<and> P s) \<longleftrightarrow> P (Suc 0) \<or> P 2" for P by auto
  have "held_by init D v t \<longleftrightarrow> tid_ok t \<and> D t = 1 \<and> (\<forall>u. u \<noteq> t \<longrightarrow> D u = 0) \<and> (v = init OR 1 \<or> v = init OR 2)" for t
    using assms(2) init_val_ok(4) [OF assms(1)] unfolding held_by_def two normal_facts(1,2) [OF assms] by auto
  then show ?thesis unfolding lock_word_def by metis
qed

lemma normal_take:
  assumes "init_val init" "is_normal init" "lock_word init D init" "tid_ok t" "w = init OR 1 \<or> w = init OR 2"
  shows "lock_word init (D(t := D t + 1)) w"
  using assms(3-5) normal_facts [OF assms(1,2)] unfolding normal_lock_word [OF assms(1,2)] by auto

lemma normal_lock_keeps:
  assumes I: "init_val init" and p: "pc_ok init t (D t) (NormalLock p sh)" and w: "lock_word init D v" and a: "p \<noteq> NL_asleep"
  shows "step_keeps init t D (normal_lock_step p sh v)"
proof -
  have n: "is_normal init" "sh = init" "tid_ok t" using p by simp_all
  note nt = normal_take [OF I n(1) _ n(3)]
  show ?thesis
    using a w n nt normal_facts [OF I n(1)]
    by (cases p) (auto simp: step_keeps_def mutex_codes futex_wait_def depth_after_def, auto simp: normal_lock_word [OF I n(1)])
qed

lemma normal_unlock_keeps:
  assumes I: "init_val init" and p: "pc_ok init t (D t) (NormalUnlock p sh)" and w: "lock_word init D v"
  shows "step_keeps init t D (normal_unlock_step p sh v)"
proof -
  have n: "is_normal init" "sh = init" "tid_ok t" "p \<noteq> NU_wake \<Longrightarrow> 0 < D t" using p by simp_all
  show ?thesis
  proof (cases "p = NU_wake")
    case False
    then have d: "D t = 1" "\<forall>u. u \<noteq> t \<longrightarrow> D u = 0" "v = init OR 1 \<or> v = init OR 2"
      using n(4) w unfolding normal_lock_word [OF I n(1)] by (metis less_numeral_extra(3))+
    then show ?thesis
      using False n w normal_facts [OF I n(1)]
      by (cases p) (auto simp: step_keeps_def mutex_codes depth_after_def normal_lock_word [OF I n(1)])
  qed (use n w in \<open>simp add: step_keeps_def depth_after_def\<close>)
qed

text \<open>Recursive and error-checking mutexes.\<close>

lemma owned_lock_word:
  "\<not> is_normal init \<Longrightarrow> lock_word init D v \<longleftrightarrow> (v = init \<and> (\<forall>u. D u = 0)) \<or>
    (\<exists>t. tid_ok t \<and> 0 < D t \<and> (\<forall>u. u \<noteq> t \<longrightarrow> D u = 0) \<and> D t \<le> (if is_recursive init then 2048 else 1) \<and> own_word init t (D t) v)"
  by (simp add: lock_word_def held_by_def held_word_def own_word_def)

lemma init_word: "init = mutex_word 0 init 0 0"
  by (simp add: mutex_word_def)

lemma own_seen: "tid_ok t \<Longrightarrow> d \<le> 2048 \<Longrightarrow> own_word init t d m \<Longrightarrow> seen_word init {1, 2} m"
  unfolding own_word_def seen_word_def tid_ok_def
  by (elim exE conjE) (rule exI [of _ t], rule exI [of _ "d - 1"], auto)

lemma seen_fields:
  assumes "init_val init" "seen_word init A m" "A \<subseteq> {1, 2}"
  shows "m AND 0xC000 = init AND 0xC000" "m AND 0x2000 = init AND 0x2000" "m \<noteq> init"
    "A = {2} \<Longrightarrow> m AND 3 = 2" "m AND 3 \<noteq> 1 \<Longrightarrow> seen_word init {2} m" "m AND 3 \<noteq> 1 \<Longrightarrow> m AND 3 = 2"
proof -
  note ok = init_val_ok(1) [OF assms(1)]
  obtain t c s where m: "t < 2 ^ 16" "c < 2 ^ 11" "s \<in> A" "m = mutex_word t init c s" using assms(2) by (auto simp: seen_word_def)
  have s: "s < 2 ^ 2" "s \<noteq> 0" using m(3) assms(3) by auto
  show "m AND 0xC000 = init AND 0xC000" "m AND 0x2000 = init AND 0x2000" using word_type [OF m(1,2) s(1) ok] m(4) by simp_all
  show "m \<noteq> init" using word_inject [OF m(1,2) s(1) ok, of 0 0 0] s(2) m(4) by (metis init_word zero_less_numeral zero_less_power)
  have st: "m AND 3 = of_nat s" using word_state [OF m(1,2) s(1) ok] m(4) by simp
  show "A = {2} \<Longrightarrow> m AND 3 = 2" using st m(3) by simp
  have "m AND 3 \<noteq> 1 \<Longrightarrow> s = 2" using st m(3) assms(3) by auto
  then show "m AND 3 \<noteq> 1 \<Longrightarrow> seen_word init {2} m" "m AND 3 \<noteq> 1 \<Longrightarrow> m AND 3 = 2" using m st by (auto simp: seen_word_def)
qed

lemma owned_cases:
  assumes "\<not> is_normal init" "lock_word init D v"
  obtains (free) "v = init" "\<forall>u. D u = 0"
  | (held) h s where "tid_ok h" "0 < D h" "\<forall>u. u \<noteq> h \<longrightarrow> D u = 0" "D h \<le> (if is_recursive init then 2048 else 1)" "D h - 1 < 2 ^ 11"
      "s = 1 \<or> s = 2" "s < 2 ^ 2" "v = mutex_word h init (D h - 1) s"
proof -
  consider "v = init" "\<forall>u. D u = 0"
    | h where "tid_ok h" "0 < D h" "\<forall>u. u \<noteq> h \<longrightarrow> D u = 0" "D h \<le> (if is_recursive init then 2048 else 1)" "own_word init h (D h) v"
    using assms unfolding owned_lock_word [OF assms(1)] by blast
  then show thesis
  proof cases
    case 1
    then show thesis by (rule free)
  next
    case 2
    then obtain s where "s = 1 \<or> s = 2" "v = mutex_word h init (D h - 1) s" by (auto simp: own_word_def)
    moreover have "D h - 1 < 2 ^ 11" using 2(4) by (auto split: if_splits)
    ultimately show thesis using held [of h s] 2 by auto
  qed
qed

lemma load_fields:
  assumes I: "init_val init" and w: "lock_word init D v"
  shows "v AND 0xC000 = init AND 0xC000" "v AND 0x2000 = init AND 0x2000" "(v AND 0xC000) OR (v AND 0x2000) = init"
proof -
  note ok = init_val_ok(1) [OF I]
  show t: "v AND 0xC000 = init AND 0xC000" "v AND 0x2000 = init AND 0x2000"
  proof -
    have "v = init \<or> (\<exists>t c s. t < 2 ^ 16 \<and> c < 2 ^ 11 \<and> s < 2 ^ 2 \<and> v = mutex_word t init c s)"
    proof (cases "is_normal init")
      case True
      then consider "v = init" | s where "s = 1 \<or> s = 2" "v = mutex_word 0 init 0 s"
        using w unfolding lock_word_def held_by_def held_word_def by auto
      then show ?thesis
      proof cases
        case (2 s)
        then show ?thesis by (intro disjI2 exI [of _ 0] exI [of _ s]) auto
      qed simp
    next
      case False
      then show ?thesis using w by (rule owned_cases) (auto simp: tid_ok_def)
    qed
    then show "v AND 0xC000 = init AND 0xC000" "v AND 0x2000 = init AND 0x2000" using word_type [OF _ _ _ ok] by auto
  qed
  show "(v AND 0xC000) OR (v AND 0x2000) = init" unfolding t by (rule init_type_shared [OF ok])
qed

lemma load_owned:
  assumes I: "init_val init" and n: "\<not> is_normal init" and w: "lock_word init D v" and t: "tid_ok t"
  shows "t = MUTEX_OWNER_FROM_BITS v \<longleftrightarrow> 0 < D t" "v = init \<or> seen_word init {1, 2} v"
    "0 < D t \<Longrightarrow> own_word init t (D t) v" "0 < D t \<Longrightarrow> v AND 0x1FFC = 0x1FFC \<longleftrightarrow> D t = 2048"
    "0 < D t \<Longrightarrow> v AND 0x1FFC = 0 \<longleftrightarrow> D t = 1" "0 < D t \<Longrightarrow> D t \<le> (if is_recursive init then 2048 else 1)"
proof -
  note ok = init_val_ok(1) [OF I]
  show "t = MUTEX_OWNER_FROM_BITS v \<longleftrightarrow> 0 < D t" using n w
  proof (cases rule: owned_cases)
    case free
    then show ?thesis using word_owner [OF _ _ _ ok, of 0 0 0] t by (simp add: init_word [symmetric] tid_ok_def)
  next
    case (held h s)
    then have "MUTEX_OWNER_FROM_BITS v = h" using word_owner [OF _ held(5,7) ok, of h] by (simp add: tid_ok_def)
    then show ?thesis using held by auto
  qed
  show "v = init \<or> seen_word init {1, 2} v" using n w
  proof (cases rule: owned_cases)
    case (held h s)
    then show ?thesis using own_seen [of h "D h" init v] by (auto simp: own_word_def split: if_splits)
  qed simp
  assume d: "0 < D t"
  obtain s where s: "D t \<le> (if is_recursive init then 2048 else 1)" "D t - 1 < 2 ^ 11" "s = 1 \<or> s = 2" "s < 2 ^ 2" "v = mutex_word t init (D t - 1) s"
    using n w
  proof (cases rule: owned_cases)
    case (held h s)
    then have "h = t" using d by (metis less_numeral_extra(3))
    then show thesis using that held by blast
  qed (use d in simp)
  show "own_word init t (D t) v" "D t \<le> (if is_recursive init then 2048 else 1)" using s by (auto simp: own_word_def)
  have c: "v AND 0x1FFC = of_nat ((D t - 1) * 4)" using word_counter [OF _ s(2,4) ok, of t] t s(5) by (simp add: tid_ok_def)
  have inj: "of_nat ((D t - 1) * 4) = (of_nat m :: u32) \<longleftrightarrow> (D t - 1) * 4 = m" if "m < 2 ^ 32" for m
    using of_nat_u32_inject [OF _ that, of "(D t - 1) * 4"] s(2) by simp
  show "v AND 0x1FFC = 0x1FFC \<longleftrightarrow> D t = 2048" unfolding c using inj [of "0x1FFC"] d s(2) by auto
  show "v AND 0x1FFC = 0 \<longleftrightarrow> D t = 1" unfolding c using inj [of 0] d s(2) by auto
qed

lemma only_holder:
  assumes "lock_word init D v" and "0 < D t"
  shows "\<forall>u. u \<noteq> t \<longrightarrow> D u = 0"
proof -
  obtain h where "\<forall>u. u \<noteq> h \<longrightarrow> D u = 0" using assms unfolding lock_word_def held_by_def by auto
  moreover from this have "h = t" using assms(2) by (metis less_numeral_extra(3))
  ultimately show ?thesis by simp
qed

lemma owned_free:
  assumes I: "init_val init" and n: "\<not> is_normal init" and w: "lock_word init D init"
  shows "D u = 0"
  using n w
proof (cases rule: owned_cases)
  case (held h s)
  then have "init = init \<and> h < 2 ^ 16" by (simp add: tid_ok_def)
  then have "seen_word init {1, 2} init" using held unfolding seen_word_def by blast
  then show ?thesis using seen_fields(3) [OF I, of "{1, 2}" init] by simp
qed simp

lemma owned_take:
  assumes I: "init_val init" and n: "\<not> is_normal init" and w: "lock_word init D init" and t: "tid_ok t" and s: "s = 1 \<or> s = 2"
  shows "lock_word init (D(t := D t + 1)) (MUTEX_OWNER_TO_BITS t OR init OR of_nat s)"
proof -
  have "MUTEX_OWNER_TO_BITS t OR init OR of_nat s = mutex_word t init 0 s"
    using s t by (intro word_make init_val_ok(1) [OF I]) (auto simp: tid_ok_def)
  then have "own_word init t 1 (MUTEX_OWNER_TO_BITS t OR init OR of_nat s)" using s by (auto simp: own_word_def)
  then show ?thesis unfolding owned_lock_word [OF n] using owned_free [OF I n w] t by (intro disjI2 exI [of _ t]) simp
qed

lemma owned_again:
  assumes I: "init_val init" and n: "\<not> is_normal init" and r: "is_recursive init" and w: "lock_word init D v" and t: "tid_ok t"
    and d: "0 < D t" "D t < 2048"
  shows "lock_word init (D(t := D t + 1)) (v + 4)"
proof -
  obtain s where s: "s = 1 \<or> s = 2" "v = mutex_word t init (D t - 1) s"
    using load_owned(3) [OF I n w t d(1)] by (auto simp: own_word_def)
  have "v + 4 = mutex_word t init (D t + 1 - 1) s" using word_plus [of t init "D t - 1" s] d(1) s(2) by simp
  then have o: "own_word init t (D t + 1) (v + 4)" using s(1) unfolding own_word_def by blast
  have "\<forall>u. u \<noteq> t \<longrightarrow> D u = 0" by (rule only_holder [OF w]) (use d in simp)
  then show ?thesis unfolding owned_lock_word [OF n] using t r d o by (intro disjI2 exI [of _ t]) simp
qed

lemma owned_less:
  assumes I: "init_val init" and n: "\<not> is_normal init" and w: "lock_word init D v" and t: "tid_ok t" and d: "1 < D t"
  shows "lock_word init (D(t := D t - 1)) (v - 4)"
proof -
  have d0: "0 < D t" using d by simp
  obtain s where s: "s = 1 \<or> s = 2" "v = mutex_word t init (D t - 1) s"
    using load_owned(3) [OF I n w t d0] by (auto simp: own_word_def)
  have "v - 4 = mutex_word t init (D t - 1 - 1) s" using word_minus [of "D t - 1" t init s] d s(2) by simp
  then have o: "own_word init t (D t - 1) (v - 4)" using s(1) unfolding own_word_def by blast
  have "\<forall>u. u \<noteq> t \<longrightarrow> D u = 0" by (rule only_holder [OF w]) (use d in simp)
  moreover have "D t - 1 \<le> (if is_recursive init then 2048 else 1)" using load_owned(6) [OF I n w t d0] d by auto
  ultimately show ?thesis unfolding owned_lock_word [OF n] using t d o by (intro disjI2 exI [of _ t]) simp
qed

lemma owned_release:
  assumes I: "init_val init" and n: "\<not> is_normal init" and w: "lock_word init D v" and t: "tid_ok t" and d: "D t = 1"
  shows "lock_word init (D(t := D t - 1)) init"
proof -
  have "\<forall>u. u \<noteq> t \<longrightarrow> D u = 0" by (rule only_holder [OF w]) (use d in simp)
  then show ?thesis unfolding owned_lock_word [OF n] using d by simp
qed

lemma owned_flip:
  assumes I: "init_val init" and n: "\<not> is_normal init" and w: "lock_word init D v" and s: "v AND 3 = 1"
  shows "lock_word init D (v XOR 3)" "seen_word init {2} (v XOR 3)"
proof -
  have z: "init AND 3 = 0" using init_cases [OF I] by auto
  obtain h where h: "tid_ok h" "0 < D h" "\<forall>u. u \<noteq> h \<longrightarrow> D u = 0" "D h \<le> (if is_recursive init then 2048 else 1)" "D h - 1 < 2 ^ 11"
      "v = mutex_word h init (D h - 1) 1"
    using n w
  proof (cases rule: owned_cases)
    case (held h s)
    have "h < 2 ^ 16" using held(1) by (simp add: tid_ok_def)
    then have "of_nat s = (of_nat 1 :: u32)" using word_state [OF _ held(5,7) init_val_ok(1) [OF I], of h] held(8) s by simp
    then have "s = 1" using held(6) of_nat_u32_inject [of s 1] by auto
    then show thesis using that held by blast
  qed (use s z in simp)
  have t: "h < 2 ^ 16" using h(1) by (simp add: tid_ok_def)
  have x: "v XOR 3 = mutex_word h init (D h - 1) 2" using word_flip [OF t h(5) init_val_ok(1) [OF I]] h(6) by simp
  then have "own_word init h (D h) (v XOR 3)" by (auto simp: own_word_def)
  then show "lock_word init D (v XOR 3)" unfolding owned_lock_word [OF n] using h by blast
  show "seen_word init {2} (v XOR 3)" unfolding x seen_word_def using t h(5) by blast
qed

lemma enter_increment:
  assumes I: "init_val init" and n: "\<not> is_normal init" and w: "lock_word init D v" and t: "tid_ok t" and d: "0 < D t"
  shows "pc_ok init t (D t) (recursive_increment False v (v AND MUTEX_TYPE_MASK)) \<and>
    woken (recursive_increment False v (v AND MUTEX_TYPE_MASK)) = None"
proof (cases "is_recursive init")
  case True
  then have "v AND MUTEX_TYPE_MASK = MUTEX_TYPE_BITS_RECURSIVE"
    using load_fields(1) [OF I w] by (simp add: is_recursive_def field_consts)
  moreover have "D t \<le> 2048" "own_word init t (D t) v" "v AND 0x1FFC = 0x1FFC \<longleftrightarrow> D t = 2048"
    using load_owned [OF I n w t] d True by auto
  ultimately show ?thesis using t d True by (auto simp: recursive_increment_def mutex_codes try_end_def)
next
  case False
  then have "v AND MUTEX_TYPE_MASK = MUTEX_TYPE_BITS_ERRORCHECK"
    using load_fields(1) [OF I w] init_val_ok(3) [OF I] n by (simp add: field_consts)
  then show ?thesis by (simp add: recursive_increment_def try_end_def EDEADLK_def)
qed

lemma increment_keeps:
  assumes I: "init_val init" and p: "pc_ok init t (D t) (Increment destroy p)" and w: "lock_word init D v"
  shows "step_keeps init t D (increment_step destroy p v)"
proof -
  have f: "tid_ok t" "\<not> destroy" "is_recursive init" "0 < D t" "D t < 2048" using p by simp_all
  have n: "\<not> is_normal init" using init_val_ok(4) [OF I f(3)] .
  show ?thesis
  proof (cases p)
    case (Incr_try m)
    then show ?thesis using f w owned_again [OF I n f(3) w f(1) f(4,5)] p
      by (auto simp: step_keeps_def depth_after_def try_end_def field_consts)
  next
    case Incr_reload
    then show ?thesis using f w load_owned(3) [OF I n w f(1) f(4)] by (simp add: step_keeps_def depth_after_def)
  qed
qed

text \<open>The first read of a call.\<close>

lemma load_step:
  assumes I: "init_val init" and w: "lock_word init D v" and t: "tid_ok t"
  shows "v AND MUTEX_TYPE_MASK = MUTEX_TYPE_BITS_NORMAL \<longleftrightarrow> is_normal init" "(v AND MUTEX_TYPE_MASK) OR (v AND MUTEX_SHARED_MASK) = init"
    "is_normal init \<Longrightarrow> v AND MUTEX_SHARED_MASK = init"
    "\<not> is_normal init \<Longrightarrow> t = MUTEX_OWNER_FROM_BITS v \<longleftrightarrow> 0 < D t"
  using load_fields [OF I w] load_owned(1) [OF I _ w t] init_val_ok(2) [OF I]
  by (simp_all add: is_normal_def field_consts)

lemma try_keeps:
  assumes I: "init_val init" and p: "pc_ok init t (D t) (TryLock destroy p)" and w: "lock_word init D v"
  shows "step_keeps init t D (try_step t destroy p v)"
proof -
  have t: "tid_ok t" "\<not> destroy" using p by simp_all
  note l = load_step [OF I w t(1)]
  show ?thesis
  proof (cases p)
    case Try_load
    show ?thesis
    proof (cases "is_normal init")
      case True
      then show ?thesis using Try_load t w l by (simp add: step_keeps_def depth_after_def)
    next
      case False
      then show ?thesis using Try_load t w l enter_increment [OF I False w t(1)]
        by (auto simp: step_keeps_def depth_after_def field_consts)
    qed
  next
    case (Try_normal sh)
    then have n: "is_normal init" "sh = init" using p by simp_all
    show ?thesis using normal_take [OF I n(1) _ t(1), of D "init OR 1"] Try_normal n t w
      by (auto simp: step_keeps_def depth_after_def field_consts try_end_def)
  next
    case (Try_quick b)
    then have n: "\<not> is_normal init" "b = init" "D t = 0" using p by simp_all
    show ?thesis using owned_take [OF I n(1) _ t(1), of D 1] Try_quick n t w
      by (auto simp: step_keeps_def depth_after_def field_consts try_end_def)
  qed
qed

lemma unlock_keeps:
  assumes I: "init_val init" and p: "pc_ok init t (D t) (Unlock p)" and w: "lock_word init D v"
  shows "step_keeps init t D (unlock_step t p v)"
proof -
  have t: "tid_ok t" and u: "unlock_pc_ok init t (D t) p" using p by simp_all
  note l = load_step [OF I w t]
  show ?thesis
  proof (cases "p = Unlock_load \<and> is_normal init")
    case True
    then show ?thesis using t w l u by (simp add: step_keeps_def depth_after_def)
  next
    case False
    then have n: "\<not> is_normal init" using u init_val_ok(4) [OF I] by (cases p) auto
    note o = load_owned [OF I n w t]
    show ?thesis
    proof (cases p)
      case Unlock_load
      then show ?thesis using t w l n o
        by (auto simp: step_keeps_def depth_after_def mutex_codes is_normal_def split: if_splits)
    next
      case (Unlock_dec m)
      then show ?thesis using t w u owned_less [OF I n w t] by (auto simp: step_keeps_def depth_after_def field_consts)
    next
      case Unlock_dec_reload
      then show ?thesis using t w u o(3) by (simp add: step_keeps_def depth_after_def)
    next
      case (Unlock_swap b)
      then show ?thesis using t w u n owned_release [OF I n w t] by (auto simp: step_keeps_def depth_after_def)
    next
      case Unlock_wake
      then show ?thesis using t w u by (simp add: step_keeps_def depth_after_def)
    qed
  qed
qed

lemma normal_contend:
  assumes "init_val init" "is_normal init" "lock_word init D v" "v \<noteq> init"
  shows "lock_word init D (init OR 2)"
  using assms(3,4) unfolding normal_lock_word [OF assms(1,2)] by auto

text \<open>The loops of the lock and of the timed lock.\<close>

lemma lock_keeps:
  assumes I: "init_val init" and p: "pc_ok init t (D t) (Lock p)" and w: "lock_word init D v" and a: "woken (Lock p) = None"
  shows "step_keeps init t D (lock_step t p v)"
proof -
  have t: "tid_ok t" and u: "lock_pc_ok init (D t) p" using p by simp_all
  note l = load_step [OF I w t]
  show ?thesis
  proof (cases "p = Lock_load \<and> is_normal init")
    case True
    then show ?thesis using t w l by (simp add: step_keeps_def depth_after_def)
  next
    case False
    then have n: "\<not> is_normal init" using u by (cases p) auto
    note o = load_owned [OF I n w t]
    show ?thesis
    proof (cases p)
      case Lock_load
      then show ?thesis using t w l n o(2) enter_increment [OF I n w t]
        by (auto simp: step_keeps_def depth_after_def Let_def)
    next
      case (Lock_quick b)
      then show ?thesis using t w u owned_take [OF I n _ t, of D 1] by (auto simp: step_keeps_def depth_after_def field_consts)
    next
      case (Lock_reload b)
      then show ?thesis using t w u o(2) by (auto simp: step_keeps_def depth_after_def)
    next
      case (Lock_loop m b)
      show ?thesis
      proof (cases "m = init")
        case True
        then show ?thesis using Lock_loop t w u owned_take [OF I n _ t, of D 2] by (auto simp: step_keeps_def depth_after_def field_consts)
      next
        case False
        then have "seen_word init {1, 2} m" using Lock_loop u by simp
        then show ?thesis using Lock_loop False t w u owned_flip [OF I n w] seen_fields(5) [OF I, of "{1, 2}" m]
          by (auto simp: step_keeps_def depth_after_def mutex_codes futex_wait_def)
      qed
    next
      case (Lock_wait m b)
      then show ?thesis using t w u by (auto simp: step_keeps_def depth_after_def futex_wait_def)
    next
      case (Lock_asleep b)
      then show ?thesis using a by simp
    qed
  qed
qed

lemma timed_keeps:
  assumes I: "init_val init" and p: "pc_ok init t (D t) (TimedLock p)" and w: "lock_word init D v" and a: "woken (TimedLock p) = None"
  shows "step_keeps init t D (timed_step late t p v)"
proof -
  have t: "tid_ok t" and u: "timed_pc_ok init (D t) p" using p by simp_all
  note l = load_step [OF I w t]
  show ?thesis
  proof (cases "is_normal init")
    case n: True
    show ?thesis
    proof (cases "p = Timed_load")
      case True
      then show ?thesis using t w l n by (simp add: step_keeps_def depth_after_def)
    next
      case False
      then show ?thesis
        using t w u n a normal_take [OF I n _ t, of D "init OR 1"] normal_take [OF I n _ t, of D "init OR 2"] normal_contend [OF I n w]
        by (cases p) (auto simp: step_keeps_def depth_after_def field_consts futex_wait_def)
    qed
  next
    case n: False
    note o = load_owned [OF I n w t]
    show ?thesis
    proof (cases p)
      case Timed_load
      then show ?thesis using t w l n o(2) enter_increment [OF I n w t]
        by (auto simp: step_keeps_def depth_after_def Let_def)
    next
      case (Timed_quick b)
      then show ?thesis using t w u owned_take [OF I n _ t, of D 1] by (auto simp: step_keeps_def depth_after_def field_consts)
    next
      case (Timed_reload b)
      then show ?thesis using t w u o(2) by (auto simp: step_keeps_def depth_after_def)
    next
      case (Timed_flip_reload b)
      have "init AND 3 = 0" using init_cases [OF I] by auto
      then have "v AND 3 = 2 \<Longrightarrow> seen_word init {2} v" using o(2) seen_fields(5) [OF I, of "{1, 2}" v] by auto
      then show ?thesis using Timed_flip_reload t w u o(2) by (auto simp: step_keeps_def depth_after_def mutex_codes)
    next
      case (Timed_loop m b)
      show ?thesis
      proof (cases "m = init")
        case True
        then show ?thesis using Timed_loop t w u owned_take [OF I n _ t, of D 2] by (auto simp: step_keeps_def depth_after_def field_consts)
      next
        case False
        then have "seen_word init {1, 2} m" using Timed_loop u by simp
        then show ?thesis using Timed_loop False t w u owned_flip [OF I n w] seen_fields(5,6) [OF I, of "{1, 2}" m]
          by (auto simp: step_keeps_def depth_after_def mutex_codes futex_wait_def)
      qed
    next
      case (Timed_wait m b)
      then show ?thesis using t w u by (auto simp: step_keeps_def depth_after_def futex_wait_def)
    qed (use u n a in simp_all)
  qed
qed

lemma mutex_step_keeps:
  assumes I: "init_val init" and p: "pc_ok init t (D t) pc" and w: "lock_word init D v" and a: "woken pc = None"
  shows "step_keeps init t D (mutex_step late t pc v)"
proof (cases pc)
  case (NormalLock p' sh)
  then have "p' \<noteq> NL_asleep" using a by auto
  then show ?thesis using normal_lock_keeps [OF I _ w, of t p' sh] p by (simp add: mutex_step_def NormalLock)
qed (use assms in \<open>auto simp: mutex_step_def step_keeps_def [of init t D "(Returned _, _)"] depth_after_def
  intro: normal_unlock_keeps increment_keeps try_keeps unlock_keeps lock_keeps timed_keeps\<close>)

lemma word_counter_field:
  assumes "tid < 2 ^ 16" "c < 2 ^ 11" "s < 2 ^ 2" "init_ok init"
  shows "FIELD_FROM_BITS (mutex_word tid init c s) 2 11 = of_nat c"
proof (rule bit_word_eqI)
  show "bit (FIELD_FROM_BITS (mutex_word tid init c s) 2 11) n = bit (of_nat c :: u32) n" if "n < LENGTH(32)" for n
    using that nat_bit_less [OF _ assms(2), of n] by (auto simp: FIELD_FROM_BITS_def bit_simps mutex_word_bit [OF assms])
qed

section \<open>All interleavings\<close>

lemma woken_ok:
  "woken pc = Some pc' \<Longrightarrow> pc_ok init t d pc \<Longrightarrow> pc_ok init t d pc' \<and> woken pc' = None"
  by (cases pc rule: woken.cases) auto

lemma expired_ok:
  "expired pc = Some pc' \<Longrightarrow> pc_ok init t d pc \<Longrightarrow> pc_ok init t d pc' \<and> woken pc' = None"
  by (cases pc rule: expired.cases) auto

lemma leave_futex_inv:
  assumes "mutex_inv init S" and "pc_ok init u (m_depth S u) pc \<and> woken pc = None"
  shows "mutex_inv init (leave_futex u pc S)"
  using assms unfolding mutex_inv_def leave_futex_def by auto

lemma effect_inv:
  assumes inv: "mutex_inv init S" and a: "t \<notin> set (m_asleep S)"
    and k: "step_keeps init t (m_depth S) (pc, v, e)"
    and S': "apply_effect t e w (S\<lparr>m_value := v, m_pc := (m_pc S)(t := pc)\<rparr>) = Some S'"
  shows "mutex_inv init S'"
proof -
  have k': "lock_word init (depth_after e t (m_depth S)) v" "pc_ok init t (depth_after e t (m_depth S) t) pc" "woken pc \<noteq> None \<longleftrightarrow> e = Sleep"
    using k by (simp_all add: step_keeps_def)
  have i: "\<And>u. pc_ok init u (m_depth S u) (m_pc S u)" "distinct (m_asleep S)" "\<And>u. u \<in> set (m_asleep S) \<longleftrightarrow> woken (m_pc S u) \<noteq> None"
    using inv by (simp_all add: mutex_inv_def)
  let ?S = "S\<lparr>m_value := v, m_pc := (m_pc S)(t := pc)\<rparr>"
  have quiet: "mutex_inv init (?S\<lparr>m_depth := depth_after e t (m_depth S)\<rparr>)" if "e \<noteq> Sleep"
  proof -
    have "pc_ok init u (depth_after e t (m_depth S) u) (m_pc S u)" if "u \<noteq> t" for u
      using i(1) [of u] that by (simp add: depth_after_def split: effect.split)
    then show ?thesis using k' i a that by (simp add: mutex_inv_def)
  qed
  show ?thesis
  proof (cases e)
    case Sleep
    then show ?thesis using S' k' i a by (auto simp: apply_effect_def depth_after_def mutex_inv_def split: if_splits)
  next
    case Wake_one
    then have q: "mutex_inv init ?S" using quiet by (simp add: depth_after_def)
    show ?thesis
    proof (cases w)
      case None
      then show ?thesis using S' Wake_one q by (simp add: apply_effect_def split: if_splits)
    next
      case (Some u)
      then obtain pc' where "u \<in> set (m_asleep S)" "woken (m_pc ?S u) = Some pc'" "S' = leave_futex u pc' ?S"
        using S' Wake_one by (auto simp: apply_effect_def split: if_splits)
      then show ?thesis using leave_futex_inv [OF q woken_ok] q by (simp add: mutex_inv_def)
    qed
  qed (use S' quiet in \<open>auto simp: apply_effect_def depth_after_def\<close>)
qed

lemma mutex_next_inv:
  assumes I: "init_val init" and inv: "mutex_inv init S" and c: "client_ok init calls ev S" "Call_destroy \<notin> calls"
    and S': "mutex_next ev S = Some S'"
  shows "mutex_inv init S'"
proof (cases ev)
  case (Enter t call)
  then obtain r where r: "m_pc S t = Returned r" "S' = S\<lparr>m_pc := (m_pc S)(t := call_entry call)\<rparr>"
    using S' by (auto split: mutex_pc.splits)
  have "call \<noteq> Call_destroy" using c Enter by auto
  then have "pc_ok init t (m_depth S t) (call_entry call) \<and> woken (call_entry call) = None"
    using c(1) Enter by (cases call) (auto simp: is_normal_def tid_ok_def)
  moreover have "t \<notin> set (m_asleep S)" using inv r(1) by (simp add: mutex_inv_def)
  ultimately show ?thesis using inv r by (simp add: mutex_inv_def)
next
  case (Run t late w)
  obtain pc v e where st: "mutex_step late t (m_pc S t) (m_value S) = (pc, v, e)" by (metis prod_cases3)
  have a: "t \<notin> set (m_asleep S)" "apply_effect t e w (S\<lparr>m_value := v, m_pc := (m_pc S)(t := pc)\<rparr>) = Some S'"
    using S' Run st by (auto split: if_splits)
  have "step_keeps init t (m_depth S) (mutex_step late t (m_pc S t) (m_value S))"
    using inv a(1) by (intro mutex_step_keeps [OF I]) (simp_all add: mutex_inv_def)
  then show ?thesis using effect_inv [OF inv a(1) _ a(2)] st by simp
next
  case (Interrupt t)
  then obtain pc where "woken (m_pc S t) = Some pc" "S' = leave_futex t pc S" using S' by (auto split: if_splits)
  then show ?thesis using leave_futex_inv [OF inv woken_ok] inv by (simp add: mutex_inv_def)
next
  case (Expire t)
  then obtain pc where "expired (m_pc S t) = Some pc" "S' = leave_futex t pc S" using S' by (auto split: if_splits)
  then show ?thesis using leave_futex_inv [OF inv expired_ok] inv by (simp add: mutex_inv_def)
qed

lemma mutex_reach_inv:
  assumes "mutex_reach init calls S" and "Call_destroy \<notin> calls"
  shows "init_val init \<and> mutex_inv init S"
  using assms
proof (induction rule: mutex_reach.induct)
  case (reach_start attr)
  then show ?case by (auto simp: init_val_def mutex_inv_def mutex_start_def lock_word_def)
next
  case (reach_step S ev S')
  then show ?case using mutex_next_inv by blast
qed

end
