(* ===== verification/PthreadMutexWake.thy ===== *)
theory PthreadMutexWake
  imports PthreadMutexProof
begin

text \<open>
  Mutual exclusion, the absence of lost wake-ups over all interleavings of the threads, the wake-up
  that the timed lock of a recursive mutex loses, and what \<open>trylock\<close>, \<open>destroy\<close> and \<open>unlock\<close> answer.
\<close>

unbundle bit_operations_syntax

section \<open>Mutual exclusion\<close>

text \<open>
  C1: mutual exclusion. Whatever the interleaving of locks, timed locks, trylocks and unlocks of any
  number of threads, with interrupts and timeouts of the sleepers, on a mutex of any type, at most
  one thread has the lock. The word always says so: the state bits are not 0 exactly when some thread
  has the lock, the type and the shared flag are those of the start, and in a recursive or
  error-checking mutex the owner field is that thread and the counter its levels less one, at most 2047.
\<close>

theorem mutex_exclusion:
  assumes "mutex_reach init calls S" and "Call_destroy \<notin> calls"
  shows "(\<forall>t u. 0 < m_depth S t \<and> 0 < m_depth S u \<longrightarrow> t = u) \<and>
    ((m_value S AND MUTEX_STATE_MASK) \<noteq> 0 \<longleftrightarrow> (\<exists>t. 0 < m_depth S t)) \<and>
    m_value S AND (MUTEX_TYPE_MASK OR MUTEX_SHARED_MASK) = init \<and>
    (\<forall>t. 0 < m_depth S t \<and> init AND MUTEX_TYPE_MASK \<noteq> MUTEX_TYPE_BITS_NORMAL \<longrightarrow>
      MUTEX_OWNER_FROM_BITS (m_value S) = t \<and> FIELD_FROM_BITS (m_value S) 2 11 = of_nat (m_depth S t - 1) \<and> m_depth S t \<le> 2048)"
proof -
  have I: "init_val init" and w: "lock_word init (m_depth S) (m_value S)" using mutex_reach_inv [OF assms] by (simp_all add: mutex_inv_def)
  note ok = init_val_ok(1) [OF I]
  have one: "t = u" if "0 < m_depth S t" "0 < m_depth S u" for t u using only_holder [OF w that(1)] that(2) by force
  have z: "init AND 3 = 0" using init_cases [OF I] by auto
  have st: "(m_value S AND 3) \<noteq> 0 \<longleftrightarrow> (\<exists>t. 0 < m_depth S t)"
  proof (cases "is_normal init")
    case True
    have "(init OR 1) AND 3 \<noteq> 0" "(init OR 2) AND 3 \<noteq> 0" using init_cases [OF I] by auto
    then show ?thesis using w z unfolding normal_lock_word [OF I True] by (auto, metis zero_less_one One_nat_def)+
  next
    case False
    then show ?thesis using w
    proof (cases rule: owned_cases)
      case (held h s)
      then have "m_value S AND 3 = of_nat s" using word_state [OF _ held(5,7) ok, of h] by (simp add: tid_ok_def)
      then show ?thesis using held(2,6) by auto
    qed (use z in simp)
  qed
  have ty: "m_value S AND (MUTEX_TYPE_MASK OR MUTEX_SHARED_MASK) = init"
    using load_fields(3) [OF I w] by (simp only: field_consts bit.conj_disj_distrib)
  have own: "MUTEX_OWNER_FROM_BITS (m_value S) = t \<and> FIELD_FROM_BITS (m_value S) 2 11 = of_nat (m_depth S t - 1) \<and> m_depth S t \<le> 2048"
    if t: "0 < m_depth S t" and n: "init AND MUTEX_TYPE_MASK \<noteq> MUTEX_TYPE_BITS_NORMAL" for t
  proof -
    have n: "\<not> is_normal init" using n by (simp add: is_normal_def)
    then show ?thesis using w
    proof (cases rule: owned_cases)
      case (held h s)
      then have h: "h = t" "h < 2 ^ 16" using one t by (auto simp: tid_ok_def)
      have "FIELD_FROM_BITS (mutex_word h init (m_depth S h - 1) s) 2 11 = of_nat (m_depth S h - 1)"
        by (rule word_counter_field [OF h(2) held(5,7) ok])
      then show ?thesis using word_owner [OF h(2) held(5,7) ok] held(4,8) h(1) by (auto split: if_splits)
    qed (use t in simp)
  qed
  show ?thesis using one st ty own by (simp add: field_consts)
qed

section \<open>No lost wake-up\<close>

text \<open>
  The points of a call from which the thread still wakes a sleeper, or takes the lock as contended, or
  marks it so before it sleeps or gives up.
\<close>

fun wake_pending :: "mutex_pc \<Rightarrow> bool" where
  "wake_pending (NormalLock p shared) \<longleftrightarrow> p = NL_swap \<or> p = NL_wait"
| "wake_pending (NormalUnlock p shared) \<longleftrightarrow> p = NU_store \<or> p = NU_wake"
| "wake_pending (Lock p) \<longleftrightarrow> (case p of Lock_reload _ \<Rightarrow> True | Lock_loop _ _ \<Rightarrow> True | Lock_wait _ _ \<Rightarrow> True | _ \<Rightarrow> False)"
| "wake_pending (Unlock p) \<longleftrightarrow> p = Unlock_wake"
| "wake_pending (TimedLock p) \<longleftrightarrow> (case p of Timed_normal_swap _ \<Rightarrow> True | Timed_normal_wait _ \<Rightarrow> True | _ \<Rightarrow> False)"
| "wake_pending _ \<longleftrightarrow> False"

text \<open>The timed lock is called on normal mutexes only.\<close>

fun timed_normal :: "u32 \<Rightarrow> mutex_pc \<Rightarrow> bool" where
  "timed_normal init (TimedLock p) \<longleftrightarrow> is_normal init"
| "timed_normal init _ \<longleftrightarrow> True"

definition contended :: "u32 \<Rightarrow> bool" where
  "contended v \<longleftrightarrow> v AND 3 = 2"

definition step_wakes :: "u32 \<Rightarrow> mutex_pc \<Rightarrow> u32 \<Rightarrow> mutex_result \<Rightarrow> bool" where
  "step_wakes init pc v r \<longleftrightarrow> (case r of (pc', v', e) \<Rightarrow>
     (e = Sleep \<longrightarrow> contended v') \<and> timed_normal init pc' \<and>
     (contended v \<or> wake_pending pc \<longrightarrow> contended v' \<or> wake_pending pc' \<or> e = Wake_one))"

lemma contended_normal:
  assumes "init_val init" "is_normal init"
  shows "contended (init OR 2)" "\<not> contended init" "\<not> contended (init OR 1)"
  using init_cases [OF assms(1)] assms(2) by (auto simp: contended_def is_normal_def field_consts)

lemma contended_seen: "init_val init \<Longrightarrow> seen_word init {2} m \<Longrightarrow> contended m"
  using seen_fields(4) [of init "{2}" m] by (simp add: contended_def)

lemma word_3_4: "(v + 4) AND 3 = v AND (3 :: u32)" "(v - 4) AND 3 = v AND (3 :: u32)"
proof -
  have m: "k AND 3 = k mod 4" for k :: int using take_bit_eq_mask [of 2 k] by (simp add: mask_eq_exp_minus_1 take_bit_eq_mod)
  have i: "(k + 4) AND 3 = k AND (3 :: int)" for k by (simp add: m)
  have p: "(v + 4) AND 3 = v AND (3 :: u32)" for v by transfer (simp add: i)
  show "(v + 4) AND 3 = v AND (3 :: u32)" by (rule p)
  show "(v - 4) AND 3 = v AND (3 :: u32)" using p [of "v - 4"] by simp
qed

lemma take_contended:
  assumes "init_val init" "tid_ok t"
  shows "contended (MUTEX_OWNER_TO_BITS t OR init OR 2)"
  using word_make [of t 2 init] word_state [of t 0 2 init] assms init_val_ok(1) [OF assms(1)] by (simp add: contended_def tid_ok_def)

lemma flip_contended: "v AND 3 = 1 \<Longrightarrow> contended (v XOR 3)" 
  unfolding contended_def by (simp add: bit.conj_xor_distrib2)

text \<open>One step of a thread.\<close>

lemma normal_lock_wakes:
  assumes "init_val init" "pc_ok init t d (NormalLock p sh)" "v = init \<or> v = init OR 1 \<or> v = init OR 2"
  shows "step_wakes init (NormalLock p sh) v (normal_lock_step p sh v)"
  using assms(2,3) contended_normal [OF assms(1)]
  by (cases p) (auto simp: step_wakes_def futex_wait_def field_consts)

lemma normal_unlock_wakes:
  assumes "init_val init" "pc_ok init t d (NormalUnlock p sh)" "v = init \<or> v = init OR 1 \<or> v = init OR 2"
  shows "step_wakes init (NormalUnlock p sh) v (normal_unlock_step p sh v)"
  using assms(2,3) contended_normal [OF assms(1)] normal_facts [OF assms(1)]
  by (cases p) (auto simp: step_wakes_def futex_wait_def field_consts)

lemma normal_word:
  assumes "init_val init" "is_normal init" "lock_word init D v"
  shows "v = init \<or> v = init OR 1 \<or> v = init OR 2"
  using assms(3) unfolding normal_lock_word [OF assms(1,2)] by auto

lemma increment_wakes: "step_wakes init (Increment destroy p) v (increment_step destroy p v)"
  by (cases p) (auto simp: step_wakes_def contended_def field_consts word_3_4 try_end_def)

lemma unlock_wakes: "step_wakes init (Unlock p) v (unlock_step t p v)"
  by (cases p) (auto simp: step_wakes_def contended_def mutex_codes word_3_4 Let_def)

lemma try_wakes:
  assumes I: "init_val init" and p: "pc_ok init t d (TryLock destroy p)"
  shows "step_wakes init (TryLock destroy p) v (try_step t destroy p v)"
proof -
  have "init AND 3 \<noteq> 2" using init_cases [OF I] by auto
  then show ?thesis using p
    by (cases p) (auto simp: step_wakes_def contended_def mutex_codes Let_def recursive_increment_def try_end_def)
qed

lemma lock_wakes:
  assumes I: "init_val init" and p: "pc_ok init t d (Lock p)"
  shows "step_wakes init (Lock p) v (lock_step t p v)"
proof -
  have z: "\<not> contended init" using init_cases [OF I] by (auto simp: contended_def)
  show ?thesis
  proof (cases p)
    case (Lock_loop m b)
    then have m: "m = init \<or> seen_word init {1, 2} m" "b = init" "tid_ok t" using p by simp_all
    then have "m \<noteq> init \<Longrightarrow> m AND 3 \<noteq> 1 \<Longrightarrow> contended m" using seen_fields(6) [OF I, of "{1, 2}" m] by (auto simp: contended_def)
    then show ?thesis using Lock_loop m take_contended [OF I m(3)] flip_contended [of m]
      by (auto simp: step_wakes_def mutex_codes futex_wait_def)
  next
    case (Lock_wait m b)
    then show ?thesis using p contended_seen [OF I, of m] by (auto simp: step_wakes_def futex_wait_def)
  qed (use p z in \<open>auto simp: step_wakes_def mutex_codes Let_def recursive_increment_def try_end_def\<close>)
qed

lemma timed_wakes:
  assumes I: "init_val init" and p: "pc_ok init t d (TimedLock p)" and n: "is_normal init" and w: "lock_word init D v"
    and a: "woken (TimedLock p) = None"
  shows "step_wakes init (TimedLock p) v (timed_step late t p v)"
proof -
  have l: "v AND MUTEX_TYPE_MASK = MUTEX_TYPE_BITS_NORMAL" using load_fields(1) [OF I w] n by (simp add: is_normal_def field_consts)
  show ?thesis using p n a l contended_normal [OF I n] normal_word [OF I n w]
    by (cases p) (auto simp: step_wakes_def mutex_codes futex_wait_def)
qed

lemma mutex_step_wakes:
  assumes I: "init_val init" and p: "pc_ok init t (D t) pc" and w: "lock_word init D v" and a: "woken pc = None" and n: "timed_normal init pc"
  shows "step_wakes init pc v (mutex_step late t pc v)"
proof (cases pc)
  case (NormalLock p' sh)
  then show ?thesis using normal_lock_wakes [OF I, of t "D t" p' sh v] p normal_word [OF I _ w] by (simp add: mutex_step_def)
next
  case (NormalUnlock p' sh)
  then show ?thesis using normal_unlock_wakes [OF I, of t "D t" p' sh v] p normal_word [OF I _ w] by (simp add: mutex_step_def)
next
  case (TimedLock p')
  then show ?thesis using timed_wakes [OF I _ _ w] p n a by (simp add: mutex_step_def)
qed (use p in \<open>auto simp: mutex_step_def increment_wakes unlock_wakes step_wakes_def [of _ "Returned _"]
  intro: try_wakes [OF I] lock_wakes [OF I]\<close>)

text \<open>All interleavings.\<close>

definition wake_inv :: "u32 \<Rightarrow> mutex_state \<Rightarrow> bool" where
  "wake_inv init S \<longleftrightarrow> (\<forall>t. timed_normal init (m_pc S t)) \<and>
     (m_asleep S \<noteq> [] \<longrightarrow> contended (m_value S) \<or> (\<exists>t. t \<notin> set (m_asleep S) \<and> wake_pending (m_pc S t)))"

lemma woken_pending:
  "woken pc = Some pc' \<Longrightarrow> timed_normal init pc \<Longrightarrow> pc_ok init t d pc \<Longrightarrow> wake_pending pc' \<and> timed_normal init pc'"
  by (cases pc rule: woken.cases) auto

lemma expired_wakes:
  "expired pc = Some pc' \<Longrightarrow> timed_normal init pc \<Longrightarrow> timed_normal init pc'"
  by (cases pc rule: expired.cases) auto

lemma wake_inv_leave:
  assumes "wake_inv init S" and "distinct (m_asleep S)" and "u \<in> set (m_asleep S)" and "timed_normal init pc"
  shows "wake_inv init (leave_futex u pc S)"
proof -
  have "t \<notin> set (m_asleep S) \<Longrightarrow> t \<noteq> u" for t using assms(3) by auto
  then have "contended (m_value S) \<or> (\<exists>t. t \<notin> set (m_asleep S) \<and> t \<noteq> u \<and> wake_pending (m_pc S t))"
    using assms(1,3) unfolding wake_inv_def by (metis empty_iff list.set(1))
  then show ?thesis using assms unfolding wake_inv_def leave_futex_def by auto
qed

lemma wake_inv_woken:
  assumes "\<forall>t. timed_normal init (m_pc S t)" and "distinct (m_asleep S)" and "wake_pending pc" "timed_normal init pc"
  shows "wake_inv init (leave_futex u pc S)"
  using assms unfolding wake_inv_def leave_futex_def by auto

lemma effect_wakes:
  assumes inv: "mutex_inv init S" "wake_inv init S" and a: "t \<notin> set (m_asleep S)"
    and k: "step_wakes init (m_pc S t) (m_value S) (pc, v, e)" and sl: "woken pc \<noteq> None \<longleftrightarrow> e = Sleep"
    and S': "apply_effect t e w (S\<lparr>m_value := v, m_pc := (m_pc S)(t := pc)\<rparr>) = Some S'"
  shows "wake_inv init S'"
proof -
  have k: "e = Sleep \<Longrightarrow> contended v" "timed_normal init pc"
    "contended (m_value S) \<or> wake_pending (m_pc S t) \<Longrightarrow> contended v \<or> wake_pending pc \<or> e = Wake_one"
    using k by (auto simp: step_wakes_def)
  have i: "\<And>u. pc_ok init u (m_depth S u) (m_pc S u)" "distinct (m_asleep S)" "\<And>u. timed_normal init (m_pc S u)"
    using inv by (simp_all add: mutex_inv_def wake_inv_def)
  let ?S = "S\<lparr>m_value := v, m_pc := (m_pc S)(t := pc)\<rparr>"
  have n: "\<forall>u. timed_normal init (m_pc ?S u)" using i(3) k(2) by simp
  have quiet: "wake_inv init ?S" if "e \<noteq> Wake_one"
  proof -
    have "contended v \<or> (\<exists>u. u \<notin> set (m_asleep S) \<and> wake_pending (m_pc ?S u))" if ne: "m_asleep S \<noteq> []"
    proof -
      consider "contended (m_value S) \<or> wake_pending (m_pc S t)" | u where "u \<notin> set (m_asleep S)" "u \<noteq> t" "wake_pending (m_pc S u)"
        using inv(2) ne unfolding wake_inv_def by metis
      then show ?thesis
      proof cases
        case 1
        then show ?thesis using k(3) a \<open>e \<noteq> Wake_one\<close> by auto
      next
        case (2 u)
        then show ?thesis by auto
      qed
    qed
    then show ?thesis using n by (simp add: wake_inv_def)
  qed
  show ?thesis
  proof (cases e)
    case Sleep
    then have "S' = ?S\<lparr>m_asleep := m_asleep S @ [t]\<rparr>" using S' by (simp add: apply_effect_def)
    then show ?thesis using k(1) [OF Sleep] n by (simp add: wake_inv_def)
  next
    case Wake_one
    show ?thesis
    proof (cases w)
      case None
      then show ?thesis using S' Wake_one n by (auto simp: apply_effect_def wake_inv_def split: if_splits)
    next
      case (Some u)
      then obtain pc' where u: "u \<in> set (m_asleep S)" "woken (m_pc ?S u) = Some pc'" "S' = leave_futex u pc' ?S"
        using S' Wake_one by (auto simp: apply_effect_def split: if_splits)
      then have "woken (m_pc S u) = Some pc'" using a by (auto split: if_splits)
      then have "wake_pending pc' \<and> timed_normal init pc'" using woken_pending [OF _ i(3) i(1)] by blast
      then show ?thesis using wake_inv_woken [of init ?S pc' u] n i(2) u(3) by simp
    qed
  next
    case Got
    then have "S' = ?S\<lparr>m_depth := (m_depth S)(t := m_depth S t + 1)\<rparr>" using S' by (simp add: apply_effect_def)
    then show ?thesis using quiet Got by (simp add: wake_inv_def)
  next
    case Gave
    then have "S' = ?S\<lparr>m_depth := (m_depth S)(t := m_depth S t - 1)\<rparr>" using S' by (simp add: apply_effect_def)
    then show ?thesis using quiet Gave by (simp add: wake_inv_def)
  qed (use S' quiet in \<open>simp_all add: apply_effect_def\<close>)
qed

lemma wake_next:
  assumes I: "init_val init" and inv: "mutex_inv init S" "wake_inv init S" and c: "client_ok init calls ev S" "Call_destroy \<notin> calls"
    and tn: "is_normal init \<or> Call_timedlock \<notin> calls" and S': "mutex_next ev S = Some S'"
  shows "wake_inv init S'"
proof (cases ev)
  case (Enter t call)
  then obtain r where r: "m_pc S t = Returned r" "S' = S\<lparr>m_pc := (m_pc S)(t := call_entry call)\<rparr>"
    using S' by (auto split: mutex_pc.splits)
  have "call = Call_timedlock \<Longrightarrow> is_normal init" using c Enter tn by auto
  then have "timed_normal init (call_entry call)" by (cases call) auto
  moreover have "\<not> wake_pending (m_pc S t)" using r(1) by simp
  ultimately show ?thesis using inv(2) r(2) by (auto simp: wake_inv_def)
next
  case (Run t late w)
  obtain pc v e where st: "mutex_step late t (m_pc S t) (m_value S) = (pc, v, e)" by (metis prod_cases3)
  have a: "t \<notin> set (m_asleep S)" "apply_effect t e w (S\<lparr>m_value := v, m_pc := (m_pc S)(t := pc)\<rparr>) = Some S'"
    using S' Run st by (auto split: if_splits)
  have n: "woken (m_pc S t) = None" "pc_ok init t (m_depth S t) (m_pc S t)" "lock_word init (m_depth S) (m_value S)"
    using inv(1) a(1) by (simp_all add: mutex_inv_def)
  have "step_keeps init t (m_depth S) (pc, v, e)" using mutex_step_keeps [OF I n(2,3,1), of late] st by simp
  then have "woken pc \<noteq> None \<longleftrightarrow> e = Sleep" by (simp add: step_keeps_def)
  moreover have "step_wakes init (m_pc S t) (m_value S) (pc, v, e)"
    using mutex_step_wakes [where D = "m_depth S", OF I n(2,3,1), of late] st inv(2) by (simp add: wake_inv_def)
  ultimately show ?thesis using effect_wakes [OF inv a(1) _ _ a(2)] by blast
next
  case (Interrupt t)
  then obtain pc where pc: "t \<in> set (m_asleep S)" "woken (m_pc S t) = Some pc" "S' = leave_futex t pc S" using S' by (auto split: if_splits)
  then have "timed_normal init pc" using woken_pending [OF pc(2), of init t "m_depth S t"] inv by (simp add: mutex_inv_def wake_inv_def)
  then show ?thesis using wake_inv_leave [OF inv(2) _ pc(1)] inv(1) pc(3) by (simp add: mutex_inv_def)
next
  case (Expire t)
  then obtain pc where pc: "t \<in> set (m_asleep S)" "expired (m_pc S t) = Some pc" "S' = leave_futex t pc S" using S' by (auto split: if_splits)
  then have "timed_normal init pc" using expired_wakes [OF pc(2)] inv by (simp add: mutex_inv_def wake_inv_def)
  then show ?thesis using wake_inv_leave [OF inv(2) _ pc(1)] inv(1) pc(3) by (simp add: mutex_inv_def)
qed

lemma mutex_reach_wakes:
  assumes "mutex_reach init calls S" and "Call_destroy \<notin> calls" and "is_normal init \<or> Call_timedlock \<notin> calls"
  shows "wake_inv init S"
  using assms
proof (induction rule: mutex_reach.induct)
  case (reach_start attr)
  then show ?case by (simp add: wake_inv_def mutex_start_def)
next
  case (reach_step S ev S')
  then show ?case using wake_next mutex_reach_inv by blast
qed

text \<open>
  C4: no lost wake-up. While the timed lock is used on normal mutexes only, a thread never sleeps on the
  futex with nobody left to wake it: either the lock is held and marked as contended, so that its
  release wakes a sleeper, or some thread that is awake is at a point of its call from which it wakes a
  sleeper itself, takes the lock as contended, or marks it so. In particular, when no thread is in the
  middle of a call except the sleepers, some thread holds the lock and the state bits say contended.
\<close>

theorem mutex_no_lost_wakeup:
  assumes "mutex_reach init calls S" and "Call_destroy \<notin> calls"
    and "init AND MUTEX_TYPE_MASK = MUTEX_TYPE_BITS_NORMAL \<or> Call_timedlock \<notin> calls" and "u \<in> set (m_asleep S)"
  shows "((\<exists>t. 0 < m_depth S t) \<and> MUTEX_STATE_BITS_IS_LOCKED_CONTENDED (m_value S)) \<or>
    (\<exists>t. t \<notin> set (m_asleep S) \<and> wake_pending (m_pc S t))"
proof -
  have "m_asleep S \<noteq> []" using assms(4) by auto
  moreover have "contended (m_value S) \<Longrightarrow> \<exists>t. 0 < m_depth S t"
  proof (rule ccontr)
    assume c: "contended (m_value S)" and "\<nexists>t. 0 < m_depth S t"
    moreover have I: "init_val init" "lock_word init (m_depth S) (m_value S)"
      using mutex_reach_inv [OF assms(1,2)] by (simp_all add: mutex_inv_def)
    ultimately have "m_value S = init" by (auto simp: lock_word_def held_by_def)
    then show False using c init_cases [OF I(1)] by (auto simp: contended_def)
  qed
  ultimately show ?thesis
    using mutex_reach_wakes [OF assms(1,2)] assms(3) by (auto simp: wake_inv_def contended_def is_normal_def mutex_codes)
qed

section \<open>Runs\<close>

text \<open>A run in which every call is one that the client may make.\<close>

fun client_run :: "u32 \<Rightarrow> mutex_call set \<Rightarrow> mutex_event list \<Rightarrow> mutex_state \<Rightarrow> mutex_state option" where
  "client_run init calls [] S = Some S"
| "client_run init calls (ev # evs) S =
     (if client_ok init calls ev S then Option.bind (mutex_next ev S) (client_run init calls evs) else None)"

lemma client_run_reach:
  "client_run init calls evs S = Some S' \<Longrightarrow> mutex_reach init calls S \<Longrightarrow> mutex_reach init calls S'"
  by (induction evs arbitrary: S) (auto split: if_splits bind_splits intro: mutex_reach.reach_step)

lemma client_run_start:
  "client_run init calls evs (mutex_start init) = Some S \<Longrightarrow> pthread_mutex_init attr = Inr init \<Longrightarrow> mutex_reach init calls S"
  using client_run_reach mutex_reach.reach_start by blast

text \<open>The values that concrete runs compute with.\<close>

lemmas run_simps = mutex_step_def apply_effect_def leave_futex_def futex_wait_def mutex_codes recursive_increment_def try_end_def
  mutex_start_def MUTEX_OWNER_FROM_BITS_def MUTEX_OWNER_TO_BITS_def FIELD_FROM_BITS_def FIELD_TO_BITS_def mask_eq_exp_minus_1 Let_def
  

definition lost_wake_run :: "mutex_event list" where
  "lost_wake_run =
     [Enter 1 Call_lock, Run 1 False None, Run 1 False None,
      Enter 2 Call_timedlock, Run 2 False None, Run 2 False None, Run 2 False None,
      Enter 3 Call_lock, Run 3 False None, Run 3 False None,
      Enter 1 Call_unlock, Run 1 False None, Run 1 False None, Run 1 False (Some 2),
      Run 2 False None,
      Enter 4 Call_lock, Run 4 False None, Run 4 False None,
      Run 2 True None,
      Enter 4 Call_unlock, Run 4 False None, Run 4 False None]"

lemma recursive_init: "pthread_mutex_init (Some 1) = Inr 0x4000"
  by (simp add: pthread_mutex_init_def field_consts MUTEXATTR_TYPE_MASK_def MUTEXATTR_SHARED_MASK_def
      PTHREAD_MUTEX_NORMAL_def PTHREAD_MUTEX_RECURSIVE_def)

definition lost_wake_state :: mutex_state where
  "lost_wake_state = \<lparr>m_value = 0x4000, m_pc = (\<lambda>_. Returned 0)(2 := Returned ETIMEDOUT, 3 := Lock (Lock_asleep 0x4000)),
     m_depth = (\<lambda>_. 0), m_asleep = [3]\<rparr>"

definition lock_round :: "mutex_event list" where
  "lock_round = [Enter 4 Call_lock, Run 4 False None, Run 4 False None, Enter 4 Call_unlock, Run 4 False None, Run 4 False None]"

lemma lost_wake_runs: "client_run 0x4000 {Call_lock, Call_timedlock, Call_unlock} lost_wake_run (mutex_start 0x4000) = Some lost_wake_state"
  by (simp add: lost_wake_run_def run_simps lost_wake_state_def) (simp add: fun_eq_iff)

lemma lock_round_runs: "mutex_run lock_round lost_wake_state = Some lost_wake_state"
  by (simp add: lock_round_def run_simps lost_wake_state_def) (simp add: fun_eq_iff)

lemma mutex_run_append: "mutex_run (evs @ evs') S = Option.bind (mutex_run evs S) (mutex_run evs')"
  by (induction evs arbitrary: S) (auto split: bind_splits)

lemma mutex_run_rounds: "mutex_run evs S = Some S \<Longrightarrow> mutex_run (concat (replicate n evs)) S = Some S"
  by (induction n) (simp_all add: mutex_run_append)

text \<open>
  C32: the timed lock loses wake-ups on recursive mutexes. A run of four threads ends with the mutex
  unlocked, no thread inside a call except thread 3, and thread 3 asleep in its \<open>pthread_mutex_lock\<close>:
  the release of thread 1 woke the timed lock of thread 2, which read the unlocked word, lost the
  exchange to the quick lock of thread 4, found its time over and returned \<open>ETIMEDOUT\<close> without
  marking the lock as contended. From there nothing happens but new calls and interrupts of thread 3,
  and any number of locks and unlocks by thread 4 leaves it asleep.
\<close>

theorem mutex_timed_wakeup_lost:
  "\<exists>S. mutex_reach 0x4000 {Call_lock, Call_timedlock, Call_unlock} S \<and>
     m_value S = MUTEX_TYPE_BITS_RECURSIVE \<and> (\<forall>t. m_depth S t = 0) \<and>
     m_asleep S = [3] \<and> m_pc S 3 = Lock (Lock_asleep 0x4000) \<and> range (\<lambda>t. m_pc S t) = {m_pc S 3, Returned 0, Returned ETIMEDOUT} \<and>
     {ev. mutex_next ev S \<noteq> None} \<subseteq> insert (Interrupt 3) (range (\<lambda>(t, c). Enter t c)) \<and>
     (\<forall>n. mutex_run (concat (replicate n lock_round)) S = Some S)"
proof (intro exI conjI)
  show "mutex_reach 0x4000 {Call_lock, Call_timedlock, Call_unlock} lost_wake_state"
    by (rule client_run_start [OF lost_wake_runs recursive_init])
  show "{ev. mutex_next ev lost_wake_state \<noteq> None} \<subseteq> insert (Interrupt 3) (range (\<lambda>(t, c). Enter t c))"
  proof
    fix ev assume "ev \<in> {ev. mutex_next ev lost_wake_state \<noteq> None}"
    then show "ev \<in> insert (Interrupt 3) (range (\<lambda>(t, c). Enter t c))"
      by (cases ev) (auto simp: lost_wake_state_def image_iff split: if_splits)
  qed
  show "\<forall>n. mutex_run (concat (replicate n lock_round)) lost_wake_state = Some lost_wake_state"
    using mutex_run_rounds [OF lock_round_runs] by blast
  show "range (\<lambda>t. m_pc lost_wake_state t) = {m_pc lost_wake_state 3, Returned 0, Returned ETIMEDOUT}"
  proof -
    have "m_pc lost_wake_state 0 = Returned 0" "m_pc lost_wake_state 2 = Returned ETIMEDOUT" by (simp_all add: lost_wake_state_def)
    then have "{m_pc lost_wake_state 3, Returned 0, Returned ETIMEDOUT} \<subseteq> range (\<lambda>t. m_pc lost_wake_state t)" by (metis empty_subsetI insert_subset rangeI)
    moreover have "range (\<lambda>t. m_pc lost_wake_state t) \<subseteq> {m_pc lost_wake_state 3, Returned 0, Returned ETIMEDOUT}"
      by (auto simp: lost_wake_state_def)
    ultimately show ?thesis by (rule equalityI [rotated])
  qed
qed (simp_all add: lost_wake_state_def field_consts)

section \<open>What a call answers\<close>

definition is_errorcheck :: "u32 \<Rightarrow> bool" where
  "is_errorcheck init \<longleftrightarrow> init AND MUTEX_TYPE_MASK = MUTEX_TYPE_BITS_ERRORCHECK"

text \<open>The answer of a \<open>trylock\<close> of thread \<open>t\<close>, from the levels that the threads have.\<close>

definition trylock_answer :: "u32 \<Rightarrow> (nat \<Rightarrow> nat) \<Rightarrow> nat \<Rightarrow> int" where
  "trylock_answer init D t =
     (if \<forall>u. D u = 0 then 0
      else if is_normal init \<or> D t = 0 then EBUSY
      else if is_errorcheck init then EDEADLK
      else if D t = 2048 then EAGAIN else 0)"

lemma free_word:
  assumes I: "init_val init" and w: "lock_word init D v"
  shows "v = init \<longleftrightarrow> (\<forall>u. D u = 0)"
proof
  show "v = init" if "\<forall>u. D u = 0" using w that by (auto simp: lock_word_def held_by_def)
  show "\<forall>u. D u = 0" if v: "v = init"
  proof (cases "is_normal init")
    case True
    then show ?thesis using w v normal_facts [OF I True] unfolding normal_lock_word [OF I True] by auto
  next
    case False
    then show ?thesis using w v owned_free [OF I False] by simp
  qed
qed

lemma init_kinds: "init_val init \<Longrightarrow> \<not> is_normal init \<Longrightarrow> is_errorcheck init \<longleftrightarrow> \<not> is_recursive init"
  using init_val_ok(3) [of init] by (auto simp: is_errorcheck_def is_recursive_def field_consts)

text \<open>The steps of a \<open>trylock\<close>, on its own.\<close>

lemma try_steps:
  assumes I: "init_val init" and w: "lock_word init D v" and t: "tid_ok t"
  shows "\<exists>r v'. r = trylock_answer init D t \<and> (r \<noteq> 0 \<longrightarrow> v' = v) \<and>
    (mutex_step False t (TryLock destroy Try_load) v = (try_end destroy r, v', Quiet) \<and> r \<noteq> 0 \<or>
     (\<exists>pc. mutex_step False t (TryLock destroy Try_load) v = (pc, v, Quiet) \<and> (\<forall>e. pc \<noteq> Returned e) \<and>
        mutex_step False t pc v = (try_end destroy r, v', if r = 0 then Got else Quiet)))"
proof (cases "is_normal init")
  case True
  have "init AND 3 = 0" using init_cases [OF I] by auto
  show ?thesis
    using load_step [OF I w t] True free_word [OF I w]
    by (auto simp: mutex_step_def Let_def trylock_answer_def field_consts EBUSY_def)
next
  case False
  note n = False
  show ?thesis
  proof (cases "0 < D t")
    case True
    note o = load_owned [OF I n w t]
    have b: "\<not> (\<forall>u. D u = 0)" using True by auto
    show ?thesis
    proof (cases "is_recursive init")
      case True
      then have ty: "v AND MUTEX_TYPE_MASK = MUTEX_TYPE_BITS_RECURSIVE"
        using load_fields(1) [OF I w] by (simp add: is_recursive_def field_consts)
      show ?thesis
        using True \<open>0 < D t\<close> b ty o n init_kinds [OF I n]
        by (auto simp: mutex_step_def trylock_answer_def mutex_codes recursive_increment_def EAGAIN_def)
    next
      case False
      then have ty: "v AND MUTEX_TYPE_MASK = MUTEX_TYPE_BITS_ERRORCHECK"
        using load_fields(1) [OF I w] init_val_ok(3) [OF I] n by (simp add: field_consts)
      show ?thesis
        using False \<open>0 < D t\<close> b ty o n init_kinds [OF I n]
        by (auto simp: mutex_step_def trylock_answer_def mutex_codes recursive_increment_def EDEADLK_def)
    qed
  next
    case False
    show ?thesis
      using load_step [OF I w t] False n free_word [OF I w]
      by (auto simp: mutex_step_def Let_def trylock_answer_def field_consts EBUSY_def)
  qed
qed

lemma run_two:
  assumes "m_pc S t = Returned e0" and "t \<notin> set (m_asleep S)" and "call_entry c = pc0"
    and "mutex_step False t pc0 (m_value S) = (pc1, v1, Quiet)" and "\<forall>e. pc0 \<noteq> Returned e"
  shows "mutex_run (Enter t c # Run t False None # evs) S = mutex_run evs (S\<lparr>m_value := v1, m_pc := (m_pc S)(t := pc1)\<rparr>)"
  using assms by (auto simp: apply_effect_def split: mutex_pc.splits)

lemma run_one:
  assumes "m_pc S t = pc" "\<forall>e. pc \<noteq> Returned e" "t \<notin> set (m_asleep S)" "mutex_step False t pc (m_value S) = (pc', v', e)" "e \<noteq> Wake_one"
    "e \<noteq> Sleep"
  shows "mutex_run (Run t False w # evs) S =
    mutex_run evs (S\<lparr>m_value := v', m_pc := (m_pc S)(t := pc'), m_depth := depth_after e t (m_depth S)\<rparr>)"
  using assms by (cases e) (auto simp: apply_effect_def depth_after_def split: mutex_pc.splits)

text \<open>A \<open>trylock\<close> that no other thread interrupts, up to the end of the trylock part.\<close>

lemma run_trylock:
  assumes I: "init_val init" and inv: "mutex_inv init S" and t: "tid_ok t" and pc: "m_pc S t = Returned e0"
    and c: "call_entry c = TryLock destroy Try_load"
  defines "r \<equiv> trylock_answer init (m_depth S) t"
  shows "\<exists>n v. (r \<noteq> 0 \<longrightarrow> v = m_value S) \<and> (\<forall>evs. mutex_run (Enter t c # replicate n (Run t False None) @ evs) S =
    mutex_run evs (S\<lparr>m_value := v, m_pc := (m_pc S)(t := try_end destroy r),
      m_depth := if r = 0 then (m_depth S)(t := m_depth S t + 1) else m_depth S\<rparr>))"
proof -
  have w: "lock_word init (m_depth S) (m_value S)" and a: "t \<notin> set (m_asleep S)" using inv pc by (simp_all add: mutex_inv_def)
  note two = run_two [OF pc a c]
  obtain v' where v': "r \<noteq> 0 \<longrightarrow> v' = m_value S" and "mutex_step False t (TryLock destroy Try_load) (m_value S) = (try_end destroy r, v', Quiet) \<and> r \<noteq> 0 \<or>
     (\<exists>pc. mutex_step False t (TryLock destroy Try_load) (m_value S) = (pc, m_value S, Quiet) \<and> (\<forall>e. pc \<noteq> Returned e) \<and>
        mutex_step False t pc (m_value S) = (try_end destroy r, v', if r = 0 then Got else Quiet))"
    using try_steps [OF I w t] unfolding r_def by blast
  then show ?thesis
  proof (elim disjE exE conjE)
    assume "mutex_step False t (TryLock destroy Try_load) (m_value S) = (try_end destroy r, v', Quiet)" "r \<noteq> 0"
    then show ?thesis using two v' by (intro exI [of _ 1] exI [of _ "m_value S"]) simp
  next
    fix pc1
    assume s: "mutex_step False t (TryLock destroy Try_load) (m_value S) = (pc1, m_value S, Quiet)" "\<forall>e. pc1 \<noteq> Returned e"
      "mutex_step False t pc1 (m_value S) = (try_end destroy r, v', if r = 0 then Got else Quiet)"
    have "mutex_run (Enter t c # Run t False None # Run t False None # evs) S =
        mutex_run evs (S\<lparr>m_value := v', m_pc := (m_pc S)(t := try_end destroy r), m_depth := if r = 0 then (m_depth S)(t := m_depth S t + 1) else m_depth S\<rparr>)" for evs
      using s(2,3) a by (subst two [OF s(1)], simp, subst run_one [OF _ s(2)]) (auto simp: depth_after_def split: if_splits)
    then show ?thesis by (intro exI [of _ 2] exI [of _ v'] conjI v') (simp add: numeral_2_eq_2)
  qed
qed

lemma unlock_owned_load:
  assumes I: "init_val init" and w: "lock_word init D v" and t: "tid_ok t" and n: "\<not> is_normal init"
  shows "mutex_step False t (Unlock Unlock_load) v =
    (if D t = 0 then Returned EPERM else if D t \<noteq> 1 then Unlock (Unlock_dec v) else Unlock (Unlock_swap init), v, Quiet)"
  using load_step [OF I w t] load_owned(5) [OF I n w t] n by (auto simp: mutex_step_def Let_def mutex_codes)

text \<open>The wake-up at the end of an \<open>unlock\<close>.\<close>

definition wakes :: "nat option \<Rightarrow> nat list \<Rightarrow> bool" where
  "wakes w ts \<longleftrightarrow> (case w of None \<Rightarrow> ts = [] | Some u \<Rightarrow> u \<in> set ts)"

definition woken_off :: "nat option \<Rightarrow> nat list \<Rightarrow> nat list" where
  "woken_off w ts = (case w of None \<Rightarrow> ts | Some u \<Rightarrow> remove1 u ts)"

lemma run_wake:
  assumes inv: "\<forall>u \<in> set (m_asleep S). woken (m_pc S u) \<noteq> None" and w: "wakes w (m_asleep S)" and t: "t \<notin> set (m_asleep S)"
    and pc: "m_pc S t = pc" "\<forall>e. pc \<noteq> Returned e" "mutex_step False t pc (m_value S) = (Returned 0, m_value S, Wake_one)"
  shows "\<exists>S'. mutex_run [Run t False w] S = Some S' \<and> m_pc S' t = Returned 0 \<and> m_depth S' = m_depth S \<and> m_value S' = m_value S \<and>
    m_asleep S' = woken_off w (m_asleep S)"
proof (cases w)
  case None
  then show ?thesis using w t pc by (auto simp: apply_effect_def wakes_def woken_off_def split: mutex_pc.splits)
next
  case (Some u)
  then have u: "u \<in> set (m_asleep S)" "u \<noteq> t" using w t by (auto simp: wakes_def)
  then obtain pc' where "woken (m_pc S u) = Some pc'" using inv by auto
  then show ?thesis using Some u t pc
    by (auto simp: apply_effect_def wakes_def woken_off_def leave_futex_def split: mutex_pc.splits)
qed

lemma run_append_some: "mutex_run evs S = Some S1 \<Longrightarrow> mutex_run (evs @ evs') S = mutex_run evs' S1"
  by (simp add: mutex_run_append)

lemma run_unlock_normal:
  assumes I: "init_val init" and inv: "mutex_inv init S" and t: "tid_ok t" and pc: "m_pc S t = Returned e0" and n: "is_normal init"
    and d: "0 < m_depth S t" and w: "wakes w (m_asleep S)"
  shows "\<exists>k S'. mutex_run (Enter t Call_unlock # replicate k (Run t False w)) S = Some S' \<and> m_pc S' t = Returned 0 \<and>
    m_depth S' = (m_depth S)(t := m_depth S t - 1) \<and> m_value S' = init \<and>
    m_asleep S' = (if contended (m_value S) then woken_off w (m_asleep S) else m_asleep S)"
proof -
  have lw: "lock_word init (m_depth S) (m_value S)" and a: "t \<notin> set (m_asleep S)" using inv pc by (simp_all add: mutex_inv_def)
  note f = normal_facts [OF I n] contended_normal [OF I n] and l = load_step [OF I lw t]
  have "m_value S = init OR 1 \<or> m_value S = init OR 2" using lw d unfolding normal_lock_word [OF I n] by auto
  then show ?thesis
  proof
    assume v: "m_value S = init OR 1"
    then show ?thesis using pc a f l n
      by (intro exI [of _ 3]) (simp add: numeral_3_eq_3 apply_effect_def mutex_step_def field_consts)
  next
    assume v: "m_value S = init OR 2"
    let ?S = "S\<lparr>m_value := init, m_pc := (m_pc S)(t := NormalUnlock NU_wake init), m_depth := (m_depth S)(t := m_depth S t - 1)\<rparr>"
    have "mutex_run (Enter t Call_unlock # replicate 4 (Run t False w)) S = Some ?S"
      using v pc a f l n by (simp add: numeral_eq_Suc apply_effect_def mutex_step_def field_consts)
    note r = run_append_some [OF this, of "[Run t False w]"]
    have "\<forall>u \<in> set (m_asleep S). woken (m_pc S u) \<noteq> None" using inv by (auto simp: mutex_inv_def)
    then have "\<exists>S'. mutex_run [Run t False w] ?S = Some S' \<and> m_pc S' t = Returned 0 \<and> m_depth S' = m_depth ?S \<and> m_value S' = m_value ?S \<and>
        m_asleep S' = woken_off w (m_asleep ?S)"
      using a w by (intro run_wake [of _ _ _ "NormalUnlock NU_wake init"]) (auto simp: mutex_step_def)
    then show ?thesis using r v f by (intro exI [of _ 5]) (simp add: numeral_eq_Suc)
  qed
qed

lemma run_unlock_owned:
  assumes I: "init_val init" and inv: "mutex_inv init S" and t: "tid_ok t" and pc: "m_pc S t = Returned e0" and n: "\<not> is_normal init"
    and w: "wakes w (m_asleep S)"
  shows "\<exists>k S'. mutex_run (Enter t Call_unlock # replicate k (Run t False w)) S = Some S' \<and>
    m_pc S' t = Returned (if m_depth S t = 0 then EPERM else 0) \<and> m_depth S' = (m_depth S)(t := m_depth S t - 1) \<and>
    m_value S' = (if m_depth S t = 0 then m_value S else if m_depth S t = 1 then init else m_value S - 4) \<and>
    m_asleep S' = (if m_depth S t = 1 \<and> contended (m_value S) then woken_off w (m_asleep S) else m_asleep S)"
proof -
  have lw: "lock_word init (m_depth S) (m_value S)" and a: "t \<notin> set (m_asleep S)" using inv pc by (simp_all add: mutex_inv_def)
  note l = unlock_owned_load [OF I lw t n]
  have e: "mutex_run (Enter t Call_unlock # Run t False w # evs) S = mutex_run evs (S\<lparr>m_pc := (m_pc S)(t :=
     if m_depth S t = 0 then Returned EPERM else if m_depth S t \<noteq> 1 then Unlock (Unlock_dec (m_value S)) else Unlock (Unlock_swap init))\<rparr>)" for evs
    using pc a l by (simp add: apply_effect_def)
  consider (no) "m_depth S t = 0" | (one) "m_depth S t = 1" | (more) "m_depth S t \<noteq> 0" "m_depth S t \<noteq> 1" by blast
  then show ?thesis
  proof cases
    case no
    then show ?thesis using e [of "[]"] by (intro exI [of _ 1]) (simp add: fun_upd_idem)
  next
    case more
    then show ?thesis using e [of "[Run t False w]"] a
      by (intro exI [of _ 2]) (simp add: numeral_2_eq_2 apply_effect_def mutex_step_def field_consts)
  next
    case one
    let ?S = "S\<lparr>m_value := init, m_pc := (m_pc S)(t := if contended (m_value S) then Unlock Unlock_wake else Returned 0),
      m_depth := (m_depth S)(t := m_depth S t - 1)\<rparr>"
    have "mutex_run (Enter t Call_unlock # replicate 2 (Run t False w)) S = Some ?S"
      using one e [of "[Run t False w]"] a by (simp add: numeral_2_eq_2 apply_effect_def mutex_step_def mutex_codes contended_def)
    note r = run_append_some [OF this, of "[Run t False w]"] this
    show ?thesis
    proof (cases "contended (m_value S)")
      case True
      have "\<forall>u \<in> set (m_asleep S). woken (m_pc S u) \<noteq> None" using inv by (auto simp: mutex_inv_def)
      then have "\<exists>S'. mutex_run [Run t False w] ?S = Some S' \<and> m_pc S' t = Returned 0 \<and> m_depth S' = m_depth ?S \<and> m_value S' = m_value ?S \<and>
          m_asleep S' = woken_off w (m_asleep ?S)"
        using a w True by (intro run_wake [of _ _ _ "Unlock Unlock_wake"]) (auto simp: mutex_step_def)
      then show ?thesis using r one True by (intro exI [of _ 3]) (simp add: numeral_eq_Suc)
    next
      case False
      then show ?thesis using r(2) one by (intro exI [of _ 2]) simp
    qed
  qed
qed

text \<open>
  \<open>pthread_mutex_trylock\<close> alone. From any reachable state a \<open>trylock\<close> that no other thread
  interrupts returns after finitely many steps. It takes a free lock; on a held one it answers
  \<open>EBUSY\<close>, except that the owner of an error-checking mutex gets \<open>EDEADLK\<close> and the owner of a
  recursive one a further level, or \<open>EAGAIN\<close> at 2048 levels. On an error the word is unchanged.
\<close>

theorem mutex_trylock_answer:
  assumes "mutex_reach init calls S" and "Call_destroy \<notin> calls" and "tid_ok t" and "m_pc S t = Returned e0"
  defines "r \<equiv> trylock_answer init (m_depth S) t"
  shows "\<exists>n S'. mutex_run (Enter t Call_trylock # replicate n (Run t False None)) S = Some S' \<and> m_pc S' = (m_pc S)(t := Returned r) \<and>
    m_depth S' = (if r = 0 then (m_depth S)(t := m_depth S t + 1) else m_depth S) \<and> (m_value S' = m_value S \<or> r = 0) \<and> m_asleep S' = m_asleep S"
proof -
  have I: "init_val init" "mutex_inv init S" using mutex_reach_inv [OF assms(1,2)] by simp_all
  obtain n v where n: "r \<noteq> 0 \<longrightarrow> v = m_value S"
    "\<forall>evs. mutex_run (Enter t Call_trylock # replicate n (Run t False None) @ evs) S =
      mutex_run evs (S\<lparr>m_value := v, m_pc := (m_pc S)(t := try_end False r), m_depth := if r = 0 then (m_depth S)(t := m_depth S t + 1) else m_depth S\<rparr>)"
    using run_trylock [OF I assms(3,4), of Call_trylock False] unfolding r_def by auto
  then show ?thesis using spec [OF n(2), of "[]"] by (intro exI [of _ n]) (auto simp: try_end_def)
qed

text \<open>
  \<open>pthread_mutex_destroy\<close> alone. It destroys the mutex exactly when a \<open>trylock\<close> of the same thread
  would succeed: the value becomes \<open>0xdead10cc\<close>, whoever waits. So a recursive mutex is destroyed
  also when the caller holds it, up to 2047 levels.
\<close>

theorem mutex_destroy_answer:
  assumes "mutex_reach init calls S" and "Call_destroy \<notin> calls" and "tid_ok t" and "m_pc S t = Returned e0"
  defines "r \<equiv> trylock_answer init (m_depth S) t"
  shows "(\<exists>n S'. mutex_run (Enter t Call_destroy # replicate n (Run t False None)) S = Some S' \<and> m_pc S' = (m_pc S)(t := Returned r) \<and>
      m_value S' = (if r = 0 then 0xdead10cc else m_value S) \<and> m_asleep S' = m_asleep S) \<and>
    (r = 0 \<longleftrightarrow> (\<forall>u. m_depth S u = 0) \<or> (init AND MUTEX_TYPE_MASK = MUTEX_TYPE_BITS_RECURSIVE \<and> 0 < m_depth S t \<and> m_depth S t < 2048))"
proof
  have I: "init_val init" "mutex_inv init S" using mutex_reach_inv [OF assms(1,2)] by simp_all
  obtain n v where n: "r \<noteq> 0 \<longrightarrow> v = m_value S"
    "\<forall>evs. mutex_run (Enter t Call_destroy # replicate n (Run t False None) @ evs) S =
      mutex_run evs (S\<lparr>m_value := v, m_pc := (m_pc S)(t := try_end True r), m_depth := if r = 0 then (m_depth S)(t := m_depth S t + 1) else m_depth S\<rparr>)"
    using run_trylock [OF I assms(3,4), of Call_destroy True] unfolding r_def by auto
  have a: "t \<notin> set (m_asleep S)" using I(2) assms(4) by (simp add: mutex_inv_def)
  show "\<exists>n S'. mutex_run (Enter t Call_destroy # replicate n (Run t False None)) S = Some S' \<and> m_pc S' = (m_pc S)(t := Returned r) \<and>
      m_value S' = (if r = 0 then 0xdead10cc else m_value S) \<and> m_asleep S' = m_asleep S"
  proof (cases "r = 0")
    case True
    have e: "replicate (n + 2) x = replicate n x @ [x, x]" for x :: mutex_event
      by (simp only: replicate_add) (simp add: numeral_2_eq_2)
    show ?thesis using spec [OF n(2), of "[Run t False None, Run t False None]"] a True
      by (intro exI [of _ "n + 2"], unfold e) (simp add: try_end_def mutex_step_def apply_effect_def)
  next
    case False
    then show ?thesis using spec [OF n(2), of "[]"] n(1) by (intro exI [of _ n]) (simp add: try_end_def)
  qed
  have lw: "lock_word init (m_depth S) (m_value S)" using I(2) by (simp add: mutex_inv_def)
  have "0 < m_depth S t \<Longrightarrow> \<not> is_normal init \<Longrightarrow> m_depth S t \<le> 2048" using load_owned(6) [OF I(1) _ lw assms(3)] by (simp split: if_splits)
  then show "r = 0 \<longleftrightarrow> (\<forall>u. m_depth S u = 0) \<or> (init AND MUTEX_TYPE_MASK = MUTEX_TYPE_BITS_RECURSIVE \<and> 0 < m_depth S t \<and> m_depth S t < 2048)"
    using init_kinds [OF I(1)] init_val_ok(4) [OF I(1)]
    by (auto simp: r_def trylock_answer_def EBUSY_def EDEADLK_def EAGAIN_def is_recursive_def [symmetric])
qed

text \<open>
  C34: \<open>pthread_mutex_unlock\<close> alone, in any reachable state. It takes one level from the caller; on the
  last one the word is again that of the new mutex, and when it said contended one of the sleepers, any,
  is woken. On a recursive or error-checking mutex a caller without the lock gets \<open>EPERM\<close> and changes
  nothing. So every release of a contended lock lets a sleeper go on.
\<close>

theorem mutex_unlock_answer:
  assumes "mutex_reach init calls S" and "Call_destroy \<notin> calls" and "tid_ok t" and "m_pc S t = Returned e0"
    and "init AND MUTEX_TYPE_MASK = MUTEX_TYPE_BITS_NORMAL \<Longrightarrow> 0 < m_depth S t" and "wakes w (m_asleep S)"
  shows "\<exists>n S'. mutex_run (Enter t Call_unlock # replicate n (Run t False w)) S = Some S' \<and>
    m_pc S' t = Returned (if m_depth S t = 0 then EPERM else 0) \<and> m_depth S' = (m_depth S)(t := m_depth S t - 1) \<and>
    m_value S' = (if m_depth S t = 0 then m_value S else if m_depth S t = 1 then init else m_value S - MUTEX_COUNTER_BITS_ONE) \<and>
    m_asleep S' = (if m_depth S t = 1 \<and> MUTEX_STATE_BITS_IS_LOCKED_CONTENDED (m_value S) then woken_off w (m_asleep S) else m_asleep S)"
proof -
  have I: "init_val init" "mutex_inv init S" using mutex_reach_inv [OF assms(1,2)] by simp_all
  have c: "MUTEX_STATE_BITS_IS_LOCKED_CONTENDED (m_value S) \<longleftrightarrow> contended (m_value S)" by (simp add: mutex_codes contended_def)
  show ?thesis
  proof (cases "is_normal init")
    case True
    then have d: "0 < m_depth S t" using assms(5) by (simp add: is_normal_def)
    moreover have "lock_word init (m_depth S) (m_value S)" using I(2) by (simp add: mutex_inv_def)
    ultimately have "m_depth S t = 1" unfolding normal_lock_word [OF I(1) True] by (metis less_numeral_extra(3))
    then show ?thesis using run_unlock_normal [OF I assms(3,4) True d assms(6)] unfolding c by simp
  next
    case False
    then show ?thesis using run_unlock_owned [OF I assms(3,4) False assms(6)] unfolding c field_consts by blast
  qed
qed

text \<open>A state in which thread 1 holds a recursive mutex and thread 3 sleeps.\<close>

definition held_state :: mutex_state where
  "held_state = \<lparr>m_value = 0x14002, m_pc = (\<lambda>_. Returned 0)(3 := Lock (Lock_asleep 0x4000)), m_depth = (\<lambda>_. 0)(1 := 1), m_asleep = [3]\<rparr>"

lemma held_runs: "client_run 0x4000 {Call_lock, Call_unlock, Call_trylock}
    [Enter 1 Call_lock, Run 1 False None, Run 1 False None, Enter 3 Call_lock, Run 3 False None, Run 3 False None, Run 3 False None]
    (mutex_start 0x4000) = Some held_state"
  by (simp add: run_simps held_state_def) (simp add: fun_eq_iff)

lemma held_reach: "mutex_reach 0x4000 {Call_lock, Call_unlock, Call_trylock} held_state" "Call_destroy \<notin> {Call_lock, Call_unlock, Call_trylock}"
  using client_run_start [OF held_runs recursive_init] by simp_all

lemma held_facts: "0 < m_depth held_state 1" "(0x4000 :: u32) AND MUTEX_TYPE_MASK \<noteq> MUTEX_TYPE_BITS_NORMAL"
  "3 \<in> set (m_asleep held_state)" "tid_ok 1" "m_pc held_state 1 = Returned 0" "wakes (Some 3) (m_asleep held_state)"
  by (simp_all add: held_state_def field_consts tid_ok_def wakes_def)

theorem mutex_exclusion_witness:
  "(\<exists>t. 0 < m_depth held_state t) \<and> MUTEX_OWNER_FROM_BITS (m_value held_state) = 1 \<and> m_depth held_state 1 \<le> 2048"
  using mutex_exclusion [OF held_reach] held_facts(1,2) by blast

theorem mutex_no_lost_wakeup_witness:
  "((\<exists>t. 0 < m_depth held_state t) \<and> MUTEX_STATE_BITS_IS_LOCKED_CONTENDED (m_value held_state)) \<or>
    (\<exists>t. t \<notin> set (m_asleep held_state) \<and> wake_pending (m_pc held_state t))"
  by (rule mutex_no_lost_wakeup [OF held_reach _ held_facts(3)]) simp

theorem mutex_trylock_answer_witness:
  "trylock_answer 0x4000 (m_depth held_state) 1 = 0 \<and>
   (\<exists>n S'. mutex_run (Enter 1 Call_trylock # replicate n (Run 1 False None)) held_state = Some S' \<and> m_depth S' 1 = 2)"
proof
  show a: "trylock_answer 0x4000 (m_depth held_state) 1 = 0"
    by (simp add: trylock_answer_def held_state_def is_normal_def is_errorcheck_def field_consts)
  show "\<exists>n S'. mutex_run (Enter 1 Call_trylock # replicate n (Run 1 False None)) held_state = Some S' \<and> m_depth S' 1 = 2"
  proof -
    have d: "m_depth held_state 1 + 1 = 2" by (simp add: held_state_def)
    show ?thesis using mutex_trylock_answer [OF held_reach held_facts(4,5)] unfolding a d by (metis fun_upd_same)
  qed
qed

theorem mutex_destroy_answer_witness:
  "\<exists>n S'. mutex_run (Enter 1 Call_destroy # replicate n (Run 1 False None)) held_state = Some S' \<and> m_value S' = 0xdead10cc"
proof -
  have a: "trylock_answer 0x4000 (m_depth held_state) 1 = 0"
    by (simp add: trylock_answer_def held_state_def is_normal_def is_errorcheck_def field_consts)
  show ?thesis using mutex_destroy_answer [OF held_reach held_facts(4,5)] unfolding a by auto
qed

theorem mutex_unlock_answer_witness:
  "\<exists>n S'. mutex_run (Enter 1 Call_unlock # replicate n (Run 1 False (Some 3))) held_state = Some S' \<and> m_value S' = 0x4000 \<and> m_asleep S' = []"
proof -
  have c: "MUTEX_STATE_BITS_IS_LOCKED_CONTENDED (m_value held_state)" "m_depth held_state 1 = 1" "woken_off (Some 3) (m_asleep held_state) = []"
    by (simp_all add: mutex_codes held_state_def woken_off_def)
  show ?thesis using mutex_unlock_answer [OF held_reach held_facts(4,5) _ held_facts(6)] held_facts(2) c by auto
qed

end
