(* ===== verification/MutexDebug.thy ===== *)
theory MutexDebug
  imports Prelude
begin

text \<open>
  The record of held locks, \<open>src/debugfs/android50/system/core/unwind/mutexdebug.cpp\<close>: the hooks that
  \<open>_normal_lock\<close> and \<open>_normal_unlock\<close> of \<open>pthread_mutex.cpp\<close> call, and the list of records (mutex,
  thread, backtrace) from which \<open>dump_all_mutex\<close> prints who holds what.

  Records are nodes of a heap, linked by \<open>next\<close>. The two lists are changed under the mutex
  \<open>bt_list.lock\<close>, the table of threads under \<open>backtrace_mutex\<close>; a critical section is one step, and
  \<open>l_locked\<close> says that one was left without its unlock. The frames that the unwinder finds are an
  argument, as is the predicate of the locks that are ignored.
\<close>

section \<open>Backtraces\<close>

definition MUTEX_BACKTACE_COUNT :: nat where "MUTEX_BACKTACE_COUNT = 32"

text \<open>\<open>frames\<close> are the instruction pointers of the successful calls of \<open>unw_step\<close>.\<close>

fun unwind_loop :: "u64 list \<Rightarrow> nat \<Rightarrow> nat \<Rightarrow> u64 list \<Rightarrow> nat \<times> u64 list" where
  "unwind_loop [] count i bt = (i, bt)"
| "unwind_loop (ip # frames) count i bt = (if i < count then unwind_loop frames count (i + 1) (bt[i := ip]) else (i, bt))"

definition unwind_backtrace :: "u64 list \<Rightarrow> u64 list \<Rightarrow> nat \<Rightarrow> u64 list" where
  "unwind_backtrace frames bt count = (case unwind_loop frames count 0 bt of (i, bt) \<Rightarrow> if i < count then bt[i := 0] else bt)"

text \<open>The entries that \<open>dump_backtrace\<close> prints, from number \<open>i\<close> on.\<close>

function dump_frames :: "u64 list \<Rightarrow> nat \<Rightarrow> (nat \<times> u64) list" where
  "dump_frames bt i =
     (if i < MUTEX_BACKTACE_COUNT then (let pc = bt ! i in if pc = 0 then [] else (i, pc) # dump_frames bt (i + 1)) else [])"
  by pat_completeness auto
termination by (relation "measure (\<lambda>(bt, i). MUTEX_BACKTACE_COUNT - i)") auto

section \<open>The lists\<close>

record mutex_backtrace =
  mb_mutex :: nat
  mb_pid :: nat
  mb_trace :: "u64 list"
  mb_next :: "nat option"

record backtrace_list =
  l_heap :: "nat \<Rightarrow> mutex_backtrace"
  l_used :: "nat option"
  l_freed :: "nat option"
  l_locked :: bool

definition getone :: "backtrace_list \<Rightarrow> nat option \<times> backtrace_list" where
  "getone L =
     (case l_freed L of
        None \<Rightarrow> (None, L)
      | Some temp \<Rightarrow> (Some temp,
          L\<lparr>l_freed := mb_next (l_heap L temp), l_heap := (l_heap L)(temp := (l_heap L temp)\<lparr>mb_next := l_used L\<rparr>), l_used := Some temp\<rparr>))"

text \<open>The walk of \<open>putone\<close>: \<open>temp\<close> and \<open>pre\<close> where the loop ends. A cyclic list has no answer.\<close>

partial_function (option) putone_find :: "(nat \<Rightarrow> mutex_backtrace) \<Rightarrow> nat \<Rightarrow> nat option \<Rightarrow> nat option \<Rightarrow> (nat option \<times> nat option) option" where
  "putone_find h mutex temp pre =
     (case temp of
        None \<Rightarrow> Some (None, pre)
      | Some p \<Rightarrow> if mb_mutex (h p) = mutex then Some (temp, pre) else putone_find h mutex (mb_next (h p)) temp)"

definition putone :: "nat \<Rightarrow> nat \<Rightarrow> backtrace_list \<Rightarrow> backtrace_list option" where
  "putone tid mutex L =
     map_option (\<lambda>(temp, pre).
       case temp of
         None \<Rightarrow> L
       | Some p \<Rightarrow>
           if tid \<noteq> mb_pid (l_heap L p) then L\<lparr>l_locked := True\<rparr>
           else
             let L1 = (case pre of
                         Some q \<Rightarrow> L\<lparr>l_heap := (l_heap L)(q := (l_heap L q)\<lparr>mb_next := mb_next (l_heap L p)\<rparr>)\<rparr>
                       | None \<Rightarrow> L\<lparr>l_used := mb_next (l_heap L p)\<rparr>);
                 r = l_heap L1 p
             in L1\<lparr>l_heap := (l_heap L1)(p := \<lparr>mb_mutex = 0, mb_pid = 0, mb_trace = (mb_trace r)[0 := 0], mb_next = l_freed L1\<rparr>),
                   l_freed := Some p\<rparr>)
     (putone_find (l_heap L) mutex (l_used L) None)"

text \<open>\<open>new mutex_backtrace()\<close> sets all fields to 0. The addresses are those that \<open>new\<close> returns, one after the other.\<close>

definition new_backtrace :: mutex_backtrace where
  "new_backtrace = \<lparr>mb_mutex = 0, mb_pid = 0, mb_trace = replicate MUTEX_BACKTACE_COUNT 0, mb_next = None\<rparr>"

definition bt_list_init :: "nat list \<Rightarrow> (nat \<Rightarrow> mutex_backtrace) \<Rightarrow> backtrace_list" where
  "bt_list_init addresses h =
     fold (\<lambda>temp L. L\<lparr>l_heap := (l_heap L)(temp := new_backtrace\<lparr>mb_next := l_freed L\<rparr>), l_freed := Some temp\<rparr>) addresses
       \<lparr>l_heap = h, l_used = None, l_freed = None, l_locked = False\<rparr>"

section \<open>The threads that are in a hook\<close>

text \<open>\<open>backtracing_tid\<close>, a table of 1024 entries, 0 where free.\<close>

definition is_backtracing :: "nat \<Rightarrow> nat list \<Rightarrow> bool" where
  "is_backtracing tid tids \<longleftrightarrow> list_ex (\<lambda>x. tid = x) tids"

fun replace_first :: "nat \<Rightarrow> nat \<Rightarrow> nat list \<Rightarrow> nat list" where
  "replace_first a b [] = []"
| "replace_first a b (x # xs) = (if a = x then b # xs else x # replace_first a b xs)"

definition backtrace_start :: "nat \<Rightarrow> nat list \<Rightarrow> nat list" where
  "backtrace_start tid tids = replace_first 0 tid tids"

definition backtrace_end :: "nat \<Rightarrow> nat list \<Rightarrow> nat list" where
  "backtrace_end tid tids = replace_first tid 0 tids"

text \<open>\<open>own\<close>: the addresses of \<open>bt_list.lock\<close> and \<open>backtrace_mutex\<close>; \<open>other\<close>: the locks of the C library.\<close>

definition is_ignored_lock :: "nat \<Rightarrow> nat \<Rightarrow> (nat \<Rightarrow> bool) \<Rightarrow> nat \<Rightarrow> bool" where
  "is_ignored_lock bt_lock backtrace_mutex other mutex \<longleftrightarrow> mutex = bt_lock \<or> mutex = backtrace_mutex \<or> other mutex"

section \<open>The hooks\<close>

text \<open>
  The points of a hook of one thread. After the lock hook the thread has the mutex and goes on; after
  the unlock hook, at \<open>U_release\<close>, the mutex is given back.
\<close>

datatype hook_pc =
    No_hook
  | L_check nat | L_start nat | L_getone nat | L_set_mutex nat nat | L_set_pid nat nat | L_unwind nat nat | L_end nat
  | U_check nat | U_start nat | U_putone nat | U_end nat | U_release nat

text \<open>
  The holders of the mutexes are the state of \<open>pthread_mutex.cpp\<close>. \<open>d_missed\<close> is not state of the program:
  it collects the held mutexes of which the lock hook made no record.
\<close>

record debug_state =
  d_list :: backtrace_list
  d_tids :: "nat list"
  d_pc :: "nat \<Rightarrow> hook_pc"
  d_holder :: "nat \<Rightarrow> nat option"
  d_missed :: "nat set"

definition miss :: "bool \<Rightarrow> nat \<Rightarrow> debug_state \<Rightarrow> debug_state" where
  "miss b m S = S\<lparr>d_missed := if b then insert m (d_missed S) else d_missed S\<rparr>"

definition set_record :: "nat \<Rightarrow> (mutex_backtrace \<Rightarrow> mutex_backtrace) \<Rightarrow> debug_state \<Rightarrow> debug_state" where
  "set_record p f S = S\<lparr>d_list := (d_list S)\<lparr>l_heap := (l_heap (d_list S))(p := f (l_heap (d_list S) p))\<rparr>\<rparr>"

definition goto :: "nat \<Rightarrow> hook_pc \<Rightarrow> debug_state \<Rightarrow> debug_state" where
  "goto t pc S = S\<lparr>d_pc := (d_pc S)(t := pc)\<rparr>"

text \<open>One step of the hook of thread \<open>t\<close>; \<open>None\<close>: it waits for \<open>bt_list.lock\<close>, or is in no hook.\<close>

definition hook_step :: "(nat \<Rightarrow> bool) \<Rightarrow> u64 list \<Rightarrow> nat \<Rightarrow> debug_state \<Rightarrow> debug_state option" where
  "hook_step ignored frames t S =
     (case d_pc S t of
        No_hook \<Rightarrow> None
      | L_check m \<Rightarrow>
          (let skip = ignored m \<or> is_backtracing t (d_tids S)
           in Some (goto t (if skip then No_hook else L_start m) (miss skip m S)))
      | L_start m \<Rightarrow> Some (goto t (L_getone m) (S\<lparr>d_tids := backtrace_start t (d_tids S)\<rparr>))
      | L_getone m \<Rightarrow>
          if l_locked (d_list S) then None
          else (case getone (d_list S) of (mb, L) \<Rightarrow>
            Some (goto t (case mb of None \<Rightarrow> L_end m | Some p \<Rightarrow> L_set_mutex m p) (miss (mb = None) m (S\<lparr>d_list := L\<rparr>))))
      | L_set_mutex m p \<Rightarrow> Some (goto t (L_set_pid m p) (set_record p (mb_mutex_update (\<lambda>_. m)) S))
      | L_set_pid m p \<Rightarrow> Some (goto t (L_unwind m p) (set_record p (mb_pid_update (\<lambda>_. t)) S))
      | L_unwind m p \<Rightarrow>
          Some (goto t (L_end m) (set_record p (mb_trace_update (\<lambda>bt. unwind_backtrace frames bt MUTEX_BACKTACE_COUNT)) S))
      | L_end m \<Rightarrow> Some (goto t No_hook (S\<lparr>d_tids := backtrace_end t (d_tids S)\<rparr>))
      | U_check m \<Rightarrow> Some (goto t (if ignored m \<or> is_backtracing t (d_tids S) then U_release m else U_start m) S)
      | U_start m \<Rightarrow> Some (goto t (U_putone m) (S\<lparr>d_tids := backtrace_start t (d_tids S)\<rparr>))
      | U_putone m \<Rightarrow>
          if l_locked (d_list S) then None
          else map_option (\<lambda>L. goto t (U_end m) (S\<lparr>d_list := L\<rparr>)) (putone t m (d_list S))
      | U_end m \<Rightarrow> Some (goto t (U_release m) (S\<lparr>d_tids := backtrace_end t (d_tids S)\<rparr>))
      | U_release m \<Rightarrow> Some (goto t No_hook (S\<lparr>d_holder := (d_holder S)(m := None), d_missed := d_missed S - {m}\<rparr>)))"

text \<open>
  Events: a thread gets a free mutex in \<open>_normal_lock\<close>, gets one in a \<open>trylock\<close> or a timed lock, which
  have no hook, calls \<open>_normal_unlock\<close>, or does a step of its hook.
\<close>

datatype debug_event = Ev_lock nat nat | Ev_trylock nat nat | Ev_unlock nat nat | Ev_step nat "u64 list"

fun debug_next :: "(nat \<Rightarrow> bool) \<Rightarrow> debug_event \<Rightarrow> debug_state \<Rightarrow> debug_state option" where
  "debug_next ignored (Ev_lock t m) S =
     (if d_pc S t = No_hook \<and> d_holder S m = None then Some (goto t (L_check m) (S\<lparr>d_holder := (d_holder S)(m \<mapsto> t)\<rparr>)) else None)"
| "debug_next ignored (Ev_trylock t m) S =
     (if d_pc S t = No_hook \<and> d_holder S m = None then Some (miss True m (S\<lparr>d_holder := (d_holder S)(m \<mapsto> t)\<rparr>)) else None)"
| "debug_next ignored (Ev_unlock t m) S = (if d_pc S t = No_hook then Some (goto t (U_check m) S) else None)"
| "debug_next ignored (Ev_step t frames) S = hook_step ignored frames t S"

definition init_mutex_debug :: "nat list \<Rightarrow> (nat \<Rightarrow> mutex_backtrace) \<Rightarrow> debug_state" where
  "init_mutex_debug addresses h =
     \<lparr>d_list = bt_list_init addresses h, d_tids = replicate 1024 0, d_pc = (\<lambda>_. No_hook), d_holder = (\<lambda>_. None), d_missed = {}\<rparr>"

text \<open>
  The runs of a program whose threads are those of \<open>T\<close>. With \<open>own\<close> a mutex is unlocked only by the
  thread that holds it.
\<close>

fun debug_ok :: "nat set \<Rightarrow> bool \<Rightarrow> debug_event \<Rightarrow> debug_state \<Rightarrow> bool" where
  "debug_ok T own (Ev_lock t m) S \<longleftrightarrow> t \<in> T \<and> 0 < m"
| "debug_ok T own (Ev_trylock t m) S \<longleftrightarrow> t \<in> T \<and> 0 < m"
| "debug_ok T own (Ev_unlock t m) S \<longleftrightarrow> t \<in> T \<and> 0 < m \<and> (own \<longrightarrow> d_holder S m = Some t)"
| "debug_ok T own (Ev_step t frames) S \<longleftrightarrow> True"

inductive debug_reach :: "nat list \<Rightarrow> (nat \<Rightarrow> bool) \<Rightarrow> nat set \<Rightarrow> bool \<Rightarrow> debug_state \<Rightarrow> bool" for addresses ignored T own where
  debug_start: "debug_reach addresses ignored T own (init_mutex_debug addresses h)"
| debug_step: "debug_reach addresses ignored T own S \<Longrightarrow> debug_ok T own ev S \<Longrightarrow> debug_next ignored ev S = Some S' \<Longrightarrow>
    debug_reach addresses ignored T own S'"

section \<open>The dump\<close>

text \<open>What \<open>dump_all_mutex\<close> prints: mutex, thread and frames of each record. \<open>None\<close>: it waits for the lock.\<close>

partial_function (option) dump_loop :: "(nat \<Rightarrow> mutex_backtrace) \<Rightarrow> nat option \<Rightarrow> (nat \<times> nat \<times> (nat \<times> u64) list) list option" where
  "dump_loop h temp =
     (case temp of
        None \<Rightarrow> Some []
      | Some p \<Rightarrow>
          Option.bind (dump_loop h (mb_next (h p)))
            (\<lambda>out. Some ((mb_mutex (h p), mb_pid (h p), dump_frames (mb_trace (h p)) 0) # out)))"

definition dump_all_mutex :: "debug_state \<Rightarrow> (nat \<times> nat \<times> (nat \<times> u64) list) list option" where
  "dump_all_mutex S = (if l_locked (d_list S) then None else dump_loop (l_heap (d_list S)) (l_used (d_list S)))"

end
