(* ===== verification/MutexDebugProof.thy ===== *)
theory MutexDebugProof
  imports MutexDebug
begin

text \<open>
  The record of held locks is right for every interleaving of the hooks: the dump names the holders, no
  record is lost, no hook runs within a hook; and the early return of \<open>putone\<close> that blocks all hooks.
\<close>

section \<open>Backtraces\<close>

lemma unwind_loop_spec:
  "i \<le> count \<Longrightarrow> length bt = count \<Longrightarrow> unwind_loop frames count i bt =
     (let n = min (length frames) (count - i) in (i + n, take i bt @ take n frames @ drop (i + n) bt))"
proof (induction frames count i bt rule: unwind_loop.induct)
  case (2 ip frames count i bt)
  show ?case
  proof (cases "i < count")
    case True
    then have "unwind_loop (ip # frames) count i bt =
        (let n = min (length frames) (count - (i + 1)) in (i + 1 + n, take (i + 1) (bt[i := ip]) @ take n frames @ drop (i + 1 + n) (bt[i := ip])))"
      using 2 by simp
    moreover have "take (i + 1) (bt[i := ip]) = take i bt @ [ip]" using True 2 by (simp add: take_Suc_conv_app_nth)
    moreover have "min (length (ip # frames)) (count - i) = Suc (min (length frames) (count - (i + 1)))" using True by auto
    ultimately show ?thesis using True by (simp add: Let_def)
  qed (use 2 in simp)
qed simp

lemma unwind_backtrace_spec:
  assumes "length bt = count"
  shows "unwind_backtrace frames bt count =
    (if length frames < count then frames @ 0 # drop (Suc (length frames)) bt else take count frames)"
  using unwind_loop_spec [of 0 count bt frames] assms
  by (auto simp: unwind_backtrace_def Let_def min_def list_update_append Cons_nth_drop_Suc [symmetric] simp flip: Cons_nth_drop_Suc)

lemma length_unwind [simp]: "length (unwind_backtrace frames bt (length bt)) = length bt"
  using unwind_backtrace_spec [of bt "length bt" frames] by auto

declare dump_frames.simps [simp del]

lemma dump_frames_spec:
  "length bt = MUTEX_BACKTACE_COUNT \<Longrightarrow> i \<le> MUTEX_BACKTACE_COUNT \<Longrightarrow>
   dump_frames bt i = enumerate i (takeWhile (\<lambda>pc. pc \<noteq> 0) (drop i bt))"
proof (induction bt i rule: dump_frames.induct)
  case (1 bt i)
  show ?case
  proof (cases "i < MUTEX_BACKTACE_COUNT")
    case True
    then have "drop i bt = bt ! i # drop (Suc i) bt" using 1 by (simp add: Cons_nth_drop_Suc)
    then show ?thesis using 1 True by (subst dump_frames.simps) (simp add: Let_def)
  qed (use 1 in \<open>subst dump_frames.simps, simp\<close>)
qed

text \<open>
  A dump prints the backtrace that the unwinder found. Whatever the record held before, it prints the
  first 32 frames in order with their numbers, up to a frame whose instruction pointer is 0.
\<close>

theorem backtrace_roundtrip:
  assumes "length bt = MUTEX_BACKTACE_COUNT"
  shows "dump_frames (unwind_backtrace frames bt MUTEX_BACKTACE_COUNT) 0 =
    enumerate 0 (takeWhile (\<lambda>pc. pc \<noteq> 0) (take MUTEX_BACKTACE_COUNT frames))"
proof -
  have "length (unwind_backtrace frames bt MUTEX_BACKTACE_COUNT) = MUTEX_BACKTACE_COUNT" using length_unwind [of frames bt] assms by simp
  then have "dump_frames (unwind_backtrace frames bt MUTEX_BACKTACE_COUNT) 0 =
      enumerate 0 (takeWhile (\<lambda>pc. pc \<noteq> 0) (unwind_backtrace frames bt MUTEX_BACKTACE_COUNT))"
    using dump_frames_spec [of "unwind_backtrace frames bt MUTEX_BACKTACE_COUNT" 0] by simp
  also have "takeWhile (\<lambda>pc. pc \<noteq> 0) (frames @ 0 # xs) = takeWhile (\<lambda>pc. pc \<noteq> (0 :: u64)) frames" for xs
  proof (cases "\<forall>x \<in> set frames. x \<noteq> 0")
    case True
    then have e: "takeWhile (\<lambda>pc. pc \<noteq> 0) frames = frames" by (simp only: takeWhile_eq_all_conv)
    have "takeWhile (\<lambda>pc. pc \<noteq> 0) (frames @ 0 # xs) = frames @ takeWhile (\<lambda>pc. pc \<noteq> 0) (0 # xs)"
      using True by (intro takeWhile_append2) simp
    then show ?thesis unfolding e by simp
  next
    case False
    then show ?thesis by (intro takeWhile_append1 [of 0]) auto
  qed
  then have "takeWhile (\<lambda>pc. pc \<noteq> 0) (unwind_backtrace frames bt MUTEX_BACKTACE_COUNT) =
      takeWhile (\<lambda>pc. pc \<noteq> 0) (take MUTEX_BACKTACE_COUNT frames)"
    using unwind_backtrace_spec [OF assms, of frames] by simp
  finally show ?thesis .
qed

theorem backtrace_roundtrip_witness:
  "dump_frames (unwind_backtrace [7, 9] (replicate MUTEX_BACKTACE_COUNT 5) MUTEX_BACKTACE_COUNT) 0 = [(0, 7), (1, 9)]"
  using backtrace_roundtrip [of "replicate MUTEX_BACKTACE_COUNT 5" "[7, 9]"] by (simp add: MUTEX_BACKTACE_COUNT_def)

section \<open>Linked lists\<close>

fun chain :: "(nat \<Rightarrow> mutex_backtrace) \<Rightarrow> nat option \<Rightarrow> nat list \<Rightarrow> bool" where
  "chain h p [] \<longleftrightarrow> p = None"
| "chain h p (x # xs) \<longleftrightarrow> p = Some x \<and> chain h (mb_next (h x)) xs"

lemma chain_other [simp]: "q \<notin> set xs \<Longrightarrow> chain (h(q := r)) p xs = chain h p xs"
  by (induction xs arbitrary: p) auto

lemma chain_same_next: "mb_next r = mb_next (h q) \<Longrightarrow> chain (h(q := r)) p xs = chain h p xs"
  by (induction xs arbitrary: p) auto

lemma chain_unlink:
  "chain h p (ys @ q # x # zs) \<Longrightarrow> distinct (ys @ q # x # zs) \<Longrightarrow>
   chain (h(q := (h q)\<lparr>mb_next := mb_next (h x)\<rparr>)) p (ys @ q # zs)"
  by (induction ys arbitrary: p) auto

lemma putone_find_none:
  "chain h start xs \<Longrightarrow> \<forall>p \<in> set xs. mb_mutex (h p) \<noteq> m \<Longrightarrow> \<exists>pre'. putone_find h m start pre = Some (None, pre')"
  by (induction xs arbitrary: start pre) (auto simp: putone_find.simps [of h m])

lemma putone_find_some:
  "chain h start (ys @ p # zs) \<Longrightarrow> \<forall>q \<in> set ys. mb_mutex (h q) \<noteq> m \<Longrightarrow> mb_mutex (h p) = m \<Longrightarrow>
   putone_find h m start pre = Some (Some p, if ys = [] then pre else Some (last ys))"
proof (induction ys arbitrary: start pre)
  case Nil
  then show ?case by (simp add: putone_find.simps [of h m])
next
  case (Cons y ys)
  then have "putone_find h m (mb_next (h y)) (Some y) = Some (Some p, if ys = [] then Some y else Some (last ys))" by simp
  then show ?case using Cons.prems by (simp add: putone_find.simps [of h m "Some y"])
qed

text \<open>The two lists, by their nodes.\<close>

definition lists :: "backtrace_list \<Rightarrow> nat list \<Rightarrow> nat list \<Rightarrow> bool" where
  "lists L us fs \<longleftrightarrow> chain (l_heap L) (l_used L) us \<and> chain (l_heap L) (l_freed L) fs \<and> distinct (us @ fs) \<and> \<not> l_locked L"

lemma getone_none: "lists L us [] \<Longrightarrow> getone L = (None, L)"
  by (simp add: lists_def getone_def)

lemma getone_some:
  assumes "lists L us (p # fs)"
  shows "\<exists>L'. getone L = (Some p, L') \<and> lists L' (p # us) fs \<and> (\<forall>q. l_heap L' q = (l_heap L q)\<lparr>mb_next := mb_next (l_heap L' q)\<rparr>)"
  using assms by (auto simp: lists_def getone_def)

lemma putone_none:
  assumes "lists L us fs" and "\<forall>p \<in> set us. mb_mutex (l_heap L p) \<noteq> m"
  shows "putone t m L = Some L"
  using putone_find_none [of "l_heap L" "l_used L" us m None] assms by (auto simp: lists_def putone_def)

lemma putone_other:
  assumes "lists L (ys @ p # zs) fs" and "\<forall>q \<in> set ys. mb_mutex (l_heap L q) \<noteq> m" and "mb_mutex (l_heap L p) = m" "mb_pid (l_heap L p) \<noteq> t"
  shows "putone t m L = Some (L\<lparr>l_locked := True\<rparr>)"
  using putone_find_some [of "l_heap L" "l_used L" ys p zs m None] assms by (simp add: lists_def putone_def)

lemma putone_some:
  assumes "lists L (ys @ p # zs) fs" and "\<forall>q \<in> set ys. mb_mutex (l_heap L q) \<noteq> m" and "mb_mutex (l_heap L p) = m" "mb_pid (l_heap L p) = t"
  shows "\<exists>L'. putone t m L = Some L' \<and> lists L' (ys @ zs) (p # fs) \<and> mb_mutex (l_heap L' p) = 0 \<and> mb_pid (l_heap L' p) = 0 \<and>
    length (mb_trace (l_heap L' p)) = length (mb_trace (l_heap L p)) \<and>
    (\<forall>q. q \<noteq> p \<longrightarrow> l_heap L' q = (l_heap L q)\<lparr>mb_next := mb_next (l_heap L' q)\<rparr>)"
proof -
  note f = putone_find_some [of "l_heap L" "l_used L" ys p zs m None]
  have l: "chain (l_heap L) (l_used L) (ys @ p # zs)" "chain (l_heap L) (l_freed L) fs" "distinct (ys @ p # zs @ fs)" "\<not> l_locked L"
    using assms(1) by (simp_all add: lists_def)
  show ?thesis
  proof (cases ys rule: rev_cases)
    case Nil
    then show ?thesis using f l assms by (auto simp: putone_def lists_def)
  next
    case (snoc xs q)
    then have c: "chain ((l_heap L)(q := (l_heap L q)\<lparr>mb_next := mb_next (l_heap L p)\<rparr>)) (l_used L) (xs @ q # zs)"
      using chain_unlink [of "l_heap L" "l_used L" xs q p zs] l(1,3) by auto
    have "q \<noteq> p" "q \<notin> set fs" "p \<notin> set (xs @ q # zs)" "p \<notin> set fs" using l(3) snoc by auto
    then show ?thesis using f l c snoc assms(2-4) by (auto simp: putone_def lists_def)
  qed
qed

section \<open>The invariant of the hooks\<close>

fun pc_mutex :: "hook_pc \<Rightarrow> nat option" where
  "pc_mutex No_hook = None"
| "pc_mutex (L_check m) = Some m" | "pc_mutex (L_start m) = Some m" | "pc_mutex (L_getone m) = Some m"
| "pc_mutex (L_set_mutex m p) = Some m" | "pc_mutex (L_set_pid m p) = Some m" | "pc_mutex (L_unwind m p) = Some m"
| "pc_mutex (L_end m) = Some m" | "pc_mutex (U_check m) = Some m" | "pc_mutex (U_start m) = Some m"
| "pc_mutex (U_putone m) = Some m" | "pc_mutex (U_end m) = Some m" | "pc_mutex (U_release m) = Some m"

text \<open>The record that the thread is filling in.\<close>

fun pc_node :: "hook_pc \<Rightarrow> nat option" where
  "pc_node (L_set_mutex m p) = Some p" | "pc_node (L_set_pid m p) = Some p" | "pc_node (L_unwind m p) = Some p" | "pc_node pc = None"

text \<open>The points at which the thread has the mutex of the call, and no record of it.\<close>

fun unrecorded :: "hook_pc \<Rightarrow> bool" where
  "unrecorded (L_check m) = True" | "unrecorded (L_start m) = True" | "unrecorded (L_getone m) = True"
| "unrecorded (U_end m) = True" | "unrecorded (U_release m) = True" | "unrecorded pc = False"

fun in_table :: "hook_pc \<Rightarrow> bool" where
  "in_table (L_getone m) = True" | "in_table (L_set_mutex m p) = True" | "in_table (L_set_pid m p) = True" | "in_table (L_unwind m p) = True"
| "in_table (L_end m) = True" | "in_table (U_putone m) = True" | "in_table (U_end m) = True" | "in_table pc = False"

fun getting :: "hook_pc \<Rightarrow> bool" where
  "getting (L_check m) = True" | "getting (L_start m) = True" | "getting (L_getone m) = True" | "getting pc = False"

text \<open>What the record \<open>p\<close> of mutex \<open>m\<close> says, by the point at which the holder of \<open>m\<close> is.\<close>

definition record_says :: "(nat \<Rightarrow> mutex_backtrace) \<Rightarrow> (nat \<Rightarrow> hook_pc) \<Rightarrow> (nat \<Rightarrow> nat option) \<Rightarrow> nat \<Rightarrow> nat \<Rightarrow> bool" where
  "record_says h pcs holder p m \<longleftrightarrow>
     (case holder m of None \<Rightarrow> False | Some t \<Rightarrow>
       0 < m \<and> 0 < t \<and> \<not> (pc_mutex (pcs t) = Some m \<and> unrecorded (pcs t)) \<and>
       mb_mutex (h p) = (if pcs t = L_set_mutex m p then 0 else m) \<and>
       mb_pid (h p) = (if pcs t = L_set_mutex m p \<or> pcs t = L_set_pid m p then 0 else t))"

text \<open>The lists and records. \<open>A\<close> is the mutex that a used record is for.\<close>

definition records_inv :: "nat list \<Rightarrow> (nat \<Rightarrow> bool) \<Rightarrow> debug_state \<Rightarrow> nat list \<Rightarrow> nat list \<Rightarrow> (nat \<Rightarrow> nat) \<Rightarrow> bool" where
  "records_inv addresses ignored S us fs A \<longleftrightarrow>
     lists (d_list S) us fs \<and> set (us @ fs) = set addresses \<and> inj_on A (set us) \<and>
     (\<forall>p \<in> set us. record_says (l_heap (d_list S)) (d_pc S) (d_holder S) p (A p) \<and> A p \<notin> d_missed S \<and> \<not> ignored (A p)) \<and>
     (\<forall>p \<in> set fs. mb_mutex (l_heap (d_list S) p) = 0 \<and> mb_pid (l_heap (d_list S) p) = 0) \<and>
     (\<forall>t p. pc_node (d_pc S t) = Some p \<longrightarrow> p \<in> set us \<and> pc_mutex (d_pc S t) = Some (A p)) \<and>
     (\<forall>m t. d_holder S m = Some t \<longrightarrow> m \<notin> d_missed S \<longrightarrow> \<not> (pc_mutex (d_pc S t) = Some m \<and> unrecorded (d_pc S t)) \<longrightarrow> m \<in> A ` set us)"

text \<open>The threads in their hooks.\<close>

definition threads_inv :: "(nat \<Rightarrow> bool) \<Rightarrow> debug_state \<Rightarrow> bool" where
  "threads_inv ignored S \<longleftrightarrow>
     (\<forall>t m. pc_mutex (d_pc S t) = Some m \<longrightarrow> 0 < m \<and> 0 < t \<and> d_holder S m = Some t) \<and>
     (\<forall>t m. pc_mutex (d_pc S t) = Some m \<longrightarrow> getting (d_pc S t) \<longrightarrow> m \<notin> d_missed S \<and> (d_pc S t \<noteq> L_check m \<longrightarrow> \<not> ignored m)) \<and>
     (\<forall>m. m \<in> d_missed S \<longrightarrow> d_holder S m \<noteq> None) \<and>
     (\<forall>m t. d_holder S m = Some t \<longrightarrow> 0 < m \<and> 0 < t)"

definition table_inv :: "debug_state \<Rightarrow> bool" where
  "table_inv S \<longleftrightarrow> length (d_tids S) = 1024 \<and> (\<forall>t. 0 < t \<longrightarrow> count_list (d_tids S) t \<le> (if in_table (d_pc S t) then 1 else 0))"

lemma threads_invD:
  assumes "threads_inv ignored S"
  shows "pc_mutex (d_pc S t) = Some m \<Longrightarrow> 0 < m \<and> 0 < t \<and> d_holder S m = Some t"
    "pc_mutex (d_pc S t) = Some m \<Longrightarrow> getting (d_pc S t) \<Longrightarrow> m \<notin> d_missed S \<and> (d_pc S t \<noteq> L_check m \<longrightarrow> \<not> ignored m)"
    "m \<in> d_missed S \<Longrightarrow> d_holder S m \<noteq> None" "d_holder S m = Some t \<Longrightarrow> 0 < m \<and> 0 < t"
  using assms unfolding threads_inv_def by blast+

lemma count_replace:
  "a \<noteq> b \<Longrightarrow> count_list (replace_first a b xs) x =
     (if a \<in> set xs then (if x = b then count_list xs x + 1 else if x = a then count_list xs x - 1 else count_list xs x) else count_list xs x)"
  by (induction xs) auto

lemma length_replace [simp]: "length (replace_first a b xs) = length xs"
  by (induction xs) auto

lemma table_invD: "table_inv S \<Longrightarrow> 0 < t \<Longrightarrow> count_list (d_tids S) t \<le> (if in_table (d_pc S t) then 1 else 0)"
  by (simp add: table_inv_def)

lemma not_backtracing: "table_inv S \<Longrightarrow> 0 < t \<Longrightarrow> \<not> in_table (d_pc S t) \<Longrightarrow> \<not> is_backtracing t (d_tids S)"
  using table_invD [of S t] by (simp add: is_backtracing_def list_ex_iff count_list_0_iff)

text \<open>The table after an event.\<close>

lemma table_upd:
  assumes "table_inv S" and "length tids = 1024" and "count_list tids t \<le> (if in_table pc then 1 else 0)"
    and "\<And>u. 0 < u \<Longrightarrow> u \<noteq> t \<Longrightarrow> count_list tids u = count_list (d_tids S) u"
    and "d_tids S' = tids" "d_pc S' = (d_pc S)(t := pc)"
  shows "table_inv S'"
  unfolding table_inv_def assms(5,6)
proof (intro conjI allI impI)
  show "count_list tids u \<le> (if in_table (((d_pc S)(t := pc)) u) then 1 else 0)" if "0 < u" for u
    using assms(3) assms(4) [OF that] table_invD [OF assms(1) that] by (cases "u = t") simp_all
qed (rule assms(2))

lemma table_start:
  assumes "table_inv S" "0 < t" "\<not> in_table (d_pc S t)" "in_table pc"
    and "d_tids S' = backtrace_start t (d_tids S)" "d_pc S' = (d_pc S)(t := pc)"
  shows "table_inv S'"
proof (rule table_upd [OF assms(1) _ _ _ assms(5,6)])
  show "length (backtrace_start t (d_tids S)) = 1024" using assms(1) by (simp add: table_inv_def backtrace_start_def)
  show "count_list (backtrace_start t (d_tids S)) t \<le> (if in_table pc then 1 else 0)"
    using table_invD [OF assms(1,2)] assms(2-4) by (simp add: backtrace_start_def count_replace)
qed (use assms(2) in \<open>simp add: backtrace_start_def count_replace\<close>)

lemma table_end:
  assumes "table_inv S" "0 < t"
    and "d_tids S' = backtrace_end t (d_tids S)" "d_pc S' = (d_pc S)(t := pc)"
  shows "table_inv S'"
proof (rule table_upd [OF assms(1) _ _ _ assms(3,4)])
  show "length (backtrace_end t (d_tids S)) = 1024" using assms(1) by (simp add: table_inv_def backtrace_end_def)
  have "count_list (d_tids S) t \<le> 1" using table_invD [OF assms(1,2)] by (simp split: if_splits)
  then show "count_list (backtrace_end t (d_tids S)) t \<le> (if in_table pc then 1 else 0)"
    using assms(2) by (auto simp: backtrace_end_def count_replace count_list_0_iff)
qed (use assms(2) in \<open>simp add: backtrace_end_def count_replace\<close>)

lemma table_same:
  assumes "table_inv S" "in_table (d_pc S t) \<longrightarrow> in_table pc" "0 < t" "d_tids S' = d_tids S" "d_pc S' = (d_pc S)(t := pc)"
  shows "table_inv S'"
  by (rule table_upd [OF assms(1) _ _ _ assms(4,5)])
    (use assms(1,2) table_invD [OF assms(1,3)] in \<open>auto simp: table_inv_def split: if_splits\<close>)

lemmas step_simps = hook_step_def goto_def miss_def set_record_def Let_def

lemma table_step:
  assumes "threads_inv ignored S" and "table_inv S" and "hook_step ignored frames t S = Some S'"
  shows "table_inv S'"
proof -
  have t: "pc_mutex (d_pc S t) = Some m \<Longrightarrow> 0 < t" for m using threads_invD(1) [OF assms(1)] by blast
  note same = table_same [OF assms(2), where t = t and S' = S'] and start = table_start [OF assms(2), where t = t and S' = S']
    and stop = table_end [OF assms(2), where t = t and S' = S']
  show ?thesis
  proof (cases "d_pc S t")
    case No_hook
    then show ?thesis using assms(3) by (simp add: hook_step_def)
  next
    case (L_start m)
    then show ?thesis using assms(3) t by (intro start [of "L_getone m"]) (auto simp: step_simps)
  next
    case (L_end m)
    then show ?thesis using assms(3) t by (intro stop [of No_hook]) (auto simp: step_simps)
  next
    case (U_start m)
    then show ?thesis using assms(3) t by (intro start [of "U_putone m"]) (auto simp: step_simps)
  next
    case (U_end m)
    then show ?thesis using assms(3) t by (intro stop [of "U_release m"]) (auto simp: step_simps)
  qed (rule same [of "d_pc S' t"]; use assms(3) t in \<open>auto simp: step_simps split: if_splits option.splits prod.splits\<close>)+
qed

text \<open>An event of thread \<open>t\<close> about mutex \<open>m\<close>.\<close>

lemma threads_unique:
  "threads_inv ignored S \<Longrightarrow> d_holder S m = Some t \<or> d_holder S m = None \<Longrightarrow> u \<noteq> t \<Longrightarrow> pc_mutex (d_pc S u) \<noteq> Some m"
  using threads_invD(1) [of ignored S u m] by auto

lemma threads_upd:
  assumes inv: "threads_inv ignored S" and h: "d_holder S m = Some t \<or> d_holder S m = None"
    and S': "d_pc S' = (d_pc S)(t := pc)" "d_holder S' = (d_holder S)(m := x)" "\<And>k. k \<noteq> m \<Longrightarrow> k \<in> d_missed S' \<longleftrightarrow> k \<in> d_missed S"
    and x: "m \<in> d_missed S' \<Longrightarrow> x \<noteq> None" "\<And>u. x = Some u \<Longrightarrow> 0 < m \<and> 0 < u"
    and pc: "pc = No_hook \<or> pc_mutex pc = Some m \<and> x = Some t \<and> (getting pc \<longrightarrow> m \<notin> d_missed S' \<and> (pc \<noteq> L_check m \<longrightarrow> \<not> ignored m))"
  shows "threads_inv ignored S'"
  unfolding threads_inv_def
proof (intro conjI allI impI)
  fix u k
  show k: "0 < k" "0 < u" "d_holder S' k = Some u" if "pc_mutex (d_pc S' u) = Some k"
  proof -
    have "u \<noteq> t \<Longrightarrow> k \<noteq> m \<and> pc_mutex (d_pc S u) = Some k" using threads_unique [OF inv h, of u] that S'(1) by auto
    then have "0 < k \<and> 0 < u \<and> d_holder S' k = Some u"
      using pc x(2) that S'(1,2) threads_invD(1) [OF inv, of u k] by (cases "u = t") auto
    then show "0 < k" "0 < u" "d_holder S' k = Some u" by simp_all
  qed
  show "k \<notin> d_missed S'" "d_pc S' u \<noteq> L_check k \<Longrightarrow> \<not> ignored k" if "pc_mutex (d_pc S' u) = Some k" "getting (d_pc S' u)"
  proof -
    have "u \<noteq> t \<Longrightarrow> k \<noteq> m \<and> pc_mutex (d_pc S u) = Some k" using threads_unique [OF inv h, of u] that S'(1) by auto
    then have "k \<notin> d_missed S' \<and> (d_pc S' u \<noteq> L_check k \<longrightarrow> \<not> ignored k)"
      using pc that S'(1,3) threads_invD(2) [OF inv, of u k] by (cases "u = t") auto
    then show "k \<notin> d_missed S'" "d_pc S' u \<noteq> L_check k \<Longrightarrow> \<not> ignored k" by simp_all
  qed
  show "d_holder S' k \<noteq> None" if "k \<in> d_missed S'"
    using that x(1) S'(2) S'(3) [of k] threads_invD(3) [OF inv, of k] by (cases "k = m") auto
  show "0 < k" "0 < u" if "d_holder S' k = Some u"
    using that x(2) [of u] S'(2) threads_invD(4) [OF inv, of k u] by (cases "k = m"; simp)+
qed

lemma threads_step:
  assumes "threads_inv ignored S" and "table_inv S" and "hook_step ignored frames t S = Some S'"
  shows "threads_inv ignored S'"
proof (cases "pc_mutex (d_pc S t)")
  case None
  then have "d_pc S t = No_hook" by (cases "d_pc S t") auto
  then show ?thesis using assms(3) by (simp add: hook_step_def)
next
  case (Some m)
  then have t: "0 < t" "d_holder S m = Some t" "0 < m" using threads_invD(1) [OF assms(1)] by auto
  have g: "getting (d_pc S t) \<Longrightarrow> m \<notin> d_missed S \<and> (d_pc S t \<noteq> L_check m \<longrightarrow> \<not> ignored m)" using threads_invD(2) [OF assms(1) Some] .
  have b: "\<not> in_table (d_pc S t) \<Longrightarrow> \<not> is_backtracing t (d_tids S)" using not_backtracing [OF assms(2) t(1)] .
  show ?thesis
    by (rule threads_upd [OF assms(1), of m t S' "d_pc S' t" "d_holder S' m"]; use assms(3) t g b Some in \<open>cases "d_pc S t"\<close>)
      (auto simp: step_simps fun_eq_iff split: if_splits option.splits prod.splits)
qed

lemma records_invD:
  assumes "records_inv addresses ignored S us fs A"
  shows "lists (d_list S) us fs" "set (us @ fs) = set addresses" "inj_on A (set us)"
    "p \<in> set us \<Longrightarrow> record_says (l_heap (d_list S)) (d_pc S) (d_holder S) p (A p) \<and> A p \<notin> d_missed S \<and> \<not> ignored (A p)"
    "p \<in> set fs \<Longrightarrow> mb_mutex (l_heap (d_list S) p) = 0 \<and> mb_pid (l_heap (d_list S) p) = 0"
    "pc_node (d_pc S t) = Some p \<Longrightarrow> p \<in> set us \<and> pc_mutex (d_pc S t) = Some (A p)"
    "d_holder S m = Some t \<Longrightarrow> m \<notin> d_missed S \<Longrightarrow> \<not> (pc_mutex (d_pc S t) = Some m \<and> unrecorded (d_pc S t)) \<Longrightarrow> m \<in> A ` set us"
  using assms unfolding records_inv_def by blast+

lemma node_mutex: "pc = L_set_mutex m p \<or> pc = L_set_pid m p \<Longrightarrow> pc_node pc = Some p \<and> pc_mutex pc = Some m"
  by auto

text \<open>An event of thread \<open>t\<close> about mutex \<open>m\<close> that leaves the lists as they are.\<close>

lemma records_upd:
  assumes inv: "records_inv addresses ignored S us fs A" and h: "d_holder S m = Some t \<or> d_holder S m = None"
    and S': "d_list S' = d_list S" "d_pc S' = (d_pc S)(t := pc)" "d_holder S' = (d_holder S)(m := x)"
      "\<And>k. k \<noteq> m \<Longrightarrow> k \<in> d_missed S' \<longleftrightarrow> k \<in> d_missed S"
    and pc: "pc_mutex (d_pc S t) = None \<or> pc_mutex (d_pc S t) = Some m" "pc = No_hook \<or> pc_mutex pc = Some m" "pc_node (d_pc S t) = None" "pc_node pc = None"
    and yes: "m \<in> A ` set us \<Longrightarrow> x = Some t \<and> d_holder S m = Some t \<and> \<not> unrecorded pc \<and> m \<notin> d_missed S'"
    and no: "\<And>u. m \<notin> A ` set us \<Longrightarrow> x = Some u \<Longrightarrow> m \<in> d_missed S' \<or> u = t \<and> unrecorded pc"
  shows "records_inv addresses ignored S' us fs A"
  unfolding records_inv_def
proof (intro conjI allI impI ballI)
  have n: "pc \<noteq> L_set_mutex k p" "pc \<noteq> L_set_pid k p" "d_pc S t \<noteq> L_set_mutex k p" "d_pc S t \<noteq> L_set_pid k p" for k p
    using pc(3,4) by auto
  show "lists (d_list S') us fs" "set (us @ fs) = set addresses" "inj_on A (set us)" using records_invD(1-3) [OF inv] S'(1) by simp_all
  fix p
  show "mb_mutex (l_heap (d_list S') p) = 0" "mb_pid (l_heap (d_list S') p) = 0" if "p \<in> set fs"
    using records_invD(5) [OF inv that] S'(1) by simp_all
  show "record_says (l_heap (d_list S')) (d_pc S') (d_holder S') p (A p)" "A p \<notin> d_missed S'" "\<not> ignored (A p)" if p: "p \<in> set us"
  proof -
    have r: "record_says (l_heap (d_list S)) (d_pc S) (d_holder S) p (A p)" "A p \<notin> d_missed S" "\<not> ignored (A p)"
      using records_invD(4) [OF inv p] by simp_all
    have y: "A p = m \<Longrightarrow> x = Some t \<and> d_holder S m = Some t \<and> \<not> unrecorded pc \<and> m \<notin> d_missed S'" using p yes by blast
    show "A p \<notin> d_missed S'" "\<not> ignored (A p)" using r S'(4) [of "A p"] y by (cases "A p = m"; simp)+
    show "record_says (l_heap (d_list S')) (d_pc S') (d_holder S') p (A p)"
    proof (cases "A p = m")
      case True
      then show ?thesis using r(1) y n unfolding S'(1-3) record_says_def by simp
    next
      case False
      then have "d_holder S' (A p) = d_holder S (A p)" using S'(3) by simp
      then show ?thesis using r(1) n pc(1,2) False unfolding S'(1,2) record_says_def by (auto split: option.splits)
    qed
  qed
  fix u
  show "p \<in> set us" "pc_mutex (d_pc S' u) = Some (A p)" if "pc_node (d_pc S' u) = Some p"
    using that records_invD(6) [OF inv, of u p] pc(4) S'(2) by (cases "u = t"; simp)+
  fix k
  show "k \<in> A ` set us" if k: "d_holder S' k = Some u" "k \<notin> d_missed S'" "\<not> (pc_mutex (d_pc S' u) = Some k \<and> unrecorded (d_pc S' u))"
  proof (cases "k = m")
    case True
    then show ?thesis using k no [of u] S'(2,3) pc(2) by (metis (no_types) fun_upd_same unrecorded.simps(6))
  next
    case False
    then have "d_holder S k = Some u" "k \<notin> d_missed S" using k S'(3,4) by auto
    moreover have "\<not> (pc_mutex (d_pc S u) = Some k \<and> unrecorded (d_pc S u))" using k(3) S'(2) pc(1) False by (cases "u = t") auto
    ultimately show ?thesis by (rule records_invD(7) [OF inv])
  qed
qed

text \<open>What the mutex of a record says of its holder.\<close>

lemma recorded_holder:
  assumes "records_inv addresses ignored S us fs A" and "m \<in> A ` set us"
  shows "\<exists>t. d_holder S m = Some t \<and> \<not> (pc_mutex (d_pc S t) = Some m \<and> unrecorded (d_pc S t)) \<and> m \<notin> d_missed S \<and> \<not> ignored m"
  using records_invD(4) [OF assms(1)] assms(2) by (force simp: record_says_def split: option.splits)

text \<open>The steps that change no list.\<close>

definition list_pc :: "hook_pc \<Rightarrow> bool" where
  "list_pc pc \<longleftrightarrow> pc_node pc \<noteq> None \<or> (\<exists>m. pc = L_getone m \<or> pc = U_putone m)"

lemma records_step_plain:
  assumes th: "threads_inv ignored S" and tb: "table_inv S" and inv: "records_inv addresses ignored S us fs A"
    and st: "hook_step ignored frames t S = Some S'" and l: "\<not> list_pc (d_pc S t)"
  shows "records_inv addresses ignored S' us fs A"
proof (cases "pc_mutex (d_pc S t)")
  case None
  then have "d_pc S t = No_hook" by (cases "d_pc S t") auto
  then show ?thesis using st by (simp add: hook_step_def)
next
  case (Some m)
  then have t: "0 < t" "d_holder S m = Some t" "0 < m" using threads_invD(1) [OF th] by auto
  have b: "\<not> in_table (d_pc S t) \<Longrightarrow> \<not> is_backtracing t (d_tids S)" using not_backtracing [OF tb t(1)] .
  have y: "m \<in> A ` set us \<Longrightarrow> \<not> unrecorded (d_pc S t) \<and> m \<notin> d_missed S \<and> \<not> ignored m"
    using recorded_holder [OF inv, of m] t(2) Some by auto
  have n: "m \<notin> A ` set us \<Longrightarrow> m \<notin> d_missed S \<Longrightarrow> unrecorded (d_pc S t)" using records_invD(7) [OF inv t(2)] by blast
  show ?thesis
    by (rule records_upd [OF inv, of m t S' "d_pc S' t" "d_holder S' m"]; use st t b y n Some l in \<open>cases "d_pc S t"\<close>)
      (auto simp: step_simps fun_eq_iff list_pc_def split: if_splits)
qed

text \<open>The steps that fill in a record.\<close>

lemma records_fill:
  assumes th: "threads_inv ignored S" and inv: "records_inv addresses ignored S us fs A"
    and p: "pc_node (d_pc S t) = Some p" "pc_mutex (d_pc S t) = Some m"
    and S': "d_pc S' = (d_pc S)(t := pc)" "d_holder S' = d_holder S" "d_missed S' = d_missed S"
      "d_list S' = (d_list S)\<lparr>l_heap := (l_heap (d_list S))(p := r)\<rparr>" "mb_next r = mb_next (l_heap (d_list S) p)"
    and pc: "pc_mutex pc = Some m" "pc_node pc = None \<or> pc_node pc = Some p" "\<not> unrecorded pc"
    and r: "mb_mutex r = (if pc = L_set_mutex m p then 0 else m)" "mb_pid r = (if pc = L_set_mutex m p \<or> pc = L_set_pid m p then 0 else t)"
  shows "records_inv addresses ignored S' us fs A"
  unfolding records_inv_def
proof (intro conjI allI impI ballI)
  have pm: "p \<in> set us" "A p = m" using records_invD(6) [OF inv p(1)] p(2) by auto
  have l: "lists (d_list S) us fs" by (rule records_invD(1) [OF inv])
  then have "p \<notin> set fs" using pm by (auto simp: lists_def)
  show "lists (d_list S') us fs" using l S'(4,5) by (simp add: lists_def chain_same_next)
  show "set (us @ fs) = set addresses" "inj_on A (set us)" using records_invD(2,3) [OF inv] by simp_all
  have t: "d_holder S m = Some t" "0 < m" "0 < t" using threads_invD(1) [OF th p(2)] by simp_all
  fix q
  show "mb_mutex (l_heap (d_list S') q) = 0" "mb_pid (l_heap (d_list S') q) = 0" if "q \<in> set fs"
    using records_invD(5) [OF inv that] S'(4) \<open>p \<notin> set fs\<close> that by auto
  show "record_says (l_heap (d_list S')) (d_pc S') (d_holder S') q (A q)" "A q \<notin> d_missed S'" "\<not> ignored (A q)" if q: "q \<in> set us"
  proof -
    have rq: "record_says (l_heap (d_list S)) (d_pc S) (d_holder S) q (A q)" "A q \<notin> d_missed S" "\<not> ignored (A q)"
      using records_invD(4) [OF inv q] by simp_all
    then show "A q \<notin> d_missed S'" "\<not> ignored (A q)" using S'(3) by simp_all
    show "record_says (l_heap (d_list S')) (d_pc S') (d_holder S') q (A q)"
    proof (cases "q = p")
      case True
      then show ?thesis using r t pc(3) pm S'(1,2,4) by (simp add: record_says_def)
    next
      case False
      then have "A q \<noteq> m" using records_invD(3) [OF inv] q pm by (auto simp: inj_on_def)
      then have "pc \<noteq> L_set_mutex (A q) q" "pc \<noteq> L_set_pid (A q) q" "d_pc S t \<noteq> L_set_mutex (A q) q" "d_pc S t \<noteq> L_set_pid (A q) q"
        using pc(1) p(2) by auto
      then show ?thesis using rq(1) False \<open>A q \<noteq> m\<close> pc(1) p(2) S'(1,2,4) by (auto simp: record_says_def split: option.splits)
    qed
  qed
  fix u
  show "q \<in> set us" "pc_mutex (d_pc S' u) = Some (A q)" if "pc_node (d_pc S' u) = Some q"
    using that records_invD(6) [OF inv, of u q] pc(1,2) S'(1) pm by (cases "u = t"; auto)+
  fix k
  show "k \<in> A ` set us" if k: "d_holder S' k = Some u" "k \<notin> d_missed S'" "\<not> (pc_mutex (d_pc S' u) = Some k \<and> unrecorded (d_pc S' u))"
  proof (cases "k = m")
    case True
    then show ?thesis using pm by blast
  next
    case False
    then have "\<not> (pc_mutex (d_pc S u) = Some k \<and> unrecorded (d_pc S u))" using k(3) S'(1) p(2) by (cases "u = t") auto
    then show ?thesis using k S'(2,3) by (intro records_invD(7) [OF inv, of k u]) simp_all
  qed
qed

text \<open>A new record.\<close>

lemma records_get:
  assumes th: "threads_inv ignored S" and inv: "records_inv addresses ignored S us (p # fs) A"
    and p: "d_pc S t = L_getone m"
    and S': "d_pc S' = (d_pc S)(t := L_set_mutex m p)" "d_holder S' = d_holder S" "d_missed S' = d_missed S"
    and L': "lists (d_list S') (p # us) fs" "\<And>q. mb_mutex (l_heap (d_list S') q) = mb_mutex (l_heap (d_list S) q)"
      "\<And>q. mb_pid (l_heap (d_list S') q) = mb_pid (l_heap (d_list S) q)"
  shows "records_inv addresses ignored S' (p # us) fs (A(p := m))"
  unfolding records_inv_def
proof (intro conjI allI impI ballI)
  have l: "p \<notin> set us" "p \<notin> set fs" using records_invD(1) [OF inv] by (auto simp: lists_def)
  have t: "d_holder S m = Some t" "0 < m" "0 < t" "m \<notin> d_missed S" "\<not> ignored m"
    using threads_invD(1,2) [OF th, of t m] p by simp_all
  have m: "m \<notin> A ` set us" using recorded_holder [OF inv, of m] t(1) p by auto
  show "lists (d_list S') (p # us) fs" by (rule L'(1))
  show "set ((p # us) @ fs) = set addresses" using records_invD(2) [OF inv] by auto
  show "inj_on (A(p := m)) (set (p # us))" using records_invD(3) [OF inv] l m by (auto simp: inj_on_def)
  fix q
  show "mb_mutex (l_heap (d_list S') q) = 0" "mb_pid (l_heap (d_list S') q) = 0" if "q \<in> set fs"
    using records_invD(5) [OF inv, of q] L'(2,3) that by simp_all
  show "record_says (l_heap (d_list S')) (d_pc S') (d_holder S') q ((A(p := m)) q)" "(A(p := m)) q \<notin> d_missed S'" "\<not> ignored ((A(p := m)) q)"
    if q: "q \<in> set (p # us)"
  proof -
    have rq: "record_says (l_heap (d_list S)) (d_pc S) (d_holder S) q (A q) \<and> A q \<notin> d_missed S \<and> \<not> ignored (A q)" if "q \<noteq> p"
      using records_invD(4) [OF inv, of q] q that by simp
    then show "(A(p := m)) q \<notin> d_missed S'" "\<not> ignored ((A(p := m)) q)" using S'(3) t by auto
    show "record_says (l_heap (d_list S')) (d_pc S') (d_holder S') q ((A(p := m)) q)"
    proof (cases "q = p")
      case True
      then show ?thesis using records_invD(5) [OF inv, of p] t S'(1,2) L'(2,3) by (simp add: record_says_def)
    next
      case False
      then have "A q \<noteq> m" using m q by auto
      then show ?thesis using rq False p S'(1,2) L'(2,3) by (auto simp: record_says_def split: option.splits)
    qed
  qed
  fix u
  show "q \<in> set (p # us)" "pc_mutex (d_pc S' u) = Some ((A(p := m)) q)" if "pc_node (d_pc S' u) = Some q"
    using that records_invD(6) [OF inv, of u q] S'(1) l by (cases "u = t"; auto)+
  fix k
  show "k \<in> (A(p := m)) ` set (p # us)"
    if k: "d_holder S' k = Some u" "k \<notin> d_missed S'" "\<not> (pc_mutex (d_pc S' u) = Some k \<and> unrecorded (d_pc S' u))"
  proof (cases "k = m")
    case False
    then have "\<not> (pc_mutex (d_pc S u) = Some k \<and> unrecorded (d_pc S u))" using k(3) S'(1) p by (cases "u = t") auto
    then have "k \<in> A ` set us" using k S'(2,3) by (intro records_invD(7) [OF inv, of k u]) simp_all
    then show ?thesis using l by auto
  qed simp
qed

text \<open>A record that is given back.\<close>

lemma records_put:
  assumes th: "threads_inv ignored S" and inv: "records_inv addresses ignored S (ys @ p # zs) fs A"
    and p: "d_pc S t = U_putone m" "A p = m"
    and S': "d_pc S' = (d_pc S)(t := U_end m)" "d_holder S' = d_holder S" "d_missed S' = d_missed S"
    and L': "lists (d_list S') (ys @ zs) (p # fs)" "mb_mutex (l_heap (d_list S') p) = 0" "mb_pid (l_heap (d_list S') p) = 0"
      "\<And>q. q \<noteq> p \<Longrightarrow> mb_mutex (l_heap (d_list S') q) = mb_mutex (l_heap (d_list S) q)"
      "\<And>q. q \<noteq> p \<Longrightarrow> mb_pid (l_heap (d_list S') q) = mb_pid (l_heap (d_list S) q)"
  shows "records_inv addresses ignored S' (ys @ zs) (p # fs) A"
  unfolding records_inv_def
proof (intro conjI allI impI ballI)
  have l: "p \<notin> set (ys @ zs)" "p \<notin> set fs" using records_invD(1) [OF inv] by (auto simp: lists_def)
  have t: "d_holder S m = Some t" using threads_invD(1) [OF th, of t m] p by simp
  have i: "inj_on A (insert p (set (ys @ zs)))" using records_invD(3) [OF inv] by simp
  then have m: "q \<in> set (ys @ zs) \<Longrightarrow> A q \<noteq> m" for q using l p(2) unfolding inj_on_def by blast
  show "lists (d_list S') (ys @ zs) (p # fs)" by (rule L'(1))
  show "set ((ys @ zs) @ p # fs) = set addresses" using records_invD(2) [OF inv] by auto
  show "inj_on A (set (ys @ zs))" using i by (rule inj_on_subset) auto
  fix q
  show "mb_mutex (l_heap (d_list S') q) = 0" "mb_pid (l_heap (d_list S') q) = 0" if "q \<in> set (p # fs)"
    using records_invD(5) [OF inv, of q] L'(2-5) that by (cases "q = p"; simp)+
  show "record_says (l_heap (d_list S')) (d_pc S') (d_holder S') q (A q)" "A q \<notin> d_missed S'" "\<not> ignored (A q)" if q: "q \<in> set (ys @ zs)"
  proof -
    have rq: "record_says (l_heap (d_list S)) (d_pc S) (d_holder S) q (A q) \<and> A q \<notin> d_missed S \<and> \<not> ignored (A q)"
      using records_invD(4) [OF inv, of q] q by auto
    then show "A q \<notin> d_missed S'" "\<not> ignored (A q)" using S'(3) by auto
    have "q \<noteq> p" using q l by auto
    then show "record_says (l_heap (d_list S')) (d_pc S') (d_holder S') q (A q)"
      using rq m [OF q] p S'(1,2) L'(4,5) by (auto simp: record_says_def split: option.splits)
  qed
  fix u
  show "q \<in> set (ys @ zs)" "pc_mutex (d_pc S' u) = Some (A q)" if q: "pc_node (d_pc S' u) = Some q"
  proof -
    have u: "u \<noteq> t" "pc_node (d_pc S u) = Some q" using q S'(1) by (cases "u = t"; simp)+
    then have n: "q \<in> set (ys @ p # zs)" "pc_mutex (d_pc S u) = Some (A q)" using records_invD(6) [OF inv u(2)] by simp_all
    moreover have "q \<noteq> p" using threads_unique [OF th _ u(1), of m] t n(2) p(2) by auto
    ultimately show "q \<in> set (ys @ zs)" "pc_mutex (d_pc S' u) = Some (A q)" using u S'(1) by auto
  qed
  fix k
  show "k \<in> A ` set (ys @ zs)" if k: "d_holder S' k = Some u" "k \<notin> d_missed S'" "\<not> (pc_mutex (d_pc S' u) = Some k \<and> unrecorded (d_pc S' u))"
  proof -
    have "k \<noteq> m" using k S'(1,2) t by auto
    then have "\<not> (pc_mutex (d_pc S u) = Some k \<and> unrecorded (d_pc S u))" using k(3) S'(1) p by (cases "u = t") auto
    then have "k \<in> A ` set (ys @ p # zs)" using k S'(2,3) by (intro records_invD(7) [OF inv, of k u]) simp_all
    then show ?thesis using \<open>k \<noteq> m\<close> p(2) by auto
  qed
qed

lemma record_mutex:
  assumes "records_inv addresses ignored S us fs A" and "q \<in> set us"
  shows "mb_mutex (l_heap (d_list S) q) = 0 \<or> mb_mutex (l_heap (d_list S) q) = A q"
  using records_invD(4) [OF assms] by (auto simp: record_says_def split: option.splits)

lemma records_getone:
  assumes th: "threads_inv ignored S" and inv: "records_inv addresses ignored S us fs A"
    and p: "d_pc S t = L_getone m" and st: "hook_step ignored frames t S = Some S'"
  shows "\<exists>us fs A. records_inv addresses ignored S' us fs A"
proof (cases fs)
  case Nil
  have l: "lists (d_list S) us []" using records_invD(1) [OF inv] Nil by simp
  then have S': "S' = goto t (L_end m) (miss True m S)" using st p getone_none [OF l] by (simp add: hook_step_def lists_def)
  have t: "d_holder S m = Some t" using threads_invD(1) [OF th, of t m] p by simp
  then have "m \<notin> A ` set us" using recorded_holder [OF inv, of m] p by auto
  then have "records_inv addresses ignored S' us fs A"
    using t p S' by (intro records_upd [OF inv, of m t S' "L_end m" "Some t"]) (auto simp: goto_def miss_def)
  then show ?thesis by blast
next
  case (Cons q fs')
  have l: "lists (d_list S) us (q # fs')" using records_invD(1) [OF inv] Cons by simp
  obtain L' where L': "getone (d_list S) = (Some q, L')" "lists L' (q # us) fs'"
      "\<forall>r. l_heap L' r = (l_heap (d_list S) r)\<lparr>mb_next := mb_next (l_heap L' r)\<rparr>"
    using getone_some [OF l] by blast
  have f: "mb_mutex (l_heap L' r) = mb_mutex (l_heap (d_list S) r) \<and> mb_pid (l_heap L' r) = mb_pid (l_heap (d_list S) r)" for r
    using spec [OF L'(3), of r] by (metis mutex_backtrace.select_convs(1,2) mutex_backtrace.surjective mutex_backtrace.update_convs(4))
  have S': "S' = goto t (L_set_mutex m q) (miss False m (S\<lparr>d_list := L'\<rparr>))" using st p L'(1) l by (simp add: hook_step_def lists_def)
  have "records_inv addresses ignored S' (q # us) fs' (A(q := m))"
    by (rule records_get [OF th inv [unfolded Cons] p]) (use S' L' f in \<open>simp_all add: goto_def miss_def\<close>)
  then show ?thesis by blast
qed

lemma records_putone:
  assumes th: "threads_inv ignored S" and inv: "records_inv addresses ignored S us fs A"
    and p: "d_pc S t = U_putone m" and st: "hook_step ignored frames t S = Some S'"
  shows "\<exists>us fs A. records_inv addresses ignored S' us fs A"
proof -
  have l: "lists (d_list S) us fs" by (rule records_invD(1) [OF inv])
  have t: "d_holder S m = Some t" "0 < m" using threads_invD(1) [OF th, of t m] p by simp_all
  show ?thesis
  proof (cases "m \<in> A ` set us")
    case False
    then have "\<forall>q \<in> set us. mb_mutex (l_heap (d_list S) q) \<noteq> m" using record_mutex [OF inv] t(2) by force
    then have S': "S' = goto t (U_end m) S" using putone_none [OF l] st p l by (simp add: hook_step_def lists_def)
    have "m \<in> d_missed S" using records_invD(7) [OF inv t(1)] False p by auto
    then have "records_inv addresses ignored S' us fs A"
      using t p S' False by (intro records_upd [OF inv, of m t S' "U_end m" "Some t"]) (auto simp: goto_def)
    then show ?thesis by blast
  next
    case True
    then obtain q where q: "q \<in> set us" "A q = m" by auto
    then obtain ys zs where us: "us = ys @ q # zs" by (meson split_list)
    have d: "r \<in> set ys \<Longrightarrow> A r \<noteq> m" for r
    proof -
      assume r: "r \<in> set ys"
      then have "r \<noteq> q" using l us by (auto simp: lists_def)
      then show "A r \<noteq> m" using records_invD(3) [OF inv] q r us unfolding inj_on_def by auto
    qed
    have n: "\<forall>r \<in> set ys. mb_mutex (l_heap (d_list S) r) \<noteq> m" using record_mutex [OF inv] d us t(2) by force
    have r: "mb_mutex (l_heap (d_list S) q) = m" "mb_pid (l_heap (d_list S) q) = t"
      using records_invD(4) [OF inv q(1)] q(2) t p by (simp_all add: record_says_def)
    obtain L' where L': "putone t m (d_list S) = Some L'" "lists L' (ys @ zs) (q # fs)" "mb_mutex (l_heap L' q) = 0" "mb_pid (l_heap L' q) = 0"
        "\<forall>x. x \<noteq> q \<longrightarrow> l_heap L' x = (l_heap (d_list S) x)\<lparr>mb_next := mb_next (l_heap L' x)\<rparr>"
      using putone_some [OF l [unfolded us] n r] by blast
    have f: "mb_mutex (l_heap L' x) = mb_mutex (l_heap (d_list S) x) \<and> mb_pid (l_heap L' x) = mb_pid (l_heap (d_list S) x)" if "x \<noteq> q" for x
      using L'(5) that by (metis mutex_backtrace.select_convs(1,2) mutex_backtrace.surjective mutex_backtrace.update_convs(4))
    have S': "S' = goto t (U_end m) (S\<lparr>d_list := L'\<rparr>)" using st p L'(1) l by (simp add: hook_step_def lists_def)
    have "records_inv addresses ignored S' (ys @ zs) (q # fs) A"
      by (rule records_put [OF th inv [unfolded us] p q(2)]) (use S' L' f in \<open>simp_all add: goto_def\<close>)
    then show ?thesis by blast
  qed
qed

lemma records_step:
  assumes th: "threads_inv ignored S" and tb: "table_inv S" and inv: "records_inv addresses ignored S us fs A"
    and st: "hook_step ignored frames t S = Some S'"
  shows "\<exists>us fs A. records_inv addresses ignored S' us fs A"
proof (cases "list_pc (d_pc S t)")
  case False
  then show ?thesis using records_step_plain [OF th tb inv st] by blast
next
  case True
  note fill = records_fill [OF th inv, of t _ _ S' "d_pc S' t"]
  have h: "d_pc S t = L_set_mutex m p \<or> d_pc S t = L_set_pid m p \<Longrightarrow> pc_node (d_pc S t) = Some p \<and> pc_mutex (d_pc S t) = Some m" for m p by auto
  have rec: "pc_node (d_pc S t) = Some p \<Longrightarrow> pc_mutex (d_pc S t) = Some m \<Longrightarrow> record_says (l_heap (d_list S)) (d_pc S) (d_holder S) p m \<and> d_holder S m = Some t" for p m
    using records_invD(4,6) [OF inv] threads_invD(1) [OF th, of t m] by (metis option.inject)
  show ?thesis
  proof (cases "d_pc S t")
    case (L_getone m)
    then show ?thesis using records_getone [OF th inv _ st] by blast
  next
    case (U_putone m)
    then show ?thesis using records_putone [OF th inv _ st] by blast
  next
    case (L_set_mutex m p)
    then have "records_inv addresses ignored S' us fs A" using st rec [of p m]
      by (intro fill [of p m "mb_mutex_update (\<lambda>_. m) (l_heap (d_list S) p)"]) (auto simp: step_simps record_says_def)
    then show ?thesis by blast
  next
    case (L_set_pid m p)
    then have "records_inv addresses ignored S' us fs A" using st rec [of p m]
      by (intro fill [of p m "mb_pid_update (\<lambda>_. t) (l_heap (d_list S) p)"]) (auto simp: step_simps record_says_def)
    then show ?thesis by blast
  next
    case (L_unwind m p)
    then have "records_inv addresses ignored S' us fs A" using st rec [of p m]
      by (intro fill [of p m "mb_trace_update (\<lambda>bt. unwind_backtrace frames bt MUTEX_BACKTACE_COUNT) (l_heap (d_list S) p)"])
        (auto simp: step_simps record_says_def)
    then show ?thesis by blast
  qed (use True in \<open>auto simp: list_pc_def\<close>)
qed

section \<open>All interleavings\<close>

definition debug_inv :: "nat list \<Rightarrow> (nat \<Rightarrow> bool) \<Rightarrow> debug_state \<Rightarrow> bool" where
  "debug_inv addresses ignored S \<longleftrightarrow> threads_inv ignored S \<and> table_inv S \<and> (\<exists>us fs A. records_inv addresses ignored S us fs A)"

lemma debug_next_inv:
  assumes inv: "debug_inv addresses ignored S" and ok: "debug_ok T True ev S" "0 \<notin> T" and S': "debug_next ignored ev S = Some S'"
  shows "debug_inv addresses ignored S'"
proof -
  have th: "threads_inv ignored S" and tb: "table_inv S" using inv by (simp_all add: debug_inv_def)
  obtain us fs A where re: "records_inv addresses ignored S us fs A" using inv by (auto simp: debug_inv_def)
  note upd = threads_upd [OF th] records_upd [OF re] table_same [OF tb]
  show ?thesis
  proof (cases ev)
    case (Ev_step t frames)
    then show ?thesis using threads_step [OF th tb] table_step [OF th tb] records_step [OF th tb re] S' by (auto simp: debug_inv_def)
  next
    case (Ev_lock t m)
    then have s: "d_pc S t = No_hook" "d_holder S m = None" "0 < m" "0 < t" using ok S' by (auto split: if_splits intro: gr0I)
    moreover have "m \<notin> d_missed S" using threads_invD(3) [OF th, of m] s(2) by auto
    moreover have "m \<notin> A ` set us" using recorded_holder [OF re, of m] s(2) by auto
    moreover have "S' = goto t (L_check m) (S\<lparr>d_holder := (d_holder S)(m \<mapsto> t)\<rparr>)" using Ev_lock S' s by simp
    ultimately have "threads_inv ignored S' \<and> records_inv addresses ignored S' us fs A \<and> table_inv S'"
      by (intro conjI upd(1) [of m t S' "L_check m" "Some t"] upd(2) [of m t S' "L_check m" "Some t"] upd(3) [of t "L_check m" S'])
        (auto simp: goto_def)
    then show ?thesis by (auto simp: debug_inv_def)
  next
    case (Ev_trylock t m)
    then have s: "d_pc S t = No_hook" "d_holder S m = None" "0 < m" "0 < t" using ok S' by (auto split: if_splits intro: gr0I)
    moreover have "m \<notin> A ` set us" using recorded_holder [OF re, of m] s(2) by auto
    moreover have "S' = miss True m (S\<lparr>d_holder := (d_holder S)(m \<mapsto> t)\<rparr>)" using Ev_trylock S' s by simp
    ultimately have "threads_inv ignored S' \<and> records_inv addresses ignored S' us fs A \<and> table_inv S'"
      by (intro conjI upd(1) [of m t S' No_hook "Some t"] upd(2) [of m t S' No_hook "Some t"] upd(3) [of t No_hook S'])
        (auto simp: miss_def fun_eq_iff)
    then show ?thesis by (auto simp: debug_inv_def)
  next
    case (Ev_unlock t m)
    then have s: "d_pc S t = No_hook" "d_holder S m = Some t" "0 < m" "0 < t" using ok S' by (auto split: if_splits intro: gr0I)
    moreover have "m \<in> A ` set us \<Longrightarrow> m \<notin> d_missed S" using recorded_holder [OF re, of m] by auto
    moreover have "m \<notin> A ` set us \<Longrightarrow> m \<in> d_missed S" using records_invD(7) [OF re s(2)] s(1) by auto
    moreover have "S' = goto t (U_check m) S" using Ev_unlock S' s by simp
    ultimately have "threads_inv ignored S' \<and> records_inv addresses ignored S' us fs A \<and> table_inv S'"
      by (intro conjI upd(1) [of m t S' "U_check m" "Some t"] upd(2) [of m t S' "U_check m" "Some t"] upd(3) [of t "U_check m" S'])
        (auto simp: goto_def fun_eq_iff)
    then show ?thesis by (auto simp: debug_inv_def)
  qed
qed

text \<open>The lists after \<open>init\<close>.\<close>

lemma init_lists:
  "distinct (addresses @ fs) \<Longrightarrow> chain (l_heap L) (l_freed L) fs \<Longrightarrow> l_used L = None \<Longrightarrow> \<not> l_locked L \<Longrightarrow>
   \<forall>p \<in> set fs. mb_mutex (l_heap L p) = 0 \<and> mb_pid (l_heap L p) = 0 \<Longrightarrow>
   (let L' = fold (\<lambda>temp L. L\<lparr>l_heap := (l_heap L)(temp := new_backtrace\<lparr>mb_next := l_freed L\<rparr>), l_freed := Some temp\<rparr>) addresses L
    in lists L' [] (rev addresses @ fs) \<and> (\<forall>p \<in> set (rev addresses @ fs). mb_mutex (l_heap L' p) = 0 \<and> mb_pid (l_heap L' p) = 0))"
proof (induction addresses arbitrary: L fs)
  case Nil
  then show ?case by (simp add: lists_def)
next
  case (Cons a addresses)
  let ?L = "L\<lparr>l_heap := (l_heap L)(a := new_backtrace\<lparr>mb_next := l_freed L\<rparr>), l_freed := Some a\<rparr>"
  have "chain (l_heap ?L) (l_freed ?L) (a # fs)" using Cons.prems by simp
  moreover have "\<forall>p \<in> set (a # fs). mb_mutex (l_heap ?L p) = 0 \<and> mb_pid (l_heap ?L p) = 0" using Cons.prems by (auto simp: new_backtrace_def)
  ultimately show ?case using Cons.IH [of "a # fs" ?L] Cons.prems by (simp add: Let_def del: fun_upd_apply)
qed

lemma debug_reach_inv:
  assumes "debug_reach addresses ignored T own S" and "own" and "0 \<notin> T" and "distinct addresses"
  shows "debug_inv addresses ignored S"
  using assms
proof (induction rule: debug_reach.induct)
  case (debug_start h)
  have "table_inv (init_mutex_debug addresses h)" by (auto simp: table_inv_def init_mutex_debug_def count_list_0_iff)
  moreover have "threads_inv ignored (init_mutex_debug addresses h)" by (simp add: threads_inv_def init_mutex_debug_def)
  moreover have "records_inv addresses ignored (init_mutex_debug addresses h) [] (rev addresses) A" for A
    using init_lists [of addresses "[]" "\<lparr>l_heap = h, l_used = None, l_freed = None, l_locked = False\<rparr>"] debug_start
    by (auto simp: records_inv_def init_mutex_debug_def bt_list_init_def Let_def)
  ultimately show ?case by (auto simp: debug_inv_def)
next
  case (debug_step S ev S')
  then show ?case using debug_next_inv [of addresses ignored S T ev S'] by simp
qed

section \<open>The dump\<close>

lemma dump_loop_chain:
  "chain h start xs \<Longrightarrow> dump_loop h start = Some (map (\<lambda>p. (mb_mutex (h p), mb_pid (h p), dump_frames (mb_trace (h p)) 0)) xs)"
proof (induction xs arbitrary: start)
  case Nil
  then show ?case by (simp add: dump_loop.simps [of h None])
next
  case (Cons x xs)
  then show ?case by (simp add: dump_loop.simps [of h "Some x"])
qed

lemma distinct_map_nonzero:
  "distinct xs \<Longrightarrow> inj_on A (set xs) \<Longrightarrow> \<forall>p \<in> set xs. f p = 0 \<or> f p = A p \<Longrightarrow> distinct (filter (\<lambda>k. k \<noteq> (0 :: nat)) (map f xs))"
proof (induction xs)
  case (Cons x xs)
  have "f x \<noteq> 0 \<Longrightarrow> f x \<notin> f ` set xs"
  proof
    assume "f x \<noteq> 0" "f x \<in> f ` set xs"
    then obtain y where y: "y \<in> set xs" "A y = A x" using Cons.prems(3) by auto
    then have "x = y" using Cons.prems(2) by (auto simp: inj_on_def)
    then show False using y(1) Cons.prems(1) by simp
  qed
  then show ?case using Cons by auto
qed simp

text \<open>
  C10: the dump tells who holds what. Whatever the interleaving of the threads, as long as a mutex is
  unlocked only by the thread that holds it, \<open>dump_all_mutex\<close> does not block and comes to an end. Each
  record that names a thread names the holder of its mutex, no mutex is listed twice, and every held
  mutex is listed with its holder, once the holder is out of its hook, unless the lock hook made no
  record: the mutex was got by a \<open>trylock\<close> or a timed lock, is ignored, or all records were in use.
\<close>

theorem mutexdebug_dump:
  assumes "debug_reach addresses ignored T True S" and "0 \<notin> T" and "distinct addresses"
  shows "\<exists>out. dump_all_mutex S = Some out \<and>
    (\<forall>m t bt. (m, t, bt) \<in> set out \<longrightarrow> t = 0 \<or> d_holder S m = Some t) \<and>
    distinct (filter (\<lambda>m. m \<noteq> 0) (map fst out)) \<and>
    (\<forall>m t. d_holder S m = Some t \<and> d_pc S t = No_hook \<and> m \<notin> d_missed S \<longrightarrow> (\<exists>bt. (m, t, bt) \<in> set out))"
proof -
  have i: "debug_inv addresses ignored S" by (rule debug_reach_inv [OF assms(1) TrueI assms(2,3)])
  then obtain us fs A where re: "records_inv addresses ignored S us fs A" by (auto simp: debug_inv_def)
  define says where "says = (\<lambda>p. (mb_mutex (l_heap (d_list S) p), mb_pid (l_heap (d_list S) p), dump_frames (mb_trace (l_heap (d_list S) p)) 0))"
  have l: "chain (l_heap (d_list S)) (l_used (d_list S)) us" "\<not> l_locked (d_list S)" "distinct us"
    using records_invD(1) [OF re] by (simp_all add: lists_def)
  have d: "dump_all_mutex S = Some (map says us)" using dump_loop_chain [OF l(1)] l(2) by (simp add: dump_all_mutex_def says_def)
  have r: "record_says (l_heap (d_list S)) (d_pc S) (d_holder S) p (A p)" if "p \<in> set us" for p using records_invD(4) [OF re that] by simp
  have sound: "mb_pid (l_heap (d_list S) p) = 0 \<or> d_holder S (mb_mutex (l_heap (d_list S) p)) = Some (mb_pid (l_heap (d_list S) p))"
    if "p \<in> set us" for p using r [OF that] by (auto simp: record_says_def split: option.splits if_splits)
  have complete: "\<exists>bt. (m, t, bt) \<in> says ` set us" if m: "d_holder S m = Some t" "d_pc S t = No_hook" "m \<notin> d_missed S" for m t
  proof -
    obtain p where "p \<in> set us" "A p = m" using records_invD(7) [OF re m(1) m(3)] m(2) by auto
    then show ?thesis using r [of p] m by (intro exI, intro image_eqI [of _ _ p]) (auto simp: record_says_def says_def)
  qed
  have "map fst (map says us) = map (\<lambda>p. mb_mutex (l_heap (d_list S) p)) us" by (simp add: says_def)
  moreover have "distinct (filter (\<lambda>m. m \<noteq> 0) (map (\<lambda>p. mb_mutex (l_heap (d_list S) p)) us))"
    by (rule distinct_map_nonzero [OF l(3) records_invD(3) [OF re]]) (use record_mutex [OF re] in blast)
  ultimately have e: "distinct (filter (\<lambda>m. m \<noteq> 0) (map fst (map says us)))" by (simp only:)
  have s: "(m, t, bt) \<in> set (map says us) \<Longrightarrow> t = 0 \<or> d_holder S m = Some t" for m t bt using sound by (auto simp: says_def)
  have "d_holder S m = Some t \<and> d_pc S t = No_hook \<and> m \<notin> d_missed S \<Longrightarrow> \<exists>bt. (m, t, bt) \<in> set (map says us)" for m t
    using complete [of m t] by simp
  then show ?thesis using d e s by blast
qed

section \<open>The pool\<close>

text \<open>
  The invariant of the pool, whoever unlocks: the holders of the mutexes play no part in it. A record
  that thread \<open>t\<close> is filling in is in use, and does not name another thread, so that no other thread
  gives it back meanwhile.
\<close>

fun filling :: "(nat \<Rightarrow> mutex_backtrace) \<Rightarrow> nat \<Rightarrow> hook_pc \<Rightarrow> bool" where
  "filling h t (L_set_mutex m p) \<longleftrightarrow> mb_mutex (h p) = 0 \<and> mb_pid (h p) = 0"
| "filling h t (L_set_pid m p) \<longleftrightarrow> mb_pid (h p) = 0"
| "filling h t (L_unwind m p) \<longleftrightarrow> mb_pid (h p) = t"
| "filling h t pc \<longleftrightarrow> True"

definition pool_lists :: "nat list \<Rightarrow> backtrace_list \<Rightarrow> nat list \<Rightarrow> nat list \<Rightarrow> bool" where
  "pool_lists addresses L us fs \<longleftrightarrow> lists (L\<lparr>l_locked := False\<rparr>) us fs \<and> set (us @ fs) = set addresses \<and>
     (\<forall>p \<in> set fs. mb_mutex (l_heap L p) = 0 \<and> mb_pid (l_heap L p) = 0)"

definition pool_threads :: "(nat \<Rightarrow> mutex_backtrace) \<Rightarrow> (nat \<Rightarrow> hook_pc) \<Rightarrow> nat list \<Rightarrow> bool" where
  "pool_threads h pcs us \<longleftrightarrow>
     (\<forall>t m. pc_mutex (pcs t) = Some m \<longrightarrow> 0 < t \<and> 0 < m) \<and>
     (\<forall>t p. pc_node (pcs t) = Some p \<longrightarrow> p \<in> set us) \<and> (\<forall>t. filling h t (pcs t)) \<and>
     (\<forall>t u p. pc_node (pcs t) = Some p \<longrightarrow> pc_node (pcs u) = Some p \<longrightarrow> t = u)"

definition pool_inv :: "nat list \<Rightarrow> debug_state \<Rightarrow> bool" where
  "pool_inv addresses S \<longleftrightarrow> (\<exists>us fs. pool_lists addresses (d_list S) us fs \<and> pool_threads (l_heap (d_list S)) (d_pc S) us)"

lemma pool_threadsD:
  assumes "pool_threads h pcs us"
  shows "pc_mutex (pcs t) = Some m \<Longrightarrow> 0 < t \<and> 0 < m" "pc_node (pcs t) = Some p \<Longrightarrow> p \<in> set us" "filling h t (pcs t)"
    "pc_node (pcs t) = Some p \<Longrightarrow> pc_node (pcs u) = Some p \<Longrightarrow> t = u"
  using assms unfolding pool_threads_def by blast+

lemma pc_node_cases: "pc_node pc = Some p \<longleftrightarrow> (\<exists>m. pc = L_set_mutex m p \<or> pc = L_set_pid m p \<or> pc = L_unwind m p)"
  by (cases pc) auto

lemma filling_same:
  "filling h u pc \<Longrightarrow> (\<And>p. pc_node pc = Some p \<Longrightarrow> mb_mutex (h' p) = mb_mutex (h p) \<and> mb_pid (h' p) = mb_pid (h p)) \<Longrightarrow> filling h' u pc"
  by (cases pc) auto

text \<open>Thread \<open>t\<close> goes to the point \<open>pc\<close>, and the lists change as they may.\<close>

lemma pool_threads_upd:
  assumes inv: "pool_threads h pcs us"
    and pc: "\<And>m. pc_mutex pc = Some m \<Longrightarrow> 0 < t \<and> 0 < m" "filling h' t pc" "\<And>p. pc_node pc = Some p \<Longrightarrow> p \<in> set us'"
    and new: "\<And>p u. pc_node pc = Some p \<Longrightarrow> u \<noteq> t \<Longrightarrow> pc_node (pcs u) \<noteq> Some p"
    and old: "\<And>p u. u \<noteq> t \<Longrightarrow> pc_node (pcs u) = Some p \<Longrightarrow> p \<in> set us' \<and> mb_mutex (h' p) = mb_mutex (h p) \<and> mb_pid (h' p) = mb_pid (h p)"
  shows "pool_threads h' (pcs(t := pc)) us'"
  unfolding pool_threads_def
proof (intro conjI allI impI)
  fix u v m p
  show "0 < u" "0 < m" if "pc_mutex ((pcs(t := pc)) u) = Some m"
    using that pc(1) [of m] pool_threadsD(1) [OF inv, of u m] by (cases "u = t"; simp)+
  show "p \<in> set us'" if "pc_node ((pcs(t := pc)) u) = Some p" using that pc(3) old [of u p] by (cases "u = t") auto
  show "filling h' u ((pcs(t := pc)) u)"
  proof (cases "u = t")
    case False
    then show ?thesis using filling_same [OF pool_threadsD(3) [OF inv, of u], of h'] old [OF False] by simp
  qed (use pc(2) in simp)
  show "u = v" if "pc_node ((pcs(t := pc)) u) = Some p" "pc_node ((pcs(t := pc)) v) = Some p"
    using that new [of p] pool_threadsD(4) [OF inv, of u p v] by (cases "u = t"; cases "v = t") auto
qed

text \<open>A step that leaves the lists, and one that writes a field of the record \<open>p\<close> that it fills in.\<close>

lemma pool_stay:
  assumes "pool_inv addresses S" and "d_list S' = d_list S" "d_pc S' = (d_pc S)(t := pc)"
    and "\<And>m. pc_mutex pc = Some m \<Longrightarrow> 0 < t \<and> 0 < m" "pc_node pc = None"
  shows "pool_inv addresses S'"
proof -
  obtain us fs where i: "pool_lists addresses (d_list S) us fs" "pool_threads (l_heap (d_list S)) (d_pc S) us"
    using assms(1) by (auto simp: pool_inv_def)
  have "filling h t pc" for h using assms(5) by (cases pc) auto
  then have "pool_threads (l_heap (d_list S)) ((d_pc S)(t := pc)) us"
    using assms(4,5) by (intro pool_threads_upd [OF i(2)]) (auto dest: pool_threadsD(2) [OF i(2)])
  then show ?thesis using i(1) assms(2,3) by (auto simp: pool_inv_def)
qed

lemma pool_write:
  assumes "pool_inv addresses S" and p: "pc_node (d_pc S t) = Some p"
    and S': "d_list S' = (d_list S)\<lparr>l_heap := (l_heap (d_list S))(p := r)\<rparr>" "d_pc S' = (d_pc S)(t := pc)" "mb_next r = mb_next (l_heap (d_list S) p)"
    and pc: "pc_mutex pc = pc_mutex (d_pc S t)" "filling ((l_heap (d_list S))(p := r)) t pc" "pc_node pc = None \<or> pc_node pc = Some p"
  shows "pool_inv addresses S'"
proof -
  obtain us fs where i: "pool_lists addresses (d_list S) us fs" "pool_threads (l_heap (d_list S)) (d_pc S) us"
    using assms(1) by (auto simp: pool_inv_def)
  have u: "p \<in> set us" by (rule pool_threadsD(2) [OF i(2) p])
  have o: "u \<noteq> t \<Longrightarrow> pc_node (d_pc S u) \<noteq> Some p" for u using pool_threadsD(4) [OF i(2) p] by blast
  have "pool_threads ((l_heap (d_list S))(p := r)) ((d_pc S)(t := pc)) us"
  proof (rule pool_threads_upd [OF i(2)])
    show "0 < t \<and> 0 < m" if "pc_mutex pc = Some m" for m using that pc(1) pool_threadsD(1) [OF i(2)] by simp
    show "q \<in> set us" if "pc_node pc = Some q" for q using that pc(3) u by auto
    show "pc_node (d_pc S u) \<noteq> Some q" if "pc_node pc = Some q" "u \<noteq> t" for q u using that pc(3) o by auto
  qed (use o pc(2) in \<open>auto dest: pool_threadsD(2) [OF i(2)]\<close>)
  moreover have "pool_lists addresses ((d_list S)\<lparr>l_heap := (l_heap (d_list S))(p := r)\<rparr>) us fs"
    using i(1) u by (auto simp: pool_lists_def lists_def chain_same_next S'(3))
  ultimately show ?thesis using S'(1,2) unfolding pool_inv_def by (metis (no_types) backtrace_list.select_convs(1) backtrace_list.surjective backtrace_list.update_convs(1))
qed

text \<open>\<open>getone\<close>: the record goes to the used ones.\<close>

lemma pool_getone:
  assumes "pool_inv addresses S" and pc: "d_pc S t = L_getone m" and st: "hook_step ignored frames t S = Some S'"
  shows "pool_inv addresses S'"
proof -
  obtain us fs where i: "pool_lists addresses (d_list S) us fs" "pool_threads (l_heap (d_list S)) (d_pc S) us"
    using assms(1) by (auto simp: pool_inv_def)
  have k: "\<not> l_locked (d_list S)" using st pc by (auto simp: hook_step_def split: if_splits)
  then have l: "lists (d_list S) us fs" using i(1) by (simp add: pool_lists_def lists_def)
  have m: "0 < t \<and> 0 < m" using pool_threadsD(1) [OF i(2), of t m] pc by simp
  show ?thesis
  proof (cases fs)
    case Nil
    then have "d_list S' = d_list S" "d_pc S' = (d_pc S)(t := L_end m)" using st pc k getone_none [of "d_list S" us] l by (auto simp: step_simps)
    then show ?thesis using m by (intro pool_stay [OF assms(1), of S' t "L_end m"]) auto
  next
    case (Cons p fs')
    then obtain L' where L': "getone (d_list S) = (Some p, L')" "lists L' (p # us) fs'"
        "\<And>q. l_heap L' q = (l_heap (d_list S) q)\<lparr>mb_next := mb_next (l_heap L' q)\<rparr>"
      using getone_some [of "d_list S" us p fs'] l by auto
    have f: "mb_mutex (l_heap L' q) = mb_mutex (l_heap (d_list S) q)" "mb_pid (l_heap L' q) = mb_pid (l_heap (d_list S) q)" for q
      using arg_cong [OF L'(3), of mb_mutex q] arg_cong [OF L'(3), of mb_pid q] by simp_all
    have p: "p \<notin> set us" "mb_mutex (l_heap (d_list S) p) = 0" "mb_pid (l_heap (d_list S) p) = 0"
      using l i(1) Cons by (auto simp: lists_def pool_lists_def)
    have "pool_threads (l_heap L') ((d_pc S)(t := L_set_mutex m p)) (p # us)"
      using p f m by (intro pool_threads_upd [OF i(2)]) (auto dest: pool_threadsD(2) [OF i(2)])
    moreover have "pool_lists addresses L' (p # us) fs'" using L'(2) i(1) f Cons by (auto simp: pool_lists_def lists_def)
    moreover have "d_list S' = L'" "d_pc S' = (d_pc S)(t := L_set_mutex m p)" using st pc k L'(1) by (auto simp: step_simps)
    ultimately show ?thesis by (auto simp: pool_inv_def)
  qed
qed

text \<open>\<open>putone\<close>: the record it frees names this thread, and so is filled in by none.\<close>

lemma pool_putone:
  assumes "pool_inv addresses S" and pc: "d_pc S t = U_putone m" and st: "hook_step ignored frames t S = Some S'"
  shows "pool_inv addresses S'"
proof -
  obtain us fs where i: "pool_lists addresses (d_list S) us fs" "pool_threads (l_heap (d_list S)) (d_pc S) us"
    using assms(1) by (auto simp: pool_inv_def)
  have k: "\<not> l_locked (d_list S)" using st pc by (auto simp: hook_step_def split: if_splits)
  then have l: "lists (d_list S) us fs" using i(1) by (simp add: pool_lists_def lists_def)
  have m: "0 < t" "0 < m" using pool_threadsD(1) [OF i(2), of t m] pc by simp_all
  have S': "putone t m (d_list S) = Some (d_list S') \<and> d_pc S' = (d_pc S)(t := U_end m)" using st pc k by (auto simp: step_simps)
  show ?thesis
  proof (cases "\<forall>p \<in> set us. mb_mutex (l_heap (d_list S) p) \<noteq> m")
    case True
    then show ?thesis using putone_none [OF l] S' m by (intro pool_stay [OF assms(1), of S' t "U_end m"]) auto
  next
    case False
    then obtain ys p zs where us: "us = ys @ p # zs" and p: "mb_mutex (l_heap (d_list S) p) = m" "\<forall>q \<in> set ys. mb_mutex (l_heap (d_list S) q) \<noteq> m"
      using split_list_first_prop [of us "\<lambda>p. mb_mutex (l_heap (d_list S) p) = m"] by auto
    note l' = l [unfolded us]
    have th: "pool_threads h ((d_pc S)(t := U_end m)) vs"
      if "\<And>q u. u \<noteq> t \<Longrightarrow> pc_node (d_pc S u) = Some q \<Longrightarrow>
        q \<in> set vs \<and> mb_mutex (h q) = mb_mutex (l_heap (d_list S) q) \<and> mb_pid (h q) = mb_pid (l_heap (d_list S) q)" for h vs
      by (rule pool_threads_upd [OF i(2)]) (use that m in auto)
    show ?thesis
    proof (cases "mb_pid (l_heap (d_list S) p) = t")
      case True
      obtain L' where L': "putone t m (d_list S) = Some L'" "lists L' (ys @ zs) (p # fs)" "mb_mutex (l_heap L' p) = 0" "mb_pid (l_heap L' p) = 0"
          "\<forall>q. q \<noteq> p \<longrightarrow> l_heap L' q = (l_heap (d_list S) q)\<lparr>mb_next := mb_next (l_heap L' q)\<rparr>"
        using putone_some [OF l' p(2,1) True] by blast
      have f: "mb_mutex (l_heap L' q) = mb_mutex (l_heap (d_list S) q)" "mb_pid (l_heap L' q) = mb_pid (l_heap (d_list S) q)" if "q \<noteq> p" for q
        using L'(5) that by (metis mutex_backtrace.simps(1,2) mutex_backtrace.select_convs(1,2) mutex_backtrace.surjective mutex_backtrace.update_convs(4))+
      have n: "pc_node (d_pc S u) \<noteq> Some p" if "u \<noteq> t" for u
        using pool_threadsD(3) [OF i(2), of u] that p(1) True m by (auto simp: pc_node_cases)
      have z: "\<forall>q \<in> set (p # fs). mb_mutex (l_heap L' q) = 0 \<and> mb_pid (l_heap L' q) = 0"
        using i(1) L'(3,4) f unfolding pool_lists_def by (metis set_ConsD)
      have "pool_threads (l_heap L') ((d_pc S)(t := U_end m)) (ys @ zs)"
        using n f us by (intro th) (metis Un_iff pool_threadsD(2) [OF i(2)] set_ConsD set_append)
      moreover have "pool_lists addresses L' (ys @ zs) (p # fs)" using L'(2) i(1) z us by (auto simp: pool_lists_def lists_def)
      ultimately show ?thesis using S' L'(1) by (auto simp: pool_inv_def)
    next
      case False
      then have "d_list S' = (d_list S)\<lparr>l_locked := True\<rparr>" using putone_other [OF l' p(2,1)] S' by simp
      then show ?thesis using S' i(1) th [of us "l_heap (d_list S)"] pool_threadsD(2) [OF i(2)]
        unfolding pool_inv_def by (intro exI [of _ us] exI [of _ fs]) (auto simp: pool_lists_def)
    qed
  qed
qed

lemma pool_step:
  assumes "pool_inv addresses S" and st: "hook_step ignored frames t S = Some S'"
  shows "pool_inv addresses S'"
proof -
  obtain us where i: "pool_threads (l_heap (d_list S)) (d_pc S) us" using assms(1) by (auto simp: pool_inv_def)
  note m = pool_threadsD(1) [OF i, of t] and f = pool_threadsD(3) [OF i, of t]
  note stay = pool_stay [OF assms(1), of S' t "d_pc S' t"]
  show ?thesis
  proof (cases "d_pc S t")
    case (L_getone k)
    then show ?thesis using pool_getone [OF assms(1) _ st] by blast
  next
    case (U_putone k)
    then show ?thesis using pool_putone [OF assms(1) _ st] by blast
  next
    case (L_set_mutex k p)
    then show ?thesis using st f
      by (intro pool_write [OF assms(1), of t p S' "(l_heap (d_list S) p)\<lparr>mb_mutex := k\<rparr>" "L_set_pid k p"]) (auto simp: step_simps)
  next
    case (L_set_pid k p)
    then show ?thesis using st f
      by (intro pool_write [OF assms(1), of t p S' "(l_heap (d_list S) p)\<lparr>mb_pid := t\<rparr>" "L_unwind k p"]) (auto simp: step_simps)
  next
    case (L_unwind k p)
    then show ?thesis using st f
      by (intro pool_write [OF assms(1), of t p S' "mb_trace_update (\<lambda>bt. unwind_backtrace frames bt MUTEX_BACKTACE_COUNT) (l_heap (d_list S) p)" "L_end k"]) (auto simp: step_simps)
  qed (rule stay; use st m in \<open>auto simp: step_simps split: if_splits\<close>)+
qed

lemma pool_reach:
  assumes "debug_reach addresses ignored T own S" and "0 \<notin> T" and "distinct addresses"
  shows "pool_inv addresses S"
  using assms
proof (induction rule: debug_reach.induct)
  case (debug_start h)
  have "pool_lists addresses (d_list (init_mutex_debug addresses h)) [] (rev addresses)"
    using init_lists [of addresses "[]" "\<lparr>l_heap = h, l_used = None, l_freed = None, l_locked = False\<rparr>"] debug_start
    by (auto simp: pool_lists_def lists_def init_mutex_debug_def bt_list_init_def Let_def)
  moreover have "pool_threads k (d_pc (init_mutex_debug addresses h)) us" for k us by (simp add: pool_threads_def init_mutex_debug_def)
  ultimately show ?case by (auto simp: pool_inv_def)
next
  case (debug_step S ev S')
  then have i: "pool_inv addresses S" by simp
  have t: "t \<in> T \<Longrightarrow> 0 < t" for t using debug_step.prems(1) by (cases t) auto
  show ?case
  proof (cases ev)
    case (Ev_step t frames)
    then show ?thesis using pool_step [OF i] debug_step.hyps by simp
  next
    case (Ev_lock u m)
    then show ?thesis using t debug_step.hyps by (intro pool_stay [OF i, of S' u "L_check m"]) (auto simp: goto_def split: if_splits)
  next
    case (Ev_trylock u m)
    then show ?thesis using debug_step.hyps by (intro pool_stay [OF i, of S' u No_hook]) (auto simp: goto_def miss_def fun_eq_iff split: if_splits)
  next
    case (Ev_unlock u m)
    then show ?thesis using t debug_step.hyps by (intro pool_stay [OF i, of S' u "U_check m"]) (auto simp: goto_def split: if_splits)
  qed
qed

text \<open>
  C36: the pool of records. Whatever the interleaving of the hooks, and whatever thread unlocks a
  mutex (its holder or another, also when \<open>putone\<close> returns with its lock held), the list of used
  records and the list of free ones are two finite chains without a common node, with the records of
  \<open>init\<close> as their nodes, so none is lost; a free record names no mutex and no thread; and no two
  threads fill in the same record, nor does one fill in a free record.
\<close>

theorem mutexdebug_pool:
  assumes "debug_reach addresses ignored T own S" and "0 \<notin> T" and "distinct addresses"
  shows "\<exists>us fs. chain (l_heap (d_list S)) (l_used (d_list S)) us \<and> chain (l_heap (d_list S)) (l_freed (d_list S)) fs \<and>
    distinct (us @ fs) \<and> set (us @ fs) = set addresses \<and> length us + length fs = length addresses \<and>
    set fs \<subseteq> {p. mb_mutex (l_heap (d_list S) p) = 0 \<and> mb_pid (l_heap (d_list S) p) = 0} \<and>
    (\<forall>t p. pc_node (d_pc S t) = Some p \<longrightarrow> p \<in> set us \<and> (\<forall>u. u \<noteq> t \<longrightarrow> pc_node (d_pc S u) \<noteq> Some p))"
proof -
  obtain us fs where i: "pool_lists addresses (d_list S) us fs" "pool_threads (l_heap (d_list S)) (d_pc S) us"
    using pool_reach [OF assms] by (auto simp: pool_inv_def)
  have "distinct (us @ fs)" "set (us @ fs) = set addresses" using i(1) by (simp_all add: pool_lists_def lists_def)
  then have "length (us @ fs) = length addresses" using assms(3) by (metis distinct_card)
  then show ?thesis using i(1) pool_threadsD(2,4) [OF i(2)] unfolding pool_lists_def lists_def
    by (intro exI [of _ us] exI [of _ fs]) auto
qed

section \<open>The unlock that never ends\<close>

fun debug_run :: "(nat \<Rightarrow> bool) \<Rightarrow> debug_event list \<Rightarrow> debug_state \<Rightarrow> debug_state option" where
  "debug_run ignored [] S = Some S"
| "debug_run ignored (ev # evs) S = Option.bind (debug_next ignored ev S) (debug_run ignored evs)"

lemma locked_stays_step: "debug_next ignored ev S = Some S' \<Longrightarrow> l_locked (d_list S) \<Longrightarrow> l_locked (d_list S')"
  by (cases ev) (auto simp: step_simps split: if_splits hook_pc.splits)

lemma locked_stays: "debug_run ignored evs S = Some S' \<Longrightarrow> l_locked (d_list S) \<Longrightarrow> l_locked (d_list S')"
  by (induction evs arbitrary: S) (auto split: bind_splits dest: locked_stays_step)

text \<open>\<open>putone\<close> by another thread than the one that the record names.\<close>

lemma foreign_putone:
  assumes "debug_reach addresses ignored T True S" and "0 \<notin> T" and "distinct addresses"
    and "d_holder S m = Some h" "d_pc S h = No_hook" "m \<notin> d_missed S" and "t \<noteq> h" "0 < t" "d_pc S t = No_hook"
  shows "putone t m (d_list S) = Some ((d_list S)\<lparr>l_locked := True\<rparr>)" "\<not> is_backtracing t (d_tids S)" "\<not> ignored m" "\<not> l_locked (d_list S)"
proof -
  have i: "debug_inv addresses ignored S" by (rule debug_reach_inv [OF assms(1) TrueI assms(2,3)])
  then obtain us fs A where re: "records_inv addresses ignored S us fs A" and tb: "table_inv S" by (auto simp: debug_inv_def)
  obtain q where q: "q \<in> set us" "A q = m" using records_invD(7) [OF re assms(4,6)] assms(5) by auto
  have l: "lists (d_list S) us fs" by (rule records_invD(1) [OF re])
  obtain ys zs where us: "us = ys @ q # zs" using q(1) by (meson split_list)
  have m: "0 < m" "\<not> ignored m" "mb_mutex (l_heap (d_list S) q) = m" "mb_pid (l_heap (d_list S) q) = h"
    using records_invD(4) [OF re q(1)] q(2) assms(4,5) by (simp_all add: record_says_def)
  have "A r \<noteq> m" if "r \<in> set ys" for r
  proof -
    have "r \<noteq> q" using that l us by (auto simp: lists_def)
    then show ?thesis using records_invD(3) [OF re] q that us unfolding inj_on_def by auto
  qed
  then have "\<forall>r \<in> set ys. mb_mutex (l_heap (d_list S) r) \<noteq> m" using record_mutex [OF re] us m(1) by force
  then show "putone t m (d_list S) = Some ((d_list S)\<lparr>l_locked := True\<rparr>)"
    using l us m(3,4) assms(7) by (intro putone_other) auto
  show "\<not> is_backtracing t (d_tids S)" using not_backtracing [OF tb assms(8)] assms(9) by simp
  show "\<not> ignored m" "\<not> l_locked (d_list S)" using m(2) l by (simp_all add: lists_def)
qed

text \<open>
  C33: an unlock by another thread stops the hooks. When a thread unlocks a normal mutex that another
  thread has locked, as a child does after a fork, \<open>putone\<close> returns without unlocking its own lock. The
  mutex is released and the thread goes on; but from then on, whatever happens, every lock hook
  that wants a record, every unlock hook and every dump waits for ever.
\<close>

theorem mutexdebug_foreign_unlock:
  assumes "debug_reach addresses ignored T True S" and "0 \<notin> T" and "distinct addresses"
    and "d_holder S m = Some h" "d_pc S h = No_hook" "m \<notin> d_missed S" and "t \<noteq> h" "0 < t" "d_pc S t = No_hook"
  shows "\<exists>S'. debug_run ignored (Ev_unlock t m # replicate 5 (Ev_step t [])) S = Some S' \<and> d_pc S' t = No_hook \<and> d_holder S' m = None \<and>
    (\<forall>evs S''. debug_run ignored evs S' = Some S'' \<longrightarrow>
      dump_all_mutex S'' = None \<and>
      (\<forall>u k frames. d_pc S'' u = L_getone k \<or> d_pc S'' u = U_putone k \<longrightarrow> hook_step ignored frames u S'' = None))"
proof -
  note f = foreign_putone [OF assms]
  define S' where "S' = S\<lparr>d_list := (d_list S)\<lparr>l_locked := True\<rparr>, d_tids := backtrace_end t (backtrace_start t (d_tids S)),
      d_holder := (d_holder S)(m := None), d_missed := d_missed S - {m}\<rparr>"
  have "debug_run ignored (Ev_unlock t m # replicate 5 (Ev_step t [])) S = Some S'"
    using assms(9) f by (simp add: numeral_eq_Suc step_simps S'_def fun_upd_idem)
  moreover have "l_locked (d_list S')" by (simp add: S'_def)
  ultimately show ?thesis using locked_stays assms(9)
    by (intro exI [of _ S']) (auto simp: S'_def dump_all_mutex_def hook_step_def)
qed

section \<open>The table of threads\<close>

definition full_inv :: "nat set \<Rightarrow> debug_state \<Rightarrow> bool" where
  "full_inv T S \<longleftrightarrow> set (d_tids S) \<subseteq> insert 0 T \<and> (\<forall>t. in_table (d_pc S t) \<longrightarrow> t \<in> set (d_tids S)) \<and> (\<forall>t. d_pc S t \<noteq> No_hook \<longrightarrow> t \<in> T)"

lemma count_distinct: "(\<And>x. count_list xs x \<le> 1) \<Longrightarrow> distinct xs"
proof (induction xs)
  case (Cons a xs)
  have "count_list xs a = 0" using Cons.prems [of a] by simp
  moreover have "count_list xs x \<le> 1" for x using Cons.prems [of x] by (simp split: if_splits)
  ultimately show ?case using Cons.IH by (simp add: count_list_0_iff)
qed simp

lemma free_entry:
  assumes tb: "table_inv S" and fu: "full_inv T S" and T: "finite T" "card T \<le> 1024" "0 \<notin> T" and t: "t \<in> T" "\<not> in_table (d_pc S t)"
  shows "0 \<in> set (d_tids S)"
proof (rule ccontr)
  assume z: "0 \<notin> set (d_tids S)"
  have t0: "0 < t" using t(1) T(3) by (metis gr0I)
  then have "count_list (d_tids S) t = 0" using table_invD [OF tb t0] t(2) by simp
  then have "t \<notin> set (d_tids S)" by (simp add: count_list_0_iff)
  then have "set (d_tids S) \<subseteq> T - {t}" using fu z by (auto simp: full_inv_def)
  then have "card (set (d_tids S)) \<le> card (T - {t})" using T(1) by (intro card_mono) auto
  also have "card (T - {t}) < 1024" using T t(1) by (metis card_Diff1_less less_le_trans)
  finally have "card (set (d_tids S)) < length (d_tids S)" using tb by (simp add: table_inv_def)
  moreover have "distinct (d_tids S)"
  proof (rule count_distinct)
    show "count_list (d_tids S) x \<le> 1" for x
      using table_invD [OF tb, of x] z by (cases "x = 0") (simp_all add: count_list_0_iff split: if_splits)
  qed
  ultimately show False by (simp add: distinct_card)
qed

lemma set_replace: "set (replace_first a b xs) \<subseteq> insert b (set xs)"
  by (induction xs) auto

lemma set_replace_keep: "x \<in> set xs \<Longrightarrow> x \<noteq> a \<Longrightarrow> x \<in> set (replace_first a b xs)"
  by (induction xs) auto

lemma set_replace_new: "a \<in> set xs \<Longrightarrow> b \<in> set (replace_first a b xs)"
  by (induction xs) auto

lemma full_upd:
  assumes fu: "full_inv T S" and S': "d_pc S' = (d_pc S)(t := pc)" "d_tids S' = d_tids S" and t: "t \<in> T" "in_table pc \<longrightarrow> in_table (d_pc S t)"
  shows "full_inv T S'"
  using assms unfolding full_inv_def by (metis fun_upd_apply)

lemma full_step:
  assumes tb: "table_inv S" and fu: "full_inv T S" and T: "finite T" "card T \<le> 1024" "0 \<notin> T"
    and st: "hook_step ignored frames t S = Some S'"
  shows "full_inv T S'"
proof -
  have "d_pc S t \<noteq> No_hook" using st by (auto simp: hook_step_def)
  then have t: "t \<in> T" using fu by (simp add: full_inv_def)
  then have t0: "t \<noteq> 0" using T(3) by metis
  have start: "full_inv T S'" if "d_tids S' = backtrace_start t (d_tids S)" "d_pc S' = (d_pc S)(t := pc)" "\<not> in_table (d_pc S t)" for pc
  proof -
    note z = free_entry [OF tb fu T t that(3)]
    have "t \<in> set (d_tids S')" using set_replace_new [OF z] that(1) by (simp add: backtrace_start_def)
    moreover have "u \<in> set (d_tids S')" if "in_table (d_pc S u)" for u
    proof -
      have "d_pc S u \<noteq> No_hook" using that by auto
      then have "u \<in> T" using fu by (simp add: full_inv_def)
      then have "u \<in> set (d_tids S)" "u \<noteq> 0" using fu that T(3) unfolding full_inv_def by metis+
      then show ?thesis using set_replace_keep \<open>d_tids S' = _\<close> by (simp add: backtrace_start_def)
    qed
    moreover have "set (d_tids S') \<subseteq> insert 0 T" using set_replace [of 0 t "d_tids S"] fu t that(1) by (auto simp: full_inv_def backtrace_start_def)
    ultimately show ?thesis using fu t that(2) unfolding full_inv_def by simp
  qed
  have stop: "full_inv T S'" if "d_tids S' = backtrace_end t (d_tids S)" "d_pc S' = (d_pc S)(t := pc)" "\<not> in_table pc" for pc
  proof -
    have "u \<in> set (d_tids S')" if "in_table (d_pc S u)" "u \<noteq> t" for u
      using fu that set_replace_keep \<open>d_tids S' = _\<close> by (simp add: backtrace_end_def full_inv_def)
    moreover have "set (d_tids S') \<subseteq> insert 0 T" using set_replace [of t 0 "d_tids S"] fu that(1) by (auto simp: full_inv_def backtrace_end_def)
    ultimately show ?thesis using fu t that(2,3) unfolding full_inv_def by simp
  qed
  show ?thesis
  proof (cases "d_pc S t")
    case (L_start m)
    then show ?thesis using st by (intro start [of "L_getone m"]) (auto simp: step_simps)
  next
    case (L_end m)
    then show ?thesis using st by (intro stop [of No_hook]) (auto simp: step_simps)
  next
    case (U_start m)
    then show ?thesis using st by (intro start [of "U_putone m"]) (auto simp: step_simps)
  next
    case (U_end m)
    then show ?thesis using st by (intro stop [of "U_release m"]) (auto simp: step_simps)
  qed (rule full_upd [OF fu, of S' t "d_pc S' t"]; use st t in \<open>auto simp: step_simps split: if_splits option.splits prod.splits\<close>)+
qed

lemma debug_reach_full:
  assumes "debug_reach addresses ignored T own S" and "own" and "0 \<notin> T" and "distinct addresses" and "finite T" "card T \<le> 1024"
  shows "full_inv T S"
  using assms
proof (induction rule: debug_reach.induct)
  case (debug_start h)
  then show ?case by (auto simp: full_inv_def init_mutex_debug_def)
next
  case (debug_step S ev S')
  then have fu: "full_inv T S" and tb: "table_inv S"
    using debug_reach_inv [of addresses ignored T own S] by (auto simp: debug_inv_def)
  show ?case
  proof (cases ev)
    case (Ev_step t frames)
    then show ?thesis using full_step [OF tb fu] debug_step.hyps debug_step.prems by simp
  qed (use debug_step.hyps fu in \<open>auto simp: full_inv_def goto_def miss_def split: if_splits\<close>)
qed

text \<open>
  No hook within a hook. With at most 1024 threads, a thread that looks for a record, fills one in
  or gives one back is in the table: \<open>is_backtracing\<close> holds, so the locks that the unwinder or the
  allocator takes there are not recorded themselves. With more threads the table may be full, and
  \<open>backtrace_start\<close> leaves it as it is.
\<close>

theorem mutexdebug_no_recursion:
  assumes "debug_reach addresses ignored T True S" and "0 \<notin> T" and "distinct addresses" and "finite T" "card T \<le> 1024"
  shows "(\<forall>t. in_table (d_pc S t) \<longrightarrow> is_backtracing t (d_tids S)) \<and>
    (\<forall>t. 0 < t \<and> \<not> in_table (d_pc S t) \<longrightarrow> \<not> is_backtracing t (d_tids S)) \<and>
    (\<forall>t tids. 0 \<notin> set tids \<longrightarrow> backtrace_start t tids = tids)"
proof (intro conjI allI impI)
  show "is_backtracing t (d_tids S)" if "in_table (d_pc S t)" for t
    using debug_reach_full [OF assms(1) TrueI assms(2-5)] that by (auto simp: full_inv_def is_backtracing_def list_ex_iff)
  show "\<not> is_backtracing t (d_tids S)" if "0 < t \<and> \<not> in_table (d_pc S t)" for t
    using debug_reach_inv [OF assms(1) TrueI assms(2,3)] not_backtracing that by (auto simp: debug_inv_def)
  show "backtrace_start t tids = tids" if "0 \<notin> set tids" for t tids
    using that by (induction tids) (auto simp: backtrace_start_def)
qed

section \<open>A run\<close>

fun client_debug_run :: "nat set \<Rightarrow> (nat \<Rightarrow> bool) \<Rightarrow> debug_event list \<Rightarrow> debug_state \<Rightarrow> debug_state option" where
  "client_debug_run T ignored [] S = Some S"
| "client_debug_run T ignored (ev # evs) S =
     (if debug_ok T True ev S then Option.bind (debug_next ignored ev S) (client_debug_run T ignored evs) else None)"

lemma client_debug_reach:
  "client_debug_run T ignored evs S = Some S' \<Longrightarrow> debug_reach addresses ignored T True S \<Longrightarrow> debug_reach addresses ignored T True S'"
  by (induction evs arbitrary: S) (auto split: if_splits bind_splits intro: debug_reach.debug_step)

text \<open>Thread 5 has locked mutex 9, with two records in the pool.\<close>

lemma locked_run: "\<exists>S. client_debug_run {5, 6} (\<lambda>_. False) (Ev_lock 5 9 # replicate 7 (Ev_step 5 [7])) (init_mutex_debug [1, 2] (\<lambda>_. new_backtrace)) = Some S \<and>
   d_holder S 9 = Some 5 \<and> d_pc S = (\<lambda>_. No_hook) \<and> d_missed S = {}"
proof -
  have r: "replicate 7 x = [x, x, x, x, x, x, x]" for x :: debug_event by (simp add: numeral_eq_Suc)
  show ?thesis unfolding r
    by (simp add: step_simps init_mutex_debug_def bt_list_init_def is_backtracing_def list_ex_iff getone_def fun_eq_iff)
qed

lemma locked_reach: "\<exists>S. debug_reach [1, 2] (\<lambda>_. False) {5, 6} True S \<and> d_holder S 9 = Some 5 \<and> d_pc S = (\<lambda>_. No_hook) \<and> d_missed S = {}"
  using locked_run client_debug_reach [OF _ debug_reach.debug_start] by blast

lemma locked_facts: "(0 :: nat) \<notin> {5, 6}" "distinct [1, 2 :: nat]" "finite {5, 6 :: nat}" "card {5, 6 :: nat} \<le> 1024"
  by simp_all

theorem mutexdebug_dump_witness:
  "\<exists>S out. debug_reach [1, 2] (\<lambda>_. False) {5, 6} True S \<and> dump_all_mutex S = Some out \<and> (\<exists>bt. (9, 5, bt) \<in> set out)"
proof -
  obtain S where S: "debug_reach [1, 2] (\<lambda>_. False) {5, 6} True S" "d_holder S 9 = Some 5" "d_pc S = (\<lambda>_. No_hook)" "d_missed S = {}"
    using locked_reach by blast
  have "d_holder S 9 = Some 5 \<and> d_pc S 5 = No_hook \<and> 9 \<notin> d_missed S" using S by simp
  then show ?thesis using mutexdebug_dump [OF S(1) locked_facts(1,2)] S(1) by blast
qed

text \<open>Thread 5 has locked mutex 9, and thread 6 unlocks it.\<close>

lemma any_reach: "debug_reach addresses ignored T own S \<Longrightarrow> debug_reach addresses ignored T False S"
proof (induction rule: debug_reach.induct)
  case (debug_step S ev S')
  then have "debug_ok T False ev S" by (cases ev) auto
  then show ?case using debug_step debug_reach.debug_step by blast
qed (rule debug_reach.debug_start)

lemma any_run_reach:
  "debug_run ignored evs S = Some S' \<Longrightarrow> debug_reach addresses ignored T False S \<Longrightarrow> (\<And>ev S. ev \<in> set evs \<Longrightarrow> debug_ok T False ev S) \<Longrightarrow>
   debug_reach addresses ignored T False S'"
proof (induction evs arbitrary: S)
  case (Cons ev evs)
  then obtain S1 where "debug_next ignored ev S = Some S1" "debug_run ignored evs S1 = Some S'" by (auto split: bind_splits)
  then show ?case using Cons debug_reach.debug_step [of addresses ignored T False S ev S1] by simp
qed simp

lemma foreign_reach: "\<exists>S. debug_reach [1, 2] (\<lambda>_. False) {5, 6} False S \<and> l_locked (d_list S) \<and> d_holder S 9 = Some 5"
proof -
  obtain S where S: "debug_reach [1, 2] (\<lambda>_. False) {5, 6} True S" "d_holder S 9 = Some 5" "d_pc S = (\<lambda>_. No_hook)" "d_missed S = {}"
    using locked_reach by blast
  have f: "putone 6 9 (d_list S) = Some ((d_list S)\<lparr>l_locked := True\<rparr>)" "\<not> is_backtracing 6 (d_tids S)" "\<not> l_locked (d_list S)"
    using foreign_putone [OF S(1) locked_facts(1,2) S(2), of 6] S(3,4) by simp_all
  have "\<exists>S'. debug_run (\<lambda>_. False) (Ev_unlock 6 9 # replicate 3 (Ev_step 6 [])) S = Some S' \<and> l_locked (d_list S') \<and> d_holder S' 9 = Some 5"
    using f S(2,3) by (simp add: numeral_eq_Suc step_simps)
  then obtain S' where S': "debug_run (\<lambda>_. False) (Ev_unlock 6 9 # replicate 3 (Ev_step 6 [])) S = Some S'" "l_locked (d_list S')" "d_holder S' 9 = Some 5"
    by blast
  moreover have "debug_reach [1, 2] (\<lambda>_. False) {5, 6} False S'" by (rule any_run_reach [OF S'(1) any_reach [OF S(1)]]) auto
  ultimately show ?thesis by blast
qed

theorem mutexdebug_pool_witness:
  "\<exists>S us fs. debug_reach [1, 2] (\<lambda>_. False) {5, 6} False S \<and> l_locked (d_list S) \<and> d_holder S 9 = Some 5 \<and>
    chain (l_heap (d_list S)) (l_used (d_list S)) us \<and> length us + length (fs :: nat list) = 2"
proof -
  obtain S where S: "debug_reach [1, 2] (\<lambda>_. False) {5, 6} False S" "l_locked (d_list S)" "d_holder S 9 = Some 5"
    using foreign_reach by blast
  obtain us and fs :: "nat list" where "chain (l_heap (d_list S)) (l_used (d_list S)) us" "length us + length fs = length [1, 2 :: nat]"
    using mutexdebug_pool [OF S(1) locked_facts(1,2)] by blast
  then show ?thesis using S by (intro exI [of _ S] exI [of _ us] exI [of _ fs]) simp
qed

theorem mutexdebug_foreign_unlock_witness:
  "\<exists>S S'. debug_reach [1, 2] (\<lambda>_. False) {5, 6} True S \<and>
    debug_run (\<lambda>_. False) (Ev_unlock 6 9 # replicate 5 (Ev_step 6 [])) S = Some S' \<and> dump_all_mutex S' = None"
proof -
  obtain S where S: "debug_reach [1, 2] (\<lambda>_. False) {5, 6} True S" "d_holder S 9 = Some 5" "d_pc S = (\<lambda>_. No_hook)" "d_missed S = {}"
    using locked_reach by blast
  have "\<exists>S'. debug_run (\<lambda>_. False) (Ev_unlock 6 9 # replicate 5 (Ev_step 6 [])) S = Some S' \<and>
      (\<forall>evs S''. debug_run (\<lambda>_. False) evs S' = Some S'' \<longrightarrow> dump_all_mutex S'' = None)"
    using mutexdebug_foreign_unlock [OF S(1) locked_facts(1,2) S(2), of 6] S(3,4) by auto
  then show ?thesis using S(1) by (metis debug_run.simps(1))
qed

theorem mutexdebug_no_recursion_witness:
  "\<exists>S. debug_reach [1, 2] (\<lambda>_. False) {5, 6} True S \<and> d_holder S 9 = Some 5 \<and> \<not> is_backtracing 5 (d_tids S)"
proof -
  obtain S where S: "debug_reach [1, 2] (\<lambda>_. False) {5, 6} True S" "d_holder S 9 = Some 5" "d_pc S = (\<lambda>_. No_hook)"
    using locked_reach by blast
  have "0 < (5 :: nat) \<and> \<not> in_table (d_pc S 5)" using S(3) by simp
  then show ?thesis using mutexdebug_no_recursion [OF S(1) locked_facts] S by blast
qed

end
