(* ===== verification/PthreadKey.thy ===== *)
theory PthreadKey
  imports Prelude
begin

text \<open>
  Threads of the C library, their list, their creation and their keys:
  \<open>pthread_internals.cpp\<close>, \<open>pthread_create.cpp\<close> and \<open>pthread_key.cpp\<close> of
  \<open>src/debugfs/android50/bionic/libc/bionic\<close>.

  A thread is a node of a heap, linked by \<open>next\<close> and \<open>prev\<close>, with its TLS area as an array of words.
  The sizes that the headers fix (the number of slots, the first user slot, the iterations of the
  destructors) and the answers of the system calls are arguments. A call under the lock of the key map
  or of the thread list is one step; a destructor, which runs without the lock, is any function of the
  state, so it also stands for what other threads do meanwhile.
\<close>

unbundle bit_operations_syntax

section \<open>The list of threads\<close>

text \<open>\<open>th_tls\<close> is \<open>None\<close> for a null pointer.\<close>

record pthread_attr =
  a_main :: bool
  a_user_stack :: bool
  a_detached :: bool
  a_sched_normal :: bool
  a_stack_base :: nat
  a_stack_size :: nat
  a_guard_size :: nat

record pthread_internal =
  th_next :: "nat option"
  th_prev :: "nat option"
  th_tid :: nat
  th_tls :: "nat list option"
  th_attr :: pthread_attr
  th_routine :: nat
  th_started :: bool

text \<open>\<open>th_started\<close>: the startup mutex has been unlocked by the creator. Routine 0 is \<open>__do_nothing\<close>.\<close>

text \<open>The bitmap of the keys in use, their destructors (0 for null), and the threads; a freed thread is \<open>None\<close>.\<close>

record thread_state =
  tm_initialized :: bool
  tm_map :: "u32 list"
  tm_dtors :: "nat list"
  g_thread_list :: "nat option"
  th_heap :: "nat \<Rightarrow> pthread_internal option"
  th_stacks :: "nat set"

definition th_upd :: "nat \<Rightarrow> (pthread_internal \<Rightarrow> pthread_internal) \<Rightarrow> thread_state \<Rightarrow> thread_state" where
  "th_upd p f s = s\<lparr>th_heap := (th_heap s)(p := map_option f (th_heap s p))\<rparr>"

definition pthread_internal_remove_locked :: "nat \<Rightarrow> thread_state \<Rightarrow> thread_state option" where
  "pthread_internal_remove_locked thread s =
     (case th_heap s thread of
        None \<Rightarrow> None
      | Some th \<Rightarrow>
          let s1 = (case th_next th of Some n \<Rightarrow> th_upd n (\<lambda>x. x\<lparr>th_prev := th_prev th\<rparr>) s | None \<Rightarrow> s);
              s2 = (case th_prev th of Some p \<Rightarrow> th_upd p (\<lambda>x. x\<lparr>th_next := th_next th\<rparr>) s1
                    | None \<Rightarrow> s1\<lparr>g_thread_list := th_next th\<rparr>)
          in Some (if a_main (th_attr th) then s2 else s2\<lparr>th_heap := (th_heap s2)(thread := None)\<rparr>))"

definition pthread_internal_add :: "nat \<Rightarrow> thread_state \<Rightarrow> thread_state" where
  "pthread_internal_add thread s =
     (let s1 = th_upd thread (\<lambda>x. x\<lparr>th_next := g_thread_list s, th_prev := None\<rparr>) s;
          s2 = (case g_thread_list s of Some n \<Rightarrow> th_upd n (\<lambda>x. x\<lparr>th_prev := Some thread\<rparr>) s1 | None \<Rightarrow> s1)
      in s2\<lparr>g_thread_list := Some thread\<rparr>)"

text \<open>Seconds and nanoseconds until \<open>abstime\<close>; \<open>Inl\<close>: already over.\<close>

definition timespec_from_absolute :: "int \<times> int \<Rightarrow> int \<times> int \<Rightarrow> int + int \<times> int" where
  "timespec_from_absolute now abstime =
     (let sec = fst abstime - fst now; nsec = snd abstime - snd now;
          (sec, nsec) = (if nsec < 0 then (sec - 1, nsec + 1000000000) else (sec, nsec))
      in if nsec < 0 \<or> sec < 0 then Inl (-1) else Inr (sec, nsec))"

section \<open>The map of the keys\<close>

definition TLSMAP_BITS :: nat where "TLSMAP_BITS = 32"

definition TLSMAP_WORDS :: "nat \<Rightarrow> nat" where
  "TLSMAP_WORDS slots = (slots + TLSMAP_BITS - 1) div TLSMAP_BITS"

definition TLSMAP_MASK :: "nat \<Rightarrow> u32" where
  "TLSMAP_MASK k = push_bit (k AND (TLSMAP_BITS - 1)) 1"

definition IsValidUserKey :: "nat \<Rightarrow> nat \<Rightarrow> nat \<Rightarrow> bool" where
  "IsValidUserKey first slots key \<longleftrightarrow> key \<ge> first \<and> key < slots"

definition IsInUse :: "nat \<Rightarrow> thread_state \<Rightarrow> bool" where
  "IsInUse key s \<longleftrightarrow> (tm_map s ! (key div TLSMAP_BITS)) AND TLSMAP_MASK key \<noteq> 0"

definition SetInUse :: "nat \<Rightarrow> nat \<Rightarrow> thread_state \<Rightarrow> thread_state" where
  "SetInUse key dtor s =
     s\<lparr>tm_map := (tm_map s)[key div TLSMAP_BITS := (tm_map s ! (key div TLSMAP_BITS)) OR TLSMAP_MASK key],
       tm_dtors := (tm_dtors s)[key := dtor]\<rparr>"

definition DeleteKey :: "nat \<Rightarrow> thread_state \<Rightarrow> thread_state" where
  "DeleteKey key s =
     s\<lparr>tm_map := (tm_map s)[key div TLSMAP_BITS := (tm_map s ! (key div TLSMAP_BITS)) AND NOT (TLSMAP_MASK key)],
       tm_dtors := (tm_dtors s)[key := 0]\<rparr>"

text \<open>The constructor of \<open>ScopedTlsMapAccess\<close>.\<close>

definition tls_map_access :: "nat \<Rightarrow> thread_state \<Rightarrow> thread_state" where
  "tls_map_access first s =
     (if tm_initialized s then s else (fold (\<lambda>key. SetInUse key 0) [0..<first] s)\<lparr>tm_initialized := True\<rparr>)"

definition CreateKey :: "nat \<Rightarrow> nat \<Rightarrow> thread_state \<Rightarrow> (int + nat) \<times> thread_state" where
  "CreateKey slots dtor s =
     (case find (\<lambda>key. \<not> IsInUse key s) [0..<slots] of
        Some key \<Rightarrow> (Inr key, SetInUse key dtor s)
      | None \<Rightarrow> (Inl EAGAIN, s))"

definition pthread_key_create :: "nat \<Rightarrow> nat \<Rightarrow> nat \<Rightarrow> thread_state \<Rightarrow> (int + nat) \<times> thread_state" where
  "pthread_key_create first slots dtor s = CreateKey slots dtor (tls_map_access first s)"

text \<open>The walk of \<open>pthread_key_delete\<close> over the threads.\<close>

partial_function (option) clear_threads :: "nat \<Rightarrow> nat option \<Rightarrow> thread_state \<Rightarrow> thread_state option" where
  "clear_threads key t s =
     (case t of
        None \<Rightarrow> Some s
      | Some p \<Rightarrow>
          (case th_heap s p of
             None \<Rightarrow> None
           | Some th \<Rightarrow>
               clear_threads key (th_next th)
                 (if th_tid th = 0 \<or> th_tls th = None then s
                  else th_upd p (\<lambda>x. x\<lparr>th_tls := map_option (\<lambda>tls. tls[key := 0]) (th_tls x)\<rparr>) s)))"

definition pthread_key_delete :: "nat \<Rightarrow> nat \<Rightarrow> nat \<Rightarrow> thread_state \<Rightarrow> (int \<times> thread_state) option" where
  "pthread_key_delete first slots key s0 =
     (let s = tls_map_access first s0
      in if \<not> IsValidUserKey first slots key \<or> \<not> IsInUse key s then Some (EINVAL, s)
         else map_option (\<lambda>s. (0, DeleteKey key s)) (clear_threads key (g_thread_list s) s))"

text \<open>\<open>self\<close> is the calling thread, \<open>get_tls\<close> its TLS area.\<close>

definition get_tls :: "nat \<Rightarrow> thread_state \<Rightarrow> nat list" where
  "get_tls self s = (case th_heap s self of Some th \<Rightarrow> (case th_tls th of Some tls \<Rightarrow> tls | None \<Rightarrow> []) | None \<Rightarrow> [])"

definition set_tls :: "nat \<Rightarrow> nat \<Rightarrow> nat \<Rightarrow> thread_state \<Rightarrow> thread_state" where
  "set_tls self key data = th_upd self (\<lambda>x. x\<lparr>th_tls := map_option (\<lambda>tls. tls[key := data]) (th_tls x)\<rparr>)"

definition pthread_getspecific :: "nat \<Rightarrow> nat \<Rightarrow> nat \<Rightarrow> nat \<Rightarrow> thread_state \<Rightarrow> nat" where
  "pthread_getspecific first slots self key s = (if \<not> IsValidUserKey first slots key then 0 else get_tls self s ! key)"

definition pthread_setspecific :: "nat \<Rightarrow> nat \<Rightarrow> nat \<Rightarrow> nat \<Rightarrow> nat \<Rightarrow> thread_state \<Rightarrow> int \<times> thread_state" where
  "pthread_setspecific first slots self key ptr s0 =
     (let s = tls_map_access first s0
      in if \<not> IsValidUserKey first slots key \<or> \<not> IsInUse key s then (EINVAL, s) else (0, set_tls self key ptr s))"

section \<open>The destructors\<close>

text \<open>\<open>run\<close>: what happens between the unlock and the lock around the call of a destructor.\<close>

definition clean_key :: "(nat \<Rightarrow> nat \<Rightarrow> thread_state \<Rightarrow> thread_state) \<Rightarrow> nat \<Rightarrow> nat \<Rightarrow> (nat \<times> nat) list \<times> thread_state \<Rightarrow> (nat \<times> nat) list \<times> thread_state" where
  "clean_key run self key = (\<lambda>(calls, s).
     if IsInUse key s then
       (let data = get_tls self s ! key; dtor = tm_dtors s ! key
        in if data \<noteq> 0 \<and> dtor \<noteq> 0 then (calls @ [(dtor, data)], run dtor data (set_tls self key 0 s)) else (calls, s))
     else (calls, s))"

text \<open>The calls of destructors, in their order, and the state after at most \<open>rounds\<close> rounds.\<close>

fun clean_rounds :: "(nat \<Rightarrow> nat \<Rightarrow> thread_state \<Rightarrow> thread_state) \<Rightarrow> nat \<Rightarrow> nat \<Rightarrow> nat \<Rightarrow> thread_state \<Rightarrow> (nat \<times> nat) list \<times> thread_state" where
  "clean_rounds run slots self 0 s = ([], s)"
| "clean_rounds run slots self (Suc rounds) s =
     (case fold (clean_key run self) [0..<slots] ([], s) of (calls, s') \<Rightarrow>
        if length calls = 0 then (calls, s')
        else (case clean_rounds run slots self rounds s' of (more_calls, s'') \<Rightarrow> (calls @ more_calls, s'')))"

definition pthread_key_clean_all :: "(nat \<Rightarrow> nat \<Rightarrow> thread_state \<Rightarrow> thread_state) \<Rightarrow> nat \<Rightarrow> nat \<Rightarrow> nat \<Rightarrow> nat \<Rightarrow> thread_state \<Rightarrow> (nat \<times> nat) list \<times> thread_state" where
  "pthread_key_clean_all run first slots iterations self s = clean_rounds run slots self iterations (tls_map_access first s)"

section \<open>Creating a thread\<close>

text \<open>
  The answers of the environment: \<open>calloc\<close> of the thread, \<open>mmap\<close> and \<open>mprotect\<close> of the stack, the
  error number or the thread number of \<open>clone\<close>, the error number of \<open>sched_setscheduler\<close> or 0.
\<close>

record create_env =
  e_calloc :: "nat option"
  e_mmap :: "nat option"
  e_mprotect :: bool
  e_clone :: "int + nat"
  e_sched :: int
  e_lp64 :: bool

definition create_thread_stack :: "create_env \<Rightarrow> thread_state \<Rightarrow> nat option \<times> thread_state" where
  "create_thread_stack env s =
     (case e_mmap env of
        None \<Rightarrow> (None, s)
      | Some stack \<Rightarrow>
          let s1 = s\<lparr>th_stacks := insert stack (th_stacks s)\<rparr>
          in if \<not> e_mprotect env then (None, s1\<lparr>th_stacks := th_stacks s1 - {stack}\<rparr>) else (Some stack, s1))"

text \<open>The TLS area of a mapped stack is 0 already. \<open>guard\<close> is the value of \<open>__stack_chk_guard\<close>.\<close>

definition init_tls :: "nat \<Rightarrow> nat \<times> nat \<times> nat \<Rightarrow> nat \<Rightarrow> nat list \<Rightarrow> nat list" where
  "init_tls guard slot_numbers thread tls =
     (case slot_numbers of (slot_self, slot_thread_id, slot_guard) \<Rightarrow>
        tls[slot_self := thread, slot_thread_id := thread, slot_guard := guard])"

definition init_thread :: "create_env \<Rightarrow> nat \<Rightarrow> bool \<Rightarrow> thread_state \<Rightarrow> int \<times> thread_state" where
  "init_thread env thread add_to_thread_list s =
     (let normal = (case th_heap s thread of Some th \<Rightarrow> a_sched_normal (th_attr th) | None \<Rightarrow> True);
          error = (if \<not> normal \<and> e_sched env \<noteq> 0 \<and> e_lp64 env then e_sched env else 0)
      in (error, if add_to_thread_list then pthread_internal_add thread s else s))"

definition pthread_create ::
    "create_env \<Rightarrow> (nat \<Rightarrow> nat) \<Rightarrow> nat \<Rightarrow> nat \<Rightarrow> nat \<times> nat \<times> nat \<Rightarrow> pthread_attr \<Rightarrow> pthread_attr option \<Rightarrow> nat \<Rightarrow> thread_state \<Rightarrow> (int + nat) \<times> thread_state" where
  "pthread_create env align slots guard slot_numbers default_attr attr routine s =
     (case e_calloc env of
        None \<Rightarrow> (Inl EAGAIN, s)
      | Some thread \<Rightarrow>
          let a0 = (case attr of None \<Rightarrow> default_attr | Some a \<Rightarrow> a);
              a1 = a0\<lparr>a_stack_size := align (a_stack_size a0), a_guard_size := align (a_guard_size a0)\<rparr>
          in case (if a_stack_base a1 = 0
                   then (case create_thread_stack env s of (None, s1) \<Rightarrow> (None, s1) | (Some stack, s1) \<Rightarrow> (Some (a1\<lparr>a_stack_base := stack\<rparr>), s1))
                   else (Some (a1\<lparr>a_user_stack := True\<rparr>), s)) of
               (None, s1) \<Rightarrow> (Inl EAGAIN, s1)
             | (Some a, s1) \<Rightarrow>
                 let th = \<lparr>th_next = None, th_prev = None, th_tid = 0, th_tls = Some (init_tls guard slot_numbers thread (replicate slots 0)),
                           th_attr = a, th_routine = routine, th_started = False\<rparr>
                 in case e_clone env of
                      Inl clone_errno \<Rightarrow> (Inl clone_errno, if a_user_stack a then s1 else s1\<lparr>th_stacks := th_stacks s1 - {a_stack_base a}\<rparr>)
                    | Inr tid \<Rightarrow>
                        (case init_thread env thread True (s1\<lparr>th_heap := (th_heap s1)(thread \<mapsto> th\<lparr>th_tid := tid\<rparr>)\<rparr>) of (init_errno, s2) \<Rightarrow>
                           if init_errno \<noteq> 0
                           then (Inl init_errno, th_upd thread (\<lambda>x. x\<lparr>th_attr := (th_attr x)\<lparr>a_detached := True\<rparr>, th_routine := 0, th_started := True\<rparr>) s2)
                           else (Inr thread, th_upd thread (\<lambda>x. x\<lparr>th_started := True\<rparr>) s2)))"

end
