(* ===== verification/PthreadKeyProof.thy ===== *)
theory PthreadKeyProof
  imports PthreadKey
begin

text \<open>
  The bitmap as a set of keys, the list of threads as a doubly linked chain, and over all histories of
  a process: no thread ever sees a value of a key that was stored before the key was created.
\<close>

unbundle bit_operations_syntax

section \<open>The bitmap\<close>

definition map_ok :: "nat \<Rightarrow> thread_state \<Rightarrow> bool" where
  "map_ok slots s \<longleftrightarrow> length (tm_map s) = TLSMAP_WORDS slots \<and> length (tm_dtors s) = slots"

lemma word_in_map: "key < slots \<Longrightarrow> map_ok slots s \<Longrightarrow> key div TLSMAP_BITS < length (tm_map s)"
  by (simp add: map_ok_def TLSMAP_WORDS_def TLSMAP_BITS_def)

lemma bit_TLSMAP_MASK: "bit (TLSMAP_MASK key) n \<longleftrightarrow> n = key mod 32"
proof -
  have "key AND 31 = key mod 32" using take_bit_eq_mask [of 5 key] by (simp add: mask_eq_exp_minus_1 take_bit_eq_mod)
  then show ?thesis by (auto simp: TLSMAP_MASK_def TLSMAP_BITS_def bit_exp_iff)
qed

lemma and_TLSMAP_MASK: "w AND TLSMAP_MASK key \<noteq> 0 \<longleftrightarrow> bit w (key mod 32)"
proof
  assume n: "w AND TLSMAP_MASK key \<noteq> 0"
  show "bit w (key mod 32)"
  proof (rule ccontr)
    assume "\<not> bit w (key mod 32)"
    then have "w AND TLSMAP_MASK key = 0" by (intro bit_word_eqI) (auto simp: bit_and_iff bit_TLSMAP_MASK)
    then show False using n by simp
  qed
next
  assume "bit w (key mod 32)"
  then have "bit (w AND TLSMAP_MASK key) (key mod 32)" by (simp add: bit_and_iff bit_TLSMAP_MASK)
  then show "w AND TLSMAP_MASK key \<noteq> 0" by auto
qed

lemma IsInUse_bit: "IsInUse key s \<longleftrightarrow> bit (tm_map s ! (key div 32)) (key mod 32)"
  by (simp add: IsInUse_def and_TLSMAP_MASK) (simp add: TLSMAP_BITS_def)

lemma same_key: "(k :: nat) div 32 = key div 32 \<Longrightarrow> k mod 32 = key mod 32 \<Longrightarrow> k = key"
  by (metis div_mult_mod_eq)

lemma SetInUse_IsInUse:
  assumes "map_ok slots s" "key < slots"
  shows "IsInUse k (SetInUse key dtor s) \<longleftrightarrow> k = key \<or> IsInUse k s"
  using word_in_map [OF assms(2,1)] same_key [of k key]
  by (auto simp: IsInUse_bit SetInUse_def nth_list_update bit_or_iff bit_TLSMAP_MASK TLSMAP_BITS_def)

lemma DeleteKey_IsInUse:
  assumes "map_ok slots s" "key < slots"
  shows "IsInUse k (DeleteKey key s) \<longleftrightarrow> k \<noteq> key \<and> IsInUse k s"
proof -
  have "key mod 32 < 32" "k mod 32 < 32" by simp_all
  then show ?thesis
    using word_in_map [OF assms(2,1)] same_key [of k key]
    by (auto simp: IsInUse_bit DeleteKey_def nth_list_update bit_and_iff bit_not_iff bit_TLSMAP_MASK TLSMAP_BITS_def)
qed

lemma SetInUse_rest [simp]:
  "g_thread_list (SetInUse key dtor s) = g_thread_list s" "th_heap (SetInUse key dtor s) = th_heap s" "th_stacks (SetInUse key dtor s) = th_stacks s"
  "tm_initialized (SetInUse key dtor s) = tm_initialized s" "map_ok slots (SetInUse key dtor s) = map_ok slots s"
  "tm_dtors (SetInUse key dtor s) = (tm_dtors s)[key := dtor]"
  by (simp_all add: SetInUse_def map_ok_def)

lemma DeleteKey_rest [simp]:
  "g_thread_list (DeleteKey key s) = g_thread_list s" "th_heap (DeleteKey key s) = th_heap s" "th_stacks (DeleteKey key s) = th_stacks s"
  "tm_initialized (DeleteKey key s) = tm_initialized s" "map_ok slots (DeleteKey key s) = map_ok slots s"
  "tm_dtors (DeleteKey key s) = (tm_dtors s)[key := 0]"
  by (simp_all add: DeleteKey_def map_ok_def)

lemma fold_SetInUse:
  "map_ok slots s \<Longrightarrow> n \<le> slots \<Longrightarrow>
   map_ok slots (fold (\<lambda>key. SetInUse key 0) [0..<n] s) \<and> (\<forall>k. IsInUse k (fold (\<lambda>key. SetInUse key 0) [0..<n] s) \<longleftrightarrow> k < n \<or> IsInUse k s) \<and>
   g_thread_list (fold (\<lambda>key. SetInUse key 0) [0..<n] s) = g_thread_list s \<and> th_heap (fold (\<lambda>key. SetInUse key 0) [0..<n] s) = th_heap s \<and>
   (\<forall>k. n \<le> k \<longrightarrow> tm_dtors (fold (\<lambda>key. SetInUse key 0) [0..<n] s) ! k = tm_dtors s ! k)"
proof (induction n)
  case (Suc n)
  then have ih: "map_ok slots (fold (\<lambda>key. SetInUse key 0) [0..<n] s)" "n < slots" by simp_all
  show ?case using Suc SetInUse_IsInUse [OF ih] by auto
qed simp

text \<open>The map of a process: the first keys are in use once the map is initialised, none before.\<close>

definition keys_ok :: "nat \<Rightarrow> nat \<Rightarrow> thread_state \<Rightarrow> bool" where
  "keys_ok first slots s \<longleftrightarrow> first \<le> slots \<and> map_ok slots s \<and> (if tm_initialized s then \<forall>k < first. IsInUse k s else \<forall>k < slots. \<not> IsInUse k s)"

lemma access_facts:
  assumes "keys_ok first slots s"
  shows "keys_ok first slots (tls_map_access first s)" "tm_initialized (tls_map_access first s)"
    "g_thread_list (tls_map_access first s) = g_thread_list s" "th_heap (tls_map_access first s) = th_heap s"
    "first \<le> k \<Longrightarrow> IsInUse k (tls_map_access first s) = IsInUse k s" "first \<le> k \<Longrightarrow> tm_dtors (tls_map_access first s) ! k = tm_dtors s ! k"
proof -
  have u: "IsInUse k (s\<lparr>tm_initialized := b\<rparr>) = IsInUse k s" "map_ok slots (s\<lparr>tm_initialized := b\<rparr>) = map_ok slots s" for k b and s :: thread_state
    by (simp_all add: IsInUse_def map_ok_def)
  have "map_ok slots s" "first \<le> slots" using assms by (simp_all add: keys_ok_def)
  note f = fold_SetInUse [OF this]
  show "keys_ok first slots (tls_map_access first s)" "tm_initialized (tls_map_access first s)"
    "g_thread_list (tls_map_access first s) = g_thread_list s" "th_heap (tls_map_access first s) = th_heap s"
    using f assms by (auto simp: tls_map_access_def keys_ok_def u)
  assume "first \<le> k"
  then show "IsInUse k (tls_map_access first s) = IsInUse k s" "tm_dtors (tls_map_access first s) ! k = tm_dtors s ! k"
    using f by (auto simp: tls_map_access_def u)
qed

lemma find_upt: "find P [0..<n] = (if \<exists>k < n. P k then Some (LEAST k. P k) else None)"
proof (cases "\<exists>k < n. P k")
  case True
  then obtain k where k: "k < n" "P k" by blast
  let ?m = "LEAST k. P k"
  have "?m \<le> k" using k(2) by (rule Least_le)
  then have m: "P ?m" "?m < n" using k LeastI [of P k] by simp_all
  have l: "j < ?m \<Longrightarrow> \<not> P j" for j by (rule not_less_Least)
  have "find P [0..<n] = Some ?m" unfolding find_Some_iff
  proof (intro exI [of _ ?m] conjI allI impI)
    show "\<not> P ([0..<n] ! j)" if "j < ?m" for j using l [OF that] that m(2) by (simp only: nth_upt add_0 less_trans simp_thms)
  qed (use m in simp_all)
  then show ?thesis using True by simp
next
  case False
  then have "find P [0..<n] = None" by (auto simp: find_None_iff)
  then show ?thesis by (simp only: False if_False)
qed

section \<open>The list of threads\<close>

text \<open>The nodes from \<open>p\<close> on, doubly linked, the first with \<open>prev\<close> as its predecessor.\<close>

fun dchain :: "(nat \<Rightarrow> pthread_internal option) \<Rightarrow> nat option \<Rightarrow> nat option \<Rightarrow> nat list \<Rightarrow> bool" where
  "dchain h prev p [] \<longleftrightarrow> p = None"
| "dchain h prev p (x # xs) \<longleftrightarrow> p = Some x \<and> (\<exists>th. h x = Some th \<and> th_prev th = prev \<and> dchain h (Some x) (th_next th) xs)"

definition threads :: "thread_state \<Rightarrow> nat list \<Rightarrow> bool" where
  "threads s xs \<longleftrightarrow> dchain (th_heap s) None (g_thread_list s) xs \<and> distinct xs"

lemma dchain_cong:
  "dchain h prev p xs \<Longrightarrow> (\<And>x th. x \<in> set xs \<Longrightarrow> h x = Some th \<Longrightarrow> \<exists>th'. h' x = Some th' \<and> th_next th' = th_next th \<and> th_prev th' = th_prev th) \<Longrightarrow>
   dchain h' prev p xs"
proof (induction xs arbitrary: prev p)
  case (Cons x xs)
  then obtain th where th: "h x = Some th" "th_prev th = prev" "dchain h (Some x) (th_next th) xs" "p = Some x" by auto
  obtain th' where th': "h' x = Some th'" "th_next th' = th_next th" "th_prev th' = th_prev th" using Cons.prems(2) [OF _ th(1)] by auto
  have "dchain h' (Some x) (th_next th) xs" by (rule Cons.IH [OF th(3)]) (use Cons.prems(2) in auto)
  then show ?case using th th' by simp
qed simp

lemma dchain_other: "dchain h prev p xs \<Longrightarrow> x \<notin> set xs \<Longrightarrow> dchain (h(x := v)) prev p xs"
  by (erule dchain_cong) auto

lemma dchain_prev:
  "dchain h prev (Some n) (n # xs) \<Longrightarrow> n \<notin> set xs \<Longrightarrow> dchain (h(n := map_option (\<lambda>x. x\<lparr>th_prev := prev'\<rparr>) (h n))) prev' (Some n) (n # xs)"
  by (auto intro: dchain_other)

lemma dchain_alive: "dchain h prev p xs \<Longrightarrow> x \<in> set xs \<Longrightarrow> \<exists>th. h x = Some th"
  by (induction xs arbitrary: prev p) auto

lemma add_threads:
  assumes "threads s xs" and "th_heap s t = Some th" and "t \<notin> set xs"
  shows "threads (pthread_internal_add t s) (t # xs)"
proof (cases xs)
  case Nil
  then show ?thesis using assms by (auto simp: threads_def pthread_internal_add_def th_upd_def Let_def)
next
  case (Cons n ys)
  let ?h = "(th_heap s)(t := Some (th\<lparr>th_next := Some n, th_prev := None\<rparr>))"
  have d: "dchain (th_heap s) None (Some n) (n # ys)" "g_thread_list s = Some n" "distinct (n # ys)" "t \<noteq> n" "t \<notin> set ys"
    using assms Cons by (auto simp: threads_def)
  have "dchain ?h None (Some n) (n # ys)" using d by (intro dchain_other) auto
  then have "dchain (?h(n := map_option (\<lambda>x. x\<lparr>th_prev := Some t\<rparr>) (?h n))) (Some t) (Some n) (n # ys)"
    using d by (intro dchain_prev) auto
  then show ?thesis using d Cons assms(2) by (simp add: threads_def pthread_internal_add_def th_upd_def Let_def)
qed

lemma dchain_split:
  "dchain h prev p (xs @ y # ys) \<Longrightarrow> \<exists>th. h y = Some th \<and> th_prev th = (if xs = [] then prev else Some (last xs)) \<and>
     th_next th = (case ys of [] \<Rightarrow> None | z # _ \<Rightarrow> Some z) \<and> dchain h (Some y) (th_next th) ys"
proof (induction xs arbitrary: prev p)
  case Nil
  then show ?case by (cases ys) auto
next
  case (Cons x xs)
  then show ?case by (cases xs) auto
qed

definition set_prev :: "nat option \<Rightarrow> nat option \<Rightarrow> (nat \<Rightarrow> pthread_internal option) \<Rightarrow> nat \<Rightarrow> pthread_internal option" where
  "set_prev n v h = (case n of Some n \<Rightarrow> h(n := map_option (\<lambda>x. x\<lparr>th_prev := v\<rparr>) (h n)) | None \<Rightarrow> h)"

lemma set_prev_other: "n \<noteq> Some x \<Longrightarrow> set_prev n v h x = h x"
  by (auto simp: set_prev_def split: option.splits)

lemma dchain_unlink:
  assumes "dchain h prev p (xs @ y # ys)" "distinct (xs @ y # ys)" "h y = Some th"
  shows "dchain (set_prev (th_next th) (th_prev th) h) (th_prev th) (th_next th) ys"
proof -
  have d: "th_next th = (case ys of [] \<Rightarrow> None | z # _ \<Rightarrow> Some z)" "dchain h (Some y) (th_next th) ys"
    using dchain_split [OF assms(1)] assms(3) by auto
  show ?thesis
  proof (cases ys)
    case (Cons z zs)
    then show ?thesis using d assms(2) dchain_prev [of h "Some y" z zs "th_prev th"] by (simp add: set_prev_def)
  qed (use d in simp)
qed

lemma dchain_skip:
  assumes "dchain h prev p (xs @ y # ys)" "distinct (xs @ y # ys)" "h y = Some th" "xs \<noteq> []"
  defines "h1 \<equiv> set_prev (th_next th) (th_prev th) h"
  shows "dchain (h1(last xs := map_option (\<lambda>x. x\<lparr>th_next := th_next th\<rparr>) (h1 (last xs)))) prev p (xs @ ys)"
  using assms(1,2,4)
proof (induction xs arbitrary: prev p)
  case (Cons x xs)
  obtain thx where x: "h x = Some thx" "th_prev thx = prev" "p = Some x" "dchain h (Some x) (th_next thx) (xs @ y # ys)" using Cons.prems by auto
  have s: "th_next th = (case ys of [] \<Rightarrow> None | z # _ \<Rightarrow> Some z)" "th_prev th = Some (last (x # xs))"
    using dchain_split [OF Cons.prems(1)] assms(3) by auto
  have "th_next th \<noteq> Some x" using s(1) Cons.prems(2) by (cases ys) auto
  then have hx: "h1 x = Some thx" using x(1) by (simp add: h1_def set_prev_other)
  show ?case
  proof (cases "xs = []")
    case True
    have "dchain h1 (th_prev th) (th_next th) ys" unfolding h1_def by (rule dchain_unlink [OF Cons.prems(1,2) assms(3)])
    then have "dchain (h1(x := Some (thx\<lparr>th_next := th_next th\<rparr>))) (Some x) (th_next th) ys"
      using s(2) True Cons.prems(2) by (intro dchain_other) auto
    then show ?thesis using True x hx by (simp add: fun_upd_def)
  next
    case False
    have "x \<noteq> last xs" using False Cons.prems(2) by auto
    then show ?thesis using Cons.IH [OF x(4) _ False] Cons.prems(2) False x hx by simp
  qed
qed simp

lemma remove_threads:
  assumes "threads s (xs @ t # ys)"
  shows "\<exists>s'. pthread_internal_remove_locked t s = Some s' \<and> threads s' (xs @ ys) \<and>
    (\<forall>x \<in> set (xs @ ys). \<exists>th th'. th_heap s x = Some th \<and> th_heap s' x = Some th' \<and> th_tls th' = th_tls th \<and> th_tid th' = th_tid th) \<and>
    tm_map s' = tm_map s \<and> tm_dtors s' = tm_dtors s \<and> tm_initialized s' = tm_initialized s"
proof -
  have d: "dchain (th_heap s) None (g_thread_list s) (xs @ t # ys)" "distinct (xs @ t # ys)" using assms by (simp_all add: threads_def)
  obtain th where th: "th_heap s t = Some th" "th_prev th = (if xs = [] then None else Some (last xs))" "th_next th = (case ys of [] \<Rightarrow> None | z # _ \<Rightarrow> Some z)"
    using dchain_split [OF d(1)] by auto
  let ?h1 = "set_prev (th_next th) (th_prev th) (th_heap s)"
  let ?h2 = "if xs = [] then ?h1 else ?h1(last xs := map_option (\<lambda>x. x\<lparr>th_next := th_next th\<rparr>) (?h1 (last xs)))"
  let ?h3 = "if a_main (th_attr th) then ?h2 else ?h2(t := None)"
  let ?g = "if xs = [] then th_next th else g_thread_list s"
  have g: "xs \<noteq> [] \<Longrightarrow> g_thread_list s = Some (hd xs)" using d(1) by (cases xs) auto
  have "dchain ?h2 None ?g (xs @ ys)"
  proof (cases "xs = []")
    case True
    then show ?thesis using dchain_unlink [OF d th(1)] th(2) by simp
  next
    case False
    then show ?thesis using dchain_skip [OF d th(1) False] by simp
  qed
  then have c: "dchain ?h3 None ?g (xs @ ys)" using d(2) by (auto intro: dchain_other)
  define s' where "s' = s\<lparr>g_thread_list := ?g, th_heap := ?h3\<rparr>"
  have r: "pthread_internal_remove_locked t s = Some s'"
    using th by (auto simp: pthread_internal_remove_locked_def Let_def th_upd_def set_prev_def s'_def split: option.splits list.splits)
  have k: "\<exists>th th'. th_heap s x = Some th \<and> ?h3 x = Some th' \<and> th_tls th' = th_tls th \<and> th_tid th' = th_tid th" if x: "x \<in> set (xs @ ys)" for x
  proof -
    obtain thx where thx: "th_heap s x = Some thx" using dchain_alive [OF d(1), of x] x by auto
    have "\<exists>th'. ?h1 x = Some th' \<and> th_tls th' = th_tls thx \<and> th_tid th' = th_tid thx"
      using thx by (auto simp: set_prev_def split: option.splits)
    moreover have "x \<noteq> t" using x d(2) by auto
    ultimately show ?thesis using thx by auto
  qed
  show ?thesis using r c d(2) k by (intro exI [of _ s']) (simp add: s'_def threads_def)
qed

section \<open>No stale values\<close>

text \<open>A thread that runs, with its TLS area.\<close>

definition running :: "thread_state \<Rightarrow> nat \<Rightarrow> bool" where
  "running s p \<longleftrightarrow> (\<exists>th tls. th_heap s p = Some th \<and> th_tid th \<noteq> 0 \<and> th_tls th = Some tls)"

definition tls_ok :: "nat \<Rightarrow> nat \<Rightarrow> thread_state \<Rightarrow> pthread_internal \<Rightarrow> bool" where
  "tls_ok first slots s th \<longleftrightarrow> (\<forall>tls. th_tls th = Some tls \<longrightarrow> length tls = slots \<and>
     (th_tid th \<noteq> 0 \<longrightarrow> (\<forall>k. first \<le> k \<and> k < slots \<and> \<not> IsInUse k s \<longrightarrow> tls ! k = 0)))"

definition thread_inv :: "nat \<Rightarrow> nat \<Rightarrow> nat list \<Rightarrow> thread_state \<Rightarrow> bool" where
  "thread_inv first slots xs s \<longleftrightarrow> keys_ok first slots s \<and> threads s xs \<and> (\<forall>p \<in> set xs. \<forall>th. th_heap s p = Some th \<longrightarrow> tls_ok first slots s th)"

text \<open>
  The events of a process: the calls of running threads, a destructor's slot being cleared, a new thread
  with a zero TLS area that is added to the list, the end of a thread, its removal.
\<close>

datatype thread_event = Key_create nat | Key_delete nat | Set_specific nat nat nat | Clean_slot nat nat | Thread_add nat | Thread_exit nat | Thread_remove nat

fun thread_next :: "nat \<Rightarrow> nat \<Rightarrow> (nat \<Rightarrow> pthread_internal) \<Rightarrow> thread_event \<Rightarrow> thread_state \<Rightarrow> thread_state option" where
  "thread_next first slots new (Key_create dtor) s = Some (snd (pthread_key_create first slots dtor s))"
| "thread_next first slots new (Key_delete key) s = map_option snd (pthread_key_delete first slots key s)"
| "thread_next first slots new (Set_specific self key ptr) s = Some (snd (pthread_setspecific first slots self key ptr s))"
| "thread_next first slots new (Clean_slot self key) s = Some (set_tls self key 0 s)"
| "thread_next first slots new (Thread_add t) s = Some (pthread_internal_add t (s\<lparr>th_heap := (th_heap s)(t \<mapsto> new t)\<rparr>))"
| "thread_next first slots new (Thread_exit t) s = Some (th_upd t (\<lambda>x. x\<lparr>th_tid := 0\<rparr>) s)"
| "thread_next first slots new (Thread_remove t) s = pthread_internal_remove_locked t s"

fun event_ok :: "nat \<Rightarrow> nat list \<Rightarrow> thread_event \<Rightarrow> bool" where
  "event_ok slots xs (Thread_add t) \<longleftrightarrow> t \<notin> set xs"
| "event_ok slots xs (Thread_remove t) \<longleftrightarrow> t \<in> set xs"
| "event_ok slots xs (Clean_slot self key) \<longleftrightarrow> key < slots"
| "event_ok slots xs _ \<longleftrightarrow> True"

fun list_after :: "thread_event \<Rightarrow> nat list \<Rightarrow> nat list" where
  "list_after (Thread_add t) xs = t # xs"
| "list_after (Thread_remove t) xs = remove1 t xs"
| "list_after _ xs = xs"

text \<open>New threads have a TLS area with 0 in all user slots, as \<open>__init_tls\<close> leaves it.\<close>

definition fresh_threads :: "nat \<Rightarrow> nat \<Rightarrow> (nat \<Rightarrow> pthread_internal) \<Rightarrow> bool" where
  "fresh_threads first slots new \<longleftrightarrow> (\<forall>t. \<exists>tls. th_tls (new t) = Some tls \<and> length tls = slots \<and> (\<forall>k. first \<le> k \<and> k < slots \<longrightarrow> tls ! k = 0))"

inductive thread_reach :: "nat \<Rightarrow> nat \<Rightarrow> (nat \<Rightarrow> pthread_internal) \<Rightarrow> nat list \<Rightarrow> thread_state \<Rightarrow> bool" for first slots new where
  thread_start: "first \<le> slots \<Longrightarrow> fresh_threads first slots new \<Longrightarrow>
    thread_reach first slots new [] \<lparr>tm_initialized = False, tm_map = replicate (TLSMAP_WORDS slots) 0, tm_dtors = replicate slots 0,
      g_thread_list = None, th_heap = h, th_stacks = {}\<rparr>"
| thread_step: "thread_reach first slots new xs s \<Longrightarrow> event_ok slots xs ev \<Longrightarrow> thread_next first slots new ev s = Some s' \<Longrightarrow>
    thread_reach first slots new (list_after ev xs) s'"

lemma th_upd_inv:
  assumes inv: "thread_inv first slots xs s"
    and f: "\<And>th. th_next (f th) = th_next th" "\<And>th. th_prev (f th) = th_prev th" "\<And>th. tls_ok first slots s th \<Longrightarrow> tls_ok first slots s (f th)"
  shows "thread_inv first slots xs (th_upd p f s)"
proof -
  have u: "IsInUse k (th_upd p f s) = IsInUse k s" "tls_ok first slots (th_upd p f s) = tls_ok first slots s" for k
    by (simp_all add: IsInUse_def th_upd_def tls_ok_def fun_eq_iff)
  have "keys_ok first slots (th_upd p f s)" using inv by (simp add: thread_inv_def keys_ok_def u(1)) (simp add: th_upd_def map_ok_def)
  moreover have "threads (th_upd p f s) xs"
  proof -
    have d: "dchain (th_heap s) None (g_thread_list s) xs" "distinct xs" using inv by (simp_all add: thread_inv_def threads_def)
    have "dchain (th_heap (th_upd p f s)) None (g_thread_list s) xs" by (rule dchain_cong [OF d(1)]) (auto simp: th_upd_def f(1,2))
    then show ?thesis using d(2) by (simp add: threads_def th_upd_def)
  qed
  moreover have "\<forall>q \<in> set xs. \<forall>th. th_heap (th_upd p f s) q = Some th \<longrightarrow> tls_ok first slots s th"
    using inv f(3) by (auto simp: thread_inv_def th_upd_def)
  ultimately show ?thesis by (simp add: thread_inv_def u(2))
qed

lemma tls_ok_cong: "(\<And>k. first \<le> k \<Longrightarrow> IsInUse k s' = IsInUse k s) \<Longrightarrow> tls_ok first slots s' th = tls_ok first slots s th"
  by (simp add: tls_ok_def cong: conj_cong)

lemma access_inv: "thread_inv first slots xs s \<Longrightarrow> thread_inv first slots xs (tls_map_access first s)"
  using access_facts [of first slots s] tls_ok_cong [of first "tls_map_access first s" s slots]
  by (simp add: thread_inv_def threads_def)

lemma create_inv:
  assumes inv: "thread_inv first slots xs s" and i: "tm_initialized s"
  shows "thread_inv first slots xs (snd (CreateKey slots dtor s))"
proof (cases "find (\<lambda>key. \<not> IsInUse key s) [0..<slots]")
  case None
  then show ?thesis using inv by (simp add: CreateKey_def)
next
  case (Some key)
  then have key: "key < slots" by (auto simp: find_Some_iff)
  have m: "map_ok slots s" using inv by (simp add: thread_inv_def keys_ok_def)
  have "tls_ok first slots s th \<Longrightarrow> tls_ok first slots (SetInUse key dtor s) th" for th
    by (auto simp: tls_ok_def SetInUse_IsInUse [OF m key])
  then show ?thesis using inv i Some
    by (auto simp: CreateKey_def thread_inv_def keys_ok_def threads_def SetInUse_IsInUse [OF m key])
qed

text \<open>The walk that clears a key.\<close>

lemma clear_threads_spec:
  "dchain (th_heap s) prev p xs \<Longrightarrow> distinct xs \<Longrightarrow>
   \<exists>s'. clear_threads key p s = Some s' \<and> tm_map s' = tm_map s \<and> tm_dtors s' = tm_dtors s \<and> tm_initialized s' = tm_initialized s \<and>
     g_thread_list s' = g_thread_list s \<and> (\<forall>x. x \<notin> set xs \<longrightarrow> th_heap s' x = th_heap s x) \<and>
     (\<forall>x \<in> set xs. \<exists>th. th_heap s x = Some th \<and> th_heap s' x =
        Some (if th_tid th = 0 then th else th\<lparr>th_tls := map_option (\<lambda>tls. tls[key := 0]) (th_tls th)\<rparr>))"
proof (induction xs arbitrary: prev p s)
  case Nil
  then show ?case by (simp add: clear_threads.simps [of key None])
next
  case (Cons x xs)
  then obtain th where th: "th_heap s x = Some th" "dchain (th_heap s) (Some x) (th_next th) xs" "p = Some x" by auto
  let ?s = "if th_tid th = 0 \<or> th_tls th = None then s else th_upd x (\<lambda>x. x\<lparr>th_tls := map_option (\<lambda>tls. tls[key := 0]) (th_tls x)\<rparr>) s"
  have "dchain (th_heap ?s) (Some x) (th_next th) xs"
    using th(2) Cons.prems(2) by (auto simp: th_upd_def intro: dchain_other)
  then obtain s' where s': "clear_threads key (th_next th) ?s = Some s'" "tm_map s' = tm_map ?s" "tm_dtors s' = tm_dtors ?s"
     "tm_initialized s' = tm_initialized ?s" "g_thread_list s' = g_thread_list ?s" "\<forall>y. y \<notin> set xs \<longrightarrow> th_heap s' y = th_heap ?s y"
     "\<forall>y \<in> set xs. \<exists>th. th_heap ?s y = Some th \<and> th_heap s' y =
        Some (if th_tid th = 0 then th else th\<lparr>th_tls := map_option (\<lambda>tls. tls[key := 0]) (th_tls th)\<rparr>)"
    using Cons.IH [of ?s "Some x" "th_next th"] Cons.prems(2) by auto
  have c: "clear_threads key p s = Some s'" using s'(1) th by (simp add: clear_threads.simps [of key "Some x"])
  have h: "y \<noteq> x \<Longrightarrow> th_heap ?s y = th_heap s y" for y by (simp add: th_upd_def)
  have "th_heap s' x = th_heap ?s x" using s'(6) Cons.prems(2) by simp
  moreover have "th_heap ?s x = Some (if th_tid th = 0 then th else th\<lparr>th_tls := map_option (\<lambda>tls. tls[key := 0]) (th_tls th)\<rparr>)"
    using th(1) by (auto simp: th_upd_def)
  moreover have "\<forall>y \<in> set xs. \<exists>th. th_heap s y = Some th \<and> th_heap s' y =
        Some (if th_tid th = 0 then th else th\<lparr>th_tls := map_option (\<lambda>tls. tls[key := 0]) (th_tls th)\<rparr>)"
  proof
    fix y assume y: "y \<in> set xs"
    then have "y \<noteq> x" using Cons.prems(2) by auto
    note hy = h [OF this]
    show "\<exists>th. th_heap s y = Some th \<and> th_heap s' y =
        Some (if th_tid th = 0 then th else th\<lparr>th_tls := map_option (\<lambda>tls. tls[key := 0]) (th_tls th)\<rparr>)"
      using bspec [OF s'(7) y] unfolding hy .
  qed
  moreover have "\<forall>y. y \<notin> set (x # xs) \<longrightarrow> th_heap s' y = th_heap s y" using s'(6) h by simp
  ultimately show ?case using c s'(2-5) th(1) by (intro exI [of _ s']) (simp add: th_upd_def)
qed

lemma delete_inv:
  assumes inv: "thread_inv first slots xs s" and d: "pthread_key_delete first slots key s = Some (r, s')"
  shows "thread_inv first slots xs s'" "r = 0 \<Longrightarrow> p \<in> set xs \<Longrightarrow> th_heap s' p = Some th \<Longrightarrow> th_tid th \<noteq> 0 \<Longrightarrow> th_tls th = Some tls \<Longrightarrow> tls ! key = 0"
proof -
  let ?s = "tls_map_access first s"
  have inv': "thread_inv first slots xs ?s" and i: "tm_initialized ?s"
    using access_inv [OF inv] access_facts(2) [of first slots s] inv by (simp_all add: thread_inv_def)
  have "thread_inv first slots xs s' \<and>
    (r = 0 \<longrightarrow> p \<in> set xs \<longrightarrow> th_heap s' p = Some th \<longrightarrow> th_tid th \<noteq> 0 \<longrightarrow> th_tls th = Some tls \<longrightarrow> tls ! key = 0)"
  proof (cases "IsValidUserKey first slots key \<and> IsInUse key ?s")
    case False
    then have "s' = ?s \<and> r = EINVAL" using d by (auto simp: pthread_key_delete_def Let_def)
    then show ?thesis using inv' by (simp add: EINVAL_def)
  next
    case True
    then have key: "first \<le> key" "key < slots" by (simp_all add: IsValidUserKey_def)
    have c: "dchain (th_heap ?s) None (g_thread_list ?s) xs" "distinct xs" using inv' by (simp_all add: thread_inv_def threads_def)
    obtain s1 where s1: "clear_threads key (g_thread_list ?s) ?s = Some s1" "tm_map s1 = tm_map ?s" "tm_dtors s1 = tm_dtors ?s"
       "tm_initialized s1 = tm_initialized ?s" "g_thread_list s1 = g_thread_list ?s"
       "\<forall>x \<in> set xs. \<exists>th. th_heap ?s x = Some th \<and> th_heap s1 x =
          Some (if th_tid th = 0 then th else th\<lparr>th_tls := map_option (\<lambda>tls. tls[key := 0]) (th_tls th)\<rparr>)"
      using clear_threads_spec [OF c, of key] by blast
    have s': "s' = DeleteKey key s1" "r = 0" using d True s1(1) by (auto simp: pthread_key_delete_def Let_def)
    have m: "map_ok slots s1" using inv' s1(2,3) by (simp add: thread_inv_def keys_ok_def map_ok_def)
    have use1: "IsInUse k s1 = IsInUse k ?s" for k using s1(2) by (simp add: IsInUse_def)
    have use: "IsInUse k s' \<longleftrightarrow> k \<noteq> key \<and> IsInUse k ?s" for k unfolding s'(1) using DeleteKey_IsInUse [OF m key(2)] use1 by simp
    have keys: "keys_ok first slots s'"
    proof -
      have "map_ok slots s'" "tm_initialized s'" "first \<le> slots" "\<forall>k < first. IsInUse k ?s"
        using m s'(1) s1(4) i inv' by (simp_all add: thread_inv_def keys_ok_def)
      then show ?thesis using use key(1) unfolding keys_ok_def by auto
    qed
    have "dchain (th_heap s1) None (g_thread_list ?s) xs"
    proof (rule dchain_cong [OF c(1)])
      fix x th assume "x \<in> set xs" "th_heap ?s x = Some th"
      then show "\<exists>th'. th_heap s1 x = Some th' \<and> th_next th' = th_next th \<and> th_prev th' = th_prev th" using bspec [OF s1(6)] by fastforce
    qed
    then have ch: "threads s' xs" using c(2) s'(1) s1(5) by (simp add: threads_def)
    have ok: "tls_ok first slots s' th' \<and> (th_tid th' \<noteq> 0 \<longrightarrow> (\<forall>tls. th_tls th' = Some tls \<longrightarrow> tls ! key = 0))" if x: "x \<in> set xs" "th_heap s' x = Some th'" for x th'
    proof -
      obtain th0 where th0: "th_heap ?s x = Some th0" "th_heap s1 x = Some (if th_tid th0 = 0 then th0 else th0\<lparr>th_tls := map_option (\<lambda>tls. tls[key := 0]) (th_tls th0)\<rparr>)"
        using bspec [OF s1(6) x(1)] by blast
      have "th' = (if th_tid th0 = 0 then th0 else th0\<lparr>th_tls := map_option (\<lambda>tls. tls[key := 0]) (th_tls th0)\<rparr>)" using x(2) th0(2) s'(1) by simp
      moreover have t: "tls_ok first slots ?s th0" using inv' x(1) th0(1) by (simp add: thread_inv_def)
      have z: "tls[key := 0] ! k = 0" if "th_tls th0 = Some tls" "th_tid th0 \<noteq> 0" "first \<le> k" "k < slots" "\<not> IsInUse k s'" for tls k
        using t that use [of k] by (cases "k = key") (auto simp: tls_ok_def)
      ultimately show ?thesis using t key(2) z by (auto simp: tls_ok_def)
    qed
    show ?thesis using keys ch ok by (auto simp: thread_inv_def)
  qed
  then show "thread_inv first slots xs s'" "r = 0 \<Longrightarrow> p \<in> set xs \<Longrightarrow> th_heap s' p = Some th \<Longrightarrow> th_tid th \<noteq> 0 \<Longrightarrow> th_tls th = Some tls \<Longrightarrow> tls ! key = 0"
    by simp_all
qed

lemma set_tls_inv:
  assumes inv: "thread_inv first slots xs s" and k: "IsInUse key s \<or> data = 0" "key < slots"
  shows "thread_inv first slots xs (set_tls self key data s)"
  unfolding set_tls_def
proof (rule th_upd_inv [OF inv])
  show "tls_ok first slots s (th\<lparr>th_tls := map_option (\<lambda>tls. tls[key := data]) (th_tls th)\<rparr>)" if t: "tls_ok first slots s th" for th
    using t k by (auto simp: tls_ok_def nth_list_update)
qed simp_all

lemma remove_inv:
  assumes inv: "thread_inv first slots xs s" and t: "t \<in> set xs" and s': "pthread_internal_remove_locked t s = Some s'"
  shows "thread_inv first slots (remove1 t xs) s'"
proof -
  obtain ys zs where xs: "xs = ys @ t # zs" "t \<notin> set ys" using split_list_first [OF t] by blast
  have "threads s (ys @ t # zs)" using inv xs by (simp add: thread_inv_def)
  then obtain s1 where s1: "pthread_internal_remove_locked t s = Some s1" "threads s1 (ys @ zs)"
     "\<forall>x \<in> set (ys @ zs). \<exists>th th'. th_heap s x = Some th \<and> th_heap s1 x = Some th' \<and> th_tls th' = th_tls th \<and> th_tid th' = th_tid th"
     "tm_map s1 = tm_map s" "tm_dtors s1 = tm_dtors s" "tm_initialized s1 = tm_initialized s"
    using remove_threads by blast
  then have e: "s' = s1" using s' by simp
  have u: "IsInUse k s1 = IsInUse k s" for k using s1(4) by (simp add: IsInUse_def)
  have "keys_ok first slots s1" using inv s1(4-6) by (simp add: thread_inv_def keys_ok_def u map_ok_def)
  moreover have "tls_ok first slots s1 th'" if x: "x \<in> set (ys @ zs)" "th_heap s1 x = Some th'" for x th'
  proof -
    obtain th where "th_heap s x = Some th" "th_tls th' = th_tls th" "th_tid th' = th_tid th" using bspec [OF s1(3) x(1)] x(2) by auto
    moreover have "x \<in> set xs" using x(1) xs(1) by auto
    ultimately show ?thesis using inv by (auto simp: thread_inv_def tls_ok_def u)
  qed
  ultimately show ?thesis using s1(2) xs e by (simp add: thread_inv_def remove1_append)
qed

lemma add_inv:
  assumes inv: "thread_inv first slots xs s" and t: "t \<notin> set xs" and f: "fresh_threads first slots new"
  shows "thread_inv first slots (t # xs) (pthread_internal_add t (s\<lparr>th_heap := (th_heap s)(t \<mapsto> new t)\<rparr>))"
proof -
  let ?s = "s\<lparr>th_heap := (th_heap s)(t \<mapsto> new t)\<rparr>" and ?s' = "pthread_internal_add t (s\<lparr>th_heap := (th_heap s)(t \<mapsto> new t)\<rparr>)"
  have c: "threads ?s xs" using inv t by (auto simp: thread_inv_def threads_def intro: dchain_other)
  have "threads ?s' (t # xs)" by (rule add_threads [OF c, of t "new t"]) (use t in simp_all)
  moreover have u: "IsInUse k ?s' = IsInUse k s" "keys_ok first slots ?s' = keys_ok first slots s" for k
    by (auto simp: IsInUse_def keys_ok_def map_ok_def pthread_internal_add_def th_upd_def Let_def split: option.splits)
  moreover have "tls_ok first slots ?s' th" if th: "p \<in> set (t # xs)" "th_heap ?s' p = Some th" for p th
  proof -
    have "\<exists>th0. th_heap ?s p = Some th0 \<and> th_tls th = th_tls th0 \<and> th_tid th = th_tid th0"
      using th(2) by (auto simp: pthread_internal_add_def th_upd_def Let_def split: option.splits if_splits)
    then obtain th0 where th0: "th_heap ?s p = Some th0" "th_tls th = th_tls th0" "th_tid th = th_tid th0" by blast
    have "tls_ok first slots s th0"
    proof (cases "p = t")
      case True
      then show ?thesis using th0(1) f by (auto simp: fresh_threads_def tls_ok_def) (metis option.inject)+
    next
      case False
      then show ?thesis using th0(1) th(1) inv by (auto simp: thread_inv_def)
    qed
    then show ?thesis using th0(2,3) by (simp add: tls_ok_def u)
  qed
  ultimately show ?thesis using inv by (simp add: thread_inv_def)
qed

lemma thread_reach_inv:
  assumes "thread_reach first slots new xs s"
  shows "thread_inv first slots xs s \<and> fresh_threads first slots new"
  using assms
proof (induction rule: thread_reach.induct)
  case (thread_start h)
  have "\<not> IsInUse k \<lparr>tm_initialized = False, tm_map = replicate (TLSMAP_WORDS slots) 0, tm_dtors = replicate slots 0,
      g_thread_list = None, th_heap = h, th_stacks = {}\<rparr>" if "k < slots" for k
  proof -
    have "k div 32 < TLSMAP_WORDS slots" using that by (simp add: TLSMAP_WORDS_def TLSMAP_BITS_def)
    then show ?thesis by (simp add: IsInUse_bit)
  qed
  then show ?case using thread_start by (simp add: thread_inv_def keys_ok_def map_ok_def threads_def)
next
  case (thread_step xs s ev s')
  then have inv: "thread_inv first slots xs s" and f: "fresh_threads first slots new" by simp_all
  have acc: "thread_inv first slots xs (tls_map_access first s)" "tm_initialized (tls_map_access first s)"
    using access_inv [OF inv] access_facts(2) [of first slots s] inv by (simp_all add: thread_inv_def)
  have "thread_inv first slots (list_after ev xs) s'"
  proof (cases ev)
    case (Key_create dtor)
    then show ?thesis using thread_step.hyps create_inv [OF acc] by (auto simp: pthread_key_create_def)
  next
    case (Key_delete key)
    then show ?thesis using thread_step.hyps delete_inv(1) [OF inv] by auto
  next
    case (Set_specific self key ptr)
    then show ?thesis using thread_step.hyps acc(1) set_tls_inv [OF acc(1)]
      by (auto simp: pthread_setspecific_def Let_def IsValidUserKey_def)
  next
    case (Clean_slot self key)
    then show ?thesis using thread_step.hyps set_tls_inv [OF inv, of key 0] by auto
  next
    case (Thread_add t)
    then show ?thesis using thread_step.hyps add_inv [OF inv _ f] by auto
  next
    case (Thread_exit t)
    then show ?thesis using thread_step.hyps th_upd_inv [OF inv, of "\<lambda>x. x\<lparr>th_tid := 0\<rparr>" t] by (auto simp: tls_ok_def)
  next
    case (Thread_remove t)
    then show ?thesis using thread_step.hyps remove_inv [OF inv] by auto
  qed
  then show ?case using f by simp
qed

lemma running_value:
  assumes "thread_inv first slots xs s" "p \<in> set xs" "running s p" "first \<le> key" "key < slots" "\<not> IsInUse key s"
  shows "get_tls p s ! key = 0"
  using assms by (auto simp: running_def thread_inv_def tls_ok_def get_tls_def)

lemma CreateKey_result:
  assumes "CreateKey slots dtor s = (r, s')"
  shows "r = Inr key \<Longrightarrow> key < slots \<and> \<not> IsInUse key s \<and> (\<forall>k < key. IsInUse k s) \<and> s' = SetInUse key dtor s"
    "r = Inl e \<Longrightarrow> e = EAGAIN \<and> s' = s \<and> (\<forall>k < slots. IsInUse k s)"
proof -
  show "key < slots \<and> \<not> IsInUse key s \<and> (\<forall>k < key. IsInUse k s) \<and> s' = SetInUse key dtor s" if r: "r = Inr key"
  proof -
    have ex: "\<exists>k < slots. \<not> IsInUse k s" and e: "key = (LEAST k. \<not> IsInUse k s)" "s' = SetInUse key dtor s"
      using assms r by (auto simp: CreateKey_def find_upt split: if_splits)
    obtain k where k: "k < slots" "\<not> IsInUse k s" using ex by blast
    have "\<not> IsInUse key s" unfolding e(1) by (rule LeastI [of "\<lambda>k. \<not> IsInUse k s", OF k(2)])
    moreover have "key \<le> k" unfolding e(1) by (rule Least_le) (rule k(2))
    moreover have "IsInUse j s" if "j < key" for j using not_less_Least [of j "\<lambda>k. \<not> IsInUse k s"] that e(1) by blast
    ultimately show ?thesis using k(1) e(2) by auto
  qed
  show "e = EAGAIN \<and> s' = s \<and> (\<forall>k < slots. IsInUse k s)" if "r = Inl e"
    using assms that by (auto simp: CreateKey_def find_upt split: if_splits)
qed

text \<open>
  C25: a new key has no value in any thread. In every state that creations and deletions of keys, stores,
  destructors, and threads that come and go can reach, \<open>pthread_key_create\<close> answers the least
  user key that is not in use, with its destructor, or \<open>EAGAIN\<close> when all are in use. All other keys
  stay as they are, and every running thread reads a null pointer for the new key, whatever was stored
  under it before it was deleted.
\<close>

theorem key_create_fresh:
  assumes "thread_reach first slots new xs s" and "pthread_key_create first slots dtor s = (r, s')"
  shows "(\<forall>key. r = Inr key \<longrightarrow> first \<le> key \<and> key < slots \<and> \<not> IsInUse key s \<and> (\<forall>k. first \<le> k \<and> k < key \<longrightarrow> IsInUse k s) \<and>
      (\<forall>k. first \<le> k \<longrightarrow> IsInUse k s' = (k = key \<or> IsInUse k s)) \<and> tm_dtors s' ! key = dtor \<and>
      (\<forall>p \<in> set xs. running s p \<longrightarrow> pthread_getspecific first slots p key s' = 0)) \<and>
    (\<forall>e. r = Inl e \<longrightarrow> e = EAGAIN \<and> (\<forall>k. first \<le> k \<and> k < slots \<longrightarrow> IsInUse k s))"
proof -
  have inv: "thread_inv first slots xs s" using thread_reach_inv [OF assms(1)] by simp
  let ?s = "tls_map_access first s"
  have ko: "keys_ok first slots s" using inv by (simp add: thread_inv_def)
  note acc = access_facts [OF ko]
  have inv': "thread_inv first slots xs ?s" by (rule access_inv [OF inv])
  have c: "CreateKey slots dtor ?s = (r, s')" using assms(2) by (simp add: pthread_key_create_def)
  have m: "map_ok slots ?s" using acc(1) by (simp add: keys_ok_def)
  have ok: "first \<le> key \<and> key < slots \<and> \<not> IsInUse key s \<and> (\<forall>k. first \<le> k \<and> k < key \<longrightarrow> IsInUse k s) \<and>
      (\<forall>k. first \<le> k \<longrightarrow> IsInUse k s' = (k = key \<or> IsInUse k s)) \<and> tm_dtors s' ! key = dtor \<and>
      (\<forall>p \<in> set xs. running s p \<longrightarrow> pthread_getspecific first slots p key s' = 0)" if r: "r = Inr key" for key
  proof -
    note k = CreateKey_result(1) [OF c r]
    have f: "first \<le> key" using k acc(1,2) by (auto simp: keys_ok_def not_less [symmetric])
    have v: "get_tls p ?s ! key = 0" if p: "p \<in> set xs" "running s p" for p
    proof -
      have "running ?s p" using p(2) acc(4) by (simp add: running_def)
      then show ?thesis using running_value [OF inv' p(1) _ f] k by blast
    qed
    have s': "s' = SetInUse key dtor ?s" using k by blast
    have "length (tm_dtors ?s) = slots" using m by (simp add: map_ok_def)
    then show ?thesis using k f v acc(5) SetInUse_IsInUse [OF m, of key] s'
      by (auto simp: pthread_getspecific_def get_tls_def)
  qed
  have err: "e = EAGAIN \<and> (\<forall>k. first \<le> k \<and> k < slots \<longrightarrow> IsInUse k s)" if "r = Inl e" for e
    using CreateKey_result(2) [OF c that] acc(5) by auto
  show ?thesis using ok err by blast
qed

text \<open>
  \<open>pthread_key_delete\<close> comes to an end, frees exactly the key, and answers \<open>EINVAL\<close> for a key that is
  reserved, too large or not in use. Afterwards every running thread reads a null pointer for it.
\<close>

theorem key_delete_clears:
  assumes "thread_reach first slots new xs s"
  shows "\<exists>r s'. pthread_key_delete first slots key s = Some (r, s') \<and>
    (if first \<le> key \<and> key < slots \<and> IsInUse key s
     then r = 0 \<and> (\<forall>k. first \<le> k \<longrightarrow> IsInUse k s' = (k \<noteq> key \<and> IsInUse k s)) \<and> (\<forall>p \<in> set xs. running s' p \<longrightarrow> pthread_getspecific first slots p key s' = 0)
     else r = EINVAL \<and> (\<forall>k. first \<le> k \<longrightarrow> IsInUse k s' = IsInUse k s))"
proof -
  have inv: "thread_inv first slots xs s" using thread_reach_inv [OF assms] by simp
  let ?s = "tls_map_access first s"
  have ko: "keys_ok first slots s" using inv by (simp add: thread_inv_def)
  note acc = access_facts [OF ko]
  have inv': "thread_inv first slots xs ?s" by (rule access_inv [OF inv])
  have c: "dchain (th_heap ?s) None (g_thread_list ?s) xs" "distinct xs" using inv' by (simp_all add: thread_inv_def threads_def)
  obtain s1 where s1: "clear_threads key (g_thread_list ?s) ?s = Some s1" "tm_map s1 = tm_map ?s" "tm_dtors s1 = tm_dtors ?s"
    using clear_threads_spec [OF c, of key] by blast
  show ?thesis
  proof (cases "first \<le> key \<and> key < slots \<and> IsInUse key s")
    case True
    then have d: "pthread_key_delete first slots key s = Some (0, DeleteKey key s1)"
      using s1(1) acc(5) [of key] by (simp add: pthread_key_delete_def Let_def IsValidUserKey_def)
    have m: "map_ok slots s1" using inv' s1(2,3) by (simp add: thread_inv_def keys_ok_def map_ok_def)
    have u: "IsInUse k s1 = IsInUse k ?s" for k using s1(2) by (simp add: IsInUse_def)
    have "tls ! key = 0" if "p \<in> set xs" "th_heap (DeleteKey key s1) p = Some th" "th_tid th \<noteq> 0" "th_tls th = Some tls" for p th tls
      using delete_inv(2) [OF inv d] that by blast
    then have "\<forall>p \<in> set xs. running (DeleteKey key s1) p \<longrightarrow> pthread_getspecific first slots p key (DeleteKey key s1) = 0"
      by (auto simp: running_def pthread_getspecific_def get_tls_def simp del: DeleteKey_rest)
    then show ?thesis using d True DeleteKey_IsInUse [OF m, of key] u acc(5) by auto
  next
    case False
    then have "pthread_key_delete first slots key s = Some (EINVAL, ?s)"
      using acc(5) [of key] by (auto simp: pthread_key_delete_def Let_def IsValidUserKey_def)
    then show ?thesis using False acc(5) by auto
  qed
qed

section \<open>The destructors\<close>

lemma length_clean_fold: "length (fst (fold (clean_key run self) ks (calls, s))) \<le> length calls + length ks"
proof (induction ks arbitrary: calls s)
  case (Cons k ks)
  obtain calls' s' where c: "clean_key run self k (calls, s) = (calls', s')" by force
  then have "length calls' \<le> length calls + 1" by (auto simp: clean_key_def Let_def split: if_splits)
  then show ?case using Cons.IH [of calls' s'] c by simp
qed simp

lemma length_clean_rounds: "length (fst (clean_rounds run slots self rounds s)) \<le> rounds * slots"
proof (induction rounds arbitrary: s)
  case (Suc rounds)
  obtain calls s' where f: "fold (clean_key run self) [0..<slots] ([], s) = (calls, s')" by force
  obtain more_calls s'' where r: "clean_rounds run slots self rounds s' = (more_calls, s'')" by force
  have "length calls \<le> slots" using length_clean_fold [of run self "[0..<slots]" "[]" s] f by simp
  moreover have "length more_calls \<le> rounds * slots" using Suc.IH [of s'] r by simp
  ultimately show ?case using f r by simp
qed simp

text \<open>A destructor that changes neither the keys nor the values of the thread.\<close>

definition quiet :: "nat \<Rightarrow> (nat \<Rightarrow> nat \<Rightarrow> thread_state \<Rightarrow> thread_state) \<Rightarrow> bool" where
  "quiet self run \<longleftrightarrow> (\<forall>d x s. tm_map (run d x s) = tm_map s \<and> tm_dtors (run d x s) = tm_dtors s \<and> get_tls self (run d x s) = get_tls self s \<and>
     (running s self \<longrightarrow> running (run d x s) self))"

definition due :: "nat list \<Rightarrow> thread_state \<Rightarrow> nat \<Rightarrow> bool" where
  "due tls s key \<longleftrightarrow> IsInUse key s \<and> tls ! key \<noteq> 0 \<and> tm_dtors s ! key \<noteq> 0"

lemma get_set_tls: "running s self \<Longrightarrow> get_tls self (set_tls self key data s) = (get_tls self s)[key := data]"
  by (auto simp: running_def get_tls_def set_tls_def th_upd_def)

lemma set_tls_rest: "running s self \<Longrightarrow> running (set_tls self key data s) self" "tm_map (set_tls self key data s) = tm_map s" "tm_dtors (set_tls self key data s) = tm_dtors s"
  by (auto simp: running_def set_tls_def th_upd_def)

lemma clean_fold_quiet:
  assumes q: "quiet self run" and r: "running s self" and l: "length (get_tls self s) = slots"
  shows "n \<le> slots \<Longrightarrow> \<exists>s'. fold (clean_key run self) [0..<n] ([], s) =
      (map (\<lambda>k. (tm_dtors s ! k, get_tls self s ! k)) (filter (due (get_tls self s) s) [0..<n]), s') \<and>
    running s' self \<and> tm_map s' = tm_map s \<and> tm_dtors s' = tm_dtors s \<and>
    get_tls self s' = map (\<lambda>k. if k < n \<and> due (get_tls self s) s k then 0 else get_tls self s ! k) [0..<slots]"
proof (induction n)
  case 0
  have "map (\<lambda>k. get_tls self s ! k) [0..<slots] = get_tls self s" using l by (metis map_nth)
  then show ?case using r by simp
next
  case (Suc n)
  obtain s1 where s1: "fold (clean_key run self) [0..<n] ([], s) =
      (map (\<lambda>k. (tm_dtors s ! k, get_tls self s ! k)) (filter (due (get_tls self s) s) [0..<n]), s1)"
    "running s1 self" "tm_map s1 = tm_map s" "tm_dtors s1 = tm_dtors s"
    "get_tls self s1 = map (\<lambda>k. if k < n \<and> due (get_tls self s) s k then 0 else get_tls self s ! k) [0..<slots]"
    using Suc by auto
  have n: "get_tls self s1 ! n = get_tls self s ! n" using s1(5) Suc.prems by simp
  have u: "IsInUse n s1 = IsInUse n s" using s1(3) by (simp add: IsInUse_def)
  show ?case
  proof (cases "due (get_tls self s) s n")
    case True
    let ?s = "run (tm_dtors s ! n) (get_tls self s ! n) (set_tls self n 0 s1)"
    have "clean_key run self n (c, s1) = (c @ [(tm_dtors s ! n, get_tls self s ! n)], ?s)" for c
      using True u n s1(4) by (simp add: clean_key_def due_def Let_def)
    moreover have "running ?s self" "tm_map ?s = tm_map s" "tm_dtors ?s = tm_dtors s" "get_tls self ?s = (get_tls self s1)[n := 0]"
      using q s1(2-4) set_tls_rest(1) [OF s1(2), of n 0] get_set_tls [OF s1(2), of n 0] by (simp_all add: quiet_def set_tls_rest(2,3))
    moreover have "(get_tls self s1)[n := 0] = map (\<lambda>k. if k < Suc n \<and> due (get_tls self s) s k then 0 else get_tls self s ! k) [0..<slots]"
      unfolding s1(5) using True Suc.prems by (intro nth_equalityI) (auto simp: nth_list_update less_Suc_eq)
    ultimately show ?thesis using s1(1) True by simp
  next
    case False
    then have "clean_key run self n (c, s1) = (c, s1)" for c using u n s1(4) by (auto simp: clean_key_def due_def Let_def)
    moreover have "(k < Suc n \<and> due (get_tls self s) s k) = (k < n \<and> due (get_tls self s) s k)" for k using False by (auto simp: less_Suc_eq)
    ultimately show ?thesis using s1 False by simp
  qed
qed

lemma clean_rounds_idle:
  assumes q: "quiet self run" and r: "running s self" and l: "length (get_tls self s) = slots" and n: "\<forall>k < slots. \<not> due (get_tls self s) s k"
  shows "\<exists>s'. clean_rounds run slots self rounds s = ([], s') \<and> get_tls self s' = get_tls self s"
proof (cases rounds)
  case (Suc m)
  have "filter (due (get_tls self s) s) [0..<slots] = []" using n by (simp add: filter_empty_conv)
  moreover have "map (\<lambda>k. if k < slots \<and> due (get_tls self s) s k then 0 else get_tls self s ! k) [0..<slots] = get_tls self s"
    using n l by (intro nth_equalityI) auto
  ultimately obtain s' where "fold (clean_key run self) [0..<slots] ([], s) = ([], s')" "get_tls self s' = get_tls self s"
    using clean_fold_quiet [OF q r l order_refl] by auto
  then show ?thesis using Suc by simp
qed simp

text \<open>
  C37: the end of a thread. \<open>pthread_key_clean_all\<close> calls at most \<open>iterations\<close> times \<open>slots\<close> destructors,
  whatever these do. When the destructors change neither the keys nor the values of the thread, it
  calls, in the order of the keys, the destructor of each key in use once with the value of the
  thread, where neither is null, and then exactly these values are cleared.
\<close>

theorem clean_all_calls:
  fixes run :: "nat \<Rightarrow> nat \<Rightarrow> thread_state \<Rightarrow> thread_state" and first :: nat
  assumes "tm_initialized s" "running s self" "length (get_tls self s) = slots" "0 < iterations"
  defines "result \<equiv> pthread_key_clean_all run first slots iterations self s"
  shows "length (fst result) \<le> iterations * slots \<and>
    (quiet self run \<longrightarrow>
      fst result = map (\<lambda>k. (tm_dtors s ! k, get_tls self s ! k)) (filter (due (get_tls self s) s) [0..<slots]) \<and>
      get_tls self (snd result) = map (\<lambda>k. if due (get_tls self s) s k then 0 else get_tls self s ! k) [0..<slots])"
proof (intro conjI impI)
  have e: "result = clean_rounds run slots self iterations s"
    using assms(1) by (simp add: result_def pthread_key_clean_all_def tls_map_access_def)
  show "length (fst result) \<le> iterations * slots" unfolding e by (rule length_clean_rounds)
  assume q: "quiet self run"
  obtain m where m: "iterations = Suc m" using assms(4) by (cases iterations) auto
  obtain s1 where s1: "fold (clean_key run self) [0..<slots] ([], s) =
      (map (\<lambda>k. (tm_dtors s ! k, get_tls self s ! k)) (filter (due (get_tls self s) s) [0..<slots]), s1)"
    "running s1 self" "tm_map s1 = tm_map s" "tm_dtors s1 = tm_dtors s"
    "get_tls self s1 = map (\<lambda>k. if k < slots \<and> due (get_tls self s) s k then 0 else get_tls self s ! k) [0..<slots]"
    using clean_fold_quiet [OF q assms(2,3) order_refl] by blast
  have t: "get_tls self s1 = map (\<lambda>k. if due (get_tls self s) s k then 0 else get_tls self s ! k) [0..<slots]"
    unfolding s1(5) by (rule map_cong) auto
  have "\<forall>k < slots. \<not> due (get_tls self s1) s1 k"
    using s1(3,4) unfolding t by (auto simp: due_def IsInUse_def)
  then obtain s2 where s2: "clean_rounds run slots self m s1 = ([], s2)" "get_tls self s2 = get_tls self s1"
    using clean_rounds_idle [OF q s1(2), of slots m] t by auto
  then show "fst result = map (\<lambda>k. (tm_dtors s ! k, get_tls self s ! k)) (filter (due (get_tls self s) s) [0..<slots])"
    "get_tls self (snd result) = map (\<lambda>k. if due (get_tls self s) s k then 0 else get_tls self s ! k) [0..<slots]"
    unfolding e m using s1(1) t by auto
qed

section \<open>Time and creation\<close>

text \<open>The time left until a deadline, for times with less than a second of nanoseconds.\<close>

theorem timespec_left:
  assumes "0 \<le> snd now" "snd now < 1000000000" "0 \<le> snd abstime" "snd abstime < 1000000000"
  defines "left \<equiv> (fst abstime - fst now) * 1000000000 + (snd abstime - snd now)"
  shows "timespec_from_absolute now abstime = (if left < 0 then Inl (-1) else Inr (left div 1000000000, left mod 1000000000))"
proof -
  have dm: "(a * 1000000000 + b) div 1000000000 = a \<and> (a * 1000000000 + b) mod 1000000000 = b \<and> (a * 1000000000 + b < 0 \<longleftrightarrow> a < 0)"
    if "0 \<le> b" "b < 1000000000" for a b :: int using that by auto
  define c d where "c = fst abstime - fst now" and "d = snd abstime - snd now"
  have d: "- 1000000000 < d" "d < 1000000000" using assms(1-4) by (simp_all add: d_def)
  have l: "left = c * 1000000000 + d" by (simp add: left_def c_def d_def)
  have t: "timespec_from_absolute now abstime = (if d < 0 then if c - 1 < 0 then Inl (-1) else Inr (c - 1, d + 1000000000)
      else if c < 0 then Inl (-1) else Inr (c, d))"
    using d by (auto simp: timespec_from_absolute_def Let_def c_def [symmetric] d_def [symmetric])
  show ?thesis
  proof (cases "d < 0")
    case True
    have "left = (c - 1) * 1000000000 + (d + 1000000000)" by (simp add: l)
    then show ?thesis using dm [of "d + 1000000000" "c - 1"] True d t by simp
  next
    case False
    then show ?thesis using dm [of d c] d t l by simp
  qed
qed

text \<open>
  \<open>pthread_create\<close> makes a thread or gives everything back. On success the new thread is the first
  of the list, released to run the routine, with a null pointer under every user key, and a stack of
  its own unless the caller gave one. On an error nothing has changed; only when \<open>sched_setscheduler\<close>
  fails on a 64-bit device is there a thread, detached, that runs nothing.
\<close>

theorem pthread_create_result:
  assumes "\<And>stack. e_mmap env = Some stack \<Longrightarrow> stack \<notin> th_stacks s" and "n1 < first" "n2 < first" "n3 < first"
    and "a_user_stack default_attr \<longrightarrow> a_stack_base default_attr \<noteq> 0" "\<And>a. attr = Some a \<Longrightarrow> a_user_stack a \<longrightarrow> a_stack_base a \<noteq> 0"
    and "pthread_create env align slots guard (n1, n2, n3) default_attr attr routine s = (r, s')"
  shows "case r of
      Inr t \<Rightarrow> e_calloc env = Some t \<and> g_thread_list s' = Some t \<and>
        (\<exists>th tls. th_heap s' t = Some th \<and> th_started th \<and> th_routine th = routine \<and> th_tls th = Some tls \<and> length tls = slots \<and>
          (\<forall>k. first \<le> k \<and> k < slots \<longrightarrow> tls ! k = 0) \<and> (a_user_stack (th_attr th) \<or> th_stacks s' = insert (a_stack_base (th_attr th)) (th_stacks s)))
    | Inl e \<Rightarrow> s' = s \<or> (e_lp64 env \<and> e = e_sched env \<and>
        (\<exists>t th. e_calloc env = Some t \<and> th_heap s' t = Some th \<and> th_started th \<and> th_routine th = 0 \<and> a_detached (th_attr th)))"
proof (cases "e_calloc env")
  case None
  then show ?thesis using assms(7) by (auto simp: pthread_create_def)
next
  case (Some t)
  show ?thesis
    using assms Some
    by (auto simp: pthread_create_def Let_def create_thread_stack_def init_thread_def init_tls_def pthread_internal_add_def th_upd_def
      nth_list_update split: option.splits if_splits sum.splits prod.splits)
qed

section \<open>A run\<close>

definition plain_attr :: pthread_attr where
  "plain_attr = \<lparr>a_main = False, a_user_stack = False, a_detached = False, a_sched_normal = True, a_stack_base = 0, a_stack_size = 0, a_guard_size = 0\<rparr>"

definition new_thread :: "nat \<Rightarrow> pthread_internal" where
  "new_thread t = \<lparr>th_next = None, th_prev = None, th_tid = 7, th_tls = Some [9, 9, 0, 0], th_attr = plain_attr, th_routine = 1, th_started = True\<rparr>"

definition no_threads :: thread_state where
  "no_threads = \<lparr>tm_initialized = False, tm_map = replicate (TLSMAP_WORDS 4) 0, tm_dtors = replicate 4 0, g_thread_list = None, th_heap = (\<lambda>_. None), th_stacks = {}\<rparr>"

text \<open>One thread, with two reserved slots and two keys, one of which it has created and uses.\<close>

definition one_thread :: thread_state where
  "one_thread = \<lparr>tm_initialized = True, tm_map = [7], tm_dtors = [0, 0, 5, 0], g_thread_list = Some 1,
     th_heap = [1 \<mapsto> (new_thread 1)\<lparr>th_tls := Some [9, 9, 8, 0]\<rparr>], th_stacks = {}\<rparr>"

lemma new_threads_fresh: "fresh_threads 2 4 new_thread"
proof -
  have "\<forall>k. 2 \<le> k \<and> k < 4 \<longrightarrow> [9, 9, 0, 0] ! k = (0 :: nat)"
  proof (intro allI impI)
    fix k :: nat assume "2 \<le> k \<and> k < 4"
    then have "k = 2 \<or> k = 3" by auto
    then show "[9, 9, 0, 0] ! k = (0 :: nat)" by auto
  qed
  then show ?thesis by (simp add: fresh_threads_def new_thread_def)
qed

lemma upto: "[0..<2] = [0, 1 :: nat]" "[0..<4] = [0, 1, 2, 3 :: nat]"
  by (simp_all add: upt_rec)

lemma one_thread_steps:
  fixes h :: "nat \<Rightarrow> pthread_internal option" and g :: "nat option"
  defines "S \<equiv> \<lambda>i m d. \<lparr>tm_initialized = i, tm_map = m, tm_dtors = d, g_thread_list = g, th_heap = h, th_stacks = {}\<rparr>"
  shows "tls_map_access 2 (S False [0] [0, 0, 0, 0]) = S True [3] [0, 0, 0, 0]"
    "pthread_key_create 2 4 5 (S False [0] [0, 0, 0, 0]) = (Inr 2, S True [7] [0, 0, 5, 0])"
    "pthread_setspecific 2 4 1 2 8 (S True [7] [0, 0, 5, 0]) = (0, set_tls 1 2 8 (S True [7] [0, 0, 5, 0]))"
proof -
  have u2: "[0, 0, 0, 0 :: nat][2 := x] = [0, 0, x, 0]" for x by (simp add: numeral_2_eq_2)
  show t: "tls_map_access 2 (S False [0] [0, 0, 0, 0]) = S True [3] [0, 0, 0, 0]"
    by (simp add: tls_map_access_def upto SetInUse_def TLSMAP_MASK_def TLSMAP_BITS_def S_def)
  show "pthread_key_create 2 4 5 (S False [0] [0, 0, 0, 0]) = (Inr 2, S True [7] [0, 0, 5, 0])"
    unfolding pthread_key_create_def t
    by (simp add: CreateKey_def upto IsInUse_def SetInUse_def TLSMAP_MASK_def TLSMAP_BITS_def S_def u2)
  show "pthread_setspecific 2 4 1 2 8 (S True [7] [0, 0, 5, 0]) = (0, set_tls 1 2 8 (S True [7] [0, 0, 5, 0]))"
    by (simp add: pthread_setspecific_def tls_map_access_def IsValidUserKey_def IsInUse_def TLSMAP_MASK_def TLSMAP_BITS_def S_def)
qed

lemma one_thread_reach: "thread_reach 2 4 new_thread [1] one_thread"
proof -
  have s: "thread_reach 2 4 new_thread [] no_threads" unfolding no_threads_def by (rule thread_start) (simp_all add: new_threads_fresh)
  define S where "S = (\<lambda>i m d. \<lparr>tm_initialized = i, tm_map = m, tm_dtors = d, g_thread_list = Some 1, th_heap = [1 \<mapsto> new_thread 1], th_stacks = {}\<rparr>)"
  have r: "replicate (TLSMAP_WORDS 4) 0 = [0 :: u32]" "replicate 4 0 = [0, 0, 0, 0 :: nat]"
    by (simp add: TLSMAP_WORDS_def TLSMAP_BITS_def) (simp add: eval_nat_numeral)
  have "pthread_internal_add 1 (no_threads\<lparr>th_heap := (th_heap no_threads)(1 \<mapsto> new_thread 1)\<rparr>) = S False [0] [0, 0, 0, 0]"
    unfolding no_threads_def r by (simp add: S_def pthread_internal_add_def th_upd_def Let_def new_thread_def)
  then have s1: "thread_reach 2 4 new_thread [1] (S False [0] [0, 0, 0, 0])"
    using thread_step [OF s, of "Thread_add 1" "S False [0] [0, 0, 0, 0]"] by simp
  note steps = one_thread_steps [of "Some 1" "[1 \<mapsto> new_thread 1]", folded S_def]
  have s2: "thread_reach 2 4 new_thread [1] (S True [7] [0, 0, 5, 0])"
    using thread_step [OF s1, of "Key_create 5" "S True [7] [0, 0, 5, 0]"] steps(2) by (simp add: S_def)
  have "set_tls 1 2 8 (S True [7] [0, 0, 5, 0]) = one_thread"
    by (simp add: S_def set_tls_def th_upd_def one_thread_def new_thread_def numeral_2_eq_2)
  then show ?thesis using thread_step [OF s2, of "Set_specific 1 2 8" one_thread] steps(3) by (simp add: S_def)
qed

lemma one_thread_facts: "running one_thread 1" "tm_initialized one_thread" "get_tls 1 one_thread = [9, 9, 8, 0]" "(0 :: nat) < 4"
  by (simp_all add: running_def one_thread_def get_tls_def new_thread_def)

theorem key_create_fresh_witness:
  "\<exists>key s'. pthread_key_create 2 4 6 one_thread = (Inr key, s') \<and> key = 3 \<and> running one_thread 1 \<and> pthread_getspecific 2 4 1 key s' = 0"
proof -
  have c: "fst (pthread_key_create 2 4 6 one_thread) = Inr 3"
    by (simp add: pthread_key_create_def tls_map_access_def CreateKey_def upto IsInUse_def TLSMAP_MASK_def TLSMAP_BITS_def one_thread_def)
  then obtain s' where s': "pthread_key_create 2 4 6 one_thread = (Inr 3, s')" by (metis prod.collapse)
  then have "pthread_getspecific 2 4 1 3 s' = 0"
    using key_create_fresh [OF one_thread_reach s'] one_thread_facts(1) by simp
  then show ?thesis using s' one_thread_facts(1) by blast
qed

theorem key_delete_clears_witness:
  "\<exists>s'. pthread_key_delete 2 4 2 one_thread = Some (0, s') \<and> \<not> IsInUse 2 s'"
proof -
  have u: "IsInUse 2 one_thread" by (simp add: IsInUse_def TLSMAP_MASK_def TLSMAP_BITS_def one_thread_def)
  show ?thesis using key_delete_clears [OF one_thread_reach, of 2] u by auto
qed

theorem clean_all_calls_witness:
  "fst (pthread_key_clean_all (\<lambda>d x s. s) 2 4 4 1 one_thread) = [(5, 8)]"
proof -
  have q: "quiet 1 (\<lambda>d x s. s)" by (simp add: quiet_def)
  have l: "length (get_tls 1 one_thread) = 4" unfolding one_thread_facts(3) by simp
  have "filter (due (get_tls 1 one_thread) one_thread) [0..<4] = [2]"
    unfolding one_thread_facts(3) upto by (simp add: due_def IsInUse_def TLSMAP_MASK_def TLSMAP_BITS_def one_thread_def)
  moreover have "tm_dtors one_thread ! 2 = 5" "get_tls 1 one_thread ! 2 = 8" unfolding one_thread_facts(3) by (simp_all add: one_thread_def)
  ultimately show ?thesis
    using clean_all_calls [OF one_thread_facts(2,1) l one_thread_facts(4), of "\<lambda>d x s. s" 2] q by simp
qed

theorem timespec_left_witness: "timespec_from_absolute (1, 900000000) (3, 100000000) = Inr (1, 200000000)"
  using timespec_left [of "(1, 900000000)" "(3, 100000000)"] by simp

theorem pthread_create_result_witness:
  "\<exists>t s'. pthread_create \<lparr>e_calloc = Some 5, e_mmap = Some 4096, e_mprotect = True, e_clone = Inr 8, e_sched = 0, e_lp64 = True\<rparr>
     (\<lambda>x. x) 4 0 (0, 1, 0) plain_attr None 3 one_thread = (Inr t, s') \<and> g_thread_list s' = Some 5"
proof -
  let ?env = "\<lparr>e_calloc = Some 5, e_mmap = Some 4096, e_mprotect = True, e_clone = Inr 8, e_sched = 0, e_lp64 = True\<rparr>"
  obtain r s' where c: "pthread_create ?env (\<lambda>x. x) 4 0 (0, 1, 0) plain_attr None 3 one_thread = (r, s')" by force
  have r: "\<exists>t. r = Inr t"
    using c by (auto simp: pthread_create_def create_thread_stack_def init_thread_def plain_attr_def Let_def)
  have s: "th_stacks one_thread = {}" by (simp add: one_thread_def)
  have "case r of Inr t \<Rightarrow> e_calloc ?env = Some t \<and> g_thread_list s' = Some t \<and>
        (\<exists>th tls. th_heap s' t = Some th \<and> th_started th \<and> th_routine th = 3 \<and> th_tls th = Some tls \<and> length tls = 4 \<and>
          (\<forall>k. 2 \<le> k \<and> k < 4 \<longrightarrow> tls ! k = 0) \<and> (a_user_stack (th_attr th) \<or> th_stacks s' = insert (a_stack_base (th_attr th)) (th_stacks one_thread)))
    | Inl e \<Rightarrow> s' = one_thread \<or> (e_lp64 ?env \<and> e = e_sched ?env \<and>
        (\<exists>t th. e_calloc ?env = Some t \<and> th_heap s' t = Some th \<and> th_started th \<and> th_routine th = 0 \<and> a_detached (th_attr th)))"
    by (rule pthread_create_result [OF _ _ _ _ _ _ c]) (simp_all add: s plain_attr_def)
  then show ?thesis using c r by auto
qed

end
