(* ===== verification/Kmp.thy ===== *)
theory Kmp
  imports Prelude
begin

text \<open>
  The search program \<open>src/algo/kmp/kmp.cc\<close>: the failure array, and \<open>main\<close>, which searches a file for a
  pattern and prints the lines with a match. The file is a string with a read position; the
  operations of the input stream are those of the C++ library. A loop that runs for ever has no
  result (\<open>None\<close>).
\<close>

section \<open>The failure array\<close>

text \<open>\<open>F\<close> comes from \<open>new int[m]\<close>, with any contents.\<close>

partial_function (option) failure_loop :: "string \<Rightarrow> nat list \<Rightarrow> nat \<Rightarrow> nat \<Rightarrow> nat list option" where
  "failure_loop P F i j =
     (if i < length P then
        (if P ! i = P ! j then failure_loop P (F[i := j + 1]) (i + 1) (j + 1)
         else if j > 0 then failure_loop P F i (F ! (j - 1))
         else failure_loop P (F[i := 0]) (i + 1) j)
      else Some F)"

definition computeFailureArray :: "nat list \<Rightarrow> string \<Rightarrow> nat list option" where
  "computeFailureArray F P = failure_loop P (F[0 := 0]) 1 0"

section \<open>The input stream\<close>

abbreviation newline :: char where "newline \<equiv> CHR 0x0A"

text \<open>\<open>f_good\<close>: none of the error bits is set. A read at the end yields the character of -1.\<close>

record fstream =
  f_text :: string
  f_pos :: nat
  f_good :: bool

definition fin_get :: "fstream \<Rightarrow> char \<times> fstream" where
  "fin_get fin =
     (if f_good fin \<and> f_pos fin < length (f_text fin) then (f_text fin ! f_pos fin, fin\<lparr>f_pos := f_pos fin + 1\<rparr>)
      else (CHR 0xFF, fin\<lparr>f_good := False\<rparr>))"

definition fin_seekg :: "nat \<Rightarrow> fstream \<Rightarrow> fstream" where
  "fin_seekg p fin = (if f_good fin then fin\<lparr>f_pos := p\<rparr> else fin)"

text \<open>\<open>getline\<close> into a buffer of \<open>n\<close> characters: up to a newline, the end of the file, or \<open>n - 1\<close> characters.\<close>

definition fin_getline :: "nat \<Rightarrow> fstream \<Rightarrow> string \<times> fstream" where
  "fin_getline n fin =
     (let rest = drop (f_pos fin) (f_text fin); line = takeWhile (\<lambda>c. c \<noteq> newline) rest
      in if \<not> f_good fin then ([], fin)
         else if length line > n - 1 then (take (n - 1) line, fin\<lparr>f_pos := f_pos fin + (n - 1), f_good := False\<rparr>)
         else if length line = length rest then (line, fin\<lparr>f_pos := f_pos fin + length line, f_good := False\<rparr>)
         else (line, fin\<lparr>f_pos := f_pos fin + length line + 1\<rparr>))"

section \<open>The search\<close>

text \<open>What \<open>cout << buf\<close> prints: the characters before the first 0.\<close>

definition c_str :: "string \<Rightarrow> string" where
  "c_str s = takeWhile (\<lambda>c. c \<noteq> CHR 0x00) s"

type_synonym kmp_output = "(nat \<times> string) list"

text \<open>The loop of \<open>main\<close>, with the exit status and the lines printed from here on.\<close>

partial_function (option) search_loop ::
    "bool \<Rightarrow> string \<Rightarrow> nat list \<Rightarrow> fstream \<Rightarrow> char \<Rightarrow> nat \<Rightarrow> nat \<Rightarrow> nat \<Rightarrow> bool \<Rightarrow> (int \<times> kmp_output) option" where
  "search_loop multi P F fin c j line_num line_pos noresults =
     (if \<not> f_good fin then Some (if noresults then 1 else 0, [])
      else
        let line_pos = (if c = newline then f_pos fin else line_pos);
            line_num = (if c = newline then line_num + 1 else line_num)
        in if c = P ! j then
             (if j = length P - 1 then
                (case fin_getline 256 (fin_seekg line_pos fin) of (buf, fin) \<Rightarrow>
                   if \<not> multi then Some (0, [(line_num, c_str buf)])
                   else (case fin_getline 256 fin of (_, fin) \<Rightarrow>
                     case fin_get fin of (c, fin) \<Rightarrow>
                       Option.bind (search_loop multi P F fin c 0 line_num line_pos False) (\<lambda>(code, out). Some (code, (line_num, c_str buf) # out))))
              else (case fin_get fin of (c, fin) \<Rightarrow> search_loop multi P F fin c (j + 1) line_num line_pos noresults))
           else if j > 0 then search_loop multi P F fin c (F ! (j - 1)) line_num line_pos noresults
           else (case fin_get fin of (c, fin) \<Rightarrow> search_loop multi P F fin c j line_num line_pos noresults))"

text \<open>The loop over the arguments, which are taken away while it runs.\<close>

function parse_args :: "nat \<Rightarrow> string list \<Rightarrow> bool \<Rightarrow> string list \<times> bool" where
  "parse_args i args multi =
     (if i < length args then
        (if hd args = ''-m'' then parse_args (i + 1) (tl args) True else parse_args (i + 1) args multi)
      else (args, multi))"
  by pat_completeness auto
termination by (relation "measure (\<lambda>(i, args, multi). length args - i)") auto

text \<open>
  \<open>main\<close> on its arguments and on the contents of the files (\<open>None\<close>: the file cannot be opened). An
  empty pattern is outside the model: \<open>F[0]\<close> is then past the end of the array.
\<close>

definition kmp_main :: "nat list \<Rightarrow> (string \<Rightarrow> string option) \<Rightarrow> string list \<Rightarrow> (int \<times> kmp_output) option" where
  "kmp_main F0 files args =
     (case parse_args 0 args False of
        ([P, file], multi) \<Rightarrow>
          let fin = (case files file of Some text \<Rightarrow> \<lparr>f_text = text, f_pos = 0, f_good = True\<rparr> | None \<Rightarrow> \<lparr>f_text = [], f_pos = 0, f_good = False\<rparr>)
          in Option.bind (computeFailureArray F0 P)
               (\<lambda>F. case fin_get fin of (c, fin) \<Rightarrow> search_loop multi P F fin c 0 0 0 True)
      | _ \<Rightarrow> Some (3, []))"

end
