(* ===== verification/KmpProof.thy ===== *)
theory KmpProof
  imports Kmp
begin

text \<open>
  The search program: the failure array holds, for every prefix of the pattern, the length of its
  longest proper border; the search of a file returns, answers whether the pattern occurs, and
  prints the line in which the first occurrence ends. With \<open>-m\<close> it may print a line for ever.
\<close>

section \<open>Borders and the failure array\<close>

text \<open>The first \<open>k\<close> characters of \<open>P\<close> are the last \<open>k\<close> of its first \<open>n\<close>.\<close>

definition border :: "'a list \<Rightarrow> nat \<Rightarrow> nat \<Rightarrow> bool" where
  "border P k n \<longleftrightarrow> k < n \<and> (\<forall>x<k. P ! x = P ! (n - k + x))"

lemma border_0 [simp]: "border P 0 n \<longleftrightarrow> 0 < n"
  by (simp add: border_def)

lemma border_Suc: "border P (Suc k) (Suc n) \<longleftrightarrow> border P k n \<and> P ! k = P ! n"
  by (auto simp: border_def less_Suc_eq)

lemma border_trans: "border P k j \<Longrightarrow> border P j n \<Longrightarrow> border P k n"
proof -
  assume kj: "border P k j" and jn: "border P j n"
  have "P ! x = P ! (n - k + x)" if "x < k" for x
  proof -
    have "P ! x = P ! (j - k + x)" using kj that by (simp add: border_def)
    also have "\<dots> = P ! (n - j + (j - k + x))"
      using jn that kj by (auto simp: border_def simp del: add_diff_assoc add_diff_assoc2)
    also have "n - j + (j - k + x) = n - k + x" using kj jn that by (simp add: border_def)
    finally show ?thesis .
  qed
  with kj jn show ?thesis by (simp add: border_def)
qed

lemma border_shorter: "border P k n \<Longrightarrow> border P j n \<Longrightarrow> k < j \<Longrightarrow> border P k j"
proof -
  assume kn: "border P k n" and jn: "border P j n" and lt: "k < j"
  have "P ! x = P ! (j - k + x)" if "x < k" for x
  proof -
    have "P ! x = P ! (n - k + x)" using kn that by (simp add: border_def)
    moreover have "P ! (j - k + x) = P ! (n - j + (j - k + x))" using lt jn that by (simp add: border_def)
    moreover have "n - j + (j - k + x) = n - k + x" using lt jn that by (simp add: border_def)
    ultimately show ?thesis by simp
  qed
  with lt show ?thesis by (simp add: border_def)
qed

definition longest_border :: "'a list \<Rightarrow> nat \<Rightarrow> nat \<Rightarrow> bool" where
  "longest_border P k n \<longleftrightarrow> border P k n \<and> (\<forall>l. border P l n \<longrightarrow> l \<le> k)"

definition failures :: "'a list \<Rightarrow> nat list \<Rightarrow> nat \<Rightarrow> bool" where
  "failures P F i \<longleftrightarrow> (\<forall>q<i. longest_border P (F ! q) (q + 1))"

lemma failure_loop_correct:
  assumes "length F = length P" and "1 \<le> i" and "i \<le> length P" and "j < i" and "border P j i" and "failures P F i"
    and "\<And>k. border P k (i + 1) \<Longrightarrow> k \<le> j + 1"
  shows "\<exists>F'. failure_loop P F i j = Some F' \<and> length F' = length P \<and> failures P F' (length P)"
  using assms
proof (induction "2 * (length P - i) + j" arbitrary: F i j rule: less_induct)
  case less
  note unf = failure_loop.simps [of P F i j]
  consider "\<not> i < length P" | "i < length P" "P ! i = P ! j" | "i < length P" "P ! i \<noteq> P ! j" "j > 0" | "i < length P" "P ! i \<noteq> P ! j" "j = 0" by blast
  then show ?case
  proof cases
    case 1
    with less.prems show ?thesis by (subst unf) simp
  next
    case 2
    have b: "border P (j + 1) (i + 1)" using less.prems 2 by (simp add: border_Suc)
    then have lb: "longest_border P (j + 1) (i + 1)" using less.prems(7) by (simp add: longest_border_def)
    have f: "failures P (F[i := j + 1]) (i + 1)"
      using less.prems lb 2 by (auto simp: failures_def less_Suc_eq)
    have up: "k \<le> j + 1 + 1" if "border P k (i + 1 + 1)" for k
      using that less.prems(7) by (cases k) (auto simp: border_Suc)
    have "\<exists>F'. failure_loop P (F[i := j + 1]) (i + 1) (j + 1) = Some F' \<and> length F' = length P \<and> failures P F' (length P)"
      by (rule less.hyps) (use less.prems 2 b f up in \<open>auto\<close>)
    with 2 show ?thesis by (subst unf) simp
  next
    case 3
    have lb: "longest_border P (F ! (j - 1)) j" using less.prems 3 by (auto simp: failures_def dest: spec [of _ "j - 1"])
    then have lt: "F ! (j - 1) < j" and b: "border P (F ! (j - 1)) i"
      using less.prems(5) border_trans by (auto simp: longest_border_def border_def)
    have up: "k \<le> F ! (j - 1) + 1" if bk: "border P k (i + 1)" for k
    proof (cases k)
      case (Suc l)
      with bk have bl: "border P l i" and eq: "P ! l = P ! i" by (auto simp: border_Suc)
      from less.prems(7) [OF bk] Suc eq 3 have "l < j" by (metis Suc_eq_plus1 Suc_le_mono le_neq_implies_less)
      with bl less.prems(5) have "border P l j" by (rule border_shorter)
      with lb Suc show ?thesis by (simp add: longest_border_def)
    qed simp
    have "\<exists>F'. failure_loop P F i (F ! (j - 1)) = Some F' \<and> length F' = length P \<and> failures P F' (length P)"
      by (rule less.hyps) (use less.prems 3 lt b up in \<open>auto\<close>)
    with 3 show ?thesis by (subst unf) simp
  next
    case 4
    have z: "k = 0" if bk: "border P k (i + 1)" for k
      using less.prems(7) [OF bk] bk 4 by (cases k) (auto simp: border_Suc)
    then have lb: "longest_border P 0 (i + 1)" by (auto simp: longest_border_def)
    have f: "failures P (F[i := 0]) (i + 1)"
      using less.prems lb 4 by (auto simp: failures_def less_Suc_eq)
    have up: "k \<le> j + 1" if "border P k (i + 1 + 1)" for k
      using that z by (cases k) (auto simp: border_Suc)
    have "\<exists>F'. failure_loop P (F[i := 0]) (i + 1) j = Some F' \<and> length F' = length P \<and> failures P F' (length P)"
      by (rule less.hyps) (use less.prems 4 f up in \<open>auto\<close>)
    with 4 show ?thesis by (subst unf) simp
  qed
qed

theorem failure_array_correct:
  assumes "P \<noteq> []" and "length F = length P"
  shows "\<exists>F'. computeFailureArray F P = Some F' \<and> length F' = length P \<and> failures P F' (length P)"
  unfolding computeFailureArray_def
proof (rule failure_loop_correct)
  show "failures P (F[0 := 0]) 1" using assms by (auto simp: failures_def longest_border_def border_def)
qed (use assms in \<open>auto simp: border_def Suc_le_eq\<close>)

section \<open>Partial matches\<close>

text \<open>The first \<open>j\<close> characters of \<open>P\<close> are the last \<open>j\<close> of the first \<open>n\<close> of \<open>T\<close>.\<close>

definition partial_match :: "'a list \<Rightarrow> 'a list \<Rightarrow> nat \<Rightarrow> nat \<Rightarrow> bool" where
  "partial_match P T j n \<longleftrightarrow> j \<le> length P \<and> j \<le> n \<and> (\<forall>x<j. P ! x = T ! (n - j + x))"

lemma partial_match_0 [simp]: "partial_match P T 0 n"
  by (simp add: partial_match_def)

lemma partial_match_Suc:
  "partial_match P T (Suc k) (Suc n) \<longleftrightarrow> k < length P \<and> partial_match P T k n \<and> P ! k = T ! n"
  by (auto simp: partial_match_def less_Suc_eq)

lemma partial_match_border:
  "partial_match P T k n \<Longrightarrow> partial_match P T j n \<Longrightarrow> k < j \<Longrightarrow> border P k j"
proof -
  assume kn: "partial_match P T k n" and jn: "partial_match P T j n" and lt: "k < j"
  have "P ! x = P ! (j - k + x)" if "x < k" for x
  proof -
    have "P ! x = T ! (n - k + x)" using kn that by (simp add: partial_match_def)
    moreover have "P ! (j - k + x) = T ! (n - j + (j - k + x))" using lt jn that by (simp add: partial_match_def)
    moreover have "n - j + (j - k + x) = n - k + x" using lt jn that by (simp add: partial_match_def)
    ultimately show ?thesis by simp
  qed
  with lt show ?thesis by (simp add: border_def)
qed

lemma partial_match_sub: "partial_match P T j n \<Longrightarrow> border P k j \<Longrightarrow> partial_match P T k n"
proof -
  assume jn: "partial_match P T j n" and kj: "border P k j"
  have "P ! x = T ! (n - k + x)" if "x < k" for x
  proof -
    have "P ! x = P ! (j - k + x)" using kj that by (simp add: border_def)
    also have "\<dots> = T ! (n - j + (j - k + x))"
      using jn that kj by (auto simp: border_def partial_match_def simp del: add_diff_assoc add_diff_assoc2)
    also have "n - j + (j - k + x) = n - k + x" using kj jn that by (simp add: border_def partial_match_def)
    finally show ?thesis .
  qed
  with kj jn show ?thesis by (simp add: border_def partial_match_def)
qed

lemma suffix_take_drop: "n \<le> length T \<Longrightarrow> suffix P (take n T) \<longleftrightarrow> length P \<le> n \<and> drop (n - length P) (take n T) = P"
  using suffix_take [of P "take n T"] suffix_drop [of "n - length P" "take n T"] suffix_length_le [of P "take n T"]
  by (auto simp: suffix_def)

lemma partial_match_full: "n \<le> length T \<Longrightarrow> partial_match P T (length P) n \<longleftrightarrow> suffix P (take n T)"
  by (auto simp: suffix_take_drop partial_match_def list_eq_iff_nth_eq)

section \<open>The search of a file\<close>

text \<open>Where the line of position \<open>n\<close> begins.\<close>

definition line_start :: "string \<Rightarrow> nat \<Rightarrow> nat" where
  "line_start T n = n - length (takeWhile (\<lambda>c. c \<noteq> newline) (rev (take n T)))"

lemma line_start_0 [simp]: "line_start T 0 = 0"
  by (simp add: line_start_def)

lemma line_start_Suc:
  "n < length T \<Longrightarrow> line_start T (Suc n) = (if T ! n = newline then Suc n else line_start T n)"
  by (simp add: line_start_def take_Suc_conv_app_nth)

text \<open>
  The answer to a search: the status 0 and the line of the first place where an occurrence ends, with
  a line number that is at least the number of newlines before it, or the status 1 and no output.
\<close>

definition search_answer :: "string \<Rightarrow> string \<Rightarrow> (int \<times> kmp_output) option \<Rightarrow> bool" where
  "search_answer P T r \<longleftrightarrow>
     (if \<exists>e\<le>length T. suffix P (take e T)
      then \<exists>e k. e \<le> length T \<and> suffix P (take e T) \<and> (\<forall>d<e. \<not> suffix P (take d T)) \<and> count_list (take e T) newline \<le> k \<and>
             r = Some (0, [(k, c_str (take 255 (takeWhile (\<lambda>c. c \<noteq> newline) (drop (line_start T e) T))))])
      else r = Some (1, []))"

lemma fin_getline_line:
  "f_good fin \<Longrightarrow> fst (fin_getline n fin) = take (n - 1) (takeWhile (\<lambda>c. c \<noteq> newline) (drop (f_pos fin) (f_text fin)))"
  by (auto simp: fin_getline_def Let_def)

definition search_inv :: "string \<Rightarrow> string \<Rightarrow> nat \<Rightarrow> nat \<Rightarrow> bool" where
  "search_inv P T j n \<longleftrightarrow> j < length P \<and> partial_match P T j n \<and>
     (\<forall>k. partial_match P T k (Suc n) \<longrightarrow> k \<le> Suc j) \<and> (\<forall>e\<le>n. \<not> suffix P (take e T))"

lemma search_inv_start: "P \<noteq> [] \<Longrightarrow> search_inv P T 0 0"
  by (auto simp: search_inv_def partial_match_def)

lemma search_inv_next:
  assumes inv: "search_inv P T j n" and n: "n < length T" and neq: "\<not> (P ! j = T ! n \<and> Suc j = length P)"
    and ok: "P ! j = T ! n \<or> j = 0"
  shows "search_inv P T (if P ! j = T ! n then Suc j else j) (Suc n)"
proof -
  let ?j = "if P ! j = T ! n then Suc j else j"
  have top: "k \<le> ?j" if pk: "partial_match P T k (Suc n)" for k
  proof (cases "P ! j = T ! n")
    case False
    have "k \<le> Suc 0" using inv pk False ok by (simp add: search_inv_def)
    with False ok pk show ?thesis by (cases k) (auto simp: partial_match_Suc)
  qed (use inv pk in \<open>simp add: search_inv_def\<close>)
  have "k \<le> Suc ?j" if "partial_match P T k (Suc (Suc n))" for k
    using that top by (cases k) (auto simp: partial_match_Suc)
  moreover have "partial_match P T ?j (Suc n)"
    using inv ok by (auto simp: search_inv_def partial_match_Suc)
  moreover have lt: "?j < length P" using inv neq by (auto simp: search_inv_def Suc_lessI)
  moreover have "\<not> suffix P (take (Suc n) T)"
  proof
    assume "suffix P (take (Suc n) T)"
    with n have "partial_match P T (length P) (Suc n)" by (simp add: partial_match_full)
    with top lt show False by fastforce
  qed
  ultimately show ?thesis
    using inv by (auto simp: search_inv_def le_Suc_eq)
qed

lemma search_inv_back:
  assumes inv: "search_inv P T j n" and n: "n < length T" and neq: "P ! j \<noteq> T ! n" and j: "j > 0" and lb: "longest_border P k j"
  shows "search_inv P T k n \<and> k < j"
proof -
  from lb have b: "border P k j" and lt: "k < j" by (auto simp: longest_border_def border_def)
  have "q \<le> Suc k" if pq: "partial_match P T q (Suc n)" for q
  proof (cases q)
    case (Suc l)
    with pq have pl: "partial_match P T l n" and eq: "P ! l = T ! n" by (auto simp: partial_match_Suc)
    have "q \<le> Suc j" using inv pq by (simp add: search_inv_def)
    with Suc eq neq have "l < j" by (cases "l = j") auto
    then have "border P l j" using partial_match_border pl inv by (auto simp: search_inv_def)
    with lb Suc show ?thesis by (simp add: longest_border_def)
  qed simp
  with lt b inv show ?thesis by (auto simp: search_inv_def intro: partial_match_sub)
qed

lemma search_loop_single:
  assumes F: "failures P F (length P)"
  shows "f_text fin = T \<Longrightarrow> f_good fin \<Longrightarrow> f_pos fin = Suc n \<Longrightarrow> n < length T \<Longrightarrow> c = T ! n \<Longrightarrow> search_inv P T j n \<Longrightarrow>
     (c \<noteq> newline \<Longrightarrow> lp = line_start T (Suc n)) \<Longrightarrow> count_list (take n T) newline \<le> ln \<Longrightarrow>
     search_answer P T (search_loop False P F fin c j ln lp True)"
proof (induction "2 * (length T - n) + j" arbitrary: n j fin c ln lp rule: less_induct)
  case less
  note prems = less.prems
  define lp' where "lp' = (if c = newline then f_pos fin else lp)"
  define ln' where "ln' = (if c = newline then ln + 1 else ln)"
  have lp': "lp' = line_start T (Suc n)" using prems(3,4,5,7) by (simp add: lp'_def line_start_Suc)
  have ln': "count_list (take (Suc n) T) newline \<le> ln'" using prems(4,5,8) by (simp add: ln'_def take_Suc_conv_app_nth)
  note unf = search_loop.simps [of False P F fin c j ln lp True]
  have get: "search_answer P T (case fin_get fin of (c, fin) \<Rightarrow> search_loop False P F fin c j' ln' lp' True)"
    if inv: "search_inv P T j' (Suc n)" and j': "j' \<le> Suc j" for j'
  proof (cases "Suc n < length T")
    case True
    have "search_answer P T (search_loop False P F (fin\<lparr>f_pos := Suc (Suc n)\<rparr>) (T ! Suc n) j' ln' lp' True)"
      by (rule less.hyps) (use True prems(1,2) inv lp' ln' j' in \<open>auto simp: line_start_Suc\<close>)
    with True prems(1,2,3) show ?thesis by (simp add: fin_get_def)
  next
    case False
    then have "Suc n = length T" using prems(4) by simp
    then have "\<not> (\<exists>e\<le>length T. suffix P (take e T))" using inv unfolding search_inv_def by metis
    with False prems(1,2,3) show ?thesis by (simp add: fin_get_def search_loop.simps [of False P F _ "CHR 0xFF"] search_answer_def)
  qed
  consider (found) "P ! j = T ! n" "Suc j = length P" | (fall) "P ! j \<noteq> T ! n" "j > 0"
    | (step) "\<not> (P ! j = T ! n \<and> Suc j = length P)" "P ! j = T ! n \<or> j = 0" by blast
  then show ?case
  proof cases
    case found
    have "partial_match P T (Suc j) (Suc n)" using found(1) prems(6) by (auto simp: partial_match_Suc search_inv_def)
    then have occ: "suffix P (take (Suc n) T)" using found(2) prems(4) by (simp add: partial_match_full)
    have r: "search_loop False P F fin c j ln lp True = Some (0, [(ln', c_str (fst (fin_getline 256 (fin_seekg lp' fin))))])"
      using found prems(2,5) by (subst unf) (auto simp: lp'_def ln'_def split: prod.splits)
    have "\<forall>d<Suc n. \<not> suffix P (take d T)" using prems(6) by (auto simp: search_inv_def)
    with occ ln' lp' prems(1,2,4) show ?thesis
      by (auto simp: search_answer_def r fin_getline_line fin_seekg_def intro!: exI [of _ "Suc n"])
  next
    case fall
    have lb: "longest_border P (F ! (j - 1)) j" using F prems(6) fall by (auto simp: failures_def search_inv_def dest: spec [of _ "j - 1"])
    then have inv: "search_inv P T (F ! (j - 1)) n" and lt: "F ! (j - 1) < j" using search_inv_back prems(4,6) fall by blast+
    have "search_answer P T (search_loop False P F fin c (F ! (j - 1)) ln' lp' True)"
      by (rule less.hyps) (use prems(1-5) inv lt lp' ln' in \<open>auto simp: ln'_def take_Suc_conv_app_nth\<close>)
    with fall prems(2,5) show ?thesis by (subst unf) (auto simp: lp'_def ln'_def)
  next
    case step
    have inv: "search_inv P T (if P ! j = T ! n then Suc j else j) (Suc n)" using search_inv_next prems(4,6) step by blast
    have "search_loop False P F fin c j ln lp True =
        (case fin_get fin of (c, fin) \<Rightarrow> search_loop False P F fin c (if P ! j = T ! n then Suc j else j) ln' lp' True)"
    proof (cases "P ! j = T ! n")
      case True
      then have "c = P ! j" "j \<noteq> length P - 1" using step(1) prems(5,6) by (auto simp: search_inv_def)
      then show ?thesis using True prems(2) by (subst unf) (simp only: Let_def lp'_def ln'_def if_True if_False not_not Suc_eq_plus1 simp_thms)
    next
      case False
      then have "c \<noteq> P ! j" "j = 0" using step(2) prems(5) by auto
      then show ?thesis using False prems(2) by (subst unf) (simp only: Let_def lp'_def ln'_def if_True if_False simp_thms less_irrefl)
    qed
    with get [OF inv] show ?thesis by simp
  qed
qed

lemma parse_args_pair: "P \<noteq> ''-m'' \<Longrightarrow> parse_args 0 [P, file] False = ([P, file], False)"
  by (simp add: parse_args.simps)

text \<open>
  C38: For a pattern with a character in it, \<open>kmp\<close> returns on every file. When the pattern occurs in
  the file, it returns 0 and prints one line: the first 255 characters of the line in which the
  first occurrence ends, with a line number that is not smaller than the number of newlines read.
  When the pattern does not occur, it prints nothing and returns 1.
\<close>

theorem kmp_single:
  assumes P: "P \<noteq> []" and opt: "P \<noteq> ''-m''" and F0: "length F0 = length P" and txt_ok: "files file = Some T"
  shows "search_answer P T (kmp_main F0 files [P, file])"
proof -
  obtain F where F: "computeFailureArray F0 P = Some F" "failures P F (length P)"
    using failure_array_correct [OF P F0] by blast
  show ?thesis
  proof (cases T)
    case Nil
    with P F opt txt_ok show ?thesis
      by (simp add: kmp_main_def parse_args_pair fin_get_def search_loop.simps search_answer_def)
  next
    case (Cons c T')
    have "search_answer P T (search_loop False P F \<lparr>f_text = T, f_pos = Suc 0, f_good = True\<rparr> c 0 0 0 True)"
      by (rule search_loop_single [OF F(2), where n = 0]) (use Cons P in \<open>auto simp: search_inv_start line_start_Suc\<close>)
    with Cons F opt txt_ok show ?thesis by (simp add: kmp_main_def parse_args_pair fin_get_def)
  qed
qed

lemma kmp_single_witness:
  "search_answer ''aab'' ''baaab'' (kmp_main [7, 7, 7] [''f'' \<mapsto> ''baaab''] [''aab'', ''f''])"
  by (rule kmp_single) simp_all

text \<open>
  A newline is counted again each time the search falls back on it: the second line of this file is
  reported as line 2, and lines are counted from 0.
\<close>

lemma kmp_line_number_too_large:
  "kmp_main [0, 0] [''f'' \<mapsto> ''a'' @ newline # ''ab''] [''ab'', ''f''] = Some (0, [(2, ''ab'')])"
  by (simp add: kmp_main_def parse_args_pair computeFailureArray_def failure_loop.simps fin_get_def search_loop.simps
      fin_seekg_def fin_getline_def c_str_def Let_def)

lemma kmp_multi_loop:
  "search_loop True ''a'' [0] \<lparr>f_text = ''a'' @ newline # ''x'' @ newline # ''a'' @ [newline], f_pos = Suc (Suc (Suc (Suc (Suc 0)))), f_good = True\<rparr> (CHR ''a'') 0 0 0 False = None"
  (is "?r = None")
proof -
  have unf: "?r = Option.bind ?r (\<lambda>(code, out). Some (code, (0, ''a'') # out))"
    by (subst search_loop.simps) (simp add: fin_get_def fin_seekg_def fin_getline_def c_str_def Let_def)
  show ?thesis
  proof (cases ?r)
    case (Some a)
    with unf have "snd a = (0, ''a'') # snd a" by (cases a) simp
    then show ?thesis by (metis not_Cons_self2)
  qed
qed

text \<open>
  With \<open>-m\<close> the search goes back to the start of the line it knows of and reads two lines. When the
  next match is not on the line after those, the start it knows is out of date, and the same line is
  printed for ever: the search of the file \<open>a, x, a\<close> for \<open>a\<close> does not return.
\<close>

theorem kmp_multi_diverges:
  "kmp_main [0] [''f'' \<mapsto> ''a'' @ newline # ''x'' @ newline # ''a'' @ [newline]] [''-m'', ''a'', ''f''] = None"
proof -
  have "parse_args 0 [''-m'', ''a'', ''f''] False = ([''a'', ''f''], True)" by (simp add: parse_args.simps)
  then show ?thesis
    using kmp_multi_loop
    by (simp add: kmp_main_def computeFailureArray_def failure_loop.simps fin_get_def search_loop.simps [where j = 0 and noresults = True]
        fin_seekg_def fin_getline_def c_str_def Let_def)
qed

end
