(* ===== verification/PrintkBuf.thy ===== *)
theory PrintkBuf
  imports Prelude
begin

text \<open>
  The record buffer of the kernel log, \<open>src/debugfs/android50/kernel/kernel/printk.c\<close>: records of
  variable length in a ring of bytes, each with a header \<open>struct log\<close>, and the second buffer in which
  records of an oops are kept (\<open>CONFIG_OOPS_LOG_BUFFER\<close>, the field \<open>config_oops\<close> of the state). The text
  and the readers are in \<open>PrintkText\<close> and \<open>PrintkRead\<close>. Indices are numbers: the buffers are shorter
  than \<open>2 ^ 31\<close> bytes. A sequence number is a number below \<open>2 ^ 64\<close>. An access past the end of a buffer
  has no result (\<open>None\<close>).
\<close>

unbundle bit_operations_syntax

section \<open>Records\<close>

text \<open>Little-endian numbers.\<close>

fun le_bytes :: "nat \<Rightarrow> nat \<Rightarrow> u8 list" where
  "le_bytes 0 n = []"
| "le_bytes (Suc k) n = word_of_nat n # le_bytes k (n div 256)"

fun le_nat :: "u8 list \<Rightarrow> nat" where
  "le_nat [] = 0"
| "le_nat (b # bs) = unat b + 256 * le_nat bs"

text \<open>The flags of a record, in the five bits \<open>struct log\<close> has for them.\<close>

type_synonym log_flags = "5 word"

definition LOG_NOCONS :: log_flags where "LOG_NOCONS = 1"
definition LOG_NEWLINE :: log_flags where "LOG_NEWLINE = 2"
definition LOG_PREFIX :: log_flags where "LOG_PREFIX = 4"
definition LOG_CONT :: log_flags where "LOG_CONT = 8"

text \<open>The header and what follows it; \<open>text_len\<close> and \<open>dict_len\<close> are the lengths of the two lists.\<close>

record log_msg =
  ts_nsec :: u64
  m_len :: u16
  m_facility :: u8
  m_flags :: log_flags
  m_level :: "3 word"
  m_text :: "u8 list"
  m_dict :: "u8 list"

definition sizeof_log :: nat where "sizeof_log = 16"

definition LOG_ALIGN :: nat where "LOG_ALIGN = 4"

definition pad_len :: "nat \<Rightarrow> nat" where
  "pad_len sz = nat ((- int sz) mod int LOG_ALIGN)"

definition put_hdr :: "log_msg \<Rightarrow> u8 list" where
  "put_hdr m = le_bytes 8 (unat (ts_nsec m)) @ le_bytes 2 (unat (m_len m)) @ le_bytes 2 (length (m_text m)) @
     le_bytes 2 (length (m_dict m)) @ [m_facility m, ucast (m_flags m) OR push_bit 5 (ucast (m_level m))]"

definition put_msg :: "log_msg \<Rightarrow> u8 list" where
  "put_msg m = put_hdr m @ m_text m @ m_dict m @ replicate (pad_len (sizeof_log + length (m_text m) + length (m_dict m))) 0"

text \<open>A record read from the buffer.\<close>

definition msg_len :: "u8 list \<Rightarrow> nat \<Rightarrow> nat option" where
  "msg_len b i = (if i + sizeof_log \<le> length b then Some (le_nat (take 2 (drop (i + 8) b))) else None)"

definition msg_at :: "u8 list \<Rightarrow> nat \<Rightarrow> log_msg option" where
  "msg_at b i =
     (let tl = le_nat (take 2 (drop (i + 10) b)); dl = le_nat (take 2 (drop (i + 12) b)) in
      if i + sizeof_log \<le> length b \<and> i + sizeof_log + tl + dl \<le> length b then
        Some \<lparr>ts_nsec = word_of_nat (le_nat (take 8 (drop i b))), m_len = word_of_nat (le_nat (take 2 (drop (i + 8) b))),
              m_facility = b ! (i + 14), m_flags = ucast (b ! (i + 15)), m_level = ucast (drop_bit 5 (b ! (i + 15))),
              m_text = take tl (drop (i + sizeof_log) b), m_dict = take dl (drop (i + sizeof_log + tl) b)\<rparr>
      else None)"

definition log_from_idx :: "u8 list \<Rightarrow> nat \<Rightarrow> nat option" where
  "log_from_idx buf idx = Option.bind (msg_len buf idx) (\<lambda>len. Some (if len = 0 then 0 else idx))"

definition log_next :: "u8 list \<Rightarrow> nat \<Rightarrow> nat option" where
  "log_next buf idx = Option.bind (msg_len buf idx) (\<lambda>len. if len = 0 then msg_len buf 0 else Some (idx + len))"

definition log_get :: "u8 list \<Rightarrow> nat \<Rightarrow> log_msg option" where
  "log_get buf idx = Option.bind (log_from_idx buf idx) (msg_at buf)"

text \<open>\<open>memcpy\<close> into a buffer.\<close>

definition buf_write :: "u8 list \<Rightarrow> nat \<Rightarrow> u8 list \<Rightarrow> u8 list option" where
  "buf_write b i xs = (if i + length xs \<le> length b then Some (take i b @ xs @ drop (i + length xs) b) else None)"

section \<open>State\<close>

text \<open>The line under construction; \<open>c_len = 0\<close>: unused. Its \<open>buf\<close> has \<open>LOG_LINE_MAX\<close> bytes, of which \<open>c_buf\<close> are the first \<open>len\<close>.\<close>

record cont_line =
  c_buf :: "u8 list"
  c_cons :: nat
  c_owner :: nat
  c_ts_nsec :: u64
  c_level :: u8
  c_facility :: u8
  c_flags :: log_flags
  c_flushed :: bool

text \<open>A position in the log: the number and the index of the next record to read, and the flags of the last one.\<close>

record log_pos =
  p_seq :: nat
  p_idx :: nat
  p_prev :: log_flags

record printk =
  config_oops :: bool
  printk_time :: bool
  default_message_loglevel :: nat
  log_buf :: "u8 list"
  log_first_seq :: nat
  log_first_idx :: nat
  log_next_seq :: nat
  log_next_idx :: nat
  syslog_pos :: log_pos
  syslog_partial :: nat
  console_pos :: log_pos
  clear_seq :: nat
  clear_idx :: nat
  log_oops_buf :: "u8 list"
  log_oops_full :: bool
  log_oops_first_seq :: nat
  log_oops_last_seq :: nat
  log_oops_next_idx :: nat
  syslog_oops_buf_idx :: nat
  cont :: cont_line
  recursion_bug :: bool

text \<open>The static initial values; the buffers have \<open>n\<close> and \<open>k\<close> bytes.\<close>

definition printk_start :: "bool \<Rightarrow> bool \<Rightarrow> nat \<Rightarrow> nat \<Rightarrow> printk" where
  "printk_start oops time n k =
     \<lparr>config_oops = oops, printk_time = time, default_message_loglevel = 4, log_buf = replicate n 0,
      log_first_seq = 0, log_first_idx = 0, log_next_seq = 0, log_next_idx = 0,
      syslog_pos = \<lparr>p_seq = 0, p_idx = 0, p_prev = 0\<rparr>, syslog_partial = 0, console_pos = \<lparr>p_seq = 0, p_idx = 0, p_prev = 0\<rparr>,
      clear_seq = 0, clear_idx = 0, log_oops_buf = replicate k 0, log_oops_full = False, log_oops_first_seq = 2 ^ 64 - 1,
      log_oops_last_seq = 0, log_oops_next_idx = 0, syslog_oops_buf_idx = 0,
      cont = \<lparr>c_buf = [], c_cons = 0, c_owner = 0, c_ts_nsec = 0, c_level = 0, c_facility = 0, c_flags = 0, c_flushed = False\<rparr>,
      recursion_bug = False\<rparr>"

definition ULLONG_MAX :: nat where "ULLONG_MAX = 2 ^ 64 - 1"

definition seq_inc :: "nat \<Rightarrow> nat" where
  "seq_inc n = (n + 1) mod 2 ^ 64"

abbreviation log_buf_len :: "printk \<Rightarrow> nat" where
  "log_buf_len s \<equiv> length (log_buf s)"

section \<open>The oops buffer\<close>

definition str :: "string \<Rightarrow> u8 list" where
  "str s = map of_char s"

definition log_oops_end :: "u8 list" where
  "log_oops_end = str ''---end of oops log buffer---''"

definition oops_printk_start :: "printk \<Rightarrow> printk" where
  "oops_printk_start s =
     (if config_oops s \<and> log_oops_first_seq s = ULLONG_MAX then s\<lparr>log_oops_first_seq := log_next_seq s\<rparr> else s)"

text \<open>The record that marks the end; \<open>eom_size\<close> is a multiple of the alignment.\<close>

definition oops_eom :: "u64 \<Rightarrow> printk \<Rightarrow> log_msg" where
  "oops_eom ts s = \<lparr>ts_nsec = ts, m_len = word_of_nat (sizeof_log + length log_oops_end + pad_len (sizeof_log + length log_oops_end)),
     m_facility = 1, m_flags = LOG_NEWLINE OR LOG_PREFIX, m_level = word_of_nat (default_message_loglevel s),
     m_text = log_oops_end, m_dict = []\<rparr>"

text \<open>The record is the one at index \<open>i\<close> of the log buffer. The difference \<open>free - msg->len\<close> is one of 32-bit numbers.\<close>

definition log_oops_store :: "nat \<Rightarrow> printk \<Rightarrow> printk option" where
  "log_oops_store i s =
     (if config_oops s \<and> log_first_seq s \<ge> log_oops_first_seq s \<and> \<not> log_oops_full s then
        Option.bind (msg_len (log_buf s) i) (\<lambda>len.
        let free = length (log_oops_buf s) - log_oops_next_idx s;
            eom_size = sizeof_log + length log_oops_end;
            eom = (free + 2 ^ 32 - len) mod 2 ^ 32 < eom_size + pad_len eom_size;
            bytes = (if eom then put_msg (oops_eom (word_of_nat (le_nat (take 8 (drop i (log_buf s))))) s) else take len (drop i (log_buf s)));
            len = (if eom then eom_size + pad_len eom_size else len)
        in if free \<ge> len then
             Option.bind (buf_write (log_oops_buf s) (log_oops_next_idx s) bytes) (\<lambda>b.
               Some (s\<lparr>log_oops_buf := b, log_oops_next_idx := log_oops_next_idx s + len,
                        log_oops_last_seq := log_first_seq s, log_oops_full := eom\<rparr>))
           else Some (s\<lparr>log_oops_full := True\<rparr>))
      else Some s)"

section \<open>Storing a record\<close>

definition log_free :: "printk \<Rightarrow> nat" where
  "log_free s = (if log_next_idx s > log_first_idx s then max (log_buf_len s - log_next_idx s) (log_first_idx s)
     else log_first_idx s - log_next_idx s)"

text \<open>The loop that drops old records.\<close>

partial_function (option) drop_old :: "nat \<Rightarrow> printk \<Rightarrow> printk option" where
  "drop_old sz s =
     (if log_first_seq s < log_next_seq s then
        if log_free s > sz + sizeof_log then Some s
        else Option.bind (log_oops_store (log_first_idx s) s) (\<lambda>s.
             Option.bind (log_next (log_buf s) (log_first_idx s)) (\<lambda>i.
               drop_old sz (s\<lparr>log_first_idx := i, log_first_seq := seq_inc (log_first_seq s)\<rparr>)))
      else Some s)"

text \<open>
  The record is put behind the last one, or at the start of the buffer, with an empty header where it
  would have been, when it and an empty header do not fit.
\<close>

definition insert_msg :: "log_msg \<Rightarrow> printk \<Rightarrow> printk option" where
  "insert_msg m s =
     (let sz = length (put_msg m)
      in Option.bind
           (if log_next_idx s + sz + sizeof_log \<ge> log_buf_len s
            then Option.bind (buf_write (log_buf s) (log_next_idx s) (replicate sizeof_log 0)) (\<lambda>b. Some (s\<lparr>log_buf := b, log_next_idx := 0\<rparr>))
            else Some s) (\<lambda>s.
         Option.bind (buf_write (log_buf s) (log_next_idx s) (put_msg m)) (\<lambda>b.
           Some (s\<lparr>log_buf := b, log_next_idx := log_next_idx s + unat (m_len m), log_next_seq := seq_inc (log_next_seq s)\<rparr>))))"

text \<open>\<open>clock\<close> is what \<open>local_clock ()\<close> returns. The lengths of text and dictionary are 16-bit numbers, as is that of the record.\<close>

definition log_store :: "u64 \<Rightarrow> u8 \<Rightarrow> nat \<Rightarrow> log_flags \<Rightarrow> u64 \<Rightarrow> u8 list \<Rightarrow> u8 list \<Rightarrow> printk \<Rightarrow> printk option" where
  "log_store clock facility level flags ts dict txt s =
     (let txt = take (length txt mod 2 ^ 16) txt; dict = take (length dict mod 2 ^ 16) dict;
          sz = sizeof_log + length txt + length dict;
          sz = sz + pad_len sz;
          m = \<lparr>ts_nsec = (if ts > 0 then ts else clock), m_len = word_of_nat sz, m_facility = facility, m_flags = flags,
               m_level = word_of_nat level, m_text = txt, m_dict = dict\<rparr>
      in Option.bind (drop_old sz s) (insert_msg m))"

text \<open>
  The larger buffer that the command line asks for takes over the contents of the first one. \<open>fresh\<close>: the
  memory of the new buffer, or \<open>None\<close> when there is none.
\<close>

definition setup_log_buf :: "u8 list option \<Rightarrow> printk \<Rightarrow> printk" where
  "setup_log_buf fresh s =
     (case fresh of
        None \<Rightarrow> s
      | Some b \<Rightarrow> s\<lparr>log_buf := log_buf s @ drop (log_buf_len s) b\<rparr>)"

end
