(* ===== verification/PrintkText.thy ===== *)
theory PrintkText
  imports PrintkBuf
begin

text \<open>
  The text of a record, \<open>print_time\<close>, \<open>print_prefix\<close> and \<open>msg_print_text\<close> of
  \<open>src/debugfs/android50/kernel/kernel/printk.c\<close>. The C functions compute only a length when their
  buffer is null; that case has a definition of its own (\<open>print_time_len\<close>, \<open>print_prefix_len\<close>,
  \<open>msg_print_len\<close>). The conversions of \<open>sprintf\<close> that the file uses are \<open>dec\<close>, \<open>hex2\<close> and \<open>pad_left\<close>.
\<close>

unbundle bit_operations_syntax

section \<open>Numbers\<close>

fun dec :: "nat \<Rightarrow> u8 list" where
  "dec n = (if n < 10 then [word_of_nat (48 + n)] else dec (n div 10) @ [word_of_nat (48 + n mod 10)])"

declare dec.simps [simp del]

definition hex_digit :: "nat \<Rightarrow> u8" where
  "hex_digit n = word_of_nat (if n < 10 then 48 + n else 87 + n)"

definition hex2 :: "u8 \<Rightarrow> u8 list" where
  "hex2 c = [hex_digit (unat c div 16), hex_digit (unat c mod 16)]"

definition pad_left :: "nat \<Rightarrow> u8 \<Rightarrow> u8 list \<Rightarrow> u8 list" where
  "pad_left w c xs = replicate (w - length xs) c @ xs"

section \<open>The prefix\<close>

text \<open>\<open>pt\<close> is the flag \<open>printk_time\<close>.\<close>

definition print_time :: "bool \<Rightarrow> u64 \<Rightarrow> u8 list" where
  "print_time pt ts =
     (if \<not> pt then []
      else str ''['' @ pad_left 5 0x20 (dec (unat ts div 1000000000)) @ str ''.'' @
        pad_left 6 0x30 (dec (unat ts mod 1000000000 div 1000)) @ str ''] '')"

definition print_time_len :: "bool \<Rightarrow> u64 \<Rightarrow> nat" where
  "print_time_len pt ts =
     (if \<not> pt then 0 else length (str ''['' @ pad_left 5 0x20 (dec (unat ts div 1000000000)) @ str ''.000000] ''))"

definition syslog_prefix :: "log_msg \<Rightarrow> nat" where
  "syslog_prefix m = push_bit 3 (unat (m_facility m)) OR unat (m_level m)"

definition print_prefix :: "bool \<Rightarrow> log_msg \<Rightarrow> bool \<Rightarrow> u8 list" where
  "print_prefix pt m syslog =
     (if syslog then str ''<'' @ dec (syslog_prefix m) @ str ''>'' else []) @ print_time pt (ts_nsec m)"

definition print_prefix_len :: "bool \<Rightarrow> log_msg \<Rightarrow> bool \<Rightarrow> nat" where
  "print_prefix_len pt m syslog =
     (let p = syslog_prefix m
      in if syslog then 3 + (if p > 999 then 3 else if p > 99 then 2 else if p > 9 then 1 else 0) else 0) + print_time_len pt (ts_nsec m)"

section \<open>The text\<close>

definition has_flag :: "log_flags \<Rightarrow> log_flags \<Rightarrow> bool" where
  "has_flag f b \<longleftrightarrow> f AND b \<noteq> 0"

text \<open>Whether the first line has a prefix, and whether the last one ends with a newline.\<close>

definition starts_line :: "log_flags \<Rightarrow> log_flags \<Rightarrow> bool" where
  "starts_line prev flags \<longleftrightarrow>
     \<not> (has_flag prev LOG_CONT \<and> \<not> has_flag flags LOG_PREFIX) \<and>
     \<not> (has_flag flags LOG_CONT \<and> has_flag prev LOG_CONT \<and> \<not> has_flag prev LOG_NEWLINE)"

definition ends_line :: "log_flags \<Rightarrow> bool" where
  "ends_line flags \<longleftrightarrow> \<not> (has_flag flags LOG_CONT \<and> \<not> has_flag flags LOG_NEWLINE)"

definition nl :: u8 where "nl = 0x0A"

abbreviation first_line :: "u8 list \<Rightarrow> u8 list" where
  "first_line t \<equiv> takeWhile (\<lambda>c. c \<noteq> nl) t"

text \<open>
  The loop over the lines of the text. \<open>len\<close> bytes are in the buffer of \<open>sz\<close> bytes; the result is what
  follows them. \<open>first\<close>: the variable \<open>prefix\<close>.
\<close>

function print_lines :: "u8 list \<Rightarrow> nat \<Rightarrow> bool \<Rightarrow> nat \<Rightarrow> bool \<Rightarrow> u8 list \<Rightarrow> nat \<Rightarrow> u8 list" where
  "print_lines pre pre_len newline sz first t len =
     (let line = first_line t; more = length line < length t;
          out = (if first then pre else []) @ line @ (if more \<or> newline then [nl] else [])
      in if pre_len + length line + 1 \<ge> sz - len then []
         else out @ (if more then print_lines pre pre_len newline sz True (drop (length line + 1) t) (len + length out) else []))"
  by pat_completeness auto
termination by (relation "measure (\<lambda>(pre, pre_len, newline, sz, first, t, len). length t)") auto

function lines_len :: "nat \<Rightarrow> bool \<Rightarrow> bool \<Rightarrow> u8 list \<Rightarrow> nat" where
  "lines_len pre_len newline first t =
     (let line = first_line t; more = length line < length t
      in (if first then pre_len else 0) + length line + (if more \<or> newline then 1 else 0) +
         (if more then lines_len pre_len newline True (drop (length line + 1) t) else 0))"
  by pat_completeness auto
termination by (relation "measure (\<lambda>(pre_len, newline, first, t). length t)") auto

declare print_lines.simps [simp del] lines_len.simps [simp del]

definition msg_print_text :: "bool \<Rightarrow> log_msg \<Rightarrow> log_flags \<Rightarrow> bool \<Rightarrow> nat \<Rightarrow> u8 list" where
  "msg_print_text pt m prev syslog sz =
     print_lines (print_prefix pt m syslog) (print_prefix_len pt m syslog) (ends_line (m_flags m)) sz
       (starts_line prev (m_flags m)) (m_text m) 0"

definition msg_print_len :: "bool \<Rightarrow> log_msg \<Rightarrow> log_flags \<Rightarrow> bool \<Rightarrow> nat" where
  "msg_print_len pt m prev syslog =
     lines_len (print_prefix_len pt m syslog) (ends_line (m_flags m)) (starts_line prev (m_flags m)) (m_text m)"

end
