(* ===== verification/PrintkRead.thy ===== *)
theory PrintkRead
  imports PrintkText
begin

text \<open>
  The readers of the kernel log: \<open>syslog\<close>, \<open>/dev/kmsg\<close> and the dumpers of
  \<open>src/debugfs/android50/kernel/kernel/printk.c\<close>. What is done under \<open>logbuf_lock\<close> is one step. While
  the lock is free, other cpus may store records: an environment \<open>env\<close> lists, for each such moment in
  turn, whether the copy to user memory made there succeeds and what the others do to the log; past its
  end copies succeed and nothing happens.
\<close>

unbundle bit_operations_syntax

type_synonym printk_env = "(bool \<times> (printk \<Rightarrow> printk)) list"

fun env_next :: "printk_env \<Rightarrow> (bool \<times> (printk \<Rightarrow> printk)) \<times> printk_env" where
  "env_next [] = ((True, \<lambda>s. s), [])"
| "env_next (e # es) = (e, es)"

definition LOG_LINE_MAX :: nat where "LOG_LINE_MAX = 992"
definition PREFIX_MAX :: nat where "PREFIX_MAX = 32"

section \<open>Reading by syslog\<close>

text \<open>A position whose record is gone is moved to the first one.\<close>

definition syslog_catch_up :: "printk \<Rightarrow> printk" where
  "syslog_catch_up s =
     (if p_seq (syslog_pos s) < log_first_seq s
      then s\<lparr>syslog_pos := \<lparr>p_seq = log_first_seq s, p_idx = log_first_idx s, p_prev = 0\<rparr>, syslog_partial := 0\<rparr> else s)"

text \<open>
  What is copied of a text \<open>t\<close>: all that is left of it, or a part when it is the first of the call, or
  nothing. \<open>n - syslog_partial\<close> is a difference of unsigned numbers.
\<close>

definition syslog_chunk :: "u8 list \<Rightarrow> nat \<Rightarrow> nat \<Rightarrow> nat \<Rightarrow> (bool \<times> u8 list) option" where
  "syslog_chunk t part sz len =
     (if part > length t then None
      else if length t - part \<le> sz then Some (True, drop part t)
      else if len = 0 then Some (False, take sz (drop part t))
      else Some (False, []))"

text \<open>One turn of the loop of \<open>syslog_print\<close>, the part under the lock; no bytes: the loop ends.\<close>

definition syslog_section :: "nat \<Rightarrow> nat \<Rightarrow> printk \<Rightarrow> (u8 list \<times> printk) option" where
  "syslog_section sz len s =
     (let s = syslog_catch_up s; pos = syslog_pos s
      in if p_seq pos = log_next_seq s then Some ([], s)
         else Option.bind (log_get (log_buf s) (p_idx pos)) (\<lambda>m.
           Option.bind (syslog_chunk (msg_print_text (printk_time s) m (p_prev pos) True (LOG_LINE_MAX + PREFIX_MAX)) (syslog_partial s) sz len) (\<lambda>(all, out).
             if all then Option.bind (log_next (log_buf s) (p_idx pos)) (\<lambda>idx.
               Some (out, s\<lparr>syslog_pos := \<lparr>p_seq = seq_inc (p_seq pos), p_idx = idx, p_prev = m_flags m\<rparr>, syslog_partial := 0\<rparr>))
             else Some (out, s\<lparr>syslog_partial := syslog_partial s + length out\<rparr>))))"

text \<open>The loop, with the bytes delivered so far in \<open>out\<close>.\<close>

function syslog_loop :: "nat \<Rightarrow> u8 list \<Rightarrow> printk_env \<Rightarrow> printk \<Rightarrow> (int \<times> u8 list \<times> printk_env \<times> printk) option" where
  "syslog_loop sz out env s =
     (if sz = 0 then Some (int (length out), out, env, s)
      else case syslog_section sz (length out) s of
        None \<Rightarrow> None
      | Some (c, s) \<Rightarrow>
          if c = [] then Some (int (length out), out, env, s)
          else case env_next env of ((ok, others), env) \<Rightarrow>
            if ok then syslog_loop (sz - length c) (out @ c) env (others s)
            else Some (if out = [] then - EFAULT else int (length out), out, env, others s))"
  by pat_completeness auto
termination by (relation "measure (\<lambda>(sz, out, env, s). sz)") auto

declare syslog_loop.simps [simp del]

text \<open>The same for the oops buffer, \<open>syslog_oops_buf_print\<close>.\<close>

definition syslog_oops_start :: "printk \<Rightarrow> printk" where
  "syslog_oops_start s =
     (if p_seq (syslog_pos s) < log_oops_first_seq s
      then s\<lparr>syslog_pos := (syslog_pos s)\<lparr>p_seq := log_oops_first_seq s\<rparr>, syslog_oops_buf_idx := 0\<rparr> else s)"

definition syslog_oops_section :: "nat \<Rightarrow> nat \<Rightarrow> printk \<Rightarrow> (u8 list \<times> printk) option" where
  "syslog_oops_section sz len s =
     (let pos = syslog_pos s
      in if \<not> log_oops_last_seq s > p_seq pos then Some ([], s)
         else Option.bind (log_get (log_oops_buf s) (syslog_oops_buf_idx s)) (\<lambda>m.
           Option.bind (syslog_chunk (msg_print_text (printk_time s) m (p_prev pos) True (LOG_LINE_MAX + PREFIX_MAX)) (syslog_partial s) sz len) (\<lambda>(all, out).
             if all then Option.bind (log_next (log_oops_buf s) (syslog_oops_buf_idx s)) (\<lambda>idx.
               Some (out, s\<lparr>syslog_pos := pos\<lparr>p_seq := seq_inc (p_seq pos), p_prev := m_flags m\<rparr>, syslog_oops_buf_idx := idx, syslog_partial := 0\<rparr>))
             else Some (out, s\<lparr>syslog_partial := syslog_partial s + length out\<rparr>))))"

function syslog_oops_loop :: "nat \<Rightarrow> u8 list \<Rightarrow> printk_env \<Rightarrow> printk \<Rightarrow> (int \<times> u8 list \<times> printk_env \<times> printk) option" where
  "syslog_oops_loop sz out env s =
     (if sz = 0 then Some (int (length out), out, env, s)
      else case syslog_oops_section sz (length out) s of
        None \<Rightarrow> None
      | Some (c, s) \<Rightarrow>
          if c = [] then Some (int (length out), out, env, s)
          else case env_next env of ((ok, others), env) \<Rightarrow>
            if ok then syslog_oops_loop (sz - length c) (out @ c) env (others s)
            else Some (if out = [] then - EFAULT else int (length out), out, env, others s))"
  by pat_completeness auto
termination by (relation "measure (\<lambda>(sz, out, env, s). sz)") auto

declare syslog_oops_loop.simps [simp del]

definition syslog_oops_buf_print :: "nat \<Rightarrow> printk_env \<Rightarrow> printk \<Rightarrow> (int \<times> u8 list \<times> printk_env \<times> printk) option" where
  "syslog_oops_buf_print sz env s =
     (if config_oops s then syslog_oops_loop sz [] env (syslog_oops_start s) else Some (0, [], env, s))"

text \<open>
  \<open>syslog_print\<close>. The result is the return value, the bytes in the user's buffer and the state; \<open>mem\<close>:
  the allocation succeeds.
\<close>

definition syslog_print :: "bool \<Rightarrow> nat \<Rightarrow> printk_env \<Rightarrow> printk \<Rightarrow> (int \<times> u8 list \<times> printk) option" where
  "syslog_print mem sz env s =
     (if \<not> mem then Some (- ENOMEM, [], s)
      else Option.bind (syslog_oops_buf_print sz env s) (\<lambda>(olen, oout, env, s).
        if olen < 0 then Some (olen, oout, s)
        else Option.bind (syslog_loop (sz - nat olen) [] env s) (\<lambda>(len, out, env, s).
          Some (if len > 0 then len + olen else len, oout @ out, s))))"

section \<open>Reading all\<close>

text \<open>The sum of the lengths from a position to the end.\<close>

function log_lens :: "printk \<Rightarrow> log_pos \<Rightarrow> nat \<Rightarrow> nat option" where
  "log_lens s pos next =
     (if p_seq pos < next then
        Option.bind (log_get (log_buf s) (p_idx pos)) (\<lambda>m.
        Option.bind (log_next (log_buf s) (p_idx pos)) (\<lambda>idx.
        Option.bind (log_lens s \<lparr>p_seq = p_seq pos + 1, p_idx = idx, p_prev = m_flags m\<rparr> next) (\<lambda>n.
          Some (msg_print_len (printk_time s) m (p_prev pos) True + n))))
      else Some 0)"
  by pat_completeness auto
termination by (relation "measure (\<lambda>(s, pos, next). next - p_seq pos)") auto

text \<open>The position is moved forward until what is left has at most \<open>limit\<close> bytes.\<close>

function log_skip :: "printk \<Rightarrow> int \<Rightarrow> int \<Rightarrow> log_pos \<Rightarrow> nat \<Rightarrow> log_pos option" where
  "log_skip s limit len pos next =
     (if len > limit \<and> p_seq pos < next then
        Option.bind (log_get (log_buf s) (p_idx pos)) (\<lambda>m.
        Option.bind (log_next (log_buf s) (p_idx pos)) (\<lambda>idx.
          log_skip s limit (len - int (msg_print_len (printk_time s) m (p_prev pos) True)) \<lparr>p_seq = p_seq pos + 1, p_idx = idx, p_prev = m_flags m\<rparr> next))
      else Some pos)"
  by pat_completeness auto
termination by (relation "measure (\<lambda>(s, limit, len, pos, next). next - p_seq pos)") auto

declare log_lens.simps [simp del] log_skip.simps [simp del]

text \<open>
  The loop that copies the records up to \<open>next\<close>. A record that is gone when the lock is taken again is
  skipped with its successors. The order of the source is kept: the position is advanced before the copy.
\<close>

function print_all_loop :: "u8 list \<Rightarrow> printk_env \<Rightarrow> log_pos \<Rightarrow> nat \<Rightarrow> printk \<Rightarrow> (int \<times> u8 list \<times> printk) option" where
  "print_all_loop out env pos next s =
     (if p_seq pos < next then
        (case Option.bind (log_get (log_buf s) (p_idx pos)) (\<lambda>m. Option.bind (log_next (log_buf s) (p_idx pos)) (\<lambda>idx. Some (m, idx))) of
           None \<Rightarrow> None
         | Some (m, idx) \<Rightarrow>
             let t = msg_print_text (printk_time s) m (p_prev pos) True (LOG_LINE_MAX + PREFIX_MAX)
             in case env_next env of ((ok, others), env) \<Rightarrow>
                if \<not> ok then Some (- EFAULT, out, others s)
                else let s = others s
                     in print_all_loop (out @ t) env
                          (if p_seq pos + 1 < log_first_seq s then \<lparr>p_seq = log_first_seq s, p_idx = log_first_idx s, p_prev = 0\<rparr>
                           else \<lparr>p_seq = p_seq pos + 1, p_idx = idx, p_prev = m_flags m\<rparr>) next s)
      else Some (int (length out), out, s))"
  by pat_completeness auto
termination by (relation "measure (\<lambda>(out, env, pos, next, s). next - p_seq pos)") auto

declare print_all_loop.simps [simp del]

text \<open>\<open>syslog_print_oops_buf_all\<close>: it stops when the buffer is full, by the length alone.\<close>

function oops_all_loop :: "nat \<Rightarrow> u8 list \<Rightarrow> printk_env \<Rightarrow> log_pos \<Rightarrow> nat \<Rightarrow> printk \<Rightarrow> (int \<times> u8 list \<times> printk_env \<times> printk) option" where
  "oops_all_loop sz out env pos next s =
     (if length out < sz \<and> p_seq pos < next then
        (case Option.bind (log_get (log_oops_buf s) (p_idx pos)) (\<lambda>m. Option.bind (log_next (log_oops_buf s) (p_idx pos)) (\<lambda>idx. Some (m, idx))) of
           None \<Rightarrow> None
         | Some (m, idx) \<Rightarrow>
             let t = msg_print_text (printk_time s) m (p_prev pos) True (LOG_LINE_MAX + PREFIX_MAX)
             in case env_next env of ((ok, others), env) \<Rightarrow>
                if \<not> ok then Some (- EFAULT, out, env, others s)
                else oops_all_loop sz (out @ t) env \<lparr>p_seq = p_seq pos + 1, p_idx = idx, p_prev = m_flags m\<rparr> next (others s))
      else Some (int (length out), out, env, s))"
  by pat_completeness auto
termination by (relation "measure (\<lambda>(sz, out, env, pos, next, s). next - p_seq pos)") auto

declare oops_all_loop.simps [simp del]

definition syslog_print_oops_buf_all :: "nat \<Rightarrow> printk_env \<Rightarrow> printk \<Rightarrow> (int \<times> u8 list \<times> printk_env \<times> printk) option" where
  "syslog_print_oops_buf_all sz env s =
     (if config_oops s then oops_all_loop sz [] env \<lparr>p_seq = log_oops_first_seq s, p_idx = 0, p_prev = 0\<rparr> (log_oops_last_seq s) s
      else Some (0, [], env, s))"

definition clear_log :: "printk \<Rightarrow> printk" where
  "clear_log s = s\<lparr>clear_seq := log_next_seq s, clear_idx := log_next_idx s\<rparr>"

text \<open>\<open>syslog_print_all\<close>; \<open>buf\<close>: the size of the buffer, or \<open>None\<close> when there is none.\<close>

definition print_all_start :: "printk \<Rightarrow> log_pos" where
  "print_all_start s =
     (if clear_seq s < log_first_seq s then \<lparr>p_seq = log_first_seq s, p_idx = log_first_idx s, p_prev = 0\<rparr>
      else \<lparr>p_seq = clear_seq s, p_idx = clear_idx s, p_prev = 0\<rparr>)"

definition syslog_print_all :: "bool \<Rightarrow> nat option \<Rightarrow> bool \<Rightarrow> printk_env \<Rightarrow> printk \<Rightarrow> (int \<times> u8 list \<times> printk) option" where
  "syslog_print_all mem buf clear env s =
     (if \<not> mem then Some (- ENOMEM, [], s)
      else case buf of
        None \<Rightarrow> Some (0, [], if clear then clear_log s else s)
      | Some sz \<Rightarrow>
          Option.bind (syslog_print_oops_buf_all sz env s) (\<lambda>(olen, oout, env, s).
            if olen < 0 then Some (olen, oout, s)
            else Option.bind (log_lens s (print_all_start s) (log_next_seq s)) (\<lambda>n.
                 Option.bind (log_skip s (int sz - olen) (int n) (print_all_start s) (log_next_seq s)) (\<lambda>pos.
                 Option.bind (print_all_loop [] env (pos\<lparr>p_prev := 0\<rparr>) (log_next_seq s) s) (\<lambda>(len, out, s).
                   Some (if len > 0 then len + olen else len, oout @ out, if clear then clear_log s else s))))))"

text \<open>The number of characters that are to be read, \<open>SYSLOG_ACTION_SIZE_UNREAD\<close>.\<close>

definition syslog_size_unread :: "bool \<Rightarrow> printk \<Rightarrow> (int \<times> printk) option" where
  "syslog_size_unread from_file s =
     (let s = syslog_catch_up s
      in if from_file then Some (int (log_next_idx s) - int (p_idx (syslog_pos s)), s)
         else Option.bind (log_lens s (syslog_pos s) (log_next_seq s)) (\<lambda>n. Some (int n - int (syslog_partial s), s)))"

end
