(* ===== verification/PrintkDev.thy ===== *)
theory PrintkDev
  imports PrintkRead
begin

text \<open>
  The system call \<open>syslog\<close> (\<open>do_syslog\<close>), the device \<open>/dev/kmsg\<close> and the dumpers, of
  \<open>src/debugfs/android50/kernel/kernel/printk.c\<close>. What the rest of the kernel decides is an argument: the
  capabilities and the security module, the waits and the checks of user addresses.
\<close>

unbundle bit_operations_syntax

definition ESPIPE :: int where "ESPIPE = 29"
definition EPIPE :: int where "EPIPE = 32"
definition ERESTARTSYS :: int where "ERESTARTSYS = 512"

section \<open>Permissions\<close>

definition SYSLOG_ACTION_OPEN :: int where "SYSLOG_ACTION_OPEN = 1"
definition SYSLOG_ACTION_READ_ALL :: int where "SYSLOG_ACTION_READ_ALL = 3"
definition SYSLOG_ACTION_SIZE_BUFFER :: int where "SYSLOG_ACTION_SIZE_BUFFER = 10"

record printk_task =
  dmesg_restrict :: bool
  cap_syslog :: bool
  cap_sys_admin :: bool
  security_syslog :: "int \<Rightarrow> int"

definition syslog_action_restricted :: "printk_task \<Rightarrow> int \<Rightarrow> bool" where
  "syslog_action_restricted T type \<longleftrightarrow> dmesg_restrict T \<or> type \<noteq> SYSLOG_ACTION_READ_ALL \<and> type \<noteq> SYSLOG_ACTION_SIZE_BUFFER"

definition check_syslog_permissions :: "printk_task \<Rightarrow> int \<Rightarrow> bool \<Rightarrow> int" where
  "check_syslog_permissions T type from_file =
     (if from_file \<and> type \<noteq> SYSLOG_ACTION_OPEN then 0
      else if syslog_action_restricted T type then
        (if cap_syslog T then 0 else if cap_sys_admin T then 0 else - EPERM)
      else security_syslog T type)"

section \<open>The system call\<close>

record console_level =
  console_loglevel :: int
  minimum_console_loglevel :: int
  saved_console_loglevel :: int

text \<open>
  \<open>buf\<close>: there is a buffer, \<open>access\<close>: \<open>access_ok\<close>, \<open>wait\<close>: the value of \<open>wait_event_interruptible\<close> and
  what others did to the log meanwhile, \<open>mem\<close> and \<open>env\<close> as for \<open>syslog_print\<close>.
\<close>

record syslog_call =
  y_buf :: bool
  y_access :: bool
  y_wait :: "int \<times> (printk \<Rightarrow> printk)"
  y_mem :: bool
  y_env :: printk_env

definition syslog_read :: "syslog_call \<Rightarrow> int \<Rightarrow> printk \<Rightarrow> (int \<times> u8 list \<times> printk) option" where
  "syslog_read Y len s =
     (if \<not> y_buf Y \<or> len < 0 then Some (- EINVAL, [], s)
      else if len = 0 then Some (0, [], s)
      else if \<not> y_access Y then Some (- EFAULT, [], s)
      else let (e, others) = (if p_seq (syslog_pos s) \<noteq> log_next_seq s then (0, \<lambda>s. s) else y_wait Y)
           in if e \<noteq> 0 then Some (e, [], others s) else syslog_print (y_mem Y) (nat len) (y_env Y) (others s))"

definition syslog_read_all :: "syslog_call \<Rightarrow> int \<Rightarrow> bool \<Rightarrow> printk \<Rightarrow> (int \<times> u8 list \<times> printk) option" where
  "syslog_read_all Y len clear s =
     (if \<not> y_buf Y \<or> len < 0 then Some (- EINVAL, [], s)
      else if len = 0 then Some (0, [], s)
      else if \<not> y_access Y then Some (- EFAULT, [], s)
      else syslog_print_all (y_mem Y) (Some (nat len)) clear (y_env Y) s)"

definition do_syslog :: "printk_task \<Rightarrow> syslog_call \<Rightarrow> int \<Rightarrow> int \<Rightarrow> bool \<Rightarrow> console_level \<Rightarrow> printk \<Rightarrow>
    (int \<times> u8 list \<times> console_level \<times> printk) option" where
  "do_syslog T Y type len from_file L s =
     (let e = check_syslog_permissions T type from_file; keep = map_option (\<lambda>(r, out, s). (r, out, L, s))
      in if e \<noteq> 0 then Some (e, [], L, s)
         else if security_syslog T type \<noteq> 0 then Some (security_syslog T type, [], L, s)
         else if type = 0 \<or> type = 1 then Some (0, [], L, s)
         else if type = 2 then keep (syslog_read Y len s)
         else if type = 4 then keep (syslog_read_all Y len True s)
         else if type = 3 then keep (syslog_read_all Y len False s)
         else if type = 5 then map_option (\<lambda>(r, out, s). (0, [], L, s)) (syslog_print_all (y_mem Y) None True [] s)
         else if type = 6 then
           Some (0, [], L\<lparr>saved_console_loglevel := (if saved_console_loglevel L = - 1 then console_loglevel L else saved_console_loglevel L),
                          console_loglevel := minimum_console_loglevel L\<rparr>, s)
         else if type = 7 then
           Some (0, [], if saved_console_loglevel L \<noteq> - 1 then L\<lparr>console_loglevel := saved_console_loglevel L, saved_console_loglevel := - 1\<rparr> else L, s)
         else if type = 8 then
           (if len < 1 \<or> len > 8 then Some (- EINVAL, [], L, s)
            else Some (0, [], L\<lparr>console_loglevel := max len (minimum_console_loglevel L), saved_console_loglevel := - 1\<rparr>, s))
         else if type = 9 then map_option (\<lambda>(r, s). (r, [], L, s)) (syslog_size_unread from_file s)
         else if type = 10 then Some (int (log_buf_len s) + (if config_oops s then int (length (log_oops_buf s)) else 0), [], L, s)
         else Some (- EINVAL, [], L, s))"

section \<open>The device\<close>

definition devkmsg_seq_passed :: "log_pos \<Rightarrow> printk \<Rightarrow> bool" where
  "devkmsg_seq_passed u s \<longleftrightarrow>
     (if config_oops s then
        (log_oops_first_seq s = ULLONG_MAX \<and> p_seq u < log_first_seq s) \<or>
        (log_oops_first_seq s \<noteq> ULLONG_MAX \<and> p_seq u < log_oops_first_seq s)
      else p_seq u < log_first_seq s)"

text \<open>Where the next record is read: the position and whether it is one of the log buffer.\<close>

definition devkmsg_place :: "log_pos \<Rightarrow> printk \<Rightarrow> log_pos \<times> bool" where
  "devkmsg_place u s =
     (if config_oops s \<and> log_oops_first_seq s \<noteq> ULLONG_MAX then
        if p_seq u \<le> log_oops_first_seq s then (u\<lparr>p_idx := 0\<rparr>, False)
        else if p_seq u < log_oops_last_seq s then (u, False)
        else if p_seq u < log_first_seq s then (u\<lparr>p_idx := log_first_idx s, p_seq := log_first_seq s\<rparr>, True)
        else (u, True)
      else (u, True))"

definition escape :: "u8 \<Rightarrow> u8 list" where
  "escape c = (if c < 32 \<or> c \<ge> 127 \<or> c = 0x5C then [0x5C, 0x78] @ hex2 c else [c])"

text \<open>The dictionary: \<open>line\<close>, a new line begins.\<close>

fun dict_text :: "bool \<Rightarrow> u8 list \<Rightarrow> u8 list" where
  "dict_text line [] = []"
| "dict_text line (c # cs) =
     (if line then [0x20] else []) @ (if c = 0 then nl # dict_text True cs else escape c @ dict_text False cs)"

definition devkmsg_cont :: "log_flags \<Rightarrow> log_flags \<Rightarrow> u8 list" where
  "devkmsg_cont prev flags =
     (if has_flag flags LOG_CONT \<and> \<not> has_flag prev LOG_CONT then str ''c''
      else if has_flag flags LOG_CONT \<or> (has_flag prev LOG_CONT \<and> \<not> has_flag flags LOG_PREFIX) then str ''+''
      else str ''-'')"

definition devkmsg_text :: "nat \<Rightarrow> log_flags \<Rightarrow> log_msg \<Rightarrow> u8 list" where
  "devkmsg_text sq prev m =
     dec (syslog_prefix m) @ str '','' @ dec sq @ str '','' @ dec (unat (ts_nsec m) div 1000) @ str '','' @
     devkmsg_cont prev (m_flags m) @ str '';'' @ concat (map escape (m_text m)) @ [nl] @
     (if m_dict m \<noteq> [] then dict_text True (m_dict m) @ [nl] else [])"

text \<open>
  The part of \<open>devkmsg_read\<close> under the lock, once there is a record: the error or the text, the new position.
\<close>

definition devkmsg_section :: "log_pos \<Rightarrow> printk \<Rightarrow> ((int + u8 list) \<times> log_pos) option" where
  "devkmsg_section u s =
     (if devkmsg_seq_passed u s then Some (Inl (- EPIPE), u\<lparr>p_idx := log_first_idx s, p_seq := log_first_seq s\<rparr>)
      else case devkmsg_place u s of (u, regular) \<Rightarrow>
        let buf = (if regular then log_buf s else log_oops_buf s)
        in Option.bind (log_get buf (p_idx u)) (\<lambda>m.
           Option.bind (log_next buf (p_idx u)) (\<lambda>idx.
             Some (Inr (devkmsg_text (p_seq u) (p_prev u) m), \<lparr>p_seq = seq_inc (p_seq u), p_idx = idx, p_prev = m_flags m\<rparr>))))"

text \<open>
  \<open>waits\<close>: what each \<open>wait_event_interruptible\<close> returns and what others do meanwhile; past its end a
  signal comes. \<open>copies\<close>: \<open>copy_to_user\<close> succeeds. The result has the bytes copied.
\<close>

fun devkmsg_read_locked :: "(int \<times> (printk \<Rightarrow> printk)) list \<Rightarrow> bool \<Rightarrow> bool \<Rightarrow> nat \<Rightarrow> log_pos \<Rightarrow> printk \<Rightarrow> (int \<times> u8 list \<times> log_pos \<times> printk) option" where
  "devkmsg_read_locked waits nonblock copies count u s =
     (if p_seq u = log_next_seq s then
        if nonblock then Some (- EAGAIN, [], u, s)
        else (case waits of
            [] \<Rightarrow> Some (- ERESTARTSYS, [], u, s)
          | (e, others) # waits \<Rightarrow>
              if e \<noteq> 0 then Some (e, [], u, others s) else devkmsg_read_locked waits nonblock copies count u (others s))
      else case devkmsg_section u s of
        None \<Rightarrow> None
      | Some (Inl e, u) \<Rightarrow> Some (e, [], u, s)
      | Some (Inr t, u) \<Rightarrow>
          if length t > count then Some (- EINVAL, [], u, s)
          else if \<not> copies then Some (- EFAULT, [], u, s)
          else Some (int (length t), t, u, s))"

declare devkmsg_read_locked.simps [simp del]

text \<open>\<open>None\<close> for the user: the file was opened for writing only. \<open>locked\<close>: what \<open>mutex_lock_interruptible\<close> returns.\<close>

definition devkmsg_read ::
    "int \<Rightarrow> (int \<times> (printk \<Rightarrow> printk)) list \<Rightarrow> bool \<Rightarrow> bool \<Rightarrow> nat \<Rightarrow> log_pos option \<Rightarrow> printk \<Rightarrow> (int \<times> u8 list \<times> log_pos option \<times> printk) option" where
  "devkmsg_read locked waits nonblock copies count user s =
     (case user of
        None \<Rightarrow> Some (- EBADF, [], None, s)
      | Some u \<Rightarrow>
          if locked \<noteq> 0 then Some (locked, [], user, s)
          else map_option (\<lambda>(r, out, u, s). (r, out, Some u, s)) (devkmsg_read_locked waits nonblock copies count u s))"

definition devkmsg_set_first :: "log_pos \<Rightarrow> printk \<Rightarrow> log_pos" where
  "devkmsg_set_first u s =
     (if config_oops s \<and> log_oops_first_seq s \<noteq> ULLONG_MAX then u\<lparr>p_idx := 0, p_seq := log_oops_first_seq s\<rparr>
      else u\<lparr>p_idx := log_first_idx s, p_seq := log_first_seq s\<rparr>)"

definition SEEK_SET :: int where "SEEK_SET = 0"
definition SEEK_END :: int where "SEEK_END = 2"
definition SEEK_DATA :: int where "SEEK_DATA = 3"

definition devkmsg_llseek :: "int \<Rightarrow> int \<Rightarrow> log_pos option \<Rightarrow> printk \<Rightarrow> int \<times> log_pos option" where
  "devkmsg_llseek offset whence user s =
     (case user of
        None \<Rightarrow> (- EBADF, None)
      | Some u \<Rightarrow>
          if offset \<noteq> 0 then (- ESPIPE, user)
          else if whence = SEEK_SET then (0, Some (devkmsg_set_first u s))
          else if whence = SEEK_DATA then (0, Some (u\<lparr>p_idx := clear_idx s, p_seq := clear_seq s\<rparr>))
          else if whence = SEEK_END then (0, Some (u\<lparr>p_idx := log_next_idx s, p_seq := log_next_seq s\<rparr>))
          else (- EINVAL, user))"

text \<open>The events of \<open>devkmsg_poll\<close>: readable, and an error because records are gone.\<close>

definition devkmsg_poll :: "log_pos option \<Rightarrow> printk \<Rightarrow> bool \<times> bool" where
  "devkmsg_poll user s =
     (case user of
        None \<Rightarrow> (False, True)
      | Some u \<Rightarrow> (p_seq u < log_next_seq s, p_seq u < log_next_seq s \<and> p_seq u < log_first_seq s))"

text \<open>\<open>fresh\<close>: what \<open>kmalloc\<close> leaves in the new structure, or \<open>None\<close>.\<close>

definition devkmsg_open :: "printk_task \<Rightarrow> bool \<Rightarrow> log_pos option \<Rightarrow> printk \<Rightarrow> int \<times> log_pos option" where
  "devkmsg_open T write_only fresh s =
     (let err = check_syslog_permissions T SYSLOG_ACTION_READ_ALL False
      in if write_only then (0, None)
         else if err \<noteq> 0 then (err, None)
         else case fresh of None \<Rightarrow> (- ENOMEM, None) | Some u \<Rightarrow> (0, Some (devkmsg_set_first u s)))"

section \<open>Dumpers\<close>

record kmsg_dumper =
  d_active :: bool
  d_registered :: bool
  cur_seq :: nat
  cur_idx :: nat
  d_next_seq :: nat
  d_next_idx :: nat

definition dumper_catch_up :: "printk \<Rightarrow> kmsg_dumper \<Rightarrow> kmsg_dumper" where
  "dumper_catch_up s d = (if cur_seq d < log_first_seq s then d\<lparr>cur_seq := log_first_seq s, cur_idx := log_first_idx s\<rparr> else d)"

definition kmsg_dump_rewind :: "printk \<Rightarrow> kmsg_dumper \<Rightarrow> kmsg_dumper" where
  "kmsg_dump_rewind s d = d\<lparr>cur_seq := clear_seq s, cur_idx := clear_idx s, d_next_seq := log_next_seq s, d_next_idx := log_next_idx s\<rparr>"

text \<open>The result: whether there is a line, and the line.\<close>

definition kmsg_dump_get_line :: "printk \<Rightarrow> bool \<Rightarrow> nat \<Rightarrow> kmsg_dumper \<Rightarrow> (bool \<times> u8 list \<times> kmsg_dumper) option" where
  "kmsg_dump_get_line s syslog sz d =
     (if \<not> d_active d then Some (False, [], d)
      else let d = dumper_catch_up s d
           in if cur_seq d \<ge> log_next_seq s then Some (False, [], d)
              else Option.bind (log_get (log_buf s) (cur_idx d)) (\<lambda>m.
                   Option.bind (log_next (log_buf s) (cur_idx d)) (\<lambda>idx.
                     Some (True, msg_print_text (printk_time s) m 0 syslog sz, d\<lparr>cur_idx := idx, cur_seq := seq_inc (cur_seq d)\<rparr>))))"

text \<open>The third loop of \<open>kmsg_dump_get_buffer\<close>: the records up to \<open>next\<close> into the buffer.\<close>

function dump_texts :: "printk \<Rightarrow> bool \<Rightarrow> nat \<Rightarrow> u8 list \<Rightarrow> log_pos \<Rightarrow> nat \<Rightarrow> u8 list option" where
  "dump_texts s syslog sz out pos next =
     (if p_seq pos < next then
        Option.bind (log_get (log_buf s) (p_idx pos)) (\<lambda>m.
        Option.bind (log_next (log_buf s) (p_idx pos)) (\<lambda>idx.
          dump_texts s syslog sz (out @ msg_print_text (printk_time s) m (p_prev pos) syslog (sz - length out))
            \<lparr>p_seq = p_seq pos + 1, p_idx = idx, p_prev = m_flags m\<rparr> next))
      else Some out)"
  by pat_completeness auto
termination by (relation "measure (\<lambda>(s, syslog, sz, out, pos, next). next - p_seq pos)") auto

declare dump_texts.simps [simp del]

definition kmsg_dump_get_buffer :: "printk \<Rightarrow> bool \<Rightarrow> nat \<Rightarrow> kmsg_dumper \<Rightarrow> (bool \<times> u8 list \<times> kmsg_dumper) option" where
  "kmsg_dump_get_buffer s syslog sz d =
     (if \<not> d_active d then Some (False, [], d)
      else let d = dumper_catch_up s d; pos = \<lparr>p_seq = cur_seq d, p_idx = cur_idx d, p_prev = 0\<rparr>
           in if cur_seq d \<ge> d_next_seq d then Some (False, [], d)
              else Option.bind (log_lens s pos (d_next_seq d)) (\<lambda>n.
                   Option.bind (log_skip s (int sz) (int n) pos (d_next_seq d)) (\<lambda>pos.
                   Option.bind (dump_texts s syslog sz [] (pos\<lparr>p_prev := 0\<rparr>) (d_next_seq d)) (\<lambda>out.
                     Some (True, out, d\<lparr>d_next_seq := p_seq pos, d_next_idx := p_idx pos\<rparr>)))))"

text \<open>The list of dumpers holds their numbers.\<close>

definition kmsg_dump_register :: "bool \<Rightarrow> nat \<Rightarrow> kmsg_dumper \<Rightarrow> nat list \<Rightarrow> int \<times> kmsg_dumper \<times> nat list" where
  "kmsg_dump_register has_dump i d ds =
     (if \<not> has_dump then (- EINVAL, d, ds)
      else if \<not> d_registered d then (0, d\<lparr>d_registered := True\<rparr>, ds @ [i])
      else (- EBUSY, d, ds))"

definition kmsg_dump_unregister :: "nat \<Rightarrow> kmsg_dumper \<Rightarrow> nat list \<Rightarrow> int \<times> kmsg_dumper \<times> nat list" where
  "kmsg_dump_unregister i d ds =
     (if d_registered d then (0, d\<lparr>d_registered := False\<rparr>, remove1 i ds) else (- EINVAL, d, ds))"

text \<open>
  \<open>kmsg_dump\<close> calls the \<open>dump\<close> function of each dumper on its list whose \<open>max_reason\<close> allows the reason.
  What a function does to its dumper is an argument, as is \<open>oops\<close>, the number of the reason \<open>KMSG_DUMP_OOPS\<close>.
\<close>

fun kmsg_dump_list :: "nat \<Rightarrow> printk \<Rightarrow> (nat \<times> (nat \<Rightarrow> kmsg_dumper \<Rightarrow> kmsg_dumper) \<times> kmsg_dumper) list \<Rightarrow>
    (nat \<times> (nat \<Rightarrow> kmsg_dumper \<Rightarrow> kmsg_dumper) \<times> kmsg_dumper) list" where
  "kmsg_dump_list reason s [] = []"
| "kmsg_dump_list reason s ((max_reason, dump, d) # ds) =
     (max_reason, dump,
      if max_reason \<noteq> 0 \<and> reason > max_reason then d
      else (dump reason (kmsg_dump_rewind s (d\<lparr>d_active := True\<rparr>)))\<lparr>d_active := False\<rparr>) # kmsg_dump_list reason s ds"

definition kmsg_dump :: "nat \<Rightarrow> bool \<Rightarrow> nat \<Rightarrow> printk \<Rightarrow> (nat \<times> (nat \<Rightarrow> kmsg_dumper \<Rightarrow> kmsg_dumper) \<times> kmsg_dumper) list \<Rightarrow>
    (nat \<times> (nat \<Rightarrow> kmsg_dumper \<Rightarrow> kmsg_dumper) \<times> kmsg_dumper) list" where
  "kmsg_dump oops always_kmsg_dump reason s ds =
     (if reason > oops \<and> \<not> always_kmsg_dump then ds else kmsg_dump_list reason s ds)"

end
