(* ===== verification/PrintkEmit.thy ===== *)
theory PrintkEmit
  imports PrintkDev
begin

text \<open>
  Emitting a message and writing it to the consoles, of \<open>src/debugfs/android50/kernel/kernel/printk.c\<close>: the
  line under construction (\<open>cont_flush\<close>, \<open>cont_add\<close>, \<open>cont_print_text\<close>), \<open>vprintk_emit\<close>, \<open>devkmsg_writev\<close>
  and \<open>console_unlock\<close>. The clock stands still during one call. \<open>printk_get_level\<close> and
  \<open>printk_skip_level\<close> of the kernel headers are one argument \<open>hdr\<close>: the level character of a text, 0 for
  none, and the length of its header.
\<close>

unbundle bit_operations_syntax

section \<open>The line under construction\<close>

definition cont_flush :: "u64 \<Rightarrow> log_flags \<Rightarrow> printk \<Rightarrow> printk option" where
  "cont_flush clock flags s =
     (let c = cont s
      in if c_flushed c then Some s
         else if c_buf c = [] then Some s
         else if c_cons c \<noteq> 0 then
           map_option (\<lambda>s. s\<lparr>cont := (cont s)\<lparr>c_flags := flags, c_flushed := True\<rparr>\<rparr>)
             (log_store clock (c_facility c) (unat (c_level c)) (flags OR LOG_NOCONS) (c_ts_nsec c) [] (c_buf c) s)
         else
           map_option (\<lambda>s. s\<lparr>cont := (cont s)\<lparr>c_buf := []\<rparr>\<rparr>)
             (log_store clock (c_facility c) (unat (c_level c)) flags 0 [] (c_buf c) s))"

definition cont_add :: "u64 \<Rightarrow> nat \<Rightarrow> u8 \<Rightarrow> nat \<Rightarrow> u8 list \<Rightarrow> printk \<Rightarrow> (bool \<times> printk) option" where
  "cont_add clock current facility level txt s =
     (let c = cont s
      in if c_buf c \<noteq> [] \<and> c_flushed c then Some (False, s)
         else if length (c_buf c) + length txt > LOG_LINE_MAX then map_option (\<lambda>s. (False, s)) (cont_flush clock LOG_CONT s)
         else let c = (if c_buf c = [] then c\<lparr>c_facility := facility, c_level := word_of_nat level, c_owner := current,
                         c_ts_nsec := clock, c_flags := 0, c_cons := 0, c_flushed := False\<rparr> else c);
                  c = c\<lparr>c_buf := c_buf c @ txt\<rparr>; s = s\<lparr>cont := c\<rparr>
              in if length (c_buf c) > LOG_LINE_MAX * 80 div 100 then map_option (\<lambda>s. (True, s)) (cont_flush clock LOG_CONT s)
                 else Some (True, s))"

section \<open>Emitting\<close>

definition KERN_digit :: "u8 \<Rightarrow> bool" where
  "KERN_digit k \<longleftrightarrow> 0x30 \<le> k \<and> k \<le> 0x37"

text \<open>The header of a kernel message: the level, the flags and the text that is left.\<close>

definition strip_header :: "(u8 list \<Rightarrow> u8 \<times> nat) \<Rightarrow> nat \<Rightarrow> int \<Rightarrow> log_flags \<Rightarrow> u8 list \<Rightarrow> int \<times> log_flags \<times> u8 list" where
  "strip_header hdr facility level lflags txt =
     (if facility = 0 then
        case hdr txt of (k, n) \<Rightarrow>
          if k \<noteq> 0 then
            (if KERN_digit k \<and> level = - 1 then int (unat k) - 48 else level,
             if KERN_digit k \<or> k = 0x64 then lflags OR LOG_PREFIX else lflags, drop n txt)
          else (level, lflags, txt)
      else (level, lflags, txt))"

definition recursion_msg :: "u8 list" where
  "recursion_msg = str ''BUG: recent printk recursion!''"

text \<open>
  The part that stores the line. A line without a newline is kept in \<open>cont\<close> when it can be; one with a
  newline ends the line of the same task.
\<close>

definition store_line :: "u64 \<Rightarrow> nat \<Rightarrow> nat \<Rightarrow> int \<Rightarrow> log_flags \<Rightarrow> u8 list option \<Rightarrow> u8 list \<Rightarrow> printk \<Rightarrow> printk option" where
  "store_line clock current facility level lflags dict txt s =
     (let fac = word_of_nat facility; d = (case dict of None \<Rightarrow> [] | Some d \<Rightarrow> d)
      in if \<not> has_flag lflags LOG_NEWLINE then
           Option.bind
             (if c_buf (cont s) \<noteq> [] \<and> (has_flag lflags LOG_PREFIX \<or> c_owner (cont s) \<noteq> current)
              then cont_flush clock LOG_NEWLINE s else Some s) (\<lambda>s.
           Option.bind (cont_add clock current fac (nat level) txt s) (\<lambda>(added, s).
             if added then Some s else log_store clock fac (nat level) (lflags OR LOG_CONT) 0 d txt s))
         else
           Option.bind
             (if c_buf (cont s) \<noteq> [] \<and> c_owner (cont s) = current then
                Option.bind (if has_flag lflags LOG_PREFIX then Some (False, s) else cont_add clock current fac (nat level) txt s) (\<lambda>(stored, s).
                  map_option (\<lambda>s. (stored, s)) (cont_flush clock LOG_NEWLINE s))
              else Some (False, s)) (\<lambda>(stored, s).
             if stored then Some s else log_store clock fac (nat level) lflags 0 d txt s))"

text \<open>
  \<open>vprintk_emit\<close> up to the consoles. \<open>recursing\<close>: this cpu is in \<open>printk\<close> already; \<open>oops\<close>: a crash is in
  progress; \<open>formatted\<close>: what the format and its arguments give, of which the buffer takes all but the
  last of its bytes. The result is the length that is returned.
\<close>

record emit_call =
  e_clock :: u64
  e_current :: nat
  e_recursing :: bool
  e_oops :: bool

definition vprintk_emit ::
    "(u8 list \<Rightarrow> u8 \<times> nat) \<Rightarrow> emit_call \<Rightarrow> nat \<Rightarrow> int \<Rightarrow> u8 list option \<Rightarrow> u8 list \<Rightarrow> printk \<Rightarrow> (nat \<times> printk) option" where
  "vprintk_emit hdr E facility level dict formatted s =
     (if e_recursing E \<and> \<not> e_oops E then Some (0, s\<lparr>recursion_bug := True\<rparr>)
      else Option.bind
        (if recursion_bug s then
           map_option (\<lambda>s. (length recursion_msg, s))
             (log_store (e_clock E) 0 2 (LOG_PREFIX OR LOG_NEWLINE) 0 [] recursion_msg (s\<lparr>recursion_bug := False\<rparr>))
         else Some (0, s)) (\<lambda>(printed, s).
        let txt = take (LOG_LINE_MAX - 1) formatted;
            newline = (txt \<noteq> [] \<and> last txt = nl);
            txt = (if newline then butlast txt else txt);
            lflags = (if newline then LOG_NEWLINE else 0)
        in case strip_header hdr facility level lflags txt of (level, lflags, txt) \<Rightarrow>
          let level = (if level = - 1 then int (default_message_loglevel s) else level);
              lflags = (if dict \<noteq> None then lflags OR LOG_PREFIX OR LOG_NEWLINE else lflags)
          in map_option (\<lambda>s. (printed + length txt, s)) (store_line (e_clock E) (e_current E) facility level lflags dict txt s)))"

text \<open>
  \<open>devkmsg_writev\<close>: a message from user space, with an optional prefix \<open><n>\<close>. \<open>data\<close> is what the vectors
  hold, \<open>None\<close> when a copy fails; \<open>read_num\<close> stands for \<open>simple_strtoul\<close> in base 10: the number and the
  length of its digits.
\<close>

definition devkmsg_line :: "(u8 list \<Rightarrow> nat \<times> nat) \<Rightarrow> nat \<Rightarrow> u8 list \<Rightarrow> nat \<times> nat \<times> u8 list" where
  "devkmsg_line read_num deflevel line =
     (case line of
        c # rest \<Rightarrow>
          if c = 0x3C then
            (case read_num rest of (n, digits) \<Rightarrow>
               if digits < length rest \<and> rest ! digits = 0x3E then
                 (let i = n mod 2 ^ 32 in (if i div 8 \<noteq> 0 then i div 8 else 1, i mod 8, drop (digits + 1) rest))
               else (1, deflevel, line))
          else (1, deflevel, line)
      | [] \<Rightarrow> (1, deflevel, line))"

definition devkmsg_writev ::
    "(u8 list \<Rightarrow> u8 \<times> nat) \<Rightarrow> (u8 list \<Rightarrow> nat \<times> nat) \<Rightarrow> emit_call \<Rightarrow> bool \<Rightarrow> nat \<Rightarrow> u8 list option \<Rightarrow> printk \<Rightarrow> (int \<times> printk) option" where
  "devkmsg_writev hdr read_num E mem len data s =
     (if len > LOG_LINE_MAX then Some (- EINVAL, s)
      else if \<not> mem then Some (- ENOMEM, s)
      else case data of
        None \<Rightarrow> Some (- EFAULT, s)
      | Some bytes \<Rightarrow>
          case devkmsg_line read_num (default_message_loglevel s) bytes of (facility, level, line) \<Rightarrow>
            map_option (\<lambda>(n, s). (int len, s)) (vprintk_emit hdr E facility (int level) None (takeWhile (\<lambda>c. c \<noteq> 0) line) s))"

section \<open>The consoles\<close>

text \<open>\<open>cont_print_text\<close>: what of the line under construction goes to the console.\<close>

definition cont_print_text :: "nat \<Rightarrow> printk \<Rightarrow> u8 list \<times> printk" where
  "cont_print_text sz s =
     (let c = cont s;
          pre = (if c_cons c = 0 \<and> has_flag (p_prev (console_pos s)) LOG_NEWLINE then print_time (printk_time s) (c_ts_nsec c) else []);
          sz = sz - length pre;
          len = length (c_buf c) - c_cons c;
          part = (if len > 0 then take (if len + 1 > sz then sz - 1 else len) (drop (c_cons c) (c_buf c)) else []);
          c' = (if len > 0 then c\<lparr>c_cons := length (c_buf c)\<rparr> else c);
          fin = (if c_flushed c \<and> has_flag (c_flags c) LOG_NEWLINE then [nl] else []);
          c'' = (if c_flushed c then c'\<lparr>c_buf := []\<rparr> else c')
      in (pre @ part @ fin, s\<lparr>cont := c''\<rparr>))"

definition console_cont_flush :: "printk \<Rightarrow> (nat \<times> u8 list) option \<times> printk" where
  "console_cont_flush s =
     (if c_buf (cont s) = [] then (None, s)
      else if p_seq (console_pos s) < log_next_seq s \<and> c_cons (cont s) = 0 then (None, s)
      else case cont_print_text (LOG_LINE_MAX + PREFIX_MAX) s of (t, s') \<Rightarrow> (Some (unat (c_level (cont s)), t), s'))"

definition console_catch_up :: "printk \<Rightarrow> printk" where
  "console_catch_up s =
     (if p_seq (console_pos s) < log_first_seq s
      then s\<lparr>console_pos := \<lparr>p_seq = log_first_seq s, p_idx = log_first_idx s, p_prev = 0\<rparr>\<rparr> else s)"

text \<open>
  The part of a turn of \<open>console_unlock\<close> under the lock: records that have been printed are passed over,
  and lose the mark that says so; the next one is the result.
\<close>

partial_function (option) console_skip :: "printk \<Rightarrow> ((nat \<times> u8 list) option \<times> printk) option" where
  "console_skip s =
     (let pos = console_pos s
      in if p_seq pos = log_next_seq s then Some (None, s)
         else Option.bind (log_from_idx (log_buf s) (p_idx pos)) (\<lambda>k.
              Option.bind (msg_at (log_buf s) k) (\<lambda>m.
              Option.bind (log_next (log_buf s) (p_idx pos)) (\<lambda>idx.
                if has_flag (m_flags m) LOG_NOCONS then
                  console_skip (s\<lparr>log_buf := (log_buf s)[k + 15 := log_buf s ! (k + 15) AND NOT 1],
                    console_pos := \<lparr>p_seq = seq_inc (p_seq pos), p_idx = idx, p_prev = m_flags m AND NOT LOG_NOCONS\<rparr>\<rparr>)
                else Some (Some (unat (m_level m), msg_print_text (printk_time s) m (p_prev pos) False (LOG_LINE_MAX + PREFIX_MAX)),
                  s\<lparr>console_pos := \<lparr>p_seq = seq_inc (p_seq pos), p_idx = idx, p_prev = m_flags m\<rparr>\<rparr>)))))"

definition console_section :: "printk \<Rightarrow> ((nat \<times> u8 list) option \<times> printk) option" where
  "console_section s = console_skip (console_catch_up s)"

text \<open>
  The loop of \<open>console_unlock\<close>, with the output so far: one pair of level and text for each call of the
  drivers. \<open>others\<close> lists what is done to the log while the drivers write. It goes on as long as there
  are records, and past the end of \<open>others\<close> none come.
\<close>

partial_function (option) console_loop :: "(printk \<Rightarrow> printk) list \<Rightarrow> printk \<Rightarrow> ((nat \<times> u8 list) list \<times> printk) option" where
  "console_loop others s =
     Option.bind (console_section s) (\<lambda>(out, s).
       case out of
         None \<Rightarrow> Some ([], s)
       | Some t \<Rightarrow>
           Option.bind (console_loop (tl others) (if others = [] then s else hd others s)) (\<lambda>(ts, s). Some (t # ts, s)))"

text \<open>
  Between the release of the semaphore and the last look at the log others may act: \<open>again\<close> lists what
  they do, whether the semaphore is free then, and the actions during the loop that follows.
\<close>

fun console_again :: "((printk \<Rightarrow> printk) \<times> bool \<times> (printk \<Rightarrow> printk) list) list \<Rightarrow> printk \<Rightarrow> ((nat \<times> u8 list) list \<times> printk) option" where
  "console_again [] s = Some ([], s)"
| "console_again ((meanwhile, trylock, others) # again) s =
     (let s = meanwhile s
      in if p_seq (console_pos s) \<noteq> log_next_seq s \<and> trylock then
           Option.bind (console_loop others s) (\<lambda>(ts, s).
           Option.bind (console_again again s) (\<lambda>(us, s). Some (ts @ us, s)))
         else Some ([], s))"

definition console_unlock ::
    "(printk \<Rightarrow> printk) list \<Rightarrow> ((printk \<Rightarrow> printk) \<times> bool \<times> (printk \<Rightarrow> printk) list) list \<Rightarrow> bool \<Rightarrow> printk \<Rightarrow>
     ((nat \<times> u8 list) list \<times> printk) option" where
  "console_unlock others again suspended s =
     (if suspended then Some ([], s)
      else case console_cont_flush s of (first, s) \<Rightarrow>
        Option.bind (console_loop others s) (\<lambda>(ts, s).
        Option.bind (console_again again s) (\<lambda>(us, s).
          Some ((case first of None \<Rightarrow> ts | Some t \<Rightarrow> t # ts) @ us, s))))"

end
