(* ===== verification/RecordLog.thy ===== *)
theory RecordLog
  imports Prelude
begin

text \<open>
  The interface between a log of records and its readers. A state holds a list of records, numbered from
  \<open>start s\<close> on; a cursor is a number with an index into the log. Who is at a record's number with the
  right index gets this record and the index of the next one.
\<close>

locale record_log =
  fixes holds :: "'s \<Rightarrow> 'm list \<Rightarrow> bool" and start :: "'s \<Rightarrow> nat" and at :: "'s \<Rightarrow> nat \<Rightarrow> nat \<Rightarrow> bool"
    and get :: "'s \<Rightarrow> nat \<Rightarrow> 'm option" and nxt :: "'s \<Rightarrow> nat \<Rightarrow> nat option"
  assumes step: "holds s rs \<Longrightarrow> at s q i \<Longrightarrow> start s \<le> q \<Longrightarrow> q < start s + length rs \<Longrightarrow>
      get s i = Some (rs ! (q - start s)) \<and> (\<exists>j. nxt s i = Some j \<and> at s (Suc q) j)"
begin

text \<open>One step of a reader, with the records that are left as a list.\<close>

lemma next_record:
  assumes h: "holds s rs" and a: "at s q i" and q: "start s \<le> q" and left: "drop (q - start s) rs = m # ms"
  shows "get s i = Some m \<and> (\<exists>j. nxt s i = Some j \<and> at s (Suc q) j) \<and> drop (Suc q - start s) rs = ms"
proof -
  have lt: "q - start s < length rs" using left by (metis drop_all list.distinct(1) not_less)
  then have "rs ! (q - start s) = m" "drop (Suc (q - start s)) rs = ms"
    using left by (simp_all add: Cons_nth_drop_Suc [symmetric])
  with step [OF h a q] lt q show ?thesis by (simp add: Suc_diff_le)
qed

text \<open>Reading on gives the records in order.\<close>

fun read_on :: "nat \<Rightarrow> 's \<Rightarrow> nat \<Rightarrow> 'm list option" where
  "read_on 0 s i = Some []"
| "read_on (Suc n) s i = Option.bind (get s i) (\<lambda>m. Option.bind (nxt s i) (\<lambda>j. Option.bind (read_on n s j) (\<lambda>ms. Some (m # ms))))"

lemma read_on_records:
  "holds s rs \<Longrightarrow> at s q i \<Longrightarrow> start s \<le> q \<Longrightarrow> q + n \<le> start s + length rs \<Longrightarrow> read_on n s i = Some (take n (drop (q - start s) rs))"
proof (induction n arbitrary: q i)
  case (Suc n)
  then obtain m ms where left: "drop (q - start s) rs = m # ms" by (cases "drop (q - start s) rs") auto
  obtain j where "get s i = Some m" "nxt s i = Some j" "at s (Suc q) j" "drop (Suc q - start s) rs = ms"
    using next_record [OF Suc.prems(1-3) left] by blast
  moreover from this have "read_on n s j = Some (take n ms)" using Suc.IH [of "Suc q" j] Suc.prems by simp
  ultimately show ?case by (simp add: left)
qed simp

end

end
