(* ===== verification/PrintkRing.thy ===== *)
theory PrintkRing
  imports PrintkBuf RecordLog
begin

text \<open>
  The ring of records as a list. \<open>klog s rs\<close> says that the buffer holds exactly the records \<open>rs\<close>;
  \<open>reader_ok s seq idx\<close> says that a reader with these two numbers is at the record of its number, or that
  the record is gone. \<open>log_store\<close> adds a record to the list, drops old ones from its front, and keeps
  every reader right.
\<close>

unbundle bit_operations_syntax

section \<open>Bytes\<close>

lemma length_le_bytes [simp]: "length (le_bytes k n) = k"
  by (induction k arbitrary: n) auto

lemma le_nat_le_bytes [simp]: "le_nat (le_bytes k n) = n mod 256 ^ k"
proof (induction k arbitrary: n)
  case (Suc k)
  have "n mod 256 ^ Suc k = n mod 256 + 256 * (n div 256 mod 256 ^ k)"
    by (simp add: mod_mult2_eq)
  with Suc show ?case by (simp add: unat_of_nat)
qed simp

lemma length_put_hdr [simp]: "length (put_hdr m) = sizeof_log"
  by (simp add: put_hdr_def sizeof_log_def)

lemma flags_byte [simp]:
  "ucast (ucast (f :: 5 word) OR push_bit 5 (ucast (l :: 3 word)) :: u8) = f"
  "ucast (drop_bit 5 (ucast (f :: 5 word) OR push_bit 5 (ucast (l :: 3 word)) :: u8)) = l"
  "ucast (drop_bit 5 (ucast (f :: 5 word)) OR drop_bit 5 (push_bit 5 (ucast (l :: 3 word))) :: u8) = l"
  by (rule bit_word_eqI, auto simp: bit_simps dest: bit_imp_le_length)+

definition rec_size :: "log_msg \<Rightarrow> nat" where
  "rec_size m = length (put_msg m)"

definition msg_ok :: "log_msg \<Rightarrow> bool" where
  "msg_ok m \<longleftrightarrow> unat (m_len m) = rec_size m \<and> length (m_text m) < 2 ^ 16 \<and> length (m_dict m) < 2 ^ 16"

lemma rec_size_eq: "rec_size m = (let n = sizeof_log + length (m_text m) + length (m_dict m) in n + pad_len n)"
  by (simp add: rec_size_def put_msg_def Let_def)

lemma rec_size_ge: "sizeof_log + length (m_text m) + length (m_dict m) \<le> rec_size m"
  by (simp add: rec_size_eq Let_def)

lemma rec_size_pos [simp]: "sizeof_log \<le> rec_size m" "rec_size m \<noteq> 0" "0 < rec_size m"
  using rec_size_ge [of m] by (auto simp: sizeof_log_def)

definition placed :: "u8 list \<Rightarrow> nat \<Rightarrow> log_msg \<Rightarrow> bool" where
  "placed b i m \<longleftrightarrow> i + rec_size m \<le> length b \<and> take (rec_size m) (drop i b) = put_msg m"

lemma placed_split: "placed b i m \<Longrightarrow> \<exists>xs ys. b = xs @ put_msg m @ ys \<and> length xs = i"
proof -
  assume p: "placed b i m"
  then have "b = take i b @ put_msg m @ drop (rec_size m) (drop i b)"
    by (metis append_take_drop_id placed_def)
  moreover from p have "length (take i b) = i" by (simp add: placed_def)
  ultimately show ?thesis by metis
qed

lemma placed_append [simp]: "placed (xs @ put_msg m @ ys) (length xs) m"
  by (simp add: placed_def rec_size_def)

lemma placed_len: "msg_ok m \<Longrightarrow> placed b i m \<Longrightarrow> msg_len b i = Some (rec_size m)"
proof -
  assume ok: "msg_ok m" and p: "placed b i m"
  from placed_split [OF p] obtain xs ys where b: "b = xs @ put_msg m @ ys" "length xs = i" by blast
  have "take 2 (drop 8 (put_msg m @ ys)) = le_bytes 2 (unat (m_len m))"
    by (simp add: put_msg_def put_hdr_def)
  then have "le_nat (take 2 (drop (i + 8) b)) = rec_size m"
    using ok unsigned_less [of "m_len m", where 'a = nat] b by (simp add: msg_ok_def)
  moreover have "i + sizeof_log \<le> length b" using p rec_size_pos (1) [of m] unfolding placed_def by linarith
  ultimately show ?thesis by (simp add: msg_len_def)
qed

lemma placed_msg: "msg_ok m \<Longrightarrow> placed b i m \<Longrightarrow> msg_at b i = Some m"
proof -
  assume ok: "msg_ok m" and p: "placed b i m"
  from placed_split [OF p] obtain xs ys where b: "b = xs @ put_msg m @ ys" "length xs = i" by blast
  define P where "P = put_msg m @ ys"
  have at: "drop (i + k) b = drop k (P)" "b ! (i + k) = (P) ! k" for k
    using b by (simp_all add: P_def nth_append)
  have d: "take 8 (P) = le_bytes 8 (unat (ts_nsec m))" "take 2 (drop 8 (P)) = le_bytes 2 (unat (m_len m))"
    "take 2 (drop 10 (P)) = le_bytes 2 (length (m_text m))" "take 2 (drop 12 (P)) = le_bytes 2 (length (m_dict m))"
    "(P) ! 14 = m_facility m" "(P) ! 15 = ucast (m_flags m) OR push_bit 5 (ucast (m_level m))"
    "take (length (m_text m)) (drop sizeof_log (P)) = m_text m"
    "take (length (m_dict m)) (drop (sizeof_log + length (m_text m)) (P)) = m_dict m"
    by (simp_all add: P_def put_msg_def put_hdr_def nth_append sizeof_log_def)
  have "rec_size m mod 65536 = unat (m_len m)"
    using unsigned_less [of "m_len m", where 'a = nat] ok by (simp add: msg_ok_def)
  then have u: "unat (ts_nsec m) mod 18446744073709551616 = unat (ts_nsec m)" "word_of_nat (rec_size m mod 65536) = m_len m"
    using unsigned_less [of "ts_nsec m", where 'a = nat] by simp_all
  have "i + sizeof_log + length (m_text m) + length (m_dict m) \<le> length b"
    using p rec_size_ge [of m] by (simp add: placed_def)
  then show ?thesis
    using ok at(1) [of 0] by (simp add: msg_at_def Let_def add.assoc at d u msg_ok_def)
qed

lemma buf_write_Some:
  "buf_write b i xs = Some b' \<Longrightarrow> length b' = length b \<and> i + length xs \<le> length b \<and> take (length xs) (drop i b') = xs \<and>
    (\<forall>a. a < i \<or> i + length xs \<le> a \<longrightarrow> b' ! a = b ! a)"
  by (auto simp: buf_write_def nth_append split: if_splits)

lemma slice_cong:
  assumes "length b' = length b" and "i + n \<le> length b" and "\<And>a. i \<le> a \<Longrightarrow> a < i + n \<Longrightarrow> b' ! a = b ! a"
  shows "take n (drop i b') = take n (drop i b)"
  by (rule nth_equalityI) (use assms in auto)

lemma placed_cong:
  "placed b i m \<Longrightarrow> length b' = length b \<Longrightarrow> (\<And>a. i \<le> a \<Longrightarrow> a < i + rec_size m \<Longrightarrow> b' ! a = b ! a) \<Longrightarrow> placed b' i m"
  using slice_cong [of b' b i "rec_size m"] by (auto simp: placed_def)

primrec rec_sum :: "log_msg list \<Rightarrow> nat" where
  "rec_sum [] = 0"
| "rec_sum (m # ms) = rec_size m + rec_sum ms"

lemma rec_sum_append [simp]: "rec_sum (xs @ ys) = rec_sum xs + rec_sum ys"
  by (induction xs) auto

primrec contig :: "u8 list \<Rightarrow> nat \<Rightarrow> log_msg list \<Rightarrow> bool" where
  "contig b i [] = True"
| "contig b i (m # ms) = (placed b i m \<and> contig b (i + rec_size m) ms)"

lemma contig_append [simp]: "contig b i (xs @ ys) \<longleftrightarrow> contig b i xs \<and> contig b (i + rec_sum xs) ys"
  by (induction xs arbitrary: i) (auto simp: add.assoc)

lemma contig_cong:
  "contig b i ms \<Longrightarrow> length b' = length b \<Longrightarrow> (\<And>a. i \<le> a \<Longrightarrow> a < i + rec_sum ms \<Longrightarrow> b' ! a = b ! a) \<Longrightarrow> contig b' i ms"
proof (induction ms arbitrary: i)
  case (Cons m ms)
  from Cons.prems have "placed b' i m" by (auto intro: placed_cong)
  moreover have "contig b' (i + rec_size m) ms" using Cons.prems by (intro Cons.IH) auto
  ultimately show ?case by simp
qed simp

fun nth_idx :: "u8 list \<Rightarrow> nat \<Rightarrow> nat \<Rightarrow> nat option" where
  "nth_idx b i 0 = Some i"
| "nth_idx b i (Suc k) = Option.bind (log_next b i) (\<lambda>j. nth_idx b j k)"

lemma nth_idx_Suc: "nth_idx b i (Suc k) = Option.bind (nth_idx b i k) (log_next b)"
  by (induction k arbitrary: i) (simp_all, metis bind_assoc)

lemma contig_step:
  "msg_ok m \<Longrightarrow> placed b i m \<Longrightarrow> log_next b i = Some (i + rec_size m) \<and> log_get b i = Some m"
  using placed_len placed_msg by (simp add: log_next_def log_get_def log_from_idx_def)

lemma contig_nth_idx:
  "contig b i ms \<Longrightarrow> \<forall>m\<in>set ms. msg_ok m \<Longrightarrow> k \<le> length ms \<Longrightarrow> nth_idx b i k = Some (i + rec_sum (take k ms))"
proof (induction ms arbitrary: i k)
  case (Cons m ms)
  show ?case
  proof (cases k)
    case (Suc l)
    with Cons.prems Cons.IH [of "i + rec_size m" l] contig_step [of m b i] show ?thesis by (simp add: add.assoc)
  qed simp
qed simp

definition marker :: "u8 list \<Rightarrow> nat \<Rightarrow> bool" where
  "marker b i \<longleftrightarrow> i + sizeof_log \<le> length b \<and> take sizeof_log (drop i b) = replicate sizeof_log 0"

lemma marker_len: "marker b i \<Longrightarrow> msg_len b i = Some 0"
proof -
  assume m: "marker b i"
  have "take 2 (drop (i + 8) b) = take 2 (drop 8 (take sizeof_log (drop i b)))"
    by (simp add: sizeof_log_def drop_take add.commute)
  also have "\<dots> = [0, 0]" using m by (simp add: marker_def sizeof_log_def numeral_2_eq_2 drop_take take_replicate)
  finally show ?thesis using m by (simp add: msg_len_def marker_def)
qed

definition layout :: "u8 list \<Rightarrow> nat \<Rightarrow> log_msg list \<Rightarrow> log_msg list \<Rightarrow> nat \<Rightarrow> bool" where
  "layout b i xs ys j \<longleftrightarrow> contig b i xs \<and>
     (if ys = [] then j = i + rec_sum xs
      else marker b (i + rec_sum xs) \<and> contig b 0 ys \<and> j = rec_sum ys \<and> j \<le> i)"

definition idx_at :: "nat \<Rightarrow> log_msg list \<Rightarrow> log_msg list \<Rightarrow> nat \<Rightarrow> nat" where
  "idx_at i xs ys k = (if k \<le> length xs then i + rec_sum (take k xs) else rec_sum (take (k - length xs) ys))"

lemma layout_step:
  assumes l: "layout b i xs ys j" and ok: "\<forall>m\<in>set (xs @ ys). msg_ok m" and k: "k < length (xs @ ys)"
  shows "log_next b (idx_at i xs ys k) = Some (idx_at i xs ys (Suc k)) \<and> log_get b (idx_at i xs ys k) = Some ((xs @ ys) ! k)"
proof -
  have step: "log_next b (i + rec_sum (take k ms)) = Some (i + rec_sum (take (Suc k) ms)) \<and> log_get b (i + rec_sum (take k ms)) = Some (ms ! k)"
    if c: "contig b i ms" and o: "\<forall>m\<in>set ms. msg_ok m" and k: "k < length ms" for i ms k
  proof -
    have ms: "ms = take k ms @ ms ! k # drop (Suc k) ms" using k by (simp add: id_take_nth_drop)
    with c have "placed b (i + rec_sum (take k ms)) (ms ! k)" by (metis contig.simps(2) contig_append)
    moreover have "msg_ok (ms ! k)" using o k by simp
    ultimately have "log_next b (i + rec_sum (take k ms)) = Some (i + rec_sum (take k ms) + rec_size (ms ! k)) \<and> log_get b (i + rec_sum (take k ms)) = Some (ms ! k)"
      by (rule contig_step [rotated])
    moreover have "rec_sum (take (Suc k) ms) = rec_sum (take k ms) + rec_size (ms ! k)"
      using k by (simp add: take_Suc_conv_app_nth)
    ultimately show ?thesis by (simp add: add.assoc)
  qed
  show ?thesis
  proof (cases "k < length xs")
    case True
    with l ok step [of i xs k] show ?thesis by (simp add: layout_def idx_at_def nth_append)
  next
    case False
    then obtain d where d: "k = length xs + d" using le_Suc_ex not_less by blast
    with k have dy: "d < length ys" by simp
    with l have mk: "marker b (i + rec_sum xs)" and cy: "contig b 0 ys" by (auto simp: layout_def split: if_splits)
    show ?thesis
    proof (cases d)
      case 0
      from dy 0 obtain y ys' where ys: "ys = y # ys'" by (cases ys) auto
      with cy ok have p: "placed b 0 y" "msg_ok y" by auto
      with mk d 0 ys show ?thesis
        by (simp add: idx_at_def log_next_def log_get_def log_from_idx_def marker_len placed_len placed_msg)
    next
      case (Suc e)
      with step [OF cy _ dy] ok d show ?thesis by (simp add: idx_at_def nth_append)
    qed
  qed
qed

lemma layout_nth_idx:
  assumes "layout b i xs ys j" and "\<forall>m\<in>set (xs @ ys). msg_ok m" and "k \<le> length (xs @ ys)"
  shows "nth_idx b i k = Some (idx_at i xs ys k)"
  using assms(3)
proof (induction k)
  case 0
  show ?case by (simp add: idx_at_def)
next
  case (Suc k)
  then show ?case using layout_step [OF assms(1,2), of k] by (simp only: nth_idx_Suc) simp
qed

lemma layout_end: "layout b i xs ys j \<Longrightarrow> idx_at i xs ys (length (xs @ ys)) = j"
  by (auto simp: layout_def idx_at_def split: if_splits)

section \<open>The log as a list of records\<close>

definition klog :: "printk \<Rightarrow> log_msg list \<Rightarrow> bool" where
  "klog s rs \<longleftrightarrow> (\<exists>xs ys. rs = xs @ ys \<and> layout (log_buf s) (log_first_idx s) xs ys (log_next_idx s)) \<and>
     (\<forall>m\<in>set rs. msg_ok m) \<and> log_next_idx s + sizeof_log \<le> log_buf_len s \<and>
     log_next_seq s = log_first_seq s + length rs \<and> log_next_seq s < ULLONG_MAX \<and>
     log_oops_next_idx s \<le> length (log_oops_buf s)"

definition reader_ok :: "printk \<Rightarrow> nat \<Rightarrow> nat \<Rightarrow> bool" where
  "reader_ok s sq idx \<longleftrightarrow> sq < log_first_seq s \<or>
     (sq \<le> log_next_seq s \<and> nth_idx (log_buf s) (log_first_idx s) (sq - log_first_seq s) = Some idx)"

definition same_rest :: "printk \<Rightarrow> printk \<Rightarrow> bool" where
  "same_rest s s' \<longleftrightarrow> config_oops s' = config_oops s \<and> printk_time s' = printk_time s \<and>
     default_message_loglevel s' = default_message_loglevel s \<and> log_buf_len s' = log_buf_len s \<and>
     syslog_pos s' = syslog_pos s \<and> syslog_partial s' = syslog_partial s \<and> console_pos s' = console_pos s \<and>
     clear_seq s' = clear_seq s \<and> clear_idx s' = clear_idx s \<and> log_oops_first_seq s' = log_oops_first_seq s \<and>
     syslog_oops_buf_idx s' = syslog_oops_buf_idx s \<and> cont s' = cont s \<and> recursion_bug s' = recursion_bug s"

lemma same_rest_refl [simp]: "same_rest s s"
  by (simp add: same_rest_def)

lemma same_rest_trans: "same_rest s t \<Longrightarrow> same_rest t u \<Longrightarrow> same_rest s u"
  by (simp add: same_rest_def)

text \<open>A reader whose position is right gets the record of its number, and its next position is right.\<close>

lemma reader_step:
  assumes k: "klog s rs" and r: "reader_ok s sq idx" and lo: "log_first_seq s \<le> sq" and hi: "sq < log_next_seq s"
  shows "log_get (log_buf s) idx = Some (rs ! (sq - log_first_seq s)) \<and>
    (\<exists>idx'. log_next (log_buf s) idx = Some idx' \<and> reader_ok s (Suc sq) idx')"
proof -
  from k obtain xs ys where rs: "rs = xs @ ys" and l: "layout (log_buf s) (log_first_idx s) xs ys (log_next_idx s)"
    and ok: "\<forall>m\<in>set (xs @ ys). msg_ok m" and n: "log_next_seq s = log_first_seq s + length (xs @ ys)"
    by (auto simp: klog_def)
  define j where "j = sq - log_first_seq s"
  have j: "j < length (xs @ ys)" using lo hi n by (simp add: j_def)
  have idx: "idx = idx_at (log_first_idx s) xs ys j"
    using r lo layout_nth_idx [OF l ok, of j] j by (simp add: reader_ok_def j_def)
  have "nth_idx (log_buf s) (log_first_idx s) (Suc j) = Some (idx_at (log_first_idx s) xs ys (Suc j))"
    by (rule layout_nth_idx [OF l ok]) (use j in simp)
  moreover have "Suc sq - log_first_seq s = Suc j" using lo by (simp add: j_def)
  ultimately have "reader_ok s (Suc sq) (idx_at (log_first_idx s) xs ys (Suc j))"
    using hi by (simp add: reader_ok_def)
  with layout_step [OF l ok j] show ?thesis by (simp add: idx rs j_def)
qed

lemma klog_seq: "klog s rs \<Longrightarrow> log_next_seq s = log_first_seq s + length rs"
  by (simp add: klog_def)

text \<open>The ring provides the interface of the readers.\<close>

interpretation ring_log: record_log klog log_first_seq reader_ok "\<lambda>s. log_get (log_buf s)" "\<lambda>s. log_next (log_buf s)"
  by unfold_locales (metis klog_seq reader_step)

lemma reader_end:
  assumes "klog s rs"
  shows "reader_ok s (log_next_seq s) (log_next_idx s)"
proof -
  from assms obtain xs ys where rs: "rs = xs @ ys" and l: "layout (log_buf s) (log_first_idx s) xs ys (log_next_idx s)"
    and ok: "\<forall>m\<in>set (xs @ ys). msg_ok m" and n: "log_next_seq s = log_first_seq s + length (xs @ ys)"
    by (auto simp: klog_def)
  show ?thesis using layout_nth_idx [OF l ok order_refl] layout_end [OF l] n by (simp add: reader_ok_def)
qed

lemma reader_first [simp]: "log_first_seq s \<le> log_next_seq s \<Longrightarrow> reader_ok s (log_first_seq s) (log_first_idx s)"
  by (simp add: reader_ok_def)

lemma klog_first_next: "klog s rs \<Longrightarrow> log_first_seq s \<le> log_next_seq s"
  by (simp add: klog_def)

section \<open>Dropping and inserting\<close>

lemma layout_drop:
  assumes l: "layout b i xs ys n" and rs: "xs @ ys = m # rs" and ok: "msg_ok m"
  shows "\<exists>i' xs' ys'. log_next b i = Some i' \<and> layout b i' xs' ys' n \<and> xs' @ ys' = rs"
proof (cases xs)
  case (Cons x xs')
  with rs l ok have "layout b (i + rec_size m) xs' ys n \<and> log_next b i = Some (i + rec_size m)"
    using contig_step by (auto simp: layout_def add.assoc)
  with rs Cons show ?thesis by auto
next
  case Nil
  with rs l have "marker b i" "placed b 0 m" "layout b (rec_size m) rs [] n" by (auto simp: layout_def)
  then have "layout b (rec_size m) rs [] n \<and> log_next b i = Some (rec_size m)"
    using ok placed_len by (simp add: log_next_def marker_len)
  then show ?thesis by auto
qed

lemma klog_len_first:
  assumes "klog s (m # rs)"
  shows "\<exists>l. msg_len (log_buf s) (log_first_idx s) = Some l \<and> log_first_idx s + l \<le> log_buf_len s"
proof -
  from assms obtain xs ys where rs: "xs @ ys = m # rs" and l: "layout (log_buf s) (log_first_idx s) xs ys (log_next_idx s)" and ok: "msg_ok m"
    by (auto simp: klog_def)
  show ?thesis
  proof (cases xs)
    case Nil
    with rs l have "marker (log_buf s) (log_first_idx s)" by (auto simp: layout_def)
    then show ?thesis using marker_len by (auto simp: marker_def)
  next
    case (Cons x xs')
    with rs l have "placed (log_buf s) (log_first_idx s) m" by (auto simp: layout_def)
    then show ?thesis using placed_len [OF ok] by (auto simp: placed_def)
  qed
qed

lemma length_oops_eom: "length (put_msg (oops_eom ts s)) = 44"
  by (simp add: put_msg_def oops_eom_def sizeof_log_def pad_len_def LOG_ALIGN_def log_oops_end_def str_def)

lemma oops_eom_size: "sizeof_log + length log_oops_end + pad_len (sizeof_log + length log_oops_end) = 44"
  by (simp add: sizeof_log_def pad_len_def LOG_ALIGN_def log_oops_end_def str_def)


definition oops_only :: "printk \<Rightarrow> printk \<Rightarrow> bool" where
  "oops_only s s' \<longleftrightarrow> same_rest s s' \<and> log_buf s' = log_buf s \<and> log_first_idx s' = log_first_idx s \<and> log_first_seq s' = log_first_seq s \<and>
     log_next_idx s' = log_next_idx s \<and> log_next_seq s' = log_next_seq s \<and> log_oops_next_idx s' \<le> length (log_oops_buf s')"

lemma log_oops_store_Some:
  assumes l: "msg_len (log_buf s) i = Some l" "i + l \<le> log_buf_len s" and o: "log_oops_next_idx s \<le> length (log_oops_buf s)"
  shows "\<exists>s'. log_oops_store i s = Some s' \<and> oops_only s s'"
proof (cases "config_oops s \<and> log_first_seq s \<ge> log_oops_first_seq s \<and> \<not> log_oops_full s")
  case True
  define free where "free = length (log_oops_buf s) - log_oops_next_idx s"
  define eom where "eom \<longleftrightarrow> (free + 2 ^ 32 - l) mod 2 ^ 32 < 44"
  define len where "len = (if eom then 44 else l)"
  define bytes where "bytes = (if eom then put_msg (oops_eom (word_of_nat (le_nat (take 8 (drop i (log_buf s))))) s) else take l (drop i (log_buf s)))"
  have lb: "length bytes = len" using l(2) by (simp add: bytes_def len_def length_oops_eom)
  have eq: "log_oops_store i s = (if free \<ge> len then
             Option.bind (buf_write (log_oops_buf s) (log_oops_next_idx s) bytes) (\<lambda>b.
               Some (s\<lparr>log_oops_buf := b, log_oops_next_idx := log_oops_next_idx s + len,
                        log_oops_last_seq := log_first_seq s, log_oops_full := eom\<rparr>))
           else Some (s\<lparr>log_oops_full := True\<rparr>))"
    using True l(1) by (simp only: log_oops_store_def oops_eom_size Let_def free_def eom_def len_def bytes_def if_True simp_thms bind.bind_lunit)
  show ?thesis
  proof (cases "free \<ge> len")
    case True
    with lb o have "log_oops_next_idx s + length bytes \<le> length (log_oops_buf s)" by (simp add: free_def)
    with True eq lb show ?thesis by (simp add: buf_write_def oops_only_def same_rest_def)
  qed (use eq o in \<open>simp add: oops_only_def same_rest_def\<close>)
next
  case False
  then show ?thesis using o by (auto simp: log_oops_store_def oops_only_def)
qed

lemma oops_only_klog: "oops_only s s' \<Longrightarrow> klog s rs \<Longrightarrow> klog s' rs \<and> (reader_ok s' sq idx \<longleftrightarrow> reader_ok s sq idx)"
  by (simp add: oops_only_def klog_def reader_ok_def)

text \<open>What stays while records are dropped: everything but the first record and the oops buffer.\<close>

definition drops :: "printk \<Rightarrow> nat \<Rightarrow> printk \<Rightarrow> bool" where
  "drops s k s' \<longleftrightarrow> same_rest s s' \<and> log_first_seq s' = log_first_seq s + k \<and> log_next_seq s' = log_next_seq s \<and> log_next_idx s' = log_next_idx s \<and>
     log_buf s' = log_buf s \<and> (\<forall>sq idx. reader_ok s sq idx \<longrightarrow> reader_ok s' sq idx)"

lemma drop_first:
  assumes k: "klog s (m # rs)"
  shows "\<exists>i. log_next (log_buf s) (log_first_idx s) = Some i \<and>
     klog (s\<lparr>log_first_idx := i, log_first_seq := seq_inc (log_first_seq s)\<rparr>) rs \<and>
     drops s 1 (s\<lparr>log_first_idx := i, log_first_seq := seq_inc (log_first_seq s)\<rparr>)"
proof -
  from k obtain xs ys where rs: "xs @ ys = m # rs" and l: "layout (log_buf s) (log_first_idx s) xs ys (log_next_idx s)" and ok: "msg_ok m"
    by (auto simp: klog_def)
  from layout_drop [OF l rs ok] obtain i xs' ys' where i: "log_next (log_buf s) (log_first_idx s) = Some i"
    and l': "layout (log_buf s) i xs' ys' (log_next_idx s)" and rs': "xs' @ ys' = rs" by blast
  have sq: "seq_inc (log_first_seq s) = Suc (log_first_seq s)"
    using k by (auto simp: klog_def seq_inc_def ULLONG_MAX_def)
  have "nth_idx (log_buf s) i (n - Suc (log_first_seq s)) = Some idx"
    if "nth_idx (log_buf s) (log_first_idx s) (n - log_first_seq s) = Some idx" "\<not> n < Suc (log_first_seq s)" for n idx
  proof -
    from that(2) have "n - log_first_seq s = Suc (n - Suc (log_first_seq s))" by simp
    with that(1) i show ?thesis by simp
  qed
  then have r: "reader_ok s n idx \<Longrightarrow> reader_ok (s\<lparr>log_first_idx := i, log_first_seq := seq_inc (log_first_seq s)\<rparr>) n idx" for n idx
    by (auto simp: reader_ok_def sq)
  have "klog (s\<lparr>log_first_idx := i, log_first_seq := seq_inc (log_first_seq s)\<rparr>) rs"
    using k l' rs' sq by (auto simp: klog_def)
  with i r sq show ?thesis by (auto simp: drops_def same_rest_def)
qed

lemma drops_trans: "drops s j t \<Longrightarrow> drops t k u \<Longrightarrow> drops s (j + k) u"
  by (auto simp: drops_def intro: same_rest_trans)

lemma drop_old_klog:
  "klog s rs \<Longrightarrow> \<exists>s' k. drop_old sz s = Some s' \<and> klog s' (drop k rs) \<and> k \<le> length rs \<and> drops s k s' \<and>
     (k < length rs \<longrightarrow> log_free s' > sz + sizeof_log) \<and> (log_free s > sz + sizeof_log \<longrightarrow> k = 0)"
proof (induction rs arbitrary: s)
  case Nil
  then have "drop_old sz s = Some s" by (subst drop_old.simps) (simp add: klog_def)
  with Nil show ?case by (intro exI [of _ s] exI [of _ 0]) (simp add: drops_def)
next
  case (Cons m rs)
  have lt: "log_first_seq s < log_next_seq s" using Cons.prems by (simp add: klog_def)
  show ?case
  proof (cases "log_free s > sz + sizeof_log")
    case True
    with lt have "drop_old sz s = Some s" by (subst drop_old.simps) simp
    with Cons.prems True show ?thesis by (intro exI [of _ s] exI [of _ 0]) (simp add: drops_def)
  next
    case False
    obtain l where "msg_len (log_buf s) (log_first_idx s) = Some l" "log_first_idx s + l \<le> log_buf_len s"
      using klog_len_first [OF Cons.prems] by blast
    moreover have "log_oops_next_idx s \<le> length (log_oops_buf s)" using Cons.prems by (simp add: klog_def)
    ultimately obtain t where t: "log_oops_store (log_first_idx s) s = Some t" "oops_only s t"
      using log_oops_store_Some by blast
    then have kt: "klog t (m # rs)" using Cons.prems oops_only_klog by blast
    obtain i where i: "log_next (log_buf t) (log_first_idx t) = Some i"
      and ku: "klog (t\<lparr>log_first_idx := i, log_first_seq := seq_inc (log_first_seq t)\<rparr>) rs"
      and du: "drops t 1 (t\<lparr>log_first_idx := i, log_first_seq := seq_inc (log_first_seq t)\<rparr>)"
      using drop_first [OF kt] by blast
    have dt: "drops s 0 t" using t(2) by (simp add: drops_def oops_only_def reader_ok_def)
    from Cons.IH [OF ku] obtain s' k where s': "drop_old sz (t\<lparr>log_first_idx := i, log_first_seq := seq_inc (log_first_seq t)\<rparr>) = Some s'"
      and k: "klog s' (drop k rs)" "k \<le> length rs" "drops (t\<lparr>log_first_idx := i, log_first_seq := seq_inc (log_first_seq t)\<rparr>) k s'"
        "k < length rs \<longrightarrow> log_free s' > sz + sizeof_log" by blast
    have "drop_old sz s = Some s'"
      using lt False t(1) i s' t(2) by (subst drop_old.simps) (simp add: oops_only_def)
    moreover have "drops s (Suc k) s'" using drops_trans [OF drops_trans [OF dt du] k(3)] by simp
    ultimately show ?thesis using k False by (intro exI [of _ s'] exI [of _ "Suc k"]) simp
  qed
qed

lemma marker_cong:
  "marker b i \<Longrightarrow> length b' = length b \<Longrightarrow> (\<And>a. i \<le> a \<Longrightarrow> a < i + sizeof_log \<Longrightarrow> b' ! a = b ! a) \<Longrightarrow> marker b' i"
  using slice_cong [of b' b i sizeof_log] by (auto simp: marker_def)

lemma contig_bound: "contig b i ms \<Longrightarrow> i \<le> length b \<Longrightarrow> i + rec_sum ms \<le> length b"
proof (induction ms arbitrary: i)
  case (Cons m ms)
  then show ?case using Cons.IH [of "i + rec_size m"] by (simp add: placed_def add.assoc)
qed simp

definition grows :: "printk \<Rightarrow> printk \<Rightarrow> bool" where
  "grows s s' \<longleftrightarrow> same_rest s s' \<and> log_first_seq s' = log_first_seq s \<and> log_next_seq s' = Suc (log_next_seq s) \<and>
     (\<forall>sq idx. reader_ok s sq idx \<longrightarrow> reader_ok s' sq idx)"

text \<open>A write that leaves the layout of the old records alone and adds one.\<close>

lemma layout_grows:
  assumes l: "layout (log_buf s) (log_first_idx s) xs ys (log_next_idx s)" and ok: "\<forall>m\<in>set (xs @ ys @ [m]). msg_ok m"
    and l': "layout b (log_first_idx s) xs' ys' n" and rs: "xs' @ ys' = xs @ ys @ [m]"
    and at: "\<And>k. k \<le> length (xs @ ys) \<Longrightarrow> idx_at (log_first_idx s) xs' ys' k = idx_at (log_first_idx s) xs ys k"
    and k: "klog s (xs @ ys)" and sq: "Suc (log_next_seq s) < ULLONG_MAX" and n: "n + sizeof_log \<le> log_buf_len s" and len: "length b = log_buf_len s"
    and s': "s' = s\<lparr>log_buf := b, log_next_idx := n, log_next_seq := seq_inc (log_next_seq s)\<rparr>"
  shows "klog s' (xs @ ys @ [m]) \<and> grows s s'"
proof -
  have inc: "seq_inc (log_next_seq s) = Suc (log_next_seq s)" using sq by (simp add: seq_inc_def ULLONG_MAX_def)
  have ok': "\<forall>m\<in>set (xs' @ ys'). msg_ok m" using ok rs by simp
  have "\<exists>us vs. xs @ ys @ [m] = us @ vs \<and> layout b (log_first_idx s) us vs n" using l' rs by metis
  then have "klog s' (xs @ ys @ [m])"
    using k ok n len sq inc by (simp add: klog_def s')
  moreover have "reader_ok s' q idx" if r: "reader_ok s q idx" for q idx
  proof (cases "q < log_first_seq s")
    case False
    with r k have q: "q - log_first_seq s \<le> length (xs @ ys)" by (auto simp: reader_ok_def klog_def)
    have "length (xs @ ys) \<le> length (xs' @ ys')" by (simp add: rs)
    with q have "nth_idx b (log_first_idx s) (q - log_first_seq s) = nth_idx (log_buf s) (log_first_idx s) (q - log_first_seq s)"
      using layout_nth_idx [OF l' ok', of "q - log_first_seq s"] layout_nth_idx [OF l, of "q - log_first_seq s"] ok at [OF q] by simp
    with r False inc show ?thesis by (auto simp: reader_ok_def s')
  qed (simp add: reader_ok_def s')
  ultimately show ?thesis using len inc by (simp add: grows_def same_rest_def s')
qed

lemma insert_msg_klog:
  assumes k: "klog s rs" and ok: "msg_ok m" and sz: "2 * rec_size m + sizeof_log \<le> log_buf_len s"
    and free: "rs = [] \<or> log_free s > rec_size m + sizeof_log" and sq: "Suc (log_next_seq s) < ULLONG_MAX"
  shows "\<exists>s'. insert_msg m s = Some s' \<and> klog s' (rs @ [m]) \<and> grows s s'"
proof -
  let ?b = "log_buf s" and ?i = "log_first_idx s" and ?n = "log_next_idx s" and ?z = "rec_size m"
  from k obtain xs ys where rs: "rs = xs @ ys" and l: "layout ?b ?i xs ys ?n" and n: "?n + sizeof_log \<le> log_buf_len s"
    by (auto simp: klog_def)
  have oks: "\<forall>m\<in>set (xs @ ys @ [m]). msg_ok m" using k ok rs by (auto simp: klog_def)
  have z: "length (put_msg m) = ?z" "unat (m_len m) = ?z" using ok by (simp_all add: rec_size_def msg_ok_def)
  show ?thesis
  proof (cases "?n + ?z + sizeof_log \<ge> log_buf_len s")
    case wrap: True
    have ys: "ys = []"
    proof (rule ccontr)
      assume ys: "ys \<noteq> []"
      with l have "?n \<le> ?i" "?i + rec_sum xs + sizeof_log \<le> log_buf_len s" by (auto simp: layout_def marker_def)
      with ys rs free wrap show False by (auto simp: log_free_def)
    qed
    with l have c: "contig ?b ?i xs" and ne: "?n = ?i + rec_sum xs" by (auto simp: layout_def)
    have zi: "?z \<le> ?i"
    proof (cases "xs = []")
      case False
      then have "?n > ?i" using ne by (cases xs) (auto simp: sizeof_log_def rec_size_pos)
      with free False rs wrap show ?thesis by (auto simp: log_free_def)
    qed (use ne wrap sz in simp)
    obtain b1 where b1: "buf_write ?b ?n (replicate sizeof_log 0) = Some b1" using n by (simp add: buf_write_def)
    note w1 = buf_write_Some [OF b1, simplified]
    obtain b2 where b2: "buf_write b1 0 (put_msg m) = Some b2" using w1 sz z by (simp add: buf_write_def)
    note w2 = buf_write_Some [OF b2, simplified z(1), simplified]
    have mk: "marker b2 ?n"
      by (rule marker_cong [of b1]) (use w1 w2 zi ne in \<open>auto simp: marker_def\<close>)
    have cx: "contig b2 ?i xs" by (rule contig_cong [OF c]) (use w1 w2 zi ne in auto)
    have p: "placed b2 0 m" using w1 w2 sz by (simp add: placed_def z(1) [symmetric] rec_size_def)
    have l2: "layout b2 ?i xs [m] ?z" using mk cx p ne zi by (simp add: layout_def)
    have eq: "insert_msg m s = Some (s\<lparr>log_buf := b2, log_next_idx := ?z, log_next_seq := seq_inc (log_next_seq s)\<rparr>)"
      using wrap b1 b2 z by (simp add: insert_msg_def)
    have "klog (s\<lparr>log_buf := b2, log_next_idx := ?z, log_next_seq := seq_inc (log_next_seq s)\<rparr>) (xs @ ys @ [m]) \<and>
        grows s (s\<lparr>log_buf := b2, log_next_idx := ?z, log_next_seq := seq_inc (log_next_seq s)\<rparr>)"
      by (rule layout_grows [OF l oks l2 _ _ _ sq _ _ refl]) (use ys k rs w1 w2 sz in \<open>auto simp: idx_at_def\<close>)
    with eq rs show ?thesis by simp
  next
    case False
    obtain b where b: "buf_write ?b ?n (put_msg m) = Some b" using False z by (simp add: buf_write_def)
    note w = buf_write_Some [OF b, simplified z(1), simplified]
    have p: "placed b ?n m" using w by (simp add: placed_def)
    have eq: "insert_msg m s = Some (s\<lparr>log_buf := b, log_next_idx := ?n + ?z, log_next_seq := seq_inc (log_next_seq s)\<rparr>)"
      using False b z by (simp add: insert_msg_def)
    define xs' where "xs' = (if ys = [] then xs @ [m] else xs)"
    define ys' where "ys' = (if ys = [] then [] else ys @ [m])"
    have l2: "layout b ?i xs' ys' (?n + ?z)"
    proof (cases "ys = []")
      case True
      with l have c: "contig ?b ?i xs" and ne: "?n = ?i + rec_sum xs" by (auto simp: layout_def)
      have "contig b ?i xs" by (rule contig_cong [OF c]) (use w ne in auto)
      with p ne True show ?thesis by (simp add: layout_def xs'_def ys'_def)
    next
      case ys: False
      with l have c: "contig ?b ?i xs" "contig ?b 0 ys" "marker ?b (?i + rec_sum xs)" and ne: "?n = rec_sum ys" "?n \<le> ?i"
        by (auto simp: layout_def)
      from ys rs free ne have fr: "?n + ?z < ?i" by (auto simp: log_free_def)
      have "contig b ?i xs" by (rule contig_cong [OF c(1)]) (use w fr in auto)
      moreover have "contig b 0 ys" by (rule contig_cong [OF c(2)]) (use w ne in auto)
      moreover have "marker b (?i + rec_sum xs)" by (rule marker_cong [OF c(3)]) (use w fr in auto)
      ultimately show ?thesis using p ne fr ys by (simp add: layout_def xs'_def ys'_def)
    qed
    have "klog (s\<lparr>log_buf := b, log_next_idx := ?n + ?z, log_next_seq := seq_inc (log_next_seq s)\<rparr>) (xs @ ys @ [m]) \<and>
        grows s (s\<lparr>log_buf := b, log_next_idx := ?n + ?z, log_next_seq := seq_inc (log_next_seq s)\<rparr>)"
      by (rule layout_grows [OF l oks l2 _ _ _ sq _ _ refl]) (use k rs w False in \<open>auto simp: idx_at_def xs'_def ys'_def\<close>)
    with eq rs show ?thesis by simp
  qed
qed

text \<open>The record that \<open>log_store\<close> makes of its arguments.\<close>

definition new_msg :: "u64 \<Rightarrow> u8 \<Rightarrow> nat \<Rightarrow> log_flags \<Rightarrow> u64 \<Rightarrow> u8 list \<Rightarrow> u8 list \<Rightarrow> log_msg" where
  "new_msg clock facility level flags ts dict txt =
     (let n = sizeof_log + length txt + length dict in
      \<lparr>ts_nsec = (if ts > 0 then ts else clock), m_len = word_of_nat (n + pad_len n), m_facility = facility, m_flags = flags,
       m_level = word_of_nat level, m_text = txt, m_dict = dict\<rparr>)"

lemma pad_len_less: "pad_len n < 4"
  by (simp add: pad_len_def LOG_ALIGN_def nat_less_iff)

lemma new_msg_ok:
  assumes "sizeof_log + length txt + length dict + 4 \<le> 2 ^ 16"
  shows "msg_ok (new_msg clock facility level flags ts dict txt)"
proof -
  let ?n = "sizeof_log + length txt + length dict"
  have "?n + pad_len ?n < 2 ^ 16" using assms pad_len_less [of ?n] by linarith
  then have "unat (word_of_nat (?n + pad_len ?n) :: u16) = ?n + pad_len ?n" by (simp add: unat_of_nat del: of_nat_add)
  with assms show ?thesis by (simp add: msg_ok_def new_msg_def rec_size_eq Let_def)
qed

lemma log_store_klog:
  assumes k: "klog s rs" and len: "sizeof_log + length txt + length dict + 4 \<le> 2 ^ 16"
    and m: "m = new_msg clock facility level flags ts dict txt"
    and room: "2 * rec_size m + sizeof_log \<le> log_buf_len s" and sq: "Suc (log_next_seq s) < ULLONG_MAX"
  shows "\<exists>s' k. log_store clock facility level flags ts dict txt s = Some s' \<and> k \<le> length rs \<and> klog s' (drop k rs @ [m]) \<and>
     log_first_seq s' = log_first_seq s + k \<and> same_rest s s' \<and> (\<forall>sq idx. reader_ok s sq idx \<longrightarrow> reader_ok s' sq idx) \<and>
     (log_free s > rec_size m + sizeof_log \<longrightarrow> k = 0)"
proof -
  let ?n = "sizeof_log + length txt + length dict"
  have eq: "log_store clock facility level flags ts dict txt s = Option.bind (drop_old (rec_size m) s) (insert_msg m)"
    using len by (simp add: log_store_def Let_def m rec_size_eq new_msg_def)
  obtain t j where t: "drop_old (rec_size m) s = Some t" "klog t (drop j rs)" "j \<le> length rs" "drops s j t"
      "j < length rs \<longrightarrow> log_free t > rec_size m + sizeof_log" "log_free s > rec_size m + sizeof_log \<longrightarrow> j = 0"
    using drop_old_klog [OF k, of "rec_size m"] by blast
  have "msg_ok m" using new_msg_ok [OF len] m by simp
  moreover have "2 * rec_size m + sizeof_log \<le> log_buf_len t" using room t(4) by (simp add: drops_def)
  moreover have "drop j rs = [] \<or> log_free t > rec_size m + sizeof_log" using t(5) by auto
  moreover have "Suc (log_next_seq t) < ULLONG_MAX" using sq t(4) by (simp add: drops_def)
  ultimately obtain s' where s': "insert_msg m t = Some s'" "klog s' (drop j rs @ [m])" "grows t s'"
    using insert_msg_klog [OF t(2)] by blast
  have "same_rest s s'" using t(4) s'(3) same_rest_trans by (auto simp: drops_def grows_def)
  with eq t s' show ?thesis by (intro exI [of _ s'] exI [of _ j]) (auto simp: drops_def grows_def)
qed

lemma klog_start: "sizeof_log \<le> n \<Longrightarrow> klog (printk_start c t n k) []"
  by (simp add: klog_def printk_start_def layout_def ULLONG_MAX_def)

end
