(* ===== verification/PrintkTextProof.thy ===== *)
theory PrintkTextProof
  imports PrintkText PrintkRead
begin

text \<open>
  The text of a record: the length that is computed without a buffer is the length that is printed with
  one; a buffer of \<open>sz\<close> bytes never overflows; and the record's text is printed whole when it fits, which
  for a record of one line it always does.
\<close>

unbundle bit_operations_syntax

section \<open>Lengths\<close>

lemma length_dec: "length (dec n) = (if n < 10 then 1 else Suc (length (dec (n div 10))))"
  by (subst dec.simps) simp

lemma length_dec_le: "n < 10 ^ Suc k \<Longrightarrow> length (dec n) \<le> Suc k"
proof (induction k arbitrary: n)
  case (Suc k)
  then have "n div 10 < 10 ^ Suc k" by (simp add: div_less_iff_less_mult mult.commute)
  with Suc.IH show ?case by (subst length_dec) auto
qed (simp add: length_dec)

lemma length_dec_eq: "10 ^ k \<le> n \<Longrightarrow> n < 10 ^ Suc k \<Longrightarrow> length (dec n) = Suc k"
proof (induction k arbitrary: n)
  case (Suc k)
  then have "10 ^ k \<le> n div 10" "n div 10 < 10 ^ Suc k" by (simp_all add: div_less_iff_less_mult less_eq_div_iff_mult_less_eq mult.commute)
  moreover have "\<not> n < 10"
  proof -
    have "1 \<le> (10 :: nat) ^ k" by simp
    then show ?thesis using Suc.prems(1) unfolding power_Suc by linarith
  qed
  ultimately show ?case using Suc.IH by (simp add: length_dec)
qed (simp add: length_dec)

lemma length_str [simp]: "length (str s) = length s"
  by (simp add: str_def)

lemma length_pad_left: "length (pad_left w c xs) = max w (length xs)"
  by (simp add: pad_left_def)

lemma syslog_prefix_less: "syslog_prefix m < 2048"
proof -
  have b: "push_bit 3 (unat (m_facility m)) < 2 ^ 11" "unat (m_level m) < 2 ^ 11"
    using unsigned_less [of "m_facility m", where 'a = nat] unsigned_less [of "m_level m", where 'a = nat]
    by (simp_all add: push_bit_eq_mult)
  then have "take_bit 11 (syslog_prefix m) = syslog_prefix m"
    by (simp add: syslog_prefix_def take_bit_or take_bit_nat_eq_self)
  then show ?thesis by (simp add: take_bit_nat_eq_self_iff)
qed

lemma length_print_time: "length (print_time pt ts) = print_time_len pt ts"
proof -
  have "unat ts mod 1000000000 div 1000 < 10 ^ Suc 5"
    by (simp add: div_less_iff_less_mult)
  then have "length (dec (unat ts mod 1000000000 div 1000)) \<le> 6" using length_dec_le by fastforce
  then show ?thesis by (simp add: print_time_def print_time_len_def length_pad_left max_def)
qed

lemma length_print_prefix: "length (print_prefix pt m syslog) = print_prefix_len pt m syslog"
proof -
  let ?p = "syslog_prefix m"
  have "length (dec ?p) = 1 + (if ?p > 999 then 3 else if ?p > 99 then 2 else if ?p > 9 then 1 else 0)"
    using syslog_prefix_less [of m] length_dec_eq [of 0 ?p] length_dec_eq [of 1 ?p] length_dec_eq [of 2 ?p] length_dec_eq [of 3 ?p]
    by (cases "?p = 0") (auto simp: length_dec [of 0] not_less)
  then show ?thesis by (simp add: print_prefix_def print_prefix_len_def length_print_time Let_def)
qed

lemma print_prefix_len_le: "print_prefix_len pt m syslog \<le> 27"
proof -
  have "unat (ts_nsec m) < 2 ^ 64" using unsigned_less [of "ts_nsec m", where 'a = nat] by simp
  then have "unat (ts_nsec m) div 1000000000 < 10 ^ Suc 10" by (simp add: div_less_iff_less_mult)
  then have "length (dec (unat (ts_nsec m) div 1000000000)) \<le> 11" using length_dec_le by fastforce
  then have "print_time_len pt (ts_nsec m) \<le> 21" by (simp add: print_time_len_def length_pad_left)
  then show ?thesis by (simp add: print_prefix_len_def Let_def)
qed

section \<open>The whole text of a record\<close>

function lines_text :: "u8 list \<Rightarrow> bool \<Rightarrow> bool \<Rightarrow> u8 list \<Rightarrow> u8 list" where
  "lines_text pre newline first t =
     (let line = first_line t; more = length line < length t
      in (if first then pre else []) @ line @ (if more \<or> newline then [nl] else []) @
         (if more then lines_text pre newline True (drop (length line + 1) t) else []))"
  by pat_completeness auto
termination by (relation "measure (\<lambda>(pre, newline, first, t). length t)") auto

declare lines_text.simps [simp del]

lemma length_lines_text: "length (lines_text pre newline first t) = lines_len (length pre) newline first t"
proof (induction pre newline first t rule: lines_text.induct)
  case (1 pre newline first t)
  then show ?case by (subst lines_text.simps, subst lines_len.simps) (simp add: Let_def)
qed

lemma print_lines_full:
  "len + lines_len (length pre) newline first t + (if first then 0 else length pre) + (if newline then 0 else 1) < sz \<Longrightarrow>
   print_lines pre (length pre) newline sz first t len = lines_text pre newline first t"
proof (induction pre newline first t arbitrary: len rule: lines_text.induct)
  case (1 pre newline first t)
  define line where "line = first_line t"
  define more where "more \<longleftrightarrow> length line < length t"
  define out where "out = (if first then pre else []) @ line @ (if more \<or> newline then [nl] else [])"
  note l = lines_len.simps [of "length pre" newline first t, unfolded Let_def, folded line_def, folded more_def]
  have "length pre + length line + 1 < sz - len"
    using 1(2) by (subst (asm) l) (auto split: if_splits)
  moreover have "print_lines pre (length pre) newline sz True (drop (length line + 1) t) (len + length out) =
      lines_text pre newline True (drop (length line + 1) t)" if more
  proof (rule 1(1) [OF refl refl, folded line_def more_def])
    show "len + length out + lines_len (length pre) newline True (drop (length line + 1) t) + (if True then 0 else length pre) + (if newline then 0 else 1) < sz"
      using 1(2) that by (subst (asm) l) (auto simp: out_def split: if_splits)
  qed (use that in simp)
  ultimately show ?case
    by (subst print_lines.simps, subst lines_text.simps) (simp add: Let_def line_def [symmetric] more_def [symmetric] out_def)
qed

lemma print_lines_bound:
  "print_lines pre (length pre) newline sz first t len \<noteq> [] \<Longrightarrow> len + length (print_lines pre (length pre) newline sz first t len) < sz"
proof (induction pre "length pre" newline sz first t len rule: print_lines.induct)
  case (1 pre newline sz first t len)
  define line where "line = first_line t"
  define more where "more \<longleftrightarrow> length line < length t"
  define out where "out = (if first then pre else []) @ line @ (if more \<or> newline then [nl] else [])"
  define rest where "rest = print_lines pre (length pre) newline sz True (drop (length line + 1) t) (len + length out)"
  have eq: "print_lines pre (length pre) newline sz first t len =
      (if length pre + length line + 1 \<ge> sz - len then [] else out @ (if more then rest else []))"
    by (subst print_lines.simps) (simp only: Let_def line_def more_def out_def rest_def)
  show ?case
  proof (cases "length pre + length line + 1 \<ge> sz - len")
    case False
    then have "len + (length pre + length line + 1) < sz" by linarith
    moreover have "length out \<le> length pre + length line + 1" by (simp add: out_def)
    ultimately have o: "len + length out < sz" by linarith
    have "rest \<noteq> [] \<Longrightarrow> len + length out + length rest < sz" if more
      using 1(1) [OF refl refl refl] False that unfolding line_def [symmetric] more_def [symmetric] out_def [symmetric] rest_def [symmetric]
      by simp
    with o False show ?thesis by (cases "rest = []"; cases more) (simp_all add: eq add.assoc)
  qed (use 1(2) eq in simp)
qed

definition msg_text :: "bool \<Rightarrow> log_msg \<Rightarrow> log_flags \<Rightarrow> bool \<Rightarrow> u8 list" where
  "msg_text pt m prev syslog = lines_text (print_prefix pt m syslog) (ends_line (m_flags m)) (starts_line prev (m_flags m)) (m_text m)"

lemma length_msg_text: "length (msg_text pt m prev syslog) = msg_print_len pt m prev syslog"
  by (simp add: msg_text_def msg_print_len_def length_lines_text length_print_prefix)

lemma msg_print_text_full:
  assumes "msg_print_len pt m prev syslog + (if starts_line prev (m_flags m) then 0 else print_prefix_len pt m syslog) +
      (if ends_line (m_flags m) then 0 else 1) < sz"
  shows "msg_print_text pt m prev syslog sz = msg_text pt m prev syslog"
  unfolding msg_print_text_def msg_text_def
  by (rule print_lines_full [where pre = "print_prefix pt m syslog" and len = 0, unfolded length_print_prefix])
    (use assms in \<open>simp add: msg_print_len_def\<close>)

lemma msg_print_text_bound: "0 < sz \<Longrightarrow> length (msg_print_text pt m prev syslog sz) < sz"
  using print_lines_bound [of "print_prefix pt m syslog" "ends_line (m_flags m)" sz "starts_line prev (m_flags m)" "m_text m" 0]
  by (cases "msg_print_text pt m prev syslog sz = []") (auto simp: msg_print_text_def length_print_prefix)

lemma one_line_text:
  assumes "nl \<notin> set (m_text m)"
  shows "msg_text pt m prev syslog = (if starts_line prev (m_flags m) then print_prefix pt m syslog else []) @ m_text m @ (if ends_line (m_flags m) then [nl] else [])"
proof -
  have "first_line (m_text m) = m_text m" using assms by (auto simp: takeWhile_eq_all_conv)
  then show ?thesis unfolding msg_text_def by (subst lines_text.simps) (simp only: Let_def less_irrefl if_False append_Nil2 simp_thms)
qed

lemma one_line_full:
  assumes t: "nl \<notin> set (m_text m)" and len: "length (m_text m) \<le> LOG_LINE_MAX"
  shows "msg_print_text pt m prev syslog (LOG_LINE_MAX + PREFIX_MAX) = msg_text pt m prev syslog"
proof (rule msg_print_text_full)
  have "msg_print_len pt m prev syslog = length (msg_text pt m prev syslog)" by (simp add: length_msg_text)
  then show "msg_print_len pt m prev syslog + (if starts_line prev (m_flags m) then 0 else print_prefix_len pt m syslog) +
      (if ends_line (m_flags m) then 0 else 1) < LOG_LINE_MAX + PREFIX_MAX"
    using len print_prefix_len_le [of pt m syslog] by (simp add: one_line_text [OF t] length_print_prefix LOG_LINE_MAX_def PREFIX_MAX_def)
qed

end
