(* ===== verification/PrintkSyslog.thy ===== *)
theory PrintkSyslog
  imports PrintkRing PrintkTextProof PrintkDev
begin

text \<open>
  Reading by \<open>syslog\<close>: what a read delivers is the beginning of what is pending, in every interleaving of
  reads of any size with stores, as long as the writer does not lap the reader. With the oops buffer
  configured this fails: the last theorem.
\<close>

text \<open>The texts of a list of records, one after the other, as \<open>syslog\<close> prints them.\<close>

abbreviation sys_text :: "bool \<Rightarrow> log_flags \<Rightarrow> log_msg \<Rightarrow> u8 list" where
  "sys_text pt prev m \<equiv> msg_print_text pt m prev True (LOG_LINE_MAX + PREFIX_MAX)"

fun log_texts :: "bool \<Rightarrow> log_flags \<Rightarrow> log_msg list \<Rightarrow> u8 list" where
  "log_texts pt prev [] = []"
| "log_texts pt prev (m # ms) = sys_text pt prev m @ log_texts pt (m_flags m) ms"

lemma log_texts_append:
  "log_texts pt prev (xs @ ys) = log_texts pt prev xs @ log_texts pt (if xs = [] then prev else m_flags (last xs)) ys"
  by (induction xs arbitrary: prev) auto

definition unread :: "printk \<Rightarrow> log_msg list \<Rightarrow> log_msg list" where
  "unread s rs = drop (p_seq (syslog_pos s) - log_first_seq s) rs"

text \<open>The bytes that \<open>syslog\<close> has to deliver.\<close>

definition pending :: "printk \<Rightarrow> log_msg list \<Rightarrow> u8 list" where
  "pending s rs =
     (if p_seq (syslog_pos s) < log_first_seq s then log_texts (printk_time s) 0 rs
      else drop (syslog_partial s) (log_texts (printk_time s) (p_prev (syslog_pos s)) (unread s rs)))"

definition syslog_ok :: "printk \<Rightarrow> log_msg list \<Rightarrow> bool" where
  "syslog_ok s rs \<longleftrightarrow> p_seq (syslog_pos s) \<le> log_next_seq s \<and> reader_ok s (p_seq (syslog_pos s)) (p_idx (syslog_pos s)) \<and>
     (log_first_seq s \<le> p_seq (syslog_pos s) \<longrightarrow> 0 < syslog_partial s \<longrightarrow>
       (\<exists>m ms. unread s rs = m # ms \<and> syslog_partial s < length (sys_text (printk_time s) (p_prev (syslog_pos s)) m)))"

lemma syslog_catch_up_ok:
  assumes k: "klog s rs" and ok: "syslog_ok s rs"
  defines "t \<equiv> syslog_catch_up s"
  shows "klog t rs \<and> syslog_ok t rs \<and> log_first_seq t \<le> p_seq (syslog_pos t) \<and> pending t rs = pending s rs \<and>
    log_buf t = log_buf s \<and> log_next_seq t = log_next_seq s \<and> printk_time t = printk_time s \<and> log_first_seq t = log_first_seq s"
proof (cases "p_seq (syslog_pos s) < log_first_seq s")
  case True
  with k ok show ?thesis using klog_first_next [OF k]
    by (simp add: t_def syslog_catch_up_def klog_def syslog_ok_def pending_def unread_def reader_ok_def)
qed (use k ok in \<open>simp add: t_def syslog_catch_up_def\<close>)

lemma syslog_section_reads:
  assumes k: "klog s rs" and ok: "syslog_ok s rs"
  shows "\<exists>c s'. syslog_section sz len s = Some (c, s') \<and> length c \<le> sz \<and> klog s' rs \<and> syslog_ok s' rs \<and>
    config_oops s' = config_oops s \<and> printk_time s' = printk_time s \<and> pending s rs = c @ pending s' rs \<and>
    log_first_seq s' \<le> p_seq (syslog_pos s') \<and>
    (log_first_seq s \<le> p_seq (syslog_pos s) \<longrightarrow>
       unread s' rs = unread s rs \<and> p_prev (syslog_pos s') = p_prev (syslog_pos s) \<or>
       (\<exists>m. unread s rs = m # unread s' rs \<and> p_prev (syslog_pos s') = m_flags m))"
proof -
  define t where "t = syslog_catch_up s"
  note cu = syslog_catch_up_ok [OF k ok, folded t_def]
  let ?p = "syslog_pos t"
  have st: "log_first_seq s \<le> p_seq (syslog_pos s) \<Longrightarrow> t = s" by (simp add: t_def syslog_catch_up_def)
  have kt: "klog t rs" using cu by simp
  have cfg: "config_oops t = config_oops s" by (simp add: t_def syslog_catch_up_def)
  have pt: "pending t rs = drop (syslog_partial t) (log_texts (printk_time t) (p_prev ?p) (unread t rs))"
    using cu by (simp add: pending_def)
  show ?thesis
  proof (cases "unread t rs")
    case Nil
    then have "length rs \<le> p_seq ?p - log_first_seq t" by (simp add: unread_def)
    moreover have "p_seq ?p \<le> log_next_seq t" "log_next_seq t = log_first_seq t + length rs" "log_first_seq t \<le> p_seq ?p"
      using cu klog_seq by (auto simp: syslog_ok_def)
    ultimately have "p_seq ?p = log_next_seq t" by linarith
    then have "syslog_section sz len s = Some ([], t)"
      by (simp add: syslog_section_def t_def [symmetric] Let_def)
    with cu cfg st show ?thesis by auto
  next
    case (Cons m ms)
    have cur: "reader_ok t (p_seq ?p) (p_idx ?p)" using cu by (simp add: syslog_ok_def)
    have lo: "log_first_seq t \<le> p_seq ?p" using cu by simp
    obtain j where g: "log_get (log_buf t) (p_idx ?p) = Some m" "log_next (log_buf t) (p_idx ?p) = Some j"
      "reader_ok t (Suc (p_seq ?p)) j" "drop (Suc (p_seq ?p) - log_first_seq t) rs = ms"
      using ring_log.next_record [OF _ cur lo Cons [unfolded unread_def]] cu by blast
    have lt: "p_seq ?p < log_next_seq t" using Cons klog_seq [of t rs] cu by (auto simp: unread_def dest: arg_cong [of _ _ length])
    then have inc: "seq_inc (p_seq ?p) = Suc (p_seq ?p)" using cu by (auto simp: seq_inc_def klog_def ULLONG_MAX_def)
    let ?t = "sys_text (printk_time t) (p_prev ?p) m"
    have part: "syslog_partial t \<le> length ?t"
      using cu Cons by (cases "syslog_partial t = 0") (auto simp: syslog_ok_def)
    define u where "u = t\<lparr>syslog_pos := \<lparr>p_seq = Suc (p_seq ?p), p_idx = j, p_prev = m_flags m\<rparr>, syslog_partial := 0\<rparr>"
    have ku: "klog u rs" using kt by (simp add: u_def klog_def)
    have uu: "unread u rs = ms" using g(4) by (simp add: unread_def u_def)
    have su: "syslog_ok u rs" using g(3) lt by (simp add: syslog_ok_def u_def reader_ok_def)
    have pu: "pending u rs = log_texts (printk_time t) (m_flags m) ms" using lo uu by (simp add: pending_def) (simp add: u_def)
    have ptm: "pending t rs = drop (syslog_partial t) ?t @ log_texts (printk_time t) (m_flags m) ms"
      using pt part by (simp add: Cons)
    consider (all) "length ?t - syslog_partial t \<le> sz" | (some) "\<not> length ?t - syslog_partial t \<le> sz" "len = 0" | (none) "\<not> length ?t - syslog_partial t \<le> sz" "len \<noteq> 0"
      by blast
    then show ?thesis
    proof cases
      case all
      have "syslog_section sz len s = Some (drop (syslog_partial t) ?t, u)"
        using lt g(1,2) part all inc
        by (simp add: syslog_section_def t_def [symmetric] Let_def syslog_chunk_def u_def)
      moreover have "log_first_seq u \<le> p_seq (syslog_pos u)" "p_prev (syslog_pos u) = m_flags m" "printk_time u = printk_time s"
          "config_oops u = config_oops s" using lo cu cfg by (simp_all add: u_def)
      ultimately show ?thesis using ku su pu ptm cu all uu st Cons by auto
    next
      case some
      define v where "v = t\<lparr>syslog_partial := syslog_partial t + sz\<rparr>"
      have "syslog_section sz len s = Some (take sz (drop (syslog_partial t) ?t), v)"
        using lt g(1) part some by (simp add: syslog_section_def t_def [symmetric] Let_def syslog_chunk_def v_def min_def)
      moreover have "klog v rs" using kt by (simp add: v_def klog_def)
      moreover have "syslog_ok v rs"
        using cu Cons some by (auto simp: syslog_ok_def v_def unread_def reader_ok_def)
      moreover have "pending v rs = drop sz (drop (syslog_partial t) ?t) @ log_texts (printk_time t) (m_flags m) ms"
        using lo Cons some part by (simp add: pending_def v_def unread_def add.commute)
      then have "pending s rs = take sz (drop (syslog_partial t) ?t) @ pending v rs" "pending t rs = pending s rs"
        using ptm cu by (simp_all only: append_assoc [symmetric] append_take_drop_id)
      moreover have "log_first_seq v \<le> p_seq (syslog_pos v)" "unread v rs = unread t rs" "p_prev (syslog_pos v) = p_prev (syslog_pos t)"
          "printk_time v = printk_time s" "config_oops v = config_oops s" using lo cu cfg by (simp_all add: v_def unread_def)
      ultimately show ?thesis using st by auto
    next
      case none
      have "syslog_section sz len s = Some ([], t)"
        using lt g(1) part none by (simp add: syslog_section_def t_def [symmetric] Let_def syslog_chunk_def)
      with cu cfg st show ?thesis by auto
    qed
  qed
qed

text \<open>A new record adds its text to what is pending, when no unread record is dropped for it.\<close>

lemma pending_store:
  assumes k: "klog s rs" and ok: "syslog_ok s rs" and j: "j \<le> length rs" and k': "klog s' (drop j rs @ [m])" and f: "log_first_seq s' = log_first_seq s + j"
    and r: "same_rest s s'" "\<And>sq idx. reader_ok s sq idx \<Longrightarrow> reader_ok s' sq idx" and kept: "log_first_seq s' \<le> p_seq (syslog_pos s)"
  shows "syslog_ok s' (drop j rs @ [m]) \<and> unread s' (drop j rs @ [m]) = unread s rs @ [m] \<and>
    log_texts (printk_time s) (p_prev (syslog_pos s)) (unread s rs @ [m]) = log_texts (printk_time s) (p_prev (syslog_pos s)) (unread s rs) @
      sys_text (printk_time s) (if unread s rs = [] then p_prev (syslog_pos s) else m_flags (last (unread s rs))) m \<and>
    syslog_partial s \<le> length (log_texts (printk_time s) (p_prev (syslog_pos s)) (unread s rs))"
proof -
  have same: "syslog_pos s' = syslog_pos s" "syslog_partial s' = syslog_partial s" "printk_time s' = printk_time s" using r(1) by (simp_all add: same_rest_def)
  have hi: "p_seq (syslog_pos s) \<le> log_first_seq s + length rs" using ok klog_seq [OF k] by (simp add: syslog_ok_def)
  have "drop (p_seq (syslog_pos s) - log_first_seq s') (drop j rs @ [m]) = drop (p_seq (syslog_pos s) - log_first_seq s) rs @ [m]"
    using kept hi f j by (simp add: add.commute)
  then have un: "unread s' (drop j rs @ [m]) = unread s rs @ [m]" by (simp add: unread_def same)
  have part: "syslog_partial s \<le> length (log_texts (printk_time s) (p_prev (syslog_pos s)) (unread s rs))"
    using ok kept f by (cases "syslog_partial s = 0") (auto simp: syslog_ok_def)
  have "log_next_seq s' = Suc (log_next_seq s)" using klog_seq [OF k] klog_seq [OF k'] f j by simp
  then have "syslog_ok s' (drop j rs @ [m])"
    using ok kept f r(2) un by (auto simp: syslog_ok_def same)
  with un part show ?thesis by (simp add: log_texts_append)
qed

lemma log_store_limits:
  assumes "klog s rs" and "length txt \<le> LOG_LINE_MAX" and "length dict \<le> 1000" and "4096 \<le> log_buf_len s" and "Suc (log_next_seq s) < ULLONG_MAX"
  shows "\<exists>s' k. log_store clock facility level flags ts dict txt s = Some s' \<and> k \<le> length rs \<and>
     klog s' (drop k rs @ [new_msg clock facility level flags ts dict txt]) \<and>
     log_first_seq s' = log_first_seq s + k \<and> same_rest s s' \<and> (\<forall>sq idx. reader_ok s sq idx \<longrightarrow> reader_ok s' sq idx)"
proof -
  let ?m = "new_msg clock facility level flags ts dict txt"
  have small: "sizeof_log + length txt + length dict + 4 \<le> 2 ^ 16" using assms(2,3) by (simp add: sizeof_log_def LOG_LINE_MAX_def)
  have "rec_size ?m < sizeof_log + length txt + length dict + 4"
    using pad_len_less [of "sizeof_log + length txt + length dict"] by (simp add: rec_size_eq new_msg_def Let_def)
  then have "2 * rec_size ?m + sizeof_log \<le> log_buf_len s" using assms(2-4) by (simp add: sizeof_log_def LOG_LINE_MAX_def)
  then show ?thesis using log_store_klog [OF assms(1) small refl _ assms(5)] by blast
qed

text \<open>
  What other cpus do while a reader at \<open>pos\<close> is without the lock: they store records, none of which
  drops one that the reader has not read.
\<close>

inductive stores :: "(printk \<Rightarrow> log_pos) \<Rightarrow> printk \<Rightarrow> printk \<Rightarrow> log_msg list \<Rightarrow> bool" for pos s where
  no_store: "stores pos s s []"
| one_store: "stores pos s t ms \<Longrightarrow> log_store clock facility level flags ts dict txt t = Some u \<Longrightarrow>
    length txt \<le> LOG_LINE_MAX \<Longrightarrow> length dict \<le> 1000 \<Longrightarrow> 4096 \<le> log_buf_len t \<Longrightarrow> Suc (log_next_seq t) < ULLONG_MAX \<Longrightarrow>
    log_first_seq u \<le> p_seq (pos t) \<Longrightarrow>
    stores pos s u (ms @ [new_msg clock facility level flags ts dict txt])"

definition storing :: "(printk \<Rightarrow> log_pos) \<Rightarrow> (printk \<Rightarrow> printk) \<Rightarrow> bool" where
  "storing pos f \<longleftrightarrow> (\<forall>s rs. klog s rs \<longrightarrow> log_first_seq s \<le> p_seq (pos s) \<longrightarrow> (\<exists>ms. stores pos s (f s) ms))"

text \<open>One store, when it can be made.\<close>

definition store_one :: "(printk \<Rightarrow> log_pos) \<Rightarrow> log_msg \<Rightarrow> printk \<Rightarrow> printk" where
  "store_one pos m s =
     (case log_store (ts_nsec m) (m_facility m) (unat (m_level m)) (m_flags m) 1 (m_dict m) (m_text m) s of
        None \<Rightarrow> s
      | Some t \<Rightarrow>
          if length (m_text m) \<le> LOG_LINE_MAX \<and> length (m_dict m) \<le> 1000 \<and> 4096 \<le> log_buf_len s \<and> Suc (log_next_seq s) < ULLONG_MAX \<and>
            log_first_seq t \<le> p_seq (pos s) then t else s)"

lemma storing_store_one: "storing pos (store_one pos m)"
proof -
  have "\<exists>ms. stores pos s (store_one pos m s) ms" for s
    unfolding store_one_def by (auto split: option.splits intro: no_store one_store [OF no_store])
  then show ?thesis by (simp add: storing_def)
qed

lemma stores_klog:
  assumes "stores pos s t ms" and "klog s rs"
  shows "\<exists>k. k \<le> length rs + length ms \<and> klog t (drop k (rs @ ms)) \<and> log_first_seq t = log_first_seq s + k \<and> same_rest s t \<and>
    (\<forall>sq idx. reader_ok s sq idx \<longrightarrow> reader_ok t sq idx)"
  using assms
proof (induction rule: stores.induct)
  case no_store
  then show ?case by (intro exI [of _ 0]) simp
next
  case (one_store t ms clock facility level flags ts dict b u)
  let ?m = "new_msg clock facility level flags ts dict b"
  obtain k where k: "k \<le> length rs + length ms" "klog t (drop k (rs @ ms))" "log_first_seq t = log_first_seq s + k" "same_rest s t"
      "\<forall>sq idx. reader_ok s sq idx \<longrightarrow> reader_ok t sq idx" using one_store by blast
  obtain j where j: "j \<le> length (drop k (rs @ ms))" "klog u (drop j (drop k (rs @ ms)) @ [?m])" "log_first_seq u = log_first_seq t + j" "same_rest t u"
      "\<forall>sq idx. reader_ok t sq idx \<longrightarrow> reader_ok u sq idx"
    using log_store_limits [OF k(2) one_store.hyps(3-6), of clock facility level flags ts] one_store.hyps(2) by auto
  have n: "k + j \<le> length (rs @ ms)" using j(1) k(1) by simp
  then have "drop (k + j) ((rs @ ms) @ [?m]) = drop (k + j) (rs @ ms) @ [?m]" by (subst drop_append) simp
  moreover have "drop j (drop k (rs @ ms)) = drop (k + j) (rs @ ms)" by (simp only: drop_drop add.commute)
  ultimately have "klog u (drop (k + j) (rs @ ms @ [?m]))" using j(2) by (simp only: append_assoc)
  moreover have "log_first_seq u = log_first_seq s + (k + j)" "same_rest s u" using k(3,4) j(3,4) same_rest_trans by auto
  moreover have "\<forall>sq idx. reader_ok s sq idx \<longrightarrow> reader_ok u sq idx" using k(5) j(5) by blast
  moreover have "k + j \<le> length rs + length (ms @ [?m])" using n by simp
  ultimately show ?case by blast
qed

lemma stores_pos:
  "stores pos s t ms \<Longrightarrow> log_first_seq s \<le> p_seq (pos s) \<Longrightarrow> klog s rs \<Longrightarrow> (\<And>u. same_rest s u \<Longrightarrow> pos u = pos s) \<Longrightarrow> log_first_seq t \<le> p_seq (pos s)"
proof (induction rule: stores.induct)
  case (one_store t ms clock facility level flags ts dict b u)
  have "same_rest s t" using stores_klog [OF one_store.hyps(1) one_store.prems(2)] by blast
  then show ?case using one_store.prems(3) one_store.hyps(7) by metis
next
  case no_store
  show ?case by (rule no_store(1))
qed

text \<open>
  Reads of any sizes and stores in any order. \<open>syslog_run s0 s ms out\<close>: from \<open>s0\<close> to \<open>s\<close> the records \<open>ms\<close> are
  stored, and \<open>syslog\<close> delivers \<open>out\<close>; no record is dropped before it is read.
\<close>

inductive syslog_run :: "printk \<Rightarrow> printk \<Rightarrow> log_msg list \<Rightarrow> u8 list \<Rightarrow> bool" for s0 where
  start: "syslog_run s0 s0 [] []"
| store: "syslog_run s0 s ms out \<Longrightarrow> log_store clock facility level flags ts dict txt s = Some s' \<Longrightarrow>
    length txt \<le> LOG_LINE_MAX \<Longrightarrow> length dict \<le> 1000 \<Longrightarrow> 4096 \<le> log_buf_len s \<Longrightarrow> Suc (log_next_seq s) < ULLONG_MAX \<Longrightarrow>
    log_first_seq s' \<le> p_seq (syslog_pos s) \<Longrightarrow>
    syslog_run s0 s' (ms @ [new_msg clock facility level flags ts dict txt]) out"
| read: "syslog_run s0 s ms out \<Longrightarrow> syslog_section sz len s = Some (c, s') \<Longrightarrow> syslog_run s0 s' ms (out @ c)"

lemma syslog_run_exact:
  assumes run: "syslog_run s0 s ms out" and k: "klog s0 rs" and ok: "syslog_ok s0 rs" and seen: "log_first_seq s0 \<le> p_seq (syslog_pos s0)"
  shows "\<exists>rs'. klog s rs' \<and> syslog_ok s rs' \<and> log_first_seq s \<le> p_seq (syslog_pos s) \<and> config_oops s = config_oops s0 \<and>
    out @ pending s rs' = drop (syslog_partial s0) (log_texts (printk_time s0) (p_prev (syslog_pos s0)) (unread s0 rs @ ms))"
proof -
  define u0 where "u0 = unread s0 rs"
  define X where "X ms = log_texts (printk_time s0) (p_prev (syslog_pos s0)) (u0 @ ms)" for ms
  have part: "syslog_partial s0 \<le> length (log_texts (printk_time s0) (p_prev (syslog_pos s0)) u0)"
    using ok seen by (cases "syslog_partial s0 = 0") (auto simp: syslog_ok_def u0_def)
  then have partX: "syslog_partial s0 \<le> length (X ms)" for ms by (simp add: X_def log_texts_append)
  have "\<exists>rs' gone. klog s rs' \<and> syslog_ok s rs' \<and> log_first_seq s \<le> p_seq (syslog_pos s) \<and> printk_time s = printk_time s0 \<and> config_oops s = config_oops s0 \<and>
      u0 @ ms = gone @ unread s rs' \<and> p_prev (syslog_pos s) = (if gone = [] then p_prev (syslog_pos s0) else m_flags (last gone)) \<and>
      out @ pending s rs' = drop (syslog_partial s0) (X ms)"
    using run k ok seen
  proof (induction rule: syslog_run.induct)
    case start
    show ?case
      by (intro exI [of _ rs] exI [of _ "[]"]) (use start in \<open>simp add: X_def u0_def pending_def\<close>)
  next
    case (store s ms out clock facility level flags ts dict t s')
    let ?m = "new_msg clock facility level flags ts dict t"
    obtain rs' gone where k1: "klog s rs'" and ok1: "syslog_ok s rs'" and lo: "log_first_seq s \<le> p_seq (syslog_pos s)" and pt: "printk_time s = printk_time s0" "config_oops s = config_oops s0"
      and g: "u0 @ ms = gone @ unread s rs'" and pp: "p_prev (syslog_pos s) = (if gone = [] then p_prev (syslog_pos s0) else m_flags (last gone))"
      and out: "out @ pending s rs' = drop (syslog_partial s0) (X ms)" using store.IH [OF store.prems] by blast
    obtain j where j: "j \<le> length rs'" "klog s' (drop j rs' @ [?m])" "log_first_seq s' = log_first_seq s + j" "same_rest s s'"
        "\<forall>sq idx. reader_ok s sq idx \<longrightarrow> reader_ok s' sq idx"
      using log_store_limits [OF k1 store.hyps(3-6), of clock facility level flags ts] store.hyps(2) by auto
    note p = pending_store [OF k1 ok1 j(1-4) j(5) [rule_format] store.hyps(7)]
    have same: "syslog_pos s' = syslog_pos s" "syslog_partial s' = syslog_partial s" "printk_time s' = printk_time s" "config_oops s' = config_oops s"
      using j(4) by (simp_all add: same_rest_def)
    have "(if unread s rs' = [] then p_prev (syslog_pos s) else m_flags (last (unread s rs'))) =
        (if u0 @ ms = [] then p_prev (syslog_pos s0) else m_flags (last (u0 @ ms)))"
      using pp by (simp add: g)
    then have "X (ms @ [?m]) = X ms @ sys_text (printk_time s) (if unread s rs' = [] then p_prev (syslog_pos s) else m_flags (last (unread s rs'))) ?m"
      by (simp add: X_def log_texts_append pt flip: append_assoc)
    moreover have "pending s' (drop j rs' @ [?m]) =
        pending s rs' @ sys_text (printk_time s) (if unread s rs' = [] then p_prev (syslog_pos s) else m_flags (last (unread s rs'))) ?m"
      using p lo store.hyps(7) by (simp add: pending_def same)
    ultimately have "out @ pending s' (drop j rs' @ [?m]) = drop (syslog_partial s0) (X (ms @ [?m]))"
      using out partX [of ms] by (simp flip: append_assoc)
    with p j(2) g pp pt store.hyps(7) show ?case
      by (intro exI [of _ "drop j rs' @ [?m]"] exI [of _ gone]) (simp add: same)
  next
    case (read s ms out sz len c s')
    obtain rs' gone where k1: "klog s rs'" and ok1: "syslog_ok s rs'" and lo: "log_first_seq s \<le> p_seq (syslog_pos s)" and pt: "printk_time s = printk_time s0" "config_oops s = config_oops s0"
      and g: "u0 @ ms = gone @ unread s rs'" and pp: "p_prev (syslog_pos s) = (if gone = [] then p_prev (syslog_pos s0) else m_flags (last gone))"
      and out: "out @ pending s rs' = drop (syslog_partial s0) (X ms)" using read.IH [OF read.prems] by blast
    have s': "klog s' rs'" "syslog_ok s' rs'" "printk_time s' = printk_time s" "pending s rs' = c @ pending s' rs'" "log_first_seq s' \<le> p_seq (syslog_pos s')"
        "config_oops s' = config_oops s"
      and adv: "unread s' rs' = unread s rs' \<and> p_prev (syslog_pos s') = p_prev (syslog_pos s) \<or>
       (\<exists>m. unread s rs' = m # unread s' rs' \<and> p_prev (syslog_pos s') = m_flags m)"
      using syslog_section_reads [OF k1 ok1, of sz len] read.hyps(2) lo by auto
    from adv obtain gone' where "u0 @ ms = gone' @ unread s' rs'"
        "p_prev (syslog_pos s') = (if gone' = [] then p_prev (syslog_pos s0) else m_flags (last gone'))"
    proof (elim disjE exE conjE)
      assume "unread s' rs' = unread s rs'" "p_prev (syslog_pos s') = p_prev (syslog_pos s)"
      with g pp that [of gone] show thesis by simp
    next
      fix m assume "unread s rs' = m # unread s' rs'" "p_prev (syslog_pos s') = m_flags m"
      with g that [of "gone @ [m]"] show thesis by simp
    qed
    with s' out pt show ?case by (intro exI [of _ rs'] exI [of _ gone']) simp
  qed
  then show ?thesis by (auto simp: X_def u0_def)
qed

section \<open>A whole read\<close>

lemma syslog_loop_reads:
  "klog s rs \<Longrightarrow> syslog_ok s rs \<Longrightarrow> \<exists>c s'. syslog_loop sz out [] s = Some (int (length (out @ c)), out @ c, [], s') \<and> length c \<le> sz \<and>
     klog s' rs \<and> syslog_ok s' rs \<and> pending s rs = c @ pending s' rs"
proof (induction sz arbitrary: out s rule: less_induct)
  case (less sz)
  show ?case
  proof (cases "sz = 0")
    case True
    with less.prems show ?thesis by (subst syslog_loop.simps) auto
  next
    case False
    obtain c t where c: "syslog_section sz (length out) s = Some (c, t)" "length c \<le> sz" "klog t rs" "syslog_ok t rs" "pending s rs = c @ pending t rs"
      using syslog_section_reads [OF less.prems] by blast
    show ?thesis
    proof (cases "c = []")
      case True
      with c False show ?thesis by (subst syslog_loop.simps) auto
    next
      case ne: False
      obtain d u where d: "syslog_loop (sz - length c) (out @ c) [] t = Some (int (length ((out @ c) @ d)), (out @ c) @ d, [], u)"
          "length d \<le> sz - length c" "klog u rs" "syslog_ok u rs" "pending t rs = d @ pending u rs"
        using less.IH [OF _ c(3,4), of "sz - length c" "out @ c"] ne False by auto
      have "syslog_loop sz out [] s = Some (int (length (out @ c @ d)), out @ c @ d, [], u)"
        using False ne c(1) d(1) by (subst syslog_loop.simps) simp
      with c d show ?thesis by (intro exI [of _ "c @ d"] exI [of _ u]) auto
    qed
  qed
qed

lemma syslog_print_reads:
  assumes "klog s rs" and "syslog_ok s rs" and "\<not> config_oops s"
  shows "\<exists>out s'. syslog_print True sz [] s = Some (int (length out), out, s') \<and> length out \<le> sz \<and> klog s' rs \<and> syslog_ok s' rs \<and>
    pending s rs = out @ pending s' rs"
  using syslog_loop_reads [OF assms(1,2), of sz "[]"] assms(3) by (auto simp: syslog_print_def syslog_oops_buf_print_def)

text \<open>Records whose text is one line that is not empty have a text.\<close>

definition plain_msg :: "log_msg \<Rightarrow> bool" where
  "plain_msg m \<longleftrightarrow> nl \<notin> set (m_text m) \<and> m_text m \<noteq> [] \<and> length (m_text m) \<le> LOG_LINE_MAX"

lemma plain_text: "plain_msg m \<Longrightarrow> sys_text pt prev m \<noteq> []"
  using one_line_full [of m pt prev True] one_line_text [of m pt prev True] by (simp add: plain_msg_def)

lemma syslog_section_all:
  assumes k: "klog s rs" and ok: "syslog_ok s rs" and plain: "\<forall>m\<in>set rs. plain_msg m" and sz: "length (pending s rs) \<le> sz \<or> 0 < sz \<and> len = 0"
    and ne: "pending s rs \<noteq> []"
  shows "\<exists>c s'. syslog_section sz len s = Some (c, s') \<and> c \<noteq> []"
proof -
  obtain c s' where c: "syslog_section sz len s = Some (c, s')" using syslog_section_reads [OF k ok] by blast
  define t where "t = syslog_catch_up s"
  note cu = syslog_catch_up_ok [OF k ok, folded t_def]
  have pt: "pending t rs = drop (syslog_partial t) (log_texts (printk_time t) (p_prev (syslog_pos t)) (unread t rs))"
    using cu by (simp add: pending_def)
  with ne cu obtain m ms where un: "unread t rs = m # ms" by (cases "unread t rs") auto
  then have pm: "plain_msg m" using plain unfolding unread_def by (metis in_set_dropD list.set_intros(1))
  let ?t = "sys_text (printk_time t) (p_prev (syslog_pos t)) m"
  have part: "syslog_partial t < length ?t"
    using cu un plain_text [OF pm] by (cases "syslog_partial t = 0") (auto simp: syslog_ok_def)
  have cur: "reader_ok t (p_seq (syslog_pos t)) (p_idx (syslog_pos t))" using cu by (simp add: syslog_ok_def)
  have lo: "log_first_seq t \<le> p_seq (syslog_pos t)" using cu by simp
  obtain j where g: "log_get (log_buf t) (p_idx (syslog_pos t)) = Some m" "log_next (log_buf t) (p_idx (syslog_pos t)) = Some j"
    using ring_log.next_record [OF _ cur lo un [unfolded unread_def]] cu by blast
  have "p_seq (syslog_pos t) \<noteq> log_next_seq t"
    using un klog_seq [of t rs] cu by (auto simp: unread_def dest: arg_cong [of _ _ length])
  moreover have "length ?t - syslog_partial t \<le> sz \<or> 0 < sz \<and> len = 0"
  proof -
    have "length (pending t rs) \<le> sz \<or> 0 < sz \<and> len = 0" using sz cu by simp
    then show ?thesis unfolding pt un by auto
  qed
  ultimately have "\<exists>c s'. syslog_section sz len s = Some (c, s') \<and> (c = drop (syslog_partial t) ?t \<or> 0 < sz \<and> c = take sz (drop (syslog_partial t) ?t))"
    using g part by (auto simp: syslog_section_def t_def [symmetric] Let_def syslog_chunk_def)
  with part show ?thesis by auto
qed

text \<open>The same while other cpus store records: a read is a part of a run.\<close>

lemma syslog_run_stores: "stores syslog_pos s t ms' \<Longrightarrow> syslog_run s0 s ms out \<Longrightarrow> syslog_run s0 t (ms @ ms') out"
proof (induction rule: stores.induct)
  case (one_store t ms' clock facility level flags ts dict b u)
  then show ?case using syslog_run.store [of s0 t "ms @ ms'" out clock facility level flags ts dict b u] by simp
qed simp

lemma syslog_loop_run:
  assumes k: "klog s0 rs" and ok: "syslog_ok s0 rs" and seen: "log_first_seq s0 \<le> p_seq (syslog_pos s0)"
  shows "syslog_run s0 s ms sofar \<Longrightarrow> \<forall>(good, f) \<in> set env. good \<and> storing syslog_pos f \<Longrightarrow>
    \<exists>c env' s' ms'. syslog_loop sz out env s = Some (int (length (out @ c)), out @ c, env', s') \<and> length c \<le> sz \<and> syslog_run s0 s' (ms @ ms') (sofar @ c) \<and>
      (\<forall>b t. 0 < sz \<longrightarrow> syslog_section sz (length out) s = Some (b, t) \<longrightarrow> b \<noteq> [] \<longrightarrow> c \<noteq> [])"
proof (induction sz arbitrary: out s ms sofar env rule: less_induct)
  case (less sz)
  show ?case
  proof (cases "sz = 0")
    case True
    then show ?thesis using less.prems(1)
      by (intro exI [of _ "[]"] exI [of _ env] exI [of _ s]) (subst syslog_loop.simps, simp)
  next
    case False
    obtain rs' where i: "klog s rs'" "syslog_ok s rs'" using syslog_run_exact [OF less.prems(1) k ok seen] by blast
    obtain c t where c: "syslog_section sz (length out) s = Some (c, t)" "length c \<le> sz" "klog t rs'" "log_first_seq t \<le> p_seq (syslog_pos t)"
      using syslog_section_reads [OF i] by blast
    have r: "syslog_run s0 t ms (sofar @ c)" by (rule syslog_run.read [OF less.prems(1) c(1)])
    show ?thesis
    proof (cases "c = []")
      case True
      then show ?thesis using False c(1) r
        by (intro exI [of _ "[]"] exI [of _ env] exI [of _ t] exI [of _ "[]"]) (subst syslog_loop.simps, simp)
    next
      case ne: False
      obtain f env' where e: "env_next env = ((True, f), env')" "storing syslog_pos f" "\<forall>(good, f) \<in> set env'. good \<and> storing syslog_pos f"
      proof (cases env)
        case Nil
        have "storing syslog_pos (\<lambda>s. s)" using stores.no_store by (auto simp: storing_def)
        then show thesis using Nil that by simp
      qed (use less.prems(2) that in auto)
      obtain ms1 where m1: "stores syslog_pos t (f t) ms1" using e(2) c(3,4) by (auto simp: storing_def)
      have lt: "sz - length c < sz" using ne False by (cases c) auto
      obtain d env'' u ms2 where d: "syslog_loop (sz - length c) (out @ c) env' (f t) = Some (int (length ((out @ c) @ d)), (out @ c) @ d, env'', u)"
          "length d \<le> sz - length c" "syslog_run s0 u ((ms @ ms1) @ ms2) ((sofar @ c) @ d)"
        using less.IH [OF lt syslog_run_stores [OF m1 r] e(3), of "out @ c"] by blast
      have "syslog_loop sz out env s = Some (int (length (out @ c @ d)), out @ c @ d, env'', u)"
        using False ne c(1) d(1) e(1) by (subst syslog_loop.simps) simp
      moreover have "length (c @ d) \<le> sz" using d(2) c(2) by simp
      ultimately show ?thesis using d(3) ne
        by (intro exI [of _ "c @ d"] exI [of _ env''] exI [of _ u] exI [of _ "ms1 @ ms2"]) simp
    qed
  qed
qed

lemma syslog_print_run:
  assumes k: "klog s0 rs" and ok: "syslog_ok s0 rs" and seen: "log_first_seq s0 \<le> p_seq (syslog_pos s0)"
    and run: "syslog_run s0 s ms out" and env: "\<forall>(good, f) \<in> set env. good \<and> storing syslog_pos f" and cfg: "\<not> config_oops s0"
  shows "\<exists>c s' ms'. syslog_print True sz env s = Some (int (length c), c, s') \<and> length c \<le> sz \<and> syslog_run s0 s' (ms @ ms') (out @ c) \<and>
    (0 < sz \<and> klog s rs' \<and> syslog_ok s rs' \<and> pending s rs' \<noteq> [] \<and> (\<forall>m \<in> set rs'. plain_msg m) \<longrightarrow> c \<noteq> [])"
proof -
  have oo: "\<not> config_oops s" using syslog_run_exact [OF run k ok seen] cfg by auto
  obtain c env' s' ms' where "syslog_loop sz [] env s = Some (int (length c), c, env', s')" "length c \<le> sz" "syslog_run s0 s' (ms @ ms') (out @ c)"
      "\<forall>b t. 0 < sz \<longrightarrow> syslog_section sz 0 s = Some (b, t) \<longrightarrow> b \<noteq> [] \<longrightarrow> c \<noteq> []"
    using syslog_loop_run [OF k ok seen run env, of sz "[]"] by auto
  moreover have "0 < sz \<and> klog s rs' \<and> syslog_ok s rs' \<and> pending s rs' \<noteq> [] \<and> (\<forall>m \<in> set rs'. plain_msg m) \<longrightarrow>
      (\<exists>b t. syslog_section sz 0 s = Some (b, t) \<and> b \<noteq> [])"
    using syslog_section_all [of s rs' sz 0] by blast
  ultimately show ?thesis using oo
    by (intro exI [of _ c] exI [of _ s'] exI [of _ ms']) (auto simp: syslog_print_def syslog_oops_buf_print_def)
qed

lemma syslog_loop_all:
  "klog s rs \<Longrightarrow> syslog_ok s rs \<Longrightarrow> \<forall>m\<in>set rs. plain_msg m \<Longrightarrow> length (pending s rs) \<le> sz \<Longrightarrow>
   \<exists>s'. syslog_loop sz out [] s = Some (int (length (out @ pending s rs)), out @ pending s rs, [], s')"
proof (induction sz arbitrary: out s rule: less_induct)
  case (less sz)
  show ?case
  proof (cases "pending s rs = []")
    case True
    obtain c t where c: "syslog_section sz (length out) s = Some (c, t)" "pending s rs = c @ pending t rs"
      using syslog_section_reads [OF less.prems(1,2)] by blast
    with True show ?thesis by (subst syslog_loop.simps) auto
  next
    case False
    obtain c t where c: "syslog_section sz (length out) s = Some (c, t)" "length c \<le> sz" "klog t rs" "syslog_ok t rs" "pending s rs = c @ pending t rs"
      using syslog_section_reads [OF less.prems(1,2)] by blast
    have ne: "c \<noteq> []" using syslog_section_all [OF less.prems(1-3) disjI1 [OF less.prems(4)] False, of "length out"] c(1) by simp
    then have "sz \<noteq> 0" using c(2) by (cases c) auto
    have lt: "sz - length c < sz" using ne \<open>sz \<noteq> 0\<close> by (cases c) auto
    have le: "length (pending t rs) \<le> sz - length c" using less.prems(4) c(5) by simp
    obtain u where "syslog_loop (sz - length c) (out @ c) [] t = Some (int (length ((out @ c) @ pending t rs)), (out @ c) @ pending t rs, [], u)"
      using less.IH [OF lt c(3,4) less.prems(3) le, of "out @ c"] by auto
    with \<open>sz \<noteq> 0\<close> ne c(1,5) show ?thesis by (subst syslog_loop.simps) simp
  qed
qed

section \<open>With the oops buffer\<close>

lemma syslog_oops_rereads:
  assumes k: "klog s rs" and cfg: "config_oops s" "log_oops_first_seq s = ULLONG_MAX" "log_oops_last_seq s = 0"
    and ok: "syslog_ok s rs" and un: "unread s rs = [m]" "log_first_seq s \<le> p_seq (syslog_pos s)" "syslog_partial s = 0" and lost: "0 < log_first_seq s"
    and plain: "\<forall>m\<in>set rs. plain_msg m"
    and sz: "sz = length (sys_text (printk_time s) (p_prev (syslog_pos s)) m) + length (log_texts (printk_time s) 0 rs)"
  shows "\<exists>s'. syslog_print True sz [] s = Some (int sz, sys_text (printk_time s) (p_prev (syslog_pos s)) m @ log_texts (printk_time s) 0 rs, s')"
proof -
  let ?t = "sys_text (printk_time s) (p_prev (syslog_pos s)) m"
  define s1 where "s1 = syslog_oops_start s"
  have lt: "p_seq (syslog_pos s) < ULLONG_MAX" using ok k by (auto simp: syslog_ok_def klog_def)
  then have s1: "s1 = s\<lparr>syslog_pos := (syslog_pos s)\<lparr>p_seq := ULLONG_MAX\<rparr>, syslog_oops_buf_idx := 0\<rparr>"
    using cfg by (simp add: s1_def syslog_oops_start_def)
  have loop: "syslog_oops_loop sz [] [] s1 = Some (0, [], [], s1)"
    using cfg by (subst syslog_oops_loop.simps) (simp add: s1 syslog_oops_section_def)
  have pm: "plain_msg m" using plain un(1) unfolding unread_def by (metis in_set_dropD list.set_intros(1))
  have cur: "reader_ok s (p_seq (syslog_pos s)) (p_idx (syslog_pos s))" using ok by (simp add: syslog_ok_def)
  obtain j where g: "log_get (log_buf s) (p_idx (syslog_pos s)) = Some m" "log_next (log_buf s) (p_idx (syslog_pos s)) = Some j"
    using ring_log.next_record [OF k cur un(2) un(1) [unfolded unread_def]] by blast
  define s2 where "s2 = s1\<lparr>syslog_pos := \<lparr>p_seq = 0, p_idx = j, p_prev = m_flags m\<rparr>, syslog_partial := 0\<rparr>"
  have sz0: "sz \<noteq> 0" using sz plain_text [OF pm, of "printk_time s" "p_prev (syslog_pos s)"] by simp
  have nx: "log_next_seq s < ULLONG_MAX" using k by (simp add: klog_def)
  then have cu: "syslog_catch_up s1 = s1" using klog_first_next [OF k] by (simp add: syslog_catch_up_def s1)
  have sec: "syslog_section sz 0 s1 = Some (?t, s2)"
    unfolding syslog_section_def cu Let_def using g un(3) nx sz
    by (simp add: s1 s2_def syslog_chunk_def seq_inc_def) (simp add: ULLONG_MAX_def)
  have k2: "klog s2 rs" using k by (simp add: s2_def s1 klog_def)
  have ok2: "syslog_ok s2 rs" using lost by (simp add: syslog_ok_def s2_def s1 reader_ok_def)
  have p2: "pending s2 rs = log_texts (printk_time s) 0 rs" using lost by (simp add: pending_def s2_def s1)
  obtain s' where "syslog_loop (sz - length ?t) ?t [] s2 = Some (int (length (?t @ pending s2 rs)), ?t @ pending s2 rs, [], s')"
    using syslog_loop_all [OF k2 ok2 plain, of "sz - length ?t" ?t] p2 sz by auto
  with sec p2 have s': "syslog_loop sz [] [] s1 = Some (int (length (?t @ log_texts (printk_time s) 0 rs)), ?t @ log_texts (printk_time s) 0 rs, [], s')"
    using plain_text [OF pm, of "printk_time s" "p_prev (syslog_pos s)"] sz0 by (simp add: syslog_loop.simps [of sz])
  show ?thesis
    using loop s' cfg sz by (simp add: syslog_print_def syslog_oops_buf_print_def s1_def [symmetric])
qed

end
