(* ===== verification/PrintkReaders.thy ===== *)
theory PrintkReaders
  imports PrintkSyslog
begin

text \<open>
  The dumpers and the device: a dumper takes the youngest records that fit, block by block, and each
  record once; a reader of the device gets each record once, in a text that fits its buffer. Two ways in
  which this fails: a block that fits to the last byte, and the oops buffer before the first record.
\<close>

section \<open>Lengths and positions\<close>

fun log_sizes :: "bool \<Rightarrow> log_flags \<Rightarrow> log_msg list \<Rightarrow> nat" where
  "log_sizes pt prev [] = 0"
| "log_sizes pt prev (m # ms) = msg_print_len pt m prev True + log_sizes pt (m_flags m) ms"

text \<open>The records from a position to the number \<open>next\<close>.\<close>

definition records_from :: "printk \<Rightarrow> log_msg list \<Rightarrow> nat \<Rightarrow> nat \<Rightarrow> log_msg list" where
  "records_from s rs q next = take (next - q) (drop (q - log_first_seq s) rs)"

lemma records_from_Cons:
  assumes k: "klog s rs" and r: "reader_ok s q i" and lo: "log_first_seq s \<le> q" and q: "q < next" and hi: "next \<le> log_next_seq s"
  shows "\<exists>m j. log_get (log_buf s) i = Some m \<and> log_next (log_buf s) i = Some j \<and> reader_ok s (Suc q) j \<and>
    records_from s rs q next = m # records_from s rs (Suc q) next"
proof -
  have "q - log_first_seq s < length rs" using lo q hi klog_seq [OF k] by linarith
  then obtain m ms where left: "drop (q - log_first_seq s) rs = m # ms" by (cases "drop (q - log_first_seq s) rs") auto
  have "next - q = Suc (next - Suc q)" using q by simp
  with ring_log.next_record [OF k r lo left] left show ?thesis by (auto simp: records_from_def)
qed

lemma records_from_Nil [simp]: "next \<le> q \<Longrightarrow> records_from s rs q next = []"
  by (simp add: records_from_def)

lemma log_lens_eq:
  assumes k: "klog s rs" and hi: "next \<le> log_next_seq s"
  shows "reader_ok s (p_seq pos) (p_idx pos) \<Longrightarrow> log_first_seq s \<le> p_seq pos \<Longrightarrow>
    log_lens s pos next = Some (log_sizes (printk_time s) (p_prev pos) (records_from s rs (p_seq pos) next))"
proof (induction "next - p_seq pos" arbitrary: pos)
  case 0
  then show ?case by (subst log_lens.simps) simp
next
  case (Suc n)
  then have q: "p_seq pos < next" by simp
  obtain m j where m: "log_get (log_buf s) (p_idx pos) = Some m" "log_next (log_buf s) (p_idx pos) = Some j" "reader_ok s (Suc (p_seq pos)) j"
      "records_from s rs (p_seq pos) next = m # records_from s rs (Suc (p_seq pos)) next"
    using records_from_Cons [OF k Suc.prems q hi] by blast
  have "log_lens s \<lparr>p_seq = Suc (p_seq pos), p_idx = j, p_prev = m_flags m\<rparr> next =
      Some (log_sizes (printk_time s) (m_flags m) (records_from s rs (Suc (p_seq pos)) next))"
    using Suc.hyps(1) [of "\<lparr>p_seq = Suc (p_seq pos), p_idx = j, p_prev = m_flags m\<rparr>"] Suc.hyps(2) Suc.prems m(3) by simp
  with q m show ?case by (subst log_lens.simps) simp
qed

text \<open>What is skipped: the fewest records after which the rest has at most \<open>limit\<close> bytes.\<close>

lemma log_skip_eq:
  assumes k: "klog s rs" and hi: "next \<le> log_next_seq s"
  shows "reader_ok s (p_seq pos) (p_idx pos) \<Longrightarrow> log_first_seq s \<le> p_seq pos \<Longrightarrow>
    \<exists>pos' gone. log_skip s limit len pos next = Some pos' \<and> records_from s rs (p_seq pos) next = gone @ records_from s rs (p_seq pos') next \<and>
      reader_ok s (p_seq pos') (p_idx pos') \<and> p_seq pos' = p_seq pos + length gone \<and>
      (len - int (log_sizes (printk_time s) (p_prev pos) gone) \<le> limit \<or> records_from s rs (p_seq pos') next = []) \<and>
      (gone \<noteq> [] \<longrightarrow> len - int (log_sizes (printk_time s) (p_prev pos) (butlast gone)) > limit)"
proof (induction "next - p_seq pos" arbitrary: pos len)
  case 0
  then have "log_skip s limit len pos next = Some pos" by (subst log_skip.simps) simp
  with 0 show ?case by (intro exI [of _ pos] exI [of _ "[]"]) simp
next
  case (Suc n)
  then have q: "p_seq pos < next" by simp
  show ?case
  proof (cases "len > limit")
    case False
    then have "log_skip s limit len pos next = Some pos" by (subst log_skip.simps) simp
    with False Suc.prems show ?thesis by (intro exI [of _ pos] exI [of _ "[]"]) simp
  next
    case True
    obtain m j where m: "log_get (log_buf s) (p_idx pos) = Some m" "log_next (log_buf s) (p_idx pos) = Some j" "reader_ok s (Suc (p_seq pos)) j"
        "records_from s rs (p_seq pos) next = m # records_from s rs (Suc (p_seq pos)) next"
      using records_from_Cons [OF k Suc.prems q hi] by blast
    let ?l = "len - int (msg_print_len (printk_time s) m (p_prev pos) True)"
    let ?p = "\<lparr>p_seq = Suc (p_seq pos), p_idx = j, p_prev = m_flags m\<rparr>"
    have n: "n = next - p_seq ?p" using Suc.hyps(2) by simp
    obtain pos' gone where ih: "log_skip s limit ?l ?p next = Some pos'"
        "records_from s rs (Suc (p_seq pos)) next = gone @ records_from s rs (p_seq pos') next"
        "reader_ok s (p_seq pos') (p_idx pos')" "p_seq pos' = Suc (p_seq pos) + length gone"
        "?l - int (log_sizes (printk_time s) (m_flags m) gone) \<le> limit \<or> records_from s rs (p_seq pos') next = []"
        "gone \<noteq> [] \<longrightarrow> ?l - int (log_sizes (printk_time s) (m_flags m) (butlast gone)) > limit"
    proof -
      have "reader_ok s (p_seq ?p) (p_idx ?p)" "log_first_seq s \<le> p_seq ?p" using m(3) Suc.prems(2) by simp_all
      from Suc.hyps(1) [of ?p ?l, OF n this] show thesis by (elim exE conjE) (rule that; (unfold log_pos.simps)?; assumption)
    qed
    have "log_skip s limit len pos next = Some pos'" using True q m ih(1) by (subst log_skip.simps) simp
    with ih m(4) True show ?thesis
      by (intro exI [of _ pos'] exI [of _ "m # gone"]) (auto simp: algebra_simps)
  qed
qed

section \<open>Dumping into a buffer\<close>

fun dump_out :: "bool \<Rightarrow> bool \<Rightarrow> nat \<Rightarrow> u8 list \<Rightarrow> log_flags \<Rightarrow> log_msg list \<Rightarrow> u8 list" where
  "dump_out pt syslog sz out prev [] = out"
| "dump_out pt syslog sz out prev (m # ms) = dump_out pt syslog sz (out @ msg_print_text pt m prev syslog (sz - length out)) (m_flags m) ms"

lemma dump_texts_eq:
  assumes k: "klog s rs" and hi: "next \<le> log_next_seq s"
  shows "reader_ok s (p_seq pos) (p_idx pos) \<Longrightarrow> log_first_seq s \<le> p_seq pos \<Longrightarrow>
    dump_texts s syslog sz out pos next = Some (dump_out (printk_time s) syslog sz out (p_prev pos) (records_from s rs (p_seq pos) next))"
proof (induction "next - p_seq pos" arbitrary: pos out)
  case 0
  then show ?case by (subst dump_texts.simps) simp
next
  case (Suc n)
  then have q: "p_seq pos < next" by simp
  obtain m j where m: "log_get (log_buf s) (p_idx pos) = Some m" "log_next (log_buf s) (p_idx pos) = Some j" "reader_ok s (Suc (p_seq pos)) j"
      "records_from s rs (p_seq pos) next = m # records_from s rs (Suc (p_seq pos)) next"
    using records_from_Cons [OF k Suc.prems q hi] by blast
  let ?out = "out @ msg_print_text (printk_time s) m (p_prev pos) syslog (sz - length out)"
  have "dump_texts s syslog sz ?out \<lparr>p_seq = Suc (p_seq pos), p_idx = j, p_prev = m_flags m\<rparr> next =
      Some (dump_out (printk_time s) syslog sz ?out (m_flags m) (records_from s rs (Suc (p_seq pos)) next))"
    using Suc.hyps(1) [of "\<lparr>p_seq = Suc (p_seq pos), p_idx = j, p_prev = m_flags m\<rparr>" ?out] Suc.hyps(2) Suc.prems m(3) by simp
  with q m show ?case by (subst dump_texts.simps) simp
qed

text \<open>The buffer is never overrun.\<close>

lemma dump_out_bound: "length out \<le> sz \<Longrightarrow> length (dump_out pt syslog sz out prev ms) \<le> sz"
proof (induction ms arbitrary: out prev)
  case (Cons m ms)
  have "length (msg_print_text pt m prev syslog (sz - length out)) \<le> sz - length out"
    using msg_print_text_bound [of "sz - length out" pt m prev syslog]
    by (cases "sz - length out = 0") (auto simp: msg_print_text_def print_lines.simps [of _ _ _ 0])
  then show ?case using Cons by simp
qed simp

text \<open>The texts, each in full.\<close>

fun full_texts :: "bool \<Rightarrow> bool \<Rightarrow> log_flags \<Rightarrow> log_msg list \<Rightarrow> u8 list" where
  "full_texts pt syslog prev [] = []"
| "full_texts pt syslog prev (m # ms) = msg_text pt m prev syslog @ full_texts pt syslog (m_flags m) ms"

lemma length_full_texts: "length (full_texts pt True prev ms) = log_sizes pt prev ms"
  by (induction ms arbitrary: prev) (simp_all add: length_msg_text)

lemma dump_out_full:
  "length out + length (full_texts pt syslog prev ms) + 28 < sz \<Longrightarrow> dump_out pt syslog sz out prev ms = out @ full_texts pt syslog prev ms"
proof (induction ms arbitrary: out prev)
  case (Cons m ms)
  have "msg_print_text pt m prev syslog (sz - length out) = msg_text pt m prev syslog"
    by (rule msg_print_text_full) (use Cons.prems print_prefix_len_le [of pt m syslog] in \<open>auto simp: length_msg_text\<close>)
  then show ?case using Cons by simp
qed simp

section \<open>The dumpers\<close>

definition dumper_ok :: "printk \<Rightarrow> kmsg_dumper \<Rightarrow> bool" where
  "dumper_ok s d \<longleftrightarrow> reader_ok s (cur_seq d) (cur_idx d) \<and> d_next_seq d \<le> log_next_seq s"

text \<open>The records between the dumper's two positions that are still there.\<close>

definition to_dump :: "printk \<Rightarrow> log_msg list \<Rightarrow> kmsg_dumper \<Rightarrow> log_msg list" where
  "to_dump s rs d = records_from s rs (max (cur_seq d) (log_first_seq s)) (d_next_seq d)"

lemma dumper_catch_up_ok:
  assumes "klog s rs" and "dumper_ok s d"
  shows "let d' = dumper_catch_up s d in reader_ok s (cur_seq d') (cur_idx d') \<and> log_first_seq s \<le> cur_seq d' \<and>
    cur_seq d' = max (cur_seq d) (log_first_seq s) \<and> d_next_seq d' = d_next_seq d \<and> d_active d' = d_active d"
  using assms klog_first_next by (auto simp: dumper_ok_def dumper_catch_up_def Let_def)

text \<open>The size of the records from number \<open>k\<close> on, each counted after its predecessor.\<close>

definition tail_size :: "bool \<Rightarrow> log_msg list \<Rightarrow> nat \<Rightarrow> nat" where
  "tail_size pt ms k = log_sizes pt (if k = 0 then 0 else m_flags (ms ! (k - 1))) (drop k ms)"

lemma log_sizes_append: "log_sizes pt prev (xs @ ys) = log_sizes pt prev xs + log_sizes pt (if xs = [] then prev else m_flags (last xs)) ys"
  by (induction xs arbitrary: prev) auto

lemma tail_size_take: "k \<le> length ms \<Longrightarrow> log_sizes pt 0 ms = log_sizes pt 0 (take k ms) + tail_size pt ms k"
proof -
  assume k: "k \<le> length ms"
  have "(if take k ms = [] then 0 else m_flags (last (take k ms))) = (if k = 0 then 0 else m_flags (ms ! (k - 1)))"
    using k by (cases k) (auto simp: take_Suc_conv_app_nth)
  then show ?thesis using log_sizes_append [of pt 0 "take k ms" "drop k ms"] by (simp add: tail_size_def)
qed

lemma tail_size_mono: "k \<le> j \<Longrightarrow> j \<le> length ms \<Longrightarrow> tail_size pt ms j \<le> tail_size pt ms k"
proof -
  assume kj: "k \<le> j" "j \<le> length ms"
  have "take j ms = take k ms @ drop k (take j ms)" using kj(1) append_take_drop_id [of k "take j ms"] by (simp add: min_absorb1)
  then have "log_sizes pt 0 (take k ms) \<le> log_sizes pt 0 (take j ms)" by (metis le_add1 log_sizes_append)
  then show ?thesis using tail_size_take [of k ms pt] tail_size_take [of j ms pt] kj by simp
qed

lemma kmsg_dump_get_buffer_block:
  assumes k: "klog s rs" and ok: "dumper_ok s d" and act: "d_active d" and some: "to_dump s rs d \<noteq> []"
  shows "\<exists>old block d'. to_dump s rs d = old @ block \<and>
    kmsg_dump_get_buffer s syslog sz d = Some (True, dump_out (printk_time s) syslog sz [] 0 block, d') \<and>
    d_active d' \<and> dumper_ok s d' \<and> to_dump s rs d' = old \<and>
    (old = [] \<longleftrightarrow> log_sizes (printk_time s) 0 (to_dump s rs d) \<le> sz) \<and>
    tail_size (printk_time s) (to_dump s rs d) (length old) \<le> sz \<and> (\<forall>k < length old. sz < tail_size (printk_time s) (to_dump s rs d) k)"
proof -
  define e where "e = dumper_catch_up s d"
  have e: "reader_ok s (cur_seq e) (cur_idx e)" "log_first_seq s \<le> cur_seq e" "cur_seq e = max (cur_seq d) (log_first_seq s)"
      "d_next_seq e = d_next_seq d" "d_active e"
    using dumper_catch_up_ok [OF k ok, unfolded Let_def, folded e_def] act by blast+
  let ?all = "to_dump s rs d" and ?p = "\<lparr>p_seq = cur_seq e, p_idx = cur_idx e, p_prev = 0\<rparr>"
  have all: "?all = records_from s rs (cur_seq e) (d_next_seq e)" by (simp add: to_dump_def e)
  have hi: "d_next_seq e \<le> log_next_seq s" using ok e by (simp add: dumper_ok_def)
  have lt: "cur_seq e < d_next_seq e" using some all by (cases "d_next_seq e \<le> cur_seq e") simp_all
  have n: "log_lens s ?p (d_next_seq e) = Some (log_sizes (printk_time s) 0 ?all)"
    using log_lens_eq [OF k hi, of ?p] e all by simp
  obtain pos old where p: "log_skip s (int sz) (int (log_sizes (printk_time s) 0 ?all)) ?p (d_next_seq e) = Some pos"
      "?all = old @ records_from s rs (p_seq pos) (d_next_seq e)" "reader_ok s (p_seq pos) (p_idx pos)" "p_seq pos = cur_seq e + length old"
      "old \<noteq> [] \<longrightarrow> int (log_sizes (printk_time s) 0 ?all) - int (log_sizes (printk_time s) 0 (butlast old)) > int sz"
      "int (log_sizes (printk_time s) 0 ?all) - int (log_sizes (printk_time s) 0 old) \<le> int sz \<or> records_from s rs (p_seq pos) (d_next_seq e) = []"
  proof -
    have "reader_ok s (p_seq ?p) (p_idx ?p)" "log_first_seq s \<le> p_seq ?p" using e by simp_all
    from log_skip_eq [OF k hi this, of "int sz" "int (log_sizes (printk_time s) 0 ?all)"] show thesis
      by (elim exE conjE) (rule that; (unfold log_pos.simps all)?; assumption)
  qed
  have x: "dump_texts s syslog sz [] (pos\<lparr>p_prev := 0\<rparr>) (d_next_seq e) =
      Some (dump_out (printk_time s) syslog sz [] 0 (records_from s rs (p_seq pos) (d_next_seq e)))"
    using dump_texts_eq [OF k hi, of "pos\<lparr>p_prev := 0\<rparr>"] p e by simp
  define d' where "d' = e\<lparr>d_next_seq := p_seq pos, d_next_idx := p_idx pos\<rparr>"
  have len: "length ?all = d_next_seq e - cur_seq e"
    using hi e(2) klog_seq [OF k] by (simp add: all records_from_def)
  then have pos_le: "p_seq pos \<le> d_next_seq e" using p(2,4) lt by (metis add_diff_inverse_nat le_add1 length_append less_or_eq_imp_le nat_add_left_cancel_le not_less)
  have ol: "length old \<le> d_next_seq e - cur_seq e" using p(4) pos_le by linarith
  have "old = take (length old) ?all" using p(2) by simp
  also have "\<dots> = records_from s rs (cur_seq e) (p_seq pos)"
    using p(4) ol by (simp add: all records_from_def min_absorb1)
  finally have old: "to_dump s rs d' = old" using e(2) by (simp add: to_dump_def d'_def)
  have fits: "old = [] \<longleftrightarrow> log_sizes (printk_time s) 0 ?all \<le> sz"
  proof
    assume "old = []"
    with p(2,6) some show "log_sizes (printk_time s) 0 ?all \<le> sz" by auto
  next
    assume le: "log_sizes (printk_time s) 0 ?all \<le> sz"
    show "old = []" using p(5) le by (cases "old = []") linarith+
  qed
  let ?tail = "tail_size (printk_time s) ?all"
  have ole: "length old \<le> length ?all" using p(2) by simp
  have sum: "log_sizes (printk_time s) 0 ?all = log_sizes (printk_time s) 0 old + ?tail (length old)"
    using tail_size_take [OF ole, of "printk_time s"] p(2) by (metis append_eq_conv_conj)
  have tail: "?tail (length old) \<le> sz"
  proof (cases "records_from s rs (p_seq pos) (d_next_seq e) = []")
    case True
    then have "length old = length ?all" using p(2) by simp
    then show ?thesis by (simp add: tail_size_def)
  qed (use p(6) sum in linarith)
  have least: "sz < ?tail k" if k: "k < length old" for k
  proof -
    have "butlast old = take (length old - 1) ?all" using p(2) by (metis butlast_conv_take diff_le_self take_all_iff take_append take_take min.absorb1 append_Nil2 diff_is_0_eq take_0)
    then have "log_sizes (printk_time s) 0 ?all = log_sizes (printk_time s) 0 (butlast old) + ?tail (length old - 1)"
      using tail_size_take [of "length old - 1" ?all "printk_time s"] ole by simp
    moreover have "old \<noteq> []" using k by auto
    ultimately have "sz < ?tail (length old - 1)" using p(5) by linarith
    moreover have "?tail (length old - 1) \<le> ?tail k" by (rule tail_size_mono) (use k ole in auto)
    ultimately show ?thesis by simp
  qed
  have "kmsg_dump_get_buffer s syslog sz d = Some (True, dump_out (printk_time s) syslog sz [] 0 (records_from s rs (p_seq pos) (d_next_seq e)), d')"
    using act lt n p(1) x by (simp add: kmsg_dump_get_buffer_def e_def [symmetric] Let_def d'_def)
  moreover have "dumper_ok s d'" using e pos_le hi by (simp add: dumper_ok_def d'_def)
  moreover have "d_active d'" using e(5) by (simp add: d'_def)
  ultimately show ?thesis using p(2) old fits tail least by (intro exI [of _ old] exI [of _ "records_from s rs (p_seq pos) (d_next_seq e)"] exI [of _ d']) simp
qed

text \<open>A record that fills the buffer to the last byte is passed over, and nothing is copied.\<close>

lemma one_line_len:
  "nl \<notin> set (m_text m) \<Longrightarrow> starts_line prev (m_flags m) \<Longrightarrow> ends_line (m_flags m) \<Longrightarrow>
   msg_print_len pt m prev syslog = print_prefix_len pt m syslog + length (m_text m) + 1"
  by (simp add: length_msg_text [symmetric] one_line_text length_print_prefix)

lemma kmsg_dump_exact_fit:
  assumes k: "klog s rs" and ok: "dumper_ok s d" and act: "d_active d" and one: "to_dump s rs d = [m]"
    and line: "nl \<notin> set (m_text m)" "starts_line 0 (m_flags m)" "ends_line (m_flags m)"
  shows "\<exists>d'. kmsg_dump_get_buffer s True (msg_print_len (printk_time s) m 0 True) d = Some (True, [], d') \<and> to_dump s rs d' = []"
proof -
  let ?sz = "msg_print_len (printk_time s) m 0 True"
  have ne: "to_dump s rs d \<noteq> []" using one by simp
  obtain old block d' where b: "[m] = old @ block"
      "kmsg_dump_get_buffer s True ?sz d = Some (True, dump_out (printk_time s) True ?sz [] 0 block, d')" "to_dump s rs d' = old"
      "old = [] \<longleftrightarrow> log_sizes (printk_time s) 0 [m] \<le> ?sz"
    using kmsg_dump_get_buffer_block [OF k ok act ne, of True ?sz] unfolding one by blast
  have "old = []" using b(4) by simp
  moreover from this have "block = [m]" using b(1) by simp
  moreover have "msg_print_text (printk_time s) m 0 True ?sz = []"
  proof -
    have fl: "first_line (m_text m) = m_text m" using line(1) by (auto simp: takeWhile_eq_all_conv)
    show ?thesis unfolding msg_print_text_def
      by (subst print_lines.simps) (simp only: Let_def fl one_line_len [OF line] minus_nat.diff_0 order_refl if_True)
  qed
  ultimately have "dump_out (printk_time s) True ?sz [] 0 block = []" by (simp only: dump_out.simps append_Nil list.size minus_nat.diff_0)
  then show ?thesis using b(2,3) \<open>old = []\<close> by (intro exI [of _ d']) (simp only: simp_thms)
qed

section \<open>The device\<close>

lemma devkmsg_section_reads:
  assumes k: "klog s rs" and cfg: "\<not> config_oops s \<or> log_oops_first_seq s = ULLONG_MAX" and u: "reader_ok s (p_seq u) (p_idx u)" and lo: "log_first_seq s \<le> p_seq u" and hi: "p_seq u < log_next_seq s"
  shows "\<exists>idx. devkmsg_section u s = Some (Inr (devkmsg_text (p_seq u) (p_prev u) (rs ! (p_seq u - log_first_seq s))),
      \<lparr>p_seq = Suc (p_seq u), p_idx = idx, p_prev = m_flags (rs ! (p_seq u - log_first_seq s))\<rparr>) \<and> reader_ok s (Suc (p_seq u)) idx"
proof -
  have inc: "seq_inc (p_seq u) = Suc (p_seq u)" using hi k by (auto simp: seq_inc_def klog_def ULLONG_MAX_def)
  show ?thesis
    using reader_step [OF k u lo hi] cfg lo inc
    by (auto simp: devkmsg_section_def devkmsg_seq_passed_def devkmsg_place_def Let_def)
qed

lemma devkmsg_section_gone:
  "\<not> config_oops s \<or> log_oops_first_seq s = ULLONG_MAX \<Longrightarrow> p_seq u < log_first_seq s \<Longrightarrow>
   devkmsg_section u s = Some (Inl (- EPIPE), u\<lparr>p_idx := log_first_idx s, p_seq := log_first_seq s\<rparr>)"
  by (auto simp: devkmsg_section_def devkmsg_seq_passed_def)

lemma length_escape: "length (escape c) \<le> 4"
  by (simp add: escape_def hex2_def)

lemma length_escapes: "length (concat (map escape t)) \<le> 4 * length t"
proof (induction t)
  case (Cons c t)
  then show ?case using length_escape [of c] by simp
qed simp

lemma length_dict_text: "length (dict_text line d) \<le> 4 * length d + (if line then 1 else 0)"
proof (induction line d rule: dict_text.induct)
  case (2 line c cs)
  then show ?case using length_escape [of c] by (cases "c = 0") auto
qed simp

lemma devkmsg_text_bound:
  assumes "length (m_text m) \<le> LOG_LINE_MAX" and "length (m_dict m) \<le> 1000" and "sq \<le> ULLONG_MAX"
  shows "length (devkmsg_text sq prev m) \<le> 8192"
proof -
  have "length (dec (syslog_prefix m)) \<le> 4" using length_dec_le [of "syslog_prefix m" 3] syslog_prefix_less [of m] by simp
  moreover have "length (dec sq) \<le> 20" using length_dec_le [of sq 19] assms(3) by (simp add: ULLONG_MAX_def)
  moreover have "unat (ts_nsec m) < 2 ^ 64" using unsigned_less [of "ts_nsec m", where 'a = nat] by simp
  then have "length (dec (unat (ts_nsec m) div 1000)) \<le> 20"
    using length_dec_le [of "unat (ts_nsec m) div 1000" 19] by (simp add: div_less_iff_less_mult)
  moreover have "length (devkmsg_cont prev (m_flags m)) = 1" by (simp add: devkmsg_cont_def)
  moreover have "length (concat (map escape (m_text m))) \<le> 3968"
    using length_escapes [of "m_text m"] assms(1) by (simp add: LOG_LINE_MAX_def)
  moreover have "length (dict_text True (m_dict m)) \<le> 4001" using length_dict_text [of True "m_dict m"] assms(2) by simp
  ultimately show ?thesis by (simp add: devkmsg_text_def)
qed

text \<open>With an oops announced and its buffer still empty, the first reader finds a record of zeros.\<close>

lemma replicate_hdr: "sizeof_log \<le> k \<Longrightarrow> log_get (replicate k 0) 0 = Some \<lparr>ts_nsec = 0, m_len = 0, m_facility = 0, m_flags = 0, m_level = 0, m_text = [], m_dict = []\<rparr> \<and>
   log_next (replicate k 0) 0 = Some 0"
  by (simp add: log_get_def log_next_def log_from_idx_def msg_len_def msg_at_def sizeof_log_def take_replicate numeral_2_eq_2 Let_def
      eval_nat_numeral)

lemma devkmsg_oops_empty:
  assumes cfg: "config_oops s" and first: "log_oops_first_seq s \<noteq> ULLONG_MAX" and b: "log_oops_buf s = replicate k 0" "sizeof_log \<le> k"
    and u: "p_seq u = log_oops_first_seq s" "p_prev u = 0"
  shows "devkmsg_section u s = Some (Inr (str ''0,'' @ dec (p_seq u) @ str '',0,-;'' @ [nl]), \<lparr>p_seq = seq_inc (p_seq u), p_idx = 0, p_prev = 0\<rparr>)"
proof -
  have "dec 0 = str ''0''" by (simp add: dec.simps str_def)
  then show ?thesis
    using assms replicate_hdr [OF b(2)]
    by (simp add: devkmsg_section_def devkmsg_seq_passed_def devkmsg_place_def devkmsg_text_def devkmsg_cont_def has_flag_def syslog_prefix_def str_def)
qed

end
