(* ===== verification/PrintkProof.thy ===== *)
theory PrintkProof
  imports PrintkEmit PrintkReaders
begin

text \<open>
  Emitting and the consoles: a line printed in pieces becomes one record, and \<open>console_unlock\<close> gives each
  record to the drivers once. The mark \<open>LOG_NOCONS\<close> is cleared in the buffer, which leaves the ring as it is.
\<close>

unbundle bit_operations_syntax

section \<open>Clearing the mark of a record\<close>

definition clear_mark :: "log_msg \<Rightarrow> log_msg" where
  "clear_mark m = m\<lparr>m_flags := m_flags m AND NOT LOG_NOCONS\<rparr>"

lemma flags_byte_clear:
  "(ucast (f :: 5 word) OR push_bit 5 (ucast (l :: 3 word)) :: u8) AND NOT 1 = ucast (f AND NOT LOG_NOCONS) OR push_bit 5 (ucast l)"
  by (rule bit_word_eqI) (auto simp: bit_simps LOG_NOCONS_def dest: bit_imp_le_length)

lemma put_clear_mark: "put_msg (clear_mark m) = (put_msg m)[15 := put_msg m ! 15 AND NOT 1]"
  by (simp add: put_msg_def put_hdr_def clear_mark_def list_update_append nth_append sizeof_log_def flags_byte_clear [simplified])

lemma clear_mark_size [simp]: "rec_size (clear_mark m) = rec_size m" "msg_ok (clear_mark m) = msg_ok m"
  by (simp_all add: rec_size_def put_clear_mark msg_ok_def) (simp_all add: clear_mark_def)

lemma placed_clear_mark: "placed b i m \<Longrightarrow> placed (b[i + 15 := b ! (i + 15) AND NOT 1]) i (clear_mark m)"
proof -
  assume "placed b i m"
  from placed_split [OF this] obtain xs ys where b: "b = xs @ put_msg m @ ys" "length xs = i" by blast
  have "15 < length (put_msg m)" using rec_size_ge [of m] by (simp add: rec_size_def sizeof_log_def)
  then have "b[i + 15 := b ! (i + 15) AND NOT 1] = xs @ put_msg (clear_mark m) @ ys"
    by (simp add: b put_clear_mark list_update_append nth_append)
  then show ?thesis using placed_append b(2) by metis
qed

lemma rec_sum_take_le: "d < length ms \<Longrightarrow> rec_sum (take d ms) + rec_size (ms ! d) \<le> rec_sum ms"
proof -
  assume "d < length ms"
  then have "rec_sum ms = rec_sum (take d ms) + rec_size (ms ! d) + rec_sum (drop (Suc d) ms)"
    by (metis add.assoc id_take_nth_drop rec_sum.simps(2) rec_sum_append)
  then show ?thesis by simp
qed

lemma rec_size_16: "15 < rec_size m"
  using rec_size_ge [of m] by (simp add: sizeof_log_def)

lemma contig_clear_mark:
  "contig b i ms \<Longrightarrow> d < length ms \<Longrightarrow> k = i + rec_sum (take d ms) + 15 \<Longrightarrow>
   contig (b[k := b ! k AND NOT 1]) i (ms[d := clear_mark (ms ! d)])"
proof (induction ms arbitrary: i d)
  case (Cons m ms)
  show ?case
  proof (cases d)
    case 0
    have "contig (b[i + 15 := b ! (i + 15) AND NOT 1]) (i + rec_size m) ms"
      by (rule contig_cong [where b = b]) (use Cons.prems rec_size_16 [of m] in auto)
    then show ?thesis using Cons.prems 0 placed_clear_mark by auto
  next
    case (Suc e)
    have "placed (b[k := b ! k AND NOT 1]) i m"
      by (rule placed_cong [where b = b]) (use Cons.prems Suc in auto)
    moreover have "contig (b[k := b ! k AND NOT 1]) (i + rec_size m) (ms[e := clear_mark (ms ! e)])"
      by (rule Cons.IH) (use Cons.prems Suc in auto)
    ultimately show ?thesis using Suc by simp
  qed
qed simp

lemma rec_sum_sizes: "map rec_size xs = map rec_size ys \<Longrightarrow> rec_sum (take k xs) = rec_sum (take k ys)"
proof (induction xs arbitrary: ys k)
  case (Cons x xs)
  then obtain y ys' where "ys = y # ys'" by (cases ys) auto
  with Cons show ?case by (cases k) auto
qed simp

lemma clear_mark_sizes: "map rec_size (ms[d := clear_mark (ms ! d)]) = map rec_size ms"
  by (simp add: map_update list_update_id) (metis list_update_id nth_map clear_mark_size(1) length_map list_update_beyond map_update not_less)

lemma layout_clear_mark:
  assumes l: "layout b i xs ys j" and ok: "\<forall>m\<in>set (xs @ ys). msg_ok m" and d: "d < length (xs @ ys)"
    and k: "log_from_idx b (idx_at i xs ys d) = Some k"
  shows "\<exists>xs' ys'. layout (b[k + 15 := b ! (k + 15) AND NOT 1]) i xs' ys' j \<and> xs' @ ys' = (xs @ ys)[d := clear_mark ((xs @ ys) ! d)] \<and>
    map rec_size xs' = map rec_size xs \<and> map rec_size ys' = map rec_size ys"
proof -
  let ?b = "b[k + 15 := b ! (k + 15) AND NOT 1]"
  have addr: "log_from_idx b (a + rec_sum (take e ms)) = Some (a + rec_sum (take e ms))"
    if c: "contig b a ms" and e: "e < length ms" and o: "\<forall>m\<in>set ms. msg_ok m" for a ms e
  proof -
    have "ms = take e ms @ ms ! e # drop (Suc e) ms" using e by (simp add: id_take_nth_drop)
    with c have "placed b (a + rec_sum (take e ms)) (ms ! e)" by (metis contig.simps(2) contig_append)
    moreover have "msg_ok (ms ! e)" using o e by simp
    ultimately show ?thesis using placed_len by (simp add: log_from_idx_def)
  qed
  show ?thesis
  proof (cases "d < length xs")
    case True
    then have kk: "k = i + rec_sum (take d xs)" using k addr [of i xs d] l ok by (simp add: layout_def idx_at_def)
    define xs' where "xs' = xs[d := clear_mark (xs ! d)]"
    have c: "contig ?b i xs'" unfolding xs'_def by (rule contig_clear_mark) (use l True kk in \<open>auto simp: layout_def\<close>)
    have sz: "map rec_size xs' = map rec_size xs" by (simp add: xs'_def clear_mark_sizes)
    then have sum: "rec_sum xs' = rec_sum xs" using rec_sum_sizes [of xs' xs "length xs"] by (simp add: xs'_def)
    have below: "k + 15 < i + rec_sum xs" using rec_sum_take_le [OF True] rec_size_16 [of "xs ! d"] kk by linarith
    have "layout ?b i xs' ys j"
    proof (cases "ys = []")
      case False
      with l have "marker b (i + rec_sum xs)" "contig b 0 ys" "j = rec_sum ys" "j \<le> i" by (auto simp: layout_def)
      moreover have "marker ?b (i + rec_sum xs)" by (rule marker_cong [of b]) (use calculation below in auto)
      moreover have "contig ?b 0 ys" by (rule contig_cong [where b = b]) (use calculation kk in auto)
      ultimately show ?thesis using c False sum by (simp add: layout_def)
    qed (use l c sum in \<open>simp add: layout_def\<close>)
    then show ?thesis using True sz by (intro exI [of _ xs'] exI [of _ ys]) (simp add: xs'_def list_update_append nth_append)
  next
    case False
    then obtain e where e: "d = length xs + e" using le_Suc_ex not_less by blast
    with d have ey: "e < length ys" by simp
    with l have mk: "marker b (i + rec_sum xs)" and cy: "contig b 0 ys" and j: "j = rec_sum ys" "j \<le> i" and cx: "contig b i xs"
      by (auto simp: layout_def split: if_splits)
    have kk: "k = rec_sum (take e ys)"
    proof (cases "e = 0")
      case True
      with k e mk show ?thesis by (simp add: idx_at_def log_from_idx_def marker_len)
    next
      case False
      with k e addr [OF cy ey] ok show ?thesis by (simp add: idx_at_def)
    qed
    define ys' where "ys' = ys[e := clear_mark (ys ! e)]"
    have c: "contig ?b 0 ys'" unfolding ys'_def by (rule contig_clear_mark) (use cy ey kk in auto)
    have sz: "map rec_size ys' = map rec_size ys" by (simp add: ys'_def clear_mark_sizes)
    then have sum: "rec_sum ys' = rec_sum ys" using rec_sum_sizes [of ys' ys "length ys"] by (simp add: ys'_def)
    have below: "k + 15 < i" using rec_sum_take_le [OF ey] rec_size_16 [of "ys ! e"] kk j by linarith
    have "contig ?b i xs" by (rule contig_cong [where b = b]) (use cx below in auto)
    moreover have "marker ?b (i + rec_sum xs)" by (rule marker_cong [OF mk]) (use below in auto)
    moreover have "ys' \<noteq> []" using ey by (auto simp: ys'_def)
    ultimately have "layout ?b i xs ys' j" using c sum j by (simp add: layout_def)
    then show ?thesis using e ey sz by (intro exI [of _ xs] exI [of _ ys']) (simp add: ys'_def list_update_append nth_append)
  qed
qed

lemma klog_clear_mark:
  assumes k: "klog s rs" and r: "reader_ok s q idx" and lo: "log_first_seq s \<le> q" and hi: "q < log_next_seq s"
    and a: "log_from_idx (log_buf s) idx = Some a"
  defines "t \<equiv> s\<lparr>log_buf := (log_buf s)[a + 15 := log_buf s ! (a + 15) AND NOT 1]\<rparr>"
  shows "klog t (rs[q - log_first_seq s := clear_mark (rs ! (q - log_first_seq s))]) \<and> (\<forall>q idx. reader_ok s q idx \<longrightarrow> reader_ok t q idx)"
proof -
  from k obtain xs ys where rs: "rs = xs @ ys" and l: "layout (log_buf s) (log_first_idx s) xs ys (log_next_idx s)"
    and ok: "\<forall>m\<in>set (xs @ ys). msg_ok m" and n: "log_next_seq s = log_first_seq s + length (xs @ ys)"
    by (auto simp: klog_def)
  let ?d = "q - log_first_seq s"
  have d: "?d < length (xs @ ys)" using lo hi n by simp
  have "idx = idx_at (log_first_idx s) xs ys ?d" using r lo layout_nth_idx [OF l ok, of ?d] d by (simp add: reader_ok_def)
  with a obtain xs' ys' where l': "layout (log_buf t) (log_first_idx s) xs' ys' (log_next_idx s)" "xs' @ ys' = (xs @ ys)[?d := clear_mark ((xs @ ys) ! ?d)]"
      "map rec_size xs' = map rec_size xs" "map rec_size ys' = map rec_size ys"
    using layout_clear_mark [OF l ok d] by (auto simp: t_def)
  have ok': "\<forall>m\<in>set (xs' @ ys'). msg_ok m"
  proof -
    have "msg_ok ((xs @ ys) ! ?d)" using ok d nth_mem by blast
    then show ?thesis using ok unfolding l'(2) by (auto dest!: subsetD [OF set_update_subset_insert])
  qed
  have "\<exists>us vs. rs[?d := clear_mark (rs ! ?d)] = us @ vs \<and> layout (log_buf t) (log_first_idx s) us vs (log_next_idx s)" using l' rs by metis
  moreover have "\<forall>m\<in>set (rs[?d := clear_mark (rs ! ?d)]). msg_ok m" using ok' l'(2) rs by simp
  ultimately have kt: "klog t (rs[?d := clear_mark (rs ! ?d)])" using k by (simp add: klog_def t_def)
  have len: "length xs' = length xs" "length ys' = length ys" using l'(3,4) by (metis length_map)+
  have at: "idx_at (log_first_idx s) xs' ys' c = idx_at (log_first_idx s) xs ys c" for c
    using rec_sum_sizes [OF l'(3)] rec_sum_sizes [OF l'(4)] len by (simp add: idx_at_def)
  have "reader_ok t p i" if p: "reader_ok s p i" for p i
  proof (cases "p < log_first_seq s")
    case False
    with p n have "p - log_first_seq s \<le> length (xs @ ys)" by (auto simp: reader_ok_def)
    then have "nth_idx (log_buf t) (log_first_idx s) (p - log_first_seq s) = nth_idx (log_buf s) (log_first_idx s) (p - log_first_seq s)"
      using layout_nth_idx [OF l'(1) ok', of "p - log_first_seq s"] layout_nth_idx [OF l ok, of "p - log_first_seq s"] at len by simp
    with p False show ?thesis by (auto simp: reader_ok_def t_def)
  qed (simp add: reader_ok_def t_def)
  with kt show ?thesis by blast
qed

section \<open>The consoles\<close>

text \<open>What the consoles get of the records that are left: each but those with the mark.\<close>

fun console_out :: "bool \<Rightarrow> log_flags \<Rightarrow> log_msg list \<Rightarrow> (nat \<times> u8 list) list" where
  "console_out pt prev [] = []"
| "console_out pt prev (m # ms) =
     (if has_flag (m_flags m) LOG_NOCONS then console_out pt (m_flags m AND NOT LOG_NOCONS) ms
      else (unat (m_level m), msg_print_text pt m prev False (LOG_LINE_MAX + PREFIX_MAX)) # console_out pt (m_flags m) ms)"

definition console_unread :: "printk \<Rightarrow> log_msg list \<Rightarrow> log_msg list" where
  "console_unread s rs = drop (p_seq (console_pos s) - log_first_seq s) rs"

definition console_ok :: "printk \<Rightarrow> bool" where
  "console_ok s \<longleftrightarrow> p_seq (console_pos s) \<le> log_next_seq s \<and> reader_ok s (p_seq (console_pos s)) (p_idx (console_pos s))"

lemma console_skip_eq:
  "klog s rs \<Longrightarrow> console_ok s \<Longrightarrow> log_first_seq s \<le> p_seq (console_pos s) \<Longrightarrow>
   \<exists>out s' rs'. console_skip s = Some (out, s') \<and> klog s' rs' \<and> console_ok s' \<and> map clear_mark rs' = map clear_mark rs \<and>
     log_first_seq s' = log_first_seq s \<and> log_next_seq s' = log_next_seq s \<and> printk_time s' = printk_time s \<and> cont s' = cont s \<and>
     p_seq (console_pos s) \<le> p_seq (console_pos s') \<and> (\<forall>q idx. reader_ok s q idx \<longrightarrow> reader_ok s' q idx) \<and>
     (\<forall>zs. console_out (printk_time s) (p_prev (console_pos s)) (console_unread s rs @ zs) =
       (case out of None \<Rightarrow> [] | Some t \<Rightarrow> [t]) @ console_out (printk_time s) (p_prev (console_pos s')) (console_unread s' rs' @ zs)) \<and>
     (case out of None \<Rightarrow> p_seq (console_pos s') = log_next_seq s | Some t \<Rightarrow> p_seq (console_pos s) < p_seq (console_pos s'))"
proof (induction "log_next_seq s - p_seq (console_pos s)" arbitrary: s rs rule: less_induct)
  case less
  note k = less.prems(1) and lo = less.prems(3)
  have ok: "p_seq (console_pos s) \<le> log_next_seq s" "reader_ok s (p_seq (console_pos s)) (p_idx (console_pos s))"
    using less.prems(2) by (simp_all add: console_ok_def)
  let ?p = "console_pos s" and ?d = "p_seq (console_pos s) - log_first_seq s"
  show ?case
  proof (cases "p_seq ?p = log_next_seq s")
    case True
    then have "console_skip s = Some (None, s)" by (subst console_skip.simps) (simp add: Let_def)
    moreover have "console_unread s rs = []" using True klog_seq [OF k] by (simp add: console_unread_def)
    ultimately show ?thesis using less.prems True by (intro exI [of _ None] exI [of _ s] exI [of _ rs]) simp
  next
    case False
    then have hi: "p_seq ?p < log_next_seq s" using ok by simp
    then have inc: "seq_inc (p_seq ?p) = Suc (p_seq ?p)" using k by (auto simp: seq_inc_def klog_def ULLONG_MAX_def)
    have d: "?d < length rs" using lo hi klog_seq [OF k] by linarith
    let ?m = "rs ! ?d"
    obtain j where g: "log_get (log_buf s) (p_idx ?p) = Some ?m" "log_next (log_buf s) (p_idx ?p) = Some j" "reader_ok s (Suc (p_seq ?p)) j"
      using reader_step [OF k ok(2) lo hi] by blast
    then obtain a where a: "log_from_idx (log_buf s) (p_idx ?p) = Some a" "msg_at (log_buf s) a = Some ?m"
      by (auto simp: log_get_def bind_eq_Some_conv)
    have un: "console_unread s rs = ?m # drop (Suc ?d) rs" using d by (simp add: console_unread_def Cons_nth_drop_Suc)
    show ?thesis
    proof (cases "has_flag (m_flags ?m) LOG_NOCONS")
      case mark: True
      define t where "t = s\<lparr>log_buf := (log_buf s)[a + 15 := log_buf s ! (a + 15) AND NOT 1]\<rparr>"
      define u where "u = t\<lparr>console_pos := \<lparr>p_seq = Suc (p_seq ?p), p_idx = j, p_prev = m_flags ?m AND NOT LOG_NOCONS\<rparr>\<rparr>"
      let ?rs = "rs[?d := clear_mark ?m]"
      have kt: "klog t ?rs" "\<forall>q idx. reader_ok s q idx \<longrightarrow> reader_ok t q idx"
        using klog_clear_mark [OF k ok(2) lo hi a(1)] by (simp_all add: t_def)
      then have ku: "klog u ?rs" "\<forall>q idx. reader_ok s q idx \<longrightarrow> reader_ok u q idx" by (simp_all add: u_def klog_def reader_ok_def)
      have oku: "console_ok u" using ku(2) g(3) hi by (simp add: console_ok_def u_def t_def)
      have lou: "log_first_seq u \<le> p_seq (console_pos u)" using lo by (simp add: u_def t_def)
      have less': "log_next_seq u - p_seq (console_pos u) < log_next_seq s - p_seq ?p" using hi by (simp add: u_def t_def)
      have step: "console_skip s = console_skip u"
        using False a g mark inc by (subst console_skip.simps) (simp add: Let_def u_def t_def)
      have unu: "console_unread u ?rs = drop (Suc ?d) rs" using lo by (simp add: console_unread_def u_def t_def Suc_diff_le)
      have same: "map clear_mark ?rs = map clear_mark rs"
        by (simp add: map_update clear_mark_def list_update_same_conv d and.assoc)
      have co: "console_out (printk_time s) (p_prev ?p) (console_unread s rs @ zs) =
          console_out (printk_time u) (p_prev (console_pos u)) (console_unread u ?rs @ zs)" for zs
        using mark by (simp add: un unu) (simp add: u_def t_def)
      have eqs: "log_first_seq u = log_first_seq s" "log_next_seq u = log_next_seq s" "printk_time u = printk_time s" "cont u = cont s"
          "p_seq (console_pos u) = Suc (p_seq ?p)" by (simp_all add: u_def t_def)
      obtain out s' rs' where ih: "console_skip u = Some (out, s')" "klog s' rs'" "console_ok s'" "map clear_mark rs' = map clear_mark ?rs"
          "log_first_seq s' = log_first_seq u" "log_next_seq s' = log_next_seq u" "printk_time s' = printk_time u" "cont s' = cont u"
          "p_seq (console_pos u) \<le> p_seq (console_pos s')" "\<forall>q idx. reader_ok u q idx \<longrightarrow> reader_ok s' q idx"
          "\<forall>zs. console_out (printk_time u) (p_prev (console_pos u)) (console_unread u ?rs @ zs) =
            (case out of None \<Rightarrow> [] | Some t \<Rightarrow> [t]) @ console_out (printk_time u) (p_prev (console_pos s')) (console_unread s' rs' @ zs)"
          "case out of None \<Rightarrow> p_seq (console_pos s') = log_next_seq u | Some t \<Rightarrow> p_seq (console_pos u) < p_seq (console_pos s')"
        using less.hyps [OF less' ku(1) oku lou] by (elim exE conjE) (rule that)
      show ?thesis
        by (intro exI [of _ out] exI [of _ s'] exI [of _ rs'])
          (use ih co eqs step same ku(2) in \<open>auto split: option.splits\<close>)
    next
      case False2: False
      define u where "u = s\<lparr>console_pos := \<lparr>p_seq = Suc (p_seq ?p), p_idx = j, p_prev = m_flags ?m\<rparr>\<rparr>"
      have "console_skip s = Some (Some (unat (m_level ?m), msg_print_text (printk_time s) ?m (p_prev ?p) False (LOG_LINE_MAX + PREFIX_MAX)), u)"
        using False a g False2 inc by (subst console_skip.simps) (simp add: Let_def u_def)
      moreover have "klog u rs" using k by (simp add: u_def klog_def)
      moreover have "console_ok u" using g(3) hi by (simp add: console_ok_def u_def reader_ok_def)
      moreover have "console_unread u rs = drop (Suc ?d) rs" using lo by (simp add: console_unread_def u_def Suc_diff_le)
      moreover have "log_first_seq u = log_first_seq s" "log_next_seq u = log_next_seq s" "printk_time u = printk_time s" "cont u = cont s"
          "p_seq (console_pos u) = Suc (p_seq ?p)" "p_prev (console_pos u) = m_flags ?m" "\<forall>q idx. reader_ok u q idx = reader_ok s q idx"
        by (simp_all add: u_def reader_ok_def)
      ultimately show ?thesis using False2 un
        by (intro exI [of _ "Some (unat (m_level ?m), msg_print_text (printk_time s) ?m (p_prev ?p) False (LOG_LINE_MAX + PREFIX_MAX))"] exI [of _ u] exI [of _ rs]) simp
    qed
  qed
qed

text \<open>
  The runs of the console: turns of the loop, and between them stores of other cpus. The output has one
  entry for each call of the drivers.
\<close>

abbreviation one_out :: "(nat \<times> u8 list) option \<Rightarrow> (nat \<times> u8 list) list" where
  "one_out x \<equiv> (case x of None \<Rightarrow> [] | Some t \<Rightarrow> [t])"

inductive console_run :: "printk \<Rightarrow> printk \<Rightarrow> log_msg list \<Rightarrow> (nat \<times> u8 list) list \<Rightarrow> bool" for s0 where
  start: "console_run s0 s0 [] []"
| others: "console_run s0 s ms out \<Longrightarrow> stores console_pos s s' ms' \<Longrightarrow> console_run s0 s' (ms @ ms') out"
| turn: "console_run s0 s ms out \<Longrightarrow> console_section s = Some (x, s') \<Longrightarrow> console_run s0 s' ms (out @ one_out x)"

text \<open>
  What holds after a run from \<open>s\<close> with the records \<open>rs\<close> to \<open>t\<close> with the records \<open>rt\<close>: what is printed
  and what is left to print are the records of the start and the new ones, and the log is as the stores left it
  but for the marks.
\<close>

definition console_upto :: "printk \<Rightarrow> log_msg list \<Rightarrow> printk \<Rightarrow> log_msg list \<Rightarrow> log_msg list \<Rightarrow> (nat \<times> u8 list) list \<Rightarrow> bool" where
  "console_upto s rs t rt ms out \<longleftrightarrow> klog t rt \<and> console_ok t \<and> log_first_seq t \<le> p_seq (console_pos t) \<and> printk_time t = printk_time s \<and>
     (\<forall>zs. console_out (printk_time s) (p_prev (console_pos s)) (console_unread s rs @ ms @ zs) =
       out @ console_out (printk_time s) (p_prev (console_pos t)) (console_unread t rt @ zs)) \<and>
     (\<exists>k \<le> length (rs @ ms). log_first_seq t = log_first_seq s + k \<and> map clear_mark rt = map clear_mark (drop k (rs @ ms)))"

lemma console_upto_trans:
  assumes a: "console_upto s rs t rt ms out" and b: "console_upto t rt u ru ms' out'"
  shows "console_upto s rs u ru (ms @ ms') (out @ out')"
proof -
  obtain j k where j: "j \<le> length (rs @ ms)" "log_first_seq t = log_first_seq s + j" "map clear_mark rt = map clear_mark (drop j (rs @ ms))"
    and k: "k \<le> length (rt @ ms')" "log_first_seq u = log_first_seq t + k" "map clear_mark ru = map clear_mark (drop k (rt @ ms'))"
    using a b unfolding console_upto_def by blast
  have "map clear_mark (rt @ ms') = map clear_mark (drop j (rs @ ms @ ms'))" using j(1,3) by (simp add: drop_map)
  then have "map clear_mark ru = map clear_mark (drop (j + k) (rs @ ms @ ms'))"
    using k(3) by (metis add.commute drop_drop drop_map)
  moreover have "length rt = length (rs @ ms) - j" using arg_cong [OF j(3), of length] by simp
  then have "j + k \<le> length (rs @ ms @ ms')" using j(1) k(1) by simp
  moreover have "log_first_seq u = log_first_seq s + (j + k)" using j(2) k(2) by simp
  ultimately have "\<exists>n \<le> length (rs @ ms @ ms'). log_first_seq u = log_first_seq s + n \<and> map clear_mark ru = map clear_mark (drop n (rs @ ms @ ms'))"
    by blast
  then show ?thesis using a b unfolding console_upto_def by (intro conjI) auto
qed

lemma console_upto_same: "klog s rs \<Longrightarrow> console_ok s \<Longrightarrow> log_first_seq s \<le> p_seq (console_pos s) \<Longrightarrow> console_upto s rs s rs [] []"
  by (simp add: console_upto_def)

lemma console_upto_turn:
  assumes k: "klog s rs" and ok: "console_ok s" and lo: "log_first_seq s \<le> p_seq (console_pos s)"
  shows "\<exists>x t rt. console_section s = Some (x, t) \<and> console_upto s rs t rt [] (one_out x) \<and> log_next_seq t = log_next_seq s \<and>
    (case x of None \<Rightarrow> p_seq (console_pos t) = log_next_seq t | Some _ \<Rightarrow> p_seq (console_pos s) < p_seq (console_pos t))"
proof -
  obtain out t rt where t: "console_skip s = Some (out, t)" "klog t rt" "console_ok t" "map clear_mark rt = map clear_mark rs"
      "log_first_seq t = log_first_seq s" "log_next_seq t = log_next_seq s" "printk_time t = printk_time s"
      "p_seq (console_pos s) \<le> p_seq (console_pos t)"
      "\<forall>zs. console_out (printk_time s) (p_prev (console_pos s)) (console_unread s rs @ zs) =
        one_out out @ console_out (printk_time s) (p_prev (console_pos t)) (console_unread t rt @ zs)"
      "case out of None \<Rightarrow> p_seq (console_pos t) = log_next_seq s | Some x \<Rightarrow> p_seq (console_pos s) < p_seq (console_pos t)"
    using console_skip_eq [OF assms] by (elim exE conjE) (rule that)
  have "console_section s = Some (out, t)" using t(1) lo by (simp add: console_section_def console_catch_up_def)
  moreover have "console_upto s rs t rt [] (one_out out)"
    using t lo unfolding console_upto_def by (intro conjI exI [of _ 0]) auto
  ultimately show ?thesis using t(6,10) by (intro exI [of _ out] exI [of _ t] exI [of _ rt]) (simp split: option.splits)
qed

lemma console_upto_stores:
  assumes st: "stores console_pos s t ms" and k: "klog s rs" and ok: "console_ok s" and lo: "log_first_seq s \<le> p_seq (console_pos s)"
  shows "\<exists>rt. console_upto s rs t rt ms []"
proof -
  obtain k where k': "klog t (drop k (rs @ ms))" "log_first_seq t = log_first_seq s + k" "same_rest s t"
      "\<forall>sq idx. reader_ok s sq idx \<longrightarrow> reader_ok t sq idx" "k \<le> length rs + length ms"
    using stores_klog [OF st k] by blast
  have same: "console_pos t = console_pos s" "printk_time t = printk_time s" using k'(3) by (simp_all add: same_rest_def)
  have lt: "log_first_seq t \<le> p_seq (console_pos s)" by (rule stores_pos [OF st lo k]) (simp add: same_rest_def)
  have hi: "p_seq (console_pos s) - log_first_seq s \<le> length rs" using ok klog_seq [OF k] unfolding console_ok_def by linarith
  have "log_next_seq t = log_next_seq s + length ms" using klog_seq [OF k] klog_seq [OF k'(1)] k'(2,5) by simp
  then have okt: "console_ok t" using ok k'(4) by (simp add: console_ok_def same)
  have "p_seq (console_pos s) - log_first_seq t + k = p_seq (console_pos s) - log_first_seq s" using lt k'(2) by simp
  then have "drop (p_seq (console_pos s) - log_first_seq t) (drop k (rs @ ms)) = drop (p_seq (console_pos s) - log_first_seq s) (rs @ ms)"
    by (simp only: drop_drop)
  also have "\<dots> = drop (p_seq (console_pos s) - log_first_seq s) rs @ ms" using hi by simp
  finally have "console_unread t (drop k (rs @ ms)) = console_unread s rs @ ms" by (simp only: console_unread_def same)
  then show ?thesis using k' okt lt unfolding console_upto_def
    by (intro exI [of _ "drop k (rs @ ms)"] conjI exI [of _ k]) (simp_all add: same)
qed

lemma console_uptoD: "console_upto s rs t rt ms out \<Longrightarrow> klog t rt \<and> console_ok t \<and> log_first_seq t \<le> p_seq (console_pos t)"
  by (simp add: console_upto_def)

lemma storing_same: "storing pos (\<lambda>s. s)"
  unfolding storing_def using stores.no_store by blast

lemma console_run_append: "console_run t u ms' out' \<Longrightarrow> console_run s t ms out \<Longrightarrow> console_run s u (ms @ ms') (out @ out')"
proof (induction rule: console_run.induct)
  case (others u ms' out' v ms'')
  then show ?case using console_run.others [of s u "ms @ ms'" "out @ out'" v ms''] by simp
next
  case (turn u ms' out' x v)
  then show ?case using console_run.turn [of s u "ms @ ms'" "out @ out'" x v] by simp
qed simp

text \<open>The loop, whatever the others store meanwhile.\<close>

lemma console_loop_prints:
  "klog s rs \<Longrightarrow> console_ok s \<Longrightarrow> log_first_seq s \<le> p_seq (console_pos s) \<Longrightarrow> \<forall>f \<in> set others. storing console_pos f \<Longrightarrow>
   \<exists>out t rt ms. console_loop others s = Some (out, t) \<and> console_run s t ms out \<and> console_upto s rs t rt ms out \<and>
     p_seq (console_pos t) = log_next_seq t"
proof (induction "(length others, log_next_seq s - p_seq (console_pos s))" arbitrary: others s rs rule: wf_induct_rule [OF wf_lex_prod [OF wf_less_than wf_less_than]])
  case 1
  obtain x t rt where t: "console_section s = Some (x, t)" "console_upto s rs t rt [] (one_out x)" "log_next_seq t = log_next_seq s"
      "case x of None \<Rightarrow> p_seq (console_pos t) = log_next_seq t | Some _ \<Rightarrow> p_seq (console_pos s) < p_seq (console_pos t)"
    using console_upto_turn [OF 1(2-4)] by blast
  have r: "console_run s t [] (one_out x)" using console_run.turn [OF console_run.start t(1)] by simp
  show ?case
  proof (cases x)
    case None
    then have "console_loop others s = Some ([], t)" using t(1) by (subst console_loop.simps) simp
    then show ?thesis using None t r by auto
  next
    case (Some y)
    define f where "f = (if others = [] then (\<lambda>s. s) else hd others)"
    have f: "storing console_pos f" using 1(5) storing_same by (cases others) (simp_all add: f_def)
    note dt = console_uptoD [OF t(2)]
    obtain ms1 where m1: "stores console_pos t (f t) ms1" using f dt by (auto simp: storing_def)
    obtain rf where u1: "console_upto t rt (f t) rf ms1 []" using console_upto_stores [OF m1] dt by blast
    note df = console_uptoD [OF u1]
    have less: "((length (tl others), log_next_seq (f t) - p_seq (console_pos (f t))), length others, log_next_seq s - p_seq (console_pos s))
        \<in> less_than <*lex*> less_than"
      using t(3,4) Some dt by (cases others) (auto simp: f_def console_ok_def)
    have "\<forall>g \<in> set (tl others). storing console_pos g" using 1(5) by (cases others) auto
    then obtain out u ru ms2 where u: "console_loop (tl others) (f t) = Some (out, u)" "console_run (f t) u ms2 out"
        "console_upto (f t) rf u ru ms2 out" "p_seq (console_pos u) = log_next_seq u"
      using 1(1) [OF less] df by blast
    have "console_loop others s = Some (y # out, u)" using t(1) Some u(1) by (subst console_loop.simps) (simp add: f_def split: if_splits)
    moreover have "console_run s u (ms1 @ ms2) (y # out)"
      using console_run_append [OF u(2) console_run.others [OF r m1]] Some by simp
    moreover have "console_upto s rs u ru (ms1 @ ms2) (y # out)"
      using console_upto_trans [OF t(2) console_upto_trans [OF u1 u(3)]] Some by simp
    ultimately show ?thesis using u(4) by blast
  qed
qed

lemma console_again_prints:
  "klog s rs \<Longrightarrow> console_ok s \<Longrightarrow> log_first_seq s \<le> p_seq (console_pos s) \<Longrightarrow> p_seq (console_pos s) = log_next_seq s \<Longrightarrow>
   \<forall>(f, trylock, others) \<in> set again. storing console_pos f \<and> (\<forall>g \<in> set others. storing console_pos g) \<Longrightarrow>
   \<exists>out t rt ms. console_again again s = Some (out, t) \<and> console_run s t ms out \<and> console_upto s rs t rt ms out \<and>
     (p_seq (console_pos t) = log_next_seq t \<or> (\<exists>f others. (f, False, others) \<in> set again))"
proof (induction again arbitrary: s rs)
  case Nil
  have "console_again [] s = Some ([], s)" by simp
  then show ?case using console_run.start [of s] console_upto_same [OF Nil.prems(1-3)] Nil.prems(4) by blast
next
  case (Cons a again)
  obtain f trylock others where a: "a = (f, trylock, others)" by (cases a) auto
  have f: "storing console_pos f" "\<forall>g \<in> set others. storing console_pos g" using Cons.prems(5) a by simp_all
  obtain ms1 where m1: "stores console_pos s (f s) ms1" using f(1) Cons.prems(1,3) by (auto simp: storing_def)
  obtain rf where u1: "console_upto s rs (f s) rf ms1 []" using console_upto_stores [OF m1 Cons.prems(1-3)] by blast
  note df = console_uptoD [OF u1]
  have r1: "console_run s (f s) ms1 []" using console_run.others [OF console_run.start m1] by simp
  show ?case
  proof (cases "p_seq (console_pos (f s)) \<noteq> log_next_seq (f s) \<and> trylock")
    case True
    obtain out t rt ms2 where t: "console_loop others (f s) = Some (out, t)" "console_run (f s) t ms2 out" "console_upto (f s) rf t rt ms2 out"
        "p_seq (console_pos t) = log_next_seq t" using console_loop_prints [of "f s" rf others] df f(2) by blast
    have ag: "\<forall>(f, trylock, others) \<in> set again. storing console_pos f \<and> (\<forall>g \<in> set others. storing console_pos g)" using Cons.prems(5) by simp
    obtain out' u ru ms3 where u: "console_again again t = Some (out', u)" "console_run t u ms3 out'" "console_upto t rt u ru ms3 out'"
        "p_seq (console_pos u) = log_next_seq u \<or> (\<exists>f others. (f, False, others) \<in> set again)"
      using Cons.IH [OF _ _ _ t(4) ag] console_uptoD [OF t(3)] by blast
    have "console_run s u (ms1 @ ms2 @ ms3) (out @ out')"
      using console_run_append [OF console_run_append [OF u(2) t(2)] r1] by simp
    moreover have "console_upto s rs u ru (ms1 @ ms2 @ ms3) (out @ out')"
      using console_upto_trans [OF u1 console_upto_trans [OF t(3) u(3)]] by simp
    ultimately show ?thesis using True a t(1) u(1,4)
      by (intro exI [of _ "out @ out'"] exI [of _ u] exI [of _ ru] exI [of _ "ms1 @ ms2 @ ms3"]) auto
  next
    case False
    then show ?thesis using a r1 u1
      by (intro exI [of _ "[]"] exI [of _ "f s"] exI [of _ rf] exI [of _ ms1]) (auto simp: Let_def)
  qed
qed

lemma console_flush_log:
  "console_cont_flush s = (first, t) \<Longrightarrow> t = s\<lparr>cont := cont t\<rparr>"
  by (auto simp: console_cont_flush_def cont_print_text_def Let_def split: if_splits)

lemma console_unlock_prints:
  assumes k: "klog s rs" and ok: "console_ok s" and oth: "\<forall>f \<in> set others. storing console_pos f"
    and ag: "\<forall>(f, trylock, others) \<in> set again. storing console_pos f \<and> (\<forall>g \<in> set others. storing console_pos g)"
  shows "\<exists>out t rt ms k. console_unlock others again False s = Some (one_out (fst (console_cont_flush s)) @ out, t) \<and>
    console_run (console_catch_up (snd (console_cont_flush s))) t ms out \<and>
    out @ console_out (printk_time s) (p_prev (console_pos t)) (console_unread t rt) =
      console_out (printk_time s) (if p_seq (console_pos s) < log_first_seq s then 0 else p_prev (console_pos s)) (console_unread s rs @ ms) \<and>
    klog t rt \<and> log_first_seq t = log_first_seq s + k \<and> map clear_mark rt = map clear_mark (drop k (rs @ ms)) \<and>
    (console_unread t rt = [] \<or> (\<exists>f others. (f, False, others) \<in> set again))"
proof -
  obtain first s1 where f: "console_cont_flush s = (first, s1)" by (cases "console_cont_flush s") auto
  have s1: "s1 = s\<lparr>cont := cont s1\<rparr>" by (rule console_flush_log [OF f])
  define t where "t = console_catch_up s1"
  have same: "log_first_seq s1 = log_first_seq s" "log_next_seq s1 = log_next_seq s" "console_pos s1 = console_pos s" "printk_time s1 = printk_time s"
      "log_first_idx s1 = log_first_idx s" by (subst s1, simp)+
  have "klog s1 rs" "console_ok s1" using k ok by (subst s1, simp add: klog_def console_ok_def reader_ok_def)+
  then have kt: "klog t rs" "console_ok t" using klog_first_next [of s1 rs]
    by (auto simp: t_def console_catch_up_def klog_def console_ok_def reader_ok_def)
  have tt: "log_first_seq t = log_first_seq s" "printk_time t = printk_time s" "log_first_seq t \<le> p_seq (console_pos t)"
      "console_unread t rs = console_unread s rs" "p_prev (console_pos t) = (if p_seq (console_pos s) < log_first_seq s then 0 else p_prev (console_pos s))"
    by (simp_all add: t_def console_catch_up_def console_unread_def same)
  have "console_catch_up t = t" using tt(3) by (simp add: console_catch_up_def)
  then have "console_section s1 = console_section t" by (simp add: console_section_def t_def)
  then have eq: "console_loop others s1 = console_loop others t" by (subst (1 2) console_loop.simps) simp
  obtain out1 u ru ms1 where u: "console_loop others t = Some (out1, u)" "console_run t u ms1 out1" "console_upto t rs u ru ms1 out1"
      "p_seq (console_pos u) = log_next_seq u" using console_loop_prints [OF kt tt(3) oth] by blast
  note du = console_uptoD [OF u(3)]
  obtain out2 v rv ms2 where v: "console_again again u = Some (out2, v)" "console_run u v ms2 out2" "console_upto u ru v rv ms2 out2"
      "p_seq (console_pos v) = log_next_seq v \<or> (\<exists>f others. (f, False, others) \<in> set again)"
    using console_again_prints [OF _ _ _ u(4) ag] du by blast
  have up: "console_upto t rs v rv (ms1 @ ms2) (out1 @ out2)" by (rule console_upto_trans [OF u(3) v(3)])
  then obtain k where k: "log_first_seq v = log_first_seq t + k" "map clear_mark rv = map clear_mark (drop k (rs @ ms1 @ ms2))"
    unfolding console_upto_def by blast
  have "console_out (printk_time t) (p_prev (console_pos t)) (console_unread t rs @ (ms1 @ ms2) @ []) =
      (out1 @ out2) @ console_out (printk_time t) (p_prev (console_pos v)) (console_unread v rv @ [])"
    using up unfolding console_upto_def by blast
  moreover have "console_unlock others again False s = Some (one_out first @ out1 @ out2, v)"
    using f eq u(1) v(1) by (simp add: console_unlock_def split: option.splits)
  moreover have "console_run t v (ms1 @ ms2) (out1 @ out2)" by (rule console_run_append [OF v(2) u(2)])
  moreover have "klog v rv" using up by (simp add: console_upto_def)
  moreover have "p_seq (console_pos v) = log_next_seq v \<Longrightarrow> console_unread v rv = []"
    using klog_seq [OF \<open>klog v rv\<close>] by (simp add: console_unread_def)
  ultimately show ?thesis using k v(4) tt f unfolding t_def [symmetric]
    by (intro exI [of _ "out1 @ out2"] exI [of _ v] exI [of _ rv] exI [of _ "ms1 @ ms2"] exI [of _ k]) (auto simp: t_def [symmetric])
qed

section \<open>Lines\<close>

text \<open>The line under construction is \<open>txt\<close>, of the task \<open>cur\<close>, and none of it is on the console.\<close>

definition cont_is :: "printk \<Rightarrow> nat \<Rightarrow> u8 \<Rightarrow> nat \<Rightarrow> u8 list \<Rightarrow> bool" where
  "cont_is s cur fac level b \<longleftrightarrow> c_buf (cont s) = b \<and>
     (b \<noteq> [] \<longrightarrow> c_owner (cont s) = cur \<and> c_facility (cont s) = fac \<and> unat (c_level (cont s)) = level \<and> c_cons (cont s) = 0 \<and> \<not> c_flushed (cont s))"

lemma unat_level: "level < 8 \<Longrightarrow> unat (word_of_nat level :: u8) = level"
  by (simp add: unat_of_nat)

lemma cont_add_short:
  assumes c: "cont_is s cur fac level b" and len: "length b + length t \<le> 793" and l: "level < 8"
  shows "\<exists>c'. cont_add clock cur fac level t s = Some (True, s\<lparr>cont := c'\<rparr>) \<and> cont_is (s\<lparr>cont := c'\<rparr>) cur fac level (b @ t)"
proof -
  define c0 where "c0 = (if c_buf (cont s) = [] then (cont s)\<lparr>c_facility := fac, c_level := word_of_nat level, c_owner := cur,
     c_ts_nsec := clock, c_flags := 0, c_cons := 0, c_flushed := False\<rparr> else cont s)"
  define c1 where "c1 = c0\<lparr>c_buf := c_buf c0 @ t\<rparr>"
  have "cont_add clock cur fac level t s = Some (True, s\<lparr>cont := c1\<rparr>)"
    using c len by (auto simp: cont_add_def cont_is_def Let_def c0_def c1_def LOG_LINE_MAX_def)
  moreover have "cont_is (s\<lparr>cont := c1\<rparr>) cur fac level (b @ t)"
    using c l by (auto simp: cont_is_def c0_def c1_def unat_level)
  ultimately show ?thesis by blast
qed

lemma store_line_piece:
  assumes c: "cont_is s cur (word_of_nat facility) level b" and len: "length b + length t \<le> 793" and l: "level < 8"
  shows "\<exists>c'. store_line clock cur facility (int level) 0 None t s = Some (s\<lparr>cont := c'\<rparr>) \<and>
    cont_is (s\<lparr>cont := c'\<rparr>) cur (word_of_nat facility) level (b @ t)"
proof -
  have "\<not> (c_buf (cont s) \<noteq> [] \<and> (has_flag 0 LOG_PREFIX \<or> c_owner (cont s) \<noteq> cur))"
    using c by (auto simp: cont_is_def has_flag_def)
  then show ?thesis
    using cont_add_short [OF c len l, of clock] by (auto simp: store_line_def has_flag_def Let_def)
qed

lemma klog_cont: "klog (s\<lparr>cont := c\<rparr>) rs = klog s rs"
  by (simp add: klog_def)

text \<open>The line that ends with a newline becomes one record with the pieces before it.\<close>

lemma store_line_end:
  assumes k: "klog s rs" and big: "4096 \<le> log_buf_len s" and sq: "Suc (log_next_seq s) < ULLONG_MAX"
    and c: "cont_is s cur (word_of_nat facility) level b" and len: "length b + length t \<le> 793" and l: "level < 8"
  shows "\<exists>s' k. store_line clock cur facility (int level) LOG_NEWLINE None t s = Some s' \<and> k \<le> length rs \<and>
    klog s' (drop k rs @ [new_msg clock (word_of_nat facility) level LOG_NEWLINE 0 [] (b @ t)]) \<and>
    log_first_seq s' = log_first_seq s + k \<and> c_buf (cont s') = [] \<and> (\<forall>sq idx. reader_ok s sq idx \<longrightarrow> reader_ok s' sq idx)"
proof -
  have flag: "has_flag LOG_NEWLINE LOG_NEWLINE" "\<not> has_flag LOG_NEWLINE LOG_PREFIX" by (simp_all add: has_flag_def LOG_NEWLINE_def LOG_PREFIX_def)
  show ?thesis
  proof (cases "b = []")
    case True
    with c have e: "c_buf (cont s) = []" by (simp add: cont_is_def)
    have "length t \<le> LOG_LINE_MAX" using len by (simp add: LOG_LINE_MAX_def)
    from log_store_limits [OF k this _ big sq, of "[]" clock "word_of_nat facility" level LOG_NEWLINE 0] obtain s' k where
      "log_store clock (word_of_nat facility) level LOG_NEWLINE 0 [] t s = Some s'" "k \<le> length rs"
      "klog s' (drop k rs @ [new_msg clock (word_of_nat facility) level LOG_NEWLINE 0 [] t])" "log_first_seq s' = log_first_seq s + k"
      "same_rest s s'" "\<forall>sq idx. reader_ok s sq idx \<longrightarrow> reader_ok s' sq idx" by auto
    with e True show ?thesis
      by (intro exI [of _ s'] exI [of _ k]) (simp add: store_line_def flag same_rest_def Let_def)
  next
    case False
    obtain c' where add: "cont_add clock cur (word_of_nat facility) level t s = Some (True, s\<lparr>cont := c'\<rparr>)"
      and c': "cont_is (s\<lparr>cont := c'\<rparr>) cur (word_of_nat facility) level (b @ t)" using cont_add_short [OF c len l] by blast
    let ?u = "s\<lparr>cont := c'\<rparr>"
    have ku: "klog ?u rs" using k by (simp add: klog_cont)
    have "length (b @ t) \<le> LOG_LINE_MAX" using len by (simp add: LOG_LINE_MAX_def)
    from log_store_limits [OF ku this, of "[]" clock "word_of_nat facility" level LOG_NEWLINE 0] big sq obtain s' k where
      s': "log_store clock (word_of_nat facility) level LOG_NEWLINE 0 [] (b @ t) ?u = Some s'" "k \<le> length rs"
      "klog s' (drop k rs @ [new_msg clock (word_of_nat facility) level LOG_NEWLINE 0 [] (b @ t)])" "log_first_seq s' = log_first_seq s + k"
      "same_rest ?u s'" "\<forall>sq idx. reader_ok s sq idx \<longrightarrow> reader_ok s' sq idx" by (auto simp: reader_ok_def)
    let ?v = "s'\<lparr>cont := (cont s')\<lparr>c_buf := []\<rparr>\<rparr>"
    have "cont_flush clock LOG_NEWLINE ?u = Some ?v"
      using c' False s'(1) by (simp add: cont_flush_def cont_is_def Let_def)
    moreover have "c_buf (cont s) \<noteq> []" "c_owner (cont s) = cur" using c False by (auto simp: cont_is_def)
    ultimately have "store_line clock cur facility (int level) LOG_NEWLINE None t s = Some ?v"
      using add by (simp add: store_line_def flag Let_def)
    with s' show ?thesis by (intro exI [of _ ?v] exI [of _ k]) (simp add: klog_cont reader_ok_def)
  qed
qed

section \<open>Messages in pieces\<close>

fun emit_all :: "(u8 list \<Rightarrow> u8 \<times> nat) \<Rightarrow> nat \<Rightarrow> int \<Rightarrow> (emit_call \<times> u8 list) list \<Rightarrow> printk \<Rightarrow> printk option" where
  "emit_all hdr facility level [] s = Some s"
| "emit_all hdr facility level ((E, t) # calls) s =
     Option.bind (vprintk_emit hdr E facility level None t s) (\<lambda>(n, s). emit_all hdr facility level calls s)"

text \<open>A call of the task \<open>cur\<close> with a piece of text that has no header and does not end a line.\<close>

definition piece_ok :: "(u8 list \<Rightarrow> u8 \<times> nat) \<Rightarrow> nat \<Rightarrow> emit_call \<times> u8 list \<Rightarrow> bool" where
  "piece_ok hdr cur c \<longleftrightarrow> e_current (fst c) = cur \<and> \<not> e_recursing (fst c) \<and> fst (hdr (snd c)) = 0 \<and> (snd c \<noteq> [] \<longrightarrow> last (snd c) \<noteq> nl)"

definition msg_level :: "printk \<Rightarrow> int \<Rightarrow> nat" where
  "msg_level s level = (if level = - 1 then default_message_loglevel s else nat level)"

lemma strip_header_none: "fst (hdr t) = 0 \<Longrightarrow> strip_header hdr facility level f t = (level, f, t)"
  by (auto simp: strip_header_def split: prod.splits)

lemma vprintk_piece:
  assumes p: "piece_ok hdr cur (E, t)" and bug: "\<not> recursion_bug s" and lev: "level = - 1 \<or> 0 \<le> level" "msg_level s level < 8"
    and c: "cont_is s cur (word_of_nat facility) (msg_level s level) b" and len: "length b + length t \<le> 793"
  shows "\<exists>c'. vprintk_emit hdr E facility level None t s = Some (length t, s\<lparr>cont := c'\<rparr>) \<and>
    cont_is (s\<lparr>cont := c'\<rparr>) cur (word_of_nat facility) (msg_level s level) (b @ t)"
proof -
  have t: "take (LOG_LINE_MAX - 1) t = t" using len by (simp add: LOG_LINE_MAX_def)
  have lv: "(if level = - 1 then int (default_message_loglevel s) else level) = int (msg_level s level)"
    using lev by (auto simp: msg_level_def)
  have n: "(t \<noteq> [] \<and> last t = nl) = False" using p by (auto simp: piece_ok_def)
  have strip: "strip_header hdr facility level 0 t = (level, 0, t)" using p by (intro strip_header_none) (simp add: piece_ok_def)
  obtain c' where c': "store_line (e_clock E) cur facility (int (msg_level s level)) 0 None t s = Some (s\<lparr>cont := c'\<rparr>)"
      "cont_is (s\<lparr>cont := c'\<rparr>) cur (word_of_nat facility) (msg_level s level) (b @ t)"
    using store_line_piece [OF c len lev(2), of "e_clock E"] by blast
  have "vprintk_emit hdr E facility level None t s = Some (length t, s\<lparr>cont := c'\<rparr>)"
    using p bug by (simp only: vprintk_emit_def Let_def t n if_False) (simp add: strip lv c' piece_ok_def)
  with c'(2) show ?thesis by blast
qed

lemma vprintk_line:
  assumes k: "klog s rs" and big: "4096 \<le> log_buf_len s" and sq: "Suc (log_next_seq s) < ULLONG_MAX"
    and E: "e_current E = cur" "\<not> e_recursing E" "fst (hdr t) = 0" and bug: "\<not> recursion_bug s" and lev: "level = - 1 \<or> 0 \<le> level" "msg_level s level < 8"
    and c: "cont_is s cur (word_of_nat facility) (msg_level s level) b" and len: "length b + length t \<le> 793"
  shows "\<exists>s' k. vprintk_emit hdr E facility level None (t @ [nl]) s = Some (length t, s') \<and> k \<le> length rs \<and>
    klog s' (drop k rs @ [new_msg (e_clock E) (word_of_nat facility) (msg_level s level) LOG_NEWLINE 0 [] (b @ t)]) \<and>
    log_first_seq s' = log_first_seq s + k \<and> c_buf (cont s') = [] \<and> (\<forall>sq idx. reader_ok s sq idx \<longrightarrow> reader_ok s' sq idx)"
proof -
  have t: "take (LOG_LINE_MAX - 1) (t @ [nl]) = t @ [nl]" using len by (simp add: LOG_LINE_MAX_def)
  have lv: "(if level = - 1 then int (default_message_loglevel s) else level) = int (msg_level s level)"
    using lev by (auto simp: msg_level_def)
  have strip: "strip_header hdr facility level LOG_NEWLINE t = (level, LOG_NEWLINE, t)" using E by (rule_tac strip_header_none)
  show ?thesis
    using E store_line_end [OF k big sq c len lev(2), of "e_clock E"] bug
    by (simp only: vprintk_emit_def Let_def t lv) (auto simp: strip lv)
qed

lemma emit_pieces:
  "\<lbrakk>\<forall>c\<in>set calls. piece_ok hdr cur c; \<not> recursion_bug s; level = - 1 \<or> 0 \<le> level; msg_level s level < 8;
    cont_is s cur (word_of_nat facility) (msg_level s level) b; length b + length (concat (map snd calls)) \<le> 793\<rbrakk> \<Longrightarrow>
   \<exists>c'. emit_all hdr facility level calls s = Some (s\<lparr>cont := c'\<rparr>) \<and>
     cont_is (s\<lparr>cont := c'\<rparr>) cur (word_of_nat facility) (msg_level s level) (b @ concat (map snd calls))"
proof (induction calls arbitrary: s b)
  case Nil
  then show ?case by (intro exI [of _ "cont s"]) simp
next
  case (Cons a calls)
  obtain E t where a: "a = (E, t)" by (cases a)
  have "piece_ok hdr cur (E, t)" "length b + length t \<le> 793" using Cons.prems a by simp_all
  then obtain c1 where c1: "vprintk_emit hdr E facility level None t s = Some (length t, s\<lparr>cont := c1\<rparr>)"
      "cont_is (s\<lparr>cont := c1\<rparr>) cur (word_of_nat facility) (msg_level s level) (b @ t)"
    using vprintk_piece [OF _ Cons.prems(2-5)] by blast
  have ml: "msg_level (s\<lparr>cont := c1\<rparr>) level = msg_level s level" by (simp add: msg_level_def)
  obtain c2 where "emit_all hdr facility level calls (s\<lparr>cont := c1\<rparr>) = Some (s\<lparr>cont := c2\<rparr>)"
      "cont_is (s\<lparr>cont := c2\<rparr>) cur (word_of_nat facility) (msg_level s level) ((b @ t) @ concat (map snd calls))"
    using Cons.IH [of "s\<lparr>cont := c1\<rparr>" "b @ t"] Cons.prems c1(2) a by (auto simp: ml)
  with a c1(1) show ?case by (intro exI [of _ c2]) simp
qed

lemma emit_all_append:
  "emit_all hdr facility level (xs @ ys) s = Option.bind (emit_all hdr facility level xs s) (emit_all hdr facility level ys)"
proof (induction xs arbitrary: s)
  case (Cons a xs)
  then show ?case by (cases a) (auto simp: Option.bind_assoc split_def)
qed simp

lemma printk_in_pieces:
  assumes k: "klog s rs" and big: "4096 \<le> log_buf_len s" and sq: "Suc (log_next_seq s) < ULLONG_MAX"
    and free: "c_buf (cont s) = []" "\<not> recursion_bug s" and lev: "level = - 1 \<or> 0 \<le> level" "msg_level s level < 8"
    and pieces: "\<forall>c\<in>set calls. piece_ok hdr cur c" and E: "e_current E = cur" "\<not> e_recursing E" "fst (hdr t) = 0"
    and len: "length (concat (map snd calls)) + length t \<le> 793"
  shows "\<exists>s' k. emit_all hdr facility level (calls @ [(E, t @ [nl])]) s = Some s' \<and> k \<le> length rs \<and>
    klog s' (drop k rs @ [new_msg (e_clock E) (word_of_nat facility) (msg_level s level) LOG_NEWLINE 0 [] (concat (map snd calls) @ t)]) \<and>
    log_first_seq s' = log_first_seq s + k \<and> c_buf (cont s') = [] \<and> (\<forall>sq idx. reader_ok s sq idx \<longrightarrow> reader_ok s' sq idx)"
proof -
  have c0: "cont_is s cur (word_of_nat facility) (msg_level s level) []" using free by (simp add: cont_is_def)
  obtain c' where c': "emit_all hdr facility level calls s = Some (s\<lparr>cont := c'\<rparr>)"
      "cont_is (s\<lparr>cont := c'\<rparr>) cur (word_of_nat facility) (msg_level s level) (concat (map snd calls))"
    using emit_pieces [OF pieces free(2) lev c0] len by auto
  let ?s = "s\<lparr>cont := c'\<rparr>"
  have "klog ?s rs" "4096 \<le> log_buf_len ?s" "Suc (log_next_seq ?s) < ULLONG_MAX" "\<not> recursion_bug ?s" "msg_level ?s level = msg_level s level"
    using k big sq free by (simp_all add: klog_cont msg_level_def)
  with vprintk_line [of ?s rs E cur hdr t level facility "concat (map snd calls)"] c'(2) E lev len
  obtain s' k where "vprintk_emit hdr E facility level None (t @ [nl]) ?s = Some (length t, s')" "k \<le> length rs"
    "klog s' (drop k rs @ [new_msg (e_clock E) (word_of_nat facility) (msg_level s level) LOG_NEWLINE 0 [] (concat (map snd calls) @ t)])"
    "log_first_seq s' = log_first_seq s + k" "c_buf (cont s') = []" "\<forall>sq idx. reader_ok s sq idx \<longrightarrow> reader_ok s' sq idx"
    by (auto simp: reader_ok_def)
  with c'(1) show ?thesis by (intro exI [of _ s'] exI [of _ k]) (simp add: emit_all_append)
qed

section \<open>The properties\<close>

text \<open>A log with one record, the one with number \<open>n\<close>, for the examples.\<close>

definition up_msg :: log_msg where
  "up_msg = new_msg 5 0 6 LOG_NEWLINE 0 [] (str ''up'')"

lemma up_msg_fields:
  "m_text up_msg = str ''up''" "m_dict up_msg = []" "m_flags up_msg = LOG_NEWLINE" "nl \<notin> set (str ''up'')" "length (str ''up'') = 2"
  by (simp_all add: up_msg_def new_msg_def Let_def nl_def str_def of_char_def)

lemma up_logged:
  assumes "n < 10"
  shows "\<exists>s. klog s [up_msg] \<and> log_first_seq s = n \<and> log_next_seq s = Suc n \<and> reader_ok s n 0 \<and>
    same_rest ((printk_start oops True 4096 0)\<lparr>log_first_seq := n, log_next_seq := n, syslog_pos := \<lparr>p_seq = n, p_idx = 0, p_prev = 0\<rparr>,
      log_oops_last_seq := 0\<rparr>) s \<and> log_oops_last_seq s = 0"
  (is "\<exists>s. _ \<and> _ \<and> _ \<and> _ \<and> same_rest ?s0 s \<and> _")
proof -
  have k: "klog ?s0 []" using assms by (simp add: klog_def printk_start_def layout_def ULLONG_MAX_def sizeof_log_def)
  have lim: "length (str ''up'') \<le> LOG_LINE_MAX" "length ([] :: u8 list) \<le> 1000" "4096 \<le> log_buf_len ?s0" "Suc (log_next_seq ?s0) < ULLONG_MAX"
    using assms by (simp_all add: LOG_LINE_MAX_def printk_start_def ULLONG_MAX_def str_def)
  obtain s k where s: "k \<le> length ([] :: log_msg list)" "log_first_seq s = log_first_seq ?s0 + k"
    "klog s (drop k [] @ [up_msg])" "same_rest ?s0 s" "\<forall>sq idx. reader_ok ?s0 sq idx \<longrightarrow> reader_ok s sq idx"
    "log_store 5 0 6 LOG_NEWLINE 0 [] (str ''up'') ?s0 = Some s"
    using log_store_limits [OF k lim, of 5 0 6 LOG_NEWLINE 0] by (auto simp: up_msg_def)
  have "reader_ok ?s0 n 0" by (simp add: reader_ok_def printk_start_def)
  moreover have "log_oops_last_seq s = 0" using s(6) by (auto simp: log_store_def Let_def drop_old.simps printk_start_def insert_msg_def
    bind_eq_Some_conv split: if_splits)
  ultimately show ?thesis using s klog_seq [OF s(3)] by (intro exI [of _ s]) (simp add: printk_start_def)
qed


text \<open>
  C9: \<open>log_store\<close> never leaves its buffer, drops a number of the oldest records (none when there is room),
  and adds the new one. Reading from the first index on gives exactly the records that are left, in
  order, and every reader whose position was right, or whose record was gone, is so afterwards.
\<close>

theorem log_store_keeps_newest:
  assumes k: "klog s rs" and len: "length t \<le> LOG_LINE_MAX" "length d \<le> 1000" "4096 \<le> log_buf_len s" and sq: "Suc (log_next_seq s) < ULLONG_MAX"
    and m: "m = new_msg clock facility level flags ts d t"
  shows "\<exists>s' k. log_store clock facility level flags ts d t s = Some s' \<and> k \<le> length rs \<and>
     klog s' (drop k rs @ [m]) \<and> log_first_seq s' = log_first_seq s + k \<and> (log_free s > rec_size m + sizeof_log \<longrightarrow> k = 0) \<and>
     record_log.read_on (\<lambda>s. log_get (log_buf s)) (\<lambda>s. log_next (log_buf s)) (Suc (length rs - k)) s' (log_first_idx s') = Some (drop k rs @ [m]) \<and>
     (\<forall>sq idx. reader_ok s sq idx \<longrightarrow> reader_ok s' sq idx)"
proof -
  have small: "sizeof_log + length t + length d + 4 \<le> 2 ^ 16" using len by (simp add: sizeof_log_def LOG_LINE_MAX_def)
  have "rec_size m < sizeof_log + length t + length d + 4"
    using pad_len_less [of "sizeof_log + length t + length d"] by (simp add: m rec_size_eq new_msg_def Let_def)
  then have room: "2 * rec_size m + sizeof_log \<le> log_buf_len s" using len by (simp add: sizeof_log_def LOG_LINE_MAX_def)
  obtain s' j where s': "log_store clock facility level flags ts d t s = Some s'" "j \<le> length rs" "klog s' (drop j rs @ [m])"
      "log_first_seq s' = log_first_seq s + j" "\<forall>sq idx. reader_ok s sq idx \<longrightarrow> reader_ok s' sq idx"
      "log_free s > rec_size m + sizeof_log \<longrightarrow> j = 0"
    using log_store_klog [OF k small m room sq] by blast
  have "reader_ok s' (log_first_seq s') (log_first_idx s')" using klog_first_next [OF s'(3)] by simp
  from ring_log.read_on_records [OF s'(3) this order_refl, of "Suc (length rs - j)"]
  have "record_log.read_on (\<lambda>s. log_get (log_buf s)) (\<lambda>s. log_next (log_buf s)) (Suc (length rs - j)) s' (log_first_idx s') = Some (drop j rs @ [m])"
    by simp
  with s' show ?thesis by blast
qed

lemma log_store_keeps_newest_witness:
  "\<exists>s' k. log_store 5 0 6 LOG_NEWLINE 0 [] (str ''up'') (printk_start False True 4096 0) = Some s' \<and> k \<le> length ([] :: log_msg list) \<and>
     klog s' (drop k [] @ [new_msg 5 0 6 LOG_NEWLINE 0 [] (str ''up'')])"
  using log_store_keeps_newest [OF klog_start [of 4096 False True 0], of "str ''up''" "[]" _ 5 0 6 LOG_NEWLINE 0]
  by (fastforce simp: sizeof_log_def LOG_LINE_MAX_def printk_start_def ULLONG_MAX_def)

text \<open>
  C14: \<open>syslog\<close> delivers every byte once, when the oops buffer is not configured. Along any interleaving of
  stores with turns of \<open>syslog_print\<close> of any sizes, as long as no record is dropped before it is read, what has
  been delivered and what is pending are together the texts of the records that were unread at the
  start and of those stored since, in order. A whole call of \<open>syslog_print\<close>, with stores by other cpus at
  each moment it is without the lock and copies that succeed, returns the number of bytes of such a run,
  at most the size of the buffer; it delivers something when something is pending, if the texts are lines.
\<close>

theorem syslog_delivers:
  assumes run: "syslog_run s0 s ms out" and k: "klog s0 rs" and ok: "syslog_ok s0 rs" and seen: "log_first_seq s0 \<le> p_seq (syslog_pos s0)"
    and cfg: "\<not> config_oops s0" and env: "\<forall>(copied, f) \<in> set env. copied \<and> storing syslog_pos f"
  shows "\<exists>rs'. klog s rs' \<and> syslog_ok s rs' \<and>
    out @ pending s rs' = drop (syslog_partial s0) (log_texts (printk_time s0) (p_prev (syslog_pos s0)) (unread s0 rs @ ms)) \<and>
    (\<exists>c s' ms'. syslog_print True sz env s = Some (int (length c), c, s') \<and> length c \<le> sz \<and> syslog_run s0 s' (ms @ ms') (out @ c) \<and>
      (0 < sz \<and> pending s rs' \<noteq> [] \<and> (\<forall>m \<in> set rs'. plain_msg m) \<longrightarrow> c \<noteq> []))"
proof -
  obtain rs' where rs': "klog s rs'" "syslog_ok s rs'"
      "out @ pending s rs' = drop (syslog_partial s0) (log_texts (printk_time s0) (p_prev (syslog_pos s0)) (unread s0 rs @ ms))"
    using syslog_run_exact [OF run k ok seen] by blast
  then show ?thesis using syslog_print_run [OF k ok seen run env cfg, of sz rs'] by blast
qed

lemma syslog_delivers_witness:
  "\<exists>s out. syslog_run (printk_start False True 4096 0) s [new_msg 5 0 6 LOG_NEWLINE 0 [] (str ''up'')] out \<and>
     (\<exists>rs'. klog s rs' \<and> out @ pending s rs' = log_texts True 0 [new_msg 5 0 6 LOG_NEWLINE 0 [] (str ''up'')]) \<and>
     (\<exists>c s' ms'. syslog_print True 8 [(True, store_one syslog_pos (new_msg 5 0 6 LOG_NEWLINE 0 [] (str ''up'')))] s = Some (int (length c), c, s') \<and>
       syslog_run (printk_start False True 4096 0) s' ([new_msg 5 0 6 LOG_NEWLINE 0 [] (str ''up'')] @ ms') (out @ c))"
proof -
  let ?s0 = "printk_start False True 4096 0" and ?m = "new_msg 5 0 6 LOG_NEWLINE 0 [] (str ''up'')"
  have k: "klog ?s0 []" by (rule klog_start) (simp add: sizeof_log_def)
  have lim: "length (str ''up'') \<le> LOG_LINE_MAX" "length ([] :: u8 list) \<le> 1000" "4096 \<le> log_buf_len ?s0" "Suc (log_next_seq ?s0) < ULLONG_MAX"
    by (simp_all add: LOG_LINE_MAX_def printk_start_def ULLONG_MAX_def)
  obtain s k where s: "log_store 5 0 6 LOG_NEWLINE 0 [] (str ''up'') ?s0 = Some s" "k \<le> length ([] :: log_msg list)" "log_first_seq s = log_first_seq ?s0 + k"
    "klog s (drop k [] @ [?m])" "same_rest ?s0 s" "\<forall>sq idx. reader_ok ?s0 sq idx \<longrightarrow> reader_ok s sq idx"
    using log_store_limits [OF k lim] by blast
  have "log_first_seq s \<le> p_seq (syslog_pos ?s0)" using s(2,3) by (simp add: printk_start_def)
  with s(1) have r1: "syslog_run ?s0 s ([] @ [?m]) []" using syslog_run.store [OF syslog_run.start s(1) lim] by simp
  have ok: "syslog_ok ?s0 []" by (simp add: syslog_ok_def printk_start_def reader_ok_def)
  have "klog s [?m]" using s(2,4) by simp
  moreover have "syslog_ok s [?m]"
    using s(2,3,5,6) klog_seq [OF \<open>klog s [?m]\<close>] by (simp add: syslog_ok_def same_rest_def printk_start_def reader_ok_def)
  ultimately obtain c s' where "syslog_section 100 0 s = Some (c, s')" using syslog_section_reads by blast
  with r1 have r2: "syslog_run ?s0 s' [?m] ([] @ c)" by (intro syslog_run.read) simp_all
  have "log_first_seq ?s0 \<le> p_seq (syslog_pos ?s0)" by (simp add: printk_start_def)
  moreover have "\<not> config_oops ?s0" by (simp add: printk_start_def)
  moreover have "\<forall>(copied, f) \<in> set [(True, store_one syslog_pos ?m)]. copied \<and> storing syslog_pos f" using storing_store_one by simp
  ultimately have d: "\<exists>rs'. klog s' rs' \<and> c @ pending s' rs' = log_texts True 0 [?m] \<and>
      (\<exists>d s'' ms'. syslog_print True 8 [(True, store_one syslog_pos ?m)] s' = Some (int (length d), d, s'') \<and> syslog_run ?s0 s'' ([?m] @ ms') (c @ d))"
    using syslog_delivers [OF r2 k ok, of "[(True, store_one syslog_pos ?m)]" 8] by (fastforce simp: unread_def printk_start_def)
  with r2 show ?thesis by (intro exI [of _ s'] exI [of _ c]) auto
qed

text \<open>
  C30: A reader of \<open>/dev/kmsg\<close> whose record is there gets the text of exactly this record, in at most the
  8192 bytes of its buffer when the record is no longer than \<open>vprintk_emit\<close> makes it (a text of at most 992
  bytes and a dictionary of at most 1000), and goes on to the next; one whose record is gone gets \<open>EPIPE\<close>
  and stands at the first record that is left. This is so while the reader is served from the log: the
  oops buffer is not configured, or no oops has been announced.
\<close>

theorem devkmsg_reads_records:
  assumes k: "klog s rs" and cfg: "\<not> config_oops s \<or> log_oops_first_seq s = ULLONG_MAX" and u: "reader_ok s (p_seq u) (p_idx u)"
    and hi: "p_seq u < log_next_seq s"
  shows "if log_first_seq s \<le> p_seq u then
      (let m = rs ! (p_seq u - log_first_seq s); t = devkmsg_text (p_seq u) (p_prev u) m in
        (length (m_text m) \<le> LOG_LINE_MAX \<and> length (m_dict m) \<le> 1000 \<longrightarrow> length t \<le> 8192) \<and>
        (\<exists>idx. devkmsg_section u s = Some (Inr t, \<lparr>p_seq = Suc (p_seq u), p_idx = idx, p_prev = m_flags m\<rparr>) \<and> reader_ok s (Suc (p_seq u)) idx))
    else (\<exists>u'. devkmsg_section u s = Some (Inl (- EPIPE), u') \<and> p_seq u' = log_first_seq s \<and> reader_ok s (p_seq u') (p_idx u'))"
proof (cases "log_first_seq s \<le> p_seq u")
  case True
  have "p_seq u \<le> ULLONG_MAX" using hi k by (simp add: klog_def)
  with True devkmsg_section_reads [OF k cfg u True hi] devkmsg_text_bound [of "rs ! (p_seq u - log_first_seq s)" "p_seq u" "p_prev u"]
  show ?thesis by (simp add: Let_def)
next
  case False
  then show ?thesis using devkmsg_section_gone [OF cfg, of u] klog_first_next [OF k] by simp
qed

lemma devkmsg_reads_records_witness:
  "\<exists>s idx. klog s [up_msg] \<and> length (devkmsg_text 0 0 up_msg) \<le> 8192 \<and>
     devkmsg_section \<lparr>p_seq = 0, p_idx = 0, p_prev = 0\<rparr> s = Some (Inr (devkmsg_text 0 0 up_msg), \<lparr>p_seq = 1, p_idx = idx, p_prev = LOG_NEWLINE\<rparr>)"
proof -
  obtain s where s: "klog s [up_msg]" "log_first_seq s = 0" "log_next_seq s = Suc 0" "reader_ok s 0 0"
    "\<not> config_oops s \<or> log_oops_first_seq s = ULLONG_MAX"
    using up_logged [of 0 False] by (auto simp: same_rest_def printk_start_def)
  show ?thesis
    using devkmsg_reads_records [OF s(1,5), of "\<lparr>p_seq = 0, p_idx = 0, p_prev = 0\<rparr>"] s
    by (intro exI [of _ s]) (auto simp: up_msg_fields LOG_LINE_MAX_def Let_def)
qed

text \<open>
  C31: Successive calls of \<open>kmsg_dump_get_buffer\<close> take the records from the youngest to the oldest, each once:
  a call takes a block from the end of what is left to dump, in a buffer that is not overrun, and leaves
  the rest. The block has as many of the youngest records as fit: their sizes, as \<open>msg_print_text\<close> gives them
  with the prefix of \<open>syslog\<close>, are together at most the size of the buffer, and with one record more they
  are not. When the texts of the block leave 28 bytes free, they are copied in full.
\<close>

theorem kmsg_dump_blocks:
  assumes k: "klog s rs" and ok: "dumper_ok s d" and act: "d_active d" and some: "to_dump s rs d \<noteq> []"
  shows "\<exists>old block out d'. to_dump s rs d = old @ block \<and> kmsg_dump_get_buffer s syslog sz d = Some (True, out, d') \<and> length out \<le> sz \<and>
    d_active d' \<and> dumper_ok s d' \<and> to_dump s rs d' = old \<and> (old = [] \<longleftrightarrow> log_sizes (printk_time s) 0 (to_dump s rs d) \<le> sz) \<and>
    tail_size (printk_time s) (to_dump s rs d) (length old) \<le> sz \<and> (\<forall>k < length old. sz < tail_size (printk_time s) (to_dump s rs d) k) \<and>
    (length (full_texts (printk_time s) syslog 0 block) + 28 < sz \<longrightarrow> out = full_texts (printk_time s) syslog 0 block)"
proof -
  obtain old block d' where b: "to_dump s rs d = old @ block"
    "kmsg_dump_get_buffer s syslog sz d = Some (True, dump_out (printk_time s) syslog sz [] 0 block, d')"
    "d_active d'" "dumper_ok s d'" "to_dump s rs d' = old" "old = [] \<longleftrightarrow> log_sizes (printk_time s) 0 (to_dump s rs d) \<le> sz"
    "tail_size (printk_time s) (to_dump s rs d) (length old) \<le> sz" "\<forall>k < length old. sz < tail_size (printk_time s) (to_dump s rs d) k"
    using kmsg_dump_get_buffer_block [OF assms, of syslog sz] by (elim exE conjE) (rule that)
  moreover have "length (dump_out (printk_time s) syslog sz [] 0 block) \<le> sz" by (rule dump_out_bound) simp
  moreover have "length (full_texts (printk_time s) syslog 0 block) + 28 < sz \<longrightarrow>
      dump_out (printk_time s) syslog sz [] 0 block = full_texts (printk_time s) syslog 0 block"
    using dump_out_full [of "[]" "printk_time s" syslog 0 block sz] by simp
  ultimately show ?thesis
    by (intro exI [of _ old] exI [of _ block] exI [of _ "dump_out (printk_time s) syslog sz [] 0 block"] exI [of _ d'] conjI)
qed

abbreviation dump_one :: kmsg_dumper where
  "dump_one \<equiv> \<lparr>d_active = True, d_registered = True, cur_seq = 0, cur_idx = 0, d_next_seq = 1, d_next_idx = 0\<rparr>"

lemma dump_one_ok:
  "klog s [m] \<Longrightarrow> log_first_seq s = 0 \<Longrightarrow> log_next_seq s = Suc 0 \<Longrightarrow> reader_ok s 0 0 \<Longrightarrow> dumper_ok s dump_one \<and> to_dump s [m] dump_one = [m]"
  by (simp add: dumper_ok_def to_dump_def records_from_def)

lemma kmsg_dump_blocks_witness:
  "\<exists>s out d'. klog s [up_msg] \<and> kmsg_dump_get_buffer s True 1000 dump_one = Some (True, out, d') \<and> length out \<le> 1000"
proof -
  obtain s where s: "klog s [up_msg]" "log_first_seq s = 0" "log_next_seq s = Suc 0" "reader_ok s 0 0"
    using up_logged [of 0 False] by auto
  then show ?thesis using kmsg_dump_blocks [OF s(1), of dump_one True 1000] dump_one_ok [OF s] by auto
qed

text \<open>
  A record that fills the buffer of \<open>kmsg_dump_get_buffer\<close> to the last byte is counted as fitting, but its
  text is not copied: the call returns true with no bytes, and the record is not dumped again.
\<close>

theorem kmsg_dump_loses_exact_fit:
  assumes k: "klog s rs" and ok: "dumper_ok s d" and act: "d_active d" and one: "to_dump s rs d = [m]"
    and line: "nl \<notin> set (m_text m)" "starts_line 0 (m_flags m)" "ends_line (m_flags m)"
  shows "\<exists>d'. kmsg_dump_get_buffer s True (msg_print_len (printk_time s) m 0 True) d = Some (True, [], d') \<and> to_dump s rs d' = []"
  using kmsg_dump_exact_fit [OF assms] .

lemma kmsg_dump_loses_exact_fit_witness:
  "\<exists>s d'. klog s [up_msg] \<and> kmsg_dump_get_buffer s True (msg_print_len (printk_time s) up_msg 0 True) dump_one = Some (True, [], d')"
proof -
  obtain s where s: "klog s [up_msg]" "log_first_seq s = 0" "log_next_seq s = Suc 0" "reader_ok s 0 0"
    using up_logged [of 0 False] by auto
  have "starts_line 0 (m_flags up_msg)" "ends_line (m_flags up_msg)"
    by (simp_all add: up_msg_fields starts_line_def ends_line_def has_flag_def LOG_CONT_def LOG_NEWLINE_def)
  then show ?thesis using kmsg_dump_loses_exact_fit [OF s(1), of dump_one up_msg] dump_one_ok [OF s] s(1) by (auto simp: up_msg_fields)
qed

text \<open>
  C28: A line that a task prints in pieces becomes one record: the texts of the calls in order, with the
  level and facility of the call, stamped with the time of the last call, as long as it is at most 793
  bytes long, no piece has a header, no other task prints in between, and the console lock is held elsewhere,
  so that no piece goes to the consoles before the line ends.
\<close>

theorem printk_pieces_one_record:
  assumes k: "klog s rs" and big: "4096 \<le> log_buf_len s" and sq: "Suc (log_next_seq s) < ULLONG_MAX"
    and free: "c_buf (cont s) = []" "\<not> recursion_bug s" and lev: "level = - 1 \<or> 0 \<le> level" "msg_level s level < 8"
    and pieces: "\<forall>c\<in>set calls. piece_ok hdr cur c" and E: "e_current E = cur" "\<not> e_recursing E" "fst (hdr t) = 0"
    and len: "length (concat (map snd calls)) + length t \<le> 793"
  shows "\<exists>s' k. emit_all hdr facility level (calls @ [(E, t @ [nl])]) s = Some s' \<and> k \<le> length rs \<and>
    klog s' (drop k rs @ [new_msg (e_clock E) (word_of_nat facility) (msg_level s level) LOG_NEWLINE 0 [] (concat (map snd calls) @ t)]) \<and>
    log_first_seq s' = log_first_seq s + k \<and> c_buf (cont s') = [] \<and> (\<forall>sq idx. reader_ok s sq idx \<longrightarrow> reader_ok s' sq idx)"
  using printk_in_pieces [OF assms] .

lemma printk_pieces_one_record_witness:
  "\<exists>s'. emit_all (\<lambda>t. (0, 0)) 0 6 [(\<lparr>e_clock = 1, e_current = 7, e_recursing = False, e_oops = False\<rparr>, str ''u''),
       (\<lparr>e_clock = 5, e_current = 7, e_recursing = False, e_oops = False\<rparr>, str ''p'' @ [nl])] (printk_start False True 4096 0) = Some s' \<and>
     klog s' [up_msg]"
proof -
  have "klog (printk_start False True 4096 0) []" by (rule klog_start) (simp add: sizeof_log_def)
  from printk_pieces_one_record [OF this, of 6 "[(\<lparr>e_clock = 1, e_current = 7, e_recursing = False, e_oops = False\<rparr>, str ''u'')]" "\<lambda>t. (0, 0)" 7
      "\<lparr>e_clock = 5, e_current = 7, e_recursing = False, e_oops = False\<rparr>" "str ''p''" 0]
  show ?thesis
    by (auto simp: printk_start_def ULLONG_MAX_def msg_level_def piece_ok_def str_def nl_def up_msg_def of_char_def)
qed

text \<open>
  C29: \<open>console_unlock\<close> ends, and hands the drivers every record that the consoles have not had, once and
  in order, but for those that were printed as fragments already. This holds for every sequence of records
  that other cpus store while the drivers write and after the semaphore is released, as long as none of
  them drops a record that the consoles have not had: the output is that of the records of the start
  and then of the new ones, after the part of the line under construction that is due. None is left,
  unless the semaphore could not be had again, when its new holder prints the rest; and the records of the
  log are as they were stored, but for the marks.
\<close>

theorem console_prints_once:
  assumes k: "klog s rs" and ok: "console_ok s" and oth: "\<forall>f \<in> set others. storing console_pos f"
    and ag: "\<forall>(f, trylock, others) \<in> set again. storing console_pos f \<and> (\<forall>g \<in> set others. storing console_pos g)"
  shows "\<exists>out t rt ms k. console_unlock others again False s = Some (one_out (fst (console_cont_flush s)) @ out, t) \<and>
    console_run (console_catch_up (snd (console_cont_flush s))) t ms out \<and>
    out @ console_out (printk_time s) (p_prev (console_pos t)) (console_unread t rt) =
      console_out (printk_time s) (if p_seq (console_pos s) < log_first_seq s then 0 else p_prev (console_pos s)) (console_unread s rs @ ms) \<and>
    klog t rt \<and> log_first_seq t = log_first_seq s + k \<and> map clear_mark rt = map clear_mark (drop k (rs @ ms)) \<and>
    (console_unread t rt = [] \<or> (\<exists>f others. (f, False, others) \<in> set again))"
  using console_unlock_prints [OF assms] .

text \<open>Another record is stored while the first is written.\<close>

lemma console_prints_once_witness:
  "\<exists>s out t ms. klog s [up_msg] \<and> console_unlock [store_one console_pos up_msg] [] False s = Some (out, t) \<and> out = console_out True 0 (up_msg # ms) \<and>
     console_run (console_catch_up s) t ms out"
proof -
  obtain s where s: "klog s [up_msg]" "log_first_seq s = 0" "log_next_seq s = Suc 0" "reader_ok s 0 0"
    "console_pos s = \<lparr>p_seq = 0, p_idx = 0, p_prev = 0\<rparr>" "c_buf (cont s) = []" "printk_time s"
    using up_logged [of 0 False] by (auto simp: same_rest_def printk_start_def)
  then have "console_ok s" "console_unread s [up_msg] = [up_msg]" "console_cont_flush s = (None, s)"
    by (simp_all add: console_ok_def console_unread_def console_cont_flush_def)
  moreover have "\<forall>f \<in> set [store_one console_pos up_msg]. storing console_pos f" using storing_store_one by simp
  ultimately show ?thesis
    using console_prints_once [OF s(1), of "[store_one console_pos up_msg]" "[]"] s by (intro exI [of _ s]) fastforce
qed

text \<open>
  C39: With the oops buffer configured and no oops so far, \<open>syslog\<close> sets its position to the number that
  stands for none. A read of the one record that is new returns it, and after it the whole buffer again.
\<close>

theorem syslog_oops_repeats:
  assumes k: "klog s rs" and cfg: "config_oops s" "log_oops_first_seq s = ULLONG_MAX" "log_oops_last_seq s = 0"
    and ok: "syslog_ok s rs" and un: "unread s rs = [m]" "log_first_seq s \<le> p_seq (syslog_pos s)" "syslog_partial s = 0" and lost: "0 < log_first_seq s"
    and plain: "\<forall>m\<in>set rs. plain_msg m"
    and sz: "sz = length (sys_text (printk_time s) (p_prev (syslog_pos s)) m) + length (log_texts (printk_time s) 0 rs)"
  shows "\<exists>s'. syslog_print True sz [] s = Some (int sz, sys_text (printk_time s) (p_prev (syslog_pos s)) m @ log_texts (printk_time s) 0 rs, s')"
  using syslog_oops_rereads [OF assms] .

lemma syslog_oops_repeats_witness:
  "\<exists>s sz t s'. klog s [up_msg] \<and> sz = length (t @ t) \<and> t = sys_text True 0 up_msg \<and> syslog_print True sz [] s = Some (int sz, t @ t, s')"
proof -
  obtain s where s: "klog s [up_msg]" "log_first_seq s = 1" "log_next_seq s = 2" "reader_ok s 1 0" "log_oops_last_seq s = 0"
    "syslog_pos s = \<lparr>p_seq = 1, p_idx = 0, p_prev = 0\<rparr>" "syslog_partial s = 0" "printk_time s" "config_oops s" "log_oops_first_seq s = ULLONG_MAX"
    using up_logged [of 1 True] by (auto simp: same_rest_def printk_start_def ULLONG_MAX_def)
  then have "syslog_ok s [up_msg]" "unread s [up_msg] = [up_msg]" by (simp_all add: syslog_ok_def unread_def)
  moreover have "plain_msg up_msg" by (simp add: plain_msg_def up_msg_fields LOG_LINE_MAX_def str_def nl_def of_char_def)
  ultimately show ?thesis
    using syslog_oops_repeats [OF s(1), of up_msg "length (sys_text True 0 up_msg @ sys_text True 0 up_msg)"] s
    by (intro exI [of _ s]) auto
qed

end
