(* ===== verification/Wakeup.thy ===== *)
theory Wakeup
  imports Prelude
begin

text \<open>
  Wake-up sources, \<open>src/debugfs/android50/kernel/drivers/base/power/wakeup.c\<close>: which events keep the
  system from going to sleep, and how suspend learns of events that come while it is on its way. All
  functions of the file are here but the reads of its debugfs file, of which the numbers printed are.
  A function that works under the lock of one source maps the source and the common state; the calls on
  pointers are built from these. Times are integers, \<open>jiffies\<close> and counters are machine words.
\<close>

unbundle bit_operations_syntax

definition EEXIST :: int where "EEXIST = 17"

section \<open>State\<close>

record wakeup_source =
  ws_name :: "string option"
  ws_active :: bool
  ws_autosleep_enabled :: bool
  ws_event_count :: u64
  ws_active_count :: u64
  ws_relax_count :: u64
  ws_expire_count :: u64
  ws_wakeup_count :: u64
  ws_timer_expires :: u64
  ws_timer :: "u64 option"
  ws_total_time :: int
  ws_max_time :: int
  ws_last_time :: int
  ws_start_prevent_time :: int
  ws_prevent_sleep_time :: int

text \<open>
  \<open>ws_timer\<close> is the time at which the timer is due, \<open>None\<close>: not queued. In the state, \<open>jiffies\<close> and
  \<open>ktime\<close> are the clocks, \<open>wk_mem\<close> and \<open>wk_next\<close> the allocator. The last two fields are about the other
  cpus: the sources whose timer functions have started but do not have the lock yet, and those that
  are in the middle of \<open>__pm_wakeup_event\<close>.
\<close>

record wakeup =
  events_check_enabled :: bool
  combined_event_count :: u32
  saved_count :: u32
  suspend_freeze_wake :: bool
  wakeup_sources :: "nat list"
  sources :: "nat \<Rightarrow> wakeup_source option"
  jiffies :: u64
  ktime :: int
  wk_mem :: outcomes
  wk_next :: nat
  timers_running :: "nat list"
  half_done :: "nat set"

definition wakeup_start :: "outcomes \<Rightarrow> wakeup" where
  "wakeup_start mem =
     \<lparr>events_check_enabled = False, combined_event_count = 0, saved_count = 0, suspend_freeze_wake = False, wakeup_sources = [],
      sources = (\<lambda>a. None), jiffies = 0, ktime = 0, wk_mem = mem, wk_next = 0, timers_running = [], half_done = {}\<rparr>"

definition IN_PROGRESS_BITS :: nat where "IN_PROGRESS_BITS = 16"
definition MAX_IN_PROGRESS :: u32 where "MAX_IN_PROGRESS = 2 ^ IN_PROGRESS_BITS - 1"

definition split_counters :: "wakeup \<Rightarrow> u32 \<times> u32" where
  "split_counters s = (drop_bit IN_PROGRESS_BITS (combined_event_count s), combined_event_count s AND MAX_IN_PROGRESS)"

text \<open>Comparisons of \<open>jiffies\<close>: the sign of the difference.\<close>

definition time_after :: "u64 \<Rightarrow> u64 \<Rightarrow> bool" where
  "time_after a b \<longleftrightarrow> sint (b - a) < 0"

definition time_after_eq :: "u64 \<Rightarrow> u64 \<Rightarrow> bool" where
  "time_after_eq a b \<longleftrightarrow> sint (a - b) \<ge> 0"

section \<open>Events of one source\<close>

definition freeze_wake :: "wakeup \<Rightarrow> wakeup" where
  "freeze_wake s = s\<lparr>suspend_freeze_wake := True\<rparr>"

definition wakeup_source_activate :: "wakeup_source \<Rightarrow> wakeup \<Rightarrow> wakeup_source \<times> wakeup" where
  "wakeup_source_activate w s =
     (let s = freeze_wake s;
          w = w\<lparr>ws_active := True, ws_active_count := ws_active_count w + 1, ws_last_time := ktime s\<rparr>;
          w = (if ws_autosleep_enabled w then w\<lparr>ws_start_prevent_time := ws_last_time w\<rparr> else w)
      in (w, s\<lparr>combined_event_count := combined_event_count s + 1\<rparr>))"

definition wakeup_source_report_event :: "wakeup_source \<Rightarrow> wakeup \<Rightarrow> wakeup_source \<times> wakeup" where
  "wakeup_source_report_event w s =
     (let w = w\<lparr>ws_event_count := ws_event_count w + 1\<rparr>;
          w = (if events_check_enabled s then w\<lparr>ws_wakeup_count := ws_wakeup_count w + 1\<rparr> else w)
      in if \<not> ws_active w then wakeup_source_activate w s else (w, s))"

definition stay_awake :: "wakeup_source \<Rightarrow> wakeup \<Rightarrow> wakeup_source \<times> wakeup" where
  "stay_awake w s = (case wakeup_source_report_event w s of (w, s) \<Rightarrow> (w\<lparr>ws_timer := None, ws_timer_expires := 0\<rparr>, s))"

text \<open>With \<open>CONFIG_PM_AUTOSLEEP\<close>, as in the other definitions.\<close>

definition update_prevent_sleep_time :: "wakeup_source \<Rightarrow> int \<Rightarrow> wakeup_source" where
  "update_prevent_sleep_time w now = w\<lparr>ws_prevent_sleep_time := ws_prevent_sleep_time w + (now - ws_start_prevent_time w)\<rparr>"

text \<open>
  One atomic addition moves the event from those in progress to those registered. The wake-up of the
  waiters that follows when none is left does not change the state.
\<close>

definition wakeup_source_deactivate :: "wakeup_source \<Rightarrow> wakeup \<Rightarrow> wakeup_source \<times> wakeup" where
  "wakeup_source_deactivate w s =
     (if ws_relax_count w + 1 \<noteq> ws_active_count w then (w, s)
      else let now = ktime s; duration = now - ws_last_time w;
               w = w\<lparr>ws_relax_count := ws_relax_count w + 1, ws_active := False, ws_total_time := ws_total_time w + duration,
                      ws_max_time := (if duration > ws_max_time w then duration else ws_max_time w), ws_last_time := now,
                      ws_timer := None, ws_timer_expires := 0\<rparr>;
               w = (if ws_autosleep_enabled w then update_prevent_sleep_time w now else w)
           in (w, s\<lparr>combined_event_count := combined_event_count s + MAX_IN_PROGRESS\<rparr>))"

definition relax :: "wakeup_source \<Rightarrow> wakeup \<Rightarrow> wakeup_source \<times> wakeup" where
  "relax w s = (if ws_active w then wakeup_source_deactivate w s else (w, s))"

definition timer_fn :: "wakeup_source \<Rightarrow> wakeup \<Rightarrow> wakeup_source \<times> wakeup" where
  "timer_fn w s =
     (if ws_active w \<and> ws_timer_expires w \<noteq> 0 \<and> time_after_eq (jiffies s) (ws_timer_expires w)
      then (case wakeup_source_deactivate w s of (w, s) \<Rightarrow> (w\<lparr>ws_expire_count := ws_expire_count w + 1\<rparr>, s))
      else (w, s))"

text \<open>\<open>m2j\<close> stands for \<open>msecs_to_jiffies\<close> of the kernel's time library.\<close>

definition set_expiry :: "(u32 \<Rightarrow> u64) \<Rightarrow> u32 \<Rightarrow> wakeup_source \<Rightarrow> wakeup \<Rightarrow> wakeup_source \<times> wakeup" where
  "set_expiry m2j msec w s =
     (let expires = jiffies s + m2j msec; expires = (if expires = 0 then 1 else expires)
      in if ws_timer_expires w = 0 \<or> time_after expires (ws_timer_expires w)
         then (w\<lparr>ws_timer := Some expires, ws_timer_expires := expires\<rparr>, s) else (w, s))"

definition wakeup_event :: "(u32 \<Rightarrow> u64) \<Rightarrow> u32 \<Rightarrow> wakeup_source \<Rightarrow> wakeup \<Rightarrow> wakeup_source \<times> wakeup" where
  "wakeup_event m2j msec w s =
     (case wakeup_source_report_event w s of (w, s) \<Rightarrow>
        if msec = 0 then wakeup_source_deactivate w s else set_expiry m2j msec w s)"

section \<open>Calls on pointers\<close>

text \<open>No effect for \<open>NULL\<close>, \<open>None\<close> for a source that has been freed.\<close>

definition on_source :: "(wakeup_source \<Rightarrow> wakeup \<Rightarrow> wakeup_source \<times> wakeup) \<Rightarrow> nat option \<Rightarrow> wakeup \<Rightarrow> wakeup option" where
  "on_source f p s =
     (case p of
        None \<Rightarrow> Some s
      | Some a \<Rightarrow> Option.bind (sources s a) (\<lambda>w. case f w s of (w', s') \<Rightarrow> Some (s'\<lparr>sources := (sources s')(a \<mapsto> w')\<rparr>)))"

definition pm_stay_awake_ws :: "nat option \<Rightarrow> wakeup \<Rightarrow> wakeup option" where
  "pm_stay_awake_ws = on_source stay_awake"

definition pm_relax_ws :: "nat option \<Rightarrow> wakeup \<Rightarrow> wakeup option" where
  "pm_relax_ws = on_source relax"

definition pm_wakeup_event_ws :: "(u32 \<Rightarrow> u64) \<Rightarrow> u32 \<Rightarrow> nat option \<Rightarrow> wakeup \<Rightarrow> wakeup option" where
  "pm_wakeup_event_ws m2j msec = on_source (wakeup_event m2j msec)"

definition pm_wakeup_timer_fn :: "nat \<Rightarrow> wakeup \<Rightarrow> wakeup option" where
  "pm_wakeup_timer_fn a = on_source timer_fn (Some a)"

section \<open>Sources come and go\<close>

definition wakeup_source_prepare :: "string option \<Rightarrow> wakeup_source" where
  "wakeup_source_prepare name =
     \<lparr>ws_name = name, ws_active = False, ws_autosleep_enabled = False, ws_event_count = 0, ws_active_count = 0, ws_relax_count = 0,
      ws_expire_count = 0, ws_wakeup_count = 0, ws_timer_expires = 0, ws_timer = None, ws_total_time = 0, ws_max_time = 0,
      ws_last_time = 0, ws_start_prevent_time = 0, ws_prevent_sleep_time = 0\<rparr>"

text \<open>A source whose name cannot be copied is created without one.\<close>

definition wakeup_source_create :: "string option \<Rightarrow> wakeup \<Rightarrow> nat option \<times> wakeup" where
  "wakeup_source_create name s =
     (case alloc_next (wk_mem s) of (ok, mem) \<Rightarrow>
        if \<not> ok then (None, s\<lparr>wk_mem := mem\<rparr>)
        else case (if name = None then (True, mem) else alloc_next mem) of (dup, mem) \<Rightarrow>
          (Some (wk_next s),
           s\<lparr>wk_mem := mem, wk_next := wk_next s + 1,
             sources := (sources s)(wk_next s \<mapsto> wakeup_source_prepare (if dup then name else None))\<rparr>))"

definition wakeup_source_add :: "nat option \<Rightarrow> wakeup \<Rightarrow> wakeup option" where
  "wakeup_source_add p s =
     (case p of
        None \<Rightarrow> Some s
      | Some a \<Rightarrow> map_option (\<lambda>s. s\<lparr>wakeup_sources := a # wakeup_sources s\<rparr>)
          (on_source (\<lambda>w s. (w\<lparr>ws_timer := None, ws_active := False, ws_last_time := ktime s\<rparr>, s)) p s))"

definition wakeup_source_remove :: "nat option \<Rightarrow> wakeup \<Rightarrow> wakeup" where
  "wakeup_source_remove p s = (case p of None \<Rightarrow> s | Some a \<Rightarrow> s\<lparr>wakeup_sources := remove1 a (wakeup_sources s)\<rparr>)"

text \<open>\<open>del_timer_sync\<close> returns when no timer function of the source runs.\<close>

definition wakeup_source_drop :: "nat option \<Rightarrow> wakeup \<Rightarrow> wakeup option" where
  "wakeup_source_drop p s = Option.bind (on_source (\<lambda>w s. (w\<lparr>ws_timer := None\<rparr>, s)) p s) (pm_relax_ws p)"

definition wakeup_source_destroy :: "nat option \<Rightarrow> wakeup \<Rightarrow> wakeup option" where
  "wakeup_source_destroy p s =
     (case p of None \<Rightarrow> Some s | Some a \<Rightarrow> map_option (\<lambda>s. s\<lparr>sources := (sources s)(a := None)\<rparr>) (wakeup_source_drop p s))"

definition wakeup_source_register :: "string option \<Rightarrow> wakeup \<Rightarrow> (nat option \<times> wakeup) option" where
  "wakeup_source_register name s =
     (case wakeup_source_create name s of (p, s) \<Rightarrow>
        if p = None then Some (p, s) else map_option (\<lambda>s. (p, s)) (wakeup_source_add p s))"

definition wakeup_source_unregister :: "nat option \<Rightarrow> wakeup \<Rightarrow> wakeup option" where
  "wakeup_source_unregister p s = (if p = None then Some s else wakeup_source_destroy p (wakeup_source_remove p s))"

section \<open>Suspend\<close>

text \<open>The lines printed: whether the source is active, and its name.\<close>

fun active_sources :: "wakeup \<Rightarrow> nat list \<Rightarrow> bool \<Rightarrow> wakeup_source option \<Rightarrow> ((bool \<times> string option) list) option" where
  "active_sources s [] active recent =
     Some (if active then [] else case recent of None \<Rightarrow> [] | Some w \<Rightarrow> [(False, ws_name w)])"
| "active_sources s (a # as) active recent =
     Option.bind (sources s a) (\<lambda>w.
       if ws_active w then map_option ((#) (True, ws_name w)) (active_sources s as True recent)
       else if \<not> active \<and> (case recent of None \<Rightarrow> True | Some l \<Rightarrow> ws_last_time w > ws_last_time l) then active_sources s as active (Some w)
       else active_sources s as active recent)"

definition print_active_wakeup_sources :: "wakeup \<Rightarrow> ((bool \<times> string option) list) option" where
  "print_active_wakeup_sources s = active_sources s (wakeup_sources s) False None"

definition events_pending :: "wakeup \<Rightarrow> bool" where
  "events_pending s \<longleftrightarrow> (case split_counters s of (cnt, inpr) \<Rightarrow> cnt \<noteq> saved_count s \<or> inpr > 0)"

definition pm_wakeup_pending :: "wakeup \<Rightarrow> bool \<times> wakeup" where
  "pm_wakeup_pending s =
     (if events_check_enabled s then (events_pending s, s\<lparr>events_check_enabled := \<not> events_pending s\<rparr>) else (False, s))"

text \<open>
  \<open>waits\<close>: for each \<open>schedule ()\<close> whether a signal is pending before it, and what the others do until the
  task runs again; past the end of the list there is a signal.
\<close>

fun wait_no_events :: "(bool \<times> (wakeup \<Rightarrow> wakeup)) list \<Rightarrow> wakeup \<Rightarrow> wakeup" where
  "wait_no_events [] s = s"
| "wait_no_events ((signal, others) # waits) s =
     (if snd (split_counters s) = 0 \<or> signal then s else wait_no_events waits (others s))"

definition pm_get_wakeup_count :: "(bool \<times> (wakeup \<Rightarrow> wakeup)) list \<Rightarrow> bool \<Rightarrow> wakeup \<Rightarrow> u32 \<times> bool \<times> wakeup" where
  "pm_get_wakeup_count waits block s =
     (let s = (if block then wait_no_events waits s else s)
      in case split_counters s of (cnt, inpr) \<Rightarrow> (cnt, inpr = 0, s))"

definition pm_save_wakeup_count :: "u32 \<Rightarrow> wakeup \<Rightarrow> bool \<times> wakeup" where
  "pm_save_wakeup_count count s =
     (let s = s\<lparr>events_check_enabled := False\<rparr>;
          s = (case split_counters s of (cnt, inpr) \<Rightarrow>
                 if cnt = count \<and> inpr = 0 then s\<lparr>saved_count := count, events_check_enabled := True\<rparr> else s)
      in (events_check_enabled s, s))"

definition set_autosleep :: "bool \<Rightarrow> wakeup_source \<Rightarrow> wakeup \<Rightarrow> wakeup_source \<times> wakeup" where
  "set_autosleep v w s =
     (if ws_autosleep_enabled w \<noteq> v then
        let now = ktime s; w = w\<lparr>ws_autosleep_enabled := v\<rparr>
        in (if ws_active w then if v then w\<lparr>ws_start_prevent_time := now\<rparr> else update_prevent_sleep_time w now else w, s)
      else (w, s))"

fun autosleep_loop :: "bool \<Rightarrow> nat list \<Rightarrow> wakeup \<Rightarrow> wakeup option" where
  "autosleep_loop v [] s = Some s"
| "autosleep_loop v (a # as) s = Option.bind (on_source (set_autosleep v) (Some a) s) (autosleep_loop v as)"

definition pm_wakep_autosleep_enabled :: "bool \<Rightarrow> wakeup \<Rightarrow> wakeup option" where
  "pm_wakep_autosleep_enabled v s = autosleep_loop v (wakeup_sources s) s"

text \<open>The times of the statistics: active, total, longest, preventing sleep.\<close>

definition wakeup_source_times :: "wakeup_source \<Rightarrow> int \<Rightarrow> int \<times> int \<times> int \<times> int" where
  "wakeup_source_times w now =
     (if ws_active w then
        let t = now - ws_last_time w
        in (t, ws_total_time w + t, if t > ws_max_time w then t else ws_max_time w,
            if ws_autosleep_enabled w then ws_prevent_sleep_time w + (now - ws_start_prevent_time w) else ws_prevent_sleep_time w)
      else (0, ws_total_time w, ws_max_time w, ws_prevent_sleep_time w))"

section \<open>Devices\<close>

text \<open>\<open>dev_sysfs\<close>: the device is registered and on the list of the power core.\<close>

record wakeup_device =
  dev_name :: string
  can_wakeup :: bool
  dev_wakeup :: "nat option"
  dev_sysfs :: bool

definition device_wakeup_attach :: "wakeup_device \<Rightarrow> nat option \<Rightarrow> int \<times> wakeup_device" where
  "device_wakeup_attach d ws = (if dev_wakeup d \<noteq> None then (- EEXIST, d) else (0, d\<lparr>dev_wakeup := ws\<rparr>))"

definition device_wakeup_enable :: "wakeup_device option \<Rightarrow> wakeup \<Rightarrow> (int \<times> wakeup_device option \<times> wakeup) option" where
  "device_wakeup_enable dev s =
     (case dev of
        None \<Rightarrow> Some (- EINVAL, dev, s)
      | Some d \<Rightarrow>
          if \<not> can_wakeup d then Some (- EINVAL, dev, s)
          else Option.bind (wakeup_source_register (Some (dev_name d)) s) (\<lambda>(ws, s).
            if ws = None then Some (- ENOMEM, dev, s)
            else case device_wakeup_attach d ws of (ret, d) \<Rightarrow>
              map_option (\<lambda>s. (ret, Some d, s)) (if ret \<noteq> 0 then wakeup_source_unregister ws s else Some s)))"

definition device_wakeup_detach :: "wakeup_device \<Rightarrow> nat option \<times> wakeup_device" where
  "device_wakeup_detach d = (dev_wakeup d, d\<lparr>dev_wakeup := None\<rparr>)"

definition device_wakeup_disable :: "wakeup_device option \<Rightarrow> wakeup \<Rightarrow> (int \<times> wakeup_device option \<times> wakeup) option" where
  "device_wakeup_disable dev s =
     (case dev of
        None \<Rightarrow> Some (- EINVAL, dev, s)
      | Some d \<Rightarrow>
          if \<not> can_wakeup d then Some (- EINVAL, dev, s)
          else case device_wakeup_detach d of (ws, d) \<Rightarrow> map_option (\<lambda>s. (0, Some d, s)) (wakeup_source_unregister ws s))"

text \<open>\<open>sysfs\<close>: what \<open>wakeup_sysfs_add\<close> returns.\<close>

definition device_set_wakeup_capable :: "int \<Rightarrow> bool \<Rightarrow> wakeup_device \<Rightarrow> wakeup_device" where
  "device_set_wakeup_capable sysfs capable d =
     (if can_wakeup d = capable then d
      else if dev_sysfs d \<and> capable \<and> sysfs \<noteq> 0 then d
      else d\<lparr>can_wakeup := capable\<rparr>)"

definition device_init_wakeup :: "int \<Rightarrow> bool \<Rightarrow> wakeup_device \<Rightarrow> wakeup \<Rightarrow> (int \<times> wakeup_device option \<times> wakeup) option" where
  "device_init_wakeup sysfs enable d s =
     (if enable then device_wakeup_enable (Some (device_set_wakeup_capable sysfs True d)) s
      else Some (0, Some (device_set_wakeup_capable sysfs False d), s))"

definition device_set_wakeup_enable :: "bool \<Rightarrow> wakeup_device option \<Rightarrow> wakeup \<Rightarrow> (int \<times> wakeup_device option \<times> wakeup) option" where
  "device_set_wakeup_enable enable dev s =
     (case dev of
        None \<Rightarrow> Some (- EINVAL, dev, s)
      | Some d \<Rightarrow>
          if \<not> can_wakeup d then Some (- EINVAL, dev, s)
          else if enable then device_wakeup_enable dev s else device_wakeup_disable dev s)"

text \<open>The calls on a device are those on its source; \<open>None\<close>: no device.\<close>

definition pm_stay_awake :: "wakeup_device option \<Rightarrow> wakeup \<Rightarrow> wakeup option" where
  "pm_stay_awake dev s = (case dev of None \<Rightarrow> Some s | Some d \<Rightarrow> pm_stay_awake_ws (dev_wakeup d) s)"

definition pm_relax :: "wakeup_device option \<Rightarrow> wakeup \<Rightarrow> wakeup option" where
  "pm_relax dev s = (case dev of None \<Rightarrow> Some s | Some d \<Rightarrow> pm_relax_ws (dev_wakeup d) s)"

definition pm_wakeup_event :: "(u32 \<Rightarrow> u64) \<Rightarrow> u32 \<Rightarrow> wakeup_device option \<Rightarrow> wakeup \<Rightarrow> wakeup option" where
  "pm_wakeup_event m2j msec dev s = (case dev of None \<Rightarrow> Some s | Some d \<Rightarrow> pm_wakeup_event_ws m2j msec (dev_wakeup d) s)"

section \<open>Steps\<close>

text \<open>
  What happens to the state, over all cpus: one critical section of a source's lock is one step. The only
  section that touches the counter twice is the event that is over at once; others see its first half, so
  it is two steps. \<open>pm_save_wakeup_count\<close> is taken as one step, although its first and last accesses to
  \<open>events_check_enabled\<close> are outside of the lock. The timer core takes a timer that is due from its queue and starts its function, which
  may have to wait for the lock. \<open>freeze_begin\<close> is the one of \<open>kernel/power/suspend.c\<close>. Labels tell of the calls that the properties are about.
\<close>

datatype wakeup_act = Report nat | Pending bool | Save u32 bool | Other

inductive wakeup_step :: "(u32 \<Rightarrow> u64) \<Rightarrow> wakeup \<Rightarrow> wakeup_act \<Rightarrow> wakeup \<Rightarrow> bool" for m2j where
  stay: "a \<notin> half_done s \<Longrightarrow> a \<in> set (wakeup_sources s) \<Longrightarrow> pm_stay_awake_ws (Some a) s = Some s' \<Longrightarrow> wakeup_step m2j s (Report a) s'"
| event: "a \<notin> half_done s \<Longrightarrow> a \<in> set (wakeup_sources s) \<Longrightarrow> msec \<noteq> 0 \<Longrightarrow> pm_wakeup_event_ws m2j msec (Some a) s = Some s' \<Longrightarrow>
    wakeup_step m2j s (Report a) s'"
| event_report: "a \<notin> half_done s \<Longrightarrow> a \<in> set (wakeup_sources s) \<Longrightarrow> on_source wakeup_source_report_event (Some a) s = Some s' \<Longrightarrow>
    wakeup_step m2j s (Report a) (s'\<lparr>half_done := insert a (half_done s)\<rparr>)"
| event_over: "a \<in> half_done s \<Longrightarrow> on_source wakeup_source_deactivate (Some a) s = Some s' \<Longrightarrow>
    wakeup_step m2j s Other (s'\<lparr>half_done := half_done s - {a}\<rparr>)"
| relax: "a \<notin> half_done s \<Longrightarrow> a \<in> set (wakeup_sources s) \<Longrightarrow> pm_relax_ws (Some a) s = Some s' \<Longrightarrow> wakeup_step m2j s Other s'"
| timer_due: "sources s a = Some w \<Longrightarrow> ws_timer w = Some e \<Longrightarrow> time_after_eq (jiffies s) e \<Longrightarrow>
    wakeup_step m2j s Other (s\<lparr>sources := (sources s)(a \<mapsto> w\<lparr>ws_timer := None\<rparr>), timers_running := a # timers_running s\<rparr>)"
| timer_runs: "a \<in> set (timers_running s) \<Longrightarrow> a \<notin> half_done s \<Longrightarrow> pm_wakeup_timer_fn a s = Some s' \<Longrightarrow>
    wakeup_step m2j s Other (s'\<lparr>timers_running := remove1 a (timers_running s)\<rparr>)"
| pending: "pm_wakeup_pending s = (r, s') \<Longrightarrow> wakeup_step m2j s (Pending r) s'"
| save: "pm_save_wakeup_count c s = (r, s') \<Longrightarrow> wakeup_step m2j s (Save c r) s'"
| autosleep: "half_done s = {} \<Longrightarrow> pm_wakep_autosleep_enabled b s = Some s' \<Longrightarrow> wakeup_step m2j s Other s'"
| register: "wakeup_source_register name s = Some (p, s') \<Longrightarrow> wakeup_step m2j s Other s'"
| unregister: "a \<notin> half_done s \<Longrightarrow> a \<notin> set (timers_running s) \<Longrightarrow> a \<in> set (wakeup_sources s) \<Longrightarrow>
    wakeup_source_unregister (Some a) s = Some s' \<Longrightarrow> wakeup_step m2j s Other s'"
| freeze_begin: "wakeup_step m2j s Other (s\<lparr>suspend_freeze_wake := False\<rparr>)"
| tick: "d \<ge> 0 \<Longrightarrow> wakeup_step m2j s Other (s\<lparr>jiffies := jiffies s + 1, ktime := ktime s + d\<rparr>)"

inductive wakeup_run :: "(u32 \<Rightarrow> u64) \<Rightarrow> wakeup \<Rightarrow> wakeup_act list \<Rightarrow> wakeup \<Rightarrow> bool" for m2j s where
  start: "wakeup_run m2j s [] s"
| step: "wakeup_run m2j s acts s1 \<Longrightarrow> wakeup_step m2j s1 act s2 \<Longrightarrow> wakeup_run m2j s (acts @ [act]) s2"

definition reports :: "wakeup_act list \<Rightarrow> nat list" where
  "reports acts = concat (map (\<lambda>c. case c of Report a \<Rightarrow> [a] | _ \<Rightarrow> []) acts)"

definition active_set :: "wakeup \<Rightarrow> nat set" where
  "active_set s = {a. \<exists>w. sources s a = Some w \<and> ws_active w}"

end
