(* ===== verification/WakeupCount.thy ===== *)
theory WakeupCount
  imports Wakeup
begin

text \<open>
  The counter of wake-up events over all steps: the sources that are active are counted in its low half,
  those that have been relaxed in its high half. What one section of a source does to it is the predicate
  \<open>tracks\<close>, what a run does is \<open>counted\<close>.
\<close>

unbundle bit_operations_syntax

section \<open>One source\<close>

text \<open>A source is active exactly when it was activated once more than relaxed.\<close>

definition counts_ok :: "wakeup_source \<Rightarrow> bool" where
  "counts_ok w \<longleftrightarrow> ws_active_count w = ws_relax_count w + of_bool (ws_active w)"

text \<open>What a section of a source does to the common state: it adds 1 when it makes the source active, \<open>MAX_IN_PROGRESS\<close> when it ends that.\<close>

definition tracks :: "(wakeup_source \<Rightarrow> wakeup \<Rightarrow> wakeup_source \<times> wakeup) \<Rightarrow> bool" where
  "tracks f \<longleftrightarrow> (\<forall>w s w' t. counts_ok w \<longrightarrow> f w s = (w', t) \<longrightarrow> counts_ok w' \<and>
     (\<exists>b. t = s\<lparr>suspend_freeze_wake := b, combined_event_count := combined_event_count s + of_bool (\<not> ws_active w \<and> ws_active w') +
       of_bool (ws_active w \<and> \<not> ws_active w') * MAX_IN_PROGRESS\<rparr>))"

named_theorems source_defs
lemmas [source_defs] = wakeup_source_activate_def wakeup_source_report_event_def stay_awake_def wakeup_source_deactivate_def relax_def
  timer_fn_def set_expiry_def set_autosleep_def update_prevent_sleep_time_def freeze_wake_def Let_def

lemma same_state [simp]:
  "\<exists>b. s = s\<lparr>suspend_freeze_wake := b\<rparr>" "\<exists>b. s\<lparr>combined_event_count := c\<rparr> = s\<lparr>suspend_freeze_wake := b, combined_event_count := c\<rparr>"
  by (rule exI [of _ "suspend_freeze_wake s"], simp)+

lemma tracks_report: "tracks wakeup_source_report_event"
  by (auto simp: tracks_def source_defs counts_ok_def algebra_simps)

lemma report_active: "ws_active (fst (wakeup_source_report_event w s))"
  by (simp add: source_defs)

lemma tracks_stay: "tracks stay_awake"
  by (auto simp: tracks_def source_defs counts_ok_def algebra_simps)

lemma tracks_event: "msec \<noteq> 0 \<Longrightarrow> tracks (wakeup_event m2j msec)"
  by (auto simp: tracks_def source_defs wakeup_event_def counts_ok_def algebra_simps)

lemma tracks_relax: "tracks relax"
  by (auto simp: tracks_def source_defs counts_ok_def)

lemma tracks_timer: "tracks timer_fn"
  by (auto simp: tracks_def source_defs counts_ok_def)

lemma tracks_autosleep: "tracks (set_autosleep v)"
  by (auto simp: tracks_def source_defs counts_ok_def)

lemma deactivate_active: "counts_ok w \<Longrightarrow> ws_active w \<Longrightarrow> wakeup_source_deactivate w s = relax w s"
  by (simp add: relax_def)

lemma relax_inactive: "counts_ok w \<Longrightarrow> relax w s = (w', t) \<Longrightarrow> \<not> ws_active w'"
  by (auto simp: source_defs counts_ok_def split: if_splits)

lemma on_source_Some:
  "on_source f (Some a) s = Some s' \<longleftrightarrow> (\<exists>w w' t. sources s a = Some w \<and> f w s = (w', t) \<and> s' = t\<lparr>sources := (sources t)(a \<mapsto> w')\<rparr>)"
proof (cases "sources s a")
  case (Some w)
  then show ?thesis by (cases "f w s") (auto simp: on_source_def)
qed (simp add: on_source_def)

section \<open>The counter\<close>

text \<open>From \<open>s\<close> to \<open>s'\<close>, \<open>n\<close> sources have become active and \<open>k\<close> have been relaxed.\<close>

definition counted :: "nat \<Rightarrow> nat \<Rightarrow> wakeup \<Rightarrow> wakeup \<Rightarrow> bool" where
  "counted n k s s' \<longleftrightarrow> card (active_set s') + k = card (active_set s) + n \<and>
     combined_event_count s' = combined_event_count s + word_of_nat n + word_of_nat k * MAX_IN_PROGRESS"

lemma counted_0 [simp]: "counted 0 0 s s"
  by (simp add: counted_def)

lemma counted_trans: "counted n k s t \<Longrightarrow> counted n' k' t u \<Longrightarrow> counted (n + n') (k + k') s u"
  by (simp add: counted_def algebra_simps)

definition wk_inv :: "wakeup \<Rightarrow> bool" where
  "wk_inv s \<longleftrightarrow> distinct (wakeup_sources s) \<and> set (wakeup_sources s) = dom (sources s) \<and> (\<forall>a\<in>dom (sources s). a < wk_next s) \<and>
     half_done s \<subseteq> active_set s \<and> set (timers_running s) \<subseteq> dom (sources s) \<and> (\<forall>a w. sources s a = Some w \<longrightarrow> counts_ok w)"

lemma finite_active: "wk_inv s \<Longrightarrow> finite (active_set s)"
proof -
  assume "wk_inv s"
  then have "set (wakeup_sources s) = dom (sources s)" by (simp add: wk_inv_def)
  then have "active_set s \<subseteq> set (wakeup_sources s)" by (auto simp: active_set_def)
  then show ?thesis by (rule finite_subset) simp
qed

lemma active_set_upd:
  "active_set (s\<lparr>sources := (sources s)(a \<mapsto> w')\<rparr>) = (if ws_active w' then insert a (active_set s) else active_set s - {a})"
  by (auto simp: active_set_def)

lemma on_source_step:
  assumes inv: "wk_inv s" and f: "tracks f" and s': "on_source f (Some a) s = Some s'"
  shows "\<exists>w w' n k. sources s a = Some w \<and> sources s' = (sources s)(a \<mapsto> w') \<and> fst (f w s) = w' \<and> counts_ok w \<and> counts_ok w' \<and>
    counted n k s s' \<and> n = of_bool (\<not> ws_active w \<and> ws_active w') \<and> k = of_bool (ws_active w \<and> \<not> ws_active w') \<and>
    wakeup_sources s' = wakeup_sources s \<and> wk_next s' = wk_next s \<and> half_done s' = half_done s \<and> timers_running s' = timers_running s \<and>
    jiffies s' = jiffies s \<and> events_check_enabled s' = events_check_enabled s \<and> saved_count s' = saved_count s"
proof -
  from s' obtain w w' t where w: "sources s a = Some w" "f w s = (w', t)" "s' = t\<lparr>sources := (sources t)(a \<mapsto> w')\<rparr>"
    by (auto simp: on_source_Some)
  have c: "counts_ok w" using inv w(1) by (auto simp: wk_inv_def)
  with f w(2) obtain b where t: "counts_ok w'" "t = s\<lparr>suspend_freeze_wake := b, combined_event_count := combined_event_count s + of_bool (\<not> ws_active w \<and> ws_active w') +
       of_bool (ws_active w \<and> \<not> ws_active w') * MAX_IN_PROGRESS\<rparr>" unfolding tracks_def by blast
  have src: "sources t = sources s" by (simp add: t(2))
  have act: "active_set s' = (if ws_active w' then insert a (active_set s) else active_set s - {a})"
    by (auto simp: w(3) src active_set_def)
  have mem: "a \<in> active_set s \<longleftrightarrow> ws_active w" by (simp add: active_set_def w(1))
  have "card (active_set s') + of_bool (ws_active w \<and> \<not> ws_active w') = card (active_set s) + of_bool (\<not> ws_active w \<and> ws_active w')"
  proof (cases "ws_active w")
    case True
    have "0 < card (active_set s)" using finite_active [OF inv] mem True by (auto simp: card_gt_0_iff)
    then show ?thesis using act mem True finite_active [OF inv] by (simp add: insert_absorb card_Diff_singleton)
  next
    case False
    then show ?thesis using act mem finite_active [OF inv] by simp
  qed
  then have "counted (of_bool (\<not> ws_active w \<and> ws_active w')) (of_bool (ws_active w \<and> \<not> ws_active w')) s s'"
    unfolding counted_def by (simp add: w(3) t(2))
  then show ?thesis using w c t(1) src by (auto simp: t(2))
qed

lemma active_set_cong: "sources s' = sources s \<Longrightarrow> active_set s' = active_set s"
  by (simp add: active_set_def)

lemma counted_fields [simp]:
  "counted n k s (s'\<lparr>half_done := H\<rparr>) = counted n k s s'" "counted n k s (s'\<lparr>timers_running := R\<rparr>) = counted n k s s'"
  "counted n k s (s'\<lparr>wakeup_sources := ws\<rparr>) = counted n k s s'" "counted n k (s\<lparr>wakeup_sources := ws\<rparr>) s' = counted n k s s'"
  "counted n k s (s'\<lparr>events_check_enabled := b\<rparr>) = counted n k s s'" "counted n k s (s'\<lparr>saved_count := c\<rparr>) = counted n k s s'"
  "counted n k s (s'\<lparr>suspend_freeze_wake := b\<rparr>) = counted n k s s'"
  "counted n k s (s'\<lparr>jiffies := j\<rparr>) = counted n k s s'" "counted n k s (s'\<lparr>ktime := t\<rparr>) = counted n k s s'"
  by (simp_all add: counted_def active_set_def)

lemma dom_upd_Some: "f a = Some w \<Longrightarrow> dom (f(a \<mapsto> w')) = dom f"
  by auto

lemma wk_inv_upd:
  assumes inv: "wk_inv s" and a: "sources s a = Some w" and s': "sources s' = (sources s)(a \<mapsto> w')" and c: "counts_ok w'"
    and same: "wakeup_sources s' = wakeup_sources s" "wk_next s' = wk_next s" "set (timers_running s') \<subseteq> insert a (set (timers_running s))"
    and half: "half_done s' \<subseteq> insert a (half_done s)" "a \<in> half_done s' \<Longrightarrow> ws_active w'"
  shows "wk_inv s'"
proof -
  have d: "dom (sources s') = dom (sources s)" by (simp only: s' dom_upd_Some [of "sources s", OF a])
  have "active_set s - {a} \<subseteq> active_set s'" by (auto simp: active_set_def s')
  moreover have "half_done s' - {a} \<subseteq> active_set s" using half(1) inv by (auto simp: wk_inv_def)
  moreover have "a \<in> half_done s' \<Longrightarrow> a \<in> active_set s'" using half(2) by (simp add: active_set_def s')
  ultimately have "half_done s' \<subseteq> active_set s'" by blast
  moreover have "set (timers_running s') \<subseteq> dom (sources s)" using same(3) inv a by (auto simp: wk_inv_def)
  moreover have "\<forall>b v. sources s' b = Some v \<longrightarrow> counts_ok v" using inv c by (auto simp: wk_inv_def s')
  ultimately show ?thesis using inv by (simp add: wk_inv_def d same)
qed

lemma autosleep_loop_inv:
  "wk_inv s \<Longrightarrow> half_done s = {} \<Longrightarrow> autosleep_loop v as s = Some s' \<Longrightarrow> wk_inv s' \<and> counted 0 0 s s' \<and> half_done s' = {} \<and> jiffies s' = jiffies s \<and>
     events_check_enabled s' = events_check_enabled s \<and> saved_count s' = saved_count s"
proof (induction as arbitrary: s)
  case (Cons a as)
  from Cons.prems(3) obtain t where t: "on_source (set_autosleep v) (Some a) s = Some t" "autosleep_loop v as t = Some s'"
    by (auto simp: bind_eq_Some_conv)
  obtain w w' n k where w: "sources s a = Some w" "sources t = (sources s)(a \<mapsto> w')" "fst (set_autosleep v w s) = w'" "counts_ok w'" "counted n k s t"
    "n = of_bool (\<not> ws_active w \<and> ws_active w')" "k = of_bool (ws_active w \<and> \<not> ws_active w')" "wakeup_sources t = wakeup_sources s"
    "wk_next t = wk_next s" "half_done t = half_done s" "timers_running t = timers_running s" "jiffies t = jiffies s"
    "events_check_enabled t = events_check_enabled s" "saved_count t = saved_count s"
    using on_source_step [OF Cons.prems(1) tracks_autosleep t(1)] by blast
  have "ws_active w' = ws_active w" using w(3) by (auto simp: set_autosleep_def update_prevent_sleep_time_def Let_def split: if_splits)
  then have c: "counted 0 0 s t" using w(5,6,7) by simp
  have "wk_inv t" by (rule wk_inv_upd [OF Cons.prems(1) w(1,2,4) w(8,9)]) (use w(10,11) Cons.prems(2) in auto)
  from Cons.IH [OF this _ t(2)] w Cons.prems(2) counted_trans [OF c] show ?case by auto
qed simp

lemma autosleep_loop_active: "autosleep_loop v as s = Some s' \<Longrightarrow> active_set s' = active_set s"
proof (induction as arbitrary: s)
  case (Cons a as)
  then obtain u where u: "on_source (set_autosleep v) (Some a) s = Some u" "autosleep_loop v as u = Some s'" by (auto simp: bind_eq_Some_conv)
  then obtain w w' t where w: "sources s a = Some w" "set_autosleep v w s = (w', t)" "u = t\<lparr>sources := (sources t)(a \<mapsto> w')\<rparr>"
    by (auto simp: on_source_Some)
  have "ws_active w' = ws_active w" "t = s" using w(2) by (auto simp: set_autosleep_def update_prevent_sleep_time_def Let_def split: if_splits)
  then have "active_set u = active_set s" using w(1,3) by (auto simp: active_set_def)
  then show ?case using Cons.IH [OF u(2)] by simp
qed simp

lemma register_inv:
  assumes inv: "wk_inv s" and s': "wakeup_source_register name s = Some (p, s')"
  shows "wk_inv s' \<and> counted 0 0 s s' \<and> events_check_enabled s' = events_check_enabled s \<and> saved_count s' = saved_count s \<and>
    jiffies s' = jiffies s \<and> timers_running s' = timers_running s \<and>
    (sources s' = sources s \<or> (\<exists>a w. sources s' = (sources s)(a \<mapsto> w) \<and> sources s a = None \<and> \<not> ws_active w \<and> ws_timer w = None \<and> ws_timer_expires w = 0))"
proof (cases "fst (alloc_next (wk_mem s))")
  case False
  then have "s' = s\<lparr>wk_mem := snd (alloc_next (wk_mem s))\<rparr>" using s' by (auto simp: wakeup_source_register_def wakeup_source_create_def split: prod.splits)
  then show ?thesis using inv by (simp add: wk_inv_def counted_def active_set_def)
next
  case True
  let ?a = "wk_next s"
  obtain nm mem where c: "wakeup_source_create name s = (Some ?a, s\<lparr>wk_mem := mem, wk_next := ?a + 1, sources := (sources s)(?a \<mapsto> wakeup_source_prepare nm)\<rparr>)"
    using True by (cases "alloc_next (wk_mem s)"; cases "alloc_next (snd (alloc_next (wk_mem s)))"; cases name) (auto simp: wakeup_source_create_def)
  let ?w = "(wakeup_source_prepare nm)\<lparr>ws_last_time := ktime s\<rparr>"
  have eq: "s' = s\<lparr>wk_mem := mem, wk_next := ?a + 1, sources := (sources s)(?a \<mapsto> ?w), wakeup_sources := ?a # wakeup_sources s\<rparr>"
    using s' by (simp add: wakeup_source_register_def c wakeup_source_add_def on_source_def) (auto simp: wakeup_source_prepare_def)
  have none: "sources s ?a = None" using inv by (auto simp: wk_inv_def)
  have w: "\<not> ws_active ?w" "counts_ok ?w" "ws_timer ?w = None" "ws_timer_expires ?w = 0" by (simp_all add: wakeup_source_prepare_def counts_ok_def)
  have act: "active_set s' = active_set s" using none w(1) by (auto simp: active_set_def eq)
  have "?a \<notin> set (wakeup_sources s)" using none inv by (auto simp: wk_inv_def)
  moreover have "\<forall>b\<in>insert ?a (dom (sources s)). b < ?a + 1"
  proof
    fix b assume "b \<in> insert ?a (dom (sources s))"
    moreover have "\<forall>b\<in>dom (sources s). b < ?a" using inv unfolding wk_inv_def by blast
    ultimately have "b = ?a \<or> b < ?a" by blast
    then show "b < ?a + 1" by auto
  qed
  moreover have "\<forall>b v. ((sources s)(?a \<mapsto> ?w)) b = Some v \<longrightarrow> counts_ok v" using inv w(2) by (simp add: wk_inv_def)
  moreover have "half_done s \<subseteq> active_set s'" using inv act by (simp add: wk_inv_def)
  ultimately have "wk_inv s'" using inv by (auto simp: wk_inv_def eq)
  moreover have "counted 0 0 s s'" using act by (simp add: counted_def eq)
  moreover have "sources s' = (sources s)(?a \<mapsto> ?w)" by (simp add: eq)
  moreover have "sources s ?a = None \<and> \<not> ws_active ?w \<and> ws_timer ?w = None \<and> ws_timer_expires ?w = 0" using none w by blast
  moreover have "events_check_enabled s' = events_check_enabled s" "saved_count s' = saved_count s" "jiffies s' = jiffies s" "timers_running s' = timers_running s"
    by (simp_all add: eq)
  ultimately show ?thesis by blast
qed

lemma unregister_inv:
  assumes inv: "wk_inv s" and a: "a \<notin> half_done s" "a \<notin> set (timers_running s)" and s': "wakeup_source_unregister (Some a) s = Some s'"
  shows "\<exists>k\<le>1. wk_inv s' \<and> counted 0 k s s' \<and> events_check_enabled s' = events_check_enabled s \<and> saved_count s' = saved_count s \<and>
    jiffies s' = jiffies s \<and> timers_running s' = timers_running s \<and> half_done s' = half_done s \<and> sources s' = (sources s)(a := None)"
proof -
  let ?r = "wakeup_source_remove (Some a) s"
  obtain w where w: "sources s a = Some w"
    using s' by (cases "sources s a") (auto simp: wakeup_source_unregister_def wakeup_source_destroy_def wakeup_source_drop_def on_source_def wakeup_source_remove_def)
  let ?t = "s\<lparr>sources := (sources s)(a \<mapsto> w\<lparr>ws_timer := None\<rparr>)\<rparr>"
  have c: "counts_ok w" using inv w by (auto simp: wk_inv_def)
  have t: "wk_inv ?t" by (rule wk_inv_upd [OF inv w, where w' = "w\<lparr>ws_timer := None\<rparr>"]) (use c a in \<open>auto simp: counts_ok_def\<close>)
  have at: "active_set ?t = active_set s" using w by (auto simp: active_set_def)
  obtain u where u: "pm_relax_ws (Some a) ?t = Some u" by (cases "relax (w\<lparr>ws_timer := None\<rparr>) ?t") (simp add: pm_relax_ws_def on_source_def)
  obtain v v' n k where v: "sources ?t a = Some v" "sources u = (sources ?t)(a \<mapsto> v')" "counted n k ?t u" "fst (relax v ?t) = v'" "counts_ok v"
    "n = of_bool (\<not> ws_active v \<and> ws_active v')" "k = of_bool (ws_active v \<and> \<not> ws_active v')" "wakeup_sources u = wakeup_sources ?t"
    "wk_next u = wk_next ?t" "half_done u = half_done ?t" "timers_running u = timers_running ?t" "jiffies u = jiffies ?t"
    "events_check_enabled u = events_check_enabled ?t" "saved_count u = saved_count ?t"
    using on_source_step [OF t tracks_relax u [unfolded pm_relax_ws_def]] by blast
  have off: "\<not> ws_active v'" using relax_inactive [OF v(5), of ?t v' "snd (relax v ?t)"] v(4) by (simp add: prod_eq_iff)
  have s'_eq: "s' = u\<lparr>wakeup_sources := remove1 a (wakeup_sources s), sources := (sources u)(a := None)\<rparr>"
  proof -
    have "on_source relax (Some a) (s\<lparr>wakeup_sources := remove1 a (wakeup_sources s), sources := (sources s)(a \<mapsto> w\<lparr>ws_timer := None\<rparr>)\<rparr>)
        = Some (u\<lparr>wakeup_sources := remove1 a (wakeup_sources s)\<rparr>)"
      using u by (simp add: pm_relax_ws_def on_source_def) (auto simp: source_defs split: if_splits)
    then show ?thesis using s' w
      by (simp add: wakeup_source_unregister_def wakeup_source_destroy_def wakeup_source_drop_def pm_relax_ws_def wakeup_source_remove_def on_source_def split: prod.splits)
  qed
  have act: "active_set s' = active_set u" using off v(2) by (auto simp: active_set_def s'_eq)
  have "counted 0 k s s'" using v(3,6) off at act by (simp add: counted_def s'_eq)
  moreover have "wk_inv s'"
  proof -
    have "wk_inv u" by (rule wk_inv_upd [OF t v(1,2)]) (use v a off on_source_step [OF t tracks_relax u [unfolded pm_relax_ws_def]] in auto)
    then show ?thesis using a v(8,10,11) act inv by (auto simp: wk_inv_def s'_eq v(2) active_set_def)
  qed
  ultimately show ?thesis using v by (intro exI [of _ k]) (auto simp: s'_eq)
qed

section \<open>Steps\<close>

text \<open>What every step keeps, besides the invariant.\<close>

definition step_ok :: "wakeup \<Rightarrow> wakeup_act \<Rightarrow> wakeup \<Rightarrow> bool" where
  "step_ok s act s' \<longleftrightarrow> wk_inv s' \<and>
     (\<exists>n k. counted n k s s' \<and> n \<le> length (reports [act]) \<and> (active_set s = {} \<longrightarrow> n = length (reports [act])) \<and>
       k = card (active_set s - active_set s')) \<and>
     ((\<forall>c r. act \<noteq> Save c r) \<longrightarrow> saved_count s' = saved_count s) \<and>
     ((\<forall>c r. act \<noteq> Save c r) \<longrightarrow> act \<noteq> Pending True \<longrightarrow> events_check_enabled s' = events_check_enabled s)"

lemma reports_simps [simp]: "reports [] = []" "reports (Report a # acts) = a # reports acts" "reports (Pending r # acts) = reports acts"
  "reports (Save c r # acts) = reports acts" "reports (Other # acts) = reports acts" "reports (acts @ acts') = reports acts @ reports acts'"
  by (simp_all add: reports_def)

text \<open>A section of one source, with what it does to the half-done events and the running timers.\<close>

lemma section_ok:
  assumes inv: "wk_inv s" and f: "tracks f" and t: "on_source f (Some a) s = Some t" and s': "s' = t\<lparr>half_done := H, timers_running := R\<rparr>"
    and H: "H \<subseteq> insert a (half_done s)" "a \<in> H \<Longrightarrow> ws_active (fst (f w s))" and R: "set R \<subseteq> set (timers_running s)"
    and w: "sources s a = Some w"
    and act: "act = Other \<and> (\<not> ws_active w \<longrightarrow> \<not> ws_active (fst (f w s))) \<or> act = Report a \<and> ws_active (fst (f w s))"
  shows "step_ok s act s'"
proof -
  obtain w' n k where w': "sources t = (sources s)(a \<mapsto> w')" "fst (f w s) = w'" "counts_ok w'" "counted n k s t"
    "n = of_bool (\<not> ws_active w \<and> ws_active w')" "k = of_bool (ws_active w \<and> \<not> ws_active w')" "wakeup_sources t = wakeup_sources s"
    "wk_next t = wk_next s" "events_check_enabled t = events_check_enabled s" "saved_count t = saved_count s"
    using on_source_step [OF inv f t] w by fastforce
  have "active_set s - active_set s' = (if ws_active w \<and> \<not> ws_active w' then {a} else {})" using w by (auto simp: s' active_set_def w'(1))
  then have "k = card (active_set s - active_set s')" using w'(6) by simp
  moreover have "wk_inv s'" by (rule wk_inv_upd [OF inv w, where w' = w']) (use w'(1,2,3,7,8) H R in \<open>simp_all add: s'\<close>, blast)
  moreover have "counted n k s s'" using w'(4) by (simp add: s')
  moreover have "n \<le> length (reports [act])" using act w'(2,5) by auto
  moreover have "active_set s = {} \<Longrightarrow> \<not> ws_active w" using w by (auto simp: active_set_def)
  then have "active_set s = {} \<longrightarrow> n = length (reports [act])" using act w'(2,5) by auto
  moreover have "saved_count s' = saved_count s" "events_check_enabled s' = events_check_enabled s" using w'(9,10) by (simp_all add: s')
  ultimately show ?thesis unfolding step_ok_def by blast
qed

lemma on_source_live: "on_source f (Some a) s = Some t \<Longrightarrow> \<exists>w. sources s a = Some w"
  by (auto simp: on_source_Some)

lemma stay_active: "ws_active (fst (stay_awake w s))"
  by (simp add: stay_awake_def report_active split_def)

lemma event_active: "msec \<noteq> 0 \<Longrightarrow> ws_active (fst (wakeup_event m2j msec w s))"
  by (simp add: wakeup_event_def set_expiry_def Let_def report_active split_def)

lemma relax_not_up: "\<not> ws_active w \<Longrightarrow> \<not> ws_active (fst (relax w s))"
  by (simp add: relax_def)

lemma timer_not_up: "\<not> ws_active w \<Longrightarrow> \<not> ws_active (fst (timer_fn w s))"
  by (simp add: timer_fn_def)

lemma same_fields: "t\<lparr>half_done := half_done t, timers_running := timers_running t\<rparr> = (t :: wakeup)"
  by simp

lemma on_source_keeps:
  "wk_inv s \<Longrightarrow> tracks f \<Longrightarrow> on_source f (Some a) s = Some t \<Longrightarrow> half_done t = half_done s \<and> timers_running t = timers_running s"
  using on_source_step by blast

lemma step_ok_quiet:
  assumes "wk_inv s'" and "counted 0 0 s s'" and "active_set s' = active_set s" and "reports [act] = []" and "(\<forall>c r. act \<noteq> Save c r) \<Longrightarrow> saved_count s' = saved_count s"
    and "(\<forall>c r. act \<noteq> Save c r) \<Longrightarrow> act \<noteq> Pending True \<Longrightarrow> events_check_enabled s' = events_check_enabled s"
  shows "step_ok s act s'"
  using assms unfolding step_ok_def by fastforce

lemma wk_inv_fields [simp]:
  "wk_inv (s\<lparr>events_check_enabled := b\<rparr>) = wk_inv s" "wk_inv (s\<lparr>saved_count := c\<rparr>) = wk_inv s"
  "wk_inv (s\<lparr>suspend_freeze_wake := b\<rparr>) = wk_inv s" "wk_inv (s\<lparr>jiffies := j\<rparr>) = wk_inv s" "wk_inv (s\<lparr>ktime := t\<rparr>) = wk_inv s"
  by (simp_all add: wk_inv_def active_set_def)

lemma step_ok_step:
  assumes inv: "wk_inv s" and st: "wakeup_step m2j s act s'"
  shows "step_ok s act s'"
  using st
proof cases
  case (stay a)
  obtain w where w: "sources s a = Some w" using stay on_source_live by (metis pm_stay_awake_ws_def)
  show ?thesis
    by (rule section_ok [OF inv tracks_stay, where a = a and t = s' and H = "half_done s" and R = "timers_running s" and w = w])
      (use stay w stay_active on_source_keeps [OF inv tracks_stay] in \<open>auto simp: pm_stay_awake_ws_def\<close>)
next
  case (event a msec)
  note f = tracks_event [OF event(4), of m2j]
  obtain w where w: "sources s a = Some w" using event on_source_live by (metis pm_wakeup_event_ws_def)
  show ?thesis
    by (rule section_ok [OF inv f, where a = a and t = s' and H = "half_done s" and R = "timers_running s" and w = w])
      (use event w event_active [OF event(4)] on_source_keeps [OF inv f] in \<open>auto simp: pm_wakeup_event_ws_def\<close>)
next
  case (event_report a t)
  obtain w where w: "sources s a = Some w" using event_report on_source_live by metis
  show ?thesis
    by (rule section_ok [OF inv tracks_report, where a = a and t = t and H = "insert a (half_done s)" and R = "timers_running s" and w = w])
      (use event_report w report_active on_source_keeps [OF inv tracks_report] in auto)
next
  case (event_over a t)
  obtain w where w: "sources s a = Some w" using event_over on_source_live by metis
  have "a \<in> active_set s" using inv event_over(3) unfolding wk_inv_def by blast
  then have "ws_active w" using w by (simp add: active_set_def)
  then have r: "on_source relax (Some a) s = Some t" using event_over(4) w by (simp add: on_source_def relax_def)
  have "timers_running s = timers_running t" using on_source_keeps [OF inv tracks_relax r] by simp
  then have eq: "s' = t\<lparr>half_done := half_done s - {a}, timers_running := timers_running s\<rparr>" using event_over(2) by simp
  show ?thesis
    by (rule section_ok [OF inv tracks_relax r eq _ _ _ w]) (use event_over(1) relax_not_up in auto)
next
  case (relax a)
  obtain w where w: "sources s a = Some w" using relax on_source_live by (metis pm_relax_ws_def)
  show ?thesis
    by (rule section_ok [OF inv tracks_relax, where a = a and t = s' and H = "half_done s" and R = "timers_running s" and w = w])
      (use relax w relax_not_up on_source_keeps [OF inv tracks_relax] in \<open>auto simp: pm_relax_ws_def\<close>)
next
  case (timer_due a w e)
  have "wk_inv s'" by (rule wk_inv_upd [OF inv timer_due(3), where w' = "w\<lparr>ws_timer := None\<rparr>"])
    (use timer_due inv in \<open>auto simp: wk_inv_def counts_ok_def active_set_def\<close>)
  moreover have "active_set s' = active_set s" using timer_due(2,3) by (auto simp: active_set_def)
  ultimately show ?thesis using timer_due(1,2) by (intro step_ok_quiet) (auto simp: counted_def)
next
  case (timer_runs a t)
  obtain w where w: "sources s a = Some w" using timer_runs on_source_live by (metis pm_wakeup_timer_fn_def)
  show ?thesis
    by (rule section_ok [OF inv tracks_timer, where a = a and t = t and H = "half_done s" and R = "remove1 a (timers_running s)" and w = w])
      (use timer_runs w timer_not_up on_source_keeps [OF inv tracks_timer] set_remove1_subset [of a "timers_running s"] in \<open>auto simp: pm_wakeup_timer_fn_def\<close>)
next
  case (pending r)
  then show ?thesis using inv by (cases r) (auto simp: pm_wakeup_pending_def active_set_def split: if_splits intro!: step_ok_quiet)
next
  case (save c r)
  then show ?thesis using inv by (intro step_ok_quiet) (auto simp: pm_save_wakeup_count_def active_set_def Let_def split: if_splits prod.splits)
next
  case (autosleep b)
  then show ?thesis using autosleep_loop_inv [OF inv autosleep(2)] autosleep_loop_active
    by (intro step_ok_quiet) (auto simp: pm_wakep_autosleep_enabled_def)
next
  case (register name p)
  have "active_set s' = active_set s" using register_inv [OF inv register(2)] by (auto simp: active_set_def split: if_splits)
  then show ?thesis using register_inv [OF inv register(2)] register(1) by (intro step_ok_quiet) auto
next
  case (unregister a)
  obtain k where k: "wk_inv s'" "counted 0 k s s'" "events_check_enabled s' = events_check_enabled s" "saved_count s' = saved_count s"
    "sources s' = (sources s)(a := None)" using unregister_inv [OF inv unregister(2,3,5)] by blast
  have "active_set s' \<subseteq> active_set s" using k(5) by (auto simp: active_set_def split: if_splits)
  then have "k = card (active_set s - active_set s')"
    using k(2) card_Diff_subset [of "active_set s'" "active_set s"] finite_subset [OF _ finite_active [OF inv]] by (auto simp: counted_def)
  with k show ?thesis unfolding step_ok_def unregister(1) by auto
next
  case freeze_begin
  then show ?thesis using inv by (intro step_ok_quiet) (auto simp: active_set_def)
next
  case (tick d)
  then show ?thesis using inv by (intro step_ok_quiet) (auto simp: active_set_def)
qed

lemma run_counted:
  "wakeup_run m2j s acts s' \<Longrightarrow> wk_inv s \<Longrightarrow> wk_inv s' \<and>
     (\<exists>n k. counted n k s s' \<and> n \<le> length (reports acts) \<and> (active_set s = {} \<longrightarrow> n = 0 \<longrightarrow> reports acts = [])) \<and>
     ((\<forall>c r. Save c r \<notin> set acts) \<longrightarrow> saved_count s' = saved_count s) \<and>
     ((\<forall>c r. Save c r \<notin> set acts) \<longrightarrow> Pending True \<notin> set acts \<longrightarrow> events_check_enabled s' = events_check_enabled s)"
proof (induction rule: wakeup_run.induct)
  case (step acts s1 act s2)
  then obtain n k where IH: "wk_inv s1" "counted n k s s1" "n \<le> length (reports acts)" "active_set s = {} \<longrightarrow> n = 0 \<longrightarrow> reports acts = []"
    "(\<forall>c r. Save c r \<notin> set acts) \<longrightarrow> saved_count s1 = saved_count s"
    "(\<forall>c r. Save c r \<notin> set acts) \<longrightarrow> Pending True \<notin> set acts \<longrightarrow> events_check_enabled s1 = events_check_enabled s" by blast
  have ok: "step_ok s1 act s2" using step_ok_step [OF IH(1) step(2)] .
  then obtain n' k' where n': "counted n' k' s1 s2" "n' \<le> length (reports [act])" "active_set s1 = {} \<longrightarrow> n' = length (reports [act])"
    unfolding step_ok_def by blast
  have "active_set s = {} \<Longrightarrow> n + n' = 0 \<Longrightarrow> reports (acts @ [act]) = []"
  proof -
    assume z: "active_set s = {}" "n + n' = 0"
    then have "card (active_set s1) = 0" using IH(2) by (simp add: counted_def)
    then have "active_set s1 = {}" using finite_active [OF IH(1)] by simp
    then show ?thesis using n'(3) z IH(4) by auto
  qed
  moreover have "counted (n + n') (k + k') s s2" by (rule counted_trans [OF IH(2) n'(1)])
  moreover have "n + n' \<le> length (reports (acts @ [act]))" using IH(3) n'(2) by simp
  moreover have "(\<forall>c r. Save c r \<notin> set (acts @ [act])) \<longrightarrow> saved_count s2 = saved_count s"
    using IH(5) ok unfolding step_ok_def by (metis Un_iff list.set_intros(1) set_append)
  moreover have "(\<forall>c r. Save c r \<notin> set (acts @ [act])) \<longrightarrow> Pending True \<notin> set (acts @ [act]) \<longrightarrow> events_check_enabled s2 = events_check_enabled s"
    using IH(6) ok unfolding step_ok_def by (metis Un_iff list.set_intros(1) set_append)
  moreover have "wk_inv s2" using ok unfolding step_ok_def by blast
  ultimately show ?case by blast
qed (simp, intro exI [of _ "0::nat"], simp)

end
