(* ===== verification/WakeupProof.thy ===== *)
theory WakeupProof
  imports WakeupCount
begin

text \<open>
  The properties of the wake-up sources, over every sequence of steps: what the counter says, that the
  protocol of \<open>pm_get_wakeup_count\<close>, \<open>pm_save_wakeup_count\<close> and \<open>pm_wakeup_pending\<close> loses no event, up to which
  number of events, and that timers end what they have to end.
\<close>

unbundle bit_operations_syntax

section \<open>What the counter says\<close>

lemma wk_inv_start: "wk_inv (wakeup_start mem)"
  by (simp add: wk_inv_def wakeup_start_def)

lemma mask_MAX: "MAX_IN_PROGRESS = mask 16"
  by (simp add: MAX_IN_PROGRESS_def IN_PROGRESS_BITS_def mask_eq_exp_minus_1)

lemma unat_split:
  "unat (fst (split_counters s)) = unat (combined_event_count s) div 2 ^ 16" "unat (snd (split_counters s)) = unat (combined_event_count s) mod 2 ^ 16"
  by (simp_all add: split_counters_def mask_MAX IN_PROGRESS_BITS_def unsigned_drop_bit_eq drop_bit_eq_div unsigned_take_bit_eq take_bit_eq_mod
    unat_div_distrib unat_mod_distrib flip: take_bit_eq_mask)

lemma split_counters_value:
  assumes c: "combined_event_count s = word_of_nat (n + k * 2 ^ 16)" and n: "n < 2 ^ 16"
  shows "split_counters s = (word_of_nat (k mod 2 ^ 16), word_of_nat n)"
proof -
  have u: "unat (combined_event_count s) = (n + k * 2 ^ 16) mod 2 ^ 32" by (simp only: c unat_of_nat take_bit_eq_mod) simp
  also have "\<dots> = n + (k mod 2 ^ 16) * 2 ^ 16"
    using n mod_mult2_eq [of "n + k * 2 ^ 16" "2 ^ 16" "2 ^ 16"] by simp
  finally have "unat (fst (split_counters s)) = k mod 2 ^ 16" "unat (snd (split_counters s)) = n" using n by (simp_all add: unat_split)
  then have "fst (split_counters s) = word_of_nat (k mod 2 ^ 16)" "snd (split_counters s) = word_of_nat n"
    using n by (simp_all add: word_unat_eq_iff unat_of_nat take_bit_eq_mod)
  then show ?thesis by (simp add: prod_eq_iff)
qed

lemma counted_value:
  assumes "counted n k (wakeup_start mem) s"
  shows "combined_event_count s = word_of_nat (card (active_set s) + k * 2 ^ 16)" "card (active_set s) + k = n"
proof -
  show n: "card (active_set s) + k = n" using assms by (simp add: counted_def active_set_def wakeup_start_def)
  have "combined_event_count s = word_of_nat n + word_of_nat k * MAX_IN_PROGRESS" using assms by (simp add: counted_def wakeup_start_def)
  also have "\<dots> = word_of_nat (card (active_set s) + k * 2 ^ 16)"
    by (simp add: n [symmetric] MAX_IN_PROGRESS_def IN_PROGRESS_BITS_def algebra_simps)
  finally show "combined_event_count s = word_of_nat (card (active_set s) + k * 2 ^ 16)" .
qed

text \<open>\<open>wakeup_ends m2j s k s'\<close>: the cpus come from \<open>s\<close> to \<open>s'\<close>, and on the way \<open>k\<close> times a source has ceased to be active.\<close>

inductive wakeup_ends :: "(u32 \<Rightarrow> u64) \<Rightarrow> wakeup \<Rightarrow> nat \<Rightarrow> wakeup \<Rightarrow> bool" for m2j s where
  ends_start: "wakeup_ends m2j s 0 s"
| ends_step: "wakeup_ends m2j s k s1 \<Longrightarrow> wakeup_step m2j s1 act s2 \<Longrightarrow> wakeup_ends m2j s (k + card (active_set s1 - active_set s2)) s2"

lemma run_ends: "wakeup_run m2j s acts s' \<Longrightarrow> \<exists>k. wakeup_ends m2j s k s'"
  by (induction rule: wakeup_run.induct) (blast intro: ends_start ends_step)+

lemma ends_counted: "wakeup_ends m2j s k s' \<Longrightarrow> wk_inv s \<Longrightarrow> wk_inv s' \<and> (\<exists>n. counted n k s s')"
proof (induction rule: wakeup_ends.induct)
  case ends_start
  then show ?case using counted_0 by blast
next
  case (ends_step k s1 act s2)
  then obtain n where n: "wk_inv s1" "counted n k s s1" by blast
  obtain n' where "wk_inv s2" "counted n' (card (active_set s1 - active_set s2)) s1 s2"
    using step_ok_step [OF n(1) ends_step(2)] unfolding step_ok_def by blast
  then show ?case using counted_trans [OF n(2)] by blast
qed

text \<open>
  C26: Whatever the cpus do, and in whatever order, from the start on, the low half of \<open>combined_event_count\<close>
  is the number of active sources and the high half, modulo \<open>2 ^ 16\<close>, the number of times that a source has
  ceased to be active, as long as fewer than \<open>2 ^ 16\<close> are active; and an active source has been activated once
  more than relaxed, so that \<open>__pm_relax\<close> ends its activity (the early return of \<open>wakeup_source_deactivate\<close> is
  never taken).
\<close>

theorem wakeup_counters:
  assumes run: "wakeup_ends m2j (wakeup_start mem) k s" and few: "card (active_set s) < 2 ^ 16"
  shows "split_counters s = (word_of_nat (k mod 2 ^ 16), word_of_nat (card (active_set s))) \<and>
    (\<forall>a w. sources s a = Some w \<longrightarrow> ws_active_count w = ws_relax_count w + of_bool (ws_active w) \<and>
       (\<exists>s'. pm_relax_ws (Some a) s = Some s' \<and> active_set s' = active_set s - {a}))"
proof -
  from ends_counted [OF run wk_inv_start] obtain n where inv: "wk_inv s" and c: "counted n k (wakeup_start mem) s" by blast
  have "split_counters s = (word_of_nat (k mod 2 ^ 16), word_of_nat (card (active_set s)))"
    by (rule split_counters_value [OF counted_value(1) [OF c] few])
  moreover have "ws_active_count w = ws_relax_count w + of_bool (ws_active w) \<and> (\<exists>s'. pm_relax_ws (Some a) s = Some s' \<and> active_set s' = active_set s - {a})"
    if w: "sources s a = Some w" for a w
  proof -
    have cw: "counts_ok w" using inv w unfolding wk_inv_def by blast
    obtain w' t where r: "relax w s = (w', t)" by fastforce
    have "\<not> ws_active w'" by (rule relax_inactive [OF cw r])
    moreover have "sources t = sources s" using r by (auto simp: source_defs split: if_splits)
    ultimately have "active_set (t\<lparr>sources := (sources t)(a \<mapsto> w')\<rparr>) = active_set s - {a}" by (auto simp: active_set_def)
    moreover have "pm_relax_ws (Some a) s = Some (t\<lparr>sources := (sources t)(a \<mapsto> w')\<rparr>)" using w r by (simp add: pm_relax_ws_def on_source_def)
    ultimately show ?thesis using cw by (simp add: counts_ok_def)
  qed
  ultimately show ?thesis by blast
qed

section \<open>No event is lost\<close>

lemma no_active: "wk_inv s \<Longrightarrow> card (active_set s) = 0 \<Longrightarrow> active_set s = {}"
  using finite_active by simp

lemma run_append: "wakeup_run m2j s1 acts2 s2 \<Longrightarrow> wakeup_run m2j s0 acts1 s1 \<Longrightarrow> wakeup_run m2j s0 (acts1 @ acts2) s2"
  by (induction rule: wakeup_run.induct) (auto simp flip: append_assoc intro: wakeup_run.step)

text \<open>
  C7: No wake-up event is lost. User space reads the number of events, finds none in progress, does its
  work and hands the number back with \<open>pm_save_wakeup_count\<close>, which succeeds; suspend goes on until
  \<open>pm_wakeup_pending\<close> says that nothing has happened. Then no source has reported an event since the number
  was read, whatever the cpus did meanwhile: provided that fewer than \<open>2 ^ 16\<close> events were reported and fewer
  sources are active at a time, no other task saved a number and suspend was not aborted before.
\<close>

theorem wakeup_event_not_lost:
  assumes reach: "wakeup_run m2j (wakeup_start mem) acts s0" and get: "pm_get_wakeup_count waits block s = (c, True, s0)"
    and run1: "wakeup_run m2j s0 acts1 s1" and save: "pm_save_wakeup_count c s1 = (True, s2)"
    and run2: "wakeup_run m2j s2 acts2 s3" and quiet: "\<forall>c r. Save c r \<notin> set acts2" "Pending True \<notin> set acts2"
    and pend: "pm_wakeup_pending s3 = (False, s4)"
    and few: "length (reports (acts1 @ acts2)) < 2 ^ 16" "card (active_set s0) < 2 ^ 16" "card (active_set s3) < 2 ^ 16"
  shows "reports (acts1 @ acts2) = []"
proof -
  have run: "wakeup_run m2j s0 (acts1 @ Save c True # acts2) s3"
    using run_append [OF run2 wakeup_run.step [OF run1 wakeup_step.save [OF save]]] by simp
  obtain n k where c0: "wk_inv s0" "counted n k (wakeup_start mem) s0" using run_counted [OF reach wk_inv_start] by blast
  obtain n' k' where c3: "wk_inv s3" "counted n' k' s0 s3" "n' \<le> length (reports (acts1 @ Save c True # acts2))"
    "active_set s0 = {} \<longrightarrow> n' = 0 \<longrightarrow> reports (acts1 @ Save c True # acts2) = []"
    using run_counted [OF run c0(1)] by blast
  have v0: "split_counters s0 = (word_of_nat (k mod 2 ^ 16), word_of_nat (card (active_set s0)))"
    by (rule split_counters_value [OF counted_value(1) [OF c0(2)] few(2)])
  have v3: "split_counters s3 = (word_of_nat ((k + k') mod 2 ^ 16), word_of_nat (card (active_set s3)))"
    by (rule split_counters_value [OF counted_value(1) [OF counted_trans [OF c0(2) c3(2)]] few(3)])
  have s2: "saved_count s2 = c" "events_check_enabled s2" using save by (auto simp: pm_save_wakeup_count_def Let_def split: if_splits prod.splits)
  have i2: "wk_inv s2"
    using run_counted [OF wakeup_run.step [OF run1 wakeup_step.save [OF save]] c0(1)] by blast
  have "saved_count s3 = c" "events_check_enabled s3" using run_counted [OF run2 i2] quiet s2 by blast+
  with pend v3 have now: "word_of_nat ((k + k') mod 2 ^ 16) = c" "word_of_nat (card (active_set s3)) = (0 :: u32)"
    by (auto simp: pm_wakeup_pending_def events_pending_def word_neq_0_conv [symmetric])
  have old: "word_of_nat (k mod 2 ^ 16) = c" "word_of_nat (card (active_set s0)) = (0 :: u32)"
    using get v0 by (auto simp: pm_get_wakeup_count_def Let_def split: prod.splits if_splits)
  have inj: "x = y" if "(word_of_nat x :: u32) = word_of_nat y" "x < 2 ^ 16" "y < 2 ^ 16" for x y
    using of_nat_inverse [OF that(1)] that(2,3) by (simp add: unat_of_nat take_bit_eq_mod)
  have a: "card (active_set s0) = 0" "card (active_set s3) = 0" using inj [of _ 0] old(2) now(2) few(2,3) by simp_all
  have "(k + k') mod 2 ^ 16 = k mod 2 ^ 16" using inj [of "(k + k') mod 2 ^ 16" "k mod 2 ^ 16"] now(1) old(1) by simp
  then have "k' mod 2 ^ 16 = 0" using mod_eq_dvd_iff_nat [of k "k + k'" "2 ^ 16"] by (simp add: dvd_eq_mod_eq_0)
  moreover have "n' = k'" using c3(2) a by (simp add: counted_def)
  ultimately have "n' = 0" using c3(3) few(1) by simp
  then show ?thesis using c3(4) no_active [OF c0(1) a(1)] by simp
qed

lemma wakeup_event_not_lost_witness:
  "reports ([Other] @ [Pending False]) = []"
proof -
  let ?s = "wakeup_start []" and ?m = "\<lambda>ms :: u32. 1 :: u64"
  let ?s1 = "?s\<lparr>jiffies := jiffies ?s + 1, ktime := ktime ?s + 1\<rparr>"
  let ?s2 = "?s1\<lparr>saved_count := 0, events_check_enabled := True\<rparr>"
  have sp: "split_counters ?s = (0, 0)" "split_counters ?s1 = (0, 0)" "split_counters ?s2 = (0, 0)"
    by (simp_all add: split_counters_def wakeup_start_def)
  have act: "active_set ?s = {}" "active_set ?s2 = {}" by (simp_all add: active_set_def wakeup_start_def)
  have r1: "wakeup_run ?m ?s ([] @ [Other]) ?s1" by (intro wakeup_run.step [OF wakeup_run.start] wakeup_step.tick) simp
  have "pm_wakeup_pending ?s2 = (False, ?s2)" using sp(3) by (simp add: pm_wakeup_pending_def events_pending_def)
  note p = this wakeup_run.step [OF wakeup_run.start wakeup_step.pending [OF this], of ?m]
  have g: "pm_get_wakeup_count [] False ?s = (0, True, ?s)" using sp(1) by (simp add: pm_get_wakeup_count_def)
  have sv: "pm_save_wakeup_count 0 ?s1 = (True, ?s2)" using sp(2) by (simp add: pm_save_wakeup_count_def split_counters_def wakeup_start_def)
  show ?thesis
    using wakeup_event_not_lost [OF wakeup_run.start g r1 sv p(2) _ _ p(1)] act by simp
qed

section \<open>The counter wraps around\<close>

lemma event_at_once:
  assumes c: "counts_ok w" and off: "\<not> ws_active w"
  shows "\<exists>w' b. wakeup_event m2j 0 w s = (w', s\<lparr>suspend_freeze_wake := b, combined_event_count := combined_event_count s + 2 ^ 16\<rparr>) \<and> counts_ok w' \<and>
    \<not> ws_active w' \<and> ws_event_count w' = ws_event_count w + 1"
  using assms by (intro exI [of _ "fst (wakeup_event m2j 0 w s)"] exI [of _ True])
    (simp add: wakeup_event_def source_defs counts_ok_def MAX_IN_PROGRESS_def IN_PROGRESS_BITS_def)

lemma events_at_once:
  assumes w: "sources s a = Some w" "counts_ok w" "\<not> ws_active w"
  shows "\<exists>s' w'. ((\<lambda>r. Option.bind r (pm_wakeup_event_ws m2j 0 (Some a))) ^^ n) (Some s) = Some s' \<and> sources s' a = Some w' \<and> counts_ok w' \<and> \<not> ws_active w' \<and>
    ws_event_count w' = ws_event_count w + word_of_nat n \<and> combined_event_count s' = combined_event_count s + word_of_nat n * 2 ^ 16 \<and>
    events_check_enabled s' = events_check_enabled s \<and> saved_count s' = saved_count s"
proof (induction n)
  case (Suc n)
  then obtain s1 w1 where s1: "((\<lambda>r. Option.bind r (pm_wakeup_event_ws m2j 0 (Some a))) ^^ n) (Some s) = Some s1" "sources s1 a = Some w1" "counts_ok w1"
    "\<not> ws_active w1" "ws_event_count w1 = ws_event_count w + word_of_nat n" "combined_event_count s1 = combined_event_count s + word_of_nat n * 2 ^ 16"
    "events_check_enabled s1 = events_check_enabled s" "saved_count s1 = saved_count s" by blast
  obtain w' b where w': "wakeup_event m2j 0 w1 s1 = (w', s1\<lparr>suspend_freeze_wake := b, combined_event_count := combined_event_count s1 + 2 ^ 16\<rparr>)" "counts_ok w'"
    "\<not> ws_active w'" "ws_event_count w' = ws_event_count w1 + 1" using event_at_once [OF s1(3,4)] by blast
  let ?s2 = "s1\<lparr>suspend_freeze_wake := b, combined_event_count := combined_event_count s1 + 2 ^ 16, sources := (sources s1)(a \<mapsto> w')\<rparr>"
  have "pm_wakeup_event_ws m2j 0 (Some a) s1 = Some ?s2" using s1(2) w'(1) by (simp add: pm_wakeup_event_ws_def on_source_def)
  with s1(1) have "((\<lambda>r. Option.bind r (pm_wakeup_event_ws m2j 0 (Some a))) ^^ Suc n) (Some s) = Some ?s2" by simp
  moreover have "ws_event_count w' = ws_event_count w + word_of_nat (Suc n)" using w'(4) s1(5) by simp
  moreover have "combined_event_count ?s2 = combined_event_count s + word_of_nat (Suc n) * 2 ^ 16" using s1(6) by (simp add: algebra_simps)
  ultimately show ?case using s1(7,8) w'(2,3) by (intro exI [of _ ?s2] exI [of _ w']) simp
qed (use w in simp)

text \<open>
  The limit is real: \<open>2 ^ 16\<close> events that are over at once bring the counter back to the number that was
  saved, and \<open>pm_wakeup_pending\<close> answers that nothing has happened.
\<close>

theorem wakeup_wrap_missed:
  assumes run: "wakeup_run m2j (wakeup_start mem) acts s" and a: "sources s a = Some w" "\<not> ws_active w"
    and armed: "events_check_enabled s" "\<not> events_pending s"
  shows "\<exists>s' w'. ((\<lambda>r. Option.bind r (pm_wakeup_event_ws m2j 0 (Some a))) ^^ (2 ^ 16)) (Some s) = Some s' \<and> sources s' a = Some w' \<and>
    ws_event_count w' = ws_event_count w + 2 ^ 16 \<and> pm_wakeup_pending s' = (False, s')"
proof -
  have "counts_ok w" using run_counted [OF run wk_inv_start] a(1) unfolding wk_inv_def by blast
  then obtain s' w' where s': "((\<lambda>r. Option.bind r (pm_wakeup_event_ws m2j 0 (Some a))) ^^ (2 ^ 16)) (Some s) = Some s'" "sources s' a = Some w'"
    "ws_event_count w' = ws_event_count w + word_of_nat (2 ^ 16)" "combined_event_count s' = combined_event_count s + word_of_nat (2 ^ 16) * 2 ^ 16"
    "events_check_enabled s' = events_check_enabled s" "saved_count s' = saved_count s" using events_at_once [OF a(1) _ a(2)] by blast
  have "combined_event_count s' = combined_event_count s" using s'(4) by simp
  then have "\<not> events_pending s'" using armed(2) s'(6) by (simp add: events_pending_def split_counters_def)
  then have "pm_wakeup_pending s' = (False, s')" using armed(1) s'(5) by (simp add: pm_wakeup_pending_def)
  with s' show ?thesis by (intro exI [of _ s'] exI [of _ w']) simp
qed

section \<open>Timers\<close>

text \<open>
  The timer of an active source with an expiry time is queued for this time, or it was and its function is
  about to run. \<open>r\<close>: it is about to run, \<open>j\<close>: the time.
\<close>

definition timer_ok :: "bool \<Rightarrow> u64 \<Rightarrow> wakeup_source \<Rightarrow> bool" where
  "timer_ok r j w \<longleftrightarrow> unat (ws_timer_expires w) < 2 ^ 63 \<and> (\<not> ws_active w \<longrightarrow> ws_timer w = None \<and> ws_timer_expires w = 0) \<and>
     (\<forall>e. ws_timer w = Some e \<longrightarrow> e = ws_timer_expires w) \<and>
     (ws_active w \<and> ws_timer_expires w \<noteq> 0 \<longrightarrow> ws_timer w = Some (ws_timer_expires w) \<or> r \<and> ws_timer_expires w \<le> j)"

lemma timer_ok_new: "\<not> ws_active w \<Longrightarrow> ws_timer w = None \<Longrightarrow> ws_timer_expires w = 0 \<Longrightarrow> timer_ok r j w"
  by (simp add: timer_ok_def)

lemma timer_ok_mono: "timer_ok r j w \<Longrightarrow> (r \<Longrightarrow> r') \<Longrightarrow> j \<le> j' \<Longrightarrow> timer_ok r' j' w"
  by (auto simp: timer_ok_def)

lemma time_after_eq_le:
  assumes "unat a < 2 ^ 63" and "unat b < 2 ^ 63"
  shows "time_after_eq a b \<longleftrightarrow> b \<le> a"
proof -
  have "sint (a - b) = signed_take_bit 63 (uint a - uint b)"
    by (simp add: word_sub_wi signed_of_int del: of_int_diff)
  also have "\<dots> = uint a - uint b"
  proof (rule signed_take_bit_int_eq_self)
    have "int (unat a) < int (2 ^ 63)" "int (unat b) < int (2 ^ 63)" using assms by (simp_all only: of_nat_less_iff)
    then have "uint a < 2 ^ 63" "uint b < 2 ^ 63" "0 \<le> uint a" "0 \<le> uint b" by simp_all
    then show "- (2 ^ 63) \<le> uint a - uint b" by linarith
    show "uint a - uint b < 2 ^ 63" using \<open>uint a < 2 ^ 63\<close> \<open>0 \<le> uint b\<close> by linarith
  qed
  finally show ?thesis by (simp add: time_after_eq_def word_le_def)
qed

definition keeps_timer :: "(wakeup_source \<Rightarrow> wakeup \<Rightarrow> wakeup_source \<times> wakeup) \<Rightarrow> bool" where
  "keeps_timer f \<longleftrightarrow> (\<forall>w s r. counts_ok w \<longrightarrow> unat (jiffies s) < 2 ^ 62 \<longrightarrow> timer_ok r (jiffies s) w \<longrightarrow> timer_ok r (jiffies s) (fst (f w s)))"

lemma keeps_timer_report: "keeps_timer wakeup_source_report_event"
  by (auto simp: keeps_timer_def source_defs timer_ok_def)

lemma keeps_timer_stay: "keeps_timer stay_awake"
  by (auto simp: keeps_timer_def source_defs timer_ok_def)

lemma keeps_timer_relax: "keeps_timer relax"
  by (auto simp: keeps_timer_def source_defs timer_ok_def counts_ok_def)

lemma keeps_timer_autosleep: "keeps_timer (set_autosleep v)"
  by (auto simp: keeps_timer_def source_defs timer_ok_def)

lemma keeps_timer_event:
  assumes m2j: "\<And>ms. unat (m2j ms) \<le> 2 ^ 62" and ms: "msec \<noteq> 0"
  shows "keeps_timer (wakeup_event m2j msec)"
proof -
  have "unat (jiffies s + m2j msec) < 2 ^ 63" if "unat (jiffies s) < 2 ^ 62" for s :: wakeup
    using that m2j [of msec] unat_plus_if' [of "jiffies s" "m2j msec"] by (simp split: if_splits)
  then have up: "timer_ok r (jiffies s) (fst (set_expiry m2j msec w s))"
    if "timer_ok r (jiffies s) w" "ws_active w" "unat (jiffies s) < 2 ^ 62" for r w and s :: wakeup
    using that by (simp add: set_expiry_def Let_def timer_ok_def)
  show ?thesis unfolding keeps_timer_def
  proof (intro allI impI)
    fix w r and s :: wakeup assume w: "counts_ok w" "unat (jiffies s) < 2 ^ 62" "timer_ok r (jiffies s) w"
    obtain v t where v: "wakeup_source_report_event w s = (v, t)" by fastforce
    have "timer_ok r (jiffies s) v" using keeps_timer_report w v unfolding keeps_timer_def by (metis fst_conv)
    moreover have "ws_active v" using report_active [of w s] v by simp
    moreover have "jiffies t = jiffies s" using v by (auto simp: source_defs split: if_splits)
    ultimately show "timer_ok r (jiffies s) (fst (wakeup_event m2j msec w s))" using up [of r t v] w(2) v ms by (simp add: wakeup_event_def)
  qed
qed

lemma timer_fn_ok:
  assumes "counts_ok w" and "unat (jiffies s) < 2 ^ 63" and ok: "timer_ok r (jiffies s) w"
  shows "timer_ok False (jiffies s) (fst (timer_fn w s))"
proof -
  have "time_after_eq (jiffies s) (ws_timer_expires w) \<longleftrightarrow> ws_timer_expires w \<le> jiffies s"
    using assms by (intro time_after_eq_le) (auto simp: timer_ok_def)
  then show ?thesis using assms by (auto simp: source_defs timer_ok_def counts_ok_def)
qed

definition wk_timers :: "wakeup \<Rightarrow> bool" where
  "wk_timers s \<longleftrightarrow> (\<forall>a w. sources s a = Some w \<longrightarrow> timer_ok (a \<in> set (timers_running s)) (jiffies s) w)"

lemma wk_timers_half [simp]: "wk_timers (s\<lparr>half_done := H\<rparr>) = wk_timers s"
  by (simp add: wk_timers_def)

lemma on_source_timers:
  assumes inv: "wk_inv s" and f: "tracks f" "keeps_timer f" and t: "on_source f (Some a) s = Some s'" and tm: "wk_timers s" and j: "unat (jiffies s) < 2 ^ 62"
  shows "wk_timers s' \<and> jiffies s' = jiffies s"
proof -
  obtain w w' where w: "sources s a = Some w" "sources s' = (sources s)(a \<mapsto> w')" "fst (f w s) = w'" "counts_ok w"
    "timers_running s' = timers_running s" "jiffies s' = jiffies s" using on_source_step [OF inv f(1) t] by blast
  have "timer_ok (a \<in> set (timers_running s)) (jiffies s) w" using tm w(1) by (simp add: wk_timers_def)
  then have "timer_ok (a \<in> set (timers_running s)) (jiffies s) w'" using f(2) w(3,4) j unfolding keeps_timer_def by blast
  then show ?thesis using tm by (simp add: wk_timers_def w(2,5,6))
qed

lemma autosleep_loop_timers:
  "wk_inv s \<Longrightarrow> half_done s = {} \<Longrightarrow> wk_timers s \<Longrightarrow> unat (jiffies s) < 2 ^ 62 \<Longrightarrow> autosleep_loop v as s = Some s' \<Longrightarrow> wk_timers s'"
proof (induction as arbitrary: s)
  case (Cons a as)
  from Cons.prems(5) obtain t where t: "on_source (set_autosleep v) (Some a) s = Some t" "autosleep_loop v as t = Some s'"
    by (auto simp: bind_eq_Some_conv)
  have "autosleep_loop v [a] s = Some t" by (simp add: t(1))
  then have "wk_inv t" "half_done t = {}" using autosleep_loop_inv [OF Cons.prems(1,2)] by blast+
  moreover have "wk_timers t" "jiffies t = jiffies s" using on_source_timers [OF Cons.prems(1) tracks_autosleep keeps_timer_autosleep t(1) Cons.prems(3,4)] by blast+
  ultimately show ?case using Cons.IH [OF _ _ _ _ t(2)] Cons.prems(4) by simp
qed simp

lemma step_timers:
  assumes inv: "wk_inv s" and tm: "wk_timers s" and j: "unat (jiffies s) < 2 ^ 62" and m2j: "\<And>ms. unat (m2j ms) \<le> 2 ^ 62"
    and st: "wakeup_step m2j s act s'"
  shows "wk_timers s' \<and> unat (jiffies s') \<le> Suc (unat (jiffies s))"
  using st
proof cases
  case (stay a)
  then show ?thesis using on_source_timers [OF inv tracks_stay keeps_timer_stay _ tm j] by (auto simp: pm_stay_awake_ws_def)
next
  case (event a msec)
  then show ?thesis
    using on_source_timers [OF inv tracks_event [OF event(4)] keeps_timer_event [OF m2j event(4)] _ tm j] by (auto simp: pm_wakeup_event_ws_def)
next
  case (event_report a t)
  then show ?thesis using on_source_timers [OF inv tracks_report keeps_timer_report _ tm j] by auto
next
  case (event_over a t)
  obtain w where w: "sources s a = Some w" using event_over on_source_live by metis
  have "a \<in> active_set s" using inv event_over(3) unfolding wk_inv_def by blast
  then have "on_source relax (Some a) s = Some t" using event_over(4) w by (simp add: active_set_def on_source_def relax_def)
  then show ?thesis using event_over(2) on_source_timers [OF inv tracks_relax keeps_timer_relax _ tm j] by auto
next
  case (relax a)
  then show ?thesis using on_source_timers [OF inv tracks_relax keeps_timer_relax _ tm j] by (auto simp: pm_relax_ws_def)
next
  case (timer_due a w e)
  have ok: "timer_ok (b \<in> set (timers_running s)) (jiffies s) v" if "sources s b = Some v" for b v using tm that by (simp add: wk_timers_def)
  have e: "e = ws_timer_expires w" "unat e < 2 ^ 63" using ok [OF timer_due(3)] timer_due(4) by (auto simp: timer_ok_def)
  then have "ws_timer_expires w \<le> jiffies s" using timer_due(5) time_after_eq_le [of "jiffies s" e] j by simp
  then have "timer_ok True (jiffies s) (w\<lparr>ws_timer := None\<rparr>)" using ok [OF timer_due(3)] by (auto simp: timer_ok_def)
  then show ?thesis using ok timer_ok_mono unfolding timer_due(2) wk_timers_def by (fastforce split: if_splits)
next
  case (timer_runs a t)
  obtain w w' where w: "sources s a = Some w" "sources t = (sources s)(a \<mapsto> w')" "fst (timer_fn w s) = w'" "counts_ok w" "jiffies t = jiffies s"
    using on_source_step [OF inv tracks_timer] timer_runs(5) unfolding pm_wakeup_timer_fn_def by blast
  have "timer_ok False (jiffies s) w'" using timer_fn_ok [OF w(4), of s] j tm w(1,3) by (auto simp: wk_timers_def)
  then have "timer_ok r (jiffies s) w'" for r using timer_ok_mono by blast
  moreover have "timer_ok (b \<in> set (remove1 a (timers_running s))) (jiffies s) v" if "b \<noteq> a" "sources s b = Some v" for b v
    using tm that by (simp add: wk_timers_def in_set_remove1)
  ultimately show ?thesis unfolding timer_runs(2) wk_timers_def by (simp add: w(2,5))
next
  case (pending r)
  then show ?thesis using tm by (auto simp: pm_wakeup_pending_def wk_timers_def split: if_splits)
next
  case (save c r)
  then show ?thesis using tm by (auto simp: pm_save_wakeup_count_def Let_def wk_timers_def split: if_splits prod.splits)
next
  case (autosleep b)
  then show ?thesis using autosleep_loop_timers [OF inv autosleep(2) tm j] autosleep_loop_inv [OF inv autosleep(2)]
    by (auto simp: pm_wakep_autosleep_enabled_def)
next
  case (register name p)
  from register_inv [OF inv register(2)] have r: "jiffies s' = jiffies s" "timers_running s' = timers_running s"
    "sources s' = sources s \<or> (\<exists>a w. sources s' = (sources s)(a \<mapsto> w) \<and> \<not> ws_active w \<and> ws_timer w = None \<and> ws_timer_expires w = 0)" by blast+
  then show ?thesis using tm timer_ok_new by (auto simp: wk_timers_def split: if_splits)
next
  case (unregister a)
  then show ?thesis using unregister_inv [OF inv unregister(2,3,5)] tm by (auto simp: wk_timers_def split: if_splits)
next
  case freeze_begin
  then show ?thesis using tm by (simp add: wk_timers_def)
next
  case (tick d)
  have "unat (jiffies s + 1) = Suc (unat (jiffies s))" using j unat_plus_if' [of "jiffies s" 1] by simp
  moreover have "jiffies s \<le> jiffies s + 1" using calculation by (simp add: word_le_nat_alt)
  ultimately show ?thesis using tm timer_ok_mono unfolding tick(2) wk_timers_def by fastforce
qed

lemma run_timers:
  "wakeup_run m2j s acts s' \<Longrightarrow> wk_inv s \<Longrightarrow> wk_timers s \<Longrightarrow> unat (jiffies s) + length acts < 2 ^ 62 \<Longrightarrow> (\<And>ms. unat (m2j ms) \<le> 2 ^ 62) \<Longrightarrow>
     wk_timers s' \<and> unat (jiffies s') \<le> unat (jiffies s) + length acts"
proof (induction rule: wakeup_run.induct)
  case (step acts s1 act s2)
  then have IH: "wk_timers s1" "unat (jiffies s1) \<le> unat (jiffies s) + length acts" by auto
  have "wk_inv s1" using run_counted [OF step(1) step(4)] by blast
  with step_timers [OF this IH(1) _ step(7) step(2)] IH(2) step(6) show ?case by simp
qed simp

text \<open>
  What happens without a cpu that reports or relaxes: time goes on, the timer core takes timers that are due
  from the queue, and their functions run. \<open>timer_run s n s'\<close>: \<open>n\<close> such steps.
\<close>

inductive timer_step :: "wakeup \<Rightarrow> wakeup \<Rightarrow> bool" where
  timer_tick: "d \<ge> 0 \<Longrightarrow> timer_step s (s\<lparr>jiffies := jiffies s + 1, ktime := ktime s + d\<rparr>)"
| timer_take: "sources s a = Some w \<Longrightarrow> ws_timer w = Some e \<Longrightarrow> time_after_eq (jiffies s) e \<Longrightarrow>
    timer_step s (s\<lparr>sources := (sources s)(a \<mapsto> w\<lparr>ws_timer := None\<rparr>), timers_running := a # timers_running s\<rparr>)"
| timer_call: "a \<in> set (timers_running s) \<Longrightarrow> a \<notin> half_done s \<Longrightarrow> pm_wakeup_timer_fn a s = Some s' \<Longrightarrow>
    timer_step s (s'\<lparr>timers_running := remove1 a (timers_running s)\<rparr>)"

inductive timer_run :: "wakeup \<Rightarrow> nat \<Rightarrow> wakeup \<Rightarrow> bool" for s where
  timer_start: "timer_run s 0 s"
| timer_next: "timer_run s n s1 \<Longrightarrow> timer_step s1 s2 \<Longrightarrow> timer_run s (Suc n) s2"

lemma timer_step_wakeup: "timer_step s s' \<Longrightarrow> wakeup_step m2j s Other s'"
  by (induction rule: timer_step.induct) (blast intro: wakeup_step.tick wakeup_step.timer_due wakeup_step.timer_runs)+

lemma timer_run_wakeup: "timer_run s n s' \<Longrightarrow> wakeup_run m2j s (replicate n Other) s'"
proof (induction rule: timer_run.induct)
  case (timer_next n s1 s2)
  from wakeup_run.step [OF timer_next(3) timer_step_wakeup [OF timer_next(2)]] show ?case by (simp add: replicate_append_same)
qed (simp add: wakeup_run.start)

text \<open>The source at \<open>a\<close> is to be active until \<open>e\<close>: what the steps of the timers keep.\<close>

definition until :: "nat \<Rightarrow> u64 \<Rightarrow> wakeup \<Rightarrow> bool" where
  "until a e s \<longleftrightarrow> a \<notin> half_done s \<and> (\<exists>w. sources s a = Some w \<and> counts_ok w \<and> timer_ok (a \<in> set (timers_running s)) (jiffies s) w \<and>
     (ws_active w \<longrightarrow> ws_timer_expires w = e) \<and> (jiffies s < e \<longrightarrow> ws_active w))"

lemma timer_fn_cases:
  assumes "counts_ok w" and "timer_fn w s = (w', t)"
  shows "\<exists>b c. t = s\<lparr>suspend_freeze_wake := b, combined_event_count := c\<rparr> \<and> counts_ok w' \<and>
    (w' = w \<and> \<not> (ws_active w \<and> ws_timer_expires w \<noteq> 0 \<and> time_after_eq (jiffies s) (ws_timer_expires w)) \<or>
     \<not> ws_active w' \<and> time_after_eq (jiffies s) (ws_timer_expires w) \<and> ws_active w)"
proof -
  from tracks_timer assms obtain b where b: "counts_ok w'" "t = s\<lparr>suspend_freeze_wake := b, combined_event_count := combined_event_count t\<rparr>"
    unfolding tracks_def by fastforce
  show ?thesis
  proof (cases "ws_active w \<and> ws_timer_expires w \<noteq> 0 \<and> time_after_eq (jiffies s) (ws_timer_expires w)")
    case True
    then have "\<not> ws_active w'" using assms by (auto simp: source_defs counts_ok_def split: if_splits)
    with True b show ?thesis by blast
  next
    case False
    then have "timer_fn w s = (w, s)" unfolding timer_fn_def by (rule if_not_P)
    then have "w' = w" using assms(2) by simp
    with False b show ?thesis by blast
  qed
qed

lemma step_until:
  assumes u: "until a e s" and st: "timer_step s s'" and j: "unat (jiffies s) + 1 < 2 ^ 63"
  shows "until a e s' \<and> unat (jiffies s') \<le> unat (jiffies s) + 1"
proof -
  obtain w where half: "a \<notin> half_done s" and w: "sources s a = Some w" "counts_ok w" "timer_ok (a \<in> set (timers_running s)) (jiffies s) w"
    "ws_active w \<longrightarrow> ws_timer_expires w = e" "jiffies s < e \<longrightarrow> ws_active w" using u unfolding until_def by blast
  from st show ?thesis
  proof cases
    case (timer_tick d)
    have "unat (jiffies s + 1) = Suc (unat (jiffies s))" using j unat_plus_if' [of "jiffies s" 1] by simp
    moreover have "jiffies s \<le> jiffies s + 1" using calculation by (simp add: word_le_nat_alt)
    ultimately show ?thesis using half w timer_ok_mono [OF w(3), of "a \<in> set (timers_running s)" "jiffies s + 1"]
      unfolding until_def timer_tick(1) by auto
  next
    case (timer_take b v x)
    show ?thesis
    proof (cases "b = a")
      case True
      with timer_take w have v: "v = w" "x = ws_timer_expires w" "unat x < 2 ^ 63" by (auto simp: timer_ok_def)
      then have "ws_timer_expires w \<le> jiffies s" using timer_take(4) time_after_eq_le [of "jiffies s" x] j by simp
      then have "timer_ok True (jiffies s) (w\<lparr>ws_timer := None\<rparr>)" using w(3) by (auto simp: timer_ok_def)
      then show ?thesis using half w True v(1) unfolding until_def timer_take(1) by (auto simp: counts_ok_def)
    next
      case False
      then show ?thesis using half w unfolding until_def timer_take(1) by auto
    qed
  next
    case (timer_call b t)
    from timer_call(4) obtain v v' y where v: "sources s b = Some v" "timer_fn v s = (v', y)" "t = y\<lparr>sources := (sources y)(b \<mapsto> v')\<rparr>"
      by (auto simp: pm_wakeup_timer_fn_def on_source_Some)
    show ?thesis
    proof (cases "b = a")
      case True
      with v w have "v = w" by simp
      with v w obtain p c where y: "y = s\<lparr>suspend_freeze_wake := p, combined_event_count := c\<rparr>" "counts_ok v'"
        "v' = w \<or> \<not> ws_active v' \<and> time_after_eq (jiffies s) (ws_timer_expires w) \<and> ws_active w" using timer_fn_cases by blast
      have "timer_ok False (jiffies s) v'" using timer_fn_ok [OF w(2) _ w(3)] j v(2) \<open>v = w\<close> by simp
      moreover have "\<not> jiffies s < e" if "time_after_eq (jiffies s) (ws_timer_expires w)" "ws_active w"
        using time_after_eq_le [of "jiffies s" e] that w(3,4) j by (auto simp: timer_ok_def)
      ultimately show ?thesis using half w y True v(3) timer_ok_mono [of False "jiffies s" v'] unfolding until_def timer_call(1) by auto
    next
      case False
      have "sources y = sources s" "jiffies y = jiffies s" "half_done y = half_done s" using v(2) by (auto simp: source_defs split: if_splits)
      then show ?thesis using half w False v(3) unfolding until_def timer_call(1) by (auto simp: in_set_remove1)
    qed
  qed
qed

lemma run_until:
  "timer_run s n s' \<Longrightarrow> until a e s \<Longrightarrow> unat (jiffies s) + n < 2 ^ 63 \<Longrightarrow> until a e s' \<and> unat (jiffies s') \<le> unat (jiffies s) + n"
proof (induction rule: timer_run.induct)
  case (timer_next n s1 s2)
  then have "until a e s1" "unat (jiffies s1) \<le> unat (jiffies s) + n" by auto
  then show ?case using step_until [OF _ timer_next(2)] timer_next.prems(2) by fastforce
qed simp

text \<open>When its time has come, the timer and its function make the source inactive.\<close>

lemma until_ends:
  assumes u: "until a e s" and late: "e \<le> jiffies s" and e: "e \<noteq> 0" and j: "unat (jiffies s) < 2 ^ 63"
  shows "\<exists>n s' w'. timer_run s n s' \<and> n \<le> 2 \<and> jiffies s' = jiffies s \<and> sources s' a = Some w' \<and> \<not> ws_active w'"
proof -
  obtain w where half: "a \<notin> half_done s" and w: "sources s a = Some w" "counts_ok w" "timer_ok (a \<in> set (timers_running s)) (jiffies s) w"
    "ws_active w \<longrightarrow> ws_timer_expires w = e" using u unfolding until_def by blast
  have due: "time_after_eq (jiffies s) e" using time_after_eq_le [of "jiffies s" e] late j by (simp add: word_le_nat_alt)
  have fin: "\<exists>s'. timer_step t s' \<and> jiffies s' = jiffies t \<and> (\<exists>w'. sources s' a = Some w' \<and> \<not> ws_active w')"
    if t: "sources t a = Some v" "counts_ok v" "ws_active v" "ws_timer_expires v = e" "jiffies t = jiffies s" "a \<in> set (timers_running t)" "a \<notin> half_done t"
    for t v
  proof -
    obtain v' y where v': "timer_fn v t = (v', y)" by fastforce
    from timer_fn_cases [OF t(2) v'] obtain b c where y: "y = t\<lparr>suspend_freeze_wake := b, combined_event_count := c\<rparr>"
      "\<not> (ws_active v \<and> ws_timer_expires v \<noteq> 0 \<and> time_after_eq (jiffies t) (ws_timer_expires v)) \<or> \<not> ws_active v'" by blast
    have "\<not> ws_active v'" using y(2) t(3,4,5) due e by simp
    moreover have "jiffies y = jiffies t" by (simp add: y(1))
    moreover have "pm_wakeup_timer_fn a t = Some (y\<lparr>sources := (sources y)(a \<mapsto> v')\<rparr>)" using t(1) v' by (simp add: pm_wakeup_timer_fn_def on_source_def)
    ultimately show ?thesis using timer_call [OF t(6,7)]
      by (intro exI [of _ "y\<lparr>sources := (sources y)(a \<mapsto> v')\<rparr>\<lparr>timers_running := remove1 a (timers_running t)\<rparr>"]) auto
  qed
  show ?thesis
  proof (cases "ws_active w")
    case False
    then show ?thesis using w(1) timer_start by blast
  next
    case True
    show ?thesis
    proof (cases "a \<in> set (timers_running s)")
      case run: True
      from fin [OF w(1,2) True _ refl run half] w(4) True obtain s' w' where "timer_step s s'" "jiffies s' = jiffies s" "sources s' a = Some w'" "\<not> ws_active w'"
        by blast
      then show ?thesis using timer_next [OF timer_start] by (intro exI [of _ "Suc 0"]) auto
    next
      case False
      have "ws_timer_expires w = e" using w(4) True by blast
      then have q: "ws_timer w = Some e" using w(3) True e False unfolding timer_ok_def by metis
      let ?u = "s\<lparr>sources := (sources s)(a \<mapsto> w\<lparr>ws_timer := None\<rparr>), timers_running := a # timers_running s\<rparr>"
      have take: "timer_step s ?u" by (rule timer_take [OF w(1) q due])
      from fin [of ?u "w\<lparr>ws_timer := None\<rparr>"] w(2,4) True half obtain s' w' where
        "timer_step ?u s'" "jiffies s' = jiffies s" "sources s' a = Some w'" "\<not> ws_active w'" by (auto simp: counts_ok_def)
      then show ?thesis using timer_next [OF timer_next [OF timer_start take]] by (intro exI [of _ "Suc (Suc 0)"]) auto
    qed
  qed
qed

text \<open>
  C27: A source that is kept active by an event with a time is made inactive by its timer: in every state that
  the cpus can reach, its timer is queued for this time or its function is about to run. From there on, as long
  as only time and the timers go on (and no event of zero duration is in the middle of its two steps on this
  source), the source stays active until the time has come; once it has come, the source is inactive as soon as the timer core has
  nothing more to do for it, and at most two steps of the timer core bring this about.
\<close>

theorem wakeup_timer_ends:
  assumes run: "wakeup_run m2j (wakeup_start mem) acts s" and m2j: "\<forall>ms. unat (m2j ms) \<le> 2 ^ 62" and long: "length acts < 2 ^ 62"
    and a: "sources s a = Some w" "ws_active w" "ws_timer_expires w = e" "e \<noteq> 0" "a \<notin> half_done s"
    and timers: "timer_run s n s'" "length acts + n < 2 ^ 63"
  shows "(ws_timer w = Some e \<or> a \<in> set (timers_running s)) \<and>
    (\<exists>w'. sources s' a = Some w' \<and> (jiffies s' < e \<longrightarrow> ws_active w') \<and>
       (e \<le> jiffies s' \<longrightarrow> a \<notin> set (timers_running s') \<longrightarrow> (\<forall>x. ws_timer w' = Some x \<longrightarrow> \<not> time_after_eq (jiffies s') x) \<longrightarrow> \<not> ws_active w')) \<and>
    (e \<le> jiffies s' \<longrightarrow> (\<exists>m s'' w''. timer_run s' m s'' \<and> m \<le> 2 \<and> jiffies s'' = jiffies s' \<and> sources s'' a = Some w'' \<and> \<not> ws_active w''))"
proof -
  have inv: "wk_inv s" using run_counted [OF run wk_inv_start] by blast
  have "wk_timers (wakeup_start mem)" "unat (jiffies (wakeup_start mem)) = 0" by (simp_all add: wk_timers_def wakeup_start_def)
  with run_timers [OF run wk_inv_start] long m2j have tm: "wk_timers s" and j: "unat (jiffies s) \<le> length acts" by auto
  have c: "counts_ok w" using inv a(1) unfolding wk_inv_def by blast
  have ok: "timer_ok (a \<in> set (timers_running s)) (jiffies s) w" using tm a(1) by (simp add: wk_timers_def)
  have "until a e s" unfolding until_def using a c ok by blast
  from run_until [OF timers(1) this] j timers(2) have u: "until a e s'" and j': "unat (jiffies s') < 2 ^ 63" by auto
  obtain w' where w': "sources s' a = Some w'" "timer_ok (a \<in> set (timers_running s')) (jiffies s') w'" "ws_active w' \<longrightarrow> ws_timer_expires w' = e"
    "jiffies s' < e \<longrightarrow> ws_active w'" using u unfolding until_def by blast
  have "\<not> ws_active w'" if "e \<le> jiffies s'" "a \<notin> set (timers_running s')" "\<forall>x. ws_timer w' = Some x \<longrightarrow> \<not> time_after_eq (jiffies s') x"
    using that w'(2,3) a(4) time_after_eq_le [of "jiffies s'" e] j' by (auto simp: timer_ok_def word_le_nat_alt)
  moreover have "ws_timer w = Some e \<or> a \<in> set (timers_running s)" using ok a(2,3,4) by (auto simp: timer_ok_def)
  ultimately show ?thesis using w'(1,4) until_ends [OF u _ a(4) j'] by blast
qed

text \<open>A source that has reported one event of ten milliseconds, for the examples.\<close>

abbreviation ten_ms :: "u32 \<Rightarrow> u64" where
  "ten_ms \<equiv> \<lambda>ms. 10"

lemma one_source:
  "\<exists>s w. wakeup_run ten_ms (wakeup_start []) [Other] s \<and> sources s 0 = Some w \<and> \<not> ws_active w \<and> ws_timer_expires w = 0 \<and> active_set s = {} \<and> combined_event_count s = 0 \<and>
     wakeup_sources s = [0] \<and> half_done s = {} \<and> jiffies s = 0"
proof -
  obtain s where s: "wakeup_source_register None (wakeup_start []) = Some (Some 0, s)" "sources s 0 = Some (wakeup_source_prepare None)" "active_set s = {}"
    "combined_event_count s = 0" "wakeup_sources s = [0]" "half_done s = {}" "jiffies s = 0"
    by (simp add: wakeup_source_register_def wakeup_source_create_def wakeup_source_add_def on_source_def wakeup_start_def active_set_def wakeup_source_prepare_def)
  show ?thesis
    using wakeup_run.step [OF wakeup_run.start wakeup_step.register [OF s(1)], of ten_ms] s
    by (intro exI [of _ s] exI [of _ "wakeup_source_prepare None"]) (simp add: wakeup_source_prepare_def)
qed

lemma one_event:
  "\<exists>s w. wakeup_run ten_ms (wakeup_start []) ([Other] @ [Report 0]) s \<and> sources s 0 = Some w \<and> ws_active w \<and> ws_timer_expires w = 10 \<and>
     wakeup_sources s = [0] \<and> half_done s = {} \<and> jiffies s = 0"
proof -
  obtain s w where s: "wakeup_run ten_ms (wakeup_start []) [Other] s" "sources s 0 = Some w" "\<not> ws_active w" "ws_timer_expires w = 0"
    "wakeup_sources s = [0]" "half_done s = {}" "jiffies s = 0" using one_source by blast
  obtain w' t where e: "wakeup_event ten_ms 10 w s = (w', t)" by fastforce
  let ?t = "t\<lparr>sources := (sources t)(0 \<mapsto> w')\<rparr>"
  have "pm_wakeup_event_ws ten_ms 10 (Some 0) s = Some ?t" using s(2) e by (simp add: pm_wakeup_event_ws_def on_source_def)
  then have r: "wakeup_run ten_ms (wakeup_start []) ([Other] @ [Report 0]) ?t"
    by (intro wakeup_run.step [OF s(1)] wakeup_step.event [where msec = 10]) (simp_all add: s(5,6))
  have "ws_active w'" using event_active [of 10 ten_ms w s] e by simp
  moreover have "ws_timer_expires w' = 10" "wakeup_sources t = [0]" "half_done t = {}" "jiffies t = 0"
    using e s by (auto simp: wakeup_event_def set_expiry_def source_defs split: if_splits)
  ultimately show ?thesis using r by (intro exI [of _ ?t] exI [of _ w']) simp
qed

text \<open>Ten ticks later the timer of this source is due.\<close>

lemma run_ticks: "timer_run s n (s\<lparr>jiffies := jiffies s + word_of_nat n\<rparr>)"
proof (induction n)
  case 0
  then show ?case using timer_start [of s] by simp
next
  case (Suc n)
  let ?t = "s\<lparr>jiffies := jiffies s + word_of_nat n\<rparr>"
  have "timer_step ?t (?t\<lparr>jiffies := jiffies ?t + 1, ktime := ktime ?t + 0\<rparr>)" by (rule timer_tick) simp
  from timer_next [OF Suc this] show ?case by (simp add: algebra_simps)
qed

lemma wakeup_timer_ends_witness:
  "\<exists>s m s' w'. 0 \<in> active_set s \<and> jiffies s = 10 \<and> timer_run s m s' \<and> m \<le> 2 \<and> sources s' 0 = Some w' \<and> \<not> ws_active w'"
proof -
  obtain s w where s: "wakeup_run ten_ms (wakeup_start []) ([Other] @ [Report 0]) s" "sources s 0 = Some w" "ws_active w" "ws_timer_expires w = 10"
    "half_done s = {}" "jiffies s = 0" using one_event by blast
  from wakeup_timer_ends [OF s(1) _ _ s(2,3,4) _ _ run_ticks [of s 10]] s show ?thesis
    by (intro exI [of _ "s\<lparr>jiffies := jiffies s + word_of_nat 10\<rparr>"]) (auto simp: active_set_def)
qed

lemma wakeup_counters_witness:
  "\<exists>k s. wakeup_ends ten_ms (wakeup_start []) (Suc k) s \<and> split_counters s = (word_of_nat (Suc k mod 2 ^ 16), word_of_nat 0)"
proof -
  obtain s w where s: "wakeup_run ten_ms (wakeup_start []) ([Other] @ [Report 0]) s" "sources s 0 = Some w" "ws_active w" "wakeup_sources s = [0]"
    "half_done s = {}" using one_event by blast
  obtain k where k: "wakeup_ends ten_ms (wakeup_start []) k s" using run_ends [OF s(1)] by blast
  have "dom (sources s) = {0}" using run_counted [OF s(1) wk_inv_start] s(4) by (simp add: wk_inv_def)
  then have act: "active_set s = {0}" using s(2,3) by (auto simp: active_set_def)
  have "card (active_set s) < 2 ^ 16" by (simp add: act)
  from wakeup_counters [OF k this] s(2) obtain s' where "pm_relax_ws (Some 0) s = Some s'" "active_set s' = active_set s - {0}" by blast
  then have s': "pm_relax_ws (Some 0) s = Some s'" "active_set s' = {}" by (simp_all add: act)
  have "wakeup_ends ten_ms (wakeup_start []) (k + card (active_set s - active_set s')) s'"
    by (rule ends_step [OF k wakeup_step.relax [OF _ _ s'(1)]]) (simp_all add: s(4,5))
  then have "wakeup_ends ten_ms (wakeup_start []) (Suc k) s'" by (simp add: act s'(2))
  from this wakeup_counters [OF this] s'(2) show ?thesis by auto
qed

lemma wakeup_wrap_missed_witness:
  "\<exists>s s' w'. ((\<lambda>r. Option.bind r (pm_wakeup_event_ws ten_ms 0 (Some 0))) ^^ (2 ^ 16)) (Some s) = Some s' \<and> sources s' 0 = Some w' \<and>
     pm_wakeup_pending s' = (False, s')"
proof -
  obtain s w where s: "wakeup_run ten_ms (wakeup_start []) [Other] s" "sources s 0 = Some w" "\<not> ws_active w" "combined_event_count s = 0"
    using one_source by blast
  let ?s = "s\<lparr>saved_count := 0, events_check_enabled := True\<rparr>"
  have "pm_save_wakeup_count 0 s = (True, ?s)" using s(4) by (simp add: pm_save_wakeup_count_def split_counters_def)
  from wakeup_run.step [OF s(1) wakeup_step.save [OF this]]
  have r: "wakeup_run ten_ms (wakeup_start []) ([Other] @ [Save 0 True]) ?s" .
  have "\<not> events_pending ?s" using s(4) by (simp add: events_pending_def split_counters_def)
  with wakeup_wrap_missed [OF r, of 0 w] s(2,3) show ?thesis by (auto simp del: funpow.simps power_Suc)
qed

end
