(* ===== verification/Suspend.thy ===== *)
theory Suspend
  imports Wakeup
begin

text \<open>
  Suspending the system, \<open>src/debugfs/android50/kernel/kernel/power/suspend.c\<close> with the author's hooks. What the functions
  call is outside of the repository: platform, devices, processes, cpus, consoles. Each such call is an
  entry of a log, with its result and the state of the wake-up sources before it. An environment \<open>E\<close> gives
  the results and says what becomes of the wake-up sources meanwhile; it knows the log so far. Tracing,
  timing of tests and messages are left out.
\<close>

definition ENOSYS :: int where "ENOSYS = 38"

text \<open>The calls; platform methods and hooks can be missing.\<close>

datatype pm_call =
    Sys_sync | Console_prepare | Console_restore | Notify_prepare | Notify_post | Freeze_processes | Thaw_processes
  | Restrict_gfp | Restore_gfp | Suspend_console | Resume_console | Ftrace_stop | Ftrace_start
  | Dpm_suspend_start | Dpm_resume_end | Dpm_suspend_end | Dpm_resume_start
  | Disable_cpus | Enable_cpus | Disable_irqs | Enable_irqs | Syscore_suspend | Syscore_resume | Wait_freeze
  | Save_failed_step | Save_failed_errno
  | Ops_valid | Ops_begin | Ops_end | Ops_prepare | Ops_finish | Ops_prepare_late | Ops_wake | Ops_enter | Ops_recover | Ops_suspend_again
  | After_dpm_suspend_start | Last_step_for_suspend | First_step_for_resume | Suspend_after_irq_disable | Resume_before_irq_enable

datatype pm_test = TEST_NONE | TEST_CORE | TEST_CPUS | TEST_PLATFORM | TEST_DEVICES | TEST_FREEZER

text \<open>\<open>ops_set\<close>: \<open>suspend_ops\<close> is not null; \<open>has\<close>: the pointer is not null; \<open>pm_debug\<close>: \<open>CONFIG_PM_DEBUG\<close>.\<close>

record pm_config =
  ops_set :: bool
  has :: "pm_call \<Rightarrow> bool"
  pm_debug :: bool
  pm_test_level :: pm_test

type_synonym pm_log = "(pm_call \<times> int \<times> wakeup) list"

type_synonym pm_env = "pm_log \<Rightarrow> pm_call \<Rightarrow> wakeup \<Rightarrow> int \<times> wakeup"

record pm_sys =
  pm_done :: pm_log
  pm_wk :: wakeup
  pm_locked :: bool
  stat_success :: nat
  stat_fail :: nat
  stat_failed_freeze :: nat

definition do_call :: "pm_env \<Rightarrow> pm_call \<Rightarrow> pm_sys \<Rightarrow> int \<times> pm_sys" where
  "do_call E c s = (case E (pm_done s) c (pm_wk s) of (r, w) \<Rightarrow> (r, s\<lparr>pm_done := pm_done s @ [(c, r, pm_wk s)], pm_wk := w\<rparr>))"

definition call :: "pm_env \<Rightarrow> pm_call \<Rightarrow> pm_sys \<Rightarrow> pm_sys" where
  "call E c s = snd (do_call E c s)"

text \<open>A method of the platform for the state \<open>st\<close>, a hook: no call when there is none.\<close>

definition PM_SUSPEND_FREEZE :: int where "PM_SUSPEND_FREEZE = 1"
definition PM_SUSPEND_MEM :: int where "PM_SUSPEND_MEM = 3"
definition PM_SUSPEND_MAX :: int where "PM_SUSPEND_MAX = 4"

definition need_suspend_ops :: "int \<Rightarrow> bool" where
  "need_suspend_ops st \<longleftrightarrow> st > PM_SUSPEND_FREEZE"

definition ops_call :: "pm_env \<Rightarrow> pm_config \<Rightarrow> int \<Rightarrow> pm_call \<Rightarrow> pm_sys \<Rightarrow> int \<times> pm_sys" where
  "ops_call E C st c s = (if need_suspend_ops st \<and> has C c then do_call E c s else (0, s))"

definition hook :: "pm_env \<Rightarrow> pm_config \<Rightarrow> pm_call \<Rightarrow> pm_sys \<Rightarrow> pm_sys" where
  "hook E C c s = (if has C c then call E c s else s)"

section \<open>States and tests\<close>

definition freeze_begin :: "pm_sys \<Rightarrow> pm_sys" where
  "freeze_begin s = s\<lparr>pm_wk := (pm_wk s)\<lparr>suspend_freeze_wake := False\<rparr>\<rparr>"

text \<open>\<open>wait_event\<close> does not sleep when the condition holds.\<close>

definition freeze_enter :: "pm_env \<Rightarrow> pm_sys \<Rightarrow> pm_sys" where
  "freeze_enter E s = (if suspend_freeze_wake (pm_wk s) then s else call E Wait_freeze s)"

definition valid_state :: "pm_env \<Rightarrow> pm_config \<Rightarrow> int \<Rightarrow> pm_sys \<Rightarrow> bool \<times> pm_sys" where
  "valid_state E C st s =
     (if st = PM_SUSPEND_FREEZE then (\<not> (pm_debug C \<and> pm_test_level C \<notin> {TEST_NONE, TEST_FREEZER, TEST_DEVICES, TEST_PLATFORM}), s)
      else if ops_set C \<and> has C Ops_valid then (case do_call E Ops_valid s of (r, s) \<Rightarrow> (r \<noteq> 0, s))
      else (False, s))"

definition suspend_valid_only_mem :: "int \<Rightarrow> bool" where
  "suspend_valid_only_mem st \<longleftrightarrow> st = PM_SUSPEND_MEM"

definition suspend_test :: "pm_config \<Rightarrow> pm_test \<Rightarrow> bool" where
  "suspend_test C level \<longleftrightarrow> pm_debug C \<and> pm_test_level C = level"

definition suspend_set_ops :: "bool \<Rightarrow> (pm_call \<Rightarrow> bool) \<Rightarrow> pm_config \<Rightarrow> pm_config" where
  "suspend_set_ops ops methods C = C\<lparr>ops_set := ops, has := methods\<rparr>"

section \<open>Suspending\<close>

definition prepare_finish :: "pm_env \<Rightarrow> pm_sys \<Rightarrow> pm_sys" where
  "prepare_finish E s = call E Console_restore (call E Notify_post s)"

definition suspend_prepare :: "pm_env \<Rightarrow> pm_config \<Rightarrow> int \<Rightarrow> pm_sys \<Rightarrow> int \<times> pm_sys" where
  "suspend_prepare E C st s =
     (if need_suspend_ops st \<and> (\<not> ops_set C \<or> \<not> has C Ops_enter) then (- EPERM, s)
      else case do_call E Notify_prepare (call E Console_prepare s) of (error, s) \<Rightarrow>
        if error \<noteq> 0 then (error, prepare_finish E s)
        else case do_call E Freeze_processes s of (error, s) \<Rightarrow>
          if error = 0 then (0, s)
          else (error, prepare_finish E (call E Save_failed_step (s\<lparr>stat_failed_freeze := stat_failed_freeze s + 1\<rparr>))))"

text \<open>The ends of \<open>suspend_enter\<close>, from its labels on.\<close>

definition platform_finish :: "pm_env \<Rightarrow> pm_config \<Rightarrow> int \<Rightarrow> pm_sys \<Rightarrow> pm_sys" where
  "platform_finish E C st s = snd (ops_call E C st Ops_finish s)"

definition platform_wake :: "pm_env \<Rightarrow> pm_config \<Rightarrow> int \<Rightarrow> pm_sys \<Rightarrow> pm_sys" where
  "platform_wake E C st s = platform_finish E C st (call E Dpm_resume_start (snd (ops_call E C st Ops_wake s)))"

definition enable_cpus :: "pm_env \<Rightarrow> pm_config \<Rightarrow> int \<Rightarrow> pm_sys \<Rightarrow> pm_sys" where
  "enable_cpus E C st s = platform_wake E C st (hook E C First_step_for_resume (call E Enable_cpus s))"

text \<open>What is done with interrupts off and the core suspended: the error and whether there was an event.\<close>

definition core_enter :: "pm_env \<Rightarrow> pm_config \<Rightarrow> pm_sys \<Rightarrow> int \<times> bool \<times> pm_sys" where
  "core_enter E C s =
     (case pm_wakeup_pending (pm_wk s) of (wakeup, w) \<Rightarrow>
        let s = s\<lparr>pm_wk := w\<rparr>
        in if \<not> (suspend_test C TEST_CORE \<or> wakeup)
           then (case do_call E Ops_enter s of (error, s) \<Rightarrow>
             (error, wakeup, call E Syscore_resume (s\<lparr>pm_wk := (pm_wk s)\<lparr>events_check_enabled := False\<rparr>\<rparr>)))
           else (0, wakeup, call E Syscore_resume s))"

definition irqs_off :: "pm_env \<Rightarrow> pm_config \<Rightarrow> bool \<Rightarrow> pm_sys \<Rightarrow> int \<times> bool \<times> pm_sys" where
  "irqs_off E C wakeup s =
     (case do_call E Syscore_suspend (hook E C Suspend_after_irq_disable (call E Disable_irqs s)) of (error, s) \<Rightarrow>
      case (if error = 0 then core_enter E C s else (error, wakeup, s)) of (error, wakeup, s) \<Rightarrow>
        (error, wakeup, call E Enable_irqs (hook E C Resume_before_irq_enable s)))"

definition suspend_enter :: "pm_env \<Rightarrow> pm_config \<Rightarrow> int \<Rightarrow> bool \<Rightarrow> pm_sys \<Rightarrow> int \<times> bool \<times> pm_sys" where
  "suspend_enter E C st wakeup s =
     (case ops_call E C st Ops_prepare s of (error, s) \<Rightarrow>
      if error \<noteq> 0 then (error, wakeup, platform_finish E C st s)
      else case do_call E Dpm_suspend_end s of (error, s) \<Rightarrow>
      if error \<noteq> 0 then (error, wakeup, platform_finish E C st s)
      else case ops_call E C st Ops_prepare_late s of (error, s) \<Rightarrow>
      if error \<noteq> 0 then (error, wakeup, platform_wake E C st s)
      else if suspend_test C TEST_PLATFORM then (0, wakeup, platform_wake E C st s)
      else if st = PM_SUSPEND_FREEZE then (0, wakeup, platform_wake E C st (freeze_enter E s))
      else case do_call E Disable_cpus (hook E C Last_step_for_suspend s) of (error, s) \<Rightarrow>
      if error \<noteq> 0 \<or> suspend_test C TEST_CPUS then (error, wakeup, enable_cpus E C st s)
      else case irqs_off E C wakeup s of (error, wakeup, s) \<Rightarrow> (error, wakeup, enable_cpus E C st s))"

text \<open>The loop, which goes on as long as the platform asks for it.\<close>

partial_function (option) enter_loop :: "pm_env \<Rightarrow> pm_config \<Rightarrow> int \<Rightarrow> bool \<Rightarrow> pm_sys \<Rightarrow> (int \<times> pm_sys) option" where
  "enter_loop E C st wakeup s =
     (case suspend_enter E C st wakeup s of (error, wakeup, s) \<Rightarrow>
        if error = 0 \<and> \<not> wakeup \<and> need_suspend_ops st \<and> has C Ops_suspend_again
        then (case do_call E Ops_suspend_again s of (r, s) \<Rightarrow>
          if r \<noteq> 0 then enter_loop E C st wakeup s else Some (error, s))
        else Some (error, s))"

definition close_suspend :: "pm_env \<Rightarrow> pm_config \<Rightarrow> int \<Rightarrow> pm_sys \<Rightarrow> pm_sys" where
  "close_suspend E C st s = snd (ops_call E C st Ops_end s)"

definition resume_devices :: "pm_env \<Rightarrow> pm_config \<Rightarrow> int \<Rightarrow> pm_sys \<Rightarrow> pm_sys" where
  "resume_devices E C st s = close_suspend E C st (call E Resume_console (call E Ftrace_start (call E Dpm_resume_end s)))"

definition suspend_devices_and_enter :: "pm_env \<Rightarrow> pm_config \<Rightarrow> int \<Rightarrow> pm_sys \<Rightarrow> (int \<times> pm_sys) option" where
  "suspend_devices_and_enter E C st s =
     (if need_suspend_ops st \<and> \<not> ops_set C then Some (- ENOSYS, s)
      else case ops_call E C st Ops_begin s of (error, s) \<Rightarrow>
      if error \<noteq> 0 then Some (error, close_suspend E C st s)
      else case do_call E Dpm_suspend_start (call E Ftrace_stop (call E Suspend_console s)) of (error, s) \<Rightarrow>
        let s = hook E C After_dpm_suspend_start s
        in if error \<noteq> 0 \<or> suspend_test C TEST_DEVICES
           then Some (error, resume_devices E C st (snd (ops_call E C st Ops_recover s)))
           else map_option (\<lambda>(error, s). (error, resume_devices E C st s)) (enter_loop E C st False s))"

definition suspend_finish :: "pm_env \<Rightarrow> pm_sys \<Rightarrow> pm_sys" where
  "suspend_finish E s = call E Console_restore (call E Notify_post (call E Thaw_processes s))"

definition mutex_unlock_pm :: "int \<times> pm_sys \<Rightarrow> int \<times> pm_sys" where
  "mutex_unlock_pm x = (fst x, (snd x)\<lparr>pm_locked := False\<rparr>)"

definition enter_state :: "pm_env \<Rightarrow> pm_config \<Rightarrow> int \<Rightarrow> pm_sys \<Rightarrow> (int \<times> pm_sys) option" where
  "enter_state E C st s =
     (case valid_state E C st s of (ok, s) \<Rightarrow>
      if \<not> ok then Some (- ENODEV, s)
      else if pm_locked s then Some (- EBUSY, s)
      else let s = s\<lparr>pm_locked := True\<rparr>; s = (if st = PM_SUSPEND_FREEZE then freeze_begin s else s)
      in case suspend_prepare E C st (call E Sys_sync s) of (error, s) \<Rightarrow>
         if error \<noteq> 0 then Some (mutex_unlock_pm (error, s))
         else if suspend_test C TEST_FREEZER then Some (mutex_unlock_pm (error, suspend_finish E s))
         else map_option (\<lambda>(error, s). mutex_unlock_pm (error, suspend_finish E (call E Restore_gfp s)))
                (suspend_devices_and_enter E C st (call E Restrict_gfp s)))"

definition pm_suspend :: "pm_env \<Rightarrow> pm_config \<Rightarrow> int \<Rightarrow> pm_sys \<Rightarrow> (int \<times> pm_sys) option" where
  "pm_suspend E C st s =
     (if st \<le> 0 \<or> st \<ge> PM_SUSPEND_MAX then Some (- EINVAL, s)
      else map_option (\<lambda>(error, s).
        (error, if error \<noteq> 0 then call E Save_failed_errno (s\<lparr>stat_fail := stat_fail s + 1\<rparr>)
                else s\<lparr>stat_success := stat_success s + 1\<rparr>)) (enter_state E C st s))"

end
