(* ===== verification/SuspendProof.thy ===== *)
theory SuspendProof
  imports WakeupProof Suspend
begin

text \<open>
  The properties of suspend: on every path what was done is undone (\<open>brackets\<close>, with \<open>owes\<close> for what is
  left to undo at a point of the code), the loop ends, and the platform is told to sleep only when no
  wake-up event has come (\<open>watch\<close> follows the state of the wake-up sources through all calls).
\<close>


section \<open>Everything is undone\<close>

text \<open>What undoes a call, and which calls leave nothing to undo when they fail.\<close>

fun undone_by :: "pm_call \<Rightarrow> pm_call option" where
  "undone_by Console_prepare = Some Console_restore"
| "undone_by Notify_prepare = Some Notify_post"
| "undone_by Freeze_processes = Some Thaw_processes"
| "undone_by Restrict_gfp = Some Restore_gfp"
| "undone_by Suspend_console = Some Resume_console"
| "undone_by Ftrace_stop = Some Ftrace_start"
| "undone_by Dpm_suspend_start = Some Dpm_resume_end"
| "undone_by Dpm_suspend_end = Some Dpm_resume_start"
| "undone_by Disable_cpus = Some Enable_cpus"
| "undone_by Disable_irqs = Some Enable_irqs"
| "undone_by Syscore_suspend = Some Syscore_resume"
| "undone_by Ops_begin = Some Ops_end"
| "undone_by Ops_prepare = Some Ops_finish"
| "undone_by Ops_prepare_late = Some Ops_wake"
| "undone_by Last_step_for_suspend = Some First_step_for_resume"
| "undone_by Suspend_after_irq_disable = Some Resume_before_irq_enable"
| "undone_by _ = None"

fun undoes :: "pm_call \<Rightarrow> pm_call option" where
  "undoes Console_restore = Some Console_prepare"
| "undoes Notify_post = Some Notify_prepare"
| "undoes Thaw_processes = Some Freeze_processes"
| "undoes Restore_gfp = Some Restrict_gfp"
| "undoes Resume_console = Some Suspend_console"
| "undoes Ftrace_start = Some Ftrace_stop"
| "undoes Dpm_resume_end = Some Dpm_suspend_start"
| "undoes Dpm_resume_start = Some Dpm_suspend_end"
| "undoes Enable_cpus = Some Disable_cpus"
| "undoes Enable_irqs = Some Disable_irqs"
| "undoes Syscore_resume = Some Syscore_suspend"
| "undoes Ops_end = Some Ops_begin"
| "undoes Ops_finish = Some Ops_prepare"
| "undoes Ops_wake = Some Ops_prepare_late"
| "undoes First_step_for_resume = Some Last_step_for_suspend"
| "undoes Resume_before_irq_enable = Some Suspend_after_irq_disable"
| "undoes _ = None"

definition if_done :: "pm_call \<Rightarrow> bool" where
  "if_done c \<longleftrightarrow> c \<in> {Freeze_processes, Dpm_suspend_end, Syscore_suspend}"

definition optional_calls :: "pm_call set" where
  "optional_calls = {Ops_begin, Ops_end, Ops_prepare, Ops_finish, Ops_prepare_late, Ops_wake, Last_step_for_suspend, First_step_for_resume,
     Suspend_after_irq_disable, Resume_before_irq_enable}"

definition both :: "pm_config \<Rightarrow> pm_call \<Rightarrow> pm_call \<Rightarrow> bool" where
  "both C c d \<longleftrightarrow> (c \<in> optional_calls \<longrightarrow> has C c \<and> has C d)"

text \<open>
  The calls of a log, with their results, undo each other like brackets: the stack has what is still to be
  undone. Where one of two optional calls is missing the other one does not count.
\<close>

fun brackets :: "pm_config \<Rightarrow> (pm_call \<times> int) list \<Rightarrow> pm_call list \<Rightarrow> pm_call list option" where
  "brackets C [] st = Some st"
| "brackets C ((c, r) # cs) st =
     (case undone_by c of
        Some d \<Rightarrow> brackets C cs (if both C c d \<and> (r = 0 \<or> \<not> if_done c) then d # st else st)
      | None \<Rightarrow>
          (case undoes c of
             Some d \<Rightarrow> if both C d c then (case st of [] \<Rightarrow> None | x # st' \<Rightarrow> if x = c then brackets C cs st' else None) else brackets C cs st
           | None \<Rightarrow> brackets C cs st))"

lemma brackets_append: "brackets C (cs @ ds) st = Option.bind (brackets C cs st) (brackets C ds)"
  by (induction C cs st rule: brackets.induct) (auto split: option.splits list.splits)

definition results :: "pm_log \<Rightarrow> (pm_call \<times> int) list" where
  "results l = map (\<lambda>(c, r, w). (c, r)) l"

definition to_undo :: "pm_config \<Rightarrow> nat \<Rightarrow> pm_sys \<Rightarrow> pm_call list option" where
  "to_undo C n s = brackets C (results (drop n (pm_done s))) []"

text \<open>\<open>n\<close> calls were made before; from there on, \<open>st\<close> is to be undone.\<close>

definition owes :: "pm_config \<Rightarrow> nat \<Rightarrow> pm_call list \<Rightarrow> pm_sys \<Rightarrow> bool" where
  "owes C n st s \<longleftrightarrow> n \<le> length (pm_done s) \<and> to_undo C n s = Some st"

lemma owes_fields [simp]:
  "owes C n st (s\<lparr>pm_wk := w\<rparr>) = owes C n st s" "owes C n st (s\<lparr>pm_locked := b\<rparr>) = owes C n st s"
  "owes C n st (s\<lparr>stat_success := k\<rparr>) = owes C n st s" "owes C n st (s\<lparr>stat_fail := k\<rparr>) = owes C n st s"
  "owes C n st (s\<lparr>stat_failed_freeze := k\<rparr>) = owes C n st s"
  by (simp_all add: owes_def to_undo_def)

lemma owes_call: "owes C n st s \<Longrightarrow> do_call E c s = (r, s') \<Longrightarrow> brackets C [(c, r)] st = Some st' \<Longrightarrow> owes C n st' s'"
  by (auto simp: owes_def to_undo_def do_call_def results_def brackets_append split: prod.splits)

lemma opens:
  "owes C n st s \<Longrightarrow> do_call E c s = (r, s') \<Longrightarrow> undone_by c = Some d \<Longrightarrow> owes C n (if both C c d \<and> (r = 0 \<or> \<not> if_done c) then d # st else st) s'"
  by (erule owes_call) auto

lemma plain: "owes C n st s \<Longrightarrow> undone_by c = None \<Longrightarrow> undoes c = None \<Longrightarrow> owes C n st (snd (do_call E c s))"
  by (cases "do_call E c s") (auto intro: owes_call)

lemma closes: "owes C n (if both C d c then c # st else st) s \<Longrightarrow> undone_by c = None \<Longrightarrow> undoes c = Some d \<Longrightarrow> owes C n st (snd (do_call E c s))"
  by (cases "do_call E c s") (auto intro: owes_call split: if_splits)

lemma always [simp]: "c \<notin> optional_calls \<Longrightarrow> both C c d"
  by (simp add: both_def)

lemma ops_none: "\<not> (need_suspend_ops st \<and> has C c) \<Longrightarrow> ops_call E C st c s = (0, s)"
  by (auto simp: ops_call_def)

text \<open>A platform method that undoes another, both called under the same condition.\<close>

definition owed :: "pm_config \<Rightarrow> int \<Rightarrow> pm_call \<Rightarrow> pm_call \<Rightarrow> pm_call list \<Rightarrow> pm_call list" where
  "owed C st c d xs = (if need_suspend_ops st \<and> has C c \<and> has C d then d # xs else xs)"

lemma ops_opens:
  assumes "owes C n xs s" and "ops_call E C st c s = (r, s')" and "undone_by c = Some d" and "c \<in> optional_calls" and "\<not> if_done c"
  shows "owes C n (owed C st c d xs) s'"
  using assms opens [of C n xs s E c r s' d] by (auto simp: ops_call_def owed_def both_def split: if_splits)

lemma ops_closes:
  assumes "owes C n (owed C st d c xs) s" and "undone_by c = None" and "undoes c = Some d" and "d \<in> optional_calls"
  shows "owes C n xs (snd (ops_call E C st c s))"
  using assms closes [of C n d c xs s E] by (auto simp: ops_call_def owed_def both_def split: if_splits)

definition hook_owed :: "pm_config \<Rightarrow> pm_call \<Rightarrow> pm_call \<Rightarrow> pm_call list \<Rightarrow> pm_call list" where
  "hook_owed C c d xs = (if has C c \<and> has C d then d # xs else xs)"

lemma hook_opens:
  assumes "owes C n xs s" and "undone_by c = Some d" and "c \<in> optional_calls" and "\<not> if_done c"
  shows "owes C n (hook_owed C c d xs) (hook E C c s)"
  using assms opens [of C n xs s E c _ _ d] by (cases "do_call E c s") (auto simp: hook_def call_def hook_owed_def both_def split: if_splits)

lemma hook_closes:
  assumes "owes C n (hook_owed C d c xs) s" and "undone_by c = None" and "undoes c = Some d" and "d \<in> optional_calls"
  shows "owes C n xs (hook E C c s)"
  using assms closes [of C n d c xs s E] by (auto simp: hook_def call_def hook_owed_def both_def split: if_splits)

lemma hook_plain: "owes C n xs s \<Longrightarrow> undone_by c = None \<Longrightarrow> undoes c = None \<Longrightarrow> owes C n xs (hook E C c s)"
  by (simp add: hook_def call_def plain)

lemma call_closes: "owes C n (c # xs) s \<Longrightarrow> undone_by c = None \<Longrightarrow> undoes c = Some d \<Longrightarrow> d \<notin> optional_calls \<Longrightarrow> owes C n xs (call E c s)"
  unfolding call_def by (rule closes) auto

lemma call_opens: "owes C n xs s \<Longrightarrow> undone_by c = Some d \<Longrightarrow> c \<notin> optional_calls \<Longrightarrow> \<not> if_done c \<Longrightarrow> owes C n (d # xs) (call E c s)"
  using opens [of C n xs s E c "fst (do_call E c s)" "call E c s" d] by (simp add: call_def)

lemma do_opens: "owes C n xs s \<Longrightarrow> do_call E c s = (r, s') \<Longrightarrow> undone_by c = Some d \<Longrightarrow> c \<notin> optional_calls \<Longrightarrow>
    owes C n (if r = 0 \<or> \<not> if_done c then d # xs else xs) s'"
  using opens by fastforce

lemma platform_finish_owes: "owes C n (owed C st Ops_prepare Ops_finish xs) s \<Longrightarrow> owes C n xs (platform_finish E C st s)"
  unfolding platform_finish_def by (rule ops_closes) (auto simp: optional_calls_def)

lemma platform_wake_owes:
  assumes "owes C n (owed C st Ops_prepare_late Ops_wake (Dpm_resume_start # owed C st Ops_prepare Ops_finish xs)) s"
  shows "owes C n xs (platform_wake E C st s)"
  unfolding platform_wake_def
  by (intro platform_finish_owes call_closes ops_closes [OF assms]) (auto simp: optional_calls_def)

lemma enable_cpus_owes:
  assumes "owes C n (Enable_cpus # hook_owed C Last_step_for_suspend First_step_for_resume
     (owed C st Ops_prepare_late Ops_wake (Dpm_resume_start # owed C st Ops_prepare Ops_finish xs))) s"
  shows "owes C n xs (enable_cpus E C st s)"
  unfolding enable_cpus_def
  by (intro platform_wake_owes hook_closes [where d = Last_step_for_suspend] call_closes [OF assms]) (auto simp: optional_calls_def)

lemma core_enter_owes:
  assumes "owes C n (Syscore_resume # xs) s" and "core_enter E C s = (e, wk, s')"
  shows "owes C n xs s'"
proof -
  obtain p w where p: "pm_wakeup_pending (pm_wk s) = (p, w)" by fastforce
  obtain r t where t: "do_call E Ops_enter (s\<lparr>pm_wk := w\<rparr>) = (r, t)" by fastforce
  have "owes C n (Syscore_resume # xs) t" using plain [of C n "Syscore_resume # xs" "s\<lparr>pm_wk := w\<rparr>" Ops_enter E] assms(1) t by simp
  then have "owes C n xs (call E Syscore_resume (t\<lparr>pm_wk := w'\<rparr>))" for w' by (intro call_closes) (auto simp: optional_calls_def)
  moreover have "owes C n xs (call E Syscore_resume (s\<lparr>pm_wk := w\<rparr>))" using assms(1) by (intro call_closes) (auto simp: optional_calls_def)
  ultimately show ?thesis using assms(2) p t by (auto simp: core_enter_def Let_def split: if_splits)
qed

lemma irqs_off_owes:
  assumes "owes C n xs s" and "irqs_off E C wk s = (e, wk', s')"
  shows "owes C n xs s'"
proof -
  let ?s = "hook E C Suspend_after_irq_disable (call E Disable_irqs s)"
  let ?xs = "hook_owed C Suspend_after_irq_disable Resume_before_irq_enable (Enable_irqs # xs)"
  have 1: "owes C n ?xs ?s" by (intro hook_opens call_opens [OF assms(1)]) (auto simp: optional_calls_def if_done_def)
  obtain r t where t: "do_call E Syscore_suspend ?s = (r, t)" by fastforce
  obtain e1 wk1 u where u: "(if r = 0 then core_enter E C t else (r, wk, t)) = (e1, wk1, u)" by (metis prod_cases3)
  have 2: "owes C n (if r = 0 then Syscore_resume # ?xs else ?xs) t" using do_opens [OF 1 t] by (auto simp: optional_calls_def if_done_def)
  have "owes C n ?xs u"
  proof (cases "r = 0")
    case True
    then show ?thesis using core_enter_owes [of C n ?xs t E e1 wk1 u] 2 u by simp
  qed (use 2 u in auto)
  then have "owes C n xs (call E Enable_irqs (hook E C Resume_before_irq_enable u))"
    by (intro call_closes hook_closes) (auto simp: optional_calls_def)
  moreover have "s' = call E Enable_irqs (hook E C Resume_before_irq_enable u)" using assms(2) t u by (simp add: irqs_off_def)
  ultimately show ?thesis by simp
qed

lemma suspend_enter_owes:
  assumes "owes C n xs s" and "suspend_enter E C st wk s = (e, wk', s')"
  shows "owes C n xs s'"
proof -
  let ?p = "owed C st Ops_prepare Ops_finish xs"
  let ?l = "owed C st Ops_prepare_late Ops_wake (Dpm_resume_start # ?p)"
  let ?h = "hook_owed C Last_step_for_suspend First_step_for_resume ?l"
  obtain e1 s1 where 1: "ops_call E C st Ops_prepare s = (e1, s1)" by fastforce
  have o1: "owes C n ?p s1" by (rule ops_opens [OF assms(1) 1]) (auto simp: optional_calls_def if_done_def)
  obtain e2 s2 where 2: "do_call E Dpm_suspend_end s1 = (e2, s2)" by fastforce
  have o2: "owes C n (if e2 = 0 then Dpm_resume_start # ?p else ?p) s2" using do_opens [OF o1 2] by (auto simp: optional_calls_def if_done_def)
  obtain e3 s3 where 3: "ops_call E C st Ops_prepare_late s2 = (e3, s3)" by fastforce
  have o3: "owes C n ?l s3" if "e2 = 0" by (rule ops_opens [OF _ 3]) (use o2 that in \<open>auto simp: optional_calls_def if_done_def\<close>)
  have o3': "owes C n ?l (freeze_enter E s3)" if "e2 = 0"
    using o3 [OF that] plain [of C n ?l s3 Wait_freeze E] by (simp add: freeze_enter_def call_def)
  obtain e4 s4 where 4: "do_call E Disable_cpus (hook E C Last_step_for_suspend s3) = (e4, s4)" by fastforce
  have "owes C n ?h (hook E C Last_step_for_suspend s3)" if "e2 = 0" by (intro hook_opens o3 that) (auto simp: optional_calls_def if_done_def)
  then have o4: "owes C n (Enable_cpus # ?h) s4" if "e2 = 0" using do_opens [OF _ 4] that by (auto simp: optional_calls_def if_done_def)
  obtain e5 wk5 s5 where 5: "irqs_off E C wk s4 = (e5, wk5, s5)" by (metis prod_cases3)
  have o5: "owes C n (Enable_cpus # ?h) s5" if "e2 = 0" by (rule irqs_off_owes [OF o4 [OF that] 5])
  show ?thesis
  proof (cases "e2 = 0")
    case True
    note enable_cpus_owes [OF o4 [OF True], of E] enable_cpus_owes [OF o5 [OF True], of E] platform_wake_owes [OF o3 [OF True], of E]
      platform_wake_owes [OF o3' [OF True], of E] platform_finish_owes [OF o1, of E]
    then show ?thesis using assms(2) 1 2 3 4 5 True by (auto simp: suspend_enter_def split: if_splits)
  next
    case False
    then have "owes C n ?p s2" using o2 by simp
    from platform_finish_owes [OF this, of E] platform_finish_owes [OF o1, of E] show ?thesis
      using assms(2) 1 2 False by (auto simp: suspend_enter_def split: if_splits)
  qed
qed

lemma enter_loop_owes:
  assumes "enter_loop E C st wk s = Some x" and "owes C n xs s"
  shows "owes C n xs (snd x)"
proof -
  have "\<forall>n xs. owes C n xs s \<longrightarrow> owes C n xs (snd x)"
  proof (rule enter_loop.raw_induct [where P = "\<lambda>E C st wk s x. \<forall>n xs. owes C n xs s \<longrightarrow> owes C n xs (snd x)", OF _ assms(1)], intro allI impI)
    fix loop E C st wk s and x :: "int \<times> pm_sys" and n xs
    assume IH: "\<And>E C st wk s x. loop E C st wk s = Some x \<Longrightarrow> \<forall>n xs. owes C n xs s \<longrightarrow> owes C n xs (snd x)"
      and x: "(case suspend_enter E C st wk s of (error, wakeup, s) \<Rightarrow>
          if error = 0 \<and> \<not> wakeup \<and> need_suspend_ops st \<and> has C Ops_suspend_again
          then (case do_call E Ops_suspend_again s of (r, s) \<Rightarrow> if r \<noteq> 0 then loop E C st wakeup s else Some (error, s))
          else Some (error, s)) = Some x"
      and o: "owes C n xs s"
    obtain e wk' s' where s': "suspend_enter E C st wk s = (e, wk', s')" by (metis prod_cases3)
    obtain r t where t: "do_call E Ops_suspend_again s' = (r, t)" by fastforce
    have o': "owes C n xs s'" using o s' suspend_enter_owes by blast
    then have "owes C n xs t" using plain [of C n xs s' Ops_suspend_again E] t by simp
    moreover have "(if e = 0 \<and> \<not> wk' \<and> need_suspend_ops st \<and> has C Ops_suspend_again
        then if r \<noteq> 0 then loop E C st wk' t else Some (e, t) else Some (e, s')) = Some x" using x by (simp only: s' t prod.case)
    ultimately show "owes C n xs (snd x)" using IH [of E C st wk' t x] o' by (auto split: if_splits)
  qed
  with assms(2) show ?thesis by blast
qed

lemma suspend_devices_owes:
  assumes "owes C n xs s" and "suspend_devices_and_enter E C st s = Some x"
  shows "owes C n xs (snd x)"
proof (cases "need_suspend_ops st \<and> \<not> ops_set C")
  case True
  then show ?thesis using assms by (auto simp: suspend_devices_and_enter_def)
next
  case False
  let ?b = "owed C st Ops_begin Ops_end xs"
  have close: "owes C n xs (close_suspend E C st t)" if "owes C n ?b t" for t
    unfolding close_suspend_def by (rule ops_closes [OF that]) (auto simp: optional_calls_def)
  let ?d = "Dpm_resume_end # Ftrace_start # Resume_console # ?b"
  have resume: "owes C n xs (resume_devices E C st t)" if "owes C n ?d t" for t
    unfolding resume_devices_def
    by (intro close call_closes [where d = Suspend_console] call_closes [where d = Ftrace_stop] call_closes [where d = Dpm_suspend_start] that)
      (auto simp: optional_calls_def)
  obtain e1 s1 where 1: "ops_call E C st Ops_begin s = (e1, s1)" by fastforce
  have o1: "owes C n ?b s1" by (rule ops_opens [OF assms(1) 1]) (auto simp: optional_calls_def if_done_def)
  obtain e2 s2 where 2: "do_call E Dpm_suspend_start (call E Ftrace_stop (call E Suspend_console s1)) = (e2, s2)" by fastforce
  have "owes C n (Ftrace_start # Resume_console # ?b) (call E Ftrace_stop (call E Suspend_console s1))"
    by (intro call_opens o1) (auto simp: optional_calls_def if_done_def)
  then have "owes C n ?d s2" using do_opens [OF _ 2] by (auto simp: optional_calls_def if_done_def)
  then have o3: "owes C n ?d (hook E C After_dpm_suspend_start s2)" by (rule hook_plain) auto
  then have o4: "owes C n ?d (snd (ops_call E C st Ops_recover (hook E C After_dpm_suspend_start s2)))"
    using plain [of C n ?d "hook E C After_dpm_suspend_start s2" Ops_recover E] by (simp add: ops_call_def)
  have o5: "owes C n ?d (snd y)" if "enter_loop E C st False (hook E C After_dpm_suspend_start s2) = Some y" for y
    using enter_loop_owes [OF that] o3 by blast
  show ?thesis
  proof (cases "e1 = 0")
    case True
    then show ?thesis using assms(2) False 1 2 resume [OF o4] resume [OF o5]
      by (auto simp: suspend_devices_and_enter_def Let_def split: if_splits)
  next
    case nz: False
    then show ?thesis using assms(2) False 1 close [OF o1] by (auto simp: suspend_devices_and_enter_def)
  qed
qed

lemma suspend_prepare_owes:
  assumes "owes C n xs s" and "suspend_prepare E C st s = (e, s')"
  shows "owes C n (if e = 0 then Thaw_processes # Notify_post # Console_restore # xs else xs) s'"
proof (cases "need_suspend_ops st \<and> (\<not> ops_set C \<or> \<not> has C Ops_enter)")
  case True
  then show ?thesis using assms by (auto simp: suspend_prepare_def EPERM_def)
next
  case False
  let ?n = "Notify_post # Console_restore # xs"
  have fin: "owes C n xs (prepare_finish E t)" if "owes C n ?n t" for t
    unfolding prepare_finish_def
    by (intro call_closes [where d = Console_prepare] call_closes [where d = Notify_prepare] that) (auto simp: optional_calls_def)
  obtain e1 s1 where 1: "do_call E Notify_prepare (call E Console_prepare s) = (e1, s1)" by fastforce
  have "owes C n (Console_restore # xs) (call E Console_prepare s)" by (intro call_opens assms(1)) (auto simp: optional_calls_def if_done_def)
  then have o1: "owes C n ?n s1" using do_opens [OF _ 1] by (auto simp: optional_calls_def if_done_def)
  obtain e2 s2 where 2: "do_call E Freeze_processes s1 = (e2, s2)" by fastforce
  have o2: "owes C n (if e2 = 0 then Thaw_processes # ?n else ?n) s2" using do_opens [OF o1 2] by (auto simp: optional_calls_def if_done_def)
  then have "owes C n ?n (call E Save_failed_step (s2\<lparr>stat_failed_freeze := k\<rparr>))" if "e2 \<noteq> 0" for k
    using plain [of C n ?n "s2\<lparr>stat_failed_freeze := k\<rparr>" Save_failed_step E] that by (simp add: call_def)
  then show ?thesis using assms(2) False 1 2 o2 fin fin [OF o1] by (auto simp: suspend_prepare_def split: if_splits)
qed

lemma suspend_finish_owes:
  assumes "owes C n (Thaw_processes # Notify_post # Console_restore # xs) s"
  shows "owes C n xs (suspend_finish E s)"
  unfolding suspend_finish_def
  by (intro call_closes [where d = Console_prepare] call_closes [where d = Notify_prepare] call_closes [where d = Freeze_processes] assms)
    (auto simp: optional_calls_def)

lemma enter_state_owes:
  assumes "owes C n xs s" and "enter_state E C st s = Some x"
  shows "owes C n xs (snd x)"
proof -
  obtain ok s1 where 1: "valid_state E C st s = (ok, s1)" by fastforce
  have o1: "owes C n xs s1" using 1 assms(1) plain [OF assms(1), of Ops_valid E]
    by (cases "do_call E Ops_valid s") (auto simp: valid_state_def split: if_splits)
  let ?s2 = "if st = PM_SUSPEND_FREEZE then freeze_begin (s1\<lparr>pm_locked := True\<rparr>) else s1\<lparr>pm_locked := True\<rparr>"
  have "owes C n xs ?s2" using o1 by (simp add: freeze_begin_def)
  then have o2: "owes C n xs (call E Sys_sync ?s2)" using plain [of C n xs _ Sys_sync E] by (simp add: call_def)
  obtain e3 s3 where 3: "suspend_prepare E C st (call E Sys_sync ?s2) = (e3, s3)" by fastforce
  note o3 = suspend_prepare_owes [OF o2 3]
  let ?xs = "Thaw_processes # Notify_post # Console_restore # xs"
  have o4: "owes C n ?xs (call E Restore_gfp (snd y))" if "e3 = 0" "suspend_devices_and_enter E C st (call E Restrict_gfp s3) = Some y" for y
  proof -
    have "owes C n (Restore_gfp # ?xs) (call E Restrict_gfp s3)" by (intro call_opens) (use o3 that(1) in \<open>auto simp: optional_calls_def if_done_def\<close>)
    from suspend_devices_owes [OF this that(2)] show ?thesis
      by (intro call_closes [where d = Restrict_gfp]) (auto simp: optional_calls_def)
  qed
  have fin: "owes C n xs (suspend_finish E t)" if "owes C n ?xs t" for t by (rule suspend_finish_owes [OF that])
  show ?thesis
  proof (cases "ok \<and> \<not> pm_locked s1")
    case False
    then show ?thesis using assms(2) 1 o1 by (cases ok; cases "pm_locked s1") (auto simp: enter_state_def)
  next
    case True
    have eq: "enter_state E C st s = (if e3 \<noteq> 0 then Some (mutex_unlock_pm (e3, s3))
         else if suspend_test C TEST_FREEZER then Some (mutex_unlock_pm (e3, suspend_finish E s3))
         else map_option (\<lambda>(error, s). mutex_unlock_pm (error, suspend_finish E (call E Restore_gfp s))) (suspend_devices_and_enter E C st (call E Restrict_gfp s3)))"
      using True 1 3 by (simp add: enter_state_def Let_def)
    show ?thesis
    proof (cases "e3 = 0")
      case False
      then show ?thesis using assms(2) eq o3 by (auto simp: mutex_unlock_pm_def)
    next
      case True
      then show ?thesis using assms(2) eq o3 o4 [OF True] fin by (auto simp: mutex_unlock_pm_def split: if_splits)
    qed
  qed
qed

lemma pm_suspend_owes:
  assumes "owes C n xs s" and "pm_suspend E C st s = Some x"
  shows "owes C n xs (snd x)"
proof (cases "st \<le> 0 \<or> st \<ge> PM_SUSPEND_MAX")
  case False
  then obtain y where y: "enter_state E C st s = Some y" "x = (fst y, if fst y \<noteq> 0 then call E Save_failed_errno ((snd y)\<lparr>stat_fail := stat_fail (snd y) + 1\<rparr>)
      else (snd y)\<lparr>stat_success := stat_success (snd y) + 1\<rparr>)"
    using assms(2) by (auto simp: pm_suspend_def split: prod.splits)
  have o: "owes C n xs (snd y)" by (rule enter_state_owes [OF assms(1) y(1)])
  then have "owes C n xs (call E Save_failed_errno ((snd y)\<lparr>stat_fail := k\<rparr>))" for k
    using plain [of C n xs "(snd y)\<lparr>stat_fail := k\<rparr>" Save_failed_errno E] by (simp add: call_def)
  then show ?thesis using o y(2) by simp
qed (use assms in \<open>auto simp: pm_suspend_def\<close>)


section \<open>The loop ends\<close>

definition grows :: "pm_sys \<Rightarrow> pm_sys \<Rightarrow> bool" where
  "grows s s' \<longleftrightarrow> prefix (pm_done s) (pm_done s')"

lemma grows_refl [intro, simp]: "grows s s"
  by (simp add: grows_def)

lemma grows_trans [trans]: "grows s t \<Longrightarrow> grows t u \<Longrightarrow> grows s u"
  unfolding grows_def by (rule prefix_order.trans)

lemma grows_do: "grows s (snd (do_call E c s))"
  by (simp add: grows_def do_call_def split_def)

lemma grows_call: "grows s (call E c s)"
  by (simp add: call_def grows_do)

lemma grows_ops: "grows s (snd (ops_call E C st c s))"
  by (simp add: ops_call_def grows_do)

lemma grows_hook: "grows s (hook E C c s)"
  by (simp add: hook_def grows_call)

lemma grows_ends: "grows s (platform_finish E C st s)" "grows s (platform_wake E C st s)" "grows s (enable_cpus E C st s)" "grows s (freeze_enter E s)"
proof -
  show fin: "grows s (platform_finish E C st s)" for s by (simp add: platform_finish_def grows_ops)
  show wake: "grows s (platform_wake E C st s)" for s
    unfolding platform_wake_def using grows_ops grows_call fin grows_trans by metis
  show "grows s (enable_cpus E C st s)" unfolding enable_cpus_def using grows_hook grows_call wake grows_trans by metis
  show "grows s (freeze_enter E s)" by (simp add: freeze_enter_def grows_call)
qed

lemma grows_core: "core_enter E C s = (e, wk, s') \<Longrightarrow> grows s s'"
proof -
  assume c: "core_enter E C s = (e, wk, s')"
  obtain p w where p: "pm_wakeup_pending (pm_wk s) = (p, w)" by fastforce
  obtain r t where t: "do_call E Ops_enter (s\<lparr>pm_wk := w\<rparr>) = (r, t)" by fastforce
  have "grows s t" using grows_do [of "s\<lparr>pm_wk := w\<rparr>" E Ops_enter] t by (simp add: grows_def)
  moreover have "grows (u\<lparr>pm_wk := w'\<rparr>) v \<longleftrightarrow> grows u v" "grows v (u\<lparr>pm_wk := w'\<rparr>) \<longleftrightarrow> grows v u" for u v w' by (simp_all add: grows_def)
  ultimately show ?thesis using c p t grows_call grows_trans
    by (auto simp: core_enter_def Let_def split: if_splits) (metis grows_call grows_trans)+
qed

lemma grows_irqs: "irqs_off E C wk s = (e, wk', s') \<Longrightarrow> grows s s'"
proof -
  assume i: "irqs_off E C wk s = (e, wk', s')"
  obtain r t where t: "do_call E Syscore_suspend (hook E C Suspend_after_irq_disable (call E Disable_irqs s)) = (r, t)" by fastforce
  obtain e1 wk1 u where u: "(if r = 0 then core_enter E C t else (r, wk, t)) = (e1, wk1, u)" by (metis prod_cases3)
  have "grows s t" using grows_do grows_hook grows_call grows_trans t by (metis snd_conv)
  moreover have "grows t u" using u grows_core by (auto split: if_splits)
  moreover have "s' = call E Enable_irqs (hook E C Resume_before_irq_enable u)" using i t u by (simp add: irqs_off_def)
  ultimately show ?thesis using grows_hook grows_call grows_trans by metis
qed

lemma grows_suspend_enter:
  assumes "suspend_enter E C st wk s = (e, wk', s')"
  shows "grows s s'"
proof -
  obtain e1 s1 where 1: "ops_call E C st Ops_prepare s = (e1, s1)" by fastforce
  obtain e2 s2 where 2: "do_call E Dpm_suspend_end s1 = (e2, s2)" by fastforce
  obtain e3 s3 where 3: "ops_call E C st Ops_prepare_late s2 = (e3, s3)" by fastforce
  obtain e4 s4 where 4: "do_call E Disable_cpus (hook E C Last_step_for_suspend s3) = (e4, s4)" by fastforce
  obtain e5 wk5 s5 where 5: "irqs_off E C wk s4 = (e5, wk5, s5)" by (metis prod_cases3)
  have g1: "grows s s1" using grows_ops 1 by (metis snd_conv)
  have g2: "grows s s2" using grows_do 2 g1 grows_trans by (metis snd_conv)
  have g3: "grows s s3" using grows_ops 3 g2 grows_trans by (metis snd_conv)
  have g4: "grows s s4" using grows_do grows_hook 4 g3 grows_trans by (metis snd_conv)
  have g5: "grows s s5" using grows_irqs [OF 5] g4 grows_trans by blast
  note fin = grows_trans [OF _ grows_ends(1)] and wake = grows_trans [OF _ grows_ends(2)] and cpus = grows_trans [OF _ grows_ends(3)]
  show ?thesis
    using assms 1 2 3 4 5 fin [OF g1] fin [OF g2] wake [OF g3] wake [OF grows_trans [OF g3 grows_ends(4)]] cpus [OF g4] cpus [OF g5]
    by (auto simp: suspend_enter_def split: if_splits)
qed

text \<open>The platform asks for another round at most \<open>n\<close> times.\<close>

definition agains :: "pm_log \<Rightarrow> nat" where
  "agains l = length (filter (\<lambda>x. fst x = Ops_suspend_again) l)"

definition asks_at_most :: "nat \<Rightarrow> pm_env \<Rightarrow> bool" where
  "asks_at_most n E \<longleftrightarrow> (\<forall>l w. n \<le> agains l \<longrightarrow> fst (E l Ops_suspend_again w) = 0)"

lemma enter_loop_ends:
  assumes again: "asks_at_most n E"
  shows "\<exists>x. enter_loop E C st wk s = Some x"
proof (induction "n - agains (pm_done s)" arbitrary: wk s rule: less_induct)
  case less
  obtain e wk' s' where s': "suspend_enter E C st wk s = (e, wk', s')" by (metis prod_cases3)
  obtain r t where t: "do_call E Ops_suspend_again s' = (r, t)" by fastforce
  have "agains (pm_done s) \<le> agains (pm_done s')"
    using grows_suspend_enter [OF s'] by (auto simp: grows_def agains_def prefix_def)
  moreover have "agains (pm_done t) = Suc (agains (pm_done s'))" using t by (auto simp: do_call_def agains_def split: prod.splits)
  moreover have "r = fst (E (pm_done s') Ops_suspend_again (pm_wk s'))" using t by (auto simp: do_call_def split: prod.splits)
  then have "r \<noteq> 0 \<Longrightarrow> agains (pm_done s') < n" using again unfolding asks_at_most_def by (metis not_le)
  ultimately have "r \<noteq> 0 \<Longrightarrow> n - agains (pm_done t) < n - agains (pm_done s)" by simp
  then have "r \<noteq> 0 \<Longrightarrow> \<exists>x. enter_loop E C st wk' t = Some x" using less by blast
  then show ?case using s' t by (subst enter_loop.simps) auto
qed

lemma pm_suspend_ends:
  assumes "asks_at_most n E"
  shows "\<exists>x. pm_suspend E C st s = Some x"
proof -
  have "enter_loop E C st False t \<noteq> None" for t using enter_loop_ends [OF assms, of C st False t] by blast
  then have "suspend_devices_and_enter E C st t \<noteq> None" for t by (simp add: suspend_devices_and_enter_def Let_def split_def del: not_None_eq)
  then have "enter_state E C st s \<noteq> None" by (simp add: enter_state_def Let_def split_def del: not_None_eq)
  then have "pm_suspend E C st s \<noteq> None" by (simp add: pm_suspend_def del: not_None_eq)
  then show ?thesis by blast
qed

lemma locked_do [simp]: "do_call E c s = (r, s') \<Longrightarrow> pm_locked s' = pm_locked s" "pm_locked (call E c s) = pm_locked s"
  by (auto simp: call_def do_call_def split: prod.splits)

lemma enter_state_unlocks: "enter_state E C st s = Some x \<Longrightarrow> pm_locked (snd x) = pm_locked s"
proof -
  assume e: "enter_state E C st s = Some x"
  obtain ok s1 where 1: "valid_state E C st s = (ok, s1)" by fastforce
  have l: "pm_locked s1 = pm_locked s" using 1 by (auto simp: valid_state_def split: if_splits prod.splits)
  show ?thesis
  proof (cases "ok \<and> \<not> pm_locked s1")
    case True
    then show ?thesis using e 1 l by (auto simp: enter_state_def Let_def mutex_unlock_pm_def split: prod.splits if_splits)
  next
    case False
    then show ?thesis using e 1 l by (cases ok; cases "pm_locked s1") (auto simp: enter_state_def)
  qed
qed

text \<open>
  C13: \<open>pm_suspend\<close> returns when the platform asks for a bounded number of rounds, and on every path, whatever
  fails, it undoes what it did: each preparation, stop, freeze and disable that took place is answered by
  its counterpart, in the opposite order and once, the author's hooks included; and \<open>pm_mutex\<close> is as it was.
\<close>

theorem suspend_undone:
  assumes again: "asks_at_most n E"
  shows "\<exists>e s'. pm_suspend E C st s = Some (e, s') \<and> brackets C (results (drop (length (pm_done s)) (pm_done s'))) [] = Some [] \<and>
    pm_locked s' = pm_locked s"
proof -
  obtain e s' where x: "pm_suspend E C st s = Some (e, s')" using pm_suspend_ends [OF again] by fastforce
  have "owes C (length (pm_done s)) [] s" by (simp add: owes_def to_undo_def results_def)
  from pm_suspend_owes [OF this x] have "brackets C (results (drop (length (pm_done s)) (pm_done s'))) [] = Some []"
    by (simp add: owes_def to_undo_def)
  moreover have "pm_locked s' = pm_locked s"
    using x enter_state_unlocks [of E C st s] by (auto simp: pm_suspend_def split: if_splits prod.splits)
  ultimately show ?thesis using x by blast
qed


section \<open>Entering the sleep state\<close>

text \<open>The state of the wake-up sources when the platform's \<open>enter\<close> is called for the first time.\<close>

fun first_enter :: "pm_log \<Rightarrow> wakeup option" where
  "first_enter [] = None"
| "first_enter ((c, r, w) # l) = (if c = Ops_enter then Some w else first_enter l)"

lemma first_enter_append: "first_enter (l @ l') = (case first_enter l of Some w \<Rightarrow> Some w | None \<Rightarrow> first_enter l')"
  by (induction l rule: first_enter.induct) auto

text \<open>Calls that tell of an event with an error, on which the suspend is given up.\<close>

definition gives_up :: "pm_call \<Rightarrow> bool" where
  "gives_up c \<longleftrightarrow> c \<in> {Ops_begin, Ops_prepare, Ops_prepare_late, Notify_prepare, Freeze_processes, Dpm_suspend_start, Dpm_suspend_end,
     Disable_cpus, Syscore_suspend}"

text \<open>
  \<open>A\<close> is a property of the wake-up sources that no call ends without an error: \<open>follows\<close>. As long as \<open>b\<close>
  holds the state has it, unless the platform has been entered, and then it had it at that time and nothing
  was pending: \<open>watch\<close>.
\<close>

definition follows :: "pm_env \<Rightarrow> (wakeup \<Rightarrow> bool) \<Rightarrow> bool" where
  "follows E A \<longleftrightarrow> (\<forall>w. A w \<longrightarrow> A (w\<lparr>suspend_freeze_wake := False\<rparr>)) \<and>
     (\<forall>l c w. A w \<longrightarrow> gives_up c \<and> fst (E l c w) \<noteq> 0 \<or> A (snd (E l c w)))"

definition watch :: "nat \<Rightarrow> (wakeup \<Rightarrow> bool) \<Rightarrow> bool \<Rightarrow> pm_sys \<Rightarrow> bool" where
  "watch n A b s \<longleftrightarrow> n \<le> length (pm_done s) \<and>
     (case first_enter (drop n (pm_done s)) of Some w \<Rightarrow> A w \<and> pm_wakeup_pending w = (False, w) | None \<Rightarrow> b \<longrightarrow> A (pm_wk s))"

lemma watch_mono: "watch n A b s \<Longrightarrow> (b' \<Longrightarrow> b) \<Longrightarrow> watch n A b' s"
  by (auto simp: watch_def split: option.splits)

lemma watch_fields [simp]:
  "watch n A b (s\<lparr>pm_locked := x\<rparr>) = watch n A b s" "watch n A b (s\<lparr>stat_success := k\<rparr>) = watch n A b s"
  "watch n A b (s\<lparr>stat_fail := k\<rparr>) = watch n A b s" "watch n A b (s\<lparr>stat_failed_freeze := k\<rparr>) = watch n A b s"
  by (simp_all add: watch_def cong: option.case_cong)

lemma watch_wk: "watch n A b s \<Longrightarrow> (A (pm_wk s) \<Longrightarrow> b' \<Longrightarrow> b \<and> A w) \<Longrightarrow> (b' \<Longrightarrow> b) \<Longrightarrow> watch n A b' (s\<lparr>pm_wk := w\<rparr>)"
  by (auto simp: watch_def split: option.splits)

lemma watch_do:
  assumes f: "follows E A" and w: "watch n A b s" and c: "c \<noteq> Ops_enter" and r: "do_call E c s = (r, s')"
  shows "watch n A (b \<and> (gives_up c \<longrightarrow> r = 0)) s'"
proof -
  obtain w' where e: "E (pm_done s) c (pm_wk s) = (r, w')" "s' = s\<lparr>pm_done := pm_done s @ [(c, r, pm_wk s)], pm_wk := w'\<rparr>"
    using r by (auto simp: do_call_def split: prod.splits)
  have "A (pm_wk s) \<Longrightarrow> (gives_up c \<longrightarrow> r = 0) \<Longrightarrow> A w'" using f e(1) unfolding follows_def by (metis fst_conv snd_conv)
  then show ?thesis using w c by (auto simp: watch_def e(2) first_enter_append split: option.splits)
qed

lemma watch_call: "follows E A \<Longrightarrow> watch n A b s \<Longrightarrow> c \<noteq> Ops_enter \<Longrightarrow> \<not> gives_up c \<Longrightarrow> watch n A b (call E c s)"
  using watch_do [of E A n b s c "fst (do_call E c s)" "call E c s"] by (simp add: call_def)

lemma watch_hook: "follows E A \<Longrightarrow> watch n A b s \<Longrightarrow> c \<noteq> Ops_enter \<Longrightarrow> \<not> gives_up c \<Longrightarrow> watch n A b (hook E C c s)"
  by (simp add: hook_def watch_call)

lemma watch_ops:
  "follows E A \<Longrightarrow> watch n A b s \<Longrightarrow> c \<noteq> Ops_enter \<Longrightarrow> ops_call E C st c s = (r, s') \<Longrightarrow> watch n A (b \<and> (gives_up c \<longrightarrow> r = 0)) s'"
  using watch_do [of E A n b s c r s'] by (auto simp: ops_call_def split: if_splits)

lemma watch_ops_plain: "follows E A \<Longrightarrow> watch n A b s \<Longrightarrow> c \<noteq> Ops_enter \<Longrightarrow> \<not> gives_up c \<Longrightarrow> watch n A b (snd (ops_call E C st c s))"
  using watch_ops [of E A n b s c C st "fst (ops_call E C st c s)" "snd (ops_call E C st c s)"] by simp

lemma watch_ends:
  assumes f: "follows E A" and w: "watch n A b s"
  shows "watch n A b (platform_finish E C st s)" "watch n A b (platform_wake E C st s)" "watch n A b (enable_cpus E C st s)"
    "watch n A b (freeze_enter E s)" "watch n A b (resume_devices E C st s)" "watch n A b (close_suspend E C st s)"
    "watch n A b (suspend_finish E s)" "watch n A b (prepare_finish E s)"
  unfolding platform_finish_def platform_wake_def enable_cpus_def freeze_enter_def resume_devices_def close_suspend_def suspend_finish_def prepare_finish_def
  by (auto intro!: watch_ops_plain watch_call watch_hook f w simp: gives_up_def)

lemma pending_same: "pm_wakeup_pending w = (False, w') \<Longrightarrow> w' = w"
  by (auto simp: pm_wakeup_pending_def split: if_splits)

lemma watch_core:
  assumes f: "follows E A" and w: "watch n A True s" and c: "core_enter E C s = (e, wk, s')"
  shows "watch n A (\<not> wk) s'"
proof -
  obtain p w' where p: "pm_wakeup_pending (pm_wk s) = (p, w')" by fastforce
  have same: "w' = pm_wk s" if "\<not> p" using p pending_same that by simp
  have 1: "watch n A (\<not> p) (s\<lparr>pm_wk := w'\<rparr>)" by (rule watch_wk [OF w]) (use same in auto)
  obtain r t where t: "do_call E Ops_enter (s\<lparr>pm_wk := w'\<rparr>) = (r, t)" by fastforce
  have 2: "watch n A b (t\<lparr>pm_wk := x\<rparr>)" if "\<not> p" for b x
    using w p same [OF that] t that by (auto simp: watch_def do_call_def first_enter_append split: prod.splits option.splits)
  show ?thesis using c p t watch_call [OF f 1] watch_call [OF f 2]
    by (auto simp: core_enter_def Let_def gives_up_def split: if_splits)
qed

lemma watch_irqs:
  assumes f: "follows E A" and w: "watch n A True s" and i: "irqs_off E C wk s = (e, wk', s')"
  shows "watch n A (e = 0 \<and> \<not> wk') s'"
proof -
  obtain r t where t: "do_call E Syscore_suspend (hook E C Suspend_after_irq_disable (call E Disable_irqs s)) = (r, t)" by fastforce
  have 1: "watch n A (r = 0) t"
    using watch_do [OF f watch_hook [OF f watch_call [OF f w]] _ t] by (simp add: gives_up_def)
  obtain e1 wk1 u where u: "(if r = 0 then core_enter E C t else (r, wk, t)) = (e1, wk1, u)" by (metis prod_cases3)
  have "watch n A (e1 = 0 \<and> \<not> wk1) u"
  proof (cases "r = 0")
    case True
    then have "watch n A (\<not> wk1) u" using watch_core [OF f _, of n t C e1 wk1 u] 1 u by simp
    then show ?thesis by (rule watch_mono) simp
  qed (use u watch_mono [OF 1] in auto)
  moreover have "s' = call E Enable_irqs (hook E C Resume_before_irq_enable u)" "e1 = e" "wk1 = wk'" using i t u by (simp_all add: irqs_off_def)
  ultimately show ?thesis using watch_call [OF f watch_hook [OF f]] by (simp add: gives_up_def)
qed

lemma watch_suspend_enter:
  assumes f: "follows E A" and w: "watch n A True s" and x: "suspend_enter E C st False s = (e, wk', s')"
  shows "watch n A (e = 0 \<and> \<not> wk') s'"
proof -
  obtain e1 s1 where 1: "ops_call E C st Ops_prepare s = (e1, s1)" by fastforce
  obtain e2 s2 where 2: "do_call E Dpm_suspend_end s1 = (e2, s2)" by fastforce
  obtain e3 s3 where 3: "ops_call E C st Ops_prepare_late s2 = (e3, s3)" by fastforce
  obtain e4 s4 where 4: "do_call E Disable_cpus (hook E C Last_step_for_suspend s3) = (e4, s4)" by fastforce
  obtain e5 wk5 s5 where 5: "irqs_off E C False s4 = (e5, wk5, s5)" by (metis prod_cases3)
  have w1: "watch n A (e1 = 0) s1" using watch_ops [OF f w _ 1] by (simp add: gives_up_def)
  have w2: "watch n A (e1 = 0 \<and> e2 = 0) s2" using watch_do [OF f w1 _ 2] by (simp add: gives_up_def)
  have w3: "watch n A (e1 = 0 \<and> e2 = 0 \<and> e3 = 0) s3" using watch_ops [OF f w2 _ 3] by (simp add: gives_up_def)
  have w4: "watch n A (e1 = 0 \<and> e2 = 0 \<and> e3 = 0 \<and> e4 = 0) s4"
    using watch_do [OF f watch_hook [OF f w3, of Last_step_for_suspend C] _ 4] by (simp add: gives_up_def conj_ac)
  have w5: "watch n A (e5 = 0 \<and> \<not> wk5) s5" if "e1 = 0" "e2 = 0" "e3 = 0" "e4 = 0" using watch_irqs [OF f _ 5] w4 that by simp
  note ends = watch_ends [OF f]
  show ?thesis
  proof (cases "e1 = 0 \<and> e2 = 0 \<and> e3 = 0")
    case False
    then show ?thesis using x 1 2 3 ends(1) [OF w1, of C st] ends(1) [OF w2, of C st] ends(2) [OF w3, of C st]
      by (auto simp: suspend_enter_def intro: watch_mono split: if_splits)
  next
    case True
    have a3: "watch n A True s3" using w3 True by simp
    have a4: "watch n A (e4 = 0) s4" using w4 True by simp
    show ?thesis
    proof (cases "e4 = 0")
      case zero: True
      have a5: "watch n A (e5 = 0 \<and> \<not> wk5) s5" using w5 True zero by simp
      show ?thesis
        using x 1 2 3 4 5 True zero ends(2) [OF a3, of C st] ends(2) [OF ends(4) [OF a3], of C st] ends(3) [OF a4, of C st] ends(3) [OF a5, of C st]
        by (auto simp: suspend_enter_def split: if_splits)
    next
      case False
      then show ?thesis
        using x 1 2 3 4 True ends(2) [OF a3, of C st] ends(2) [OF ends(4) [OF a3], of C st] ends(3) [OF a4, of C st]
        by (auto simp: suspend_enter_def split: if_splits)
    qed
  qed
qed

lemma watch_enter_loop:
  assumes "enter_loop E C st False s = Some x" and f: "follows E A" and "watch n A True s"
  shows "watch n A False (snd x)"
proof -
  have "\<forall>n A. follows E A \<longrightarrow> watch n A True s \<longrightarrow> \<not> False \<longrightarrow> watch n A False (snd x)"
  proof (rule enter_loop.raw_induct [where P = "\<lambda>E C st wk s x. \<forall>n A. follows E A \<longrightarrow> watch n A True s \<longrightarrow> \<not> wk \<longrightarrow> watch n A False (snd x)", OF _ assms(1)], intro allI impI)
    fix loop E C st wk s and x :: "int \<times> pm_sys" and n A
    assume IH: "\<And>E C st wk s x. loop E C st wk s = Some x \<Longrightarrow> \<forall>n A. follows E A \<longrightarrow> watch n A True s \<longrightarrow> \<not> wk \<longrightarrow> watch n A False (snd x)"
      and x: "(case suspend_enter E C st wk s of (error, wakeup, s) \<Rightarrow>
          if error = 0 \<and> \<not> wakeup \<and> need_suspend_ops st \<and> has C Ops_suspend_again
          then (case do_call E Ops_suspend_again s of (r, s) \<Rightarrow> if r \<noteq> 0 then loop E C st wakeup s else Some (error, s))
          else Some (error, s)) = Some x"
      and f: "follows E A" and w: "watch n A True s" "\<not> wk"
    obtain e wk' s' where s': "suspend_enter E C st wk s = (e, wk', s')" by (metis prod_cases3)
    obtain r t where t: "do_call E Ops_suspend_again s' = (r, t)" by fastforce
    have w': "watch n A (e = 0 \<and> \<not> wk') s'" using watch_suspend_enter [OF f w(1)] s' w(2) by simp
    have "watch n A (e = 0 \<and> \<not> wk') t" using watch_do [OF f w' _ t] by (simp add: gives_up_def)
    moreover have "(if e = 0 \<and> \<not> wk' \<and> need_suspend_ops st \<and> has C Ops_suspend_again
        then if r \<noteq> 0 then loop E C st wk' t else Some (e, t) else Some (e, s')) = Some x" using x by (simp only: s' t prod.case)
    ultimately show "watch n A False (snd x)" using IH [of E C st wk' t x] w' f by (auto intro: watch_mono split: if_splits)
  qed
  with assms(2,3) show ?thesis by blast
qed

lemma watch_devices:
  assumes f: "follows E A" and w: "watch n A True s" and x: "suspend_devices_and_enter E C st s = Some x"
  shows "watch n A False (snd x)"
proof (cases "need_suspend_ops st \<and> \<not> ops_set C")
  case True
  then show ?thesis using x watch_mono [OF w] by (auto simp: suspend_devices_and_enter_def)
next
  case False
  obtain e1 s1 where 1: "ops_call E C st Ops_begin s = (e1, s1)" by fastforce
  obtain e2 s2 where 2: "do_call E Dpm_suspend_start (call E Ftrace_stop (call E Suspend_console s1)) = (e2, s2)" by fastforce
  have w1: "watch n A (e1 = 0) s1" using watch_ops [OF f w _ 1] by (simp add: gives_up_def)
  have "watch n A (e1 = 0 \<and> e2 = 0) s2"
    using watch_do [OF f watch_call [OF f watch_call [OF f w1]] _ 2] by (simp add: gives_up_def)
  then have w3: "watch n A (e1 = 0 \<and> e2 = 0) (hook E C After_dpm_suspend_start s2)" by (rule watch_hook [OF f]) (auto simp: gives_up_def)
  note ends = watch_ends [OF f]
  have j1: "watch n A False s1" and j3: "watch n A False (hook E C After_dpm_suspend_start s2)" using watch_mono w1 w3 by blast+
  have r: "watch n A False (resume_devices E C st (snd (ops_call E C st Ops_recover (hook E C After_dpm_suspend_start s2))))"
    by (intro ends(5) watch_ops_plain [OF f j3]) (auto simp: gives_up_def)
  have l: "watch n A False (resume_devices E C st (snd y))" if "e1 = 0" "e2 = 0" "enter_loop E C st False (hook E C After_dpm_suspend_start s2) = Some y" for y
    by (intro ends(5) watch_enter_loop [OF that(3) f]) (use w3 that in simp)
  show ?thesis
  proof (cases "e1 = 0")
    case True
    then show ?thesis using x False 1 2 r l by (auto simp: suspend_devices_and_enter_def Let_def split: if_splits)
  next
    case nz: False
    then show ?thesis using x False 1 ends(6) [OF j1] by (auto simp: suspend_devices_and_enter_def)
  qed
qed

lemma watch_prepare:
  assumes f: "follows E A" and w: "watch n A True s" and x: "suspend_prepare E C st s = (e, s')"
  shows "watch n A (e = 0) s'"
proof (cases "need_suspend_ops st \<and> (\<not> ops_set C \<or> \<not> has C Ops_enter)")
  case True
  then show ?thesis using x watch_mono [OF w] by (auto simp: suspend_prepare_def)
next
  case False
  obtain e1 s1 where 1: "do_call E Notify_prepare (call E Console_prepare s) = (e1, s1)" by fastforce
  have w1: "watch n A (e1 = 0) s1" using watch_do [OF f watch_call [OF f w] _ 1] by (simp add: gives_up_def)
  obtain e2 s2 where 2: "do_call E Freeze_processes s1 = (e2, s2)" by fastforce
  have w2: "watch n A (e1 = 0 \<and> e2 = 0) s2" using watch_do [OF f w1 _ 2] by (simp add: gives_up_def)
  have w3: "watch n A False (prepare_finish E (call E Save_failed_step (s2\<lparr>stat_failed_freeze := k\<rparr>)))" for k
    by (intro watch_ends(8) [OF f] watch_call [OF f]) (use watch_mono [OF w2] in \<open>auto simp: gives_up_def\<close>)
  show ?thesis using x False 1 2 w2 w3 watch_ends(8) [OF f w1] by (auto simp: suspend_prepare_def intro: watch_mono split: if_splits)
qed

lemma watch_pm_suspend:
  assumes f: "follows E A" and w: "watch n A True s" and x: "pm_suspend E C st s = Some x"
  shows "watch n A False (snd x)"
proof (cases "st \<le> 0 \<or> st \<ge> PM_SUSPEND_MAX")
  case True
  then show ?thesis using x watch_mono [OF w] by (auto simp: pm_suspend_def)
next
  case False
  then obtain y where y: "enter_state E C st s = Some y" "x = (fst y, if fst y \<noteq> 0 then call E Save_failed_errno ((snd y)\<lparr>stat_fail := stat_fail (snd y) + 1\<rparr>)
      else (snd y)\<lparr>stat_success := stat_success (snd y) + 1\<rparr>)"
    using x by (auto simp: pm_suspend_def split: prod.splits)
  obtain ok s1 where 1: "valid_state E C st s = (ok, s1)" by fastforce
  have w1: "watch n A True s1" using 1 w watch_do [OF f w, of Ops_valid] by (auto simp: valid_state_def gives_up_def split: if_splits prod.splits)
  let ?s2 = "if st = PM_SUSPEND_FREEZE then freeze_begin (s1\<lparr>pm_locked := True\<rparr>) else s1\<lparr>pm_locked := True\<rparr>"
  have "watch n A True (freeze_begin (s1\<lparr>pm_locked := True\<rparr>))"
    unfolding freeze_begin_def by (rule watch_wk [where b = True]) (use w1 f in \<open>auto simp: follows_def\<close>)
  then have "watch n A True ?s2" using w1 by simp
  then have w2: "watch n A True (call E Sys_sync ?s2)" by (rule watch_call [OF f]) (auto simp: gives_up_def)
  obtain e3 s3 where 3: "suspend_prepare E C st (call E Sys_sync ?s2) = (e3, s3)" by fastforce
  note w3 = watch_prepare [OF f w2 3]
  have j1: "watch n A False s1" and j3: "watch n A False s3" using watch_mono w1 w3 by blast+
  have l: "watch n A False (suspend_finish E (call E Restore_gfp (snd z)))" if "e3 = 0" "suspend_devices_and_enter E C st (call E Restrict_gfp s3) = Some z" for z
  proof -
    have "watch n A True (call E Restrict_gfp s3)" by (rule watch_call [OF f]) (use w3 that(1) in \<open>auto simp: gives_up_def\<close>)
    then have "watch n A False (snd z)" by (rule watch_devices [OF f _ that(2)])
    then show ?thesis by (intro watch_ends(7) [OF f] watch_call [OF f]) (auto simp: gives_up_def)
  qed
  have "watch n A False (snd y)"
  proof (cases "ok \<and> \<not> pm_locked s1")
    case False
    then show ?thesis using y(1) 1 j1 by (cases ok; cases "pm_locked s1") (auto simp: enter_state_def)
  next
    case True
    have eq: "enter_state E C st s = (if e3 \<noteq> 0 then Some (mutex_unlock_pm (e3, s3))
         else if suspend_test C TEST_FREEZER then Some (mutex_unlock_pm (e3, suspend_finish E s3))
         else map_option (\<lambda>(error, s). mutex_unlock_pm (error, suspend_finish E (call E Restore_gfp s))) (suspend_devices_and_enter E C st (call E Restrict_gfp s3)))"
      using True 1 3 by (simp add: enter_state_def Let_def)
    show ?thesis
    proof (cases "e3 = 0")
      case False
      then show ?thesis using y(1) eq j3 by (auto simp: mutex_unlock_pm_def)
    next
      case True
      then show ?thesis using y(1) eq l watch_ends(7) [OF f j3] by (auto simp: mutex_unlock_pm_def split: if_splits)
    qed
  qed
  then have "watch n A False (call E Save_failed_errno ((snd y)\<lparr>stat_fail := k\<rparr>))" "watch n A False (snd y)" for k
    by (auto intro!: watch_call [OF f] simp: gives_up_def)
  then show ?thesis using y(2) by simp
qed


text \<open>
  What the rest of the kernel does during a call is a run of the wake-up sources in which no number is saved.
  When it finds an event pending, as the device core does, then in a call that fails for it.
\<close>

definition kernel_runs :: "(u32 \<Rightarrow> u64) \<Rightarrow> pm_env \<Rightarrow> bool" where
  "kernel_runs m2j E \<longleftrightarrow> (\<forall>l c w. \<exists>acts. wakeup_run m2j w acts (snd (E l c w)) \<and> (\<forall>c r. Save c r \<notin> set acts) \<and>
     (Pending True \<in> set acts \<longrightarrow> gives_up c \<and> fst (E l c w) \<noteq> 0))"

text \<open>
  C8: The wake-up sources and suspend together. User space has read the number of events, found none in
  progress and saved the number; then it suspends. Whatever the cpus do in the meantime and in the calls of
  suspend, when the platform is told for the first time to enter the sleep state, no event has been reported
  since the number was read, within the bounds of the counter. (A platform that sleeps again by its method
  \<open>suspend_again\<close> is told so without a check: \<open>suspend_again_unchecked\<close>.)
\<close>

theorem suspend_enters_quiet:
  assumes reach: "wakeup_run m2j (wakeup_start mem) acts s0" and get: "pm_get_wakeup_count waits block s00 = (c, True, s0)"
    and run1: "wakeup_run m2j s0 acts1 s1" and save: "pm_save_wakeup_count c s1 = (True, pm_wk s)"
    and env: "kernel_runs m2j E" and x: "pm_suspend E C st s = Some (e, s')"
    and enter: "first_enter (drop (length (pm_done s)) (pm_done s')) = Some w"
  shows "\<exists>acts2. wakeup_run m2j (pm_wk s) acts2 w \<and>
    (length (reports (acts1 @ acts2)) < 2 ^ 16 \<and> card (active_set s0) < 2 ^ 16 \<and> card (active_set w) < 2 ^ 16 \<longrightarrow> reports (acts1 @ acts2) = [])"
proof -
  define A where "A w \<longleftrightarrow> (\<exists>acts. wakeup_run m2j (pm_wk s) acts w \<and> (\<forall>c r. Save c r \<notin> set acts) \<and> Pending True \<notin> set acts)" for w
  have "A (w\<lparr>suspend_freeze_wake := False\<rparr>)" if a: "A w" for w
  proof -
    obtain acts where "wakeup_run m2j (pm_wk s) acts w" "\<forall>c r. Save c r \<notin> set acts" "Pending True \<notin> set acts" using a by (auto simp: A_def)
    with wakeup_run.step [OF this(1) wakeup_step.freeze_begin] show ?thesis unfolding A_def by (intro exI [of _ "acts @ [Other]"]) auto
  qed
  moreover have "gives_up c \<and> fst (E l c w) \<noteq> 0 \<or> A (snd (E l c w))" if a: "A w" for l c w
  proof -
    obtain acts where acts: "wakeup_run m2j (pm_wk s) acts w" "\<forall>c r. Save c r \<notin> set acts" "Pending True \<notin> set acts" using a by (auto simp: A_def)
    obtain more where more: "wakeup_run m2j w more (snd (E l c w))" "\<forall>c r. Save c r \<notin> set more"
      "Pending True \<in> set more \<longrightarrow> gives_up c \<and> fst (E l c w) \<noteq> 0" using env unfolding kernel_runs_def by blast
    show ?thesis
    proof (cases "Pending True \<in> set more")
      case False
      then have "A (snd (E l c w))" using run_append [OF more(1) acts(1)] acts(2,3) more(2) unfolding A_def
        by (intro exI [of _ "acts @ more"]) auto
      then show ?thesis by simp
    qed (use more(3) in simp)
  qed
  ultimately have f: "follows E A" unfolding follows_def by blast
  have "A (pm_wk s)" unfolding A_def by (intro exI [of _ "[]"]) (simp add: wakeup_run.start)
  then have "watch (length (pm_done s)) A True s" by (simp add: watch_def)
  from watch_pm_suspend [OF f this x] enter have "A w" "pm_wakeup_pending w = (False, w)" by (simp_all add: watch_def)
  then obtain acts2 where acts2: "wakeup_run m2j (pm_wk s) acts2 w" "\<forall>c r. Save c r \<notin> set acts2" "Pending True \<notin> set acts2"
    unfolding A_def by blast
  from wakeup_event_not_lost [OF reach get run1 save acts2 \<open>pm_wakeup_pending w = (False, w)\<close>] acts2(1) show ?thesis by blast
qed

section \<open>A platform with two methods\<close>

abbreviation simple_platform :: pm_config where
  "simple_platform \<equiv> \<lparr>ops_set = True, has = (\<lambda>c. c = Ops_valid \<or> c = Ops_enter), pm_debug = False, pm_test_level = TEST_NONE\<rparr>"

abbreviation calm :: pm_env where
  "calm \<equiv> \<lambda>l c w. (of_bool (c = Ops_valid), w)"

lemma calm_call: "do_call calm c s = (of_bool (c = Ops_valid), s\<lparr>pm_done := pm_done s @ [(c, of_bool (c = Ops_valid), pm_wk s)]\<rparr>)"
  by (simp add: do_call_def)

lemmas suspend_defs = suspend_devices_and_enter_def enter_state_def suspend_prepare_def valid_state_def suspend_enter_def core_enter_def irqs_off_def
  enable_cpus_def platform_wake_def platform_finish_def resume_devices_def close_suspend_def suspend_finish_def prepare_finish_def mutex_unlock_pm_def
  ops_call_def hook_def suspend_test_def need_suspend_ops_def PM_SUSPEND_FREEZE_def PM_SUSPEND_MEM_def PM_SUSPEND_MAX_def

definition armed :: "wakeup \<Rightarrow> bool" where
  "armed w \<longleftrightarrow> events_check_enabled w \<and> events_pending w"

text \<open>No call fails, and when the core is suspended an event has come since the number was saved.\<close>

definition late_event :: "pm_env \<Rightarrow> bool" where
  "late_event E \<longleftrightarrow> (\<forall>l c w. c \<noteq> Ops_valid \<longrightarrow> fst (E l c w) = 0) \<and> (\<forall>l w. fst (E l Ops_valid w) \<noteq> 0) \<and>
     (\<forall>l w. armed (snd (E l Syscore_suspend w)))"

text \<open>What is the same after the calls of a part of the code: it did not fail or sleep.\<close>

definition goes_on :: "pm_sys \<Rightarrow> pm_sys \<Rightarrow> bool" where
  "goes_on s s' \<longleftrightarrow> stat_success s' = stat_success s \<and> stat_fail s' = stat_fail s \<and> pm_locked s' = pm_locked s \<and>
     (\<exists>l. pm_done s' = pm_done s @ l \<and> first_enter l = None)"

lemma goes_on_refl [simp]: "goes_on s s"
  by (simp add: goes_on_def)

lemma goes_on_trans: "goes_on s t \<Longrightarrow> goes_on t u \<Longrightarrow> goes_on s u"
  by (auto simp: goes_on_def first_enter_append)

lemma goes_on_wk [simp]: "goes_on s (t\<lparr>pm_wk := w\<rparr>) = goes_on s t"
  by (simp add: goes_on_def)

lemma goes_on_do: "c \<noteq> Ops_enter \<Longrightarrow> goes_on s (snd (do_call E c s))"
  by (cases "E (pm_done s) c (pm_wk s)") (auto simp: goes_on_def do_call_def)

lemma goes_on_call: "goes_on s t \<Longrightarrow> c \<noteq> Ops_enter \<Longrightarrow> goes_on s (call E c t)"
  unfolding call_def using goes_on_trans goes_on_do by blast

lemma goes_on_hook: "goes_on s t \<Longrightarrow> c \<noteq> Ops_enter \<Longrightarrow> goes_on s (hook E C c t)"
  by (simp add: hook_def goes_on_call)

lemma goes_on_ops: "goes_on s t \<Longrightarrow> c \<noteq> Ops_enter \<Longrightarrow> goes_on s (snd (ops_call E C st c t))"
  using goes_on_trans goes_on_do by (auto simp: ops_call_def)

lemma do_call_wk: "pm_wk (snd (do_call E c s)) = snd (E (pm_done s) c (pm_wk s))"
  by (simp add: do_call_def split_def)

lemma do_call_fst: "fst (do_call E c s) = fst (E (pm_done s) c (pm_wk s))"
  by (simp add: do_call_def split_def)

lemma late_result: "late_event E \<Longrightarrow> c \<noteq> Ops_valid \<Longrightarrow> fst (do_call E c s) = 0"
  by (simp add: late_event_def do_call_fst)

lemma late_do: "late_event E \<Longrightarrow> c \<noteq> Ops_valid \<Longrightarrow> c \<noteq> Ops_enter \<Longrightarrow> goes_on s t \<Longrightarrow> \<exists>u. do_call E c t = (0, u) \<and> goes_on s u"
proof -
  assume "late_event E" "c \<noteq> Ops_valid" "c \<noteq> Ops_enter" "goes_on s t"
  then have "fst (do_call E c t) = 0" "goes_on s (snd (do_call E c t))" using late_result goes_on_trans [OF _ goes_on_do] by blast+
  then show ?thesis by (intro exI [of _ "snd (do_call E c t)"]) (simp add: prod_eq_iff)
qed

lemma late_ops: "late_event E \<Longrightarrow> c \<noteq> Ops_valid \<Longrightarrow> c \<noteq> Ops_enter \<Longrightarrow> goes_on s t \<Longrightarrow> \<exists>u. ops_call E C st c t = (0, u) \<and> goes_on s u"
  using late_do [of E c s t] by (simp add: ops_call_def)

lemma late_irqs_off:
  assumes E: "late_event E" and s: "goes_on s t"
  shows "\<exists>u. irqs_off E C wk t = (0, True, u) \<and> goes_on s u"
proof -
  let ?t = "hook E C Suspend_after_irq_disable (call E Disable_irqs t)"
  have "goes_on s ?t" using s by (intro goes_on_hook goes_on_call) simp_all
  then obtain u where u: "do_call E Syscore_suspend ?t = (0, u)" "goes_on s u" using late_do [OF E] by blast
  then have "pm_wk u = snd (E (pm_done ?t) Syscore_suspend (pm_wk ?t))" using do_call_wk [of E Syscore_suspend ?t] by simp
  then have "armed (pm_wk u)" using E by (simp add: late_event_def)
  then have "pm_wakeup_pending (pm_wk u) = (True, (pm_wk u)\<lparr>events_check_enabled := False\<rparr>)" by (simp add: armed_def pm_wakeup_pending_def)
  then have "core_enter E C u = (0, True, call E Syscore_resume (u\<lparr>pm_wk := (pm_wk u)\<lparr>events_check_enabled := False\<rparr>\<rparr>))"
    by (simp add: core_enter_def Let_def)
  moreover have "goes_on s (call E Enable_irqs (hook E C Resume_before_irq_enable (call E Syscore_resume (u\<lparr>pm_wk := w\<rparr>))))" for w
    using u(2) by (intro goes_on_call goes_on_hook) simp_all
  ultimately show ?thesis using u(1) by (simp add: irqs_off_def)
qed

lemma late_suspend_enter:
  assumes E: "late_event E" and C: "\<not> pm_debug C" and st: "need_suspend_ops st" and s: "goes_on s t"
  shows "\<exists>u. suspend_enter E C st wk t = (0, True, u) \<and> goes_on s u"
proof -
  obtain t1 where 1: "ops_call E C st Ops_prepare t = (0, t1)" "goes_on s t1" using late_ops [OF E _ _ s] by blast
  obtain t2 where 2: "do_call E Dpm_suspend_end t1 = (0, t2)" "goes_on s t2" using late_do [OF E _ _ 1(2)] by blast
  obtain t3 where 3: "ops_call E C st Ops_prepare_late t2 = (0, t3)" "goes_on s t3" using late_ops [OF E _ _ 2(2)] by blast
  have "goes_on s (hook E C Last_step_for_suspend t3)" using 3(2) by (rule goes_on_hook) simp
  then obtain t4 where 4: "do_call E Disable_cpus (hook E C Last_step_for_suspend t3) = (0, t4)" "goes_on s t4" using late_do [OF E] by blast
  obtain t5 where 5: "irqs_off E C wk t4 = (0, True, t5)" "goes_on s t5" using late_irqs_off [OF E 4(2)] by blast
  have "goes_on s (enable_cpus E C st t5)"
    unfolding enable_cpus_def platform_wake_def platform_finish_def using 5(2) by (intro goes_on_ops goes_on_call goes_on_hook) simp_all
  moreover have "st \<noteq> PM_SUSPEND_FREEZE" using st by (simp add: need_suspend_ops_def)
  ultimately show ?thesis using 1 2 3 4 5 C by (simp add: suspend_enter_def suspend_test_def)
qed

lemma late_devices:
  assumes E: "late_event E" and C: "ops_set C" "\<not> pm_debug C" and st: "need_suspend_ops st" and s: "goes_on s t"
  shows "\<exists>u. suspend_devices_and_enter E C st t = Some (0, u) \<and> goes_on s u"
proof -
  obtain t1 where 1: "ops_call E C st Ops_begin t = (0, t1)" "goes_on s t1" using late_ops [OF E _ _ s] by blast
  have "goes_on s (call E Ftrace_stop (call E Suspend_console t1))" using 1(2) by (intro goes_on_call) simp_all
  then obtain t2 where 2: "do_call E Dpm_suspend_start (call E Ftrace_stop (call E Suspend_console t1)) = (0, t2)" "goes_on s t2"
    using late_do [OF E] by blast
  have "goes_on s (hook E C After_dpm_suspend_start t2)" using 2(2) by (rule goes_on_hook) simp
  then obtain t3 where 3: "suspend_enter E C st False (hook E C After_dpm_suspend_start t2) = (0, True, t3)" "goes_on s t3"
    using late_suspend_enter [OF E C(2) st] by blast
  have loop: "enter_loop E C st False (hook E C After_dpm_suspend_start t2) = Some (0, t3)" using 3(1) by (subst enter_loop.simps) simp
  have "goes_on s (resume_devices E C st t3)"
    unfolding resume_devices_def close_suspend_def using 3(2) by (intro goes_on_ops goes_on_call) simp_all
  then show ?thesis using 1(1) 2(1) loop C by (simp add: suspend_devices_and_enter_def suspend_test_def Let_def)
qed

text \<open>
  C40: A suspend to a state of the platform that is given up because of an event counts as a success. On every
  platform, with whatever methods and hooks it has, when no call fails and an event comes before the core is
  suspended that the device core has not refused (it is counted as pending when the core looks), \<open>suspend_enter\<close>
  sets \<open>wakeup\<close> but no error: \<open>pm_suspend\<close> returns 0 and adds to the successes, though the system has not slept.
\<close>

theorem suspend_abort_is_success:
  assumes platform: "ops_set C" "has C Ops_valid" "has C Ops_enter" "\<not> pm_debug C" and st: "need_suspend_ops st" "st < PM_SUSPEND_MAX"
    and env: "late_event E" and free: "\<not> pm_locked s"
  shows "\<exists>s'. pm_suspend E C st s = Some (0, s') \<and> stat_success s' = stat_success s + 1 \<and> stat_fail s' = stat_fail s \<and>
    first_enter (drop (length (pm_done s)) (pm_done s')) = None"
proof -
  have nf: "st \<noteq> PM_SUSPEND_FREEZE" "0 < st" using st(1) by (simp_all add: need_suspend_ops_def PM_SUSPEND_FREEZE_def)
  obtain r s1 where r: "do_call E Ops_valid s = (r, s1)" by fastforce
  have "r \<noteq> 0" using env r by (auto simp: late_event_def do_call_def split_def)
  then have v: "valid_state E C st s = (True, s1)" using nf platform r by (simp add: valid_state_def)
  have g1: "goes_on s s1" using goes_on_do [of Ops_valid s E] r by simp
  define s0 where "s0 = s1\<lparr>pm_locked := True\<rparr>"
  have "goes_on s0 (call E Console_prepare (call E Sys_sync s0))" by (intro goes_on_call goes_on_refl) simp_all
  then obtain s2 where 2: "do_call E Notify_prepare (call E Console_prepare (call E Sys_sync s0)) = (0, s2)" "goes_on s0 s2"
    using late_do [OF env] by blast
  obtain s3 where 3: "do_call E Freeze_processes s2 = (0, s3)" "goes_on s0 s3" using late_do [OF env _ _ 2(2)] by blast
  have prep: "suspend_prepare E C st (call E Sys_sync s0) = (0, s3)" using 2(1) 3(1) platform by (simp add: suspend_prepare_def)
  obtain z where z: "suspend_devices_and_enter E C st (call E Restrict_gfp s3) = Some (0, z)" "goes_on s0 z"
    using late_devices [OF env platform(1,4) st(1) goes_on_call [OF 3(2), of Restrict_gfp]] by blast
  define y where "y = suspend_finish E (call E Restore_gfp z)"
  have g2: "goes_on s0 y" unfolding y_def suspend_finish_def using z(2) by (intro goes_on_call) simp_all
  have "\<not> pm_locked s1" using g1 free by (simp add: goes_on_def)
  then have "enter_state E C st s = Some (0, y\<lparr>pm_locked := False\<rparr>)"
    using v prep z(1) nf platform(4)
    by (simp add: enter_state_def s0_def [symmetric] y_def suspend_test_def mutex_unlock_pm_def Let_def)
  then have "pm_suspend E C st s = Some (0, y\<lparr>pm_locked := False, stat_success := stat_success y + 1\<rparr>)"
    using nf st(2) by (simp add: pm_suspend_def)
  moreover have "stat_success y = stat_success s" "stat_fail y = stat_fail s" "first_enter (drop (length (pm_done s)) (pm_done y)) = None"
    using g1 g2 by (auto simp: goes_on_def s0_def first_enter_append)
  ultimately show ?thesis by simp
qed

lemma suspend_abort_is_success_witness:
  "\<exists>E s s'. pm_suspend E simple_platform PM_SUSPEND_MEM s = Some (0, s') \<and> stat_success s' = 1 \<and> first_enter (pm_done s') = None"
proof -
  let ?e = "\<lambda>w :: wakeup. w\<lparr>events_check_enabled := True, saved_count := 0, combined_event_count := 1\<rparr>"
  let ?E = "\<lambda>l c w. (of_bool (c = Ops_valid), if c = Syscore_suspend then ?e w else w)"
  let ?s = "\<lparr>pm_done = [], pm_wk = wakeup_start [], pm_locked = False, stat_success = 0, stat_fail = 0, stat_failed_freeze = 0\<rparr>"
  have "armed (?e w)" for w by (simp add: armed_def events_pending_def split_counters_def MAX_IN_PROGRESS_def IN_PROGRESS_BITS_def)
  then have "late_event ?E" by (simp add: late_event_def)
  with suspend_abort_is_success [of simple_platform PM_SUSPEND_MEM ?E ?s] show ?thesis
    by (intro exI [of _ ?E], rule_tac exI [of _ ?s]) (auto simp: need_suspend_ops_def PM_SUSPEND_FREEZE_def PM_SUSPEND_MEM_def PM_SUSPEND_MAX_def)
qed

section \<open>Sleeping again\<close>

text \<open>An event comes while the system sleeps, and the platform asks once to sleep again.\<close>

abbreviation again_platform :: pm_config where
  "again_platform \<equiv> \<lparr>ops_set = True, has = (\<lambda>c. c = Ops_valid \<or> c = Ops_enter \<or> c = Ops_suspend_again), pm_debug = False, pm_test_level = TEST_NONE\<rparr>"

definition busy :: pm_env where
  "busy l c w = (if c = Ops_valid then 1 else if c = Ops_suspend_again \<and> c \<notin> fst ` set l then 1 else 0,
     if c = Ops_enter then w\<lparr>combined_event_count := combined_event_count w + 2 ^ 16\<rparr> else w)"

text \<open>The states of the wake-up sources in which the platform is told to sleep.\<close>

definition entered :: "pm_log \<Rightarrow> wakeup list" where
  "entered l = concat (map (\<lambda>(c, r, w). if c = Ops_enter then [w] else []) l)"

lemma entered_simps [simp]: "entered [] = []" "entered ((c, r, w) # l) = (if c = Ops_enter then w # entered l else entered l)"
  "entered (l @ l') = entered l @ entered l'"
  by (simp_all add: entered_def)

lemma busy_call: "do_call busy c s = (let r = (if c = Ops_valid then 1 else if c = Ops_suspend_again \<and> c \<notin> fst ` set (pm_done s) then 1 else 0)
    in (r, s\<lparr>pm_done := pm_done s @ [(c, r, pm_wk s)],
      pm_wk := if c = Ops_enter then (pm_wk s)\<lparr>combined_event_count := combined_event_count (pm_wk s) + 2 ^ 16\<rparr> else pm_wk s\<rparr>))"
  by (simp add: do_call_def busy_def Let_def)

lemma busy_enter:
  assumes "pm_wakeup_pending (pm_wk t) = (False, pm_wk t)"
  shows "\<exists>s' l. suspend_enter busy again_platform 3 False t = (0, False, s') \<and> pm_done s' = pm_done t @ l \<and> entered l = [pm_wk t] \<and>
    Ops_suspend_again \<notin> fst ` set l \<and>
    pm_wk s' = (pm_wk t)\<lparr>combined_event_count := combined_event_count (pm_wk t) + 2 ^ 16, events_check_enabled := False\<rparr>"
  using assms by (simp add: suspend_defs busy_call call_def Let_def)

text \<open>The loop: the platform is told to sleep twice, the second time with an event pending.\<close>

lemma busy_loop:
  assumes p: "pm_wakeup_pending (pm_wk t) = (False, pm_wk t)" and new: "Ops_suspend_again \<notin> fst ` set (pm_done t)"
  shows "\<exists>s' l. enter_loop busy again_platform 3 False t = Some (0, s') \<and> pm_done s' = pm_done t @ l \<and>
    entered l = [pm_wk t, (pm_wk t)\<lparr>combined_event_count := combined_event_count (pm_wk t) + 2 ^ 16, events_check_enabled := False\<rparr>]"
proof -
  obtain s1 l1 where 1: "suspend_enter busy again_platform 3 False t = (0, False, s1)" "pm_done s1 = pm_done t @ l1" "entered l1 = [pm_wk t]"
    "Ops_suspend_again \<notin> fst ` set l1"
    "pm_wk s1 = (pm_wk t)\<lparr>combined_event_count := combined_event_count (pm_wk t) + 2 ^ 16, events_check_enabled := False\<rparr>"
    using busy_enter [OF p] by blast
  define s2 where "s2 = s1\<lparr>pm_done := pm_done s1 @ [(Ops_suspend_again, 1, pm_wk s1)]\<rparr>"
  have again: "do_call busy Ops_suspend_again s1 = (1, s2)" using 1(2,4) new by (auto simp: busy_call s2_def)
  have "pm_wakeup_pending (pm_wk s2) = (False, pm_wk s2)" by (simp add: s2_def 1(5) pm_wakeup_pending_def)
  from busy_enter [OF this] obtain s3 l3 where 3: "suspend_enter busy again_platform 3 False s2 = (0, False, s3)" "pm_done s3 = pm_done s2 @ l3"
    "entered l3 = [pm_wk s2]" by blast
  define s4 where "s4 = s3\<lparr>pm_done := pm_done s3 @ [(Ops_suspend_again, 0, pm_wk s3)]\<rparr>"
  have stop: "do_call busy Ops_suspend_again s3 = (0, s4)" by (simp add: busy_call s4_def 3(2) s2_def)
  have n: "need_suspend_ops 3" by (simp add: need_suspend_ops_def PM_SUSPEND_FREEZE_def)
  have "enter_loop busy again_platform 3 False s2 = Some (0, s4)" using 3(1) stop n by (subst enter_loop.simps) simp
  then have "enter_loop busy again_platform 3 False t = Some (0, s4)" using 1(1) again n by (subst enter_loop.simps) simp
  then show ?thesis using 1(2,3,5) 3(2,3)
    by (intro exI [of _ s4] exI [of _ "l1 @ (Ops_suspend_again, 1, pm_wk s1) # l3 @ [(Ops_suspend_again, 0, pm_wk s3)]"]) (simp add: s4_def s2_def)
qed

text \<open>The second time nothing is checked: \<open>events_check_enabled\<close> was cleared by the first sleep.\<close>

lemma suspend_again_unchecked:
  assumes armed: "events_check_enabled (pm_wk s)" "\<not> events_pending (pm_wk s)" and free: "\<not> pm_locked s" and new: "Ops_suspend_again \<notin> fst ` set (pm_done s)"
  shows "\<exists>s' l w. pm_suspend busy again_platform PM_SUSPEND_MEM s = Some (0, s') \<and> pm_done s' = pm_done s @ l \<and> entered l = [pm_wk s, w] \<and>
    combined_event_count w = combined_event_count (pm_wk s) + 2 ^ 16"
proof -
  have p: "pm_wakeup_pending (pm_wk s) = (False, pm_wk s)" using armed by (simp add: pm_wakeup_pending_def)
  define f where "f t = snd (the (enter_loop busy again_platform 3 False t))" for t
  define l where "l t = drop (length (pm_done t)) (pm_done (f t))" for t
  have loop: "enter_loop busy again_platform 3 False t = Some (0, f t) \<and> pm_done (f t) = pm_done t @ l t \<and>
      entered (l t) = [pm_wk s, (pm_wk s)\<lparr>combined_event_count := combined_event_count (pm_wk s) + 2 ^ 16, events_check_enabled := False\<rparr>]"
    if "pm_wk t = pm_wk s" "Ops_suspend_again \<notin> fst ` set (pm_done t)" for t
    using busy_loop [of t] p that by (auto simp: f_def l_def)
  show ?thesis using free new by (simp add: pm_suspend_def suspend_defs busy_call call_def Let_def loop)
qed

lemma suspend_undone_witness:
  "\<exists>e s'. pm_suspend calm simple_platform PM_SUSPEND_MEM
      \<lparr>pm_done = [], pm_wk = wakeup_start [], pm_locked = False, stat_success = 0, stat_fail = 0, stat_failed_freeze = 0\<rparr> = Some (e, s') \<and>
    brackets simple_platform (results (pm_done s')) [] = Some [] \<and> \<not> pm_locked s'"
proof -
  have "asks_at_most 0 calm" by (simp add: asks_at_most_def)
  from suspend_undone [OF this, of simple_platform PM_SUSPEND_MEM
      "\<lparr>pm_done = [], pm_wk = wakeup_start [], pm_locked = False, stat_success = 0, stat_fail = 0, stat_failed_freeze = 0\<rparr>"]
  show ?thesis by simp
qed

lemma suspend_enters_quiet_witness:
  "\<exists>s s' w acts2. pm_suspend calm simple_platform PM_SUSPEND_MEM s = Some (0, s') \<and> first_enter (pm_done s') = Some w \<and>
     wakeup_run (\<lambda>ms. 1) (pm_wk s) acts2 w"
proof -
  let ?init = "wakeup_start []" and ?w = "(wakeup_start [])\<lparr>saved_count := 0, events_check_enabled := True\<rparr>"
  let ?s = "\<lparr>pm_done = [], pm_wk = ?w, pm_locked = False, stat_success = 0, stat_fail = 0, stat_failed_freeze = 0\<rparr>"
  have z: "split_counters ?init = (0, 0)" "split_counters ?w = (0, 0)" by (simp_all add: split_counters_def wakeup_start_def)
  have g: "pm_get_wakeup_count [] False ?init = (0, True, ?init)" using z(1) by (simp add: pm_get_wakeup_count_def)
  have sv: "pm_save_wakeup_count 0 ?init = (True, pm_wk ?s)" by (simp add: pm_save_wakeup_count_def split_counters_def wakeup_start_def)
  have p: "pm_wakeup_pending ?w = (False, ?w)" using z(2) by (simp add: pm_wakeup_pending_def events_pending_def)
  have k: "kernel_runs (\<lambda>ms. 1) calm" unfolding kernel_runs_def by (intro allI exI [of _ "[]"]) (simp add: wakeup_run.start)
  have e: "\<exists>s'. suspend_enter calm simple_platform 3 False t = (0, False, s') \<and> (\<exists>l. pm_done s' = pm_done t @ l \<and> first_enter l = Some ?w)"
    if "pm_wk t = ?w" for t using that p by (simp add: suspend_defs calm_call call_def Let_def)
  define f where "f t = snd (the (enter_loop calm simple_platform 3 False t))" for t
  define l where "l t = drop (length (pm_done t)) (pm_done (f t))" for t
  have loop: "\<exists>s'. enter_loop calm simple_platform 3 False t = Some (0, s') \<and> (\<exists>l. pm_done s' = pm_done t @ l \<and> first_enter l = Some ?w)"
    if "pm_wk t = ?w" for t using e [OF that] by (subst enter_loop.simps) auto
  have f: "enter_loop calm simple_platform 3 False t = Some (0, f t) \<and> pm_done (f t) = pm_done t @ l t \<and> first_enter (l t) = Some ?w"
    if "pm_wk t = ?w" for t using loop [OF that] by (auto simp: f_def l_def)
  have x: "\<exists>s'. pm_suspend calm simple_platform PM_SUSPEND_MEM ?s = Some (0, s') \<and> first_enter (pm_done s') = Some ?w"
    by (simp add: pm_suspend_def suspend_defs calm_call call_def Let_def f first_enter_append)
  then obtain s' where s': "pm_suspend calm simple_platform PM_SUSPEND_MEM ?s = Some (0, s')" "first_enter (pm_done s') = Some ?w" by blast
  have "first_enter (drop (length (pm_done ?s)) (pm_done s')) = Some ?w" using s'(2) by simp
  from suspend_enters_quiet [OF wakeup_run.start g wakeup_run.start sv k s'(1) this]
  obtain acts2 where "wakeup_run (\<lambda>ms. 1) (pm_wk ?s) acts2 ?w" by blast
  with s' show ?thesis by blast
qed

end
