(* ===== verification/Spec2Isabelle.thy ===== *)
theory Spec2Isabelle
  imports AcsmProof FatFreeProof LoggerProof BpDeviceProof Arm64DebugProof PthreadMutexWake MutexDebugProof PthreadKeyProof KmpProof PrintkProof SuspendProof
begin

text \<open>
  A verification library for the C code of this repository: the author's own programs (a string
  matcher, a search program) and the parts of an Android 5.0 tree (kernel, C library, system tools)
  that the repository keeps because it changes or debugs them.

  \<^bold>\<open>The parts and how they interact.\<close>

  \<^item> \<^bold>\<open>Aho-Corasick matcher\<close> (\<open>algo/aho_corasick_state_machine\<close>). A library of its own: patterns are
    added to a trie of states in a heap, \<open>acsm_compile\<close> computes the failure links breadth first with
    an intrusive queue, \<open>acsm_search\<close> runs a text through the table. Theories \<open>Acsm\<close> (states, heap,
    all functions of \<open>acsm.c\<close>), \<open>AcsmQueue\<close>, \<open>AcsmQueueProof\<close> (the queue as the locale \<open>fifo\<close>),
    \<open>AcsmGoto\<close> (trie), \<open>AcsmCompile\<close> (failure links), \<open>AcsmProof\<close> (search, release, errors).
  \<^item> \<^bold>\<open>FAT\<close> (\<open>kernel/fs/fat/fatent.c\<close>). The author's block manager keeps the free clusters as a tree and
    lists of nodes and reserves a node for an inode (\<open>BlockManager\<close>, \<open>BlockManagerProof\<close>); entries
    of 12, 16 and 32 bits are read and written in buffers (\<open>FatEntry\<close>, \<open>FatEntryProof\<close>);
    \<open>fat_alloc_clusters\<close>, \<open>fat_free_clusters\<close> and \<open>fat_count_free_clusters\<close> use both (\<open>FatAlloc\<close>,
    \<open>FatAllocProof\<close>, \<open>FatFreeProof\<close>). What they use of the manager is the interface \<open>FreeSpace\<close>: the
    locales \<open>cluster_source\<close> and \<open>cluster_sink\<close>, interpreted on the block manager.
  \<^item> \<^bold>\<open>Android logger\<close> (\<open>kernel/drivers/staging/android/logger.c\<close>). A byte ring with readers as
    offsets: \<open>Logger\<close> (the driver), \<open>LoggerRing\<close> (offsets as pointers into a sequence of entries),
    \<open>LoggerWrite\<close>, \<open>LoggerProof\<close> (all operations, as a state machine of one device).
  \<^item> \<^bold>\<open>Hardware breakpoints\<close>. The slots of \<open>kernel/events/hw_breakpoint.c\<close> (\<open>HwBp\<close>, \<open>HwBpProof\<close>), the
    author's device \<open>drivers/misc/breakpoint/breakpoint.c\<close> and its client
    \<open>system/core/watchpoint/watchpoint.c\<close> above them (\<open>BpDevice\<close>, \<open>BpDeviceProof\<close>), and the arm64
    registers below, \<open>arch/arm64/kernel/hw_breakpoint.c\<close> (\<open>Arm64Debug\<close>, \<open>Arm64DebugProof\<close>). The
    perf core between them is a record of functions, a parameter.
  \<^item> \<^bold>\<open>Mutexes, keys and threads of the C library\<close> (\<open>bionic/libc/bionic/pthread_mutex.cpp\<close>,
    \<open>pthread_key.cpp\<close>, \<open>pthread_internals.cpp\<close>, \<open>pthread_create.cpp\<close>). \<open>PthreadMutex\<close> has each call as
    steps on the word of the mutex and a futex; \<open>PthreadMutexProof\<close> and \<open>PthreadMutexWake\<close> hold the
    invariant of all interleavings and its consequences. \<open>PthreadKey\<close> and \<open>PthreadKeyProof\<close> model the
    key map, the list of threads, the destructors and \<open>pthread_create\<close>.
  \<^item> \<^bold>\<open>Record of held locks\<close> (\<open>system/core/unwind/mutexdebug.cpp\<close>): the hooks the author put into the
    mutexes, \<open>MutexDebug\<close> and \<open>MutexDebugProof\<close>.
  \<^item> \<^bold>\<open>Kernel log\<close> (\<open>kernel/kernel/printk.c\<close>). Records with headers in a byte ring, a second buffer for the
    records after an oops, and many readers. \<open>PrintkBuf\<close> has the records as bytes and \<open>log_store\<close>,
    \<open>RecordLog\<close> the interface of the readers as the locale \<open>record_log\<close>, which \<open>PrintkRing\<close> interprets on
    the ring. \<open>PrintkText\<close> and \<open>PrintkTextProof\<close> print a record, \<open>PrintkRead\<close> has the loops of \<open>syslog\<close>,
    \<open>PrintkDev\<close> the system call, \<open>/dev/kmsg\<close> and the dumpers, \<open>PrintkEmit\<close> the line under construction,
    \<open>vprintk_emit\<close> and the consoles; \<open>PrintkSyslog\<close>, \<open>PrintkReaders\<close>, \<open>PrintkProof\<close> prove what they do.
  \<^item> \<^bold>\<open>Wake-up sources and suspend\<close> (\<open>kernel/drivers/base/power/wakeup.c\<close>,
    \<open>kernel/kernel/power/suspend.c\<close> with the author's hooks). \<open>Wakeup\<close> has the sources, the combined counter
    of events and each section under a source's lock as a step, \<open>WakeupCount\<close> and \<open>WakeupProof\<close> what the
    counter says under all interleavings. \<open>Suspend\<close> has the stages of suspend over an environment that
    answers the calls and changes the sources meanwhile, with a log of the calls; \<open>SuspendProof\<close> reads the
    log as brackets that open and close, and brings both files together.
  \<^item> \<^bold>\<open>KMP search\<close> (\<open>algo/kmp/kmp.cc\<close>): \<open>Kmp\<close>, \<open>KmpProof\<close>.

  \<open>Prelude\<close> holds what all share: machine types, error numbers, the allocator oracle, lemmas on lists,
  words and functions.

  \<^bold>\<open>How code becomes definitions.\<close> Each operation is one definition with the name of the C function,
  with the loops of its body as recursive functions beside it. A C structure is a \<open>record\<close>, memory
  with aliasing is a map from addresses to records, machine integers are words at the width of the
  source; where a bound rules overflow out, counters are \<open>nat\<close> or \<open>int\<close> and the text of the theory
  says so. Null and wild accesses are \<open>None\<close>, error numbers are the values the code returns.
  \<open>malloc\<close> and its kin draw from a list of outcomes, so every allocation failure is a branch.
  Spin-lock critical sections are single steps; code whose interleaving matters (the mutexes, the
  hooks, the wake-up sources) is a step relation over the states of all threads.

  \<^bold>\<open>What the lemmas show.\<close> For each component an invariant of its state that every operation keeps, what
  each operation does on every branch with its errors, and where the component has a contract, a
  refinement: the matcher's table is the automaton of the patterns, the block manager is a set of free
  clusters, the FAT is a function from entries to values, the logger is a sequence of entries with
  readers in it, the kernel log is the list of the newest records with a position for
  each reader, the mutex word is an owner with a count, the list of held locks is the map from mutexes
  to holders, the log of a suspend is a well-bracketed word. The theorems named C1 to C40 in the theories are the main ones.

  \<^bold>\<open>Loops.\<close> Loops are structural recursion, recursion with a measure, or, where the code may
  run for ever (following a broken chain, a futex wait, the search with \<open>-m\<close>), partial functions or
  step relations; that they return is then proved, with the hypothesis it needs, or refuted. No
  definition has a fuel argument.

  \<^bold>\<open>Parameters and hypotheses.\<close> Code outside the repository is an argument: the buffer cache and the
  inode hash of FAT, the perf core, the cpu's debug registers, user memory copies, the scheduler's
  choice of the woken thread, the unwinder, all that suspend calls (platform, drivers, processes, cpus).
  Hypotheses on them (a copy within range succeeds, the cache
  returns what was written) are premises of the theorems that need them, with a witness each.

  \<^bold>\<open>Not modelled, and why.\<close> Most of the tree's bulk is upstream code of which the author changed a
  few lines of tracing (\<open>sched/core.c\<close>, \<open>soc-dapm.c\<close>, \<open>regulator/core.c\<close>, \<open>msm8x16-wcd.c\<close>, \<open>vmalloc.c\<close>,
  \<open>page-writeback.c\<close>, \<open>gpiolib.c\<close>, the SPMI, pin-control and interrupt drivers, the audio frameworks):
  it rests on headers, hardware and subsystems that are not in the repository, so a model of it would
  be of invented code. \<open>debug_mem\<close>, \<open>i2c_rw\<close>, the cci debug file and the samples are register and
  system-call wrappers. The linker, libunwind and dlmalloc are third-party code that is called, not
  changed. Of \<open>printk.c\<close> the list of console
  drivers and its command line, console suspend, rate limits and delays are left out: they call drivers
  and timers. Of \<open>wakeup.c\<close> and \<open>suspend.c\<close> tracing, messages and the debugfs file are left out.
  The arm32 breakpoint registers repeat the arm64 ones for another register layout.
\<close>

end
